(* ===== verification/Ultima_Prelude.thy ===== *)
theory Ultima_Prelude
  imports Main "HOL-Library.Word" "HOL-Library.Multiset"
begin

text \<open>
  Shared material of the development: the fact collections, the model of Go's machine
  integers where a width matters, bytes and byte strings, and the generic list and map
  lemmas that several components use.

  Go strings and byte slices are \<^typ>\<open>string\<close>, that is lists of 8-bit characters, so
  \<^const>\<open>length\<close> counts bytes exactly as Go's \<^verbatim>\<open>len\<close> does. Signed 64-bit integers are
  \<^typ>\<open>int\<close> with the wrap-around written out by \<open>wrap64\<close> at every operation of the source
  that can overflow; unsigned ones are \<^typ>\<open>nat\<close> with \<^verbatim>\<open>mod 2^64\<close> written out.
\<close>

named_theorems inv_intros \<open>an operation keeps an invariant\<close>
named_theorems view_simps \<open>what an operation does to the keyspace a client sees\<close>
named_theorems bytes_simps \<open>content-byte counters\<close>

section \<open>Machine integers\<close>

definition wrap64 :: "int \<Rightarrow> int" where
  "wrap64 x = (x + 2 ^ 63) mod 2 ^ 64 - 2 ^ 63"

abbreviation MaxInt64 :: int where "MaxInt64 \<equiv> 2 ^ 63 - 1"
abbreviation MinInt64 :: int where "MinInt64 \<equiv> - (2 ^ 63)"

definition is_i64 :: "int \<Rightarrow> bool" where
  "is_i64 x \<longleftrightarrow> MinInt64 \<le> x \<and> x \<le> MaxInt64"

text \<open>Go's integer division truncates towards zero.\<close>

definition quot :: "int \<Rightarrow> int \<Rightarrow> int" where
  "quot a b = sgn a * sgn b * (\<bar>a\<bar> div \<bar>b\<bar>)"

section \<open>Bytes\<close>

definition byte :: "char \<Rightarrow> nat" where
  "byte c = of_char c"

definition chr :: "nat \<Rightarrow> char" where
  "chr n = char_of n"

section \<open>Machine integer lemmas\<close>

lemma wrap64_id [simp]: "is_i64 x \<Longrightarrow> wrap64 x = x"
  by (simp add: wrap64_def is_i64_def)

lemma wrap64_range [simp, intro]: "is_i64 (wrap64 x)"
proof -
  have "0 \<le> (x + 2 ^ 63) mod (2 ^ 64 :: int)" and "(x + 2 ^ 63) mod (2 ^ 64 :: int) < 2 ^ 64"
    by simp_all
  then show ?thesis unfolding wrap64_def is_i64_def by simp
qed

lemma quot_nonneg: "0 \<le> a \<Longrightarrow> 0 < b \<Longrightarrow> quot a b = a div b"
  by (cases "a = 0") (simp_all add: quot_def sgn_if)

section \<open>Byte lemmas\<close>

lemma byte_less_256 [simp]: "byte c < 256"
  by (simp add: byte_def)

lemma byte_chr: "n < 256 \<Longrightarrow> byte (chr n) = n"
  by (simp add: byte_def chr_def)

lemma chr_byte [simp]: "chr (byte c) = c"
  by (simp add: byte_def chr_def)

lemma byte_inject [simp]: "byte a = byte b \<longleftrightarrow> a = b"
  by (metis chr_byte)

lemma chr_eqI: "byte c = n \<Longrightarrow> chr n = c"
  by auto

lemma chr_digits [simp]:
  "chr 48 = CHR ''0''" "chr 49 = CHR ''1''" "chr 50 = CHR ''2''" "chr 51 = CHR ''3''" "chr 52 = CHR ''4''"
  "chr 53 = CHR ''5''" "chr 54 = CHR ''6''" "chr 55 = CHR ''7''" "chr 56 = CHR ''8''" "chr 57 = CHR ''9''"
  by (rule chr_eqI, simp add: byte_def)+

section \<open>Lists\<close>

text \<open>Removing position \<open>i\<close>: Go's \<^verbatim>\<open>append(xs[:i], xs[i+1:]...)\<close>.\<close>

definition remove_nth :: "nat \<Rightarrow> 'a list \<Rightarrow> 'a list" where
  "remove_nth i xs = take i xs @ drop (Suc i) xs"

text \<open>Inserting at position \<open>i\<close>: Go's append, copy, assign idiom.\<close>

definition insert_nth :: "nat \<Rightarrow> 'a \<Rightarrow> 'a list \<Rightarrow> 'a list" where
  "insert_nth i x xs = take i xs @ x # drop i xs"

lemma length_remove_nth [simp]: "i < length xs \<Longrightarrow> length (remove_nth i xs) = length xs - 1"
  by (simp add: remove_nth_def)

lemma length_insert_nth [simp]: "i \<le> length xs \<Longrightarrow> length (insert_nth i x xs) = Suc (length xs)"
  by (simp add: insert_nth_def)

lemma set_insert_nth [simp]: "set (insert_nth i x xs) = insert x (set xs)"
proof -
  have "set (take i xs) \<union> set (drop i xs) = set xs"
    by (metis append_take_drop_id set_append)
  then show ?thesis by (auto simp: insert_nth_def)
qed

lemma remove_nth_split:
  assumes "i < length xs"
  shows "xs = take i xs @ xs ! i # drop (Suc i) xs"
  using assms by (rule id_take_nth_drop)

lemma mset_remove_nth: "i < length xs \<Longrightarrow> add_mset (xs ! i) (mset (remove_nth i xs)) = mset xs"
proof -
  assume "i < length xs"
  then have "mset xs = mset (take i xs @ xs ! i # drop (Suc i) xs)"
    by (metis remove_nth_split)
  then show ?thesis by (simp add: remove_nth_def)
qed

lemma set_remove_nth_distinct:
  assumes "distinct xs" "i < length xs"
  shows "set (remove_nth i xs) = set xs - {xs ! i}"
proof -
  have xs: "xs = take i xs @ xs ! i # drop (Suc i) xs"
    using assms(2) by (rule remove_nth_split)
  then have "distinct (take i xs @ xs ! i # drop (Suc i) xs)"
    using assms(1) by metis
  then have "xs ! i \<notin> set (remove_nth i xs)" by (auto simp: remove_nth_def)
  moreover have "set xs = insert (xs ! i) (set (remove_nth i xs))"
    by (subst xs) (auto simp: remove_nth_def)
  ultimately show ?thesis by auto
qed

lemma set_remove_nth_subset: "set (remove_nth i xs) \<subseteq> set xs"
  by (auto simp: remove_nth_def dest: in_set_takeD in_set_dropD)

lemma distinct_remove_nth [intro]: "distinct xs \<Longrightarrow> distinct (remove_nth i xs)"
  unfolding remove_nth_def
  by (simp add: set_take_disj_set_drop_if_distinct)

lemma map_remove_nth: "map f (remove_nth i xs) = remove_nth i (map f xs)"
  by (simp add: remove_nth_def take_map drop_map)

lemma nth_remove_nth:
  assumes "i < length xs" "j < length xs - 1"
  shows "remove_nth i xs ! j = (if j < i then xs ! j else xs ! Suc j)"
  using assms by (auto simp: remove_nth_def nth_append min_def)

lemma sum_list_remove_nth:
  fixes f :: "'a \<Rightarrow> int"
  assumes "i < length xs"
  shows "sum_list (map f (remove_nth i xs)) = sum_list (map f xs) - f (xs ! i)"
proof -
  have "sum_list (map f xs) = sum_list (map f (take i xs @ xs ! i # drop (Suc i) xs))"
    using assms by (metis remove_nth_split)
  then show ?thesis by (simp add: remove_nth_def)
qed

lemma sum_list_insert_nth:
  fixes f :: "'a \<Rightarrow> int"
  shows "sum_list (map f (insert_nth i x xs)) = f x + sum_list (map f xs)"
proof -
  have "sum_list (map f xs) = sum_list (map f (take i xs @ drop i xs))" by simp
  then show ?thesis unfolding insert_nth_def map_append sum_list_append by simp
qed

lemma sum_list_update_int:
  fixes f :: "'a \<Rightarrow> int"
  assumes "i < length xs"
  shows "sum_list (map f (xs[i := y])) = sum_list (map f xs) + f y - f (xs ! i)"
proof -
  have "sum_list (map f xs) = sum_list (map f (take i xs @ xs ! i # drop (Suc i) xs))"
    using assms by (metis remove_nth_split)
  then show ?thesis using assms by (simp add: upd_conv_take_nth_drop)
qed

lemma sum_list_upd_id:
  fixes xs :: "int list"
  assumes "i < length xs"
  shows "sum_list (xs[i := y]) = sum_list xs + y - xs ! i"
  using sum_list_update_int [OF assms, of id] by simp

text \<open>First position whose element satisfies a predicate: Go's \<^verbatim>\<open>for i := range\<close> search.\<close>

fun find_index :: "('a \<Rightarrow> bool) \<Rightarrow> 'a list \<Rightarrow> nat option" where
  "find_index p [] = None"
| "find_index p (x # xs) = (if p x then Some 0 else map_option Suc (find_index p xs))"

lemma find_index_None: "find_index p xs = None \<longleftrightarrow> (\<forall>x \<in> set xs. \<not> p x)"
  by (induction xs) auto

lemma find_index_Some:
  "find_index p xs = Some i \<Longrightarrow> i < length xs \<and> p (xs ! i) \<and> (\<forall>j < i. \<not> p (xs ! j))"
proof (induction xs arbitrary: i)
  case Nil
  then show ?case by simp
next
  case (Cons x xs)
  show ?case
  proof (cases "p x")
    case True
    with Cons.prems show ?thesis by simp
  next
    case False
    with Cons.prems obtain j where j: "find_index p xs = Some j" and i: "i = Suc j" by auto
    from Cons.IH [OF j] False show ?thesis
      unfolding i by (auto simp: nth_Cons less_Suc_eq_0_disj)
  qed
qed

lemma find_index_first:
  assumes "find_index p xs = Some i" "j < length xs" "p (xs ! j)"
  shows "i \<le> j"
  using find_index_Some [OF assms(1)] assms(3) by (meson not_le)

lemma find_index_distinct:
  assumes "find_index (\<lambda>x. f x = a) xs = Some i" "distinct (map f xs)" "j < length xs" "f (xs ! j) = a"
  shows "j = i"
proof -
  from find_index_Some [OF assms(1)] have i: "i < length xs" "f (xs ! i) = a" by auto
  have "map f xs ! j = map f xs ! i" using assms(3,4) i by simp
  then show ?thesis using assms(2,3) i(1) nth_eq_iff_index_eq [of "map f xs"] by simp
qed

lemma find_index_append:
  "find_index p (xs @ ys) =
     (case find_index p xs of Some i \<Rightarrow> Some i | None \<Rightarrow> map_option ((+) (length xs)) (find_index p ys))"
  by (cases "find_index p ys"; induction xs) (auto split: option.splits)

lemma fst_image_nth: "f \<in> fst ` set ps \<longleftrightarrow> (\<exists>j < length ps. fst (ps ! j) = f)"
  by (force simp: in_set_conv_nth)

lemma find_index_fst_None: "find_index (\<lambda>p. fst p = f) ps = None \<longleftrightarrow> f \<notin> fst ` set ps"
  by (auto simp: find_index_None)

lemma find_index_fst_nth:
  assumes "distinct (map fst ps)" "i < length ps"
  shows "find_index (\<lambda>p. fst p = fst (ps ! i)) ps = Some i"
proof -
  have "fst (ps ! i) \<in> fst ` set ps" using assms(2) by simp
  then obtain j where j: "find_index (\<lambda>p. fst p = fst (ps ! i)) ps = Some j"
    using find_index_fst_None [of "fst (ps ! i)" ps] by auto
  then show ?thesis using find_index_distinct [OF j assms(1,2)] by simp
qed

end
