(* ===== verification/Decimal.thy ===== *)
theory Decimal
  imports Ultima_Prelude
begin

text \<open>
  Decimal numerals: \<^verbatim>\<open>ParseInt64\<close> (\<^verbatim>\<open>src/lib/types/types.go\<close>) and its twin
  \<^verbatim>\<open>parseIntStrict\<close>, \<^verbatim>\<open>parseCursor\<close>, \<^verbatim>\<open>parseMemBytes\<close> and \<^verbatim>\<open>lowerASCII\<close>
  (\<^verbatim>\<open>src/lib/commands/engine.go\<close>), \<^verbatim>\<open>uintToStr\<close> (\<^verbatim>\<open>src/lib/commands/keys.go\<close>) and the
  standard library's \<^verbatim>\<open>strconv.FormatInt(v, 10)\<close> and \<^verbatim>\<open>strconv.Atoi\<close>.

  The accumulator of the parsers is a \<^verbatim>\<open>uint64\<close> and \<^verbatim>\<open>v = v*10 + d\<close> is computed before the
  range test, so the multiplication can wrap around: the model keeps the \<^verbatim>\<open>mod 2^64\<close>. The
  lemmas show that the parsers invert \<^verbatim>\<open>FormatInt\<close>, that every result is an \<^verbatim>\<open>int64\<close>, that
  inputs of at most 19 digits are accepted only in canonical form, and that the wrap-around
  makes some 20-digit numerals parse to an unrelated value.
\<close>

section \<open>Definitions\<close>

definition is_digit :: "char \<Rightarrow> bool" where
  "is_digit c \<longleftrightarrow> 48 \<le> byte c \<and> byte c \<le> 57"

text \<open>The digit loop shared by both parsers, \<^verbatim>\<open>v\<close> a 64-bit unsigned accumulator.\<close>

fun parse_digits :: "nat \<Rightarrow> string \<Rightarrow> nat option" where
  "parse_digits v [] = Some v"
| "parse_digits v (c # cs) =
     (if byte c < 48 \<or> 57 < byte c then None
      else let v' = (v * 10 + (byte c - 48)) mod 2 ^ 64
           in if 2 ^ 63 < v' then None else parse_digits v' cs)"

definition ParseInt64 :: "string \<Rightarrow> int option" where
  "ParseInt64 s =
     (if length s = 0 then None
      else let neg = (s ! 0 = CHR ''-''); i = (if neg then 1 else 0)
        in if neg \<and> length s = 1 then None
           else if s ! i = CHR ''0''
             then (if length s - i \<noteq> 1 \<or> neg then None else Some 0)
           else (case parse_digits 0 (drop i s) of
               None \<Rightarrow> None
             | Some v \<Rightarrow>
                 if neg then (if v = 2 ^ 63 then Some (- (2 ^ 63)) else Some (- int v))
                 else if 2 ^ 63 \<le> v then None
                 else Some (int v)))"

definition parseIntStrict :: "string \<Rightarrow> int option" where
  "parseIntStrict b =
     (if length b = 0 then None
      else let neg = (b ! 0 = CHR ''-''); i = (if neg then 1 else 0)
        in if neg \<and> length b = 1 then None
           else if b ! i = CHR ''0''
             then (if length b - i \<noteq> 1 then None else if neg then None else Some 0)
           else (case parse_digits 0 (drop i b) of
               None \<Rightarrow> None
             | Some v \<Rightarrow>
                 if neg then (if v = 2 ^ 63 then Some (- (2 ^ 63)) else Some (- int v))
                 else if 2 ^ 63 \<le> v then None
                 else Some (int v)))"

text \<open>\<^verbatim>\<open>uint64(v)\<close> of a negative number wraps.\<close>

definition parseCursor :: "string \<Rightarrow> nat option" where
  "parseCursor b =
     (case parseIntStrict b of Some v \<Rightarrow> Some (nat (v mod 2 ^ 64)) | None \<Rightarrow> None)"

fun nat_digits :: "nat \<Rightarrow> string" where
  "nat_digits n = (if n < 10 then [chr (48 + n)] else nat_digits (n div 10) @ [chr (48 + n mod 10)])"

declare nat_digits.simps [simp del]

definition FormatInt :: "int \<Rightarrow> string" where
  "FormatInt v = (if v < 0 then CHR ''-'' # nat_digits (nat (- v)) else nat_digits (nat v))"

fun uintToStr_loop :: "nat \<Rightarrow> string \<Rightarrow> string" where
  "uintToStr_loop v buf =
     (if v = 0 then buf else uintToStr_loop (v div 10) (chr (48 + v mod 10) # buf))"

declare uintToStr_loop.simps [simp del]

definition uintToStr :: "nat \<Rightarrow> string" where
  "uintToStr v = (if v = 0 then ''0'' else uintToStr_loop v [])"

text \<open>\<^verbatim>\<open>lowerASCII\<close> returns its argument unless it holds an upper-case letter.\<close>

definition lower_byte :: "char \<Rightarrow> char" where
  "lower_byte c = (if 65 \<le> byte c \<and> byte c \<le> 90 then chr (byte c + 32) else c)"

definition lowerASCII :: "string \<Rightarrow> string" where
  "lowerASCII b =
     (if \<exists>c \<in> set b. 65 \<le> byte c \<and> byte c \<le> 90 then map lower_byte b else b)"

text \<open>
  \<^verbatim>\<open>strings.ToLower\<close>, as far as ASCII letters come out of it: besides A to Z, U+212A (bytes E2 84 AA)
  becomes k and U+0130 (bytes C4 B0) becomes i. Other letters beyond ASCII stay beyond ASCII.
\<close>

fun toLower :: "string \<Rightarrow> string" where
  "toLower [] = []"
| "toLower (a # s) =
     (case s of
        b # s1 \<Rightarrow>
          if byte a = 0xC4 \<and> byte b = 0xB0 then CHR ''i'' # toLower s1
          else (case s1 of
                  c # s2 \<Rightarrow> if byte a = 0xE2 \<and> byte b = 0x84 \<and> byte c = 0xAA then CHR ''k'' # toLower s2 else lower_byte a # toLower s
                | [] \<Rightarrow> lower_byte a # toLower s)
      | [] \<Rightarrow> [lower_byte a])"

text \<open>\<^verbatim>\<open>parseMemBytes\<close>: the suffix table is tried in the order of the source.\<close>

definition mem_suffixes :: "(string \<times> int) list" where
  "mem_suffixes =
     [(''kb'', 2 ^ 10), (''mb'', 2 ^ 20), (''gb'', 2 ^ 30), (''k'', 2 ^ 10), (''m'', 2 ^ 20), (''g'', 2 ^ 30)]"

definition has_suffix :: "string \<Rightarrow> string \<Rightarrow> bool" where
  "has_suffix s suf \<longleftrightarrow> length suf \<le> length s \<and> drop (length s - length suf) s = suf"

definition parseMemBytes :: "string \<Rightarrow> int option" where
  "parseMemBytes b =
     (let s = toLower b;
          hit = find (\<lambda>(suf, m). has_suffix s suf) mem_suffixes;
          mult = (case hit of Some (suf, m) \<Rightarrow> m | None \<Rightarrow> 1);
          s' = (case hit of Some (suf, m) \<Rightarrow> take (length s - length suf) s | None \<Rightarrow> s)
      in case parseIntStrict s' of
           None \<Rightarrow> None
         | Some v \<Rightarrow>
             if v < 0 then None
             else if 1 < mult \<and> quot (2 ^ 62) mult < v then None
             else Some (wrap64 (v * mult)))"

section \<open>The digit loop\<close>

lemma is_digit_chr: "n < 10 \<Longrightarrow> is_digit (chr (48 + n))"
  by (simp add: is_digit_def byte_chr)

lemma nat_digits_digits: "c \<in> set (nat_digits n) \<Longrightarrow> is_digit c"
proof (induction n rule: nat_digits.induct)
  case (1 n)
  show ?case
  proof (cases "n < 10")
    case True
    with 1(2) show ?thesis by (simp add: nat_digits.simps [of n] is_digit_chr)
  next
    case False
    with 1 show ?thesis by (auto simp: nat_digits.simps [of n] is_digit_chr)
  qed
qed

lemma nat_digits_nonempty [simp]: "nat_digits n \<noteq> []"
  by (subst nat_digits.simps) simp

text \<open>The value a digit string denotes, without wrap-around.\<close>

fun dec_val :: "nat \<Rightarrow> string \<Rightarrow> nat" where
  "dec_val v [] = v"
| "dec_val v (c # cs) = dec_val (v * 10 + (byte c - 48)) cs"

lemma dec_val_append: "dec_val v (xs @ ys) = dec_val (dec_val v xs) ys"
  by (induction xs arbitrary: v) auto

lemma dec_val_ge: "v \<le> dec_val v cs"
proof (induction cs arbitrary: v)
  case Nil
  then show ?case by simp
next
  case (Cons c cs)
  have "v \<le> v * 10 + (byte c - 48)" by simp
  also have "\<dots> \<le> dec_val (v * 10 + (byte c - 48)) cs" by (rule Cons.IH)
  finally show ?case by simp
qed

lemma dec_val_nat_digits: "dec_val 0 (nat_digits n) = n"
proof (induction n rule: nat_digits.induct)
  case (1 n)
  show ?case
  proof (cases "n < 10")
    case True
    then show ?thesis by (simp add: nat_digits.simps [of n] byte_chr)
  next
    case False
    with 1 show ?thesis
      by (simp add: nat_digits.simps [of n] dec_val_append byte_chr)
  qed
qed

text \<open>As long as the value stays within the limit no product wraps.\<close>

lemma parse_digits_no_wrap:
  assumes "\<forall>c \<in> set cs. is_digit c" "dec_val v cs \<le> 2 ^ 63"
  shows "parse_digits v cs = Some (dec_val v cs)"
  using assms
proof (induction cs arbitrary: v)
  case Nil
  then show ?case by simp
next
  case (Cons c cs)
  let ?v = "v * 10 + (byte c - 48)"
  have le: "?v \<le> 2 ^ 63" using Cons.prems(2) dec_val_ge [of ?v cs] by simp
  then have "?v mod 2 ^ 64 = ?v" by simp
  moreover have "parse_digits ?v cs = Some (dec_val ?v cs)"
    using Cons.prems by (intro Cons.IH) auto
  ultimately show ?case
    using Cons.prems(1) le by (simp add: is_digit_def Let_def)
qed

lemma parse_digits_bound: "parse_digits v cs = Some w \<Longrightarrow> v \<le> 2 ^ 63 \<Longrightarrow> w \<le> 2 ^ 63"
  by (induction v cs rule: parse_digits.induct) (auto simp: Let_def split: if_splits)

lemma dec_val_upper: "\<forall>c \<in> set cs. is_digit c \<Longrightarrow> dec_val v cs < (v + 1) * 10 ^ length cs"
proof (induction cs arbitrary: v)
  case Nil
  then show ?case by simp
next
  case (Cons c cs)
  let ?v = "v * 10 + (byte c - 48)"
  have "?v + 1 \<le> (v + 1) * 10" using Cons.prems by (auto simp: is_digit_def)
  then have "(?v + 1) * 10 ^ length cs \<le> (v + 1) * 10 * 10 ^ length cs"
    by (rule mult_right_mono) simp
  moreover have "dec_val ?v cs < (?v + 1) * 10 ^ length cs"
    using Cons.prems by (intro Cons.IH) simp
  ultimately show ?case by (simp add: algebra_simps)
qed

text \<open>With at most 19 digits the accumulator never wraps, so an accepted value is the true one.\<close>

lemma parse_digits_exact:
  assumes "parse_digits v cs = Some w" "(v + 1) * 10 ^ length cs \<le> 2 ^ 64"
  shows "w = dec_val v cs \<and> (\<forall>c \<in> set cs. is_digit c)"
  using assms
proof (induction cs arbitrary: v)
  case Nil
  then show ?case by simp
next
  case (Cons c cs)
  let ?v = "v * 10 + (byte c - 48)"
  from Cons.prems(1) have dig: "is_digit c"
    by (simp add: is_digit_def split: if_splits)
  then have "?v + 1 \<le> (v + 1) * 10" by (auto simp: is_digit_def)
  then have le: "(?v + 1) * 10 ^ length cs \<le> 2 ^ 64"
    using Cons.prems(2) mult_right_mono [of "?v + 1" "(v + 1) * 10" "10 ^ length cs"]
    by (simp add: algebra_simps)
  have "?v + 1 = (?v + 1) * 1" by simp
  also have "\<dots> \<le> (?v + 1) * 10 ^ length cs" by (rule mult_left_mono) simp_all
  also note le
  finally have "?v + 1 \<le> 2 ^ 64" .
  then have "?v < 2 ^ 64" by simp
  then have "parse_digits ?v cs = Some w"
    using Cons.prems(1) by (simp add: Let_def split: if_splits)
  from Cons.IH [OF this le] dig show ?case by simp
qed

section \<open>Round trip\<close>

lemma hd_nat_digits_nonzero: "0 < n \<Longrightarrow> nat_digits n ! 0 \<noteq> CHR ''0''"
proof (induction n rule: nat_digits.induct)
  case (1 n)
  have z: "byte (CHR ''0'') = 48" by (simp add: byte_def)
  show ?case
  proof (cases "n < 10")
    case True
    have "byte (chr (48 + n)) \<noteq> byte (CHR ''0'')" using 1(2) True z by (simp add: byte_chr)
    then show ?thesis using True by (simp add: nat_digits.simps [of n])
  next
    case False
    then have "nat_digits (n div 10) ! 0 \<noteq> CHR ''0''" using 1 by simp
    moreover have "nat_digits n ! 0 = nat_digits (n div 10) ! 0"
      using False by (subst nat_digits.simps) (simp add: nth_append)
    ultimately show ?thesis by simp
  qed
qed

lemma nat_digits_not_minus [simp]: "nat_digits n ! 0 \<noteq> CHR ''-''"
proof -
  have "nat_digits n ! 0 \<in> set (nat_digits n)" by simp
  then have "is_digit (nat_digits n ! 0)" by (rule nat_digits_digits)
  then show ?thesis by (auto simp: is_digit_def byte_def)
qed

lemma nat_digits_0: "nat_digits 0 = ''0''"
proof -
  have "byte (chr 48) = byte (CHR ''0'')" by (subst byte_chr) (simp_all add: byte_def)
  then show ?thesis by (simp add: nat_digits.simps [of 0])
qed

lemma parse_nat_digits: "n \<le> 2 ^ 63 \<Longrightarrow> parse_digits 0 (nat_digits n) = Some n"
  using parse_digits_no_wrap [of "nat_digits n" 0] nat_digits_digits
  by (simp add: dec_val_nat_digits)

lemma ParseInt64_FormatInt:
  assumes "is_i64 v"
  shows "ParseInt64 (FormatInt v) = Some v"
proof (cases "v < 0")
  case True
  let ?n = "nat (- v)"
  have n: "0 < ?n" "?n \<le> 2 ^ 63" using True assms by (auto simp: is_i64_def)
  have "ParseInt64 (CHR ''-'' # nat_digits ?n) = Some v"
    using hd_nat_digits_nonzero [OF n(1)] parse_nat_digits [OF n(2)] n True
    by (auto simp: ParseInt64_def Let_def)
  then show ?thesis using True by (simp add: FormatInt_def)
next
  case False
  show ?thesis
  proof (cases "v = 0")
    case True
    then show ?thesis by (simp add: FormatInt_def nat_digits_0 ParseInt64_def Let_def)
  next
    case nz: False
    let ?n = "nat v"
    have n: "0 < ?n" "?n < 2 ^ 63" using False nz assms by (auto simp: is_i64_def)
    have "ParseInt64 (nat_digits ?n) = Some v"
      using hd_nat_digits_nonzero [OF n(1)] parse_nat_digits [of ?n] n False
      by (simp add: ParseInt64_def Let_def)
    then show ?thesis using False by (simp add: FormatInt_def)
  qed
qed

lemma ParseInt64_range: "ParseInt64 s = Some v \<Longrightarrow> is_i64 v"
  using parse_digits_bound [of 0 _ _]
  by (fastforce simp: ParseInt64_def is_i64_def Let_def split: if_splits option.splits)

lemma parseIntStrict_eq_ParseInt64: "parseIntStrict b = ParseInt64 b"
  by (simp add: parseIntStrict_def ParseInt64_def Let_def)

text \<open>\<^verbatim>\<open>strconv.Atoi\<close>: an optional sign, then at least one digit, within \<^verbatim>\<open>int64\<close>.\<close>

definition Atoi :: "string \<Rightarrow> int option" where
  "Atoi s =
     (let (neg, ds) = (case s of c # cs \<Rightarrow> if c = CHR ''-'' then (True, cs) else if c = CHR ''+'' then (False, cs) else (False, s) | [] \<Rightarrow> (False, []))
      in if ds = [] \<or> (\<exists>c \<in> set ds. \<not> is_digit c) then None
         else let v = (if neg then - int (dec_val 0 ds) else int (dec_val 0 ds))
              in if is_i64 v then Some v else None)"

lemma Atoi_digits: "n < 2 ^ 63 \<Longrightarrow> Atoi (nat_digits n) = Some (int n)"
proof -
  assume n: "n < 2 ^ 63"
  have d: "c \<in> set (nat_digits n) \<Longrightarrow> is_digit c" for c by (rule nat_digits_digits)
  obtain c cs where c: "nat_digits n = c # cs" by (cases "nat_digits n") (use nat_digits_nonempty in auto)
  have "is_digit c" using d c by simp
  then have "c \<noteq> CHR ''-''" "c \<noteq> CHR ''+''" by (auto simp: is_digit_def byte_def)
  then show ?thesis using n d dec_val_nat_digits [of n] by (auto simp: Atoi_def c is_i64_def)
qed

section \<open>Canonical form, and where it fails\<close>

text \<open>The digits of an argument: what follows an optional minus sign.\<close>

definition digits_part :: "string \<Rightarrow> string" where
  "digits_part s = (if s \<noteq> [] \<and> s ! 0 = CHR ''-'' then tl s else s)"

lemma nat_digits_snoc:
  assumes "0 < v" "is_digit c"
  shows "nat_digits (v * 10 + (byte c - 48)) = nat_digits v @ [c]"
proof -
  let ?d = "byte c - 48"
  have d: "?d < 10" "48 + ?d = byte c" using assms(2) by (auto simp: is_digit_def)
  have "(v * 10 + ?d) div 10 = v" "(v * 10 + ?d) mod 10 = ?d" using d(1) by auto
  moreover have "\<not> v * 10 + ?d < 10" using assms(1) by simp
  ultimately show ?thesis using d(2) by (subst nat_digits.simps) simp
qed

lemma nat_digits_dec_val_acc:
  assumes "\<forall>c \<in> set cs. is_digit c" "0 < v"
  shows "nat_digits (dec_val v cs) = nat_digits v @ cs"
  using assms
proof (induction cs arbitrary: v)
  case Nil
  then show ?case by simp
next
  case (Cons c cs)
  then have "nat_digits (dec_val (v * 10 + (byte c - 48)) cs)
      = nat_digits (v * 10 + (byte c - 48)) @ cs"
    by (intro Cons.IH) auto
  with Cons.prems show ?case by (simp add: nat_digits_snoc)
qed

lemma nat_digits_dec_val:
  assumes "\<forall>c \<in> set cs. is_digit c" "cs \<noteq> []" "cs ! 0 \<noteq> CHR ''0''"
  shows "nat_digits (dec_val 0 cs) = cs" and "0 < dec_val 0 cs"
proof -
  obtain c cs' where cs: "cs = c # cs'" using assms(2) by (cases cs) auto
  have c: "is_digit c" "byte c \<noteq> byte (CHR ''0'')" using assms cs by auto
  then have v: "0 < byte c - 48" "byte c - 48 < 10" "48 + (byte c - 48) = byte c"
    by (auto simp: is_digit_def byte_def)
  have "nat_digits (byte c - 48) = [c]"
    using v by (subst nat_digits.simps) simp
  then show "nat_digits (dec_val 0 cs) = cs"
    using nat_digits_dec_val_acc [of cs' "byte c - 48"] assms(1) cs v(1) by simp
  show "0 < dec_val 0 cs"
    using dec_val_ge [of "byte c - 48" cs'] v(1) cs by simp
qed

lemma ParseInt64_canonical:
  assumes "ParseInt64 s = Some v" "length (digits_part s) \<le> 19"
  shows "FormatInt v = s"
proof -
  let ?ds = "digits_part s"
  have ne: "s \<noteq> []" using assms(1) by (auto simp: ParseInt64_def)
  define neg where "neg = (s ! 0 = CHR ''-'')"
  have ds: "?ds = drop (if neg then 1 else 0) s"
    using ne by (simp add: digits_part_def neg_def drop_Suc)
  show ?thesis
  proof (cases "s ! (if neg then 1 else 0) = CHR ''0''")
    case True
    with assms(1) ne have "\<not> neg" "length s = 1" "v = 0"
      by (auto simp: ParseInt64_def Let_def neg_def split: if_splits)
    then have "s = ''0''" using True ne by (cases s) auto
    then show ?thesis using \<open>v = 0\<close> by (simp add: FormatInt_def nat_digits_0)
  next
    case nz: False
    have len: "neg \<Longrightarrow> length s \<noteq> 1"
      using assms(1) by (auto simp: ParseInt64_def neg_def Let_def split: if_splits)
    obtain w where w: "parse_digits 0 ?ds = Some w"
      using assms(1) ne nz len unfolding ds
      by (auto simp: ParseInt64_def Let_def neg_def split: option.splits if_splits)
    have "(0 + 1) * 10 ^ length ?ds \<le> (2 ^ 64 :: nat)"
    proof -
      have "(10 :: nat) ^ length ?ds \<le> 10 ^ 19" using assms(2) by (rule power_increasing) simp
      then show ?thesis by simp
    qed
    from parse_digits_exact [OF w this] have
      wv: "w = dec_val 0 ?ds" and dig: "\<forall>c \<in> set ?ds. is_digit c" by auto
    have dne: "?ds \<noteq> []" using ne len unfolding ds by (cases s) auto
    have "?ds ! 0 \<noteq> CHR ''0''"
      using nz ne len unfolding ds by (cases s) (auto simp: nth_Cons' split: if_splits)
    then have nd: "nat_digits w = ?ds" "0 < w"
      using nat_digits_dec_val [OF dig dne] wv by auto
    show ?thesis
    proof (cases neg)
      case True
      have "v = - int w"
        using assms(1) w ne nz len True unfolding ds
        by (auto simp: ParseInt64_def Let_def neg_def split: if_splits)
      moreover have "s = CHR ''-'' # ?ds"
        using True ne by (cases s) (auto simp: digits_part_def neg_def)
      ultimately show ?thesis using nd by (simp add: FormatInt_def)
    next
      case False
      have "v = int w"
        using assms(1) w ne nz False unfolding ds
        by (auto simp: ParseInt64_def Let_def neg_def split: if_splits)
      moreover have "s = ?ds" using False by (simp add: ds)
      ultimately show ?thesis using nd by (simp add: FormatInt_def)
    qed
  qed
qed

lemma ParseInt64_iff_FormatInt:
  assumes "length (digits_part s) \<le> 19"
  shows "ParseInt64 s = Some v \<longleftrightarrow> is_i64 v \<and> FormatInt v = s"
  using ParseInt64_canonical [OF _ assms] ParseInt64_range ParseInt64_FormatInt by blast

text \<open>
  Twenty digits are enough for \<^verbatim>\<open>v*10\<close> to wrap past the range test: 18446744073709551620 is
  $2^{64}+4$ and parses as 4.
\<close>

lemma ParseInt64_wraps: "ParseInt64 ''18446744073709551620'' = Some 4"
  by (simp add: ParseInt64_def byte_def)

section \<open>Formatting\<close>

lemma uintToStr_loop_eq: "0 < v \<Longrightarrow> uintToStr_loop v buf = nat_digits v @ buf"
proof (induction v buf rule: uintToStr_loop.induct)
  case (1 v buf)
  show ?case
  proof (cases "v < 10")
    case True
    then have "v div 10 = 0" "v mod 10 = v" by simp_all
    then show ?thesis
      using 1(2) True by (simp add: uintToStr_loop.simps nat_digits.simps [of v])
  next
    case False
    then have "0 < v div 10" by simp
    with 1 False show ?thesis
      by (simp add: uintToStr_loop.simps [of v] nat_digits.simps [of v])
  qed
qed

lemma uintToStr_eq_FormatInt: "uintToStr v = FormatInt (int v)"
  by (cases "v = 0") (simp_all add: uintToStr_def FormatInt_def nat_digits_0 uintToStr_loop_eq)

lemma lowerASCII_map: "lowerASCII b = map lower_byte b"
  by (auto simp: lowerASCII_def lower_byte_def intro!: map_idI [symmetric])

lemma lowerASCII_idem: "lowerASCII (lowerASCII b) = lowerASCII b"
  by (auto simp: lowerASCII_map lower_byte_def byte_chr)

lemma length_FormatInt_pos: "0 < length (FormatInt v)"
  by (simp add: FormatInt_def)

lemma parseMemBytes_bounds: "parseMemBytes b = Some v \<Longrightarrow> 0 \<le> v \<and> v \<le> MaxInt64"
proof -
  assume b: "parseMemBytes b = Some v"
  define hit where "hit = find (\<lambda>(suf, m). has_suffix (toLower b) suf) mem_suffixes"
  define mult where "mult = (case hit of Some (suf, m) \<Rightarrow> m | None \<Rightarrow> 1)"
  obtain s x where x: "parseIntStrict s = Some x" "0 \<le> x"
    and lim: "\<not> (1 < mult \<and> quot (2 ^ 62) mult < x)" and v: "v = wrap64 (x * mult)"
    using b by (auto simp: parseMemBytes_def Let_def hit_def mult_def split: option.splits if_splits)
  have "mult \<in> {1, 2 ^ 10, 2 ^ 20, 2 ^ 30}"
    unfolding mult_def hit_def mem_suffixes_def by (auto split: if_splits)
  then have m: "1 \<le> mult" by auto
  have "x * mult \<le> MaxInt64"
  proof (cases "mult = 1")
    case True
    then show ?thesis
      using ParseInt64_range [of s x] x(1) by (simp add: parseIntStrict_eq_ParseInt64 is_i64_def)
  next
    case False
    then have "x \<le> 2 ^ 62 div mult" using lim m by (simp add: quot_nonneg)
    then have "x * mult \<le> (2 ^ 62 div mult) * mult" using m by (intro mult_right_mono) simp_all
    also have "\<dots> \<le> 2 ^ 62" using m by (simp add: minus_mod_eq_div_mult [symmetric])
    finally show ?thesis by simp
  qed
  then have "is_i64 (x * mult)" using x(2) m by (simp add: is_i64_def) (smt (verit) mult_nonneg_nonneg)
  then show ?thesis using v \<open>x * mult \<le> MaxInt64\<close> x(2) m by simp
qed

end
