(* ===== verification/Containers.thy ===== *)
theory Containers
  imports Ultima_Prelude
begin

text \<open>
  The contracts the command layer relies on when it works with a collection value: a
  field-to-value map (hashes) and a set of members (sets), each with an abstraction function
  and a representation invariant. The value types of \<^verbatim>\<open>src/lib/types\<close> are shown to satisfy
  them by interpretation; what commands do with a whole argument list (the loops of
  \<^verbatim>\<open>cmdHSet\<close>, \<^verbatim>\<open>cmdHDel\<close>, \<^verbatim>\<open>cmdSAdd\<close>, \<^verbatim>\<open>cmdSRem\<close> and of the set algebra) is proved once
  from the contract.
\<close>

section \<open>Loops over an argument list\<close>

text \<open>A loop that applies an operation to each argument and counts the calls that report true.\<close>

fun count_loop :: "('c \<Rightarrow> 'a \<Rightarrow> bool \<times> 'c) \<Rightarrow> 'c \<Rightarrow> 'a list \<Rightarrow> int \<times> 'c" where
  "count_loop f c [] = (0, c)"
| "count_loop f c (x # xs) =
     (let (b, c') = f c x; (n, c'') = count_loop f c' xs
      in ((if b then 1 else 0) + n, c''))"

lemma count_loop_Cons [simp]:
  "fst (count_loop f c (x # xs)) = (if fst (f c x) then 1 else 0) + fst (count_loop f (snd (f c x)) xs)"
  "snd (count_loop f c (x # xs)) = snd (count_loop f (snd (f c x)) xs)"
  by (simp_all add: Let_def split_beta)

declare count_loop.simps(2) [simp del]

lemma count_loop_nonneg: "0 \<le> fst (count_loop f c xs)"
  by (induction xs arbitrary: c) auto

lemma count_loop_invariant:
  assumes "I c" and "\<And>c x. x \<in> set xs \<Longrightarrow> I c \<Longrightarrow> I (snd (f c x))"
  shows "I (snd (count_loop f c xs))"
  using assms by (induction xs arbitrary: c) auto

section \<open>Maps from fields to values\<close>

locale field_map =
  fixes empty :: "'h"
    and get :: "'h \<Rightarrow> string \<Rightarrow> string option"
    and put :: "'h \<Rightarrow> string \<Rightarrow> string \<Rightarrow> bool \<times> 'h"
    and del :: "'h \<Rightarrow> string \<Rightarrow> bool \<times> 'h"
    and amap :: "'h \<Rightarrow> string \<rightharpoonup> string"
    and inv :: "'h \<Rightarrow> bool"
  assumes amap_empty: "amap empty = Map.empty"
    and inv_empty: "inv empty"
    and get_amap: "inv h \<Longrightarrow> get h f = amap h f"
    and amap_put: "inv h \<Longrightarrow> amap (snd (put h f v)) = (amap h)(f \<mapsto> v)"
    and put_new: "inv h \<Longrightarrow> fst (put h f v) \<longleftrightarrow> amap h f = None"
    and inv_put: "inv h \<Longrightarrow> inv (snd (put h f v))"
    and amap_del: "inv h \<Longrightarrow> amap (snd (del h f)) = (amap h)(f := None)"
    and del_old: "inv h \<Longrightarrow> fst (del h f) \<longleftrightarrow> amap h f \<noteq> None"
    and inv_del: "inv h \<Longrightarrow> inv (snd (del h f))"
begin

lemma get_put: "inv h \<Longrightarrow> get (snd (put h f v)) g = (if g = f then Some v else get h g)"
  by (simp add: get_amap amap_put inv_put)

lemma get_del: "inv h \<Longrightarrow> get (snd (del h f)) g = (if g = f then None else get h g)"
  by (simp add: get_amap amap_del inv_del)

lemma put_all_inv: "inv h \<Longrightarrow> inv (snd (count_loop (\<lambda>h (f, v). put h f v) h fvs))"
  by (rule count_loop_invariant) (auto simp: inv_put)

lemma put_all_amap:
  "inv h \<Longrightarrow> amap (snd (count_loop (\<lambda>h (f, v). put h f v) h fvs)) = amap h ++ map_of (rev fvs)"
proof (induction fvs arbitrary: h)
  case Nil
  then show ?case by simp
next
  case (Cons fv fvs)
  then show ?case
    by (cases fv) (simp add: inv_put amap_put map_add_def fun_eq_iff split: option.splits)
qed

text \<open>The count a put loop reports is the number of new fields.\<close>

lemma put_all_count:
  assumes "inv h"
  shows "fst (count_loop (\<lambda>h (f, v). put h f v) h fvs) = int (card (fst ` set fvs - dom (amap h)))"
  using assms
proof (induction fvs arbitrary: h)
  case Nil
  then show ?case by simp
next
  case (Cons fv fvs)
  obtain f v where fv: "fv = (f, v)" by (cases fv)
  let ?h = "snd (put h f v)" and ?S = "fst ` set fvs"
  have "dom (amap ?h) = insert f (dom (amap h))" by (subst amap_put [OF Cons.prems]) simp
  then have IH: "fst (count_loop (\<lambda>h (f, v). put h f v) ?h fvs) = int (card (?S - insert f (dom (amap h))))"
    using Cons.IH [OF inv_put [OF Cons.prems], of f v] by simp
  have fin: "finite ?S" by simp
  show ?case
  proof (cases "f \<in> dom (amap h)")
    case True
    then have "insert f (dom (amap h)) = dom (amap h)" "insert f ?S - dom (amap h) = ?S - dom (amap h)"
      by auto
    moreover have "\<not> fst (put h f v)" using True put_new [OF Cons.prems] by auto
    ultimately show ?thesis using IH fv by simp
  next
    case False
    then have "insert f ?S - dom (amap h) = insert f (?S - insert f (dom (amap h)))" by auto
    then have "card (insert f ?S - dom (amap h)) = Suc (card (?S - insert f (dom (amap h))))"
      using fin by simp
    moreover have "fst (put h f v)" using False put_new [OF Cons.prems] by auto
    ultimately show ?thesis using IH fv by simp
  qed
qed

lemma del_all_inv: "inv h \<Longrightarrow> inv (snd (count_loop del h fs))"
  by (rule count_loop_invariant) (auto simp: inv_del)

lemma del_all_amap: "inv h \<Longrightarrow> amap (snd (count_loop del h fs)) = amap h |` (- set fs)"
proof (induction fs arbitrary: h)
  case Nil
  then show ?case by simp
next
  case (Cons f fs)
  then show ?case
    by (simp add: inv_del amap_del fun_eq_iff restrict_map_def)
qed

end

section \<open>Sets of members\<close>

text \<open>
  \<open>ok\<close> restricts the members for which the laws are promised; \<open>members\<close> enumerates the set.
\<close>

locale member_set =
  fixes empty :: "'s"
    and add :: "'s \<Rightarrow> string \<Rightarrow> bool \<times> 's"
    and remove :: "'s \<Rightarrow> string \<Rightarrow> bool \<times> 's"
    and contains :: "'s \<Rightarrow> string \<Rightarrow> bool"
    and elems :: "'s \<Rightarrow> string set"
    and inv :: "'s \<Rightarrow> bool"
    and ok :: "string \<Rightarrow> bool"
  assumes elems_empty: "elems empty = {}"
    and inv_empty: "inv empty"
    and finite_elems: "inv s \<Longrightarrow> finite (elems s)"
    and contains_elems: "inv s \<Longrightarrow> ok m \<Longrightarrow> contains s m \<longleftrightarrow> m \<in> elems s"
    and elems_add: "inv s \<Longrightarrow> ok m \<Longrightarrow> elems (snd (add s m)) = insert m (elems s)"
    and add_new: "inv s \<Longrightarrow> ok m \<Longrightarrow> fst (add s m) \<longleftrightarrow> m \<notin> elems s"
    and inv_add: "inv s \<Longrightarrow> inv (snd (add s m))"
    and elems_remove: "inv s \<Longrightarrow> ok m \<Longrightarrow> elems (snd (remove s m)) = elems s - {m}"
    and remove_old: "inv s \<Longrightarrow> ok m \<Longrightarrow> fst (remove s m) \<longleftrightarrow> m \<in> elems s"
    and inv_remove: "inv s \<Longrightarrow> inv (snd (remove s m))"
begin

lemma add_all_inv: "inv s \<Longrightarrow> inv (snd (count_loop add s ms))"
  by (rule count_loop_invariant) (auto simp: inv_add)

lemma add_all_elems:
  "inv s \<Longrightarrow> (\<And>m. m \<in> set ms \<Longrightarrow> ok m) \<Longrightarrow> elems (snd (count_loop add s ms)) = elems s \<union> set ms"
  by (induction ms arbitrary: s) (auto simp: inv_add elems_add)

lemma add_all_count:
  assumes "inv s" "\<And>m. m \<in> set ms \<Longrightarrow> ok m"
  shows "fst (count_loop add s ms) = int (card (set ms - elems s))"
  using assms
proof (induction ms arbitrary: s)
  case Nil
  then show ?case by simp
next
  case (Cons m ms)
  let ?s = "snd (add s m)"
  have m: "ok m" using Cons.prems(2) by simp
  have "fst (count_loop add ?s ms) = int (card (set ms - elems ?s))"
    using Cons.prems by (intro Cons.IH) (auto simp: inv_add)
  then have IH: "fst (count_loop add ?s ms) = int (card (set ms - insert m (elems s)))"
    using elems_add [OF Cons.prems(1) m] by simp
  show ?case
  proof (cases "m \<in> elems s")
    case True
    then have "insert m (elems s) = elems s" "insert m (set ms) - elems s = set ms - elems s" by auto
    then show ?thesis using IH True add_new [OF Cons.prems(1) m] by simp
  next
    case False
    then have "insert m (set ms) - elems s = insert m (set ms - insert m (elems s))" by auto
    then have "card (insert m (set ms) - elems s) = Suc (card (set ms - insert m (elems s)))" by simp
    then show ?thesis using IH False add_new [OF Cons.prems(1) m] by simp
  qed
qed

lemma remove_all_inv: "inv s \<Longrightarrow> inv (snd (count_loop remove s ms))"
  by (rule count_loop_invariant) (auto simp: inv_remove)

lemma remove_all_elems:
  "inv s \<Longrightarrow> (\<And>m. m \<in> set ms \<Longrightarrow> ok m) \<Longrightarrow> elems (snd (count_loop remove s ms)) = elems s - set ms"
  by (induction ms arbitrary: s) (auto simp: inv_remove elems_remove)

end

end
