(* ===== verification/Hash_Type.thy ===== *)
theory Hash_Type
  imports Containers "HOL-Library.AList"
begin

text \<open>
  The hash value type (\<^verbatim>\<open>src/lib/types/hash.go\<close> and its memory estimator in
  \<^verbatim>\<open>memusage.go\<close>): an insertion-ordered slice of pairs, searched linearly while small and
  through a field-to-index map once promoted. The abstraction of a hash is the finite map
  from fields to values; the lemmas show that both encodings implement that map, that
  \<^verbatim>\<open>Del\<close> keeps the insertion order of the survivors, and that the byte counter and the index
  always agree with the pairs.
\<close>

section \<open>Definitions\<close>

definition HashMaxListpackEntries :: nat where "HashMaxListpackEntries = 128"
definition HashMaxListpackValue :: nat where "HashMaxListpackValue = 64"

record hash =
  pairs :: "(string \<times> string) list"
  idx :: "(string \<rightharpoonup> nat) option"
  hbytes :: int

definition NewHash :: hash where
  "NewHash = \<lparr>pairs = [], idx = None, hbytes = 0\<rparr>"

definition HashLen :: "hash \<Rightarrow> nat" where
  "HashLen h = length (pairs h)"

definition HashBig :: "hash \<Rightarrow> bool" where
  "HashBig h = (idx h \<noteq> None)"

definition HashGet :: "hash \<Rightarrow> string \<Rightarrow> string option" where
  "HashGet h field =
     (case idx h of
        Some m \<Rightarrow> (case m field of Some i \<Rightarrow> Some (snd (pairs h ! i)) | None \<Rightarrow> None)
      | None \<Rightarrow>
          (case find_index (\<lambda>p. fst p = field) (pairs h) of
             Some i \<Rightarrow> Some (snd (pairs h ! i))
           | None \<Rightarrow> None))"

text \<open>\<^verbatim>\<open>promote\<close>: the loop stores \<^verbatim>\<open>idx[pairs[i].field] = i\<close> for ascending \<open>i\<close>.\<close>

fun promote_loop :: "(string \<times> string) list \<Rightarrow> nat \<Rightarrow> (string \<rightharpoonup> nat) \<Rightarrow> (string \<rightharpoonup> nat)" where
  "promote_loop [] i m = m"
| "promote_loop (p # ps) i m = promote_loop ps (Suc i) (m(fst p \<mapsto> i))"

definition HashPromote :: "hash \<Rightarrow> hash" where
  "HashPromote h = h\<lparr>idx := Some (promote_loop (pairs h) 0 Map.empty)\<rparr>"

definition setValueAt :: "hash \<Rightarrow> nat \<Rightarrow> string \<Rightarrow> hash" where
  "setValueAt h i value =
     h\<lparr>hbytes := hbytes h + (int (length value) - int (length (snd (pairs h ! i)))),
       pairs := (pairs h)[i := (fst (pairs h ! i), value)]\<rparr>"

definition HashSet :: "hash \<Rightarrow> string \<Rightarrow> string \<Rightarrow> bool \<times> hash" where
  "HashSet h field value =
     (case idx h of
        Some m \<Rightarrow>
          (case m field of
             Some i \<Rightarrow> (False, setValueAt h i value)
           | None \<Rightarrow>
               (True, h\<lparr>idx := Some (m(field \<mapsto> length (pairs h))),
                        pairs := pairs h @ [(field, value)],
                        hbytes := hbytes h + (int (length field) + int (length value))\<rparr>))
      | None \<Rightarrow>
          (case find_index (\<lambda>p. fst p = field) (pairs h) of
             Some i \<Rightarrow> (False, setValueAt h i value)
           | None \<Rightarrow>
               (let h' = h\<lparr>pairs := pairs h @ [(field, value)],
                           hbytes := hbytes h + (int (length field) + int (length value))\<rparr>
                in (True,
                    if HashMaxListpackEntries < length (pairs h') \<or>
                       HashMaxListpackValue < length field \<or> HashMaxListpackValue < length value
                    then HashPromote h' else h'))))"

text \<open>The reindexing loop of \<^verbatim>\<open>Del\<close>: \<^verbatim>\<open>for j := i; j < len(pairs); j++\<close>.\<close>

fun reindex :: "(string \<times> string) list \<Rightarrow> nat \<Rightarrow> (string \<rightharpoonup> nat) \<Rightarrow> (string \<rightharpoonup> nat)" where
  "reindex [] j m = m"
| "reindex (p # ps) j m = reindex ps (Suc j) (m(fst p \<mapsto> j))"

definition HashDel :: "hash \<Rightarrow> string \<Rightarrow> bool \<times> hash" where
  "HashDel h field =
     (case idx h of
        Some m \<Rightarrow>
          (case m field of
             None \<Rightarrow> (False, h)
           | Some i \<Rightarrow>
               (let b = hbytes h - (int (length field) + int (length (snd (pairs h ! i))));
                    ps = remove_nth i (pairs h)
                in (True, h\<lparr>hbytes := b, pairs := ps,
                            idx := Some (reindex (drop i ps) i (m(field := None)))\<rparr>)))
      | None \<Rightarrow>
          (case find_index (\<lambda>p. fst p = field) (pairs h) of
             Some i \<Rightarrow>
               (True, h\<lparr>hbytes := hbytes h - (int (length field) + int (length (snd (pairs h ! i)))),
                        pairs := remove_nth i (pairs h)\<rparr>)
           | None \<Rightarrow> (False, h)))"

definition HashFields :: "hash \<Rightarrow> string list" where
  "HashFields h = map fst (pairs h)"

text \<open>\<^verbatim>\<open>Each(fn)\<close> calls \<^verbatim>\<open>fn\<close> on these pairs in order.\<close>

definition HashEach :: "hash \<Rightarrow> (string \<times> string) list" where
  "HashEach h = pairs h"

definition HashMemUsage :: "hash \<Rightarrow> int" where
  "HashMemUsage h =
     (let n = int (length (pairs h)); total = 64 + n * 32 + hbytes h
      in if idx h \<noteq> None then total + n * 16 else total)"

section \<open>Invariant and abstraction\<close>

definition pair_bytes :: "string \<times> string \<Rightarrow> int" where
  "pair_bytes p = int (length (fst p)) + int (length (snd p))"

definition index_ok :: "(string \<times> string) list \<Rightarrow> (string \<rightharpoonup> nat) \<Rightarrow> bool" where
  "index_ok ps m \<longleftrightarrow> (\<forall>f. m f = find_index (\<lambda>p. fst p = f) ps)"

definition hash_inv :: "hash \<Rightarrow> bool" where
  "hash_inv h \<longleftrightarrow>
     distinct (map fst (pairs h)) \<and>
     hbytes h = sum_list (map pair_bytes (pairs h)) \<and>
     (case idx h of None \<Rightarrow> True | Some m \<Rightarrow> index_ok (pairs h) m)"

definition hash_map :: "hash \<Rightarrow> string \<rightharpoonup> string" where
  "hash_map h = map_of (pairs h)"

section \<open>The pair list as a map\<close>

lemma map_of_nth_distinct:
  "distinct (map fst ps) \<Longrightarrow> i < length ps \<Longrightarrow> map_of ps (fst (ps ! i)) = Some (snd (ps ! i))"
  by (rule map_of_is_SomeI) auto

lemma map_of_find_index:
  "map_of ps f = (case find_index (\<lambda>p. fst p = f) ps of Some i \<Rightarrow> Some (snd (ps ! i)) | None \<Rightarrow> None)"
  by (induction ps) (auto split: option.splits)

lemma map_of_setValueAt:
  assumes "distinct (map fst ps)" "i < length ps"
  shows "map_of (ps[i := (fst (ps ! i), v)]) = (map_of ps)(fst (ps ! i) \<mapsto> v)"
proof
  fix f
  have keys: "map fst (ps[i := (fst (ps ! i), v)]) = map fst ps"
    using assms(2) by (simp add: map_update list_update_same_conv)
  have d: "distinct (map fst (ps[i := (fst (ps ! i), v)]))" using assms(1) keys by simp
  show "map_of (ps[i := (fst (ps ! i), v)]) f = ((map_of ps)(fst (ps ! i) \<mapsto> v)) f"
  proof (cases "\<exists>j < length ps. fst (ps ! j) = f")
    case True
    then obtain j where j: "j < length ps" "fst (ps ! j) = f" by auto
    have "map_of (ps[i := (fst (ps ! i), v)]) f = Some (snd (ps[i := (fst (ps ! i), v)] ! j))"
      using map_of_nth_distinct [OF d, of j] j by (cases "i = j") auto
    moreover have "map_of ps f = Some (snd (ps ! j))"
      using map_of_nth_distinct [OF assms(1) j(1)] j(2) by simp
    moreover have "fst (ps ! i) = f \<longleftrightarrow> i = j"
      using assms j nth_eq_iff_index_eq [of "map fst ps" i j] by auto
    ultimately show ?thesis using assms(2) by auto
  next
    case False
    then have "f \<notin> fst ` set ps" by (simp add: fst_image_nth)
    moreover from this have "f \<notin> fst ` set (ps[i := (fst (ps ! i), v)])"
      using keys by (metis set_map)
    ultimately have "map_of ps f = None" "map_of (ps[i := (fst (ps ! i), v)]) f = None"
      by (simp_all only: map_of_eq_None_iff not_False_eq_True)
    moreover have "fst (ps ! i) \<noteq> f" using False assms(2) by auto
    ultimately show ?thesis by simp
  qed
qed

lemma fst_nth_not_in_rest:
  assumes "distinct (map fst ps)" "i < length ps"
  shows "fst (ps ! i) \<notin> fst ` set (take i ps)" and "fst (ps ! i) \<notin> fst ` set (drop (Suc i) ps)"
proof -
  have "map fst ps = map fst (take i ps @ ps ! i # drop (Suc i) ps)"
    using assms(2) by (metis remove_nth_split)
  with assms(1) have "distinct (map fst (take i ps @ ps ! i # drop (Suc i) ps))" by metis
  then show "fst (ps ! i) \<notin> fst ` set (take i ps)" and "fst (ps ! i) \<notin> fst ` set (drop (Suc i) ps)"
    by auto
qed

lemma map_of_remove_nth:
  assumes "distinct (map fst ps)" "i < length ps"
  shows "map_of (remove_nth i ps) = (map_of ps)(fst (ps ! i) := None)"
proof
  fix f
  have ps: "ps = take i ps @ ps ! i # drop (Suc i) ps" using assms(2) by (rule remove_nth_split)
  have split: "map_of ps = map_of (ps ! i # drop (Suc i) ps) ++ map_of (take i ps)"
    by (subst ps) (simp only: map_of_append)
  show "map_of (remove_nth i ps) f = ((map_of ps)(fst (ps ! i) := None)) f"
  proof (cases "f = fst (ps ! i)")
    case True
    then show ?thesis
      using fst_nth_not_in_rest [OF assms]
      by (simp add: remove_nth_def map_add_def map_of_eq_None_iff split: option.splits)
  next
    case False
    then show ?thesis
      by (cases "ps ! i") (simp add: split remove_nth_def map_add_def split: option.splits)
  qed
qed

section \<open>The index\<close>

lemma promote_loop_eq_reindex: "promote_loop ps i m = reindex ps i m"
  by (induction ps arbitrary: i m) auto

lemma reindex_find_index:
  assumes "distinct (map fst ps)"
  shows "reindex ps i m f =
    (case find_index (\<lambda>p. fst p = f) ps of Some j \<Rightarrow> Some (i + j) | None \<Rightarrow> m f)"
  using assms
proof (induction ps arbitrary: i m)
  case Nil
  then show ?case by simp
next
  case (Cons p ps)
  have "fst p = f \<Longrightarrow> find_index (\<lambda>p. fst p = f) ps = None"
    using Cons.prems by (auto simp: find_index_fst_None)
  with Cons show ?case by (auto split: option.splits)
qed

lemma index_ok_promote: "distinct (map fst ps) \<Longrightarrow> index_ok ps (promote_loop ps 0 Map.empty)"
  by (auto simp: index_ok_def promote_loop_eq_reindex reindex_find_index split: option.splits)

text \<open>After a deletion only the positions from \<open>i\<close> on are rewritten; the rest keep their index.\<close>

lemma index_ok_reindex:
  assumes d: "distinct (map fst ps)" and ok: "index_ok ps m" and i: "i < length ps"
  shows "index_ok (remove_nth i ps)
           (reindex (drop i (remove_nth i ps)) i (m(fst (ps ! i) := None)))"
  unfolding index_ok_def
proof
  fix f :: string
  let ?F = "find_index (\<lambda>p :: string \<times> string. fst p = f)"
  let ?lo = "take i ps" and ?hi = "drop (Suc i) ps"
  have drop: "drop i (remove_nth i ps) = ?hi" using i by (simp add: remove_nth_def)
  have dh: "distinct (map fst ?hi)" using d by (metis distinct_drop drop_map)
  have rem: "?F (remove_nth i ps) =
      (case ?F ?lo of Some j \<Rightarrow> Some j | None \<Rightarrow> map_option ((+) i) (?F ?hi))"
    using i by (simp add: remove_nth_def find_index_append split: option.split)
  have "?F ps = ?F (?lo @ ps ! i # ?hi)" using i by (metis remove_nth_split)
  then have all: "f \<noteq> fst (ps ! i) \<Longrightarrow> ?F ps =
      (case ?F ?lo of Some j \<Rightarrow> Some j | None \<Rightarrow> map_option ((+) i) (map_option Suc (?F ?hi)))"
    using i by (simp add: find_index_append split: option.split)
  have excl: "?F ?hi \<noteq> None \<Longrightarrow> ?F ?lo = None"
  proof -
    assume "?F ?hi \<noteq> None"
    then have "f \<in> fst ` set ?hi" by (metis find_index_fst_None)
    moreover have "set (take (Suc i) (map fst ps)) \<inter> set (drop (Suc i) (map fst ps)) = {}"
      using d by (rule set_take_disj_set_drop_if_distinct) simp
    moreover have "set (take i (map fst ps)) \<subseteq> set (take (Suc i) (map fst ps))"
      by (rule set_take_subset_set_take) simp
    ultimately show "?F ?lo = None"
      by (auto simp: find_index_fst_None simp flip: set_map take_map drop_map)
  qed
  show "reindex (drop i (remove_nth i ps)) i (m(fst (ps ! i) := None)) f = ?F (remove_nth i ps)"
  proof (cases "?F ?hi")
    case (Some j)
    then show ?thesis
      unfolding drop reindex_find_index [OF dh] rem using excl by simp
  next
    case None
    show ?thesis
    proof (cases "f = fst (ps ! i)")
      case True
      then have "?F ?lo = None" using fst_nth_not_in_rest(1) [OF d i] by (simp add: find_index_fst_None)
      then show ?thesis unfolding drop reindex_find_index [OF dh] rem using None True by simp
    next
      case False
      have "m f = ?F ps" using ok by (simp add: index_ok_def)
      then show ?thesis
        unfolding drop reindex_find_index [OF dh] rem using None False all by (simp split: option.splits)
    qed
  qed
qed

section \<open>Both encodings implement the map\<close>

lemma index_ok_find: "hash_inv h \<Longrightarrow> idx h = Some m \<Longrightarrow> m f = find_index (\<lambda>p. fst p = f) (pairs h)"
  by (simp add: hash_inv_def index_ok_def)

lemma HashGet_map: "hash_inv h \<Longrightarrow> HashGet h f = hash_map h f"
  by (auto simp: HashGet_def hash_map_def map_of_find_index index_ok_find split: option.splits)

lemma keys_setValueAt: "i < length (pairs h) \<Longrightarrow> map fst (pairs (setValueAt h i v)) = map fst (pairs h)"
  by (simp add: setValueAt_def map_update list_update_same_conv)

lemma find_index_keys:
  "map fst ps = map fst qs \<Longrightarrow> find_index (\<lambda>p. fst p = f) ps = find_index (\<lambda>p. fst p = f) qs"
proof (induction ps arbitrary: qs)
  case Nil
  then show ?case by simp
next
  case (Cons p ps)
  then show ?case by (cases qs) auto
qed

lemma setValueAt_inv:
  assumes "hash_inv h" "i < length (pairs h)"
  shows "hash_inv (setValueAt h i v)"
proof -
  have keys: "map fst (pairs (setValueAt h i v)) = map fst (pairs h)"
    using assms(2) by (rule keys_setValueAt)
  have "hbytes (setValueAt h i v) = sum_list (map pair_bytes (pairs (setValueAt h i v)))"
    using assms by (simp add: setValueAt_def hash_inv_def sum_list_update_int pair_bytes_def)
  moreover have "idx (setValueAt h i v) = idx h" by (simp add: setValueAt_def)
  ultimately show ?thesis
    using assms(1) keys find_index_keys [OF keys]
    by (auto simp: hash_inv_def index_ok_def split: option.splits)
qed

lemma setValueAt_map:
  assumes "hash_inv h" "find_index (\<lambda>p. fst p = f) (pairs h) = Some i"
  shows "hash_map (setValueAt h i v) = (hash_map h)(f \<mapsto> v)"
  using map_of_setValueAt [of "pairs h" i v] find_index_Some [OF assms(2)] assms(1)
  by (simp add: hash_map_def setValueAt_def hash_inv_def)

lemma index_ok_snoc:
  assumes "index_ok ps m" "find_index (\<lambda>p. fst p = f) ps = None"
  shows "index_ok (ps @ [(f, v)]) (m(f \<mapsto> length ps))"
  using assms by (auto simp: index_ok_def find_index_append split: option.splits)

lemma HashPromote_inv: "hash_inv h \<Longrightarrow> hash_inv (HashPromote h)"
  by (auto simp: hash_inv_def HashPromote_def intro: index_ok_promote)

lemma HashPromote_sel [simp]:
  "pairs (HashPromote h) = pairs h" "hbytes (HashPromote h) = hbytes h"
  by (simp_all add: HashPromote_def)

lemma append_pair_inv:
  assumes "hash_inv h" "find_index (\<lambda>p. fst p = f) (pairs h) = None"
  shows "distinct (map fst (pairs h @ [(f, v)]))"
    and "hbytes h + (int (length f) + int (length v)) = sum_list (map pair_bytes (pairs h @ [(f, v)]))"
  using assms by (auto simp: hash_inv_def find_index_fst_None pair_bytes_def)

lemma HashSet_inv [inv_intros]:
  assumes "hash_inv h"
  shows "hash_inv (snd (HashSet h f v))"
proof (cases "find_index (\<lambda>p. fst p = f) (pairs h)")
  case None
  note app = append_pair_inv [OF assms None, of v]
  show ?thesis
  proof (cases "idx h")
    case idx: None
    let ?h = "h\<lparr>pairs := pairs h @ [(f, v)], hbytes := hbytes h + (int (length f) + int (length v))\<rparr>"
    have "hash_inv ?h" using idx app by (simp add: hash_inv_def)
    moreover have "snd (HashSet h f v) \<in> {?h, HashPromote ?h}"
      using idx None by (simp add: HashSet_def Let_def)
    ultimately show ?thesis using HashPromote_inv by auto
  next
    case (Some m)
    then have "m f = None" "index_ok (pairs h) m"
      using assms None index_ok_find by (auto simp: hash_inv_def)
    then show ?thesis
      using Some app index_ok_snoc [OF _ None, of m v] by (simp add: HashSet_def hash_inv_def)
  qed
next
  case (Some i)
  have "snd (HashSet h f v) = setValueAt h i v"
    using Some assms by (auto simp: HashSet_def index_ok_find split: option.splits)
  then show ?thesis
    using setValueAt_inv [OF assms] find_index_Some [OF Some] by simp
qed

lemma HashSet_map:
  assumes "hash_inv h"
  shows "hash_map (snd (HashSet h f v)) = (hash_map h)(f \<mapsto> v)"
    and "fst (HashSet h f v) \<longleftrightarrow> hash_map h f = None"
proof -
  let ?i = "find_index (\<lambda>p. fst p = f) (pairs h)"
  have nf: "hash_map h f = None \<longleftrightarrow> ?i = None"
    by (simp add: hash_map_def map_of_find_index split: option.splits)
  have app: "?i = None \<Longrightarrow> map_of (pairs h @ [(f, v)]) = (map_of (pairs h))(f \<mapsto> v)"
    using nf by (auto simp: hash_map_def map_add_def split: option.splits)
  show "hash_map (snd (HashSet h f v)) = (hash_map h)(f \<mapsto> v)"
  proof (cases ?i)
    case None
    then show ?thesis
      using app assms index_ok_find
      by (auto simp: HashSet_def Let_def hash_map_def simp del: map_of_append split: option.splits)
  next
    case (Some i)
    have "snd (HashSet h f v) = setValueAt h i v"
      using Some assms by (auto simp: HashSet_def index_ok_find split: option.splits)
    then show ?thesis using setValueAt_map [OF assms Some] by simp
  qed
  show "fst (HashSet h f v) \<longleftrightarrow> hash_map h f = None"
    using nf assms index_ok_find by (auto simp: HashSet_def Let_def split: option.splits)
qed

lemma HashDel_eq:
  assumes "hash_inv h" "find_index (\<lambda>p. fst p = f) (pairs h) = Some i"
  shows "fst (HashDel h f)" and "pairs (snd (HashDel h f)) = remove_nth i (pairs h)"
    and "hbytes (snd (HashDel h f)) = hbytes h - pair_bytes (pairs h ! i)"
  using assms find_index_Some [OF assms(2)]
  by (auto simp: HashDel_def index_ok_find Let_def pair_bytes_def split: option.splits)

lemma HashDel_inv [inv_intros]:
  assumes "hash_inv h"
  shows "hash_inv (snd (HashDel h f))"
proof (cases "find_index (\<lambda>p. fst p = f) (pairs h)")
  case None
  then have "snd (HashDel h f) = h"
    using assms by (auto simp: HashDel_def index_ok_find split: option.splits)
  then show ?thesis using assms by simp
next
  case (Some i)
  note del = HashDel_eq [OF assms Some]
  from find_index_Some [OF Some] have i: "i < length (pairs h)" and f: "fst (pairs h ! i) = f" by auto
  have d: "distinct (map fst (pairs h))" using assms by (simp add: hash_inv_def)
  have "distinct (map fst (remove_nth i (pairs h)))"
    using d by (auto simp: map_remove_nth)
  moreover have "hbytes h - pair_bytes (pairs h ! i) = sum_list (map pair_bytes (remove_nth i (pairs h)))"
    using assms i by (simp add: sum_list_remove_nth hash_inv_def)
  moreover have "case idx (snd (HashDel h f)) of None \<Rightarrow> True | Some m \<Rightarrow> index_ok (remove_nth i (pairs h)) m"
  proof (cases "idx h")
    case None
    then show ?thesis using Some by (simp add: HashDel_def)
  next
    case m: (Some m)
    have "m f = Some i" using assms m Some by (simp add: index_ok_find)
    then have "idx (snd (HashDel h f)) =
        Some (reindex (drop i (remove_nth i (pairs h))) i (m(fst (pairs h ! i) := None)))"
      using m f by (simp add: HashDel_def Let_def)
    then show ?thesis
      using index_ok_reindex [OF d _ i, of m] assms m by (simp add: hash_inv_def)
  qed
  ultimately show ?thesis unfolding hash_inv_def del by blast
qed

lemma HashDel_map:
  assumes "hash_inv h"
  shows "hash_map (snd (HashDel h f)) = (hash_map h)(f := None)"
    and "fst (HashDel h f) \<longleftrightarrow> hash_map h f \<noteq> None"
proof -
  let ?i = "find_index (\<lambda>p. fst p = f) (pairs h)"
  have nf: "hash_map h f = None \<longleftrightarrow> ?i = None"
    by (simp add: hash_map_def map_of_find_index split: option.splits)
  show "hash_map (snd (HashDel h f)) = (hash_map h)(f := None)"
  proof (cases ?i)
    case None
    then have "snd (HashDel h f) = h"
      using assms by (auto simp: HashDel_def index_ok_find split: option.splits)
    then show ?thesis using nf None by auto
  next
    case (Some i)
    with find_index_Some [OF Some] assms show ?thesis
      using HashDel_eq(2) [OF assms Some] map_of_remove_nth [of "pairs h" i]
      by (simp add: hash_map_def hash_inv_def)
  qed
  show "fst (HashDel h f) \<longleftrightarrow> hash_map h f \<noteq> None"
    using nf assms index_ok_find
    by (auto simp: HashDel_def Let_def split: option.splits)
qed

lemma NewHash_inv [inv_intros]: "hash_inv NewHash"
  by (simp add: hash_inv_def NewHash_def)

lemma NewHash_map: "hash_map NewHash = Map.empty"
  by (simp add: hash_map_def NewHash_def)

lemma HashFields_dom: "set (HashFields h) = dom (hash_map h)"
  by (simp add: HashFields_def hash_map_def dom_map_of_conv_image_fst)

lemma HashFields_distinct: "hash_inv h \<Longrightarrow> distinct (HashFields h)"
  by (simp add: HashFields_def hash_inv_def)

lemma HashLen_card: "hash_inv h \<Longrightarrow> HashLen h = card (dom (hash_map h))"
  using distinct_card [OF HashFields_distinct, of h] HashFields_dom [of h]
  by (simp add: HashLen_def HashFields_def)

text \<open>
  The order of the pairs is visible to clients (HGETALL, HKEYS, HSCAN): \<^verbatim>\<open>Set\<close> updates in
  place or appends and \<^verbatim>\<open>Del\<close> keeps the order, as the association-list operations do.
\<close>

lemma find_index_Some_update:
  "find_index (\<lambda>p. fst p = f) ps = Some i \<Longrightarrow> AList.update f v ps = ps[i := (fst (ps ! i), v)]"
  by (induction ps arbitrary: i) (auto split: if_splits option.splits)

lemma update_fresh: "f \<notin> fst ` set ps \<Longrightarrow> AList.update f v ps = ps @ [(f, v)]"
  by (induction ps) auto

lemma delete_fresh: "f \<notin> fst ` set ps \<Longrightarrow> AList.delete f ps = ps"
  by (induction ps) (auto simp: AList.delete_eq)

lemma find_index_Some_delete:
  "find_index (\<lambda>p. fst p = f) ps = Some i \<Longrightarrow> distinct (map fst ps) \<Longrightarrow> AList.delete f ps = remove_nth i ps"
proof (induction ps arbitrary: i)
  case (Cons p ps)
  show ?case
  proof (cases "fst p = f")
    case True
    then have "f \<notin> fst ` set ps" using Cons.prems(2) by auto
    then show ?thesis using Cons.prems(1) True delete_fresh [of f ps] by (simp add: remove_nth_def)
  next
    case False
    then show ?thesis using Cons.prems Cons.IH by (auto simp: remove_nth_def split: option.splits)
  qed
qed simp

lemma HashSet_pairs:
  assumes "hash_inv h"
  shows "pairs (snd (HashSet h f v)) = AList.update f v (pairs h)"
proof (cases "find_index (\<lambda>p. fst p = f) (pairs h)")
  case None
  then have "f \<notin> fst ` set (pairs h)" by (simp add: find_index_fst_None)
  then show ?thesis
    using None assms by (auto simp: HashSet_def Let_def index_ok_find update_fresh split: option.splits)
next
  case (Some i)
  then show ?thesis
    using assms find_index_Some_update [OF Some]
    by (auto simp: HashSet_def index_ok_find setValueAt_def split: option.splits)
qed

lemma HashDel_pairs:
  assumes "hash_inv h"
  shows "pairs (snd (HashDel h f)) = AList.delete f (pairs h)"
proof (cases "find_index (\<lambda>p. fst p = f) (pairs h)")
  case None
  then have "f \<notin> fst ` set (pairs h)" by (simp add: find_index_fst_None)
  then show ?thesis
    using None assms by (auto simp: HashDel_def index_ok_find delete_fresh split: option.splits)
next
  case (Some i)
  then show ?thesis using assms HashDel_eq(2) [OF assms Some] find_index_Some_delete [OF Some] by (simp add: hash_inv_def)
qed

interpretation hs: field_map NewHash HashGet HashSet HashDel hash_map hash_inv
  by unfold_locales
    (simp_all add: NewHash_map NewHash_inv HashGet_map HashSet_map HashSet_inv HashDel_map HashDel_inv)

end
