(* ===== verification/Set_Type.thy ===== *)
theory Set_Type
  imports Decimal Containers
begin

text \<open>
  The set value type (\<^verbatim>\<open>src/lib/types/set.go\<close> and its memory estimator): a sorted
  slice of \<^verbatim>\<open>int64\<close> while every member is an integer and the cardinality stays within
  \<^verbatim>\<open>SetMaxIntsetEntries\<close>, a Go map afterwards. A Go map used as a set is a HOL set; the
  order in which \<^verbatim>\<open>range\<close> visits it is unspecified in Go and is the parameter \<open>iter\<close> of
  \<open>SetMembers\<close>, assumed only to enumerate every finite set.

  The lemmas show the binary search correct, the invariant kept by every operation, and both
  encodings to implement a set of strings for members on which \<^verbatim>\<open>ParseInt64\<close> is canonical
  (all members of at most 19 digits in particular). For other members they do not: the last
  section exhibits one.
\<close>

section \<open>Definitions\<close>

definition SetMaxIntsetEntries :: nat where "SetMaxIntsetEntries = 512"

record gset =
  ints :: "int list"
  isInt :: bool
  member :: "string set"
  sbytes :: int

definition NewSet :: gset where
  "NewSet = \<lparr>ints = [], isInt = True, member = {}, sbytes = 0\<rparr>"

definition SetLen :: "gset \<Rightarrow> nat" where
  "SetLen s = (if isInt s then length (ints s) else card (member s))"

definition SetIsIntset :: "gset \<Rightarrow> bool" where
  "SetIsIntset s = isInt s"

text \<open>The binary search of \<^verbatim>\<open>find\<close>, with its \<^verbatim>\<open>lo\<close> and \<^verbatim>\<open>hi\<close>.\<close>

function find_loop :: "int list \<Rightarrow> int \<Rightarrow> nat \<Rightarrow> nat \<Rightarrow> nat \<times> bool" where
  "find_loop xs v lo hi =
     (if lo < hi then
        let mid = (lo + hi) div 2
        in if xs ! mid < v then find_loop xs v (mid + 1) hi
           else if xs ! mid > v then find_loop xs v lo mid
           else (mid, True)
      else (lo, False))"
  by pat_completeness auto
termination
  by (relation "measure (\<lambda>(xs, v, lo, hi). hi - lo)") auto

declare find_loop.simps [simp del]

definition SetFind :: "gset \<Rightarrow> int \<Rightarrow> nat \<times> bool" where
  "SetFind s v = find_loop (ints s) v 0 (length (ints s))"

definition SetContains :: "gset \<Rightarrow> string \<Rightarrow> bool" where
  "SetContains s m =
     (if isInt s then
        (case ParseInt64 m of None \<Rightarrow> False | Some v \<Rightarrow> snd (SetFind s v))
      else m \<in> member s)"

definition SetPromote :: "gset \<Rightarrow> gset" where
  "SetPromote s =
     s\<lparr>member := set (map FormatInt (ints s)),
       sbytes := sbytes s + sum_list (map (\<lambda>v. int (length (FormatInt v))) (ints s)),
       ints := [], isInt := False\<rparr>"

text \<open>The part of \<^verbatim>\<open>Add\<close> after the intset fast path.\<close>

definition SetAddSlow :: "gset \<Rightarrow> string \<Rightarrow> bool \<times> gset" where
  "SetAddSlow s0 m =
     (let s = (if isInt s0 then SetPromote s0 else s0)
      in if m \<in> member s then (False, s)
         else (True, s\<lparr>member := insert m (member s), sbytes := sbytes s + int (length m)\<rparr>))"

definition SetAdd :: "gset \<Rightarrow> string \<Rightarrow> bool \<times> gset" where
  "SetAdd s m =
     (case ParseInt64 m of
        Some v \<Rightarrow>
          if isInt s then
            (let (i, found) = SetFind s v
             in if found then (False, s)
                else if length (ints s) < SetMaxIntsetEntries
                  then (True, s\<lparr>ints := insert_nth i v (ints s)\<rparr>)
                else SetAddSlow s m)
          else SetAddSlow s m
      | None \<Rightarrow> SetAddSlow s m)"

definition SetRemove :: "gset \<Rightarrow> string \<Rightarrow> bool \<times> gset" where
  "SetRemove s m =
     (if isInt s then
        (case ParseInt64 m of
           None \<Rightarrow> (False, s)
         | Some v \<Rightarrow>
             (let (i, found) = SetFind s v
              in if \<not> found then (False, s) else (True, s\<lparr>ints := remove_nth i (ints s)\<rparr>)))
      else if m \<notin> member s then (False, s)
      else (True, s\<lparr>member := member s - {m}, sbytes := sbytes s - int (length m)\<rparr>))"

definition SetMembers :: "(string set \<Rightarrow> string list) \<Rightarrow> gset \<Rightarrow> string list" where
  "SetMembers iter s = (if isInt s then map FormatInt (ints s) else iter (member s))"

definition SetMemUsage :: "gset \<Rightarrow> int" where
  "SetMemUsage s =
     (if isInt s then 64 + int (length (ints s)) * 8
      else 64 + int (card (member s)) * 16 + sbytes s)"

section \<open>Invariant and abstraction\<close>

definition set_inv :: "gset \<Rightarrow> bool" where
  "set_inv s \<longleftrightarrow>
     (if isInt s then
        sorted_wrt (<) (ints s) \<and> (\<forall>v \<in> set (ints s). is_i64 v) \<and>
        length (ints s) \<le> SetMaxIntsetEntries \<and> sbytes s = 0
      else
        ints s = [] \<and> finite (member s) \<and> sbytes s = (\<Sum>m \<in> member s. int (length m)))"

definition set_elems :: "gset \<Rightarrow> string set" where
  "set_elems s = (if isInt s then FormatInt ` set (ints s) else member s)"

text \<open>A member whose integer reading, if it has one, prints back to it.\<close>

definition canonical_member :: "string \<Rightarrow> bool" where
  "canonical_member m \<longleftrightarrow> (case ParseInt64 m of None \<Rightarrow> True | Some v \<Rightarrow> FormatInt v = m)"

definition enumerates :: "(string set \<Rightarrow> string list) \<Rightarrow> bool" where
  "enumerates iter \<longleftrightarrow> (\<forall>S. finite S \<longrightarrow> set (iter S) = S \<and> distinct (iter S))"

section \<open>The binary search\<close>

text \<open>The loop invariant: everything below \<open>lo\<close> is smaller, everything from \<open>hi\<close> on is larger.\<close>

lemma find_loop_spec:
  assumes "sorted_wrt (<) xs" "hi \<le> length xs" "lo \<le> hi"
    "\<forall>j < lo. xs ! j < v" "\<forall>j. hi \<le> j \<and> j < length xs \<longrightarrow> v < xs ! j"
    "find_loop xs v lo hi = (i, found)"
  shows "if found then i < length xs \<and> xs ! i = v
         else i \<le> length xs \<and> (\<forall>j < i. xs ! j < v) \<and> (\<forall>j. i \<le> j \<and> j < length xs \<longrightarrow> v < xs ! j)"
  using assms
proof (induction xs v lo hi rule: find_loop.induct)
  case (1 xs v lo hi)
  show ?case
  proof (cases "lo < hi")
    case False
    then have "i = lo" "\<not> found" using 1(8) by (auto simp: find_loop.simps [of xs v lo hi])
    with False 1(4-7) show ?thesis by auto
  next
    case True
    define mid where "mid = (lo + hi) div 2"
    have mid: "lo \<le> mid" "mid < hi" using True by (auto simp: mid_def)
    have mono: "xs ! a < xs ! b" if "a < b" "b < length xs" for a b
      using 1(3) that by (simp add: sorted_wrt_iff_nth_less)
    consider (lt) "xs ! mid < v" | (gt) "v < xs ! mid" | (eq) "xs ! mid = v" by linarith
    then show ?thesis
    proof cases
      case lt
      have r: "find_loop xs v (mid + 1) hi = (i, found)"
        using 1(8) True lt by (simp add: find_loop.simps [of xs v lo hi] mid_def Let_def)
      have lo: "\<forall>j < mid + 1. xs ! j < v"
      proof (intro allI impI)
        fix j assume "j < mid + 1"
        then show "xs ! j < v" using lt mono [of j mid] mid 1(4) by (cases "j = mid") auto
      qed
      have "mid + 1 \<le> hi" using mid by simp
      from 1(1) [OF True mid_def lt 1(3,4) this lo 1(7) r] show ?thesis .
    next
      case gt
      have r: "find_loop xs v lo mid = (i, found)"
        using 1(8) True gt by (simp add: find_loop.simps [of xs v lo hi] mid_def Let_def)
      have hi: "\<forall>j. mid \<le> j \<and> j < length xs \<longrightarrow> v < xs ! j"
      proof (intro allI impI)
        fix j assume "mid \<le> j \<and> j < length xs"
        then show "v < xs ! j" using gt mono [of mid j] by (cases "j = mid") auto
      qed
      have "\<not> xs ! mid < v" "mid \<le> length xs" using gt mid 1(4) by simp_all
      from 1(2) [OF True mid_def this(1) gt 1(3) this(2) mid(1) 1(6) hi r] show ?thesis .
    next
      case eq
      then show ?thesis
        using True 1(4,8) mid by (auto simp: find_loop.simps [of xs v lo hi] mid_def Let_def)
    qed
  qed
qed

lemma SetFind_found:
  assumes "set_inv s" "isInt s" "SetFind s v = (i, True)"
  shows "i < length (ints s)" "ints s ! i = v"
  using find_loop_spec [of "ints s" "length (ints s)" 0 v i True] assms
  by (auto simp: SetFind_def set_inv_def)

lemma SetFind_not_found:
  assumes "set_inv s" "isInt s" "SetFind s v = (i, False)"
  shows "i \<le> length (ints s)" "\<forall>j < i. ints s ! j < v"
    "\<forall>j. i \<le> j \<and> j < length (ints s) \<longrightarrow> v < ints s ! j"
  using find_loop_spec [of "ints s" "length (ints s)" 0 v i False] assms
  by (auto simp: SetFind_def set_inv_def)

lemma SetFind_iff:
  assumes "set_inv s" "isInt s"
  shows "snd (SetFind s v) \<longleftrightarrow> v \<in> set (ints s)"
proof (cases "SetFind s v")
  case (Pair i found)
  show ?thesis
  proof (cases found)
    case True
    then show ?thesis using SetFind_found [OF assms, of v i] Pair by auto
  next
    case False
    have "v \<notin> set (ints s)"
    proof
      assume "v \<in> set (ints s)"
      then obtain j where "j < length (ints s)" "ints s ! j = v" by (auto simp: in_set_conv_nth)
      then show False
        using SetFind_not_found [OF assms, of v i] Pair False by (cases "j < i") (force simp: not_less)+
    qed
    then show ?thesis using False Pair by simp
  qed
qed

section \<open>Integers and their decimal form\<close>

lemma FormatInt_inj: "is_i64 a \<Longrightarrow> is_i64 b \<Longrightarrow> FormatInt a = FormatInt b \<Longrightarrow> a = b"
  using ParseInt64_FormatInt by (metis option.inject)

lemma FormatInt_inj_on: "\<forall>v \<in> A. is_i64 v \<Longrightarrow> inj_on FormatInt A"
  by (auto intro!: inj_onI dest: FormatInt_inj)

lemma canonical_member_short: "length (digits_part m) \<le> 19 \<Longrightarrow> canonical_member m"
  using ParseInt64_canonical by (auto simp: canonical_member_def split: option.splits)

lemma canonical_int: "canonical_member m \<Longrightarrow> ParseInt64 m = Some v \<Longrightarrow> FormatInt v = m"
  by (simp add: canonical_member_def)

lemma non_int_not_elem: "set_inv s \<Longrightarrow> isInt s \<Longrightarrow> ParseInt64 m = None \<Longrightarrow> m \<notin> set_elems s"
  using ParseInt64_FormatInt by (force simp: set_elems_def set_inv_def)

lemma int_elem_iff:
  assumes "set_inv s" "isInt s" "ParseInt64 m = Some v" "canonical_member m"
  shows "m \<in> set_elems s \<longleftrightarrow> v \<in> set (ints s)"
proof -
  have m: "FormatInt v = m" "is_i64 v"
    using assms(3,4) canonical_int ParseInt64_range by auto
  then show ?thesis
    using assms(1,2) FormatInt_inj by (auto simp: set_elems_def set_inv_def)
qed

section \<open>The operations implement a set\<close>

lemma SetContains_elems:
  assumes "set_inv s" "canonical_member m"
  shows "SetContains s m \<longleftrightarrow> m \<in> set_elems s"
proof (cases "isInt s")
  case True
  then show ?thesis
    using assms SetFind_iff [OF assms(1) True] non_int_not_elem int_elem_iff
    by (simp add: SetContains_def split: option.splits)
next
  case False
  then show ?thesis by (simp add: SetContains_def set_elems_def)
qed

lemma SetPromote_sel [simp]: "isInt (SetPromote s) = False"
  by (simp add: SetPromote_def)

lemma SetPromote_elems: "isInt s \<Longrightarrow> set_elems (SetPromote s) = set_elems s"
  by (simp add: SetPromote_def set_elems_def)

lemma SetPromote_inv:
  assumes "set_inv s" "isInt s"
  shows "set_inv (SetPromote s)"
proof -
  have inj: "inj_on FormatInt (set (ints s))" and d: "distinct (ints s)"
    using assms FormatInt_inj_on by (auto simp: set_inv_def strict_sorted_iff)
  have "(\<Sum>m \<in> FormatInt ` set (ints s). int (length m)) = (\<Sum>v \<in> set (ints s). int (length (FormatInt v)))"
    using inj by (simp add: sum.reindex)
  also have "\<dots> = sum_list (map (\<lambda>v. int (length (FormatInt v))) (ints s))"
    using d by (simp add: sum.distinct_set_conv_list)
  finally show ?thesis using assms by (simp add: SetPromote_def set_inv_def)
qed

lemma SetAddSlow_elems: "set_elems (snd (SetAddSlow s m)) = insert m (set_elems s)"
  and SetAddSlow_new: "fst (SetAddSlow s m) \<longleftrightarrow> m \<notin> set_elems s"
  by (auto simp: SetAddSlow_def Let_def set_elems_def SetPromote_def)

lemma SetAddSlow_inv: "set_inv s \<Longrightarrow> set_inv (snd (SetAddSlow s m))"
  using SetPromote_inv [of s] by (auto simp: SetAddSlow_def Let_def set_inv_def)

lemma insert_sorted:
  assumes "sorted_wrt (<) xs" "i \<le> length xs" "\<forall>j < i. xs ! j < v"
    "\<forall>j. i \<le> j \<and> j < length xs \<longrightarrow> v < xs ! j"
  shows "sorted_wrt (<) (insert_nth i (v :: int) xs)"
proof -
  have "sorted_wrt (<) (take i xs @ drop i xs)" using assms(1) by simp
  then have "sorted_wrt (<) (take i xs) \<and> sorted_wrt (<) (drop i xs) \<and>
    (\<forall>x \<in> set (take i xs). \<forall>y \<in> set (drop i xs). x < y)"
    unfolding sorted_wrt_append .
  moreover have "\<forall>x \<in> set (take i xs). x < v"
    using assms(2,3) by (auto simp: in_set_conv_nth)
  moreover have "\<forall>y \<in> set (drop i xs). v < y"
    using assms(4) by (auto simp: in_set_conv_nth)
  ultimately show ?thesis by (auto simp: insert_nth_def sorted_wrt_append)
qed

lemma sorted_remove_nth: "sorted_wrt (<) xs \<Longrightarrow> sorted_wrt (<) (remove_nth i (xs :: int list))"
proof -
  assume s: "sorted_wrt (<) xs"
  have "sorted_wrt (<) (take i xs @ drop i xs)" using s by simp
  then have *: "sorted_wrt (<) (take i xs) \<and> sorted_wrt (<) (drop i xs) \<and>
    (\<forall>x \<in> set (take i xs). \<forall>y \<in> set (drop i xs). x < y)"
    unfolding sorted_wrt_append .
  have "set (drop (Suc i) xs) \<subseteq> set (drop i xs)" by (rule set_drop_subset_set_drop) simp
  then show ?thesis
    using * s by (auto simp: remove_nth_def sorted_wrt_append sorted_wrt_drop)
qed

lemma SetAdd_inv [inv_intros]:
  assumes "set_inv s"
  shows "set_inv (snd (SetAdd s m))"
proof (cases "isInt s \<and> ParseInt64 m \<noteq> None")
  case False
  then show ?thesis using assms SetAddSlow_inv by (auto simp: SetAdd_def split: option.splits)
next
  case True
  then obtain v i found where v: "ParseInt64 m = Some v" "SetFind s v = (i, found)" "isInt s"
    by (metis surj_pair option.exhaust)
  have "is_i64 v" using v(1) by (rule ParseInt64_range)
  moreover have "\<not> found \<Longrightarrow> sorted_wrt (<) (insert_nth i v (ints s)) \<and> i \<le> length (ints s)"
    using insert_sorted SetFind_not_found [OF assms v(3), of v i] v assms by (simp add: set_inv_def)
  ultimately show ?thesis
    using assms v SetAddSlow_inv [OF assms]
    by (auto simp: SetAdd_def set_inv_def [of s] set_inv_def [of "ints_update _ _"])
qed

lemma SetAdd_elems:
  assumes "set_inv s" "canonical_member m"
  shows "set_elems (snd (SetAdd s m)) = insert m (set_elems s)"
    and "fst (SetAdd s m) \<longleftrightarrow> m \<notin> set_elems s"
proof -
  have "set_elems (snd (SetAdd s m)) = insert m (set_elems s) \<and> (fst (SetAdd s m) \<longleftrightarrow> m \<notin> set_elems s)"
  proof (cases "isInt s \<and> ParseInt64 m \<noteq> None")
    case False
    then show ?thesis
      using SetAddSlow_elems SetAddSlow_new by (auto simp: SetAdd_def split: option.splits)
  next
    case True
    then obtain v i found where v: "ParseInt64 m = Some v" "SetFind s v = (i, found)" "isInt s"
      by (metis surj_pair option.exhaust)
    have m: "FormatInt v = m" using assms(2) v(1) by (rule canonical_int)
    have f: "found \<longleftrightarrow> m \<in> set_elems s"
      using SetFind_iff [OF assms(1) v(3), of v] int_elem_iff [OF assms(1) v(3,1) assms(2)] v(2) by simp
    show ?thesis
      using v m f SetAddSlow_elems [of s m] SetAddSlow_new [of s m]
      by (auto simp: SetAdd_def set_elems_def [of "ints_update _ _"] set_elems_def [of s])
  qed
  then show "set_elems (snd (SetAdd s m)) = insert m (set_elems s)"
    and "fst (SetAdd s m) \<longleftrightarrow> m \<notin> set_elems s" by auto
qed

lemma SetRemove_inv [inv_intros]:
  assumes "set_inv s"
  shows "set_inv (snd (SetRemove s m))"
proof (cases "isInt s")
  case True
  have "i < length (ints s) \<Longrightarrow> set_inv (s\<lparr>ints := remove_nth i (ints s)\<rparr>)" for i
    using assms True set_remove_nth_subset [of i "ints s"] sorted_remove_nth [of "ints s" i]
    by (auto simp: set_inv_def)
  then show ?thesis
    using assms True SetFind_found [OF assms True]
    by (auto simp: SetRemove_def split: option.splits prod.splits)
next
  case False
  then show ?thesis
    using assms by (auto simp: SetRemove_def set_inv_def sum_diff1)
qed

lemma SetRemove_elems:
  assumes "set_inv s" "canonical_member m"
  shows "set_elems (snd (SetRemove s m)) = set_elems s - {m}"
    and "fst (SetRemove s m) \<longleftrightarrow> m \<in> set_elems s"
proof -
  have "set_elems (snd (SetRemove s m)) = set_elems s - {m} \<and> (fst (SetRemove s m) \<longleftrightarrow> m \<in> set_elems s)"
  proof (cases "isInt s")
    case False
    then show ?thesis by (auto simp: SetRemove_def set_elems_def)
  next
    case True
    show ?thesis
    proof (cases "ParseInt64 m")
      case None
      then show ?thesis using non_int_not_elem [OF assms(1) True] True by (simp add: SetRemove_def)
    next
      case (Some v)
      obtain i found where i: "SetFind s v = (i, found)" by (metis surj_pair)
      have m: "FormatInt v = m" using assms(2) Some by (rule canonical_int)
      have f: "found \<longleftrightarrow> m \<in> set_elems s"
        using SetFind_iff [OF assms(1) True, of v] int_elem_iff [OF assms(1) True Some assms(2)] i by simp
      have inv: "distinct (ints s)" "inj_on FormatInt (set (ints s))"
        using assms(1) True FormatInt_inj_on by (auto simp: set_inv_def strict_sorted_iff)
      have "found \<Longrightarrow> FormatInt ` (set (ints s) - {v}) = FormatInt ` set (ints s) - {m}"
        using SetFind_found [OF assms(1) True, of v i] i m by (auto dest: inj_onD [OF inv(2)])
      then show ?thesis
        using True Some i m f SetFind_found [OF assms(1) True, of v i] set_remove_nth_distinct [OF inv(1), of i]
        by (auto simp: SetRemove_def set_elems_def [of "ints_update _ _"] set_elems_def [of s])
    qed
  qed
  then show "set_elems (snd (SetRemove s m)) = set_elems s - {m}"
    and "fst (SetRemove s m) \<longleftrightarrow> m \<in> set_elems s" by auto
qed

lemma NewSet_inv [inv_intros]: "set_inv NewSet"
  by (simp add: set_inv_def NewSet_def)

lemma NewSet_elems: "set_elems NewSet = {}"
  by (simp add: set_elems_def NewSet_def)

lemma finite_set_elems: "set_inv s \<Longrightarrow> finite (set_elems s)"
  by (auto simp: set_elems_def set_inv_def split: if_splits)

lemma SetMembers_elems:
  assumes "set_inv s" "enumerates iter"
  shows "set (SetMembers iter s) = set_elems s" and "distinct (SetMembers iter s)"
  using assms FormatInt_inj_on
  by (auto simp: SetMembers_def set_elems_def set_inv_def enumerates_def distinct_map strict_sorted_iff
      split: if_splits)

lemma SetLen_card:
  assumes "set_inv s"
  shows "SetLen s = card (set_elems s)"
  using assms FormatInt_inj_on [of "set (ints s)"]
  by (auto simp: SetLen_def set_elems_def set_inv_def card_image strict_sorted_iff distinct_card)

text \<open>The intset members come out in ascending numeric order.\<close>

lemma SetMembers_intset_sorted: "set_inv s \<Longrightarrow> isInt s \<Longrightarrow> SetMembers iter s = map FormatInt (sorted_list_of_set (set (ints s)))"
  by (simp add: SetMembers_def set_inv_def strict_sorted_iff sorted_list_of_set.idem_if_sorted_distinct)

interpretation gs: member_set NewSet SetAdd SetRemove SetContains set_elems set_inv canonical_member
  by unfold_locales
    (simp_all add: NewSet_inv NewSet_elems finite_set_elems SetContains_elems SetAdd_elems SetAdd_inv
      SetRemove_elems SetRemove_inv)

section \<open>Members on which the parser wraps\<close>

text \<open>
  \<^verbatim>\<open>18446744073709551620\<close> is stored as the integer 4: the set then reports \<^verbatim>\<open>4\<close> as a member
  and lists \<^verbatim>\<open>4\<close>, not what was added.
\<close>

lemma SetAdd_wrong_member:
  "set_elems (snd (SetAdd NewSet ''18446744073709551620'')) = {''4''}"
  by (simp add: SetAdd_def ParseInt64_wraps NewSet_def SetFind_def find_loop.simps
      SetMaxIntsetEntries_def insert_nth_def set_elems_def FormatInt_def nat_digits.simps)

end
