(* ===== verification/Pluto.thy ===== *)
theory Pluto
  imports Ultima_Prelude "HOL-Library.AList"
begin

text \<open>
  The containers of the \<^verbatim>\<open>github.com/pschlump/pluto\<close> packages. Their code is not part of
  the repository: each package is a record of operations, an argument of every definition
  that calls it, and what the callers rely on is a locale stating the behaviour documented in
  \<^verbatim>\<open>docs/pluto\<close>: the segmented deque (\<^verbatim>\<open>quicklist_ts\<close>, request 10), the span-annotated skip
  list (\<^verbatim>\<open>skip_list_ts\<close>, request 01), the striped hash table (\<^verbatim>\<open>sharded_hash_ts\<close>, request 03),
  the min-heap (\<^verbatim>\<open>heap_ts\<close>) and the recency and frequency trackers (\<^verbatim>\<open>lru_ts\<close>, \<^verbatim>\<open>lfu_ts\<close>,
  requests 06 and 05). Every law is stated through one observer per container (the element
  sequence, the lookup function), so it says nothing about the representation.

  The last part gives each package a list-backed instance that satisfies its laws.
\<close>

section \<open>Operations\<close>

subsection \<open>Segmented deque\<close>

record 'q quicklist =
  ql_new :: 'q
  ql_all :: "'q \<Rightarrow> string list"
  ql_len :: "'q \<Rightarrow> nat"
  ql_push_head :: "'q \<Rightarrow> string \<Rightarrow> 'q"
  ql_push_tail :: "'q \<Rightarrow> string \<Rightarrow> 'q"
  ql_pop_head :: "'q \<Rightarrow> (string \<times> 'q) option"
  ql_pop_tail :: "'q \<Rightarrow> (string \<times> 'q) option"
  ql_peek_head :: "'q \<Rightarrow> string option"
  ql_peek_tail :: "'q \<Rightarrow> string option"
  ql_at :: "'q \<Rightarrow> int \<Rightarrow> string option"
  ql_set :: "'q \<Rightarrow> int \<Rightarrow> string \<Rightarrow> 'q option"
  ql_insert_before :: "'q \<Rightarrow> int \<Rightarrow> string \<Rightarrow> 'q option"
  ql_insert_after :: "'q \<Rightarrow> int \<Rightarrow> string \<Rightarrow> 'q option"
  ql_delete :: "'q \<Rightarrow> int \<Rightarrow> 'q option"
  ql_trim :: "'q \<Rightarrow> int \<Rightarrow> int \<Rightarrow> 'q"
  ql_range :: "'q \<Rightarrow> int \<Rightarrow> int \<Rightarrow> string list"

text \<open>
  Positions count from the tail when negative; a position outside the list is \<open>None\<close>. A range
  is clamped to the list, as the Redis commands it serves do.
\<close>

definition pos :: "nat \<Rightarrow> int \<Rightarrow> nat option" where
  "pos n i =
     (let j = (if i < 0 then int n + i else i)
      in if 0 \<le> j \<and> j < int n then Some (nat j) else None)"

definition clip :: "'a list \<Rightarrow> int \<Rightarrow> int \<Rightarrow> 'a list" where
  "clip xs start stop =
     (let n = int (length xs);
          s = max 0 (if start < 0 then n + start else start);
          e = min (n - 1) (if stop < 0 then n + stop else stop)
      in if e < s then [] else take (nat (e - s + 1)) (drop (nat s) xs))"

subsection \<open>Skip list\<close>

record ('z, 'e) skiplist =
  sl_new :: 'z
  sl_all :: "'z \<Rightarrow> 'e list"
  sl_len :: "'z \<Rightarrow> nat"
  sl_insert :: "'z \<Rightarrow> 'e \<Rightarrow> 'z"
  sl_delete :: "'z \<Rightarrow> 'e \<Rightarrow> bool \<times> 'z"
  sl_rank :: "'z \<Rightarrow> 'e \<Rightarrow> nat option"
  sl_at :: "'z \<Rightarrow> int \<Rightarrow> 'e option"

subsection \<open>Striped hash table\<close>

text \<open>
  The elements are \<^verbatim>\<open>item\<close>s whose equality and hash read only the key, so an element is a key
  with the address of its entry. \<open>th_sample\<close> takes and returns the state of the random
  generator.
\<close>

type_synonym addr = nat

record 't table =
  th_new :: 't
  th_search :: "'t \<Rightarrow> string \<Rightarrow> addr option"
  th_insert :: "'t \<Rightarrow> string \<Rightarrow> addr \<Rightarrow> 't"
  th_delete :: "'t \<Rightarrow> string \<Rightarrow> bool \<times> 't"
  th_stripe :: "'t \<Rightarrow> nat \<Rightarrow> (string \<times> addr) list"
  th_stripe_len :: "'t \<Rightarrow> nat \<Rightarrow> nat"
  th_sample :: "'t \<Rightarrow> nat \<Rightarrow> nat \<Rightarrow> nat \<Rightarrow> (string \<times> addr) list \<times> nat"

subsection \<open>Heap and trackers\<close>

record ('h, 'x) minheap =
  hp_new :: 'h
  hp_all :: "'h \<Rightarrow> 'x list"
  hp_len :: "'h \<Rightarrow> nat"
  hp_peek :: "'h \<Rightarrow> 'x option"
  hp_pop :: "'h \<Rightarrow> 'h"
  hp_push :: "'h \<Rightarrow> 'x \<Rightarrow> 'h"

record ('l, 'k) lru =
  lru_new :: 'l
  lru_keys :: "'l \<Rightarrow> 'k list"
  lru_put :: "'l \<Rightarrow> 'k \<Rightarrow> 'l"
  lru_delete :: "'l \<Rightarrow> 'k \<Rightarrow> 'l"
  lru_pop_oldest :: "'l \<Rightarrow> ('k \<times> 'l) option"

record ('f, 'k) lfu =
  lfu_new :: 'f
  lfu_keys :: "'f \<Rightarrow> 'k list"
  lfu_touch :: "'f \<Rightarrow> 'k \<Rightarrow> 'f"
  lfu_delete :: "'f \<Rightarrow> 'k \<Rightarrow> 'f"
  lfu_counter :: "'f \<Rightarrow> 'k \<Rightarrow> nat option"

section \<open>Documented behaviour\<close>

locale quicklist_laws =
  fixes Q :: "'q quicklist"
  assumes all_new: "ql_all Q (ql_new Q) = []"
    and len_all: "ql_len Q q = length (ql_all Q q)"
    and all_push_head: "ql_all Q (ql_push_head Q q v) = v # ql_all Q q"
    and all_push_tail: "ql_all Q (ql_push_tail Q q v) = ql_all Q q @ [v]"
    and pop_head_None: "ql_pop_head Q q = None \<longleftrightarrow> ql_all Q q = []"
    and pop_head_Some: "ql_pop_head Q q = Some (v, q') \<Longrightarrow> ql_all Q q = v # ql_all Q q'"
    and pop_tail_None: "ql_pop_tail Q q = None \<longleftrightarrow> ql_all Q q = []"
    and pop_tail_Some: "ql_pop_tail Q q = Some (v, q') \<Longrightarrow> ql_all Q q = ql_all Q q' @ [v]"
    and peek_head_all: "ql_peek_head Q q = (if ql_all Q q = [] then None else Some (hd (ql_all Q q)))"
    and peek_tail_all: "ql_peek_tail Q q = (if ql_all Q q = [] then None else Some (last (ql_all Q q)))"
    and at_all: "ql_at Q q i = map_option (\<lambda>j. ql_all Q q ! j) (pos (length (ql_all Q q)) i)"
    and set_all: "map_option (ql_all Q) (ql_set Q q i v) =
      map_option (\<lambda>j. (ql_all Q q)[j := v]) (pos (length (ql_all Q q)) i)"
    and before_all: "map_option (ql_all Q) (ql_insert_before Q q i v) =
      map_option (\<lambda>j. insert_nth j v (ql_all Q q)) (pos (length (ql_all Q q)) i)"
    and after_all: "map_option (ql_all Q) (ql_insert_after Q q i v) =
      map_option (\<lambda>j. insert_nth (Suc j) v (ql_all Q q)) (pos (length (ql_all Q q)) i)"
    and delete_all: "map_option (ql_all Q) (ql_delete Q q i) =
      map_option (\<lambda>j. remove_nth j (ql_all Q q)) (pos (length (ql_all Q q)) i)"
    and trim_all: "ql_all Q (ql_trim Q q start stop) = clip (ql_all Q q) start stop"
    and range_all: "ql_range Q q start stop = clip (ql_all Q q) start stop"

locale skiplist_laws =
  fixes S :: "('z, 'e) skiplist" and cmp :: "'e \<Rightarrow> 'e \<Rightarrow> int" and good :: "'e \<Rightarrow> bool"
  assumes sl_all_new: "sl_all S (sl_new S) = []"
    and sl_len_all: "sl_len S z = length (sl_all S z)"
    and sl_sorted: "(\<And>x. x \<in> set (sl_all S z) \<Longrightarrow> good x) \<Longrightarrow> sorted_wrt (\<lambda>a b. cmp a b < 0) (sl_all S z)"
    and sl_set_insert: "\<lbrakk>\<And>y. y \<in> set (sl_all S z) \<Longrightarrow> good y \<and> cmp y x \<noteq> 0; good x\<rbrakk> \<Longrightarrow>
      set (sl_all S (sl_insert S z x)) = insert x (set (sl_all S z))"
    and sl_set_delete: "\<lbrakk>\<And>y. y \<in> set (sl_all S z) \<Longrightarrow> good y; good x\<rbrakk> \<Longrightarrow>
      set (sl_all S (snd (sl_delete S z x))) = {y \<in> set (sl_all S z). cmp y x \<noteq> 0}"
    and sl_delete_found: "\<lbrakk>\<And>y. y \<in> set (sl_all S z) \<Longrightarrow> good y; good x\<rbrakk> \<Longrightarrow>
      fst (sl_delete S z x) \<longleftrightarrow> (\<exists>y \<in> set (sl_all S z). cmp y x = 0)"
    and sl_rank_Some: "\<lbrakk>\<And>y. y \<in> set (sl_all S z) \<Longrightarrow> good y; good x\<rbrakk> \<Longrightarrow>
      sl_rank S z x = Some i \<longleftrightarrow> i < length (sl_all S z) \<and> cmp (sl_all S z ! i) x = 0"
    and sl_at_all: "sl_at S z p =
      (if 0 \<le> p \<and> p < int (length (sl_all S z)) then Some (sl_all S z ! nat p) else None)"

text \<open>\<open>route\<close> is the stripe a key hashes to.\<close>

locale table_laws =
  fixes T :: "'t table" and route :: "string \<Rightarrow> nat"
  assumes search_new: "th_search T (th_new T) k = None"
    and search_insert: "th_search T (th_insert T t k a) = (th_search T t)(k \<mapsto> a)"
    and search_delete: "th_search T (snd (th_delete T t k)) = (th_search T t)(k := None)"
    and delete_found: "fst (th_delete T t k) \<longleftrightarrow> th_search T t k \<noteq> None"
    and stripe_set: "set (th_stripe T t i) = {(k, a). th_search T t k = Some a \<and> route k = i}"
    and stripe_distinct: "distinct (map fst (th_stripe T t i))"
    and stripe_len: "th_stripe_len T t i = length (th_stripe T t i)"
    and sample_subset: "set (fst (th_sample T t i n r)) \<subseteq> set (th_stripe T t i)"

locale minheap_laws =
  fixes H :: "('h, 'x) minheap" and cmp :: "'x \<Rightarrow> 'x \<Rightarrow> int"
  assumes hp_all_new: "hp_all H (hp_new H) = []"
    and hp_len_all: "hp_len H h = length (hp_all H h)"
    and hp_peek_None: "hp_peek H h = None \<longleftrightarrow> hp_all H h = []"
    and hp_peek_mem: "hp_peek H h = Some x \<Longrightarrow> x \<in> set (hp_all H h)"
    and hp_peek_min: "hp_peek H h = Some x \<Longrightarrow> y \<in> set (hp_all H h) \<Longrightarrow> cmp x y \<le> 0"
    and hp_pop_all: "hp_peek H h = Some x \<Longrightarrow> add_mset x (mset (hp_all H (hp_pop H h))) = mset (hp_all H h)"
    and hp_push_all: "mset (hp_all H (hp_push H h x)) = add_mset x (mset (hp_all H h))"

locale lru_laws =
  fixes L :: "('l, 'k) lru"
  assumes lru_keys_new: "lru_keys L (lru_new L) = []"
    and lru_put_keys: "set (lru_keys L (lru_put L l k)) \<subseteq> insert k (set (lru_keys L l))"
    and lru_delete_keys: "set (lru_keys L (lru_delete L l k)) = set (lru_keys L l) - {k}"
    and lru_pop_None: "lru_pop_oldest L l = None \<longleftrightarrow> lru_keys L l = []"
    and lru_pop_Some: "lru_pop_oldest L l = Some (k, l') \<Longrightarrow>
      k \<in> set (lru_keys L l) \<and> set (lru_keys L l') = set (lru_keys L l) - {k}"

locale lfu_laws =
  fixes F :: "('f, 'k) lfu"
  assumes lfu_keys_new: "lfu_keys F (lfu_new F) = []"
    and lfu_touch_keys: "set (lfu_keys F (lfu_touch F f k)) = insert k (set (lfu_keys F f))"
    and lfu_delete_keys: "set (lfu_keys F (lfu_delete F f k)) = set (lfu_keys F f) - {k}"
    and lfu_counter_keys: "lfu_counter F f k \<noteq> None \<longleftrightarrow> k \<in> set (lfu_keys F f)"

section \<open>List-backed instances\<close>

definition listQ :: "string list quicklist" where
  "listQ = \<lparr>ql_new = [], ql_all = id, ql_len = length,
     ql_push_head = (\<lambda>q v. v # q), ql_push_tail = (\<lambda>q v. q @ [v]),
     ql_pop_head = (\<lambda>q. case q of [] \<Rightarrow> None | v # q' \<Rightarrow> Some (v, q')),
     ql_pop_tail = (\<lambda>q. if q = [] then None else Some (last q, butlast q)),
     ql_peek_head = (\<lambda>q. if q = [] then None else Some (hd q)),
     ql_peek_tail = (\<lambda>q. if q = [] then None else Some (last q)),
     ql_at = (\<lambda>q i. map_option (\<lambda>j. q ! j) (pos (length q) i)),
     ql_set = (\<lambda>q i v. map_option (\<lambda>j. q[j := v]) (pos (length q) i)),
     ql_insert_before = (\<lambda>q i v. map_option (\<lambda>j. insert_nth j v q) (pos (length q) i)),
     ql_insert_after = (\<lambda>q i v. map_option (\<lambda>j. insert_nth (Suc j) v q) (pos (length q) i)),
     ql_delete = (\<lambda>q i. map_option (\<lambda>j. remove_nth j q) (pos (length q) i)),
     ql_trim = clip, ql_range = clip\<rparr>"

definition listT :: "(string \<Rightarrow> nat) \<Rightarrow> (string \<times> addr) list table" where
  "listT route = \<lparr>th_new = [], th_search = map_of,
     th_insert = (\<lambda>t k a. (k, a) # filter (\<lambda>p. fst p \<noteq> k) t),
     th_delete = (\<lambda>t k. (map_of t k \<noteq> None, filter (\<lambda>p. fst p \<noteq> k) t)),
     th_stripe = (\<lambda>t i. filter (\<lambda>p. route (fst p) = i) (AList.clearjunk t)),
     th_stripe_len = (\<lambda>t i. length (filter (\<lambda>p. route (fst p) = i) (AList.clearjunk t))),
     th_sample = (\<lambda>t i n r. (take n (filter (\<lambda>p. route (fst p) = i) (AList.clearjunk t)), r))\<rparr>"

text \<open>The least element of a list, the first one among equals.\<close>

fun least_by :: "('x \<Rightarrow> 'x \<Rightarrow> int) \<Rightarrow> 'x list \<Rightarrow> 'x option" where
  "least_by cmp [] = None"
| "least_by cmp (x # xs) =
     (case least_by cmp xs of None \<Rightarrow> Some x | Some y \<Rightarrow> if cmp x y \<le> 0 then Some x else Some y)"

definition listH :: "('x \<Rightarrow> 'x \<Rightarrow> int) \<Rightarrow> ('x list, 'x) minheap" where
  "listH cmp = \<lparr>hp_new = [], hp_all = id, hp_len = length, hp_peek = least_by cmp,
     hp_pop = (\<lambda>h. case least_by cmp h of None \<Rightarrow> h | Some x \<Rightarrow> remove1 x h),
     hp_push = (\<lambda>h x. x # h)\<rparr>"

definition listL :: "('k list, 'k) lru" where
  "listL = \<lparr>lru_new = [], lru_keys = id, lru_put = (\<lambda>l k. removeAll k l @ [k]),
     lru_delete = (\<lambda>l k. removeAll k l),
     lru_pop_oldest = (\<lambda>l. case l of [] \<Rightarrow> None | k # l' \<Rightarrow> Some (k, removeAll k l'))\<rparr>"

definition listF :: "(('k \<times> nat) list, 'k) lfu" where
  "listF = \<lparr>lfu_new = [], lfu_keys = map fst,
     lfu_touch = (\<lambda>f k. (k, case map_of f k of None \<Rightarrow> 5 | Some c \<Rightarrow> min 255 (Suc c)) # filter (\<lambda>p. fst p \<noteq> k) f),
     lfu_delete = (\<lambda>f k. filter (\<lambda>p. fst p \<noteq> k) f), lfu_counter = map_of\<rparr>"

lemma pos_Some: "pos n i = Some j \<Longrightarrow> j < n"
  by (auto simp: pos_def Let_def split: if_splits)

lemma pos_nonneg: "0 \<le> i \<Longrightarrow> pos n i = (if i < int n then Some (nat i) else None)"
  by (simp add: pos_def)

lemma least_by_None: "least_by cmp xs = None \<longleftrightarrow> xs = []"
  by (cases xs) (auto split: option.splits if_splits)

text \<open>A comparison function whose sign is a total preorder.\<close>

locale comparison =
  fixes cmp :: "'x \<Rightarrow> 'x \<Rightarrow> int"
  assumes cmp_refl: "cmp x x \<le> 0"
    and cmp_trans: "cmp x y \<le> 0 \<Longrightarrow> cmp y z \<le> 0 \<Longrightarrow> cmp x z \<le> 0"
    and cmp_total: "cmp x y \<le> 0 \<or> cmp y x \<le> 0"
begin

lemma least_by_Some: "least_by cmp xs = Some x \<Longrightarrow> x \<in> set xs \<and> (\<forall>y \<in> set xs. cmp x y \<le> 0)"
proof (induction xs arbitrary: x)
  case Nil
  then show ?case by simp
next
  case (Cons a xs)
  show ?case
  proof (cases "least_by cmp xs")
    case None
    then have "xs = []" by (simp add: least_by_None)
    with Cons.prems show ?thesis by (simp add: cmp_refl)
  next
    case (Some y)
    then show ?thesis
      using Cons.IH [OF Some] Cons.prems cmp_refl [of a] cmp_total [of a y] cmp_trans [of a y]
      by (auto split: if_splits)
  qed
qed

lemma listH_laws: "minheap_laws (listH cmp) cmp"
proof unfold_locales
  fix h x
  show "hp_peek (listH cmp) h = Some x \<Longrightarrow> add_mset x (mset (hp_all (listH cmp) (hp_pop (listH cmp) h))) = mset (hp_all (listH cmp) h)"
    using least_by_Some [of h x] by (simp add: listH_def)
qed (auto simp: listH_def least_by_None dest: least_by_Some)

end

lemma map_of_filter_neq: "map_of (filter (\<lambda>p. fst p \<noteq> k) t) = (map_of t)(k := None)"
  by (induction t) (auto simp: fun_eq_iff)

lemma mem_clearjunk: "p \<in> set (AList.clearjunk t) \<longleftrightarrow> map_of t (fst p) = Some (snd p)"
proof -
  have "p \<in> set (AList.clearjunk t) \<longleftrightarrow> map_of (AList.clearjunk t) (fst p) = Some (snd p)"
    using Some_eq_map_of_iff [OF AList.distinct_clearjunk, of "snd p" t "fst p"] by auto
  then show ?thesis by (simp only: map_of_clearjunk)
qed

interpretation lq: quicklist_laws listQ
  by unfold_locales (auto simp: listQ_def option.map_comp comp_def split: list.splits if_splits)

interpretation lt: table_laws "listT route" route
proof unfold_locales
  fix t i
  show "distinct (map fst (th_stripe (listT route) t i))"
    by (simp add: listT_def distinct_map_filter AList.distinct_clearjunk)
  fix n r
  show "set (fst (th_sample (listT route) t i n r)) \<subseteq> set (th_stripe (listT route) t i)"
    by (auto simp: listT_def dest: in_set_takeD)
qed (auto simp: listT_def map_of_filter_neq mem_clearjunk)

interpretation ll: lru_laws listL
  by unfold_locales (auto simp: listL_def split: list.splits)

interpretation lf: lfu_laws listF
proof unfold_locales
  fix f :: "('k \<times> nat) list" and k
  show "lfu_counter listF f k \<noteq> None \<longleftrightarrow> k \<in> set (lfu_keys listF f)"
    by (simp add: listF_def map_of_eq_None_iff del: not_None_eq)
qed (auto simp: listF_def)

end
