(* ===== verification/List_Type.thy ===== *)
theory List_Type
  imports Pluto
begin

text \<open>
  The list value type (the \<^verbatim>\<open>List\<close> part of \<^verbatim>\<open>src/lib/types/types.go\<close> and its estimator in
  \<^verbatim>\<open>memusage.go\<close>): a segmented deque with a running total of element bytes. The deque is the
  third-party \<^verbatim>\<open>quicklist_ts\<close>, the argument \<open>Q\<close> of every operation; the lemmas are proved in
  the locale of its documented behaviour. They show what every operation does to the element
  sequence on both its branches, and that the byte total always agrees with the elements.
\<close>

section \<open>Definitions\<close>

record 'q glist =
  lq :: 'q
  lbytes :: int

definition NewList :: "'q quicklist \<Rightarrow> 'q glist" where
  "NewList Q = \<lparr>lq = ql_new Q, lbytes = 0\<rparr>"

definition ListLen :: "'q quicklist \<Rightarrow> 'q glist \<Rightarrow> nat" where
  "ListLen Q l = ql_len Q (lq l)"

definition ListPushHead :: "'q quicklist \<Rightarrow> 'q glist \<Rightarrow> string \<Rightarrow> 'q glist" where
  "ListPushHead Q l v = l\<lparr>lbytes := lbytes l + int (length v), lq := ql_push_head Q (lq l) v\<rparr>"

definition ListPushTail :: "'q quicklist \<Rightarrow> 'q glist \<Rightarrow> string \<Rightarrow> 'q glist" where
  "ListPushTail Q l v = l\<lparr>lbytes := lbytes l + int (length v), lq := ql_push_tail Q (lq l) v\<rparr>"

definition ListPopHead :: "'q quicklist \<Rightarrow> 'q glist \<Rightarrow> string option \<times> 'q glist" where
  "ListPopHead Q l =
     (case ql_pop_head Q (lq l) of
        Some (v, q) \<Rightarrow> (Some v, l\<lparr>lq := q, lbytes := lbytes l - int (length v)\<rparr>)
      | None \<Rightarrow> (None, l))"

definition ListPopTail :: "'q quicklist \<Rightarrow> 'q glist \<Rightarrow> string option \<times> 'q glist" where
  "ListPopTail Q l =
     (case ql_pop_tail Q (lq l) of
        Some (v, q) \<Rightarrow> (Some v, l\<lparr>lq := q, lbytes := lbytes l - int (length v)\<rparr>)
      | None \<Rightarrow> (None, l))"

definition ListPeekHead :: "'q quicklist \<Rightarrow> 'q glist \<Rightarrow> string option" where
  "ListPeekHead Q l = ql_peek_head Q (lq l)"

definition ListPeekTail :: "'q quicklist \<Rightarrow> 'q glist \<Rightarrow> string option" where
  "ListPeekTail Q l = ql_peek_tail Q (lq l)"

definition ListAt :: "'q quicklist \<Rightarrow> 'q glist \<Rightarrow> int \<Rightarrow> string option" where
  "ListAt Q l i = ql_at Q (lq l) i"

definition ListSet :: "'q quicklist \<Rightarrow> 'q glist \<Rightarrow> int \<Rightarrow> string \<Rightarrow> bool \<times> 'q glist" where
  "ListSet Q l i v =
     (case ql_at Q (lq l) i of
        None \<Rightarrow> (False, l)
      | Some old \<Rightarrow>
          (let l' = l\<lparr>lbytes := lbytes l + (int (length v) - int (length old))\<rparr>
           in case ql_set Q (lq l) i v of
                None \<Rightarrow> (False, l')
              | Some q \<Rightarrow> (True, l'\<lparr>lq := q\<rparr>)))"

definition ListInsertBefore :: "'q quicklist \<Rightarrow> 'q glist \<Rightarrow> int \<Rightarrow> string \<Rightarrow> bool \<times> 'q glist" where
  "ListInsertBefore Q l i v =
     (case ql_insert_before Q (lq l) i v of
        None \<Rightarrow> (False, l)
      | Some q \<Rightarrow> (True, l\<lparr>lq := q, lbytes := lbytes l + int (length v)\<rparr>))"

definition ListInsertAfter :: "'q quicklist \<Rightarrow> 'q glist \<Rightarrow> int \<Rightarrow> string \<Rightarrow> bool \<times> 'q glist" where
  "ListInsertAfter Q l i v =
     (case ql_insert_after Q (lq l) i v of
        None \<Rightarrow> (False, l)
      | Some q \<Rightarrow> (True, l\<lparr>lq := q, lbytes := lbytes l + int (length v)\<rparr>))"

definition ListDelete :: "'q quicklist \<Rightarrow> 'q glist \<Rightarrow> int \<Rightarrow> bool \<times> 'q glist" where
  "ListDelete Q l i =
     (case ql_at Q (lq l) i of
        None \<Rightarrow> (False, l)
      | Some v \<Rightarrow>
          (let l' = l\<lparr>lbytes := lbytes l - int (length v)\<rparr>
           in case ql_delete Q (lq l) i of
                None \<Rightarrow> (False, l')
              | Some q \<Rightarrow> (True, l'\<lparr>lq := q\<rparr>)))"

text \<open>The loop of \<^verbatim>\<open>Trim\<close> that recomputes the total from the survivors.\<close>

fun keep_loop :: "string list \<Rightarrow> int \<Rightarrow> int" where
  "keep_loop [] keep = keep"
| "keep_loop (v # vs) keep = keep_loop vs (keep + int (length v))"

definition ListTrim :: "'q quicklist \<Rightarrow> 'q glist \<Rightarrow> int \<Rightarrow> int \<Rightarrow> 'q glist" where
  "ListTrim Q l start stop =
     (let q = ql_trim Q (lq l) start stop
      in l\<lparr>lq := q, lbytes := keep_loop (ql_all Q q) 0\<rparr>)"

definition ListAll :: "'q quicklist \<Rightarrow> 'q glist \<Rightarrow> string list" where
  "ListAll Q l = ql_all Q (lq l)"

definition ListRange :: "'q quicklist \<Rightarrow> 'q glist \<Rightarrow> int \<Rightarrow> int \<Rightarrow> string list" where
  "ListRange Q l start stop = ql_range Q (lq l) start stop"

definition ListMemUsage :: "'q quicklist \<Rightarrow> 'q glist \<Rightarrow> int" where
  "ListMemUsage Q l = 96 + int (ql_len Q (lq l)) * 24 + lbytes l"

subsection \<open>Invariant\<close>

definition list_bytes :: "string list \<Rightarrow> int" where
  "list_bytes vs = sum_list (map (\<lambda>v. int (length v)) vs)"

definition list_inv :: "'q quicklist \<Rightarrow> 'q glist \<Rightarrow> bool" where
  "list_inv Q l \<longleftrightarrow> lbytes l = list_bytes (ListAll Q l)"

section \<open>Lemmas\<close>

lemma keep_loop_bytes: "keep_loop vs k = k + list_bytes vs"
  by (induction vs arbitrary: k) (auto simp: list_bytes_def)

lemma list_bytes_simps [bytes_simps]:
  "list_bytes [] = 0" "list_bytes (v # vs) = int (length v) + list_bytes vs"
  "list_bytes (vs @ ws) = list_bytes vs + list_bytes ws"
  by (simp_all add: list_bytes_def)

context quicklist_laws
begin

lemma list_inv_New [inv_intros]: "list_inv Q (NewList Q)"
  by (simp add: list_inv_def NewList_def ListAll_def all_new bytes_simps)

lemma ListLen_all: "ListLen Q l = length (ListAll Q l)"
  by (simp add: ListLen_def ListAll_def len_all)

lemma ListPush_all:
  "ListAll Q (ListPushHead Q l v) = v # ListAll Q l"
  "ListAll Q (ListPushTail Q l v) = ListAll Q l @ [v]"
  by (simp_all add: ListPushHead_def ListPushTail_def ListAll_def all_push_head all_push_tail)

lemma ListPush_inv [inv_intros]:
  "list_inv Q l \<Longrightarrow> list_inv Q (ListPushHead Q l v)"
  "list_inv Q l \<Longrightarrow> list_inv Q (ListPushTail Q l v)"
  by (simp_all add: list_inv_def ListPush_all bytes_simps)
    (simp_all add: ListPushHead_def ListPushTail_def)

lemma ListPopHead_None: "fst (ListPopHead Q l) = None \<longleftrightarrow> ListAll Q l = []"
  by (auto simp: ListPopHead_def ListAll_def simp flip: pop_head_None split: option.splits)

lemma ListPopTail_None: "fst (ListPopTail Q l) = None \<longleftrightarrow> ListAll Q l = []"
  by (auto simp: ListPopTail_def ListAll_def simp flip: pop_tail_None split: option.splits)

lemma ListPop_empty:
  "ListAll Q l = [] \<Longrightarrow> ListPopHead Q l = (None, l)"
  "ListAll Q l = [] \<Longrightarrow> ListPopTail Q l = (None, l)"
  using pop_head_None [of "lq l"] pop_tail_None [of "lq l"]
  by (simp_all add: ListPopHead_def ListPopTail_def ListAll_def)

lemma ListPopHead_Cons:
  assumes "ListAll Q l = v # vs"
  shows "fst (ListPopHead Q l) = Some v" and "ListAll Q (snd (ListPopHead Q l)) = vs"
    and "list_inv Q l \<Longrightarrow> list_inv Q (snd (ListPopHead Q l))"
proof -
  from assms obtain w q where p: "ql_pop_head Q (lq l) = Some (w, q)"
    using pop_head_None [of "lq l"] by (cases "ql_pop_head Q (lq l)") (auto simp: ListAll_def)
  from pop_head_Some [OF p] assms have w: "w = v" "ql_all Q q = vs" by (simp_all add: ListAll_def)
  show "fst (ListPopHead Q l) = Some v" and "ListAll Q (snd (ListPopHead Q l)) = vs"
    and "list_inv Q l \<Longrightarrow> list_inv Q (snd (ListPopHead Q l))"
    using assms p w by (simp_all add: ListPopHead_def ListAll_def list_inv_def bytes_simps)
qed

lemma ListPopTail_snoc:
  assumes "ListAll Q l = vs @ [v]"
  shows "fst (ListPopTail Q l) = Some v" and "ListAll Q (snd (ListPopTail Q l)) = vs"
    and "list_inv Q l \<Longrightarrow> list_inv Q (snd (ListPopTail Q l))"
proof -
  from assms obtain w q where p: "ql_pop_tail Q (lq l) = Some (w, q)"
    using pop_tail_None [of "lq l"] by (cases "ql_pop_tail Q (lq l)") (auto simp: ListAll_def)
  from pop_tail_Some [OF p] assms have w: "w = v" "ql_all Q q = vs" by (simp_all add: ListAll_def)
  show "fst (ListPopTail Q l) = Some v" and "ListAll Q (snd (ListPopTail Q l)) = vs"
    and "list_inv Q l \<Longrightarrow> list_inv Q (snd (ListPopTail Q l))"
    using assms p w by (simp_all add: ListPopTail_def ListAll_def list_inv_def bytes_simps)
qed

lemma ListPop_inv [inv_intros]:
  "list_inv Q l \<Longrightarrow> list_inv Q (snd (ListPopHead Q l))"
  "list_inv Q l \<Longrightarrow> list_inv Q (snd (ListPopTail Q l))"
  using ListPopHead_Cons(3) [of l] ListPopTail_snoc(3) [of l] ListPop_empty [of l]
  by (metis list.exhaust snd_conv) (metis ListPop_empty(2) ListPopTail_snoc(3) rev_exhaust snd_conv)

lemma ListPeek_all:
  "ListPeekHead Q l = (case ListAll Q l of [] \<Rightarrow> None | v # _ \<Rightarrow> Some v)"
  "ListPeekTail Q l = (if ListAll Q l = [] then None else Some (last (ListAll Q l)))"
  by (auto simp: ListPeekHead_def ListPeekTail_def ListAll_def peek_head_all peek_tail_all split: list.splits)

lemma ListAt_all: "ListAt Q l i = map_option (\<lambda>j. ListAll Q l ! j) (pos (length (ListAll Q l)) i)"
  by (simp add: ListAt_def ListAll_def at_all)

lemma ListSet_all:
  shows "pos (length (ListAll Q l)) i = None \<Longrightarrow> ListSet Q l i v = (False, l)"
    and "pos (length (ListAll Q l)) i = Some j \<Longrightarrow>
      fst (ListSet Q l i v) \<and> ListAll Q (snd (ListSet Q l i v)) = (ListAll Q l)[j := v]"
  using set_all [of "lq l" i v]
  by (auto simp: ListSet_def ListAll_def at_all Let_def split: option.splits)

lemma ListSet_inv [inv_intros]:
  assumes "list_inv Q l"
  shows "list_inv Q (snd (ListSet Q l i v))"
proof (cases "pos (length (ListAll Q l)) i")
  case None
  then show ?thesis using ListSet_all(1) assms by simp
next
  case (Some j)
  have "lbytes (snd (ListSet Q l i v)) = lbytes l + (int (length v) - int (length (ListAll Q l ! j)))"
    using Some by (simp add: ListSet_def ListAll_def at_all Let_def split: option.splits)
  then show ?thesis
    using ListSet_all(2) [OF Some] pos_Some [OF Some] assms
    by (simp add: list_inv_def list_bytes_def sum_list_update_int)
qed

lemma ListInsert_all:
  shows "pos (length (ListAll Q l)) i = None \<Longrightarrow>
      ListInsertBefore Q l i v = (False, l) \<and> ListInsertAfter Q l i v = (False, l)"
    and "pos (length (ListAll Q l)) i = Some j \<Longrightarrow>
      fst (ListInsertBefore Q l i v) \<and>
      ListAll Q (snd (ListInsertBefore Q l i v)) = insert_nth j v (ListAll Q l)"
    and "pos (length (ListAll Q l)) i = Some j \<Longrightarrow>
      fst (ListInsertAfter Q l i v) \<and>
      ListAll Q (snd (ListInsertAfter Q l i v)) = insert_nth (Suc j) v (ListAll Q l)"
  using before_all [of "lq l" i v] after_all [of "lq l" i v]
  by (auto simp: ListInsertBefore_def ListInsertAfter_def ListAll_def split: option.splits)

lemma ListInsert_inv [inv_intros]:
  assumes "list_inv Q l"
  shows "list_inv Q (snd (ListInsertBefore Q l i v))" and "list_inv Q (snd (ListInsertAfter Q l i v))"
  using before_all [of "lq l" i v] after_all [of "lq l" i v] assms
  by (cases "pos (length (ql_all Q (lq l))) i";
      auto simp: ListInsertBefore_def ListInsertAfter_def ListAll_def list_inv_def list_bytes_def
        sum_list_insert_nth split: option.splits)+

lemma ListDelete_all:
  shows "pos (length (ListAll Q l)) i = None \<Longrightarrow> ListDelete Q l i = (False, l)"
    and "pos (length (ListAll Q l)) i = Some j \<Longrightarrow>
      fst (ListDelete Q l i) \<and> ListAll Q (snd (ListDelete Q l i)) = remove_nth j (ListAll Q l)"
  using delete_all [of "lq l" i]
  by (auto simp: ListDelete_def ListAll_def at_all Let_def split: option.splits)

lemma ListDelete_inv [inv_intros]:
  assumes "list_inv Q l"
  shows "list_inv Q (snd (ListDelete Q l i))"
proof (cases "pos (length (ListAll Q l)) i")
  case None
  then show ?thesis using ListDelete_all(1) assms by simp
next
  case (Some j)
  have "lbytes (snd (ListDelete Q l i)) = lbytes l - int (length (ListAll Q l ! j))"
    using Some by (simp add: ListDelete_def ListAll_def at_all Let_def split: option.splits)
  then show ?thesis
    using ListDelete_all(2) [OF Some] pos_Some [OF Some] assms
    by (simp add: list_inv_def list_bytes_def sum_list_remove_nth)
qed

lemma ListTrim_all: "ListAll Q (ListTrim Q l start stop) = clip (ListAll Q l) start stop"
  by (simp add: ListTrim_def ListAll_def trim_all Let_def)

lemma ListTrim_inv [inv_intros]: "list_inv Q (ListTrim Q l start stop)"
  by (simp add: list_inv_def ListTrim_def ListAll_def Let_def keep_loop_bytes)

lemma ListRange_all: "ListRange Q l start stop = clip (ListAll Q l) start stop"
  by (simp add: ListRange_def ListAll_def range_all)

lemmas list_all_simps =
  ListLen_all ListPush_all ListPeek_all ListAt_all ListTrim_all ListRange_all

end

end
