(* ===== verification/ZSet_Type.thy ===== *)
theory ZSet_Type
  imports Pluto
begin

text \<open>
  The sorted-set value type (\<^verbatim>\<open>src/lib/types/zset.go\<close> and its estimator in \<^verbatim>\<open>memusage.go\<close>): a
  skip list ordered by score and then member, paired with a member-to-score map. The skip
  list is the third-party \<^verbatim>\<open>skip_list_ts\<close>, the argument \<open>S\<close> of the operations; the lemmas are
  proved in the locale of its documented behaviour with the comparison \<^verbatim>\<open>cmpZElem\<close> of the
  source.

  A score is an IEEE 754 double, kept as its 64-bit pattern; Go's comparison operators on
  doubles are exact on it (\<open>fkey\<close> orders the finite values and the infinities, the two zeros
  are equal, and every comparison with a NaN is false).

  The lemmas show that the map and the skip list always describe the same elements, what
  \<^verbatim>\<open>Add\<close> and \<^verbatim>\<open>Remove\<close> do to them, that ranks and positions are inverse, that the binary search
  finds the boundary of a monotone predicate, and that the score and lexicographic windows
  contain exactly the elements of the range.
\<close>

section \<open>Scores\<close>

type_synonym float64 = "64 word"

definition fmag :: "float64 \<Rightarrow> int" where
  "fmag w = uint w mod 2 ^ 63"

definition fneg :: "float64 \<Rightarrow> bool" where
  "fneg w = (2 ^ 63 \<le> uint w)"

definition is_nan :: "float64 \<Rightarrow> bool" where
  "is_nan w = (0x7FF0000000000000 < fmag w)"

definition fkey :: "float64 \<Rightarrow> int" where
  "fkey w = (if fneg w then - fmag w else fmag w)"

definition flt :: "float64 \<Rightarrow> float64 \<Rightarrow> bool" where
  "flt a b = (\<not> is_nan a \<and> \<not> is_nan b \<and> fkey a < fkey b)"

definition fle :: "float64 \<Rightarrow> float64 \<Rightarrow> bool" where
  "fle a b = (\<not> is_nan a \<and> \<not> is_nan b \<and> fkey a \<le> fkey b)"

definition feq :: "float64 \<Rightarrow> float64 \<Rightarrow> bool" where
  "feq a b = (\<not> is_nan a \<and> \<not> is_nan b \<and> fkey a = fkey b)"

section \<open>Definitions\<close>

record zelem =
  Score :: float64
  Member :: string

text \<open>\<^verbatim>\<open>bytes.Compare\<close>.\<close>

fun bytesCompare :: "string \<Rightarrow> string \<Rightarrow> int" where
  "bytesCompare [] [] = 0"
| "bytesCompare [] (b # bs) = -1"
| "bytesCompare (a # as) [] = 1"
| "bytesCompare (a # as) (b # bs) =
     (if byte a < byte b then -1 else if byte b < byte a then 1 else bytesCompare as bs)"

definition cmpZElem :: "zelem \<Rightarrow> zelem \<Rightarrow> int" where
  "cmpZElem a b =
     (if flt (Score a) (Score b) then -1
      else if flt (Score b) (Score a) then 1
      else bytesCompare (Member a) (Member b))"

record 'z zset =
  sl :: 'z
  zm :: "string \<rightharpoonup> float64"
  zbytes :: int

type_synonym 'z skips = "('z, zelem) skiplist"

definition NewZSet :: "'z skips \<Rightarrow> 'z zset" where
  "NewZSet S = \<lparr>sl = sl_new S, zm = Map.empty, zbytes = 0\<rparr>"

definition ZSetLen :: "'z zset \<Rightarrow> nat" where
  "ZSetLen z = card (dom (zm z))"

definition ZSetScore :: "'z zset \<Rightarrow> string \<Rightarrow> float64 option" where
  "ZSetScore z member = zm z member"

definition ZSetAdd :: "'z skips \<Rightarrow> 'z zset \<Rightarrow> string \<Rightarrow> float64 \<Rightarrow> bool \<times> 'z zset" where
  "ZSetAdd S z member score =
     (case zm z member of
        Some cur \<Rightarrow>
          if feq cur score then (False, z)
          else
            (let s1 = snd (sl_delete S (sl z) \<lparr>Score = cur, Member = member\<rparr>);
                 s2 = sl_insert S s1 \<lparr>Score = score, Member = member\<rparr>
             in (False, z\<lparr>sl := s2, zm := (zm z)(member \<mapsto> score)\<rparr>))
      | None \<Rightarrow>
          (True, z\<lparr>sl := sl_insert S (sl z) \<lparr>Score = score, Member = member\<rparr>,
                   zm := (zm z)(member \<mapsto> score),
                   zbytes := zbytes z + int (length member)\<rparr>))"

definition ZSetRemove :: "'z skips \<Rightarrow> 'z zset \<Rightarrow> string \<Rightarrow> bool \<times> 'z zset" where
  "ZSetRemove S z member =
     (case zm z member of
        None \<Rightarrow> (False, z)
      | Some s \<Rightarrow>
          (let (ok, s') = sl_delete S (sl z) \<lparr>Score = s, Member = member\<rparr>
           in (ok, z\<lparr>sl := s', zm := (zm z)(member := None),
                     zbytes := zbytes z - int (length member)\<rparr>)))"

definition ZSetRank :: "'z skips \<Rightarrow> 'z zset \<Rightarrow> string \<Rightarrow> nat option" where
  "ZSetRank S z member =
     (case zm z member of
        None \<Rightarrow> None
      | Some s \<Rightarrow> sl_rank S (sl z) \<lparr>Score = s, Member = member\<rparr>)"

definition ZSetAt :: "'z skips \<Rightarrow> 'z zset \<Rightarrow> int \<Rightarrow> zelem option" where
  "ZSetAt S z i = sl_at S (sl z) i"

text \<open>\<^verbatim>\<open>Each(fn)\<close> calls \<^verbatim>\<open>fn\<close> on these elements in order.\<close>

definition ZSetEach :: "'z skips \<Rightarrow> 'z zset \<Rightarrow> (string \<times> float64) list" where
  "ZSetEach S z = map (\<lambda>el. (Member el, Score el)) (sl_all S (sl z))"

function rank_range_loop :: "'z skips \<Rightarrow> 'z zset \<Rightarrow> int \<Rightarrow> int \<Rightarrow> nat \<Rightarrow> nat \<times> 'z zset" where
  "rank_range_loop S z start i n =
     (if i < start then (n, z)
      else
        case sl_at S (sl z) i of
          None \<Rightarrow> rank_range_loop S z start (i - 1) n
        | Some el \<Rightarrow>
            rank_range_loop S
              (z\<lparr>sl := snd (sl_delete S (sl z) el), zm := (zm z)(Member el := None),
                 zbytes := zbytes z - int (length (Member el))\<rparr>)
              start (i - 1) (Suc n))"
  by pat_completeness auto
termination by (relation "measure (\<lambda>(S, z, start, i, n). nat (i - start + 1))") auto

declare rank_range_loop.simps [simp del]

definition ZSetRemoveRankRange :: "'z skips \<Rightarrow> 'z zset \<Rightarrow> int \<Rightarrow> int \<Rightarrow> nat \<times> 'z zset" where
  "ZSetRemoveRankRange S z start stop = rank_range_loop S z start stop 0"

function search_loop :: "nat \<Rightarrow> nat \<Rightarrow> (nat \<Rightarrow> bool) \<Rightarrow> nat" where
  "search_loop lo hi f =
     (if lo < hi
      then let mid = (lo + hi) div 2
           in if f mid then search_loop lo mid f else search_loop (mid + 1) hi f
      else lo)"
  by pat_completeness auto
termination by (relation "measure (\<lambda>(lo, hi, f). hi - lo)") auto

declare search_loop.simps [simp del]

definition sortSearch :: "nat \<Rightarrow> (nat \<Rightarrow> bool) \<Rightarrow> nat" where
  "sortSearch n f = search_loop 0 n f"

text \<open>\<^verbatim>\<open>el, _ := z.sl.AtIndex(i)\<close>: the zero element when the position is out of range.\<close>

definition el_at :: "'z skips \<Rightarrow> 'z zset \<Rightarrow> nat \<Rightarrow> zelem" where
  "el_at S z i = (case sl_at S (sl z) (int i) of Some el \<Rightarrow> el | None \<Rightarrow> \<lparr>Score = 0, Member = []\<rparr>)"

definition ScoreRangeLoc :: "'z skips \<Rightarrow> 'z zset \<Rightarrow> float64 \<Rightarrow> float64 \<Rightarrow> bool \<Rightarrow> bool \<Rightarrow> nat \<times> nat" where
  "ScoreRangeLoc S z minS maxS minExcl maxExcl =
     (let n = sl_len S (sl z);
          lo = sortSearch n (\<lambda>i. let el = el_at S z i
                 in if minExcl then flt minS (Score el) else fle minS (Score el));
          hi = sortSearch n (\<lambda>i. let el = el_at S z i
                 in if maxExcl then fle maxS (Score el) else flt maxS (Score el))
      in (lo, hi))"

definition LexRangeLoc :: "'z skips \<Rightarrow> 'z zset \<Rightarrow> char \<Rightarrow> string \<Rightarrow> char \<Rightarrow> string \<Rightarrow> nat \<times> nat" where
  "LexRangeLoc S z minKind minM maxKind maxM =
     (let n = sl_len S (sl z);
          lo = (if minKind = CHR ''<'' then 0
                else if minKind = CHR ''>'' then n
                else sortSearch n (\<lambda>i. let c = bytesCompare (Member (el_at S z i)) minM
                       in if minKind = CHR ''('' then 0 < c else 0 \<le> c));
          hi = (if maxKind = CHR ''<'' then 0
                else if maxKind = CHR ''>'' then n
                else sortSearch n (\<lambda>i. let c = bytesCompare (Member (el_at S z i)) maxM
                       in if maxKind = CHR ''('' then 0 \<le> c else 0 < c))
      in (lo, hi))"

definition ZSetMemUsage :: "'z zset \<Rightarrow> int" where
  "ZSetMemUsage z = 96 + int (card (dom (zm z))) * 72 + zbytes z"

subsection \<open>Invariant\<close>

definition zgood :: "zelem \<Rightarrow> bool" where
  "zgood e \<longleftrightarrow> \<not> is_nan (Score e)"

definition zset_inv :: "'z skips \<Rightarrow> 'z zset \<Rightarrow> bool" where
  "zset_inv S z \<longleftrightarrow>
     set (sl_all S (sl z)) = {e. zm z (Member e) = Some (Score e)} \<and>
     (\<forall>e \<in> set (sl_all S (sl z)). zgood e) \<and>
     zbytes z = (\<Sum>k \<in> dom (zm z). int (length k))"

text \<open>
  The ranges the window functions are asked for: a score range with inclusive or exclusive
  bounds, and a lexicographic range whose bounds may be infinite.
\<close>

definition in_score_range :: "float64 \<Rightarrow> float64 \<Rightarrow> bool \<Rightarrow> bool \<Rightarrow> float64 \<Rightarrow> bool" where
  "in_score_range minS maxS minExcl maxExcl s \<longleftrightarrow>
     (if minExcl then flt minS s else fle minS s) \<and> (if maxExcl then flt s maxS else fle s maxS)"

definition in_lex_range :: "char \<Rightarrow> string \<Rightarrow> char \<Rightarrow> string \<Rightarrow> string \<Rightarrow> bool" where
  "in_lex_range minKind minM maxKind maxM k \<longleftrightarrow>
     (if minKind = CHR ''<'' then True else if minKind = CHR ''>'' then False
      else if minKind = CHR ''('' then bytesCompare minM k < 0 else bytesCompare minM k \<le> 0) \<and>
     (if maxKind = CHR ''<'' then False else if maxKind = CHR ''>'' then True
      else if maxKind = CHR ''('' then bytesCompare k maxM < 0 else bytesCompare k maxM \<le> 0)"

section \<open>The order of elements\<close>

text \<open>A strictly sorted list is determined by its elements.\<close>

lemma sorted_wrt_unique:
  assumes "sorted_wrt R xs" "sorted_wrt R ys" "set xs = set ys"
    and "\<And>x y. x \<in> set xs \<Longrightarrow> y \<in> set xs \<Longrightarrow> R x y \<Longrightarrow> \<not> R y x"
  shows "xs = ys"
  using assms
proof (induction xs arbitrary: ys)
  case Nil
  then show ?case by simp
next
  case (Cons x xs)
  from Cons.prems(3) obtain y zs where ys: "ys = y # zs" by (cases ys) auto
  have "x = y"
  proof (rule ccontr)
    assume "x \<noteq> y"
    then have "x \<in> set zs" "y \<in> set xs" using Cons.prems(3) ys by auto
    then have "R y x" "R x y" using Cons.prems(1,2) ys by auto
    then show False using Cons.prems(4) [of x y] \<open>y \<in> set xs\<close> by simp
  qed
  moreover have "\<not> R x x" using Cons.prems(4) [of x x] by auto
  then have "x \<notin> set xs" "y \<notin> set zs" using Cons.prems(1,2) ys \<open>x = y\<close> by auto
  then have eq: "set xs = set zs" using Cons.prems(3) ys \<open>x = y\<close> by auto
  have "xs = zs"
  proof (rule Cons.IH [OF _ _ eq])
    show "sorted_wrt R xs" "sorted_wrt R zs" using Cons.prems(1,2) ys by simp_all
    show "\<And>x y. x \<in> set xs \<Longrightarrow> y \<in> set xs \<Longrightarrow> R x y \<Longrightarrow> \<not> R y x"
      by (rule Cons.prems(4)) simp_all
  qed
  ultimately show ?case using ys by simp
qed

lemma bytesCompare_zero: "bytesCompare a b = 0 \<longleftrightarrow> a = b"
  by (induction a b rule: bytesCompare.induct) (auto simp: not_less le_antisym)

lemma bytesCompare_refl [simp]: "bytesCompare a a = 0"
  by (simp add: bytesCompare_zero)

lemma bytesCompare_values: "bytesCompare a b \<in> {-1, 0, 1}"
  by (induction a b rule: bytesCompare.induct) auto

lemma bytesCompare_swap: "bytesCompare b a = - bytesCompare a b"
  by (induction a b rule: bytesCompare.induct) auto

lemma bytesCompare_trans: "bytesCompare a b < 0 \<Longrightarrow> bytesCompare b c < 0 \<Longrightarrow> bytesCompare a c < 0"
proof (induction a b arbitrary: c rule: bytesCompare.induct)
  case (2 b bs)
  then show ?case by (cases c) auto
next
  case (4 a as b bs)
  from "4.prems"(2) obtain d ds where c: "c = d # ds" by (cases c) simp_all
  have IH: "\<not> byte a < byte b \<Longrightarrow> \<not> byte b < byte a \<Longrightarrow> bytesCompare as bs < 0 \<Longrightarrow>
      bytesCompare bs ds < 0 \<Longrightarrow> bytesCompare as ds < 0" by (rule "4.IH")
  show ?case
  proof (cases "byte a < byte b")
    case True
    moreover have "byte b \<le> byte d" using "4.prems"(2) c by (simp split: if_splits)
    ultimately show ?thesis using c by simp
  next
    case False
    then have "byte a = byte b" using "4.prems"(1) by (simp split: if_splits)
    then show ?thesis using IH "4.prems" c by (auto split: if_splits)
  qed
qed simp_all

lemma bytesCompare_less_le_trans:
  "bytesCompare a b < 0 \<Longrightarrow> bytesCompare b c \<le> 0 \<Longrightarrow> bytesCompare a c < 0"
  by (cases "b = c") (auto simp: bytesCompare_zero order_le_less intro: bytesCompare_trans)

lemma bytesCompare_le_trans:
  "bytesCompare a b \<le> 0 \<Longrightarrow> bytesCompare b c \<le> 0 \<Longrightarrow> bytesCompare a c \<le> 0"
  by (cases "a = b") (auto simp: bytesCompare_zero order_le_less dest: bytesCompare_less_le_trans)

lemma flt_good: "zgood a \<Longrightarrow> zgood b \<Longrightarrow> flt (Score a) (Score b) \<longleftrightarrow> fkey (Score a) < fkey (Score b)"
  by (simp add: flt_def zgood_def)

lemma cmpZElem_less:
  "zgood a \<Longrightarrow> zgood b \<Longrightarrow> cmpZElem a b < 0 \<longleftrightarrow>
     fkey (Score a) < fkey (Score b) \<or>
     fkey (Score a) = fkey (Score b) \<and> bytesCompare (Member a) (Member b) < 0"
  by (auto simp: cmpZElem_def flt_good)

lemma cmpZElem_zero:
  "zgood a \<Longrightarrow> zgood b \<Longrightarrow> cmpZElem a b = 0 \<longleftrightarrow> fkey (Score a) = fkey (Score b) \<and> Member a = Member b"
  by (auto simp: cmpZElem_def flt_good bytesCompare_zero)

lemma cmpZElem_refl: "zgood a \<Longrightarrow> cmpZElem a a = 0"
  by (simp add: cmpZElem_zero)

lemma cmpZElem_swap: "zgood a \<Longrightarrow> zgood b \<Longrightarrow> cmpZElem b a = - cmpZElem a b"
  by (auto simp: cmpZElem_def flt_good bytesCompare_swap [of "Member a"])

lemma cmpZElem_trans:
  "\<lbrakk>zgood a; zgood b; zgood c; cmpZElem a b < 0; cmpZElem b c < 0\<rbrakk> \<Longrightarrow> cmpZElem a c < 0"
  by (auto simp: cmpZElem_less intro: bytesCompare_trans)

lemma cmpZElem_total:
  "\<lbrakk>zgood a; zgood b; \<not> cmpZElem a b < 0; cmpZElem a b \<noteq> 0\<rbrakk> \<Longrightarrow> cmpZElem b a < 0"
  using cmpZElem_swap [of a b] by linarith

section \<open>The binary search\<close>

lemma search_loop_spec:
  assumes "lo \<le> hi" "\<And>i j. i \<le> j \<Longrightarrow> j < n \<Longrightarrow> f i \<Longrightarrow> f j" "hi \<le> n"
    and "\<And>i. i < lo \<Longrightarrow> \<not> f i" "\<And>i. hi \<le> i \<Longrightarrow> i < n \<Longrightarrow> f i"
  shows "search_loop lo hi f \<le> n \<and> (\<forall>i < n. f i \<longleftrightarrow> search_loop lo hi f \<le> i)"
  using assms
proof (induction lo hi f rule: search_loop.induct)
  case (1 lo hi f)
  show ?case
  proof (cases "lo < hi")
    case False
    then have "lo = hi" using 1(3) by simp
    then have "search_loop lo hi f = lo" by (simp add: search_loop.simps)
    then show ?thesis using 1(5-7) \<open>lo = hi\<close> by (metis linorder_not_le)
  next
    case True
    let ?mid = "(lo + hi) div 2"
    have mid: "lo \<le> ?mid" "?mid < hi" using True by auto
    show ?thesis
    proof (cases "f ?mid")
      case f: True
      have "search_loop lo hi f = search_loop lo ?mid f"
        using True f by (subst search_loop.simps) (simp add: Let_def)
      moreover have "search_loop lo ?mid f \<le> n \<and> (\<forall>i < n. f i \<longleftrightarrow> search_loop lo ?mid f \<le> i)"
        using mid f 1(4-) by (intro 1(1) [OF True refl]) (blast intro: le_trans less_imp_le)+
      ultimately show ?thesis by simp
    next
      case f: False
      have "search_loop lo hi f = search_loop (?mid + 1) hi f"
        using True f by (subst search_loop.simps) (simp add: Let_def)
      moreover have "search_loop (?mid + 1) hi f \<le> n \<and> (\<forall>i < n. f i \<longleftrightarrow> search_loop (?mid + 1) hi f \<le> i)"
      proof (intro 1(2) [OF True refl])
        fix i assume "i < ?mid + 1"
        then show "\<not> f i" using f 1(4) [of i ?mid] mid 1(5) by auto
      qed (use mid f 1(4-) in auto)
      ultimately show ?thesis by simp
    qed
  qed
qed

text \<open>A predicate that stays true once it is true below \<open>n\<close>.\<close>

definition upclosed :: "nat \<Rightarrow> (nat \<Rightarrow> bool) \<Rightarrow> bool" where
  "upclosed n f \<longleftrightarrow> (\<forall>i j. i \<le> j \<longrightarrow> j < n \<longrightarrow> f i \<longrightarrow> f j)"

lemma sortSearch_spec:
  assumes "upclosed n f"
  shows "sortSearch n f \<le> n" and "i < n \<Longrightarrow> f i \<longleftrightarrow> sortSearch n f \<le> i"
  using search_loop_spec [of 0 n n f] assms by (auto simp: sortSearch_def upclosed_def)

text \<open>The window between the boundaries of two such predicates.\<close>

lemma sortSearch_window:
  assumes "upclosed n f" "upclosed n g" "i < n"
  shows "sortSearch n f \<le> i \<and> i < sortSearch n g \<longleftrightarrow> f i \<and> \<not> g i"
  using sortSearch_spec(2) [OF assms(1,3)] sortSearch_spec(2) [OF assms(2,3)] by auto

section \<open>The two views agree\<close>

lemma zset_inv_mem: "zset_inv S z \<Longrightarrow> e \<in> set (sl_all S (sl z)) \<longleftrightarrow> zm z (Member e) = Some (Score e)"
  by (simp add: zset_inv_def)

lemma zset_inv_good: "zset_inv S z \<Longrightarrow> e \<in> set (sl_all S (sl z)) \<Longrightarrow> zgood e"
  by (simp add: zset_inv_def)

lemma zset_dom: "zset_inv S z \<Longrightarrow> dom (zm z) = Member ` set (sl_all S (sl z))"
proof (intro set_eqI iffI)
  fix k assume inv: "zset_inv S z" and "k \<in> dom (zm z)"
  then obtain s where "zm z k = Some s" by auto
  then have "\<lparr>Score = s, Member = k\<rparr> \<in> set (sl_all S (sl z))" using zset_inv_mem [OF inv] by simp
  then show "k \<in> Member ` set (sl_all S (sl z))" by force
qed (auto simp: zset_inv_def)

lemma zset_finite: "zset_inv S z \<Longrightarrow> finite (dom (zm z))"
  by (simp add: zset_dom)

lemma zset_inj: "zset_inv S z \<Longrightarrow> inj_on Member (set (sl_all S (sl z)))"
  by (rule inj_onI) (simp add: zset_inv_def)

lemma zset_score_good: "zset_inv S z \<Longrightarrow> zm z k = Some s \<Longrightarrow> \<not> is_nan s"
  using zset_inv_good [of S z "\<lparr>Score = s, Member = k\<rparr>"] zset_inv_mem [of S z "\<lparr>Score = s, Member = k\<rparr>"]
  by (simp add: zgood_def)

lemma zbytes_upd:
  "finite (dom m) \<Longrightarrow> m k = None \<Longrightarrow>
     (\<Sum>x \<in> dom (m(k \<mapsto> s)). int (length x)) = (\<Sum>x \<in> dom m. int (length x)) + int (length k)"
  by (simp add: domIff sum.insert)

lemma zbytes_del:
  "finite (dom m) \<Longrightarrow> m k = Some s \<Longrightarrow>
     (\<Sum>x \<in> dom (m(k := None)). int (length x)) = (\<Sum>x \<in> dom m. int (length x)) - int (length k)"
  by (auto simp: sum_diff1)

lemma dom_upd_same: "m k = Some s \<Longrightarrow> dom (m(k \<mapsto> t)) = dom m"
  by auto

text \<open>The skip list of the documented package, ordered by \<^verbatim>\<open>cmpZElem\<close>.\<close>

locale zskip = skiplist_laws S cmpZElem zgood for S :: "'z skips"
begin

lemma sorted_all: "zset_inv S z \<Longrightarrow> sorted_wrt (\<lambda>a b. cmpZElem a b < 0) (sl_all S (sl z))"
  by (rule sl_sorted) (simp add: zset_inv_good)

lemma distinct_all: "zset_inv S z \<Longrightarrow> distinct (sl_all S (sl z))"
proof -
  assume inv: "zset_inv S z"
  have "cmpZElem (sl_all S (sl z) ! i) (sl_all S (sl z) ! j) < 0" if "i < j" "j < length (sl_all S (sl z))" for i j
    using sorted_all [OF inv] that by (rule sorted_wrt_nth_less)
  moreover have "cmpZElem (sl_all S (sl z) ! i) (sl_all S (sl z) ! i) = 0" if "i < length (sl_all S (sl z))" for i
    using that zset_inv_good [OF inv] by (intro cmpZElem_refl) simp
  ultimately show ?thesis unfolding distinct_conv_nth by (metis less_irrefl linorder_neqE_nat)
qed

lemma ZSetLen_all: "zset_inv S z \<Longrightarrow> ZSetLen z = length (sl_all S (sl z))"
  using distinct_card [OF distinct_all, of z] card_image [OF zset_inj, of S z]
  by (simp add: ZSetLen_def zset_dom)

lemma NewZSet_inv [inv_intros]: "zset_inv S (NewZSet S)"
  by (simp add: zset_inv_def NewZSet_def sl_all_new)

lemma delete_member:
  assumes "zset_inv S z" "zm z k = Some s"
  shows "set (sl_all S (snd (sl_delete S (sl z) \<lparr>Score = s, Member = k\<rparr>))) =
      {e. ((zm z)(k := None)) (Member e) = Some (Score e)}"
    and "fst (sl_delete S (sl z) \<lparr>Score = s, Member = k\<rparr>)"
proof -
  let ?e = "\<lparr>Score = s, Member = k\<rparr>"
  have e: "?e \<in> set (sl_all S (sl z))" using zset_inv_mem [OF assms(1)] assms(2) by simp
  then have good: "zgood ?e" by (rule zset_inv_good [OF assms(1)])
  have "cmpZElem y ?e = 0 \<longleftrightarrow> y = ?e" if y: "y \<in> set (sl_all S (sl z))" for y
  proof
    assume "cmpZElem y ?e = 0"
    then have "Member y = Member ?e" using cmpZElem_zero [OF zset_inv_good [OF assms(1) y] good] by simp
    then show "y = ?e" using inj_onD [OF zset_inj [OF assms(1)]] y e by blast
  qed (simp add: cmpZElem_refl good)
  then have "set (sl_all S (snd (sl_delete S (sl z) ?e))) = set (sl_all S (sl z)) - {?e}"
    using sl_set_delete [of "sl z" ?e] zset_inv_good [OF assms(1)] good by blast
  then show "set (sl_all S (snd (sl_delete S (sl z) ?e))) = {e. ((zm z)(k := None)) (Member e) = Some (Score e)}"
    using assms zset_inv_mem [OF assms(1)] by (auto split: if_splits)
  show "fst (sl_delete S (sl z) ?e)"
    using sl_delete_found [of "sl z" ?e] zset_inv_good [OF assms(1)] good e cmpZElem_refl by blast
qed

lemma insert_member:
  assumes "set (sl_all S q) = {e. m (Member e) = Some (Score e)}" "\<And>e. e \<in> set (sl_all S q) \<Longrightarrow> zgood e"
    and "m k = None" "\<not> is_nan s"
  shows "set (sl_all S (sl_insert S q \<lparr>Score = s, Member = k\<rparr>)) = {e. (m(k \<mapsto> s)) (Member e) = Some (Score e)}"
proof -
  let ?e = "\<lparr>Score = s, Member = k\<rparr>"
  have good: "zgood ?e" using assms(4) by (simp add: zgood_def)
  have "zgood y \<and> cmpZElem y ?e \<noteq> 0" if "y \<in> set (sl_all S q)" for y
    using that assms cmpZElem_zero [OF assms(2) [OF that] good] by auto
  then have "set (sl_all S (sl_insert S q ?e)) = insert ?e (set (sl_all S q))"
    using sl_set_insert [of q ?e] good by blast
  then show ?thesis using assms by (auto intro: zelem.equality)
qed

lemma ZSetAdd_new:
  assumes "zset_inv S z" "\<not> is_nan s" "zm z k = None"
  shows "fst (ZSetAdd S z k s)" "zm (snd (ZSetAdd S z k s)) = (zm z)(k \<mapsto> s)"
    and "zset_inv S (snd (ZSetAdd S z k s))"
proof -
  show "fst (ZSetAdd S z k s)" "zm (snd (ZSetAdd S z k s)) = (zm z)(k \<mapsto> s)"
    using assms(3) by (simp_all add: ZSetAdd_def)
  have "set (sl_all S (sl_insert S (sl z) \<lparr>Score = s, Member = k\<rparr>)) =
      {e. ((zm z)(k \<mapsto> s)) (Member e) = Some (Score e)}"
    using assms by (intro insert_member) (auto simp: zset_inv_def)
  then show "zset_inv S (snd (ZSetAdd S z k s))"
    using assms zbytes_upd [OF zset_finite [OF assms(1)] assms(3)] zset_score_good [OF assms(1)]
    by (auto simp: ZSetAdd_def zset_inv_def zgood_def split: if_splits)
qed

lemma ZSetAdd_old:
  assumes "zset_inv S z" "\<not> is_nan s" "zm z k = Some c"
  shows "\<not> fst (ZSetAdd S z k s)"
    and "zm (snd (ZSetAdd S z k s)) = (if feq c s then zm z else (zm z)(k \<mapsto> s))"
    and "zset_inv S (snd (ZSetAdd S z k s))"
proof -
  show "\<not> fst (ZSetAdd S z k s)"
    and "zm (snd (ZSetAdd S z k s)) = (if feq c s then zm z else (zm z)(k \<mapsto> s))"
    using assms(3) by (simp_all add: ZSetAdd_def Let_def)
  let ?q = "snd (sl_delete S (sl z) \<lparr>Score = c, Member = k\<rparr>)"
  note del = delete_member(1) [OF assms(1,3)]
  have "zgood e" if "e \<in> set (sl_all S ?q)" for e
    using that del zset_score_good [OF assms(1)] by (auto simp: zgood_def split: if_splits)
  then have "set (sl_all S (sl_insert S ?q \<lparr>Score = s, Member = k\<rparr>)) =
      {e. ((zm z)(k := None, k \<mapsto> s)) (Member e) = Some (Score e)}"
    using assms(2) by (intro insert_member [OF del]) auto
  then show "zset_inv S (snd (ZSetAdd S z k s))"
    using assms zset_score_good [OF assms(1)] dom_upd_same [where m = "zm z" and k = k and s = c and t = s, OF assms(3)]
    by (auto simp: ZSetAdd_def zset_inv_def zgood_def Let_def split: if_splits)
qed

lemma ZSetAdd_inv [inv_intros]: "zset_inv S z \<Longrightarrow> \<not> is_nan s \<Longrightarrow> zset_inv S (snd (ZSetAdd S z k s))"
  using ZSetAdd_new(3) ZSetAdd_old(3) by (cases "zm z k") auto

lemma ZSetRemove_spec:
  assumes "zset_inv S z"
  shows "fst (ZSetRemove S z k) \<longleftrightarrow> zm z k \<noteq> None"
    and "zm (snd (ZSetRemove S z k)) = (zm z)(k := None)"
    and "zset_inv S (snd (ZSetRemove S z k))"
proof -
  show "fst (ZSetRemove S z k) \<longleftrightarrow> zm z k \<noteq> None"
    using delete_member(2) [OF assms] by (auto simp: ZSetRemove_def Let_def split_beta split: option.splits)
  show "zm (snd (ZSetRemove S z k)) = (zm z)(k := None)"
    by (auto simp: ZSetRemove_def Let_def split_beta split: option.splits)
  show "zset_inv S (snd (ZSetRemove S z k))"
  proof (cases "zm z k")
    case None
    then show ?thesis using assms by (simp add: ZSetRemove_def)
  next
    case (Some s)
    note del = delete_member(1) [OF assms Some]
    have "zgood e" if "e \<in> set (sl_all S (snd (sl_delete S (sl z) \<lparr>Score = s, Member = k\<rparr>)))" for e
      using that del zset_score_good [OF assms] by (auto simp: zgood_def split: if_splits)
    then show ?thesis
      using Some del zbytes_del [OF zset_finite [OF assms] Some] assms
      by (simp add: ZSetRemove_def Let_def split_beta zset_inv_def)
  qed
qed

section \<open>Ranks and windows\<close>

lemma ZSetRank_spec:
  assumes "zset_inv S z"
  shows "ZSetRank S z k = Some i \<longleftrightarrow> i < length (sl_all S (sl z)) \<and> Member (sl_all S (sl z) ! i) = k"
proof (cases "zm z k")
  case None
  have "Member e \<noteq> k" if "e \<in> set (sl_all S (sl z))" for e
    using that None zset_inv_mem [OF assms] by auto
  then show ?thesis using None by (auto simp: ZSetRank_def)
next
  case (Some s)
  let ?e = "\<lparr>Score = s, Member = k\<rparr>" and ?all = "sl_all S (sl z)"
  have e: "?e \<in> set ?all" using zset_inv_mem [OF assms] Some by simp
  have good: "zgood ?e" by (rule zset_inv_good [OF assms e])
  have "cmpZElem (?all ! i) ?e = 0 \<longleftrightarrow> Member (?all ! i) = k" if i: "i < length ?all"
  proof
    assume "Member (?all ! i) = k"
    then have "?all ! i = ?e" using inj_onD [OF zset_inj [OF assms]] e nth_mem [OF i] by fastforce
    then show "cmpZElem (?all ! i) ?e = 0" using good by (simp add: cmpZElem_refl)
  qed (use cmpZElem_zero [OF zset_inv_good [OF assms nth_mem [OF i]] good] in simp)
  moreover have "ZSetRank S z k = Some i \<longleftrightarrow> i < length ?all \<and> cmpZElem (?all ! i) ?e = 0"
    using Some sl_rank_Some [of "sl z" ?e i] zset_inv_good [OF assms] good by (simp add: ZSetRank_def)
  ultimately show ?thesis by blast
qed

lemma ZSetRank_None: "zset_inv S z \<Longrightarrow> ZSetRank S z k = None \<longleftrightarrow> zm z k = None"
proof -
  assume inv: "zset_inv S z"
  have "zm z k \<noteq> None \<longleftrightarrow> (\<exists>i < length (sl_all S (sl z)). Member (sl_all S (sl z) ! i) = k)"
    using zset_dom [OF inv] by (simp add: dom_def set_conv_nth image_iff set_eq_iff) metis
  then show ?thesis using ZSetRank_spec [OF inv, of k] by (metis not_None_eq)
qed

lemma ZSetAt_Rank:
  assumes "zset_inv S z" "ZSetAt S z (int i) = Some e"
  shows "ZSetRank S z (Member e) = Some i" and "ZSetScore z (Member e) = Some (Score e)"
proof -
  from assms(2) have i: "i < length (sl_all S (sl z))" "sl_all S (sl z) ! i = e"
    by (simp_all add: ZSetAt_def sl_at_all split: if_splits)
  then show "ZSetRank S z (Member e) = Some i" using ZSetRank_spec [OF assms(1)] by simp
  from i have "e \<in> set (sl_all S (sl z))" by auto
  then show "ZSetScore z (Member e) = Some (Score e)"
    using zset_inv_mem [OF assms(1)] by (simp add: ZSetScore_def)
qed

lemma el_at_all: "i < length (sl_all S (sl z)) \<Longrightarrow> el_at S z i = sl_all S (sl z) ! i"
  by (simp add: el_at_def sl_at_all)

lemma scores_sorted:
  assumes "zset_inv S z" "i \<le> j" "j < length (sl_all S (sl z))"
  shows "fkey (Score (sl_all S (sl z) ! i)) \<le> fkey (Score (sl_all S (sl z) ! j))"
proof (cases "i = j")
  case False
  then have "cmpZElem (sl_all S (sl z) ! i) (sl_all S (sl z) ! j) < 0"
    using sorted_wrt_nth_less [OF sorted_all [OF assms(1)], of i j] assms by simp
  then show ?thesis
    using assms by (subst (asm) cmpZElem_less) (auto intro: zset_inv_good)
qed simp

text \<open>The window of a score range contains exactly the ranks whose score lies in the range.\<close>

lemma ScoreRangeLoc_spec:
  assumes inv: "zset_inv S z" and nan: "\<not> is_nan minS" "\<not> is_nan maxS"
    and loc: "ScoreRangeLoc S z minS maxS minExcl maxExcl = (lo, hi)"
  shows "lo \<le> length (sl_all S (sl z))" and "hi \<le> length (sl_all S (sl z))"
    and "i < length (sl_all S (sl z)) \<Longrightarrow>
      lo \<le> i \<and> i < hi \<longleftrightarrow> in_score_range minS maxS minExcl maxExcl (Score (sl_all S (sl z) ! i))"
proof -
  let ?all = "sl_all S (sl z)" and ?n = "length (sl_all S (sl z))"
  let ?f = "\<lambda>i. if minExcl then flt minS (Score (el_at S z i)) else fle minS (Score (el_at S z i))"
  let ?g = "\<lambda>i. if maxExcl then fle maxS (Score (el_at S z i)) else flt maxS (Score (el_at S z i))"
  have good: "\<not> is_nan (Score (?all ! i))" if "i < ?n" for i
    using zset_inv_good [OF inv nth_mem [OF that]] by (simp add: zgood_def)
  have f: "?f i \<longleftrightarrow> (if minExcl then fkey minS < fkey (Score (?all ! i)) else fkey minS \<le> fkey (Score (?all ! i)))"
    and g: "?g i \<longleftrightarrow> (if maxExcl then fkey maxS \<le> fkey (Score (?all ! i)) else fkey maxS < fkey (Score (?all ! i)))"
    if "i < ?n" for i
    using good [OF that] nan by (simp_all add: el_at_all [OF that] flt_def fle_def)
  have up: "upclosed ?n ?f" "upclosed ?n ?g"
    unfolding upclosed_def using scores_sorted [OF inv] f g by (fastforce split: if_splits)+
  have lo: "lo = sortSearch ?n ?f" and hi: "hi = sortSearch ?n ?g"
    using loc by (auto simp: ScoreRangeLoc_def Let_def sl_len_all)
  show "lo \<le> ?n" unfolding lo by (rule sortSearch_spec(1) [OF up(1)])
  show "hi \<le> ?n" unfolding hi by (rule sortSearch_spec(1) [OF up(2)])
  assume i: "i < ?n"
  show "lo \<le> i \<and> i < hi \<longleftrightarrow> in_score_range minS maxS minExcl maxExcl (Score (?all ! i))"
    unfolding lo hi sortSearch_window [OF up i]
    using good [OF i] nan f [OF i] g [OF i]
    by (auto simp: in_score_range_def flt_def fle_def)
qed

lemma members_sorted:
  assumes "zset_inv S z" "i \<le> j" "j < length (sl_all S (sl z))"
    and eq: "\<And>a b. a \<in> set (sl_all S (sl z)) \<Longrightarrow> b \<in> set (sl_all S (sl z)) \<Longrightarrow> feq (Score a) (Score b)"
  shows "bytesCompare (Member (sl_all S (sl z) ! i)) (Member (sl_all S (sl z) ! j)) \<le> 0"
proof (cases "i = j")
  case True
  then show ?thesis by simp
next
  case False
  let ?a = "sl_all S (sl z) ! i" and ?b = "sl_all S (sl z) ! j"
  have ab: "?a \<in> set (sl_all S (sl z))" "?b \<in> set (sl_all S (sl z))" using assms by auto
  have "cmpZElem ?a ?b < 0"
    using sorted_wrt_nth_less [OF sorted_all [OF assms(1)], of i j] assms False by simp
  then have "fkey (Score ?a) < fkey (Score ?b) \<or> bytesCompare (Member ?a) (Member ?b) < 0"
    using cmpZElem_less [OF zset_inv_good [OF assms(1) ab(1)] zset_inv_good [OF assms(1) ab(2)]] by blast
  moreover have "fkey (Score ?a) = fkey (Score ?b)" using eq [OF ab] by (simp add: feq_def)
  ultimately show ?thesis by auto
qed

text \<open>The lexicographic window, under the assumption of equal scores the source names.\<close>

lemma LexRangeLoc_spec:
  assumes inv: "zset_inv S z"
    and eq: "\<And>a b. a \<in> set (sl_all S (sl z)) \<Longrightarrow> b \<in> set (sl_all S (sl z)) \<Longrightarrow> feq (Score a) (Score b)"
    and loc: "LexRangeLoc S z minKind minM maxKind maxM = (lo, hi)"
    and i: "i < length (sl_all S (sl z))"
  shows "lo \<le> i \<and> i < hi \<longleftrightarrow> in_lex_range minKind minM maxKind maxM (Member (sl_all S (sl z) ! i))"
proof -
  let ?n = "length (sl_all S (sl z))" and ?mem = "\<lambda>i. Member (sl_all S (sl z) ! i)"
  let ?gt = "\<lambda>m i. 0 < bytesCompare (Member (el_at S z i)) m"
  let ?ge = "\<lambda>m i. 0 \<le> bytesCompare (Member (el_at S z i)) m"
  have gt: "?gt m i \<longleftrightarrow> bytesCompare m (?mem i) < 0" and ge: "?ge m i \<longleftrightarrow> bytesCompare m (?mem i) \<le> 0"
    if "i < ?n" for i m
    using bytesCompare_swap [of m "?mem i"] by (simp_all add: el_at_all that)
  have le: "bytesCompare (?mem i) (?mem j) \<le> 0" if "i \<le> j" "j < ?n" for i j
    by (rule members_sorted [OF inv that eq])
  have up_gt: "upclosed ?n (?gt m)" for m
    unfolding upclosed_def
  proof (intro allI impI)
    fix i j assume ij: "i \<le> j" "j < ?n" "?gt m i"
    then have "bytesCompare m (?mem i) < 0" using gt [of i m] by simp
    then have "bytesCompare m (?mem j) < 0" using le [OF ij(1,2)] by (rule bytesCompare_less_le_trans)
    then show "?gt m j" using gt [OF ij(2)] by simp
  qed
  have up_ge: "upclosed ?n (?ge m)" for m
    unfolding upclosed_def
  proof (intro allI impI)
    fix i j assume ij: "i \<le> j" "j < ?n" "?ge m i"
    then have "bytesCompare m (?mem i) \<le> 0" using ge [of i m] by simp
    then have "bytesCompare m (?mem j) \<le> 0" using le [OF ij(1,2)] by (rule bytesCompare_le_trans)
    then show "?ge m j" using ge [OF ij(2)] by simp
  qed
  note gt_lo = sortSearch_spec(2) [OF up_gt i] and ge_lo = sortSearch_spec(2) [OF up_ge i]
  have raw: "lo = fst (LexRangeLoc S z minKind minM maxKind maxM)" "hi = snd (LexRangeLoc S z minKind minM maxKind maxM)"
    using loc by simp_all
  have lo: "lo = (if minKind = CHR ''<'' then 0 else if minKind = CHR ''>'' then ?n
      else if minKind = CHR ''('' then sortSearch ?n (?gt minM) else sortSearch ?n (?ge minM))"
    and hi: "hi = (if maxKind = CHR ''<'' then 0 else if maxKind = CHR ''>'' then ?n
      else if maxKind = CHR ''('' then sortSearch ?n (?ge maxM) else sortSearch ?n (?gt maxM))"
    unfolding raw LexRangeLoc_def Let_def sl_len_all
    by (cases "minKind = CHR ''(''"; simp) (cases "maxKind = CHR ''(''"; simp)
  have "lo \<le> i \<longleftrightarrow> (if minKind = CHR ''<'' then True else if minKind = CHR ''>'' then False
      else if minKind = CHR ''('' then bytesCompare minM (?mem i) < 0 else bytesCompare minM (?mem i) \<le> 0)"
    unfolding lo using i by (simp flip: gt_lo ge_lo add: gt [OF i] ge [OF i])
  moreover have "i < hi \<longleftrightarrow> (if maxKind = CHR ''<'' then False else if maxKind = CHR ''>'' then True
      else if maxKind = CHR ''('' then bytesCompare (?mem i) maxM < 0 else bytesCompare (?mem i) maxM \<le> 0)"
  proof -
    have "i < sortSearch ?n (?gt maxM) \<longleftrightarrow> \<not> ?gt maxM i" "i < sortSearch ?n (?ge maxM) \<longleftrightarrow> \<not> ?ge maxM i"
      using gt_lo [of maxM] ge_lo [of maxM] by (simp_all add: not_le [symmetric] del: not_le)
    then show ?thesis unfolding hi using i by (auto simp: el_at_all)
  qed
  ultimately show ?thesis by (simp only: in_lex_range_def)
qed

lemma ZSetRemove_all:
  assumes "zset_inv S z" "i < length (sl_all S (sl z))" "e = sl_all S (sl z) ! i"
  shows "sl_all S (snd (sl_delete S (sl z) e)) = remove_nth i (sl_all S (sl z))"
    and "zm z (Member e) = Some (Score e)"
proof -
  let ?all = "sl_all S (sl z)" and ?q = "snd (sl_delete S (sl z) e)"
  have e: "e \<in> set ?all" using assms by simp
  then show m: "zm z (Member e) = Some (Score e)" using zset_inv_mem [OF assms(1)] by simp
  have "set (sl_all S ?q) = {x. ((zm z)(Member e := None)) (Member x) = Some (Score x)}"
    using delete_member(1) [OF assms(1) m] by (cases e) simp
  then have q: "set (sl_all S ?q) = set ?all - {e}"
    using m zset_inv_mem [OF assms(1)] by (auto split: if_splits)
  have good: "\<And>x. x \<in> set (sl_all S ?q) \<Longrightarrow> zgood x" using q zset_inv_good [OF assms(1)] by auto
  show "sl_all S ?q = remove_nth i ?all"
  proof (rule sorted_wrt_unique [of "\<lambda>a b. cmpZElem a b < 0"])
    show "sorted_wrt (\<lambda>a b. cmpZElem a b < 0) (sl_all S ?q)" using good by (rule sl_sorted)
    have "sorted_wrt (\<lambda>a b. cmpZElem a b < 0) (take i ?all @ ?all ! i # drop (Suc i) ?all)"
      using sorted_all [OF assms(1)] remove_nth_split [OF assms(2)] by metis
    then show "sorted_wrt (\<lambda>a b. cmpZElem a b < 0) (remove_nth i ?all)"
      by (auto simp: remove_nth_def sorted_wrt_append)
    show "set (sl_all S ?q) = set (remove_nth i ?all)"
      using q set_remove_nth_distinct [OF distinct_all [OF assms(1)] assms(2)] assms(3) by simp
    show "\<not> cmpZElem y x < 0" if "x \<in> set (sl_all S ?q)" "y \<in> set (sl_all S ?q)" "cmpZElem x y < 0" for x y
      using that cmpZElem_swap [OF good good, of x y] by simp
  qed
qed

lemma rank_range_step:
  assumes "zset_inv S z" "0 \<le> i" "i < int (length (sl_all S (sl z)))"
  defines "e \<equiv> sl_all S (sl z) ! nat i"
  defines "z' \<equiv> z\<lparr>sl := snd (sl_delete S (sl z) e), zm := (zm z)(Member e := None),
      zbytes := zbytes z - int (length (Member e))\<rparr>"
  shows "sl_at S (sl z) i = Some e" "zset_inv S z'" "sl_all S (sl z') = remove_nth (nat i) (sl_all S (sl z))"
proof -
  have i: "nat i < length (sl_all S (sl z))" using assms(2,3) by simp
  show "sl_at S (sl z) i = Some e" using assms(2,3) by (simp add: sl_at_all e_def)
  note del = ZSetRemove_all [OF assms(1) i e_def [THEN meta_eq_to_obj_eq]]
  show "sl_all S (sl z') = remove_nth (nat i) (sl_all S (sl z))" using del(1) by (simp add: z'_def)
  have "snd (ZSetRemove S z (Member e)) = z'"
    using del(2) by (cases e) (simp add: ZSetRemove_def z'_def Let_def split_beta)
  then show "zset_inv S z'" using ZSetRemove_spec(3) [OF assms(1)] by metis
qed

lemma rank_range_loop_spec:
  assumes "zset_inv S z" "0 \<le> start" "start \<le> i + 1" "i < int (length (sl_all S (sl z)))"
  shows "zset_inv S (snd (rank_range_loop S z start i n)) \<and>
    fst (rank_range_loop S z start i n) = n + nat (i + 1 - start) \<and>
    sl_all S (sl (snd (rank_range_loop S z start i n))) =
      take (nat start) (sl_all S (sl z)) @ drop (nat (i + 1)) (sl_all S (sl z))"
  using assms
proof (induction "nat (i + 1 - start)" arbitrary: z i n)
  case 0
  then have "i < start" "i + 1 = start" by simp_all
  then show ?case using 0 by (simp add: rank_range_loop.simps)
next
  case (Suc k)
  let ?all = "sl_all S (sl z)"
  let ?e = "?all ! nat i"
  let ?z = "z\<lparr>sl := snd (sl_delete S (sl z) ?e), zm := (zm z)(Member ?e := None),
      zbytes := zbytes z - int (length (Member ?e))\<rparr>"
  have i: "start \<le> i" "0 \<le> i" using Suc.hyps(2) Suc.prems by simp_all
  note step = rank_range_step [OF Suc.prems(1) i(2) Suc.prems(4)]
  have len: "i - 1 < int (length (sl_all S (sl ?z)))"
    using Suc.prems(4) i unfolding step(3) by simp
  have IH: "zset_inv S (snd (rank_range_loop S ?z start (i - 1) (Suc n))) \<and>
    fst (rank_range_loop S ?z start (i - 1) (Suc n)) = Suc n + nat (i - 1 + 1 - start) \<and>
    sl_all S (sl (snd (rank_range_loop S ?z start (i - 1) (Suc n)))) =
      take (nat start) (sl_all S (sl ?z)) @ drop (nat (i - 1 + 1)) (sl_all S (sl ?z))"
    using Suc.hyps(2) Suc.prems i by (intro Suc.hyps(1) step(2) len) simp_all
  have "rank_range_loop S z start i n = rank_range_loop S ?z start (i - 1) (Suc n)"
    using i step(1) by (subst rank_range_loop.simps) simp
  moreover have "take (nat start) (remove_nth (nat i) ?all) = take (nat start) ?all"
    using i Suc.prems(2,4) by (simp add: remove_nth_def min_def nat_le_eq_zle nat_le_iff)
  moreover have "drop (nat i) (remove_nth (nat i) ?all) = drop (nat (i + 1)) ?all"
    using i Suc.prems(4) by (simp add: remove_nth_def nat_add_distrib min_absorb2)
  moreover have "Suc n + nat (i - start) = n + nat (i + 1 - start)" using i by simp
  ultimately show ?case using IH unfolding step(3) by simp
qed

lemma ZSetRemoveRankRange_spec:
  assumes "zset_inv S z" "0 \<le> start" "start \<le> stop + 1" "stop < int (length (sl_all S (sl z)))"
  shows "zset_inv S (snd (ZSetRemoveRankRange S z start stop))"
    and "int (fst (ZSetRemoveRankRange S z start stop)) = stop + 1 - start"
    and "ZSetEach S (snd (ZSetRemoveRankRange S z start stop)) =
      take (nat start) (ZSetEach S z) @ drop (nat (stop + 1)) (ZSetEach S z)"
  using rank_range_loop_spec [OF assms, of 0] assms(3)
  by (simp_all add: ZSetRemoveRankRange_def ZSetEach_def take_map drop_map)

end

section \<open>A list-backed skip list\<close>

definition zsorted :: "zelem list \<Rightarrow> bool" where
  "zsorted es \<longleftrightarrow> sorted_wrt (\<lambda>a b. cmpZElem a b < 0) es \<and> (\<forall>e \<in> set es. zgood e)"

fun zinsert :: "zelem \<Rightarrow> zelem list \<Rightarrow> zelem list" where
  "zinsert x [] = [x]"
| "zinsert x (y # ys) = (if cmpZElem x y < 0 then x # y # ys else y # zinsert x ys)"

text \<open>A list that is not sorted represents the empty skip list.\<close>

definition zlist :: "zelem list \<Rightarrow> zelem list" where
  "zlist es = (if zsorted es then es else [])"

definition listS :: "zelem list skips" where
  "listS = \<lparr>sl_new = [], sl_all = zlist, sl_len = (\<lambda>z. length (zlist z)),
     sl_insert = (\<lambda>z x. zinsert x (zlist z)),
     sl_delete = (\<lambda>z x. (\<exists>y \<in> set (zlist z). cmpZElem y x = 0, filter (\<lambda>y. cmpZElem y x \<noteq> 0) (zlist z))),
     sl_rank = (\<lambda>z x. find_index (\<lambda>y. cmpZElem y x = 0) (zlist z)),
     sl_at = (\<lambda>z p. if 0 \<le> p \<and> p < int (length (zlist z)) then Some (zlist z ! nat p) else None)\<rparr>"

lemma set_zinsert: "set (zinsert x ys) = insert x (set ys)"
  by (induction ys) auto

lemma zsorted_zlist [simp]: "zsorted (zlist es)"
  by (simp add: zlist_def zsorted_def)

lemma zlist_zsorted [simp]: "zsorted es \<Longrightarrow> zlist es = es"
  by (simp add: zlist_def)

lemma zsorted_zinsert:
  "zsorted ys \<Longrightarrow> zgood x \<Longrightarrow> (\<And>y. y \<in> set ys \<Longrightarrow> cmpZElem y x \<noteq> 0) \<Longrightarrow> zsorted (zinsert x ys)"
proof (induction ys)
  case Nil
  then show ?case by (simp add: zsorted_def)
next
  case (Cons y ys)
  then have good: "zgood y" "\<forall>e \<in> set ys. zgood e" and y: "\<forall>e \<in> set ys. cmpZElem y e < 0" and tl: "zsorted ys"
    by (simp_all add: zsorted_def)
  show ?case
  proof (cases "cmpZElem x y < 0")
    case True
    then have "\<forall>e \<in> set ys. cmpZElem x e < 0"
      using good y Cons.prems(2) cmpZElem_trans [of x y] by blast
    then show ?thesis using True Cons.prems by (simp add: zsorted_def)
  next
    case False
    moreover have "cmpZElem y x \<noteq> 0" using Cons.prems(3) by simp
    ultimately have "cmpZElem y x < 0"
      using cmpZElem_swap [OF Cons.prems(2) good(1)] by linarith
    moreover have "zsorted (zinsert x ys)" using Cons.IH tl Cons.prems by simp
    ultimately show ?thesis using False y good by (simp add: zsorted_def set_zinsert)
  qed
qed

lemma zsorted_filter: "zsorted es \<Longrightarrow> zsorted (filter P es)"
  by (simp add: zsorted_def sorted_wrt_filter)

lemma zrank_unique:
  assumes "zsorted es" "zgood x"
  shows "find_index (\<lambda>y. cmpZElem y x = 0) es = Some i \<longleftrightarrow> i < length es \<and> cmpZElem (es ! i) x = 0"
proof
  assume i: "i < length es \<and> cmpZElem (es ! i) x = 0"
  then have "find_index (\<lambda>y. cmpZElem y x = 0) es \<noteq> None" by (auto simp: find_index_None)
  then obtain j where j: "find_index (\<lambda>y. cmpZElem y x = 0) es = Some j" by auto
  from find_index_Some [OF j] have jl: "j < length es" "cmpZElem (es ! j) x = 0" by auto
  have "j \<le> i" using find_index_first [OF j] i by blast
  moreover have "\<not> j < i"
  proof
    assume "j < i"
    then have less: "cmpZElem (es ! j) (es ! i) < 0"
      using assms(1) i sorted_wrt_nth_less [of "\<lambda>a b. cmpZElem a b < 0" es j i] by (simp add: zsorted_def)
    have "zgood (es ! i)" "zgood (es ! j)" using assms(1) i jl by (auto simp: zsorted_def)
    with i jl(2) assms(2) have "cmpZElem (es ! j) (es ! i) = 0" by (simp add: cmpZElem_zero)
    with less show False by simp
  qed
  ultimately show "find_index (\<lambda>y. cmpZElem y x = 0) es = Some i" using j by simp
qed (use find_index_Some in blast)

interpretation lz: zskip listS
proof unfold_locales
  fix z x
  assume y: "\<And>y. y \<in> set (sl_all listS z) \<Longrightarrow> zgood y \<and> cmpZElem y x \<noteq> 0" and x: "zgood x"
  have "zsorted (zinsert x (zlist z))" using y x by (intro zsorted_zinsert) (auto simp: listS_def)
  then show "set (sl_all listS (sl_insert listS z x)) = insert x (set (sl_all listS z))"
    by (simp add: listS_def set_zinsert)
next
  fix z x i
  assume "zgood x"
  then show "sl_rank listS z x = Some i \<longleftrightarrow> i < length (sl_all listS z) \<and> cmpZElem (sl_all listS z ! i) x = 0"
    using zrank_unique [of "zlist z" x i] by (simp add: listS_def)
next
  fix z
  show "sorted_wrt (\<lambda>a b. cmpZElem a b < 0) (sl_all listS z)"
    using zsorted_zlist [of z] by (simp add: listS_def zsorted_def del: zsorted_zlist)
qed (auto simp: listS_def zsorted_filter zlist_def [of "[]"])

end
