(* ===== verification/Shard_State.thy ===== *)
theory Shard_State
  imports Decimal Hash_Type Set_Type List_Type ZSet_Type
begin

text \<open>
  The sharded keyspace engine (\<^verbatim>\<open>src/lib/shard/shard.go\<close>, \<^verbatim>\<open>evict.go\<close>, \<^verbatim>\<open>dump.go\<close>): its data and
  every operation that runs inside a shard goroutine.

  The state is one record \<open>engine\<close>. Entries are reached through pointers in the source (the
  hash table, the trackers and the callers all hold \<^verbatim>\<open>*Entry\<close>), so entries live in an explicit
  store \<open>ents\<close> and the tables map keys to addresses. A method of shard \<open>s\<close> takes the index of
  the shard, and returns the engine with that shard updated. The arrays indexed by a logical
  DB or a shard are functions on the index (the command layer only uses indices in range).
  The clock \<open>NowMs\<close> is a field: one task reads one value of it. The third-party containers are
  the bundle \<open>P\<close>.

  \<^verbatim>\<open>uint64\<close> versions and generations are natural numbers (they count writes to one key) and the
  \<^verbatim>\<open>int64\<close> memory counters are integers.
\<close>

section \<open>Data\<close>

datatype ('q, 'z) gval =
    VString string
  | VHash hash
  | VList "'q glist"
  | VSet gset
  | VZSet "'z zset"

record ('q, 'z) entry =
  Val :: "('q, 'z) gval"
  ExpireAtMs :: int
  ExpGen :: nat
  Version :: nat
  memBytes :: int

record expItem =
  At :: int
  DB :: nat
  Key :: string
  Gen :: nat

definition cmpExpItem :: "expItem \<Rightarrow> expItem \<Rightarrow> int" where
  "cmpExpItem a b =
     (if At a < At b then -1
      else if At b < At a then 1
      else if DB a \<noteq> DB b then int (DB a) - int (DB b)
      else if bytesCompare (Key a) (Key b) < 0 then -1
      else if 0 < bytesCompare (Key a) (Key b) then 1
      else 0)"

type_synonym tombKey = "nat \<times> string"

datatype EvictPolicy =
    PolicyNoEviction
  | PolicyVolatileLRU
  | PolicyVolatileLFU
  | PolicyVolatileRandom
  | PolicyVolatileTTL
  | PolicyAllKeysLRU
  | PolicyAllKeysLFU
  | PolicyAllKeysRandom

text \<open>The third-party packages; \<open>PC\<close> is \<^verbatim>\<open>crc.Checksum64\<close> with the engine's table.\<close>

record ('q, 'z, 't, 'h, 'l, 'f) pluto =
  PQ :: "'q quicklist"
  PS :: "'z skips"
  PT :: "'t table"
  PH :: "('h, expItem) minheap"
  PL :: "('l, tombKey) lru"
  PF :: "('f, tombKey) lfu"
  PC :: "string \<Rightarrow> 64 word"

record ('h, 'l, 'f) shard =
  expHeap :: 'h
  tomb :: "tombKey \<rightharpoonup> nat"
  epoch :: "nat \<Rightarrow> nat"
  waiters :: "tombKey \<rightharpoonup> nat list"
  usedBytes :: "nat \<Rightarrow> int"
  usedTotal :: int
  lruAll :: 'l
  lruVol :: 'l
  lfuAll :: 'f
  lfuVol :: 'f
  trackWarm :: bool
  rng :: nat
  TombCap :: nat
  SweepInterval :: int
  SweepMax :: int
  SweepTimeBox :: int
  SweepFloor :: int

text \<open>
  \<open>events\<close> is the sequence of keyspace notifications (database, key, event), oldest first: the
  calls of the \<^verbatim>\<open>OnKeyGone\<close> hook, which the command layer installs as \<^verbatim>\<open>notifyKeyspace\<close>, and those
  the command handlers make; \<open>chFull\<close> says which waiters' channels hold a signal.
\<close>

record ('q, 'z, 't, 'h, 'l, 'f) engine =
  shardCount :: nat
  kbits :: nat
  maxDBs :: nat
  dbs :: "nat \<Rightarrow> 't"
  shards :: "nat \<Rightarrow> ('h, 'l, 'f) shard"
  ents :: "addr \<Rightarrow> ('q, 'z) entry"
  nxt :: addr
  NowMs :: int
  ExpiredKeys :: nat
  EvictedKeys :: nat
  EvictSamples :: nat
  maxMemory :: int
  policy :: EvictPolicy
  goneHook :: bool
  events :: "(nat \<times> string \<times> string) list"
  chFull :: "nat \<Rightarrow> bool"

type_synonym ('q, 'z, 't, 'h, 'l, 'f) packages = "('q, 'z, 't, 'h, 'l, 'f) pluto"
type_synonym ('q, 'z, 't, 'h, 'l, 'f) st = "('q, 'z, 't, 'h, 'l, 'f) engine"

section \<open>Construction and routing\<close>

definition fibMult :: "64 word" where "fibMult = 0x9E3779B97F4A7C15"

text \<open>\<^verbatim>\<open>procs\<close> is \<^verbatim>\<open>runtime.GOMAXPROCS(0)\<close>; the loop doubles \<^verbatim>\<open>n\<close> while it is below \<^verbatim>\<open>cfg\<close>.\<close>

function pow2_loop :: "nat \<Rightarrow> nat \<Rightarrow> nat" where
  "pow2_loop cfg m = (if 0 < m \<and> m < cfg then pow2_loop cfg (2 * m) else m)"
  by pat_completeness auto
termination by (relation "measure (\<lambda>(cfg, m). cfg - m)") auto

declare pow2_loop.simps [simp del]

definition ResolveShardCount :: "nat \<Rightarrow> int \<Rightarrow> nat" where
  "ResolveShardCount procs cfg =
     (let c = (if cfg \<le> 0 then 4 * int procs else cfg) in pow2_loop (nat c) 1)"

text \<open>\<^verbatim>\<open>bits.Len\<close>: the number of bits of the binary representation.\<close>

fun bitsLen :: "nat \<Rightarrow> nat" where
  "bitsLen m = (if m = 0 then 0 else Suc (bitsLen (m div 2)))"

declare bitsLen.simps [simp del]

definition ShardIndex :: "('q, 'z, 't, 'h, 'l, 'f) packages \<Rightarrow> nat \<Rightarrow> string \<Rightarrow> nat" where
  "ShardIndex P k key = unat (drop_bit (64 - k) (PC P key * fibMult))"

definition newShard :: "('q, 'z, 't, 'h, 'l, 'f) packages \<Rightarrow> nat \<Rightarrow> ('h, 'l, 'f) shard" where
  "newShard P i =
     \<lparr>expHeap = hp_new (PH P), tomb = Map.empty, epoch = (\<lambda>_. 0), waiters = Map.empty,
      usedBytes = (\<lambda>_. 0), usedTotal = 0,
      lruAll = lru_new (PL P), lruVol = lru_new (PL P), lfuAll = lfu_new (PF P), lfuVol = lfu_new (PF P),
      trackWarm = False, rng = i * 7919 + 42, TombCap = 65536,
      SweepInterval = 100000000, SweepMax = 1000, SweepTimeBox = 1000000, SweepFloor = 10000000\<rparr>"

text \<open>The store starts with arbitrary contents: no table refers to it yet.\<close>

definition NewEngine ::
  "('q, 'z, 't, 'h, 'l, 'f) packages \<Rightarrow> nat \<Rightarrow> int \<Rightarrow> int \<Rightarrow> int \<Rightarrow> ('q, 'z, 't, 'h, 'l, 'f) st" where
  "NewEngine P procs cfg maxdbs now =
     (let m = ResolveShardCount procs cfg
      in \<lparr>shardCount = m, kbits = bitsLen m - 1,
          maxDBs = (if maxdbs < 1 then 16 else nat maxdbs),
          dbs = (\<lambda>_. th_new (PT P)), shards = newShard P,
          ents = (\<lambda>_. \<lparr>Val = VString [], ExpireAtMs = 0, ExpGen = 0, Version = 0, memBytes = 0\<rparr>), nxt = 0,
          NowMs = now, ExpiredKeys = 0, EvictedKeys = 0, EvictSamples = 5,
          maxMemory = 0, policy = PolicyNoEviction, goneHook = False, events = [], chFull = (\<lambda>_. False)\<rparr>)"

section \<open>Keyspace helpers\<close>

definition upd_shard ::
  "nat \<Rightarrow> (('h, 'l, 'f) shard \<Rightarrow> ('h, 'l, 'f) shard) \<Rightarrow> ('q, 'z, 't, 'h, 'l, 'f) st \<Rightarrow> ('q, 'z, 't, 'h, 'l, 'f) st" where
  "upd_shard i f g = g\<lparr>shards := (shards g)(i := f (shards g i))\<rparr>"

definition upd_entry :: "addr \<Rightarrow> (('q, 'z) entry \<Rightarrow> ('q, 'z) entry) \<Rightarrow> ('q, 'z, 't, 'h, 'l, 'f) st \<Rightarrow> ('q, 'z, 't, 'h, 'l, 'f) st" where
  "upd_entry a f g = g\<lparr>ents := (ents g)(a := f (ents g a))\<rparr>"

text \<open>\<^verbatim>\<open>&Entry{...}\<close>: a fresh address.\<close>

definition alloc :: "('q, 'z) entry \<Rightarrow> ('q, 'z, 't, 'h, 'l, 'f) st \<Rightarrow> addr \<times> ('q, 'z, 't, 'h, 'l, 'f) st" where
  "alloc e g = (nxt g, g\<lparr>ents := (ents g)(nxt g := e), nxt := Suc (nxt g)\<rparr>)"

definition search :: "('q, 'z, 't, 'h, 'l, 'f) packages \<Rightarrow> ('q, 'z, 't, 'h, 'l, 'f) st \<Rightarrow> nat \<Rightarrow> string \<Rightarrow> addr option" where
  "search P g db key = th_search (PT P) (dbs g db) key"

definition tabDelete ::
  "('q, 'z, 't, 'h, 'l, 'f) packages \<Rightarrow> ('q, 'z, 't, 'h, 'l, 'f) st \<Rightarrow> nat \<Rightarrow> string \<Rightarrow> bool \<times> ('q, 'z, 't, 'h, 'l, 'f) st" where
  "tabDelete P g db key =
     (let (ok, t) = th_delete (PT P) (dbs g db) key in (ok, g\<lparr>dbs := (dbs g)(db := t)\<rparr>))"

definition tabInsert ::
  "('q, 'z, 't, 'h, 'l, 'f) packages \<Rightarrow> ('q, 'z, 't, 'h, 'l, 'f) st \<Rightarrow> nat \<Rightarrow> string \<Rightarrow> addr \<Rightarrow> ('q, 'z, 't, 'h, 'l, 'f) st" where
  "tabInsert P g db key a = g\<lparr>dbs := (dbs g)(db := th_insert (PT P) (dbs g db) key a)\<rparr>"

definition addMem :: "nat \<Rightarrow> ('q, 'z, 't, 'h, 'l, 'f) st \<Rightarrow> nat \<Rightarrow> int \<Rightarrow> ('q, 'z, 't, 'h, 'l, 'f) st" where
  "addMem i g db delta =
     upd_shard i (\<lambda>s. s\<lparr>usedBytes := (usedBytes s)(db := usedBytes s db + delta),
                        usedTotal := usedTotal s + delta\<rparr>) g"

definition trackAccess ::
  "('q, 'z, 't, 'h, 'l, 'f) packages \<Rightarrow> nat \<Rightarrow> ('q, 'z, 't, 'h, 'l, 'f) st \<Rightarrow> nat \<Rightarrow> string \<Rightarrow> addr \<Rightarrow> ('q, 'z, 't, 'h, 'l, 'f) st" where
  "trackAccess P i g db key a =
     (if maxMemory g \<le> 0 then g
      else
        let k = (db, key);
            g1 = upd_shard i (\<lambda>s. s\<lparr>lruAll := lru_put (PL P) (lruAll s) k,
                                     lfuAll := lfu_touch (PF P) (lfuAll s) k\<rparr>) g
        in if 0 < ExpireAtMs (ents g a)
           then upd_shard i (\<lambda>s. s\<lparr>lruVol := lru_put (PL P) (lruVol s) k,
                                    lfuVol := lfu_touch (PF P) (lfuVol s) k\<rparr>) g1
           else g1)"

definition untrack ::
  "('q, 'z, 't, 'h, 'l, 'f) packages \<Rightarrow> nat \<Rightarrow> ('q, 'z, 't, 'h, 'l, 'f) st \<Rightarrow> nat \<Rightarrow> string \<Rightarrow> ('q, 'z, 't, 'h, 'l, 'f) st" where
  "untrack P i g db key =
     (let k = (db, key)
      in upd_shard i (\<lambda>s. s\<lparr>lruAll := lru_delete (PL P) (lruAll s) k, lruVol := lru_delete (PL P) (lruVol s) k,
                             lfuAll := lfu_delete (PF P) (lfuAll s) k, lfuVol := lfu_delete (PF P) (lfuVol s) k\<rparr>) g)"

definition entryMem :: "('q, 'z, 't, 'h, 'l, 'f) packages \<Rightarrow> string \<Rightarrow> ('q, 'z) entry \<Rightarrow> int" where
  "entryMem P key e =
     int (length key) + 80 +
     (case Val e of
        VString s \<Rightarrow> int (length s)
      | VHash h \<Rightarrow> HashMemUsage h
      | VList l \<Rightarrow> ListMemUsage (PQ P) l
      | VSet m \<Rightarrow> SetMemUsage m
      | VZSet z \<Rightarrow> ZSetMemUsage z)"

definition tombstone :: "nat \<Rightarrow> ('q, 'z, 't, 'h, 'l, 'f) st \<Rightarrow> nat \<Rightarrow> string \<Rightarrow> nat \<Rightarrow> ('q, 'z, 't, 'h, 'l, 'f) st" where
  "tombstone i g db key ver =
     upd_shard i (\<lambda>s.
       let s1 = (if TombCap s \<le> card (dom (tomb s))
                 then s\<lparr>tomb := Map.empty,
                        epoch := (\<lambda>d. if d < maxDBs g then Suc (epoch s d) else epoch s d)\<rparr>
                 else s)
       in s1\<lparr>tomb := (tomb s1)((db, key) \<mapsto> Suc ver)\<rparr>) g"

definition keyGone :: "('q, 'z, 't, 'h, 'l, 'f) st \<Rightarrow> nat \<Rightarrow> string \<Rightarrow> string \<Rightarrow> ('q, 'z, 't, 'h, 'l, 'f) st" where
  "keyGone g db key reason =
     (if goneHook g then g\<lparr>events := events g @ [(db, key, reason)]\<rparr> else g)"

text \<open>The removal sequence shared by \<^verbatim>\<open>Lookup\<close>, \<^verbatim>\<open>sweep\<close>, \<^verbatim>\<open>expireEntry\<close> and \<^verbatim>\<open>evictEntry\<close>.\<close>

definition dropEntry ::
  "('q, 'z, 't, 'h, 'l, 'f) packages \<Rightarrow> nat \<Rightarrow> ('q, 'z, 't, 'h, 'l, 'f) st \<Rightarrow> nat \<Rightarrow> string \<Rightarrow> addr \<Rightarrow> ('q, 'z, 't, 'h, 'l, 'f) st" where
  "dropEntry P i g db key a =
     (let g1 = tombstone i g db key (Version (ents g a));
          g2 = snd (tabDelete P g1 db key);
          g3 = addMem i g2 db (- memBytes (ents g a))
      in untrack P i g3 db key)"

definition expireEntry ::
  "('q, 'z, 't, 'h, 'l, 'f) packages \<Rightarrow> nat \<Rightarrow> ('q, 'z, 't, 'h, 'l, 'f) st \<Rightarrow> nat \<Rightarrow> string \<Rightarrow> addr \<Rightarrow> ('q, 'z, 't, 'h, 'l, 'f) st" where
  "expireEntry P i g db key a =
     (let g1 = dropEntry P i g db key a
      in keyGone (g1\<lparr>ExpiredKeys := Suc (ExpiredKeys g1)\<rparr>) db key ''expired'')"

definition due :: "('q, 'z) entry \<Rightarrow> int \<Rightarrow> bool" where
  "due e now = (0 < ExpireAtMs e \<and> ExpireAtMs e \<le> now)"

definition Lookup ::
  "('q, 'z, 't, 'h, 'l, 'f) packages \<Rightarrow> nat \<Rightarrow> ('q, 'z, 't, 'h, 'l, 'f) st \<Rightarrow> nat \<Rightarrow> string \<Rightarrow> addr option \<times> ('q, 'z, 't, 'h, 'l, 'f) st" where
  "Lookup P i g db key =
     (case search P g db key of
        None \<Rightarrow> (None, g)
      | Some a \<Rightarrow>
          if due (ents g a) (NowMs g) then (None, expireEntry P i g db key a)
          else (Some a, trackAccess P i g db key a))"

definition tombVersion :: "nat \<Rightarrow> ('q, 'z, 't, 'h, 'l, 'f) st \<Rightarrow> nat \<Rightarrow> string \<Rightarrow> nat" where
  "tombVersion i g db key = (case tomb (shards g i) (db, key) of Some v \<Rightarrow> v | None \<Rightarrow> 0)"

definition Store ::
  "('q, 'z, 't, 'h, 'l, 'f) packages \<Rightarrow> nat \<Rightarrow> ('q, 'z, 't, 'h, 'l, 'f) st \<Rightarrow> nat \<Rightarrow> string \<Rightarrow> addr \<Rightarrow> ('q, 'z, 't, 'h, 'l, 'f) st" where
  "Store P i g db key a =
     (let t = tombVersion i g db key;
          old = search P g db key;
          base = (case old of
                    Some b \<Rightarrow> if t < Version (ents g b) then Version (ents g b) else t
                  | None \<Rightarrow> t);
          g1 = upd_entry a (\<lambda>e. e\<lparr>Version := base + 1, memBytes := entryMem P key e\<rparr>) g;
          oldMem = (case old of Some b \<Rightarrow> memBytes (ents g1 b) | None \<Rightarrow> 0);
          g2 = addMem i g1 db (memBytes (ents g1 a) - oldMem);
          g3 = upd_shard i (\<lambda>s. s\<lparr>tomb := (tomb s)((db, key) := None)\<rparr>) g2;
          g4 = tabInsert P g3 db key a;
          g5 = trackAccess P i g4 db key a
      in if ExpireAtMs (ents g a) = 0
         then upd_shard i (\<lambda>s. s\<lparr>lruVol := lru_delete (PL P) (lruVol s) (db, key),
                                  lfuVol := lfu_delete (PF P) (lfuVol s) (db, key)\<rparr>) g5
         else g5)"

definition Delete ::
  "('q, 'z, 't, 'h, 'l, 'f) packages \<Rightarrow> nat \<Rightarrow> ('q, 'z, 't, 'h, 'l, 'f) st \<Rightarrow> nat \<Rightarrow> string \<Rightarrow> bool \<times> ('q, 'z, 't, 'h, 'l, 'f) st" where
  "Delete P i g db key =
     (case Lookup P i g db key of
        (None, g1) \<Rightarrow> (False, g1)
      | (Some a, g1) \<Rightarrow>
          (let g2 = tombstone i g1 db key (Version (ents g1 a));
               g3 = addMem i g2 db (- memBytes (ents g1 a));
               g4 = untrack P i g3 db key
           in tabDelete P g4 db key))"

definition Touch ::
  "('q, 'z, 't, 'h, 'l, 'f) packages \<Rightarrow> nat \<Rightarrow> ('q, 'z, 't, 'h, 'l, 'f) st \<Rightarrow> nat \<Rightarrow> string \<Rightarrow> addr \<Rightarrow> ('q, 'z, 't, 'h, 'l, 'f) st" where
  "Touch P i g db key a =
     (let g1 = upd_entry a (\<lambda>e. e\<lparr>Version := Suc (Version e)\<rparr>) g;
          mem = entryMem P key (ents g1 a);
          g2 = addMem i g1 db (mem - memBytes (ents g1 a));
          g3 = upd_entry a (\<lambda>e. e\<lparr>memBytes := mem\<rparr>) g2
      in trackAccess P i g3 db key a)"

definition PushExpire ::
  "('q, 'z, 't, 'h, 'l, 'f) packages \<Rightarrow> nat \<Rightarrow> ('q, 'z, 't, 'h, 'l, 'f) st \<Rightarrow> nat \<Rightarrow> string \<Rightarrow> addr \<Rightarrow> ('q, 'z, 't, 'h, 'l, 'f) st" where
  "PushExpire P i g db key a =
     (let g1 = upd_entry a (\<lambda>e. e\<lparr>ExpGen := Suc (ExpGen e)\<rparr>) g;
          it = \<lparr>At = ExpireAtMs (ents g1 a), DB = db, Key = key, Gen = ExpGen (ents g1 a)\<rparr>
      in upd_shard i (\<lambda>s. s\<lparr>expHeap := hp_push (PH P) (expHeap s) it\<rparr>) g1)"

section \<open>Flush\<close>

text \<open>The four purge loops delete every tracked key of the database, in iteration order.\<close>

fun purge :: "('c \<Rightarrow> tombKey \<Rightarrow> 'c) \<Rightarrow> nat \<Rightarrow> tombKey list \<Rightarrow> 'c \<Rightarrow> 'c" where
  "purge del db [] c = c"
| "purge del db (k # ks) c = purge del db ks (if fst k = db then del c k else c)"

definition purgeTrackers ::
  "('q, 'z, 't, 'h, 'l, 'f) packages \<Rightarrow> nat \<Rightarrow> ('q, 'z, 't, 'h, 'l, 'f) st \<Rightarrow> nat \<Rightarrow> ('q, 'z, 't, 'h, 'l, 'f) st" where
  "purgeTrackers P i g db =
     upd_shard i (\<lambda>s.
       s\<lparr>lruAll := purge (lru_delete (PL P)) db (lru_keys (PL P) (lruAll s)) (lruAll s),
         lruVol := purge (lru_delete (PL P)) db (lru_keys (PL P) (lruVol s)) (lruVol s),
         lfuAll := purge (lfu_delete (PF P)) db (lfu_keys (PF P) (lfuAll s)) (lfuAll s),
         lfuVol := purge (lfu_delete (PF P)) db (lfu_keys (PF P) (lfuVol s)) (lfuVol s),
         expHeap := foldl (hp_push (PH P)) (hp_new (PH P))
                      (filter (\<lambda>it. DB it \<noteq> db) (hp_all (PH P) (expHeap s)))\<rparr>) g"

definition flushDB ::
  "('q, 'z, 't, 'h, 'l, 'f) packages \<Rightarrow> nat \<Rightarrow> ('q, 'z, 't, 'h, 'l, 'f) st \<Rightarrow> nat \<Rightarrow> ('q, 'z, 't, 'h, 'l, 'f) st" where
  "flushDB P i g db =
     (let g1 = upd_shard i (\<lambda>s. s\<lparr>tomb := (\<lambda>k. if fst k = db then None else tomb s k)\<rparr>) g;
          g2 = addMem i g1 db (- usedBytes (shards g1 i) db);
          g3 = purgeTrackers P i g2 db
      in upd_shard i (\<lambda>s. s\<lparr>epoch := (epoch s)(db := Suc (epoch s db))\<rparr>) g3)"

text \<open>
  \<^verbatim>\<open>FlushDBTok\<close>: the keyspace is swapped, then every shard runs \<^verbatim>\<open>flushDB\<close>. As one sequence
  (the token path, where all shards are parked).
\<close>

definition FlushDBTok ::
  "('q, 'z, 't, 'h, 'l, 'f) packages \<Rightarrow> ('q, 'z, 't, 'h, 'l, 'f) st \<Rightarrow> nat \<Rightarrow> ('q, 'z, 't, 'h, 'l, 'f) st" where
  "FlushDBTok P g db =
     foldl (\<lambda>g i. flushDB P i g db) (g\<lparr>dbs := (dbs g)(db := th_new (PT P))\<rparr>) [0..<shardCount g]"

definition FlushAllTok ::
  "('q, 'z, 't, 'h, 'l, 'f) packages \<Rightarrow> ('q, 'z, 't, 'h, 'l, 'f) st \<Rightarrow> ('q, 'z, 't, 'h, 'l, 'f) st" where
  "FlushAllTok P g = foldl (FlushDBTok P) g [0..<maxDBs g]"

section \<open>WATCH\<close>

definition WatchVersion ::
  "('q, 'z, 't, 'h, 'l, 'f) packages \<Rightarrow> nat \<Rightarrow> ('q, 'z, 't, 'h, 'l, 'f) st \<Rightarrow> nat \<Rightarrow> string \<Rightarrow> (nat \<times> nat) \<times> ('q, 'z, 't, 'h, 'l, 'f) st" where
  "WatchVersion P i g db key =
     (let (r, g1) = Lookup P i g db key
      in case r of
           Some a \<Rightarrow> ((epoch (shards g1 i) db, Version (ents g1 a)), g1)
         | None \<Rightarrow> ((epoch (shards g1 i) db, tombVersion i g1 db key), g1))"

definition WatchDirty ::
  "('q, 'z, 't, 'h, 'l, 'f) packages \<Rightarrow> nat \<Rightarrow> ('q, 'z, 't, 'h, 'l, 'f) st \<Rightarrow> nat \<Rightarrow> string \<Rightarrow> nat \<Rightarrow> nat \<Rightarrow> bool \<times> ('q, 'z, 't, 'h, 'l, 'f) st" where
  "WatchDirty P i g db key ep ver =
     (if ep \<noteq> epoch (shards g i) db then (True, g)
      else
        case Lookup P i g db key of
          (Some a, g1) \<Rightarrow> (Version (ents g1 a) \<noteq> ver, g1)
        | (None, g1) \<Rightarrow> (tombVersion i g1 db key \<noteq> ver, g1))"

section \<open>Blocking-command waiters\<close>

definition waitersOf :: "nat \<Rightarrow> ('q, 'z, 't, 'h, 'l, 'f) st \<Rightarrow> tombKey \<Rightarrow> nat list" where
  "waitersOf i g k = (case waiters (shards g i) k of Some ws \<Rightarrow> ws | None \<Rightarrow> [])"

definition AddWaiter :: "nat \<Rightarrow> ('q, 'z, 't, 'h, 'l, 'f) st \<Rightarrow> nat \<Rightarrow> string \<Rightarrow> nat \<Rightarrow> ('q, 'z, 't, 'h, 'l, 'f) st" where
  "AddWaiter i g db key w =
     upd_shard i (\<lambda>s. s\<lparr>waiters := (waiters s)((db, key) \<mapsto> waitersOf i g (db, key) @ [w])\<rparr>) g"

definition RemoveWaiter :: "nat \<Rightarrow> ('q, 'z, 't, 'h, 'l, 'f) st \<Rightarrow> nat \<Rightarrow> string \<Rightarrow> nat \<Rightarrow> ('q, 'z, 't, 'h, 'l, 'f) st" where
  "RemoveWaiter i g db key w =
     (let out = filter (\<lambda>x. x \<noteq> w) (waitersOf i g (db, key))
      in upd_shard i (\<lambda>s. s\<lparr>waiters := (waiters s)((db, key) := if out = [] then None else Some out)\<rparr>) g)"

definition WakeWaiter :: "nat \<Rightarrow> ('q, 'z, 't, 'h, 'l, 'f) st \<Rightarrow> nat \<Rightarrow> string \<Rightarrow> ('q, 'z, 't, 'h, 'l, 'f) st" where
  "WakeWaiter i g db key =
     (case waitersOf i g (db, key) of
        [] \<Rightarrow> g
      | w # _ \<Rightarrow> g\<lparr>chFull := (chFull g)(w := True)\<rparr>)"

section \<open>Active expiry\<close>

text \<open>
  The loop of \<^verbatim>\<open>sweep\<close>. \<open>fuel\<close> bounds the iterations; each iteration pops one heap item, so a
  fuel above the heap size is never exhausted. \<open>late p\<close> says whether the deadline has passed
  when \<open>p\<close> items have been popped (never, for the zero deadline).
\<close>

fun sweep_loop ::
  "('q, 'z, 't, 'h, 'l, 'f) packages \<Rightarrow> nat \<Rightarrow> int \<Rightarrow> int \<Rightarrow> (nat \<Rightarrow> bool) \<Rightarrow> nat \<Rightarrow> nat \<Rightarrow> nat \<Rightarrow> ('q, 'z, 't, 'h, 'l, 'f) st \<Rightarrow>
     ((nat \<times> bool) \<times> ('q, 'z, 't, 'h, 'l, 'f) st) option" where
  "sweep_loop P i now limit late 0 popped expired g = None"
| "sweep_loop P i now limit late (Suc fuel) popped expired g =
     (if limit < 0 \<or> int popped < limit
      then
        (case hp_peek (PH P) (expHeap (shards g i)) of
          None \<Rightarrow> Some ((expired, False), g)
        | Some tp \<Rightarrow>
            if now < At tp then Some ((expired, False), g)
            else if 0 < popped \<and> late popped then Some ((expired, True), g)
            else
              let g1 = upd_shard i (\<lambda>s. s\<lparr>expHeap := hp_pop (PH P) (expHeap s)\<rparr>) g
              in case search P g1 (DB tp) (Key tp) of
                   None \<Rightarrow> sweep_loop P i now limit late fuel (Suc popped) expired g1
                 | Some a \<Rightarrow>
                     if ExpireAtMs (ents g1 a) = At tp \<and> ExpGen (ents g1 a) = Gen tp
                     then sweep_loop P i now limit late fuel (Suc popped) (Suc expired)
                            (expireEntry P i g1 (DB tp) (Key tp) a)
                     else sweep_loop P i now limit late fuel (Suc popped) expired g1)
      else
        Some ((expired,
               case hp_peek (PH P) (expHeap (shards g i)) of
                 None \<Rightarrow> False | Some tp \<Rightarrow> At tp \<le> now), g))"

definition sweep ::
  "('q, 'z, 't, 'h, 'l, 'f) packages \<Rightarrow> nat \<Rightarrow> int \<Rightarrow> int \<Rightarrow> (nat \<Rightarrow> bool) \<Rightarrow> ('q, 'z, 't, 'h, 'l, 'f) st \<Rightarrow>
     ((nat \<times> bool) \<times> ('q, 'z, 't, 'h, 'l, 'f) st) option" where
  "sweep P i now limit late g =
     sweep_loop P i now limit late (Suc (hp_len (PH P) (expHeap (shards g i)))) 0 0 g"

definition nextSweepInterval :: "('h, 'l, 'f) shard \<Rightarrow> int \<Rightarrow> nat \<Rightarrow> bool \<Rightarrow> int" where
  "nextSweepInterval s cur expired pressure =
     (if pressure then (if SweepFloor s < quot cur 2 then quot cur 2 else SweepFloor s)
      else if expired = 0 then (if cur * 2 < SweepInterval s then cur * 2 else SweepInterval s)
      else cur)"

text \<open>\<^verbatim>\<open>DBSizeTok\<close>: every shard sweeps its due expiries, then the stripe lengths are summed.\<close>

definition sweepAll ::
  "('q, 'z, 't, 'h, 'l, 'f) packages \<Rightarrow> ('q, 'z, 't, 'h, 'l, 'f) st \<Rightarrow> nat \<Rightarrow> ('q, 'z, 't, 'h, 'l, 'f) st" where
  "sweepAll P g i = (case sweep P i (NowMs g) (-1) (\<lambda>_. False) g of Some (_, g') \<Rightarrow> g' | None \<Rightarrow> g)"

fun dbsize_loop ::
  "('q, 'z, 't, 'h, 'l, 'f) packages \<Rightarrow> nat \<Rightarrow> nat list \<Rightarrow> nat \<Rightarrow> ('q, 'z, 't, 'h, 'l, 'f) st \<Rightarrow> nat \<times> ('q, 'z, 't, 'h, 'l, 'f) st" where
  "dbsize_loop P db [] tot g = (tot, g)"
| "dbsize_loop P db (i # is) tot g =
     (let g1 = sweepAll P g i
      in dbsize_loop P db is (tot + th_stripe_len (PT P) (dbs g1 db) i) g1)"

definition DBSizeTok ::
  "('q, 'z, 't, 'h, 'l, 'f) packages \<Rightarrow> ('q, 'z, 't, 'h, 'l, 'f) st \<Rightarrow> nat \<Rightarrow> nat \<times> ('q, 'z, 't, 'h, 'l, 'f) st" where
  "DBSizeTok P g db = dbsize_loop P db [0..<shardCount g] 0 g"

text \<open>\<^verbatim>\<open>DumpDB(db, now, fn)\<close> calls \<^verbatim>\<open>fn\<close> on these items in order, until it returns false.\<close>

definition DumpDB ::
  "('q, 'z, 't, 'h, 'l, 'f) packages \<Rightarrow> nat \<Rightarrow> ('q, 'z, 't, 'h, 'l, 'f) st \<Rightarrow> nat \<Rightarrow> int \<Rightarrow> (string \<times> addr) list" where
  "DumpDB P i g db now =
     (if maxDBs g \<le> db then []
      else filter (\<lambda>it. \<not> due (ents g (snd it)) now) (th_stripe (PT P) (dbs g db) i))"

end
