(* ===== verification/Keyspace.thy ===== *)
theory Keyspace
  imports Shard_State
begin

text \<open>
  What the keyspace operations of a shard do. The packages are assumed to behave as documented
  (locale \<open>pluto_laws\<close>, with the list-backed bundle \<open>listP\<close> as an instance), and the hash table
  to route a key to the stripe \<^verbatim>\<open>ShardIndex\<close> computes, as the package comment of \<^verbatim>\<open>shard.go\<close>
  relies on.

  The invariant \<open>eng_inv\<close> says: entries are reached through exactly one key, the memory
  counters of every shard are the sums of the cached costs of the entries in its stripe, and
  tombstones exist only for keys that are absent. Every operation keeps it, and its effect on
  the keyspace is stated through \<open>view\<close>, the map from keys to entries.
\<close>

section \<open>The package bundle\<close>

lemma cmpExpItem_At: "cmpExpItem a b \<le> 0 \<Longrightarrow> At a \<le> At b"
  by (auto simp: cmpExpItem_def split: if_splits)

lemma cmpExpItem_le:
  "cmpExpItem a b \<le> 0 \<longleftrightarrow>
     At a < At b \<or> At a = At b \<and> (DB a < DB b \<or> DB a = DB b \<and> bytesCompare (Key a) (Key b) \<le> 0)"
  by (auto simp: cmpExpItem_def)

interpretation ce: comparison cmpExpItem
proof unfold_locales
  fix x y z :: expItem
  show "cmpExpItem x x \<le> 0" by (simp add: cmpExpItem_le)
  show "cmpExpItem x y \<le> 0 \<Longrightarrow> cmpExpItem y z \<le> 0 \<Longrightarrow> cmpExpItem x z \<le> 0"
    unfolding cmpExpItem_le by (auto intro: bytesCompare_le_trans)
  show "cmpExpItem x y \<le> 0 \<or> cmpExpItem y x \<le> 0"
    unfolding cmpExpItem_le using bytesCompare_swap [of "Key x" "Key y"] by auto
qed

locale pluto_laws =
  qk: quicklist_laws "PQ P" + zk: zskip "PS P" + table_laws "PT P" "ShardIndex P k" +
  minheap_laws "PH P" cmpExpItem + lru_laws "PL P" + lfu_laws "PF P"
  for P :: "('q, 'z, 't, 'h, 'l, 'f) packages" and k :: nat

definition routeOf :: "(string \<Rightarrow> 64 word) \<Rightarrow> nat \<Rightarrow> string \<Rightarrow> nat" where
  "routeOf c k key = unat (drop_bit (64 - k) (c key * fibMult))"

definition listP :: "(string \<Rightarrow> 64 word) \<Rightarrow> nat \<Rightarrow>
  (string list, zelem list, (string \<times> addr) list, expItem list, tombKey list, (tombKey \<times> nat) list) packages" where
  "listP c k = \<lparr>PQ = listQ, PS = listS, PT = listT (routeOf c k), PH = listH cmpExpItem, PL = listL, PF = listF, PC = c\<rparr>"

lemma listP_sel [simp]:
  "PQ (listP c k) = listQ" "PS (listP c k) = listS" "PT (listP c k) = listT (routeOf c k)"
  "PH (listP c k) = listH cmpExpItem" "PL (listP c k) = listL" "PF (listP c k) = listF" "PC (listP c k) = c"
  by (simp_all add: listP_def)

lemma ShardIndex_listP: "ShardIndex (listP c k) k' = routeOf c k'"
  by (simp add: fun_eq_iff ShardIndex_def routeOf_def)

interpretation lp: pluto_laws "listP c k" k
proof -
  have "table_laws (listT (routeOf c k)) (routeOf c k)" by (rule lt.table_laws_axioms)
  then show "pluto_laws (listP c k) k"
    unfolding pluto_laws_def listP_sel ShardIndex_listP
    using lq.quicklist_laws_axioms lz.zskip_axioms ce.listH_laws ll.lru_laws_axioms lf.lfu_laws_axioms
    by blast
qed

section \<open>Routing\<close>

text \<open>The shard count is a power of two, and every key is routed to one of the shards.\<close>

lemma pow2_loop_spec:
  assumes "m = 2 ^ j"
  shows "\<exists>i. pow2_loop c m = 2 ^ i \<and> c \<le> pow2_loop c m \<and> (pow2_loop c m = m \<or> pow2_loop c m < 2 * c)"
  using assms
proof (induction c m arbitrary: j rule: pow2_loop.induct)
  case (1 c m)
  show ?case
  proof (cases "m < c")
    case True
    then have eq: "pow2_loop c m = pow2_loop c (2 * m)" using 1(2) by (subst pow2_loop.simps) simp
    show ?thesis using 1(1) [of "Suc j"] 1(2) True unfolding eq by auto
  next
    case False
    then show ?thesis using 1(2) by (subst (1 2 3 4) pow2_loop.simps) auto
  qed
qed

lemma bitsLen_pow2: "bitsLen (2 ^ i) = Suc i"
  by (induction i) (simp_all add: bitsLen.simps)

lemma ShardIndex_less: "k \<le> 64 \<Longrightarrow> ShardIndex P k key < 2 ^ k"
proof -
  assume k: "k \<le> 64"
  let ?w = "PC P key * fibMult"
  have "unat ?w < 2 ^ (64 - k) * 2 ^ k" using unsigned_less [of ?w] k by (simp flip: power_add)
  then have "unat ?w div 2 ^ (64 - k) < 2 ^ k" by (simp add: div_less_iff_less_mult mult.commute)
  then show ?thesis unfolding ShardIndex_def unat_drop_bit_eq by (simp add: drop_bit_eq_div)
qed

section \<open>Frame lemmas\<close>

lemma upd_shard_sel [simp]:
  "dbs (upd_shard i f g) = dbs g" "ents (upd_shard i f g) = ents g" "nxt (upd_shard i f g) = nxt g"
  "NowMs (upd_shard i f g) = NowMs g" "maxDBs (upd_shard i f g) = maxDBs g" "kbits (upd_shard i f g) = kbits g"
  "shardCount (upd_shard i f g) = shardCount g" "maxMemory (upd_shard i f g) = maxMemory g"
  "policy (upd_shard i f g) = policy g" "EvictSamples (upd_shard i f g) = EvictSamples g"
  "goneHook (upd_shard i f g) = goneHook g" "events (upd_shard i f g) = events g"
  "ExpiredKeys (upd_shard i f g) = ExpiredKeys g" "EvictedKeys (upd_shard i f g) = EvictedKeys g"
  "chFull (upd_shard i f g) = chFull g"
  "shards (upd_shard i f g) = (shards g)(i := f (shards g i))"
  by (simp_all add: upd_shard_def)

lemma upd_entry_sel [simp]:
  "dbs (upd_entry a f g) = dbs g" "ents (upd_entry a f g) = (ents g)(a := f (ents g a))" "nxt (upd_entry a f g) = nxt g"
  "NowMs (upd_entry a f g) = NowMs g" "maxDBs (upd_entry a f g) = maxDBs g" "kbits (upd_entry a f g) = kbits g"
  "shardCount (upd_entry a f g) = shardCount g" "maxMemory (upd_entry a f g) = maxMemory g"
  "policy (upd_entry a f g) = policy g" "EvictSamples (upd_entry a f g) = EvictSamples g"
  "goneHook (upd_entry a f g) = goneHook g" "events (upd_entry a f g) = events g"
  "ExpiredKeys (upd_entry a f g) = ExpiredKeys g" "EvictedKeys (upd_entry a f g) = EvictedKeys g"
  "chFull (upd_entry a f g) = chFull g" "shards (upd_entry a f g) = shards g"
  by (simp_all add: upd_entry_def)

lemma addMem_sel [simp]:
  "dbs (addMem i g db d) = dbs g"
  "ents (addMem i g db d) = ents g"
  "nxt (addMem i g db d) = nxt g"
  "NowMs (addMem i g db d) = NowMs g"
  "maxDBs (addMem i g db d) = maxDBs g"
  "kbits (addMem i g db d) = kbits g"
  "shardCount (addMem i g db d) = shardCount g"
  "maxMemory (addMem i g db d) = maxMemory g"
  "policy (addMem i g db d) = policy g"
  "EvictSamples (addMem i g db d) = EvictSamples g"
  "goneHook (addMem i g db d) = goneHook g"
  "chFull (addMem i g db d) = chFull g"
  "events (addMem i g db d) = events g" "ExpiredKeys (addMem i g db d) = ExpiredKeys g" "EvictedKeys (addMem i g db d) = EvictedKeys g"
  "shards (addMem i g db d) = (shards g)(i := (shards g i)\<lparr>usedBytes := (usedBytes (shards g i))(db := usedBytes (shards g i) db + d),
       usedTotal := usedTotal (shards g i) + d\<rparr>)"
  by (simp_all add: addMem_def)

lemma tombstone_sel [simp]:
  "dbs (tombstone i g db key v) = dbs g"
  "ents (tombstone i g db key v) = ents g"
  "nxt (tombstone i g db key v) = nxt g"
  "NowMs (tombstone i g db key v) = NowMs g"
  "maxDBs (tombstone i g db key v) = maxDBs g"
  "kbits (tombstone i g db key v) = kbits g"
  "shardCount (tombstone i g db key v) = shardCount g"
  "maxMemory (tombstone i g db key v) = maxMemory g"
  "policy (tombstone i g db key v) = policy g"
  "EvictSamples (tombstone i g db key v) = EvictSamples g"
  "goneHook (tombstone i g db key v) = goneHook g"
  "chFull (tombstone i g db key v) = chFull g"
  "events (tombstone i g db key v) = events g" "ExpiredKeys (tombstone i g db key v) = ExpiredKeys g" "EvictedKeys (tombstone i g db key v) = EvictedKeys g"
  by (simp_all add: tombstone_def)

lemma untrack_sel [simp]:
  "dbs (untrack P i g db key) = dbs g"
  "ents (untrack P i g db key) = ents g"
  "nxt (untrack P i g db key) = nxt g"
  "NowMs (untrack P i g db key) = NowMs g"
  "maxDBs (untrack P i g db key) = maxDBs g"
  "kbits (untrack P i g db key) = kbits g"
  "shardCount (untrack P i g db key) = shardCount g"
  "maxMemory (untrack P i g db key) = maxMemory g"
  "policy (untrack P i g db key) = policy g"
  "EvictSamples (untrack P i g db key) = EvictSamples g"
  "goneHook (untrack P i g db key) = goneHook g"
  "chFull (untrack P i g db key) = chFull g"
  "events (untrack P i g db key) = events g" "ExpiredKeys (untrack P i g db key) = ExpiredKeys g" "EvictedKeys (untrack P i g db key) = EvictedKeys g"
  by (simp_all add: untrack_def Let_def)

lemma trackAccess_sel [simp]:
  "dbs (trackAccess P i g db key a) = dbs g"
  "ents (trackAccess P i g db key a) = ents g"
  "nxt (trackAccess P i g db key a) = nxt g"
  "NowMs (trackAccess P i g db key a) = NowMs g"
  "maxDBs (trackAccess P i g db key a) = maxDBs g"
  "kbits (trackAccess P i g db key a) = kbits g"
  "shardCount (trackAccess P i g db key a) = shardCount g"
  "maxMemory (trackAccess P i g db key a) = maxMemory g"
  "policy (trackAccess P i g db key a) = policy g"
  "EvictSamples (trackAccess P i g db key a) = EvictSamples g"
  "goneHook (trackAccess P i g db key a) = goneHook g"
  "chFull (trackAccess P i g db key a) = chFull g"
  "events (trackAccess P i g db key a) = events g" "ExpiredKeys (trackAccess P i g db key a) = ExpiredKeys g" "EvictedKeys (trackAccess P i g db key a) = EvictedKeys g"
  by (simp_all add: trackAccess_def Let_def)

lemma keyGone_sel [simp]:
  "dbs (keyGone g db key r) = dbs g"
  "ents (keyGone g db key r) = ents g"
  "nxt (keyGone g db key r) = nxt g"
  "NowMs (keyGone g db key r) = NowMs g"
  "maxDBs (keyGone g db key r) = maxDBs g"
  "kbits (keyGone g db key r) = kbits g"
  "shardCount (keyGone g db key r) = shardCount g"
  "maxMemory (keyGone g db key r) = maxMemory g"
  "policy (keyGone g db key r) = policy g"
  "EvictSamples (keyGone g db key r) = EvictSamples g"
  "goneHook (keyGone g db key r) = goneHook g"
  "chFull (keyGone g db key r) = chFull g"
  "shards (keyGone g db key r) = shards g" "ExpiredKeys (keyGone g db key r) = ExpiredKeys g" "EvictedKeys (keyGone g db key r) = EvictedKeys g"
  by (simp_all add: keyGone_def)

lemma tabDelete_sel [simp]:
  "ents (snd (tabDelete P g db key)) = ents g"
  "nxt (snd (tabDelete P g db key)) = nxt g"
  "NowMs (snd (tabDelete P g db key)) = NowMs g"
  "maxDBs (snd (tabDelete P g db key)) = maxDBs g"
  "kbits (snd (tabDelete P g db key)) = kbits g"
  "shardCount (snd (tabDelete P g db key)) = shardCount g"
  "maxMemory (snd (tabDelete P g db key)) = maxMemory g"
  "policy (snd (tabDelete P g db key)) = policy g"
  "EvictSamples (snd (tabDelete P g db key)) = EvictSamples g"
  "goneHook (snd (tabDelete P g db key)) = goneHook g"
  "chFull (snd (tabDelete P g db key)) = chFull g"
  "events (snd (tabDelete P g db key)) = events g" "shards (snd (tabDelete P g db key)) = shards g"
  "ExpiredKeys (snd (tabDelete P g db key)) = ExpiredKeys g" "EvictedKeys (snd (tabDelete P g db key)) = EvictedKeys g"
  by (simp_all add: tabDelete_def split_beta Let_def)

lemma tabInsert_sel [simp]:
  "ents (tabInsert P g db key a) = ents g"
  "nxt (tabInsert P g db key a) = nxt g"
  "NowMs (tabInsert P g db key a) = NowMs g"
  "maxDBs (tabInsert P g db key a) = maxDBs g"
  "kbits (tabInsert P g db key a) = kbits g"
  "shardCount (tabInsert P g db key a) = shardCount g"
  "maxMemory (tabInsert P g db key a) = maxMemory g"
  "policy (tabInsert P g db key a) = policy g"
  "EvictSamples (tabInsert P g db key a) = EvictSamples g"
  "goneHook (tabInsert P g db key a) = goneHook g"
  "chFull (tabInsert P g db key a) = chFull g"
  "events (tabInsert P g db key a) = events g" "shards (tabInsert P g db key a) = shards g"
  "ExpiredKeys (tabInsert P g db key a) = ExpiredKeys g" "EvictedKeys (tabInsert P g db key a) = EvictedKeys g"
  by (simp_all add: tabInsert_def)

text \<open>
  Trackers only: the part of a shard that no correctness statement below depends on. \<open>core\<close>
  erases it.
\<close>

definition core :: "('h, 'l, 'f) shard \<Rightarrow> ('h \<times> (tombKey \<rightharpoonup> nat) \<times> (nat \<Rightarrow> nat) \<times> (tombKey \<rightharpoonup> nat list) \<times> (nat \<Rightarrow> int) \<times> int \<times> nat)" where
  "core s = (expHeap s, tomb s, epoch s, waiters s, usedBytes s, usedTotal s, TombCap s)"

lemma core_track [simp]:
  "core (shards (trackAccess P i g db key a) j) = core (shards g j)"
  "core (shards (untrack P i g db key) j) = core (shards g j)"
  by (simp_all add: core_def trackAccess_def untrack_def Let_def)

lemma core_eq_sel:
  assumes "core s = core s'"
  shows "expHeap s = expHeap s'" "tomb s = tomb s'" "epoch s = epoch s'" "waiters s = waiters s'"
    "usedBytes s = usedBytes s'" "usedTotal s = usedTotal s'" "TombCap s = TombCap s'"
  using assms by (simp_all add: core_def)

lemmas track_core_sel [simp] = core_track [THEN core_eq_sel(1)] core_track [THEN core_eq_sel(2)]
  core_track [THEN core_eq_sel(3)] core_track [THEN core_eq_sel(4)] core_track [THEN core_eq_sel(5)]
  core_track [THEN core_eq_sel(6)] core_track [THEN core_eq_sel(7)]

lemma search_eqI: "dbs g' = dbs g \<Longrightarrow> search P g' = search P g"
  by (simp add: search_def fun_eq_iff)

lemma search_frame [simp]:
  "search P (upd_shard i f g) = search P g" "search P (upd_entry a e g) = search P g"
  "search P (addMem i g db d) = search P g" "search P (tombstone i g db key v) = search P g"
  "search P (untrack P i g db key) = search P g" "search P (trackAccess P i g db key a) = search P g"
  "search P (keyGone g db key r) = search P g"
  by (simp_all add: search_def fun_eq_iff)

lemma search_record [simp]:
  "search P (g\<lparr>ents := x\<rparr>) = search P g" "search P (g\<lparr>nxt := y\<rparr>) = search P g"
  "search P (g\<lparr>ExpiredKeys := z\<rparr>) = search P g" "search P (g\<lparr>EvictedKeys := z\<rparr>) = search P g"
  "search P (g\<lparr>chFull := w\<rparr>) = search P g" "search P (g\<lparr>NowMs := t\<rparr>) = search P g"
  by (simp_all add: search_def fun_eq_iff)

section \<open>The view of a client\<close>

definition "view" :: "('q, 'z, 't, 'h, 'l, 'f) packages \<Rightarrow> ('q, 'z, 't, 'h, 'l, 'f) st \<Rightarrow> nat \<Rightarrow> string \<Rightarrow> ('q, 'z) entry option" where
  "view P g db key = map_option (ents g) (search P g db key)"

text \<open>The entry a command sees: passively expired entries count as missing.\<close>

definition live :: "('q, 'z, 't, 'h, 'l, 'f) packages \<Rightarrow> ('q, 'z, 't, 'h, 'l, 'f) st \<Rightarrow> nat \<Rightarrow> string \<Rightarrow> ('q, 'z) entry option" where
  "live P g db key = (case view P g db key of Some e \<Rightarrow> if due e (NowMs g) then None else Some e | None \<Rightarrow> None)"

section \<open>The invariant\<close>

definition memo :: "('q, 'z) entry option \<Rightarrow> int" where
  "memo v = (case v of Some e \<Rightarrow> memBytes e | None \<Rightarrow> 0)"

definition stripeKeys :: "('q, 'z, 't, 'h, 'l, 'f) packages \<Rightarrow> ('q, 'z, 't, 'h, 'l, 'f) st \<Rightarrow> nat \<Rightarrow> nat \<Rightarrow> string set" where
  "stripeKeys P g i db = {key. ShardIndex P (kbits g) key = i \<and> view P g db key \<noteq> None}"

definition stripeMem :: "('q, 'z, 't, 'h, 'l, 'f) packages \<Rightarrow> ('q, 'z, 't, 'h, 'l, 'f) st \<Rightarrow> nat \<Rightarrow> nat \<Rightarrow> int" where
  "stripeMem P g i db = (\<Sum>key \<in> stripeKeys P g i db. memo (view P g db key))"

definition ptr_ok :: "('q, 'z, 't, 'h, 'l, 'f) packages \<Rightarrow> ('q, 'z, 't, 'h, 'l, 'f) st \<Rightarrow> bool" where
  "ptr_ok P g \<longleftrightarrow>
     (\<forall>db key a. search P g db key = Some a \<longrightarrow> a < nxt g) \<and>
     (\<forall>db key db' key' a. search P g db key = Some a \<longrightarrow> search P g db' key' = Some a \<longrightarrow> db = db' \<and> key = key')"

definition mem_ok :: "('q, 'z, 't, 'h, 'l, 'f) packages \<Rightarrow> ('q, 'z, 't, 'h, 'l, 'f) st \<Rightarrow> bool" where
  "mem_ok P g \<longleftrightarrow>
     (\<forall>i db. usedBytes (shards g i) db = stripeMem P g i db) \<and>
     (\<forall>i. usedTotal (shards g i) = (\<Sum>db < maxDBs g. usedBytes (shards g i) db))"

definition tomb_ok :: "('q, 'z, 't, 'h, 'l, 'f) packages \<Rightarrow> ('q, 'z, 't, 'h, 'l, 'f) st \<Rightarrow> bool" where
  "tomb_ok P g \<longleftrightarrow>
     (\<forall>i db key. tomb (shards g i) (db, key) \<noteq> None \<longrightarrow>
        ShardIndex P (kbits g) key = i \<and> view P g db key = None)"

definition eng_inv :: "('q, 'z, 't, 'h, 'l, 'f) packages \<Rightarrow> nat \<Rightarrow> ('q, 'z, 't, 'h, 'l, 'f) st \<Rightarrow> bool" where
  "eng_inv P k g \<longleftrightarrow> kbits g = k \<and> ptr_ok P g \<and> mem_ok P g \<and> tomb_ok P g"

text \<open>The view with one key changed.\<close>

definition vupd ::
  "('q, 'z, 't, 'h, 'l, 'f) packages \<Rightarrow> ('q, 'z, 't, 'h, 'l, 'f) st \<Rightarrow> nat \<Rightarrow> string \<Rightarrow> ('q, 'z) entry option \<Rightarrow> nat \<Rightarrow> string \<Rightarrow> ('q, 'z) entry option" where
  "vupd P g db key v d k = (if d = db \<and> k = key then v else view P g d k)"

lemma view_None: "view P g db key = None \<longleftrightarrow> search P g db key = None"
  by (simp add: view_def)

lemma view_eqI: "dbs g' = dbs g \<Longrightarrow> ents g' = ents g \<Longrightarrow> view P g' = view P g"
  by (rule ext)+ (simp add: view_def search_def)

lemma view_frame [simp]:
  "view P (upd_shard i f g) = view P g" "view P (addMem i g db d) = view P g"
  "view P (tombstone i g db key v) = view P g" "view P (untrack P i g db key) = view P g"
  "view P (trackAccess P i g db key a) = view P g" "view P (keyGone g db key r) = view P g"
  by (rule view_eqI; simp)+

lemma view_record [simp]:
  "view P (g\<lparr>ExpiredKeys := z\<rparr>) = view P g" "view P (g\<lparr>EvictedKeys := z\<rparr>) = view P g"
  "view P (g\<lparr>chFull := w\<rparr>) = view P g" "view P (g\<lparr>NowMs := t\<rparr>) = view P g"
  by (rule view_eqI; simp)+

lemma memo_simps [simp]: "memo None = 0" "memo (Some e) = memBytes e"
  by (simp_all add: memo_def)

lemma vupd_self [simp]: "vupd P g db key (view P g db key) = view P g"
  by (auto simp: vupd_def fun_eq_iff)

lemma ptr_okD:
  assumes "ptr_ok P g" "search P g db key = Some a"
  shows "a < nxt g" and "search P g db' key' = Some a \<longleftrightarrow> db' = db \<and> key' = key"
  using assms unfolding ptr_ok_def by blast+

lemma view_upd_entry:
  assumes "ptr_ok P g" "search P g db key = Some a"
  shows "view P (upd_entry a f g) = vupd P g db key (Some (f (ents g a)))"
proof (intro ext)
  fix d x
  show "view P (upd_entry a f g) d x = vupd P g db key (Some (f (ents g a))) d x"
    using ptr_okD(2) [OF assms, of d x] assms(2)
    by (cases "search P g d x") (auto simp: view_def vupd_def)
qed

lemma view_upd_entry_unref:
  "(\<And>db key. search P g db key \<noteq> Some a) \<Longrightarrow> view P (upd_entry a f g) = view P g"
  by (auto simp: view_def fun_eq_iff map_option_case split: option.splits)

lemma ptr_ok_eqI: "search P g' = search P g \<Longrightarrow> nxt g' = nxt g \<Longrightarrow> ptr_ok P g' = ptr_ok P g"
  by (simp add: ptr_ok_def)

lemma ptr_ok_subset:
  assumes "ptr_ok P g" "\<And>db key a. search P g' db key = Some a \<Longrightarrow> search P g db key = Some a" "nxt g \<le> nxt g'"
  shows "ptr_ok P g'"
  using assms unfolding ptr_ok_def by (meson order_less_le_trans)

lemma eng_invD:
  assumes "eng_inv P k g"
  shows "kbits g = k" "ptr_ok P g" "mem_ok P g" "tomb_ok P g"
  using assms by (simp_all add: eng_inv_def)

lemma tomb_okD: "tomb_ok P g \<Longrightarrow> tomb (shards g i) (db, key) = Some v \<Longrightarrow> ShardIndex P (kbits g) key = i \<and> view P g db key = None"
  by (auto simp: tomb_ok_def)

section \<open>Tombstones\<close>

lemma tombstone_tomb:
  "tomb (shards (tombstone i g db key ver) j) =
     (if j = i
      then (if TombCap (shards g i) \<le> card (dom (tomb (shards g i))) then Map.empty else tomb (shards g i))
             ((db, key) \<mapsto> Suc ver)
      else tomb (shards g j))"
  by (simp add: tombstone_def Let_def)

lemma tombstone_epoch:
  "epoch (shards (tombstone i g db key ver) j) d =
     (if j = i \<and> TombCap (shards g i) \<le> card (dom (tomb (shards g i))) \<and> d < maxDBs g
      then Suc (epoch (shards g j) d) else epoch (shards g j) d)"
  by (simp add: tombstone_def Let_def)

lemma tombstone_rest [simp]:
  "usedBytes (shards (tombstone i g db key ver) j) = usedBytes (shards g j)"
  "usedTotal (shards (tombstone i g db key ver) j) = usedTotal (shards g j)"
  "expHeap (shards (tombstone i g db key ver) j) = expHeap (shards g j)"
  "waiters (shards (tombstone i g db key ver) j) = waiters (shards g j)"
  "TombCap (shards (tombstone i g db key ver) j) = TombCap (shards g j)"
  by (simp_all add: tombstone_def Let_def)

text \<open>The version a watcher of a key sees, and a freshly allocated entry.\<close>

definition verOf :: "('q, 'z, 't, 'h, 'l, 'f) packages \<Rightarrow> nat \<Rightarrow> ('q, 'z, 't, 'h, 'l, 'f) st \<Rightarrow> nat \<Rightarrow> string \<Rightarrow> nat" where
  "verOf P i g db key =
     (case view P g db key of
        Some e \<Rightarrow> max (tombVersion i g db key) (Version e)
      | None \<Rightarrow> tombVersion i g db key)"

definition unref :: "('q, 'z, 't, 'h, 'l, 'f) packages \<Rightarrow> ('q, 'z, 't, 'h, 'l, 'f) st \<Rightarrow> addr \<Rightarrow> bool" where
  "unref P g a \<longleftrightarrow> a < nxt g \<and> (\<forall>db key. search P g db key \<noteq> Some a)"

text \<open>What \<^verbatim>\<open>Store\<close> makes of the entry it is given.\<close>

definition stored :: "('q, 'z, 't, 'h, 'l, 'f) packages \<Rightarrow> nat \<Rightarrow> ('q, 'z, 't, 'h, 'l, 'f) st \<Rightarrow> nat \<Rightarrow> string \<Rightarrow> addr \<Rightarrow> ('q, 'z) entry" where
  "stored P i g db key a =
     (ents g a)\<lparr>Version := Suc (verOf P i g db key), memBytes := entryMem P key (ents g a)\<rparr>"

text \<open>What \<^verbatim>\<open>Touch\<close> makes of the entry.\<close>

definition touched :: "('q, 'z, 't, 'h, 'l, 'f) packages \<Rightarrow> string \<Rightarrow> ('q, 'z) entry \<Rightarrow> ('q, 'z) entry" where
  "touched P key e = e\<lparr>Version := Suc (Version e), memBytes := entryMem P key e\<rparr>"

lemma entryMem_Val [simp]:
  "entryMem P key (e\<lparr>Version := v\<rparr>) = entryMem P key e" "entryMem P key (e\<lparr>memBytes := m\<rparr>) = entryMem P key e"
  "entryMem P key (e\<lparr>ExpGen := x\<rparr>) = entryMem P key e" "entryMem P key (e\<lparr>ExpireAtMs := t\<rparr>) = entryMem P key e"
  by (simp_all add: entryMem_def)

section \<open>Operations\<close>

context pluto_laws
begin

lemma finite_stripeKeys: "kbits g = k \<Longrightarrow> finite (stripeKeys P g i db)"
proof -
  assume "kbits g = k"
  then have "stripeKeys P g i db \<subseteq> fst ` set (th_stripe (PT P) (dbs g db) i)"
    by (force simp: stripeKeys_def view_def search_def stripe_set image_iff)
  then show ?thesis by (rule finite_subset) simp
qed

lemma stripeMem_vupd:
  assumes k: "kbits g = k" "kbits g' = k" and v: "view P g' = vupd P g db key v"
  shows "stripeMem P g' i d = stripeMem P g i d +
    (if i = ShardIndex P k key \<and> d = db then memo v - memo (view P g db key) else 0)"
proof (cases "i = ShardIndex P k key \<and> d = db")
  case False
  have eq: "ShardIndex P k x = i \<Longrightarrow> view P g' d x = view P g d x" for x
    using False v by (auto simp: vupd_def)
  have "stripeMem P g' i d = stripeMem P g i d"
    unfolding stripeMem_def using k eq by (intro sum.cong) (auto simp: stripeKeys_def)
  then show ?thesis using False by auto
next
  case True
  let ?R = "\<lambda>h. stripeKeys P h i d - {key}"
  have rest: "(\<Sum>x \<in> ?R g'. memo (view P g' d x)) = (\<Sum>x \<in> ?R g. memo (view P g d x))"
    using k v by (intro sum.cong) (auto simp: stripeKeys_def vupd_def)
  have split: "stripeMem P h i d = memo (view P h d key) + (\<Sum>x \<in> ?R h. memo (view P h d x))" if "kbits h = k" for h
  proof (cases "key \<in> stripeKeys P h i d")
    case True
    then show ?thesis unfolding stripeMem_def using finite_stripeKeys [OF that] by (simp add: sum.remove)
  next
    case key: False
    then have "view P h d key = None" using True that by (auto simp: stripeKeys_def)
    then show ?thesis using key by (simp add: stripeMem_def)
  qed
  show ?thesis using split [OF k(1)] split [OF k(2)] rest v True by (simp add: vupd_def)
qed

lemma mem_ok_vupd:
  assumes mem: "mem_ok P g" and k: "kbits g = k" "kbits g' = k" "maxDBs g' = maxDBs g" and db: "db < maxDBs g"
    and v: "view P g' = vupd P g db key v"
    and ub: "\<And>j d. usedBytes (shards g' j) d = usedBytes (shards g j) d +
      (if j = ShardIndex P k key \<and> d = db then memo v - memo (view P g db key) else 0)"
    and ut: "\<And>j. usedTotal (shards g' j) = usedTotal (shards g j) +
      (if j = ShardIndex P k key then memo v - memo (view P g db key) else 0)"
  shows "mem_ok P g'"
  unfolding mem_ok_def
proof (intro conjI allI)
  fix i d
  show "usedBytes (shards g' i) d = stripeMem P g' i d"
    using mem ub stripeMem_vupd [OF k(1,2) v] by (simp add: mem_ok_def)
  have "(\<Sum>d < maxDBs g. usedBytes (shards g' i) d) = (\<Sum>d < maxDBs g. usedBytes (shards g i) d) +
      (\<Sum>d < maxDBs g. if i = ShardIndex P k key \<and> d = db then memo v - memo (view P g db key) else 0)"
    by (simp add: ub sum.distrib)
  also have "(\<Sum>d < maxDBs g. if i = ShardIndex P k key \<and> d = db then memo v - memo (view P g db key) else 0) =
      (if i = ShardIndex P k key then memo v - memo (view P g db key) else 0)"
    using db by (simp add: sum.delta)
  finally show "usedTotal (shards g' i) = (\<Sum>db < maxDBs g'. usedBytes (shards g' i) db)"
    using mem ut k(3) by (simp add: mem_ok_def)
qed

lemma search_tabDelete:
  "search P (snd (tabDelete P g db key)) d x = (if d = db \<and> x = key then None else search P g d x)"
  by (simp add: search_def tabDelete_def split_beta Let_def search_delete)

lemma tabDelete_found: "fst (tabDelete P g db key) \<longleftrightarrow> search P g db key \<noteq> None"
  by (simp add: search_def tabDelete_def split_beta Let_def delete_found)

lemma search_tabInsert:
  "search P (tabInsert P g db key a) d x = (if d = db \<and> x = key then Some a else search P g d x)"
  by (simp add: search_def tabInsert_def search_insert)

lemma view_tabDelete: "view P (snd (tabDelete P g db key)) = vupd P g db key None"
  by (simp add: view_def vupd_def fun_eq_iff search_tabDelete)

lemma eng_inv_transfer:
  assumes "eng_inv P k g" "view P g' = view P g" "ptr_ok P g'" "kbits g' = kbits g" "maxDBs g' = maxDBs g"
    and c: "\<And>j. tomb (shards g' j) = tomb (shards g j)" "\<And>j. usedBytes (shards g' j) = usedBytes (shards g j)"
      "\<And>j. usedTotal (shards g' j) = usedTotal (shards g j)"
  shows "eng_inv P k g'"
proof -
  have sm: "stripeMem P g' = stripeMem P g"
    by (simp add: fun_eq_iff stripeMem_def stripeKeys_def assms(2,4))
  have "mem_ok P g'" using eng_invD(3) [OF assms(1)] by (simp add: mem_ok_def sm c assms(5))
  moreover have "tomb_ok P g'"
    using eng_invD(4) [OF assms(1)] unfolding tomb_ok_def by (simp only: c assms(2,4))
  ultimately show ?thesis using assms(3,4) eng_invD(1) [OF assms(1)] by (simp add: eng_inv_def)
qed

lemma eng_inv_cong:
  assumes "dbs g' = dbs g" "ents g' = ents g" "nxt g' = nxt g" "kbits g' = kbits g" "maxDBs g' = maxDBs g"
    and "\<And>j. core (shards g' j) = core (shards g j)"
  shows "eng_inv P k g' = eng_inv P k g"
proof -
  have "view P g' = view P g" using assms(1,2) by (rule view_eqI)
  moreover have "ptr_ok P g' = ptr_ok P g"
    by (rule ptr_ok_eqI [OF search_eqI [OF assms(1)] assms(3)])
  ultimately show ?thesis
    using eng_inv_transfer [of g g'] eng_inv_transfer [of g' g] assms(4,5) core_eq_sel [OF assms(6)] eng_invD(2)
    by (metis (no_types, lifting))
qed

lemma eng_inv_frame [simp]:
  "eng_inv P k (trackAccess P i g db key a) = eng_inv P k g"
  "eng_inv P k (untrack P i g db key) = eng_inv P k g"
  "eng_inv P k (keyGone g db key r) = eng_inv P k g"
  "eng_inv P k (g\<lparr>ExpiredKeys := n\<rparr>) = eng_inv P k g"
  "eng_inv P k (g\<lparr>EvictedKeys := n\<rparr>) = eng_inv P k g"
  "eng_inv P k (g\<lparr>NowMs := t\<rparr>) = eng_inv P k g"
  "eng_inv P k (g\<lparr>chFull := w\<rparr>) = eng_inv P k g"
  by (rule eng_inv_cong; simp)+

text \<open>Removing a key: the common part of expiry, eviction and \<^verbatim>\<open>Delete\<close>.\<close>

lemma remove_inv:
  assumes inv: "eng_inv P k g" and db: "db < maxDBs g"
    and v: "view P g' = vupd P g db key None"
    and s: "\<And>d x a. search P g' d x = Some a \<Longrightarrow> search P g d x = Some a"
    and eq: "nxt g' = nxt g" "kbits g' = kbits g" "maxDBs g' = maxDBs g"
    and ub: "\<And>j. usedBytes (shards g' j) = (if j = ShardIndex P k key
        then (usedBytes (shards g j))(db := usedBytes (shards g j) db - memo (view P g db key)) else usedBytes (shards g j))"
    and ut: "\<And>j. usedTotal (shards g' j) = usedTotal (shards g j) -
        (if j = ShardIndex P k key then memo (view P g db key) else 0)"
    and tb: "\<And>j d x. tomb (shards g' j) (d, x) \<noteq> None \<Longrightarrow>
        tomb (shards g j) (d, x) \<noteq> None \<or> j = ShardIndex P k key \<and> d = db \<and> x = key"
  shows "eng_inv P k g'"
  unfolding eng_inv_def
proof (intro conjI)
  note [simp] = eng_invD(1) [OF inv]
  show "kbits g' = k" by (simp add: eq)
  have "nxt g \<le> nxt g'" using eq(1) by simp
  then show "ptr_ok P g'" using eng_invD(2) [OF inv] s by (blast intro: ptr_ok_subset)
  show "mem_ok P g'"
    by (rule mem_ok_vupd [OF eng_invD(3) [OF inv] _ _ _ db v]) (simp_all add: eq ub ut)
  show "tomb_ok P g'"
    unfolding tomb_ok_def using tb eng_invD(4) [OF inv] by (force simp: tomb_ok_def v vupd_def eq)
qed

lemma dropEntry_sel [simp]:
  "ents (dropEntry P i g db key a) = ents g" "nxt (dropEntry P i g db key a) = nxt g"
  "kbits (dropEntry P i g db key a) = kbits g" "maxDBs (dropEntry P i g db key a) = maxDBs g"
  "NowMs (dropEntry P i g db key a) = NowMs g" "shardCount (dropEntry P i g db key a) = shardCount g"
  "maxMemory (dropEntry P i g db key a) = maxMemory g" "policy (dropEntry P i g db key a) = policy g"
  "EvictSamples (dropEntry P i g db key a) = EvictSamples g"
  "expHeap (shards (dropEntry P i g db key a) j) = expHeap (shards g j)"
  "tomb (shards (dropEntry P i g db key a) j) = tomb (shards (tombstone i g db key (Version (ents g a))) j)"
  "epoch (shards (dropEntry P i g db key a) j) = epoch (shards (tombstone i g db key (Version (ents g a))) j)"
  by (simp_all add: dropEntry_def Let_def)

lemma search_dropEntry: "search P (dropEntry P i g db key a) d x = (if d = db \<and> x = key then None else search P g d x)"
  by (simp add: dropEntry_def Let_def search_tabDelete)

lemma view_dropEntry [view_simps]: "view P (dropEntry P i g db key a) = vupd P g db key None"
  by (simp add: view_def vupd_def fun_eq_iff search_dropEntry)

lemma dropEntry_inv [inv_intros]:
  assumes "eng_inv P k g" "db < maxDBs g" "search P g db key = Some a" "i = ShardIndex P k key"
  shows "eng_inv P k (dropEntry P i g db key a)"
proof (rule remove_inv [OF assms(1,2) view_dropEntry])
  show "search P (dropEntry P i g db key a) d x = Some b \<Longrightarrow> search P g d x = Some b" for d x b
    by (simp add: search_dropEntry split: if_splits)
  have v: "memo (view P g db key) = memBytes (ents g a)" using assms(3) by (simp add: view_def)
  show "usedBytes (shards (dropEntry P i g db key a) j) = (if j = ShardIndex P k key
      then (usedBytes (shards g j))(db := usedBytes (shards g j) db - memo (view P g db key)) else usedBytes (shards g j))" for j
    using assms(4) v by (simp add: dropEntry_def Let_def)
  show "usedTotal (shards (dropEntry P i g db key a) j) = usedTotal (shards g j) -
      (if j = ShardIndex P k key then memo (view P g db key) else 0)" for j
    using assms(4) v by (simp add: dropEntry_def Let_def)
  show "tomb (shards g j) (d, x) \<noteq> None \<or> j = ShardIndex P k key \<and> d = db \<and> x = key"
    if "tomb (shards (dropEntry P i g db key a) j) (d, x) \<noteq> None" for j d x
    using that assms(4) by (simp add: tombstone_tomb split: if_splits)
qed simp_all

lemma expireEntry_inv [inv_intros]:
  assumes "eng_inv P k g" "db < maxDBs g" "search P g db key = Some a" "i = ShardIndex P k key"
  shows "eng_inv P k (expireEntry P i g db key a)"
  using dropEntry_inv [OF assms] by (simp add: expireEntry_def Let_def)

lemma view_expireEntry [view_simps]: "view P (expireEntry P i g db key a) = vupd P g db key None"
  by (simp add: expireEntry_def Let_def view_dropEntry)

lemma expireEntry_sel [simp]:
  "ents (expireEntry P i g db key a) = ents g" "nxt (expireEntry P i g db key a) = nxt g"
  "kbits (expireEntry P i g db key a) = kbits g" "maxDBs (expireEntry P i g db key a) = maxDBs g"
  "NowMs (expireEntry P i g db key a) = NowMs g" "shardCount (expireEntry P i g db key a) = shardCount g"
  "maxMemory (expireEntry P i g db key a) = maxMemory g" "policy (expireEntry P i g db key a) = policy g"
  "EvictSamples (expireEntry P i g db key a) = EvictSamples g"
  "expHeap (shards (expireEntry P i g db key a) j) = expHeap (shards g j)"
  "tomb (shards (expireEntry P i g db key a) j) = tomb (shards (tombstone i g db key (Version (ents g a))) j)"
  "epoch (shards (expireEntry P i g db key a) j) = epoch (shards (tombstone i g db key (Version (ents g a))) j)"
  by (simp_all add: expireEntry_def Let_def)

lemma search_expireEntry: "search P (expireEntry P i g db key a) d x = (if d = db \<and> x = key then None else search P g d x)"
  by (simp add: expireEntry_def Let_def search_dropEntry)

subsection \<open>Lookup\<close>

lemma Lookup_cases:
  obtains (missing) "search P g db key = None" "Lookup P i g db key = (None, g)"
  | (expired) a where "search P g db key = Some a" "due (ents g a) (NowMs g)"
      "Lookup P i g db key = (None, expireEntry P i g db key a)"
  | (found) a where "search P g db key = Some a" "\<not> due (ents g a) (NowMs g)"
      "Lookup P i g db key = (Some a, trackAccess P i g db key a)"
  by (cases "search P g db key") (auto simp: Lookup_def)

lemma Lookup_inv [inv_intros]:
  assumes "eng_inv P k g" "db < maxDBs g" "i = ShardIndex P k key"
  shows "eng_inv P k (snd (Lookup P i g db key))"
  using assms by (cases rule: Lookup_cases [of g db key i]) (simp_all add: expireEntry_inv)

lemma Lookup_sel [simp]:
  "ents (snd (Lookup P i g db key)) = ents g" "nxt (snd (Lookup P i g db key)) = nxt g"
  "kbits (snd (Lookup P i g db key)) = kbits g" "maxDBs (snd (Lookup P i g db key)) = maxDBs g"
  "NowMs (snd (Lookup P i g db key)) = NowMs g" "shardCount (snd (Lookup P i g db key)) = shardCount g"
  "maxMemory (snd (Lookup P i g db key)) = maxMemory g" "policy (snd (Lookup P i g db key)) = policy g"
  "expHeap (shards (snd (Lookup P i g db key)) j) = expHeap (shards g j)"
  by (cases rule: Lookup_cases [of g db key i]; simp)+

text \<open>A lookup returns the live entry and hides an expired one; other keys are untouched.\<close>

lemma Lookup_result: "map_option (ents g) (fst (Lookup P i g db key)) = live P g db key"
  by (cases rule: Lookup_cases [of g db key i]) (simp_all add: live_def view_def)

lemma view_Lookup [view_simps]: "view P (snd (Lookup P i g db key)) = vupd P g db key (live P g db key)"
proof (cases rule: Lookup_cases [of g db key i])
  case (expired a)
  then show ?thesis by (simp add: view_expireEntry live_def view_def)
next
  case (found a)
  then show ?thesis by (auto simp: vupd_def fun_eq_iff live_def view_def)
qed (auto simp: vupd_def fun_eq_iff live_def view_def)

lemma live_Lookup: "live P (snd (Lookup P i g db key)) = live P g"
  by (auto simp: fun_eq_iff live_def view_Lookup vupd_def split: option.splits if_splits)

lemma Lookup_Some:
  assumes "Lookup P i g db key = (Some a, g')"
  shows "search P g db key = Some a" "search P g' db key = Some a" "view P g' = view P g" "\<not> due (ents g a) (NowMs g)"
  using assms by (cases rule: Lookup_cases [of g db key i]; auto)+

lemma Lookup_None:
  assumes "Lookup P i g db key = (None, g')"
  shows "search P g' db key = None" "live P g db key = None"
  using assms by (cases rule: Lookup_cases [of g db key i]; auto simp: search_expireEntry live_def view_def)+

subsection \<open>Store\<close>

lemma alloc_view:
  assumes "alloc e g = (a, g')" "ptr_ok P g"
  shows "view P g' = view P g" "search P g' = search P g" "unref P g' a" "ents g' a = e"
proof -
  have g': "a = nxt g" "g' = g\<lparr>ents := (ents g)(nxt g := e), nxt := Suc (nxt g)\<rparr>"
    using assms(1) by (auto simp: alloc_def)
  have "search P g d x \<noteq> Some (nxt g)" for d x
    using assms(2) by (auto simp: ptr_ok_def)
  then show "view P g' = view P g" "search P g' = search P g" "unref P g' a" "ents g' a = e"
    by (auto simp: g' view_def unref_def fun_eq_iff map_option_case split: option.splits)
qed

lemma alloc_inv [inv_intros]:
  assumes "alloc e g = (a, g')" "eng_inv P k g"
  shows "eng_inv P k g'"
proof -
  note v = alloc_view [OF assms(1) eng_invD(2) [OF assms(2)]]
  have g': "g' = g\<lparr>ents := (ents g)(nxt g := e), nxt := Suc (nxt g)\<rparr>" using assms(1) by (auto simp: alloc_def)
  have "ptr_ok P g'"
    by (rule ptr_ok_subset [OF eng_invD(2) [OF assms(2)]]) (simp_all add: v(2) g')
  then show ?thesis by (rule eng_inv_transfer [OF assms(2) v(1)]) (simp_all add: g')
qed

lemma Store_search: "search P (Store P i g db key a) d x = (if d = db \<and> x = key then Some a else search P g d x)"
  by (simp add: Store_def Let_def search_tabInsert)

lemma Store_base:
  "(case search P g db key of
      Some b \<Rightarrow> if tombVersion i g db key < Version (ents g b) then Version (ents g b) else tombVersion i g db key
    | None \<Rightarrow> tombVersion i g db key) = verOf P i g db key"
  by (simp add: verOf_def view_def max_def split: option.splits)

lemma Store_ents: "ents (Store P i g db key a) = (ents g)(a := stored P i g db key a)"
  by (simp add: Store_def Let_def stored_def fun_eq_iff flip: Store_base)

lemma view_Store [view_simps]:
  assumes "unref P g a"
  shows "view P (Store P i g db key a) = vupd P g db key (Some (stored P i g db key a))"
  using assms
  by (auto simp: view_def vupd_def fun_eq_iff Store_search Store_ents unref_def map_option_case split: option.splits)

lemma Store_sel [simp]:
  "nxt (Store P i g db key a) = nxt g"
  "kbits (Store P i g db key a) = kbits g" "maxDBs (Store P i g db key a) = maxDBs g"
  "NowMs (Store P i g db key a) = NowMs g" "shardCount (Store P i g db key a) = shardCount g"
  "maxMemory (Store P i g db key a) = maxMemory g" "policy (Store P i g db key a) = policy g"
  "expHeap (shards (Store P i g db key a) j) = expHeap (shards g j)"
  "epoch (shards (Store P i g db key a) j) = epoch (shards g j)"
  "tomb (shards (Store P i g db key a) j) = (if j = i then (tomb (shards g i))((db, key) := None) else tomb (shards g j))"
  by (simp_all add: Store_def Let_def)

lemma Store_mem:
  assumes "unref P g a"
  shows "usedBytes (shards (Store P i g db key a) j) d = usedBytes (shards g j) d +
      (if j = i \<and> d = db then memo (Some (stored P i g db key a)) - memo (view P g db key) else 0)"
    and "usedTotal (shards (Store P i g db key a) j) = usedTotal (shards g j) +
      (if j = i then memo (Some (stored P i g db key a)) - memo (view P g db key) else 0)"
proof -
  have "search P g db key \<noteq> Some a" using assms by (simp add: unref_def)
  then show "usedBytes (shards (Store P i g db key a) j) d = usedBytes (shards g j) d +
      (if j = i \<and> d = db then memo (Some (stored P i g db key a)) - memo (view P g db key) else 0)"
    and "usedTotal (shards (Store P i g db key a) j) = usedTotal (shards g j) +
      (if j = i then memo (Some (stored P i g db key a)) - memo (view P g db key) else 0)"
    by (cases "search P g db key"; simp add: Store_def Let_def stored_def view_def)+
qed

lemma Store_inv [inv_intros]:
  assumes inv: "eng_inv P k g" and db: "db < maxDBs g" and a: "unref P g a" and i: "i = ShardIndex P k key"
  shows "eng_inv P k (Store P i g db key a)"
  unfolding eng_inv_def
proof (intro conjI)
  note [simp] = eng_invD(1) [OF inv]
  show "kbits (Store P i g db key a) = k" by simp
  show "ptr_ok P (Store P i g db key a)"
    using eng_invD(2) [OF inv] a by (auto simp: ptr_ok_def unref_def Store_search split: if_splits)
  show "mem_ok P (Store P i g db key a)"
    by (rule mem_ok_vupd [OF eng_invD(3) [OF inv] _ _ _ db view_Store [OF a]])
      (simp_all add: Store_mem [OF a] i)
  show "tomb_ok P (Store P i g db key a)"
    unfolding tomb_ok_def
  proof (intro allI impI)
    fix j d x
    assume t: "tomb (shards (Store P i g db key a) j) (d, x) \<noteq> None"
    then have old: "tomb (shards g j) (d, x) \<noteq> None" by (auto split: if_splits)
    then have "ShardIndex P k x = j" "view P g d x = None"
      using tomb_okD [OF eng_invD(4) [OF inv], of j d x] by auto
    moreover have "\<not> (d = db \<and> x = key)" using t calculation i by auto
    ultimately show "ShardIndex P (kbits (Store P i g db key a)) x = j \<and> view P (Store P i g db key a) d x = None"
      by (simp add: view_Store [OF a] vupd_def)
  qed
qed

subsection \<open>Delete\<close>

lemma Delete_missing: "Lookup P i g db key = (None, g1) \<Longrightarrow> Delete P i g db key = (False, g1)"
  by (simp add: Delete_def)

lemma Delete_found:
  assumes "Lookup P i g db key = (Some a, g1)"
  shows "fst (Delete P i g db key)"
    and "search P (snd (Delete P i g db key)) d x = (if d = db \<and> x = key then None else search P g d x)"
    and "tomb (shards (snd (Delete P i g db key)) j) = tomb (shards (tombstone i g db key (Version (ents g a))) j)"
    and "epoch (shards (snd (Delete P i g db key)) j) = epoch (shards (tombstone i g db key (Version (ents g a))) j)"
    and "usedBytes (shards (snd (Delete P i g db key)) j) = (if j = i then (usedBytes (shards g j))(db := usedBytes (shards g j) db - memBytes (ents g a)) else usedBytes (shards g j))"
    and "usedTotal (shards (snd (Delete P i g db key)) j) = usedTotal (shards g j) - (if j = i then memBytes (ents g a) else 0)"
proof -
  have g1: "g1 = trackAccess P i g db key a" and s: "search P g db key = Some a"
    using assms by (cases rule: Lookup_cases [of g db key i]; simp)+
  have tomb_eq: "tomb (shards (tombstone i g1 db key v) j) = tomb (shards (tombstone i g db key v) j)"
    "epoch (shards (tombstone i g1 db key v) j) = epoch (shards (tombstone i g db key v) j)" for j v
    by (simp_all add: g1 tombstone_tomb tombstone_epoch fun_eq_iff)
  have ents1: "ents g1 = ents g" by (simp add: g1)
  note D = Delete_def assms Let_def prod.case option.case
  show "fst (Delete P i g db key)" using s by (simp add: D tabDelete_found g1)
  show "search P (snd (Delete P i g db key)) d x = (if d = db \<and> x = key then None else search P g d x)"
    by (simp add: D search_tabDelete g1)
  show "tomb (shards (snd (Delete P i g db key)) j) = tomb (shards (tombstone i g db key (Version (ents g a))) j)"
    by (simp add: D tomb_eq ents1)
  show "epoch (shards (snd (Delete P i g db key)) j) = epoch (shards (tombstone i g db key (Version (ents g a))) j)"
    by (simp add: D tomb_eq ents1)
  show "usedBytes (shards (snd (Delete P i g db key)) j) = (if j = i then (usedBytes (shards g j))(db := usedBytes (shards g j) db - memBytes (ents g a)) else usedBytes (shards g j))"
    and "usedTotal (shards (snd (Delete P i g db key)) j) = usedTotal (shards g j) - (if j = i then memBytes (ents g a) else 0)"
    by (simp_all add: D g1)
qed

lemma Delete_sel [simp]:
  "ents (snd (Delete P i g db key)) = ents g" "nxt (snd (Delete P i g db key)) = nxt g"
  "kbits (snd (Delete P i g db key)) = kbits g" "maxDBs (snd (Delete P i g db key)) = maxDBs g"
  "NowMs (snd (Delete P i g db key)) = NowMs g" "shardCount (snd (Delete P i g db key)) = shardCount g"
  "maxMemory (snd (Delete P i g db key)) = maxMemory g" "policy (snd (Delete P i g db key)) = policy g"
  "expHeap (shards (snd (Delete P i g db key)) j) = expHeap (shards g j)"
  by (cases rule: Lookup_cases [of g db key i]; simp add: Delete_def Let_def)+

lemma Delete_result: "fst (Delete P i g db key) \<longleftrightarrow> live P g db key \<noteq> None"
proof (cases "Lookup P i g db key")
  case (Pair r g1)
  then have "live P g db key = map_option (ents g) r"
    using Lookup_result [where g = g and i = i and db = db and key = key] by simp
  then show ?thesis using Pair Delete_found(1) Delete_missing by (cases r) auto
qed

lemma view_Delete [view_simps]: "view P (snd (Delete P i g db key)) = vupd P g db key None"
proof (cases "Lookup P i g db key")
  case (Pair r g1)
  show ?thesis
  proof (cases r)
    case None
    then have "view P g1 = vupd P g db key None"
      using view_Lookup [of i g db key] Lookup_None(2) [of i g db key g1] Pair by simp
    then show ?thesis using Pair None by (simp add: Delete_missing)
  next
    case (Some a)
    then show ?thesis
      using Delete_found(2) [of i g db key a g1] Pair by (simp add: view_def vupd_def fun_eq_iff)
  qed
qed

lemma Delete_inv [inv_intros]:
  assumes "eng_inv P k g" "db < maxDBs g" "i = ShardIndex P k key"
  shows "eng_inv P k (snd (Delete P i g db key))"
proof (cases "Lookup P i g db key")
  case (Pair r g1)
  show ?thesis
  proof (cases r)
    case None
    then show ?thesis using Lookup_inv [OF assms] Pair by (simp add: Delete_missing)
  next
    case (Some a)
    note L = Pair [unfolded Some]
    note D = Delete_found [OF L]
    have v: "view P g db key = Some (ents g a)" using Lookup_Some(1) [OF L] by (simp add: view_def)
    show ?thesis
    proof (rule remove_inv [OF assms(1,2) view_Delete])
      show "search P (snd (Delete P i g db key)) d x = Some b \<Longrightarrow> search P g d x = Some b" for d x b
        by (simp add: D split: if_splits)
      show "tomb (shards g j) (d, x) \<noteq> None \<or> j = ShardIndex P k key \<and> d = db \<and> x = key"
        if "tomb (shards (snd (Delete P i g db key)) j) (d, x) \<noteq> None" for j d x
        unfolding assms(3) [symmetric] using that unfolding D(3) tombstone_tomb by (auto split: if_splits)
    qed (simp_all add: D v, simp_all add: assms(3))
  qed
qed

subsection \<open>In-place changes\<close>

text \<open>Changing an entry in place, cached cost aside, keeps the invariant.\<close>

lemma upd_entry_inv [inv_intros]:
  assumes inv: "eng_inv P k g" and a: "search P g db key = Some a" and f: "memBytes (f (ents g a)) = memBytes (ents g a)"
  shows "eng_inv P k (upd_entry a f g)"
proof -
  note v = view_upd_entry [OF eng_invD(2) [OF inv] a, of f]
  have "stripeMem P (upd_entry a f g) = stripeMem P g"
    using stripeMem_vupd [OF _ _ v] eng_invD(1) [OF inv] a f by (simp add: fun_eq_iff view_def)
  moreover have "ptr_ok P (upd_entry a f g)" using eng_invD(2) [OF inv] by (simp add: ptr_ok_def)
  moreover have "view P g d x = None \<Longrightarrow> view P (upd_entry a f g) d x = None" for d x
    using a by (auto simp: v vupd_def view_def)
  ultimately show ?thesis
    using inv unfolding eng_inv_def mem_ok_def tomb_ok_def by (metis upd_entry_sel(5,6,16))
qed

lemma Touch_sel [simp]:
  "search P (Touch P i g db key a) = search P g"
  "ents (Touch P i g db key a) = (ents g)(a := touched P key (ents g a))" "nxt (Touch P i g db key a) = nxt g"
  "kbits (Touch P i g db key a) = kbits g" "maxDBs (Touch P i g db key a) = maxDBs g"
  "NowMs (Touch P i g db key a) = NowMs g" "shardCount (Touch P i g db key a) = shardCount g"
  "maxMemory (Touch P i g db key a) = maxMemory g" "policy (Touch P i g db key a) = policy g"
  "expHeap (shards (Touch P i g db key a) j) = expHeap (shards g j)"
  "epoch (shards (Touch P i g db key a) j) = epoch (shards g j)"
  "tomb (shards (Touch P i g db key a) j) = tomb (shards g j)"
  by (simp_all add: Touch_def Let_def touched_def)

lemma view_Touch [view_simps]:
  assumes "ptr_ok P g" "search P g db key = Some a"
  shows "view P (Touch P i g db key a) = vupd P g db key (Some (touched P key (ents g a)))"
  using view_upd_entry [OF assms, of "touched P key"] by (simp add: view_def fun_eq_iff)

lemma Touch_inv [inv_intros]:
  assumes inv: "eng_inv P k g" and db: "db < maxDBs g" and a: "search P g db key = Some a" and i: "i = ShardIndex P k key"
  shows "eng_inv P k (Touch P i g db key a)"
  unfolding eng_inv_def
proof (intro conjI)
  note k = eng_invD(1) [OF inv]
  note v = view_Touch [OF eng_invD(2) [OF inv] a]
  show "kbits (Touch P i g db key a) = k" using k by simp
  show "ptr_ok P (Touch P i g db key a)" using eng_invD(2) [OF inv] by (simp add: ptr_ok_def)
  show "mem_ok P (Touch P i g db key a)"
    using k a by (intro mem_ok_vupd [OF eng_invD(3) [OF inv] _ _ _ db v])
      (simp_all add: Touch_def Let_def i view_def touched_def)
  show "tomb_ok P (Touch P i g db key a)"
    using eng_invD(4) [OF inv] a unfolding tomb_ok_def v by (force simp: vupd_def view_def)
qed

lemma PushExpire_sel [simp]:
  "search P (PushExpire P i g db key a) = search P g"
  "ents (PushExpire P i g db key a) = (ents g)(a := (ents g a)\<lparr>ExpGen := Suc (ExpGen (ents g a))\<rparr>)"
  "nxt (PushExpire P i g db key a) = nxt g"
  "kbits (PushExpire P i g db key a) = kbits g" "maxDBs (PushExpire P i g db key a) = maxDBs g"
  "NowMs (PushExpire P i g db key a) = NowMs g" "shardCount (PushExpire P i g db key a) = shardCount g"
  "maxMemory (PushExpire P i g db key a) = maxMemory g" "policy (PushExpire P i g db key a) = policy g"
  "epoch (shards (PushExpire P i g db key a) j) = epoch (shards g j)"
  "tomb (shards (PushExpire P i g db key a) j) = tomb (shards g j)"
  by (simp_all add: PushExpire_def Let_def)

lemma PushExpire_heap:
  "set (hp_all (PH P) (expHeap (shards (PushExpire P i g db key a) j))) =
     (if j = i then insert \<lparr>At = ExpireAtMs (ents g a), DB = db, Key = key, Gen = Suc (ExpGen (ents g a))\<rparr>
        (set (hp_all (PH P) (expHeap (shards g i)))) else set (hp_all (PH P) (expHeap (shards g j))))"
proof -
  have "set_mset (mset (hp_all (PH P) (hp_push (PH P) h x))) = insert x (set (hp_all (PH P) h))" for h x
    by (subst hp_push_all) simp
  then show ?thesis by (simp add: PushExpire_def Let_def)
qed

lemma view_PushExpire [view_simps]:
  assumes "ptr_ok P g" "search P g db key = Some a"
  shows "view P (PushExpire P i g db key a) = vupd P g db key (Some ((ents g a)\<lparr>ExpGen := Suc (ExpGen (ents g a))\<rparr>))"
  using view_upd_entry [OF assms, of "\<lambda>e. e\<lparr>ExpGen := Suc (ExpGen e)\<rparr>"] by (simp add: view_def fun_eq_iff)

lemma PushExpire_inv [inv_intros]:
  assumes inv: "eng_inv P k g" and a: "search P g db key = Some a"
  shows "eng_inv P k (PushExpire P i g db key a)"
proof -
  let ?g = "upd_entry a (\<lambda>e. e\<lparr>ExpGen := Suc (ExpGen e)\<rparr>) g"
  have g: "eng_inv P k ?g" by (rule upd_entry_inv [OF inv a]) simp
  have "view P (PushExpire P i g db key a) = view P ?g" by (simp add: view_def fun_eq_iff)
  moreover have "ptr_ok P (PushExpire P i g db key a)" using eng_invD(2) [OF inv] by (simp add: ptr_ok_def)
  ultimately show ?thesis
    by (rule eng_inv_transfer [OF g]) (simp_all add: PushExpire_def Let_def)
qed

end

end
