(* ===== verification/Removal.thy ===== *)
theory Removal
  imports Keyspace
begin

text \<open>
  Expiry sweeps and eviction are sequences of two kinds of small steps: the removal of one
  present key by its owner shard, and changes of the expiry heap, the trackers, the counters
  and the notification log. \<open>removes R\<close> is the reachability relation of these steps, where \<open>R\<close>
  holds of every removed entry. What follows from it is proved here once, by rule induction:
  the engine invariant is kept, no key appears or changes, every key that disappears had an
  entry satisfying \<open>R\<close>, and every watcher's stamp grows.
\<close>

section \<open>Steps\<close>

text \<open>Everything but heaps, trackers, generators, counters and the log.\<close>

definition quiet :: "('q, 'z, 't, 'h, 'l, 'f) st \<Rightarrow> ('q, 'z, 't, 'h, 'l, 'f) st \<Rightarrow> bool" where
  "quiet g g' \<longleftrightarrow>
     dbs g' = dbs g \<and> ents g' = ents g \<and> nxt g' = nxt g \<and> kbits g' = kbits g \<and> maxDBs g' = maxDBs g \<and>
     NowMs g' = NowMs g \<and> shardCount g' = shardCount g \<and> maxMemory g' = maxMemory g \<and> policy g' = policy g \<and>
     EvictSamples g' = EvictSamples g \<and>
     (\<forall>j. tomb (shards g' j) = tomb (shards g j) \<and> epoch (shards g' j) = epoch (shards g j) \<and>
          usedBytes (shards g' j) = usedBytes (shards g j) \<and>
          usedTotal (shards g' j) = usedTotal (shards g j) \<and> TombCap (shards g' j) = TombCap (shards g j))"

inductive removes ::
  "('q, 'z, 't, 'h, 'l, 'f) packages \<Rightarrow> nat \<Rightarrow> (('q, 'z) entry \<Rightarrow> bool) \<Rightarrow> ('q, 'z, 't, 'h, 'l, 'f) st \<Rightarrow> ('q, 'z, 't, 'h, 'l, 'f) st \<Rightarrow> bool"
  for P k R g where
  refl: "removes P k R g g"
| quiet_step: "removes P k R g g1 \<Longrightarrow> quiet g1 g2 \<Longrightarrow> removes P k R g g2"
| drop_step: "\<lbrakk>removes P k R g g1; db < maxDBs g1; search P g1 db key = Some a; R (ents g1 a)\<rbrakk> \<Longrightarrow>
    removes P k R g (dropEntry P (ShardIndex P k key) g1 db key a)"

lemma quiet_refl [simp]: "quiet g g"
  by (simp add: quiet_def)

lemma quiet_view: "quiet g g' \<Longrightarrow> view P g' = view P g"
  by (rule view_eqI) (simp_all add: quiet_def)

lemma quiet_search: "quiet g g' \<Longrightarrow> search P g' = search P g"
  by (rule search_eqI) (simp add: quiet_def)

lemma quiet_heap [simp]: "quiet g (upd_shard i (\<lambda>s. s\<lparr>expHeap := f s\<rparr>) g)"
  by (simp add: quiet_def)

lemma removes_trans:
  assumes "removes P k R g1 g2" "removes P k R g g1"
  shows "removes P k R g g2"
  using assms by (induction) (auto intro: removes.intros)

lemma removes_mono:
  assumes "removes P k R g g'" "\<And>e. R e \<Longrightarrow> R' e"
  shows "removes P k R' g g'"
  using assms(1) by (induction) (auto intro: removes.intros assms(2))

section \<open>What removal steps do\<close>

definition conf_eq :: "('q, 'z, 't, 'h, 'l, 'f) st \<Rightarrow> ('q, 'z, 't, 'h, 'l, 'f) st \<Rightarrow> bool" where
  "conf_eq g g' \<longleftrightarrow> kbits g' = kbits g \<and> maxDBs g' = maxDBs g \<and> NowMs g' = NowMs g \<and> shardCount g' = shardCount g \<and>
     maxMemory g' = maxMemory g \<and> policy g' = policy g \<and> EvictSamples g' = EvictSamples g"

text \<open>A watcher's stamp and its order.\<close>

definition stamp :: "('q, 'z, 't, 'h, 'l, 'f) packages \<Rightarrow> nat \<Rightarrow> ('q, 'z, 't, 'h, 'l, 'f) st \<Rightarrow> nat \<Rightarrow> string \<Rightarrow> nat \<times> nat" where
  "stamp P k g db key = (epoch (shards g (ShardIndex P k key)) db, verOf P (ShardIndex P k key) g db key)"

definition stamp_less :: "nat \<times> nat \<Rightarrow> nat \<times> nat \<Rightarrow> bool" where
  "stamp_less x y \<longleftrightarrow> fst x < fst y \<or> fst x = fst y \<and> snd x < snd y"

definition stamp_le :: "nat \<times> nat \<Rightarrow> nat \<times> nat \<Rightarrow> bool" where
  "stamp_le x y \<longleftrightarrow> x = y \<or> stamp_less x y"

definition stamps_grow :: "('q, 'z, 't, 'h, 'l, 'f) packages \<Rightarrow> nat \<Rightarrow> ('q, 'z, 't, 'h, 'l, 'f) st \<Rightarrow> ('q, 'z, 't, 'h, 'l, 'f) st \<Rightarrow> bool" where
  "stamps_grow P k g g' \<longleftrightarrow> (\<forall>db < maxDBs g. \<forall>key. stamp_le (stamp P k g db key) (stamp P k g' db key))"

lemma stamp_le_refl [simp]: "stamp_le x x"
  by (simp add: stamp_le_def)

lemma stamp_le_trans: "stamp_le x y \<Longrightarrow> stamp_le y z \<Longrightarrow> stamp_le x z"
  by (auto simp: stamp_le_def stamp_less_def)

lemma stamp_less_le_trans: "stamp_less x y \<Longrightarrow> stamp_le y z \<Longrightarrow> stamp_less x z"
  by (auto simp: stamp_le_def stamp_less_def)

lemma stamp_le_less_trans: "stamp_le x y \<Longrightarrow> stamp_less y z \<Longrightarrow> stamp_less x z"
  by (auto simp: stamp_le_def stamp_less_def)

lemma stamp_less_irrefl [simp]: "\<not> stamp_less x x"
  by (simp add: stamp_less_def)

lemma stamp_less_imp_le: "stamp_less x y \<Longrightarrow> stamp_le x y"
  by (simp add: stamp_le_def)

lemma stamps_grow_refl [simp]: "stamps_grow P k g g"
  by (simp add: stamps_grow_def)

lemma stamps_grow_trans:
  "stamps_grow P k g g1 \<Longrightarrow> stamps_grow P k g1 g2 \<Longrightarrow> maxDBs g1 = maxDBs g \<Longrightarrow> stamps_grow P k g g2"
  unfolding stamps_grow_def by (intro allI impI) (rule stamp_le_trans, blast, simp)

lemma verOf_cong:
  assumes "view P g' db key = view P g db key" "tomb (shards g' i) (db, key) = tomb (shards g i) (db, key)"
  shows "verOf P i g' db key = verOf P i g db key"
proof -
  have "tombVersion i g' db key = tombVersion i g db key" using assms(2) by (simp add: tombVersion_def)
  then show ?thesis using assms(1) by (simp add: verOf_def split: option.split)
qed

lemma stamp_cong:
  assumes "view P g' = view P g" "\<And>j. tomb (shards g' j) = tomb (shards g j)" "\<And>j. epoch (shards g' j) = epoch (shards g j)"
  shows "stamp P k g' = stamp P k g"
proof (intro ext)
  fix db key
  have "verOf P (ShardIndex P k key) g' db key = verOf P (ShardIndex P k key) g db key"
    by (intro verOf_cong) (simp_all add: assms)
  then show "stamp P k g' db key = stamp P k g db key" by (simp add: stamp_def assms)
qed

lemma stamp_quiet: "quiet g g' \<Longrightarrow> stamp P k g' = stamp P k g"
  by (intro stamp_cong quiet_view) (simp_all add: quiet_def)

lemma verOf_present:
  assumes "tomb_ok P g" "view P g db key = Some e"
  shows "verOf P i g db key = Version e" and "tomb (shards g i) (db, key) = None"
proof -
  show t: "tomb (shards g i) (db, key) = None"
    using tomb_okD [OF assms(1), of i db key] assms(2) by (cases "tomb (shards g i) (db, key)") auto
  show "verOf P i g db key = Version e" using assms(2) t by (simp add: verOf_def tombVersion_def)
qed

text \<open>
  Removing a key with a tombstone: the removed key's stamp grows strictly, and every other
  stamp stays or grows (a tombstone overflow bumps the epochs).
\<close>

lemma stamp_tombstone:
  assumes t: "tomb_ok P g" and k: "kbits g = k" and e: "view P g db key = Some e" and db: "db < maxDBs g"
    and v: "view P g' = vupd P g db key None"
    and tb: "\<And>j. tomb (shards g' j) = tomb (shards (tombstone (ShardIndex P k key) g db key (Version e)) j)"
    and ep: "\<And>j. epoch (shards g' j) = epoch (shards (tombstone (ShardIndex P k key) g db key (Version e)) j)"
  shows "stamp_less (stamp P k g db key) (stamp P k g' db key)" and "stamps_grow P k g g'"
proof -
  let ?i = "ShardIndex P k key"
  let ?over = "TombCap (shards g ?i) \<le> card (dom (tomb (shards g ?i)))"
  have "verOf P ?i g db key = Version e" using verOf_present [OF t e] by simp
  moreover have "verOf P ?i g' db key = Suc (Version e)"
    by (simp add: verOf_def v vupd_def tombVersion_def tb tombstone_tomb)
  ultimately show less: "stamp_less (stamp P k g db key) (stamp P k g' db key)"
    using db by (simp add: stamp_def stamp_less_def ep tombstone_epoch)
  show "stamps_grow P k g g'"
    unfolding stamps_grow_def
  proof (intro allI impI)
    fix d x assume d: "d < maxDBs g"
    show "stamp_le (stamp P k g d x) (stamp P k g' d x)"
    proof (cases "d = db \<and> x = key")
      case True
      then show ?thesis using less by (simp add: stamp_less_imp_le)
    next
      case False
      then have "view P g' d x = view P g d x" by (auto simp: v vupd_def)
      moreover have "tomb (shards g' j) (d, x) = tomb (shards g j) (d, x)" if "j \<noteq> ?i \<or> \<not> ?over" for j
        using that False by (auto simp: tb tombstone_tomb)
      ultimately have "verOf P j g' d x = verOf P j g d x" if "j \<noteq> ?i \<or> \<not> ?over" for j
        using that by (blast intro: verOf_cong)
      then show ?thesis
        using d by (cases "ShardIndex P k x = ?i \<and> ?over")
          (auto simp: stamp_def stamp_le_def stamp_less_def ep tombstone_epoch)
    qed
  qed
qed

context pluto_laws
begin

lemma removes_keeps:
  assumes "removes P k R g g'" "eng_inv P k g"
  shows "eng_inv P k g' \<and> conf_eq g g' \<and> ents g' = ents g \<and> nxt g' = nxt g \<and> stamps_grow P k g g' \<and>
    (\<forall>d x. search P g' d x = search P g d x \<or>
           search P g' d x = None \<and> (\<exists>a. search P g d x = Some a \<and> R (ents g a)))"
  using assms
proof (induction)
  case refl
  then show ?case by (simp add: conf_eq_def)
next
  case (quiet_step g1 g2)
  then have "eng_inv P k g2"
    using eng_inv_transfer [of g1 g2] ptr_ok_eqI [OF quiet_search, of g1 g2 P]
    by (simp add: quiet_view quiet_def eng_inv_def)
  moreover have "stamps_grow P k g g2"
    using quiet_step by (simp add: stamps_grow_def stamp_quiet)
  moreover have "conf_eq g g2" "ents g2 = ents g" "nxt g2 = nxt g"
    using quiet_step by (simp_all add: conf_eq_def quiet_def)
  ultimately show ?case using quiet_step quiet_search by metis
next
  case (drop_step g1 db key a)
  let ?g = "dropEntry P (ShardIndex P k key) g1 db key a"
  have IH: "eng_inv P k g1" "conf_eq g g1" "ents g1 = ents g" "nxt g1 = nxt g" "stamps_grow P k g g1"
    using drop_step by simp_all
  have "eng_inv P k ?g" by (rule dropEntry_inv [OF IH(1) drop_step(2,3) HOL.refl])
  moreover have "view P g1 db key = Some (ents g1 a)" using drop_step(3) by (simp add: view_def)
  then have "stamps_grow P k g1 ?g"
    using drop_step(2) IH(1) by (intro stamp_tombstone(2) [OF eng_invD(4,1)]) (simp_all add: view_dropEntry)
  then have "stamps_grow P k g ?g"
    using IH(2,5) by (auto intro: stamps_grow_trans simp: conf_eq_def)
  moreover have "conf_eq g ?g" using IH(2) by (simp add: conf_eq_def)
  moreover have "search P g db key = Some a"
    using drop_step(3) drop_step.IH [OF drop_step.prems] by (metis option.distinct(1))
  ultimately show ?case
    using drop_step.IH [OF drop_step.prems] drop_step(4) IH(3,4) by (simp add: search_dropEntry)
qed

lemma removes_view:
  assumes "removes P k R g g'" "eng_inv P k g"
  shows "view P g' d x = view P g d x \<or> view P g' d x = None \<and> (\<exists>e. view P g d x = Some e \<and> R e)"
  using removes_keeps [OF assms] unfolding view_def by (metis option.simps(8,9))

end

end
