(* ===== verification/Expiry.thy ===== *)
theory Expiry
  imports Removal
begin

text \<open>
  Active expiry (\<^verbatim>\<open>sweep\<close>, \<^verbatim>\<open>nextSweepInterval\<close>, \<^verbatim>\<open>DBSizeTok\<close> of \<^verbatim>\<open>src/lib/shard/shard.go\<close>). The heap
  invariant \<open>heap_ok\<close> says that every entry with an expiry has a matching item in its shard's
  heap and that a heap only holds items of its own shard. A sweep keeps it, terminates, only
  removes entries whose expiry has passed, and an unbounded sweep leaves no due entry; so
  \<^verbatim>\<open>DBSIZE\<close> counts exactly the keys a client can see.
\<close>

section \<open>The heap invariant\<close>

definition heapItems :: "('q, 'z, 't, 'h, 'l, 'f) packages \<Rightarrow> ('q, 'z, 't, 'h, 'l, 'f) st \<Rightarrow> nat \<Rightarrow> expItem set" where
  "heapItems P g j = set (hp_all (PH P) (expHeap (shards g j)))"

definition itemOf :: "nat \<Rightarrow> string \<Rightarrow> ('q, 'z) entry \<Rightarrow> expItem" where
  "itemOf db key e = \<lparr>At = ExpireAtMs e, DB = db, Key = key, Gen = ExpGen e\<rparr>"

definition heap_ok :: "('q, 'z, 't, 'h, 'l, 'f) packages \<Rightarrow> nat \<Rightarrow> ('q, 'z, 't, 'h, 'l, 'f) st \<Rightarrow> bool" where
  "heap_ok P k g \<longleftrightarrow>
     (\<forall>j. \<forall>it \<in> heapItems P g j. ShardIndex P k (Key it) = j \<and> DB it < maxDBs g \<and> 0 < At it) \<and>
     (\<forall>db key e. view P g db key = Some e \<longrightarrow> 0 < ExpireAtMs e \<longrightarrow>
        itemOf db key e \<in> heapItems P g (ShardIndex P k key))"

text \<open>One iteration of the sweep on a due item.\<close>

definition sweepStep :: "('q, 'z, 't, 'h, 'l, 'f) packages \<Rightarrow> nat \<Rightarrow> ('q, 'z, 't, 'h, 'l, 'f) st \<Rightarrow> expItem \<Rightarrow> bool \<times> ('q, 'z, 't, 'h, 'l, 'f) st" where
  "sweepStep P i g tp =
     (let g1 = upd_shard i (\<lambda>s. s\<lparr>expHeap := hp_pop (PH P) (expHeap s)\<rparr>) g
      in case search P g1 (DB tp) (Key tp) of
           None \<Rightarrow> (False, g1)
         | Some a \<Rightarrow>
             if ExpireAtMs (ents g1 a) = At tp \<and> ExpGen (ents g1 a) = Gen tp
             then (True, expireEntry P i g1 (DB tp) (Key tp) a) else (False, g1))"

lemma sweep_loop_Suc:
  "sweep_loop P i now limit late (Suc fuel) popped expired g =
     (if limit < 0 \<or> int popped < limit
      then
        (case hp_peek (PH P) (expHeap (shards g i)) of
          None \<Rightarrow> Some ((expired, False), g)
        | Some tp \<Rightarrow>
            if now < At tp then Some ((expired, False), g)
            else if 0 < popped \<and> late popped then Some ((expired, True), g)
            else
              let (b, g1) = sweepStep P i g tp
              in sweep_loop P i now limit late fuel (Suc popped) (if b then Suc expired else expired) g1)
      else
        Some ((expired,
               case hp_peek (PH P) (expHeap (shards g i)) of
                 None \<Rightarrow> False | Some tp \<Rightarrow> At tp \<le> now), g))"
  by (auto simp: sweepStep_def Let_def split: option.splits)

declare sweep_loop.simps(2) [simp del]

text \<open>The keys a client can see.\<close>

definition liveKeys :: "('q, 'z, 't, 'h, 'l, 'f) packages \<Rightarrow> ('q, 'z, 't, 'h, 'l, 'f) st \<Rightarrow> nat \<Rightarrow> string set" where
  "liveKeys P g db = {x. live P g db x \<noteq> None}"

context pluto_laws
begin

section \<open>One iteration\<close>

lemma pop_items:
  assumes "hp_peek (PH P) h = Some tp"
  shows "set (hp_all (PH P) h) = insert tp (set (hp_all (PH P) (hp_pop (PH P) h)))"
    and "length (hp_all (PH P) h) = Suc (length (hp_all (PH P) (hp_pop (PH P) h)))"
proof -
  note eq = hp_pop_all [OF assms, symmetric]
  show "set (hp_all (PH P) h) = insert tp (set (hp_all (PH P) (hp_pop (PH P) h)))"
    using arg_cong [OF eq, of set_mset] by simp
  show "length (hp_all (PH P) h) = Suc (length (hp_all (PH P) (hp_pop (PH P) h)))"
    using arg_cong [OF eq, of size] by simp
qed

lemma heap_ok_item:
  "heap_ok P k g \<Longrightarrow> it \<in> heapItems P g j \<Longrightarrow> ShardIndex P k (Key it) = j \<and> DB it < maxDBs g \<and> 0 < At it"
  by (simp add: heap_ok_def)

lemma sweepStep_heap:
  "expHeap (shards (snd (sweepStep P i g tp)) j) =
     (if j = i then hp_pop (PH P) (expHeap (shards g i)) else expHeap (shards g j))"
  by (simp add: sweepStep_def Let_def split: option.splits)

lemma sweepStep_removes:
  assumes ok: "heap_ok P k g" and tp: "hp_peek (PH P) (expHeap (shards g i)) = Some tp" and now: "At tp \<le> now"
  shows "removes P k (\<lambda>e. due e now) g (snd (sweepStep P i g tp))"
proof -
  let ?g1 = "upd_shard i (\<lambda>s. s\<lparr>expHeap := hp_pop (PH P) (expHeap s)\<rparr>) g"
  have it: "ShardIndex P k (Key tp) = i" "DB tp < maxDBs g" "0 < At tp"
    using heap_ok_item [OF ok, of tp i] hp_peek_mem [OF tp] by (auto simp: heapItems_def)
  have g1: "removes P k (\<lambda>e. due e now) g ?g1"
    by (rule removes.quiet_step [OF removes.refl]) simp
  show ?thesis
  proof (cases "\<exists>a. search P ?g1 (DB tp) (Key tp) = Some a \<and> ExpireAtMs (ents ?g1 a) = At tp \<and> ExpGen (ents ?g1 a) = Gen tp")
    case True
    then obtain a where a: "search P ?g1 (DB tp) (Key tp) = Some a" "ExpireAtMs (ents ?g1 a) = At tp" "ExpGen (ents ?g1 a) = Gen tp"
      by blast
    have "due (ents ?g1 a) now" using a(2) it(3) now by (simp add: due_def)
    then have "removes P k (\<lambda>e. due e now) g (dropEntry P (ShardIndex P k (Key tp)) ?g1 (DB tp) (Key tp) a)"
      using it(2) a(1) by (intro removes.drop_step [OF g1]) simp_all
    then have "removes P k (\<lambda>e. due e now) g (expireEntry P i ?g1 (DB tp) (Key tp) a)"
      unfolding it(1) by (rule removes.quiet_step) (simp add: quiet_def expireEntry_def Let_def keyGone_def)
    then show ?thesis using a by (simp add: sweepStep_def Let_def)
  next
    case False
    then have "snd (sweepStep P i g tp) = ?g1"
      by (auto simp: sweepStep_def Let_def split: option.splits)
    then show ?thesis using g1 by simp
  qed
qed

lemma sweepStep_search:
  assumes "search P (snd (sweepStep P i g tp)) d x = Some a"
  shows "search P g d x = Some a" and "\<not> (DB tp = d \<and> Key tp = x \<and> ExpireAtMs (ents g a) = At tp \<and> ExpGen (ents g a) = Gen tp)"
  using assms by (auto simp: sweepStep_def Let_def search_expireEntry split: option.splits if_splits)

lemma sweepStep_ents [simp]:
  "ents (snd (sweepStep P i g tp)) = ents g" "maxDBs (snd (sweepStep P i g tp)) = maxDBs g"
  by (simp_all add: sweepStep_def Let_def split: option.splits)

lemma sweepStep_heap_ok:
  assumes ok: "heap_ok P k g" and tp: "hp_peek (PH P) (expHeap (shards g i)) = Some tp"
  shows "heap_ok P k (snd (sweepStep P i g tp))"
proof -
  let ?g = "snd (sweepStep P i g tp)"
  have items: "heapItems P g j = (if j = i then insert tp (heapItems P ?g j) else heapItems P ?g j)" for j
    using pop_items(1) [OF tp] by (simp add: heapItems_def sweepStep_heap)
  have "itemOf d x e \<in> heapItems P ?g (ShardIndex P k x)"
    if e: "view P ?g d x = Some e" "0 < ExpireAtMs e" for d x e
  proof -
    from e(1) obtain a where a: "search P ?g d x = Some a" and ea: "e = ents g a"
      by (auto simp: view_def)
    have "view P g d x = Some e" using sweepStep_search(1) [OF a] ea by (simp add: view_def)
    then have "itemOf d x e \<in> heapItems P g (ShardIndex P k x)" using ok e(2) by (simp add: heap_ok_def)
    moreover have "itemOf d x e \<noteq> tp" using sweepStep_search(2) [OF a] ea by (auto simp: itemOf_def)
    ultimately show ?thesis using items [of "ShardIndex P k x"] by (auto split: if_splits)
  qed
  moreover have "\<forall>j. \<forall>it \<in> heapItems P ?g j. ShardIndex P k (Key it) = j \<and> DB it < maxDBs ?g \<and> 0 < At it"
  proof (intro allI ballI)
    fix j it assume "it \<in> heapItems P ?g j"
    then have "it \<in> heapItems P g j" by (auto simp: items)
    then show "ShardIndex P k (Key it) = j \<and> DB it < maxDBs ?g \<and> 0 < At it"
      using heap_ok_item [OF ok] by simp
  qed
  ultimately show ?thesis by (simp add: heap_ok_def)
qed

section \<open>The whole sweep\<close>

text \<open>With more fuel than heap items the loop always returns.\<close>

lemma sweep_loop_terminates:
  "length (hp_all (PH P) (expHeap (shards g i))) < fuel \<Longrightarrow>
     sweep_loop P i now limit late fuel popped expired g \<noteq> None"
proof (induction fuel arbitrary: popped expired g)
  case 0
  then show ?case by simp
next
  case (Suc fuel)
  have "sweep_loop P i now limit late fuel p q (snd (sweepStep P i g tp)) \<noteq> None"
    if tp: "hp_peek (PH P) (expHeap (shards g i)) = Some tp" for p q tp
    using Suc.prems pop_items(2) [OF tp] by (intro Suc.IH) (simp add: sweepStep_heap)
  then show ?case
    by (simp add: sweep_loop_Suc split_beta Let_def del: not_None_eq split: option.split)
qed

lemma sweep_loop_spec:
  assumes "sweep_loop P i now limit late fuel popped expired g = Some ((n, pressure), g')" "heap_ok P k g"
  shows "removes P k (\<lambda>e. due e now) g g' \<and> heap_ok P k g' \<and> (\<forall>j. j \<noteq> i \<longrightarrow> heapItems P g' j = heapItems P g j) \<and>
    (limit < 0 \<longrightarrow> (\<forall>p. \<not> late p) \<longrightarrow> \<not> pressure \<and> (\<forall>it \<in> heapItems P g' i. now < At it))"
  using assms
proof (induction fuel arbitrary: popped expired g)
  case 0
  then show ?case by simp
next
  case (Suc fuel)
  let ?h = "expHeap (shards g i)"
  show ?case
  proof (cases "\<exists>tp. hp_peek (PH P) ?h = Some tp \<and> At tp \<le> now \<and> (limit < 0 \<or> int popped < limit) \<and> \<not> (0 < popped \<and> late popped)")
    case True
    then obtain tp where tp: "hp_peek (PH P) ?h = Some tp" "At tp \<le> now" and
      go: "limit < 0 \<or> int popped < limit" "\<not> (0 < popped \<and> late popped)" by blast
    let ?g = "snd (sweepStep P i g tp)"
    have loop: "sweep_loop P i now limit late fuel (Suc popped) (if fst (sweepStep P i g tp) then Suc expired else expired) ?g =
        Some ((n, pressure), g')"
      using Suc.prems(1) tp go by (simp add: sweep_loop_Suc split_beta Let_def split: if_splits)
    note IH = Suc.IH [OF loop sweepStep_heap_ok [OF Suc.prems(2) tp(1)]]
    have "removes P k (\<lambda>e. due e now) g g'"
      using IH sweepStep_removes [OF Suc.prems(2) tp] by (blast intro: removes_trans)
    then show ?thesis using IH by (simp add: heapItems_def sweepStep_heap)
  next
    case False
    have g': "g' = g" and quick: "limit < 0 \<Longrightarrow> \<forall>p. \<not> late p \<Longrightarrow> \<not> pressure \<and> (\<forall>tp. hp_peek (PH P) ?h = Some tp \<longrightarrow> now < At tp)"
      using Suc.prems(1) False by (auto simp: sweep_loop_Suc split: option.splits if_splits)
    have "\<forall>it \<in> heapItems P g i. now < At it" if "limit < 0" "\<forall>p. \<not> late p"
    proof (cases "hp_peek (PH P) ?h")
      case None
      then show ?thesis using hp_peek_None [of ?h] by (simp add: heapItems_def)
    next
      case (Some tp)
      show ?thesis
      proof
        fix it assume "it \<in> heapItems P g i"
        then have "At tp \<le> At it" using cmpExpItem_At [OF hp_peek_min [OF Some]] by (simp add: heapItems_def)
        then show "now < At it" using quick [OF that] Some by simp
      qed
    qed
    then show ?thesis using Suc.prems(2) quick unfolding g' by (blast intro: removes.refl)
  qed
qed

lemma sweep_total:
  obtains n pressure g' where "sweep P i now limit late g = Some ((n, pressure), g')"
proof -
  have "sweep P i now limit late g \<noteq> None"
    unfolding sweep_def by (rule sweep_loop_terminates) (simp add: hp_len_all)
  then show ?thesis using that by (cases "sweep P i now limit late g") auto
qed

lemma sweep_spec:
  assumes "sweep P i now limit late g = Some ((n, pressure), g')" "heap_ok P k g"
  shows "removes P k (\<lambda>e. due e now) g g'" "heap_ok P k g'"
  using sweep_loop_spec [OF assms(1) [unfolded sweep_def] assms(2)] by simp_all

text \<open>An unbounded sweep without a deadline leaves no due entry on the shard.\<close>

lemma sweep_complete:
  assumes "sweep P i now (-1) (\<lambda>_. False) g = Some ((n, pressure), g')" "heap_ok P k g"
    and "view P g' d x = Some e" "ShardIndex P k x = i"
  shows "\<not> due e now"
proof
  assume due: "due e now"
  note spec = sweep_loop_spec [OF assms(1) [unfolded sweep_def] assms(2)]
  have "itemOf d x e \<in> heapItems P g' i"
    using spec assms(3,4) due unfolding heap_ok_def due_def by blast
  then have "now < At (itemOf d x e)" using spec by auto
  then show False using due by (simp add: itemOf_def due_def)
qed

lemma removes_due_live:
  assumes "removes P k (\<lambda>e. due e (NowMs g)) g g'" "eng_inv P k g"
  shows "live P g' = live P g"
proof (intro ext)
  fix d x
  have "NowMs g' = NowMs g" using removes_keeps [OF assms] by (simp add: conf_eq_def)
  then show "live P g' d x = live P g d x"
    using removes_view [OF assms, of d x] by (cases "view P g d x") (auto simp: live_def)
qed

lemma sweepAll_spec:
  assumes "eng_inv P k g" "heap_ok P k g"
  shows "removes P k (\<lambda>e. due e (NowMs g)) g (sweepAll P g i)" "heap_ok P k (sweepAll P g i)"
    and "ShardIndex P k x = i \<Longrightarrow> view P (sweepAll P g i) d x = live P g d x"
proof -
  obtain n pr g' where s: "sweep P i (NowMs g) (-1) (\<lambda>_. False) g = Some ((n, pr), g')" by (rule sweep_total)
  then have g': "sweepAll P g i = g'" by (simp add: sweepAll_def)
  note sp = sweep_spec [OF s assms(2)]
  show "removes P k (\<lambda>e. due e (NowMs g)) g (sweepAll P g i)" "heap_ok P k (sweepAll P g i)"
    using sp by (simp_all add: g')
  assume x: "ShardIndex P k x = i"
  have now: "NowMs g' = NowMs g" using removes_keeps [OF sp(1) assms(1)] by (simp add: conf_eq_def)
  have "live P g' d x = view P g' d x"
    using sweep_complete [OF s assms(2) _ x, of d] now by (simp add: live_def split: option.split)
  then show "view P (sweepAll P g i) d x = live P g d x"
    using removes_due_live [OF sp(1) assms(1)] by (simp add: g')
qed

section \<open>DBSIZE\<close>

lemma stripe_len_card:
  assumes "kbits g = k"
  shows "th_stripe_len (PT P) (dbs g db) i = card (stripeKeys P g i db)"
proof -
  have "stripeKeys P g i db = fst ` set (th_stripe (PT P) (dbs g db) i)"
    using assms by (force simp: stripeKeys_def view_def search_def stripe_set image_iff)
  then show ?thesis using distinct_card [OF stripe_distinct] by (simp add: stripe_len)
qed

lemma dbsize_loop_spec:
  assumes "eng_inv P k g" "heap_ok P k g"
  shows "fst (dbsize_loop P db js tot g) = tot + (\<Sum>i \<leftarrow> js. card {x \<in> liveKeys P g db. ShardIndex P k x = i})"
  using assms
proof (induction js arbitrary: tot g)
  case Nil
  then show ?case by simp
next
  case (Cons i js)
  let ?g = "sweepAll P g i"
  note sw = sweepAll_spec [OF Cons.prems, where i = i]
  note keep = removes_keeps [OF sw(1) Cons.prems(1)]
  have k: "kbits ?g = k" "NowMs ?g = NowMs g" using keep eng_invD(1) [OF Cons.prems(1)] by (simp_all add: conf_eq_def)
  have live: "live P ?g = live P g" using removes_due_live [OF sw(1) Cons.prems(1)] .
  have "stripeKeys P ?g i db = {x \<in> liveKeys P g db. ShardIndex P k x = i}"
    using k(1) sw(3) by (auto simp: stripeKeys_def liveKeys_def)
  then have "th_stripe_len (PT P) (dbs ?g db) i = card {x \<in> liveKeys P g db. ShardIndex P k x = i}"
    using stripe_len_card [OF k(1)] by simp
  then show ?case using Cons.IH [of ?g] keep sw(2) live by (simp add: Let_def liveKeys_def)
qed

lemma finite_view: "kbits g = k \<Longrightarrow> k \<le> 64 \<Longrightarrow> finite {x. view P g db x \<noteq> None}"
proof -
  assume k: "kbits g = k" "k \<le> 64"
  have "{x. view P g db x \<noteq> None} = (\<Union>i < 2 ^ k. stripeKeys P g i db)"
    using k ShardIndex_less [OF k(2), of P] by (auto simp: stripeKeys_def)
  then show ?thesis using finite_stripeKeys [OF k(1)] by simp
qed

lemma DBSizeTok_spec:
  assumes "eng_inv P k g" "heap_ok P k g" "shardCount g = 2 ^ k" "k \<le> 64"
  shows "fst (DBSizeTok P g db) = card (liveKeys P g db)"
proof -
  let ?A = "\<lambda>i. {x \<in> liveKeys P g db. ShardIndex P k x = i}"
  have "liveKeys P g db \<subseteq> {x. view P g db x \<noteq> None}" by (auto simp: liveKeys_def live_def split: option.splits)
  then have fin: "finite (liveKeys P g db)"
    using finite_view [OF eng_invD(1) [OF assms(1)] assms(4)] by (rule finite_subset)
  have "fst (DBSizeTok P g db) = (\<Sum>i < 2 ^ k. card (?A i))"
    using dbsize_loop_spec [OF assms(1,2)] assms(3)
    by (simp add: DBSizeTok_def sum_list_sum_nth atLeast0LessThan)
  also have "\<dots> = card (\<Union>i < 2 ^ k. ?A i)"
    using fin by (intro card_UN_disjoint [symmetric]) auto
  also have "(\<Union>i < 2 ^ k. ?A i) = liveKeys P g db" using ShardIndex_less [OF assms(4), of P] by auto
  finally show ?thesis .
qed

end

text \<open>The adaptive cadence stays between the floor and the base period.\<close>

lemma nextSweepInterval_bounds:
  assumes "0 < SweepFloor s" "SweepFloor s \<le> SweepInterval s" "SweepFloor s \<le> cur" "cur \<le> SweepInterval s"
  shows "SweepFloor s \<le> nextSweepInterval s cur n pressure"
    and "nextSweepInterval s cur n pressure \<le> SweepInterval s"
  using assms quot_nonneg [of cur 2] by (auto simp: nextSweepInterval_def)

end
