(* ===== verification/Eviction.thy ===== *)
theory Eviction
  imports Expiry
begin

text \<open>
  Eviction under \<^verbatim>\<open>maxmemory\<close> (\<^verbatim>\<open>src/lib/shard/evict.go\<close>): victim selection for the eight policies,
  the bounded loop that runs after every task, the warm-up of the trackers and the verdict of
  the out-of-memory gate.

  The lemmas show that eviction is a sequence of removals of present keys: the engine
  invariant is kept, no key is created or changed, a volatile policy never removes a key
  without an expiry, and the loop stops under its quota, without a victim, or at its bound.
  The package documents that a stripe sample may contain duplicates; for the two random
  policies the lemmas assume that it does not (a duplicate of an overdue key would be removed
  twice and its memory subtracted twice).
\<close>

section \<open>Policies\<close>

definition policyName :: "EvictPolicy \<Rightarrow> string" where
  "policyName p =
     (case p of
        PolicyNoEviction \<Rightarrow> ''noeviction''
      | PolicyVolatileLRU \<Rightarrow> ''volatile-lru''
      | PolicyVolatileLFU \<Rightarrow> ''volatile-lfu''
      | PolicyVolatileRandom \<Rightarrow> ''volatile-random''
      | PolicyVolatileTTL \<Rightarrow> ''volatile-ttl''
      | PolicyAllKeysLRU \<Rightarrow> ''allkeys-lru''
      | PolicyAllKeysLFU \<Rightarrow> ''allkeys-lfu''
      | PolicyAllKeysRandom \<Rightarrow> ''allkeys-random'')"

definition allPolicies :: "EvictPolicy list" where
  "allPolicies = [PolicyNoEviction, PolicyVolatileLRU, PolicyVolatileLFU, PolicyVolatileRandom,
     PolicyVolatileTTL, PolicyAllKeysLRU, PolicyAllKeysLFU, PolicyAllKeysRandom]"

text \<open>
  \<^verbatim>\<open>strings.EqualFold\<close> against an ASCII name. Besides the two cases of a letter, Unicode simple
  folding equates U+017F (bytes C5 BF) with \<^verbatim>\<open>s\<close> and U+212A (bytes E2 84 AA) with \<^verbatim>\<open>k\<close>.
\<close>

fun EqualFold :: "string \<Rightarrow> string \<Rightarrow> bool" where
  "EqualFold [] [] = True"
| "EqualFold (a # as) (b # bs) =
     (if byte a < 128 then lower_byte a = lower_byte b \<and> EqualFold as bs
      else
        case a # as of
          a1 # a2 # a3 # as' \<Rightarrow>
            if byte a1 = 0xC5 \<and> byte a2 = 0xBF then lower_byte b = CHR ''s'' \<and> EqualFold (a3 # as') bs
            else byte a1 = 0xE2 \<and> byte a2 = 0x84 \<and> byte a3 = 0xAA \<and> lower_byte b = CHR ''k'' \<and> EqualFold as' bs
        | a1 # a2 # [] \<Rightarrow> byte a1 = 0xC5 \<and> byte a2 = 0xBF \<and> lower_byte b = CHR ''s'' \<and> EqualFold [] bs
        | _ \<Rightarrow> False)"
| "EqualFold _ _ = False"

definition ParseEvictPolicy :: "string \<Rightarrow> EvictPolicy \<times> bool" where
  "ParseEvictPolicy v =
     (case find (\<lambda>p. EqualFold v (policyName p)) allPolicies of
        Some p \<Rightarrow> (p, True)
      | None \<Rightarrow> (PolicyNoEviction, False))"

section \<open>Victims\<close>

definition evictEntry ::
  "('q, 'z, 't, 'h, 'l, 'f) packages \<Rightarrow> nat \<Rightarrow> ('q, 'z, 't, 'h, 'l, 'f) st \<Rightarrow> nat \<Rightarrow> string \<Rightarrow> addr \<Rightarrow> bool \<times> ('q, 'z, 't, 'h, 'l, 'f) st" where
  "evictEntry P i g db key a =
     (if due (ents g a) (NowMs g) then (False, expireEntry P i g db key a)
      else
        let g1 = dropEntry P i g db key a
        in (True, keyGone (g1\<lparr>EvictedKeys := Suc (EvictedKeys g1)\<rparr>) db key ''evicted''))"

text \<open>\<open>vol\<close> selects the tracker: \<^verbatim>\<open>evictOne\<close> passes \<^verbatim>\<open>lruVol\<close> with true and \<^verbatim>\<open>lruAll\<close> with false.\<close>

definition lruOf :: "bool \<Rightarrow> ('h, 'l, 'f) shard \<Rightarrow> 'l" where
  "lruOf vol s = (if vol then lruVol s else lruAll s)"

definition set_lru :: "bool \<Rightarrow> 'l \<Rightarrow> ('h, 'l, 'f) shard \<Rightarrow> ('h, 'l, 'f) shard" where
  "set_lru vol l s = (if vol then s\<lparr>lruVol := l\<rparr> else s\<lparr>lruAll := l\<rparr>)"

fun evictLRU ::
  "('q, 'z, 't, 'h, 'l, 'f) packages \<Rightarrow> nat \<Rightarrow> bool \<Rightarrow> nat \<Rightarrow> ('q, 'z, 't, 'h, 'l, 'f) st \<Rightarrow> bool \<times> ('q, 'z, 't, 'h, 'l, 'f) st" where
  "evictLRU P i vol 0 g = (False, g)"
| "evictLRU P i vol (Suc n) g =
     (case lru_pop_oldest (PL P) (lruOf vol (shards g i)) of
        None \<Rightarrow> (False, g)
      | Some (kk, l) \<Rightarrow>
          let g1 = upd_shard i (set_lru vol l) g
          in case search P g1 (fst kk) (snd kk) of
               None \<Rightarrow> evictLRU P i vol n g1
             | Some a \<Rightarrow>
                 if vol \<and> ExpireAtMs (ents g1 a) = 0 then evictLRU P i vol n g1
                 else
                   let (ok, g2) = evictEntry P i g1 (fst kk) (snd kk) a
                   in if ok then (True, g2) else evictLRU P i vol n g2)"

definition sampleStripe ::
  "('q, 'z, 't, 'h, 'l, 'f) packages \<Rightarrow> nat \<Rightarrow> nat \<Rightarrow> ('q, 'z, 't, 'h, 'l, 'f) st \<Rightarrow> (string \<times> addr) list \<times> ('q, 'z, 't, 'h, 'l, 'f) st" where
  "sampleStripe P i db g =
     (let (items, r) = th_sample (PT P) (dbs g db) i (EvictSamples g) (rng (shards g i))
      in (items, upd_shard i (\<lambda>s. s\<lparr>rng := r\<rparr>) g))"

text \<open>The best candidate so far: database, key, entry and counter.\<close>

type_synonym victim = "(nat \<times> string \<times> addr \<times> nat) option"

fun lfuItems ::
  "('q, 'z, 't, 'h, 'l, 'f) packages \<Rightarrow> nat \<Rightarrow> bool \<Rightarrow> nat \<Rightarrow> ('q, 'z, 't, 'h, 'l, 'f) st \<Rightarrow> (string \<times> addr) list \<Rightarrow> victim \<Rightarrow> victim" where
  "lfuItems P i vol db g [] best = best"
| "lfuItems P i vol db g (it # its) best =
     (if vol \<and> ExpireAtMs (ents g (snd it)) = 0 then lfuItems P i vol db g its best
      else
        let cnt = (case lfu_counter (PF P) (if vol then lfuVol (shards g i) else lfuAll (shards g i)) (db, fst it) of
                     Some c \<Rightarrow> c | None \<Rightarrow> 0);
            best' = (case best of
                       None \<Rightarrow> Some (db, fst it, snd it, cnt)
                     | Some (_, _, _, bc) \<Rightarrow> if cnt < bc then Some (db, fst it, snd it, cnt) else best)
        in lfuItems P i vol db g its best')"

fun lfuScan ::
  "('q, 'z, 't, 'h, 'l, 'f) packages \<Rightarrow> nat \<Rightarrow> bool \<Rightarrow> nat list \<Rightarrow> ('q, 'z, 't, 'h, 'l, 'f) st \<Rightarrow> victim \<Rightarrow> victim \<times> ('q, 'z, 't, 'h, 'l, 'f) st" where
  "lfuScan P i vol [] g best = (best, g)"
| "lfuScan P i vol (db # ds) g best =
     (let (items, g1) = sampleStripe P i db g
      in lfuScan P i vol ds g1 (lfuItems P i vol db g1 items best))"

definition evictLFU ::
  "('q, 'z, 't, 'h, 'l, 'f) packages \<Rightarrow> nat \<Rightarrow> bool \<Rightarrow> ('q, 'z, 't, 'h, 'l, 'f) st \<Rightarrow> bool \<times> ('q, 'z, 't, 'h, 'l, 'f) st" where
  "evictLFU P i vol g =
     (case lfuScan P i vol [0..<maxDBs g] g None of
        (None, g1) \<Rightarrow> (False, g1)
      | (Some (db, key, a, _), g1) \<Rightarrow> evictEntry P i g1 db key a)"

fun evictTTL ::
  "('q, 'z, 't, 'h, 'l, 'f) packages \<Rightarrow> nat \<Rightarrow> nat \<Rightarrow> ('q, 'z, 't, 'h, 'l, 'f) st \<Rightarrow> bool \<times> ('q, 'z, 't, 'h, 'l, 'f) st" where
  "evictTTL P i 0 g = (False, g)"
| "evictTTL P i (Suc n) g =
     (case hp_peek (PH P) (expHeap (shards g i)) of
        None \<Rightarrow> (False, g)
      | Some tp \<Rightarrow>
          let g1 = upd_shard i (\<lambda>s. s\<lparr>expHeap := hp_pop (PH P) (expHeap s)\<rparr>) g
          in case search P g1 (DB tp) (Key tp) of
               None \<Rightarrow> evictTTL P i n g1
             | Some a \<Rightarrow>
                 if ExpireAtMs (ents g1 a) \<noteq> At tp \<or> ExpGen (ents g1 a) \<noteq> Gen tp then evictTTL P i n g1
                 else if ExpireAtMs (ents g1 a) \<le> NowMs g1
                 then evictTTL P i n (expireEntry P i g1 (DB tp) (Key tp) a)
                 else (True, snd (evictEntry P i g1 (DB tp) (Key tp) a)))"

fun randomItems ::
  "('q, 'z, 't, 'h, 'l, 'f) packages \<Rightarrow> nat \<Rightarrow> bool \<Rightarrow> nat \<Rightarrow> (string \<times> addr) list \<Rightarrow> ('q, 'z, 't, 'h, 'l, 'f) st \<Rightarrow> bool \<times> ('q, 'z, 't, 'h, 'l, 'f) st" where
  "randomItems P i vol db [] g = (False, g)"
| "randomItems P i vol db (it # its) g =
     (if vol \<and> ExpireAtMs (ents g (snd it)) = 0 then randomItems P i vol db its g
      else
        let (ok, g1) = evictEntry P i g db (fst it) (snd it)
        in if ok then (True, g1) else randomItems P i vol db its g1)"

fun randomDBs ::
  "('q, 'z, 't, 'h, 'l, 'f) packages \<Rightarrow> nat \<Rightarrow> bool \<Rightarrow> nat list \<Rightarrow> ('q, 'z, 't, 'h, 'l, 'f) st \<Rightarrow> bool \<times> ('q, 'z, 't, 'h, 'l, 'f) st" where
  "randomDBs P i vol [] g = (False, g)"
| "randomDBs P i vol (db # ds) g =
     (let (items, g1) = sampleStripe P i db g;
          (ok, g2) = randomItems P i vol db items g1
      in if ok then (True, g2) else randomDBs P i vol ds g2)"

definition evictRandom ::
  "('q, 'z, 't, 'h, 'l, 'f) packages \<Rightarrow> nat \<Rightarrow> bool \<Rightarrow> ('q, 'z, 't, 'h, 'l, 'f) st \<Rightarrow> bool \<times> ('q, 'z, 't, 'h, 'l, 'f) st" where
  "evictRandom P i vol g = randomDBs P i vol [0..<maxDBs g] g"

definition evictOne ::
  "('q, 'z, 't, 'h, 'l, 'f) packages \<Rightarrow> nat \<Rightarrow> EvictPolicy \<Rightarrow> ('q, 'z, 't, 'h, 'l, 'f) st \<Rightarrow> bool \<times> ('q, 'z, 't, 'h, 'l, 'f) st" where
  "evictOne P i pol g =
     (case pol of
        PolicyAllKeysLRU \<Rightarrow> evictLRU P i False (2 * EvictSamples g) g
      | PolicyVolatileLRU \<Rightarrow> evictLRU P i True (2 * EvictSamples g) g
      | PolicyAllKeysLFU \<Rightarrow> evictLFU P i False g
      | PolicyVolatileLFU \<Rightarrow> evictLFU P i True g
      | PolicyVolatileTTL \<Rightarrow> evictTTL P i (2 * EvictSamples g) g
      | PolicyAllKeysRandom \<Rightarrow> evictRandom P i False g
      | PolicyVolatileRandom \<Rightarrow> evictRandom P i True g
      | PolicyNoEviction \<Rightarrow> (False, g))"

section \<open>The loop\<close>

fun warmItems ::
  "('q, 'z, 't, 'h, 'l, 'f) packages \<Rightarrow> nat \<Rightarrow> nat \<Rightarrow> (string \<times> addr) list \<Rightarrow> ('q, 'z, 't, 'h, 'l, 'f) st \<Rightarrow> ('q, 'z, 't, 'h, 'l, 'f) st" where
  "warmItems P i d [] g = g"
| "warmItems P i d (it # its) g =
     (let kk = (d, fst it);
          g1 = upd_shard i (\<lambda>s. s\<lparr>lruAll := lru_put (PL P) (lruAll s) kk\<rparr>) g
      in warmItems P i d its
           (if 0 < ExpireAtMs (ents g (snd it))
            then upd_shard i (\<lambda>s. s\<lparr>lruVol := lru_put (PL P) (lruVol s) kk\<rparr>) g1 else g1))"

fun warmEvictTrackers ::
  "('q, 'z, 't, 'h, 'l, 'f) packages \<Rightarrow> nat \<Rightarrow> nat list \<Rightarrow> ('q, 'z, 't, 'h, 'l, 'f) st \<Rightarrow> ('q, 'z, 't, 'h, 'l, 'f) st" where
  "warmEvictTrackers P i [] g = g"
| "warmEvictTrackers P i (d # ds) g =
     warmEvictTrackers P i ds (warmItems P i d (th_stripe (PT P) (dbs g d) i) g)"

text \<open>
  The loop of \<^verbatim>\<open>maybeEvict\<close>. \<open>left\<close> counts down what the source counts up in \<^verbatim>\<open>guard\<close>: the loop
  returns after the eviction that takes \<^verbatim>\<open>guard\<close> above \<^verbatim>\<open>4*EvictSamples+64\<close>.
\<close>

fun evict_loop ::
  "('q, 'z, 't, 'h, 'l, 'f) packages \<Rightarrow> nat \<Rightarrow> EvictPolicy \<Rightarrow> int \<Rightarrow> nat \<Rightarrow> ('q, 'z, 't, 'h, 'l, 'f) st \<Rightarrow> ('q, 'z, 't, 'h, 'l, 'f) st" where
  "evict_loop P i pol quota 0 g = g"
| "evict_loop P i pol quota (Suc left) g =
     (if usedTotal (shards g i) \<le> quota then g
      else
        let (ok, g1) = evictOne P i pol g
        in if ok then evict_loop P i pol quota left g1 else g1)"

definition maybeEvict ::
  "('q, 'z, 't, 'h, 'l, 'f) packages \<Rightarrow> nat \<Rightarrow> ('q, 'z, 't, 'h, 'l, 'f) st \<Rightarrow> ('q, 'z, 't, 'h, 'l, 'f) st" where
  "maybeEvict P i g =
     (if maxMemory g \<le> 0 then upd_shard i (\<lambda>s. s\<lparr>trackWarm := False\<rparr>) g
      else
        let g1 = (if trackWarm (shards g i) then g
                  else upd_shard i (\<lambda>s. s\<lparr>trackWarm := True\<rparr>) (warmEvictTrackers P i [0..<maxDBs g] g))
        in if policy g = PolicyNoEviction then g1
           else evict_loop P i (policy g) (quot (maxMemory g) (int (shardCount g))) (4 * EvictSamples g + 65) g1)"

definition UsedBytes :: "('q, 'z, 't, 'h, 'l, 'f) st \<Rightarrow> int" where
  "UsedBytes g = (\<Sum>i \<leftarrow> [0..<shardCount g]. usedTotal (shards g i))"

definition OverMemory :: "('q, 'z, 't, 'h, 'l, 'f) st \<Rightarrow> bool" where
  "OverMemory g = (0 < maxMemory g \<and> maxMemory g < UsedBytes g)"

fun evictNow_loop ::
  "('q, 'z, 't, 'h, 'l, 'f) packages \<Rightarrow> int \<Rightarrow> nat list \<Rightarrow> bool \<Rightarrow> ('q, 'z, 't, 'h, 'l, 'f) st \<Rightarrow> bool \<times> ('q, 'z, 't, 'h, 'l, 'f) st" where
  "evictNow_loop P quota [] over g = (over, g)"
| "evictNow_loop P quota (i # js) over g =
     (let g1 = maybeEvict P i g;
          over' = (over \<or> quota < usedTotal (shards g1 i));
          g2 = maybeEvict P i g1
      in evictNow_loop P quota js over' g2)"

text \<open>Every submitted task is followed by its own \<^verbatim>\<open>maybeEvict\<close> (the run and park loops).\<close>

definition EvictNow ::
  "('q, 'z, 't, 'h, 'l, 'f) packages \<Rightarrow> ('q, 'z, 't, 'h, 'l, 'f) st \<Rightarrow> bool \<times> ('q, 'z, 't, 'h, 'l, 'f) st" where
  "EvictNow P g =
     (if maxMemory g \<le> 0 then (False, g)
      else evictNow_loop P (quot (maxMemory g) (int (shardCount g))) [0..<shardCount g] False g)"

section \<open>Invariant of a serving shard\<close>

definition lruKeys :: "('q, 'z, 't, 'h, 'l, 'f) packages \<Rightarrow> ('q, 'z, 't, 'h, 'l, 'f) st \<Rightarrow> nat \<Rightarrow> tombKey set" where
  "lruKeys P g j = set (lru_keys (PL P) (lruAll (shards g j))) \<union> set (lru_keys (PL P) (lruVol (shards g j)))"

definition lru_ok :: "('q, 'z, 't, 'h, 'l, 'f) packages \<Rightarrow> nat \<Rightarrow> ('q, 'z, 't, 'h, 'l, 'f) st \<Rightarrow> bool" where
  "lru_ok P k g \<longleftrightarrow> (\<forall>j. \<forall>x \<in> lruKeys P g j. ShardIndex P k (snd x) = j \<and> fst x < maxDBs g)"

definition shard_ok :: "('q, 'z, 't, 'h, 'l, 'f) packages \<Rightarrow> nat \<Rightarrow> ('q, 'z, 't, 'h, 'l, 'f) st \<Rightarrow> bool" where
  "shard_ok P k g \<longleftrightarrow> eng_inv P k g \<and> heap_ok P k g \<and> lru_ok P k g"

text \<open>A sequence of removals that ends in a state satisfying the invariant.\<close>

definition rm_ok ::
  "('q, 'z, 't, 'h, 'l, 'f) packages \<Rightarrow> nat \<Rightarrow> (('q, 'z) entry \<Rightarrow> bool) \<Rightarrow> ('q, 'z, 't, 'h, 'l, 'f) st \<Rightarrow> ('q, 'z, 't, 'h, 'l, 'f) st \<Rightarrow> bool" where
  "rm_ok P k R g g' \<longleftrightarrow> removes P k R g g' \<and> shard_ok P k g'"

lemma lru_ok_subset:
  "lru_ok P k g \<Longrightarrow> (\<And>j. lruKeys P g' j \<subseteq> lruKeys P g j) \<Longrightarrow> maxDBs g' = maxDBs g \<Longrightarrow> lru_ok P k g'"
  unfolding lru_ok_def by (metis subsetD)

lemma rm_ok_refl: "shard_ok P k g \<Longrightarrow> rm_ok P k R g g"
  by (simp add: rm_ok_def removes.refl)

lemma rm_ok_trans: "rm_ok P k R g g1 \<Longrightarrow> rm_ok P k R g1 g2 \<Longrightarrow> rm_ok P k R g g2"
  by (auto simp: rm_ok_def intro: removes_trans)

lemma rm_ok_shard: "rm_ok P k R g g' \<Longrightarrow> shard_ok P k g'"
  by (simp add: rm_ok_def)

text \<open>A candidate that is present, owned by shard \<open>i\<close>, and whose entry satisfies \<open>R\<close>.\<close>

definition cand_ok ::
  "('q, 'z, 't, 'h, 'l, 'f) packages \<Rightarrow> nat \<Rightarrow> nat \<Rightarrow> (('q, 'z) entry \<Rightarrow> bool) \<Rightarrow> ('q, 'z, 't, 'h, 'l, 'f) st \<Rightarrow> victim \<Rightarrow> bool" where
  "cand_ok P k i R g best \<longleftrightarrow>
     (\<forall>db key a c. best = Some (db, key, a, c) \<longrightarrow>
        search P g db key = Some a \<and> db < maxDBs g \<and> ShardIndex P k key = i \<and> R (ents g a))"

text \<open>The assumption of the random policies on the samples of the table.\<close>

definition samples_distinct :: "('q, 'z, 't, 'h, 'l, 'f) packages \<Rightarrow> bool" where
  "samples_distinct P \<longleftrightarrow> (\<forall>t i n r. distinct (map fst (fst (th_sample (PT P) t i n r))))"

definition is_volatile :: "EvictPolicy \<Rightarrow> bool" where
  "is_volatile p \<longleftrightarrow> p \<in> {PolicyVolatileLRU, PolicyVolatileLFU, PolicyVolatileRandom, PolicyVolatileTTL}"

definition is_random :: "EvictPolicy \<Rightarrow> bool" where
  "is_random p \<longleftrightarrow> p \<in> {PolicyAllKeysRandom, PolicyVolatileRandom}"

context pluto_laws
begin

lemma shard_okD:
  assumes "shard_ok P k g"
  shows "eng_inv P k g" "heap_ok P k g" "lru_ok P k g"
  using assms by (simp_all add: shard_ok_def)

text \<open>Removals that do not touch the heaps and only shrink the recency trackers.\<close>

lemma rm_okI:
  assumes rm: "removes P k R g g'" and ok: "shard_ok P k g"
    and heap: "\<And>j. heapItems P g' j = heapItems P g j"
    and lru: "\<And>j. lruKeys P g' j \<subseteq> lruKeys P g j"
  shows "rm_ok P k R g g'"
proof -
  note keep = removes_keeps [OF rm shard_okD(1) [OF ok]]
  have dbs: "maxDBs g' = maxDBs g" using keep by (simp add: conf_eq_def)
  have sub: "view P g' d x = Some e \<Longrightarrow> view P g d x = Some e" for d x e
    using removes_view [OF rm shard_okD(1) [OF ok], of d x] by auto
  have "heap_ok P k g'"
    using shard_okD(2) [OF ok] sub unfolding heap_ok_def heap dbs by blast
  moreover have "lru_ok P k g'" using shard_okD(3) [OF ok] lru unfolding lru_ok_def dbs by blast
  ultimately show ?thesis using rm keep by (simp add: rm_ok_def shard_ok_def)
qed

lemma lruKeys_dropEntry: "lruKeys P (dropEntry P i g db key a) j \<subseteq> lruKeys P g j"
proof (cases "j = i")
  case True
  have "tombstone i g db key v = upd_shard i (\<lambda>s. (shards (tombstone i g db key v) i)) g" for v
    by (simp add: tombstone_def upd_shard_def)
  then show ?thesis
    by (auto simp: lruKeys_def dropEntry_def untrack_def Let_def lru_delete_keys tombstone_def)
next
  case False
  then show ?thesis by (simp add: lruKeys_def dropEntry_def untrack_def Let_def tombstone_def)
qed

lemma drop_rm_ok:
  assumes ok: "shard_ok P k g" and a: "search P g db key = Some a" "db < maxDBs g" "R (ents g a)"
    and i: "i = ShardIndex P k key" and q: "quiet (dropEntry P i g db key a) g'" "shards g' = shards (dropEntry P i g db key a)"
  shows "rm_ok P k R g g'"
proof (rule rm_okI [OF _ ok])
  have "removes P k R g (dropEntry P i g db key a)"
    unfolding i using a by (intro removes.drop_step [OF removes.refl]) simp_all
  then show "removes P k R g g'" using q(1) by (rule removes.quiet_step)
  show "heapItems P g' j = heapItems P g j" for j by (simp add: heapItems_def q(2))
  show "lruKeys P g' j \<subseteq> lruKeys P g j" for j
    using lruKeys_dropEntry [of i g db key a j] by (simp add: lruKeys_def q(2))
qed

lemma expireEntry_rm_ok:
  assumes "shard_ok P k g" "search P g db key = Some a" "db < maxDBs g" "R (ents g a)" "i = ShardIndex P k key"
  shows "rm_ok P k R g (expireEntry P i g db key a)"
  by (rule drop_rm_ok [where R = R, OF assms]) (simp_all add: quiet_def expireEntry_def Let_def keyGone_def)

lemma evictEntry_rm_ok:
  assumes "shard_ok P k g" "search P g db key = Some a" "db < maxDBs g" "R (ents g a)" "i = ShardIndex P k key"
  shows "rm_ok P k R g (snd (evictEntry P i g db key a))"
proof (cases "due (ents g a) (NowMs g)")
  case True
  then show ?thesis using expireEntry_rm_ok [where R = R, OF assms] by (simp add: evictEntry_def)
next
  case False
  then show ?thesis
    by (intro drop_rm_ok [where R = R, OF assms]) (simp_all add: quiet_def evictEntry_def Let_def keyGone_def)
qed

section \<open>Victim selection\<close>

lemma pop_lru_rm_ok:
  assumes ok: "shard_ok P k g" and pop: "lru_pop_oldest (PL P) (lruOf vol (shards g i)) = Some (kk, l)"
  shows "rm_ok P k R g (upd_shard i (set_lru vol l) g)"
    and "ShardIndex P k (snd kk) = i" "fst kk < maxDBs g"
proof -
  note keys = lru_pop_Some [OF pop]
  have "quiet g (upd_shard i (set_lru vol l) g)" by (simp add: quiet_def set_lru_def)
  then have "removes P k R g (upd_shard i (set_lru vol l) g)" by (rule removes.quiet_step [OF removes.refl])
  then show "rm_ok P k R g (upd_shard i (set_lru vol l) g)"
    using keys by (intro rm_okI [OF _ ok]) (auto simp: heapItems_def lruKeys_def set_lru_def lruOf_def split: if_splits)
  have "kk \<in> lruKeys P g i" using keys by (auto simp: lruKeys_def lruOf_def split: if_splits)
  then show "ShardIndex P k (snd kk) = i" "fst kk < maxDBs g"
    using shard_okD(3) [OF ok] by (auto simp: lru_ok_def)
qed

lemma evictLRU_rm_ok:
  "shard_ok P k g \<Longrightarrow> rm_ok P k (\<lambda>e. vol \<longrightarrow> ExpireAtMs e \<noteq> 0) g (snd (evictLRU P i vol n g))"
proof (induction n arbitrary: g)
  case 0
  then show ?case by (simp add: rm_ok_refl)
next
  case (Suc n)
  let ?R = "\<lambda>e. vol \<longrightarrow> ExpireAtMs e \<noteq> 0"
  show ?case
  proof (cases "lru_pop_oldest (PL P) (lruOf vol (shards g i))")
    case None
    then show ?thesis using Suc.prems by (simp add: rm_ok_refl)
  next
    case (Some r)
    then obtain kk l where pop: "lru_pop_oldest (PL P) (lruOf vol (shards g i)) = Some (kk, l)" by (cases r) simp
    let ?g = "upd_shard i (set_lru vol l) g"
    note p = pop_lru_rm_ok(1) [OF Suc.prems pop, where R = ?R] pop_lru_rm_ok(2,3) [OF Suc.prems pop]
    note IH = rm_ok_trans [OF p(1) Suc.IH [OF rm_ok_shard [OF p(1)]]]
    show ?thesis
    proof (cases "\<exists>a. search P ?g (fst kk) (snd kk) = Some a \<and> ?R (ents ?g a)")
      case True
      then obtain a where a: "search P ?g (fst kk) (snd kk) = Some a" "?R (ents ?g a)" by blast
      have ev: "rm_ok P k ?R ?g (snd (evictEntry P i ?g (fst kk) (snd kk) a))"
        using p a by (intro evictEntry_rm_ok [where R = ?R, OF rm_ok_shard [OF p(1)]]) simp_all
      note IH2 = rm_ok_trans [OF rm_ok_trans [OF p(1) ev] Suc.IH [OF rm_ok_shard [OF ev]]]
      have "snd (evictLRU P i vol (Suc n) g) = snd (evictEntry P i ?g (fst kk) (snd kk) a) \<or>
          snd (evictLRU P i vol (Suc n) g) = snd (evictLRU P i vol n (snd (evictEntry P i ?g (fst kk) (snd kk) a)))"
        using pop a by (auto simp: Let_def split_beta)
      then show ?thesis using rm_ok_trans [OF p(1) ev] IH2 by metis
    next
      case False
      then have "snd (evictLRU P i vol (Suc n) g) = snd (evictLRU P i vol n ?g)"
        using pop by (auto simp: Let_def split: option.split)
      then show ?thesis using IH by metis
    qed
  qed
qed

lemma sampleStripe_rm_ok:
  assumes ok: "shard_ok P k g" and s: "sampleStripe P i db g = (items, g1)"
  shows "rm_ok P k R g g1" and "quiet g g1"
    and "it \<in> set items \<Longrightarrow> search P g1 db (fst it) = Some (snd it) \<and> ShardIndex P k (fst it) = i"
proof -
  have g1: "g1 = upd_shard i (\<lambda>s. s\<lparr>rng := snd (th_sample (PT P) (dbs g db) i (EvictSamples g) (rng (shards g i)))\<rparr>) g"
    and items: "items = fst (th_sample (PT P) (dbs g db) i (EvictSamples g) (rng (shards g i)))"
    using s by (auto simp: sampleStripe_def split_beta Let_def)
  show q: "quiet g g1" by (simp add: quiet_def g1)
  show "rm_ok P k R g g1"
    by (rule rm_okI [OF removes.quiet_step [OF removes.refl q] ok]) (simp_all add: heapItems_def lruKeys_def g1)
  assume "it \<in> set items"
  then have "it \<in> set (th_stripe (PT P) (dbs g db) i)"
    using sample_subset [of "dbs g db" i] unfolding items by blast
  then show "search P g1 db (fst it) = Some (snd it) \<and> ShardIndex P k (fst it) = i"
    unfolding stripe_set by (auto simp: search_def g1)
qed

lemma lfuItems_cand_ok:
  assumes "\<And>it. it \<in> set items \<Longrightarrow> search P g db (fst it) = Some (snd it) \<and> ShardIndex P k (fst it) = i"
    and "db < maxDBs g" "cand_ok P k i (\<lambda>e. vol \<longrightarrow> ExpireAtMs e \<noteq> 0) g best"
  shows "cand_ok P k i (\<lambda>e. vol \<longrightarrow> ExpireAtMs e \<noteq> 0) g (lfuItems P i vol db g items best)"
  using assms
proof (induction items arbitrary: best)
  case Nil
  then show ?case by simp
next
  case (Cons it items)
  let ?C = "cand_ok P k i (\<lambda>e. vol \<longrightarrow> ExpireAtMs e \<noteq> 0) g"
  have new: "?C (Some (db, fst it, snd it, c))" if "\<not> (vol \<and> ExpireAtMs (ents g (snd it)) = 0)" for c
    using that Cons.prems(1) [of it] Cons.prems(2) by (simp add: cand_ok_def)
  obtain b where b: "lfuItems P i vol db g (it # items) best = lfuItems P i vol db g items b"
    and "b = best \<or> (\<not> (vol \<and> ExpireAtMs (ents g (snd it)) = 0) \<and> (\<exists>c. b = Some (db, fst it, snd it, c)))"
    unfolding lfuItems.simps Let_def
    by (cases "vol \<and> ExpireAtMs (ents g (snd it)) = 0"; cases best) (auto split: prod.splits if_splits)
  then have "?C b" using new Cons.prems(3) by blast
  then show ?case unfolding b using Cons.IH Cons.prems(1,2) by simp
qed

lemma lfuScan_rm_ok:
  assumes "shard_ok P k g" "cand_ok P k i (\<lambda>e. vol \<longrightarrow> ExpireAtMs e \<noteq> 0) g best" "\<And>d. d \<in> set ds \<Longrightarrow> d < maxDBs g"
  shows "rm_ok P k R g (snd (lfuScan P i vol ds g best)) \<and>
    cand_ok P k i (\<lambda>e. vol \<longrightarrow> ExpireAtMs e \<noteq> 0) (snd (lfuScan P i vol ds g best)) (fst (lfuScan P i vol ds g best))"
  using assms
proof (induction ds arbitrary: g best)
  case Nil
  then show ?case by (simp add: rm_ok_refl)
next
  case (Cons db ds)
  obtain items g1 where s: "sampleStripe P i db g = (items, g1)" by (cases "sampleStripe P i db g")
  note sm = sampleStripe_rm_ok [OF Cons.prems(1) s]
  have q: "ents g1 = ents g" "maxDBs g1 = maxDBs g" "search P g1 = search P g"
    using sm(2) quiet_search [OF sm(2)] by (simp_all add: quiet_def)
  have "cand_ok P k i (\<lambda>e. vol \<longrightarrow> ExpireAtMs e \<noteq> 0) g1 best" using Cons.prems(2) q by (simp add: cand_ok_def)
  then have c: "cand_ok P k i (\<lambda>e. vol \<longrightarrow> ExpireAtMs e \<noteq> 0) g1 (lfuItems P i vol db g1 items best)"
    using sm(3) Cons.prems(3) [of db] q by (intro lfuItems_cand_ok) simp_all
  have "shard_ok P k g1" using sm(1) by (rule rm_ok_shard)
  from Cons.IH [OF this c] show ?case
    using Cons.prems(3) q rm_ok_trans [OF sm(1)] by (simp add: s)
qed

lemma evictLFU_rm_ok:
  assumes "shard_ok P k g"
  shows "rm_ok P k (\<lambda>e. vol \<longrightarrow> ExpireAtMs e \<noteq> 0) g (snd (evictLFU P i vol g))"
proof -
  let ?R = "\<lambda>e. vol \<longrightarrow> ExpireAtMs e \<noteq> 0"
  obtain best g1 where sc: "lfuScan P i vol [0..<maxDBs g] g None = (best, g1)"
    by (cases "lfuScan P i vol [0..<maxDBs g] g None")
  have "cand_ok P k i ?R g None" by (simp add: cand_ok_def)
  from lfuScan_rm_ok [OF assms this, of "[0..<maxDBs g]" ?R]
  have g1: "rm_ok P k ?R g g1" and c: "cand_ok P k i ?R g1 best" by (simp_all add: sc)
  show ?thesis
  proof (cases best)
    case None
    then show ?thesis using g1 by (simp add: evictLFU_def sc)
  next
    case (Some v)
    then obtain db key a cn where v: "best = Some (db, key, a, cn)" by (cases v) auto
    then have "search P g1 db key = Some a" "db < maxDBs g1" "?R (ents g1 a)" "i = ShardIndex P k key"
      using c unfolding cand_ok_def by metis+
    from evictEntry_rm_ok [where R = ?R, OF rm_ok_shard [OF g1] this] show ?thesis
      using rm_ok_trans [OF g1] by (simp add: evictLFU_def sc v)
  qed
qed

lemma heap_ok_cong:
  assumes "\<And>j. heapItems P g' j = heapItems P g j" "view P g' = view P g" "maxDBs g' = maxDBs g"
  shows "heap_ok P k g' = heap_ok P k g"
  by (simp add: heap_ok_def assms)

text \<open>One iteration of \<^verbatim>\<open>evictTTL\<close> on the top item, like an iteration of the sweep.\<close>

lemma ttl_pop_rm_ok:
  assumes ok: "shard_ok P k g" and tp: "hp_peek (PH P) (expHeap (shards g i)) = Some tp"
  defines "g1 \<equiv> upd_shard i (\<lambda>s. s\<lparr>expHeap := hp_pop (PH P) (expHeap s)\<rparr>) g"
  shows "\<not> fst (sweepStep P i g tp) \<Longrightarrow> rm_ok P k R g g1"
    and "\<lbrakk>search P g1 (DB tp) (Key tp) = Some a; ExpireAtMs (ents g1 a) = At tp; ExpGen (ents g1 a) = Gen tp;
          g2 = expireEntry P i g1 (DB tp) (Key tp) a \<or> g2 = snd (evictEntry P i g1 (DB tp) (Key tp) a)\<rbrakk> \<Longrightarrow>
        rm_ok P k (\<lambda>e. ExpireAtMs e \<noteq> 0) g g2"
proof -
  have it: "ShardIndex P k (Key tp) = i" "DB tp < maxDBs g" "0 < At tp"
    using heap_ok_item [OF shard_okD(2) [OF ok], of tp i] hp_peek_mem [OF tp] by (auto simp: heapItems_def)
  have q: "quiet g g1" by (simp add: g1_def)
  have rm: "removes P k S g g1" for S by (rule removes.quiet_step [OF removes.refl q])
  have lru: "lruKeys P g1 j = lruKeys P g j" for j by (simp add: g1_def lruKeys_def)
  have l1: "lru_ok P k g1" using shard_okD(3) [OF ok] by (simp add: lru_ok_def lru) (simp add: g1_def)
  note step_ok = sweepStep_heap_ok [OF shard_okD(2) [OF ok] tp]
  {
    assume "\<not> fst (sweepStep P i g tp)"
    then have "snd (sweepStep P i g tp) = g1"
      by (auto simp: sweepStep_def g1_def Let_def split: option.splits if_splits)
    then have "heap_ok P k g1" using step_ok by simp
    then show "rm_ok P k R g g1"
      using rm removes_keeps [OF rm shard_okD(1) [OF ok]] l1 by (simp add: rm_ok_def shard_ok_def)
  next
    assume a: "search P g1 (DB tp) (Key tp) = Some a" "ExpireAtMs (ents g1 a) = At tp" "ExpGen (ents g1 a) = Gen tp"
      and g2: "g2 = expireEntry P i g1 (DB tp) (Key tp) a \<or> g2 = snd (evictEntry P i g1 (DB tp) (Key tp) a)"
    let ?R = "\<lambda>e. ExpireAtMs e \<noteq> 0" and ?d = "dropEntry P i g1 (DB tp) (Key tp) a"
    have step: "snd (sweepStep P i g tp) = expireEntry P i g1 (DB tp) (Key tp) a"
      using a by (simp add: sweepStep_def g1_def Let_def)
    have sh: "shards g2 = shards ?d" "quiet ?d g2" and v: "view P g2 = view P ?d"
      using g2 by (auto simp: expireEntry_def evictEntry_def quiet_def Let_def keyGone_def intro!: view_eqI)
    have dr: "removes P k ?R g ?d"
      using a it removes.drop_step [OF rm, of "DB tp" "Key tp" a ?R] by (simp add: g1_def)
    have rm2: "removes P k ?R g g2" using dr sh(2) by (rule removes.quiet_step)
    have "heap_ok P k g2 = heap_ok P k (snd (sweepStep P i g tp))"
      unfolding step by (rule heap_ok_cong) (use sh in \<open>simp_all add: heapItems_def v view_simps quiet_def\<close>)
    moreover have "lru_ok P k g2"
    proof (rule lru_ok_subset [OF l1])
      show "lruKeys P g2 j \<subseteq> lruKeys P g1 j" for j
        using lruKeys_dropEntry [of i g1 "DB tp" "Key tp" a j] by (simp add: lruKeys_def sh(1))
      show "maxDBs g2 = maxDBs g1" using sh(2) by (simp add: quiet_def)
    qed
    ultimately show "rm_ok P k ?R g g2"
      using step_ok rm2 removes_keeps [OF rm2 shard_okD(1) [OF ok]] by (simp add: rm_ok_def shard_ok_def)
  }
qed

lemma evictTTL_rm_ok:
  "shard_ok P k g \<Longrightarrow> rm_ok P k (\<lambda>e. ExpireAtMs e \<noteq> 0) g (snd (evictTTL P i n g))"
proof (induction n arbitrary: g)
  case 0
  then show ?case by (simp add: rm_ok_refl)
next
  case (Suc n)
  let ?R = "\<lambda>e. ExpireAtMs e \<noteq> 0"
  show ?case
  proof (cases "hp_peek (PH P) (expHeap (shards g i))")
    case None
    then show ?thesis using Suc.prems by (simp add: rm_ok_refl)
  next
    case (Some tp)
    let ?g = "upd_shard i (\<lambda>s. s\<lparr>expHeap := hp_pop (PH P) (expHeap s)\<rparr>) g"
    note pop = ttl_pop_rm_ok [OF Suc.prems Some]
    show ?thesis
    proof (cases "fst (sweepStep P i g tp)")
      case False
      then have "snd (evictTTL P i (Suc n) g) = snd (evictTTL P i n ?g)"
        using Some by (auto simp: sweepStep_def Let_def split: option.splits if_splits)
      moreover note p = pop(1) [OF False, where R = ?R]
      ultimately show ?thesis using rm_ok_trans [OF p Suc.IH [OF rm_ok_shard [OF p]]] by metis
    next
      case True
      then obtain a where a: "search P ?g (DB tp) (Key tp) = Some a" "ExpireAtMs (ents ?g a) = At tp" "ExpGen (ents ?g a) = Gen tp"
        by (auto simp: sweepStep_def Let_def split: option.splits if_splits)
      note ev = pop(2) [OF a]
      have exp: "rm_ok P k ?R g (expireEntry P i ?g (DB tp) (Key tp) a)" by (rule ev) simp
      have evi: "rm_ok P k ?R g (snd (evictEntry P i ?g (DB tp) (Key tp) a))" by (rule ev) simp
      have "snd (evictTTL P i (Suc n) g) = snd (evictTTL P i n (expireEntry P i ?g (DB tp) (Key tp) a)) \<or>
          snd (evictTTL P i (Suc n) g) = snd (evictEntry P i ?g (DB tp) (Key tp) a)"
        using Some a by (auto simp: Let_def)
      then show ?thesis
        by (elim disjE) (simp_all only: evi rm_ok_trans [OF exp Suc.IH [OF rm_ok_shard [OF exp]]])
    qed
  qed
qed

lemma randomItems_rm_ok:
  assumes "shard_ok P k g" "distinct (map fst its)" "db < maxDBs g"
    and "\<And>it. it \<in> set its \<Longrightarrow> search P g db (fst it) = Some (snd it) \<and> ShardIndex P k (fst it) = i"
  shows "rm_ok P k (\<lambda>e. vol \<longrightarrow> ExpireAtMs e \<noteq> 0) g (snd (randomItems P i vol db its g))"
  using assms
proof (induction its arbitrary: g)
  case Nil
  then show ?case by (simp add: rm_ok_refl)
next
  case (Cons it its)
  let ?R = "\<lambda>e. vol \<longrightarrow> ExpireAtMs e \<noteq> 0" and ?g = "snd (evictEntry P i g db (fst it) (snd it))"
  have it: "search P g db (fst it) = Some (snd it)" "i = ShardIndex P k (fst it)" using Cons.prems(4) [of it] by auto
  show ?case
  proof (cases "vol \<and> ExpireAtMs (ents g (snd it)) = 0")
    case True
    then show ?thesis using Cons by simp
  next
    case False
    have ev: "rm_ok P k ?R g ?g"
      using Cons.prems(1,3) it False by (intro evictEntry_rm_ok [where R = ?R]) auto
    have s: "search P ?g d x = (if d = db \<and> x = fst it then None else search P g d x)" for d x
      by (simp add: evictEntry_def Let_def search_expireEntry search_dropEntry)
    have "maxDBs ?g = maxDBs g" by (simp add: evictEntry_def Let_def)
    moreover have "search P ?g db (fst y) = Some (snd y) \<and> ShardIndex P k (fst y) = i" if "y \<in> set its" for y
    proof -
      have "fst y \<in> fst ` set its" using that by simp
      then have "fst y \<noteq> fst it" using Cons.prems(2) by (simp del: image_eqI) metis
      then show ?thesis using that Cons.prems(4) [of y] by (simp add: s)
    qed
    ultimately have "rm_ok P k ?R ?g (snd (randomItems P i vol db its ?g))"
      using Cons.prems(2,3) by (intro Cons.IH rm_ok_shard [OF ev]) simp_all
    note tr = rm_ok_trans [OF ev this]
    have "snd (randomItems P i vol db (it # its) g) = ?g \<or>
        snd (randomItems P i vol db (it # its) g) = snd (randomItems P i vol db its ?g)"
      using False by (auto simp: Let_def split_beta)
    then show ?thesis using ev tr by metis
  qed
qed

lemma evictRandom_rm_ok:
  assumes "shard_ok P k g" "samples_distinct P"
  shows "rm_ok P k (\<lambda>e. vol \<longrightarrow> ExpireAtMs e \<noteq> 0) g (snd (evictRandom P i vol g))"
proof -
  let ?R = "\<lambda>e. vol \<longrightarrow> ExpireAtMs e \<noteq> 0"
  have "rm_ok P k ?R g (snd (randomDBs P i vol ds g))" if "shard_ok P k g" "\<And>d. d \<in> set ds \<Longrightarrow> d < maxDBs g" for ds g
    using that
  proof (induction ds arbitrary: g)
    case Nil
    then show ?case by (simp add: rm_ok_refl)
  next
    case (Cons db ds)
    obtain items g1 where s: "sampleStripe P i db g = (items, g1)" by (cases "sampleStripe P i db g")
    note sm = sampleStripe_rm_ok(1) [OF Cons.prems(1) s, where R = ?R] sampleStripe_rm_ok(2,3) [OF Cons.prems(1) s]
    let ?g = "snd (randomItems P i vol db items g1)"
    have "distinct (map fst items)"
      using s assms(2) by (auto simp: samples_distinct_def sampleStripe_def split_beta Let_def)
    moreover have "maxDBs g1 = maxDBs g" using sm(2) by (simp add: quiet_def)
    ultimately have r: "rm_ok P k ?R g1 ?g"
      using sm(3) Cons.prems(2) [of db] by (intro randomItems_rm_ok rm_ok_shard [OF sm(1)]) auto
    note gr = rm_ok_trans [OF sm(1) r]
    have "maxDBs ?g = maxDBs g"
      using gr removes_keeps [OF _ shard_okD(1) [OF Cons.prems(1)]] by (auto simp: rm_ok_def conf_eq_def)
    then have "rm_ok P k ?R ?g (snd (randomDBs P i vol ds ?g))"
      using Cons.prems(2) by (intro Cons.IH rm_ok_shard [OF r]) simp
    note tr = rm_ok_trans [OF gr this]
    have "snd (randomDBs P i vol (db # ds) g) = ?g \<or> snd (randomDBs P i vol (db # ds) g) = snd (randomDBs P i vol ds ?g)"
      by (auto simp: s Let_def split_beta)
    then show ?case using gr tr by metis
  qed
  from this [OF assms(1), of "[0..<maxDBs g]"] show ?thesis by (simp add: evictRandom_def)
qed

section \<open>The eviction loop\<close>

lemma evictOne_rm_ok:
  assumes "shard_ok P k g" "is_random pol \<Longrightarrow> samples_distinct P"
  shows "rm_ok P k (\<lambda>e. is_volatile pol \<longrightarrow> ExpireAtMs e \<noteq> 0) g (snd (evictOne P i pol g))"
  using assms evictLRU_rm_ok [OF assms(1), of True] evictLRU_rm_ok [OF assms(1), of False]
    evictLFU_rm_ok [OF assms(1), of True] evictLFU_rm_ok [OF assms(1), of False]
    evictRandom_rm_ok [OF assms(1), of True] evictRandom_rm_ok [OF assms(1), of False] evictTTL_rm_ok [OF assms(1)]
  by (cases pol) (simp_all add: evictOne_def is_volatile_def is_random_def rm_ok_refl)

lemma evict_loop_rm_ok:
  assumes "is_random pol \<Longrightarrow> samples_distinct P"
  shows "shard_ok P k g \<Longrightarrow> rm_ok P k (\<lambda>e. is_volatile pol \<longrightarrow> ExpireAtMs e \<noteq> 0) g (evict_loop P i pol quota n g)"
proof (induction n arbitrary: g)
  case 0
  then show ?case by (simp add: rm_ok_refl)
next
  case (Suc n)
  note one = evictOne_rm_ok [OF Suc.prems assms, where i = i]
  note tr = rm_ok_trans [OF one Suc.IH [OF rm_ok_shard [OF one]]]
  have "evict_loop P i pol quota (Suc n) g = g \<or> evict_loop P i pol quota (Suc n) g = snd (evictOne P i pol g) \<or>
      evict_loop P i pol quota (Suc n) g = evict_loop P i pol quota n (snd (evictOne P i pol g))"
    by (auto simp: Let_def split_beta)
  then show ?case using one tr rm_ok_refl [OF Suc.prems] by metis
qed

lemma warm_step:
  assumes ok: "shard_ok P k g" and kk: "ShardIndex P k (snd kk) = i" "fst kk < maxDBs g"
    and f: "f = (\<lambda>s. s\<lparr>lruAll := lru_put (PL P) (lruAll s) kk\<rparr>) \<or> f = (\<lambda>s. s\<lparr>lruVol := lru_put (PL P) (lruVol s) kk\<rparr>)"
  shows "rm_ok P k R g (upd_shard i f g)"
proof -
  let ?g = "upd_shard i f g"
  have "quiet g ?g" using f by (auto simp: quiet_def)
  then have rm: "removes P k R g ?g" by (rule removes.quiet_step [OF removes.refl])
  have h: "heap_ok P k ?g = heap_ok P k g" by (rule heap_ok_cong) (use f in \<open>auto simp: heapItems_def\<close>)
  have "lruKeys P ?g j \<subseteq> (if j = i then insert kk (lruKeys P g j) else lruKeys P g j)" for j
    using f lru_put_keys by (fastforce simp: lruKeys_def split: if_splits)
  then have "lru_ok P k ?g"
    using shard_okD(3) [OF ok] kk unfolding lru_ok_def upd_shard_sel by (fastforce split: if_splits)
  then show ?thesis
    using rm removes_keeps [OF rm shard_okD(1) [OF ok]] h shard_okD(2) [OF ok] by (simp add: rm_ok_def shard_ok_def)
qed

lemma warmItems_rm_ok:
  assumes "shard_ok P k g" "d < maxDBs g" "\<And>it. it \<in> set its \<Longrightarrow> ShardIndex P k (fst it) = i"
  shows "rm_ok P k R g (warmItems P i d its g) \<and> quiet g (warmItems P i d its g)"
  using assms
proof (induction its arbitrary: g)
  case Nil
  then show ?case by (simp add: rm_ok_refl)
next
  case (Cons it its)
  let ?g1 = "upd_shard i (\<lambda>s. s\<lparr>lruAll := lru_put (PL P) (lruAll s) (d, fst it)\<rparr>) g"
  let ?g2 = "upd_shard i (\<lambda>s. s\<lparr>lruVol := lru_put (PL P) (lruVol s) (d, fst it)\<rparr>) ?g1"
  have it: "ShardIndex P k (fst it) = i" using Cons.prems(3) by simp
  have r1: "rm_ok P k R g ?g1" using Cons.prems it by (intro warm_step [where kk = "(d, fst it)"]) simp_all
  have r2: "rm_ok P k R ?g1 ?g2" using Cons.prems(2) it by (intro warm_step [where kk = "(d, fst it)", OF rm_ok_shard [OF r1]]) simp_all
  have q: "quiet g ?g1" "quiet g ?g2" by (simp_all add: quiet_def)
  have "rm_ok P k R ?g1 (warmItems P i d its ?g1) \<and> quiet ?g1 (warmItems P i d its ?g1)"
    using Cons.prems by (intro Cons.IH rm_ok_shard [OF r1]) simp_all
  moreover have "rm_ok P k R ?g2 (warmItems P i d its ?g2) \<and> quiet ?g2 (warmItems P i d its ?g2)"
    using Cons.prems by (intro Cons.IH rm_ok_shard [OF r2]) simp_all
  ultimately show ?case
    using r1 r2 q rm_ok_trans [OF r1] rm_ok_trans [OF rm_ok_trans [OF r1 r2]]
    by (auto simp: Let_def quiet_def)
qed

lemma warmEvictTrackers_rm_ok:
  assumes "shard_ok P k g" "\<And>d. d \<in> set ds \<Longrightarrow> d < maxDBs g"
  shows "rm_ok P k R g (warmEvictTrackers P i ds g)"
  using assms
proof (induction ds arbitrary: g)
  case Nil
  then show ?case by (simp add: rm_ok_refl)
next
  case (Cons d ds)
  let ?g = "warmItems P i d (th_stripe (PT P) (dbs g d) i) g"
  have w: "rm_ok P k R g ?g \<and> quiet g ?g"
    using Cons.prems by (intro warmItems_rm_ok) (auto simp: stripe_set)
  then have "rm_ok P k R ?g (warmEvictTrackers P i ds ?g)"
    using Cons.prems(2) by (intro Cons.IH) (auto simp: rm_ok_def quiet_def)
  then show ?case using w by (auto intro: rm_ok_trans)
qed

lemma quiet_rm_ok:
  assumes "shard_ok P k g" "quiet g g'" "\<And>j. heapItems P g' j = heapItems P g j" "\<And>j. lruKeys P g' j = lruKeys P g j"
  shows "rm_ok P k R g g'"
  by (rule rm_okI [OF removes.quiet_step [OF removes.refl assms(2)] assms(1)]) (simp_all add: assms(3,4))

text \<open>
  The eviction pass after a task: it removes present keys only, keeps every invariant, and
  under a volatile policy never touches a key without an expiry.
\<close>

lemma maybeEvict_rm_ok:
  assumes "shard_ok P k g" "is_random (policy g) \<Longrightarrow> samples_distinct P"
  shows "rm_ok P k (\<lambda>e. is_volatile (policy g) \<longrightarrow> ExpireAtMs e \<noteq> 0) g (maybeEvict P i g)"
proof -
  let ?R = "\<lambda>e. is_volatile (policy g) \<longrightarrow> ExpireAtMs e \<noteq> 0"
  have off: "rm_ok P k ?R h (upd_shard i (\<lambda>s. s\<lparr>trackWarm := b\<rparr>) h)" if "shard_ok P k h" for h b
    by (rule quiet_rm_ok [OF that]) (simp_all add: quiet_def heapItems_def lruKeys_def)
  let ?w = "warmEvictTrackers P i [0..<maxDBs g] g"
  have w: "rm_ok P k ?R g ?w" by (rule warmEvictTrackers_rm_ok [OF assms(1)]) simp
  let ?g1 = "if trackWarm (shards g i) then g else upd_shard i (\<lambda>s. s\<lparr>trackWarm := True\<rparr>) ?w"
  have g1: "rm_ok P k ?R g ?g1"
    using rm_ok_refl [OF assms(1)] rm_ok_trans [OF w off [OF rm_ok_shard [OF w]]] by simp
  note ev = rm_ok_trans [OF g1 evict_loop_rm_ok [OF assms(2) rm_ok_shard [OF g1]]]
  show ?thesis
    unfolding maybeEvict_def Let_def
    by (simp only: off [OF assms(1)] g1 ev split: if_split) simp
qed

end

text \<open>
  Where the loop stops: under the quota, or because the policy found no victim, or at the
  bound on the number of evictions per task.
\<close>

lemma evict_loop_stops:
  "usedTotal (shards (evict_loop P i pol quota n g) i) \<le> quota \<or>
     (\<exists>h. \<not> fst (evictOne P i pol h) \<and> evict_loop P i pol quota n g = snd (evictOne P i pol h)) \<or>
     (\<exists>hs. length hs = n \<and> (\<forall>h \<in> set hs. fst (evictOne P i pol h)))"
proof (induction n arbitrary: g)
  case 0
  then show ?case by auto
next
  case (Suc n)
  let ?r = "evictOne P i pol g"
  show ?case
  proof (cases "usedTotal (shards g i) \<le> quota \<or> \<not> fst ?r")
    case True
    then show ?thesis by (auto simp: Let_def split_beta)
  next
    case False
    have "evict_loop P i pol quota (Suc n) g = evict_loop P i pol quota n (snd ?r)"
      using False by (simp add: Let_def split_beta)
    moreover have "\<exists>hs. length hs = Suc n \<and> (\<forall>h \<in> set hs. fst (evictOne P i pol h))"
      if "length hs = n" "\<forall>h \<in> set hs. fst (evictOne P i pol h)" for hs
      using that False by (intro exI [of _ "g # hs"]) simp
    ultimately show ?thesis using Suc.IH [of "snd ?r"] by metis
  qed
qed

lemma ParseEvictPolicy_name: "ParseEvictPolicy (policyName p) = (p, True)"
  by (cases p) (simp_all add: ParseEvictPolicy_def allPolicies_def policyName_def lower_byte_def byte_def chr_def)

end
