(* ===== verification/Watch.thy ===== *)
theory Watch
  imports Eviction
begin

text \<open>
  WATCH (\<^verbatim>\<open>WatchVersion\<close>, \<^verbatim>\<open>WatchDirty\<close>) and FLUSHDB (\<^verbatim>\<open>flushDB\<close>, \<^verbatim>\<open>FlushDBTok\<close>) of
  \<^verbatim>\<open>src/lib/shard/shard.go\<close>. The step relation \<open>kstep\<close> lets any operation of any shard happen
  between a sample and a check: lookups, writes, deletions, in-place changes, expiry and
  eviction, flushes and the passing of time. By rule induction every step keeps the engine
  invariant and lets every stamp (epoch and version) only grow, and the operations that write
  a key let its stamp grow strictly; so a watcher whose key was written is always dirty, and
  one whose key was neither written nor removed is clean unless an epoch moved.
\<close>

section \<open>Flush\<close>

definition flushShard ::
  "('q, 'z, 't, 'h, 'l, 'f) packages \<Rightarrow> nat \<Rightarrow> ('h, 'l, 'f) shard \<Rightarrow> ('h, 'l, 'f) shard" where
  "flushShard P db s =
     s\<lparr>tomb := (\<lambda>x. if fst x = db then None else tomb s x),
       usedBytes := (usedBytes s)(db := 0), usedTotal := usedTotal s - usedBytes s db,
       lruAll := purge (lru_delete (PL P)) db (lru_keys (PL P) (lruAll s)) (lruAll s),
       lruVol := purge (lru_delete (PL P)) db (lru_keys (PL P) (lruVol s)) (lruVol s),
       lfuAll := purge (lfu_delete (PF P)) db (lfu_keys (PF P) (lfuAll s)) (lfuAll s),
       lfuVol := purge (lfu_delete (PF P)) db (lfu_keys (PF P) (lfuVol s)) (lfuVol s),
       expHeap := foldl (hp_push (PH P)) (hp_new (PH P)) (filter (\<lambda>it. DB it \<noteq> db) (hp_all (PH P) (expHeap s))),
       epoch := (epoch s)(db := Suc (epoch s db))\<rparr>"

lemma flushDB_upd: "flushDB P i g db = upd_shard i (flushShard P db) g"
  by (simp add: flushDB_def addMem_def purgeTrackers_def flushShard_def upd_shard_def Let_def)

lemma foldl_upd_shard:
  "shards (foldl (\<lambda>g i. upd_shard i f g) g [0..<n]) = (\<lambda>j. if j < n then f (shards g j) else shards g j)"
  by (induction n) (auto simp: fun_eq_iff less_Suc_eq)

lemma foldl_upd_rest:
  "dbs (foldl (\<lambda>g i. upd_shard i f g) g js) = dbs g" "ents (foldl (\<lambda>g i. upd_shard i f g) g js) = ents g"
  "nxt (foldl (\<lambda>g i. upd_shard i f g) g js) = nxt g" "kbits (foldl (\<lambda>g i. upd_shard i f g) g js) = kbits g"
  "maxDBs (foldl (\<lambda>g i. upd_shard i f g) g js) = maxDBs g" "NowMs (foldl (\<lambda>g i. upd_shard i f g) g js) = NowMs g"
  "shardCount (foldl (\<lambda>g i. upd_shard i f g) g js) = shardCount g" "policy (foldl (\<lambda>g i. upd_shard i f g) g js) = policy g"
  by (induction js arbitrary: g) simp_all

lemma FlushDBTok_sel:
  "dbs (FlushDBTok P g db) = (dbs g)(db := th_new (PT P))" "ents (FlushDBTok P g db) = ents g"
  "nxt (FlushDBTok P g db) = nxt g" "kbits (FlushDBTok P g db) = kbits g" "maxDBs (FlushDBTok P g db) = maxDBs g"
  "NowMs (FlushDBTok P g db) = NowMs g" "shardCount (FlushDBTok P g db) = shardCount g"
  "shards (FlushDBTok P g db) = (\<lambda>j. if j < shardCount g then flushShard P db (shards g j) else shards g j)"
  "policy (FlushDBTok P g db) = policy g"
  by (simp_all add: FlushDBTok_def flushDB_upd foldl_upd_shard foldl_upd_rest fun_eq_iff)

lemma purge_keys:
  assumes "\<And>c x. keys (del c x) = keys c - {x}"
  shows "keys (purge del db ks c) = keys c - {x \<in> set ks. fst x = db}"
  by (induction ks arbitrary: c) (auto simp: assms)

context pluto_laws
begin

lemma view_Flush [view_simps]: "view P (FlushDBTok P g db) d x = (if d = db then None else view P g d x)"
  by (simp add: view_def search_def FlushDBTok_sel search_new)

lemma heapItems_Flush:
  "heapItems P (FlushDBTok P g db) j =
     (if j < shardCount g then {it \<in> heapItems P g j. DB it \<noteq> db} else heapItems P g j)"
proof -
  have "mset (hp_all (PH P) (foldl (hp_push (PH P)) h xs)) = mset (hp_all (PH P) h) + mset xs" for h xs
    by (induction xs arbitrary: h) (simp_all add: hp_push_all)
  from arg_cong [OF this, of set_mset]
  have "set (hp_all (PH P) (foldl (hp_push (PH P)) h xs)) = set (hp_all (PH P) h) \<union> set xs" for h xs
    by simp
  then show ?thesis by (auto simp: heapItems_def FlushDBTok_sel flushShard_def hp_all_new)
qed

lemma lruKeys_Flush: "lruKeys P (FlushDBTok P g db) j \<subseteq> lruKeys P g j"
  using purge_keys [of "\<lambda>l. set (lru_keys (PL P) l)" "lru_delete (PL P)", OF lru_delete_keys]
  by (auto simp: lruKeys_def FlushDBTok_sel flushShard_def)

text \<open>A flush of a database leaves the shards consistent: its counters are zero, its items gone.\<close>

lemma Flush_inv [inv_intros]:
  assumes inv: "eng_inv P k g" and db: "db < maxDBs g" and n: "shardCount g = 2 ^ k" "k \<le> 64"
  shows "eng_inv P k (FlushDBTok P g db)"
proof -
  let ?g = "FlushDBTok P g db"
  note k = eng_invD(1) [OF inv] and mem = eng_invD(3) [OF inv]
  have none: "stripeMem P g j d = 0" if "\<not> j < shardCount g" for j d
  proof -
    have "stripeKeys P g j d = {}" using that ShardIndex_less [OF n(2), of P] k n(1) by (auto simp: stripeKeys_def)
    then show ?thesis by (simp add: stripeMem_def)
  qed
  have sm: "stripeMem P ?g j d = (if d = db then 0 else stripeMem P g j d)" for j d
    by (auto simp: stripeMem_def stripeKeys_def view_Flush FlushDBTok_sel intro: sum.cong)
  have ub: "usedBytes (shards ?g j) d = (if d = db then 0 else usedBytes (shards g j) d)" for j d
    using none [of j d] mem by (auto simp: FlushDBTok_sel flushShard_def mem_ok_def)
  have ut: "usedTotal (shards ?g j) = usedTotal (shards g j) - usedBytes (shards g j) db" for j
    using none [of j db] mem by (simp add: FlushDBTok_sel flushShard_def mem_ok_def)
  have "(\<Sum>d < maxDBs g. usedBytes (shards ?g j) d) = (\<Sum>d < maxDBs g. usedBytes (shards g j) d) - usedBytes (shards g j) db" for j
    using db sum.remove [of "{..<maxDBs g}" db "usedBytes (shards g j)"] sum.remove [of "{..<maxDBs g}" db "usedBytes (shards ?g j)"]
    by (simp add: ub)
  then have "mem_ok P ?g" using mem ub sm ut by (simp add: mem_ok_def FlushDBTok_sel(5))
  moreover have "ptr_ok P ?g"
    by (rule ptr_ok_subset [OF eng_invD(2) [OF inv]])
      (auto simp: search_def FlushDBTok_sel search_new split: if_splits)
  moreover have "tomb_ok P ?g"
    unfolding tomb_ok_def
  proof (intro allI impI)
    fix j d x assume t: "tomb (shards ?g j) (d, x) \<noteq> None"
    then have "tomb (shards g j) (d, x) \<noteq> None" by (auto simp: FlushDBTok_sel flushShard_def split: if_splits)
    then show "ShardIndex P (kbits ?g) x = j \<and> view P ?g d x = None"
      using tomb_okD [OF eng_invD(4) [OF inv], of j d x] by (auto simp: view_Flush FlushDBTok_sel)
  qed
  ultimately show ?thesis using k by (simp add: eng_inv_def FlushDBTok_sel)
qed

lemma Flush_stamps:
  assumes n: "shardCount g = 2 ^ k" "k \<le> 64"
  shows "stamp_less (stamp P k g db key) (stamp P k (FlushDBTok P g db) db key)"
    and "stamps_grow P k g (FlushDBTok P g db)"
proof -
  have j: "ShardIndex P k x < shardCount g" for x using ShardIndex_less [OF n(2), of P x] n(1) by simp
  show less: "stamp_less (stamp P k g db x) (stamp P k (FlushDBTok P g db) db x)" for x
    using j by (simp add: stamp_def stamp_less_def FlushDBTok_sel flushShard_def)
  have "stamp P k (FlushDBTok P g db) d x = stamp P k g d x" if "d \<noteq> db" for d x
    using that j verOf_cong [of P "FlushDBTok P g db" d x g "ShardIndex P k x"]
    by (simp add: stamp_def FlushDBTok_sel view_Flush flushShard_def)
  then show "stamps_grow P k g (FlushDBTok P g db)"
    unfolding stamps_grow_def using less by (metis stamp_le_refl stamp_less_imp_le)
qed

section \<open>Stamps of the operations\<close>

text \<open>An operation that only rewrites one key without removing it.\<close>

lemma stamp_vupd:
  assumes v: "view P g' = vupd P g db key w"
    and t: "\<And>j d x. \<not> (d = db \<and> x = key) \<Longrightarrow> tomb (shards g' j) (d, x) = tomb (shards g j) (d, x)"
    and e: "\<And>j. epoch (shards g' j) = epoch (shards g j)"
    and new: "stamp_le (stamp P k g db key) (stamp P k g' db key)"
  shows "stamps_grow P k g g'"
  unfolding stamps_grow_def
proof (intro allI impI)
  fix d x
  show "stamp_le (stamp P k g d x) (stamp P k g' d x)"
  proof (cases "d = db \<and> x = key")
    case False
    then have "verOf P j g' d x = verOf P j g d x" for j
      by (intro verOf_cong t) (auto simp: v vupd_def)
    then show ?thesis by (simp add: stamp_def e)
  qed (use new in simp)
qed

lemma Store_stamps:
  assumes "unref P g a"
  shows "stamp_less (stamp P k g db key) (stamp P k (Store P (ShardIndex P k key) g db key a) db key)"
    and "stamps_grow P k g (Store P (ShardIndex P k key) g db key a)"
proof -
  let ?i = "ShardIndex P k key"
  note v = view_Store [OF assms, of ?i db key]
  have "verOf P ?i (Store P ?i g db key a) db key = Suc (verOf P ?i g db key)"
    by (simp add: verOf_def [where g = "Store P (ShardIndex P k key) g db key a"] v vupd_def stored_def tombVersion_def)
  then show less: "stamp_less (stamp P k g db key) (stamp P k (Store P ?i g db key a) db key)"
    by (simp add: stamp_def stamp_less_def)
  show "stamps_grow P k g (Store P ?i g db key a)"
    by (rule stamp_vupd [OF v]) (auto simp: stamp_less_imp_le [OF less])
qed

lemma Touch_stamps:
  assumes "eng_inv P k g" "search P g db key = Some a"
  shows "stamp_less (stamp P k g db key) (stamp P k (Touch P i g db key a) db key)"
    and "stamps_grow P k g (Touch P i g db key a)"
proof -
  let ?i = "ShardIndex P k key"
  note v = view_Touch [OF eng_invD(2) [OF assms(1)] assms(2), of i]
  have e: "view P g db key = Some (ents g a)" using assms(2) by (simp add: view_def)
  have "verOf P ?i (Touch P i g db key a) db key = Suc (verOf P ?i g db key)"
    using verOf_present [OF eng_invD(4) [OF assms(1)] e, of ?i]
    by (simp add: verOf_def v vupd_def touched_def tombVersion_def)
  then show less: "stamp_less (stamp P k g db key) (stamp P k (Touch P i g db key a) db key)"
    by (simp add: stamp_def stamp_less_def)
  show "stamps_grow P k g (Touch P i g db key a)"
    by (rule stamp_vupd [OF v]) (auto simp: stamp_less_imp_le [OF less])
qed

lemma remove_stamps:
  assumes inv: "eng_inv P k g" and db: "db < maxDBs g" and a: "search P g db key = Some a"
    and g': "g' = expireEntry P (ShardIndex P k key) g db key a \<or>
      (g' = snd (Delete P (ShardIndex P k key) g db key) \<and> \<not> due (ents g a) (NowMs g))"
  shows "stamp_less (stamp P k g db key) (stamp P k g' db key)" and "stamps_grow P k g g'"
proof -
  let ?i = "ShardIndex P k key"
  have e: "view P g db key = Some (ents g a)" using a by (simp add: view_def)
  have L: "\<not> due (ents g a) (NowMs g) \<Longrightarrow> Lookup P ?i g db key = (Some a, trackAccess P ?i g db key a)"
    using a by (simp add: Lookup_def)
  have "view P g' = vupd P g db key None" using g' by (auto simp: view_simps)
  moreover have "tomb (shards g' j) = tomb (shards (tombstone ?i g db key (Version (ents g a))) j)"
    "epoch (shards g' j) = epoch (shards (tombstone ?i g db key (Version (ents g a))) j)" for j
    using g' Delete_found(3,4) [OF L] by auto
  ultimately show "stamp_less (stamp P k g db key) (stamp P k g' db key)" and "stamps_grow P k g g'"
    by (rule stamp_tombstone [OF eng_invD(4,1) [OF inv] e db])+
qed

lemma Lookup_stamps:
  assumes "eng_inv P k g" "db < maxDBs g"
  shows "stamps_grow P k g (snd (Lookup P (ShardIndex P k key) g db key))"
proof (cases rule: Lookup_cases [of g db key "ShardIndex P k key"])
  case (expired a)
  then show ?thesis using remove_stamps(2) [OF assms, of key a] by simp
next
  case (found a)
  have "stamp P k (trackAccess P (ShardIndex P k key) g db key a) = stamp P k g" by (rule stamp_cong) simp_all
  then show ?thesis using found by (simp add: stamps_grow_def)
qed simp

lemma Delete_stamps:
  assumes "eng_inv P k g" "db < maxDBs g"
  shows "view P g db key \<noteq> None \<Longrightarrow>
      stamp_less (stamp P k g db key) (stamp P k (snd (Delete P (ShardIndex P k key) g db key)) db key)"
    and "stamps_grow P k g (snd (Delete P (ShardIndex P k key) g db key))"
proof -
  let ?i = "ShardIndex P k key"
  have eq: "snd (Delete P ?i g db key) = expireEntry P ?i g db key a"
    if "search P g db key = Some a" "due (ents g a) (NowMs g)" for a
    using that by (simp add: Delete_def Lookup_def)
  show "view P g db key \<noteq> None \<Longrightarrow> stamp_less (stamp P k g db key) (stamp P k (snd (Delete P ?i g db key)) db key)"
    using remove_stamps(1) [OF assms] eq by (auto simp: view_def)
  show "stamps_grow P k g (snd (Delete P ?i g db key))"
  proof (cases "search P g db key")
    case None
    then show ?thesis by (simp add: Delete_def Lookup_def)
  next
    case (Some a)
    then show ?thesis using remove_stamps(2) [OF assms Some] eq by blast
  qed
qed

lemma mutate_stamps:
  assumes inv: "eng_inv P k g" and a: "search P g db key = Some a" and v: "view P g' = vupd P g db key (Some e)"
    and ver: "Version e = Version (ents g a)"
    and c: "\<And>j. tomb (shards g' j) = tomb (shards g j)" "\<And>j. epoch (shards g' j) = epoch (shards g j)"
  shows "stamps_grow P k g g'"
proof (rule stamp_vupd [OF v])
  show "stamp_le (stamp P k g db key) (stamp P k g' db key)"
    using a ver by (simp add: stamp_def c verOf_def v vupd_def tombVersion_def view_def)
qed (simp_all add: c)

section \<open>Steps of the engine\<close>

end

inductive kstep ::
  "('q, 'z, 't, 'h, 'l, 'f) packages \<Rightarrow> nat \<Rightarrow> ('q, 'z, 't, 'h, 'l, 'f) st \<Rightarrow> ('q, 'z, 't, 'h, 'l, 'f) st \<Rightarrow> bool"
  for P k where
  lookup: "db < maxDBs g \<Longrightarrow> kstep P k g (snd (Lookup P (ShardIndex P k key) g db key))"
| store: "db < maxDBs g \<Longrightarrow> alloc e g = (a, g1) \<Longrightarrow> kstep P k g (Store P (ShardIndex P k key) g1 db key a)"
| delete: "db < maxDBs g \<Longrightarrow> kstep P k g (snd (Delete P (ShardIndex P k key) g db key))"
| touch: "db < maxDBs g \<Longrightarrow> search P g db key = Some a \<Longrightarrow> kstep P k g (Touch P (ShardIndex P k key) g db key a)"
| mutate: "search P g db key = Some a \<Longrightarrow> Version (f (ents g a)) = Version (ents g a) \<Longrightarrow>
    memBytes (f (ents g a)) = memBytes (ents g a) \<Longrightarrow> kstep P k g (upd_entry a f g)"
| expireAt: "search P g db key = Some a \<Longrightarrow> kstep P k g (PushExpire P (ShardIndex P k key) g db key a)"
| removal: "removes P k R g g' \<Longrightarrow> kstep P k g g'"
| flush: "db < maxDBs g \<Longrightarrow> kstep P k g (FlushDBTok P g db)"
| tick: "kstep P k g (g\<lparr>NowMs := t\<rparr>)"

text \<open>A step that writes or removes the key \<open>(db, key)\<close>.\<close>

inductive writes ::
  "('q, 'z, 't, 'h, 'l, 'f) packages \<Rightarrow> nat \<Rightarrow> nat \<Rightarrow> string \<Rightarrow> ('q, 'z, 't, 'h, 'l, 'f) st \<Rightarrow> ('q, 'z, 't, 'h, 'l, 'f) st \<Rightarrow> bool"
  for P k db key where
  w_store: "alloc e g = (a, g1) \<Longrightarrow> writes P k db key g (Store P (ShardIndex P k key) g1 db key a)"
| w_touch: "search P g db key = Some a \<Longrightarrow> writes P k db key g (Touch P (ShardIndex P k key) g db key a)"
| w_delete: "view P g db key \<noteq> None \<Longrightarrow> writes P k db key g (snd (Delete P (ShardIndex P k key) g db key))"
| w_flush: "writes P k db key g (FlushDBTok P g db)"

definition conf_ok :: "nat \<Rightarrow> ('q, 'z, 't, 'h, 'l, 'f) st \<Rightarrow> bool" where
  "conf_ok k g \<longleftrightarrow> shardCount g = 2 ^ k \<and> k \<le> 64"

inductive_cases kstepE: "kstep P k g g'"
inductive_cases writesE: "writes P k db key g g'"

context pluto_laws
begin

lemma alloc_stamp:
  assumes "alloc e g = (a, g1)" "eng_inv P k g"
  shows "stamp P k g1 = stamp P k g"
proof -
  have g1: "shards g1 = shards g" using assms(1) by (auto simp: alloc_def)
  then have "verOf P i g1 d x = verOf P i g d x" for i d x
    by (intro verOf_cong) (simp_all add: alloc_view(1) [OF assms(1) eng_invD(2) [OF assms(2)]])
  then show ?thesis by (simp add: fun_eq_iff stamp_def g1)
qed

lemma kstep_keeps:
  assumes "kstep P k g g'" "eng_inv P k g" "conf_ok k g"
  shows "eng_inv P k g' \<and> conf_ok k g' \<and> maxDBs g' = maxDBs g \<and> stamps_grow P k g g'"
  using assms
proof (cases rule: kstep.cases)
  case (store db e a g1 key)
  have g1: "maxDBs g1 = maxDBs g" "conf_ok k g1 = conf_ok k g" using store(3) by (auto simp: alloc_def conf_ok_def)
  note al = alloc_inv [OF store(3) assms(2)] alloc_view(3) [OF store(3) eng_invD(2) [OF assms(2)]]
  show ?thesis
    using store(1,2) assms(3) g1 Store_inv [OF al(1) _ al(2)] Store_stamps(2) [OF al(2)] alloc_stamp [OF store(3) assms(2)]
    by (simp add: stamps_grow_def conf_ok_def)
next
  case (removal R)
  then show ?thesis using removes_keeps [OF removal assms(2)] assms(3) by (simp add: conf_eq_def conf_ok_def)
next
  case (mutate db key a f)
  have "stamps_grow P k g g'"
    unfolding mutate(1)
    by (rule mutate_stamps [OF assms(2) mutate(2) view_upd_entry [OF eng_invD(2) [OF assms(2)] mutate(2)]])
      (simp_all add: mutate)
  then show ?thesis using mutate assms upd_entry_inv by (simp add: conf_ok_def)
next
  case (expireAt db key a)
  have "stamps_grow P k g g'"
    unfolding expireAt(1)
    by (rule mutate_stamps [OF assms(2) expireAt(2) view_PushExpire [OF eng_invD(2) [OF assms(2)] expireAt(2)]])
      simp_all
  then show ?thesis using expireAt assms PushExpire_inv by (simp add: conf_ok_def)
next
  case (tick t)
  have "stamp P k (g\<lparr>NowMs := t\<rparr>) = stamp P k g" by (rule stamp_cong) simp_all
  then show ?thesis using assms tick by (simp add: conf_ok_def stamps_grow_def)
qed (simp_all add: Lookup_inv Lookup_stamps Delete_inv Delete_stamps Touch_inv Touch_stamps Flush_inv Flush_stamps
  conf_ok_def FlushDBTok_sel)

lemma ksteps_keep:
  assumes "(kstep P k)\<^sup>*\<^sup>* g g'" "eng_inv P k g" "conf_ok k g"
  shows "eng_inv P k g' \<and> conf_ok k g' \<and> maxDBs g' = maxDBs g \<and> stamps_grow P k g g'"
  using assms(1)
proof (induction)
  case base
  then show ?case using assms by simp
next
  case (step g1 g2)
  then show ?case using kstep_keeps [OF step(2)] by (auto intro: stamps_grow_trans)
qed

lemma writes_stamp:
  assumes "writes P k db key g g'" "eng_inv P k g" "conf_ok k g" "db < maxDBs g"
  shows "stamp_less (stamp P k g db key) (stamp P k g' db key)" and "kstep P k g g'"
  using assms
proof (induction)
  case (w_store e g a g1)
  {
    case 1
    then show ?case
      using Store_stamps(1) [OF alloc_view(3) [OF w_store eng_invD(2)]] alloc_stamp [OF w_store] by simp
  next
    case 2
    then show ?case using w_store by (simp add: kstep.store)
  }
qed (auto simp: Touch_stamps Delete_stamps Flush_stamps conf_ok_def intro: kstep.intros)

section \<open>WATCH\<close>

lemma WatchVersion_stamp:
  assumes "eng_inv P k g" "db < maxDBs g" "WatchVersion P (ShardIndex P k key) g db key = (w, g1)"
  shows "w = stamp P k g1 db key" and "g1 = snd (Lookup P (ShardIndex P k key) g db key)"
proof -
  let ?i = "ShardIndex P k key"
  obtain r h where L: "Lookup P ?i g db key = (r, h)" by (cases "Lookup P ?i g db key")
  have inv: "eng_inv P k h" using Lookup_inv [OF assms(1,2), of ?i key] L by simp
  show "g1 = snd (Lookup P ?i g db key)"
    using assms(3) L by (auto simp: WatchVersion_def split: option.splits)
  then have g1: "g1 = h" using L by simp
  show "w = stamp P k g1 db key"
  proof (cases r)
    case None
    have "view P h db key = None" using Lookup_None(1) L None by (simp add: view_def)
    then show ?thesis using assms(3) L None g1 by (auto simp: WatchVersion_def stamp_def verOf_def)
  next
    case (Some a)
    have "view P h db key = Some (ents h a)" using Lookup_Some(2) L Some by (simp add: view_def)
    from verOf_present(1) [OF eng_invD(4) [OF inv] this, of ?i] show ?thesis
      using assms(3) L Some g1 by (auto simp: WatchVersion_def stamp_def)
  qed
qed

lemma WatchDirty_stamp:
  assumes "eng_inv P k g" "db < maxDBs g" "stamp_le (ep, ver) (stamp P k g db key)"
  shows "fst (WatchDirty P (ShardIndex P k key) g db key ep ver) \<longleftrightarrow>
    stamp P k g db key \<noteq> (ep, ver) \<or> (\<exists>e. view P g db key = Some e \<and> due e (NowMs g))"
proof -
  let ?i = "ShardIndex P k key"
  show ?thesis
  proof (cases "ep = epoch (shards g ?i) db")
    case False
    then show ?thesis by (auto simp: WatchDirty_def stamp_def)
  next
    case ep: True
    then have ver: "ver \<le> verOf P ?i g db key"
      using assms(3) by (auto simp: stamp_le_def stamp_less_def stamp_def)
    show ?thesis
    proof (cases rule: Lookup_cases [of g db key ?i])
      case missing
      then show ?thesis using ep by (simp add: WatchDirty_def stamp_def verOf_def view_def)
    next
      case (expired a)
      have e: "view P g db key = Some (ents g a)" using expired by (simp add: view_def)
      have "tombVersion ?i (expireEntry P ?i g db key a) db key = Suc (Version (ents g a))"
        by (simp add: tombVersion_def tombstone_tomb)
      moreover have "verOf P ?i g db key = Version (ents g a)"
        using verOf_present(1) [OF eng_invD(4) [OF assms(1)] e] by simp
      ultimately show ?thesis using expired ep ver e by (simp add: WatchDirty_def)
    next
      case (found a)
      have e: "view P g db key = Some (ents g a)" using found by (simp add: view_def)
      then show ?thesis
        using found ep verOf_present(1) [OF eng_invD(4) [OF assms(1)] e] by (simp add: WatchDirty_def stamp_def)
    qed
  qed
qed

end

end
