(* ===== verification/Tasks.thy ===== *)
theory Tasks
  imports Watch
begin

text \<open>
  Between the shards and the command handlers: how a handler submits work
  (\<^verbatim>\<open>do\<close> and \<^verbatim>\<open>doMulti\<close> of \<^verbatim>\<open>src/lib/commands/engine.go\<close> over \<^verbatim>\<open>DoTok\<close> and \<^verbatim>\<open>DoMultiTok\<close> of
  \<^verbatim>\<open>src/lib/shard/shard.go\<close>), typed lookups and stores (\<^verbatim>\<open>coll.go\<close>) and the reply values
  (\<^verbatim>\<open>src/lib/resp/value.go\<close>).

  A task runs on the goroutine of one shard and nothing else runs there meanwhile, so it is a
  function of the engine state; \<^verbatim>\<open>maybeEvict\<close> follows it (the \<^verbatim>\<open>run\<close> loop). Tasks of one
  \<^verbatim>\<open>doMulti\<close> run on different shards, concurrently; they touch disjoint parts of the state,
  and the model runs them one after the other in an arbitrary order \<open>ord\<close>.

  The step relation \<open>act\<close> lists what a handler may do to the engine. By rule induction every
  sequence of such steps keeps \<open>db_inv\<close>, the full invariant of a serving engine, and lets every
  watcher's stamp only grow; each handler below is shown to be such a sequence.
\<close>

section \<open>Replies\<close>

datatype rv =
    RNull
  | RSimple string
  | RErr string
  | RInt int
  | RDouble float64
  | RBool bool
  | RBlob string
  | RBigNumber string
  | RVerbatim string string
  | RArr "rv list"
  | RMap "rv list"
  | RSet "rv list"
  | RPush "rv list"

definition replyOK :: rv where "replyOK = RSimple ''OK''"
definition errSyntax :: rv where "errSyntax = RErr ''ERR syntax error''"
definition errNotInt :: rv where "errNotInt = RErr ''ERR value is not an integer or out of range''"
definition errWrongType :: rv where
  "errWrongType = RErr ''WRONGTYPE Operation against a key holding the wrong kind of value''"
definition errIncrOvf :: rv where "errIncrOvf = RErr ''ERR increment or decrement would overflow''"
definition errDecrOvf :: rv where "errDecrOvf = RErr ''ERR decrement would overflow''"

definition quote :: string where "quote = [chr 39]"

definition errArity :: "string \<Rightarrow> rv" where
  "errArity name = RErr (''ERR wrong number of arguments for '' @ quote @ name @ quote @ '' command'')"

section \<open>Entries\<close>

datatype Type = TypeString | TypeHash | TypeList | TypeSet | TypeZSet

definition typeOf :: "('q, 'z) gval \<Rightarrow> Type" where
  "typeOf v = (case v of VString _ \<Rightarrow> TypeString | VHash _ \<Rightarrow> TypeHash | VList _ \<Rightarrow> TypeList | VSet _ \<Rightarrow> TypeSet | VZSet _ \<Rightarrow> TypeZSet)"

text \<open>
  \<^verbatim>\<open>ent.Str\<close>, and the objects behind \<^verbatim>\<open>ent.Obj\<close>; the handlers read them after checking the type
  (elsewhere \<^verbatim>\<open>Str\<close> is nil and the assertion would panic).
\<close>

definition strOf :: "('q, 'z) gval \<Rightarrow> string" where
  "strOf v = (case v of VString s \<Rightarrow> s | _ \<Rightarrow> [])"

definition hashOf :: "('q, 'z) gval \<Rightarrow> hash" where
  "hashOf v = (case v of VHash h \<Rightarrow> h | _ \<Rightarrow> NewHash)"

definition listOf :: "('q, 'z, 't, 'h, 'l, 'f) packages \<Rightarrow> ('q, 'z) gval \<Rightarrow> 'q glist" where
  "listOf P v = (case v of VList l \<Rightarrow> l | _ \<Rightarrow> NewList (PQ P))"

definition setOf :: "('q, 'z) gval \<Rightarrow> gset" where
  "setOf v = (case v of VSet s \<Rightarrow> s | _ \<Rightarrow> NewSet)"

definition newEntry :: "('q, 'z) gval \<Rightarrow> ('q, 'z) entry" where
  "newEntry v = \<lparr>Val = v, ExpireAtMs = 0, ExpGen = 0, Version = 0, memBytes = 0\<rparr>"

definition setVal :: "addr \<Rightarrow> ('q, 'z) gval \<Rightarrow> ('q, 'z, 't, 'h, 'l, 'f) st \<Rightarrow> ('q, 'z, 't, 'h, 'l, 'f) st" where
  "setVal a v = upd_entry a (\<lambda>e. e\<lparr>Val := v\<rparr>)"

definition setExpire :: "addr \<Rightarrow> int \<Rightarrow> ('q, 'z, 't, 'h, 'l, 'f) st \<Rightarrow> ('q, 'z, 't, 'h, 'l, 'f) st" where
  "setExpire a t = upd_entry a (\<lambda>e. e\<lparr>ExpireAtMs := t\<rparr>)"

text \<open>\<^verbatim>\<open>s.Store(db, key, &shard.Entry{...})\<close>: allocate and store; the address is the result.\<close>

definition storeEntry ::
  "('q, 'z, 't, 'h, 'l, 'f) packages \<Rightarrow> nat \<Rightarrow> ('q, 'z, 't, 'h, 'l, 'f) st \<Rightarrow> nat \<Rightarrow> string \<Rightarrow> ('q, 'z) entry \<Rightarrow> addr \<times> ('q, 'z, 't, 'h, 'l, 'f) st" where
  "storeEntry P i g db key e = (let (a, g1) = alloc e g in (a, Store P i g1 db key a))"

definition storeColl ::
  "('q, 'z, 't, 'h, 'l, 'f) packages \<Rightarrow> nat \<Rightarrow> ('q, 'z, 't, 'h, 'l, 'f) st \<Rightarrow> nat \<Rightarrow> string \<Rightarrow> ('q, 'z) gval \<Rightarrow> addr \<times> ('q, 'z, 't, 'h, 'l, 'f) st" where
  "storeColl P i g db key v = storeEntry P i g db key (newEntry v)"

text \<open>\<^verbatim>\<open>getColl\<close> returns the entry, if any, and whether the key holds another type.\<close>

definition getColl ::
  "('q, 'z, 't, 'h, 'l, 'f) packages \<Rightarrow> nat \<Rightarrow> ('q, 'z, 't, 'h, 'l, 'f) st \<Rightarrow> nat \<Rightarrow> string \<Rightarrow> Type \<Rightarrow>
     (addr option \<times> bool) \<times> ('q, 'z, 't, 'h, 'l, 'f) st" where
  "getColl P i g db key t =
     (case Lookup P i g db key of
        (None, g1) \<Rightarrow> ((None, False), g1)
      | (Some a, g1) \<Rightarrow> if typeOf (Val (ents g1 a)) \<noteq> t then ((None, True), g1) else ((Some a, False), g1))"

definition notify :: "nat \<Rightarrow> string \<Rightarrow> string \<Rightarrow> ('q, 'z, 't, 'h, 'l, 'f) st \<Rightarrow> ('q, 'z, 't, 'h, 'l, 'f) st" where
  "notify db key ev g = g\<lparr>events := events g @ [(db, key, ev)]\<rparr>"

section \<open>Submitting tasks\<close>

definition doKey ::
  "('q, 'z, 't, 'h, 'l, 'f) packages \<Rightarrow> string \<Rightarrow> (nat \<Rightarrow> ('q, 'z, 't, 'h, 'l, 'f) st \<Rightarrow> 'r \<times> ('q, 'z, 't, 'h, 'l, 'f) st) \<Rightarrow>
     ('q, 'z, 't, 'h, 'l, 'f) st \<Rightarrow> 'r \<times> ('q, 'z, 't, 'h, 'l, 'f) st" where
  "doKey P key fn g =
     (let i = ShardIndex P (kbits g) key; (r, g1) = fn i g in (r, maybeEvict P i g1))"

text \<open>The grouping loop of \<^verbatim>\<open>DoMultiTok\<close>: \<open>groups[si] = append(groups[si], i)\<close> for every key.\<close>

fun group_loop :: "(string \<Rightarrow> nat) \<Rightarrow> string list \<Rightarrow> nat \<Rightarrow> (nat \<Rightarrow> nat list) \<Rightarrow> nat \<Rightarrow> nat list" where
  "group_loop route [] i groups = groups"
| "group_loop route (key # keys) i groups =
     group_loop route keys (Suc i) (groups(route key := groups (route key) @ [i]))"

definition groupKeys :: "(string \<Rightarrow> nat) \<Rightarrow> string list \<Rightarrow> nat \<Rightarrow> nat list" where
  "groupKeys route keys = group_loop route keys 0 (\<lambda>_. [])"

text \<open>\<open>acc\<close> is what the closures share: slot-indexed results and atomic counters.\<close>

fun run_groups ::
  "('q, 'z, 't, 'h, 'l, 'f) packages \<Rightarrow> (nat \<Rightarrow> nat list) \<Rightarrow>
     (nat \<Rightarrow> nat list \<Rightarrow> 's \<Rightarrow> ('q, 'z, 't, 'h, 'l, 'f) st \<Rightarrow> 's \<times> ('q, 'z, 't, 'h, 'l, 'f) st) \<Rightarrow>
     nat list \<Rightarrow> 's \<Rightarrow> ('q, 'z, 't, 'h, 'l, 'f) st \<Rightarrow> 's \<times> ('q, 'z, 't, 'h, 'l, 'f) st" where
  "run_groups P groups fn [] acc g = (acc, g)"
| "run_groups P groups fn (si # ord) acc g =
     (let (acc1, g1) = fn si (groups si) acc g
      in run_groups P groups fn ord acc1 (maybeEvict P si g1))"

definition doMulti ::
  "('q, 'z, 't, 'h, 'l, 'f) packages \<Rightarrow> nat list \<Rightarrow> string list \<Rightarrow>
     (nat \<Rightarrow> nat list \<Rightarrow> 's \<Rightarrow> ('q, 'z, 't, 'h, 'l, 'f) st \<Rightarrow> 's \<times> ('q, 'z, 't, 'h, 'l, 'f) st) \<Rightarrow>
     's \<Rightarrow> ('q, 'z, 't, 'h, 'l, 'f) st \<Rightarrow> 's \<times> ('q, 'z, 't, 'h, 'l, 'f) st" where
  "doMulti P ord keys fn acc g = run_groups P (groupKeys (ShardIndex P (kbits g)) keys) fn ord acc g"

text \<open>The loop \<open>for _, i := range idxs\<close> of the closures, with the key at each position.\<close>

fun each_idx :: "('k list) \<Rightarrow> (nat \<Rightarrow> 'k \<Rightarrow> 's \<Rightarrow> 'g \<Rightarrow> 's \<times> 'g) \<Rightarrow> nat list \<Rightarrow> 's \<Rightarrow> 'g \<Rightarrow> 's \<times> 'g" where
  "each_idx keys f [] acc g = (acc, g)"
| "each_idx keys f (i # idxs) acc g =
     (let (acc1, g1) = f i (keys ! i) acc g in each_idx keys f idxs acc1 g1)"

text \<open>A schedule: every shard with a group, once.\<close>

definition sched :: "(nat \<Rightarrow> nat list) \<Rightarrow> nat list \<Rightarrow> bool" where
  "sched groups ord \<longleftrightarrow> distinct ord \<and> set ord = {si. groups si \<noteq> []}"

end
