(* ===== verification/Cmd_Table.thy ===== *)
theory Cmd_Table
  imports Tasks
begin

text \<open>
  The command table of \<^verbatim>\<open>src/lib/commands/table.go\<close>: name, arity, flags and key positions of every
  command, in the order of the source and split by its groups. The handlers are attached where the
  dispatcher is modelled.
\<close>

record CmdDef =
  cd_name :: string
  Arity :: int
  Flags :: "string list"
  FirstKey :: int
  LastKey :: int
  KeyStep :: int
  Group :: string

definition cmd :: "string \<Rightarrow> int \<Rightarrow> string list \<Rightarrow> int \<Rightarrow> int \<Rightarrow> int \<Rightarrow> string \<Rightarrow> CmdDef" where
  "cmd name arity flags first lst step grp =
     \<lparr>cd_name = name, Arity = arity, Flags = flags, FirstKey = first, LastKey = lst, KeyStep = step, Group = grp\<rparr>"

definition connectionCmds :: "CmdDef list" where
  "connectionCmds =
    [cmd ''ping'' (-1) [''fast''] 0 0 0 ''connection'',
     cmd ''echo'' 2 [''fast''] 0 0 0 ''connection'',
     cmd ''hello'' (-1) [''fast'', ''noscript''] 0 0 0 ''connection'',
     cmd ''auth'' (-2) [''fast'', ''noscript''] 0 0 0 ''connection'',
     cmd ''select'' 2 [''fast''] 0 0 0 ''connection'',
     cmd ''quit'' (-1) [''fast'', ''noscript''] 0 0 0 ''connection'',
     cmd ''reset'' 1 [''fast'', ''noscript''] 0 0 0 ''connection'']"

definition transactionCmds :: "CmdDef list" where
  "transactionCmds =
    [cmd ''multi'' 1 [''fast'', ''noscript''] 0 0 0 ''transaction'',
     cmd ''exec'' (-1) [''write'', ''noscript''] 0 0 0 ''transaction'',
     cmd ''discard'' 1 [''fast'', ''noscript''] 0 0 0 ''transaction'',
     cmd ''unwatch'' 1 [''fast'', ''noscript''] 0 0 0 ''transaction'',
     cmd ''watch'' (-2) [''fast'', ''noscript''] 1 (-1) 1 ''transaction'']"

definition stringCmds :: "CmdDef list" where
  "stringCmds =
    [cmd ''set'' (-3) [''write'', ''denyoom''] 1 1 1 ''string'',
     cmd ''get'' 2 [''readonly'', ''fast''] 1 1 1 ''string'',
     cmd ''getset'' 3 [''write'', ''denyoom''] 1 1 1 ''string'',
     cmd ''getdel'' 2 [''write'', ''fast''] 1 1 1 ''string'',
     cmd ''getex'' (-2) [''write'', ''fast''] 1 1 1 ''string'',
     cmd ''incr'' 2 [''write'', ''denyoom'', ''fast''] 1 1 1 ''string'',
     cmd ''decr'' 2 [''write'', ''denyoom'', ''fast''] 1 1 1 ''string'',
     cmd ''incrby'' 3 [''write'', ''denyoom'', ''fast''] 1 1 1 ''string'',
     cmd ''decrby'' 3 [''write'', ''denyoom'', ''fast''] 1 1 1 ''string'',
     cmd ''incrbyfloat'' 3 [''write'', ''denyoom'', ''fast''] 1 1 1 ''string'',
     cmd ''append'' 3 [''write'', ''denyoom''] 1 1 1 ''string'',
     cmd ''strlen'' 2 [''readonly'', ''fast''] 1 1 1 ''string'',
     cmd ''mget'' (-2) [''readonly'', ''fast''] 1 (-1) 1 ''string'',
     cmd ''mset'' (-3) [''write'', ''denyoom''] 1 (-1) 2 ''string'',
     cmd ''msetnx'' (-3) [''write'', ''denyoom''] 1 (-1) 2 ''string'']"

definition keyspaceCmds :: "CmdDef list" where
  "keyspaceCmds =
    [cmd ''del'' (-2) [''write''] 1 (-1) 1 ''keyspace'',
     cmd ''exists'' (-2) [''readonly'', ''fast''] 1 (-1) 1 ''keyspace'',
     cmd ''expire'' (-3) [''write'', ''fast''] 1 1 1 ''keyspace'',
     cmd ''pexpire'' (-3) [''write'', ''fast''] 1 1 1 ''keyspace'',
     cmd ''expireat'' (-3) [''write'', ''fast''] 1 1 1 ''keyspace'',
     cmd ''pexpireat'' (-3) [''write'', ''fast''] 1 1 1 ''keyspace'',
     cmd ''ttl'' 2 [''readonly'', ''fast''] 1 1 1 ''keyspace'',
     cmd ''pttl'' 2 [''readonly'', ''fast''] 1 1 1 ''keyspace'',
     cmd ''persist'' 2 [''write'', ''fast''] 1 1 1 ''keyspace'',
     cmd ''type'' 2 [''readonly'', ''fast''] 1 1 1 ''keyspace'',
     cmd ''scan'' (-2) [''readonly''] 0 0 0 ''keyspace'',
     cmd ''keys'' 2 [''readonly''] 0 0 0 ''keyspace'']"

definition hashCmds :: "CmdDef list" where
  "hashCmds =
    [cmd ''hset'' (-4) [''write'', ''denyoom'', ''fast''] 1 1 1 ''hash'',
     cmd ''hget'' 3 [''readonly'', ''fast''] 1 1 1 ''hash'',
     cmd ''hmset'' (-4) [''write'', ''denyoom'', ''fast''] 1 1 1 ''hash'',
     cmd ''hmget'' (-3) [''readonly'', ''fast''] 1 1 1 ''hash'',
     cmd ''hgetall'' 2 [''readonly''] 1 1 1 ''hash'',
     cmd ''hdel'' (-3) [''write'', ''fast''] 1 1 1 ''hash'',
     cmd ''hexists'' 3 [''readonly'', ''fast''] 1 1 1 ''hash'',
     cmd ''hlen'' 2 [''readonly'', ''fast''] 1 1 1 ''hash'',
     cmd ''hkeys'' 2 [''readonly''] 1 1 1 ''hash'',
     cmd ''hvals'' 2 [''readonly''] 1 1 1 ''hash'',
     cmd ''hincrby'' 4 [''write'', ''denyoom'', ''fast''] 1 1 1 ''hash'',
     cmd ''hincrbyfloat'' 4 [''write'', ''denyoom'', ''fast''] 1 1 1 ''hash'',
     cmd ''hsetnx'' 4 [''write'', ''denyoom'', ''fast''] 1 1 1 ''hash'',
     cmd ''hstrlen'' 3 [''readonly'', ''fast''] 1 1 1 ''hash'',
     cmd ''hrandfield'' (-2) [''readonly''] 1 1 1 ''hash'',
     cmd ''hscan'' (-3) [''readonly''] 0 0 0 ''hash'']"

definition listCmds :: "CmdDef list" where
  "listCmds =
    [cmd ''lpush'' (-3) [''write'', ''denyoom'', ''fast''] 1 1 1 ''list'',
     cmd ''rpush'' (-3) [''write'', ''denyoom'', ''fast''] 1 1 1 ''list'',
     cmd ''lpushx'' (-3) [''write'', ''denyoom'', ''fast''] 1 1 1 ''list'',
     cmd ''rpushx'' (-3) [''write'', ''denyoom'', ''fast''] 1 1 1 ''list'',
     cmd ''lpop'' (-2) [''write'', ''fast''] 1 1 1 ''list'',
     cmd ''rpop'' (-2) [''write'', ''fast''] 1 1 1 ''list'',
     cmd ''llen'' 2 [''readonly'', ''fast''] 1 1 1 ''list'',
     cmd ''lrange'' 4 [''readonly''] 1 1 1 ''list'',
     cmd ''lindex'' 3 [''readonly''] 1 1 1 ''list'',
     cmd ''lset'' 4 [''write'', ''denyoom''] 1 1 1 ''list'',
     cmd ''linsert'' 5 [''write'', ''denyoom''] 1 1 1 ''list'',
     cmd ''lrem'' 4 [''write''] 1 1 1 ''list'',
     cmd ''ltrim'' 4 [''write''] 1 1 1 ''list'',
     cmd ''rpoplpush'' 3 [''write'', ''denyoom''] 1 2 1 ''list'',
     cmd ''lpos'' (-3) [''readonly''] 1 1 1 ''list'',
     cmd ''lmove'' 5 [''write'', ''denyoom''] 1 2 1 ''list'',
     cmd ''blpop'' (-3) [''write'', ''blocking''] 1 (-2) 1 ''list'',
     cmd ''brpop'' (-3) [''write'', ''blocking''] 1 (-2) 1 ''list'',
     cmd ''blmove'' 6 [''write'', ''denyoom'', ''blocking''] 1 2 1 ''list'',
     cmd ''blmpop'' (-5) [''write'', ''blocking''] 0 0 0 ''list'',
     cmd ''brpoplpush'' 4 [''write'', ''denyoom'', ''blocking''] 1 2 1 ''list'']"

definition setCmds :: "CmdDef list" where
  "setCmds =
    [cmd ''sadd'' (-3) [''write'', ''denyoom'', ''fast''] 1 1 1 ''set'',
     cmd ''srem'' (-3) [''write'', ''fast''] 1 1 1 ''set'',
     cmd ''smembers'' 2 [''readonly''] 1 1 1 ''set'',
     cmd ''sismember'' 3 [''readonly'', ''fast''] 1 1 1 ''set'',
     cmd ''smismember'' (-3) [''readonly'', ''fast''] 1 1 1 ''set'',
     cmd ''scard'' 2 [''readonly'', ''fast''] 1 1 1 ''set'',
     cmd ''spop'' (-2) [''write'', ''random''] 1 1 1 ''set'',
     cmd ''srandmember'' (-2) [''readonly'', ''random''] 1 1 1 ''set'',
     cmd ''smove'' 4 [''write'', ''fast''] 1 2 1 ''set'',
     cmd ''sinter'' (-2) [''readonly''] 1 (-1) 1 ''set'',
     cmd ''sunion'' (-2) [''readonly''] 1 (-1) 1 ''set'',
     cmd ''sdiff'' (-2) [''readonly''] 1 (-1) 1 ''set'',
     cmd ''sinterstore'' (-3) [''write'', ''denyoom''] 1 (-1) 1 ''set'',
     cmd ''sunionstore'' (-3) [''write'', ''denyoom''] 1 (-1) 1 ''set'',
     cmd ''sdiffstore'' (-3) [''write'', ''denyoom''] 1 (-1) 1 ''set'',
     cmd ''sintercard'' (-3) [''readonly''] 0 0 0 ''set'',
     cmd ''sscan'' (-3) [''readonly''] 0 0 0 ''set'']"

definition sortedSetCmds :: "CmdDef list" where
  "sortedSetCmds =
    [cmd ''zadd'' (-4) [''write'', ''denyoom'', ''fast''] 1 1 1 ''sorted_set'',
     cmd ''zscore'' 3 [''readonly'', ''fast''] 1 1 1 ''sorted_set'',
     cmd ''zmscore'' (-3) [''readonly'', ''fast''] 1 1 1 ''sorted_set'',
     cmd ''zincrby'' 4 [''write'', ''denyoom'', ''fast''] 1 1 1 ''sorted_set'',
     cmd ''zrank'' (-3) [''readonly'', ''fast''] 1 1 1 ''sorted_set'',
     cmd ''zrevrank'' (-3) [''readonly'', ''fast''] 1 1 1 ''sorted_set'',
     cmd ''zrange'' (-4) [''readonly''] 1 1 1 ''sorted_set'',
     cmd ''zrangebyscore'' (-4) [''readonly''] 1 1 1 ''sorted_set'',
     cmd ''zrangebylex'' (-4) [''readonly''] 1 1 1 ''sorted_set'',
     cmd ''zrevrange'' (-4) [''readonly''] 1 1 1 ''sorted_set'',
     cmd ''zrevrangebyscore'' (-4) [''readonly''] 1 1 1 ''sorted_set'',
     cmd ''zremrangebyrank'' 4 [''write''] 1 1 1 ''sorted_set'',
     cmd ''zremrangebyscore'' 4 [''write''] 1 1 1 ''sorted_set'',
     cmd ''zremrangebylex'' 4 [''write''] 1 1 1 ''sorted_set'',
     cmd ''zcard'' 2 [''readonly'', ''fast''] 1 1 1 ''sorted_set'',
     cmd ''zcount'' 4 [''readonly'', ''fast''] 1 1 1 ''sorted_set'',
     cmd ''zlexcount'' 4 [''readonly'', ''fast''] 1 1 1 ''sorted_set'',
     cmd ''zrem'' (-3) [''write'', ''fast''] 1 1 1 ''sorted_set'',
     cmd ''zpopmin'' (-2) [''write'', ''fast''] 1 1 1 ''sorted_set'',
     cmd ''zpopmax'' (-2) [''write'', ''fast''] 1 1 1 ''sorted_set'',
     cmd ''bzpopmin'' (-3) [''write'', ''blocking''] 1 (-2) 1 ''sorted_set'',
     cmd ''bzpopmax'' (-3) [''write'', ''blocking''] 1 (-2) 1 ''sorted_set'',
     cmd ''bzmpop'' (-5) [''write'', ''blocking''] 0 0 0 ''sorted_set'',
     cmd ''zrandmember'' (-2) [''readonly'', ''random''] 1 1 1 ''sorted_set'',
     cmd ''zdiff'' (-3) [''readonly''] 0 0 0 ''sorted_set'',
     cmd ''zinter'' (-3) [''readonly''] 0 0 0 ''sorted_set'',
     cmd ''zunion'' (-3) [''readonly''] 0 0 0 ''sorted_set'',
     cmd ''zinterstore'' (-4) [''write'', ''denyoom''] 0 0 0 ''sorted_set'',
     cmd ''zunionstore'' (-4) [''write'', ''denyoom''] 0 0 0 ''sorted_set'',
     cmd ''zscan'' (-3) [''readonly''] 0 0 0 ''sorted_set'']"

definition pubsubCmds :: "CmdDef list" where
  "pubsubCmds =
    [cmd ''subscribe'' (-2) [''fast'', ''noscript''] 0 0 0 ''pubsub'',
     cmd ''psubscribe'' (-2) [''fast'', ''noscript''] 0 0 0 ''pubsub'',
     cmd ''unsubscribe'' (-1) [''fast'', ''noscript''] 0 0 0 ''pubsub'',
     cmd ''punsubscribe'' (-1) [''fast'', ''noscript''] 0 0 0 ''pubsub'',
     cmd ''publish'' 3 [''fast''] 0 0 0 ''pubsub'',
     cmd ''pubsub'' (-2) [''random''] 0 0 0 ''pubsub'']"

definition scriptingCmds :: "CmdDef list" where
  "scriptingCmds =
    [cmd ''eval'' (-3) [''noscript'', ''stale'', ''skip_monitor'', ''no_mandatory_keys'', ''movablekeys''] 0 0 0 ''scripting'',
     cmd ''evalsha'' (-3) [''noscript'', ''stale'', ''skip_monitor'', ''no_mandatory_keys'', ''movablekeys''] 0 0 0 ''scripting'',
     cmd ''eval_ro'' (-3) [''readonly'', ''noscript'', ''stale'', ''skip_monitor'', ''no_mandatory_keys'', ''movablekeys''] 0 0 0 ''scripting'',
     cmd ''evalsha_ro'' (-3) [''readonly'', ''noscript'', ''stale'', ''skip_monitor'', ''no_mandatory_keys'', ''movablekeys''] 0 0 0 ''scripting'',
     cmd ''script'' (-2) [''noscript''] 0 0 0 ''scripting'']"

definition serverCmds :: "CmdDef list" where
  "serverCmds =
    [cmd ''info'' (-1) [''readonly''] 0 0 0 ''server'',
     cmd ''dbsize'' 1 [''readonly'', ''fast''] 0 0 0 ''server'',
     cmd ''flushdb'' (-1) [''write''] 0 0 0 ''server'',
     cmd ''flushall'' (-1) [''write''] 0 0 0 ''server'',
     cmd ''config'' (-2) [''admin'', ''noscript''] 0 0 0 ''server'',
     cmd ''client'' (-2) [''admin'', ''noscript''] 0 0 0 ''server'',
     cmd ''command'' (-1) [''readonly''] 0 0 0 ''server'',
     cmd ''monitor'' 1 [''admin'', ''noscript''] 0 0 0 ''server'',
     cmd ''save'' 1 [''admin'', ''noscript''] 0 0 0 ''server'',
     cmd ''bgsave'' 1 [''admin'', ''noscript''] 0 0 0 ''server'',
     cmd ''lastsave'' 1 [''readonly'', ''fast''] 0 0 0 ''server'',
     cmd ''bgrewriteaof'' 1 [''admin'', ''noscript''] 0 0 0 ''server'']"

definition cmdDefs :: "CmdDef list" where
  "cmdDefs = connectionCmds @ transactionCmds @ stringCmds @ keyspaceCmds @ hashCmds @ listCmds @ setCmds @ sortedSetCmds @ pubsubCmds @ scriptingCmds @ serverCmds"

text \<open>\<^verbatim>\<open>table[name]\<close>.\<close>

definition table :: "string \<Rightarrow> CmdDef option" where
  "table name = map_of (map (\<lambda>d. (cd_name d, d)) cmdDefs) name"

definition CommandCount :: int where "CommandCount = int (length cmdDefs)"

definition hasFlag :: "CmdDef \<Rightarrow> string \<Rightarrow> bool" where
  "hasFlag d f \<longleftrightarrow> f \<in> set (Flags d)"

text \<open>The arity rule of \<^verbatim>\<open>Execute\<close>: positive is exact, negative is a minimum.\<close>

definition arity_ok :: "CmdDef \<Rightarrow> string list \<Rightarrow> bool" where
  "arity_ok d args \<longleftrightarrow> \<not> ((0 < Arity d \<and> int (length args) \<noteq> Arity d) \<or> (Arity d < 0 \<and> int (length args) < - Arity d))"

lemmas group_defs = connectionCmds_def transactionCmds_def stringCmds_def keyspaceCmds_def hashCmds_def listCmds_def setCmds_def sortedSetCmds_def pubsubCmds_def scriptingCmds_def serverCmds_def

lemma table_names: "distinct (map cd_name cmdDefs)"
  by (simp add: cmdDefs_def group_defs cmd_def)

lemma table_Some: "table name = Some d \<longleftrightarrow> d \<in> set cmdDefs \<and> cd_name d = name"
proof -
  have "distinct (map fst (map (\<lambda>d. (cd_name d, d)) cmdDefs))"
    using table_names by (simp add: comp_def)
  then show ?thesis unfolding table_def by (auto simp: map_of_eq_Some_iff)
qed

end
