(* ===== verification/Acts.thy ===== *)
theory Acts
  imports Tasks
begin

text \<open>
  The invariant \<open>db_inv\<close> of a serving engine and the steps \<open>act\<close> of command handlers, sweeps,
  evictions and flushes. Every step keeps the invariant and is a sequence of the keyspace steps
  of \<open>kstep\<close>, so stamps only grow; a fresh engine satisfies the invariant.
\<close>

named_theorems acts_intros \<open>extending a sequence of steps by one operation\<close>

section \<open>The invariant\<close>

definition value_ok :: "('q, 'z, 't, 'h, 'l, 'f) packages \<Rightarrow> ('q, 'z) gval \<Rightarrow> bool" where
  "value_ok P v =
     (case v of
        VString _ \<Rightarrow> True
      | VHash h \<Rightarrow> hash_inv h
      | VList l \<Rightarrow> list_inv (PQ P) l
      | VSet s \<Rightarrow> set_inv s
      | VZSet z \<Rightarrow> zset_inv (PS P) z)"

definition vals_ok :: "('q, 'z, 't, 'h, 'l, 'f) packages \<Rightarrow> ('q, 'z, 't, 'h, 'l, 'f) st \<Rightarrow> bool" where
  "vals_ok P g \<longleftrightarrow> (\<forall>db key e. view P g db key = Some e \<longrightarrow> value_ok P (Val e))"

definition db_inv :: "('q, 'z, 't, 'h, 'l, 'f) packages \<Rightarrow> nat \<Rightarrow> ('q, 'z, 't, 'h, 'l, 'f) st \<Rightarrow> bool" where
  "db_inv P k g \<longleftrightarrow> shard_ok P k g \<and> conf_ok k g \<and> vals_ok P g"

section \<open>Steps\<close>

text \<open>Nothing but the notification log, the waiters and their channels.\<close>

definition aside :: "('q, 'z, 't, 'h, 'l, 'f) st \<Rightarrow> ('q, 'z, 't, 'h, 'l, 'f) st \<Rightarrow> bool" where
  "aside g g' \<longleftrightarrow> quiet g g' \<and>
     (\<forall>j. expHeap (shards g' j) = expHeap (shards g j) \<and> lruAll (shards g' j) = lruAll (shards g j) \<and>
          lruVol (shards g' j) = lruVol (shards g j))"

inductive act ::
  "('q, 'z, 't, 'h, 'l, 'f) packages \<Rightarrow> nat \<Rightarrow> ('q, 'z, 't, 'h, 'l, 'f) st \<Rightarrow> ('q, 'z, 't, 'h, 'l, 'f) st \<Rightarrow> bool"
  for P k where
  a_lookup: "db < maxDBs g \<Longrightarrow> act P k g (snd (Lookup P (ShardIndex P k key) g db key))"
| a_delete: "db < maxDBs g \<Longrightarrow> act P k g (snd (Delete P (ShardIndex P k key) g db key))"
| a_store: "\<lbrakk>db < maxDBs g; value_ok P (Val e);
    ExpireAtMs e = 0 \<or> (\<exists>b. search P g db key = Some b \<and> ExpireAtMs e = ExpireAtMs (ents g b) \<and> ExpGen e = ExpGen (ents g b))\<rbrakk> \<Longrightarrow>
    act P k g (snd (storeEntry P (ShardIndex P k key) g db key e))"
| a_store_ttl: "\<lbrakk>db < maxDBs g; value_ok P (Val e); 0 < ExpireAtMs e; storeEntry P (ShardIndex P k key) g db key e = (a, g1)\<rbrakk> \<Longrightarrow>
    act P k g (PushExpire P (ShardIndex P k key) g1 db key a)"
| a_touch: "\<lbrakk>db < maxDBs g; search P g db key = Some a\<rbrakk> \<Longrightarrow> act P k g (Touch P (ShardIndex P k key) g db key a)"
| a_val: "\<lbrakk>db < maxDBs g; search P g db key = Some a; value_ok P (Val (ents g a)) \<Longrightarrow> value_ok P v\<rbrakk> \<Longrightarrow> act P k g (setVal a v g)"
| a_expire: "\<lbrakk>db < maxDBs g; search P g db key = Some a; 0 < t\<rbrakk> \<Longrightarrow>
    act P k g (PushExpire P (ShardIndex P k key) (Touch P (ShardIndex P k key) (setExpire a t g) db key a) db key a)"
| a_persist: "\<lbrakk>db < maxDBs g; search P g db key = Some a\<rbrakk> \<Longrightarrow> act P k g (setExpire a 0 g)"
| a_aside: "aside g g' \<Longrightarrow> act P k g g'"
| a_evict: "act P k g (maybeEvict P i g)"
| a_sweep: "sweep P i (NowMs g) limit late g = Some (r, g') \<Longrightarrow> act P k g g'"
| a_flush: "db < maxDBs g \<Longrightarrow> act P k g (FlushDBTok P g db)"
| a_tick: "0 \<le> t \<Longrightarrow> act P k g (g\<lparr>NowMs := t\<rparr>)"

text \<open>
  The random policies are covered when the table's samples hold no key twice; the other
  policies need no assumption.
\<close>

definition evict_safe :: "('q, 'z, 't, 'h, 'l, 'f) packages \<Rightarrow> ('q, 'z, 't, 'h, 'l, 'f) st \<Rightarrow> bool" where
  "evict_safe P g \<longleftrightarrow> (is_random (policy g) \<longrightarrow> samples_distinct P)"

abbreviation acts where "acts P k \<equiv> (act P k)\<^sup>*\<^sup>*"

lemma db_invD:
  assumes "db_inv P k g"
  shows "shard_ok P k g" "conf_ok k g" "vals_ok P g" "eng_inv P k g" "heap_ok P k g" "lru_ok P k g" "ptr_ok P g" "kbits g = k"
  using assms by (simp_all add: db_inv_def shard_ok_def eng_inv_def)

lemma asideD:
  assumes "aside g g'"
  shows "quiet g g'" "heapItems P g' j = heapItems P g j" "lruKeys P g' j = lruKeys P g j" "view P g' = view P g"
  using assms by (auto simp: aside_def heapItems_def lruKeys_def quiet_view)

context pluto_laws
begin

section \<open>Steps keep the invariant\<close>

lemma db_inv_vupd:
  assumes inv: "db_inv P k g" and eng: "eng_inv P k g'" and v: "view P g' = vupd P g db key v"
    and conf: "maxDBs g' = maxDBs g" "shardCount g' = shardCount g" and db: "db < maxDBs g"
    and lru: "\<And>j. lruKeys P g' j \<subseteq> lruKeys P g j \<union> (if j = ShardIndex P k key then {(db, key)} else {})"
    and heap: "\<And>j. heapItems P g' j = heapItems P g j \<or>
      j = ShardIndex P k key \<and> (\<exists>it. heapItems P g' j = insert it (heapItems P g j) \<and> Key it = key \<and> DB it = db \<and> 0 < At it)"
    and val: "\<And>e. v = Some e \<Longrightarrow> value_ok P (Val e) \<and> (0 < ExpireAtMs e \<longrightarrow> itemOf db key e \<in> heapItems P g' (ShardIndex P k key))"
  shows "db_inv P k g'"
proof -
  have "vals_ok P g'"
    using db_invD(3) [OF inv] val unfolding vals_ok_def v vupd_def by metis
  moreover have "lru_ok P k g'"
    unfolding lru_ok_def
  proof (intro allI ballI)
    fix j x assume "x \<in> lruKeys P g' j"
    then consider "x \<in> lruKeys P g j" | "j = ShardIndex P k key" "x = (db, key)"
      using lru [of j] by (auto split: if_splits)
    then show "ShardIndex P k (snd x) = j \<and> fst x < maxDBs g'"
      using db_invD(6) [OF inv] db conf(1) by cases (auto simp: lru_ok_def)
  qed
  moreover have "heap_ok P k g'"
    unfolding heap_ok_def
  proof (intro conjI allI ballI impI)
    fix j it assume it: "it \<in> heapItems P g' j"
    have old: "it \<in> heapItems P g j \<Longrightarrow> ShardIndex P k (Key it) = j \<and> DB it < maxDBs g' \<and> 0 < At it"
      using heap_ok_item [OF db_invD(5) [OF inv]] conf(1) by auto
    show "ShardIndex P k (Key it) = j" "DB it < maxDBs g'" "0 < At it"
      using heap [of j] it old db conf(1) by auto
  next
    fix d x e assume e: "view P g' d x = Some e" "0 < ExpireAtMs e"
    show "itemOf d x e \<in> heapItems P g' (ShardIndex P k x)"
    proof (cases "d = db \<and> x = key")
      case True
      then show ?thesis using e val v by (simp add: vupd_def)
    next
      case False
      then have "itemOf d x e \<in> heapItems P g (ShardIndex P k x)"
        using db_invD(5) [OF inv] e v by (auto simp: vupd_def heap_ok_def)
      then show ?thesis using heap [of "ShardIndex P k x"] by auto
    qed
  qed
  ultimately show ?thesis using eng db_invD(2) [OF inv] conf by (simp add: db_inv_def shard_ok_def conf_ok_def)
qed

lemma db_inv_removes:
  assumes inv: "db_inv P k g" and rm: "rm_ok P k R g g'"
  shows "db_inv P k g'"
proof -
  have r: "removes P k R g g'" "shard_ok P k g'" using rm by (simp_all add: rm_ok_def)
  have "conf_ok k g'" using removes_keeps [OF r(1) db_invD(4) [OF inv]] db_invD(2) [OF inv] by (simp add: conf_eq_def conf_ok_def)
  moreover have "vals_ok P g'"
    using removes_view [OF r(1) db_invD(4) [OF inv]] db_invD(3) [OF inv] unfolding vals_ok_def by (metis option.distinct(1))
  ultimately show ?thesis using r(2) by (simp add: db_inv_def)
qed


lemma lruKeys_track:
  "lruKeys P (trackAccess P i g db key a) j \<subseteq> lruKeys P g j \<union> (if j = i then {(db, key)} else {})"
  using lru_put_keys [of "lruAll (shards g i)" "(db, key)"] lru_put_keys [of "lruVol (shards g i)" "(db, key)"]
  by (auto simp: lruKeys_def trackAccess_def Let_def)

lemma lruKeys_frame [simp]:
  "lruKeys P (upd_entry a f g) j = lruKeys P g j" "lruKeys P (addMem i g db d) j = lruKeys P g j"
  "lruKeys P (tombstone i g db key v) j = lruKeys P g j" "lruKeys P (tabInsert P g db key a) j = lruKeys P g j"
  "lruKeys P (snd (tabDelete P g db key)) j = lruKeys P g j"
  "lruKeys P (g\<lparr>events := es\<rparr>) j = lruKeys P g j" "lruKeys P (g\<lparr>ents := x, nxt := y\<rparr>) j = lruKeys P g j"
  "lruKeys P (upd_shard i (\<lambda>s. s\<lparr>tomb := tf s\<rparr>) g) j = lruKeys P g j"
  "lruKeys P (upd_shard i (\<lambda>s. s\<lparr>expHeap := hf s\<rparr>) g) j = lruKeys P g j"
  by (simp_all add: lruKeys_def tombstone_def Let_def)

lemma lruKeys_untrack: "lruKeys P (untrack P i g db key) j \<subseteq> lruKeys P g j"
  by (auto simp: lruKeys_def untrack_def Let_def lru_delete_keys)

lemma lruKeys_expireEntry: "lruKeys P (expireEntry P i g db key a) j \<subseteq> lruKeys P g j"
  using lruKeys_dropEntry [of i g db key a j] by (simp add: expireEntry_def Let_def lruKeys_def)

lemma lruKeys_Lookup:
  "lruKeys P (snd (Lookup P i g db key)) j \<subseteq> lruKeys P g j \<union> (if j = i then {(db, key)} else {})"
proof (cases rule: Lookup_cases [of g db key i])
  case (expired a)
  then show ?thesis using lruKeys_expireEntry [of i g db key a j] by auto
qed (use lruKeys_track in auto)

lemma lruKeys_Delete:
  "lruKeys P (snd (Delete P i g db key)) j \<subseteq> lruKeys P g j \<union> (if j = i then {(db, key)} else {})"
proof (cases "Lookup P i g db key")
  case (Pair r g1)
  have "lruKeys P (snd (Delete P i g db key)) j \<subseteq> lruKeys P g1 j"
    using Pair lruKeys_untrack by (cases r) (fastforce simp: Delete_def Let_def)+
  then show ?thesis using lruKeys_Lookup [of i g db key j] Pair by auto
qed

lemma lruKeys_Touch:
  "lruKeys P (Touch P i g db key a) j \<subseteq> lruKeys P g j \<union> (if j = i then {(db, key)} else {})"
  using lruKeys_track by (fastforce simp: Touch_def Let_def)

lemma lruKeys_Store:
  "lruKeys P (Store P i g db key a) j \<subseteq> lruKeys P g j \<union> (if j = i then {(db, key)} else {})"
proof -
  have sub: "lruKeys P (upd_shard i (\<lambda>s. s\<lparr>lruVol := lru_delete (PL P) (lruVol s) x, lfuVol := lf s\<rparr>) h) j \<subseteq> lruKeys P h j" for x lf h
    by (auto simp: lruKeys_def lru_delete_keys)
  show ?thesis
    unfolding Store_def Let_def using lruKeys_track sub by (auto split: if_splits) (fastforce | blast)+
qed

lemma lruKeys_PushExpire [simp]: "lruKeys P (PushExpire P i g db key a) j = lruKeys P g j"
  by (simp add: PushExpire_def Let_def)

lemma heapItems_frame [simp]:
  "heapItems P (snd (Lookup P i g db key)) j = heapItems P g j" "heapItems P (snd (Delete P i g db key)) j = heapItems P g j"
  "heapItems P (Touch P i g db key a) j = heapItems P g j" "heapItems P (Store P i g db key a) j = heapItems P g j"
  "heapItems P (upd_entry a f g) j = heapItems P g j"
  "heapItems P (g\<lparr>ents := x, nxt := y\<rparr>) j = heapItems P g j"
  by (simp_all add: heapItems_def)

lemma heapItems_PushExpire:
  "heapItems P (PushExpire P i g db key a) j =
     (if j = i then insert (itemOf db key (ents (PushExpire P i g db key a) a)) (heapItems P g j) else heapItems P g j)"
  by (simp add: heapItems_def PushExpire_heap itemOf_def)


text \<open>The entry \<^verbatim>\<open>Store\<close> leaves for a fresh one.\<close>

lemma storeEntry_spec:
  assumes s: "storeEntry P i g db key e = (a, g')" and inv: "eng_inv P k g"
  defines "e' \<equiv> e\<lparr>Version := Suc (verOf P i g db key), memBytes := entryMem P key e\<rparr>"
  shows "view P g' = vupd P g db key (Some e')" "search P g' db key = Some a" "ents g' a = e'"
    "maxDBs g' = maxDBs g" "kbits g' = kbits g" "shardCount g' = shardCount g" "NowMs g' = NowMs g"
    "maxMemory g' = maxMemory g" "policy g' = policy g"
    "heapItems P g' j = heapItems P g j"
    "lruKeys P g' j \<subseteq> lruKeys P g j \<union> (if j = i then {(db, key)} else {})"
proof -
  obtain g1 where al: "alloc e g = (a, g1)" and g': "g' = Store P i g1 db key a"
    using s by (auto simp: storeEntry_def split: prod.splits)
  note v = alloc_view [OF al eng_invD(2) [OF inv]]
  have g1: "g1 = g\<lparr>ents := (ents g)(nxt g := e), nxt := Suc (nxt g)\<rparr>" using al by (auto simp: alloc_def)
  have e': "stored P i g1 db key a = e'"
  proof -
    have "verOf P i g1 db key = verOf P i g db key" by (rule verOf_cong) (simp add: v, simp add: g1)
    then show ?thesis by (simp add: stored_def v(4) e'_def)
  qed
  show "view P g' = vupd P g db key (Some e')"
    unfolding g' view_Store [OF v(3)] e' by (simp add: vupd_def fun_eq_iff v(1))
  show "search P g' db key = Some a" "ents g' a = e'" by (simp_all add: g' Store_search Store_ents e')
  show "maxDBs g' = maxDBs g" "kbits g' = kbits g" "shardCount g' = shardCount g" "NowMs g' = NowMs g"
    "maxMemory g' = maxMemory g" "policy g' = policy g" "heapItems P g' j = heapItems P g j"
    by (simp_all add: g' g1)
  show "lruKeys P g' j \<subseteq> lruKeys P g j \<union> (if j = i then {(db, key)} else {})"
    using lruKeys_Store [of i g1 db key a j] by (simp add: g' g1)
qed

lemma storeEntry_inv:
  assumes "storeEntry P i g db key e = (a, g')" "eng_inv P k g" "db < maxDBs g" "i = ShardIndex P k key"
  shows "eng_inv P k g'" "kstep P k g g'"
proof -
  obtain g1 where al: "alloc e g = (a, g1)" and g': "g' = Store P i g1 db key a"
    using assms(1) by (auto simp: storeEntry_def split: prod.splits)
  have db: "db < maxDBs g1" using al assms(3) by (auto simp: alloc_def)
  show "eng_inv P k g'"
    unfolding g' using Store_inv [OF alloc_inv [OF al assms(2)] db alloc_view(3) [OF al eng_invD(2) [OF assms(2)]] assms(4)] .
  show "kstep P k g g'" unfolding g' assms(4) by (rule kstep.store [OF assms(3) al])
qed

lemma view_some: "search P g db key = Some a \<Longrightarrow> view P g db key = Some (ents g a)"
  by (simp add: view_def)

lemma value_present: "db_inv P k g \<Longrightarrow> search P g db key = Some a \<Longrightarrow> value_ok P (Val (ents g a))"
  using view_some db_invD(3) unfolding vals_ok_def by blast

lemma item_present:
  "db_inv P k g \<Longrightarrow> search P g db key = Some a \<Longrightarrow> 0 < ExpireAtMs (ents g a) \<Longrightarrow>
     itemOf db key (ents g a) \<in> heapItems P g (ShardIndex P k key)"
  using view_some db_invD(5) unfolding heap_ok_def by blast

lemma live_ok:
  assumes "db_inv P k g" "live P g db key = Some e"
  shows "value_ok P (Val e) \<and> (0 < ExpireAtMs e \<longrightarrow> itemOf db key e \<in> heapItems P g (ShardIndex P k key))"
  using assms db_invD(3) [OF assms(1)] db_invD(5) [OF assms(1)] unfolding live_def vals_ok_def heap_ok_def
  by (auto split: option.splits if_splits)

lemma act_lookup_inv:
  assumes "db_inv P k g" "db < maxDBs g"
  shows "db_inv P k (snd (Lookup P (ShardIndex P k key) g db key))"
  by (rule db_inv_vupd [OF assms(1) Lookup_inv [OF db_invD(4) [OF assms(1)] assms(2) HOL.refl] view_Lookup])
    (use assms live_ok [OF assms(1)] lruKeys_Lookup in simp_all)

lemma act_delete_inv:
  assumes "db_inv P k g" "db < maxDBs g"
  shows "db_inv P k (snd (Delete P (ShardIndex P k key) g db key))"
  by (rule db_inv_vupd [OF assms(1) Delete_inv [OF db_invD(4) [OF assms(1)] assms(2) HOL.refl] view_Delete])
    (use assms lruKeys_Delete in simp_all)

lemma act_touch_inv:
  assumes "db_inv P k g" "db < maxDBs g" "search P g db key = Some a"
  shows "db_inv P k (Touch P (ShardIndex P k key) g db key a)"
  by (rule db_inv_vupd [OF assms(1) Touch_inv [OF db_invD(4) [OF assms(1)] assms(2,3) HOL.refl] view_Touch [OF db_invD(7) [OF assms(1)] assms(3)]])
    (use assms lruKeys_Touch value_present [OF assms(1,3)] item_present [OF assms(1,3)] in \<open>simp_all add: touched_def itemOf_def\<close>)

lemma act_entry_inv:
  assumes "db_inv P k g" "db < maxDBs g" "search P g db key = Some a" "memBytes (f (ents g a)) = memBytes (ents g a)"
    and "value_ok P (Val (f (ents g a)))"
    and "0 < ExpireAtMs (f (ents g a)) \<Longrightarrow> ExpireAtMs (f (ents g a)) = ExpireAtMs (ents g a) \<and> ExpGen (f (ents g a)) = ExpGen (ents g a)"
  shows "db_inv P k (upd_entry a f g)"
  by (rule db_inv_vupd [OF assms(1) upd_entry_inv [where f = f, OF db_invD(4) [OF assms(1)] assms(3,4)] view_upd_entry [OF db_invD(7) [OF assms(1)] assms(3)]])
    (use assms(2,5,6) item_present [OF assms(1,3)] in \<open>auto simp: itemOf_def\<close>)

lemma act_store_inv:
  assumes inv: "db_inv P k g" and db: "db < maxDBs g" and e: "value_ok P (Val e)"
    and t: "ExpireAtMs e = 0 \<or> (\<exists>b. search P g db key = Some b \<and> ExpireAtMs e = ExpireAtMs (ents g b) \<and> ExpGen e = ExpGen (ents g b))"
  shows "db_inv P k (snd (storeEntry P (ShardIndex P k key) g db key e))"
proof -
  obtain a g' where s: "storeEntry P (ShardIndex P k key) g db key e = (a, g')" by (cases "storeEntry P (ShardIndex P k key) g db key e")
  note sp = storeEntry_spec [OF s db_invD(4) [OF inv]]
  have "0 < ExpireAtMs e \<Longrightarrow> itemOf db key e \<in> heapItems P g (ShardIndex P k key)"
    using t item_present [OF inv, of db key] by (auto simp: itemOf_def)
  then have "db_inv P k g'"
    by (intro db_inv_vupd [OF inv storeEntry_inv(1) [OF s db_invD(4) [OF inv] db HOL.refl] sp(1) sp(4) sp(6) db])
      (use sp e in \<open>auto simp: itemOf_def\<close>)
  then show ?thesis by (simp add: s)
qed


section \<open>Configuration\<close>

lemma conf_eq_trans: "conf_eq g g1 \<Longrightarrow> conf_eq g1 g2 \<Longrightarrow> conf_eq g g2"
  by (simp add: conf_eq_def)

lemma conf_eq_simps [simp]:
  "conf_eq g g" "conf_eq g (upd_shard i f g)" "conf_eq g (upd_entry a h g)"
  "conf_eq g (expireEntry P i g db key a)" "conf_eq g (snd (evictEntry P i g db key a))"
  "conf_eq g (snd (sampleStripe P i db g))"
  by (simp_all add: conf_eq_def evictEntry_def Let_def sampleStripe_def split_beta)

lemma evictLRU_conf: "conf_eq g (snd (evictLRU P i vol n g))"
proof (induction n arbitrary: g)
  case (Suc n)
  have step: "conf_eq g (snd (evictLRU P i vol n g1))" if "conf_eq g g1" for g1
    using that Suc by (rule conf_eq_trans)
  have ev: "conf_eq g (snd (evictEntry P i g1 d x a))" if "conf_eq g g1" for g1 d x a
    using that conf_eq_simps(5) by (rule conf_eq_trans)
  show ?case using step ev
    by (auto simp: Let_def split_beta split: option.splits)
qed simp

lemma evictTTL_conf: "conf_eq g (snd (evictTTL P i n g))"
proof (induction n arbitrary: g)
  case (Suc n)
  have step: "conf_eq g (snd (evictTTL P i n g1))" if "conf_eq g g1" for g1
    using that Suc by (rule conf_eq_trans)
  have ev: "conf_eq g (snd (evictEntry P i g1 d x a))" "conf_eq g (expireEntry P i g1 d x a)" if "conf_eq g g1" for g1 d x a
    using conf_eq_trans [OF that conf_eq_simps(5)] conf_eq_trans [OF that conf_eq_simps(4)] by auto
  show ?case using step ev
    by (auto simp: Let_def split_beta split: option.splits)
qed simp

lemma lfuScan_conf: "conf_eq g (snd (lfuScan P i vol ds g best))"
proof (induction ds arbitrary: g best)
  case (Cons d ds)
  show ?case using conf_eq_trans [OF conf_eq_simps(6) Cons] by (simp add: split_beta)
qed simp

lemma randomItems_conf: "conf_eq g (snd (randomItems P i vol d its g))"
proof (induction its arbitrary: g)
  case (Cons it its)
  show ?case using conf_eq_trans [OF conf_eq_simps(5) Cons] Cons by (auto simp: split_beta Let_def)
qed simp

lemma randomDBs_conf: "conf_eq g (snd (randomDBs P i vol ds g))"
proof (induction ds arbitrary: g)
  case (Cons d ds)
  let ?h = "snd (sampleStripe P i d g)"
  have "conf_eq g (snd (randomItems P i vol d its ?h))" for its
    by (rule conf_eq_trans [OF conf_eq_simps(6) randomItems_conf])
  then show ?case using conf_eq_trans [OF _ Cons] by (simp add: split_beta Let_def)
qed simp

lemma evictOne_conf: "conf_eq g (snd (evictOne P i pol g))"
proof -
  have "conf_eq g (snd (evictLFU P i vol g))" for vol
  proof (cases "lfuScan P i vol [0..<maxDBs g] g None")
    case (Pair best g1)
    have "conf_eq g g1" using lfuScan_conf [of g i vol "[0..<maxDBs g]" None] Pair by simp
    then show ?thesis
      using conf_eq_trans [OF _ conf_eq_simps(5)] Pair by (cases best) (auto simp: evictLFU_def)
  qed
  then show ?thesis
    by (cases pol) (simp_all add: evictOne_def evictLRU_conf evictTTL_conf evictRandom_def randomDBs_conf)
qed

lemma evict_loop_conf: "conf_eq g (evict_loop P i pol quota n g)"
proof (induction n arbitrary: g)
  case (Suc n)
  show ?case using conf_eq_trans [OF evictOne_conf Suc] evictOne_conf by (simp add: split_beta)
qed simp

lemma warmItems_conf: "conf_eq g (warmItems P i d its g)"
proof (induction its arbitrary: g)
  case (Cons it its)
  show ?case by (auto simp: Let_def intro!: conf_eq_trans [OF _ Cons]) (auto simp: conf_eq_def)
qed simp

lemma warm_conf: "conf_eq g (warmEvictTrackers P i ds g)"
proof (induction ds arbitrary: g)
  case (Cons d ds)
  show ?case using conf_eq_trans [OF warmItems_conf Cons] by simp
qed simp

lemma maybeEvict_conf: "conf_eq g (maybeEvict P i g)"
proof -
  have w: "conf_eq g (upd_shard i f (warmEvictTrackers P i [0..<maxDBs g] g))" for f
    by (rule conf_eq_trans [OF warm_conf conf_eq_simps(2)])
  show ?thesis unfolding maybeEvict_def Let_def using w conf_eq_trans [OF _ evict_loop_conf] by simp
qed

lemma maybeEvict_sel [simp]:
  "maxDBs (maybeEvict P i g) = maxDBs g" "kbits (maybeEvict P i g) = kbits g" "NowMs (maybeEvict P i g) = NowMs g"
  "policy (maybeEvict P i g) = policy g" "shardCount (maybeEvict P i g) = shardCount g"
  "maxMemory (maybeEvict P i g) = maxMemory g"
  using maybeEvict_conf [of g i] by (simp_all add: conf_eq_def)


section \<open>Every step\<close>

lemma lruKeys_sweepStep: "lruKeys P (snd (sweepStep P i g tp)) j \<subseteq> lruKeys P g j"
proof -
  let ?g1 = "upd_shard i (\<lambda>s. s\<lparr>expHeap := hp_pop (PH P) (expHeap s)\<rparr>) g"
  have "lruKeys P (expireEntry P i ?g1 d x a) j \<subseteq> lruKeys P g j" for d x a
    using lruKeys_expireEntry [of i ?g1 d x a j] by simp
  then show ?thesis by (auto simp: sweepStep_def Let_def split: option.splits)
qed

lemma sweep_loop_lru:
  "sweep_loop P i now limit late fuel popped expired g = Some (r, g') \<Longrightarrow> lruKeys P g' j \<subseteq> lruKeys P g j"
proof (induction fuel arbitrary: popped expired g)
  case (Suc fuel)
  have "lruKeys P g' j \<subseteq> lruKeys P g j"
    if "sweep_loop P i now limit late fuel p q (snd (sweepStep P i g tp)) = Some (r, g')" for p q tp
    using Suc.IH [OF that] lruKeys_sweepStep by blast
  then show ?case
    using Suc.prems unfolding sweep_loop_Suc by (auto simp: split_beta Let_def split: option.splits if_splits)
qed simp

lemma sweep_rm_ok:
  assumes ok: "shard_ok P k g" and s: "sweep P i now limit late g = Some (r, g')"
  shows "rm_ok P k (\<lambda>e. due e now) g g'"
proof -
  obtain n pr where r: "r = (n, pr)" by (cases r)
  note sp = sweep_spec [OF s [unfolded r] shard_okD(2) [OF ok]]
  note keep = removes_keeps [OF sp(1) shard_okD(1) [OF ok]]
  have "lru_ok P k g'"
    by (rule lru_ok_subset [OF shard_okD(3) [OF ok]])
      (use sweep_loop_lru [OF s [unfolded sweep_def]] keep in \<open>simp_all add: conf_eq_def\<close>)
  then show ?thesis using sp keep by (simp add: rm_ok_def shard_ok_def)
qed

lemma Flush_db_inv:
  assumes inv: "db_inv P k g" and db: "db < maxDBs g"
  shows "db_inv P k (FlushDBTok P g db)"
proof -
  let ?g = "FlushDBTok P g db"
  have c: "conf_ok k ?g" "shardCount g = 2 ^ k" "k \<le> 64"
    using db_invD(2) [OF inv] by (simp_all add: conf_ok_def FlushDBTok_sel)
  have view: "view P ?g d x = Some e \<Longrightarrow> view P g d x = Some e \<and> d \<noteq> db" for d x e
    by (auto simp: view_Flush split: if_splits)
  have items: "heapItems P ?g j \<subseteq> heapItems P g j" for j by (auto simp: heapItems_Flush)
  have "heap_ok P k ?g"
    unfolding heap_ok_def
  proof (intro conjI allI ballI impI)
    fix j it assume "it \<in> heapItems P ?g j"
    then show "ShardIndex P k (Key it) = j" "DB it < maxDBs ?g" "0 < At it"
      using items heap_ok_item [OF db_invD(5) [OF inv]] by (auto simp: FlushDBTok_sel)
  next
    fix d x e assume "view P ?g d x = Some e" "0 < ExpireAtMs e"
    then have "itemOf d x e \<in> heapItems P g (ShardIndex P k x)" "d \<noteq> db"
      using view db_invD(5) [OF inv] unfolding heap_ok_def by blast+
    then show "itemOf d x e \<in> heapItems P ?g (ShardIndex P k x)" by (simp add: heapItems_Flush itemOf_def)
  qed
  moreover have "lru_ok P k ?g"
    by (rule lru_ok_subset [OF db_invD(6) [OF inv] lruKeys_Flush]) (simp add: FlushDBTok_sel)
  moreover have "vals_ok P ?g" using db_invD(3) [OF inv] view unfolding vals_ok_def by blast
  ultimately show ?thesis
    using Flush_inv [OF db_invD(4) [OF inv] db c(2,3)] c(1) by (simp add: db_inv_def shard_ok_def)
qed

lemma db_inv_tick: "db_inv P k (g\<lparr>NowMs := t\<rparr>) = db_inv P k g"
proof -
  have "heapItems P (g\<lparr>NowMs := t\<rparr>) = heapItems P g" "lruKeys P (g\<lparr>NowMs := t\<rparr>) = lruKeys P g"
    by (simp_all add: heapItems_def lruKeys_def fun_eq_iff)
  then show ?thesis by (simp add: db_inv_def shard_ok_def heap_ok_def lru_ok_def vals_ok_def conf_ok_def)
qed

lemma act_ttl_inv:
  assumes inv: "db_inv P k g" and db: "db < maxDBs g" and a: "search P g db key = Some a" and t: "0 < t"
  shows "db_inv P k (PushExpire P (ShardIndex P k key) (Touch P (ShardIndex P k key) (setExpire a t g) db key a) db key a)"
proof -
  let ?i = "ShardIndex P k key" and ?s = "setExpire a t g"
  let ?t = "Touch P ?i ?s db key a"
  have s: "search P ?s db key = Some a" "maxDBs ?s = maxDBs g" using a by (simp_all add: setExpire_def)
  have es: "eng_inv P k ?s" unfolding setExpire_def by (rule upd_entry_inv [OF db_invD(4) [OF inv] a]) simp
  have et: "eng_inv P k ?t" by (rule Touch_inv [OF es _ s(1)]) (simp_all add: s db)
  have vs: "view P ?s = vupd P g db key (Some ((ents g a)\<lparr>ExpireAtMs := t\<rparr>))"
    unfolding setExpire_def by (rule view_upd_entry [OF db_invD(7) [OF inv] a])
  have v: "view P (PushExpire P ?i ?t db key a) = vupd P g db key (Some (ents (PushExpire P ?i ?t db key a) a))"
    using view_PushExpire [OF eng_invD(2) [OF et], of db key a ?i] view_Touch [OF eng_invD(2) [OF es] s(1), of ?i] s(1)
    by (simp add: vs vupd_def fun_eq_iff)
  show ?thesis
  proof (rule db_inv_vupd [OF inv PushExpire_inv [OF et] v _ _ db])
    show "search P ?t db key = Some a" using s by simp
    show "lruKeys P (PushExpire P ?i ?t db key a) j \<subseteq> lruKeys P g j \<union> (if j = ?i then {(db, key)} else {})" for j
      using lruKeys_Touch [of ?i ?s db key a j] by (simp add: setExpire_def)
    have "heapItems P ?t j = heapItems P g j" for j by (simp add: setExpire_def)
    then show "heapItems P (PushExpire P ?i ?t db key a) j = heapItems P g j \<or> j = ?i \<and>
        (\<exists>it. heapItems P (PushExpire P ?i ?t db key a) j = insert it (heapItems P g j) \<and> Key it = key \<and> DB it = db \<and> 0 < At it)" for j
      using t by (auto simp: heapItems_PushExpire setExpire_def touched_def itemOf_def)
    show "value_ok P (Val e) \<and> (0 < ExpireAtMs e \<longrightarrow> itemOf db key e \<in> heapItems P (PushExpire P ?i ?t db key a) ?i)"
      if "Some (ents (PushExpire P ?i ?t db key a) a) = Some e" for e
      using that value_present [OF inv a] by (auto simp: heapItems_PushExpire setExpire_def touched_def)
  qed (simp_all add: setExpire_def)
qed

lemma act_store_ttl_inv:
  assumes inv: "db_inv P k g" and db: "db < maxDBs g" and e: "value_ok P (Val e)" "0 < ExpireAtMs e"
    and s: "storeEntry P (ShardIndex P k key) g db key e = (a, g1)"
  shows "db_inv P k (PushExpire P (ShardIndex P k key) g1 db key a)"
proof -
  let ?i = "ShardIndex P k key"
  let ?g' = "PushExpire P ?i g1 db key a"
  note sp = storeEntry_spec [OF s db_invD(4) [OF inv]]
  note inv1 = storeEntry_inv(1) [OF s db_invD(4) [OF inv] db HOL.refl]
  have v: "view P ?g' = vupd P g db key (Some (ents ?g' a))"
    using view_PushExpire [OF eng_invD(2) [OF inv1] sp(2), of ?i] by (simp add: sp(1) vupd_def fun_eq_iff)
  show ?thesis
  proof (rule db_inv_vupd [OF inv PushExpire_inv [OF inv1 sp(2)] v _ _ db])
    show "heapItems P ?g' j = heapItems P g j \<or> j = ?i \<and>
        (\<exists>it. heapItems P ?g' j = insert it (heapItems P g j) \<and> Key it = key \<and> DB it = db \<and> 0 < At it)" for j
      using e(2) by (auto simp: heapItems_PushExpire sp itemOf_def)
    show "value_ok P (Val x) \<and> (0 < ExpireAtMs x \<longrightarrow> itemOf db key x \<in> heapItems P ?g' ?i)"
      if "Some (ents ?g' a) = Some x" for x
      using that e(1) by (auto simp: heapItems_PushExpire sp(3))
    show "lruKeys P ?g' j \<subseteq> lruKeys P g j \<union> (if j = ?i then {(db, key)} else {})" for j
      using sp(11) [of j] by simp
  qed (simp_all add: sp)
qed

text \<open>The steps keep the invariant and are sequences of keyspace steps.\<close>

lemma ksteps_of_act:
  assumes "act P k g g'" "db_inv P k g" "evict_safe P g"
  shows "(kstep P k)\<^sup>*\<^sup>* g g'"
  using assms
proof (induction)
  case (a_store db g e key)
  obtain a g1 where s: "storeEntry P (ShardIndex P k key) g db key e = (a, g1)" by (cases "storeEntry P (ShardIndex P k key) g db key e")
  show ?case using storeEntry_inv(2) [OF s db_invD(4) [OF a_store(4)] a_store(1) HOL.refl] s by auto
next
  case (a_store_ttl db g e key a g1)
  note s = storeEntry_inv(2) [OF a_store_ttl(4) db_invD(4) [OF a_store_ttl(5)] a_store_ttl(1) HOL.refl]
  have "kstep P k g1 (PushExpire P (ShardIndex P k key) g1 db key a)"
    by (rule kstep.expireAt [OF storeEntry_spec(2) [OF a_store_ttl(4) db_invD(4) [OF a_store_ttl(5)]]])
  then show ?case using s by (meson converse_rtranclp_into_rtranclp r_into_rtranclp)
next
  case (a_val db g key a v)
  have "kstep P k g (setVal a v g)" unfolding setVal_def by (rule kstep.mutate [OF a_val(2)]) simp_all
  then show ?case by blast
next
  case (a_persist db g key a)
  have "kstep P k g (setExpire a 0 g)" unfolding setExpire_def by (rule kstep.mutate [OF a_persist(2)]) simp_all
  then show ?case by blast
next
  case (a_expire db g key a t)
  let ?i = "ShardIndex P k key" and ?s = "setExpire a t g"
  have 1: "kstep P k g ?s" unfolding setExpire_def by (rule kstep.mutate [OF a_expire(2)]) simp_all
  have 2: "kstep P k ?s (Touch P ?i ?s db key a)"
    by (rule kstep.touch) (simp_all add: setExpire_def a_expire(1,2))
  have 3: "kstep P k (Touch P ?i ?s db key a) (PushExpire P ?i (Touch P ?i ?s db key a) db key a)"
    by (rule kstep.expireAt) (simp add: setExpire_def a_expire(2))
  show ?case using 1 2 3 by (meson converse_rtranclp_into_rtranclp r_into_rtranclp)
next
  case (a_aside g g')
  have "removes P k (\<lambda>_. True) g g'" by (rule removes.quiet_step [OF removes.refl asideD(1) [OF a_aside(1)]])
  then show ?case by (blast intro: kstep.removal)
next
  case (a_evict g i)
  have "is_random (policy g) \<Longrightarrow> samples_distinct P" using a_evict(2) by (simp add: evict_safe_def)
  from maybeEvict_rm_ok [OF db_invD(1) [OF a_evict(1)] this]
  show ?case unfolding rm_ok_def by (blast intro: kstep.removal)
next
  case (a_sweep i g limit late r g')
  show ?case using sweep_rm_ok [OF db_invD(1) [OF a_sweep(2)] a_sweep(1)] unfolding rm_ok_def by (blast intro: kstep.removal)
qed (blast intro: kstep.intros)+

lemma act_inv:
  assumes "act P k g g'" "db_inv P k g" "evict_safe P g"
  shows "db_inv P k g'"
  using assms
proof (induction)
  case (a_val db g key a v)
  show ?case unfolding setVal_def
    by (rule act_entry_inv [OF a_val(4) a_val(1,2)]) (use a_val(3) value_present [OF a_val(4,2)] in simp_all)
next
  case (a_persist db g key a)
  show ?case unfolding setExpire_def
    by (rule act_entry_inv [OF a_persist(3) a_persist(1,2)]) (use value_present [OF a_persist(3,2)] in simp_all)
next
  case (a_aside g g')
  show ?case
    by (rule db_inv_removes [OF a_aside(2) quiet_rm_ok [OF db_invD(1) [OF a_aside(2)] asideD(1-3) [OF a_aside(1)]]])
next
  case (a_evict g i)
  have "is_random (policy g) \<Longrightarrow> samples_distinct P" using a_evict(2) by (simp add: evict_safe_def)
  from maybeEvict_rm_ok [OF db_invD(1) [OF a_evict(1)] this] show ?case by (rule db_inv_removes [OF a_evict(1)])
next
  case (a_sweep i g limit late r g')
  show ?case by (rule db_inv_removes [OF a_sweep(2) sweep_rm_ok [OF db_invD(1) [OF a_sweep(2)] a_sweep(1)]])
qed (simp_all add: act_lookup_inv act_delete_inv act_store_inv act_store_ttl_inv act_touch_inv act_ttl_inv Flush_db_inv db_inv_tick)

lemma sweep_loop_conf:
  "sweep_loop P i now limit late fuel popped expired g = Some (r, g') \<Longrightarrow> conf_eq g g'"
proof (induction fuel arbitrary: popped expired g)
  case (Suc fuel)
  have "conf_eq g (snd (sweepStep P i g tp))" for tp
    using conf_eq_trans [OF conf_eq_simps(2) conf_eq_simps(4)] by (simp add: sweepStep_def Let_def split: option.splits)
  then have "conf_eq g g'"
    if "sweep_loop P i now limit late fuel p q (snd (sweepStep P i g tp)) = Some (r, g')" for p q tp
    using Suc.IH [OF that] by (rule conf_eq_trans)
  then show ?case
    using Suc.prems unfolding sweep_loop_Suc by (auto simp: split_beta Let_def split: option.splits if_splits)
qed simp

lemma act_conf:
  assumes "act P k g g'"
  shows "maxDBs g' = maxDBs g \<and> kbits g' = kbits g \<and> policy g' = policy g"
  using assms
proof (induction)
  case (a_flush db g)
  then show ?case by (simp add: FlushDBTok_sel)
next
  case (a_sweep i g limit late r g')
  then show ?case using sweep_loop_conf by (auto simp: sweep_def conf_eq_def)
qed (auto simp: setVal_def setExpire_def storeEntry_def alloc_def aside_def quiet_def split: prod.splits)

lemma act_now: "act P k g g' \<Longrightarrow> 0 \<le> NowMs g \<Longrightarrow> 0 \<le> NowMs g'"
proof (induction rule: act.induct)
  case (a_flush db g)
  then show ?case by (simp add: FlushDBTok_sel)
next
  case (a_sweep i g limit late r g')
  then show ?case using sweep_loop_conf by (auto simp: sweep_def conf_eq_def)
qed (auto simp: setVal_def setExpire_def storeEntry_def alloc_def aside_def quiet_def split: prod.splits)

lemma acts_now: "acts P k g g' \<Longrightarrow> 0 \<le> NowMs g \<Longrightarrow> 0 \<le> NowMs g'"
  by (induction rule: rtranclp_induct) (auto dest: act_now)

lemma acts_keep:
  assumes "acts P k g g'" "db_inv P k g" "evict_safe P g"
  shows "db_inv P k g' \<and> evict_safe P g' \<and> maxDBs g' = maxDBs g \<and> (kstep P k)\<^sup>*\<^sup>* g g'"
  using assms(1)
proof (induction)
  case base
  then show ?case using assms by simp
next
  case (step g1 g2)
  then show ?case
    using act_inv [OF step(2)] act_conf [OF step(2)] ksteps_of_act [OF step(2)] by (auto simp: evict_safe_def)
qed

lemma acts_stamps:
  assumes "acts P k g g'" "db_inv P k g" "evict_safe P g"
  shows "stamps_grow P k g g'"
  using ksteps_keep [OF _ db_invD(4,2) [OF assms(2)]] acts_keep [OF assms] by blast

section \<open>Summaries\<close>

lemma watch_dirty_after_write:
  assumes "eng_inv P k g" "conf_ok k g" "db < maxDBs g"
    "WatchVersion P (ShardIndex P k key) g db key = ((ep, ver), g1)"
    "(kstep P k)\<^sup>*\<^sup>* g1 g2" "writes P k db key g2 g3" "(kstep P k)\<^sup>*\<^sup>* g3 g4"
  shows "fst (WatchDirty P (ShardIndex P k key) g4 db key ep ver)"
proof -
  note W = WatchVersion_stamp [OF assms(1,3,4)]
  have "kstep P k g g1" unfolding W(2) by (rule kstep.lookup [OF assms(3)])
  then have 1: "eng_inv P k g1" "conf_ok k g1" "maxDBs g1 = maxDBs g" using kstep_keeps assms(1,2) by auto
  note 2 = ksteps_keep [OF assms(5) 1(1,2)]
  have db2: "db < maxDBs g2" using 2 1(3) assms(3) by simp
  note w = writes_stamp [OF assms(6) _ _ db2]
  have 3: "eng_inv P k g3 \<and> conf_ok k g3 \<and> maxDBs g3 = maxDBs g2" using kstep_keeps w(2) 2 by blast
  note 4 = ksteps_keep [OF assms(7)]
  have "stamp_le (ep, ver) (stamp P k g2 db key)" using W(1) 2 1(3) assms(3) unfolding stamps_grow_def by metis
  moreover have "stamp_less (stamp P k g2 db key) (stamp P k g3 db key)" using w(1) 2 by blast
  moreover have "stamp_le (stamp P k g3 db key) (stamp P k g4 db key)" using 3 4 db2 unfolding stamps_grow_def by metis
  ultimately have less: "stamp_less (ep, ver) (stamp P k g4 db key)"
    by (blast intro: stamp_le_less_trans stamp_less_le_trans)
  then have "stamp P k g4 db key \<noteq> (ep, ver)" by auto
  then show ?thesis
    using WatchDirty_stamp [of g4 db ep ver key] stamp_less_imp_le [OF less] 3 4 db2 by simp
qed

lemma sweep_summary:
  assumes "shard_ok P k g"
  shows "\<exists>n pressure g'. sweep P i now limit late g = Some ((n, pressure), g') \<and> shard_ok P k g' \<and>
    (\<forall>db key. view P g' db key = view P g db key \<or>
       view P g' db key = None \<and> (\<exists>e. view P g db key = Some e \<and> due e now)) \<and>
    (limit < 0 \<longrightarrow> (\<forall>p. \<not> late p) \<longrightarrow>
       (\<forall>db key e. view P g' db key = Some e \<longrightarrow> ShardIndex P k key = i \<longrightarrow> \<not> due e now))"
proof -
  obtain n pr g' where s: "sweep P i now limit late g = Some ((n, pr), g')" by (rule sweep_total)
  have rm: "removes P k (\<lambda>e. due e now) g g'" "shard_ok P k g'" using sweep_rm_ok [OF assms s] by (simp_all add: rm_ok_def)
  note L = sweep_loop_spec [OF s [unfolded sweep_def] shard_okD(2) [OF assms]]
  have "\<not> due e now" if c: "limit < 0" "\<forall>p. \<not> late p" and e: "view P g' db key = Some e" "ShardIndex P k key = i" for db key e
  proof
    assume d: "due e now"
    then have "itemOf db key e \<in> heapItems P g' i" using shard_okD(2) [OF rm(2)] e unfolding heap_ok_def due_def by blast
    then have "now < At (itemOf db key e)" using L c by blast
    then show False using d by (simp add: itemOf_def due_def)
  qed
  moreover have "view P g' db key = view P g db key \<or> view P g' db key = None \<and> (\<exists>e. view P g db key = Some e \<and> due e now)" for db key
    using removes_view [OF rm(1) shard_okD(1) [OF assms], of db key] by auto
  ultimately show ?thesis using s rm(2) by blast
qed

lemma maybeEvict_summary:
  assumes "shard_ok P k g" "evict_safe P g"
  shows "shard_ok P k (maybeEvict P i g) \<and>
    (\<forall>db key. view P (maybeEvict P i g) db key = view P g db key \<or>
       view P (maybeEvict P i g) db key = None \<and>
       (\<exists>e. view P g db key = Some e \<and> (is_volatile (policy g) \<longrightarrow> ExpireAtMs e \<noteq> 0)))"
proof -
  have "is_random (policy g) \<Longrightarrow> samples_distinct P" using assms(2) by (simp add: evict_safe_def)
  from maybeEvict_rm_ok [OF assms(1) this, of i]
  have rm: "removes P k (\<lambda>e. is_volatile (policy g) \<longrightarrow> ExpireAtMs e \<noteq> 0) g (maybeEvict P i g)" "shard_ok P k (maybeEvict P i g)"
    by (simp_all add: rm_ok_def)
  show ?thesis using rm(2) removes_view [OF rm(1) shard_okD(1) [OF assms(1)]] by auto
qed

section \<open>Chaining steps\<close>

lemma acts_Lookup [acts_intros]:
  "acts P k g0 g \<Longrightarrow> db < maxDBs g \<Longrightarrow> acts P k g0 (snd (Lookup P (ShardIndex P k key) g db key))"
  by (erule rtranclp.rtrancl_into_rtrancl) (rule act.a_lookup)

lemma acts_Delete [acts_intros]:
  "acts P k g0 g \<Longrightarrow> db < maxDBs g \<Longrightarrow> acts P k g0 (snd (Delete P (ShardIndex P k key) g db key))"
  by (erule rtranclp.rtrancl_into_rtrancl) (rule act.a_delete)

lemma acts_storeEntry [acts_intros]:
  "acts P k g0 g \<Longrightarrow> db < maxDBs g \<Longrightarrow> value_ok P (Val e) \<Longrightarrow> ExpireAtMs e = 0 \<Longrightarrow>
     acts P k g0 (snd (storeEntry P (ShardIndex P k key) g db key e))"
  by (erule rtranclp.rtrancl_into_rtrancl) (rule act.a_store, simp_all)

lemma acts_storeColl [acts_intros]:
  "acts P k g0 g \<Longrightarrow> db < maxDBs g \<Longrightarrow> value_ok P v \<Longrightarrow>
     acts P k g0 (snd (storeColl P (ShardIndex P k key) g db key v))"
  unfolding storeColl_def by (rule acts_storeEntry) (simp_all add: newEntry_def)

lemma acts_Touch [acts_intros]:
  "acts P k g0 g \<Longrightarrow> db < maxDBs g \<Longrightarrow> search P g db key = Some a \<Longrightarrow> acts P k g0 (Touch P (ShardIndex P k key) g db key a)"
  by (erule rtranclp.rtrancl_into_rtrancl) (rule act.a_touch)

lemma acts_setVal:
  "acts P k g0 g \<Longrightarrow> db < maxDBs g \<Longrightarrow> search P g db key = Some a \<Longrightarrow>
     (value_ok P (Val (ents g a)) \<Longrightarrow> value_ok P v) \<Longrightarrow> acts P k g0 (setVal a v g)"
  by (erule rtranclp.rtrancl_into_rtrancl) (rule act.a_val)

lemma acts_persist:
  "acts P k g0 g \<Longrightarrow> db < maxDBs g \<Longrightarrow> search P g db key = Some a \<Longrightarrow> acts P k g0 (setExpire a 0 g)"
  by (erule rtranclp.rtrancl_into_rtrancl) (rule act.a_persist)

lemma acts_expire:
  "acts P k g0 g \<Longrightarrow> db < maxDBs g \<Longrightarrow> search P g db key = Some a \<Longrightarrow> 0 < t \<Longrightarrow>
     acts P k g0 (PushExpire P (ShardIndex P k key) (Touch P (ShardIndex P k key) (setExpire a t g) db key a) db key a)"
  by (erule rtranclp.rtrancl_into_rtrancl) (rule act.a_expire)

lemma acts_store_ttl:
  "acts P k g0 g \<Longrightarrow> db < maxDBs g \<Longrightarrow> value_ok P (Val e) \<Longrightarrow> 0 < ExpireAtMs e \<Longrightarrow>
     storeEntry P (ShardIndex P k key) g db key e = (a, g1) \<Longrightarrow> acts P k g0 (PushExpire P (ShardIndex P k key) g1 db key a)"
  by (erule rtranclp.rtrancl_into_rtrancl) (rule act.a_store_ttl)

lemma acts_maybeEvict [acts_intros]: "acts P k g0 g \<Longrightarrow> acts P k g0 (maybeEvict P i g)"
  by (erule rtranclp.rtrancl_into_rtrancl) (rule act.a_evict)

lemma acts_aside: "acts P k g0 g \<Longrightarrow> aside g g' \<Longrightarrow> acts P k g0 g'"
  by (erule rtranclp.rtrancl_into_rtrancl) (rule act.a_aside)

lemma acts_notify [acts_intros]: "acts P k g0 g \<Longrightarrow> acts P k g0 (notify db key ev g)"
  by (erule acts_aside) (simp add: aside_def quiet_def notify_def)

lemma acts_WakeWaiter [acts_intros]: "acts P k g0 g \<Longrightarrow> acts P k g0 (WakeWaiter i g db key)"
  by (erule acts_aside) (simp add: aside_def quiet_def WakeWaiter_def split: list.split)

lemma acts_conf: "acts P k g g' \<Longrightarrow> maxDBs g' = maxDBs g \<and> kbits g' = kbits g \<and> policy g' = policy g"
  by (induction rule: rtranclp_induct) (auto dest: act_conf)

lemma notify_sel [simp]:
  "maxDBs (notify db key ev g) = maxDBs g" "kbits (notify db key ev g) = kbits g" "NowMs (notify db key ev g) = NowMs g"
  "view P (notify db key ev g) = view P g" "ents (notify db key ev g) = ents g" "maxMemory (notify db key ev g) = maxMemory g"
proof -
  show "view P (notify db key ev g) = view P g" by (rule view_eqI) (simp_all add: notify_def)
qed (simp_all add: notify_def)

lemma storeEntry_sel [simp]:
  "maxDBs (snd (storeEntry P i g db key e)) = maxDBs g" "kbits (snd (storeEntry P i g db key e)) = kbits g"
  "NowMs (snd (storeEntry P i g db key e)) = NowMs g" "maxMemory (snd (storeEntry P i g db key e)) = maxMemory g"
  "search P (snd (storeEntry P i g db key e)) db key = Some (fst (storeEntry P i g db key e))"
  by (simp_all add: storeEntry_def alloc_def Store_search)

lemma setVal_sel [simp]:
  "maxDBs (setVal a v g) = maxDBs g" "kbits (setVal a v g) = kbits g" "NowMs (setVal a v g) = NowMs g"
  "search P (setVal a v g) = search P g" "maxMemory (setVal a v g) = maxMemory g"
  "ents (setVal a v g) = (ents g)(a := (ents g a)\<lparr>Val := v\<rparr>)"
  by (simp_all add: setVal_def)

lemma setExpire_sel [simp]:
  "maxDBs (setExpire a t g) = maxDBs g" "kbits (setExpire a t g) = kbits g" "NowMs (setExpire a t g) = NowMs g"
  "search P (setExpire a t g) = search P g" "maxMemory (setExpire a t g) = maxMemory g"
  "ents (setExpire a t g) = (ents g)(a := (ents g a)\<lparr>ExpireAtMs := t\<rparr>)"
  by (simp_all add: setExpire_def)

text \<open>A single-key handler: its task runs on the shard of the key.\<close>

lemma acts_doKey:
  assumes "kbits g = k" "acts P k g (snd (fn (ShardIndex P k key) g))"
  shows "acts P k g (snd (doKey P key fn g))"
  using assms by (simp add: doKey_def split_beta Let_def acts_maybeEvict)

lemma Lookup_facts:
  assumes "Lookup P (ShardIndex P k key) g db key = (r, g1)" "db < maxDBs g"
  shows "acts P k g g1" "maxDBs g1 = maxDBs g" "NowMs g1 = NowMs g" "ents g1 = ents g"
    "maxMemory g1 = maxMemory g" "r = Some a \<Longrightarrow> search P g1 db key = Some a"
  using Lookup_sel [of "ShardIndex P k key" g db key] assms acts_Lookup [OF rtranclp.rtrancl_refl assms(2), of key]
    Lookup_Some(2) [of "ShardIndex P k key" g db key a g1]
  by auto

end

end
