(* ===== verification/Fanout.thy ===== *)
theory Fanout
  imports Acts
begin

text \<open>
  The fan-out of multi-key commands (\<^verbatim>\<open>DoMultiTok\<close> of \<^verbatim>\<open>src/lib/shard/shard.go\<close>). The grouping
  loop partitions the key positions by shard, each group in ascending order; whatever order the
  shard tasks run in, every position is visited exactly once, and positions of the same shard
  (so all positions of one key) in ascending order. The rule \<open>doMulti_rule\<close> reduces a statement
  about the whole fan-out to one visited position.
\<close>

section \<open>Grouping\<close>

lemma group_loop_eq:
  "group_loop route keys i groups si =
     groups si @ filter (\<lambda>j. route (keys ! (j - i)) = si) [i..<i + length keys]"
proof (induction keys arbitrary: i groups)
  case Nil
  then show ?case by simp
next
  case (Cons key keys)
  have tail: "filter (\<lambda>j. route ((key # keys) ! (j - i)) = si) [Suc i..<Suc i + length keys] =
      filter (\<lambda>j. route (keys ! (j - Suc i)) = si) [Suc i..<Suc i + length keys]"
    by (rule filter_cong) (auto simp: nth_Cons')
  have "[i..<i + length (key # keys)] = i # [Suc i..<Suc i + length keys]" by (simp add: upt_rec)
  then have "filter (\<lambda>j. route ((key # keys) ! (j - i)) = si) [i..<i + length (key # keys)] =
      (if route key = si then [i] else []) @ filter (\<lambda>j. route (keys ! (j - Suc i)) = si) [Suc i..<Suc i + length keys]"
    using tail by simp
  then show ?case by (simp only: Cons group_loop.simps) simp
qed

lemma groupKeys_eq: "groupKeys route keys si = filter (\<lambda>j. route (keys ! j) = si) [0..<length keys]"
  by (simp add: groupKeys_def group_loop_eq)

lemma groupKeys_set: "i \<in> set (groupKeys route keys si) \<longleftrightarrow> i < length keys \<and> route (keys ! i) = si"
  by (auto simp: groupKeys_eq)

lemma groupKeys_sorted: "sorted_wrt (<) (groupKeys route keys si)"
  by (simp add: groupKeys_eq sorted_wrt_filter)

lemma sched_partition:
  assumes "sched (groupKeys route keys) ord"
  shows "distinct (concat (map (groupKeys route keys) ord))"
    and "set (concat (map (groupKeys route keys) ord)) = {..<length keys}"
proof -
  have "distinct ord" using assms by (simp add: sched_def)
  then show "distinct (concat (map (groupKeys route keys) ord))"
  proof (induction ord)
    case (Cons si ord)
    have 1: "distinct (groupKeys route keys si)" by (simp add: groupKeys_eq)
    have 2: "distinct (concat (map (groupKeys route keys) ord))" using Cons by simp
    have 3: "set (groupKeys route keys si) \<inter> set (concat (map (groupKeys route keys) ord)) = {}"
    proof (rule equals0I)
      fix i assume "i \<in> set (groupKeys route keys si) \<inter> set (concat (map (groupKeys route keys) ord))"
      then obtain sj where "i \<in> set (groupKeys route keys si)" "sj \<in> set ord" "i \<in> set (groupKeys route keys sj)" by auto
      then show False using Cons.prems by (simp add: groupKeys_set)
    qed
    show ?case using 1 2 3 by (simp only: list.map concat.simps distinct_append simp_thms)
  qed simp
  have "\<exists>si \<in> set ord. i \<in> set (groupKeys route keys si)" if "i < length keys" for i
  proof -
    have "i \<in> set (groupKeys route keys (route (keys ! i)))" using that by (simp add: groupKeys_set)
    moreover from this have "groupKeys route keys (route (keys ! i)) \<noteq> []" by (auto simp del: upt_Suc)
    then have "route (keys ! i) \<in> set ord" using assms unfolding sched_def by blast
    ultimately show ?thesis by blast
  qed
  then show "set (concat (map (groupKeys route keys) ord)) = {..<length keys}" by (auto simp: groupKeys_set)
qed

section \<open>Running the groups\<close>

context pluto_laws
begin

lemma each_idx_rule:
  assumes "\<And>S i acc h. \<lbrakk>I S acc h; i \<in> set idxs; \<forall>j \<in> set idxs. j \<in> S \<longleftrightarrow> j < i\<rbrakk> \<Longrightarrow>
      I (insert i S) (fst (f i (keys ! i) acc h)) (snd (f i (keys ! i) acc h))"
    and "I S acc h" "sorted_wrt (<) idxs" "\<forall>j \<in> set idxs. j \<notin> S"
  shows "I (S \<union> set idxs) (fst (each_idx keys f idxs acc h)) (snd (each_idx keys f idxs acc h))"
proof -
  have "I (S \<union> set (pre @ rest)) (fst (each_idx keys f rest acc h)) (snd (each_idx keys f rest acc h))"
    if "idxs = pre @ rest" "I (S \<union> set pre) acc h" for pre rest acc h
    using that
  proof (induction rest arbitrary: pre acc h)
    case (Cons i rest)
    have "\<forall>j \<in> set idxs. j \<in> S \<union> set pre \<longleftrightarrow> j < i"
      using Cons.prems(1) assms(3,4) by (fastforce simp: sorted_wrt_append)
    then have "I (insert i (S \<union> set pre)) (fst (f i (keys ! i) acc h)) (snd (f i (keys ! i) acc h))"
      using Cons.prems by (intro assms(1)) auto
    then show ?case using Cons.IH [of "pre @ [i]"] Cons.prems(1) by (simp add: split_beta Un_insert_right)
  qed simp
  from this [of "[]" idxs] assms(2) show ?thesis by simp
qed

lemma doMulti_rule:
  assumes ord: "sched (groupKeys (ShardIndex P k) keys) ord" and kb: "kbits g = k" and init: "I {} acc g"
    and step: "\<And>S i acc h. \<lbrakk>I S acc h; i < length keys;
        \<forall>j < length keys. ShardIndex P k (keys ! j) = ShardIndex P k (keys ! i) \<longrightarrow> (j \<in> S \<longleftrightarrow> j < i)\<rbrakk> \<Longrightarrow>
      I (insert i S) (fst (f (ShardIndex P k (keys ! i)) i (keys ! i) acc h)) (snd (f (ShardIndex P k (keys ! i)) i (keys ! i) acc h))"
    and evict: "\<And>S acc h si. I S acc h \<Longrightarrow> I S acc (maybeEvict P si h)"
  shows "I {..<length keys} (fst (doMulti P ord keys (\<lambda>si. each_idx keys (f si)) acc g))
    (snd (doMulti P ord keys (\<lambda>si. each_idx keys (f si)) acc g))"
proof -
  let ?G = "groupKeys (ShardIndex P k) keys" and ?F = "\<lambda>si. each_idx keys (f si)"
  have "I (S \<union> \<Union> (set ` ?G ` set ord')) (fst (run_groups P ?G ?F ord' acc h)) (snd (run_groups P ?G ?F ord' acc h))"
    if "distinct ord'" "I S acc h" "\<forall>si \<in> set ord'. \<forall>j \<in> set (?G si). j \<notin> S" for ord' S acc h
    using that
  proof (induction ord' arbitrary: S acc h)
    case (Cons si ord')
    let ?r = "?F si (?G si) acc h"
    have "I (S \<union> set (?G si)) (fst ?r) (snd ?r)"
    proof (rule each_idx_rule [where I = I])
      fix S i acc h assume a: "I S acc h" "i \<in> set (?G si)" "\<forall>j \<in> set (?G si). j \<in> S \<longleftrightarrow> j < i"
      then have si: "ShardIndex P k (keys ! i) = si" "i < length keys" by (auto simp: groupKeys_set)
      show "I (insert i S) (fst (f si i (keys ! i) acc h)) (snd (f si i (keys ! i) acc h))"
        using step [OF a(1) si(2)] a(3) si by (simp add: groupKeys_set)
    qed (use Cons.prems groupKeys_sorted in auto)
    then have "I (S \<union> set (?G si)) (fst ?r) (maybeEvict P si (snd ?r))" by (rule evict)
    moreover have "\<forall>sj \<in> set ord'. \<forall>j \<in> set (?G sj). j \<notin> S \<union> set (?G si)"
      using Cons.prems by (auto simp: groupKeys_set)
    ultimately show ?case
      using Cons.IH [of "S \<union> set (?G si)" "fst ?r" "maybeEvict P si (snd ?r)"] Cons.prems(1)
      by (simp add: split_beta Un_assoc)
  qed simp
  from this [of ord "{}" acc g] ord init
  have "I (\<Union> (set ` ?G ` set ord)) (fst (run_groups P ?G ?F ord acc g)) (snd (run_groups P ?G ?F ord acc g))"
    by (simp add: sched_def)
  moreover have "\<Union> (set ` ?G ` set ord) = {..<length keys}" using sched_partition(2) [OF ord] by simp
  ultimately show ?thesis using kb by (simp add: doMulti_def)
qed

lemma acts_doMulti:
  assumes "sched (groupKeys (ShardIndex P k) keys) ord" "kbits g = k" "db < maxDBs g"
    and step: "\<And>i acc h. \<lbrakk>i < length keys; db < maxDBs h; kbits h = k\<rbrakk> \<Longrightarrow>
      acts P k h (snd (f (ShardIndex P k (keys ! i)) i (keys ! i) acc h))"
  shows "acts P k g (snd (doMulti P ord keys (\<lambda>si. each_idx keys (f si)) acc g))"
proof -
  have "(\<lambda>S acc h. acts P k g h) {..<length keys} (fst (doMulti P ord keys (\<lambda>si. each_idx keys (f si)) acc g))
      (snd (doMulti P ord keys (\<lambda>si. each_idx keys (f si)) acc g))"
  proof (rule doMulti_rule [OF assms(1,2)])
    fix S :: "nat set" and i acc h assume h: "acts P k g h" and i: "i < length keys"
    have "db < maxDBs h" "kbits h = k" using acts_conf [OF h] assms(2,3) by auto
    from rtranclp_trans [OF h step [OF i this]]
    show "acts P k g (snd (f (ShardIndex P k (keys ! i)) i (keys ! i) acc h))" .
  qed (auto intro: acts_maybeEvict)
  then show ?thesis .
qed

text \<open>With no memory limit the task is followed by no eviction.\<close>

lemma maybeEvict_off:
  assumes "maxMemory g \<le> 0"
  shows "maybeEvict P i g = upd_shard i (\<lambda>s. s\<lparr>trackWarm := False\<rparr>) g" "view P (maybeEvict P i g) = view P g"
  using assms by (simp_all add: maybeEvict_def)

lemma acts_notifyAll [acts_intros]: "acts P k g0 g \<Longrightarrow> acts P k g0 (foldl (\<lambda>g key. notify db key ev g) g keys)"
  by (induction keys arbitrary: g) (simp_all add: acts_notify)

lemma acts_if_notify: "acts P k g0 g \<Longrightarrow> acts P k g0 (if b then notify db key ev g else g)"
  by (simp add: acts_notify)

lemma acts_update:
  "acts P k g0 g \<Longrightarrow> db < maxDBs g \<Longrightarrow> search P g db key = Some a \<Longrightarrow> (value_ok P (Val (ents g a)) \<Longrightarrow> value_ok P v) \<Longrightarrow>
     acts P k g0 (Touch P (ShardIndex P k key) (setVal a v g) db key a)"
  by (rule acts_Touch [OF acts_setVal]) simp_all

end

end
