(* ===== verification/Abstract_Store.thy ===== *)
theory Abstract_Store
  imports Fanout
begin

text \<open>
  The specification level: a keyspace is a map from database and key to an abstract value with
  an expiry time (0 for none), where strings are strings, hashes are association lists in insertion order, lists are lists, sets
  are sets and sorted sets are maps to scores. \<open>kv\<close> abstracts an engine state to it: expired
  keys are absent, and versions, heaps, trackers, memory counters and encodings are invisible.
  The lemmas say what the shard operations do to \<open>kv\<close>; with them each command refines a
  function on the abstract keyspace.
\<close>

section \<open>The abstract keyspace\<close>

datatype aval =
    AString string
  | AHash "(string \<times> string) list"
  | AList "string list"
  | ASet "string set"
  | AZSet "string \<rightharpoonup> float64"

type_synonym kentry = "(aval \<times> int) option"
type_synonym keyspace = "nat \<Rightarrow> string \<Rightarrow> kentry"

definition absv :: "('q, 'z, 't, 'h, 'l, 'f) packages \<Rightarrow> ('q, 'z) gval \<Rightarrow> aval" where
  "absv P v =
     (case v of
        VString s \<Rightarrow> AString s
      | VHash h \<Rightarrow> AHash (pairs h)
      | VList l \<Rightarrow> AList (ListAll (PQ P) l)
      | VSet s \<Rightarrow> ASet (set_elems s)
      | VZSet z \<Rightarrow> AZSet (zm z))"

definition abse :: "('q, 'z, 't, 'h, 'l, 'f) packages \<Rightarrow> ('q, 'z) entry \<Rightarrow> aval \<times> int" where
  "abse P e = (absv P (Val e), ExpireAtMs e)"

definition kv :: "('q, 'z, 't, 'h, 'l, 'f) packages \<Rightarrow> ('q, 'z, 't, 'h, 'l, 'f) st \<Rightarrow> keyspace" where
  "kv P g db key = map_option (abse P) (live P g db key)"

definition kvupd :: "keyspace \<Rightarrow> nat \<Rightarrow> string \<Rightarrow> kentry \<Rightarrow> keyspace" where
  "kvupd K db key v d x = (if d = db \<and> x = key then v else K d x)"

definition atype :: "aval \<Rightarrow> Type" where
  "atype v = (case v of AString _ \<Rightarrow> TypeString | AHash _ \<Rightarrow> TypeHash | AList _ \<Rightarrow> TypeList | ASet _ \<Rightarrow> TypeSet | AZSet _ \<Rightarrow> TypeZSet)"

lemma atype_absv [simp]: "atype (absv P v) = typeOf v"
  by (simp add: atype_def absv_def typeOf_def split: gval.split)

lemma absv_simps [simp]:
  "absv P (VString s) = AString s" "absv P (VHash h) = AHash (pairs h)" "absv P (VList l) = AList (ListAll (PQ P) l)"
  "absv P (VSet m) = ASet (set_elems m)" "absv P (VZSet z) = AZSet (zm z)"
  by (simp_all add: absv_def)

lemma typeOf_simps [simp]:
  "typeOf (VString s) = TypeString" "typeOf (VHash h) = TypeHash" "typeOf (VList l) = TypeList"
  "typeOf (VSet m) = TypeSet" "typeOf (VZSet z) = TypeZSet"
  by (simp_all add: typeOf_def)

lemma typeOf_cases:
  "typeOf v = TypeString \<Longrightarrow> v = VString (strOf v)" "typeOf v = TypeHash \<Longrightarrow> v = VHash (hashOf v)"
  "typeOf v = TypeList \<Longrightarrow> v = VList (listOf P v)" "typeOf v = TypeSet \<Longrightarrow> v = VSet (setOf v)"
  by (cases v; simp add: strOf_def hashOf_def listOf_def setOf_def)+

lemma payload_simps [simp]:
  "strOf (VString s) = s" "hashOf (VHash h) = h" "listOf P (VList l) = l" "setOf (VSet m) = m"
  by (simp_all add: strOf_def hashOf_def listOf_def setOf_def)

lemmas abs_type_defs = absv_def typeOf_def strOf_def hashOf_def listOf_def setOf_def

lemma kvupd_same [simp]: "kvupd K db key (K db key) = K"
  by (auto simp: kvupd_def fun_eq_iff)

lemma kvupd_id [simp]: "K db key = v \<Longrightarrow> kvupd K db key v = K"
  by auto

lemma kvupd_sel [simp]: "kvupd K db key v db key = v" "x \<noteq> key \<Longrightarrow> kvupd K db key v d x = K d x"
  by (simp_all add: kvupd_def)

lemma kvupd_twice [simp]: "kvupd (kvupd K db key v) db key w = kvupd K db key w"
  by (auto simp: kvupd_def fun_eq_iff)

lemma kv_view: "kv P g db key =
    (case view P g db key of Some e \<Rightarrow> if due e (NowMs g) then None else Some (abse P e) | None \<Rightarrow> None)"
  by (simp add: kv_def live_def split: option.split)

lemma kv_vupd:
  assumes "view P g' = vupd P g db key v" "NowMs g' = NowMs g"
  shows "kv P g' = kvupd (kv P g) db key (case v of Some e \<Rightarrow> if due e (NowMs g) then None else Some (abse P e) | None \<Rightarrow> None)"
  by (auto simp: fun_eq_iff kvupd_def kv_view assms vupd_def split: option.splits)

lemma kv_cong: "view P g' = view P g \<Longrightarrow> NowMs g' = NowMs g \<Longrightarrow> kv P g' = kv P g"
  by (intro ext) (simp only: kv_view)

lemma due_upd [simp]:
  "due (e\<lparr>Val := v\<rparr>) t = due e t" "due (e\<lparr>Version := n\<rparr>) t = due e t" "due (e\<lparr>memBytes := m\<rparr>) t = due e t"
  "due (e\<lparr>ExpGen := x\<rparr>) t = due e t"
  by (simp_all add: due_def)

lemma kv_notify [simp]: "kv P (notify db key ev g) = kv P g"
proof (rule kv_cong)
  show "view P (notify db key ev g) = view P g" by (rule view_eqI) (simp_all add: notify_def)
qed (simp add: notify_def)

lemma kv_notifyAll [simp]: "kv P (foldl (\<lambda>g key. notify db key ev g) g keys) = kv P g"
  by (induction keys arbitrary: g) simp_all

lemma kv_if_notify [simp]: "kv P (if b then notify db key ev g else g) = kv P g"
  by simp

lemma kv_WakeWaiter [simp]: "kv P (WakeWaiter i g db key) = kv P g"
  by (rule kv_cong) (simp_all add: WakeWaiter_def split: list.split)

section \<open>Shard operations on the abstract keyspace\<close>

context pluto_laws
begin

lemma kv_Lookup [simp]: "kv P (snd (Lookup P i g db key)) = kv P g"
  using live_Lookup [of i g db key] by (simp add: fun_eq_iff kv_def)

lemma Lookup_kv:
  assumes L: "Lookup P i g db key = (r, g1)" and inv: "ptr_ok P g"
  shows "kv P g1 = kv P g" "ptr_ok P g1" "NowMs g1 = NowMs g" "maxMemory g1 = maxMemory g" "ents g1 = ents g"
    "maxDBs g1 = maxDBs g"
    "r = None \<Longrightarrow> kv P g db key = None"
    "r = Some a \<Longrightarrow> search P g1 db key = Some a" "r = Some a \<Longrightarrow> \<not> due (ents g1 a) (NowMs g)"
    "r = Some a \<Longrightarrow> kv P g db key = Some (abse P (ents g1 a))"
proof -
  have eq: "g1 = snd (Lookup P i g db key)" using L by simp
  show "kv P g1 = kv P g" "NowMs g1 = NowMs g" "maxMemory g1 = maxMemory g" "ents g1 = ents g" "maxDBs g1 = maxDBs g"
    by (simp_all add: eq)
  show "ptr_ok P g1"
    using inv by (rule ptr_ok_subset)
      (cases rule: Lookup_cases [of g db key i]; auto simp: eq search_expireEntry split: if_splits)+
  show "r = None \<Longrightarrow> kv P g db key = None" using Lookup_None(2) L by (auto simp: kv_def)
  show "r = Some a \<Longrightarrow> search P g1 db key = Some a" using Lookup_Some(2) L by auto
  show "r = Some a \<Longrightarrow> \<not> due (ents g1 a) (NowMs g)" using Lookup_Some(4) L \<open>ents g1 = ents g\<close> by auto
  show "r = Some a \<Longrightarrow> kv P g db key = Some (abse P (ents g1 a))"
    using arg_cong [OF Lookup_result [of g i db key], of "map_option (abse P)"] L \<open>ents g1 = ents g\<close>
    by (auto simp: kv_def)
qed

lemma kv_Delete [simp]: "kv P (snd (Delete P i g db key)) = kvupd (kv P g) db key None"
  using kv_vupd [OF view_Delete, of i g db key] by simp

lemma kv_Touch:
  assumes "ptr_ok P g" "search P g db key = Some a"
  shows "kv P (Touch P i g db key a) = kv P g"
proof -
  have "kv P (Touch P i g db key a) = kvupd (kv P g) db key (kv P g db key)"
    using kv_vupd [OF view_Touch [OF assms, of i]] assms(2)
    by (simp add: kv_view view_def touched_def abse_def)
  then show ?thesis by simp
qed

lemma kv_PushExpire:
  assumes "ptr_ok P g" "search P g db key = Some a"
  shows "kv P (PushExpire P i g db key a) = kv P g"
proof -
  have "kv P (PushExpire P i g db key a) = kvupd (kv P g) db key (kv P g db key)"
    using kv_vupd [OF view_PushExpire [OF assms, of i]] assms(2)
    by (simp add: kv_view view_def abse_def)
  then show ?thesis by simp
qed

lemma kv_setVal:
  assumes "ptr_ok P g" "search P g db key = Some a" "\<not> due (ents g a) (NowMs g)"
  shows "kv P (setVal a v g) = kvupd (kv P g) db key (Some (absv P v, ExpireAtMs (ents g a)))"
  using kv_vupd [OF view_upd_entry [OF assms(1,2)], of "\<lambda>e. e\<lparr>Val := v\<rparr>"] assms(3)
  by (simp add: setVal_def abse_def)

lemma kv_setExpire:
  assumes "ptr_ok P g" "search P g db key = Some a" "t = 0 \<or> NowMs g < t"
  shows "kv P (setExpire a t g) = kvupd (kv P g) db key (Some (absv P (Val (ents g a)), t))"
  using kv_vupd [OF view_upd_entry [OF assms(1,2)], of "\<lambda>e. e\<lparr>ExpireAtMs := t\<rparr>"] assms(3)
  by (auto simp: setExpire_def abse_def due_def)

lemma ptr_ok_frame [simp]:
  "ptr_ok P (Touch P i g db key a) = ptr_ok P g" "ptr_ok P (setVal a v g) = ptr_ok P g" "ptr_ok P (setExpire a t g) = ptr_ok P g"
  "ptr_ok P (PushExpire P i g db key a) = ptr_ok P g"
  by (rule ptr_ok_eqI; simp add: setVal_def setExpire_def)+

lemma kv_update:
  assumes "ptr_ok P g" "search P g db key = Some a" "\<not> due (ents g a) (NowMs g)"
  shows "kv P (Touch P i (setVal a v g) db key a) = kvupd (kv P g) db key (Some (absv P v, ExpireAtMs (ents g a)))"
  using kv_Touch [of "setVal a v g" db key a i] kv_setVal [OF assms] assms by simp

lemma kv_expire:
  assumes "ptr_ok P g" "search P g db key = Some a" "NowMs g < t"
  shows "kv P (PushExpire P i (Touch P i (setExpire a t g) db key a) db key a) =
    kvupd (kv P g) db key (Some (absv P (Val (ents g a)), t))"
  using kv_PushExpire [of "Touch P i (setExpire a t g) db key a" db key a i] kv_Touch [of "setExpire a t g" db key a i]
    kv_setExpire [of g db key a t] assms by simp

lemma kv_persist:
  assumes "ptr_ok P g" "search P g db key = Some a"
  shows "kv P (Touch P i (setExpire a 0 g) db key a) = kvupd (kv P g) db key (Some (absv P (Val (ents g a)), 0))"
  using kv_Touch [of "setExpire a 0 g" db key a i] kv_setExpire [of g db key a 0] assms by simp

lemma storeEntry_kv:
  assumes s: "storeEntry P i g db key e = (a, g')" and inv: "ptr_ok P g"
  shows "kv P g' = kvupd (kv P g) db key (if due e (NowMs g) then None else Some (abse P e))"
    "ptr_ok P g'" "search P g' db key = Some a" "ExpireAtMs (ents g' a) = ExpireAtMs e" "Val (ents g' a) = Val e"
    "NowMs g' = NowMs g" "maxMemory g' = maxMemory g" "maxDBs g' = maxDBs g"
proof -
  obtain g1 where al: "alloc e g = (a, g1)" and g': "g' = Store P i g1 db key a"
    using s by (auto simp: storeEntry_def split: prod.splits)
  note v = alloc_view [OF al inv]
  have g1: "NowMs g1 = NowMs g" "maxMemory g1 = maxMemory g" "maxDBs g1 = maxDBs g" using al by (auto simp: alloc_def)
  have st: "ents g' a = stored P i g1 db key a" by (simp add: g' Store_ents)
  show "search P g' db key = Some a" by (simp add: g' Store_search)
  show "ExpireAtMs (ents g' a) = ExpireAtMs e" "Val (ents g' a) = Val e" by (simp_all add: st stored_def v(4))
  show "NowMs g' = NowMs g" "maxMemory g' = maxMemory g" "maxDBs g' = maxDBs g" by (simp_all add: g' g1)
  have "view P g' = vupd P g db key (Some (stored P i g1 db key a))"
    unfolding g' view_Store [OF v(3)] by (simp add: vupd_def fun_eq_iff v(1))
  from kv_vupd [OF this \<open>NowMs g' = NowMs g\<close>]
  show "kv P g' = kvupd (kv P g) db key (if due e (NowMs g) then None else Some (abse P e))"
    by (simp add: stored_def v(4) abse_def)
  have p1: "ptr_ok P g1"
    by (rule ptr_ok_subset [OF inv]) (use al in \<open>auto simp: v(2) alloc_def\<close>)
  show "ptr_ok P g'"
    using p1 v(3) by (auto simp: g' ptr_ok_def unref_def Store_search split: if_splits)
qed

lemma kv_store:
  assumes "ptr_ok P g"
  shows "kv P (snd (storeEntry P i g db key (newEntry v))) = kvupd (kv P g) db key (Some (absv P v, 0))"
  using storeEntry_kv(1) [OF _ assms, of i db key "newEntry v"]
  by (cases "storeEntry P i g db key (newEntry v)") (simp add: newEntry_def due_def abse_def)

text \<open>A collection stored empty and filled through its object.\<close>

lemma kv_store_fill:
  assumes s: "storeColl P i g db key v0 = (a, g1)" and inv: "ptr_ok P g"
  shows "kv P (setVal a v g1) = kvupd (kv P g) db key (Some (absv P v, 0))"
proof -
  note S = storeEntry_kv [OF s [unfolded storeColl_def] inv]
  have e: "ExpireAtMs (ents g1 a) = 0" using S(4) by (simp add: newEntry_def)
  show ?thesis
    using kv_setVal [OF S(2,3), of v] e S(1) by (simp add: due_def)
qed

lemma kv_maybeEvict [simp]: "maxMemory g \<le> 0 \<Longrightarrow> kv P (maybeEvict P i g) = kv P g"
  by (rule kv_cong) (simp_all add: maybeEvict_off)

section \<open>Refinement of single-key handlers\<close>

end

text \<open>
  A handler refines \<open>spec\<close> at a key: its reply and the new abstract entry of the key are those
  of \<open>spec\<close> on the old one at the current time, and no other key changes. The statement is for
  an engine without a memory limit; with one, an eviction pass may follow the handler.
\<close>

definition refines ::
  "('q, 'z, 't, 'h, 'l, 'f) packages \<Rightarrow> nat \<Rightarrow> string \<Rightarrow> (int \<Rightarrow> kentry \<Rightarrow> rv \<times> kentry) \<Rightarrow>
     ('q, 'z, 't, 'h, 'l, 'f) st \<Rightarrow> rv \<times> ('q, 'z, 't, 'h, 'l, 'f) st \<Rightarrow> bool" where
  "refines P db key spec g out \<longleftrightarrow>
     fst out = fst (spec (NowMs g) (kv P g db key)) \<and>
     kv P (snd out) = kvupd (kv P g) db key (snd (spec (NowMs g) (kv P g db key)))"

context pluto_laws
begin

lemma doKey_kv:
  assumes "maxMemory (snd (fn (ShardIndex P (kbits g) key) g)) \<le> 0"
  shows "fst (doKey P key fn g) = fst (fn (ShardIndex P (kbits g) key) g)"
    and "kv P (snd (doKey P key fn g)) = kv P (snd (fn (ShardIndex P (kbits g) key) g))"
  using assms by (simp_all add: doKey_def split_beta Let_def)

text \<open>A task that looks its key up first: what to show of each of the two outcomes.\<close>

lemma doKey_lookup:
  assumes inv: "ptr_ok P g" "maxMemory g \<le> 0"
    and none: "\<And>i g1. \<lbrakk>kv P g1 = kv P g; ptr_ok P g1; NowMs g1 = NowMs g; maxMemory g1 \<le> 0; kv P g db key = None\<rbrakk> \<Longrightarrow>
      maxMemory (snd (B i None g1)) \<le> 0 \<and> Q (fst (B i None g1)) (kv P (snd (B i None g1)))"
    and some: "\<And>i a g1. \<lbrakk>kv P g1 = kv P g; ptr_ok P g1; NowMs g1 = NowMs g; maxMemory g1 \<le> 0; search P g1 db key = Some a;
        \<not> due (ents g1 a) (NowMs g); kv P g db key = Some (abse P (ents g1 a))\<rbrakk> \<Longrightarrow>
      maxMemory (snd (B i (Some a) g1)) \<le> 0 \<and> Q (fst (B i (Some a) g1)) (kv P (snd (B i (Some a) g1)))"
  shows "Q (fst (doKey P key (\<lambda>i g. case Lookup P i g db key of (r, g1) \<Rightarrow> B i r g1) g))
    (kv P (snd (doKey P key (\<lambda>i g. case Lookup P i g db key of (r, g1) \<Rightarrow> B i r g1) g)))"
proof -
  let ?i = "ShardIndex P (kbits g) key"
  obtain r g1 where L: "Lookup P ?i g db key = (r, g1)" by (cases "Lookup P ?i g db key")
  note K = Lookup_kv [OF L inv(1)]
  have "maxMemory (snd (B ?i r g1)) \<le> 0 \<and> Q (fst (B ?i r g1)) (kv P (snd (B ?i r g1)))"
    using none [of g1 ?i] some [of g1 _ ?i] K inv(2) by (cases r) auto
  then show ?thesis
    using doKey_kv [where fn = "\<lambda>i g. case Lookup P i g db key of (r, g1) \<Rightarrow> B i r g1" and g = g and key = key] L by simp
qed

lemma storeEntry_mem [simp]: "maxMemory (snd (storeColl P i g db key v)) = maxMemory g"
  by (simp add: storeColl_def)

end

end
