(* ===== verification/Cmd_Strings.thy ===== *)
theory Cmd_Strings
  imports Abstract_Store
begin

text \<open>
  The string commands (\<^verbatim>\<open>src/lib/commands/strings.go\<close>): SET with its option tail, GET, GETSET,
  GETDEL, GETEX, the integer counters, APPEND, STRLEN, MGET, MSET and MSETNX. \<^verbatim>\<open>args[0]\<close> is the
  command name, as in the source; the arity table guarantees the positions the handlers read.
  \<^verbatim>\<open>db\<close> is \<^verbatim>\<open>cs.DB\<close>. A handler reads the clock several times; the model gives it one value.
\<close>

section \<open>SET\<close>

record setOptions =
  o_nx :: bool
  o_xx :: bool
  o_get :: bool
  o_keepttl :: bool
  o_expireAtMs :: int
  o_hasExpire :: bool
  o_expUnit :: string

definition errInvalidExpire :: "string \<Rightarrow> rv" where
  "errInvalidExpire cmd = RErr (''ERR invalid expire time in '' @ quote @ cmd @ quote @ '' command'')"

definition isExpOpt :: "string \<Rightarrow> bool" where
  "isExpOpt opt \<longleftrightarrow> opt = ''ex'' \<or> opt = ''px'' \<or> opt = ''exat'' \<or> opt = ''pxat''"

text \<open>The loop over \<^verbatim>\<open>args[3:]\<close>; the local \<^verbatim>\<open>expUnit\<close> always equals \<^verbatim>\<open>o.expUnit\<close>.\<close>

fun setopt_loop :: "string list \<Rightarrow> setOptions \<Rightarrow> rv + setOptions" where
  "setopt_loop [] o' = Inr o'"
| "setopt_loop (arg # rest) o' =
     (let opt = lowerASCII arg
      in if opt = ''nx'' then (if o_xx o' then Inl errSyntax else setopt_loop rest (o'\<lparr>o_nx := True\<rparr>))
         else if opt = ''xx'' then (if o_nx o' then Inl errSyntax else setopt_loop rest (o'\<lparr>o_xx := True\<rparr>))
         else if opt = ''get'' then setopt_loop rest (o'\<lparr>o_get := True\<rparr>)
         else if opt = ''keepttl'' then
           (if o_expUnit o' \<noteq> [] then Inl errSyntax else setopt_loop rest (o'\<lparr>o_keepttl := True\<rparr>))
         else if isExpOpt opt then
           (if o_keepttl o' \<or> (o_expUnit o' \<noteq> [] \<and> o_expUnit o' \<noteq> opt) then Inl errSyntax
            else
              case rest of
                [] \<Rightarrow> Inl errSyntax
              | raw # rest' \<Rightarrow>
                  (case parseIntStrict raw of
                     None \<Rightarrow> Inl errNotInt
                   | Some v \<Rightarrow>
                       if v \<le> 0 then Inl (errInvalidExpire ''set'')
                       else setopt_loop rest' (o'\<lparr>o_hasExpire := True, o_expUnit := opt, o_expireAtMs := v\<rparr>)))
         else Inl errSyntax)"

definition parseSetOptions :: "string list \<Rightarrow> rv + setOptions" where
  "parseSetOptions args =
     setopt_loop (drop 3 args)
       \<lparr>o_nx = False, o_xx = False, o_get = False, o_keepttl = False, o_expireAtMs = 0, o_hasExpire = False, o_expUnit = []\<rparr>"

text \<open>\<^verbatim>\<open>resolveExpire\<close>, and the same conversion in GETEX: unit, raw value and clock to absolute ms.\<close>

definition expireMs :: "string \<Rightarrow> string \<Rightarrow> int \<Rightarrow> int \<Rightarrow> rv + int" where
  "expireMs cmd unit now v =
     (if unit = ''ex'' then
        (if quot (wrap64 (MaxInt64 - now)) 1000 < v then Inl (errInvalidExpire cmd)
         else Inr (wrap64 (now + wrap64 (v * 1000))))
      else if unit = ''px'' then Inr (wrap64 (now + v))
      else if unit = ''exat'' then
        (if quot MaxInt64 1000 < v then Inl (errInvalidExpire cmd) else Inr (wrap64 (v * 1000)))
      else Inr v)"

definition resolveExpire :: "int \<Rightarrow> setOptions \<Rightarrow> rv + setOptions" where
  "resolveExpire now o' =
     (if \<not> o_hasExpire o' then Inr o'
      else
        case expireMs ''set'' (o_expUnit o') now (o_expireAtMs o') of
          Inl err \<Rightarrow> Inl err
        | Inr at \<Rightarrow> Inr (o'\<lparr>o_expireAtMs := at\<rparr>))"

definition isString :: "('q, 'z, 't, 'h, 'l, 'f) st \<Rightarrow> addr \<Rightarrow> bool" where
  "isString g a \<longleftrightarrow> typeOf (Val (ents g a)) = TypeString"

text \<open>The write of an unblocked SET: \<open>old\<close> is the looked-up entry.\<close>

definition setWrite ::
  "('q, 'z, 't, 'h, 'l, 'f) packages \<Rightarrow> nat \<Rightarrow> nat \<Rightarrow> string \<Rightarrow> string \<Rightarrow> setOptions \<Rightarrow> addr option \<Rightarrow> ('q, 'z, 't, 'h, 'l, 'f) st \<Rightarrow> ('q, 'z, 't, 'h, 'l, 'f) st" where
  "setWrite P i db key val o' old g =
     (if o_hasExpire o' \<and> o_expireAtMs o' \<le> NowMs g then
        (if old \<noteq> None then snd (Delete P i g db key) else g)
      else
        let e0 = newEntry (VString val);
            e = (case old of
                   Some a \<Rightarrow>
                     if o_keepttl o' then e0\<lparr>ExpireAtMs := ExpireAtMs (ents g a), ExpGen := ExpGen (ents g a)\<rparr>
                     else if o_hasExpire o' then e0\<lparr>ExpireAtMs := o_expireAtMs o'\<rparr> else e0
                 | None \<Rightarrow> if o_hasExpire o' then e0\<lparr>ExpireAtMs := o_expireAtMs o'\<rparr> else e0);
            (a, g1) = storeEntry P i g db key e
        in if o_hasExpire o' then PushExpire P i g1 db key a else g1)"

definition setTask ::
  "('q, 'z, 't, 'h, 'l, 'f) packages \<Rightarrow> nat \<Rightarrow> string \<Rightarrow> string \<Rightarrow> setOptions \<Rightarrow> nat \<Rightarrow> ('q, 'z, 't, 'h, 'l, 'f) st \<Rightarrow> (rv \<times> bool) \<times> ('q, 'z, 't, 'h, 'l, 'f) st" where
  "setTask P db key val o' i g =
     (let (old, g1) = Lookup P i g db key;
          found = (old \<noteq> None)
      in if o_get o' \<and> (case old of Some a \<Rightarrow> \<not> isString g1 a | None \<Rightarrow> False) then ((errWrongType, False), g1)
         else
           let blocked = ((o_nx o' \<and> found) \<or> (o_xx o' \<and> \<not> found));
               g2 = (if blocked then g1 else setWrite P i db key val o' old g1);
               reply = (if o_get o' then (case old of Some a \<Rightarrow> RBlob (strOf (Val (ents g1 a))) | None \<Rightarrow> RNull)
                        else if blocked then RNull else replyOK)
           in ((reply, \<not> blocked), g2))"

definition cmdSet ::
  "('q, 'z, 't, 'h, 'l, 'f) packages \<Rightarrow> nat \<Rightarrow> string list \<Rightarrow> ('q, 'z, 't, 'h, 'l, 'f) st \<Rightarrow> rv \<times> ('q, 'z, 't, 'h, 'l, 'f) st" where
  "cmdSet P db args g =
     (case parseSetOptions args of
        Inl err \<Rightarrow> (err, g)
      | Inr o0 \<Rightarrow>
          (case resolveExpire (NowMs g) o0 of
             Inl err \<Rightarrow> (err, g)
           | Inr o' \<Rightarrow>
               let key = args ! 1;
                   ((reply, applied), g1) = doKey P key (setTask P db key (args ! 2) o') g;
                   g2 = (if applied then notify db key ''set'' g1 else g1);
                   g3 = (if applied \<and> o_hasExpire o' then notify db key ''expire'' g2 else g2)
               in (reply, g3)))"

section \<open>GET and family\<close>

definition cmdGet ::
  "('q, 'z, 't, 'h, 'l, 'f) packages \<Rightarrow> nat \<Rightarrow> string list \<Rightarrow> ('q, 'z, 't, 'h, 'l, 'f) st \<Rightarrow> rv \<times> ('q, 'z, 't, 'h, 'l, 'f) st" where
  "cmdGet P db args g =
     (let key = args ! 1
      in doKey P key (\<lambda>i g.
           let (r, g1) = Lookup P i g db key
           in case r of
                Some a \<Rightarrow> if isString g1 a then (RBlob (strOf (Val (ents g1 a))), g1) else (errWrongType, g1)
              | None \<Rightarrow> (RNull, g1)) g)"

definition cmdGetSet ::
  "('q, 'z, 't, 'h, 'l, 'f) packages \<Rightarrow> nat \<Rightarrow> string list \<Rightarrow> ('q, 'z, 't, 'h, 'l, 'f) st \<Rightarrow> rv \<times> ('q, 'z, 't, 'h, 'l, 'f) st" where
  "cmdGetSet P db args g =
     (let key = args ! 1;
          ((reply, stored'), g1) = doKey P key (\<lambda>i g.
            let (old, g1) = Lookup P i g db key
            in case old of
                 Some a \<Rightarrow>
                   if \<not> isString g1 a then ((errWrongType, False), g1)
                   else ((RBlob (strOf (Val (ents g1 a))), True), snd (storeEntry P i g1 db key (newEntry (VString (args ! 2)))))
               | None \<Rightarrow> ((RNull, True), snd (storeEntry P i g1 db key (newEntry (VString (args ! 2)))))) g
      in (reply, if stored' then notify db key ''set'' g1 else g1))"

definition cmdGetDel ::
  "('q, 'z, 't, 'h, 'l, 'f) packages \<Rightarrow> nat \<Rightarrow> string list \<Rightarrow> ('q, 'z, 't, 'h, 'l, 'f) st \<Rightarrow> rv \<times> ('q, 'z, 't, 'h, 'l, 'f) st" where
  "cmdGetDel P db args g =
     (let key = args ! 1;
          ((reply, deleted), g1) = doKey P key (\<lambda>i g.
            let (r, g1) = Lookup P i g db key
            in case r of
                 Some a \<Rightarrow>
                   if \<not> isString g1 a then ((errWrongType, False), g1)
                   else ((RBlob (strOf (Val (ents g1 a))), True), snd (Delete P i g1 db key))
               | None \<Rightarrow> ((RNull, False), g1)) g
      in (reply, if deleted then notify db key ''del'' g1 else g1))"

text \<open>GETEX: the syntax phase over \<^verbatim>\<open>args[2:]\<close> gives PERSIST and the expire option with its raw value.\<close>

fun getex_loop :: "string list \<Rightarrow> bool \<Rightarrow> (string \<times> string) option \<Rightarrow> rv + (bool \<times> (string \<times> string) option)" where
  "getex_loop [] persist ex = Inr (persist, ex)"
| "getex_loop (arg # rest) persist ex =
     (let opt = lowerASCII arg
      in if opt = ''persist'' then (if ex \<noteq> None then Inl errSyntax else getex_loop rest True ex)
         else if isExpOpt opt then
           (if persist \<or> ex \<noteq> None then Inl errSyntax
            else case rest of [] \<Rightarrow> Inl errSyntax | raw # rest' \<Rightarrow> getex_loop rest' persist (Some (opt, raw)))
         else Inl errSyntax)"

definition getexTask ::
  "('q, 'z, 't, 'h, 'l, 'f) packages \<Rightarrow> nat \<Rightarrow> string \<Rightarrow> bool \<Rightarrow> (string \<times> string) option \<Rightarrow> nat \<Rightarrow> ('q, 'z, 't, 'h, 'l, 'f) st \<Rightarrow>
     (rv \<times> string) \<times> ('q, 'z, 't, 'h, 'l, 'f) st" where
  "getexTask P db key persist ex i g =
     (let (r, g1) = Lookup P i g db key
      in case r of
           None \<Rightarrow> ((RNull, []), g1)
         | Some a \<Rightarrow>
             if \<not> isString g1 a then ((errWrongType, []), g1)
             else
               let reply = RBlob (strOf (Val (ents g1 a)))
               in if persist then
                    ((reply, if ExpireAtMs (ents g1 a) \<noteq> 0 then ''persist'' else []), Touch P i (setExpire a 0 g1) db key a)
                  else
                    case ex of
                      None \<Rightarrow> ((reply, []), g1)
                    | Some (kind, raw) \<Rightarrow>
                        (case parseIntStrict raw of
                           None \<Rightarrow> ((errNotInt, []), g1)
                         | Some v \<Rightarrow>
                             if v \<le> 0 then ((errInvalidExpire ''getex'', []), g1)
                             else
                               case expireMs ''getex'' kind (NowMs g1) v of
                                 Inl err \<Rightarrow> ((err, []), g1)
                               | Inr at \<Rightarrow>
                                   if at \<le> NowMs g1 then ((reply, ''del''), snd (Delete P i g1 db key))
                                   else ((reply, ''expire''),
                                         PushExpire P i (Touch P i (setExpire a at g1) db key a) db key a)))"

text \<open>The event is \<^verbatim>\<open>persist\<close>, \<^verbatim>\<open>del\<close>, \<^verbatim>\<open>expire\<close> or none (the empty string).\<close>

definition cmdGetEx ::
  "('q, 'z, 't, 'h, 'l, 'f) packages \<Rightarrow> nat \<Rightarrow> string list \<Rightarrow> ('q, 'z, 't, 'h, 'l, 'f) st \<Rightarrow> rv \<times> ('q, 'z, 't, 'h, 'l, 'f) st" where
  "cmdGetEx P db args g =
     (case getex_loop (drop 2 args) False None of
        Inl err \<Rightarrow> (err, g)
      | Inr (persist, ex) \<Rightarrow>
          let key = args ! 1;
              ((reply, ev), g1) = doKey P key (getexTask P db key persist ex) g
          in (reply, if ev \<noteq> [] then notify db key ev g1 else g1))"

section \<open>Counters\<close>

text \<open>The overflow guard, before the addition.\<close>

definition incrOverflows :: "int \<Rightarrow> int \<Rightarrow> bool" where
  "incrOverflows cur delta \<longleftrightarrow>
     (0 < delta \<and> wrap64 (MaxInt64 - delta) < cur) \<or> (delta < 0 \<and> cur < wrap64 (MinInt64 - delta))"

definition incrTask ::
  "('q, 'z, 't, 'h, 'l, 'f) packages \<Rightarrow> nat \<Rightarrow> string \<Rightarrow> int \<Rightarrow> nat \<Rightarrow> ('q, 'z, 't, 'h, 'l, 'f) st \<Rightarrow> (rv \<times> bool) \<times> ('q, 'z, 't, 'h, 'l, 'f) st" where
  "incrTask P db key delta i g =
     (let (r, g1) = Lookup P i g db key;
          cur = (case r of
                   None \<Rightarrow> Inr 0
                 | Some a \<Rightarrow>
                     if \<not> isString g1 a then Inl errWrongType
                     else case parseIntStrict (strOf (Val (ents g1 a))) of None \<Rightarrow> Inl errNotInt | Some v \<Rightarrow> Inr v)
      in case cur of
           Inl err \<Rightarrow> ((err, False), g1)
         | Inr c \<Rightarrow>
             if incrOverflows c delta
             then ((errIncrOvf, False), g1)
             else
               let c' = wrap64 (c + delta)
               in ((RInt c', True),
                   case r of
                     Some a \<Rightarrow> Touch P i (setVal a (VString (FormatInt c')) g1) db key a
                   | None \<Rightarrow> snd (storeEntry P i g1 db key (newEntry (VString (FormatInt c'))))))"

definition incrBy ::
  "('q, 'z, 't, 'h, 'l, 'f) packages \<Rightarrow> nat \<Rightarrow> string \<Rightarrow> int \<Rightarrow> ('q, 'z, 't, 'h, 'l, 'f) st \<Rightarrow> rv \<times> ('q, 'z, 't, 'h, 'l, 'f) st" where
  "incrBy P db key delta g =
     (let ((reply, done'), g1) = doKey P key (incrTask P db key delta) g
      in (reply, if done' then notify db key ''incrby'' g1 else g1))"

definition cmdIncr :: "('q, 'z, 't, 'h, 'l, 'f) packages \<Rightarrow> nat \<Rightarrow> string list \<Rightarrow> ('q, 'z, 't, 'h, 'l, 'f) st \<Rightarrow> rv \<times> ('q, 'z, 't, 'h, 'l, 'f) st" where
  "cmdIncr P db args g = incrBy P db (args ! 1) 1 g"

definition cmdDecr :: "('q, 'z, 't, 'h, 'l, 'f) packages \<Rightarrow> nat \<Rightarrow> string list \<Rightarrow> ('q, 'z, 't, 'h, 'l, 'f) st \<Rightarrow> rv \<times> ('q, 'z, 't, 'h, 'l, 'f) st" where
  "cmdDecr P db args g = incrBy P db (args ! 1) (-1) g"

definition cmdIncrBy :: "('q, 'z, 't, 'h, 'l, 'f) packages \<Rightarrow> nat \<Rightarrow> string list \<Rightarrow> ('q, 'z, 't, 'h, 'l, 'f) st \<Rightarrow> rv \<times> ('q, 'z, 't, 'h, 'l, 'f) st" where
  "cmdIncrBy P db args g =
     (case parseIntStrict (args ! 2) of None \<Rightarrow> (errNotInt, g) | Some v \<Rightarrow> incrBy P db (args ! 1) v g)"

definition cmdDecrBy :: "('q, 'z, 't, 'h, 'l, 'f) packages \<Rightarrow> nat \<Rightarrow> string list \<Rightarrow> ('q, 'z, 't, 'h, 'l, 'f) st \<Rightarrow> rv \<times> ('q, 'z, 't, 'h, 'l, 'f) st" where
  "cmdDecrBy P db args g =
     (case parseIntStrict (args ! 2) of
        None \<Rightarrow> (errNotInt, g)
      | Some v \<Rightarrow> if v = MinInt64 then (errDecrOvf, g) else incrBy P db (args ! 1) (- v) g)"

section \<open>APPEND and STRLEN\<close>

definition cmdAppend :: "('q, 'z, 't, 'h, 'l, 'f) packages \<Rightarrow> nat \<Rightarrow> string list \<Rightarrow> ('q, 'z, 't, 'h, 'l, 'f) st \<Rightarrow> rv \<times> ('q, 'z, 't, 'h, 'l, 'f) st" where
  "cmdAppend P db args g =
     (let key = args ! 1;
          ((reply, done'), g1) = doKey P key (\<lambda>i g.
            let (r, g1) = Lookup P i g db key
            in case r of
                 Some a \<Rightarrow>
                   if \<not> isString g1 a then ((errWrongType, False), g1)
                   else
                     let s = strOf (Val (ents g1 a)) @ args ! 2
                     in ((RInt (int (length s)), True), Touch P i (setVal a (VString s) g1) db key a)
               | None \<Rightarrow>
                   ((RInt (int (length (args ! 2))), True),
                    snd (storeEntry P i g1 db key (newEntry (VString (args ! 2)))))) g
      in (reply, if done' then notify db key ''append'' g1 else g1))"

definition cmdStrLen :: "('q, 'z, 't, 'h, 'l, 'f) packages \<Rightarrow> nat \<Rightarrow> string list \<Rightarrow> ('q, 'z, 't, 'h, 'l, 'f) st \<Rightarrow> rv \<times> ('q, 'z, 't, 'h, 'l, 'f) st" where
  "cmdStrLen P db args g =
     (let key = args ! 1
      in doKey P key (\<lambda>i g.
           let (r, g1) = Lookup P i g db key
           in case r of
                Some a \<Rightarrow> if isString g1 a then (RInt (int (length (strOf (Val (ents g1 a))))), g1) else (errWrongType, g1)
              | None \<Rightarrow> (RInt 0, g1)) g)"

section \<open>Multi-key commands\<close>

text \<open>\<open>ord\<close> is the schedule of the shard tasks; a second fan-out has its own.\<close>

definition cmdMGet :: "('q, 'z, 't, 'h, 'l, 'f) packages \<Rightarrow> nat list \<Rightarrow> nat \<Rightarrow> string list \<Rightarrow> ('q, 'z, 't, 'h, 'l, 'f) st \<Rightarrow> rv \<times> ('q, 'z, 't, 'h, 'l, 'f) st" where
  "cmdMGet P ord db args g =
     (let keys = tl args;
          (vals, g1) = doMulti P ord keys (\<lambda>si. each_idx keys (\<lambda>i key vals g.
            let (r, g1) = Lookup P si g db key
            in case r of
                 Some a \<Rightarrow> (if isString g1 a then vals[i := RBlob (strOf (Val (ents g1 a)))] else vals, g1)
               | None \<Rightarrow> (vals, g1))) (replicate (length keys) RNull) g
      in (RArr vals, g1))"

fun pairKeys :: "string list \<Rightarrow> string list" where
  "pairKeys (key # val # rest) = key # pairKeys rest"
| "pairKeys _ = []"

definition msetTask ::
  "('q, 'z, 't, 'h, 'l, 'f) packages \<Rightarrow> nat \<Rightarrow> string list \<Rightarrow> nat \<Rightarrow> nat \<Rightarrow> string \<Rightarrow> unit \<Rightarrow> ('q, 'z, 't, 'h, 'l, 'f) st \<Rightarrow> unit \<times> ('q, 'z, 't, 'h, 'l, 'f) st" where
  "msetTask P db args si i key u g = (u, snd (storeEntry P si g db key (newEntry (VString (args ! (2 + 2 * i))))))"

definition notifyAll :: "nat \<Rightarrow> string \<Rightarrow> string list \<Rightarrow> ('q, 'z, 't, 'h, 'l, 'f) st \<Rightarrow> ('q, 'z, 't, 'h, 'l, 'f) st" where
  "notifyAll db ev keys g = foldl (\<lambda>g key. notify db key ev g) g keys"

definition cmdMSet :: "('q, 'z, 't, 'h, 'l, 'f) packages \<Rightarrow> nat list \<Rightarrow> nat \<Rightarrow> string list \<Rightarrow> ('q, 'z, 't, 'h, 'l, 'f) st \<Rightarrow> rv \<times> ('q, 'z, 't, 'h, 'l, 'f) st" where
  "cmdMSet P ord db args g =
     (if length args mod 2 = 0 then (errArity ''mset'', g)
      else
        let keys = pairKeys (tl args);
            (_, g1) = doMulti P ord keys (\<lambda>si. each_idx keys (msetTask P db args si)) () g
        in (replyOK, notifyAll db ''set'' keys g1))"

definition cmdMSetNX ::
  "('q, 'z, 't, 'h, 'l, 'f) packages \<Rightarrow> nat list \<Rightarrow> nat list \<Rightarrow> nat \<Rightarrow> string list \<Rightarrow> ('q, 'z, 't, 'h, 'l, 'f) st \<Rightarrow> rv \<times> ('q, 'z, 't, 'h, 'l, 'f) st" where
  "cmdMSetNX P ord ord' db args g =
     (if length args mod 2 = 0 then (errArity ''msetnx'', g)
      else
        let keys = pairKeys (tl args);
            (exists, g1) = doMulti P ord keys (\<lambda>si. each_idx keys (\<lambda>i key ex g.
              let (r, g1) = Lookup P si g db key in (ex \<or> r \<noteq> None, g1))) False g
        in if exists then (RInt 0, g1)
           else
             let (_, g2) = doMulti P ord' keys (\<lambda>si. each_idx keys (msetTask P db args si)) () g1
             in (RInt 1, notifyAll db ''set'' keys g2))"

section \<open>Options\<close>

text \<open>The options one accepted step of the loop may set.\<close>

definition setopt_next :: "setOptions \<Rightarrow> setOptions \<Rightarrow> bool" where
  "setopt_next o0 o1 \<longleftrightarrow>
     (\<not> o_xx o0 \<and> o1 = o0\<lparr>o_nx := True\<rparr>) \<or> (\<not> o_nx o0 \<and> o1 = o0\<lparr>o_xx := True\<rparr>) \<or> o1 = o0\<lparr>o_get := True\<rparr> \<or>
     (o_expUnit o0 = [] \<and> o1 = o0\<lparr>o_keepttl := True\<rparr>) \<or>
     (\<exists>opt v. \<not> o_keepttl o0 \<and> isExpOpt opt \<and> 0 < v \<and> is_i64 v \<and>
        o1 = o0\<lparr>o_hasExpire := True, o_expUnit := opt, o_expireAtMs := v\<rparr>)"

lemma setopt_step:
  assumes "setopt_loop (arg # rest) o0 = Inr o'"
  shows "\<exists>rest' o1. length rest' < length (arg # rest) \<and> setopt_loop rest' o1 = Inr o' \<and> setopt_next o0 o1"
proof -
  define opt where "opt = lowerASCII arg"
  note eq = assms [unfolded setopt_loop.simps Let_def, folded opt_def]
  have next1: "?thesis" if "setopt_loop rest o1 = Inr o'" "setopt_next o0 o1" for o1
    using that by (intro exI [of _ rest] exI [of _ o1]) simp
  consider (flag) "opt = ''nx'' \<or> opt = ''xx'' \<or> opt = ''get'' \<or> opt = ''keepttl''"
    | (ex) "isExpOpt opt" "\<not> (opt = ''nx'' \<or> opt = ''xx'' \<or> opt = ''get'' \<or> opt = ''keepttl'')"
    | (other) "\<not> isExpOpt opt" "\<not> (opt = ''nx'' \<or> opt = ''xx'' \<or> opt = ''get'' \<or> opt = ''keepttl'')" by blast
  then show ?thesis
  proof cases
    case flag
    then show ?thesis using eq next1 by (auto simp: setopt_next_def split: if_splits)
  next
    case ex
    then obtain raw rest' v where r: "rest = raw # rest'" "parseIntStrict raw = Some v" "0 < v" "\<not> o_keepttl o0"
      and l: "setopt_loop rest' (o0\<lparr>o_hasExpire := True, o_expUnit := opt, o_expireAtMs := v\<rparr>) = Inr o'"
      using eq by (auto split: if_splits list.splits option.splits)
    have "is_i64 v" using r(2) ParseInt64_range by (simp add: parseIntStrict_eq_ParseInt64)
    then have "setopt_next o0 (o0\<lparr>o_hasExpire := True, o_expUnit := opt, o_expireAtMs := v\<rparr>)"
      unfolding setopt_next_def using r(3,4) ex(1) by blast
    then show ?thesis using l r(1) by (intro exI [of _ rest'] exI conjI) simp_all
  qed (use eq in auto)
qed

lemma setopt_invariant:
  assumes "setopt_loop rest o0 = Inr o'" "I o0" "\<And>o0 o1. setopt_next o0 o1 \<Longrightarrow> I o0 \<Longrightarrow> I o1"
  shows "I o'"
  using assms(1,2)
proof (induction rest arbitrary: o0 rule: length_induct)
  case (1 rest)
  show ?case
  proof (cases rest)
    case (Cons arg rest1)
    then show ?thesis using setopt_step [of arg rest1 o0 o'] 1 assms(3) by metis
  qed (use 1 in simp)
qed

text \<open>Accepted options: NX and XX exclude each other, and KEEPTTL excludes an expiry, which is positive.\<close>

lemma parseSetOptions_ok:
  assumes "parseSetOptions args = Inr o'"
  shows "\<not> (o_nx o' \<and> o_xx o')" "\<not> (o_keepttl o' \<and> o_hasExpire o')" "o_hasExpire o' \<Longrightarrow> 0 < o_expireAtMs o' \<and> is_i64 (o_expireAtMs o') \<and> isExpOpt (o_expUnit o')"
proof -
  let ?I = "\<lambda>o'. \<not> (o_nx o' \<and> o_xx o') \<and> \<not> (o_keepttl o' \<and> o_hasExpire o') \<and>
    (o_hasExpire o' \<longrightarrow> 0 < o_expireAtMs o' \<and> is_i64 (o_expireAtMs o') \<and> isExpOpt (o_expUnit o'))"
  have "?I o'"
  proof (rule setopt_invariant [where I = ?I, OF assms [unfolded parseSetOptions_def]])
    fix o0 o1 assume n: "setopt_next o0 o1" and o0: "?I o0"
    have u: "o_hasExpire o0 \<longrightarrow> o_expUnit o0 \<noteq> []" using o0 by (auto simp: isExpOpt_def)
    from n consider "\<not> o_xx o0" "o1 = o0\<lparr>o_nx := True\<rparr>" | "\<not> o_nx o0" "o1 = o0\<lparr>o_xx := True\<rparr>" | "o1 = o0\<lparr>o_get := True\<rparr>"
      | "o_expUnit o0 = []" "o1 = o0\<lparr>o_keepttl := True\<rparr>"
      | opt v where "\<not> o_keepttl o0" "isExpOpt opt" "0 < v" "is_i64 v" "o1 = o0\<lparr>o_hasExpire := True, o_expUnit := opt, o_expireAtMs := v\<rparr>"
      unfolding setopt_next_def by blast
    then show "?I o1" using o0 u by cases simp_all
  qed simp
  then show "\<not> (o_nx o' \<and> o_xx o')" "\<not> (o_keepttl o' \<and> o_hasExpire o')"
    "o_hasExpire o' \<Longrightarrow> 0 < o_expireAtMs o' \<and> is_i64 (o_expireAtMs o') \<and> isExpOpt (o_expUnit o')" by auto
qed

lemma resolveExpire_flags:
  assumes "resolveExpire now o0 = Inr o'"
  shows "o_nx o' = o_nx o0" "o_xx o' = o_xx o0" "o_get o' = o_get o0" "o_keepttl o' = o_keepttl o0" "o_hasExpire o' = o_hasExpire o0"
  using assms by (auto simp: resolveExpire_def split: if_splits sum.splits)

section \<open>The handlers are sequences of steps\<close>

context pluto_laws
begin

lemma value_ok_string [simp]: "value_ok P (VString s)"
  by (simp add: value_ok_def)

lemma newEntry_sel [simp]:
  "Val (newEntry v) = v" "ExpireAtMs (newEntry v) = 0" "ExpGen (newEntry v) = 0"
  by (simp_all add: newEntry_def)

lemma setWrite_acts:
  assumes "acts P k g0 g" "db < maxDBs g" "\<And>a. old = Some a \<Longrightarrow> search P g db key = Some a" "0 \<le> NowMs g"
    and "\<not> (o_keepttl o' \<and> o_hasExpire o')"
  shows "acts P k g0 (setWrite P (ShardIndex P k key) db key val o' old g)"
proof (cases "o_hasExpire o'")
  case True
  let ?e = "newEntry (VString val) \<lparr>ExpireAtMs := o_expireAtMs o'\<rparr>"
  obtain a g1 where s: "storeEntry P (ShardIndex P k key) g db key ?e = (a, g1)" by (cases "storeEntry P (ShardIndex P k key) g db key ?e")
  have "\<not> o_expireAtMs o' \<le> NowMs g \<Longrightarrow> acts P k g0 (PushExpire P (ShardIndex P k key) g1 db key a)"
    using assms(4) by (intro acts_store_ttl [OF assms(1,2) _ _ s]) simp_all
  then show ?thesis
    using True assms s by (auto simp: setWrite_def Let_def intro: acts_intros split: option.split)
next
  case False
  have "acts P k g0 (snd (storeEntry P (ShardIndex P k key) g db key
      (newEntry (VString val)\<lparr>ExpireAtMs := ExpireAtMs (ents g a), ExpGen := ExpGen (ents g a)\<rparr>)))" if "old = Some a" for a
    using assms(3) [OF that] by (intro rtranclp.rtrancl_into_rtrancl [OF assms(1)] act.a_store [OF assms(2)]) auto
  then show ?thesis
    using False assms by (auto simp: setWrite_def Let_def split_beta intro: acts_intros split: option.split)
qed

lemma cmdSet_acts:
  assumes "kbits g = k" "db < maxDBs g" "0 \<le> NowMs g"
  shows "acts P k g (snd (cmdSet P db args g))"
proof -
  let ?i = "ShardIndex P k (args ! 1)"
  have task: "acts P k g (snd (setTask P db (args ! 1) val o' ?i g))" if "\<not> (o_keepttl o' \<and> o_hasExpire o')" for o' val
  proof -
    obtain r g1 where L: "Lookup P ?i g db (args ! 1) = (r, g1)" by (cases "Lookup P ?i g db (args ! 1)")
    note F = Lookup_facts [OF L assms(2)]
    have "acts P k g (setWrite P ?i db (args ! 1) val o' r g1)"
      by (rule setWrite_acts [OF F(1)]) (use F assms that in auto)
    then show ?thesis using L F(1) by (simp add: setTask_def Let_def split: option.split)
  qed
  have "acts P k g (snd (doKey P (args ! 1) (setTask P db (args ! 1) val o') g))" if "\<not> (o_keepttl o' \<and> o_hasExpire o')" for o' val
    using that by (intro acts_doKey [OF assms(1)] task)
  note key = this
  show ?thesis
  proof (cases "parseSetOptions args")
    case p: (Inr o0)
    show ?thesis
    proof (cases "resolveExpire (NowMs g) o0")
      case r: (Inr o')
      have "\<not> (o_keepttl o' \<and> o_hasExpire o')" using parseSetOptions_ok(2) [OF p] resolveExpire_flags [OF r] by simp
      from key [OF this] show ?thesis by (simp add: cmdSet_def p r split_beta Let_def acts_notify)
    qed (simp add: cmdSet_def p)
  qed (simp add: cmdSet_def)
qed

lemma getexTask_acts:
  assumes "db < maxDBs g" "0 \<le> NowMs g"
  shows "acts P k g (snd (getexTask P db key persist ex (ShardIndex P k key) g))"
proof -
  let ?i = "ShardIndex P k key"
  obtain r g1 where L: "Lookup P ?i g db key = (r, g1)" by (cases "Lookup P ?i g db key")
  note F = Lookup_facts [OF L assms(1)]
  show ?thesis
  proof (cases r)
    case (Some a)
    note s = F(6) [OF Some]
    have "acts P k g (Touch P ?i (setExpire a 0 g1) db key a)"
      by (rule acts_Touch [OF acts_persist [OF F(1) _ s]]) (simp_all add: F assms s)
    moreover have "acts P k g (PushExpire P ?i (Touch P ?i (setExpire a at g1) db key a) db key a)" if "NowMs g1 < at" for at
      by (rule acts_expire [OF F(1) _ s]) (use F assms that in auto)
    ultimately show ?thesis
      using L Some F(1,2) assms(1)
      by (auto simp: getexTask_def Let_def intro: acts_Delete split: option.split sum.split)
  qed (use L F(1) in \<open>simp add: getexTask_def\<close>)
qed

lemma incrTask_acts:
  assumes "db < maxDBs g"
  shows "acts P k g (snd (incrTask P db key delta (ShardIndex P k key) g))"
proof -
  let ?i = "ShardIndex P k key"
  obtain r g1 where L: "Lookup P ?i g db key = (r, g1)" by (cases "Lookup P ?i g db key")
  note F = Lookup_facts [OF L assms(1)]
  show ?thesis
    using L F assms by (cases r) (auto simp: incrTask_def Let_def intro!: acts_update acts_storeEntry split: option.split sum.split)
qed

lemma string_acts:
  assumes "kbits g = k" "db < maxDBs g"
  shows "acts P k g (snd (cmdGet P db args g))" "acts P k g (snd (cmdGetSet P db args g))"
    "acts P k g (snd (cmdGetDel P db args g))" "acts P k g (snd (cmdAppend P db args g))"
    "acts P k g (snd (cmdStrLen P db args g))" "acts P k g (snd (incrBy P db key delta g))"
proof -
  let ?i = "ShardIndex P k (args ! 1)"
  obtain r g1 where L: "Lookup P ?i g db (args ! 1) = (r, g1)" by (cases "Lookup P ?i g db (args ! 1)")
  note F = Lookup_facts [OF L assms(2)]
  show "acts P k g (snd (cmdGet P db args g))"
    unfolding cmdGet_def Let_def by (rule acts_doKey [OF assms(1)]) (use L F in \<open>auto split: option.split\<close>)
  show "acts P k g (snd (cmdStrLen P db args g))"
    unfolding cmdStrLen_def Let_def by (rule acts_doKey [OF assms(1)]) (use L F in \<open>auto split: option.split\<close>)
  show "acts P k g (snd (cmdGetSet P db args g))"
    unfolding cmdGetSet_def Let_def split_beta snd_conv
    by (rule acts_if_notify, rule acts_doKey [OF assms(1)])
      (use L F assms(2) in \<open>auto intro!: acts_storeEntry split: option.split\<close>)
  show "acts P k g (snd (cmdGetDel P db args g))"
    unfolding cmdGetDel_def Let_def split_beta snd_conv
    by (rule acts_if_notify, rule acts_doKey [OF assms(1)])
      (use L F assms(2) in \<open>auto intro!: acts_Delete split: option.split\<close>)
  show "acts P k g (snd (cmdAppend P db args g))"
    unfolding cmdAppend_def Let_def split_beta snd_conv
    by (rule acts_if_notify, rule acts_doKey [OF assms(1)])
      (use L F assms(2) in \<open>auto intro!: acts_update acts_storeEntry split: option.split\<close>)
  show "acts P k g (snd (incrBy P db key delta g))"
    unfolding incrBy_def Let_def split_beta snd_conv
    by (intro acts_if_notify acts_doKey [OF assms(1)] incrTask_acts [OF assms(2)])
qed

lemma cmdGetEx_acts:
  assumes "kbits g = k" "db < maxDBs g" "0 \<le> NowMs g"
  shows "acts P k g (snd (cmdGetEx P db args g))"
  using acts_doKey [where fn = "getexTask P db key ps ex" for key ps ex, OF assms(1) getexTask_acts [OF assms(2,3)]]
  by (auto simp: cmdGetEx_def split_beta Let_def intro!: acts_notify split: sum.split)

lemma multi_string_acts:
  assumes "kbits g = k" "db < maxDBs g"
  shows "sched (groupKeys (ShardIndex P k) (tl args)) ord \<Longrightarrow> acts P k g (snd (cmdMGet P ord db args g))"
    and "sched (groupKeys (ShardIndex P k) (pairKeys (tl args))) ord \<Longrightarrow> acts P k g (snd (cmdMSet P ord db args g))"
proof -
  have store: "acts P k h (snd (msetTask P db args (ShardIndex P k x) i x u h))" if "db < maxDBs h" for i x u h
    unfolding msetTask_def snd_conv using that by (intro acts_storeEntry) simp_all
  show "acts P k g (snd (cmdMSet P ord db args g))" if "sched (groupKeys (ShardIndex P k) (pairKeys (tl args))) ord"
    using acts_doMulti [where f = "msetTask P db args" and acc = "()", OF that assms store]
    by (simp add: cmdMSet_def split_beta Let_def notifyAll_def acts_notifyAll)
  show "acts P k g (snd (cmdMGet P ord db args g))" if "sched (groupKeys (ShardIndex P k) (tl args)) ord"
    unfolding cmdMGet_def Let_def split_beta snd_conv
  proof (rule acts_doMulti [OF that assms])
    fix i :: nat and acc :: "rv list" and h :: "('q, 'z, 't, 'h, 'l, 'f) st"
    assume db: "db < maxDBs h"
    let ?x = "tl args ! i"
    let ?L = "Lookup P (ShardIndex P k ?x) h db ?x"
    have "acts P k h (snd ?L)" by (rule acts_Lookup [OF _ db]) simp
    then show "acts P k h (snd (case fst ?L of None \<Rightarrow> (acc, snd ?L)
        | Some a \<Rightarrow> (if isString (snd ?L) a then acc[i := RBlob (strOf (Val (ents (snd ?L) a)))] else acc, snd ?L)))"
      by (simp split: option.split)
  qed
qed

end

section \<open>Specifications\<close>

definition getSpec :: "kentry \<Rightarrow> rv" where
  "getSpec e = (case e of None \<Rightarrow> RNull | Some (AString s, _) \<Rightarrow> RBlob s | Some _ \<Rightarrow> errWrongType)"

definition isStr :: "kentry \<Rightarrow> bool" where
  "isStr e \<longleftrightarrow> (case e of Some (AString _, _) \<Rightarrow> True | _ \<Rightarrow> False)"

definition setSpec :: "setOptions \<Rightarrow> string \<Rightarrow> int \<Rightarrow> kentry \<Rightarrow> rv \<times> kentry" where
  "setSpec o' val now old =
     (if o_get o' \<and> old \<noteq> None \<and> \<not> isStr old then (errWrongType, old)
      else if (o_nx o' \<and> old \<noteq> None) \<or> (o_xx o' \<and> old = None) then (if o_get o' then getSpec old else RNull, old)
      else
        (if o_get o' then getSpec old else replyOK,
         if o_hasExpire o' \<and> o_expireAtMs o' \<le> now then None
         else Some (AString val,
                    case old of
                      Some (_, t) \<Rightarrow> if o_keepttl o' then t else if o_hasExpire o' then o_expireAtMs o' else 0
                    | None \<Rightarrow> if o_hasExpire o' then o_expireAtMs o' else 0)))"

definition getSetSpec :: "string \<Rightarrow> int \<Rightarrow> kentry \<Rightarrow> rv \<times> kentry" where
  "getSetSpec val now old = (getSpec old, if old \<noteq> None \<and> \<not> isStr old then old else Some (AString val, 0))"

definition getDelSpec :: "int \<Rightarrow> kentry \<Rightarrow> rv \<times> kentry" where
  "getDelSpec now old = (getSpec old, if isStr old then None else old)"

text \<open>Counters: exact integer arithmetic, refused outside the \<^verbatim>\<open>int64\<close> range.\<close>

definition incrSpec :: "int \<Rightarrow> int \<Rightarrow> kentry \<Rightarrow> rv \<times> kentry" where
  "incrSpec delta now old =
     (case (case old of
              None \<Rightarrow> Inr (0, 0)
            | Some (AString s, t) \<Rightarrow> (case ParseInt64 s of None \<Rightarrow> Inl errNotInt | Some c \<Rightarrow> Inr (c, t))
            | Some _ \<Rightarrow> Inl errWrongType) of
        Inl err \<Rightarrow> (err, old)
      | Inr (c, t) \<Rightarrow>
          if is_i64 (c + delta) then (RInt (c + delta), Some (AString (FormatInt (c + delta)), t)) else (errIncrOvf, old))"

definition appendSpec :: "string \<Rightarrow> int \<Rightarrow> kentry \<Rightarrow> rv \<times> kentry" where
  "appendSpec val now old =
     (case old of
        None \<Rightarrow> (RInt (int (length val)), Some (AString val, 0))
      | Some (AString s, t) \<Rightarrow> (RInt (int (length (s @ val))), Some (AString (s @ val), t))
      | Some _ \<Rightarrow> (errWrongType, old))"

definition strLenSpec :: "int \<Rightarrow> kentry \<Rightarrow> rv \<times> kentry" where
  "strLenSpec now old =
     (case old of None \<Rightarrow> RInt 0 | Some (AString s, _) \<Rightarrow> RInt (int (length s)) | Some _ \<Rightarrow> errWrongType, old)"

text \<open>GETEX: PERSIST drops the expiry; an expire option sets it, or deletes the key when it is already past.\<close>

definition getExSpec :: "bool \<Rightarrow> (string \<times> string) option \<Rightarrow> int \<Rightarrow> kentry \<Rightarrow> rv \<times> kentry" where
  "getExSpec persist ex now old =
     (case old of
        Some (AString s, t) \<Rightarrow>
          if persist then (RBlob s, Some (AString s, 0))
          else
            (case ex of
               None \<Rightarrow> (RBlob s, old)
             | Some (kind, raw) \<Rightarrow>
                 (case ParseInt64 raw of
                    None \<Rightarrow> (errNotInt, old)
                  | Some v \<Rightarrow>
                      if v \<le> 0 then (errInvalidExpire ''getex'', old)
                      else
                        (case expireMs ''getex'' kind now v of
                           Inl err \<Rightarrow> (err, old)
                         | Inr at \<Rightarrow> (RBlob s, if at \<le> now then None else Some (AString s, at)))))
      | _ \<Rightarrow> (getSpec old, old))"

section \<open>The handlers meet their specifications\<close>

lemma incr_guard:
  assumes "is_i64 c" "is_i64 delta"
  shows "incrOverflows c delta \<longleftrightarrow> \<not> is_i64 (c + delta)"
proof -
  have 1: "0 < delta \<Longrightarrow> wrap64 (MaxInt64 - delta) = MaxInt64 - delta"
    and 2: "delta < 0 \<Longrightarrow> wrap64 (MinInt64 - delta) = MinInt64 - delta"
    using assms(2) by (auto simp: is_i64_def intro!: wrap64_id)
  consider "0 < delta" | "delta < 0" | "delta = 0" by linarith
  then show ?thesis using assms unfolding incrOverflows_def by cases (simp_all add: 1 2, auto simp: is_i64_def)
qed

lemma getSpec_abse:
  "getSpec (Some (abse P e)) = (if typeOf (Val e) = TypeString then RBlob (strOf (Val e)) else errWrongType)"
  "isStr (Some (abse P e)) = (typeOf (Val e) = TypeString)"
  by (cases "Val e"; simp add: getSpec_def isStr_def abse_def)+

context pluto_laws
begin

lemma cmdGet_refines:
  assumes "ptr_ok P g" "maxMemory g \<le> 0"
  shows "refines P db (args ! 1) (\<lambda>now e. (getSpec e, e)) g (cmdGet P db args g)"
  unfolding refines_def cmdGet_def Let_def
  by (rule doKey_lookup [where Q = "\<lambda>r K. r = _ \<and> K = _", OF assms])
    (simp_all add: getSpec_abse isString_def, simp_all add: getSpec_def)

lemma cmdStrLen_refines:
  assumes "ptr_ok P g" "maxMemory g \<le> 0"
  shows "refines P db (args ! 1) strLenSpec g (cmdStrLen P db args g)"
  unfolding refines_def cmdStrLen_def Let_def
  by (rule doKey_lookup [where Q = "\<lambda>r K. r = _ \<and> K = _", OF assms])
    (auto simp: isString_def strLenSpec_def abse_def abs_type_defs split: gval.splits)

text \<open>Handlers that notify after the task: the log is not part of the abstract state.\<close>

lemma cmdGetSet_refines:
  assumes "ptr_ok P g" "maxMemory g \<le> 0"
  shows "refines P db (args ! 1) (getSetSpec (args ! 2)) g (cmdGetSet P db args g)"
  unfolding refines_def cmdGetSet_def Let_def split_beta fst_conv snd_conv kv_if_notify
  by (rule doKey_lookup [where Q = "\<lambda>r K. fst r = _ \<and> K = _", OF assms, unfolded split_beta])
    (auto simp: isString_def getSetSpec_def getSpec_abse kv_store, simp add: getSpec_def)

lemma cmdGetDel_refines:
  assumes "ptr_ok P g" "maxMemory g \<le> 0"
  shows "refines P db (args ! 1) getDelSpec g (cmdGetDel P db args g)"
  unfolding refines_def cmdGetDel_def Let_def split_beta fst_conv snd_conv kv_if_notify
  by (rule doKey_lookup [where Q = "\<lambda>r K. fst r = _ \<and> K = _", OF assms, unfolded split_beta])
    (auto simp: isString_def getDelSpec_def getSpec_abse, simp_all add: getSpec_def isStr_def)

lemma cmdAppend_refines:
  assumes "ptr_ok P g" "maxMemory g \<le> 0"
  shows "refines P db (args ! 1) (appendSpec (args ! 2)) g (cmdAppend P db args g)"
  unfolding refines_def cmdAppend_def Let_def split_beta fst_conv snd_conv kv_if_notify
  by (rule doKey_lookup [where Q = "\<lambda>r K. fst r = _ \<and> K = _", OF assms, unfolded split_beta])
    (auto simp: isString_def appendSpec_def abse_def kv_store kv_update abs_type_defs split: gval.splits)

lemma incr_refines:
  assumes "ptr_ok P g" "maxMemory g \<le> 0" "is_i64 delta"
  shows "refines P db key (incrSpec delta) g (incrBy P db key delta g)"
proof -
  have [simp]: "is_i64 0" by (simp add: is_i64_def)
  have r: "ParseInt64 s = Some c \<Longrightarrow> is_i64 c" for s c by (rule ParseInt64_range)
  show ?thesis
    unfolding refines_def incrBy_def incrTask_def [abs_def] Let_def split_beta fst_conv snd_conv kv_if_notify
    by (rule doKey_lookup [where Q = "\<lambda>r K. fst r = _ \<and> K = _", OF assms(1,2), unfolded split_beta])
      (auto simp: isString_def incrSpec_def abse_def kv_store kv_update abs_type_defs parseIntStrict_eq_ParseInt64
        incr_guard [OF r assms(3)] incr_guard [OF _ assms(3), of 0] split: gval.splits option.splits)
qed

lemma kv_setWrite:
  assumes "ptr_ok P g" "old = None \<Longrightarrow> kv P g db key = None"
    "\<And>a. old = Some a \<Longrightarrow> search P g db key = Some a \<and> \<not> due (ents g a) (NowMs g) \<and> kv P g db key = Some (abse P (ents g a))"
  shows "kv P (setWrite P i db key val o' old g) = kvupd (kv P g) db key
      (if o_hasExpire o' \<and> o_expireAtMs o' \<le> NowMs g then None
       else Some (AString val,
                  case kv P g db key of
                    Some (_, t) \<Rightarrow> if o_keepttl o' then t else if o_hasExpire o' then o_expireAtMs o' else 0
                  | None \<Rightarrow> if o_hasExpire o' then o_expireAtMs o' else 0))"
proof (cases "o_hasExpire o' \<and> o_expireAtMs o' \<le> NowMs g")
  case True
  then show ?thesis using assms(2) by (cases old) (auto simp: setWrite_def)
next
  case False
  let ?e0 = "newEntry (VString val)"
  define e :: "('q, 'z) entry" where "e = (case old of
                   Some a \<Rightarrow>
                     if o_keepttl o' then ?e0\<lparr>ExpireAtMs := ExpireAtMs (ents g a), ExpGen := ExpGen (ents g a)\<rparr>
                     else if o_hasExpire o' then ?e0\<lparr>ExpireAtMs := o_expireAtMs o'\<rparr> else ?e0
                 | None \<Rightarrow> if o_hasExpire o' then ?e0\<lparr>ExpireAtMs := o_expireAtMs o'\<rparr> else ?e0)"
  obtain a g1 where s: "storeEntry P i g db key e = (a, g1)" by (cases "storeEntry P i g db key e")
  have w: "setWrite P i db key val o' old g = (if o_hasExpire o' then PushExpire P i g1 db key a else g1)"
    using False s by (simp add: setWrite_def Let_def e_def)
  note S = storeEntry_kv [OF s assms(1)]
  have d: "\<not> due e (NowMs g)" and t: "abse P e = (AString val, case kv P g db key of
                    Some (_, t) \<Rightarrow> if o_keepttl o' then t else if o_hasExpire o' then o_expireAtMs o' else 0
                  | None \<Rightarrow> if o_hasExpire o' then o_expireAtMs o' else 0)"
    using False assms(2-) by (cases old; auto simp: e_def due_def abse_def)+
  have "kv P (setWrite P i db key val o' old g) = kv P g1"
    using w kv_PushExpire [OF S(2,3)] by simp
  then show ?thesis using S(1) d t False by simp
qed

lemmas kv_setWrite_cases = kv_setWrite [where old = None, simplified] kv_setWrite [where old = "Some a" for a, simplified]

lemma setTask_refines:
  assumes "ptr_ok P g" "maxMemory g \<le> 0"
  shows "fst (fst (doKey P key (setTask P db key val o') g)) = fst (setSpec o' val (NowMs g) (kv P g db key))"
    and "kv P (snd (doKey P key (setTask P db key val o') g)) =
      kvupd (kv P g) db key (snd (setSpec o' val (NowMs g) (kv P g db key)))"
proof -
  have mem: "maxMemory (setWrite P i db key val o' old g1) = maxMemory g1" for i old g1
    by (simp add: setWrite_def Let_def split_beta)
  have "fst (fst (doKey P key (setTask P db key val o') g)) = fst (setSpec o' val (NowMs g) (kv P g db key)) \<and>
      kv P (snd (doKey P key (setTask P db key val o') g)) =
        kvupd (kv P g) db key (snd (setSpec o' val (NowMs g) (kv P g db key)))"
    unfolding setTask_def [abs_def] Let_def split_beta
    by (rule doKey_lookup [where Q = "\<lambda>r K. fst r = _ \<and> K = _", OF assms(1,2), unfolded split_beta])
      (auto simp: setSpec_def kv_setWrite_cases getSpec_abse isString_def mem, auto simp: getSpec_def)
  then show "fst (fst (doKey P key (setTask P db key val o') g)) = fst (setSpec o' val (NowMs g) (kv P g db key))"
    and "kv P (snd (doKey P key (setTask P db key val o') g)) =
      kvupd (kv P g) db key (snd (setSpec o' val (NowMs g) (kv P g db key)))" by auto
qed

lemma cmdSet_refines:
  assumes "ptr_ok P g" "maxMemory g \<le> 0" "parseSetOptions args = Inr o0" "resolveExpire (NowMs g) o0 = Inr o'"
  shows "refines P db (args ! 1) (setSpec o' (args ! 2)) g (cmdSet P db args g)"
  using setTask_refines [OF assms(1,2), of "args ! 1" db "args ! 2" o'] assms(3,4)
  by (simp add: refines_def cmdSet_def split_beta Let_def)

lemma cmdGetEx_refines:
  assumes "ptr_ok P g" "maxMemory g \<le> 0" "getex_loop (drop 2 args) False None = Inr (persist, ex)"
  shows "refines P db (args ! 1) (getExSpec persist ex) g (cmdGetEx P db args g)"
proof -
  let ?D = "doKey P (args ! 1) (getexTask P db (args ! 1) persist ex) g"
  have "fst (fst ?D) = fst (getExSpec persist ex (NowMs g) (kv P g db (args ! 1))) \<and>
      kv P (snd ?D) = kvupd (kv P g) db (args ! 1) (snd (getExSpec persist ex (NowMs g) (kv P g db (args ! 1))))"
    unfolding getexTask_def [abs_def] Let_def split_beta
    by (rule doKey_lookup [where Q = "\<lambda>r K. fst r = _ \<and> K = _", OF assms(1,2), unfolded split_beta])
      (auto simp: isString_def getExSpec_def getSpec_def abse_def abs_type_defs parseIntStrict_eq_ParseInt64 kv_persist kv_expire
        split: gval.splits option.splits sum.splits)
  then show ?thesis using assms(3) by (simp add: refines_def cmdGetEx_def split_beta Let_def)
qed

end

end
