(* ===== verification/Cmd_Keys.thy ===== *)
theory Cmd_Keys
  imports Cmd_Strings
begin

text \<open>
  The key commands (\<^verbatim>\<open>src/lib/commands/keys.go\<close>): DEL, EXISTS, the EXPIRE family, TTL and PTTL,
  PERSIST and TYPE. KEYS and SCAN are in the theory on patterns.
\<close>

section \<open>DEL and EXISTS\<close>

text \<open>The closures share the slots \<^verbatim>\<open>deleted\<close> and the counter \<^verbatim>\<open>n\<close>.\<close>

fun notifySlots :: "nat \<Rightarrow> string \<Rightarrow> string list \<Rightarrow> bool list \<Rightarrow> ('q, 'z, 't, 'h, 'l, 'f) st \<Rightarrow> ('q, 'z, 't, 'h, 'l, 'f) st" where
  "notifySlots db ev (key # keys) (b # bs) g = notifySlots db ev keys bs (if b then notify db key ev g else g)"
| "notifySlots db ev _ _ g = g"

definition delTask ::
  "('q, 'z, 't, 'h, 'l, 'f) packages \<Rightarrow> nat \<Rightarrow> nat \<Rightarrow> nat \<Rightarrow> string \<Rightarrow> bool list \<times> int \<Rightarrow> ('q, 'z, 't, 'h, 'l, 'f) st \<Rightarrow>
     (bool list \<times> int) \<times> ('q, 'z, 't, 'h, 'l, 'f) st" where
  "delTask P db si i key acc g =
     (let (ok, g1) = Delete P si g db key
      in (if ok then ((fst acc)[i := True], snd acc + 1) else acc, g1))"

definition cmdDel :: "('q, 'z, 't, 'h, 'l, 'f) packages \<Rightarrow> nat list \<Rightarrow> nat \<Rightarrow> string list \<Rightarrow> ('q, 'z, 't, 'h, 'l, 'f) st \<Rightarrow> rv \<times> ('q, 'z, 't, 'h, 'l, 'f) st" where
  "cmdDel P ord db args g =
     (let keys = tl args;
          ((deleted, n), g1) = doMulti P ord keys (\<lambda>si. each_idx keys (delTask P db si)) (replicate (length keys) False, 0) g
      in (RInt n, notifySlots db ''del'' keys deleted g1))"

definition existsTask ::
  "('q, 'z, 't, 'h, 'l, 'f) packages \<Rightarrow> nat \<Rightarrow> nat \<Rightarrow> nat \<Rightarrow> string \<Rightarrow> int \<Rightarrow> ('q, 'z, 't, 'h, 'l, 'f) st \<Rightarrow> int \<times> ('q, 'z, 't, 'h, 'l, 'f) st" where
  "existsTask P db si i key n g =
     (let (r, g1) = Lookup P si g db key in (if r \<noteq> None then n + 1 else n, g1))"

definition cmdExists :: "('q, 'z, 't, 'h, 'l, 'f) packages \<Rightarrow> nat list \<Rightarrow> nat \<Rightarrow> string list \<Rightarrow> ('q, 'z, 't, 'h, 'l, 'f) st \<Rightarrow> rv \<times> ('q, 'z, 't, 'h, 'l, 'f) st" where
  "cmdExists P ord db args g =
     (let keys = tl args;
          (n, g1) = doMulti P ord keys (\<lambda>si. each_idx keys (existsTask P db si)) 0 g
      in (RInt n, g1))"

section \<open>The EXPIRE family\<close>

record expireFlags =
  f_nx :: bool
  f_xx :: bool
  f_gt :: bool
  f_lt :: bool

definition errNxXx :: rv where
  "errNxXx = RErr ''ERR NX and XX, GT or LT options at the same time are not compatible''"

definition errGtLt :: rv where
  "errGtLt = RErr ''ERR GT and LT options at the same time are not compatible''"

fun expflag_loop :: "string list \<Rightarrow> expireFlags \<Rightarrow> rv + expireFlags" where
  "expflag_loop [] f = Inr f"
| "expflag_loop (arg # rest) f =
     (let opt = lowerASCII arg
      in if opt = ''nx'' then
           (if f_xx f \<or> f_gt f \<or> f_lt f then Inl errNxXx else expflag_loop rest (f\<lparr>f_nx := True\<rparr>))
         else if opt = ''xx'' then (if f_nx f then Inl errNxXx else expflag_loop rest (f\<lparr>f_xx := True\<rparr>))
         else if opt = ''gt'' then
           (if f_nx f then Inl errNxXx else if f_lt f then Inl errGtLt else expflag_loop rest (f\<lparr>f_gt := True\<rparr>))
         else if opt = ''lt'' then
           (if f_nx f then Inl errNxXx else if f_gt f then Inl errGtLt else expflag_loop rest (f\<lparr>f_lt := True\<rparr>))
         else Inl (RErr (''ERR Unsupported option '' @ arg)))"

definition parseExpireFlags :: "string list \<Rightarrow> rv + expireFlags" where
  "parseExpireFlags args =
     expflag_loop (drop 3 args) \<lparr>f_nx = False, f_xx = False, f_gt = False, f_lt = False\<rparr>"

text \<open>The absolute expiry the four commands compute.\<close>

definition expireAt_ms :: "bool \<Rightarrow> bool \<Rightarrow> int \<Rightarrow> int \<Rightarrow> int" where
  "expireAt_ms ms abs' now v =
     (if abs' \<and> ms then v
      else if abs' then (if quot MaxInt64 1000 < v then MaxInt64 else wrap64 (v * 1000))
      else if ms then wrap64 (now + v)
      else (if quot (wrap64 (MaxInt64 - now)) 1000 < v then MaxInt64 else wrap64 (now + wrap64 (v * 1000))))"

definition expBlocked :: "expireFlags \<Rightarrow> int \<Rightarrow> int \<Rightarrow> bool" where
  "expBlocked f cur at \<longleftrightarrow>
     (f_nx f \<and> cur \<noteq> 0) \<or> (f_xx f \<and> cur = 0) \<or> (f_gt f \<and> (cur = 0 \<or> at \<le> cur)) \<or> (f_lt f \<and> cur \<noteq> 0 \<and> cur \<le> at)"

definition expireTask ::
  "('q, 'z, 't, 'h, 'l, 'f) packages \<Rightarrow> nat \<Rightarrow> string \<Rightarrow> expireFlags \<Rightarrow> int \<Rightarrow> int \<Rightarrow> nat \<Rightarrow> ('q, 'z, 't, 'h, 'l, 'f) st \<Rightarrow>
     (rv \<times> bool) \<times> ('q, 'z, 't, 'h, 'l, 'f) st" where
  "expireTask P db key f at now i g =
     (let (r, g1) = Lookup P i g db key
      in case r of
           None \<Rightarrow> ((RInt 0, False), g1)
         | Some a \<Rightarrow>
             if expBlocked f (ExpireAtMs (ents g1 a)) at then ((RInt 0, False), g1)
             else if at \<le> now then ((RInt 1, True), snd (Delete P i g1 db key))
             else ((RInt 1, True), PushExpire P i (Touch P i (setExpire a at g1) db key a) db key a))"

definition expireCommon ::
  "('q, 'z, 't, 'h, 'l, 'f) packages \<Rightarrow> nat \<Rightarrow> string list \<Rightarrow> bool \<Rightarrow> bool \<Rightarrow> ('q, 'z, 't, 'h, 'l, 'f) st \<Rightarrow> rv \<times> ('q, 'z, 't, 'h, 'l, 'f) st" where
  "expireCommon P db args ms abs' g =
     (case parseIntStrict (args ! 2) of
        None \<Rightarrow> (errNotInt, g)
      | Some v \<Rightarrow>
          (case parseExpireFlags args of
             Inl err \<Rightarrow> (err, g)
           | Inr f \<Rightarrow>
               let now = NowMs g;
                   at = expireAt_ms ms abs' now v;
                   key = args ! 1;
                   ((reply, applied), g1) = doKey P key (expireTask P db key f at now) g
               in (reply, if applied then notify db key (if at \<le> now then ''del'' else ''expire'') g1 else g1)))"

definition cmdExpire :: "('q, 'z, 't, 'h, 'l, 'f) packages \<Rightarrow> nat \<Rightarrow> string list \<Rightarrow> ('q, 'z, 't, 'h, 'l, 'f) st \<Rightarrow> rv \<times> ('q, 'z, 't, 'h, 'l, 'f) st" where
  "cmdExpire P db args g = expireCommon P db args False False g"

definition cmdPExpire :: "('q, 'z, 't, 'h, 'l, 'f) packages \<Rightarrow> nat \<Rightarrow> string list \<Rightarrow> ('q, 'z, 't, 'h, 'l, 'f) st \<Rightarrow> rv \<times> ('q, 'z, 't, 'h, 'l, 'f) st" where
  "cmdPExpire P db args g = expireCommon P db args True False g"

definition cmdExpireAt :: "('q, 'z, 't, 'h, 'l, 'f) packages \<Rightarrow> nat \<Rightarrow> string list \<Rightarrow> ('q, 'z, 't, 'h, 'l, 'f) st \<Rightarrow> rv \<times> ('q, 'z, 't, 'h, 'l, 'f) st" where
  "cmdExpireAt P db args g = expireCommon P db args False True g"

definition cmdPExpireAt :: "('q, 'z, 't, 'h, 'l, 'f) packages \<Rightarrow> nat \<Rightarrow> string list \<Rightarrow> ('q, 'z, 't, 'h, 'l, 'f) st \<Rightarrow> rv \<times> ('q, 'z, 't, 'h, 'l, 'f) st" where
  "cmdPExpireAt P db args g = expireCommon P db args True True g"

section \<open>TTL, PERSIST and TYPE\<close>

definition ttlReply :: "bool \<Rightarrow> int \<Rightarrow> int \<Rightarrow> rv" where
  "ttlReply ms now t =
     (if t = 0 then RInt (-1)
      else
        let rem0 = wrap64 (t - now);
            rem = (if rem0 < 0 then 0 else rem0)
        in if ms then RInt rem else RInt (quot (wrap64 (rem + 500)) 1000))"

definition ttlCommon ::
  "('q, 'z, 't, 'h, 'l, 'f) packages \<Rightarrow> nat \<Rightarrow> string list \<Rightarrow> bool \<Rightarrow> ('q, 'z, 't, 'h, 'l, 'f) st \<Rightarrow> rv \<times> ('q, 'z, 't, 'h, 'l, 'f) st" where
  "ttlCommon P db args ms g =
     (let key = args ! 1
      in doKey P key (\<lambda>i g.
           let (r, g1) = Lookup P i g db key
           in case r of
                None \<Rightarrow> (RInt (-2), g1)
              | Some a \<Rightarrow> (ttlReply ms (NowMs g1) (ExpireAtMs (ents g1 a)), g1)) g)"

definition cmdTTL :: "('q, 'z, 't, 'h, 'l, 'f) packages \<Rightarrow> nat \<Rightarrow> string list \<Rightarrow> ('q, 'z, 't, 'h, 'l, 'f) st \<Rightarrow> rv \<times> ('q, 'z, 't, 'h, 'l, 'f) st" where
  "cmdTTL P db args g = ttlCommon P db args False g"

definition cmdPTTL :: "('q, 'z, 't, 'h, 'l, 'f) packages \<Rightarrow> nat \<Rightarrow> string list \<Rightarrow> ('q, 'z, 't, 'h, 'l, 'f) st \<Rightarrow> rv \<times> ('q, 'z, 't, 'h, 'l, 'f) st" where
  "cmdPTTL P db args g = ttlCommon P db args True g"

definition cmdPersist :: "('q, 'z, 't, 'h, 'l, 'f) packages \<Rightarrow> nat \<Rightarrow> string list \<Rightarrow> ('q, 'z, 't, 'h, 'l, 'f) st \<Rightarrow> rv \<times> ('q, 'z, 't, 'h, 'l, 'f) st" where
  "cmdPersist P db args g =
     (let key = args ! 1;
          ((reply, removed), g1) = doKey P key (\<lambda>i g.
            let (r, g1) = Lookup P i g db key
            in case r of
                 None \<Rightarrow> ((RInt 0, False), g1)
               | Some a \<Rightarrow>
                   if ExpireAtMs (ents g1 a) = 0 then ((RInt 0, False), g1)
                   else ((RInt 1, True), Touch P i (setExpire a 0 g1) db key a)) g
      in (reply, if removed then notify db key ''persist'' g1 else g1))"

definition typeName :: "Type \<Rightarrow> string" where
  "typeName t =
     (case t of
        TypeHash \<Rightarrow> ''hash'' | TypeList \<Rightarrow> ''list'' | TypeSet \<Rightarrow> ''set'' | TypeZSet \<Rightarrow> ''zset'' | TypeString \<Rightarrow> ''string'')"

definition cmdType :: "('q, 'z, 't, 'h, 'l, 'f) packages \<Rightarrow> nat \<Rightarrow> string list \<Rightarrow> ('q, 'z, 't, 'h, 'l, 'f) st \<Rightarrow> rv \<times> ('q, 'z, 't, 'h, 'l, 'f) st" where
  "cmdType P db args g =
     (let key = args ! 1
      in doKey P key (\<lambda>i g.
           let (r, g1) = Lookup P i g db key
           in case r of
                Some a \<Rightarrow> (RSimple (typeName (typeOf (Val (ents g1 a)))), g1)
              | None \<Rightarrow> (RSimple ''none'', g1)) g)"

section \<open>Specifications\<close>

definition expireSpec :: "expireFlags \<Rightarrow> int \<Rightarrow> int \<Rightarrow> kentry \<Rightarrow> rv \<times> kentry" where
  "expireSpec f at now old =
     (case old of
        None \<Rightarrow> (RInt 0, None)
      | Some (v, t) \<Rightarrow>
          if expBlocked f t at then (RInt 0, old)
          else (RInt 1, if at \<le> now then None else Some (v, at)))"

definition ttlSpec :: "bool \<Rightarrow> int \<Rightarrow> kentry \<Rightarrow> rv \<times> kentry" where
  "ttlSpec ms now old = (case old of None \<Rightarrow> RInt (-2) | Some (_, t) \<Rightarrow> ttlReply ms now t, old)"

definition persistSpec :: "int \<Rightarrow> kentry \<Rightarrow> rv \<times> kentry" where
  "persistSpec now old =
     (case old of
        Some (v, t) \<Rightarrow> if t = 0 then (RInt 0, old) else (RInt 1, Some (v, 0))
      | None \<Rightarrow> (RInt 0, None))"

definition typeSpec :: "int \<Rightarrow> kentry \<Rightarrow> rv \<times> kentry" where
  "typeSpec now old = (RSimple (case old of None \<Rightarrow> ''none'' | Some (v, _) \<Rightarrow> typeName (atype v)), old)"

section \<open>The handlers meet their specifications\<close>

lemma kv_notifySlots [simp]: "kv P (notifySlots db ev keys bs g) = kv P g"
  by (induction db ev keys bs g rule: notifySlots.induct) simp_all

context pluto_laws
begin

lemma expire_refines:
  assumes "ptr_ok P g" "maxMemory g \<le> 0" "parseIntStrict (args ! 2) = Some v" "parseExpireFlags args = Inr f"
  shows "refines P db (args ! 1) (expireSpec f (expireAt_ms ms abs' (NowMs g) v)) g (expireCommon P db args ms abs' g)"
proof -
  let ?at = "expireAt_ms ms abs' (NowMs g) v"
  let ?D = "doKey P (args ! 1) (expireTask P db (args ! 1) f ?at (NowMs g)) g"
  have "fst (fst ?D) = fst (expireSpec f ?at (NowMs g) (kv P g db (args ! 1))) \<and>
      kv P (snd ?D) = kvupd (kv P g) db (args ! 1) (snd (expireSpec f ?at (NowMs g) (kv P g db (args ! 1))))"
    unfolding expireTask_def [abs_def] Let_def split_beta
    by (rule doKey_lookup [where Q = "\<lambda>r K. fst r = _ \<and> K = _", OF assms(1,2), unfolded split_beta])
      (auto simp: expireSpec_def abse_def kv_expire)
  then show ?thesis using assms(3,4) by (simp add: refines_def expireCommon_def split_beta Let_def)
qed

lemma ttl_refines:
  assumes "ptr_ok P g" "maxMemory g \<le> 0"
  shows "refines P db (args ! 1) (ttlSpec ms) g (ttlCommon P db args ms g)"
  unfolding refines_def ttlCommon_def Let_def
  by (rule doKey_lookup [where Q = "\<lambda>r K. r = _ \<and> K = _", OF assms]) (auto simp: ttlSpec_def abse_def)

lemma persist_refines:
  assumes "ptr_ok P g" "maxMemory g \<le> 0"
  shows "refines P db (args ! 1) persistSpec g (cmdPersist P db args g)"
  unfolding refines_def cmdPersist_def Let_def split_beta fst_conv snd_conv kv_if_notify
  by (rule doKey_lookup [where Q = "\<lambda>r K. fst r = _ \<and> K = _", OF assms, unfolded split_beta])
    (auto simp: persistSpec_def abse_def kv_persist)

lemma type_refines:
  assumes "ptr_ok P g" "maxMemory g \<le> 0"
  shows "refines P db (args ! 1) typeSpec g (cmdType P db args g)"
  unfolding refines_def cmdType_def Let_def
  by (rule doKey_lookup [where Q = "\<lambda>r K. r = _ \<and> K = _", OF assms]) (auto simp: typeSpec_def abse_def)

text \<open>DEL deletes the named keys and counts those that were live, each once, in any schedule.\<close>

lemma Delete_kv: "fst (Delete P i g db key) \<longleftrightarrow> kv P g db key \<noteq> None"
  by (simp add: Delete_result kv_def)

lemma Lookup_kv_None: "fst (Lookup P i g db key) = None \<longleftrightarrow> kv P g db key = None"
proof -
  have "map_option (abse P) (map_option (ents g) (fst (Lookup P i g db key))) = kv P g db key"
    by (simp add: kv_def Lookup_result)
  then show ?thesis by (metis option.map_disc_iff)
qed

lemma cmdDel_spec:
  assumes ord: "sched (groupKeys (ShardIndex P k) (tl args)) ord" and k: "kbits g = k" and m: "maxMemory g \<le> 0"
  shows "fst (cmdDel P ord db args g) = RInt (int (card {x \<in> set (tl args). kv P g db x \<noteq> None}))"
    and "kv P (snd (cmdDel P ord db args g)) = (\<lambda>d x. if d = db \<and> x \<in> set (tl args) then None else kv P g d x)"
proof -
  let ?keys = "tl args"
  let ?gone = "\<lambda>S. {x \<in> (!) ?keys ` S. kv P g db x \<noteq> None}"
  let ?I = "\<lambda>S (acc :: bool list \<times> int) h. maxMemory h \<le> 0 \<and> finite S \<and> snd acc = int (card (?gone S)) \<and>
    kv P h = (\<lambda>d x. if d = db \<and> x \<in> (!) ?keys ` S then None else kv P g d x)"
  let ?r = "doMulti P ord ?keys (\<lambda>si. each_idx ?keys (delTask P db si)) (replicate (length ?keys) False, 0) g"
  have "?I {..<length ?keys} (fst ?r) (snd ?r)"
  proof (rule doMulti_rule [where I = ?I, OF ord k])
    fix S i and acc :: "bool list \<times> int" and h assume I: "?I S acc h"
    let ?x = "?keys ! i" and ?si = "ShardIndex P k (?keys ! i)"
    have kv: "kv P h db ?x = (if ?x \<in> (!) ?keys ` S then None else kv P g db ?x)" using I by simp
    have "?gone (insert i S) = (if kv P h db ?x \<noteq> None then insert ?x (?gone S) else ?gone S)"
      using kv by auto
    moreover have "?x \<notin> ?gone S" if "kv P h db ?x \<noteq> None" using kv that by auto
    ultimately have "snd (fst (delTask P db ?si i ?x acc h)) = int (card (?gone (insert i S)))"
      using I by (simp add: delTask_def split_beta Delete_kv)
    moreover have "kv P (snd (delTask P db ?si i ?x acc h)) = (\<lambda>d x. if d = db \<and> x \<in> (!) ?keys ` insert i S then None else kv P g d x)"
      using I by (auto simp: delTask_def split_beta kvupd_def fun_eq_iff)
    ultimately show "?I (insert i S) (fst (delTask P db ?si i ?x acc h)) (snd (delTask P db ?si i ?x acc h))"
      using I by (simp add: delTask_def split_beta)
  qed (use m in auto)
  moreover have "(!) ?keys ` {..<length ?keys} = set ?keys" by (auto simp: set_conv_nth)
  ultimately show "fst (cmdDel P ord db args g) = RInt (int (card {x \<in> set (tl args). kv P g db x \<noteq> None}))"
    and "kv P (snd (cmdDel P ord db args g)) = (\<lambda>d x. if d = db \<and> x \<in> set (tl args) then None else kv P g d x)"
    by (simp_all add: cmdDel_def split_beta Let_def)
qed

text \<open>EXISTS counts positions, so a repeated key counts every time.\<close>

lemma cmdExists_spec:
  assumes ord: "sched (groupKeys (ShardIndex P k) (tl args)) ord" and k: "kbits g = k" and m: "maxMemory g \<le> 0"
  shows "fst (cmdExists P ord db args g) = RInt (int (length (filter (\<lambda>x. kv P g db x \<noteq> None) (tl args))))"
    and "kv P (snd (cmdExists P ord db args g)) = kv P g"
proof -
  let ?keys = "tl args"
  let ?I = "\<lambda>S acc h. maxMemory h \<le> 0 \<and> finite S \<and> acc = int (card {i \<in> S. kv P g db (?keys ! i) \<noteq> None}) \<and> kv P h = kv P g"
  let ?r = "doMulti P ord ?keys (\<lambda>si. each_idx ?keys (existsTask P db si)) 0 g"
  have "?I {..<length ?keys} (fst ?r) (snd ?r)"
  proof (rule doMulti_rule [where I = ?I, OF ord k])
    fix S i acc h assume I: "?I S acc h" and "i < length ?keys"
      and o: "\<forall>j < length ?keys. ShardIndex P k (?keys ! j) = ShardIndex P k (?keys ! i) \<longrightarrow> (j \<in> S \<longleftrightarrow> j < i)"
    then have "i \<notin> S" by auto
    then have "card {j \<in> insert i S. kv P g db (?keys ! j) \<noteq> None} =
        (if kv P g db (?keys ! i) \<noteq> None then Suc (card {j \<in> S. kv P g db (?keys ! j) \<noteq> None}) else card {j \<in> S. kv P g db (?keys ! j) \<noteq> None})"
    proof -
      have "{j \<in> insert i S. kv P g db (?keys ! j) \<noteq> None} =
          (if kv P g db (?keys ! i) \<noteq> None then insert i {j \<in> S. kv P g db (?keys ! j) \<noteq> None} else {j \<in> S. kv P g db (?keys ! j) \<noteq> None})" by auto
      then show ?thesis using I \<open>i \<notin> S\<close> by simp
    qed
    then show "?I (insert i S) (fst (existsTask P db (ShardIndex P k (?keys ! i)) i (?keys ! i) acc h))
        (snd (existsTask P db (ShardIndex P k (?keys ! i)) i (?keys ! i) acc h))"
      using I by (simp add: existsTask_def split_beta Lookup_kv_None del: not_None_eq)
  qed (use m in auto)
  moreover have "card {i \<in> {..<length ?keys}. kv P g db (?keys ! i) \<noteq> None} = length (filter (\<lambda>x. kv P g db x \<noteq> None) ?keys)"
    by (simp add: length_filter_conv_card del: not_None_eq)
  ultimately show "fst (cmdExists P ord db args g) = RInt (int (length (filter (\<lambda>x. kv P g db x \<noteq> None) (tl args))))"
    and "kv P (snd (cmdExists P ord db args g)) = kv P g"
    by (simp_all add: cmdExists_def split_beta Let_def del: not_None_eq)
qed

text \<open>Every key command is a sequence of steps.\<close>

lemma expireTask_acts:
  assumes "db < maxDBs g" "0 \<le> now"
  shows "acts P k g (snd (expireTask P db key f at now (ShardIndex P k key) g))"
proof -
  let ?i = "ShardIndex P k key"
  obtain r g1 where L: "Lookup P ?i g db key = (r, g1)" by (cases "Lookup P ?i g db key")
  note F = Lookup_facts [OF L assms(1)]
  show ?thesis
    using L F assms by (cases r) (auto simp: expireTask_def intro!: acts_expire acts_Delete)
qed

lemma key_acts:
  assumes "kbits g = k" "db < maxDBs g" "0 \<le> NowMs g"
  shows "acts P k g (snd (expireCommon P db args ms abs' g))" "acts P k g (snd (ttlCommon P db args ms g))"
    "acts P k g (snd (cmdPersist P db args g))" "acts P k g (snd (cmdType P db args g))"
proof -
  let ?i = "ShardIndex P k (args ! 1)"
  obtain r g1 where L: "Lookup P ?i g db (args ! 1) = (r, g1)" by (cases "Lookup P ?i g db (args ! 1)")
  note F = Lookup_facts [OF L assms(2)]
  show "acts P k g (snd (expireCommon P db args ms abs' g))"
    using acts_doKey [where fn = "expireTask P db key f at now" for key f at now, OF assms(1) expireTask_acts [OF assms(2)]] assms(3)
    by (auto simp: expireCommon_def split_beta Let_def intro!: acts_notify split: option.split sum.split)
  show "acts P k g (snd (ttlCommon P db args ms g))"
    unfolding ttlCommon_def Let_def by (rule acts_doKey [OF assms(1)]) (use L F in \<open>auto split: option.split\<close>)
  show "acts P k g (snd (cmdType P db args g))"
    unfolding cmdType_def Let_def by (rule acts_doKey [OF assms(1)]) (use L F in \<open>auto split: option.split\<close>)
  show "acts P k g (snd (cmdPersist P db args g))"
    unfolding cmdPersist_def Let_def split_beta snd_conv
    by (rule acts_if_notify, rule acts_doKey [OF assms(1)])
      (use L F assms(2) in \<open>auto intro!: acts_Touch acts_persist split: option.split\<close>)
qed

lemma acts_notifySlots: "acts P k g0 g \<Longrightarrow> acts P k g0 (notifySlots db ev keys bs g)"
  by (induction db ev keys bs g rule: notifySlots.induct) (simp_all add: acts_notify)

lemma multi_key_acts:
  assumes "sched (groupKeys (ShardIndex P k) (tl args)) ord" "kbits g = k" "db < maxDBs g"
  shows "acts P k g (snd (cmdDel P ord db args g))" "acts P k g (snd (cmdExists P ord db args g))"
proof -
  have "acts P k h (snd (delTask P db (ShardIndex P k x) i x acc h))" "acts P k h (snd (existsTask P db (ShardIndex P k x) i x n h))"
    if "db < maxDBs h" for i x acc n h
    using that by (simp_all add: delTask_def existsTask_def split_beta acts_Delete acts_Lookup)
  then show "acts P k g (snd (cmdDel P ord db args g))" "acts P k g (snd (cmdExists P ord db args g))"
    using acts_doMulti [where f = "delTask P db", OF assms] acts_doMulti [where f = "existsTask P db", OF assms]
    by (simp_all add: cmdDel_def cmdExists_def split_beta Let_def acts_notifySlots)
qed

end

end
