(* ===== verification/Coll_Tasks.thy ===== *)
theory Coll_Tasks
  imports Cmd_Keys
begin

text \<open>
  What the collection commands share (\<^verbatim>\<open>src/lib/commands/coll.go\<close>): typed lookup of a key, and
  the shape of their specifications. A collection command is specified by a function on
  collections: a missing key is the empty collection, a collection left empty is no key at all,
  a key of another type is refused and kept, and the expiry time of an existing key is kept.
  This reading is right because no live key holds an empty collection, which is itself kept by
  every command.
\<close>

section \<open>Specifications of collection commands\<close>

definition collOp :: "(aval \<Rightarrow> 'c option) \<Rightarrow> ('c \<Rightarrow> aval) \<Rightarrow> 'c \<Rightarrow> ('c \<Rightarrow> rv \<times> 'c) \<Rightarrow> int \<Rightarrow> kentry \<Rightarrow> rv \<times> kentry" where
  "collOp dst mk z f now old =
     (case old of
        None \<Rightarrow> (fst (f z), if snd (f z) = z then None else Some (mk (snd (f z)), 0))
      | Some (v, t) \<Rightarrow>
          (case dst v of
             None \<Rightarrow> (errWrongType, old)
           | Some c \<Rightarrow> (fst (f c), if snd (f c) = z then None else Some (mk (snd (f c)), t))))"

definition asHash :: "aval \<Rightarrow> (string \<times> string) list option" where
  "asHash v = (case v of AHash m \<Rightarrow> Some m | _ \<Rightarrow> None)"

definition asList :: "aval \<Rightarrow> string list option" where
  "asList v = (case v of AList xs \<Rightarrow> Some xs | _ \<Rightarrow> None)"

definition asSet :: "aval \<Rightarrow> string set option" where
  "asSet v = (case v of ASet S \<Rightarrow> Some S | _ \<Rightarrow> None)"

abbreviation hashOp :: "((string \<times> string) list \<Rightarrow> rv \<times> (string \<times> string) list) \<Rightarrow> int \<Rightarrow> kentry \<Rightarrow> rv \<times> kentry" where
  "hashOp \<equiv> collOp asHash AHash []"

abbreviation listOp :: "(string list \<Rightarrow> rv \<times> string list) \<Rightarrow> int \<Rightarrow> kentry \<Rightarrow> rv \<times> kentry" where
  "listOp \<equiv> collOp asList AList []"

abbreviation setOp :: "(string set \<Rightarrow> rv \<times> string set) \<Rightarrow> int \<Rightarrow> kentry \<Rightarrow> rv \<times> kentry" where
  "setOp \<equiv> collOp asSet ASet {}"

lemmas as_coll_defs = asHash_def asList_def asSet_def

lemma as_coll_simps [simp]:
  "asHash (AHash m) = Some m" "asList (AList xs) = Some xs" "asSet (ASet S) = Some S"
  "typeOf v \<noteq> TypeHash \<Longrightarrow> asHash (absv P v) = None" "typeOf v \<noteq> TypeList \<Longrightarrow> asList (absv P v) = None"
  "typeOf v \<noteq> TypeSet \<Longrightarrow> asSet (absv P v) = None"
  by (cases v; simp add: as_coll_defs)+

text \<open>No key holds an empty collection.\<close>

definition full :: "aval \<Rightarrow> bool" where
  "full v \<longleftrightarrow> (case v of AString _ \<Rightarrow> True | AHash m \<Rightarrow> m \<noteq> [] | AList xs \<Rightarrow> xs \<noteq> [] | ASet S \<Rightarrow> S \<noteq> {} | AZSet m \<Rightarrow> m \<noteq> Map.empty)"

definition no_empty :: "keyspace \<Rightarrow> bool" where
  "no_empty K \<longleftrightarrow> (\<forall>db key v t. K db key = Some (v, t) \<longrightarrow> full v)"

lemma full_simps [simp]:
  "full (AString s)" "full (AHash m) \<longleftrightarrow> m \<noteq> []" "full (AList xs) \<longleftrightarrow> xs \<noteq> []" "full (ASet S) \<longleftrightarrow> S \<noteq> {}" "full (AZSet z) \<longleftrightarrow> z \<noteq> Map.empty"
  by (simp_all add: full_def)

lemma no_empty_upd:
  assumes "no_empty K" "\<And>v t. e = Some (v, t) \<Longrightarrow> full v"
  shows "no_empty (kvupd K db key e)"
  using assms by (auto simp: no_empty_def kvupd_def)

lemma collOp_full:
  assumes "\<And>c. c \<noteq> z \<Longrightarrow> full (mk c)" "\<And>v t. old = Some (v, t) \<Longrightarrow> full v" "snd (collOp dst mk z f now old) = Some (v, t)"
  shows "full v"
  using assms by (auto simp: collOp_def split: option.splits if_splits)

text \<open>A handler that refines a collection operation keeps the keyspace free of empty collections.\<close>

lemma refines_no_empty:
  assumes "refines P db key (collOp dst mk z f) g out" "no_empty (kv P g)" "\<And>c. c \<noteq> z \<Longrightarrow> full (mk c)"
  shows "no_empty (kv P (snd out))"
proof -
  have "full v" if "snd (collOp dst mk z f (NowMs g) (kv P g db key)) = Some (v, t)" for v t
    using collOp_full [OF assms(3) _ that] assms(2) unfolding no_empty_def by blast
  then show ?thesis using assms(1,2) by (auto simp: refines_def intro: no_empty_upd)
qed

section \<open>Typed lookup\<close>

context pluto_laws
begin

lemma getColl_eq:
  "getColl P i g db key t =
     (let r = fst (Lookup P i g db key); g1 = snd (Lookup P i g db key);
          wt = (r \<noteq> None \<and> typeOf (Val (ents g1 (the r))) \<noteq> t)
      in ((if wt then None else r, wt), g1))"
  by (cases "Lookup P i g db key") (auto simp: getColl_def Let_def split: option.splits)

lemma getColl_facts:
  assumes "getColl P (ShardIndex P k key) g db key t = ((r, wt), g1)" "db < maxDBs g"
  shows "acts P k g g1" "maxDBs g1 = maxDBs g" "NowMs g1 = NowMs g" "ents g1 = ents g" "maxMemory g1 = maxMemory g"
    "r = Some a \<Longrightarrow> search P g1 db key = Some a" "r = Some a \<Longrightarrow> typeOf (Val (ents g1 a)) = t"
proof -
  obtain r' where L: "Lookup P (ShardIndex P k key) g db key = (r', g1)"
    using assms(1) by (cases "Lookup P (ShardIndex P k key) g db key") (auto simp: getColl_eq Let_def)
  note F = Lookup_facts [OF L assms(2)]
  show "acts P k g g1" "maxDBs g1 = maxDBs g" "NowMs g1 = NowMs g" "ents g1 = ents g" "maxMemory g1 = maxMemory g" using F by auto
  have r: "r = Some a \<Longrightarrow> r' = Some a \<and> typeOf (Val (ents g1 a)) = t" for a
    using assms(1) L by (auto simp: getColl_eq Let_def split: if_splits)
  show "r = Some a \<Longrightarrow> search P g1 db key = Some a" "r = Some a \<Longrightarrow> typeOf (Val (ents g1 a)) = t"
    using r F(6) by auto
qed

lemma vals_ok_search:
  assumes "vals_ok P g" "search P g db key = Some a"
  shows "value_ok P (Val (ents g a))"
  using assms by (auto simp: vals_ok_def view_def)

lemma vals_ok_Lookup:
  assumes "vals_ok P g" "Lookup P i g db key = (Some a, g1)"
  shows "value_ok P (Val (ents g1 a))"
  using Lookup_Some [OF assms(2)] assms(1) vals_ok_search [of g1 db key a] by (simp add: vals_ok_def)

text \<open>What a typed lookup says about the abstract keyspace.\<close>

lemma getColl_kv:
  assumes G: "getColl P i g db key t = ((r, wt), g1)" and inv: "ptr_ok P g"
  shows "kv P g1 = kv P g" "ptr_ok P g1" "NowMs g1 = NowMs g" "maxMemory g1 = maxMemory g" "kbits g1 = kbits g"
    "wt \<longleftrightarrow> (\<exists>v x. kv P g db key = Some (v, x) \<and> atype v \<noteq> t)"
    "r = None \<and> \<not> wt \<longleftrightarrow> kv P g db key = None"
    "r = Some a \<Longrightarrow> \<not> wt \<and> search P g1 db key = Some a \<and> \<not> due (ents g1 a) (NowMs g1) \<and>
       kv P g db key = Some (absv P (Val (ents g1 a)), ExpireAtMs (ents g1 a)) \<and> typeOf (Val (ents g1 a)) = t"
proof -
  define r0 where "r0 = fst (Lookup P i g db key)"
  have g1: "snd (Lookup P i g db key) = g1" using G by (simp add: getColl_eq Let_def)
  have L: "Lookup P i g db key = (r0, g1)" using g1 by (simp add: r0_def prod_eq_iff)
  have wt: "wt \<longleftrightarrow> r0 \<noteq> None \<and> typeOf (Val (ents g1 (the r0))) \<noteq> t"
    using arg_cong [OF G, of "\<lambda>x. snd (fst x)"] unfolding getColl_eq Let_def g1 r0_def by simp
  have r: "r = (if wt then None else r0)" "wt \<longleftrightarrow> r0 \<noteq> None \<and> typeOf (Val (ents g1 (the r0))) \<noteq> t"
    using arg_cong [OF G, of "\<lambda>x. fst (fst x)"] wt unfolding getColl_eq Let_def g1 r0_def by simp_all
  note K = Lookup_kv [OF L inv]
  show "kv P g1 = kv P g" "ptr_ok P g1" "NowMs g1 = NowMs g" "maxMemory g1 = maxMemory g" using K by auto
  show "kbits g1 = kbits g" using Lookup_sel [of i g db key] L by auto
  have n: "r0 = None \<longleftrightarrow> kv P g db key = None" using Lookup_kv_None [of i g db key] L by simp
  have s: "kv P g db key = Some (absv P (Val (ents g1 b)), ExpireAtMs (ents g1 b))" if "r0 = Some b" for b
    using K(10) [OF that] by (simp add: abse_def)
  show "wt \<longleftrightarrow> (\<exists>v x. kv P g db key = Some (v, x) \<and> atype v \<noteq> t)"
    using r(2) n s by (cases r0) auto
  show "r = None \<and> \<not> wt \<longleftrightarrow> kv P g db key = None"
    using r n by (cases r0) auto
  show "\<not> wt \<and> search P g1 db key = Some a \<and> \<not> due (ents g1 a) (NowMs g1) \<and>
      kv P g db key = Some (absv P (Val (ents g1 a)), ExpireAtMs (ents g1 a)) \<and> typeOf (Val (ents g1 a)) = t" if "r = Some a"
  proof -
    have r0: "r0 = Some a" "\<not> wt" "typeOf (Val (ents g1 a)) = t" using r that by (auto split: if_splits)
    then show ?thesis using K(3,8,9) s by simp
  qed
qed

text \<open>The rule for refinement proofs: the three outcomes of the lookup.\<close>

lemma doKey_coll:
  assumes inv: "ptr_ok P g" "maxMemory g \<le> 0" "vals_ok P g" "no_empty (kv P g)"
    and none: "\<And>i g1. \<lbrakk>kv P g1 = kv P g; ptr_ok P g1; NowMs g1 = NowMs g; maxMemory g1 \<le> 0; kv P g db key = None\<rbrakk> \<Longrightarrow>
      maxMemory (snd (B i ((None, False), g1))) \<le> 0 \<and> Q (fst (B i ((None, False), g1))) (kv P (snd (B i ((None, False), g1))))"
    and wrong: "\<And>i g1 v x. \<lbrakk>kv P g1 = kv P g; maxMemory g1 \<le> 0; kv P g db key = Some (absv P v, x); typeOf v \<noteq> t\<rbrakk> \<Longrightarrow>
      maxMemory (snd (B i ((None, True), g1))) \<le> 0 \<and> Q (fst (B i ((None, True), g1))) (kv P (snd (B i ((None, True), g1))))"
    and some: "\<And>i a g1. \<lbrakk>kv P g1 = kv P g; ptr_ok P g1; NowMs g1 = NowMs g; maxMemory g1 \<le> 0; search P g1 db key = Some a;
        \<not> due (ents g1 a) (NowMs g); kv P g db key = Some (absv P (Val (ents g1 a)), ExpireAtMs (ents g1 a));
        typeOf (Val (ents g1 a)) = t; value_ok P (Val (ents g1 a)); full (absv P (Val (ents g1 a)))\<rbrakk> \<Longrightarrow>
      maxMemory (snd (B i ((Some a, False), g1))) \<le> 0 \<and> Q (fst (B i ((Some a, False), g1))) (kv P (snd (B i ((Some a, False), g1))))"
  shows "Q (fst (doKey P key (\<lambda>i g. B i (getColl P i g db key t)) g)) (kv P (snd (doKey P key (\<lambda>i g. B i (getColl P i g db key t)) g)))"
proof -
  let ?i = "ShardIndex P (kbits g) key"
  obtain r g1 where L: "Lookup P ?i g db key = (r, g1)" by (cases "Lookup P ?i g db key")
  note K = Lookup_kv [OF L inv(1)]
  let ?B = "B ?i (getColl P ?i g db key t)"
  have "maxMemory (snd ?B) \<le> 0 \<and> Q (fst ?B) (kv P (snd ?B))"
  proof (cases r)
    case None
    then show ?thesis using none [of g1 ?i] K inv(2) L by (simp add: getColl_eq)
  next
    case (Some a)
    note v = vals_ok_Lookup [OF inv(3) L [unfolded Some]]
    have "full (absv P (Val (ents g1 a)))" using inv(4) K(10) [OF Some] by (auto simp: no_empty_def abse_def)
    then show ?thesis
      using wrong [of g1 "Val (ents g1 a)" _ ?i] some [of g1 a ?i] K v inv(2) L Some
      by (cases "typeOf (Val (ents g1 a)) = t") (auto simp: getColl_eq abse_def)
  qed
  then show ?thesis
    using doKey_kv [where fn = "\<lambda>i g. B i (getColl P i g db key t)" and g = g and key = key] by simp
qed

lemma kv_storeColl: "ptr_ok P g \<Longrightarrow> kv P (snd (storeColl P i g db key v)) = kvupd (kv P g) db key (Some (absv P v, 0))"
  by (simp add: storeColl_def kv_store)

lemma kv_fill:
  "ptr_ok P g \<Longrightarrow> kv P (setVal (fst (storeColl P i g db key v0)) v (snd (storeColl P i g db key v0))) = kvupd (kv P g) db key (Some (absv P v, 0))"
  using kv_store_fill [of i g db key v0] by (cases "storeColl P i g db key v0") simp

lemmas coll_simps = collOp_def kv_update kv_setVal kv_storeColl kv_fill split_beta Let_def

text \<open>The same for a closure that meets a collection operation, with the updates of the entry worked out.\<close>

lemma coll_task_refines:
  assumes inv: "ptr_ok P g" "maxMemory g \<le> 0" "vals_ok P g" "no_empty (kv P g)"
    and dst: "\<And>v. typeOf v = t \<longleftrightarrow> dst (absv P v) \<noteq> None"
    and none: "\<And>i g1. \<lbrakk>kv P g1 = kv P g; ptr_ok P g1; maxMemory g1 \<le> 0; kv P g db key = None\<rbrakk> \<Longrightarrow>
      maxMemory (snd (T i ((None, False), g1))) \<le> 0 \<and> fst (fst (T i ((None, False), g1))) = fst (f z) \<and>
      kv P (snd (T i ((None, False), g1))) = kvupd (kv P g) db key (if snd (f z) = z then None else Some (mk (snd (f z)), 0))"
    and wrong: "\<And>i g1. snd (T i ((None, True), g1)) = g1 \<and> fst (fst (T i ((None, True), g1))) = errWrongType"
    and some: "\<And>i a g1 c x. \<lbrakk>kv P g1 = kv P g; maxMemory g1 \<le> 0; dst (absv P (Val (ents g1 a))) = Some c;
        typeOf (Val (ents g1 a)) = t; value_ok P (Val (ents g1 a)); full (absv P (Val (ents g1 a))); kv P g db key = Some (absv P (Val (ents g1 a)), x);
        \<And>v. kv P (setVal a v g1) = kvupd (kv P g) db key (Some (absv P v, x));
        \<And>j v. kv P (Touch P j (setVal a v g1) db key a) = kvupd (kv P g) db key (Some (absv P v, x))\<rbrakk> \<Longrightarrow>
      maxMemory (snd (T i ((Some a, False), g1))) \<le> 0 \<and> fst (fst (T i ((Some a, False), g1))) = fst (f c) \<and>
      kv P (snd (T i ((Some a, False), g1))) = kvupd (kv P g) db key (if snd (f c) = z then None else Some (mk (snd (f c)), x))"
  shows "refines P db key (collOp dst mk z f) g
    (fst (fst (doKey P key (\<lambda>i g. T i (getColl P i g db key t)) g)), snd (doKey P key (\<lambda>i g. T i (getColl P i g db key t)) g))"
  unfolding refines_def fst_conv snd_conv
proof (rule doKey_coll [where Q = "\<lambda>r K. fst r = _ \<and> K = _" and B = T, OF inv])
  fix i a g1
  assume a: "kv P g1 = kv P g" "ptr_ok P g1" "NowMs g1 = NowMs g" "maxMemory g1 \<le> 0" "search P g1 db key = Some a"
    "\<not> due (ents g1 a) (NowMs g)" "kv P g db key = Some (absv P (Val (ents g1 a)), ExpireAtMs (ents g1 a))"
    "typeOf (Val (ents g1 a)) = t" "value_ok P (Val (ents g1 a))" "full (absv P (Val (ents g1 a)))"
  obtain c where c: "dst (absv P (Val (ents g1 a))) = Some c" using a(8) dst by blast
  have "kv P (setVal a v g1) = kvupd (kv P g) db key (Some (absv P v, ExpireAtMs (ents g1 a)))" for v
    using kv_setVal [OF a(2,5)] a(1,3,6) by simp
  moreover have "kv P (Touch P j (setVal a v g1) db key a) = kvupd (kv P g) db key (Some (absv P v, ExpireAtMs (ents g1 a)))" for j v
    using kv_update [OF a(2,5)] a(1,3,6) by simp
  ultimately show "maxMemory (snd (T i ((Some a, False), g1))) \<le> 0 \<and>
      fst (fst (T i ((Some a, False), g1))) = fst (collOp dst mk z f (NowMs g) (kv P g db key)) \<and>
      kv P (snd (T i ((Some a, False), g1))) = kvupd (kv P g) db key (snd (collOp dst mk z f (NowMs g) (kv P g db key)))"
    using some [OF a(1,4) c a(8,9,10,7)] a(7) c by (simp add: collOp_def)
next
  fix i g1 v x
  assume "kv P g1 = kv P g" "maxMemory g1 \<le> 0" "kv P g db key = Some (absv P v, x)" "typeOf v \<noteq> t"
  then show "maxMemory (snd (T i ((None, True), g1))) \<le> 0 \<and>
      fst (fst (T i ((None, True), g1))) = fst (collOp dst mk z f (NowMs g) (kv P g db key)) \<and>
      kv P (snd (T i ((None, True), g1))) = kvupd (kv P g) db key (snd (collOp dst mk z f (NowMs g) (kv P g db key)))"
    using wrong [of i g1] dst [of v] by (simp add: collOp_def)
qed (use none in \<open>simp add: collOp_def\<close>)

lemma as_coll_type:
  "typeOf v = TypeHash \<longleftrightarrow> asHash (absv P v) \<noteq> None" "typeOf v = TypeList \<longleftrightarrow> asList (absv P v) \<noteq> None"
  "typeOf v = TypeSet \<longleftrightarrow> asSet (absv P v) \<noteq> None"
  by (cases v; simp add: as_coll_defs)+

text \<open>For the proofs that a handler is a sequence of steps.\<close>

lemma acts_fill:
  assumes "acts P k g0 g" "db < maxDBs g" "value_ok P v0" "value_ok P v"
  shows "acts P k g0 (setVal (fst (storeColl P (ShardIndex P k key) g db key v0)) v (snd (storeColl P (ShardIndex P k key) g db key v0)))"
  by (rule acts_setVal [where db = db and key = key, OF acts_storeColl [OF assms(1-3)]]) (use assms in \<open>simp_all add: storeColl_def\<close>)

lemma acts_coll:
  assumes "kbits g = k" "acts P k g (snd (B (ShardIndex P k key) (getColl P (ShardIndex P k key) g db key t)))"
  shows "acts P k g (snd (doKey P key (\<lambda>i g. B i (getColl P i g db key t)) g))"
  using acts_doKey [where fn = "\<lambda>i g. B i (getColl P i g db key t)"] assms by simp

lemma acts_getColl:
  assumes "kbits g = k" "db < maxDBs g" "\<And>i r. snd (B i r) = snd r"
  shows "acts P k g (snd (doKey P key (\<lambda>i g. B i (getColl P i g db key t)) g))"
proof (rule acts_coll [OF assms(1)])
  show "acts P k g (snd (B (ShardIndex P k key) (getColl P (ShardIndex P k key) g db key t)))"
    using getColl_facts(1) [where key = key and t = t, OF _ assms(2)] assms(3) by (cases "getColl P (ShardIndex P k key) g db key t") auto
qed

end

end
