(* ===== verification/Cmd_Hash.thy ===== *)
theory Cmd_Hash
  imports Coll_Tasks
begin

text \<open>
  The hash commands (\<^verbatim>\<open>src/lib/commands/hash.go\<close>) except HINCRBYFLOAT, whose number syntax and
  arithmetic are those of \<^verbatim>\<open>strconv\<close> and of the hardware, and the sampling commands. A hash
  mutated through \<^verbatim>\<open>ent.Obj\<close> is written back with \<open>setVal\<close>, which is what the pointer does.
\<close>

section \<open>Definitions\<close>

definition boolInt :: "bool \<Rightarrow> int" where "boolInt b = (if b then 1 else 0)"

fun hset_loop :: "hash \<Rightarrow> int \<Rightarrow> string list \<Rightarrow> int \<times> hash" where
  "hset_loop h added (f # v # rest) = (let (new, h1) = HashSet h f v in hset_loop h1 (if new then added + 1 else added) rest)"
| "hset_loop h added _ = (added, h)"

text \<open>The closures, as functions of what \<^verbatim>\<open>getColl\<close> returned.\<close>

definition hsetTask ::
  "('q, 'z, 't, 'h, 'l, 'f) packages \<Rightarrow> nat \<Rightarrow> string \<Rightarrow> string list \<Rightarrow> nat \<Rightarrow> (addr option \<times> bool) \<times> ('q, 'z, 't, 'h, 'l, 'f) st \<Rightarrow> (rv \<times> bool) \<times> ('q, 'z, 't, 'h, 'l, 'f) st" where
  "hsetTask P db key xs i look =
     (let ((ent, wt), g1) = look
      in if wt then ((errWrongType, False), g1)
         else
           (case ent of
              None \<Rightarrow>
                let (a, g2) = storeColl P i g1 db key (VHash NewHash);
                    (added, h) = hset_loop NewHash 0 xs
                in ((RInt added, True), setVal a (VHash h) g2)
            | Some a \<Rightarrow>
                let (added, h) = hset_loop (hashOf (Val (ents g1 a))) 0 xs
                in ((RInt added, True), Touch P i (setVal a (VHash h) g1) db key a)))"

definition cmdHSet :: "('q, 'z, 't, 'h, 'l, 'f) packages \<Rightarrow> nat \<Rightarrow> string list \<Rightarrow> ('q, 'z, 't, 'h, 'l, 'f) st \<Rightarrow> rv \<times> ('q, 'z, 't, 'h, 'l, 'f) st" where
  "cmdHSet P db args g =
     (if length args mod 2 \<noteq> 0 then (errArity ''hset'', g)
      else
        let key = args ! 1;
            ((reply, done'), g1) = doKey P key (\<lambda>i g. hsetTask P db key (drop 2 args) i (getColl P i g db key TypeHash)) g
        in (reply, if done' then notify db key ''hset'' g1 else g1))"

definition isErr :: "rv \<Rightarrow> bool" where
  "isErr v = (case v of RErr _ \<Rightarrow> True | _ \<Rightarrow> False)"

definition cmdHMSet :: "('q, 'z, 't, 'h, 'l, 'f) packages \<Rightarrow> nat \<Rightarrow> string list \<Rightarrow> ('q, 'z, 't, 'h, 'l, 'f) st \<Rightarrow> rv \<times> ('q, 'z, 't, 'h, 'l, 'f) st" where
  "cmdHMSet P db args g =
     (if length args mod 2 \<noteq> 0 then (errArity ''hmset'', g)
      else let (v, g1) = cmdHSet P db args g in (if isErr v then v else replyOK, g1))"

definition cmdHGet :: "('q, 'z, 't, 'h, 'l, 'f) packages \<Rightarrow> nat \<Rightarrow> string list \<Rightarrow> ('q, 'z, 't, 'h, 'l, 'f) st \<Rightarrow> rv \<times> ('q, 'z, 't, 'h, 'l, 'f) st" where
  "cmdHGet P db args g =
     (let key = args ! 1; field = args ! 2
      in doKey P key (\<lambda>i g.
           let ((ent, wt), g1) = getColl P i g db key TypeHash
           in if wt then (errWrongType, g1)
              else
                (case ent of
                   None \<Rightarrow> (RNull, g1)
                 | Some a \<Rightarrow> (case HashGet (hashOf (Val (ents g1 a))) field of Some v \<Rightarrow> RBlob v | None \<Rightarrow> RNull, g1))) g)"

definition optBlob :: "string option \<Rightarrow> rv" where
  "optBlob v = (case v of Some s \<Rightarrow> RBlob s | None \<Rightarrow> RNull)"

definition cmdHMGet :: "('q, 'z, 't, 'h, 'l, 'f) packages \<Rightarrow> nat \<Rightarrow> string list \<Rightarrow> ('q, 'z, 't, 'h, 'l, 'f) st \<Rightarrow> rv \<times> ('q, 'z, 't, 'h, 'l, 'f) st" where
  "cmdHMGet P db args g =
     (let key = args ! 1
      in doKey P key (\<lambda>i g.
           let ((ent, wt), g1) = getColl P i g db key TypeHash
           in if wt then (errWrongType, g1)
              else
                (case ent of
                   None \<Rightarrow> (RArr (map (\<lambda>_. RNull) (drop 2 args)), g1)
                 | Some a \<Rightarrow> (RArr (map (\<lambda>f. optBlob (HashGet (hashOf (Val (ents g1 a))) f)) (drop 2 args)), g1))) g)"

definition pairReply :: "(string \<times> string) list \<Rightarrow> rv list" where
  "pairReply ps = concat (map (\<lambda>(f, v). [RBlob f, RBlob v]) ps)"

definition cmdHGetAll :: "('q, 'z, 't, 'h, 'l, 'f) packages \<Rightarrow> nat \<Rightarrow> string list \<Rightarrow> ('q, 'z, 't, 'h, 'l, 'f) st \<Rightarrow> rv \<times> ('q, 'z, 't, 'h, 'l, 'f) st" where
  "cmdHGetAll P db args g =
     (let key = args ! 1
      in doKey P key (\<lambda>i g.
           let ((ent, wt), g1) = getColl P i g db key TypeHash
           in if wt then (errWrongType, g1)
              else (RMap (case ent of None \<Rightarrow> [] | Some a \<Rightarrow> pairReply (HashEach (hashOf (Val (ents g1 a))))), g1)) g)"

fun hdel_loop :: "hash \<Rightarrow> int \<Rightarrow> string list \<Rightarrow> int \<times> hash" where
  "hdel_loop h n [] = (n, h)"
| "hdel_loop h n (f # fs) = (let (ok, h1) = HashDel h f in hdel_loop h1 (if ok then n + 1 else n) fs)"

definition hdelTask ::
  "('q, 'z, 't, 'h, 'l, 'f) packages \<Rightarrow> nat \<Rightarrow> string \<Rightarrow> string list \<Rightarrow> nat \<Rightarrow> (addr option \<times> bool) \<times> ('q, 'z, 't, 'h, 'l, 'f) st \<Rightarrow> (rv \<times> int \<times> bool) \<times> ('q, 'z, 't, 'h, 'l, 'f) st" where
  "hdelTask P db key fs i look =
     (let ((ent, wt), g1) = look
      in if wt then ((errWrongType, 0, False), g1)
         else
           (case ent of
              None \<Rightarrow> ((RInt 0, 0, False), g1)
            | Some a \<Rightarrow>
                let (n, h) = hdel_loop (hashOf (Val (ents g1 a))) 0 fs;
                    g2 = setVal a (VHash h) g1;
                    g3 = (if 0 < n then Touch P i g2 db key a else g2)
                in if HashLen h = 0 then ((RInt n, n, True), snd (Delete P i g3 db key)) else ((RInt n, n, False), g3)))"

definition cmdHDel :: "('q, 'z, 't, 'h, 'l, 'f) packages \<Rightarrow> nat \<Rightarrow> string list \<Rightarrow> ('q, 'z, 't, 'h, 'l, 'f) st \<Rightarrow> rv \<times> ('q, 'z, 't, 'h, 'l, 'f) st" where
  "cmdHDel P db args g =
     (let key = args ! 1;
          ((reply, n, deleted), g1) = doKey P key (\<lambda>i g. hdelTask P db key (drop 2 args) i (getColl P i g db key TypeHash)) g;
          g2 = (if 0 < n then notify db key ''hdel'' g1 else g1)
      in (reply, if 0 < n \<and> deleted then notify db key ''del'' g2 else g2))"

definition cmdHExists :: "('q, 'z, 't, 'h, 'l, 'f) packages \<Rightarrow> nat \<Rightarrow> string list \<Rightarrow> ('q, 'z, 't, 'h, 'l, 'f) st \<Rightarrow> rv \<times> ('q, 'z, 't, 'h, 'l, 'f) st" where
  "cmdHExists P db args g =
     (let key = args ! 1; field = args ! 2
      in doKey P key (\<lambda>i g.
           let ((ent, wt), g1) = getColl P i g db key TypeHash
           in if wt then (errWrongType, g1)
              else
                (case ent of
                   None \<Rightarrow> (RInt 0, g1)
                 | Some a \<Rightarrow> (RInt (boolInt (HashGet (hashOf (Val (ents g1 a))) field \<noteq> None)), g1))) g)"

definition cmdHLen :: "('q, 'z, 't, 'h, 'l, 'f) packages \<Rightarrow> nat \<Rightarrow> string list \<Rightarrow> ('q, 'z, 't, 'h, 'l, 'f) st \<Rightarrow> rv \<times> ('q, 'z, 't, 'h, 'l, 'f) st" where
  "cmdHLen P db args g =
     (let key = args ! 1
      in doKey P key (\<lambda>i g.
           let ((ent, wt), g1) = getColl P i g db key TypeHash
           in if wt then (errWrongType, g1)
              else (case ent of None \<Rightarrow> (RInt 0, g1) | Some a \<Rightarrow> (RInt (int (HashLen (hashOf (Val (ents g1 a))))), g1))) g)"

definition hKeysVals :: "('q, 'z, 't, 'h, 'l, 'f) packages \<Rightarrow> nat \<Rightarrow> string list \<Rightarrow> bool \<Rightarrow> ('q, 'z, 't, 'h, 'l, 'f) st \<Rightarrow> rv \<times> ('q, 'z, 't, 'h, 'l, 'f) st" where
  "hKeysVals P db args vals g =
     (let key = args ! 1
      in doKey P key (\<lambda>i g.
           let ((ent, wt), g1) = getColl P i g db key TypeHash
           in if wt then (errWrongType, g1)
              else
                (RArr (case ent of
                         None \<Rightarrow> []
                       | Some a \<Rightarrow> map (\<lambda>(f, v). if vals then RBlob v else RBlob f) (HashEach (hashOf (Val (ents g1 a))))), g1)) g)"

definition cmdHKeys :: "('q, 'z, 't, 'h, 'l, 'f) packages \<Rightarrow> nat \<Rightarrow> string list \<Rightarrow> ('q, 'z, 't, 'h, 'l, 'f) st \<Rightarrow> rv \<times> ('q, 'z, 't, 'h, 'l, 'f) st" where
  "cmdHKeys P db args g = hKeysVals P db args False g"

definition cmdHVals :: "('q, 'z, 't, 'h, 'l, 'f) packages \<Rightarrow> nat \<Rightarrow> string list \<Rightarrow> ('q, 'z, 't, 'h, 'l, 'f) st \<Rightarrow> rv \<times> ('q, 'z, 't, 'h, 'l, 'f) st" where
  "cmdHVals P db args g = hKeysVals P db args True g"

definition cmdHStrLen :: "('q, 'z, 't, 'h, 'l, 'f) packages \<Rightarrow> nat \<Rightarrow> string list \<Rightarrow> ('q, 'z, 't, 'h, 'l, 'f) st \<Rightarrow> rv \<times> ('q, 'z, 't, 'h, 'l, 'f) st" where
  "cmdHStrLen P db args g =
     (let key = args ! 1; field = args ! 2
      in doKey P key (\<lambda>i g.
           let ((ent, wt), g1) = getColl P i g db key TypeHash
           in if wt then (errWrongType, g1)
              else
                (case ent of
                   None \<Rightarrow> (RInt 0, g1)
                 | Some a \<Rightarrow>
                     (case HashGet (hashOf (Val (ents g1 a))) field of
                        Some v \<Rightarrow> RInt (int (length v))
                      | None \<Rightarrow> RInt 0, g1))) g)"

definition hsetnxTask ::
  "('q, 'z, 't, 'h, 'l, 'f) packages \<Rightarrow> nat \<Rightarrow> string \<Rightarrow> string \<Rightarrow> string \<Rightarrow> nat \<Rightarrow> (addr option \<times> bool) \<times> ('q, 'z, 't, 'h, 'l, 'f) st \<Rightarrow> (rv \<times> bool) \<times> ('q, 'z, 't, 'h, 'l, 'f) st" where
  "hsetnxTask P db key field val i look =
     (let ((ent, wt), g1) = look
      in if wt then ((errWrongType, False), g1)
         else
           (case ent of
              None \<Rightarrow> ((RInt 1, True), snd (storeColl P i g1 db key (VHash (snd (HashSet NewHash field val)))))
            | Some a \<Rightarrow>
                let h = hashOf (Val (ents g1 a))
                in if HashGet h field \<noteq> None then ((RInt 0, False), g1)
                   else ((RInt 1, True), Touch P i (setVal a (VHash (snd (HashSet h field val))) g1) db key a)))"

definition cmdHSetNX :: "('q, 'z, 't, 'h, 'l, 'f) packages \<Rightarrow> nat \<Rightarrow> string list \<Rightarrow> ('q, 'z, 't, 'h, 'l, 'f) st \<Rightarrow> rv \<times> ('q, 'z, 't, 'h, 'l, 'f) st" where
  "cmdHSetNX P db args g =
     (let key = args ! 1; field = args ! 2; val = args ! 3;
          ((reply, set'), g1) = doKey P key (\<lambda>i g. hsetnxTask P db key field val i (getColl P i g db key TypeHash)) g
      in (reply, if set' then notify db key ''hset'' g1 else g1))"

definition hincrTask ::
  "('q, 'z, 't, 'h, 'l, 'f) packages \<Rightarrow> nat \<Rightarrow> string \<Rightarrow> string \<Rightarrow> int \<Rightarrow> nat \<Rightarrow> (addr option \<times> bool) \<times> ('q, 'z, 't, 'h, 'l, 'f) st \<Rightarrow>
     (rv \<times> bool) \<times> ('q, 'z, 't, 'h, 'l, 'f) st" where
  "hincrTask P db key field delta i look =
     (let ((ent, wt), g1) = look
      in if wt then ((errWrongType, False), g1)
         else
           let h = (case ent of Some a \<Rightarrow> hashOf (Val (ents g1 a)) | None \<Rightarrow> NewHash)
           in case (if ent = None then Inr 0
                    else
                      (case HashGet h field of
                         Some vs \<Rightarrow> (case parseIntStrict vs of None \<Rightarrow> Inl (RErr ''ERR hash value is not an integer'') | Some v \<Rightarrow> Inr v)
                       | None \<Rightarrow> Inr 0)) of
                Inl err \<Rightarrow> ((err, False), g1)
              | Inr cur \<Rightarrow>
                  if incrOverflows cur delta then ((errIncrOvf, False), g1)
                  else
                    let new = wrap64 (cur + delta); h1 = snd (HashSet h field (FormatInt new))
                    in case ent of
                         None \<Rightarrow> ((RInt new, True), snd (storeColl P i g1 db key (VHash h1)))
                       | Some a \<Rightarrow> ((RInt new, True), Touch P i (setVal a (VHash h1) g1) db key a))"

definition cmdHIncrBy :: "('q, 'z, 't, 'h, 'l, 'f) packages \<Rightarrow> nat \<Rightarrow> string list \<Rightarrow> ('q, 'z, 't, 'h, 'l, 'f) st \<Rightarrow> rv \<times> ('q, 'z, 't, 'h, 'l, 'f) st" where
  "cmdHIncrBy P db args g =
     (case parseIntStrict (args ! 3) of
        None \<Rightarrow> (errNotInt, g)
      | Some delta \<Rightarrow>
          let key = args ! 1; field = args ! 2;
              ((reply, done'), g1) = doKey P key (\<lambda>i g. hincrTask P db key field delta i (getColl P i g db key TypeHash)) g
          in (reply, if done' then notify db key ''hincrby'' g1 else g1))"

section \<open>Specifications\<close>

fun pairs_of :: "string list \<Rightarrow> (string \<times> string) list" where
  "pairs_of (f # v # rest) = (f, v) # pairs_of rest"
| "pairs_of _ = []"

text \<open>HSET: fields are updated in place or appended; the reply counts the fields that are new.\<close>

definition hputs :: "(string \<times> string) list \<Rightarrow> (string \<times> string) list \<Rightarrow> (string \<times> string) list" where
  "hputs ps m = foldl (\<lambda>m (f, v). AList.update f v m) m ps"

definition hsetSpec :: "string list \<Rightarrow> (string \<times> string) list \<Rightarrow> rv \<times> (string \<times> string) list" where
  "hsetSpec xs m = (let m' = hputs (pairs_of xs) m in (RInt (int (length m') - int (length m)), m'))"

definition hdelSpec :: "string list \<Rightarrow> (string \<times> string) list \<Rightarrow> rv \<times> (string \<times> string) list" where
  "hdelSpec fs m = (let m' = filter (\<lambda>p. fst p \<notin> set fs) m in (RInt (int (length m) - int (length m')), m'))"

definition hsetnxSpec :: "string \<Rightarrow> string \<Rightarrow> (string \<times> string) list \<Rightarrow> rv \<times> (string \<times> string) list" where
  "hsetnxSpec f v m = (if map_of m f = None then (RInt 1, m @ [(f, v)]) else (RInt 0, m))"

definition hincrSpec :: "string \<Rightarrow> int \<Rightarrow> (string \<times> string) list \<Rightarrow> rv \<times> (string \<times> string) list" where
  "hincrSpec f delta m =
     (case (case map_of m f of None \<Rightarrow> Some 0 | Some s \<Rightarrow> ParseInt64 s) of
        None \<Rightarrow> (RErr ''ERR hash value is not an integer'', m)
      | Some c \<Rightarrow>
          if is_i64 (c + delta) then (RInt (c + delta), AList.update f (FormatInt (c + delta)) m) else (errIncrOvf, m))"

section \<open>The loops\<close>

lemma length_update: "length (AList.update f v m) = (if map_of m f = None then Suc (length m) else length m)"
  by (induction m) auto

lemma length_delete:
  "distinct (map fst m) \<Longrightarrow> int (length (AList.delete f m)) = int (length m) - (if map_of m f = None then 0 else 1)"
proof (induction m)
  case (Cons p m)
  then show ?case using delete_fresh [of f m] by (cases "fst p = f") (auto simp: map_of_eq_None_iff [symmetric])
qed simp

lemma hset_loop_spec:
  assumes "hash_inv h"
  shows "hash_inv (snd (hset_loop h n xs)) \<and> pairs (snd (hset_loop h n xs)) = hputs (pairs_of xs) (pairs h) \<and>
    fst (hset_loop h n xs) = n + int (length (hputs (pairs_of xs) (pairs h))) - int (length (pairs h))"
  using assms
proof (induction h n xs rule: hset_loop.induct)
  case (1 h n f v rest)
  obtain new h1 where s: "HashSet h f v = (new, h1)" by (cases "HashSet h f v")
  have h1: "hash_inv h1" "pairs h1 = AList.update f v (pairs h)" "new \<longleftrightarrow> map_of (pairs h) f = None"
    using HashSet_inv [OF 1(2), of f v] HashSet_pairs [OF 1(2), of f v] HashSet_map(2) [OF 1(2), of f v] s
    by (simp_all add: hash_map_def)
  have "hputs (pairs_of (f # v # rest)) (pairs h) = hputs (pairs_of rest) (pairs h1)" by (simp add: hputs_def h1(2))
  then show ?case using 1(1) [OF s [symmetric] HOL.refl h1(1)] s h1(3) by (simp add: h1(2) length_update)
qed (simp_all add: hputs_def)

lemma hputs_nonempty: "ps \<noteq> [] \<or> m \<noteq> [] \<Longrightarrow> hputs ps m \<noteq> []"
proof (induction ps arbitrary: m)
  case (Cons p ps)
  have "AList.update (fst p) (snd p) m \<noteq> []" by (cases m) auto
  then show ?case using Cons.IH by (simp add: hputs_def split_beta)
qed (simp add: hputs_def)

lemma pairs_of_nonempty: "2 \<le> length xs \<Longrightarrow> pairs_of xs \<noteq> []"
  by (cases xs rule: pairs_of.cases) auto

lemma hdel_loop_spec:
  assumes "hash_inv h"
  shows "hash_inv (snd (hdel_loop h n fs)) \<and> pairs (snd (hdel_loop h n fs)) = filter (\<lambda>p. fst p \<notin> set fs) (pairs h) \<and>
    fst (hdel_loop h n fs) = n + int (length (pairs h)) - int (length (filter (\<lambda>p. fst p \<notin> set fs) (pairs h)))"
  using assms
proof (induction fs arbitrary: h n)
  case (Cons f fs)
  obtain ok h1 where s: "HashDel h f = (ok, h1)" by (cases "HashDel h f")
  have h1: "hash_inv h1" "pairs h1 = AList.delete f (pairs h)" "map_of (pairs h) f = None \<longleftrightarrow> \<not> ok"
    using HashDel_inv [OF Cons.prems, of f] HashDel_pairs [OF Cons.prems, of f] HashDel_map(2) [OF Cons.prems, of f] s
    by (simp_all add: hash_map_def)
  have "int (length (pairs h1)) = int (length (pairs h)) - boolInt ok"
    using length_delete [of "pairs h" f] Cons.prems h1(2,3) by (simp add: hash_inv_def boolInt_def)
  moreover have "filter (\<lambda>p. fst p \<notin> set fs) (pairs h1) = filter (\<lambda>p. fst p \<notin> set (f # fs)) (pairs h)"
    by (auto simp: h1(2) AList.delete_eq intro: filter_cong)
  ultimately show ?case using Cons.IH [OF h1(1)] s by (simp add: boolInt_def split: if_splits)
qed simp

section \<open>The handlers meet their specifications\<close>

context pluto_laws
begin

lemma value_ok_hash [simp]: "value_ok P (VHash h) = hash_inv h"
  by (simp add: value_ok_def)

lemma hash_cases:
  assumes "typeOf v = TypeHash" "value_ok P v"
  obtains h where "v = VHash h" "hash_inv h"
  using assms by (cases v) auto

text \<open>The commands that only read.\<close>

lemma hash_read_refines:
  assumes "ptr_ok P g" "maxMemory g \<le> 0" "vals_ok P g" "no_empty (kv P g)"
  shows "refines P db (args ! 1) (hashOp (\<lambda>m. (optBlob (map_of m (args ! 2)), m))) g (cmdHGet P db args g)"
    "refines P db (args ! 1) (hashOp (\<lambda>m. (RArr (map (\<lambda>f. optBlob (map_of m f)) (drop 2 args)), m))) g (cmdHMGet P db args g)"
    "refines P db (args ! 1) (hashOp (\<lambda>m. (RMap (pairReply m), m))) g (cmdHGetAll P db args g)"
    "refines P db (args ! 1) (hashOp (\<lambda>m. (RInt (boolInt (map_of m (args ! 2) \<noteq> None)), m))) g (cmdHExists P db args g)"
    "refines P db (args ! 1) (hashOp (\<lambda>m. (RInt (int (length m)), m))) g (cmdHLen P db args g)"
    "refines P db (args ! 1) (hashOp (\<lambda>m. (RArr (map (\<lambda>(f, v). if vals then RBlob v else RBlob f) m), m))) g (hKeysVals P db args vals g)"
    "refines P db (args ! 1) (hashOp (\<lambda>m. (RInt (case map_of m (args ! 2) of Some v \<Rightarrow> int (length v) | None \<Rightarrow> 0), m))) g (cmdHStrLen P db args g)"
  unfolding refines_def cmdHGet_def cmdHMGet_def cmdHGetAll_def cmdHExists_def cmdHLen_def hKeysVals_def cmdHStrLen_def Let_def
  by (rule doKey_coll [where Q = "\<lambda>r K. r = _ \<and> K = _", OF assms];
      auto simp: collOp_def HashGet_map hash_map_def optBlob_def HashEach_def HashLen_def pairReply_def
        boolInt_def elim!: hash_cases split: option.splits)+

text \<open>The commands that write.\<close>

lemma cmdHSet_refines:
  assumes "ptr_ok P g" "maxMemory g \<le> 0" "vals_ok P g" "no_empty (kv P g)" "4 \<le> length args" "even (length args)"
  shows "refines P db (args ! 1) (hashOp (hsetSpec (drop 2 args))) g (cmdHSet P db args g)"
proof -
  let ?xs = "drop 2 args" and ?key = "args ! 1"
  let ?D = "doKey P ?key (\<lambda>i g. hsetTask P db ?key ?xs i (getColl P i g db ?key TypeHash)) g"
  have ne: "hputs (pairs_of ?xs) m \<noteq> []" for m
    using assms(5) by (intro hputs_nonempty) (simp add: pairs_of_nonempty)
  note L = hset_loop_spec [where n = 0 and xs = ?xs]
  have "fst (fst ?D) = fst (hashOp (hsetSpec ?xs) (NowMs g) (kv P g db ?key)) \<and>
      kv P (snd ?D) = kvupd (kv P g) db ?key (snd (hashOp (hsetSpec ?xs) (NowMs g) (kv P g db ?key)))"
    by (rule doKey_coll [where Q = "\<lambda>r K. fst r = _ \<and> K = _" and B = "hsetTask P db ?key ?xs", OF assms(1-4)])
      (use ne L [OF NewHash_inv] in \<open>auto simp: hsetTask_def L hsetSpec_def coll_simps NewHash_def elim!: hash_cases\<close>)
  moreover have "length args mod 2 = 0" using assms(6) by presburger
  ultimately show ?thesis by (simp add: refines_def cmdHSet_def split_beta Let_def)
qed

lemma cmdHDel_refines:
  assumes "ptr_ok P g" "maxMemory g \<le> 0" "vals_ok P g" "no_empty (kv P g)"
  shows "refines P db (args ! 1) (hashOp (hdelSpec (drop 2 args))) g (cmdHDel P db args g)"
proof -
  let ?xs = "drop 2 args" and ?key = "args ! 1"
  let ?D = "doKey P ?key (\<lambda>i g. hdelTask P db ?key ?xs i (getColl P i g db ?key TypeHash)) g"
  note L = hdel_loop_spec [where n = 0 and fs = ?xs]
  have "fst (fst ?D) = fst (hashOp (hdelSpec ?xs) (NowMs g) (kv P g db ?key)) \<and>
      kv P (snd ?D) = kvupd (kv P g) db ?key (snd (hashOp (hdelSpec ?xs) (NowMs g) (kv P g db ?key)))"
    by (rule doKey_coll [where Q = "\<lambda>r K. fst r = _ \<and> K = _" and B = "hdelTask P db ?key ?xs", OF assms(1-4)])
      (auto simp: hdelTask_def L hdelSpec_def coll_simps HashLen_def elim!: hash_cases)
  then show ?thesis by (simp add: refines_def cmdHDel_def split_beta Let_def)
qed

lemma cmdHSetNX_refines:
  assumes "ptr_ok P g" "maxMemory g \<le> 0" "vals_ok P g" "no_empty (kv P g)"
  shows "refines P db (args ! 1) (hashOp (hsetnxSpec (args ! 2) (args ! 3))) g (cmdHSetNX P db args g)"
proof -
  let ?f = "args ! 2" and ?v = "args ! 3" and ?key = "args ! 1"
  let ?D = "doKey P ?key (\<lambda>i g. hsetnxTask P db ?key ?f ?v i (getColl P i g db ?key TypeHash)) g"
  have fresh: "map_of m f = None \<Longrightarrow> AList.update f v m = m @ [(f, v)]" for m :: "(string \<times> string) list" and f v
    by (simp add: update_fresh map_of_eq_None_iff)
  have "fst (fst ?D) = fst (hashOp (hsetnxSpec ?f ?v) (NowMs g) (kv P g db ?key)) \<and>
      kv P (snd ?D) = kvupd (kv P g) db ?key (snd (hashOp (hsetnxSpec ?f ?v) (NowMs g) (kv P g db ?key)))"
    by (rule doKey_coll [where Q = "\<lambda>r K. fst r = _ \<and> K = _" and B = "hsetnxTask P db ?key ?f ?v", OF assms(1-4)])
      (auto simp: hsetnxTask_def hsetnxSpec_def coll_simps HashGet_map hash_map_def HashSet_pairs NewHash_inv fresh NewHash_def [THEN arg_cong, of pairs]
        elim!: hash_cases)
  then show ?thesis by (simp add: refines_def cmdHSetNX_def split_beta Let_def)
qed

lemma cmdHIncrBy_refines:
  assumes "ptr_ok P g" "maxMemory g \<le> 0" "vals_ok P g" "no_empty (kv P g)" "parseIntStrict (args ! 3) = Some delta"
  shows "refines P db (args ! 1) (hashOp (hincrSpec (args ! 2) delta)) g (cmdHIncrBy P db args g)"
proof -
  let ?f = "args ! 2" and ?key = "args ! 1"
  let ?D = "doKey P ?key (\<lambda>i g. hincrTask P db ?key ?f delta i (getColl P i g db ?key TypeHash)) g"
  have d: "is_i64 delta" using assms(5) ParseInt64_range by (simp add: parseIntStrict_eq_ParseInt64)
  have z: "is_i64 0" by (simp add: is_i64_def)
  note G = incr_guard [OF ParseInt64_range d] incr_guard [OF z d]
  have ne: "AList.update f v m \<noteq> []" for f v and m :: "(string \<times> string) list" by (cases m) auto
  have "fst (fst ?D) = fst (hashOp (hincrSpec ?f delta) (NowMs g) (kv P g db ?key)) \<and>
      kv P (snd ?D) = kvupd (kv P g) db ?key (snd (hashOp (hincrSpec ?f delta) (NowMs g) (kv P g db ?key)))"
    by (rule doKey_coll [where Q = "\<lambda>r K. fst r = _ \<and> K = _" and B = "hincrTask P db ?key ?f delta", OF assms(1-4)])
      (auto simp: hincrTask_def hincrSpec_def coll_simps HashGet_map hash_map_def HashSet_pairs NewHash_inv G ne parseIntStrict_eq_ParseInt64
         NewHash_def [THEN arg_cong, of pairs] elim!: hash_cases split: option.splits sum.splits)
  then show ?thesis using assms(5) by (simp add: refines_def cmdHIncrBy_def split_beta Let_def)
qed

section \<open>The handlers are sequences of steps\<close>

lemma hash_task_acts:
  assumes "db < maxDBs g"
  shows "acts P k g (snd (hsetTask P db key xs (ShardIndex P k key) (getColl P (ShardIndex P k key) g db key TypeHash)))"
    "acts P k g (snd (hdelTask P db key xs (ShardIndex P k key) (getColl P (ShardIndex P k key) g db key TypeHash)))"
    "acts P k g (snd (hsetnxTask P db key f v (ShardIndex P k key) (getColl P (ShardIndex P k key) g db key TypeHash)))"
    "acts P k g (snd (hincrTask P db key f delta (ShardIndex P k key) (getColl P (ShardIndex P k key) g db key TypeHash)))"
proof -
  let ?i = "ShardIndex P k key"
  obtain r wt g1 where L: "getColl P ?i g db key TypeHash = ((r, wt), g1)" by (cases "getColl P ?i g db key TypeHash") auto
  note F = getColl_facts [OF L assms]
  have v: "value_ok P (Val (ents g1 a)) \<Longrightarrow> hash_inv (hashOf (Val (ents g1 a)))" if "r = Some a" for a
    using F(7) [OF that] by (auto elim: hash_cases)
  note I = HashSet_inv HashDel_inv NewHash_inv hset_loop_spec [THEN conjunct1] hdel_loop_spec [THEN conjunct1]
  show "acts P k g (snd (hsetTask P db key xs ?i (getColl P ?i g db key TypeHash)))"
    using F v I assms unfolding L
    by (cases r) (auto simp: hsetTask_def split_beta Let_def intro!: acts_fill acts_update)
  show "acts P k g (snd (hdelTask P db key xs ?i (getColl P ?i g db key TypeHash)))"
    using F v I assms unfolding L
    by (cases r) (auto simp: hdelTask_def split_beta Let_def intro!: acts_Delete acts_setVal acts_update)
  show "acts P k g (snd (hsetnxTask P db key f v (ShardIndex P k key) (getColl P ?i g db key TypeHash)))"
    using F v I assms unfolding L
    by (cases r) (auto simp: hsetnxTask_def Let_def intro!: acts_storeColl acts_update)
  show "acts P k g (snd (hincrTask P db key f delta ?i (getColl P ?i g db key TypeHash)))"
    using F v I assms unfolding L
    by (cases r) (auto simp: hincrTask_def Let_def intro!: acts_storeColl acts_update split: option.split)
qed

lemma hash_write_acts:
  assumes "kbits g = k" "db < maxDBs g"
  shows "acts P k g (snd (cmdHSet P db args g))" "acts P k g (snd (cmdHMSet P db args g))" "acts P k g (snd (cmdHDel P db args g))"
    "acts P k g (snd (cmdHSetNX P db args g))" "acts P k g (snd (cmdHIncrBy P db args g))"
proof -
  note T = hash_task_acts [OF assms(2)]
  show s: "acts P k g (snd (cmdHSet P db args g))"
    using acts_coll [where B = "hsetTask P db key xs" for key xs, OF assms(1) T(1)] by (simp add: cmdHSet_def split_beta Let_def acts_notify)
  show "acts P k g (snd (cmdHMSet P db args g))"
    using s by (simp add: cmdHMSet_def split_beta)
  show "acts P k g (snd (cmdHDel P db args g))"
    using acts_coll [where B = "hdelTask P db key xs" for key xs, OF assms(1) T(2)] by (simp add: cmdHDel_def split_beta Let_def acts_notify)
  show "acts P k g (snd (cmdHSetNX P db args g))"
    using acts_coll [where B = "hsetnxTask P db key f v" for key f v, OF assms(1) T(3)] by (simp add: cmdHSetNX_def split_beta Let_def acts_notify)
  show "acts P k g (snd (cmdHIncrBy P db args g))"
    using acts_coll [where B = "hincrTask P db key f delta" for key f delta, OF assms(1) T(4)] by (simp add: cmdHIncrBy_def split_beta Let_def acts_notify split: option.split)
qed

lemma hash_read_acts:
  assumes "kbits g = k" "db < maxDBs g"
  shows "acts P k g (snd (cmdHGet P db args g))" "acts P k g (snd (cmdHMGet P db args g))" "acts P k g (snd (cmdHGetAll P db args g))"
    "acts P k g (snd (cmdHExists P db args g))" "acts P k g (snd (cmdHLen P db args g))" "acts P k g (snd (hKeysVals P db args vals g))"
    "acts P k g (snd (cmdHStrLen P db args g))"
  unfolding cmdHGet_def cmdHMGet_def cmdHGetAll_def cmdHExists_def cmdHLen_def hKeysVals_def cmdHStrLen_def Let_def
  by (rule acts_getColl [OF assms]; simp split: prod.split option.split)+

end

end
