(* ===== verification/Cmd_List.thy ===== *)
theory Cmd_List
  imports Cmd_Hash
begin

text \<open>
  The list commands (\<^verbatim>\<open>src/lib/commands/list.go\<close>). The closures are functions of what
  \<^verbatim>\<open>getColl\<close> returned; a list changed through \<^verbatim>\<open>ent.Obj\<close> is written back with \<open>setVal\<close>.
  Publication and wake-up happen inside the closures where the source has them there.
\<close>

section \<open>Push and pop\<close>

definition errNotPositive :: rv where
  "errNotPositive = RErr ''ERR value is out of range, must be positive''"

definition pushOne :: "'q quicklist \<Rightarrow> bool \<Rightarrow> 'q glist \<Rightarrow> string \<Rightarrow> 'q glist" where
  "pushOne Q head l v = (if head then ListPushHead Q l v else ListPushTail Q l v)"

definition pushTask ::
  "('q, 'z, 't, 'h, 'l, 'f) packages \<Rightarrow> nat \<Rightarrow> string \<Rightarrow> string list \<Rightarrow> bool \<Rightarrow> bool \<Rightarrow> nat \<Rightarrow> (addr option \<times> bool) \<times> ('q, 'z, 't, 'h, 'l, 'f) st \<Rightarrow> rv \<times> ('q, 'z, 't, 'h, 'l, 'f) st" where
  "pushTask P db key vs head onlyIfExists i look =
     (let ((ent, wt), g1) = look; ev = (if head then ''lpush'' else ''rpush'')
      in if wt then (errWrongType, g1)
         else if ent = None \<and> onlyIfExists then (RInt 0, g1)
         else
           (case ent of
              None \<Rightarrow>
                let (a, g2) = storeColl P i g1 db key (VList (NewList (PQ P)));
                    l = foldl (pushOne (PQ P) head) (NewList (PQ P)) vs
                in (RInt (int (ListLen (PQ P) l)), WakeWaiter i (notify db key ev (setVal a (VList l) g2)) db key)
            | Some a \<Rightarrow>
                let l = foldl (pushOne (PQ P) head) (listOf P (Val (ents g1 a))) vs
                in (RInt (int (ListLen (PQ P) l)),
                    WakeWaiter i (notify db key ev (Touch P i (setVal a (VList l) g1) db key a)) db key)))"

definition pushCmd :: "('q, 'z, 't, 'h, 'l, 'f) packages \<Rightarrow> nat \<Rightarrow> string list \<Rightarrow> bool \<Rightarrow> bool \<Rightarrow> ('q, 'z, 't, 'h, 'l, 'f) st \<Rightarrow> rv \<times> ('q, 'z, 't, 'h, 'l, 'f) st" where
  "pushCmd P db args head onlyIfExists g =
     (let key = args ! 1
      in doKey P key (\<lambda>i g. pushTask P db key (drop 2 args) head onlyIfExists i (getColl P i g db key TypeList)) g)"

definition cmdLPush :: "('q, 'z, 't, 'h, 'l, 'f) packages \<Rightarrow> nat \<Rightarrow> string list \<Rightarrow> ('q, 'z, 't, 'h, 'l, 'f) st \<Rightarrow> rv \<times> ('q, 'z, 't, 'h, 'l, 'f) st" where
  "cmdLPush P db args g = pushCmd P db args True False g"

definition cmdRPush :: "('q, 'z, 't, 'h, 'l, 'f) packages \<Rightarrow> nat \<Rightarrow> string list \<Rightarrow> ('q, 'z, 't, 'h, 'l, 'f) st \<Rightarrow> rv \<times> ('q, 'z, 't, 'h, 'l, 'f) st" where
  "cmdRPush P db args g = pushCmd P db args False False g"

definition cmdLPushX :: "('q, 'z, 't, 'h, 'l, 'f) packages \<Rightarrow> nat \<Rightarrow> string list \<Rightarrow> ('q, 'z, 't, 'h, 'l, 'f) st \<Rightarrow> rv \<times> ('q, 'z, 't, 'h, 'l, 'f) st" where
  "cmdLPushX P db args g = pushCmd P db args True True g"

definition cmdRPushX :: "('q, 'z, 't, 'h, 'l, 'f) packages \<Rightarrow> nat \<Rightarrow> string list \<Rightarrow> ('q, 'z, 't, 'h, 'l, 'f) st \<Rightarrow> rv \<times> ('q, 'z, 't, 'h, 'l, 'f) st" where
  "cmdRPushX P db args g = pushCmd P db args False True g"

definition popOne :: "'q quicklist \<Rightarrow> 'q glist \<Rightarrow> bool \<Rightarrow> string option \<times> 'q glist" where
  "popOne Q l head = (if head then ListPopHead Q l else ListPopTail Q l)"

text \<open>\<^verbatim>\<open>v, _ := popOne(l, head)\<close>: a failed pop leaves \<^verbatim>\<open>v\<close> nil, an empty bulk reply.\<close>

definition blobOf :: "string option \<Rightarrow> rv" where
  "blobOf v = RBlob (case v of Some s \<Rightarrow> s | None \<Rightarrow> [])"

fun pop_loop :: "'q quicklist \<Rightarrow> bool \<Rightarrow> nat \<Rightarrow> 'q glist \<Rightarrow> rv list \<Rightarrow> rv list \<times> 'q glist" where
  "pop_loop Q head 0 l out = (out, l)"
| "pop_loop Q head (Suc n) l out = (let (v, l1) = popOne Q l head in pop_loop Q head n l1 (out @ [blobOf v]))"

text \<open>What follows every removal: \<^verbatim>\<open>Touch\<close>, then \<^verbatim>\<open>Delete\<close> when the list is empty.\<close>

definition shrunk ::
  "('q, 'z, 't, 'h, 'l, 'f) packages \<Rightarrow> nat \<Rightarrow> nat \<Rightarrow> string \<Rightarrow> addr \<Rightarrow> 'q glist \<Rightarrow> ('q, 'z, 't, 'h, 'l, 'f) st \<Rightarrow> bool \<times> ('q, 'z, 't, 'h, 'l, 'f) st" where
  "shrunk P i db key a l g =
     (let g1 = Touch P i (setVal a (VList l) g) db key a
      in if ListLen (PQ P) l = 0 then (True, snd (Delete P i g1 db key)) else (False, g1))"

definition popTask ::
  "('q, 'z, 't, 'h, 'l, 'f) packages \<Rightarrow> nat \<Rightarrow> string \<Rightarrow> bool \<Rightarrow> int option \<Rightarrow> nat \<Rightarrow> (addr option \<times> bool) \<times> ('q, 'z, 't, 'h, 'l, 'f) st \<Rightarrow> (rv \<times> bool \<times> bool) \<times> ('q, 'z, 't, 'h, 'l, 'f) st" where
  "popTask P db key head cnt i look =
     (let ((ent, wt), g1) = look
      in if wt then ((errWrongType, False, False), g1)
         else
           (case ent of
              None \<Rightarrow> ((RNull, False, False), g1)
            | Some a \<Rightarrow>
                let l = listOf P (Val (ents g1 a))
                in case cnt of
                     None \<Rightarrow>
                       let (v, l1) = popOne (PQ P) l head; (deleted, g2) = shrunk P i db key a l1 g1
                       in ((blobOf v, True, deleted), g2)
                   | Some c \<Rightarrow>
                       if c = 0 then ((RArr [], False, False), g1)
                       else
                         let n = min (nat c) (ListLen (PQ P) l);
                             (out, l1) = pop_loop (PQ P) head n l [];
                             (deleted, g2) = shrunk P i db key a l1 g1
                         in ((RArr out, True, deleted), g2)))"

definition notifyDel :: "nat \<Rightarrow> string \<Rightarrow> string \<Rightarrow> bool \<Rightarrow> bool \<Rightarrow> ('q, 'z, 't, 'h, 'l, 'f) st \<Rightarrow> ('q, 'z, 't, 'h, 'l, 'f) st" where
  "notifyDel db key ev changed deleted g =
     (if changed then (let g1 = notify db key ev g in if deleted then notify db key ''del'' g1 else g1) else g)"

definition popCmd :: "('q, 'z, 't, 'h, 'l, 'f) packages \<Rightarrow> nat \<Rightarrow> string list \<Rightarrow> bool \<Rightarrow> ('q, 'z, 't, 'h, 'l, 'f) st \<Rightarrow> rv \<times> ('q, 'z, 't, 'h, 'l, 'f) st" where
  "popCmd P db args head g =
     (if 3 < length args then (errArity (lowerASCII (args ! 0)), g)
      else
        let run = (\<lambda>cnt. let key = args ! 1;
                     ((reply, popped, deleted), g1) = doKey P key (\<lambda>i g. popTask P db key head cnt i (getColl P i g db key TypeList)) g
                   in (reply, notifyDel db key (if head then ''lpop'' else ''rpop'') popped deleted g1))
        in if length args = 3 then
             (case parseIntStrict (args ! 2) of
                None \<Rightarrow> (errNotPositive, g)
              | Some v \<Rightarrow> if v < 0 then (errNotPositive, g) else run (Some v))
           else run None)"

definition cmdLPop :: "('q, 'z, 't, 'h, 'l, 'f) packages \<Rightarrow> nat \<Rightarrow> string list \<Rightarrow> ('q, 'z, 't, 'h, 'l, 'f) st \<Rightarrow> rv \<times> ('q, 'z, 't, 'h, 'l, 'f) st" where
  "cmdLPop P db args g = popCmd P db args True g"

definition cmdRPop :: "('q, 'z, 't, 'h, 'l, 'f) packages \<Rightarrow> nat \<Rightarrow> string list \<Rightarrow> ('q, 'z, 't, 'h, 'l, 'f) st \<Rightarrow> rv \<times> ('q, 'z, 't, 'h, 'l, 'f) st" where
  "cmdRPop P db args g = popCmd P db args False g"

section \<open>Reads and updates by position\<close>

definition cmdLLen :: "('q, 'z, 't, 'h, 'l, 'f) packages \<Rightarrow> nat \<Rightarrow> string list \<Rightarrow> ('q, 'z, 't, 'h, 'l, 'f) st \<Rightarrow> rv \<times> ('q, 'z, 't, 'h, 'l, 'f) st" where
  "cmdLLen P db args g =
     (let key = args ! 1
      in doKey P key (\<lambda>i g.
           let ((ent, wt), g1) = getColl P i g db key TypeList
           in if wt then (errWrongType, g1)
              else (case ent of None \<Rightarrow> (RInt 0, g1) | Some a \<Rightarrow> (RInt (int (ListLen (PQ P) (listOf P (Val (ents g1 a))))), g1))) g)"

definition cmdLIndex :: "('q, 'z, 't, 'h, 'l, 'f) packages \<Rightarrow> nat \<Rightarrow> string list \<Rightarrow> ('q, 'z, 't, 'h, 'l, 'f) st \<Rightarrow> rv \<times> ('q, 'z, 't, 'h, 'l, 'f) st" where
  "cmdLIndex P db args g =
     (let key = args ! 1
      in doKey P key (\<lambda>i g.
           let ((ent, wt), g1) = getColl P i g db key TypeList
           in if wt then (errWrongType, g1)
              else (case ent of
                      None \<Rightarrow> (RNull, g1)
                    | Some a \<Rightarrow>
                        (case parseIntStrict (args ! 2) of
                           None \<Rightarrow> errNotInt
                         | Some ix \<Rightarrow> optBlob (ListAt (PQ P) (listOf P (Val (ents g1 a))) ix), g1))) g)"

definition cmdLRange :: "('q, 'z, 't, 'h, 'l, 'f) packages \<Rightarrow> nat \<Rightarrow> string list \<Rightarrow> ('q, 'z, 't, 'h, 'l, 'f) st \<Rightarrow> rv \<times> ('q, 'z, 't, 'h, 'l, 'f) st" where
  "cmdLRange P db args g =
     (case (parseIntStrict (args ! 2), parseIntStrict (args ! 3)) of
        (Some start, Some stop) \<Rightarrow>
          let key = args ! 1
          in doKey P key (\<lambda>i g.
               let ((ent, wt), g1) = getColl P i g db key TypeList
               in if wt then (errWrongType, g1)
                  else (RArr (case ent of None \<Rightarrow> [] | Some a \<Rightarrow> map RBlob (ListRange (PQ P) (listOf P (Val (ents g1 a))) start stop)), g1)) g
      | _ \<Rightarrow> (errNotInt, g))"

definition lsetTask :: "('q, 'z, 't, 'h, 'l, 'f) packages \<Rightarrow> nat \<Rightarrow> string \<Rightarrow> string \<Rightarrow> string \<Rightarrow> nat \<Rightarrow> (addr option \<times> bool) \<times> ('q, 'z, 't, 'h, 'l, 'f) st \<Rightarrow> (rv \<times> bool) \<times> ('q, 'z, 't, 'h, 'l, 'f) st" where
  "lsetTask P db key arg v i look =
     (let ((ent, wt), g1) = look
      in if wt then ((errWrongType, False), g1)
         else
           (case ent of
              None \<Rightarrow> ((RErr ''ERR no such key'', False), g1)
            | Some a \<Rightarrow>
                (case parseIntStrict arg of
                   None \<Rightarrow> ((errNotInt, False), g1)
                 | Some ix \<Rightarrow>
                     let (ok, l) = ListSet (PQ P) (listOf P (Val (ents g1 a))) ix v; g2 = setVal a (VList l) g1
                     in if \<not> ok then ((RErr ''ERR index out of range'', False), g2) else ((replyOK, True), Touch P i g2 db key a))))"

definition cmdLSet :: "('q, 'z, 't, 'h, 'l, 'f) packages \<Rightarrow> nat \<Rightarrow> string list \<Rightarrow> ('q, 'z, 't, 'h, 'l, 'f) st \<Rightarrow> rv \<times> ('q, 'z, 't, 'h, 'l, 'f) st" where
  "cmdLSet P db args g =
     (let key = args ! 1;
          ((reply, done'), g1) = doKey P key (\<lambda>i g. lsetTask P db key (args ! 2) (args ! 3) i (getColl P i g db key TypeList)) g
      in (reply, if done' then notify db key ''lset'' g1 else g1))"

definition linsertTask :: "('q, 'z, 't, 'h, 'l, 'f) packages \<Rightarrow> nat \<Rightarrow> string \<Rightarrow> bool \<Rightarrow> string \<Rightarrow> string \<Rightarrow> nat \<Rightarrow> (addr option \<times> bool) \<times> ('q, 'z, 't, 'h, 'l, 'f) st \<Rightarrow> (rv \<times> bool) \<times> ('q, 'z, 't, 'h, 'l, 'f) st" where
  "linsertTask P db key before pivot v i look =
     (let ((ent, wt), g1) = look
      in if wt then ((errWrongType, False), g1)
         else
           (case ent of
              None \<Rightarrow> ((RInt 0, False), g1)
            | Some a \<Rightarrow>
                let l = listOf P (Val (ents g1 a))
                in case find_index (\<lambda>x. x = pivot) (ListAll (PQ P) l) of
                     None \<Rightarrow> ((RInt (-1), False), g1)
                   | Some ix \<Rightarrow>
                       let l1 = snd (if before then ListInsertBefore (PQ P) l (int ix) v else ListInsertAfter (PQ P) l (int ix) v)
                       in ((RInt (int (ListLen (PQ P) l1)), True), Touch P i (setVal a (VList l1) g1) db key a)))"

definition cmdLInsert :: "('q, 'z, 't, 'h, 'l, 'f) packages \<Rightarrow> nat \<Rightarrow> string list \<Rightarrow> ('q, 'z, 't, 'h, 'l, 'f) st \<Rightarrow> rv \<times> ('q, 'z, 't, 'h, 'l, 'f) st" where
  "cmdLInsert P db args g =
     (let run = (\<lambda>before. let key = args ! 1;
            ((reply, inserted), g1) = doKey P key (\<lambda>i g. linsertTask P db key before (args ! 3) (args ! 4) i (getColl P i g db key TypeList)) g
          in (reply, if inserted then notify db key ''linsert'' g1 else g1))
      in if lowerASCII (args ! 2) = ''before'' then run True
         else if lowerASCII (args ! 2) = ''after'' then run False
         else (errSyntax, g))"

section \<open>LREM and LTRIM\<close>

fun lrem_fwd :: "string \<Rightarrow> int \<Rightarrow> nat \<Rightarrow> string list \<Rightarrow> nat list \<Rightarrow> nat list" where
  "lrem_fwd val limit i [] idxs = idxs"
| "lrem_fwd val limit i (v # vs) idxs =
     (if v = val then
        (let idxs1 = idxs @ [i]
         in if 0 < limit \<and> int (length idxs1) = limit then idxs1 else lrem_fwd val limit (Suc i) vs idxs1)
      else lrem_fwd val limit (Suc i) vs idxs)"

text \<open>The backward scan reads position \<open>i\<close> for \<open>i = n - 1\<close> down to \<open>0\<close>.\<close>

fun lrem_bwd :: "'q quicklist \<Rightarrow> 'q glist \<Rightarrow> string \<Rightarrow> int \<Rightarrow> nat \<Rightarrow> nat list \<Rightarrow> nat list" where
  "lrem_bwd Q l val limit 0 idxs = idxs"
| "lrem_bwd Q l val limit (Suc i) idxs =
     (if ListAt Q l (int i) = Some val then
        (let idxs1 = idxs @ [i]
         in if int (length idxs1) = limit then idxs1 else lrem_bwd Q l val limit i idxs1)
      else lrem_bwd Q l val limit i idxs)"

definition lremIdxs :: "'q quicklist \<Rightarrow> 'q glist \<Rightarrow> int \<Rightarrow> string \<Rightarrow> nat list" where
  "lremIdxs Q l cnt val =
     (if 0 \<le> cnt then lrem_fwd val cnt 0 (ListAll Q l) []
      else lrem_bwd Q l val (wrap64 (- cnt)) (ListLen Q l) [])"

definition deleteAll :: "'q quicklist \<Rightarrow> nat list \<Rightarrow> 'q glist \<Rightarrow> 'q glist" where
  "deleteAll Q idxs l = foldl (\<lambda>l i. snd (ListDelete Q l (int i))) l idxs"

definition lremTask :: "('q, 'z, 't, 'h, 'l, 'f) packages \<Rightarrow> nat \<Rightarrow> string \<Rightarrow> int \<Rightarrow> string \<Rightarrow> nat \<Rightarrow> (addr option \<times> bool) \<times> ('q, 'z, 't, 'h, 'l, 'f) st \<Rightarrow> (rv \<times> nat \<times> bool) \<times> ('q, 'z, 't, 'h, 'l, 'f) st" where
  "lremTask P db key cnt val i look =
     (let ((ent, wt), g1) = look
      in if wt then ((errWrongType, 0, False), g1)
         else
           (case ent of
              None \<Rightarrow> ((RInt 0, 0, False), g1)
            | Some a \<Rightarrow>
                let l = listOf P (Val (ents g1 a));
                    idxs = rev (sort (lremIdxs (PQ P) l cnt val));
                    l1 = deleteAll (PQ P) idxs l;
                    g2 = setVal a (VList l1) g1;
                    g3 = (if idxs \<noteq> [] then Touch P i g2 db key a else g2);
                    n = length idxs
                in if ListLen (PQ P) l1 = 0 then ((RInt (int n), n, True), snd (Delete P i g3 db key)) else ((RInt (int n), n, False), g3)))"

definition cmdLRem :: "('q, 'z, 't, 'h, 'l, 'f) packages \<Rightarrow> nat \<Rightarrow> string list \<Rightarrow> ('q, 'z, 't, 'h, 'l, 'f) st \<Rightarrow> rv \<times> ('q, 'z, 't, 'h, 'l, 'f) st" where
  "cmdLRem P db args g =
     (case parseIntStrict (args ! 2) of
        None \<Rightarrow> (errNotInt, g)
      | Some cnt \<Rightarrow>
          let key = args ! 1;
              ((reply, n, deleted), g1) = doKey P key (\<lambda>i g. lremTask P db key cnt (args ! 3) i (getColl P i g db key TypeList)) g
          in (reply, notifyDel db key ''lrem'' (0 < n) deleted g1))"

definition ltrimTask :: "('q, 'z, 't, 'h, 'l, 'f) packages \<Rightarrow> nat \<Rightarrow> string \<Rightarrow> int \<Rightarrow> int \<Rightarrow> nat \<Rightarrow> (addr option \<times> bool) \<times> ('q, 'z, 't, 'h, 'l, 'f) st \<Rightarrow> (rv \<times> bool \<times> bool) \<times> ('q, 'z, 't, 'h, 'l, 'f) st" where
  "ltrimTask P db key start stop i look =
     (let ((ent, wt), g1) = look
      in if wt then ((errWrongType, False, False), g1)
         else
           (case ent of
              None \<Rightarrow> ((replyOK, False, False), g1)
            | Some a \<Rightarrow>
                let l = ListTrim (PQ P) (listOf P (Val (ents g1 a))) start stop; (deleted, g2) = shrunk P i db key a l g1
                in ((replyOK, True, deleted), g2)))"

definition cmdLTrim :: "('q, 'z, 't, 'h, 'l, 'f) packages \<Rightarrow> nat \<Rightarrow> string list \<Rightarrow> ('q, 'z, 't, 'h, 'l, 'f) st \<Rightarrow> rv \<times> ('q, 'z, 't, 'h, 'l, 'f) st" where
  "cmdLTrim P db args g =
     (case (parseIntStrict (args ! 2), parseIntStrict (args ! 3)) of
        (Some start, Some stop) \<Rightarrow>
          let key = args ! 1;
              ((reply, exists, deleted), g1) = doKey P key (\<lambda>i g. ltrimTask P db key start stop i (getColl P i g db key TypeList)) g
          in (reply, notifyDel db key ''ltrim'' exists deleted g1)
      | _ \<Rightarrow> (errNotInt, g))"

section \<open>Specifications\<close>

definition pushSpec :: "string list \<Rightarrow> bool \<Rightarrow> bool \<Rightarrow> string list \<Rightarrow> rv \<times> string list" where
  "pushSpec vs head onlyIfExists xs =
     (if xs = [] \<and> onlyIfExists then (RInt 0, xs)
      else let ys = (if head then rev vs @ xs else xs @ vs) in (RInt (int (length ys)), ys))"

definition popSpec :: "bool \<Rightarrow> int option \<Rightarrow> string list \<Rightarrow> rv \<times> string list" where
  "popSpec head cnt xs =
     (if xs = [] then (RNull, xs)
      else
        (case cnt of
           None \<Rightarrow> if head then (RBlob (hd xs), tl xs) else (RBlob (last xs), butlast xs)
         | Some c \<Rightarrow>
             if head then (RArr (map RBlob (take (nat c) xs)), drop (nat c) xs)
             else (RArr (map RBlob (take (nat c) (rev xs))), rev (drop (nat c) (rev xs)))))"

definition lindexSpec :: "string \<Rightarrow> string list \<Rightarrow> rv \<times> string list" where
  "lindexSpec arg xs =
     (if xs = [] then RNull
      else case parseIntStrict arg of
             None \<Rightarrow> errNotInt
           | Some i \<Rightarrow> (case pos (length xs) i of Some j \<Rightarrow> RBlob (xs ! j) | None \<Rightarrow> RNull), xs)"

definition lsetSpec :: "string \<Rightarrow> string \<Rightarrow> string list \<Rightarrow> rv \<times> string list" where
  "lsetSpec arg v xs =
     (if xs = [] then (RErr ''ERR no such key'', xs)
      else case parseIntStrict arg of
             None \<Rightarrow> (errNotInt, xs)
           | Some i \<Rightarrow>
               (case pos (length xs) i of
                  Some j \<Rightarrow> (replyOK, xs[j := v])
                | None \<Rightarrow> (RErr ''ERR index out of range'', xs)))"

text \<open>LINSERT: beside the first occurrence of the pivot.\<close>

definition linsertSpec :: "bool \<Rightarrow> string \<Rightarrow> string \<Rightarrow> string list \<Rightarrow> rv \<times> string list" where
  "linsertSpec before pivot v xs =
     (if xs = [] then (RInt 0, xs)
      else if pivot \<notin> set xs then (RInt (-1), xs)
      else
        let front = takeWhile (\<lambda>x. x \<noteq> pivot) xs; back = dropWhile (\<lambda>x. x \<noteq> pivot) xs
        in (RInt (int (length xs) + 1), front @ (if before then v # back else pivot # v # tl back)))"

text \<open>
  LREM: the positions that go. With a positive count the first so many occurrences, with a
  negative one the last so many, with 0 all of them.
\<close>

definition lremHit :: "int \<Rightarrow> string \<Rightarrow> string list \<Rightarrow> nat \<Rightarrow> bool" where
  "lremHit cnt val xs i \<longleftrightarrow>
     i < length xs \<and> xs ! i = val \<and>
     (cnt = 0 \<or>
      (0 < cnt \<and> int (length (filter (\<lambda>x. x = val) (take i xs))) < cnt) \<or>
      (cnt < 0 \<and> int (length (filter (\<lambda>x. x = val) (drop (Suc i) xs))) < - cnt))"

definition lremSpec :: "int \<Rightarrow> string \<Rightarrow> string list \<Rightarrow> rv \<times> string list" where
  "lremSpec cnt val xs = (let ys = nths xs {i. \<not> lremHit cnt val xs i} in (RInt (int (length xs) - int (length ys)), ys))"

section \<open>The loops\<close>

lemma last_drop_rev: "xs \<noteq> [] \<Longrightarrow> rev xs = last xs # rev (butlast xs)"
  by (cases xs rule: rev_cases) auto

lemma nths_remove_nth:
  assumes "i < length xs" "\<forall>j \<in> S. j < i"
  shows "nths (remove_nth i xs) (- S) = nths xs (- insert i S)"
proof -
  have "nths xs (- insert i S) = nths (take i xs @ [xs ! i] @ drop (Suc i) xs) (- insert i S)"
    using assms(1) by (simp add: id_take_nth_drop [symmetric])
  also have "\<dots> = nths (take i xs) (- insert i S) @ nths (drop (Suc i) xs) {j. j + Suc i \<in> - insert i S}"
    using assms(1) by (simp add: nths_append nths_Cons min_def)
  also have "nths (take i xs) (- insert i S) = nths (take i xs) (- S)"
    by (simp only: nths_def) (rule arg_cong [where f = "map fst"], rule filter_cong, auto dest: set_zip_rightD)
  also have "nths (drop (Suc i) xs) {j. j + Suc i \<in> - insert i S} = drop (Suc i) xs"
    using assms(2) by (intro nths_all) auto
  also have "drop (Suc i) xs = nths (drop (Suc i) xs) {j. j + i \<in> - S}"
    using assms(2) by (intro nths_all [symmetric]) auto
  finally show ?thesis using assms(1) by (simp add: remove_nth_def nths_append min_def)
qed

lemma length_nths_hits:
  assumes "\<And>i. p i \<Longrightarrow> i < length xs"
  shows "length (nths xs (- {i. p i})) + card {i. p i} = length xs"
proof -
  have "length (nths xs (- {i. p i})) = card {i. i < length xs \<and> i \<notin> {i. p i}}" by (simp add: length_nths)
  moreover have "{i. i < length xs} = {i. i < length xs \<and> i \<notin> {i. p i}} \<union> {i. p i}" using assms by auto
  then have "card {i. i < length xs} = card {i. i < length xs \<and> i \<notin> {i. p i}} + card {i. p i}"
    using assms by (subst card_Un_disjoint [symmetric]) (auto intro: finite_subset [of _ "{..<length xs}"])
  ultimately show ?thesis by simp
qed

lemma find_index_takeWhile:
  "find_index (\<lambda>x. x = p) xs = (if p \<in> set xs then Some (length (takeWhile (\<lambda>x. x \<noteq> p) xs)) else None)"
  by (induction xs) auto

text \<open>The positions the two scans of LREM collect: the matches in scan order, up to a limit.\<close>

definition upto_limit :: "int \<Rightarrow> 'a list \<Rightarrow> 'a list" where
  "upto_limit limit xs = (if limit \<le> 0 then xs else take (nat limit) xs)"

lemma lrem_fwd_eq:
  assumes "limit \<le> 0 \<or> int (length idxs) < limit"
  shows "lrem_fwd val limit i vs idxs = upto_limit limit (idxs @ filter (\<lambda>j. vs ! (j - i) = val) [i..<i + length vs])"
  using assms
proof (induction vs arbitrary: i idxs)
  case (Cons v vs)
  have f: "filter (\<lambda>j. (v # vs) ! (j - i) = val) [i..<i + length (v # vs)] =
      (if v = val then [i] else []) @ filter (\<lambda>j. vs ! (j - Suc i) = val) [Suc i..<Suc i + length vs]"
  proof -
    have "[i..<i + length (v # vs)] = i # [Suc i..<Suc i + length vs]" by (simp add: upt_conv_Cons del: upt_Suc)
    moreover have "filter (\<lambda>j. (v # vs) ! (j - i) = val) [Suc i..<Suc i + length vs] =
        filter (\<lambda>j. vs ! (j - Suc i) = val) [Suc i..<Suc i + length vs]"
      by (rule filter_cong) (auto simp: nth_Cons' Suc_diff_le)
    ultimately show ?thesis by (auto simp del: upt_Suc)
  qed
  show ?case
    using Cons.prems Cons.IH [of idxs "Suc i"] Cons.IH [of "idxs @ [i]" "Suc i"]
    unfolding f by (auto simp: upto_limit_def Let_def take_Cons' simp del: upt_Suc)
qed (auto simp: upto_limit_def)

lemma set_take_filter_upt:
  "set (take n (filter p [0..<m])) = {i. i < m \<and> p i \<and> length (filter p [0..<i]) < n}"
proof (induction m)
  case (Suc m)
  let ?F = "filter p [0..<m]"
  show ?case
  proof (cases "p m \<and> length ?F < n")
    case True
    then have "take n (filter p [0..<Suc m]) = take n ?F @ [m]" by (cases "n - length ?F") auto
    then have "set (take n (filter p [0..<Suc m])) = insert m (set (take n ?F))" by (simp only:) auto
    then show ?thesis using True unfolding Suc.IH by (auto simp: less_Suc_eq)
  next
    case False
    then have e: "take n (filter p [0..<Suc m]) = take n ?F" by auto
    show ?thesis using False unfolding e Suc.IH by (auto simp: less_Suc_eq)
  qed
qed simp

lemma set_take_rev_filter_upt:
  "set (take n (rev (filter p [0..<m]))) = {i. i < m \<and> p i \<and> length (filter p [Suc i..<m]) < n}"
proof (induction m arbitrary: n)
  case (Suc m)
  have l: "length (filter p [Suc i..<Suc m]) = length (filter p [Suc i..<m]) + (if p m then 1 else 0)" if "i < m" for i
    using that by simp
  show ?case
  proof (cases "p m \<and> 0 < n")
    case True
    then obtain n' where n: "n = Suc n'" by (cases n) auto
    then show ?thesis using True l by (auto simp: Suc.IH [of n'] less_Suc_eq)
  next
    case False
    then show ?thesis using l by (cases "n = 0") (auto simp: Suc.IH [of n] less_Suc_eq)
  qed
qed simp

lemma count_take: "i \<le> length xs \<Longrightarrow> length (filter (\<lambda>x. x = v) (take i xs)) = length (filter (\<lambda>j. xs ! j = v) [0..<i])"
proof -
  assume "i \<le> length xs"
  then have "take i xs = map ((!) xs) [0..<i]" by (intro nth_equalityI) simp_all
  then show ?thesis by (simp add: filter_map comp_def)
qed

lemma count_drop: "length (filter (\<lambda>x. x = v) (drop n xs)) = length (filter (\<lambda>j. xs ! j = v) [n..<length xs])"
proof -
  have "drop n xs = map ((!) xs) [n..<length xs]" by (intro nth_equalityI) simp_all
  then show ?thesis by (simp add: filter_map comp_def)
qed

context quicklist_laws
begin

lemma pushAll_spec:
  "ListAll Q (foldl (pushOne Q head) l vs) = (if head then rev vs @ ListAll Q l else ListAll Q l @ vs)"
  "list_inv Q l \<Longrightarrow> list_inv Q (foldl (pushOne Q head) l vs)"
  by (induction vs arbitrary: l) (simp_all add: pushOne_def ListPush_all ListPush_inv)

lemma popOne_spec:
  assumes "ListAll Q l \<noteq> []"
  shows "popOne Q l head =
      (Some (if head then hd (ListAll Q l) else last (ListAll Q l)), snd (popOne Q l head))"
    "ListAll Q (snd (popOne Q l head)) = (if head then tl (ListAll Q l) else butlast (ListAll Q l))"
    "list_inv Q l \<Longrightarrow> list_inv Q (snd (popOne Q l head))"
proof -
  have h: "ListAll Q l = hd (ListAll Q l) # tl (ListAll Q l)" and t: "ListAll Q l = butlast (ListAll Q l) @ [last (ListAll Q l)]"
    using assms by simp_all
  show "popOne Q l head = (Some (if head then hd (ListAll Q l) else last (ListAll Q l)), snd (popOne Q l head))"
    using ListPopHead_Cons(1) [OF h] ListPopTail_snoc(1) [OF t] by (auto simp: popOne_def prod_eq_iff)
  show "ListAll Q (snd (popOne Q l head)) = (if head then tl (ListAll Q l) else butlast (ListAll Q l))"
    using ListPopHead_Cons(2) [OF h] ListPopTail_snoc(2) [OF t] by (simp add: popOne_def)
  show "list_inv Q l \<Longrightarrow> list_inv Q (snd (popOne Q l head))"
    by (simp add: popOne_def ListPop_inv)
qed

lemma pop_loop_spec:
  "n \<le> length (ListAll Q l) \<Longrightarrow>
     fst (pop_loop Q head n l out) = out @ map RBlob (take n (if head then ListAll Q l else rev (ListAll Q l))) \<and>
     ListAll Q (snd (pop_loop Q head n l out)) = (if head then drop n (ListAll Q l) else rev (drop n (rev (ListAll Q l)))) \<and>
     (list_inv Q l \<longrightarrow> list_inv Q (snd (pop_loop Q head n l out)))"
proof (induction n arbitrary: l out)
  case (Suc n)
  then have ne: "ListAll Q l \<noteq> []" by auto
  note p = popOne_spec [OF ne]
  obtain l1 where l1: "popOne Q l head = (Some (if head then hd (ListAll Q l) else last (ListAll Q l)), l1)"
    using p(1) [of head] by blast
  have a: "ListAll Q l1 = (if head then tl (ListAll Q l) else butlast (ListAll Q l))" "list_inv Q l \<Longrightarrow> list_inv Q l1"
    using p(2,3) [where head = head] l1 by auto
  have "n \<le> length (ListAll Q l1)" using Suc.prems a(1) by simp
  from Suc.IH [OF this] a(2) show ?case
    using a(1) ne last_drop_rev [OF ne] by (cases "ListAll Q l") (auto simp: l1 blobOf_def)
qed simp

text \<open>Deleting strictly descending positions keeps exactly the others.\<close>

lemma ListDelete_at:
  assumes "i < length (ListAll Q l)"
  shows "ListAll Q (snd (ListDelete Q l (int i))) = remove_nth i (ListAll Q l)"
  using ListDelete_all(2) [of l "int i" i] assms by (simp add: pos_def)

lemma deleteAll_inv: "list_inv Q l \<Longrightarrow> list_inv Q (deleteAll Q idxs l)"
  unfolding deleteAll_def by (induction idxs arbitrary: l) (simp_all add: ListDelete_inv)

lemma deleteAll_spec:
  assumes "sorted_wrt (>) idxs" "\<forall>i \<in> set idxs. i < length (ListAll Q l)"
  shows "ListAll Q (deleteAll Q idxs l) = nths (ListAll Q l) (- set idxs)"
  using assms
proof (induction idxs arbitrary: l)
  case (Cons i idxs)
  let ?l = "snd (ListDelete Q l (int i))"
  have i: "i < length (ListAll Q l)" and less: "\<forall>j \<in> set idxs. j < i" using Cons.prems by simp_all
  have "ListAll Q (deleteAll Q idxs ?l) = nths (ListAll Q ?l) (- set idxs)"
    using Cons.prems less i by (intro Cons.IH) (auto simp: ListDelete_at [OF i])
  then show ?case using nths_remove_nth [OF i less] by (simp add: deleteAll_def ListDelete_at [OF i])
qed (simp add: deleteAll_def nths_all)

lemma lrem_bwd_eq:
  assumes "i \<le> length (ListAll Q l)" "limit \<le> 0 \<or> int (length idxs) < limit"
  shows "lrem_bwd Q l val limit i idxs = upto_limit limit (idxs @ rev (filter (\<lambda>j. ListAll Q l ! j = val) [0..<i]))"
  using assms
proof (induction i arbitrary: idxs)
  case (Suc i)
  have at: "ListAt Q l (int i) = Some (ListAll Q l ! i)" using Suc.prems(1) by (simp add: ListAt_all pos_def)
  show ?case
    using Suc.prems Suc.IH [of idxs] Suc.IH [of "idxs @ [i]"] at by (auto simp: upto_limit_def Let_def take_Cons')
qed (auto simp: upto_limit_def)

lemma lremIdxs_spec:
  assumes "is_i64 cnt" "MinInt64 < cnt"
  shows "distinct (lremIdxs Q l cnt val)" "set (lremIdxs Q l cnt val) = {i. lremHit cnt val (ListAll Q l) i}"
proof -
  let ?xs = "ListAll Q l"
  let ?F = "filter (\<lambda>j. ?xs ! j = val) [0..<length ?xs]"
  have w: "wrap64 (- cnt) = - cnt" using assms by (intro wrap64_id) (simp add: is_i64_def)
  have eq: "lremIdxs Q l cnt val = (if 0 \<le> cnt then upto_limit cnt ?F else upto_limit (- cnt) (rev ?F))"
    using lrem_fwd_eq [of cnt "[]" val 0 ?xs] lrem_bwd_eq [of "length ?xs" l "- cnt" "[]" val]
    by (cases "cnt \<le> 0") (auto simp: lremIdxs_def ListLen_all w)
  then show "distinct (lremIdxs Q l cnt val)" by (auto simp: upto_limit_def)
  show "set (lremIdxs Q l cnt val) = {i. lremHit cnt val ?xs i}"
    unfolding eq upto_limit_def lremHit_def
    by (auto simp: set_take_filter_upt set_take_rev_filter_upt count_take count_drop)
qed

end

section \<open>The handlers meet their specifications\<close>

lemma rev_sort_desc: "distinct xs \<Longrightarrow> sorted_wrt (>) (rev (sort xs))"
  by (simp add: sorted_wrt_rev strict_sorted_iff)

lemma clip_Nil [simp]: "clip [] start stop = []"
  by (simp add: clip_def)

lemma kv_notifyDel [simp]: "kv P (notifyDel db key ev changed deleted g) = kv P g"
  by (simp add: notifyDel_def Let_def)

context pluto_laws
begin

lemma value_ok_list [simp]: "value_ok P (VList l) = list_inv (PQ P) l"
  by (simp add: value_ok_def)

lemma list_cases:
  assumes "typeOf v = TypeList" "value_ok P v"
  obtains l where "v = VList l" "list_inv (PQ P) l"
  using assms by (cases v) auto

lemma WakeWaiter_mem [simp]: "maxMemory (WakeWaiter i g db key) = maxMemory g"
  by (simp add: WakeWaiter_def split: list.split)

lemma shrunk_sel [simp]:
  "maxMemory (snd (shrunk P i db key a l g)) = maxMemory g"
  by (simp add: shrunk_def Let_def)

lemma kv_shrunk:
  assumes "ptr_ok P g" "search P g db key = Some a" "\<not> due (ents g a) (NowMs g)"
  shows "kv P (snd (shrunk P i db key a l g)) = kvupd (kv P g) db key
    (if ListAll (PQ P) l = [] then None else Some (AList (ListAll (PQ P) l), ExpireAtMs (ents g a)))"
  using assms by (simp add: shrunk_def Let_def kv_update qk.ListLen_all)

lemma list_read_refines:
  assumes "ptr_ok P g" "maxMemory g \<le> 0" "vals_ok P g" "no_empty (kv P g)"
  shows "refines P db (args ! 1) (listOp (\<lambda>xs. (RInt (int (length xs)), xs))) g (cmdLLen P db args g)"
    "refines P db (args ! 1) (listOp (lindexSpec (args ! 2))) g (cmdLIndex P db args g)"
  unfolding refines_def cmdLLen_def cmdLIndex_def Let_def
  by (rule doKey_coll [where Q = "\<lambda>r K. r = _ \<and> K = _", OF assms];
      auto simp: collOp_def qk.ListLen_all qk.ListAt_all lindexSpec_def optBlob_def elim!: list_cases split: option.splits)+

lemma cmdLRange_refines:
  assumes "ptr_ok P g" "maxMemory g \<le> 0" "vals_ok P g" "no_empty (kv P g)"
    "parseIntStrict (args ! 2) = Some start" "parseIntStrict (args ! 3) = Some stop"
  shows "refines P db (args ! 1) (listOp (\<lambda>xs. (RArr (map RBlob (clip xs start stop)), xs))) g (cmdLRange P db args g)"
  unfolding refines_def cmdLRange_def assms(5,6) Let_def option.case prod.case
  by (rule doKey_coll [where Q = "\<lambda>r K. r = _ \<and> K = _", OF assms(1-4)])
    (auto simp: collOp_def qk.ListRange_all elim!: list_cases)

lemma pushCmd_refines:
  assumes "ptr_ok P g" "maxMemory g \<le> 0" "vals_ok P g" "no_empty (kv P g)" "3 \<le> length args"
  shows "refines P db (args ! 1) (listOp (pushSpec (drop 2 args) head only)) g (pushCmd P db args head only g)"
proof -
  have ne: "drop 2 args \<noteq> []" using assms(5) by simp
  have new: "ListAll (PQ P) (NewList (PQ P)) = []" by (simp add: NewList_def ListAll_def qk.all_new)
  show ?thesis
    unfolding refines_def pushCmd_def Let_def
    by (rule doKey_coll [where Q = "\<lambda>r K. r = _ \<and> K = _" and B = "pushTask P db (args ! 1) (drop 2 args) head only", OF assms(1-4)])
      (use ne in \<open>auto simp: pushTask_def pushSpec_def coll_simps qk.ListLen_all qk.pushAll_spec new elim!: list_cases\<close>)
qed

lemma popTask_refines:
  fixes key :: string and db :: nat and head :: bool
  assumes "ptr_ok P g" "maxMemory g \<le> 0" "vals_ok P g" "no_empty (kv P g)" "\<And>c. cnt = Some c \<Longrightarrow> 0 \<le> c"
  defines "D \<equiv> doKey P key (\<lambda>i g. popTask P db key head cnt i (getColl P i g db key TypeList)) g"
  shows "fst (fst D) = fst (listOp (popSpec head cnt) (NowMs g) (kv P g db key)) \<and>
    kv P (snd D) = kvupd (kv P g) db key (snd (listOp (popSpec head cnt) (NowMs g) (kv P g db key)))"
  unfolding D_def
proof (rule doKey_coll [where Q = "\<lambda>r K. fst r = _ \<and> K = _" and B = "popTask P db key head cnt", OF assms(1-4)])
  fix i a g1
  assume a: "kv P g1 = kv P g" "ptr_ok P g1" "NowMs g1 = NowMs g" "maxMemory g1 \<le> 0" "search P g1 db key = Some a"
    "\<not> due (ents g1 a) (NowMs g)" "kv P g db key = Some (absv P (Val (ents g1 a)), ExpireAtMs (ents g1 a))"
    "typeOf (Val (ents g1 a)) = TypeList" "value_ok P (Val (ents g1 a))" "full (absv P (Val (ents g1 a)))"
  obtain l where l: "Val (ents g1 a) = VList l" using a(8,9) by (rule list_cases)
  have ne: "ListAll (PQ P) l \<noteq> []" using a(10) l by simp
  obtain l1 where p1: "popOne (PQ P) l head = (Some (if head then hd (ListAll (PQ P) l) else last (ListAll (PQ P) l)), l1)"
    and l1: "ListAll (PQ P) l1 = (if head then tl (ListAll (PQ P) l) else butlast (ListAll (PQ P) l))"
    using qk.popOne_spec(1,2) [OF ne, of head] by (metis snd_conv)
  note kv = kv_shrunk [OF a(2,5), unfolded a(3), OF a(6), unfolded a(1)]
  have T: "maxMemory (snd (popTask P db key head cnt i ((Some a, False), g1))) \<le> 0 \<and>
      fst (fst (popTask P db key head cnt i ((Some a, False), g1))) = fst (popSpec head cnt (ListAll (PQ P) l)) \<and>
      kv P (snd (popTask P db key head cnt i ((Some a, False), g1))) = kvupd (kv P g) db key
        (if snd (popSpec head cnt (ListAll (PQ P) l)) = [] then None
         else Some (AList (snd (popSpec head cnt (ListAll (PQ P) l))), ExpireAtMs (ents g1 a)))"
  proof (cases cnt)
    case None
    then show ?thesis using ne a(4) by (simp add: popTask_def popSpec_def l p1 split_beta kv l1 blobOf_def)
  next
    case (Some c)
    let ?n = "min (nat c) (length (ListAll (PQ P) l))" and ?xs = "ListAll (PQ P) l"
    obtain out l2 where p: "pop_loop (PQ P) head ?n l [] = (out, l2)" by (cases "pop_loop (PQ P) head ?n l []")
    have o: "out = map RBlob (take (nat c) (if head then ?xs else rev ?xs))"
      "ListAll (PQ P) l2 = (if head then drop (nat c) ?xs else rev (drop (nat c) (rev ?xs)))"
      using qk.pop_loop_spec [of ?n l head "[]"] p by (auto simp: min_def)
    show ?thesis
    proof (cases "c = 0")
      case True
      then have "popTask P db key head cnt i ((Some a, False), g1) = ((RArr [], False, False), g1)"
        by (simp add: popTask_def Some)
      moreover have "popSpec head cnt ?xs = (RArr [], ?xs)" using True ne by (simp add: popSpec_def Some)
      ultimately show ?thesis using a(1,4,7) ne l by simp
    next
      case False
      have "popTask P db key head cnt i ((Some a, False), g1) =
          ((RArr out, True, fst (shrunk P i db key a l2 g1)), snd (shrunk P i db key a l2 g1))"
        using False p by (simp add: popTask_def Some l qk.ListLen_all Let_def split_beta)
      then show ?thesis using o ne a(4) by (simp add: popSpec_def Some kv)
    qed
  qed
  then show "maxMemory (snd (popTask P db key head cnt i ((Some a, False), g1))) \<le> 0 \<and>
      fst (fst (popTask P db key head cnt i ((Some a, False), g1))) = fst (listOp (popSpec head cnt) (NowMs g) (kv P g db key)) \<and>
      kv P (snd (popTask P db key head cnt i ((Some a, False), g1))) =
        kvupd (kv P g) db key (snd (listOp (popSpec head cnt) (NowMs g) (kv P g db key)))"
    using a(7) l by (simp add: collOp_def)
qed (auto simp: popTask_def popSpec_def collOp_def)

lemma popCmd_refines:
  assumes "ptr_ok P g" "maxMemory g \<le> 0" "vals_ok P g" "no_empty (kv P g)"
    "length args = 2 \<and> cnt = None \<or> length args = 3 \<and> cnt = parseIntStrict (args ! 2) \<and> cnt \<noteq> None \<and> 0 \<le> the cnt"
  shows "refines P db (args ! 1) (listOp (popSpec head cnt)) g (popCmd P db args head g)"
proof -
  have "\<And>c. cnt = Some c \<Longrightarrow> 0 \<le> c" using assms(5) by auto
  note T = popTask_refines [where cnt = cnt and key = "args ! 1" and db = db and head = head, OF assms(1-4) this]
  from assms(5) show ?thesis
  proof
    assume "length args = 2 \<and> cnt = None"
    then show ?thesis using T by (simp add: refines_def popCmd_def Let_def split_beta)
  next
    assume a: "length args = 3 \<and> cnt = parseIntStrict (args ! 2) \<and> cnt \<noteq> None \<and> 0 \<le> the cnt"
    then obtain v where "parseIntStrict (args ! 2) = Some v" "cnt = Some v" "0 \<le> v" by auto
    then show ?thesis using T a by (simp add: refines_def popCmd_def Let_def split_beta)
  qed
qed

lemma insert_beside:
  assumes "p \<in> set xs"
  defines "j \<equiv> length (takeWhile (\<lambda>x. x \<noteq> p) xs)"
  shows "insert_nth j v xs = takeWhile (\<lambda>x. x \<noteq> p) xs @ v # dropWhile (\<lambda>x. x \<noteq> p) xs"
    "insert_nth (Suc j) v xs = takeWhile (\<lambda>x. x \<noteq> p) xs @ p # v # tl (dropWhile (\<lambda>x. x \<noteq> p) xs)"
    "j < length xs"
proof -
  have t: "take j xs = takeWhile (\<lambda>x. x \<noteq> p) xs" "drop j xs = dropWhile (\<lambda>x. x \<noteq> p) xs"
    by (simp_all add: j_def takeWhile_eq_take [symmetric] dropWhile_eq_drop)
  have "dropWhile (\<lambda>x. x \<noteq> p) xs \<noteq> []" using assms(1) by (simp add: dropWhile_eq_Nil_conv)
  then obtain ys where d: "dropWhile (\<lambda>x. x \<noteq> p) xs = p # ys"
    using hd_dropWhile [of "\<lambda>x. x \<noteq> p" xs] by (metis list.collapse)
  show "j < length xs" using d t(2) by (metis drop_eq_Nil list.distinct(1) not_le)
  then have "xs ! j = p" "drop (Suc j) xs = ys" using d t(2) Cons_nth_drop_Suc [of j xs] by auto
  with \<open>j < length xs\<close> have "take (Suc j) xs = take j xs @ [p]" "drop (Suc j) xs = ys" by (simp_all add: take_Suc_conv_app_nth)
  then show "insert_nth j v xs = takeWhile (\<lambda>x. x \<noteq> p) xs @ v # dropWhile (\<lambda>x. x \<noteq> p) xs"
    "insert_nth (Suc j) v xs = takeWhile (\<lambda>x. x \<noteq> p) xs @ p # v # tl (dropWhile (\<lambda>x. x \<noteq> p) xs)"
    using d t by (simp_all add: insert_nth_def)
qed

lemma cmdLSet_refines:
  assumes "ptr_ok P g" "maxMemory g \<le> 0" "vals_ok P g" "no_empty (kv P g)"
  shows "refines P db (args ! 1) (listOp (lsetSpec (args ! 2) (args ! 3))) g (cmdLSet P db args g)"
proof -
  have "refines P db key (listOp (lsetSpec n v)) g
    (fst (fst (doKey P key (\<lambda>i g. lsetTask P db key n v i (getColl P i g db key TypeList)) g)),
     snd (doKey P key (\<lambda>i g. lsetTask P db key n v i (getColl P i g db key TypeList)) g))" for key n v
  proof (rule coll_task_refines [where T = "lsetTask P db key n v", OF assms as_coll_type(2)], goal_cases)
    case (3 i a g1 c x)
    then obtain l where l: "Val (ents g1 a) = VList l" "c = ListAll (PQ P) l" "c \<noteq> []" by (auto elim!: list_cases)
    show ?case
    proof (cases "parseIntStrict n")
      case (Some ix)
      show ?thesis
        using Some 3 l qk.ListSet_all [of l ix]
        by (cases "pos (length c) ix") (auto simp: lsetTask_def lsetSpec_def split_beta Let_def)
    qed (use 3 l in \<open>auto simp: lsetTask_def lsetSpec_def\<close>)
  qed (auto simp: lsetTask_def lsetSpec_def)
  then show ?thesis by (simp add: refines_def cmdLSet_def split_beta Let_def)
qed

lemma linsert_refines:
  assumes "ptr_ok P g" "maxMemory g \<le> 0" "vals_ok P g" "no_empty (kv P g)"
    "lowerASCII (args ! 2) = (if before then ''before'' else ''after'')"
  shows "refines P db (args ! 1) (listOp (linsertSpec before (args ! 3) (args ! 4))) g (cmdLInsert P db args g)"
proof -
  have "refines P db key (listOp (linsertSpec before p v)) g
    (fst (fst (doKey P key (\<lambda>i g. linsertTask P db key before p v i (getColl P i g db key TypeList)) g)),
     snd (doKey P key (\<lambda>i g. linsertTask P db key before p v i (getColl P i g db key TypeList)) g))" for key p v
  proof (rule coll_task_refines [where T = "linsertTask P db key before p v", OF assms(1-4) as_coll_type(2)], goal_cases)
    case (3 i a g1 c x)
    then obtain l where l: "Val (ents g1 a) = VList l" "c = ListAll (PQ P) l" "c \<noteq> []" by (auto elim!: list_cases)
    show ?case
    proof (cases "p \<in> set c")
      case True
      let ?j = "length (takeWhile (\<lambda>x. x \<noteq> p) c)"
      let ?l = "snd (if before then ListInsertBefore (PQ P) l (int ?j) v else ListInsertAfter (PQ P) l (int ?j) v)"
      note B = insert_beside [OF True]
      have "pos (length c) (int ?j) = Some ?j" using B(3) by (simp add: pos_def)
      then have all: "ListAll (PQ P) ?l = insert_nth (if before then ?j else Suc ?j) v c"
        using qk.ListInsert_all(2,3) [of l "int ?j" ?j v] l(2) by simp
      have len: "length (ListAll (PQ P) ?l) = Suc (length c)" using B(3) unfolding all by (intro length_insert_nth) simp
      have ys: "ListAll (PQ P) ?l = snd (linsertSpec before p v c)"
        unfolding all using True l(3) B(1,2) [of v] by (simp add: linsertSpec_def Let_def)
      have "linsertTask P db key before p v i ((Some a, False), g1) =
          ((RInt (int (length c) + 1), True), Touch P i (setVal a (VList ?l) g1) db key a)"
        using len True l by (cases before) (simp_all add: linsertTask_def find_index_takeWhile Let_def qk.ListLen_all)
      moreover have "fst (linsertSpec before p v c) = RInt (int (length c) + 1)" using True l(3) by (simp add: linsertSpec_def Let_def)
      moreover have "snd (linsertSpec before p v c) \<noteq> []" using len ys by auto
      ultimately show ?thesis using 3(2,9) ys by simp
    qed (use 3 l in \<open>auto simp: linsertTask_def linsertSpec_def find_index_takeWhile\<close>)
  qed (auto simp: linsertTask_def linsertSpec_def)
  then show ?thesis using assms(5) by (cases before) (simp_all add: refines_def cmdLInsert_def split_beta Let_def)
qed

lemma ltrim_refines:
  assumes "ptr_ok P g" "maxMemory g \<le> 0" "vals_ok P g" "no_empty (kv P g)"
    "parseIntStrict (args ! 2) = Some start" "parseIntStrict (args ! 3) = Some stop"
  shows "refines P db (args ! 1) (listOp (\<lambda>xs. (replyOK, clip xs start stop))) g (cmdLTrim P db args g)"
proof -
  have "refines P db key (listOp (\<lambda>xs. (replyOK, clip xs start stop))) g
    (fst (fst (doKey P key (\<lambda>i g. ltrimTask P db key start stop i (getColl P i g db key TypeList)) g)),
     snd (doKey P key (\<lambda>i g. ltrimTask P db key start stop i (getColl P i g db key TypeList)) g))" for key
    by (rule coll_task_refines [where T = "ltrimTask P db key start stop", OF assms(1-4) as_coll_type(2)])
      (auto simp: ltrimTask_def shrunk_def Let_def qk.ListLen_all qk.ListTrim_all elim!: list_cases)
  then show ?thesis using assms(5,6) by (simp add: refines_def cmdLTrim_def split_beta Let_def)
qed

lemma lrem_refines:
  assumes "ptr_ok P g" "maxMemory g \<le> 0" "vals_ok P g" "no_empty (kv P g)"
    "parseIntStrict (args ! 2) = Some cnt" "MinInt64 < cnt"
  shows "refines P db (args ! 1) (listOp (lremSpec cnt (args ! 3))) g (cmdLRem P db args g)"
proof -
  have r: "is_i64 cnt" using assms(5) ParseInt64_range by (simp add: parseIntStrict_eq_ParseInt64)
  have "refines P db key (listOp (lremSpec cnt val)) g
    (fst (fst (doKey P key (\<lambda>i g. lremTask P db key cnt val i (getColl P i g db key TypeList)) g)),
     snd (doKey P key (\<lambda>i g. lremTask P db key cnt val i (getColl P i g db key TypeList)) g))" for key val
  proof (rule coll_task_refines [where T = "lremTask P db key cnt val", OF assms(1-4) as_coll_type(2)], goal_cases)
    case (3 i a g1 c x)
    then obtain l where l: "Val (ents g1 a) = VList l" "c = ListAll (PQ P) l" by (auto elim!: list_cases)
    let ?ids = "rev (sort (lremIdxs (PQ P) l cnt val))"
    let ?l = "deleteAll (PQ P) ?ids l"
    note I = qk.lremIdxs_spec [OF r assms(6), of l val]
    have S: "set ?ids = {i. lremHit cnt val c i}" using I(2) l(2) by simp
    then have all: "ListAll (PQ P) ?l = nths c (- {i. lremHit cnt val c i})"
      using qk.deleteAll_spec [OF rev_sort_desc [OF I(1)], of l] l(2) by (auto simp: lremHit_def)
    have "length ?ids = card {i. lremHit cnt val c i}" using distinct_card [of ?ids] I(1) S by simp
    moreover have "length (nths c (- {i. lremHit cnt val c i})) + card {i. lremHit cnt val c i} = length c"
      using length_nths_hits [of "lremHit cnt val c" c] by (simp add: lremHit_def)
    ultimately have n: "int (length ?ids) = int (length c) - int (length (ListAll (PQ P) ?l))" using all by simp
    have y: "lremSpec cnt val c = (RInt (int (length ?ids)), ListAll (PQ P) ?l)"
      unfolding lremSpec_def n all Let_def by (simp add: Collect_neg_eq)
    show ?case
      using 3(2,8,9) unfolding lremTask_def y by (simp add: l Let_def qk.ListLen_all)
  qed (auto simp: lremTask_def lremSpec_def)
  then show ?thesis using assms(5) by (simp add: refines_def cmdLRem_def split_beta Let_def)
qed

section \<open>The handlers are sequences of steps\<close>

lemma acts_notifyDel: "acts P k g0 g \<Longrightarrow> acts P k g0 (notifyDel db key ev changed deleted g)"
  by (simp add: notifyDel_def Let_def acts_notify)

lemma acts_shrunk:
  assumes "acts P k g0 g" "db < maxDBs g" "search P g db key = Some a" "value_ok P (Val (ents g a)) \<Longrightarrow> list_inv (PQ P) l"
  shows "acts P k g0 (snd (shrunk P (ShardIndex P k key) db key a l g))"
  unfolding shrunk_def Let_def using assms by (auto intro!: acts_Delete acts_update)

lemma list_task_acts:
  fixes key :: string
  assumes "db < maxDBs g"
  defines "look \<equiv> getColl P (ShardIndex P k key) g db key TypeList"
  shows "acts P k g (snd (pushTask P db key vs head only (ShardIndex P k key) look))"
    "acts P k g (snd (popTask P db key head cnt (ShardIndex P k key) look))"
    "acts P k g (snd (lsetTask P db key n v (ShardIndex P k key) look))"
    "acts P k g (snd (linsertTask P db key before p v (ShardIndex P k key) look))"
    "acts P k g (snd (lremTask P db key c v (ShardIndex P k key) look))"
    "acts P k g (snd (ltrimTask P db key start stop (ShardIndex P k key) look))"
proof -
  let ?i = "ShardIndex P k key"
  obtain r wt g1 where L: "getColl P ?i g db key TypeList = ((r, wt), g1)" by (cases "getColl P ?i g db key TypeList") auto
  note F = getColl_facts [OF L assms(1)]
  have v: "value_ok P (Val (ents g1 a)) \<Longrightarrow> list_inv (PQ P) (listOf P (Val (ents g1 a)))" if "r = Some a" for a
    using F(7) [OF that] by (auto elim: list_cases)
  have pop: "list_inv (PQ P) l \<Longrightarrow> list_inv (PQ P) (snd (popOne (PQ P) l head))" for l
    by (simp add: popOne_def qk.ListPop_inv)
  have loop: "list_inv (PQ P) l \<Longrightarrow> list_inv (PQ P) (snd (pop_loop (PQ P) head m l out))" for l m out
    using pop by (induction m arbitrary: l out) (auto simp: split_beta)
  note I = qk.list_inv_New qk.pushAll_spec(2) qk.ListSet_inv qk.ListInsert_inv qk.deleteAll_inv qk.ListTrim_inv pop loop
  show "acts P k g (snd (pushTask P db key vs head only ?i look))"
    using F v I assms(1) unfolding look_def L
    by (cases r) (auto simp: pushTask_def split_beta Let_def intro!: acts_WakeWaiter acts_notify acts_fill acts_update)
  show "acts P k g (snd (popTask P db key head cnt ?i look))"
    using F v I assms(1) unfolding look_def L
    by (cases r) (auto simp: popTask_def split_beta Let_def intro!: acts_shrunk split: option.split)
  show "acts P k g (snd (lsetTask P db key n v ?i look))"
    using F v I assms(1) unfolding look_def L
    by (cases r) (auto simp: lsetTask_def split_beta Let_def intro!: acts_setVal acts_update split: option.split)
  show "acts P k g (snd (linsertTask P db key before p v ?i look))"
    using F v I assms(1) unfolding look_def L
    by (cases r) (auto simp: linsertTask_def split_beta Let_def intro!: acts_update split: option.split)
  show "acts P k g (snd (lremTask P db key c v ?i look))"
    using F v I assms(1) unfolding look_def L
    by (cases r) (auto simp: lremTask_def split_beta Let_def intro!: acts_Delete acts_setVal acts_update)
  show "acts P k g (snd (ltrimTask P db key start stop ?i look))"
    using F v I assms(1) unfolding look_def L
    by (cases r) (auto simp: ltrimTask_def split_beta Let_def intro!: acts_shrunk)
qed

lemma list_write_acts:
  assumes "kbits g = k" "db < maxDBs g"
  shows "acts P k g (snd (pushCmd P db args head only g))" "acts P k g (snd (popCmd P db args head g))"
    "acts P k g (snd (cmdLSet P db args g))" "acts P k g (snd (cmdLInsert P db args g))"
    "acts P k g (snd (cmdLRem P db args g))" "acts P k g (snd (cmdLTrim P db args g))"
proof -
  note T = list_task_acts [OF assms(2)]
  show "acts P k g (snd (pushCmd P db args head only g))"
    using acts_coll [where B = "pushTask P db key vs head only" for key vs, OF assms(1) T(1)] by (simp add: pushCmd_def Let_def)
  show "acts P k g (snd (popCmd P db args head g))"
    using acts_coll [where B = "popTask P db key b c" for key b c, OF assms(1) T(2)]
    by (simp add: popCmd_def split_beta Let_def acts_notifyDel split: option.split)
  show "acts P k g (snd (cmdLSet P db args g))"
    using acts_coll [where B = "lsetTask P db key n v" for key n v, OF assms(1) T(3)] by (simp add: cmdLSet_def split_beta Let_def acts_notify)
  show "acts P k g (snd (cmdLInsert P db args g))"
    using acts_coll [where B = "linsertTask P db key b p v" for key b p v, OF assms(1) T(4)]
    by (simp add: cmdLInsert_def split_beta Let_def acts_notify)
  show "acts P k g (snd (cmdLRem P db args g))"
    using acts_coll [where B = "lremTask P db key c v" for key c v, OF assms(1) T(5)]
    by (simp add: cmdLRem_def split_beta Let_def acts_notifyDel split: option.split)
  show "acts P k g (snd (cmdLTrim P db args g))"
    using acts_coll [where B = "ltrimTask P db key a b" for key a b, OF assms(1) T(6)]
    by (simp add: cmdLTrim_def split_beta Let_def acts_notifyDel split: option.split)
qed

lemma list_read_acts:
  assumes "kbits g = k" "db < maxDBs g"
  shows "acts P k g (snd (cmdLLen P db args g))" "acts P k g (snd (cmdLIndex P db args g))" "acts P k g (snd (cmdLRange P db args g))"
proof -
  show "acts P k g (snd (cmdLLen P db args g))" "acts P k g (snd (cmdLIndex P db args g))"
    unfolding cmdLLen_def cmdLIndex_def Let_def by (rule acts_getColl [OF assms]; simp split: prod.split option.split)+
  have "acts P k g (snd (doKey P key (\<lambda>i g. let ((ent, wt), g1) = getColl P i g db key TypeList
      in if wt then (errWrongType, g1)
         else (RArr (case ent of None \<Rightarrow> [] | Some a \<Rightarrow> map RBlob (ListRange (PQ P) (listOf P (Val (ents g1 a))) x y)), g1)) g))" for key x y
    unfolding Let_def by (rule acts_getColl [OF assms]) (simp split: prod.split)
  then show "acts P k g (snd (cmdLRange P db args g))"
    by (auto simp: cmdLRange_def Let_def split: option.split)
qed

end

end
