(* ===== verification/Cmd_Move.thy ===== *)
theory Cmd_Move
  imports Cmd_List
begin

text \<open>
  LMOVE and RPOPLPUSH, which move an element between two keys, and LPOS (the rest of
  \<^verbatim>\<open>src/lib/commands/list.go\<close>). A move between different keys is three submissions: a
  validating read of both keys, the push on the destination, the pop on the source. The model
  runs them back to back; in the server the tasks of other clients may run in between, which
  the source accepts (it repeats the checks on the source before popping).
\<close>

section \<open>LMOVE\<close>

definition lmoveSameTask :: "('q, 'z, 't, 'h, 'l, 'f) packages \<Rightarrow> nat \<Rightarrow> string \<Rightarrow> bool \<Rightarrow> bool \<Rightarrow> nat \<Rightarrow> (addr option \<times> bool) \<times> ('q, 'z, 't, 'h, 'l, 'f) st \<Rightarrow> (rv \<times> unit) \<times> ('q, 'z, 't, 'h, 'l, 'f) st" where
  "lmoveSameTask P db src srcHead dstHead i look =
     (let ((ent, wt), g1) = look
      in if wt then ((errWrongType, ()), g1)
         else
           (case ent of
              None \<Rightarrow> ((RNull, ()), g1)
            | Some a \<Rightarrow>
                let (v, l1) = popOne (PQ P) (listOf P (Val (ents g1 a))) srcHead;
                    l2 = pushOne (PQ P) dstHead l1 (case v of Some s \<Rightarrow> s | None \<Rightarrow> []);
                    g2 = Touch P i (setVal a (VList l2) g1) db src a;
                    g3 = notify db src (if dstHead then ''lpush'' else ''rpush'') g2;
                    g4 = notify db src (if srcHead then ''lpop'' else ''rpop'') g3
                in ((blobOf v, ()), WakeWaiter i g4 db src)))"

text \<open>Phase 1: \<^verbatim>\<open>val\<close>, \<^verbatim>\<open>srcWT\<close>, \<^verbatim>\<open>dstWT\<close> and \<^verbatim>\<open>missing\<close>, written by the closure of one key each.\<close>

record lpeek =
  pk_val :: string
  pk_srcWT :: bool
  pk_dstWT :: bool
  pk_missing :: bool

definition lmovePeek ::
  "('q, 'z, 't, 'h, 'l, 'f) packages \<Rightarrow> nat \<Rightarrow> string \<Rightarrow> string \<Rightarrow> bool \<Rightarrow> nat \<Rightarrow> nat \<Rightarrow> string \<Rightarrow> lpeek \<Rightarrow> ('q, 'z, 't, 'h, 'l, 'f) st \<Rightarrow> lpeek \<times> ('q, 'z, 't, 'h, 'l, 'f) st" where
  "lmovePeek P db src dst srcHead si i key pk g =
     (if i = 0 then
        let ((ent, wt), g1) = getColl P si g db src TypeList
        in (if wt then pk\<lparr>pk_srcWT := True\<rparr>
            else
              case ent of
                None \<Rightarrow> pk\<lparr>pk_missing := True\<rparr>
              | Some a \<Rightarrow>
                  let l = listOf P (Val (ents g1 a)); v = (if srcHead then ListPeekHead (PQ P) l else ListPeekTail (PQ P) l)
                  in pk\<lparr>pk_val := (case v of Some s \<Rightarrow> s | None \<Rightarrow> [])\<rparr>, g1)
      else
        let ((ent, wt), g1) = getColl P si g db dst TypeList
        in (if wt then pk\<lparr>pk_dstWT := True\<rparr> else pk, g1))"

definition lmovePush :: "('q, 'z, 't, 'h, 'l, 'f) packages \<Rightarrow> nat \<Rightarrow> string \<Rightarrow> bool \<Rightarrow> string \<Rightarrow> nat \<Rightarrow> ('q, 'z, 't, 'h, 'l, 'f) st \<Rightarrow> unit \<times> ('q, 'z, 't, 'h, 'l, 'f) st" where
  "lmovePush P db dst dstHead val i g =
     (let ((ent, wt), g1) = getColl P i g db dst TypeList;
          g2 = (case ent of
                  None \<Rightarrow>
                    let (a, g2) = storeColl P i g1 db dst (VList (NewList (PQ P)))
                    in setVal a (VList (pushOne (PQ P) dstHead (NewList (PQ P)) val)) g2
                | Some a \<Rightarrow> Touch P i (setVal a (VList (pushOne (PQ P) dstHead (listOf P (Val (ents g1 a))) val)) g1) db dst a)
      in ((), WakeWaiter i (notify db dst (if dstHead then ''lpush'' else ''rpush'') g2) db dst))"

definition lmovePop :: "('q, 'z, 't, 'h, 'l, 'f) packages \<Rightarrow> nat \<Rightarrow> string \<Rightarrow> bool \<Rightarrow> nat \<Rightarrow> ('q, 'z, 't, 'h, 'l, 'f) st \<Rightarrow> unit \<times> ('q, 'z, 't, 'h, 'l, 'f) st" where
  "lmovePop P db src srcHead i g =
     (let (r, g1) = Lookup P i g db src
      in case r of
           None \<Rightarrow> ((), g1)
         | Some a \<Rightarrow>
             if typeOf (Val (ents g1 a)) \<noteq> TypeList then ((), g1)
             else
               let l = snd (popOne (PQ P) (listOf P (Val (ents g1 a))) srcHead);
                   g2 = notify db src (if srcHead then ''lpop'' else ''rpop'') (Touch P i (setVal a (VList l) g1) db src a)
               in ((), if ListLen (PQ P) l = 0 then notify db src ''del'' (snd (Delete P i g2 db src)) else WakeWaiter i g2 db src))"

definition lmoveCmd ::
  "('q, 'z, 't, 'h, 'l, 'f) packages \<Rightarrow> nat list \<Rightarrow> nat \<Rightarrow> string \<Rightarrow> string \<Rightarrow> bool \<Rightarrow> bool \<Rightarrow> ('q, 'z, 't, 'h, 'l, 'f) st \<Rightarrow> rv \<times> ('q, 'z, 't, 'h, 'l, 'f) st" where
  "lmoveCmd P ord db src dst srcHead dstHead g =
     (if src = dst then
        let ((reply, _), g1) = doKey P src (\<lambda>i g. lmoveSameTask P db src srcHead dstHead i (getColl P i g db src TypeList)) g
        in (reply, g1)
      else
        let keys = [src, dst];
            (pk, g1) = doMulti P ord keys (\<lambda>si. each_idx keys (lmovePeek P db src dst srcHead si))
                         \<lparr>pk_val = [], pk_srcWT = False, pk_dstWT = False, pk_missing = False\<rparr> g
        in if pk_srcWT pk then (errWrongType, g1)
           else if pk_missing pk then (RNull, g1)
           else if pk_dstWT pk then (errWrongType, g1)
           else
             let (_, g2) = doKey P dst (lmovePush P db dst dstHead (pk_val pk)) g1;
                 (_, g3) = doKey P src (lmovePop P db src srcHead) g2
             in (RBlob (pk_val pk), g3))"

definition cmdRPopLPush :: "('q, 'z, 't, 'h, 'l, 'f) packages \<Rightarrow> nat list \<Rightarrow> nat \<Rightarrow> string list \<Rightarrow> ('q, 'z, 't, 'h, 'l, 'f) st \<Rightarrow> rv \<times> ('q, 'z, 't, 'h, 'l, 'f) st" where
  "cmdRPopLPush P ord db args g = lmoveCmd P ord db (args ! 1) (args ! 2) False True g"

definition sideArg :: "string \<Rightarrow> bool option" where
  "sideArg a = (if lowerASCII a = ''left'' then Some True else if lowerASCII a = ''right'' then Some False else None)"

definition cmdLMove :: "('q, 'z, 't, 'h, 'l, 'f) packages \<Rightarrow> nat list \<Rightarrow> nat \<Rightarrow> string list \<Rightarrow> ('q, 'z, 't, 'h, 'l, 'f) st \<Rightarrow> rv \<times> ('q, 'z, 't, 'h, 'l, 'f) st" where
  "cmdLMove P ord db args g =
     (case (sideArg (args ! 3), sideArg (args ! 4)) of
        (Some srcHead, Some dstHead) \<Rightarrow> lmoveCmd P ord db (args ! 1) (args ! 2) srcHead dstHead g
      | _ \<Rightarrow> (errSyntax, g))"

section \<open>LPOS\<close>

record lposOpts =
  lp_rank :: int
  lp_count :: int
  lp_maxlen :: int

fun lpos_opts :: "string list \<Rightarrow> lposOpts \<Rightarrow> rv + lposOpts" where
  "lpos_opts [] p = Inr p"
| "lpos_opts (opt # rest) p =
     (if lowerASCII opt = ''rank'' then
        (case rest of
           [] \<Rightarrow> Inl errSyntax
         | arg # rest1 \<Rightarrow>
             (case parseIntStrict arg of
                None \<Rightarrow> Inl errNotInt
              | Some v \<Rightarrow>
                  if v = 0 then
                    Inl (RErr (''ERR RANK can'' @ quote @ ''t be zero: use 1 to start from the first match, 2 from the second ... or use negative to start from the end of the list''))
                  else lpos_opts rest1 (p\<lparr>lp_rank := v\<rparr>)))
      else if lowerASCII opt = ''count'' then
        (case rest of
           [] \<Rightarrow> Inl errSyntax
         | arg # rest1 \<Rightarrow>
             (case parseIntStrict arg of
                Some v \<Rightarrow> if v < 0 then Inl (RErr (''ERR COUNT can'' @ quote @ ''t be negative'')) else lpos_opts rest1 (p\<lparr>lp_count := v\<rparr>)
              | None \<Rightarrow> Inl (RErr (''ERR COUNT can'' @ quote @ ''t be negative''))))
      else if lowerASCII opt = ''maxlen'' then
        (case rest of
           [] \<Rightarrow> Inl errSyntax
         | arg # rest1 \<Rightarrow>
             (case parseIntStrict arg of
                Some v \<Rightarrow> if v < 0 then Inl (RErr (''ERR MAXLEN can'' @ quote @ ''t be negative'')) else lpos_opts rest1 (p\<lparr>lp_maxlen := v\<rparr>)
              | None \<Rightarrow> Inl (RErr (''ERR MAXLEN can'' @ quote @ ''t be negative''))))
      else Inl errSyntax)"

text \<open>The closures \<^verbatim>\<open>done\<close> and \<^verbatim>\<open>step\<close>, run over the positions in scan order.\<close>

definition lpos_done :: "int \<Rightarrow> int \<Rightarrow> int \<Rightarrow> nat list \<Rightarrow> bool" where
  "lpos_done maxlen cnt examined matches \<longleftrightarrow>
     (0 < maxlen \<and> maxlen \<le> examined) \<or> (0 < cnt \<and> cnt \<le> int (length matches)) \<or> (cnt < 0 \<and> matches \<noteq> [])"

fun lpos_loop :: "string list \<Rightarrow> string \<Rightarrow> int \<Rightarrow> int \<Rightarrow> nat list \<Rightarrow> int \<Rightarrow> int \<Rightarrow> nat list \<Rightarrow> nat list" where
  "lpos_loop snap elem maxlen cnt [] examined skip matches = matches"
| "lpos_loop snap elem maxlen cnt (i # is) examined skip matches =
     (if lpos_done maxlen cnt examined matches then matches
      else if snap ! i \<noteq> elem then lpos_loop snap elem maxlen cnt is (examined + 1) skip matches
      else if 1 < skip then lpos_loop snap elem maxlen cnt is (examined + 1) (skip - 1) matches
      else lpos_loop snap elem maxlen cnt is (examined + 1) skip (matches @ [i]))"

definition lposMatches :: "string list \<Rightarrow> string \<Rightarrow> lposOpts \<Rightarrow> nat list" where
  "lposMatches snap elem p =
     lpos_loop snap elem (lp_maxlen p) (lp_count p)
       (if 0 < lp_rank p then [0..<length snap] else rev [0..<length snap]) 0
       (if lp_rank p < 0 then wrap64 (- lp_rank p) else lp_rank p) []"

definition cmdLPos :: "('q, 'z, 't, 'h, 'l, 'f) packages \<Rightarrow> nat \<Rightarrow> string list \<Rightarrow> ('q, 'z, 't, 'h, 'l, 'f) st \<Rightarrow> rv \<times> ('q, 'z, 't, 'h, 'l, 'f) st" where
  "cmdLPos P db args g =
     (case lpos_opts (drop 3 args) \<lparr>lp_rank = 1, lp_count = -1, lp_maxlen = 0\<rparr> of
        Inl err \<Rightarrow> (err, g)
      | Inr p \<Rightarrow>
          let key = args ! 1; elem = args ! 2
          in doKey P key (\<lambda>i g.
               let ((ent, wt), g1) = getColl P i g db key TypeList
               in if wt then (errWrongType, g1)
                  else
                    (case ent of
                       None \<Rightarrow> (if 0 \<le> lp_count p then RArr [] else RNull, g1)
                     | Some a \<Rightarrow>
                         let matches = lposMatches (ListAll (PQ P) (listOf P (Val (ents g1 a)))) elem p
                         in (if 0 \<le> lp_count p then RArr (map (\<lambda>m. RInt (int m)) matches)
                             else case matches of m # _ \<Rightarrow> RInt (int m) | [] \<Rightarrow> RNull, g1))) g)"

text \<open>
  What LPOS means: scan from the end the rank's sign selects, look at no more than
  \<^verbatim>\<open>MAXLEN\<close> positions, skip \<open>|rank| - 1\<close> matches, report up to \<^verbatim>\<open>COUNT\<close> (one without it).
\<close>

definition lposSpec :: "string list \<Rightarrow> string \<Rightarrow> lposOpts \<Rightarrow> nat list" where
  "lposSpec xs elem p =
     (let scan = (if 0 < lp_rank p then [0..<length xs] else rev [0..<length xs]);
          window = (if 0 < lp_maxlen p then take (nat (lp_maxlen p)) scan else scan);
          hits = drop (nat (\<bar>lp_rank p\<bar> - 1)) (filter (\<lambda>i. xs ! i = elem) window)
      in if lp_count p < 0 then take 1 hits else if lp_count p = 0 then hits else take (nat (lp_count p)) hits)"

text \<open>The loop, without its early exits, as list functions.\<close>

definition capTo :: "int \<Rightarrow> int \<Rightarrow> 'a list \<Rightarrow> 'a list" where
  "capTo limit used xs = (if 0 < limit then take (nat (limit - used)) xs else xs)"

definition capCount :: "int \<Rightarrow> nat \<Rightarrow> 'a list \<Rightarrow> 'a list" where
  "capCount cnt used xs = (if cnt < 0 then take (1 - used) xs else if cnt = 0 then xs else take (nat (cnt - int used)) xs)"

lemma capTo_Cons:
  "capTo limit used (x # xs) = (if 0 < limit \<and> limit \<le> used then [] else x # capTo limit (used + 1) xs)"
proof (cases "0 < limit \<and> \<not> limit \<le> used")
  case True
  then have "nat (limit - used) = Suc (nat (limit - (used + 1)))" by linarith
  then show ?thesis using True by (simp add: capTo_def)
qed (auto simp: capTo_def)

lemma capCount_Cons:
  "capCount cnt used (x # xs) = (if (0 < cnt \<and> cnt \<le> int used) \<or> (cnt < 0 \<and> 0 < used) then [] else x # capCount cnt (Suc used) xs)"
proof (cases "0 < cnt \<and> \<not> cnt \<le> int used")
  case True
  then have "nat (cnt - int used) = Suc (nat (cnt - int (Suc used)))" by linarith
  then show ?thesis using True by (simp add: capCount_def)
qed (auto simp: capCount_def)

lemma capCount_done: "(0 < cnt \<and> cnt \<le> int used) \<or> (cnt < 0 \<and> 0 < used) \<Longrightarrow> capCount cnt used xs = []"
  by (auto simp: capCount_def)

lemma lpos_loop_spec:
  assumes "1 \<le> skip"
  shows "lpos_loop xs elem maxlen cnt is ex skip ms =
    ms @ capCount cnt (length ms) (drop (nat (skip - 1)) (filter (\<lambda>i. xs ! i = elem) (capTo maxlen ex is)))"
  using assms
proof (induction "is" arbitrary: ex skip ms)
  case (Cons i "is")
  show ?case
  proof (cases "lpos_done maxlen cnt ex ms")
    case True
    then show ?thesis by (auto simp: lpos_done_def capTo_Cons capCount_done) (simp_all add: capCount_def)
  next
    case False
    have t: "capTo maxlen ex (i # is) = i # capTo maxlen (ex + 1) is"
      using False by (auto simp: lpos_done_def capTo_Cons)
    consider "xs ! i \<noteq> elem" | "xs ! i = elem" "1 < skip" | "xs ! i = elem" "skip = 1" using Cons.prems by linarith
    then show ?thesis
    proof cases
      case 1
      then show ?thesis using False Cons by (simp add: t)
    next
      case 2
      then have "nat (skip - 1) = Suc (nat (skip - 1 - 1))" by linarith
      then show ?thesis using False 2 Cons.IH [of "skip - 1"] by (simp add: t)
    next
      case 3
      then show ?thesis using False Cons.IH [of 1] by (auto simp: t lpos_done_def capCount_Cons)
    qed
  qed
qed (simp add: capTo_def capCount_def)

lemma lposMatches_spec:
  assumes "lp_rank p \<noteq> 0" "MinInt64 < lp_rank p" "is_i64 (lp_rank p)"
  shows "lposMatches xs elem p = lposSpec xs elem p"
proof -
  have "(if lp_rank p < 0 then wrap64 (- lp_rank p) else lp_rank p) = \<bar>lp_rank p\<bar>"
    using assms by (auto simp: is_i64_def intro!: wrap64_id)
  moreover have "1 \<le> \<bar>lp_rank p\<bar>" using assms(1) by linarith
  ultimately show ?thesis
    by (simp add: lposMatches_def lposSpec_def lpos_loop_spec capTo_def capCount_def Let_def)
qed

text \<open>
  The rank \<^verbatim>\<open>-9223372036854775808\<close> has no positive counterpart: its negation wraps to itself, no
  match is skipped, and the command answers as for the rank \<^verbatim>\<open>-1\<close>.
\<close>

lemma lpos_min_rank:
  "lposMatches xs elem (p\<lparr>lp_rank := MinInt64\<rparr>) = lposMatches xs elem (p\<lparr>lp_rank := -1\<rparr>)"
proof -
  have neg: "lpos_loop xs elem maxlen cnt is ex s ms = lpos_loop xs elem maxlen cnt is ex 1 ms" if "s \<le> 1" for maxlen cnt "is" ex s ms
    using that by (induction "is" arbitrary: ex ms) auto
  have "wrap64 (- MinInt64) \<le> 1" "wrap64 1 = 1" by (simp_all add: wrap64_def)
  then show ?thesis using neg [of "wrap64 (- MinInt64)"] by (simp add: lposMatches_def)
qed

section \<open>The handlers meet their specifications\<close>

text \<open>
  A move between two keys as a function of their two entries: the reply, the new entry of the
  source and the new entry of the destination.
\<close>

definition isWrong :: "Type \<Rightarrow> kentry \<Rightarrow> bool" where
  "isWrong t e \<longleftrightarrow> (\<exists>v x. e = Some (v, x) \<and> atype v \<noteq> t)"

definition listAt :: "kentry \<Rightarrow> string list" where
  "listAt e = (case e of Some (AList xs, _) \<Rightarrow> xs | _ \<Rightarrow> [])"

definition ttlAt :: "kentry \<Rightarrow> int" where
  "ttlAt e = (case e of Some (_, x) \<Rightarrow> x | None \<Rightarrow> 0)"

definition listEntry :: "string list \<Rightarrow> int \<Rightarrow> kentry" where
  "listEntry xs x = (if xs = [] then None else Some (AList xs, x))"

definition endOf :: "bool \<Rightarrow> 'a list \<Rightarrow> 'a" where
  "endOf head xs = (if head then hd xs else last xs)"

definition popEnd :: "bool \<Rightarrow> 'a list \<Rightarrow> 'a list" where
  "popEnd head xs = (if head then tl xs else butlast xs)"

definition pushEnd :: "bool \<Rightarrow> 'a \<Rightarrow> 'a list \<Rightarrow> 'a list" where
  "pushEnd head x xs = (if head then x # xs else xs @ [x])"

definition lmoveSpec :: "bool \<Rightarrow> bool \<Rightarrow> kentry \<Rightarrow> kentry \<Rightarrow> rv \<times> kentry \<times> kentry" where
  "lmoveSpec srcHead dstHead se de =
     (if isWrong TypeList se then (errWrongType, se, de)
      else if se = None then (RNull, se, de)
      else if isWrong TypeList de then (errWrongType, se, de)
      else
        let v = endOf srcHead (listAt se)
        in (RBlob v, listEntry (popEnd srcHead (listAt se)) (ttlAt se), listEntry (pushEnd dstHead v (listAt de)) (ttlAt de)))"

definition rotateSpec :: "bool \<Rightarrow> bool \<Rightarrow> string list \<Rightarrow> rv \<times> string list" where
  "rotateSpec h h' xs = (if xs = [] then (RNull, xs) else (RBlob (endOf h xs), pushEnd h' (endOf h xs) (popEnd h xs)))"

definition lposReply :: "string \<Rightarrow> lposOpts \<Rightarrow> string list \<Rightarrow> rv" where
  "lposReply elem p xs =
     (let ms = lposSpec xs elem p
      in if 0 \<le> lp_count p then RArr (map (\<lambda>m. RInt (int m)) ms) else case ms of m # _ \<Rightarrow> RInt (int m) | [] \<Rightarrow> RNull)"

lemma atype_list: "atype v = TypeList \<longleftrightarrow> (\<exists>xs. v = AList xs)"
  by (cases v) (auto simp: atype_def)

lemma listAt_list: "listAt (Some (AList xs, x)) = xs" "ttlAt (Some (v, x)) = x"
  by (simp_all add: listAt_def ttlAt_def)

lemma mset_move: "xs \<noteq> [] \<Longrightarrow> mset (popEnd h xs) + mset (pushEnd h' (endOf h xs) ys) = mset xs + mset ys"
proof -
  assume "xs \<noteq> []"
  then have "mset (popEnd h xs) + {#endOf h xs#} = mset xs"
    by (cases h) (cases xs, auto simp: popEnd_def endOf_def, cases xs rule: rev_cases, auto)
  then show ?thesis by (auto simp: pushEnd_def ac_simps)
qed

context pluto_laws
begin

lemma pushOne_all: "ListAll (PQ P) (pushOne (PQ P) h l v) = pushEnd h v (ListAll (PQ P) l)"
  by (simp add: pushOne_def pushEnd_def qk.ListPush_all)

lemma popOne_all:
  assumes "ListAll (PQ P) l \<noteq> []"
  shows "popOne (PQ P) l h = (Some (endOf h (ListAll (PQ P) l)), snd (popOne (PQ P) l h))"
    "ListAll (PQ P) (snd (popOne (PQ P) l h)) = popEnd h (ListAll (PQ P) l)"
  using qk.popOne_spec(1,2) [OF assms, of h] by (simp_all add: endOf_def popEnd_def)

lemma wrong_list: "\<not> isWrong TypeList (Some (absv P v, x)) \<Longrightarrow> \<exists>l. v = VList l"
  by (cases v) (auto simp: isWrong_def atype_def)

lemma lmovePush_kv:
  assumes "ptr_ok P g" "maxMemory g \<le> 0" "\<not> isWrong TypeList (kv P g db dst)"
  shows "kv P (snd (doKey P dst (lmovePush P db dst h v) g)) =
      kvupd (kv P g) db dst (Some (AList (pushEnd h v (listAt (kv P g db dst))), ttlAt (kv P g db dst)))"
    "maxMemory (snd (doKey P dst (lmovePush P db dst h v) g)) \<le> 0"
proof -
  let ?i = "ShardIndex P (kbits g) dst"
  obtain r wt g1 where G: "getColl P ?i g db dst TypeList = ((r, wt), g1)" by (cases "getColl P ?i g db dst TypeList") auto
  note K = getColl_kv [OF G assms(1)]
  have m: "maxMemory (snd (lmovePush P db dst h v ?i g)) \<le> 0"
    using G K(4) assms(2) by (simp add: lmovePush_def split_beta Let_def split: option.split)
  then show "maxMemory (snd (doKey P dst (lmovePush P db dst h v) g)) \<le> 0" by (simp add: doKey_def split_beta Let_def)
  have new: "ListAll (PQ P) (NewList (PQ P)) = []" by (simp add: NewList_def ListAll_def qk.all_new)
  have "kv P (snd (lmovePush P db dst h v ?i g)) =
      kvupd (kv P g) db dst (Some (AList (pushEnd h v (listAt (kv P g db dst))), ttlAt (kv P g db dst)))"
  proof (cases r)
    case None
    have "\<not> wt" using K(6) assms(3) unfolding isWrong_def by blast
    then have "kv P g db dst = None" using K(7) None by blast
    then show ?thesis
      using G None K(1,2) by (simp add: lmovePush_def split_beta Let_def kv_fill pushOne_all new listAt_def ttlAt_def)
  next
    case (Some a)
    note A = K(8) [OF Some]
    obtain l where l: "Val (ents g1 a) = VList l" using A wrong_list assms(3) by metis
    have "kv P (Touch P ?i (setVal a v' g1) db dst a) = kvupd (kv P g) db dst (Some (absv P v', ExpireAtMs (ents g1 a)))" for v'
      using kv_update [OF K(2)] A K(1) by simp
    then show ?thesis
      using G Some A l by (simp add: lmovePush_def Let_def pushOne_all listAt_def ttlAt_def)
  qed
  then show "kv P (snd (doKey P dst (lmovePush P db dst h v) g)) =
      kvupd (kv P g) db dst (Some (AList (pushEnd h v (listAt (kv P g db dst))), ttlAt (kv P g db dst)))"
    using doKey_kv(2) [where fn = "lmovePush P db dst h v", OF m] by simp
qed

lemma lmovePop_kv:
  assumes "ptr_ok P g" "maxMemory g \<le> 0" "kv P g db src = Some (AList xs, x)" "xs \<noteq> []"
  shows "kv P (snd (doKey P src (lmovePop P db src h) g)) = kvupd (kv P g) db src (listEntry (popEnd h xs) x)"
proof -
  let ?i = "ShardIndex P (kbits g) src"
  obtain r g1 where L: "Lookup P ?i g db src = (r, g1)" by (cases "Lookup P ?i g db src")
  note K = Lookup_kv [OF L assms(1)]
  obtain a where a: "r = Some a" using K(7) assms(3) by (cases r) auto
  note A = K(8-10) [OF a]
  obtain l where l: "Val (ents g1 a) = VList l" "ListAll (PQ P) l = xs" and x: "ExpireAtMs (ents g1 a) = x"
    using A(3) assms(3) by (cases "Val (ents g1 a)") (auto simp: abse_def)
  have m: "maxMemory (snd (lmovePop P db src h ?i g)) \<le> 0"
    using L a K(4) assms(2) by (simp add: lmovePop_def Let_def)
  have u: "kv P (Touch P ?i (setVal a v' g1) db src a) = kvupd (kv P g) db src (Some (absv P v', x))" for v'
    using kv_update [OF K(2) A(1)] A(2) K(1,3) x by simp
  have ne: "ListAll (PQ P) l \<noteq> []" using l(2) assms(4) by simp
  have "kv P (snd (lmovePop P db src h ?i g)) = kvupd (kv P g) db src (listEntry (popEnd h xs) x)"
    using L a l popOne_all(2) [OF ne, of h] by (simp add: lmovePop_def Let_def u qk.ListLen_all listEntry_def)
  then show ?thesis using doKey_kv(2) [where fn = "lmovePop P db src h", OF m] by simp
qed

lemma ptr_ok_evict_off: "maxMemory g \<le> 0 \<Longrightarrow> ptr_ok P (maybeEvict P i g) = ptr_ok P g"
  by (rule ptr_ok_eqI) (simp_all add: maybeEvict_off)

text \<open>Phase 1 changes nothing and collects what the two entries say.\<close>

lemma lmovePeek_kv:
  fixes db :: nat and h :: bool
  assumes ord: "sched (groupKeys (ShardIndex P k) [src, dst]) ord" and k: "kbits g = k" and m: "maxMemory g \<le> 0" and p: "ptr_ok P g"
    and ne: "no_empty (kv P g)"
  defines "D \<equiv> doMulti P ord [src, dst] (\<lambda>si. each_idx [src, dst] (lmovePeek P db src dst h si))
    \<lparr>pk_val = [], pk_srcWT = False, pk_dstWT = False, pk_missing = False\<rparr> g"
  shows "kv P (snd D) = kv P g" "maxMemory (snd D) \<le> 0" "ptr_ok P (snd D)"
    "pk_srcWT (fst D) \<longleftrightarrow> isWrong TypeList (kv P g db src)" "pk_missing (fst D) \<longleftrightarrow> kv P g db src = None"
    "pk_dstWT (fst D) \<longleftrightarrow> isWrong TypeList (kv P g db dst)"
    "\<lbrakk>\<not> isWrong TypeList (kv P g db src); kv P g db src \<noteq> None\<rbrakk> \<Longrightarrow> pk_val (fst D) = endOf h (listAt (kv P g db src))"
proof -
  let ?keys = "[src, dst]" and ?se = "kv P g db src"
  let ?I = "\<lambda>S (pk :: lpeek) h'. kv P h' = kv P g \<and> maxMemory h' \<le> 0 \<and> ptr_ok P h' \<and>
    (pk_srcWT pk \<longleftrightarrow> (0::nat) \<in> S \<and> isWrong TypeList ?se) \<and> (pk_missing pk \<longleftrightarrow> 0 \<in> S \<and> ?se = None) \<and>
    (pk_dstWT pk \<longleftrightarrow> 1 \<in> S \<and> isWrong TypeList (kv P g db dst)) \<and>
    (0 \<in> S \<longrightarrow> \<not> isWrong TypeList ?se \<longrightarrow> ?se \<noteq> None \<longrightarrow> pk_val pk = endOf h (listAt ?se))"
  have "?I {..<length ?keys} (fst D) (snd D)"
    unfolding D_def
  proof (rule doMulti_rule [where I = ?I, OF ord k])
    fix S i and pk :: lpeek and h'
    assume I: "?I S pk h'" and i: "i < length ?keys"
    let ?si = "ShardIndex P k (?keys ! i)"
    let ?x = "if i = 0 then src else dst"
    obtain r wt g1 where G: "getColl P ?si h' db ?x TypeList = ((r, wt), g1)" by (cases "getColl P ?si h' db ?x TypeList") auto
    have I0: "kv P h' = kv P g" "ptr_ok P h'" "maxMemory h' \<le> 0" using I by auto
    note K = getColl_kv [OF G I0(2), unfolded I0(1)]
    have wt: "wt \<longleftrightarrow> isWrong TypeList (kv P g db ?x)" using K(6) by (simp add: isWrong_def)
    have val: "(case (if h then ListPeekHead (PQ P) l else ListPeekTail (PQ P) l) of Some s \<Rightarrow> s | None \<Rightarrow> []) = endOf h (listAt (kv P g db ?x))"
      if "r = Some a" "l = listOf P (Val (ents g1 a))" for a l
    proof -
      note A = K(8) [OF that(1)]
      obtain l' where l': "Val (ents g1 a) = VList l'" using A by (cases "Val (ents g1 a)") auto
      have "ListAll (PQ P) l' \<noteq> []" using ne A l' unfolding no_empty_def by (metis absv_simps(3) full_simps(3))
      then show ?thesis using A l' that(2) by (auto simp: qk.ListPeek_all endOf_def listAt_def split: list.split)
    qed
    show "?I (insert i S) (fst (lmovePeek P db src dst h ?si i (?keys ! i) pk h')) (snd (lmovePeek P db src dst h ?si i (?keys ! i) pk h'))"
    proof (cases "i = 0")
      case True
      then have G0: "getColl P ?si h' db src TypeList = ((r, wt), g1)" using G by simp
      show ?thesis
      proof (cases r)
        case None
        then show ?thesis using I K(1,2,4,7) wt G0 True by (auto simp: lmovePeek_def)
      next
        case (Some a)
        have "\<not> wt" "?se \<noteq> None" using K(8) [OF Some] True by auto
        then show ?thesis using I K(1,2,4) wt G0 True Some val [OF Some HOL.refl] by (auto simp: lmovePeek_def Let_def)
      qed
    next
      case False
      then have "i = 1" using i by simp
      then show ?thesis using I K(1,2,4) wt G by (auto simp: lmovePeek_def)
    qed
  next
    fix S :: "nat set" and pk :: lpeek and h' si assume "?I S pk h'"
    then show "?I S pk (maybeEvict P si h')" by (simp add: ptr_ok_evict_off)
  qed (use m p in auto)
  then show "kv P (snd D) = kv P g" "maxMemory (snd D) \<le> 0" "ptr_ok P (snd D)"
    "pk_srcWT (fst D) \<longleftrightarrow> isWrong TypeList (kv P g db src)" "pk_missing (fst D) \<longleftrightarrow> kv P g db src = None"
    "pk_dstWT (fst D) \<longleftrightarrow> isWrong TypeList (kv P g db dst)"
    "\<lbrakk>\<not> isWrong TypeList (kv P g db src); kv P g db src \<noteq> None\<rbrakk> \<Longrightarrow> pk_val (fst D) = endOf h (listAt (kv P g db src))"
    by auto
qed

section \<open>The handlers are sequences of steps\<close>

lemma acts_look:
  assumes "db < maxDBs g"
  shows "acts P k g (snd (getColl P (ShardIndex P k key) g db key t))"
  using getColl_facts(1) [where key = key and t = t, OF _ assms] by (cases "getColl P (ShardIndex P k key) g db key t") auto

lemma lmovePeek_acts:
  assumes "sched (groupKeys (ShardIndex P k) [src, dst]) ord" "kbits g = k" "db < maxDBs g"
  shows "acts P k g (snd (doMulti P ord [src, dst] (\<lambda>si. each_idx [src, dst] (lmovePeek P db src dst h si)) pk g))"
proof (rule acts_doMulti [OF assms])
  fix i and acc :: lpeek and h' :: "('q, 'z, 't, 'h, 'l, 'f) st"
  assume "i < length [src, dst]" "db < maxDBs h'"
  then show "acts P k h' (snd (lmovePeek P db src dst h (ShardIndex P k ([src, dst] ! i)) i ([src, dst] ! i) acc h'))"
    using acts_look [of db h' src TypeList] acts_look [of db h' dst TypeList]
    by (cases i) (auto simp: lmovePeek_def split_beta Let_def)
qed

lemma lmove_task_acts:
  assumes "db < maxDBs g"
  shows "acts P k g (snd (lmovePush P db key h v (ShardIndex P k key) g))"
    "acts P k g (snd (lmovePop P db key h (ShardIndex P k key) g))"
    "acts P k g (snd (lmoveSameTask P db key h h' (ShardIndex P k key) (getColl P (ShardIndex P k key) g db key TypeList)))"
proof -
  let ?i = "ShardIndex P k key"
  obtain r wt g1 where L: "getColl P ?i g db key TypeList = ((r, wt), g1)" by (cases "getColl P ?i g db key TypeList") auto
  note F = getColl_facts [OF L assms]
  have v: "value_ok P (Val (ents g1 a)) \<Longrightarrow> list_inv (PQ P) (listOf P (Val (ents g1 a)))" if "r = Some a" for a
    using F(7) [OF that] by (auto elim: list_cases)
  have I: "list_inv (PQ P) l \<Longrightarrow> list_inv (PQ P) (pushOne (PQ P) b l x)" "list_inv (PQ P) l \<Longrightarrow> list_inv (PQ P) (snd (popOne (PQ P) l b))" for l b x
    by (simp_all add: pushOne_def popOne_def qk.ListPush_inv qk.ListPop_inv)
  show "acts P k g (snd (lmovePush P db key h v ?i g))"
    using F v I assms L qk.list_inv_New
    by (cases r) (auto simp: lmovePush_def split_beta Let_def intro!: acts_WakeWaiter acts_notify acts_fill acts_update)
  show "acts P k g (snd (lmoveSameTask P db key h h' ?i (getColl P ?i g db key TypeList)))"
    using F v I assms unfolding L
    by (cases r) (auto simp: lmoveSameTask_def split_beta Let_def intro!: acts_WakeWaiter acts_notify acts_update)
  obtain r' g2 where L': "Lookup P ?i g db key = (r', g2)" by (cases "Lookup P ?i g db key")
  note F' = Lookup_facts [OF L' assms]
  have v': "typeOf (Val (ents g2 a)) = TypeList \<Longrightarrow> value_ok P (Val (ents g2 a)) \<Longrightarrow> list_inv (PQ P) (listOf P (Val (ents g2 a)))" for a
    by (auto elim: list_cases)
  show "acts P k g (snd (lmovePop P db key h ?i g))"
    using F' v' I assms L'
    by (cases r') (auto simp: lmovePop_def split_beta Let_def intro!: acts_WakeWaiter acts_notify acts_Delete acts_update)
qed

lemma lmove_acts:
  assumes "sched (groupKeys (ShardIndex P k) [src, dst]) ord" "kbits g = k" "db < maxDBs g"
  shows "acts P k g (snd (lmoveCmd P ord db src dst h h' g))"
proof (cases "src = dst")
  case True
  then show ?thesis
    using acts_coll [where B = "lmoveSameTask P db src h h'", OF assms(2) lmove_task_acts(3) [OF assms(3)]]
    by (simp add: lmoveCmd_def split_beta Let_def)
next
  case False
  let ?pk = "\<lparr>pk_val = [], pk_srcWT = False, pk_dstWT = False, pk_missing = False\<rparr>"
  let ?D = "doMulti P ord [src, dst] (\<lambda>si. each_idx [src, dst] (lmovePeek P db src dst h si)) ?pk g"
  let ?g1 = "snd ?D"
  let ?g2 = "snd (doKey P dst (lmovePush P db dst h' (pk_val (fst ?D))) ?g1)"
  have 1: "acts P k g ?g1" by (rule lmovePeek_acts [OF assms])
  have c1: "kbits ?g1 = k" "db < maxDBs ?g1" using acts_conf [OF 1] assms(2,3) by auto
  have "acts P k ?g1 ?g2"
    by (rule acts_doKey [where fn = "lmovePush P db dst h' (pk_val (fst ?D))", OF c1(1) lmove_task_acts(1) [OF c1(2)]])
  with 1 have 2: "acts P k g ?g2" by (rule rtranclp_trans)
  have c2: "kbits ?g2 = k" "db < maxDBs ?g2" using acts_conf [OF 2] assms(2,3) by auto
  have "acts P k ?g2 (snd (doKey P src (lmovePop P db src h) ?g2))"
    by (rule acts_doKey [where fn = "lmovePop P db src h", OF c2(1) lmove_task_acts(2) [OF c2(2)]])
  with 2 have "acts P k g (snd (doKey P src (lmovePop P db src h) ?g2))" by (rule rtranclp_trans)
  then show ?thesis using False 1 by (simp add: lmoveCmd_def split_beta Let_def)
qed

section \<open>Moving between two keys\<close>

lemma lmoveCmd_spec:
  assumes ord: "sched (groupKeys (ShardIndex P k) [src, dst]) ord" and inv: "db_inv P k g" "evict_safe P g" "db < maxDBs g"
    and m: "maxMemory g \<le> 0" and ne: "no_empty (kv P g)" and neq: "src \<noteq> dst"
    and spec: "lmoveSpec h h' (kv P g db src) (kv P g db dst) = (r, se, de)"
  shows "fst (lmoveCmd P ord db src dst h h' g) = r"
    "kv P (snd (lmoveCmd P ord db src dst h h' g)) = kvupd (kvupd (kv P g) db dst de) db src se"
proof -
  let ?D = "doMulti P ord [src, dst] (\<lambda>si. each_idx [src, dst] (lmovePeek P db src dst h si))
    \<lparr>pk_val = [], pk_srcWT = False, pk_dstWT = False, pk_missing = False\<rparr> g"
  let ?g1 = "snd ?D" and ?v = "pk_val (fst ?D)"
  let ?g2 = "snd (doKey P dst (lmovePush P db dst h' ?v) ?g1)"
  let ?se = "kv P g db src" and ?de = "kv P g db dst"
  note pk = lmovePeek_kv [OF ord db_invD(8) [OF inv(1)] m db_invD(7) [OF inv(1)] ne, where db = db and h = h]
  have "fst (lmoveCmd P ord db src dst h h' g) = r \<and>
    kv P (snd (lmoveCmd P ord db src dst h h' g)) = kvupd (kvupd (kv P g) db dst de) db src se"
  proof (cases "isWrong TypeList ?se \<or> ?se = None \<or> isWrong TypeList ?de")
    case True
    then show ?thesis using pk(1,4-6) spec neq by (auto simp: lmoveCmd_def lmoveSpec_def split_beta Let_def split: if_splits)
  next
    case False
    then obtain xs x where se: "?se = Some (AList xs, x)" by (cases ?se) (auto simp: isWrong_def atype_list)
    have xs: "xs \<noteq> []" using ne se unfolding no_empty_def by (metis full_simps(3))
    have v: "?v = endOf h xs" using pk(7) False se by (simp add: listAt_def)
    have 1: "acts P k g ?g1" by (rule lmovePeek_acts [OF ord db_invD(8) [OF inv(1)] inv(3)])
    note inv1 = acts_keep [OF 1 inv(1,2)]
    have c1: "kbits ?g1 = k" "db < maxDBs ?g1" using acts_conf [OF 1] db_invD(8) [OF inv(1)] inv(3) by auto
    have "acts P k ?g1 ?g2"
      by (rule acts_doKey [where fn = "lmovePush P db dst h' ?v", OF c1(1) lmove_task_acts(1) [OF c1(2)]])
    then have inv2: "db_inv P k ?g2" using acts_keep inv1 by blast
    note push = lmovePush_kv [OF pk(3,2), where db = db and dst = dst and h = h' and v = ?v, unfolded pk(1)]
    have src2: "kv P ?g2 db src = Some (AList xs, x)" using push(1) False se neq by (simp add: pk(1))
    note pop = lmovePop_kv [OF db_invD(7) [OF inv2] _ src2 xs, of h]
    have d: "listEntry (pushEnd h' (endOf h xs) (listAt ?de)) (ttlAt ?de) = Some (AList (pushEnd h' (endOf h xs) (listAt ?de)), ttlAt ?de)"
      by (simp add: listEntry_def pushEnd_def)
    show ?thesis
      using False spec neq pk(4-6) push pop se v
      by (auto simp: lmoveCmd_def lmoveSpec_def split_beta Let_def d listAt_list)
  qed
  then show "fst (lmoveCmd P ord db src dst h h' g) = r"
    "kv P (snd (lmoveCmd P ord db src dst h h' g)) = kvupd (kvupd (kv P g) db dst de) db src se" by auto
qed

text \<open>Moving within one key, and LPOS.\<close>

lemma lmoveSame_refines:
  assumes "ptr_ok P g" "maxMemory g \<le> 0" "vals_ok P g" "no_empty (kv P g)"
  shows "refines P db src (listOp (rotateSpec h h')) g (lmoveCmd P ord db src src h h' g)"
proof -
  let ?D = "doKey P src (\<lambda>i g. lmoveSameTask P db src h h' i (getColl P i g db src TypeList)) g"
  have "refines P db src (listOp (rotateSpec h h')) g (fst (fst ?D), snd ?D)"
  proof (rule coll_task_refines [where T = "lmoveSameTask P db src h h'", OF assms as_coll_type(2)], goal_cases)
    case (3 i a g1 c x)
    then obtain l where l: "Val (ents g1 a) = VList l" "c = ListAll (PQ P) l" "c \<noteq> []" by (auto elim!: list_cases)
    have p: "popOne (PQ P) l h = (Some (endOf h c), snd (popOne (PQ P) l h))" "ListAll (PQ P) (snd (popOne (PQ P) l h)) = popEnd h c"
      using popOne_all [of l h] l(2,3) by simp_all
    obtain l1 where l1: "popOne (PQ P) l h = (Some (endOf h c), l1)" "ListAll (PQ P) l1 = popEnd h c" using p by (metis snd_conv)
    have "pushEnd h' v xs \<noteq> []" for v :: string and xs by (simp add: pushEnd_def)
    then show ?case using 3(2,9) l(1,3) l1 by (simp add: lmoveSameTask_def rotateSpec_def Let_def pushOne_all blobOf_def)
  qed (auto simp: lmoveSameTask_def rotateSpec_def)
  then show ?thesis by (simp add: lmoveCmd_def split_beta Let_def)
qed

lemma lpos_refines:
  assumes "ptr_ok P g" "maxMemory g \<le> 0" "vals_ok P g" "no_empty (kv P g)"
    "lpos_opts (drop 3 args) \<lparr>lp_rank = 1, lp_count = -1, lp_maxlen = 0\<rparr> = Inr p"
    "lp_rank p \<noteq> 0" "MinInt64 < lp_rank p" "is_i64 (lp_rank p)"
  shows "refines P db (args ! 1) (listOp (\<lambda>xs. (lposReply (args ! 2) p xs, xs))) g (cmdLPos P db args g)"
proof -
  have nil: "lposSpec [] e p = []" for e by (simp add: lposSpec_def)
  note M = lposMatches_spec [OF assms(6-8)]
  show ?thesis
    unfolding refines_def cmdLPos_def assms(5) sum.case Let_def
    by (rule doKey_coll [where Q = "\<lambda>r K. r = _ \<and> K = _", OF assms(1-4)])
      (auto simp: collOp_def lposReply_def M nil Let_def elim!: list_cases)
qed

lemma lpos_acts:
  assumes "kbits g = k" "db < maxDBs g"
  shows "acts P k g (snd (cmdLPos P db args g))"
proof (cases "lpos_opts (drop 3 args) \<lparr>lp_rank = 1, lp_count = -1, lp_maxlen = 0\<rparr>")
  case (Inr p)
  show ?thesis unfolding cmdLPos_def Inr sum.case Let_def
    by (rule acts_getColl [OF assms]) (simp split: prod.split option.split)
qed (simp add: cmdLPos_def)

end

end
