(* ===== verification/Cmd_Set.thy ===== *)
theory Cmd_Set
  imports Cmd_Move
begin

text \<open>
  The set commands (\<^verbatim>\<open>src/lib/commands/set.go\<close>) except SRANDMEMBER. Two things are not determined
  by the program and are parameters: the order in which Go ranges over a map, \<open>iter n\<close> for the
  n-th such loop of a handler, and the random positions SPOP draws. The theorems hold for every
  order that enumerates a finite set and for every draw within its documented range.
\<close>

section \<open>Single-key commands\<close>

type_synonym iteration = "nat \<Rightarrow> string set \<Rightarrow> string list"

fun sadd_loop :: "gset \<Rightarrow> int \<Rightarrow> string list \<Rightarrow> int \<times> gset" where
  "sadd_loop s n [] = (n, s)"
| "sadd_loop s n (m # ms) = (let (new, s1) = SetAdd s m in sadd_loop s1 (if new then n + 1 else n) ms)"

fun srem_loop :: "gset \<Rightarrow> int \<Rightarrow> string list \<Rightarrow> int \<times> gset" where
  "srem_loop s n [] = (n, s)"
| "srem_loop s n (m # ms) = (let (ok, s1) = SetRemove s m in srem_loop s1 (if ok then n + 1 else n) ms)"

definition saddTask :: "('q, 'z, 't, 'h, 'l, 'f) packages \<Rightarrow> nat \<Rightarrow> string \<Rightarrow> string list \<Rightarrow> nat \<Rightarrow> (addr option \<times> bool) \<times> ('q, 'z, 't, 'h, 'l, 'f) st \<Rightarrow> (rv \<times> int) \<times> ('q, 'z, 't, 'h, 'l, 'f) st" where
  "saddTask P db key ms i look =
     (let ((ent, wt), g1) = look
      in if wt then ((errWrongType, 0), g1)
         else
           (case ent of
              None \<Rightarrow>
                let (a, g2) = storeColl P i g1 db key (VSet NewSet);
                    (n, s) = sadd_loop NewSet 0 ms
                in ((RInt n, n), setVal a (VSet s) g2)
            | Some a \<Rightarrow>
                let (n, s) = sadd_loop (setOf (Val (ents g1 a))) 0 ms;
                    g2 = setVal a (VSet s) g1
                in ((RInt n, n), if 0 < n then Touch P i g2 db key a else g2)))"

definition cmdSAdd :: "('q, 'z, 't, 'h, 'l, 'f) packages \<Rightarrow> nat \<Rightarrow> string list \<Rightarrow> ('q, 'z, 't, 'h, 'l, 'f) st \<Rightarrow> rv \<times> ('q, 'z, 't, 'h, 'l, 'f) st" where
  "cmdSAdd P db args g =
     (let key = args ! 1;
          ((reply, n), g1) = doKey P key (\<lambda>i g. saddTask P db key (drop 2 args) i (getColl P i g db key TypeSet)) g
      in (reply, if 0 < n then notify db key ''sadd'' g1 else g1))"

definition sremTask :: "('q, 'z, 't, 'h, 'l, 'f) packages \<Rightarrow> nat \<Rightarrow> string \<Rightarrow> string list \<Rightarrow> nat \<Rightarrow> (addr option \<times> bool) \<times> ('q, 'z, 't, 'h, 'l, 'f) st \<Rightarrow> (rv \<times> int \<times> bool) \<times> ('q, 'z, 't, 'h, 'l, 'f) st" where
  "sremTask P db key ms i look =
     (let ((ent, wt), g1) = look
      in if wt then ((errWrongType, 0, False), g1)
         else
           (case ent of
              None \<Rightarrow> ((RInt 0, 0, False), g1)
            | Some a \<Rightarrow>
                let (n, s) = srem_loop (setOf (Val (ents g1 a))) 0 ms;
                    g2 = setVal a (VSet s) g1;
                    g3 = (if 0 < n then Touch P i g2 db key a else g2)
                in if SetLen s = 0 then ((RInt n, n, True), snd (Delete P i g3 db key)) else ((RInt n, n, False), g3)))"

definition cmdSRem :: "('q, 'z, 't, 'h, 'l, 'f) packages \<Rightarrow> nat \<Rightarrow> string list \<Rightarrow> ('q, 'z, 't, 'h, 'l, 'f) st \<Rightarrow> rv \<times> ('q, 'z, 't, 'h, 'l, 'f) st" where
  "cmdSRem P db args g =
     (let key = args ! 1;
          ((reply, n, deleted), g1) = doKey P key (\<lambda>i g. sremTask P db key (drop 2 args) i (getColl P i g db key TypeSet)) g
      in (reply, notifyDel db key ''srem'' (0 < n) deleted g1))"

definition cmdSMembers :: "('q, 'z, 't, 'h, 'l, 'f) packages \<Rightarrow> iteration \<Rightarrow> nat \<Rightarrow> string list \<Rightarrow> ('q, 'z, 't, 'h, 'l, 'f) st \<Rightarrow> rv \<times> ('q, 'z, 't, 'h, 'l, 'f) st" where
  "cmdSMembers P iter db args g =
     (let key = args ! 1
      in doKey P key (\<lambda>i g.
           let ((ent, wt), g1) = getColl P i g db key TypeSet
           in if wt then (errWrongType, g1)
              else (RSet (case ent of None \<Rightarrow> [] | Some a \<Rightarrow> map RBlob (SetMembers (iter 0) (setOf (Val (ents g1 a))))), g1)) g)"

definition cmdSIsMember :: "('q, 'z, 't, 'h, 'l, 'f) packages \<Rightarrow> nat \<Rightarrow> string list \<Rightarrow> ('q, 'z, 't, 'h, 'l, 'f) st \<Rightarrow> rv \<times> ('q, 'z, 't, 'h, 'l, 'f) st" where
  "cmdSIsMember P db args g =
     (let key = args ! 1; m = args ! 2
      in doKey P key (\<lambda>i g.
           let ((ent, wt), g1) = getColl P i g db key TypeSet
           in if wt then (errWrongType, g1)
              else (case ent of None \<Rightarrow> (RInt 0, g1) | Some a \<Rightarrow> (RInt (boolInt (SetContains (setOf (Val (ents g1 a))) m)), g1))) g)"

definition cmdSMIsMember :: "('q, 'z, 't, 'h, 'l, 'f) packages \<Rightarrow> nat \<Rightarrow> string list \<Rightarrow> ('q, 'z, 't, 'h, 'l, 'f) st \<Rightarrow> rv \<times> ('q, 'z, 't, 'h, 'l, 'f) st" where
  "cmdSMIsMember P db args g =
     (let key = args ! 1
      in doKey P key (\<lambda>i g.
           let ((ent, wt), g1) = getColl P i g db key TypeSet
           in if wt then (errWrongType, g1)
              else
                (RArr (map (\<lambda>m. RInt (boolInt (case ent of None \<Rightarrow> False | Some a \<Rightarrow> SetContains (setOf (Val (ents g1 a))) m)))
                         (drop 2 args)), g1)) g)"

definition cmdSCard :: "('q, 'z, 't, 'h, 'l, 'f) packages \<Rightarrow> nat \<Rightarrow> string list \<Rightarrow> ('q, 'z, 't, 'h, 'l, 'f) st \<Rightarrow> rv \<times> ('q, 'z, 't, 'h, 'l, 'f) st" where
  "cmdSCard P db args g =
     (let key = args ! 1
      in doKey P key (\<lambda>i g.
           let ((ent, wt), g1) = getColl P i g db key TypeSet
           in if wt then (errWrongType, g1)
              else (case ent of None \<Rightarrow> (RInt 0, g1) | Some a \<Rightarrow> (RInt (int (SetLen (setOf (Val (ents g1 a))))), g1))) g)"

text \<open>SPOP: \<open>rnd\<close> is the value of \<^verbatim>\<open>rand.IntN(st.Len())\<close>, \<open>perm\<close> that of \<^verbatim>\<open>rand.Perm(len(members))\<close>.\<close>

fun spop_loop :: "gset \<Rightarrow> string list \<Rightarrow> nat list \<Rightarrow> rv list \<Rightarrow> rv list \<times> gset" where
  "spop_loop s members [] out = (out, s)"
| "spop_loop s members (i # is) out = spop_loop (snd (SetRemove s (members ! i))) members is (out @ [RBlob (members ! i)])"

definition spopTask ::
  "('q, 'z, 't, 'h, 'l, 'f) packages \<Rightarrow> iteration \<Rightarrow> nat \<Rightarrow> (nat \<Rightarrow> nat list) \<Rightarrow> nat \<Rightarrow> string \<Rightarrow> int option \<Rightarrow> nat \<Rightarrow> (addr option \<times> bool) \<times> ('q, 'z, 't, 'h, 'l, 'f) st \<Rightarrow> (rv \<times> bool \<times> bool) \<times> ('q, 'z, 't, 'h, 'l, 'f) st" where
  "spopTask P iter rnd perm db key cnt i look =
     (let ((ent, wt), g1) = look
      in if wt then ((errWrongType, False, False), g1)
         else
           (case ent of
              None \<Rightarrow> ((if cnt = None then RNull else RSet [], False, False), g1)
            | Some a \<Rightarrow>
                let s = setOf (Val (ents g1 a)); members = SetMembers (iter 0) s
                in case cnt of
                     None \<Rightarrow>
                       let m = members ! rnd; s1 = snd (SetRemove s m); g2 = Touch P i (setVal a (VSet s1) g1) db key a
                       in if SetLen s1 = 0 then ((RBlob m, True, True), snd (Delete P i g2 db key)) else ((RBlob m, True, False), g2)
                   | Some c \<Rightarrow>
                       if \<not> 0 < c then ((RSet [], False, False), g1)
                       else if int (length members) \<le> c
                         then ((RSet (map RBlob members), True, True), snd (Delete P i g1 db key))
                       else
                         let (out, s1) = spop_loop s members (take (nat c) (perm (length members))) []
                         in ((RSet out, True, False), Touch P i (setVal a (VSet s1) g1) db key a)))"

definition cmdSPop :: "('q, 'z, 't, 'h, 'l, 'f) packages \<Rightarrow> iteration \<Rightarrow> nat \<Rightarrow> (nat \<Rightarrow> nat list) \<Rightarrow> nat \<Rightarrow> string list \<Rightarrow> ('q, 'z, 't, 'h, 'l, 'f) st \<Rightarrow> rv \<times> ('q, 'z, 't, 'h, 'l, 'f) st" where
  "cmdSPop P iter rnd perm db args g =
     (if 3 < length args then (errArity ''spop'', g)
      else
        let run = (\<lambda>cnt. let key = args ! 1;
                     ((reply, popped, deleted), g1) = doKey P key (\<lambda>i g. spopTask P iter rnd perm db key cnt i (getColl P i g db key TypeSet)) g
                   in (reply, notifyDel db key ''spop'' popped deleted g1))
        in if length args = 3 then
             (case parseIntStrict (args ! 2) of
                None \<Rightarrow> (errNotPositive, g)
              | Some v \<Rightarrow> if v < 0 then (errNotPositive, g) else run (Some v))
           else run None)"

section \<open>Set algebra\<close>

text \<open>A snapshot: the members of a key, or \<open>None\<close> when the key does not exist (\<^verbatim>\<open>present\<close>).\<close>

type_synonym setSnapshot = "string list option"

definition snapTask ::
  "('q, 'z, 't, 'h, 'l, 'f) packages \<Rightarrow> iteration \<Rightarrow> nat \<Rightarrow> nat \<Rightarrow> nat \<Rightarrow> string \<Rightarrow> setSnapshot list \<times> bool list \<Rightarrow> ('q, 'z, 't, 'h, 'l, 'f) st \<Rightarrow> (setSnapshot list \<times> bool list) \<times> ('q, 'z, 't, 'h, 'l, 'f) st" where
  "snapTask P iter db si i key acc g =
     (let ((ent, w), g1) = getColl P si g db key TypeSet; (snaps, wt) = acc
      in (if w then (snaps, wt[i := True])
          else case ent of None \<Rightarrow> acc | Some a \<Rightarrow> (snaps[i := Some (SetMembers (iter i) (setOf (Val (ents g1 a))))], wt), g1))"

definition snapshotSets ::
  "('q, 'z, 't, 'h, 'l, 'f) packages \<Rightarrow> nat list \<Rightarrow> iteration \<Rightarrow> nat \<Rightarrow> string list \<Rightarrow> ('q, 'z, 't, 'h, 'l, 'f) st \<Rightarrow> setSnapshot list option \<times> ('q, 'z, 't, 'h, 'l, 'f) st" where
  "snapshotSets P ord iter db keys g =
     (let ((snaps, wt), g1) = doMulti P ord keys (\<lambda>si. each_idx keys (snapTask P iter db si))
                                (replicate (length keys) None, replicate (length keys) False) g
      in (if True \<in> set wt then None else Some snaps, g1))"

definition snMembers :: "setSnapshot \<Rightarrow> string list" where
  "snMembers sn = (case sn of None \<Rightarrow> [] | Some ms \<Rightarrow> ms)"

text \<open>The first of the smallest inputs.\<close>

fun base_loop :: "setSnapshot list \<Rightarrow> nat \<Rightarrow> nat \<Rightarrow> setSnapshot list \<Rightarrow> nat" where
  "base_loop snaps i base [] = base"
| "base_loop snaps i base (sn # rest) =
     base_loop snaps (Suc i) (if length (snMembers sn) < length (snMembers (snaps ! base)) then i else base) rest"

fun add_all :: "gset \<Rightarrow> string list \<Rightarrow> gset" where
  "add_all s [] = s"
| "add_all s (m # ms) = add_all (snd (SetAdd s m)) ms"

definition intersect :: "(string set \<Rightarrow> string list) \<Rightarrow> setSnapshot list \<Rightarrow> string list" where
  "intersect iter snaps =
     (if None \<in> set snaps \<or> snaps = [] then []
      else
        let base = base_loop snaps 0 0 snaps;
            others = map (\<lambda>i. set (snMembers (snaps ! i))) (filter (\<lambda>i. i \<noteq> base) [0..<length snaps])
        in SetMembers iter (add_all NewSet (filter (\<lambda>m. \<forall>others_i \<in> set others. m \<in> others_i) (snMembers (snaps ! base)))))"

definition unionAll :: "(string set \<Rightarrow> string list) \<Rightarrow> setSnapshot list \<Rightarrow> string list" where
  "unionAll iter snaps = SetMembers iter (add_all NewSet (concat (map snMembers snaps)))"

definition diffAll :: "(string set \<Rightarrow> string list) \<Rightarrow> setSnapshot list \<Rightarrow> string list" where
  "diffAll iter snaps =
     (case snaps of
        Some ms # rest \<Rightarrow>
          let gone = set (concat (map snMembers rest))
          in SetMembers iter (add_all NewSet (filter (\<lambda>m. m \<notin> gone) ms))
      | _ \<Rightarrow> [])"

definition setReply :: "string list \<Rightarrow> rv" where
  "setReply members = RSet (map RBlob members)"

definition algebraCmd ::
  "((string set \<Rightarrow> string list) \<Rightarrow> setSnapshot list \<Rightarrow> string list) \<Rightarrow>
     ('q, 'z, 't, 'h, 'l, 'f) packages \<Rightarrow> nat list \<Rightarrow> iteration \<Rightarrow> nat \<Rightarrow> string list \<Rightarrow> ('q, 'z, 't, 'h, 'l, 'f) st \<Rightarrow> rv \<times> ('q, 'z, 't, 'h, 'l, 'f) st" where
  "algebraCmd f P ord iter db keys g =
     (case snapshotSets P ord iter db keys g of
        (None, g1) \<Rightarrow> (errWrongType, g1)
      | (Some snaps, g1) \<Rightarrow> (setReply (f (iter (length keys)) snaps), g1))"

definition cmdSInter :: "('q, 'z, 't, 'h, 'l, 'f) packages \<Rightarrow> nat list \<Rightarrow> iteration \<Rightarrow> nat \<Rightarrow> string list \<Rightarrow> ('q, 'z, 't, 'h, 'l, 'f) st \<Rightarrow> rv \<times> ('q, 'z, 't, 'h, 'l, 'f) st" where
  "cmdSInter P ord iter db args g = algebraCmd intersect P ord iter db (tl args) g"

definition cmdSUnion :: "('q, 'z, 't, 'h, 'l, 'f) packages \<Rightarrow> nat list \<Rightarrow> iteration \<Rightarrow> nat \<Rightarrow> string list \<Rightarrow> ('q, 'z, 't, 'h, 'l, 'f) st \<Rightarrow> rv \<times> ('q, 'z, 't, 'h, 'l, 'f) st" where
  "cmdSUnion P ord iter db args g = algebraCmd unionAll P ord iter db (tl args) g"

definition cmdSDiff :: "('q, 'z, 't, 'h, 'l, 'f) packages \<Rightarrow> nat list \<Rightarrow> iteration \<Rightarrow> nat \<Rightarrow> string list \<Rightarrow> ('q, 'z, 't, 'h, 'l, 'f) st \<Rightarrow> rv \<times> ('q, 'z, 't, 'h, 'l, 'f) st" where
  "cmdSDiff P ord iter db args g = algebraCmd diffAll P ord iter db (tl args) g"

definition storeSetTask :: "('q, 'z, 't, 'h, 'l, 'f) packages \<Rightarrow> nat \<Rightarrow> string \<Rightarrow> string list \<Rightarrow> nat \<Rightarrow> ('q, 'z, 't, 'h, 'l, 'f) st \<Rightarrow> bool \<times> ('q, 'z, 't, 'h, 'l, 'f) st" where
  "storeSetTask P db dest members i g =
     (if members = [] then Delete P i g db dest
      else (False, snd (storeColl P i g db dest (VSet (add_all NewSet members)))))"

definition storeSetResult :: "('q, 'z, 't, 'h, 'l, 'f) packages \<Rightarrow> nat \<Rightarrow> string \<Rightarrow> string list \<Rightarrow> string \<Rightarrow> ('q, 'z, 't, 'h, 'l, 'f) st \<Rightarrow> rv \<times> ('q, 'z, 't, 'h, 'l, 'f) st" where
  "storeSetResult P db dest members event g =
     (let (deleted, g1) = doKey P dest (storeSetTask P db dest members) g
      in (RInt (int (length members)),
          if members \<noteq> [] then notify db dest event g1 else if deleted then notify db dest ''del'' g1 else g1))"

definition algebraStore ::
  "((string set \<Rightarrow> string list) \<Rightarrow> setSnapshot list \<Rightarrow> string list) \<Rightarrow> string \<Rightarrow>
     ('q, 'z, 't, 'h, 'l, 'f) packages \<Rightarrow> nat list \<Rightarrow> iteration \<Rightarrow> nat \<Rightarrow> string list \<Rightarrow> ('q, 'z, 't, 'h, 'l, 'f) st \<Rightarrow> rv \<times> ('q, 'z, 't, 'h, 'l, 'f) st" where
  "algebraStore f event P ord iter db args g =
     (let keys = drop 2 args
      in case snapshotSets P ord iter db keys g of
           (None, g1) \<Rightarrow> (errWrongType, g1)
         | (Some snaps, g1) \<Rightarrow> storeSetResult P db (args ! 1) (f (iter (length keys)) snaps) event g1)"

definition cmdSInterStore :: "('q, 'z, 't, 'h, 'l, 'f) packages \<Rightarrow> nat list \<Rightarrow> iteration \<Rightarrow> nat \<Rightarrow> string list \<Rightarrow> ('q, 'z, 't, 'h, 'l, 'f) st \<Rightarrow> rv \<times> ('q, 'z, 't, 'h, 'l, 'f) st" where
  "cmdSInterStore P ord iter db args g = algebraStore intersect ''sinterstore'' P ord iter db args g"

definition cmdSUnionStore :: "('q, 'z, 't, 'h, 'l, 'f) packages \<Rightarrow> nat list \<Rightarrow> iteration \<Rightarrow> nat \<Rightarrow> string list \<Rightarrow> ('q, 'z, 't, 'h, 'l, 'f) st \<Rightarrow> rv \<times> ('q, 'z, 't, 'h, 'l, 'f) st" where
  "cmdSUnionStore P ord iter db args g = algebraStore unionAll ''sunionstore'' P ord iter db args g"

definition cmdSDiffStore :: "('q, 'z, 't, 'h, 'l, 'f) packages \<Rightarrow> nat list \<Rightarrow> iteration \<Rightarrow> nat \<Rightarrow> string list \<Rightarrow> ('q, 'z, 't, 'h, 'l, 'f) st \<Rightarrow> rv \<times> ('q, 'z, 't, 'h, 'l, 'f) st" where
  "cmdSDiffStore P ord iter db args g = algebraStore diffAll ''sdiffstore'' P ord iter db args g"

definition cmdSInterCard :: "('q, 'z, 't, 'h, 'l, 'f) packages \<Rightarrow> nat list \<Rightarrow> iteration \<Rightarrow> nat \<Rightarrow> string list \<Rightarrow> ('q, 'z, 't, 'h, 'l, 'f) st \<Rightarrow> rv \<times> ('q, 'z, 't, 'h, 'l, 'f) st" where
  "cmdSInterCard P ord iter db args g =
     (case parseIntStrict (args ! 1) of
        None \<Rightarrow> (RErr ''ERR numkeys should be greater than 0'', g)
      | Some numkeys \<Rightarrow>
          if numkeys \<le> 0 then (RErr ''ERR numkeys should be greater than 0'', g)
          else if int (length args) - 2 < numkeys
            then (RErr (''ERR Number of keys can'' @ quote @ ''t be greater than number of args''), g)
          else
            let n = nat numkeys; keys = take n (drop 2 args); rest = drop (2 + n) args;
                run = (\<lambda>limit.
                  case snapshotSets P ord iter db keys g of
                    (None, g1) \<Rightarrow> (errWrongType, g1)
                  | (Some snaps, g1) \<Rightarrow>
                      let n = int (length (intersect (iter (length keys)) snaps))
                      in (RInt (if 0 < limit \<and> limit < n then limit else n), g1))
            in if rest = [] then run 0
               else if length rest \<noteq> 2 \<or> lowerASCII (rest ! 0) \<noteq> ''limit'' then (errSyntax, g)
               else
                 (case parseIntStrict (rest ! 1) of
                    None \<Rightarrow> (RErr (''ERR LIMIT can'' @ quote @ ''t be negative''), g)
                  | Some v \<Rightarrow> if v < 0 then (RErr (''ERR LIMIT can'' @ quote @ ''t be negative''), g) else run v))"

section \<open>SMOVE\<close>

definition smoveCheck ::
  "('q, 'z, 't, 'h, 'l, 'f) packages \<Rightarrow> nat \<Rightarrow> string \<Rightarrow> string \<Rightarrow> string \<Rightarrow> nat \<Rightarrow> nat \<Rightarrow> string \<Rightarrow> bool \<times> bool \<times> bool \<Rightarrow> ('q, 'z, 't, 'h, 'l, 'f) st \<Rightarrow> (bool \<times> bool \<times> bool) \<times> ('q, 'z, 't, 'h, 'l, 'f) st" where
  "smoveCheck P db src dst m si i key acc g =
     (let (srcWT, dstWT, found) = acc
      in if i = 0 then
           let ((ent, wt), g1) = getColl P si g db src TypeSet
           in (if wt then (True, dstWT, found)
               else case ent of None \<Rightarrow> acc | Some a \<Rightarrow> (srcWT, dstWT, SetContains (setOf (Val (ents g1 a))) m), g1)
         else
           let ((ent, wt), g1) = getColl P si g db dst TypeSet
           in (if wt then (srcWT, True, found) else acc, g1))"

definition smoveWrite ::
  "('q, 'z, 't, 'h, 'l, 'f) packages \<Rightarrow> nat \<Rightarrow> string \<Rightarrow> string \<Rightarrow> string \<Rightarrow> nat \<Rightarrow> nat \<Rightarrow> string \<Rightarrow> bool \<times> bool \<Rightarrow> ('q, 'z, 't, 'h, 'l, 'f) st \<Rightarrow> (bool \<times> bool) \<times> ('q, 'z, 't, 'h, 'l, 'f) st" where
  "smoveWrite P db src dst m si i key acc g =
     (let (srcDeleted, dstAdded) = acc
      in if i = 0 then
           let (r, g1) = Lookup P si g db src
           in case r of
                None \<Rightarrow> (acc, g1)
              | Some a \<Rightarrow>
                  if typeOf (Val (ents g1 a)) \<noteq> TypeSet then (acc, g1)
                  else
                    let s = snd (SetRemove (setOf (Val (ents g1 a))) m);
                        g2 = Touch P si (setVal a (VSet s) g1) db src a
                    in if SetLen s = 0 then ((True, dstAdded), snd (Delete P si g2 db src)) else (acc, g2)
         else
           let ((ent, wt), g1) = getColl P si g db dst TypeSet
           in case ent of
                None \<Rightarrow>
                  let (a, g2) = storeColl P si g1 db dst (VSet NewSet); (added, s) = SetAdd NewSet m
                  in ((srcDeleted, added), setVal a (VSet s) g2)
              | Some a \<Rightarrow>
                  let (added, s) = SetAdd (setOf (Val (ents g1 a))) m
                  in ((srcDeleted, added), Touch P si (setVal a (VSet s) g1) db dst a))"

text \<open>The two fan-outs may be scheduled differently: \<open>ord\<close> and \<open>ord'\<close>.\<close>

definition cmdSMove :: "('q, 'z, 't, 'h, 'l, 'f) packages \<Rightarrow> nat list \<Rightarrow> nat list \<Rightarrow> nat \<Rightarrow> string list \<Rightarrow> ('q, 'z, 't, 'h, 'l, 'f) st \<Rightarrow> rv \<times> ('q, 'z, 't, 'h, 'l, 'f) st" where
  "cmdSMove P ord ord' db args g =
     (let src = args ! 1; dst = args ! 2; m = args ! 3
      in if src = dst then
           doKey P src (\<lambda>i g.
             let ((ent, wt), g1) = getColl P i g db src TypeSet
             in if wt then (errWrongType, g1)
                else (case ent of None \<Rightarrow> (RInt 0, g1) | Some a \<Rightarrow> (RInt (boolInt (SetContains (setOf (Val (ents g1 a))) m)), g1))) g
         else
           let keys = [src, dst];
               ((srcWT, dstWT, found), g1) = doMulti P ord keys (\<lambda>si. each_idx keys (smoveCheck P db src dst m si)) (False, False, False) g
           in if srcWT then (errWrongType, g1)
              else if \<not> found then (RInt 0, g1)
              else if dstWT then (errWrongType, g1)
              else
                let ((srcDeleted, dstAdded), g2) = doMulti P ord' keys (\<lambda>si. each_idx keys (smoveWrite P db src dst m si)) (False, False) g1;
                    g3 = notify db src ''srem'' g2;
                    g4 = (if srcDeleted then notify db src ''del'' g3 else g3)
                in (RInt 1, if dstAdded then notify db dst ''sadd'' g4 else g4))"

section \<open>The loops\<close>

lemma sadd_loop_eq: "sadd_loop s n ms = (n + fst (count_loop SetAdd s ms), snd (count_loop SetAdd s ms))"
  by (induction ms arbitrary: s n) (auto simp: split_beta)

lemma srem_loop_eq: "srem_loop s n ms = (n + fst (count_loop SetRemove s ms), snd (count_loop SetRemove s ms))"
  by (induction ms arbitrary: s n) (auto simp: split_beta)

lemma add_all_eq: "add_all s ms = snd (count_loop SetAdd s ms)"
  by (induction ms arbitrary: s) (auto simp: split_beta)

lemma srem_count:
  assumes "set_inv s" "\<And>m. m \<in> set ms \<Longrightarrow> canonical_member m"
  shows "fst (count_loop SetRemove s ms) = int (card (set ms \<inter> set_elems s))"
  using assms
proof (induction ms arbitrary: s)
  case (Cons m ms)
  let ?s = "snd (SetRemove s m)"
  have m: "canonical_member m" using Cons.prems(2) by simp
  have "fst (count_loop SetRemove ?s ms) = int (card (set ms \<inter> set_elems ?s))"
    using Cons.prems by (intro Cons.IH) (auto simp: SetRemove_inv)
  then have IH: "fst (count_loop SetRemove ?s ms) = int (card (set ms \<inter> (set_elems s - {m})))"
    using SetRemove_elems(1) [OF Cons.prems(1) m] by simp
  have "insert m (set ms) \<inter> set_elems s = (if m \<in> set_elems s then insert m (set ms \<inter> (set_elems s - {m})) else set ms \<inter> (set_elems s - {m}))"
    by auto
  then have "card (insert m (set ms) \<inter> set_elems s) = (if m \<in> set_elems s then 1 else 0) + card (set ms \<inter> (set_elems s - {m}))"
    by simp
  then show ?case using IH SetRemove_elems(2) [OF Cons.prems(1) m] by simp
qed simp

text \<open>A member the set itself enumerates needs no assumption on its syntax.\<close>

lemma SetRemove_member:
  assumes "set_inv s" "m \<in> set_elems s"
  shows "set_elems (snd (SetRemove s m)) = set_elems s - {m}"
proof (cases "isInt s")
  case True
  then obtain v where v: "m = FormatInt v" "v \<in> set (ints s)" using assms(2) by (auto simp: set_elems_def)
  then have "is_i64 v" using assms(1) True by (auto simp: set_inv_def)
  then have "canonical_member m" using v ParseInt64_FormatInt by (simp add: canonical_member_def)
  then show ?thesis by (rule SetRemove_elems(1) [OF assms(1)])
next
  case False
  then show ?thesis using assms by (auto simp: SetRemove_def set_elems_def)
qed

lemma spop_loop_spec:
  assumes "set_inv s" "distinct (map ((!) members) is)" "\<forall>i \<in> set is. members ! i \<in> set_elems s"
  shows "fst (spop_loop s members is out) = out @ map (\<lambda>i. RBlob (members ! i)) is \<and>
    set_inv (snd (spop_loop s members is out)) \<and>
    set_elems (snd (spop_loop s members is out)) = set_elems s - (!) members ` set is"
  using assms
proof (induction "is" arbitrary: s out)
  case (Cons i "is")
  let ?s = "snd (SetRemove s (members ! i))"
  have e: "set_elems ?s = set_elems s - {members ! i}" using Cons.prems by (intro SetRemove_member) auto
  have "fst (spop_loop ?s members is (out @ [RBlob (members ! i)])) = (out @ [RBlob (members ! i)]) @ map (\<lambda>i. RBlob (members ! i)) is \<and>
    set_inv (snd (spop_loop ?s members is (out @ [RBlob (members ! i)]))) \<and>
    set_elems (snd (spop_loop ?s members is (out @ [RBlob (members ! i)]))) = set_elems ?s - (!) members ` set is"
  proof (rule Cons.IH)
    show "\<forall>i \<in> set is. members ! i \<in> set_elems ?s" using Cons.prems(2,3) unfolding e by (auto simp: image_iff)
  qed (use Cons.prems in \<open>auto simp: SetRemove_inv\<close>)
  then show ?case by (auto simp: e)
qed simp

lemma spop_loop_inv: "set_inv s \<Longrightarrow> set_inv (snd (spop_loop s members is out))"
  by (induction "is" arbitrary: s out) (simp_all add: SetRemove_inv)

text \<open>Set algebra on the snapshots.\<close>

lemma add_all_spec:
  assumes "\<forall>m \<in> set ms. canonical_member m"
  shows "set_inv (add_all NewSet ms)" "set_elems (add_all NewSet ms) = set ms"
  using assms gs.add_all_elems [OF NewSet_inv, of ms] gs.add_all_inv [OF NewSet_inv, of ms]
  by (simp_all add: add_all_eq NewSet_elems)

lemma base_loop_bound: "base < length snaps \<Longrightarrow> i + length rest \<le> length snaps \<Longrightarrow> base_loop snaps i base rest < length snaps"
  by (induction rest arbitrary: i base) auto

definition snSets :: "setSnapshot list \<Rightarrow> string set list" where
  "snSets snaps = map (\<lambda>sn. set (snMembers sn)) snaps"

lemma intersect_spec:
  assumes "enumerates iter" "\<forall>S \<in> set (snSets snaps). \<forall>m \<in> S. canonical_member m" "snaps \<noteq> []"
  shows "distinct (intersect iter snaps)" "set (intersect iter snaps) = \<Inter> (set (snSets snaps))"
proof -
  let ?b = "base_loop snaps 0 0 snaps"
  let ?O = "map (\<lambda>i. set (snMembers (snaps ! i))) (filter (\<lambda>i. i \<noteq> ?b) [0..<length snaps])"
  let ?F = "filter (\<lambda>m. \<forall>o' \<in> set ?O. m \<in> o') (snMembers (snaps ! ?b))"
  have b: "?b < length snaps" using base_loop_bound [of 0 snaps 0 snaps] assms(3) by simp
  have all: "set (snSets snaps) = insert (set (snMembers (snaps ! ?b))) (set ?O)"
  proof -
    have "set snaps = (!) snaps ` {..<length snaps}" by (auto simp: set_conv_nth)
    then have "set (snSets snaps) = (\<lambda>i. set (snMembers (snaps ! i))) ` {..<length snaps}"
      by (simp add: snSets_def image_image)
    moreover have "{..<length snaps} = insert ?b (set (filter (\<lambda>i. i \<noteq> ?b) [0..<length snaps]))" using b by auto
    ultimately show ?thesis by simp
  qed
  have F: "set ?F = \<Inter> (set (snSets snaps))" unfolding all by auto
  have c: "\<forall>m \<in> set ?F. canonical_member m" using assms(2) b by (auto simp: snSets_def)
  note A = add_all_spec [OF c]
  have none: "\<Inter> (set (snSets snaps)) = {}" if "None \<in> set snaps"
    using that by (auto simp: snSets_def snMembers_def)
  show "distinct (intersect iter snaps)"
    using SetMembers_elems(2) [OF A(1) assms(1)] assms(3) by (simp add: intersect_def Let_def)
  show "set (intersect iter snaps) = \<Inter> (set (snSets snaps))"
    using SetMembers_elems(1) [OF A(1) assms(1)] A(2) F none assms(3) unfolding intersect_def Let_def by (simp only: if_split) auto
qed

lemma unionAll_spec:
  assumes "enumerates iter" "\<forall>S \<in> set (snSets snaps). \<forall>m \<in> S. canonical_member m"
  shows "distinct (unionAll iter snaps)" "set (unionAll iter snaps) = \<Union> (set (snSets snaps))"
proof -
  have c: "\<forall>m \<in> set (concat (map snMembers snaps)). canonical_member m" using assms(2) by (auto simp: snSets_def)
  note A = add_all_spec [OF c]
  show "distinct (unionAll iter snaps)" "set (unionAll iter snaps) = \<Union> (set (snSets snaps))"
    using SetMembers_elems [OF A(1) assms(1)] A(2) by (simp_all add: unionAll_def snSets_def)
qed

lemma diffAll_spec:
  assumes "enumerates iter" "\<forall>S \<in> set (snSets snaps). \<forall>m \<in> S. canonical_member m" "snaps \<noteq> []"
  shows "distinct (diffAll iter snaps)" "set (diffAll iter snaps) = hd (snSets snaps) - \<Union> (set (tl (snSets snaps)))"
proof -
  obtain sn rest where sn: "snaps = sn # rest" using assms(3) by (cases snaps) auto
  have "distinct (diffAll iter snaps) \<and> set (diffAll iter snaps) = hd (snSets snaps) - \<Union> (set (tl (snSets snaps)))"
  proof (cases sn)
    case (Some ms)
    have c: "\<forall>m \<in> set (filter (\<lambda>m. m \<notin> set (concat (map snMembers rest))) ms). canonical_member m"
      using assms(2) sn Some by (auto simp: snSets_def snMembers_def)
    note A = add_all_spec [OF c]
    show ?thesis
      using SetMembers_elems [OF A(1) assms(1)] A(2) unfolding sn Some diffAll_def list.case option.case Let_def
      by (auto simp: snSets_def snMembers_def)
  qed (simp add: sn diffAll_def snSets_def snMembers_def)
  then show "distinct (diffAll iter snaps)" "set (diffAll iter snaps) = hd (snSets snaps) - \<Union> (set (tl (snSets snaps)))" by auto
qed

text \<open>What the three operations compute, as a function of the sets of the keys.\<close>

definition computes :: "((string set \<Rightarrow> string list) \<Rightarrow> setSnapshot list \<Rightarrow> string list) \<Rightarrow> (string set list \<Rightarrow> string set) \<Rightarrow> bool" where
  "computes f F \<longleftrightarrow> (\<forall>iter snaps. enumerates iter \<longrightarrow> snaps \<noteq> [] \<longrightarrow> (\<forall>S \<in> set (snSets snaps). \<forall>m \<in> S. canonical_member m) \<longrightarrow>
     distinct (f iter snaps) \<and> set (f iter snaps) = F (snSets snaps))"

lemma computes_algebra:
  "computes intersect (\<lambda>Ss. \<Inter> (set Ss))" "computes unionAll (\<lambda>Ss. \<Union> (set Ss))" "computes diffAll (\<lambda>Ss. hd Ss - \<Union> (set (tl Ss)))"
  by (simp_all add: computes_def intersect_spec unionAll_spec diffAll_spec)

section \<open>The handlers meet their specifications\<close>

definition saddSpec :: "string list \<Rightarrow> string set \<Rightarrow> rv \<times> string set" where
  "saddSpec ms S = (RInt (int (card (set ms - S))), S \<union> set ms)"

definition sremSpec :: "string list \<Rightarrow> string set \<Rightarrow> rv \<times> string set" where
  "sremSpec ms S = (RInt (int (card (set ms \<inter> S))), S - set ms)"

definition setAt :: "kentry \<Rightarrow> string set" where
  "setAt e = (case e of Some (ASet S, _) \<Rightarrow> S | _ \<Rightarrow> {})"

text \<open>SPOP takes away the members it answers.\<close>

definition spopSpec :: "bool \<Rightarrow> string list \<Rightarrow> string set \<Rightarrow> rv \<times> string set" where
  "spopSpec single ms S =
     (if single then (case ms of m # _ \<Rightarrow> RBlob m | [] \<Rightarrow> RNull, S - set ms) else (RSet (map RBlob ms), S - set ms))"

text \<open>SMOVE on the entries of two different keys: the reply and the two new entries.\<close>

definition setEntry :: "string set \<Rightarrow> int \<Rightarrow> kentry" where
  "setEntry S x = (if S = {} then None else Some (ASet S, x))"

definition smoveSpec :: "string \<Rightarrow> kentry \<Rightarrow> kentry \<Rightarrow> rv \<times> kentry \<times> kentry" where
  "smoveSpec m se de =
     (if isWrong TypeSet se then (errWrongType, se, de)
      else if m \<notin> setAt se then (RInt 0, se, de)
      else if isWrong TypeSet de then (errWrongType, se, de)
      else (RInt 1, setEntry (setAt se - {m}) (ttlAt se), setEntry (insert m (setAt de)) (ttlAt de)))"

context pluto_laws
begin

lemma value_ok_set [simp]: "value_ok P (VSet s) = set_inv s"
  by (simp add: value_ok_def)

lemma set_cases:
  assumes "typeOf v = TypeSet" "value_ok P v"
  obtains s where "v = VSet s" "set_inv s"
  using assms by (cases v) auto

lemma set_read_refines:
  assumes "ptr_ok P g" "maxMemory g \<le> 0" "vals_ok P g" "no_empty (kv P g)"
  shows "refines P db (args ! 1) (setOp (\<lambda>S. (RInt (int (card S)), S))) g (cmdSCard P db args g)"
    "canonical_member (args ! 2) \<Longrightarrow>
       refines P db (args ! 1) (setOp (\<lambda>S. (RInt (boolInt (args ! 2 \<in> S)), S))) g (cmdSIsMember P db args g)"
    "\<forall>m \<in> set (drop 2 args). canonical_member m \<Longrightarrow>
       refines P db (args ! 1) (setOp (\<lambda>S. (RArr (map (\<lambda>m. RInt (boolInt (m \<in> S))) (drop 2 args)), S))) g (cmdSMIsMember P db args g)"
  unfolding refines_def cmdSCard_def cmdSIsMember_def cmdSMIsMember_def Let_def
  by (rule doKey_coll [where Q = "\<lambda>r K. r = _ \<and> K = _", OF assms];
      auto simp: collOp_def SetLen_card SetContains_elems boolInt_def elim!: set_cases)+

lemma setAt_simps [simp]: "setAt None = {}" "setAt (Some (ASet S, x)) = S" "typeOf v \<noteq> TypeSet \<Longrightarrow> setAt (Some (absv P v, x)) = {}"
  by (cases v; simp add: setAt_def)+

lemma smembers_refines:
  assumes "ptr_ok P g" "maxMemory g \<le> 0" "vals_ok P g" "no_empty (kv P g)" "enumerates (iter 0)"
  shows "\<exists>ms. distinct ms \<and> set ms = setAt (kv P g db (args ! 1)) \<and>
    refines P db (args ! 1) (setOp (\<lambda>S. (RSet (map RBlob ms), S))) g (cmdSMembers P iter db args g)"
  unfolding refines_def cmdSMembers_def Let_def
proof (rule doKey_coll [where Q = "\<lambda>r K. \<exists>ms. distinct ms \<and> set ms = _ \<and> r = _ ms \<and> K = _ ms", OF assms(1-4)], goal_cases)
  case (3 i a g1)
  then obtain s where s: "Val (ents g1 a) = VSet s" "set_inv s" by (auto elim!: set_cases)
  show ?case
    using 3(1,4,7,10) s SetMembers_elems [OF s(2) assms(5)]
    by (auto simp: collOp_def intro!: exI [of _ "SetMembers (iter 0) s"])
qed (auto simp: collOp_def intro!: exI [of _ "[]"])

lemma cmdSAdd_refines:
  assumes "ptr_ok P g" "maxMemory g \<le> 0" "vals_ok P g" "no_empty (kv P g)" "\<forall>m \<in> set (drop 2 args). canonical_member m" "3 \<le> length args"
  shows "refines P db (args ! 1) (setOp (saddSpec (drop 2 args))) g (cmdSAdd P db args g)"
proof -
  let ?key = "args ! 1"
  have "refines P db key (setOp (saddSpec ms)) g
    (fst (fst (doKey P key (\<lambda>i g. saddTask P db key ms i (getColl P i g db key TypeSet)) g)),
     snd (doKey P key (\<lambda>i g. saddTask P db key ms i (getColl P i g db key TypeSet)) g))"
    if c: "\<forall>m \<in> set ms. canonical_member m" "ms \<noteq> []" for key ms
  proof (rule coll_task_refines [where T = "saddTask P db key ms", OF assms(1-4) as_coll_type(3)], goal_cases)
    case (1 i g1)
    then show ?case
      using c gs.add_all_elems [OF NewSet_inv, of ms] gs.add_all_count [OF NewSet_inv, of ms]
      by (auto simp: saddTask_def saddSpec_def split_beta Let_def sadd_loop_eq kv_fill NewSet_elems)
  next
    case (3 i a g1 D x)
    then obtain s where s: "Val (ents g1 a) = VSet s" "D = set_elems s" "set_inv s" "D \<noteq> {}" by (auto elim!: set_cases)
    then show ?case
      using 3(2,8,9) c(1) gs.add_all_elems [OF s(3), of ms] gs.add_all_count [OF s(3), of ms]
      by (auto simp: saddTask_def saddSpec_def split_beta Let_def sadd_loop_eq)
  qed (simp add: saddTask_def)
  then show ?thesis using assms(5,6) by (simp add: refines_def cmdSAdd_def split_beta Let_def)
qed

lemma cmdSRem_refines:
  assumes "ptr_ok P g" "maxMemory g \<le> 0" "vals_ok P g" "no_empty (kv P g)" "\<forall>m \<in> set (drop 2 args). canonical_member m"
  shows "refines P db (args ! 1) (setOp (sremSpec (drop 2 args))) g (cmdSRem P db args g)"
proof -
  have "refines P db key (setOp (sremSpec ms)) g
    (fst (fst (doKey P key (\<lambda>i g. sremTask P db key ms i (getColl P i g db key TypeSet)) g)),
     snd (doKey P key (\<lambda>i g. sremTask P db key ms i (getColl P i g db key TypeSet)) g))"
    if c: "\<forall>m \<in> set ms. canonical_member m" for key ms
  proof (rule coll_task_refines [where T = "sremTask P db key ms", OF assms(1-4) as_coll_type(3)], goal_cases)
    case (3 i a g1 D x)
    then obtain s where s: "Val (ents g1 a) = VSet s" "D = set_elems s" "set_inv s" by (auto elim!: set_cases)
    let ?s = "snd (count_loop SetRemove s ms)"
    have "set_elems ?s = D - set ms" "set_inv ?s" using gs.remove_all_elems [OF s(3), of ms] gs.remove_all_inv [OF s(3)] c s(2) by auto
    moreover from this have "SetLen ?s = 0 \<longleftrightarrow> D - set ms = {}" using SetLen_card finite_set_elems by (metis card_eq_0_iff)
    moreover have "fst (count_loop SetRemove s ms) = int (card (set ms \<inter> D))" using srem_count [OF s(3)] c s(2) by simp
    ultimately show ?case
      using 3(2,8,9) s(1) by (auto simp: sremTask_def sremSpec_def split_beta Let_def srem_loop_eq)
  qed (auto simp: sremTask_def sremSpec_def)
  then show ?thesis using assms(5) by (simp add: refines_def cmdSRem_def split_beta Let_def)
qed

text \<open>
  SPOP: for every draw the generator may make, it answers that many distinct members (all of
  them when there are no more), and exactly those leave the set.
\<close>

lemma spopTask_refines:
  fixes key :: string and db :: nat
  assumes "ptr_ok P g" "maxMemory g \<le> 0" "vals_ok P g" "no_empty (kv P g)" "enumerates (iter 0)"
    and rnd: "kv P g db key \<noteq> None \<Longrightarrow> rnd < card (setAt (kv P g db key))"
    and perm: "\<And>n. distinct (perm n) \<and> set (perm n) = {..<n}" and cnt: "\<And>c. cnt = Some c \<Longrightarrow> 0 \<le> c"
  defines "D \<equiv> doKey P key (\<lambda>i g. spopTask P iter rnd perm db key cnt i (getColl P i g db key TypeSet)) g"
  defines "want \<equiv> (case cnt of None \<Rightarrow> 1 | Some c \<Rightarrow> nat c)"
  shows "\<exists>ms. distinct ms \<and> set ms \<subseteq> setAt (kv P g db key) \<and> length ms = min want (card (setAt (kv P g db key))) \<and>
    fst (fst D) = fst (setOp (spopSpec (cnt = None) ms) (NowMs g) (kv P g db key)) \<and>
    kv P (snd D) = kvupd (kv P g) db key (snd (setOp (spopSpec (cnt = None) ms) (NowMs g) (kv P g db key)))"
  unfolding D_def
proof (rule doKey_coll [where Q = "\<lambda>r K. \<exists>ms. distinct ms \<and> set ms \<subseteq> _ \<and> length ms = _ \<and> fst r = _ ms \<and> K = _ ms"
      and B = "spopTask P iter rnd perm db key cnt", OF assms(1-4)], goal_cases)
  case (3 i a g1)
  then obtain s where s: "Val (ents g1 a) = VSet s" "set_inv s" "set_elems s \<noteq> {}" by (auto elim!: set_cases)
  let ?S = "set_elems s" and ?M = "SetMembers (iter 0) s" and ?x = "ExpireAtMs (ents g1 a)"
  note M = SetMembers_elems [OF s(2) assms(5)]
  have e: "kv P g db key = Some (ASet ?S, ?x)" using 3(7) s(1) by simp
  have len: "length ?M = card ?S" using distinct_card [OF M(2)] M(1) by simp
  have spec: "setOp (spopSpec b ms) (NowMs g) (kv P g db key) =
      (fst (spopSpec b ms ?S), if ?S - set ms = {} then None else Some (ASet (?S - set ms), ?x))" for b ms
    by (simp add: e collOp_def spopSpec_def)
  have u: "kv P (Touch P i (setVal a v g1) db key a) = kvupd (kv P g) db key (Some (absv P v, ?x))" for v
    using kv_update [OF 3(2,5)] 3(1,3,6) by simp
  show ?case
  proof (cases cnt)
    case None
    let ?m = "?M ! rnd" and ?s = "snd (SetRemove s (?M ! rnd))"
    have m: "?m \<in> ?S" using rnd e len M(1) nth_mem [of rnd ?M] by simp
    have es: "set_elems ?s = ?S - {?m}" "SetLen ?s = 0 \<longleftrightarrow> ?S - {?m} = {}"
      using SetRemove_member [OF s(2) m] SetLen_card [OF SetRemove_inv [OF s(2)]] finite_set_elems [OF s(2)]
      by (auto simp: card_eq_0_iff)
    have "1 \<le> card ?S" using s(3) finite_set_elems [OF s(2)] by (simp add: Suc_leI card_gt_0_iff)
    moreover have "spopTask P iter rnd perm db key cnt i ((Some a, False), g1) =
        (let g2 = Touch P i (setVal a (VSet ?s) g1) db key a
         in if ?S - {?m} = {} then ((RBlob ?m, True, True), snd (Delete P i g2 db key)) else ((RBlob ?m, True, False), g2))"
      using es(2) None s(1) by (simp add: spopTask_def Let_def)
    ultimately show ?thesis
      using m es(1) 3(4) None unfolding spec
      by (intro conjI exI [of _ "[?m]"]) (simp_all add: e spopSpec_def want_def Let_def u)
  next
    case (Some c)
    consider "c = 0" | "0 < c" "int (length ?M) \<le> c" | "0 < c" "c < int (length ?M)" using cnt [OF Some] by linarith
    then show ?thesis
    proof cases
      case 1
      then show ?thesis
        using 3(1,4) Some s(3) unfolding spec by (intro conjI exI [of _ "[]"]) (auto simp: e spopSpec_def spopTask_def want_def)
    next
      case 2
      then show ?thesis
        using 3(1,4) Some s M len unfolding spec by (intro conjI exI [of _ ?M]) (auto simp: e spopSpec_def spopTask_def want_def min_def)
    next
      case c3: 3
      let ?is = "take (nat c) (perm (length ?M))"
      let ?ms = "map ((!) ?M) ?is"
      have is_: "distinct ?is" "\<forall>j \<in> set ?is. j < length ?M"
        using perm [of "length ?M"] by (auto dest: in_set_takeD)
      have "length (perm (length ?M)) = length ?M" using perm [of "length ?M"] distinct_card by (metis card_lessThan)
      then have l: "length ?ms = nat c" "nat c < card ?S" using c3 len by auto
      have d: "distinct ?ms" using is_ M(2) by (auto simp: distinct_map inj_on_def nth_eq_iff_index_eq)
      have sub: "set ?ms \<subseteq> ?S" using is_(2) M(1) by (auto intro: nth_mem)
      obtain out s1 where p: "spop_loop s ?M ?is [] = (out, s1)" by (cases "spop_loop s ?M ?is []")
      have o: "out = map RBlob ?ms" "set_elems s1 = ?S - set ?ms"
        using spop_loop_spec [OF s(2) d, of "[]"] sub p by (auto simp: comp_def)
      have "?S - set ?ms \<noteq> {}"
        using l d finite_set_elems [OF s(2)] by (metis Diff_eq_empty_iff card_mono distinct_card finite_set le_antisym nat_less_le)
      moreover have "spopTask P iter rnd perm db key cnt i ((Some a, False), g1) =
          ((RSet out, True, False), Touch P i (setVal a (VSet s1) g1) db key a)"
        using c3 p s(1) Some by (simp add: spopTask_def Let_def)
      ultimately show ?thesis
        using d sub l o 3(4) Some unfolding spec by (intro conjI exI [of _ ?ms]) (simp_all add: e spopSpec_def want_def u min_def)
    qed
  qed
qed (auto simp: spopTask_def collOp_def spopSpec_def want_def intro!: exI [of _ "[]"])

lemma setAt_wrong: "isWrong TypeSet e \<Longrightarrow> setAt e = {}"
proof -
  assume "isWrong TypeSet e"
  then obtain v x where "e = Some (v, x)" "atype v \<noteq> TypeSet" by (auto simp: isWrong_def)
  then show ?thesis by (cases v) (simp_all add: setAt_def atype_def)
qed

lemma vals_ok_getColl:
  assumes "getColl P i g db key t = ((r, wt), g1)" "vals_ok P g"
  shows "vals_ok P g1"
proof -
  have "g1 = snd (Lookup P i g db key)" using assms(1) by (simp add: getColl_eq Let_def)
  then show ?thesis
    using assms(2) by (cases rule: Lookup_cases [of g db key i]) (auto simp: vals_ok_def view_expireEntry vupd_def split: if_splits)
qed

lemma vals_ok_evict_off: "maxMemory g \<le> 0 \<Longrightarrow> vals_ok P (maybeEvict P i g) = vals_ok P g"
  by (simp add: vals_ok_def maybeEvict_off)

lemma cmdSPop_refines:
  assumes "ptr_ok P g" "maxMemory g \<le> 0" "vals_ok P g" "no_empty (kv P g)" "enumerates (iter 0)"
    and "kv P g db (args ! 1) \<noteq> None \<Longrightarrow> rnd < card (setAt (kv P g db (args ! 1)))"
    and "\<And>n. distinct (perm n) \<and> set (perm n) = {..<n}"
    and cnt: "length args = 2 \<and> cnt = None \<or> length args = 3 \<and> cnt = parseIntStrict (args ! 2) \<and> cnt \<noteq> None \<and> 0 \<le> the cnt"
  defines "want \<equiv> (case cnt of None \<Rightarrow> 1 | Some c \<Rightarrow> nat c)"
  shows "\<exists>ms. distinct ms \<and> set ms \<subseteq> setAt (kv P g db (args ! 1)) \<and>
    length ms = min want (card (setAt (kv P g db (args ! 1)))) \<and>
    refines P db (args ! 1) (setOp (spopSpec (cnt = None) ms)) g (cmdSPop P iter rnd perm db args g)"
proof -
  have pos: "\<And>c. cnt = Some c \<Longrightarrow> 0 \<le> c" using cnt by auto
  note T = spopTask_refines [where key = "args ! 1" and db = db and cnt = cnt and perm = perm and rnd = rnd and iter = iter and g = g, OF assms(1-7) pos]
  have run: "cmdSPop P iter rnd perm db args g =
      (let D = doKey P (args ! 1) (\<lambda>i g. spopTask P iter rnd perm db (args ! 1) cnt i (getColl P i g db (args ! 1) TypeSet)) g
       in (fst (fst D), notifyDel db (args ! 1) ''spop'' (fst (snd (fst D))) (snd (snd (fst D))) (snd D)))"
    using cnt by (auto simp: cmdSPop_def split_beta Let_def)
  show ?thesis using T unfolding run refines_def want_def Let_def fst_conv snd_conv kv_notifyDel by blast
qed

section \<open>Set algebra meets its specification\<close>

text \<open>The snapshots are the sets of the keys, whatever order the shards answer in.\<close>

lemma snapshotSets_spec:
  assumes ord: "sched (groupKeys (ShardIndex P k) keys) ord" and k: "kbits g = k" and m: "maxMemory g \<le> 0" and p: "ptr_ok P g"
    and v: "vals_ok P g" and it: "\<And>i. enumerates (iter i)"
  shows "kv P (snd (snapshotSets P ord iter db keys g)) = kv P g"
    "maxMemory (snd (snapshotSets P ord iter db keys g)) \<le> 0" "ptr_ok P (snd (snapshotSets P ord iter db keys g))"
    "fst (snapshotSets P ord iter db keys g) = None \<longleftrightarrow> (\<exists>key \<in> set keys. isWrong TypeSet (kv P g db key))"
    "fst (snapshotSets P ord iter db keys g) = Some snaps \<Longrightarrow> snSets snaps = map (\<lambda>key. setAt (kv P g db key)) keys"
proof -
  let ?W = "\<lambda>i. isWrong TypeSet (kv P g db (keys ! i))"
  let ?I = "\<lambda>S (acc :: setSnapshot list \<times> bool list) h. kv P h = kv P g \<and> maxMemory h \<le> 0 \<and> ptr_ok P h \<and> vals_ok P h \<and>
    length (fst acc) = length keys \<and> length (snd acc) = length keys \<and>
    (\<forall>i < length keys. (snd acc ! i \<longleftrightarrow> i \<in> S \<and> ?W i) \<and>
      (i \<in> S \<longrightarrow> set (snMembers (fst acc ! i)) = setAt (kv P g db (keys ! i))) \<and> (i \<notin> S \<longrightarrow> fst acc ! i = None))"
  let ?D = "doMulti P ord keys (\<lambda>si. each_idx keys (snapTask P iter db si)) (replicate (length keys) None, replicate (length keys) False) g"
  have I: "?I {..<length keys} (fst ?D) (snd ?D)"
  proof (rule doMulti_rule [where I = ?I, OF ord k])
    fix S i and acc :: "setSnapshot list \<times> bool list" and h
    assume I: "?I S acc h" and i: "i < length keys"
      and fresh: "\<forall>j < length keys. ShardIndex P k (keys ! j) = ShardIndex P k (keys ! i) \<longrightarrow> (j \<in> S \<longleftrightarrow> j < i)"
    let ?si = "ShardIndex P k (keys ! i)" and ?x = "keys ! i"
    have iS: "i \<notin> S" using fresh i by blast
    obtain r wt g1 where G: "getColl P ?si h db ?x TypeSet = ((r, wt), g1)" by (cases "getColl P ?si h db ?x TypeSet") auto
    have h: "kv P h = kv P g" "ptr_ok P h" "maxMemory h \<le> 0" "vals_ok P h" using I by auto
    note K = getColl_kv [OF G h(2), unfolded h(1)]
    have v1: "vals_ok P g1" using vals_ok_getColl [OF G h(4)] .
    have "?I (insert i S) (fst (snapTask P iter db ?si i ?x acc h)) (snd (snapTask P iter db ?si i ?x acc h))"
    proof (cases r)
      case None
      have "setAt (kv P g db ?x) = {}" using K(6,7) None setAt_wrong unfolding isWrong_def by (cases wt) auto
      then show ?thesis
        using I K(1,2,4,6) v1 G None i iS h(3)
        by (auto simp: snapTask_def isWrong_def split_beta nth_list_update snMembers_def)
    next
      case (Some a)
      note A = K(8) [OF Some]
      obtain s where s: "Val (ents g1 a) = VSet s" "set_inv s"
        using A vals_ok_search [OF v1] by (metis set_cases)
      have "set (SetMembers (iter i) s) = setAt (kv P g db ?x)" using SetMembers_elems(1) [OF s(2) it] A s(1) by simp
      moreover have "\<not> ?W i" using A by (auto simp: isWrong_def)
      ultimately show ?thesis
        using I K(1,2,4) v1 G Some A i iS s(1) h(3) by (auto simp: snapTask_def split_beta nth_list_update snMembers_def)
    qed
    then show "?I (insert i S) (fst (snapTask P iter db ?si i ?x acc h)) (snd (snapTask P iter db ?si i ?x acc h))" .
  next
    fix S :: "nat set" and acc :: "setSnapshot list \<times> bool list" and h si assume "?I S acc h"
    then show "?I S acc (maybeEvict P si h)" by (simp add: ptr_ok_evict_off vals_ok_evict_off)
  qed (use m p v in auto)
  have "True \<in> set (snd (fst ?D)) \<longleftrightarrow> (\<exists>i < length keys. ?W i)" using I by (auto simp: in_set_conv_nth)
  then have "True \<in> set (snd (fst ?D)) \<longleftrightarrow> (\<exists>key \<in> set keys. isWrong TypeSet (kv P g db key))"
    unfolding in_set_conv_nth Bex_def by blast
  then show "fst (snapshotSets P ord iter db keys g) = None \<longleftrightarrow> (\<exists>key \<in> set keys. isWrong TypeSet (kv P g db key))"
    by (simp add: snapshotSets_def split_beta Let_def)
  show "kv P (snd (snapshotSets P ord iter db keys g)) = kv P g"
    "maxMemory (snd (snapshotSets P ord iter db keys g)) \<le> 0" "ptr_ok P (snd (snapshotSets P ord iter db keys g))"
    using I by (simp_all add: snapshotSets_def split_beta Let_def)
  show "snSets snaps = map (\<lambda>key. setAt (kv P g db key)) keys" if "fst (snapshotSets P ord iter db keys g) = Some snaps"
    using I that by (auto simp: snapshotSets_def split_beta Let_def snSets_def list_eq_iff_nth_eq split: if_splits)
qed

lemma algebraCmd_wrong:
  assumes "sched (groupKeys (ShardIndex P k) keys) ord" "kbits g = k" "maxMemory g \<le> 0" "ptr_ok P g" "vals_ok P g" "\<And>i. enumerates (iter i)"
    "\<exists>key \<in> set keys. isWrong TypeSet (kv P g db key)"
  shows "fst (algebraCmd f P ord iter db keys g) = errWrongType" "kv P (snd (algebraCmd f P ord iter db keys g)) = kv P g"
  using snapshotSets_spec(1,4) [where db = db and iter = iter, OF assms(1-6)] assms(7)
  by (auto simp: algebraCmd_def split: prod.split option.split)

lemma snapshot_Some:
  assumes "sched (groupKeys (ShardIndex P k) keys) ord" "kbits g = k" "maxMemory g \<le> 0" "ptr_ok P g" "vals_ok P g" "\<And>i. enumerates (iter i)"
    "\<forall>key \<in> set keys. \<not> isWrong TypeSet (kv P g db key)"
  obtains snaps g1 where "snapshotSets P ord iter db keys g = (Some snaps, g1)" "kv P g1 = kv P g" "ptr_ok P g1" "maxMemory g1 \<le> 0"
    "snSets snaps = map (\<lambda>key. setAt (kv P g db key)) keys"
proof -
  note S = snapshotSets_spec [where db = db and iter = iter, OF assms(1-6)]
  obtain snaps where "fst (snapshotSets P ord iter db keys g) = Some snaps" using S(4) assms(7) by auto
  then show ?thesis using that [of snaps "snd (snapshotSets P ord iter db keys g)"] S by (simp add: prod_eq_iff)
qed

lemma algebraCmd_spec:
  assumes "sched (groupKeys (ShardIndex P k) keys) ord" "kbits g = k" "maxMemory g \<le> 0" "ptr_ok P g" "vals_ok P g" "\<And>i. enumerates (iter i)"
    "\<forall>key \<in> set keys. \<not> isWrong TypeSet (kv P g db key)" "keys \<noteq> []"
    "\<forall>key \<in> set keys. \<forall>m \<in> setAt (kv P g db key). canonical_member m" "computes f F"
  shows "\<exists>ms. distinct ms \<and> set ms = F (map (\<lambda>key. setAt (kv P g db key)) keys) \<and>
    fst (algebraCmd f P ord iter db keys g) = RSet (map RBlob ms) \<and> kv P (snd (algebraCmd f P ord iter db keys g)) = kv P g"
proof -
  obtain snaps g1 where S: "snapshotSets P ord iter db keys g = (Some snaps, g1)" "kv P g1 = kv P g" "ptr_ok P g1" "maxMemory g1 \<le> 0"
    "snSets snaps = map (\<lambda>key. setAt (kv P g db key)) keys"
    by (rule snapshot_Some [OF assms(1-7)])
  have ne: "snaps \<noteq> []" using S(5) assms(8) by (auto simp: snSets_def)
  have c: "\<forall>S \<in> set (snSets snaps). \<forall>m \<in> S. canonical_member m" using S(5) assms(9) by simp
  have "distinct (f (iter (length keys)) snaps) \<and> set (f (iter (length keys)) snaps) = F (snSets snaps)"
    using assms(10) assms(6) ne c unfolding computes_def by blast
  then show ?thesis using S by (auto simp: algebraCmd_def setReply_def)
qed

lemma storeSetResult_kv:
  assumes "ptr_ok P g" "maxMemory g \<le> 0" "\<forall>m \<in> set ms. canonical_member m"
  shows "kv P (snd (storeSetResult P db dest ms ev g)) = kvupd (kv P g) db dest (if ms = [] then None else Some (ASet (set ms), 0))"
proof -
  let ?i = "ShardIndex P (kbits g) dest"
  have m: "maxMemory (snd (storeSetTask P db dest ms ?i g)) \<le> 0" using assms(2) by (simp add: storeSetTask_def)
  have "kv P (snd (storeSetTask P db dest ms ?i g)) = kvupd (kv P g) db dest (if ms = [] then None else Some (ASet (set ms), 0))"
    using assms(1) add_all_spec(2) [OF assms(3)] by (simp add: storeSetTask_def kv_storeColl)
  then show ?thesis
    using doKey_kv(2) [where fn = "storeSetTask P db dest ms", OF m]
    by (cases "ms = []") (simp_all add: storeSetResult_def split_beta Let_def)
qed

lemma algebraStore_spec:
  assumes "sched (groupKeys (ShardIndex P k) (drop 2 args)) ord" "kbits g = k" "maxMemory g \<le> 0" "ptr_ok P g" "vals_ok P g" "\<And>i. enumerates (iter i)"
    "\<forall>key \<in> set (drop 2 args). \<not> isWrong TypeSet (kv P g db key)" "drop 2 args \<noteq> []"
    "\<forall>key \<in> set (drop 2 args). \<forall>m \<in> setAt (kv P g db key). canonical_member m" "computes f F"
    "\<And>Ss m. m \<in> F Ss \<Longrightarrow> Ss \<noteq> [] \<Longrightarrow> m \<in> \<Union> (set Ss)"
  shows "let R = F (map (\<lambda>key. setAt (kv P g db key)) (drop 2 args)); out = algebraStore f ev P ord iter db args g
    in fst out = RInt (int (card R)) \<and> kv P (snd out) = kvupd (kv P g) db (args ! 1) (if R = {} then None else Some (ASet R, 0))"
proof -
  let ?keys = "drop 2 args"
  obtain snaps g1 where S: "snapshotSets P ord iter db ?keys g = (Some snaps, g1)" "kv P g1 = kv P g" "ptr_ok P g1" "maxMemory g1 \<le> 0"
    "snSets snaps = map (\<lambda>key. setAt (kv P g db key)) ?keys"
    by (rule snapshot_Some [OF assms(1-7)])
  have ne: "snaps \<noteq> []" using S(5) assms(8) by (auto simp: snSets_def)
  have c: "\<forall>S \<in> set (snSets snaps). \<forall>m \<in> S. canonical_member m" using S(5) assms(9) by simp
  let ?ms = "f (iter (length ?keys)) snaps"
  have R: "distinct ?ms" "set ?ms = F (snSets snaps)"
    using assms(10) assms(6) ne c unfolding computes_def by blast+
  have "\<forall>m \<in> set ?ms. canonical_member m" using R(2) assms(11) c ne by (force simp: snSets_def)
  from storeSetResult_kv [OF S(3,4) this] 
  have "kv P (snd (algebraStore f ev P ord iter db args g)) = kvupd (kv P g) db (args ! 1) (if ?ms = [] then None else Some (ASet (set ?ms), 0))"
    by (simp add: algebraStore_def S(1,2) Let_def)
  moreover have "fst (algebraStore f ev P ord iter db args g) = RInt (int (length ?ms))"
    by (simp add: algebraStore_def S(1) Let_def storeSetResult_def split_beta)
  ultimately show ?thesis using R S(5) distinct_card [OF R(1)] by (auto simp: Let_def)
qed

section \<open>The handlers are sequences of steps\<close>

lemma setOf_inv: "typeOf (Val e) = TypeSet \<Longrightarrow> value_ok P (Val e) \<Longrightarrow> set_inv (setOf (Val e))"
  by (auto elim: set_cases)

lemma set_task_acts:
  fixes key :: string
  assumes "db < maxDBs g"
  defines "look \<equiv> getColl P (ShardIndex P k key) g db key TypeSet"
  shows "acts P k g (snd (saddTask P db key ms (ShardIndex P k key) look))"
    "acts P k g (snd (sremTask P db key ms (ShardIndex P k key) look))"
    "acts P k g (snd (spopTask P iter rnd perm db key cnt (ShardIndex P k key) look))"
proof -
  let ?i = "ShardIndex P k key"
  obtain r wt g1 where L: "getColl P ?i g db key TypeSet = ((r, wt), g1)" by (cases "getColl P ?i g db key TypeSet") auto
  note F = getColl_facts [OF L assms(1)]
  have v: "value_ok P (Val (ents g1 a)) \<Longrightarrow> set_inv (setOf (Val (ents g1 a)))" if "r = Some a" for a
    using F(7) [OF that] by (rule setOf_inv)
  note I = NewSet_inv gs.add_all_inv gs.remove_all_inv SetRemove_inv spop_loop_inv
  show "acts P k g (snd (saddTask P db key ms ?i look))"
    using F v I assms(1) unfolding look_def L
    by (cases r) (auto simp: saddTask_def split_beta Let_def sadd_loop_eq intro: acts_fill acts_setVal acts_update)
  show "acts P k g (snd (sremTask P db key ms ?i look))"
    using F v I assms(1) unfolding look_def L
    by (cases r) (auto simp: sremTask_def split_beta Let_def srem_loop_eq intro!: acts_Delete acts_setVal acts_update)
  show "acts P k g (snd (spopTask P iter rnd perm db key cnt ?i look))"
    using F v I assms(1) unfolding look_def L
    by (cases r) (auto simp: spopTask_def split_beta Let_def intro!: acts_Delete acts_update split: option.split)
qed

lemma set_write_acts:
  assumes "kbits g = k" "db < maxDBs g"
  shows "acts P k g (snd (cmdSAdd P db args g))" "acts P k g (snd (cmdSRem P db args g))"
    "acts P k g (snd (cmdSPop P iter rnd perm db args g))"
proof -
  note T = set_task_acts [OF assms(2)]
  show "acts P k g (snd (cmdSAdd P db args g))"
    using acts_coll [where B = "saddTask P db key ms" for key ms, OF assms(1) T(1)] by (simp add: cmdSAdd_def split_beta Let_def acts_notify)
  show "acts P k g (snd (cmdSRem P db args g))"
    using acts_coll [where B = "sremTask P db key ms" for key ms, OF assms(1) T(2)] by (simp add: cmdSRem_def split_beta Let_def acts_notifyDel)
  show "acts P k g (snd (cmdSPop P iter rnd perm db args g))"
    using acts_coll [where B = "spopTask P iter rnd perm db key c" for key c, OF assms(1) T(3)]
    by (simp add: cmdSPop_def split_beta Let_def acts_notifyDel split: option.split)
qed

lemma set_read_acts:
  assumes "kbits g = k" "db < maxDBs g"
  shows "acts P k g (snd (cmdSMembers P iter db args g))" "acts P k g (snd (cmdSIsMember P db args g))"
    "acts P k g (snd (cmdSMIsMember P db args g))" "acts P k g (snd (cmdSCard P db args g))"
  unfolding cmdSMembers_def cmdSIsMember_def cmdSMIsMember_def cmdSCard_def Let_def
  by (rule acts_getColl [OF assms]; simp split: prod.split option.split)+

lemma snapshot_acts:
  assumes "sched (groupKeys (ShardIndex P k) keys) ord" "kbits g = k" "db < maxDBs g"
  shows "acts P k g (snd (snapshotSets P ord iter db keys g))"
proof -
  have "acts P k h (snd (snapTask P iter db (ShardIndex P k x) i x acc h))" if "db < maxDBs h" for i x acc h
    using acts_look [OF that, of x TypeSet] by (simp add: snapTask_def split_beta Let_def)
  then show ?thesis
    using acts_doMulti [where f = "snapTask P iter db", OF assms] by (simp add: snapshotSets_def split_beta Let_def)
qed

lemma algebra_acts:
  assumes "kbits g = k" "db < maxDBs g"
  shows "sched (groupKeys (ShardIndex P k) keys) ord \<Longrightarrow> acts P k g (snd (algebraCmd f P ord iter db keys g))"
    "sched (groupKeys (ShardIndex P k) (drop 2 args)) ord \<Longrightarrow> acts P k g (snd (algebraStore f ev P ord iter db args g))"
proof -
  note S = snapshot_acts [OF _ assms]
  show "acts P k g (snd (algebraCmd f P ord iter db keys g))" if "sched (groupKeys (ShardIndex P k) keys) ord"
    using S [OF that, of iter] by (cases "snapshotSets P ord iter db keys g") (auto simp: algebraCmd_def split: option.split)
  show "acts P k g (snd (algebraStore f ev P ord iter db args g))" if o: "sched (groupKeys (ShardIndex P k) (drop 2 args)) ord"
  proof -
    let ?g1 = "snd (snapshotSets P ord iter db (drop 2 args) g)"
    have 1: "acts P k g ?g1" by (rule S [OF o])
    have c: "kbits ?g1 = k" "db < maxDBs ?g1" using acts_conf [OF 1] assms by auto
    have inv: "set_inv (add_all NewSet ms)" for ms using gs.add_all_inv [OF NewSet_inv] by (simp add: add_all_eq)
    have "acts P k ?g1 (snd (storeSetTask P db d ms (ShardIndex P k d) ?g1))" for d ms
      using c(2) inv by (auto simp: storeSetTask_def intro!: acts_Delete acts_storeColl)
    from acts_doKey [where fn = "storeSetTask P db d ms" for d ms, OF c(1) this]
    have "acts P k ?g1 (snd (storeSetResult P db d ms e ?g1))" for d ms e
      by (auto simp: storeSetResult_def split_beta Let_def intro!: acts_notify)
    with 1 have "acts P k g (snd (storeSetResult P db d ms e ?g1))" for d ms e by (rule rtranclp_trans)
    then show ?thesis using 1 by (auto simp: algebraStore_def Let_def split: prod.splits option.splits)
  qed
qed

lemma smove_task_acts:
  assumes "i < length [src, dst]" "db < maxDBs h"
  shows "acts P k h (snd (smoveCheck P db src dst m (ShardIndex P k ([src, dst] ! i)) i x acc h))"
    "acts P k h (snd (smoveWrite P db src dst m (ShardIndex P k ([src, dst] ! i)) i x acc' h))"
proof -
  have i: "i = 0 \<or> i = 1" using assms(1) by auto
  show "acts P k h (snd (smoveCheck P db src dst m (ShardIndex P k ([src, dst] ! i)) i x acc h))"
    using i acts_look [OF assms(2), of src TypeSet] acts_look [OF assms(2), of dst TypeSet]
    by (auto simp: smoveCheck_def split_beta Let_def)
  obtain r g1 where L: "Lookup P (ShardIndex P k src) h db src = (r, g1)" by (cases "Lookup P (ShardIndex P k src) h db src")
  note F = Lookup_facts [OF L assms(2)]
  obtain r' wt g2 where G: "getColl P (ShardIndex P k dst) h db dst TypeSet = ((r', wt), g2)"
    by (cases "getColl P (ShardIndex P k dst) h db dst TypeSet") auto
  note F' = getColl_facts [OF G assms(2)]
  have 0: "acts P k h (snd (smoveWrite P db src dst m (ShardIndex P k src) 0 x acc' h))"
    using F L assms(2)
    by (cases r) (auto simp: smoveWrite_def split_beta Let_def intro!: acts_Delete acts_update SetRemove_inv setOf_inv)
  have 1: "acts P k h (snd (smoveWrite P db src dst m (ShardIndex P k dst) 1 x acc' h))"
    using F' G assms(2)
    by (cases r') (auto simp: smoveWrite_def split_beta Let_def intro!: acts_fill acts_update SetAdd_inv NewSet_inv setOf_inv)
  show "acts P k h (snd (smoveWrite P db src dst m (ShardIndex P k ([src, dst] ! i)) i x acc' h))" using i 0 1 by auto
qed

section \<open>SMOVE between two keys\<close>

lemma smoveCheck_kv:
  fixes db :: nat and m :: string
  assumes ord: "sched (groupKeys (ShardIndex P k) [src, dst]) ord" and inv: "db_inv P k g" "evict_safe P g" "db < maxDBs g"
    and mm: "maxMemory g \<le> 0" and c: "canonical_member m"
  defines "D \<equiv> doMulti P ord [src, dst] (\<lambda>si. each_idx [src, dst] (smoveCheck P db src dst m si)) (False, False, False) g"
  shows "kv P (snd D) = kv P g" "maxMemory (snd D) \<le> 0" "acts P k g (snd D)"
    "fst D = (isWrong TypeSet (kv P g db src), isWrong TypeSet (kv P g db dst), m \<in> setAt (kv P g db src))"
proof -
  let ?keys = "[src, dst]" and ?se = "kv P g db src" and ?de = "kv P g db dst"
  let ?I = "\<lambda>S (acc :: bool \<times> bool \<times> bool) h. kv P h = kv P g \<and> maxMemory h \<le> 0 \<and> acts P k g h \<and>
    acc = ((0::nat) \<in> S \<and> isWrong TypeSet ?se, 1 \<in> S \<and> isWrong TypeSet ?de, 0 \<in> S \<and> m \<in> setAt ?se)"
  have "?I {..<length ?keys} (fst D) (snd D)"
    unfolding D_def
  proof (rule doMulti_rule [where I = ?I, OF ord db_invD(8) [OF inv(1)]])
    fix S i and acc :: "bool \<times> bool \<times> bool" and h
    assume I: "?I S acc h" and i: "i < length ?keys"
    let ?x = "if i = 0 then src else dst"
    let ?si = "ShardIndex P k (?keys ! i)"
    have h: "kv P h = kv P g" "acts P k g h" "maxMemory h \<le> 0" using I by auto
    have dbi: "db_inv P k h" "db < maxDBs h" using acts_keep [OF h(2) inv(1,2)] inv(3) by auto
    obtain r wt g1 where G: "getColl P ?si h db ?x TypeSet = ((r, wt), g1)" by (cases "getColl P ?si h db ?x TypeSet") auto
    note K = getColl_kv [OF G db_invD(7) [OF dbi(1)], unfolded h(1)]
    have wt: "wt \<longleftrightarrow> isWrong TypeSet (kv P g db ?x)" using K(6) by (simp add: isWrong_def)
    have none: "setAt (kv P g db ?x) = {}" if "r = None"
      using K(7) wt that setAt_wrong [of "kv P g db ?x"] by (cases wt) auto
    have some: "SetContains (setOf (Val (ents g1 a))) m \<longleftrightarrow> m \<in> setAt (kv P g db ?x)" if "r = Some a" for a
    proof -
      note A = K(8) [OF that]
      obtain s where s: "Val (ents g1 a) = VSet s" "set_inv s"
        using A vals_ok_search [OF vals_ok_getColl [OF G db_invD(3) [OF dbi(1)]]] by (metis set_cases)
      then show ?thesis using A SetContains_elems [OF s(2) c] by simp
    qed
    have "acts P k g (snd (smoveCheck P db src dst m ?si i (?keys ! i) acc h))"
      using rtranclp_trans [OF h(2) smove_task_acts(1) [OF i dbi(2)]] .
    moreover have "i = 0 \<or> i = 1" using i by auto
    ultimately show "?I (insert i S) (fst (smoveCheck P db src dst m ?si i (?keys ! i) acc h)) (snd (smoveCheck P db src dst m ?si i (?keys ! i) acc h))"
      using I G K(1,4) wt none some K(8) by (cases r) (auto simp: smoveCheck_def split_beta Let_def)
  next
    fix S :: "nat set" and acc :: "bool \<times> bool \<times> bool" and h si assume "?I S acc h"
    then show "?I S acc (maybeEvict P si h)" by (simp add: acts_maybeEvict)
  qed (use mm in auto)
  then show "kv P (snd D) = kv P g" "maxMemory (snd D) \<le> 0" "acts P k g (snd D)"
    "fst D = (isWrong TypeSet ?se, isWrong TypeSet ?de, m \<in> setAt ?se)" by auto
qed

lemma wrong_set: "\<not> isWrong TypeSet (Some (absv P v, x)) \<Longrightarrow> \<exists>s. v = VSet s"
  by (cases v) (auto simp: isWrong_def atype_def)

lemma smoveWrite_src:
  assumes inv: "db_inv P k h" and e: "kv P h db src = Some (ASet S, x)" and c: "canonical_member m"
  shows "kv P (snd (smoveWrite P db src dst m i 0 y acc h)) = kvupd (kv P h) db src (setEntry (S - {m}) x)"
    "maxMemory (snd (smoveWrite P db src dst m i 0 y acc h)) = maxMemory h"
proof -
  obtain r g1 where L: "Lookup P i h db src = (r, g1)" by (cases "Lookup P i h db src")
  note K = Lookup_kv [OF L db_invD(7) [OF inv]]
  obtain a where a: "r = Some a" using K(7) e by (cases r) auto
  note A = K(8-10) [OF a]
  obtain s where s: "Val (ents g1 a) = VSet s" "set_elems s = S" and x: "ExpireAtMs (ents g1 a) = x"
    using A(3) e by (cases "Val (ents g1 a)") (auto simp: abse_def)
  have si: "set_inv s" using vals_ok_Lookup [OF db_invD(3) [OF inv] L [unfolded a]] s(1) by simp
  let ?s = "snd (SetRemove s m)"
  have es: "set_elems ?s = S - {m}" "SetLen ?s = 0 \<longleftrightarrow> S - {m} = {}"
    using SetRemove_elems(1) [OF si c] SetLen_card [OF SetRemove_inv [OF si]] finite_set_elems [OF si] s(2) by (auto simp: card_eq_0_iff)
  have u: "kv P (Touch P i (setVal a v g1) db src a) = kvupd (kv P h) db src (Some (absv P v, x))" for v
    using kv_update [OF K(2) A(1)] A(2) K(1,3) x by simp
  show "kv P (snd (smoveWrite P db src dst m i 0 y acc h)) = kvupd (kv P h) db src (setEntry (S - {m}) x)"
    "maxMemory (snd (smoveWrite P db src dst m i 0 y acc h)) = maxMemory h"
    using L a s(1) es K(4) by (simp_all add: smoveWrite_def split_beta Let_def u setEntry_def)
qed

lemma smoveWrite_dst:
  assumes inv: "db_inv P k h" and e: "\<not> isWrong TypeSet (kv P h db dst)" and c: "canonical_member m"
  shows "kv P (snd (smoveWrite P db src dst m i (Suc 0) y acc h)) =
      kvupd (kv P h) db dst (setEntry (insert m (setAt (kv P h db dst))) (ttlAt (kv P h db dst)))"
    "maxMemory (snd (smoveWrite P db src dst m i (Suc 0) y acc h)) = maxMemory h"
proof -
  obtain r wt g1 where G: "getColl P i h db dst TypeSet = ((r, wt), g1)" by (cases "getColl P i h db dst TypeSet") auto
  note K = getColl_kv [OF G db_invD(7) [OF inv]]
  show "maxMemory (snd (smoveWrite P db src dst m i (Suc 0) y acc h)) = maxMemory h"
    using G K(4) by (simp add: smoveWrite_def split_beta Let_def split: option.split)
  have "\<not> wt" using K(6) e by (auto simp: isWrong_def)
  show "kv P (snd (smoveWrite P db src dst m i (Suc 0) y acc h)) =
      kvupd (kv P h) db dst (setEntry (insert m (setAt (kv P h db dst))) (ttlAt (kv P h db dst)))"
  proof (cases r)
    case None
    then have "kv P h db dst = None" using K(7) \<open>\<not> wt\<close> by blast
    then show ?thesis
      using G None K(1,2) SetAdd_elems(1) [OF NewSet_inv c]
      by (simp add: smoveWrite_def split_beta Let_def kv_fill NewSet_elems setEntry_def ttlAt_def)
  next
    case (Some a)
    note A = K(8) [OF Some]
    obtain s where s: "Val (ents g1 a) = VSet s" "set_inv s"
      using A vals_ok_search [OF vals_ok_getColl [OF G db_invD(3) [OF inv]]] by (metis set_cases)
    have "kv P (Touch P i (setVal a v g1) db dst a) = kvupd (kv P h) db dst (Some (absv P v, ExpireAtMs (ents g1 a)))" for v
      using kv_update [OF K(2)] A K(1) by simp
    then show ?thesis
      using G Some A s SetAdd_elems(1) [OF s(2) c] by (simp add: smoveWrite_def split_beta Let_def setEntry_def ttlAt_def)
  qed
qed

lemma smoveWrite_kv:
  fixes db :: nat and m :: string
  assumes ord: "sched (groupKeys (ShardIndex P k) [src, dst]) ord" and inv: "db_inv P k g" "evict_safe P g" "db < maxDBs g"
    and mm: "maxMemory g \<le> 0" and c: "canonical_member m" and ne: "src \<noteq> dst"
    and se: "kv P g db src = Some (ASet S, x)" and de: "\<not> isWrong TypeSet (kv P g db dst)"
  shows "kv P (snd (doMulti P ord [src, dst] (\<lambda>si. each_idx [src, dst] (smoveWrite P db src dst m si)) acc0 g)) =
    kvupd (kvupd (kv P g) db dst (setEntry (insert m (setAt (kv P g db dst))) (ttlAt (kv P g db dst)))) db src (setEntry (S - {m}) x)"
proof -
  let ?keys = "[src, dst]"
  let ?se = "setEntry (S - {m}) x" and ?de = "setEntry (insert m (setAt (kv P g db dst))) (ttlAt (kv P g db dst))"
  let ?K = "\<lambda>T. kvupd (kvupd (kv P g) db dst (if (1::nat) \<in> T then ?de else kv P g db dst)) db src (if 0 \<in> T then ?se else kv P g db src)"
  let ?I = "\<lambda>T (acc :: bool \<times> bool) h. kv P h = ?K T \<and> maxMemory h \<le> 0 \<and> acts P k g h"
  let ?D = "doMulti P ord ?keys (\<lambda>si. each_idx ?keys (smoveWrite P db src dst m si)) acc0 g"
  have "?I {..<length ?keys} (fst ?D) (snd ?D)"
  proof (rule doMulti_rule [where I = ?I, OF ord db_invD(8) [OF inv(1)]])
    fix T i and acc :: "bool \<times> bool" and h
    assume I: "?I T acc h" and i: "i < length ?keys"
      and fresh: "\<forall>j < length ?keys. ShardIndex P k (?keys ! j) = ShardIndex P k (?keys ! i) \<longrightarrow> (j \<in> T \<longleftrightarrow> j < i)"
    let ?si = "ShardIndex P k (?keys ! i)"
    have h: "kv P h = ?K T" "acts P k g h" "maxMemory h \<le> 0" using I by auto
    have iT: "i \<notin> T" using fresh i by blast
    have dbi: "db_inv P k h" "db < maxDBs h" using acts_keep [OF h(2) inv(1,2)] inv(3) by auto
    have a: "acts P k g (snd (smoveWrite P db src dst m ?si i (?keys ! i) acc h))"
      using rtranclp_trans [OF h(2) smove_task_acts(2) [OF i dbi(2)]] .
    have sw: "kvupd (kvupd Z db dst d) db src e = kvupd (kvupd Z db src e) db dst d" for Z d e
      using ne by (auto simp: kvupd_def fun_eq_iff)
    consider "i = 0" | "i = Suc 0" using i by (auto simp: less_Suc_eq)
    then have "kv P (snd (smoveWrite P db src dst m ?si i (?keys ! i) acc h)) = ?K (insert i T) \<and>
        maxMemory (snd (smoveWrite P db src dst m ?si i (?keys ! i) acc h)) \<le> 0"
    proof cases
      case 1
      have "kv P h db src = Some (ASet S, x)" using h(1) iT 1 se by simp
      from smoveWrite_src [OF dbi(1) this c] show ?thesis using 1 h(1,3) by simp
    next
      case 2
      have d: "kv P h db dst = kv P g db dst" using h(1) iT 2 ne by (simp add: kvupd_def)
      have "\<not> isWrong TypeSet (kv P h db dst)" using de d by simp
      from smoveWrite_dst [OF dbi(1) this c] show ?thesis using 2 h(1,3) d by (simp add: sw)
    qed
    then show "?I (insert i T) (fst (smoveWrite P db src dst m ?si i (?keys ! i) acc h)) (snd (smoveWrite P db src dst m ?si i (?keys ! i) acc h))"
      using a by blast
  next
    fix T :: "nat set" and acc :: "bool \<times> bool" and h si assume "?I T acc h"
    then show "?I T acc (maybeEvict P si h)" by (simp add: acts_maybeEvict)
  qed (use mm in auto)
  then show ?thesis by simp
qed

lemma cmdSMove_spec:
  assumes ord: "sched (groupKeys (ShardIndex P k) [args ! 1, args ! 2]) ord" "sched (groupKeys (ShardIndex P k) [args ! 1, args ! 2]) ord'"
    and inv: "db_inv P k g" "evict_safe P g" "db < maxDBs g" and mm: "maxMemory g \<le> 0"
    and c: "canonical_member (args ! 3)" and ne: "args ! 1 \<noteq> args ! 2"
    and spec: "smoveSpec (args ! 3) (kv P g db (args ! 1)) (kv P g db (args ! 2)) = (r, se, de)"
  shows "fst (cmdSMove P ord ord' db args g) = r"
    "kv P (snd (cmdSMove P ord ord' db args g)) = kvupd (kvupd (kv P g) db (args ! 2) de) db (args ! 1) se"
proof -
  define src dst m where "src = args ! 1" and "dst = args ! 2" and "m = args ! 3"
  note folds = src_def [symmetric] dst_def [symmetric] m_def [symmetric]
  let ?D = "doMulti P ord [src, dst] (\<lambda>si. each_idx [src, dst] (smoveCheck P db src dst m si)) (False, False, False) g"
  let ?E = "doMulti P ord' [src, dst] (\<lambda>si. each_idx [src, dst] (smoveWrite P db src dst m si)) (False, False) (snd ?D)"
  note C = smoveCheck_kv [OF ord(1) [unfolded folds] inv mm c [unfolded folds]]
  note A = acts_keep [OF C(3) inv(1,2)]
  have "fst (cmdSMove P ord ord' db args g) = r \<and> kv P (snd (cmdSMove P ord ord' db args g)) = kvupd (kvupd (kv P g) db dst de) db src se"
  proof (cases "\<not> isWrong TypeSet (kv P g db src) \<and> m \<in> setAt (kv P g db src) \<and> \<not> isWrong TypeSet (kv P g db dst)")
    case True
    then obtain S x where s: "kv P g db src = Some (ASet S, x)"
      by (cases "kv P g db src") (auto simp: setAt_def split: aval.splits)
    have K: "kv P (snd ?E) = kvupd (kvupd (kv P g) db dst (setEntry (insert m (setAt (kv P g db dst))) (ttlAt (kv P g db dst)))) db src (setEntry (S - {m}) x)"
      using smoveWrite_kv [OF ord(2) [unfolded folds] conjunct1 [OF A] conjunct1 [OF conjunct2 [OF A]] _ C(2) c [unfolded folds] ne [unfolded folds]]
        A inv(3) s True C(1) by simp
    have "cmdSMove P ord ord' db args g = (RInt 1, let g3 = notify db src ''srem'' (snd ?E); g4 = (if fst (fst ?E) then notify db src ''del'' g3 else g3)
        in if snd (fst ?E) then notify db dst ''sadd'' g4 else g4)"
      using True ne C(4) unfolding cmdSMove_def Let_def folds by (simp add: split_beta)
    then show ?thesis
      using K True spec s unfolding folds by (simp add: smoveSpec_def ttlAt_def Let_def)
  next
    case False
    then show ?thesis
      using ne C(1,4) spec unfolding cmdSMove_def Let_def folds smoveSpec_def by (auto simp: split_beta split: if_splits)
  qed
  then show "fst (cmdSMove P ord ord' db args g) = r"
    "kv P (snd (cmdSMove P ord ord' db args g)) = kvupd (kvupd (kv P g) db (args ! 2) de) db (args ! 1) se"
    unfolding folds by auto
qed

lemma cmdSMove_acts:
  assumes ord: "sched (groupKeys (ShardIndex P k) [args ! 1, args ! 2]) ord" "sched (groupKeys (ShardIndex P k) [args ! 1, args ! 2]) ord'"
    and k: "kbits g = k" "db < maxDBs g"
  shows "acts P k g (snd (cmdSMove P ord ord' db args g))"
proof -
  define src dst m where "src = args ! 1" and "dst = args ! 2" and "m = args ! 3"
  note folds = src_def [symmetric] dst_def [symmetric] m_def [symmetric]
  let ?D = "doMulti P ord [src, dst] (\<lambda>si. each_idx [src, dst] (smoveCheck P db src dst m si)) (False, False, False) g"
  let ?E = "doMulti P ord' [src, dst] (\<lambda>si. each_idx [src, dst] (smoveWrite P db src dst m si)) (False, False) (snd ?D)"
  have 1: "acts P k g (snd ?D)"
    using acts_doMulti [where f = "smoveCheck P db src dst m", OF ord(1) [unfolded folds] k] smove_task_acts(1) by blast
  have c: "kbits (snd ?D) = k" "db < maxDBs (snd ?D)" using acts_conf [OF 1] k by auto
  have "acts P k (snd ?D) (snd ?E)"
    using acts_doMulti [where f = "smoveWrite P db src dst m", OF ord(2) [unfolded folds] c] smove_task_acts(2) by blast
  with 1 have 2: "acts P k g (snd ?E)" by (rule rtranclp_trans)
  have same: "acts P k g (snd (doKey P src (\<lambda>i g. let ((ent, wt), g1) = getColl P i g db src TypeSet
      in if wt then (errWrongType, g1)
         else (case ent of None \<Rightarrow> (RInt 0, g1) | Some a \<Rightarrow> (RInt (boolInt (SetContains (setOf (Val (ents g1 a))) m)), g1))) g))"
    unfolding Let_def by (rule acts_getColl [OF k]) (simp split: prod.split option.split)
  show ?thesis
  proof (cases "src = dst")
    case True
    then show ?thesis unfolding cmdSMove_def folds using same by (simp add: Let_def)
  next
    case False
    then show ?thesis unfolding cmdSMove_def folds using 1 2 by (simp add: split_beta Let_def acts_notify)
  qed
qed

end

end
