(* ===== verification/Aof_Capture.thy ===== *)
theory Aof_Capture
  imports Cmd_Table Cmd_Set
begin

text \<open>
  What the command engine reports to the persistence sink (\<^verbatim>\<open>src/lib/commands/aof.go\<close>): the
  rewriting of a successful write into a deterministic record, and \<^verbatim>\<open>capturePersist\<close>, which
  decides whether and where a record is logged. The clock \<^verbatim>\<open>time.Now\<close> read at capture is the
  argument \<open>now\<close>; the sink is the list of \<^verbatim>\<open>LogCommand\<close> calls. The option words the handlers accept
  are ASCII, so \<^verbatim>\<open>strings.ToLower\<close> on them is \<open>lowerASCII\<close>.
\<close>

section \<open>Rewriting\<close>

definition expireAbsMs :: "int \<Rightarrow> string \<Rightarrow> int \<Rightarrow> int" where
  "expireAbsMs now name n =
     (if name = ''expire'' then wrap64 (now + wrap64 (n * 1000))
      else if name = ''pexpire'' then wrap64 (now + n)
      else if name = ''expireat'' then wrap64 (n * 1000)
      else n)"

definition popReplyKey :: "rv \<Rightarrow> string option" where
  "popReplyKey v = (case v of RArr (RBlob key # _) \<Rightarrow> Some key | _ \<Rightarrow> None)"

definition mpopRewrite :: "string \<Rightarrow> string list \<Rightarrow> string \<Rightarrow> string list" where
  "mpopRewrite op args key =
     (let argv = [op, ''1'', key]
      in case Atoi (args ! 2) of
           None \<Rightarrow> argv
         | Some nk \<Rightarrow>
             if nk < 0 \<or> int (length args) < 3 + nk then argv
             else argv @ [args ! (3 + nat nk)] @ drop (3 + nat nk + 1) args)"

definition relUnit :: "string \<Rightarrow> string option" where
  "relUnit opt = (if opt = ''ex'' then Some ''expire'' else if opt = ''px'' then Some ''pexpire''
     else if opt = ''exat'' then Some ''expireat'' else None)"

text \<open>The loop over the options of SET: \<open>i\<close> advances by one, so a rewritten value is visited as well.\<close>

function setRewrite :: "int \<Rightarrow> string list \<Rightarrow> string list" where
  "setRewrite now [] = []"
| "setRewrite now [a] = [a]"
| "setRewrite now (a # b # rest) =
     (case (relUnit (lowerASCII a), parseIntStrict b) of
        (Some rel, Some n) \<Rightarrow> ''PXAT'' # setRewrite now (FormatInt (expireAbsMs now rel n) # rest)
      | _ \<Rightarrow> a # setRewrite now (b # rest))"
  by pat_completeness auto
termination by (relation "measure (\<lambda>(now, xs). length xs)") auto

text \<open>
  \<^verbatim>\<open>rewriteForPersist\<close>: \<open>None\<close> logs nothing; otherwise the record and the key it is routed by. With
  \<open>build\<close> off only the decision is taken.
\<close>

definition rewriteForPersist :: "int \<Rightarrow> string \<Rightarrow> string list \<Rightarrow> rv \<Rightarrow> bool \<Rightarrow> (string list \<times> string option) option" where
  "rewriteForPersist now name args v build =
     (let yes = (\<lambda>argv hint. if build then Some (argv, hint) else Some ([], None))
      in if name = ''blpop'' \<or> name = ''brpop'' then
           (case popReplyKey v of
              None \<Rightarrow> None
            | Some key \<Rightarrow> yes [if name = ''brpop'' then ''RPOP'' else ''LPOP'', key] (Some key))
         else if name = ''bzpopmin'' \<or> name = ''bzpopmax'' then
           (case popReplyKey v of
              None \<Rightarrow> None
            | Some key \<Rightarrow> yes [if name = ''bzpopmax'' then ''ZPOPMAX'' else ''ZPOPMIN'', key] (Some key))
         else if name = ''blmpop'' then
           (case popReplyKey v of None \<Rightarrow> None | Some key \<Rightarrow> yes (mpopRewrite ''LMPOP'' args key) (Some key))
         else if name = ''bzmpop'' then
           (case popReplyKey v of None \<Rightarrow> None | Some key \<Rightarrow> yes (mpopRewrite ''ZMPOP'' args key) (Some key))
         else if name = ''blmove'' then
           yes [''LMOVE'', args ! 1, args ! 2, args ! 3, args ! 4] (Some (args ! 1))
         else if name = ''brpoplpush'' then
           yes [''RPOPLPUSH'', args ! 1, args ! 2] (Some (args ! 1))
         else if name = ''spop'' then
           (let members = (\<lambda>vs. if vs = [] then None
                                else yes ([''SREM'', args ! 1] @ map (\<lambda>m. case m of RBlob b \<Rightarrow> b | _ \<Rightarrow> []) vs) (Some (args ! 1)))
            in case v of
                 RBlob m \<Rightarrow> yes [''SREM'', args ! 1, m] (Some (args ! 1))
               | RSet vs \<Rightarrow> members vs
               | RArr vs \<Rightarrow> members vs
               | _ \<Rightarrow> None)
         else if name \<in> {''expire'', ''pexpire'', ''expireat'', ''pexpireat''} then
           (if v \<noteq> RInt 1 then None
            else case parseIntStrict (args ! 2) of
                   None \<Rightarrow> None
                 | Some n \<Rightarrow>
                     yes ([''PEXPIREAT'', args ! 1, FormatInt (expireAbsMs now name n)] @
                          (if 3 < length args then [args ! 3] else [])) (Some (args ! 1)))
         else if name = ''getex'' then
           (if (case v of RBlob _ \<Rightarrow> False | _ \<Rightarrow> True) \<or> length args < 3 then None
            else
              let opt = lowerASCII (args ! 2)
              in if opt = ''persist'' then yes [''PERSIST'', args ! 1] (Some (args ! 1))
                 else if length args < 4 then None
                 else case parseIntStrict (args ! 3) of
                        None \<Rightarrow> None
                      | Some n \<Rightarrow>
                          if isExpOpt opt
                          then yes [''PEXPIREAT'', args ! 1,
                                    FormatInt (case relUnit opt of Some rel \<Rightarrow> expireAbsMs now rel n | None \<Rightarrow> n)] (Some (args ! 1))
                          else None)
         else if name = ''set'' then yes (take 3 args @ setRewrite now (drop 3 args)) (Some (args ! 1))
         else
           yes args (case table name of
                       Some d \<Rightarrow> if 0 < FirstKey d \<and> FirstKey d < int (length args) then Some (args ! nat (FirstKey d)) else None
                     | None \<Rightarrow> None))"

section \<open>Capture\<close>

text \<open>One \<^verbatim>\<open>LogCommand\<close> call: the shard hint (-1 broadcasts), the database and the record, \<open>None\<close> when only the dirty count moves.\<close>

type_synonym logCall = "int \<times> nat \<times> string list option"

definition capturePersist :: "(string \<Rightarrow> nat) \<Rightarrow> int \<Rightarrow> bool \<Rightarrow> nat \<Rightarrow> CmdDef \<Rightarrow> string \<Rightarrow> string list \<Rightarrow> rv \<Rightarrow> logCall list" where
  "capturePersist route now appendOnly db d name args v =
     (if name = ''exec'' \<or> \<not> hasFlag d ''write'' \<or> isErr v then []
      else
        case rewriteForPersist now name args v appendOnly of
          None \<Rightarrow> []
        | Some (argv, hint) \<Rightarrow>
            if \<not> appendOnly then [(0, db, None)]
            else [(case hint of None \<Rightarrow> -1 | Some key \<Rightarrow> int (route key), db, Some argv)])"

end
