(* ===== verification/Glob.thy ===== *)
theory Glob
  imports Cmd_Set
begin

text \<open>
  Glob patterns: \<^verbatim>\<open>GlobMatch\<close> of \<^verbatim>\<open>src/lib/commands/glob.go\<close>, the matcher behind KEYS, SCAN MATCH
  and pattern subscriptions.

  \<open>GlobMatch\<close> follows the loop of the source over the pattern; the loop over a bracket class is
  \<open>class_loop\<close>. The reference reads a pattern as a sequence of tokens (\<open>toks\<close>) and says that a
  string matches when it splits into one piece per token. \<open>GlobMatch_pieces\<close> proves the two
  equivalent for every pattern and string.
\<close>

section \<open>The matcher\<close>

text \<open>
  The class loop, from after the optional \<open>^\<close>: \<open>None\<close> for a class that is not terminated, else
  whether the first byte of the string was hit and the pattern from the closing bracket on.
\<close>

definition in_range :: "char \<Rightarrow> char \<Rightarrow> char \<Rightarrow> bool" where
  "in_range lo hi b =
     (let (lo, hi) = if byte hi < byte lo then (hi, lo) else (lo, hi) in byte lo \<le> byte b \<and> byte b \<le> byte hi)"

fun class_loop :: "string \<Rightarrow> string \<Rightarrow> bool \<Rightarrow> (bool \<times> string) option" where
  "class_loop [] str matched = None"
| "class_loop (c # p) str matched =
     (if c = CHR 0x5C
      then (case p of [] \<Rightarrow> None | d # p' \<Rightarrow> class_loop p' str (matched \<or> str \<noteq> [] \<and> d = hd str))
      else if c = CHR '']'' then Some (matched, c # p)
      else (case p of
              d # e # p' \<Rightarrow>
                if d = CHR ''-''
                then class_loop p' str (matched \<or> str \<noteq> [] \<and> in_range c e (hd str))
                else class_loop p str (matched \<or> str \<noteq> [] \<and> c = hd str)
            | _ \<Rightarrow> class_loop p str (matched \<or> str \<noteq> [] \<and> c = hd str)))"

text \<open>One item of a class: a byte or a range, as a pair of bounds in either order, and what follows it.\<close>

fun class_item :: "string \<Rightarrow> ((char \<times> char) \<times> string) option" where
  "class_item [] = None"
| "class_item (c # p) =
     (if c = CHR 0x5C then (case p of [] \<Rightarrow> None | d # p' \<Rightarrow> Some ((d, d), p'))
      else (case p of d # e # p' \<Rightarrow> if d = CHR ''-'' then Some ((c, e), p') else Some ((c, c), p)
            | _ \<Rightarrow> Some ((c, c), p)))"

lemma class_item_shorter: "class_item p = Some (it, q) \<Longrightarrow> length q < length p"
  by (cases p) (auto split: if_splits list.splits)

lemma in_range_same [simp]: "in_range c c b \<longleftrightarrow> c = b"
  by (auto simp: in_range_def)

declare class_loop.simps(2) [simp del]

lemma class_loop_item:
  assumes "p \<noteq> []" "hd p \<noteq> CHR '']''"
  shows "class_loop p str m =
    (case class_item p of None \<Rightarrow> None
     | Some ((lo, hi), q) \<Rightarrow> class_loop q str (m \<or> str \<noteq> [] \<and> in_range lo hi (hd str)))"
proof -
  obtain c r where p: "p = c # r" and c: "c \<noteq> CHR '']''" using assms by (cases p) auto
  show ?thesis unfolding p class_loop.simps(2) [of c r] using c by (auto split: list.split)
qed

lemma class_loop_end [simp]: "class_loop (CHR '']'' # p) str m = Some (m, CHR '']'' # p)"
  by (simp add: class_loop.simps(2))

lemma class_loop_shorter: "class_loop p str m = Some (m', q) \<Longrightarrow> length q \<le> length p \<and> q \<noteq> []"
proof (induction "length p" arbitrary: p m rule: less_induct)
  case less
  show ?case
  proof (cases "p \<noteq> [] \<and> hd p \<noteq> CHR '']''")
    case True
    with less.prems obtain lo hi r where "class_item p = Some ((lo, hi), r)"
      "class_loop r str (m \<or> str \<noteq> [] \<and> in_range lo hi (hd str)) = Some (m', q)"
      by (auto simp: class_loop_item split: option.splits)
    with less.hyps [of r] class_item_shorter [of p] show ?thesis by fastforce
  qed (use less.prems in \<open>cases p; auto\<close>)
qed

function GlobMatch :: "string \<Rightarrow> string \<Rightarrow> bool" where
  "GlobMatch [] str = (str = [])"
| "GlobMatch (c # p) str =
     (if c = CHR ''*''
      then (let q = dropWhile (\<lambda>d. d = CHR ''*'') p
            in if q = [] then True else list_ex (\<lambda>i. GlobMatch q (drop i str)) [0..<Suc (length str)])
      else if c = CHR ''?'' then (if str = [] then False else GlobMatch p (tl str))
      else if c = CHR ''[''
      then (let negate = (p \<noteq> [] \<and> hd p = CHR ''^'')
            in (case class_loop (if negate then tl p else p) str False of
                  None \<Rightarrow> False
                | Some (matched, q) \<Rightarrow>
                    if matched = negate then False
                    else if str = [] then False
                    else GlobMatch (tl q) (tl str)))
      else (let p' = (if c = CHR 0x5C \<and> p \<noteq> [] then p else c # p)
            in if str = [] \<or> hd p' \<noteq> hd str then False else GlobMatch (tl p') (tl str)))"
  by pat_completeness auto
termination
proof (relation "measure (length \<circ> fst)", goal_cases)
  case (2 c p str q i)
  then show ?case using length_dropWhile_le [of "\<lambda>d. d = CHR ''*''" p] by simp
next
  case (4 c p str negate r matched q)
  then show ?case using class_loop_shorter [of "if negate then tl p else p" str False matched q]
    by (auto simp: Let_def split: if_splits)
qed auto

section \<open>The reference\<close>

datatype gtok = TStar | TAny | TClass bool "(char \<times> char) list" | TLit char | TBad

text \<open>All items of a class and the pattern after its closing bracket.\<close>

function class_items :: "string \<Rightarrow> ((char \<times> char) list \<times> string) option" where
  "class_items p =
     (if p = [] then None
      else if hd p = CHR '']'' then Some ([], tl p)
      else case class_item p of None \<Rightarrow> None
           | Some (it, q) \<Rightarrow> map_option (\<lambda>(its, rest). (it # its, rest)) (class_items q))"
  by pat_completeness auto
termination by (relation "measure length") (auto dest: class_item_shorter)

declare class_items.simps [simp del]

lemma class_items_shorter: "class_items p = Some (its, q) \<Longrightarrow> length q < length p"
proof (induction p arbitrary: its q rule: class_items.induct)
  case (1 p)
  from 1(2) show ?case
    by (subst (asm) class_items.simps)
      (fastforce split: if_splits option.splits dest: 1(1) [rotated -1] class_item_shorter)
qed

function toks :: "string \<Rightarrow> gtok list" where
  "toks [] = []"
| "toks (c # p) =
     (if c = CHR ''*'' then TStar # toks p
      else if c = CHR ''?'' then TAny # toks p
      else if c = CHR ''[''
      then (let negate = (p \<noteq> [] \<and> hd p = CHR ''^'')
            in case class_items (if negate then tl p else p) of
                 None \<Rightarrow> [TBad]
               | Some (its, q) \<Rightarrow> TClass negate its # toks q)
      else if c = CHR 0x5C \<and> p \<noteq> [] then TLit (hd p) # toks (tl p)
      else TLit c # toks p)"
  by pat_completeness auto
termination
proof (relation "measure length", goal_cases)
  case (4 c p negate r its q)
  then show ?case using class_items_shorter [of "if negate then tl p else p" its q]
    by (auto simp: Let_def split: if_splits)
qed auto

text \<open>A token accepts a piece of the string: a star any piece, another token one byte.\<close>

definition accepts :: "gtok \<Rightarrow> char \<Rightarrow> bool" where
  "accepts t b = (case t of TAny \<Rightarrow> True | TLit c \<Rightarrow> b = c
     | TClass negate its \<Rightarrow> (\<exists>(lo, hi) \<in> set its. in_range lo hi b) \<noteq> negate | _ \<Rightarrow> False)"

definition piece :: "gtok \<Rightarrow> string \<Rightarrow> bool" where
  "piece t w \<longleftrightarrow> t = TStar \<or> (\<exists>b. w = [b] \<and> accepts t b)"

definition gmatch :: "gtok list \<Rightarrow> string \<Rightarrow> bool" where
  "gmatch ts s \<longleftrightarrow> (\<exists>ws. s = concat ws \<and> list_all2 piece ts ws)"

lemma gmatch_Nil [simp]: "gmatch [] s \<longleftrightarrow> s = []"
  by (simp add: gmatch_def)

lemma gmatch_Cons: "gmatch (t # ts) s \<longleftrightarrow> (\<exists>w s'. s = w @ s' \<and> piece t w \<and> gmatch ts s')"
proof
  assume "gmatch (t # ts) s"
  then obtain w ws where "s = w @ concat ws" "piece t w" "list_all2 piece ts ws"
    by (auto simp: gmatch_def list_all2_Cons1)
  then show "\<exists>w s'. s = w @ s' \<and> piece t w \<and> gmatch ts s'" by (auto simp: gmatch_def)
next
  assume "\<exists>w s'. s = w @ s' \<and> piece t w \<and> gmatch ts s'"
  then obtain w ws where "s = concat (w # ws)" "list_all2 piece (t # ts) (w # ws)"
    by (auto simp: gmatch_def)
  then show "gmatch (t # ts) s" unfolding gmatch_def by blast
qed

lemma gmatch_one:
  assumes "t \<noteq> TStar"
  shows "gmatch (t # ts) s \<longleftrightarrow> s \<noteq> [] \<and> accepts t (hd s) \<and> gmatch ts (tl s)"
proof -
  have "gmatch (t # ts) s \<longleftrightarrow> (\<exists>b s'. s = b # s' \<and> accepts t b \<and> gmatch ts s')"
    using assms unfolding gmatch_Cons piece_def by (metis append_Cons append_Nil)
  then show ?thesis by (cases s) auto
qed

lemma gmatch_star: "gmatch (TStar # ts) s \<longleftrightarrow> (\<exists>i \<le> length s. gmatch ts (drop i s))"
proof
  assume "gmatch (TStar # ts) s"
  then obtain w s' where "s = w @ s'" "gmatch ts s'" by (auto simp: gmatch_Cons)
  then show "\<exists>i \<le> length s. gmatch ts (drop i s)" by (intro exI [of _ "length w"]) simp
next
  assume "\<exists>i \<le> length s. gmatch ts (drop i s)"
  then obtain i where "gmatch ts (drop i s)" by blast
  then show "gmatch (TStar # ts) s"
    unfolding gmatch_Cons piece_def by (metis append_take_drop_id)
qed

lemma gmatch_star_star: "gmatch (TStar # TStar # ts) s \<longleftrightarrow> gmatch (TStar # ts) s"
proof
  assume "gmatch (TStar # TStar # ts) s"
  then obtain i j where "i \<le> length s" "j \<le> length (drop i s)" "gmatch ts (drop j (drop i s))"
    by (auto simp: gmatch_star)
  then show "gmatch (TStar # ts) s" unfolding gmatch_star by (intro exI [of _ "j + i"]) simp
next
  assume "gmatch (TStar # ts) s"
  then show "gmatch (TStar # TStar # ts) s"
    unfolding gmatch_star [of "TStar # ts"] by (intro exI [of _ 0]) simp
qed

lemma toks_star [simp]: "toks (CHR ''*'' # p) = TStar # toks p"
  by simp

lemma gmatch_stars:
  "gmatch (TStar # toks p) s \<longleftrightarrow> gmatch (TStar # toks (dropWhile (\<lambda>d. d = CHR ''*'') p)) s"
  by (induction p) (auto simp: gmatch_star_star simp del: toks.simps(2))

lemma class_loop_items:
  "class_loop p str m = (case class_items p of None \<Rightarrow> None
     | Some (its, q) \<Rightarrow> Some (m \<or> str \<noteq> [] \<and> (\<exists>(lo, hi) \<in> set its. in_range lo hi (hd str)), CHR '']'' # q))"
proof (induction p arbitrary: m rule: class_items.induct)
  case (1 p)
  show ?case
  proof (cases "p \<noteq> [] \<and> hd p \<noteq> CHR '']''")
    case True
    then show ?thesis using 1
      by (subst class_items.simps) (auto simp: class_loop_item split: option.split)
  qed (subst class_items.simps, cases p, auto)
qed

text \<open>The matcher and the reference agree on every pattern and every string.\<close>

lemma GlobMatch_pieces: "GlobMatch p s \<longleftrightarrow> gmatch (toks p) s"
proof (induction p s rule: GlobMatch.induct)
  case (2 c p s)
  consider (star) "c = CHR ''*''" | (any) "c = CHR ''?''" | (cl) "c = CHR ''[''"
    | (lit) "c \<notin> {CHR ''*'', CHR ''?'', CHR ''[''}" by blast
  then show ?case
  proof cases
    case star
    define q where "q = dropWhile (\<lambda>d. d = CHR ''*'') p"
    have IH: "GlobMatch q (drop i s) \<longleftrightarrow> gmatch (toks q) (drop i s)" if "q \<noteq> []" "i \<le> length s" for i
      using 2(1) [OF star q_def that(1), of i] that(2) by (simp only: set_upt atLeastLessThan_iff less_Suc_eq_le le0 simp_thms)
    have "GlobMatch (c # p) s \<longleftrightarrow> q = [] \<or> (\<exists>i \<le> length s. GlobMatch q (drop i s))"
      unfolding star GlobMatch.simps(2) Let_def q_def [symmetric]
      by (simp only: simp_thms if_True if_bool_eq_disj list_ex_iff set_upt Bex_def atLeastLessThan_iff less_Suc_eq_le le0) blast
    also have "\<dots> \<longleftrightarrow> gmatch (TStar # toks q) s"
      unfolding gmatch_star using IH by (cases "q = []") (auto intro: exI [of _ "length s"])
    finally show ?thesis unfolding star toks_star gmatch_stars [of p] q_def .
  next
    case any
    then show ?thesis using 2 by (simp add: gmatch_one accepts_def)
  next
    case cl
    then show ?thesis using 2
      by (auto simp: Let_def gmatch_one accepts_def class_loop_items split: option.split)
  next
    case lit
    then show ?thesis using 2 by (auto simp: Let_def gmatch_one accepts_def)
  qed
qed simp

definition escape :: "string \<Rightarrow> string" where
  "escape s = concat (map (\<lambda>c. [CHR 0x5C, c]) s)"

lemma toks_escape: "toks (escape s) = map TLit s"
proof (induction s)
  case (Cons c s)
  have "toks (CHR 0x5C # c # p) = TLit c # toks p" for p by (subst toks.simps(2)) (simp del: toks.simps)
  with Cons show ?case by (simp add: escape_def del: toks.simps)
qed (simp add: escape_def)

lemma gmatch_lits: "gmatch (map TLit s) t \<longleftrightarrow> t = s"
proof (induction s arbitrary: t)
  case (Cons c s)
  then show ?case by (cases t) (auto simp: gmatch_one accepts_def)
qed simp

lemma GlobMatch_escape: "GlobMatch (escape s) t \<longleftrightarrow> t = s"
  by (simp only: GlobMatch_pieces toks_escape gmatch_lits)

end
