(* ===== verification/Notify.thy ===== *)
theory Notify
  imports Tasks
begin

text \<open>
  Keyspace notifications (\<^verbatim>\<open>src/lib/commands/notify.go\<close>): the class bits, the parser and the
  printer of \<^verbatim>\<open>notify-keyspace-events\<close>, the class of every event, and what \<^verbatim>\<open>notifyKeyspace\<close>
  publishes. The flags are a \<^verbatim>\<open>uint64\<close> bit mask. The printer inverts the parser on every mask
  of class bits, except that \<open>n\<close> is dropped beside a full \<open>A\<close>, which is what it means to do.
\<close>

unbundle bit_operations_syntax

definition nfBit :: "nat \<Rightarrow> 64 word" where "nfBit i = push_bit i 1"

definition nfKeyspace :: "64 word" where "nfKeyspace = nfBit 0"
definition nfKeyevent :: "64 word" where "nfKeyevent = nfBit 1"
definition nfGeneric :: "64 word" where "nfGeneric = nfBit 2"
definition nfString :: "64 word" where "nfString = nfBit 3"
definition nfList :: "64 word" where "nfList = nfBit 4"
definition nfSet :: "64 word" where "nfSet = nfBit 5"
definition nfHash :: "64 word" where "nfHash = nfBit 6"
definition nfZset :: "64 word" where "nfZset = nfBit 7"
definition nfExpired :: "64 word" where "nfExpired = nfBit 8"
definition nfEvicted :: "64 word" where "nfEvicted = nfBit 9"
definition nfStream :: "64 word" where "nfStream = nfBit 10"
definition nfKeyMiss :: "64 word" where "nfKeyMiss = nfBit 11"
definition nfModule :: "64 word" where "nfModule = nfBit 12"
definition nfNew :: "64 word" where "nfNew = nfBit 13"

definition nfAll :: "64 word" where
  "nfAll = nfGeneric OR nfString OR nfList OR nfSet OR nfHash OR nfZset OR nfExpired OR nfEvicted OR nfStream OR nfModule"

lemmas nf_bits = nfKeyspace_def nfKeyevent_def nfGeneric_def nfString_def nfList_def nfSet_def nfHash_def
  nfZset_def nfExpired_def nfEvicted_def nfStream_def nfKeyMiss_def nfModule_def nfNew_def

definition notifyEventClass :: "string \<Rightarrow> 64 word option" where
  "notifyEventClass = map_of
     [(''del'', nfGeneric), (''expire'', nfGeneric), (''persist'', nfGeneric),
      (''rename_from'', nfGeneric), (''rename_to'', nfGeneric),
      (''copy_to'', nfGeneric), (''restore'', nfGeneric),
      (''set'', nfString), (''setrange'', nfString), (''append'', nfString),
      (''incrby'', nfString), (''incrbyfloat'', nfString),
      (''lpush'', nfList), (''rpush'', nfList), (''lpop'', nfList), (''rpop'', nfList),
      (''linsert'', nfList), (''lset'', nfList), (''lrem'', nfList), (''ltrim'', nfList),
      (''hset'', nfHash), (''hdel'', nfHash), (''hincrby'', nfHash), (''hincrbyfloat'', nfHash),
      (''sadd'', nfSet), (''srem'', nfSet), (''spop'', nfSet),
      (''sinterstore'', nfSet), (''sunionstore'', nfSet), (''sdiffstore'', nfSet),
      (''zadd'', nfZset), (''zincr'', nfZset), (''zrem'', nfZset),
      (''zpopmin'', nfZset), (''zpopmax'', nfZset),
      (''zremrangebyrank'', nfZset), (''zremrangebyscore'', nfZset), (''zremrangebylex'', nfZset),
      (''zinterstore'', nfZset), (''zunionstore'', nfZset), (''zdiffstore'', nfZset),
      (''expired'', nfExpired), (''evicted'', nfEvicted)]"

section \<open>Parsing and printing the flags\<close>

definition classList :: "(char \<times> 64 word) list" where
  "classList =
     [(CHR ''A'', nfAll), (CHR ''g'', nfGeneric), (CHR ''$'', nfString), (CHR ''l'', nfList), (CHR ''s'', nfSet),
      (CHR ''h'', nfHash), (CHR ''z'', nfZset), (CHR ''x'', nfExpired), (CHR ''e'', nfEvicted),
      (CHR ''K'', nfKeyspace), (CHR ''E'', nfKeyevent), (CHR ''t'', nfStream), (CHR ''m'', nfKeyMiss),
      (CHR ''d'', nfModule), (CHR ''n'', nfNew)]"

definition classChar :: "char \<Rightarrow> 64 word option" where
  "classChar c = map_of classList c"

fun notify_loop :: "string \<Rightarrow> 64 word \<Rightarrow> 64 word option" where
  "notify_loop [] flags = Some flags"
| "notify_loop (c # s) flags = (case classChar c of None \<Rightarrow> None | Some b \<Rightarrow> notify_loop s (flags OR b))"

definition parseNotifyFlags :: "string \<Rightarrow> 64 word option" where
  "parseNotifyFlags s = notify_loop s 0"

definition ifBit :: "64 word \<Rightarrow> 64 word \<times> char \<Rightarrow> string" where
  "ifBit f p = (if f AND fst p \<noteq> 0 then [snd p] else [])"

definition notifyFlagsToString :: "64 word \<Rightarrow> string" where
  "notifyFlagsToString f =
     (if f AND nfAll = nfAll then ''A''
      else concat (map (ifBit f)
        [(nfGeneric, CHR ''g''), (nfString, CHR ''$''), (nfList, CHR ''l''), (nfSet, CHR ''s''),
         (nfHash, CHR ''h''), (nfZset, CHR ''z''), (nfExpired, CHR ''x''), (nfEvicted, CHR ''e''),
         (nfStream, CHR ''t''), (nfModule, CHR ''d''), (nfNew, CHR ''n'')]))
     @ ifBit f (nfKeyspace, CHR ''K'') @ ifBit f (nfKeyevent, CHR ''E'') @ ifBit f (nfKeyMiss, CHR ''m'')"

text \<open>\<^verbatim>\<open>SetNotifyKeyspaceEvents\<close> keeps the old flags when the new ones do not parse.\<close>

definition SetNotifyKeyspaceEvents :: "64 word \<Rightarrow> string \<Rightarrow> bool \<times> 64 word" where
  "SetNotifyKeyspaceEvents old v = (case parseNotifyFlags v of None \<Rightarrow> (False, old) | Some f \<Rightarrow> (True, f))"

section \<open>Emission\<close>

text \<open>The calls of \<^verbatim>\<open>PubSub.Publish\<close>: channel and payload, in order.\<close>

definition notifyKeyspace :: "64 word \<Rightarrow> nat \<Rightarrow> string \<Rightarrow> string \<Rightarrow> (string \<times> string) list" where
  "notifyKeyspace f db key event =
     (case notifyEventClass event of
        None \<Rightarrow> []
      | Some cls \<Rightarrow>
          if f AND (nfKeyspace OR nfKeyevent) = 0 \<or> f AND cls = 0 then []
          else (if f AND nfKeyspace \<noteq> 0 then [(''__keyspace@'' @ FormatInt (int db) @ ''__:'' @ key, event)] else []) @
               (if f AND nfKeyevent \<noteq> 0 then [(''__keyevent@'' @ FormatInt (int db) @ ''__:'' @ event, key)] else []))"

section \<open>Round trip\<close>

lemma and_nfBit: "f AND nfBit i \<noteq> 0 \<longleftrightarrow> bit f i"
  by (simp add: nfBit_def bit_iff_and_push_bit_not_eq_0)

lemma bit_nfBit: "bit (nfBit i) n \<longleftrightarrow> n = i \<and> i < 64"
  by (auto simp: nfBit_def bit_simps)

lemma notify_loop_append: "notify_loop (s @ t) f = Option.bind (notify_loop s f) (notify_loop t)"
  by (induction s arbitrary: f) (auto split: option.split)

lemma notify_loop_ifBit: "classChar c = Some (nfBit i) \<Longrightarrow> notify_loop (ifBit f (nfBit i, c)) g = Some (if bit f i then g OR nfBit i else g)"
  by (simp add: ifBit_def and_nfBit)

lemma class_chars:
  "classChar CHR ''A'' = Some nfAll" "classChar CHR ''g'' = Some (nfBit 2)" "classChar CHR ''$'' = Some (nfBit 3)"
  "classChar CHR ''l'' = Some (nfBit 4)" "classChar CHR ''s'' = Some (nfBit 5)" "classChar CHR ''h'' = Some (nfBit 6)"
  "classChar CHR ''z'' = Some (nfBit 7)" "classChar CHR ''x'' = Some (nfBit 8)" "classChar CHR ''e'' = Some (nfBit 9)"
  "classChar CHR ''K'' = Some (nfBit 0)" "classChar CHR ''E'' = Some (nfBit 1)" "classChar CHR ''t'' = Some (nfBit 10)"
  "classChar CHR ''m'' = Some (nfBit 11)" "classChar CHR ''d'' = Some (nfBit 12)" "classChar CHR ''n'' = Some (nfBit 13)"
  by (simp_all add: classChar_def classList_def nf_bits)

lemma bit_if: "bit (if b then f OR g else f) n \<longleftrightarrow> bit f n \<or> b \<and> bit g n"
  by (simp add: bit_or_iff)

lemma bit_nfAll: "bit nfAll n \<longleftrightarrow> n \<in> {2, 3, 4, 5, 6, 7, 8, 9, 10, 12}"
  by (auto simp: nfAll_def nf_bits bit_or_iff bit_nfBit)

text \<open>A mask of class bits, and not \<open>n\<close> beside all of \<open>A\<close>.\<close>

definition printable :: "64 word \<Rightarrow> bool" where
  "printable f \<longleftrightarrow> (\<forall>n. bit f n \<longrightarrow> n < 14) \<and> \<not> (f AND nfAll = nfAll \<and> bit f 13)"

lemma less14: "n < 14 \<longleftrightarrow> n \<in> {0, 1, 2, 3, 4, 5, 6, 7, 8, 9, 10, 11, 12, 13 :: nat}"
  by (simp, presburger)

lemma parse_print:
  assumes "printable f"
  shows "parseNotifyFlags (notifyFlagsToString f) = Some f"
proof (cases "f AND nfAll = nfAll")
  case True
  have A: "bit f n" if "n \<in> {2, 3, 4, 5, 6, 7, 8, 9, 10, 12}" for n
    using True that bit_nfAll [of n] bit_and_iff [of f nfAll n] by metis
  have "parseNotifyFlags (notifyFlagsToString f) =
      Some (let g = nfAll; g = (if bit f 0 then g OR nfBit 0 else g); g = (if bit f 1 then g OR nfBit 1 else g)
            in if bit f 11 then g OR nfBit 11 else g)"
    using True by (simp add: parseNotifyFlags_def notifyFlagsToString_def notify_loop_append class_chars nfKeyspace_def nfKeyevent_def nfKeyMiss_def
        notify_loop_ifBit Let_def)
  also have "\<dots> = Some f"
  proof (rule arg_cong [of _ _ Some], rule bit_word_eqI)
    fix n assume "n < LENGTH(64)"
    have "bit f n \<longrightarrow> n \<in> {0, 1, 11} \<union> {2, 3, 4, 5, 6, 7, 8, 9, 10, 12}"
      using assms True less14 [of n] unfolding printable_def by blast
    then show "bit (let g = nfAll; g = (if bit f 0 then g OR nfBit 0 else g); g = (if bit f 1 then g OR nfBit 1 else g)
            in if bit f 11 then g OR nfBit 11 else g) n = bit f n"
      unfolding Let_def bit_if bit_nfBit bit_nfAll using A [of n] by auto
  qed
  finally show ?thesis .
next
  case False
  let ?step = "\<lambda>i g. if bit f i then g OR nfBit i else g"
  let ?g = "fold ?step [2, 3, 4, 5, 6, 7, 8, 9, 10, 12, 13, 0, 1, 11] 0"
  have "parseNotifyFlags (notifyFlagsToString f) = Some ?g"
    using False by (simp add: parseNotifyFlags_def notifyFlagsToString_def notify_loop_append class_chars nf_bits notify_loop_ifBit del: bit_0)
  moreover have F: "bit (fold ?step is g) n \<longleftrightarrow> bit g n \<or> (n \<in> set is \<and> bit f n \<and> n < 64)" for "is" g n
    by (induction "is" arbitrary: g) (auto simp: bit_or_iff bit_nfBit)
  have "?g = f"
  proof (rule bit_word_eqI)
    fix n assume "n < LENGTH(64)"
    moreover have "bit f n \<longrightarrow> n < 14" using assms by (simp add: printable_def)
    ultimately show "bit ?g n = bit f n" unfolding F using less14 [of n] by auto
  qed
  ultimately show ?thesis by simp
qed

text \<open>What the parser accepts is a mask of class bits.\<close>

lemma classList_bits: "list_all (\<lambda>p. \<forall>n. bit (snd p) n \<longrightarrow> n < 14) classList"
  by (simp add: classList_def nf_bits bit_nfAll bit_nfBit)

lemma notify_loop_classes: "notify_loop s f = Some g \<Longrightarrow> \<forall>n. bit f n \<longrightarrow> n < 14 \<Longrightarrow> \<forall>n. bit g n \<longrightarrow> n < 14"
proof (induction s arbitrary: f)
  case (Cons c s)
  obtain b where b: "classChar c = Some b" "notify_loop s (f OR b) = Some g" using Cons.prems(1) by (auto split: option.splits)
  have "(c, b) \<in> set classList" using map_of_SomeD [OF b(1) [unfolded classChar_def]] .
  then have "\<forall>n. bit b n \<longrightarrow> n < 14" using classList_bits unfolding list_all_iff by fastforce
  then have "\<forall>n. bit (f OR b) n \<longrightarrow> n < 14" using Cons.prems(2) unfolding bit_or_iff by blast
  then show ?case by (rule Cons.IH [OF b(2)])
qed simp

lemma parse_classes: "parseNotifyFlags s = Some f \<Longrightarrow> bit f n \<Longrightarrow> n < 14"
  using notify_loop_classes [of s 0 f] by (simp add: parseNotifyFlags_def)

end
