(* ===== verification/Pubsub.thy ===== *)
theory Pubsub
  imports Glob Notify "HOL-Library.List_Lexorder" "HOL-Library.Char_ord"
begin

text \<open>
  Publish and subscribe: the broker (\<^verbatim>\<open>src/lib/pubsub/broker.go\<close>) and the command handlers over it
  (\<^verbatim>\<open>src/lib/commands/pubsub.go\<close>).

  A registry maps a channel or pattern to its subscribers; both levels are association lists with
  distinct keys (\<open>reg_inv\<close>), since a Go map has no order. Where the source ranges over a map, the
  order in which it does is the argument \<open>ord\<close>, any permutation. A subscriber is an identifier
  and whether its \<^verbatim>\<open>Deliver\<close> is set. \<^verbatim>\<open>Publish\<close> yields the number of deliveries, the messages
  handed to \<open>self\<close> and those handed to other subscribers, in order.

  The lemmas show who receives what, that a connection's own record of its subscriptions and the
  broker's registry stay in step, and that the broker keeps no empty entry.
\<close>

section \<open>The broker\<close>

type_synonym subs = "(nat \<times> bool) list"
type_synonym registry = "(string \<times> subs) list"

record broker =
  Match :: "string \<Rightarrow> string \<Rightarrow> bool"
  channels :: registry
  patterns :: registry

definition NewBroker :: "(string \<Rightarrow> string \<Rightarrow> bool) \<Rightarrow> broker" where
  "NewBroker match = \<lparr>Match = match, channels = [], patterns = []\<rparr>"

definition subsOf :: "registry \<Rightarrow> string \<Rightarrow> subs" where
  "subsOf m name = (case map_of m name of None \<Rightarrow> [] | Some ss \<Rightarrow> ss)"

definition regAdd :: "registry \<Rightarrow> string \<Rightarrow> nat \<Rightarrow> bool \<Rightarrow> registry" where
  "regAdd m name sid dlv = AList.update name (AList.update sid dlv (subsOf m name)) m"

definition regDel :: "registry \<Rightarrow> string \<Rightarrow> nat \<Rightarrow> registry" where
  "regDel m name sid =
     (case map_of m name of
        None \<Rightarrow> m
      | Some ss \<Rightarrow>
          (let ss' = AList.delete sid ss
           in if ss' = [] then AList.delete name m else AList.update name ss' m))"

definition Subscribe :: "broker \<Rightarrow> string \<Rightarrow> nat \<Rightarrow> bool \<Rightarrow> broker" where
  "Subscribe b channel sid dlv = b\<lparr>channels := regAdd (channels b) channel sid dlv\<rparr>"

definition Unsubscribe :: "broker \<Rightarrow> string \<Rightarrow> nat \<Rightarrow> broker" where
  "Unsubscribe b channel sid = b\<lparr>channels := regDel (channels b) channel sid\<rparr>"

definition PSubscribe :: "broker \<Rightarrow> string \<Rightarrow> nat \<Rightarrow> bool \<Rightarrow> broker" where
  "PSubscribe b pat sid dlv = b\<lparr>patterns := regAdd (patterns b) pat sid dlv\<rparr>"

definition PUnsubscribe :: "broker \<Rightarrow> string \<Rightarrow> nat \<Rightarrow> broker" where
  "PUnsubscribe b pat sid = b\<lparr>patterns := regDel (patterns b) pat sid\<rparr>"

text \<open>The loop over one registry: what is left, and the names the subscriber was on.\<close>

fun unsub_loop :: "nat \<Rightarrow> registry \<Rightarrow> registry \<times> string list" where
  "unsub_loop sid [] = ([], [])"
| "unsub_loop sid ((name, ss) # m) =
     (let (m', names) = unsub_loop sid m
      in if map_of ss sid = None then ((name, ss) # m', names)
         else let ss' = AList.delete sid ss
              in (if ss' = [] then m' else (name, ss') # m', name # names))"

definition UnsubscribeAll :: "broker \<Rightarrow> nat \<Rightarrow> (string list \<times> string list) \<times> broker" where
  "UnsubscribeAll b sid =
     (let (chs, cnames) = unsub_loop sid (channels b); (pats, pnames) = unsub_loop sid (patterns b)
      in ((sort cnames, sort pnames), b\<lparr>channels := chs, patterns := pats\<rparr>))"

definition message :: "string \<Rightarrow> string \<Rightarrow> rv" where
  "message channel payload = RPush [RBlob ''message'', RBlob channel, RBlob payload]"

definition pmessage :: "string \<Rightarrow> string \<Rightarrow> string \<Rightarrow> rv" where
  "pmessage pat channel payload = RPush [RBlob ''pmessage'', RBlob pat, RBlob channel, RBlob payload]"

text \<open>All deliveries, in order: the direct subscribers, then those of each matching pattern, patterns sorted.\<close>

definition hits :: "(subs \<Rightarrow> subs) \<Rightarrow> broker \<Rightarrow> string \<Rightarrow> string \<Rightarrow> ((nat \<times> bool) \<times> rv) list" where
  "hits ord b channel payload =
     map (\<lambda>s. (s, message channel payload)) (ord (subsOf (channels b) channel)) @
     concat (map (\<lambda>(pat, ss). map (\<lambda>s. (s, pmessage pat channel payload)) (ord ss))
       (sort_key fst (filter (\<lambda>p. Match b (fst p) channel) (patterns b))))"

definition Publish :: "(subs \<Rightarrow> subs) \<Rightarrow> broker \<Rightarrow> string \<Rightarrow> string \<Rightarrow> nat \<Rightarrow> bool \<Rightarrow> nat \<times> rv list \<times> (nat \<times> rv) list" where
  "Publish ord b channel payload selfID hasSelf =
     (let ds = hits ord b channel payload
      in (length ds,
          if hasSelf then map snd (filter (\<lambda>d. fst (fst d) = selfID) ds) else [],
          map (\<lambda>d. (fst (fst d), snd d)) (filter (\<lambda>d. fst (fst d) \<noteq> selfID \<and> snd (fst d)) ds)))"

definition Channels :: "broker \<Rightarrow> string \<Rightarrow> string list" where
  "Channels b pattern = sort (filter (\<lambda>ch. pattern = [] \<or> Match b pattern ch) (map fst (channels b)))"

definition NumSub :: "broker \<Rightarrow> string list \<Rightarrow> int list" where
  "NumSub b names = map (\<lambda>ch. int (length (subsOf (channels b) ch))) names"

definition NumPat :: "broker \<Rightarrow> int" where "NumPat b = int (length (patterns b))"
definition NumChannels :: "broker \<Rightarrow> int" where "NumChannels b = int (length (channels b))"

section \<open>The command handlers\<close>

text \<open>
  The fields of \<^verbatim>\<open>ConnState\<close> they use: \<open>c_start\<close> says whether the front end installed \<^verbatim>\<open>StartPush\<close>,
  \<open>c_deliver\<close> whether \<^verbatim>\<open>deliver\<close> is set.
\<close>

record psconn =
  c_id :: nat
  c_subs :: "string list"
  c_psubs :: "string list"
  c_start :: bool
  c_deliver :: bool
  outbox :: "rv list"

definition subCount :: "psconn \<Rightarrow> int" where
  "subCount cs = int (length (c_subs cs) + length (c_psubs cs))"

definition ensureDeliver :: "psconn \<Rightarrow> psconn" where
  "ensureDeliver cs = (if \<not> c_deliver cs \<and> c_start cs then cs\<lparr>c_deliver := True\<rparr> else cs)"

definition emitFrames :: "psconn \<Rightarrow> rv list \<Rightarrow> rv \<times> psconn" where
  "emitFrames cs frames = (hd frames, if 1 < length frames then cs\<lparr>outbox := outbox cs @ tl frames\<rparr> else cs)"

fun subscribe_loop :: "string list \<Rightarrow> psconn \<Rightarrow> broker \<Rightarrow> rv list \<times> psconn \<times> broker" where
  "subscribe_loop [] cs b = ([], cs, b)"
| "subscribe_loop (ch # chs) cs b =
     (let (cs1, b1) = (if ch \<in> set (c_subs cs) then (cs, b)
                       else (cs\<lparr>c_subs := ch # c_subs cs\<rparr>, Subscribe b ch (c_id cs) (c_deliver cs)));
          (fs, cs2, b2) = subscribe_loop chs cs1 b1
      in (RPush [RBlob ''subscribe'', RBlob ch, RInt (subCount cs1)] # fs, cs2, b2))"

definition cmdSubscribe :: "psconn \<Rightarrow> string list \<Rightarrow> broker \<Rightarrow> rv \<times> psconn \<times> broker" where
  "cmdSubscribe cs args b =
     (let (fs, cs1, b1) = subscribe_loop (tl args) (ensureDeliver cs) b;
          (r, cs2) = emitFrames cs1 fs
      in (r, cs2, b1))"

fun psubscribe_loop :: "string list \<Rightarrow> psconn \<Rightarrow> broker \<Rightarrow> rv list \<times> psconn \<times> broker" where
  "psubscribe_loop [] cs b = ([], cs, b)"
| "psubscribe_loop (pat # pats) cs b =
     (let (cs1, b1) = (if pat \<in> set (c_psubs cs) then (cs, b)
                       else (cs\<lparr>c_psubs := pat # c_psubs cs\<rparr>, PSubscribe b pat (c_id cs) (c_deliver cs)));
          (fs, cs2, b2) = psubscribe_loop pats cs1 b1
      in (RPush [RBlob ''psubscribe'', RBlob pat, RInt (subCount cs1)] # fs, cs2, b2))"

definition cmdPSubscribe :: "psconn \<Rightarrow> string list \<Rightarrow> broker \<Rightarrow> rv \<times> psconn \<times> broker" where
  "cmdPSubscribe cs args b =
     (let (fs, cs1, b1) = psubscribe_loop (tl args) (ensureDeliver cs) b;
          (r, cs2) = emitFrames cs1 fs
      in (r, cs2, b1))"

text \<open>One target of \<^verbatim>\<open>unsubscribe\<close>; \<open>None\<close> is the null channel.\<close>

definition unsubOne :: "bool \<Rightarrow> string option \<Rightarrow> psconn \<Rightarrow> broker \<Rightarrow> psconn \<times> broker" where
  "unsubOne pattern t cs b =
     (case t of
        None \<Rightarrow> (cs, b)
      | Some name \<Rightarrow>
          if pattern
          then (if name \<in> set (c_psubs cs)
                then (cs\<lparr>c_psubs := removeAll name (c_psubs cs)\<rparr>, PUnsubscribe b name (c_id cs)) else (cs, b))
          else (if name \<in> set (c_subs cs)
                then (cs\<lparr>c_subs := removeAll name (c_subs cs)\<rparr>, Unsubscribe b name (c_id cs)) else (cs, b)))"

fun unsub_targets :: "bool \<Rightarrow> string option list \<Rightarrow> psconn \<Rightarrow> broker \<Rightarrow> rv list \<times> psconn \<times> broker" where
  "unsub_targets pattern [] cs b = ([], cs, b)"
| "unsub_targets pattern (t # ts) cs b =
     (let (cs1, b1) = unsubOne pattern t cs b;
          (fs, cs2, b2) = unsub_targets pattern ts cs1 b1
      in (RPush [RBlob (if pattern then ''punsubscribe'' else ''unsubscribe''),
                 (case t of None \<Rightarrow> RNull | Some name \<Rightarrow> RBlob name), RInt (subCount cs1)] # fs, cs2, b2))"

definition targets :: "bool \<Rightarrow> psconn \<Rightarrow> string list \<Rightarrow> string option list" where
  "targets pattern cs args =
     (if 1 < length args then map Some (tl args)
      else let names = sort (if pattern then c_psubs cs else c_subs cs)
           in if names = [] then [None] else map Some names)"

definition unsubscribe :: "psconn \<Rightarrow> string list \<Rightarrow> bool \<Rightarrow> broker \<Rightarrow> rv \<times> psconn \<times> broker" where
  "unsubscribe cs args pattern b =
     (let (fs, cs1, b1) = unsub_targets pattern (targets pattern cs args) cs b;
          (r, cs2) = emitFrames cs1 fs
      in (r, cs2, b1))"

definition cmdUnsubscribe :: "psconn \<Rightarrow> string list \<Rightarrow> broker \<Rightarrow> rv \<times> psconn \<times> broker" where
  "cmdUnsubscribe cs args b = unsubscribe cs args False b"

definition cmdPUnsubscribe :: "psconn \<Rightarrow> string list \<Rightarrow> broker \<Rightarrow> rv \<times> psconn \<times> broker" where
  "cmdPUnsubscribe cs args b = unsubscribe cs args True b"

definition cmdPublish :: "(subs \<Rightarrow> subs) \<Rightarrow> psconn \<Rightarrow> string list \<Rightarrow> broker \<Rightarrow> rv \<times> psconn \<times> (nat \<times> rv) list" where
  "cmdPublish ord cs args b =
     (let (n, self, out) = Publish ord b (args ! 1) (args ! 2) (c_id cs) True
      in (RInt (int n), cs\<lparr>outbox := outbox cs @ self\<rparr>, out))"

definition quoted :: "string \<Rightarrow> string" where "quoted s = quote @ s @ quote"

definition cmdPubSub :: "string list \<Rightarrow> broker \<Rightarrow> rv" where
  "cmdPubSub args b =
     (let sub = lowerASCII (args ! 1)
      in if sub = ''channels''
         then (if 3 < length args
               then RErr (''ERR unknown subcommand or wrong number of arguments for '' @ quoted (args ! 1) @ ''. Try PUBSUB HELP.'')
               else RArr (map RBlob (Channels b (if length args = 3 then args ! 2 else []))))
         else if sub = ''numsub''
         then (let names = drop 2 args
               in RArr (concat (map (\<lambda>(name, n). [RBlob name, RInt n]) (zip names (NumSub b names)))))
         else if sub = ''numpat''
         then (if length args \<noteq> 2 then errArity ''pubsub|numpat'' else RInt (NumPat b))
         else RErr (''ERR unknown subcommand '' @ quoted (args ! 1) @ ''. Try PUBSUB HELP.''))"

section \<open>The registry\<close>

definition reg_inv :: "registry \<Rightarrow> bool" where
  "reg_inv m \<longleftrightarrow> distinct (map fst m) \<and> (\<forall>p \<in> set m. snd p \<noteq> [] \<and> distinct (map fst (snd p)))"

definition broker_inv :: "broker \<Rightarrow> bool" where
  "broker_inv b \<longleftrightarrow> reg_inv (channels b) \<and> reg_inv (patterns b)"

definition on :: "registry \<Rightarrow> string \<Rightarrow> nat \<Rightarrow> bool" where
  "on m name sid \<longleftrightarrow> map_of (subsOf m name) sid \<noteq> None"

lemma subsOf_distinct: "reg_inv m \<Longrightarrow> distinct (map fst (subsOf m name))"
  by (auto simp: reg_inv_def subsOf_def split: option.split dest: map_of_SomeD)

lemma update_nonempty: "AList.update x v ss \<noteq> []"
  by (cases ss) auto

lemma set_update_subset: "set (AList.update x v m) \<subseteq> insert (x, v) (set m)"
  by (induction m) (auto simp: insert_iff)

lemma reg_inv_update:
  assumes "reg_inv m" "ss \<noteq> []" "distinct (map fst ss)"
  shows "reg_inv (AList.update name ss m)"
  unfolding reg_inv_def
proof (intro conjI ballI)
  fix p assume "p \<in> set (AList.update name ss m)"
  then have "p = (name, ss) \<or> p \<in> set m" using set_update_subset [of name ss m] by blast
  then show "snd p \<noteq> []" "distinct (map fst (snd p))" using assms by (auto simp: reg_inv_def)
qed (use assms in \<open>simp add: reg_inv_def distinct_update\<close>)

lemma reg_inv_delete: "reg_inv m \<Longrightarrow> reg_inv (AList.delete name m)"
  using distinct_delete [of m name] by (auto simp: reg_inv_def AList.delete_eq)

lemma regAdd_inv: "reg_inv m \<Longrightarrow> reg_inv (regAdd m name sid dlv)"
  by (simp add: regAdd_def reg_inv_update update_nonempty distinct_update subsOf_distinct)

lemma regDel_inv: "reg_inv m \<Longrightarrow> reg_inv (regDel m name sid)"
  using subsOf_distinct [of m name]
  by (auto simp: regDel_def Let_def subsOf_def reg_inv_update reg_inv_delete distinct_delete split: option.split)

lemma subsOf_regAdd: "subsOf (regAdd m name sid dlv) x = (if x = name then AList.update sid dlv (subsOf m name) else subsOf m x)"
  by (simp add: subsOf_def regAdd_def update_conv')

lemma subsOf_regDel: "subsOf (regDel m name sid) x = (if x = name then AList.delete sid (subsOf m name) else subsOf m x)"
  by (auto simp: subsOf_def regDel_def Let_def update_conv' delete_conv' split: option.split)

lemma on_regAdd [simp]: "on (regAdd m name sid dlv) x i \<longleftrightarrow> x = name \<and> i = sid \<or> on m x i"
  by (auto simp: on_def subsOf_regAdd update_conv')

lemma on_regDel [simp]: "on (regDel m name sid) x i \<longleftrightarrow> on m x i \<and> \<not> (x = name \<and> i = sid)"
  by (auto simp: on_def subsOf_regDel delete_conv')

lemma unsub_loop_names: "set (map fst (fst (unsub_loop sid m))) \<subseteq> set (map fst m)"
  by (induction sid m rule: unsub_loop.induct) (auto simp: split_beta Let_def)

lemma subsOf_Cons: "subsOf ((n, ss) # m) x = (if x = n then ss else subsOf m x)"
  by (simp add: subsOf_def)

lemma subsOf_absent: "x \<notin> fst ` set m \<Longrightarrow> subsOf m x = []"
  by (simp add: subsOf_def map_of_eq_None_iff [symmetric] split: option.split)

lemma unsub_loop_spec:
  assumes "reg_inv m"
  shows "reg_inv (fst (unsub_loop sid m))"
    "subsOf (fst (unsub_loop sid m)) x = AList.delete sid (subsOf m x)"
    "set (snd (unsub_loop sid m)) = {x. on m x sid}" "distinct (snd (unsub_loop sid m))"
proof -
  have "reg_inv m \<Longrightarrow> reg_inv (fst (unsub_loop sid m)) \<and> (\<forall>x. subsOf (fst (unsub_loop sid m)) x = AList.delete sid (subsOf m x)) \<and>
      set (snd (unsub_loop sid m)) = {x. on m x sid} \<and> distinct (snd (unsub_loop sid m))"
  proof (induction sid m rule: unsub_loop.induct)
    case (1 sid)
    then show ?case by (simp add: reg_inv_def subsOf_def on_def)
  next
    case (2 sid name ss m)
    have m: "reg_inv m" "name \<notin> fst ` set m" "distinct (map fst ss)" "ss \<noteq> []" using 2(2) by (auto simp: reg_inv_def)
    let ?m = "fst (unsub_loop sid m)"
    have IH: "reg_inv ?m" "\<And>x. subsOf ?m x = AList.delete sid (subsOf m x)" "set (snd (unsub_loop sid m)) = {x. on m x sid}"
      "distinct (snd (unsub_loop sid m))" using 2(1) [OF m(1)] by auto
    have n: "name \<notin> fst ` set ?m" using unsub_loop_names [of sid m] m(2) by auto
    have o: "on ((name, ss) # m) x sid \<longleftrightarrow> (if x = name then map_of ss sid \<noteq> None else on m x sid)" for x
      by (simp add: on_def subsOf_Cons)
    have no: "\<not> on m name sid" using subsOf_absent [OF m(2)] by (simp add: on_def)
    show ?case
    proof (cases "map_of ss sid")
      case None
      then have "AList.delete sid ss = ss" by (simp add: map_of_eq_None_iff delete_id)
      then show ?thesis using None IH m n no o by (auto simp: split_beta Let_def subsOf_Cons reg_inv_def)
    next
      case (Some d)
      then show ?thesis using IH m n no o subsOf_absent [OF n] distinct_delete [OF m(3), of sid]
        by (auto simp: split_beta Let_def subsOf_Cons reg_inv_def)
    qed
  qed
  then show "reg_inv (fst (unsub_loop sid m))"
    "subsOf (fst (unsub_loop sid m)) x = AList.delete sid (subsOf m x)"
    "set (snd (unsub_loop sid m)) = {x. on m x sid}" "distinct (snd (unsub_loop sid m))" using assms by auto
qed

section \<open>Who receives what\<close>

text \<open>An order in which a map may be visited.\<close>

definition reorders :: "(subs \<Rightarrow> subs) \<Rightarrow> bool" where
  "reorders ord \<longleftrightarrow> (\<forall>ss. mset (ord ss) = mset ss)"

text \<open>
  The messages one publication owes a subscriber: one if it is on the channel, then one for each of
  its patterns that match, in the order of the patterns.
\<close>

definition owed :: "broker \<Rightarrow> nat \<Rightarrow> string \<Rightarrow> string \<Rightarrow> rv list" where
  "owed b sid channel payload =
     (if on (channels b) channel sid then [message channel payload] else []) @
     map (\<lambda>pat. pmessage pat channel payload)
       (filter (\<lambda>pat. Match b pat channel \<and> on (patterns b) pat sid) (sort (map fst (patterns b))))"

lemma filter_ord:
  assumes "reorders ord" "distinct (map fst ss)"
  shows "map f (filter (\<lambda>s. fst s = sid) (ord ss)) = (case map_of ss sid of None \<Rightarrow> [] | Some d \<Rightarrow> [f (sid, d)])"
proof -
  have "mset (filter (\<lambda>s. fst s = sid) (ord ss)) = mset (filter (\<lambda>s. fst s = sid) ss)"
    using assms(1) by (simp add: reorders_def)
  also have "filter (\<lambda>s. fst s = sid) ss = (case map_of ss sid of None \<Rightarrow> [] | Some d \<Rightarrow> [(sid, d)])"
    using assms(2)
  proof (induction ss)
    case (Cons p ss)
    have "fst p = sid \<Longrightarrow> map_of ss sid = None" using Cons.prems by (auto simp: map_of_eq_None_iff)
    with Cons show ?case by (cases p) auto
  qed simp
  finally have "filter (\<lambda>s. fst s = sid) (ord ss) = (case map_of ss sid of None \<Rightarrow> [] | Some d \<Rightarrow> [(sid, d)])"
    by (cases "map_of ss sid") (simp_all only: option.case mset.simps mset_zero_iff mset_single_iff)
  then show ?thesis by (simp split: option.split)
qed

lemma sort_key_fst:
  shows "map fst (sort_key fst m) = sort (map fst m)"
  by (intro properties_for_sort [symmetric]) simp_all

lemma reg_entry: "reg_inv m \<Longrightarrow> (name, ss) \<in> set m \<Longrightarrow> subsOf m name = ss"
  by (simp add: reg_inv_def subsOf_def)

lemma hits_owed:
  assumes "broker_inv b" "reorders ord"
  shows "map snd (filter (\<lambda>d. fst (fst d) = sid) (hits ord b channel payload)) = owed b sid channel payload"
proof -
  have inv: "reg_inv (channels b)" "reg_inv (patterns b)" using assms(1) by (auto simp: broker_inv_def)
  have direct: "map snd (filter (\<lambda>d. fst (fst d) = sid) (map (\<lambda>s. (s, msg)) (ord ss))) =
      (if map_of ss sid = None then [] else [msg])" if "distinct (map fst ss)" for ss :: subs and msg :: rv
    using filter_ord [OF assms(2) that, where f = "\<lambda>_. msg" and sid = sid]
    by (simp add: filter_map comp_def split: option.splits)
  have pats: "map snd (filter (\<lambda>d. fst (fst d) = sid) (concat (map (\<lambda>(pat, ss). map (\<lambda>s. (s, pmessage pat channel payload)) (ord ss)) ps))) =
      map (\<lambda>pat. pmessage pat channel payload) (filter (\<lambda>pat. on (patterns b) pat sid) (map fst ps))"
    if "set ps \<subseteq> set (patterns b)" for ps
    using that
  proof (induction ps)
    case (Cons p ps)
    obtain pat ss where p: "p = (pat, ss)" by (cases p)
    have ss: "subsOf (patterns b) pat = ss" "distinct (map fst ss)"
      using reg_entry [OF inv(2), of pat ss] subsOf_distinct [OF inv(2), of pat] Cons.prems p by auto
    show ?case using Cons p direct [OF ss(2), of "pmessage pat channel payload"] by (auto simp: on_def ss(1))
  qed simp
  have "map fst (sort_key fst (filter (\<lambda>p. Match b (fst p) channel) (patterns b))) =
      filter (\<lambda>pat. Match b pat channel) (sort (map fst (patterns b)))"
    using sort_key_fst [of "filter (\<lambda>p. Match b (fst p) channel) (patterns b)"] by (simp add: filter_sort filter_map comp_def)
  then show ?thesis
    using direct [OF subsOf_distinct [OF inv(1), of channel], of "message channel payload"]
      pats [of "sort_key fst (filter (\<lambda>p. Match b (fst p) channel) (patterns b))"]
    by (auto simp: hits_def owed_def on_def)
qed

definition reaches :: "broker \<Rightarrow> nat \<Rightarrow> bool" where
  "reaches b sid \<longleftrightarrow> (\<forall>name d. map_of (subsOf (channels b) name) sid = Some d \<longrightarrow> d) \<and>
     (\<forall>name d. map_of (subsOf (patterns b) name) sid = Some d \<longrightarrow> d)"

lemma ord_set: "reorders ord \<Longrightarrow> set (ord ss) = set ss"
  by (metis reorders_def set_mset_mset)

lemma ord_length: "reorders ord \<Longrightarrow> length (ord ss) = length ss"
  by (metis reorders_def size_mset)

lemma hits_reach:
  assumes "broker_inv b" "reorders ord" "reaches b sid" "((sid, d), v) \<in> set (hits ord b channel payload)"
  shows d
proof -
  have inv: "reg_inv (channels b)" "reg_inv (patterns b)" using assms(1) by (auto simp: broker_inv_def)
  consider "(sid, d) \<in> set (subsOf (channels b) channel)" | pat ss where "(pat, ss) \<in> set (patterns b)" "(sid, d) \<in> set ss"
    using assms(4) by (auto simp: hits_def ord_set [OF assms(2)])
  then show d
  proof cases
    case 1
    then show ?thesis using assms(3) map_of_is_SomeI [OF subsOf_distinct [OF inv(1), of channel]] unfolding reaches_def by blast
  next
    case 2
    then show ?thesis
      using assms(3) map_of_is_SomeI [OF subsOf_distinct [OF inv(2), of pat]] reg_entry [OF inv(2) 2(1)] unfolding reaches_def by blast
  qed
qed

lemma Publish_others:
  assumes "broker_inv b" "reorders ord" "reaches b sid" "sid \<noteq> selfID"
    "Publish ord b channel payload selfID hasSelf = (n, self, out)"
  shows "map snd (filter (\<lambda>d. fst d = sid) out) = owed b sid channel payload"
proof -
  let ?H = "hits ord b channel payload"
  have "filter (\<lambda>d. fst (fst d) = sid \<and> (fst (fst d) \<noteq> selfID \<and> snd (fst d))) ?H = filter (\<lambda>d. fst (fst d) = sid) ?H"
    using hits_reach [OF assms(1-3)] assms(4) by (intro filter_cong) auto
  then show ?thesis
    using hits_owed [OF assms(1,2), of sid channel payload] assms(5)
    by (auto simp: Publish_def Let_def filter_map comp_def conj_commute)
qed

lemma Publish_self:
  assumes "broker_inv b" "reorders ord" "Publish ord b channel payload selfID True = (n, self, out)"
  shows "self = owed b selfID channel payload"
  using hits_owed [OF assms(1,2), of selfID channel payload] assms(3) by (auto simp: Publish_def Let_def)

text \<open>The reply counts deliveries.\<close>

lemma Publish_count:
  assumes "reorders ord"
  shows "fst (Publish ord b channel payload selfID hasSelf) =
    length (subsOf (channels b) channel) +
    sum_list (map (\<lambda>p. if Match b (fst p) channel then length (snd p) else 0) (patterns b))"
proof -
  let ?ps = "filter (\<lambda>p. Match b (fst p) channel) (patterns b)"
  have "sum_list (map (\<lambda>p. length (snd p)) (sort_key fst ?ps)) = sum_list (map (\<lambda>p. length (snd p)) ?ps)"
    unfolding sum_mset_sum_list [symmetric] by simp
  also have "\<dots> = sum_list (map (\<lambda>p. if Match b (fst p) channel then length (snd p) else 0) (patterns b))"
    unfolding sum_list_map_filter' by (simp add: split_beta cong: if_cong)
  finally show ?thesis
    by (simp add: Publish_def hits_def Let_def length_concat comp_def split_beta ord_length [OF assms])
qed

section \<open>Connections and the registry\<close>

definition in_step :: "psconn \<Rightarrow> broker \<Rightarrow> bool" where
  "in_step cs b \<longleftrightarrow> distinct (c_subs cs) \<and> distinct (c_psubs cs) \<and>
     (\<forall>ch. on (channels b) ch (c_id cs) \<longleftrightarrow> ch \<in> set (c_subs cs)) \<and>
     (\<forall>pat. on (patterns b) pat (c_id cs) \<longleftrightarrow> pat \<in> set (c_psubs cs))"

text \<open>A step of one connection leaves every other connection's registrations as they were.\<close>

definition same_others :: "nat \<Rightarrow> broker \<Rightarrow> broker \<Rightarrow> bool" where
  "same_others sid b b' \<longleftrightarrow> (\<forall>i name. i \<noteq> sid \<longrightarrow>
     map_of (subsOf (channels b') name) i = map_of (subsOf (channels b) name) i \<and>
     map_of (subsOf (patterns b') name) i = map_of (subsOf (patterns b) name) i)"

definition good_step :: "psconn \<Rightarrow> broker \<Rightarrow> psconn \<Rightarrow> broker \<Rightarrow> bool" where
  "good_step cs b cs' b' \<longleftrightarrow> (broker_inv b \<longrightarrow> broker_inv b') \<and> (in_step cs b \<longrightarrow> in_step cs' b') \<and>
     same_others (c_id cs) b b' \<and> c_id cs' = c_id cs \<and> Match b' = Match b"

lemma good_step_refl [simp]: "good_step cs b cs b"
  by (simp add: good_step_def same_others_def)

lemma good_step_trans: "good_step cs b cs1 b1 \<Longrightarrow> good_step cs1 b1 cs2 b2 \<Longrightarrow> good_step cs b cs2 b2"
  by (auto simp: good_step_def same_others_def)

lemma good_subscribe: "ch \<notin> set (c_subs cs) \<Longrightarrow> good_step cs b (cs\<lparr>c_subs := ch # c_subs cs\<rparr>) (Subscribe b ch (c_id cs) d)"
  by (auto simp: good_step_def broker_inv_def in_step_def same_others_def Subscribe_def regAdd_inv subsOf_regAdd update_conv')

lemma good_psubscribe: "pat \<notin> set (c_psubs cs) \<Longrightarrow> good_step cs b (cs\<lparr>c_psubs := pat # c_psubs cs\<rparr>) (PSubscribe b pat (c_id cs) d)"
  by (auto simp: good_step_def broker_inv_def in_step_def same_others_def PSubscribe_def regAdd_inv subsOf_regAdd update_conv')

lemma good_unsubOne: "good_step cs b (fst (unsubOne pattern t cs b)) (snd (unsubOne pattern t cs b))"
  by (auto simp: unsubOne_def good_step_def broker_inv_def in_step_def same_others_def Unsubscribe_def PUnsubscribe_def
      regDel_inv subsOf_regDel delete_conv' distinct_removeAll split: option.split)

lemma good_ensure: "good_step cs b (ensureDeliver cs) b" "c_subs (ensureDeliver cs) = c_subs cs"
  by (auto simp: ensureDeliver_def good_step_def in_step_def same_others_def)

lemma good_emit: "good_step cs b (snd (emitFrames cs fs)) b"
  by (auto simp: emitFrames_def good_step_def in_step_def same_others_def)

lemma good_subscribe_loop:
  "good_step cs b (fst (snd (subscribe_loop chs cs b))) (snd (snd (subscribe_loop chs cs b))) \<and>
   set (c_subs (fst (snd (subscribe_loop chs cs b)))) = set (c_subs cs) \<union> set chs"
proof (induction chs arbitrary: cs b)
  case (Cons ch chs)
  show ?case
  proof (cases "ch \<in> set (c_subs cs)")
    case False
    let ?cs = "cs\<lparr>c_subs := ch # c_subs cs\<rparr>" and ?b = "Subscribe b ch (c_id cs) (c_deliver cs)"
    show ?thesis using Cons.IH [of ?cs ?b] good_step_trans [OF good_subscribe [OF False, of b "c_deliver cs"]] False by (simp add: split_beta Let_def)
  qed (use Cons in \<open>auto simp: split_beta Let_def\<close>)
qed simp

lemma good_psubscribe_loop:
  "good_step cs b (fst (snd (psubscribe_loop pats cs b))) (snd (snd (psubscribe_loop pats cs b))) \<and>
   set (c_psubs (fst (snd (psubscribe_loop pats cs b)))) = set (c_psubs cs) \<union> set pats"
proof (induction pats arbitrary: cs b)
  case (Cons pat pats)
  show ?case
  proof (cases "pat \<in> set (c_psubs cs)")
    case False
    let ?cs = "cs\<lparr>c_psubs := pat # c_psubs cs\<rparr>" and ?b = "PSubscribe b pat (c_id cs) (c_deliver cs)"
    show ?thesis using Cons.IH [of ?cs ?b] good_step_trans [OF good_psubscribe [OF False, of b "c_deliver cs"]] False by (simp add: split_beta Let_def)
  qed (use Cons in \<open>auto simp: split_beta Let_def\<close>)
qed simp

lemma good_unsub_targets: "good_step cs b (fst (snd (unsub_targets p ts cs b))) (snd (snd (unsub_targets p ts cs b)))"
proof (induction ts arbitrary: cs b)
  case (Cons t ts)
  then show ?case using good_step_trans [OF good_unsubOne [of cs b p t]] by (simp add: split_beta Let_def)
qed simp

lemma emit_sel [simp]: "c_subs (snd (emitFrames cs fs)) = c_subs cs" "c_psubs (snd (emitFrames cs fs)) = c_psubs cs"
  "c_id (snd (emitFrames cs fs)) = c_id cs"
  by (simp_all add: emitFrames_def)

lemma good_chain: "good_step cs b cs1 b \<Longrightarrow> good_step cs1 b cs2 b2 \<Longrightarrow> good_step cs b (snd (emitFrames cs2 fs)) b2"
  using good_step_trans good_emit by blast

lemma pubsub_good:
  "good_step cs b (fst (snd (cmdSubscribe cs args b))) (snd (snd (cmdSubscribe cs args b)))"
  "good_step cs b (fst (snd (cmdPSubscribe cs args b))) (snd (snd (cmdPSubscribe cs args b)))"
  "good_step cs b (fst (snd (unsubscribe cs args pattern b))) (snd (snd (unsubscribe cs args pattern b)))"
  using good_chain [OF good_ensure(1) conjunct1 [OF good_subscribe_loop]] good_chain [OF good_ensure(1) conjunct1 [OF good_psubscribe_loop]]
    good_chain [OF good_step_refl good_unsub_targets]
  by (simp_all add: cmdSubscribe_def cmdPSubscribe_def unsubscribe_def split_beta Let_def)

lemma cmdSubscribe_subs: "set (c_subs (fst (snd (cmdSubscribe cs args b)))) = set (c_subs cs) \<union> set (tl args)"
  by (simp add: cmdSubscribe_def split_beta Let_def good_subscribe_loop good_ensure(2))

text \<open>Closing a connection removes it from the registry and nothing else.\<close>

lemma UnsubscribeAll_spec:
  assumes "broker_inv b" "UnsubscribeAll b sid = ((chs, pats), b')"
  shows "broker_inv b'" "\<not> on (channels b') name sid \<and> \<not> on (patterns b') name sid" "same_others sid b b'"
    "set chs = {ch. on (channels b) ch sid}" "set pats = {pat. on (patterns b) pat sid}"
  using assms(2) unsub_loop_spec [of "channels b" sid] unsub_loop_spec [of "patterns b" sid] assms(1)
  by (auto simp: UnsubscribeAll_def broker_inv_def same_others_def on_def delete_conv' split_beta Let_def)

text \<open>A subscribed connection gets the message: SUBSCRIBE, then PUBLISH from another connection.\<close>

lemma subscribe_publish:
  assumes "broker_inv b" "in_step cs b" "reorders ord" "ch \<in> set (tl args)" "c_id cs \<noteq> c_id cs'"
    and b': "b' = snd (snd (cmdSubscribe cs args b))" and "reaches b' (c_id cs)"
    and "cmdPublish ord cs' [''PUBLISH'', ch, payload] b' = (r, cs'', out)"
  shows "(c_id cs, message ch payload) \<in> set out"
proof -
  have g: "good_step cs b (fst (snd (cmdSubscribe cs args b))) b'" using pubsub_good(1) b' by simp
  then have inv: "broker_inv b'" and step: "in_step (fst (snd (cmdSubscribe cs args b))) b'"
    and i: "c_id (fst (snd (cmdSubscribe cs args b))) = c_id cs" using assms(1,2) by (auto simp: good_step_def)
  have "on (channels b') ch (c_id cs)" using step assms(4) cmdSubscribe_subs [of cs args b] unfolding in_step_def i by blast
  then have "message ch payload \<in> set (owed b' (c_id cs) ch payload)" by (simp add: owed_def)
  moreover obtain n self where "Publish ord b' ch payload (c_id cs') True = (n, self, out)"
    using assms(8) by (auto simp: cmdPublish_def split_beta Let_def prod_eq_iff)
  then have "map snd (filter (\<lambda>d. fst d = c_id cs) out) = owed b' (c_id cs) ch payload"
    using Publish_others [OF inv assms(3,7)] assms(5) by blast
  ultimately have "message ch payload \<in> snd ` {d \<in> set out. fst d = c_id cs}" by (metis list.set_map set_filter)
  then show ?thesis by force
qed

end
