(* ===== verification/Scan.thy ===== *)
theory Scan
  imports Glob
begin

text \<open>
  Iteration: the option tail and the window of HSCAN and SSCAN (\<^verbatim>\<open>scanOpts\<close>, \<^verbatim>\<open>scanWindow\<close> of
  \<^verbatim>\<open>src/lib/commands/coll.go\<close>), \<^verbatim>\<open>cmdHScan\<close> and \<^verbatim>\<open>cmdSScan\<close>, and KEYS and SCAN
  (\<^verbatim>\<open>src/lib/commands/keys.go\<close>) over \<^verbatim>\<open>AllKeys\<close> and \<^verbatim>\<open>Scan\<close> of \<^verbatim>\<open>src/lib/shard/shard.go\<close>.

  A client iterates by sending back the cursor of each reply until it is 0. \<open>scanPages\<close> is that
  loop over an unchanging collection, with fuel: it ends, after the number of calls the page size
  gives, and the pages together are the items that match, each once and in order. For SCAN the
  cursor is that of the table package, whose iterators are parameters with the contract of
  \<^verbatim>\<open>docs/pluto/11-hash-table-cursor-scan.md\<close> (\<open>scan_laws\<close>).
\<close>

section \<open>Options and window\<close>

text \<open>The loop of \<^verbatim>\<open>scanOpts\<close> from \<open>args[i]\<close> on; \<^verbatim>\<open>cmdScan\<close> has the same loop inline.\<close>

fun scanopts_loop :: "string list \<Rightarrow> string option \<Rightarrow> int \<Rightarrow> rv + (string option \<times> int)" where
  "scanopts_loop [] match cnt = Inr (match, cnt)"
| "scanopts_loop (a # rest) match cnt =
     (if lowerASCII a = ''match''
      then (case rest of [] \<Rightarrow> Inl errSyntax | pat # rest' \<Rightarrow> scanopts_loop rest' (Some pat) cnt)
      else if lowerASCII a = ''count''
      then (case rest of [] \<Rightarrow> Inl errSyntax
            | n # rest' \<Rightarrow>
                (case parseIntStrict n of None \<Rightarrow> Inl errNotInt
                 | Some v \<Rightarrow> if v \<le> 0 then Inl errSyntax else scanopts_loop rest' match v))
      else Inl errSyntax)"

definition scanOpts :: "string list \<Rightarrow> nat \<Rightarrow> rv + (string option \<times> int)" where
  "scanOpts args i = scanopts_loop (drop i args) None 10"

text \<open>\<open>cursor\<close> is a \<^verbatim>\<open>uint64\<close>, and so is the sum with the count.\<close>

definition scanWindow :: "'a list \<Rightarrow> nat \<Rightarrow> int \<Rightarrow> ('a \<Rightarrow> bool) \<Rightarrow> 'a list \<times> string" where
  "scanWindow items cursor cnt keep =
     (if length items < cursor then ([], ''0'')
      else let e = (cursor + nat (cnt mod 2 ^ 64)) mod 2 ^ 64;
               e' = (if length items \<le> e then length items else e);
               out = filter keep (take (e' - cursor) (drop cursor items))
           in if length items \<le> e' then (out, ''0'') else (out, uintToStr e'))"

definition matchOpt :: "string option \<Rightarrow> string \<Rightarrow> bool" where
  "matchOpt match s = (case match of None \<Rightarrow> True | Some pat \<Rightarrow> GlobMatch pat s)"

section \<open>HSCAN and SSCAN\<close>

definition errCursor :: rv where "errCursor = RErr ''ERR invalid cursor''"

definition scanReply :: "string \<Rightarrow> rv list \<Rightarrow> rv" where
  "scanReply next out = RArr [RBlob next, RArr out]"

definition hscanItems :: "(string \<times> string) list \<Rightarrow> nat \<Rightarrow> string list \<Rightarrow> rv" where
  "hscanItems items cursor args =
     (case scanOpts args 3 of
        Inl e \<Rightarrow> e
      | Inr (match, cnt) \<Rightarrow>
          (let (kept, next) = scanWindow items cursor cnt (\<lambda>p. matchOpt match (fst p))
           in scanReply next (pairReply kept)))"

definition cmdHScan :: "('q, 'z, 't, 'h, 'l, 'f) packages \<Rightarrow> nat \<Rightarrow> string list \<Rightarrow> ('q, 'z, 't, 'h, 'l, 'f) st \<Rightarrow> rv \<times> ('q, 'z, 't, 'h, 'l, 'f) st" where
  "cmdHScan P db args g =
     (case parseCursor (args ! 2) of
        None \<Rightarrow> (errCursor, g)
      | Some cursor \<Rightarrow>
          (let key = args ! 1
           in doKey P key (\<lambda>i g.
                let ((ent, wt), g1) = getColl P i g db key TypeHash
                in if wt then (errWrongType, g1)
                   else (case ent of
                           None \<Rightarrow> scanReply ''0'' []
                         | Some a \<Rightarrow> hscanItems (HashEach (hashOf (Val (ents g1 a)))) cursor args, g1)) g))"

definition sscanItems :: "string list \<Rightarrow> nat \<Rightarrow> string list \<Rightarrow> rv" where
  "sscanItems items cursor args =
     (case scanOpts args 3 of
        Inl e \<Rightarrow> e
      | Inr (match, cnt) \<Rightarrow>
          (let (kept, next) = scanWindow items cursor cnt (matchOpt match)
           in scanReply next (map RBlob kept)))"

definition cmdSScan :: "('q, 'z, 't, 'h, 'l, 'f) packages \<Rightarrow> iteration \<Rightarrow> nat \<Rightarrow> string list \<Rightarrow> ('q, 'z, 't, 'h, 'l, 'f) st \<Rightarrow> rv \<times> ('q, 'z, 't, 'h, 'l, 'f) st" where
  "cmdSScan P iter db args g =
     (case parseCursor (args ! 2) of
        None \<Rightarrow> (errCursor, g)
      | Some cursor \<Rightarrow>
          (let key = args ! 1
           in doKey P key (\<lambda>i g.
                let ((ent, wt), g1) = getColl P i g db key TypeSet
                in if wt then (errWrongType, g1)
                   else (case ent of
                           None \<Rightarrow> scanReply ''0'' []
                         | Some a \<Rightarrow> sscanItems (SetMembers (iter 0) (setOf (Val (ents g1 a)))) cursor args, g1)) g))"

section \<open>KEYS and SCAN\<close>

text \<open>The whole-table iterators of the hash table package.\<close>

record 't iterators =
  th_walk :: "'t \<Rightarrow> (string \<times> addr) list"
  th_scan :: "'t \<Rightarrow> nat \<Rightarrow> int \<Rightarrow> (string \<times> addr) list \<times> nat"

definition liveItems :: "('q, 'z, 't, 'h, 'l, 'f) st \<Rightarrow> (string \<times> addr) list \<Rightarrow> string list" where
  "liveItems g items = map fst (filter (\<lambda>it. \<not> due (ents g (snd it)) (NowMs g)) items)"

definition AllKeys :: "'t iterators \<Rightarrow> ('q, 'z, 't, 'h, 'l, 'f) st \<Rightarrow> nat \<Rightarrow> string list" where
  "AllKeys W g db = liveItems g (th_walk W (dbs g db))"

definition ScanDB :: "'t iterators \<Rightarrow> ('q, 'z, 't, 'h, 'l, 'f) st \<Rightarrow> nat \<Rightarrow> nat \<Rightarrow> int \<Rightarrow> string list \<times> nat" where
  "ScanDB W g db cursor cnt = (let (items, next) = th_scan W (dbs g db) cursor cnt in (liveItems g items, next))"

definition cmdKeys :: "'t iterators \<Rightarrow> nat \<Rightarrow> string list \<Rightarrow> ('q, 'z, 't, 'h, 'l, 'f) st \<Rightarrow> rv" where
  "cmdKeys W db args g =
     (let pattern = args ! 1; all = (pattern = ''*'')
      in RArr (map RBlob (filter (\<lambda>key. all \<or> GlobMatch pattern key) (AllKeys W g db))))"

definition cmdScan :: "'t iterators \<Rightarrow> nat \<Rightarrow> string list \<Rightarrow> ('q, 'z, 't, 'h, 'l, 'f) st \<Rightarrow> rv" where
  "cmdScan W db args g =
     (case parseCursor (args ! 1) of
        None \<Rightarrow> errCursor
      | Some cursor \<Rightarrow>
          (case scanopts_loop (drop 2 args) None 10 of
             Inl e \<Rightarrow> e
           | Inr (match, cnt) \<Rightarrow>
               (let (keys, next) = ScanDB W g db cursor cnt
                in scanReply (uintToStr next) (map RBlob (filter (matchOpt match) keys)))))"

section \<open>Options\<close>

text \<open>The count is positive and an \<^verbatim>\<open>int64\<close> whenever the options are accepted.\<close>

lemma scanopts_cnt:
  "scanopts_loop args m c = Inr (match, cnt) \<Longrightarrow> 0 < c \<Longrightarrow> is_i64 c \<Longrightarrow> 0 < cnt \<and> is_i64 cnt"
proof (induction args m c rule: scanopts_loop.induct)
  case (2 a rest m c)
  have "is_i64 v" if "parseIntStrict n = Some v" for n v
    using that ParseInt64_range by (simp add: parseIntStrict_eq_ParseInt64)
  with 2 show ?case by (fastforce split: if_splits list.splits option.splits)
qed simp

lemma scanOpts_cnt: "scanOpts args i = Inr (match, cnt) \<Longrightarrow> 0 < cnt \<and> cnt < 2 ^ 63"
  using scanopts_cnt [of "drop i args" None 10] by (force simp: scanOpts_def is_i64_def)

section \<open>A full iteration\<close>

lemma parseCursor_uintToStr: "n < 2 ^ 63 \<Longrightarrow> parseCursor (uintToStr n) = Some n"
proof -
  assume n: "n < 2 ^ 63"
  then have "int n < 2 ^ 63" by (metis of_nat_less_iff of_nat_numeral of_nat_power)
  then have "parseIntStrict (uintToStr n) = Some (int n)"
    by (simp add: uintToStr_eq_FormatInt parseIntStrict_eq_ParseInt64 ParseInt64_FormatInt is_i64_def)
  moreover have "int n mod 2 ^ 64 = int n" using \<open>int n < 2 ^ 63\<close> by simp
  ultimately show ?thesis unfolding parseCursor_def by simp
qed

lemma uintToStr_zero: "n < 2 ^ 63 \<Longrightarrow> uintToStr n = ''0'' \<longleftrightarrow> n = 0"
  using parseCursor_uintToStr [of n] parseCursor_uintToStr [of 0] by (auto simp: uintToStr_def)

lemma scanWindow_eq:
  assumes "length items < 2 ^ 63" "0 < cnt" "cnt < 2 ^ 63" "cursor \<le> length items"
  shows "scanWindow items cursor cnt keep =
    (filter keep (take (nat cnt) (drop cursor items)),
     if length items \<le> cursor + nat cnt then ''0'' else uintToStr (cursor + nat cnt))"
proof -
  have "cnt mod 2 ^ 64 = cnt" using assms(2,3) by simp
  moreover have "nat cnt < 2 ^ 63" using assms(3) by (simp add: nat_less_iff)
  then have "cursor + nat cnt < 2 ^ 64" using assms(1,4) by simp
  ultimately show ?thesis using assms(4) by (simp add: scanWindow_def Let_def)
qed

fun scanPages :: "nat \<Rightarrow> 'a list \<Rightarrow> string \<Rightarrow> int \<Rightarrow> ('a \<Rightarrow> bool) \<Rightarrow> 'a list option" where
  "scanPages 0 items cursor cnt keep = None"
| "scanPages (Suc n) items cursor cnt keep =
     (case parseCursor cursor of
        None \<Rightarrow> None
      | Some c \<Rightarrow>
          (let (out, next) = scanWindow items c cnt keep
           in if next = ''0'' then Some out else map_option ((@) out) (scanPages n items next cnt keep)))"

lemma scanPages_from:
  assumes "length items < 2 ^ 63" "0 < cnt" "cnt < 2 ^ 63"
  shows "c \<le> length items \<Longrightarrow> length items - c \<le> Suc n * nat cnt \<Longrightarrow>
    scanPages (Suc n) items (uintToStr c) cnt keep = Some (filter keep (drop c items))"
proof (induction n arbitrary: c)
  case 0
  then show ?case using assms parseCursor_uintToStr [of c] scanWindow_eq [OF assms, of c keep] by (simp add: le_diff_conv)
next
  case (Suc n)
  note W = scanWindow_eq [OF assms Suc.prems(1), of keep]
  have c: "parseCursor (uintToStr c) = Some c" using parseCursor_uintToStr [of c] Suc.prems(1) assms(1) by simp
  show ?case
  proof (cases "length items \<le> c + nat cnt")
    case True
    then show ?thesis unfolding scanPages.simps(2) [of "Suc n"] c using W by simp
  next
    case False
    have "scanPages (Suc n) items (uintToStr (c + nat cnt)) cnt keep = Some (filter keep (drop (c + nat cnt) items))"
      using Suc False by simp
    moreover have "uintToStr (c + nat cnt) \<noteq> ''0''" using uintToStr_zero [of "c + nat cnt"] False assms by linarith
    moreover have "filter keep (drop c items) = filter keep (take (nat cnt) (drop c items)) @ filter keep (drop (c + nat cnt) items)"
      by (metis append_take_drop_id drop_drop filter_append add.commute)
    ultimately show ?thesis unfolding scanPages.simps(2) [of "Suc n"] c using W False by simp
  qed
qed

lemma scanPages_full:
  assumes "length items < 2 ^ 63" "0 < cnt" "cnt < 2 ^ 63" "length items \<le> Suc n * nat cnt"
  shows "scanPages (Suc n) items ''0'' cnt keep = Some (filter keep items)"
  using scanPages_from [OF assms(1-3), of 0 n keep] assms(4) by (simp add: uintToStr_def)

text \<open>
  A set in its hash-table form is a Go map, and each call walks it in an order of its own. The
  offset cursor then counts in two different orders, and a complete iteration can miss members.
\<close>

definition page2 :: "iteration \<Rightarrow> gset \<Rightarrow> int \<Rightarrow> string list" where
  "page2 iter s cnt =
     (let (out1, next1) = scanWindow (SetMembers (iter 0) s) 0 cnt (\<lambda>_. True)
      in if next1 = ''0'' then out1
         else case parseCursor next1 of None \<Rightarrow> out1
              | Some c \<Rightarrow> out1 @ fst (scanWindow (SetMembers (iter 1) s) c cnt (\<lambda>_. True)))"

lemma sscan_can_miss:
  defines "s \<equiv> \<lparr>ints = [], isInt = False, member = {''a'', ''b''}, sbytes = 2\<rparr>"
  shows "\<exists>iter. (\<forall>n. enumerates (iter n)) \<and> set_inv s \<and> set (page2 iter s 1) \<noteq> set_elems s"
proof -
  obtain f where f: "\<And>S :: string set. finite S \<Longrightarrow> set (f S) = S \<and> distinct (f S)"
    using finite_distinct_list by metis
  define iter where "iter n S = (if S = {''a'', ''b''} then (if n = 0 then [''a'', ''b''] else [''b'', ''a'']) else f S)"
    for n :: nat and S
  have "enumerates (iter n)" for n using f by (auto simp: enumerates_def iter_def)
  moreover have "SetMembers (iter 0) s = [''a'', ''b'']" "SetMembers (iter 1) s = [''b'', ''a'']"
    by (simp_all add: SetMembers_def s_def iter_def)
  then have "page2 iter s 1 = [''a'', ''a'']"
    using scanWindow_eq [of "[''a'', ''b'']" 1 0 "\<lambda>_. True"] scanWindow_eq [of "[''b'', ''a'']" 1 1 "\<lambda>_. True"]
      parseCursor_uintToStr [of 1] uintToStr_zero [of 1]
    by (simp add: page2_def)
  ultimately show ?thesis by (intro exI [of _ iter]) (auto simp: set_elems_def s_def set_inv_def)
qed

section \<open>What the commands do\<close>

definition scanAt :: "('c \<Rightarrow> rv) \<Rightarrow> (aval \<Rightarrow> 'c option) \<Rightarrow> int \<Rightarrow> kentry \<Rightarrow> rv \<times> kentry" where
  "scanAt f dst now old = (case old of None \<Rightarrow> (scanReply ''0'' [], None)
     | Some (v, t) \<Rightarrow> (case dst v of None \<Rightarrow> (errWrongType, old) | Some c \<Rightarrow> (f c, old)))"

context pluto_laws
begin

lemma hscan_refines:
  assumes "ptr_ok P g" "maxMemory g \<le> 0" "vals_ok P g" "no_empty (kv P g)" "parseCursor (args ! 2) = Some cursor"
  shows "refines P db (args ! 1) (scanAt (\<lambda>m. hscanItems m cursor args) asHash) g (cmdHScan P db args g)"
  unfolding refines_def cmdHScan_def assms(5) option.case Let_def
  by (rule doKey_coll [where Q = "\<lambda>r K. r = _ \<and> K = _", OF assms(1-4)])
    (auto simp: scanAt_def HashEach_def elim!: hash_cases split: option.splits)

lemma sscan_refines:
  assumes "ptr_ok P g" "maxMemory g \<le> 0" "vals_ok P g" "no_empty (kv P g)" "parseCursor (args ! 2) = Some cursor"
    "enumerates (iter 0)"
  shows "\<exists>ms. distinct ms \<and> set ms = setAt (kv P g db (args ! 1)) \<and>
    refines P db (args ! 1) (scanAt (\<lambda>S. sscanItems ms cursor args) asSet) g (cmdSScan P iter db args g)"
  unfolding refines_def cmdSScan_def assms(5) option.case Let_def
proof (rule doKey_coll [where Q = "\<lambda>r K. \<exists>ms. distinct ms \<and> set ms = _ \<and> r = _ ms \<and> K = _ ms", OF assms(1-4)], goal_cases)
  case (3 i a g1)
  then obtain s where s: "Val (ents g1 a) = VSet s" "set_inv s" by (auto elim!: set_cases)
  show ?case
    using 3(1,4,7,10) s SetMembers_elems [OF s(2) assms(6)]
    by (auto simp: scanAt_def intro!: exI [of _ "SetMembers (iter 0) s"])
qed (auto simp: scanAt_def intro!: exI [of _ "[]"])

lemma scan_acts:
  assumes "kbits g = k" "db < maxDBs g"
  shows "acts P k g (snd (cmdHScan P db args g))" "acts P k g (snd (cmdSScan P iter db args g))"
  unfolding cmdHScan_def cmdSScan_def Let_def
  by (cases "parseCursor (args ! 2)"; simp; (rule acts_getColl [OF assms]; simp split: prod.split option.split))+

end

section \<open>The table iterators\<close>

fun tabPages :: "'t iterators \<Rightarrow> 't \<Rightarrow> int \<Rightarrow> nat \<Rightarrow> nat \<Rightarrow> (string \<times> addr) list option" where
  "tabPages W t cnt 0 cursor = None"
| "tabPages W t cnt (Suc n) cursor =
     (let (items, next) = th_scan W t cursor cnt
      in if next = 0 then Some items else map_option ((@) items) (tabPages W t cnt n next))"

text \<open>
  A walk visits every element once; a full iteration over a table that does not change ends and
  returns every element at least once, and no iteration returns anything else.
\<close>

locale scan_laws = table_laws +
  fixes W :: "'a iterators"
  assumes walk_set: "set (th_walk W t) = {(k, a). th_search T t k = Some a}"
    and walk_distinct: "distinct (map fst (th_walk W t))"
    and scan_subset: "set (fst (th_scan W t c cnt)) \<subseteq> {(k, a). th_search T t k = Some a}"
    and scan_full: "0 < cnt \<Longrightarrow> \<exists>n items. tabPages W t cnt n 0 = Some items \<and> {(k, a). th_search T t k = Some a} \<subseteq> set items"
begin

lemma tabPages_subset: "tabPages W t cnt n c = Some items \<Longrightarrow> set items \<subseteq> {(k, a). th_search T t k = Some a}"
proof (induction n arbitrary: c items)
  case (Suc n)
  then show ?case using scan_subset [of t c cnt] by (fastforce simp: split_beta Let_def split: if_splits)
qed simp

lemma scan_exact: "0 < cnt \<Longrightarrow> \<exists>n items. tabPages W t cnt n 0 = Some items \<and> set items = {(k, a). th_search T t k = Some a}"
  using scan_full tabPages_subset by (metis subset_antisym)

end

text \<open>The live keys, and what KEYS replies.\<close>

lemma liveItems_set:
  assumes "set items = {(key, a). th_search (PT P) (dbs g db) key = Some a}"
  shows "set (liveItems g items) = {key. kv P g db key \<noteq> None}"
  using assms by (force simp: liveItems_def kv_view view_def search_def image_iff split: option.splits if_splits)

lemma AllKeys_spec:
  assumes "scan_laws (PT P) route W"
  shows "set (AllKeys W g db) = {key. kv P g db key \<noteq> None}" "distinct (AllKeys W g db)"
proof -
  show "set (AllKeys W g db) = {key. kv P g db key \<noteq> None}"
    unfolding AllKeys_def by (rule liveItems_set [OF scan_laws.walk_set [OF assms]])
  show "distinct (AllKeys W g db)"
    using scan_laws.walk_distinct [OF assms, of "dbs g db"] by (simp add: AllKeys_def liveItems_def distinct_map_filter)
qed

lemma cmdKeys_spec:
  assumes "scan_laws (PT P) route W"
  shows "\<exists>keys. cmdKeys W db args g = RArr (map RBlob keys) \<and> distinct keys \<and>
    set keys = {key. kv P g db key \<noteq> None \<and> GlobMatch (args ! 1) key}"
proof -
  have star: "GlobMatch ''*'' key" for key by simp
  show ?thesis unfolding cmdKeys_def Let_def
    by (intro exI [of _ "filter (\<lambda>key. args ! 1 = ''*'' \<or> GlobMatch (args ! 1) key) (AllKeys W g db)"])
      (use AllKeys_spec [OF assms, of g db] star in auto)
qed

text \<open>A client that sends the cursor back until it is 0.\<close>

fun scanSession :: "'t iterators \<Rightarrow> nat \<Rightarrow> string list \<Rightarrow> ('q, 'z, 't, 'h, 'l, 'f) st \<Rightarrow> nat \<Rightarrow> string \<Rightarrow> rv list option" where
  "scanSession W db opts g 0 cursor = None"
| "scanSession W db opts g (Suc n) cursor =
     (case cmdScan W db (''SCAN'' # cursor # opts) g of
        RArr [RBlob next, RArr ks] \<Rightarrow>
          if next = ''0'' then Some ks else map_option ((@) ks) (scanSession W db opts g n next)
      | _ \<Rightarrow> None)"

lemma scanSession_pages:
  assumes opts: "scanopts_loop opts None 10 = Inr (match, cnt)"
    and small: "\<And>c. snd (th_scan W (dbs g db) c cnt) < 2 ^ 63"
  shows "c < 2 ^ 63 \<Longrightarrow> tabPages W (dbs g db) cnt n c = Some items \<Longrightarrow>
    scanSession W db opts g n (uintToStr c) = Some (map RBlob (filter (matchOpt match) (liveItems g items)))"
proof (induction n arbitrary: c items)
  case (Suc n)
  obtain its nx where s: "th_scan W (dbs g db) c cnt = (its, nx)" by fastforce
  have nx: "nx < 2 ^ 63" using small [of c] s by simp
  show ?case
    using Suc nx s opts uintToStr_zero [OF nx]
    by (auto simp: cmdScan_def parseCursor_uintToStr ScanDB_def scanReply_def liveItems_def split: if_splits)
qed simp

lemma scan_complete:
  assumes "scan_laws (PT P) route W" "scanopts_loop opts None 10 = Inr (match, cnt)"
    and "\<And>c. snd (th_scan W (dbs g db) c cnt) < 2 ^ 63"
  shows "\<exists>n ks. scanSession W db opts g n ''0'' = Some (map RBlob ks) \<and> set ks = {key. kv P g db key \<noteq> None \<and> matchOpt match key}"
proof -
  have "0 < cnt" using scanopts_cnt [OF assms(2)] by (simp add: is_i64_def)
  then obtain n items where t: "tabPages W (dbs g db) cnt n 0 = Some items"
    "set items = {(key, a). th_search (PT P) (dbs g db) key = Some a}"
    using scan_laws.scan_exact [OF assms(1)] by metis
  have "scanSession W db opts g n ''0'' = Some (map RBlob (filter (matchOpt match) (liveItems g items)))"
    using scanSession_pages [OF assms(2,3), of 0 n items] t(1) by (simp add: uintToStr_def)
  then show ?thesis using liveItems_set [OF t(2)] by (intro exI [of _ n] exI [of _ "filter (matchOpt match) (liveItems g items)"]) auto
qed

text \<open>The iterators of the list-backed table: a walk, and a scan that hands out one element per call.\<close>

definition listW :: "(string \<times> addr) list iterators" where
  "listW = \<lparr>th_walk = AList.clearjunk,
     th_scan = (\<lambda>t c cnt. (take 1 (drop c (AList.clearjunk t)), if Suc c < length (AList.clearjunk t) then Suc c else 0))\<rparr>"

lemma listW_pages:
  "length (AList.clearjunk t) - c \<le> Suc n \<Longrightarrow> tabPages listW t cnt (Suc n) c = Some (drop c (AList.clearjunk t))"
proof (induction n arbitrary: c)
  case (Suc n)
  then show ?case
    by (subst tabPages.simps(2)) (auto simp: listW_def Let_def Cons_nth_drop_Suc take_Suc_conv_app_nth take_Suc hd_drop_conv_nth)
qed (auto simp: listW_def)

interpretation lw: scan_laws "listT route" route listW
proof unfold_locales
  fix t :: "(string \<times> addr) list" and cnt :: int
  show "\<exists>n items. tabPages listW t cnt n 0 = Some items \<and> {(k, a). th_search (listT route) t k = Some a} \<subseteq> set items"
    using listW_pages [where t = t and c = 0 and n = "length (AList.clearjunk t)" and cnt = cnt]
    by (intro exI [of _ "Suc (length (AList.clearjunk t))"] exI [of _ "AList.clearjunk t"])
      (auto simp: listT_def mem_clearjunk simp del: tabPages.simps)
qed (auto simp: listW_def listT_def mem_clearjunk AList.distinct_clearjunk dest!: in_set_takeD in_set_dropD)

end
