(* ===== verification/Introspect.thy ===== *)
theory Introspect
  imports Tasks
begin

text \<open>
  The slow log, the latency table and the MONITOR feed (\<^verbatim>\<open>src/lib/commands/slowlog.go\<close>,
  \<^verbatim>\<open>monitor.go\<close> and \<^verbatim>\<open>monitorArgs\<close> of \<^verbatim>\<open>engine.go\<close>). Measured durations and wall-clock times are
  arguments. The lemmas show that the ring always holds the newest entries with consecutive
  identifiers, that the latency table counts every command, and that an escaped argument can be
  read back and never contains a bare quote, a control byte or a line end.
\<close>

section \<open>The slow log\<close>

record slowlogEntry =
  sl_id :: int
  Timestamp :: int
  DurationUs :: int
  sl_args :: "string list"
  ClientAddr :: string
  ClientName :: string

record slowlogRing =
  entries :: "slowlogEntry list"
  nextID :: int

definition slowlogArg :: "string \<Rightarrow> string" where
  "slowlogArg s = (if 128 < length s then take 125 s @ ''...'' else s)"

definition slowlogAdd :: "slowlogRing \<Rightarrow> slowlogEntry \<Rightarrow> int \<Rightarrow> slowlogRing" where
  "slowlogAdd r entry maxLen =
     (let es = entries r @ [entry\<lparr>sl_id := nextID r\<rparr>]; over = int (length es) - maxLen
      in \<lparr>entries = (if 0 < over then drop (nat over) es else es), nextID = wrap64 (nextID r + 1)\<rparr>)"

definition slowlogGet :: "slowlogRing \<Rightarrow> int \<Rightarrow> slowlogEntry list" where
  "slowlogGet r cnt =
     (let n = (if 0 < cnt \<and> cnt < int (length (entries r)) then nat cnt else length (entries r))
      in take n (rev (entries r)))"

definition slowlogReset :: "slowlogRing \<Rightarrow> slowlogRing" where
  "slowlogReset r = r\<lparr>entries := []\<rparr>"

section \<open>The latency table\<close>

record latencyStat =
  ls_count :: int
  ls_total :: int
  ls_max :: int

definition latencyNote :: "(string \<times> latencyStat) list \<Rightarrow> string \<Rightarrow> int \<Rightarrow> (string \<times> latencyStat) list" where
  "latencyNote m name durUs =
     (let s = (case map_of m name of Some s \<Rightarrow> s | None \<Rightarrow> \<lparr>ls_count = 0, ls_total = 0, ls_max = 0\<rparr>)
      in AList.update name
           \<lparr>ls_count = wrap64 (ls_count s + 1), ls_total = wrap64 (ls_total s + durUs),
             ls_max = (if durUs \<le> ls_max s then ls_max s else durUs)\<rparr> m)"

text \<open>
  \<^verbatim>\<open>noteDuration\<close>: the latency table always, the ring when the threshold is set and met.
  \<open>start\<close> and \<open>dur\<close> are the clock reading and the measured microseconds.
\<close>

definition noteDuration ::
  "int \<Rightarrow> int \<Rightarrow> string \<Rightarrow> string \<Rightarrow> string \<Rightarrow> string list \<Rightarrow> int \<Rightarrow> int \<Rightarrow>
     (string \<times> latencyStat) list \<times> slowlogRing \<Rightarrow> (string \<times> latencyStat) list \<times> slowlogRing" where
  "noteDuration thr maxLen addr cname name args start dur st =
     (let lat = latencyNote (fst st) name dur
      in if thr < 0 \<or> dur < thr then (lat, snd st)
         else
           (lat, slowlogAdd (snd st)
              \<lparr>sl_id = 0, Timestamp = start, DurationUs = dur, sl_args = map slowlogArg (take 32 args),
                ClientAddr = addr, ClientName = cname\<rparr> maxLen))"

section \<open>The MONITOR feed\<close>

definition monitorArgs :: "string list \<Rightarrow> string list" where
  "monitorArgs args =
     (let name = lowerASCII (args ! 0)
      in if name = ''auth'' then [''auth'']
         else if name = ''hello'' then
           take 1 args @ (if 1 < length args \<and> (args ! 1 = ''2'' \<or> args ! 1 = ''3'') then [args ! 1] else [])
         else args)"

definition hexDigit :: "nat \<Rightarrow> char" where
  "hexDigit n = (if n < 10 then chr (48 + n) else chr (87 + n))"

definition bslash :: char where "bslash = chr 92"
definition dquote :: char where "dquote = chr 34"

definition escapeByte :: "char \<Rightarrow> string" where
  "escapeByte c =
     (let b = byte c
      in if b = 34 then [bslash, dquote]
         else if b = 92 then [bslash, bslash]
         else if b = 10 then [bslash, CHR ''n'']
         else if b = 13 then [bslash, CHR ''r'']
         else if b = 9 then [bslash, CHR ''t'']
         else if b = 7 then [bslash, CHR ''a'']
         else if b = 8 then [bslash, CHR ''b'']
         else if 32 \<le> b \<and> b < 127 then [c]
         else [bslash, CHR ''x'', hexDigit (b div 16), hexDigit (b mod 16)])"

definition monitorEscape :: "string \<Rightarrow> string" where
  "monitorEscape a = concat (map escapeByte a)"

record monitorEvent =
  ev_unix :: int
  ev_micros :: nat
  ev_db :: nat
  ev_addr :: string
  ev_id :: nat
  ev_args :: "string list"

definition pad6 :: "nat \<Rightarrow> string" where
  "pad6 n = (let s = nat_digits n in replicate (6 - length s) (CHR ''0'') @ s)"

definition formatMonitorEvent :: "monitorEvent \<Rightarrow> string" where
  "formatMonitorEvent ev =
     FormatInt (ev_unix ev) @ ''.'' @ pad6 (ev_micros ev) @ '' ['' @ FormatInt (int (ev_db ev)) @ '' '' @ ev_addr ev @ '']'' @
     concat (map (\<lambda>a. CHR '' '' # dquote # monitorEscape a @ [dquote]) (ev_args ev))"

section \<open>The ring holds the newest entries\<close>

fun addAll :: "int \<Rightarrow> slowlogRing \<Rightarrow> slowlogEntry list \<Rightarrow> slowlogRing" where
  "addAll m r [] = r"
| "addAll m r (e # es) = addAll m (slowlogAdd r e m) es"

text \<open>Entries with consecutive identifiers from \<open>k\<close> on.\<close>

fun stamped :: "int \<Rightarrow> slowlogEntry list \<Rightarrow> slowlogEntry list" where
  "stamped k [] = []"
| "stamped k (e # es) = e\<lparr>sl_id := k\<rparr> # stamped (k + 1) es"

lemma length_stamped [simp]: "length (stamped k es) = length es"
  by (induction es arbitrary: k) auto

definition last_n :: "nat \<Rightarrow> 'a list \<Rightarrow> 'a list" where
  "last_n m xs = drop (length xs - m) xs"

lemma last_n_append: "last_n m (last_n m xs @ ys) = last_n m (xs @ ys)"
proof (cases "m \<le> length xs")
  case True
  then have "last_n m xs @ ys = drop (length xs - m) (xs @ ys)" by (simp add: last_n_def)
  with True show ?thesis by (simp add: last_n_def add.commute)
qed (simp add: last_n_def)

lemma slowlogAdd_entries: "0 \<le> m \<Longrightarrow> entries (slowlogAdd r e m) = last_n (nat m) (entries r @ [e\<lparr>sl_id := nextID r\<rparr>])"
  by (simp add: slowlogAdd_def Let_def last_n_def nat_diff_distrib nat_add_distrib)

lemma slowlog_newest:
  assumes "0 \<le> m" "0 \<le> nextID r" "nextID r + int (length es) < MaxInt64" "length (entries r) \<le> nat m"
  shows "entries (addAll m r es) = last_n (nat m) (entries r @ stamped (nextID r) es)"
  using assms(2-)
proof (induction es arbitrary: r)
  case Nil
  then show ?case by (simp add: last_n_def)
next
  case (Cons e es)
  let ?r = "slowlogAdd r e m" and ?x = "[e\<lparr>sl_id := nextID r\<rparr>]"
  have n: "nextID ?r = nextID r + 1"
    using Cons.prems by (simp add: slowlogAdd_def Let_def wrap64_id is_i64_def)
  have en: "entries ?r = last_n (nat m) (entries r @ ?x)" by (rule slowlogAdd_entries [OF assms(1)])
  have "length (last_n (nat m) (entries r @ ?x)) \<le> nat m" by (simp add: last_n_def)
  with Cons.IH [of ?r] Cons.prems n en
  have "entries (addAll m r (e # es)) = last_n (nat m) (last_n (nat m) (entries r @ ?x) @ stamped (nextID r + 1) es)" by simp
  then show ?case by (simp only: last_n_append) simp
qed

section \<open>Escaping can be undone\<close>

definition hexVal :: "char \<Rightarrow> nat" where
  "hexVal c = (if byte c < 58 then byte c - 48 else byte c - 87)"

definition unletter :: "char \<Rightarrow> char" where
  "unletter c = (if c = CHR ''n'' then chr 10 else if c = CHR ''r'' then chr 13 else if c = CHR ''t'' then chr 9
     else if c = CHR ''a'' then chr 7 else if c = CHR ''b'' then chr 8 else c)"

fun unescape :: "string \<Rightarrow> string" where
  "unescape [] = []"
| "unescape (c # s) =
     (if c \<noteq> bslash then c # unescape s
      else case s of
             [] \<Rightarrow> []
           | d # s1 \<Rightarrow>
               if d = CHR ''x''
               then (case s1 of h # l # s2 \<Rightarrow> chr (16 * hexVal h + hexVal l) # unescape s2 | _ \<Rightarrow> [])
               else unletter d # unescape s1)"

lemma hexVal_hexDigit: "n < 16 \<Longrightarrow> hexVal (hexDigit n) = n"
  by (auto simp: hexVal_def hexDigit_def byte_chr)

lemma byte_iff: "n < 256 \<Longrightarrow> byte c = n \<longleftrightarrow> c = chr n"
  by (metis byte_chr chr_byte)

lemma chr_iff: "m < 256 \<Longrightarrow> n < 256 \<Longrightarrow> chr m = chr n \<longleftrightarrow> m = n"
  by (metis byte_chr)

lemma chr_lit:
  "CHR ''n'' = chr 110" "CHR ''r'' = chr 114" "CHR ''t'' = chr 116" "CHR ''a'' = chr 97" "CHR ''b'' = chr 98" "CHR ''x'' = chr 120"
  by (rule sym, rule chr_eqI, simp add: byte_def)+

lemmas letters = chr_lit bslash_def dquote_def byte_iff chr_iff

lemma unescape_byte: "unescape (escapeByte c @ s) = c # unescape s"
  by (auto simp: escapeByte_def Let_def unletter_def letters hexVal_hexDigit less_mult_imp_div_less)

lemma unescape_monitorEscape: "unescape (monitorEscape s) = s"
  by (induction s) (simp_all add: monitorEscape_def unescape_byte)

lemma hexDigit_range: "n < 16 \<Longrightarrow> 32 \<le> byte (hexDigit n) \<and> byte (hexDigit n) < 127"
  by (simp add: hexDigit_def byte_chr)

lemma escapeByte_printable: "d \<in> set (escapeByte c) \<Longrightarrow> 32 \<le> byte d \<and> byte d < 127"
proof -
  have "byte c div 16 < 16" "byte c mod 16 < 16" by (simp_all add: less_mult_imp_div_less)
  note H = this [THEN hexDigit_range]
  assume "d \<in> set (escapeByte c)"
  then show ?thesis
    using H by (auto simp: escapeByte_def Let_def bslash_def dquote_def chr_lit byte_chr split: if_split_asm)
qed

lemma monitorEscape_printable: "c \<in> set (monitorEscape s) \<Longrightarrow> 32 \<le> byte c \<and> byte c < 127"
  by (auto simp: monitorEscape_def dest: escapeByte_printable)

end
