(* ===== verification/Conn.thy ===== *)
theory Conn
  imports Aof_Capture Pubsub Scan Introspect
begin

text \<open>
  The state a command runs in: a connection (\<^verbatim>\<open>ConnState\<close>), the command engine (\<^verbatim>\<open>Engine\<close> of
  \<^verbatim>\<open>src/lib/commands/engine.go\<close>) and the surroundings of one call; the connection commands of
  \<^verbatim>\<open>server.go\<close> and \<^verbatim>\<open>monitor.go\<close>, and the transaction commands of \<^verbatim>\<open>tx.go\<close>.

  A handler takes the connection, the arguments and the engine, and returns the reply, the
  connection and the engine. The pause token of EXEC is not a field: nothing else runs while EXEC
  does, which is what a function of the whole state says.
\<close>

section \<open>State\<close>

record watchRef =
  w_db :: nat
  w_key :: string
  w_epoch :: nat
  w_ver :: nat

text \<open>What \<^verbatim>\<open>noteCommand\<close> keeps for the client list.\<close>

record clientMeta =
  lastCmd :: string
  metaDB :: nat
  metaName :: string
  metaSubs :: int
  metaPsubs :: int

record conn =
  Proto :: int
  Authed :: bool
  cName :: string
  cDB :: nat
  cAddr :: string
  Quit :: bool
  Multi :: bool
  Queue :: "string list list"
  QueueErr :: bool
  Watched :: "watchRef list"
  inExec :: bool
  monitoring :: bool
  meta :: clientMeta
  Ps :: psconn

text \<open>
  The parts of the scripting manager and of the persistence manager the command layer reads and
  sets. \<open>plog\<close> is the sequence of \<^verbatim>\<open>LogCommand\<close> and \<^verbatim>\<open>LogKeyGone\<close> calls.
\<close>

record scriptMgr =
  busyTimeout :: bool
  timeLimitMs :: int
  hardDeadlineMs :: int
  rngSeedBase :: int
  vmPoolSize :: int
  vmPoolMax :: int
  vmRecycleRuns :: int
  vmRecyclePct :: int

datatype logEntry = Cmd logCall | KeyGone nat string

record persister =
  p_appendOnly :: bool
  p_fsync :: string
  p_dir :: string
  p_dbfilename :: string
  p_saveRules :: string
  plog :: "logEntry list"

text \<open>\<open>sent\<close> is what was handed to the delivery hooks of connections, in order; \<open>monitors\<close> the connections with a MONITOR feed.\<close>

record ('q, 'z, 't, 'h, 'l, 'f) world =
  Shards :: "('q, 'z, 't, 'h, 'l, 'f) st"
  PubSub :: broker
  requirePass :: string
  saveRules :: string
  appendOnly :: bool
  notifyFlags :: "64 word"
  totalCmds :: int
  slowlogSlowerThan :: int
  slowlogMaxLen :: int
  slowlog :: slowlogRing
  latency :: "(string \<times> latencyStat) list"
  monitors :: "nat list"
  scripts :: "scriptMgr option"
  persist :: "persister option"
  maxScriptMB :: int
  sent :: "(nat \<times> rv) list"

type_synonym ('q, 'z, 't, 'h, 'l, 'f) handler =
  "conn \<Rightarrow> string list \<Rightarrow> ('q, 'z, 't, 'h, 'l, 'f) world \<Rightarrow> rv \<times> conn \<times> ('q, 'z, 't, 'h, 'l, 'f) world"

text \<open>
  The surroundings of one call: the packages, the orders in which Go ranges over maps, random
  numbers, clock readings, and the handlers of commands that are not modelled.
\<close>

record ('q, 'z, 't, 'h, 'l, 'f) env =
  pk :: "('q, 'z, 't, 'h, 'l, 'f) packages"
  shardOrd :: "string list \<Rightarrow> nat list"
  shardOrd2 :: "string list \<Rightarrow> nat list"
  setOrd :: iteration
  rndIdx :: nat
  rndPerm :: "nat \<Rightarrow> nat list"
  rndSeq :: "nat \<Rightarrow> nat"
  walkers :: "'t iterators"
  subOrd :: "subs \<Rightarrow> subs"
  unixNow :: int
  microsNow :: nat
  durUs :: int
  msNow :: int
  ext :: "string \<Rightarrow> ('q, 'z, 't, 'h, 'l, 'f) handler"

section \<open>Connections\<close>

definition NewConnState :: "nat \<Rightarrow> string \<Rightarrow> bool \<Rightarrow> conn" where
  "NewConnState id' addr start =
     \<lparr>Proto = 2, Authed = False, cName = [], cDB = 0, cAddr = addr, Quit = False, Multi = False, Queue = [],
       QueueErr = False, Watched = [], inExec = False, monitoring = False,
       meta = \<lparr>lastCmd = [], metaDB = 0, metaName = [], metaSubs = 0, metaPsubs = 0\<rparr>,
       Ps = \<lparr>c_id = id', c_subs = [], c_psubs = [], c_start = start, c_deliver = False, outbox = []\<rparr>\<rparr>"

definition clearTx :: "conn \<Rightarrow> conn" where
  "clearTx cs = cs\<lparr>Multi := False, Queue := [], QueueErr := False, Watched := []\<rparr>"

definition noteCommand :: "string \<Rightarrow> conn \<Rightarrow> conn" where
  "noteCommand name cs =
     cs\<lparr>meta := \<lparr>lastCmd = name, metaDB = cDB cs, metaName = cName cs,
                   metaSubs = subCount (Ps cs), metaPsubs = int (length (c_psubs (Ps cs)))\<rparr>\<rparr>"

definition DrainOutbox :: "conn \<Rightarrow> rv list \<times> conn" where
  "DrainOutbox cs = (outbox (Ps cs), cs\<lparr>Ps := (Ps cs)\<lparr>outbox := []\<rparr>\<rparr>)"

definition CloseConn :: "conn \<Rightarrow> ('q, 'z, 't, 'h, 'l, 'f) world \<Rightarrow> conn \<times> ('q, 'z, 't, 'h, 'l, 'f) world" where
  "CloseConn cs w =
     (let b = snd (UnsubscribeAll (PubSub w) (c_id (Ps cs)));
          mons = (if monitoring cs then removeAll (c_id (Ps cs)) (monitors w) else monitors w)
      in (clearTx (cs\<lparr>Ps := (Ps cs)\<lparr>c_subs := [], c_psubs := []\<rparr>, monitoring := False\<rparr>),
          w\<lparr>PubSub := b, monitors := mons\<rparr>))"

section \<open>Notifications\<close>

text \<open>
  The events a task logged become publications, and the removals by expiry and eviction are reported
  to the persistence sink (the hook \<^verbatim>\<open>NewEngine\<close> installs with \<^verbatim>\<open>SetOnKeyGone\<close>).
\<close>

definition logGone :: "nat \<Rightarrow> string \<Rightarrow> string \<Rightarrow> persister option \<Rightarrow> persister option" where
  "logGone db key ev p =
     (if ev = ''expired'' \<or> ev = ''evicted'' then map_option (\<lambda>p. p\<lparr>plog := plog p @ [KeyGone db key]\<rparr>) p else p)"

definition publishTo :: "(subs \<Rightarrow> subs) \<Rightarrow> broker \<Rightarrow> string \<times> string \<Rightarrow> (nat \<times> rv) list" where
  "publishTo ord b cp = snd (snd (Publish ord b (fst cp) (snd cp) 0 False))"

fun drain_loop :: "(subs \<Rightarrow> subs) \<Rightarrow> (nat \<times> string \<times> string) list \<Rightarrow> ('q, 'z, 't, 'h, 'l, 'f) world \<Rightarrow> ('q, 'z, 't, 'h, 'l, 'f) world" where
  "drain_loop ord [] w = w"
| "drain_loop ord ((db, key, ev) # evs) w =
     drain_loop ord evs
       (w\<lparr>sent := sent w @ concat (map (publishTo ord (PubSub w)) (notifyKeyspace (notifyFlags w) db key ev)),
          persist := logGone db key ev (persist w)\<rparr>)"

definition drain :: "('q, 'z, 't, 'h, 'l, 'f) env \<Rightarrow> ('q, 'z, 't, 'h, 'l, 'f) world \<Rightarrow> ('q, 'z, 't, 'h, 'l, 'f) world" where
  "drain E w = drain_loop (subOrd E) (events (Shards w)) (w\<lparr>Shards := (Shards w)\<lparr>events := []\<rparr>\<rparr>)"

section \<open>Connection commands\<close>

definition cmdPing :: "('q, 'z, 't, 'h, 'l, 'f) handler" where
  "cmdPing cs args w =
     (if 2 < length args then errArity ''ping''
      else if Proto cs = 2 \<and> 0 < subCount (Ps cs)
      then RArr [RBlob ''pong'', RBlob (if length args = 2 then args ! 1 else [])]
      else if length args = 2 then RBlob (args ! 1)
      else RSimple ''PONG'', cs, w)"

definition cmdEcho :: "('q, 'z, 't, 'h, 'l, 'f) handler" where
  "cmdEcho cs args w = (RBlob (args ! 1), cs, w)"

definition cmdQuit :: "('q, 'z, 't, 'h, 'l, 'f) handler" where
  "cmdQuit cs args w = (replyOK, cs\<lparr>Quit := True\<rparr>, w)"

definition cmdReset :: "('q, 'z, 't, 'h, 'l, 'f) handler" where
  "cmdReset cs args w =
     (let b = snd (UnsubscribeAll (PubSub w) (c_id (Ps cs)));
          cs1 = clearTx (cs\<lparr>Ps := (Ps cs)\<lparr>c_subs := [], c_psubs := []\<rparr>\<rparr>)
      in (RSimple ''RESET'', cs1\<lparr>cDB := 0, cName := [], Authed := False, Proto := 2\<rparr>, w\<lparr>PubSub := b\<rparr>))"

definition errWrongPass :: rv where
  "errWrongPass = RErr ''WRONGPASS invalid username-password pair or user is disabled.''"

text \<open>\<open>None\<close> is the zero \<^verbatim>\<open>Value\<close>: authenticated.\<close>

definition authAttempt :: "string \<Rightarrow> string \<Rightarrow> string \<Rightarrow> rv option" where
  "authAttempt pw user pass =
     (if pw = [] then (if user \<noteq> ''default'' then Some errWrongPass else None)
      else if user \<noteq> ''default'' \<or> pass \<noteq> pw then Some errWrongPass
      else None)"

definition cmdAuth :: "('q, 'z, 't, 'h, 'l, 'f) handler" where
  "cmdAuth cs args w =
     (if 3 < length args then (errSyntax, cs, w)
      else
        let (user, pass) = (if length args = 3 then (args ! 1, args ! 2) else (''default'', args ! 1))
        in if requirePass w = [] \<and> length args = 2
           then (RErr (''ERR AUTH <password> called without any password configured for the '' @
                       ''default user. Are you sure your configuration is correct?''), cs, w)
           else
             case authAttempt (requirePass w) user pass of
               Some err \<Rightarrow> (err, cs, w)
             | None \<Rightarrow> (replyOK, cs\<lparr>Authed := True\<rparr>, w))"

definition helloErr :: "string \<Rightarrow> rv" where
  "helloErr opt = RErr (''ERR Syntax error in HELLO option '' @ quoted opt)"

text \<open>
  The options of HELLO: the credentials and the name, the last of each. The comparison after
  \<^verbatim>\<open>strings.ToUpper\<close> with words without K is a comparison up to Unicode folding.
\<close>

fun hello_loop :: "string list \<Rightarrow> (string \<times> string) option \<Rightarrow> string option \<Rightarrow> rv + (string \<times> string) option \<times> string option" where
  "hello_loop [] au nm = Inr (au, nm)"
| "hello_loop (opt # rest) au nm =
     (if EqualFold opt ''AUTH''
      then (case rest of u # p # rest' \<Rightarrow> hello_loop rest' (Some (u, p)) nm | _ \<Rightarrow> Inl (helloErr ''AUTH''))
      else if EqualFold opt ''SETNAME''
      then (case rest of n # rest' \<Rightarrow> hello_loop rest' au (Some n) | [] \<Rightarrow> Inl (helloErr ''SETNAME''))
      else Inl (helloErr opt))"

definition helloReply :: "conn \<Rightarrow> rv" where
  "helloReply cs =
     RMap [RBlob ''server'', RBlob ''redis'', RBlob ''version'', RBlob ''7.2.7'', RBlob ''proto'', RInt (Proto cs),
           RBlob ''id'', RInt (wrap64 (int (c_id (Ps cs)))), RBlob ''mode'', RBlob ''standalone'', RBlob ''role'', RBlob ''master'',
           RBlob ''modules'', RArr []]"

definition helloProto :: "conn \<Rightarrow> string list \<Rightarrow> rv + int" where
  "helloProto cs args =
     (if length args < 2 then Inr (Proto cs)
      else case parseIntStrict (args ! 1) of
             None \<Rightarrow> Inl (RErr ''ERR Protocol version is not an integer or out of range'')
           | Some v \<Rightarrow> if v \<noteq> 2 \<and> v \<noteq> 3 then Inl (RErr ''NOPROTO unsupported protocol version'') else Inr v)"

definition cmdHello :: "('q, 'z, 't, 'h, 'l, 'f) handler" where
  "cmdHello cs args w =
     (case helloProto cs args of
        Inl err \<Rightarrow> (err, cs, w)
      | Inr proto \<Rightarrow>
          (case hello_loop (drop 2 args) None None of
             Inl err \<Rightarrow> (err, cs, w)
           | Inr (au, nm) \<Rightarrow>
               (case (case au of None \<Rightarrow> None | Some (user, pass) \<Rightarrow> authAttempt (requirePass w) user pass) of
                  Some err \<Rightarrow> (err, cs, w)
                | None \<Rightarrow>
                    let cs1 = (if au \<noteq> None then cs\<lparr>Authed := True\<rparr> else cs);
                        cs2 = (case nm of Some n \<Rightarrow> cs1\<lparr>cName := n\<rparr> | None \<Rightarrow> cs1);
                        cs3 = cs2\<lparr>Proto := proto\<rparr>
                    in (helloReply cs3, cs3, w))))"

definition cmdSelect :: "('q, 'z, 't, 'h, 'l, 'f) handler" where
  "cmdSelect cs args w =
     (case parseIntStrict (args ! 1) of
        None \<Rightarrow> (errNotInt, cs, w)
      | Some v \<Rightarrow>
          if v < 0 \<or> int (maxDBs (Shards w)) \<le> v then (RErr ''ERR DB index is out of range'', cs, w)
          else (replyOK, cs\<lparr>cDB := nat v\<rparr>, w))"

definition errClientName :: rv where
  "errClientName = RErr ''ERR Client names cannot contain spaces, newlines or special characters.''"

definition cmdClient :: "('q, 'z, 't, 'h, 'l, 'f) handler" where
  "cmdClient cs args w =
     (let sub = lowerASCII (args ! 1)
      in if sub = ''setname''
         then (if length args \<noteq> 3 then (errArity ''client|setname'', cs, w)
               else if \<exists>c \<in> set (args ! 2). byte c < 33 \<or> 126 < byte c then (errClientName, cs, w)
               else (replyOK, cs\<lparr>cName := args ! 2\<rparr>, w))
         else if sub = ''getname''
         then (if length args \<noteq> 2 then errArity ''client|getname''
               else if cName cs = [] then RNull else RBlob (cName cs), cs, w)
         else if sub = ''id''
         then (if length args \<noteq> 2 then errArity ''client|id'' else RInt (wrap64 (int (c_id (Ps cs)))), cs, w)
         else if sub = ''setinfo''
         then (if length args \<noteq> 4 then errArity ''client|setinfo''
               else if lowerASCII (args ! 2) = ''lib-name'' \<or> lowerASCII (args ! 2) = ''lib-ver'' then replyOK
               else RErr (''ERR Unrecognized option '' @ quoted (args ! 2)), cs, w)
         else (RErr (''ERR unknown subcommand '' @ quoted (args ! 1) @ ''. Try CLIENT HELP.''), cs, w))"

definition commandInfo :: "string \<Rightarrow> rv" where
  "commandInfo n =
     (case table n of
        None \<Rightarrow> RNull
      | Some d \<Rightarrow> RArr [RBlob (cd_name d), RInt (Arity d), RArr (map RSimple (Flags d)), RInt (FirstKey d), RInt (LastKey d), RInt (KeyStep d)])"

definition cmdCommand :: "('q, 'z, 't, 'h, 'l, 'f) handler" where
  "cmdCommand cs args w =
     (let sub = (if 1 < length args then lowerASCII (args ! 1) else ''info'')
      in if sub = ''count'' then (if length args \<noteq> 2 then errArity ''command|count'' else RInt CommandCount)
         else if sub = ''info''
         then RArr (map commandInfo (if length args \<le> 2 then sort (map cd_name cmdDefs) else map lowerASCII (drop 2 args)))
         else RErr (''ERR unknown subcommand '' @ quoted (args ! 1) @ ''. Try COMMAND HELP.''), cs, w)"

definition cmdMonitor :: "('q, 'z, 't, 'h, 'l, 'f) handler" where
  "cmdMonitor cs args w =
     (if monitoring cs then (replyOK, cs, w)
      else
        let cs1 = cs\<lparr>Ps := ensureDeliver (Ps cs)\<rparr>
        in if \<not> c_deliver (Ps cs1) then (RErr ''ERR MONITOR is not supported on this connection'', cs1, w)
           else (replyOK, cs1\<lparr>monitoring := True\<rparr>, w\<lparr>monitors := monitors w @ [c_id (Ps cs1)]\<rparr>))"

section \<open>Server commands on the keyspace\<close>

definition cmdDBSize :: "('q, 'z, 't, 'h, 'l, 'f) env \<Rightarrow> ('q, 'z, 't, 'h, 'l, 'f) handler" where
  "cmdDBSize E cs args w =
     (let (n, g) = DBSizeTok (pk E) (Shards w) (cDB cs) in (RInt (int n), cs, w\<lparr>Shards := g\<rparr>))"

definition flushArgs :: "string list \<Rightarrow> rv option" where
  "flushArgs args =
     (if length args = 1 then None
      else if length args = 2 then (if lowerASCII (args ! 1) \<in> {''sync'', ''async''} then None else Some errSyntax)
      else Some errSyntax)"

definition cmdFlushDB :: "('q, 'z, 't, 'h, 'l, 'f) env \<Rightarrow> ('q, 'z, 't, 'h, 'l, 'f) handler" where
  "cmdFlushDB E cs args w =
     (case flushArgs args of
        Some err \<Rightarrow> (err, cs, w)
      | None \<Rightarrow> (replyOK, cs, w\<lparr>Shards := FlushDBTok (pk E) (Shards w) (cDB cs)\<rparr>))"

definition cmdFlushAll :: "('q, 'z, 't, 'h, 'l, 'f) env \<Rightarrow> ('q, 'z, 't, 'h, 'l, 'f) handler" where
  "cmdFlushAll E cs args w =
     (case flushArgs args of
        Some err \<Rightarrow> (err, cs, w)
      | None \<Rightarrow> (replyOK, cs, w\<lparr>Shards := FlushAllTok (pk E) (Shards w)\<rparr>))"

section \<open>Transactions\<close>

definition errMultiNested :: rv where "errMultiNested = RErr ''ERR MULTI calls can not be nested''"
definition errExecNoMulti :: rv where "errExecNoMulti = RErr ''ERR EXEC without MULTI''"
definition errDiscardNoMulti :: rv where "errDiscardNoMulti = RErr ''ERR DISCARD without MULTI''"
definition errWatchInMulti :: rv where "errWatchInMulti = RErr ''ERR WATCH inside MULTI is not allowed''"
definition errExecAbort :: rv where "errExecAbort = RErr ''EXECABORT Transaction discarded because of previous errors.''"
definition replyQueued :: rv where "replyQueued = RSimple ''QUEUED''"

definition cmdMulti :: "('q, 'z, 't, 'h, 'l, 'f) handler" where
  "cmdMulti cs args w = (if Multi cs then (errMultiNested, cs, w) else (replyOK, cs\<lparr>Multi := True\<rparr>, w))"

definition cmdDiscard :: "('q, 'z, 't, 'h, 'l, 'f) handler" where
  "cmdDiscard cs args w = (if \<not> Multi cs then (errDiscardNoMulti, cs, w) else (replyOK, clearTx cs, w))"

definition cmdUnwatch :: "('q, 'z, 't, 'h, 'l, 'f) handler" where
  "cmdUnwatch cs args w = (replyOK, cs\<lparr>Watched := []\<rparr>, w)"

fun watch_loop :: "('q, 'z, 't, 'h, 'l, 'f) packages \<Rightarrow> nat \<Rightarrow> string list \<Rightarrow> ('q, 'z, 't, 'h, 'l, 'f) st \<Rightarrow> watchRef list \<times> ('q, 'z, 't, 'h, 'l, 'f) st" where
  "watch_loop P db [] g = ([], g)"
| "watch_loop P db (key # keys) g =
     (let ((ep, ver), g1) = doKey P key (\<lambda>i g. WatchVersion P i g db key) g;
          (refs, g2) = watch_loop P db keys g1
      in (\<lparr>w_db = db, w_key = key, w_epoch = ep, w_ver = ver\<rparr> # refs, g2))"

definition cmdWatch :: "('q, 'z, 't, 'h, 'l, 'f) env \<Rightarrow> ('q, 'z, 't, 'h, 'l, 'f) handler" where
  "cmdWatch E cs args w =
     (if Multi cs then (errWatchInMulti, cs, w)
      else let (refs, g) = watch_loop (pk E) (cDB cs) (tl args) (Shards w)
           in (replyOK, cs\<lparr>Watched := Watched cs @ refs\<rparr>, w\<lparr>Shards := g\<rparr>))"

text \<open>The dirty check of EXEC stops at the first dirty key.\<close>

fun dirty_loop :: "('q, 'z, 't, 'h, 'l, 'f) packages \<Rightarrow> watchRef list \<Rightarrow> ('q, 'z, 't, 'h, 'l, 'f) st \<Rightarrow> bool \<times> ('q, 'z, 't, 'h, 'l, 'f) st" where
  "dirty_loop P [] g = (False, g)"
| "dirty_loop P (x # xs) g =
     (let (dirty, g1) = doKey P (w_key x) (\<lambda>i g. WatchDirty P i g (w_db x) (w_key x) (w_epoch x) (w_ver x)) g
      in if dirty then (True, g1) else dirty_loop P xs g1)"

text \<open>
  \<^verbatim>\<open>capturePersist\<close> on the engine; \<open>tab\<close> gives the handler of a queued command. The queue never holds
  EXEC itself (\<open>conn_ok\<close> in theory \<open>Server\<close>), so the handlers passed here need not include it.
\<close>

definition capture :: "('q, 'z, 't, 'h, 'l, 'f) env \<Rightarrow> conn \<Rightarrow> CmdDef \<Rightarrow> string \<Rightarrow> string list \<Rightarrow> rv \<Rightarrow> ('q, 'z, 't, 'h, 'l, 'f) world \<Rightarrow> ('q, 'z, 't, 'h, 'l, 'f) world" where
  "capture E cs d name args v w =
     (case persist w of
        None \<Rightarrow> w
      | Some p \<Rightarrow>
          w\<lparr>persist := Some (p\<lparr>plog := plog p @
             map Cmd (capturePersist (ShardIndex (pk E) (kbits (Shards w))) (msNow E) (p_appendOnly p) (cDB cs) d name args v)\<rparr>)\<rparr>)"

fun exec_loop ::
  "('q, 'z, 't, 'h, 'l, 'f) env \<Rightarrow> (string \<Rightarrow> ('q, 'z, 't, 'h, 'l, 'f) handler) \<Rightarrow> string list list \<Rightarrow>
     conn \<Rightarrow> ('q, 'z, 't, 'h, 'l, 'f) world \<Rightarrow> rv list \<times> conn \<times> ('q, 'z, 't, 'h, 'l, 'f) world" where
  "exec_loop E h [] cs w = ([], cs, w)"
| "exec_loop E h (qargs # qs) cs w =
     (let name = lowerASCII (qargs ! 0)
      in case table name of
           None \<Rightarrow> exec_loop E h qs cs w
         | Some d \<Rightarrow>
             (let (v, cs1, w1) = h name cs qargs w;
                  w2 = capture E cs1 d name qargs v (drain E w1);
                  (vs, cs2, w3) = exec_loop E h qs cs1 w2
              in (v # vs, cs2, w3)))"

definition cmdExec :: "('q, 'z, 't, 'h, 'l, 'f) env \<Rightarrow> (string \<Rightarrow> ('q, 'z, 't, 'h, 'l, 'f) handler) \<Rightarrow> ('q, 'z, 't, 'h, 'l, 'f) handler" where
  "cmdExec E h cs args w =
     (if length args \<noteq> 1
      then (RErr (''EXECABORT Transaction discarded because of: wrong number of arguments for '' @ quoted ''exec'' @ '' command''), clearTx cs, w)
      else if \<not> Multi cs then (errExecNoMulti, cs, w)
      else if QueueErr cs then (errExecAbort, clearTx cs, w)
      else
        let (dirty, g) = dirty_loop (pk E) (Watched cs) (Shards w);
            w1 = w\<lparr>Shards := g\<rparr>
        in if dirty then (RNull, clearTx cs, w1)
           else
             let (vs, cs2, w2) = exec_loop E h (Queue cs) (cs\<lparr>inExec := True\<rparr>) (drain E w1)
             in (RArr vs, clearTx (cs2\<lparr>inExec := False\<rparr>), w2))"

end
