(* ===== verification/Aof_Replay.thy ===== *)
theory Aof_Replay
  imports Aof_Capture Cmd_Keys
begin

text \<open>
  The records are faithful: running the record that \<open>rewriteForPersist\<close> builds on the state before
  the command has the effect of the command. Shown for the rewritten families EXPIRE, GETEX, SET
  and SPOP against the abstract keyspace, when the clock is read once; every other write is logged
  verbatim. The time conversion of the records does not clamp as the commands do, so an EXPIRE far
  beyond the end of time replays as a deletion (\<open>expire_record_deletes\<close>).
\<close>

section \<open>Times\<close>

definition expMode :: "string \<Rightarrow> bool \<times> bool" where
  "expMode name = (name = ''pexpire'' \<or> name = ''pexpireat'', name = ''expireat'' \<or> name = ''pexpireat'')"

text \<open>The argument converts to milliseconds without leaving \<^verbatim>\<open>int64\<close>.\<close>

definition fits :: "int \<Rightarrow> string \<Rightarrow> int \<Rightarrow> bool" where
  "fits now name n \<longleftrightarrow>
     (if name = ''expire'' then n \<le> quot (wrap64 (MaxInt64 - now)) 1000
      else if name = ''expireat'' then n \<le> quot MaxInt64 1000
      else True)"

lemma expireAbsMs_eq:
  assumes "name \<in> {''expire'', ''pexpire'', ''expireat'', ''pexpireat''}" "fits now name n"
  shows "expireAbsMs now name n = expireAt_ms (fst (expMode name)) (snd (expMode name)) now n"
  using assms by (auto simp: expireAbsMs_def expireAt_ms_def expMode_def fits_def)

lemma expireAbsMs_i64: "is_i64 n \<Longrightarrow> is_i64 (expireAbsMs now name n)"
  by (simp add: expireAbsMs_def)

section \<open>EXPIRE and family\<close>

definition flags_le :: "expireFlags \<Rightarrow> expireFlags \<Rightarrow> bool" where
  "flags_le f f' \<longleftrightarrow> (f_nx f \<longrightarrow> f_nx f') \<and> (f_xx f \<longrightarrow> f_xx f') \<and> (f_gt f \<longrightarrow> f_gt f') \<and> (f_lt f \<longrightarrow> f_lt f')"

lemma flags_le_refl [simp]: "flags_le f f"
  by (simp add: flags_le_def)

lemma flags_le_blocked: "flags_le f f' \<Longrightarrow> expBlocked f cur at \<Longrightarrow> expBlocked f' cur at"
  by (auto simp: flags_le_def expBlocked_def)

lemma expflag_grows: "expflag_loop xs f = Inr f' \<Longrightarrow> flags_le f f'"
proof (induction xs f rule: expflag_loop.induct)
  case (2 arg rest f)
  then show ?case by (auto simp: Let_def flags_le_def split: if_splits)
qed simp

lemma expflag_first:
  assumes "expflag_loop (a # rest) f = Inr f'"
  shows "\<exists>f1. expflag_loop [a] f = Inr f1 \<and> flags_le f1 f'"
  using assms expflag_grows by (fastforce simp: Let_def split: if_splits)

lemma expflag_err: "expflag_loop xs f = Inl e \<Longrightarrow> isErr e"
proof (induction xs f rule: expflag_loop.induct)
  case (2 arg rest f)
  then show ?case by (auto simp: Let_def isErr_def errNxXx_def errGtLt_def split: if_splits)
qed simp

lemma getex_err: "getex_loop xs p ex = Inl e \<Longrightarrow> isErr e"
  by (induction xs p ex rule: getex_loop.induct) (auto simp: Let_def isErr_def errSyntax_def split: if_splits list.splits)

lemma expireMs_abs:
  assumes "isExpOpt kind" "expireMs nm kind now v = Inr at"
  shows "at = (case relUnit kind of Some rel \<Rightarrow> expireAbsMs now rel v | None \<Rightarrow> v)"
  using assms by (auto simp: expireMs_def isExpOpt_def relUnit_def expireAbsMs_def split: if_splits)

lemma getex_shape:
  assumes "getex_loop xs False None = Inr (persist, ex)"
  shows "xs = [] \<and> \<not> persist \<and> ex = None \<or>
    xs \<noteq> [] \<and> lowerASCII (hd xs) = ''persist'' \<and> persist \<and> ex = None \<or>
    (\<exists>a raw. xs = [a, raw] \<and> isExpOpt (lowerASCII a) \<and> \<not> persist \<and> ex = Some (lowerASCII a, raw))"
proof -
  have p: "getex_loop ys True None = Inr (persist, ex) \<Longrightarrow> persist \<and> ex = None" for ys
    by (induction ys) (auto simp: Let_def split: if_splits list.splits)
  have e: "getex_loop ys False (Some kr) = Inr (persist, ex) \<Longrightarrow> ys = [] \<and> \<not> persist \<and> ex = Some kr" for ys kr
    by (cases ys) (auto simp: Let_def split: if_splits)
  show ?thesis
  proof (cases xs)
    case (Cons a ys)
    then show ?thesis using assms p [of ys] e by (cases ys) (auto simp: Let_def split: if_splits)
  qed (use assms in auto)
qed

lemma no_empty_set: "no_empty K \<Longrightarrow> K db key \<noteq> Some (ASet {}, t)"
  by (metis full_simps(4) no_empty_def)

text \<open>Running a record: the handlers of the rewritten commands.\<close>

definition replayRecord ::
  "('q, 'z, 't, 'h, 'l, 'f) packages \<Rightarrow> nat \<Rightarrow> string list \<Rightarrow> ('q, 'z, 't, 'h, 'l, 'f) st \<Rightarrow> rv \<times> ('q, 'z, 't, 'h, 'l, 'f) st" where
  "replayRecord P db argv g =
     (if hd argv = ''PEXPIREAT'' then cmdPExpireAt P db argv g
      else if hd argv = ''PERSIST'' then cmdPersist P db argv g
      else if hd argv = ''SREM'' then cmdSRem P db argv g
      else cmdSet P db argv g)"

context pluto_laws
begin

lemma expire_replay:
  assumes inv: "ptr_ok P g" "maxMemory g \<le> 0"
    and name: "name \<in> {''expire'', ''pexpire'', ''expireat'', ''pexpireat''}"
    and ok: "fits (NowMs g) name n" "parseIntStrict (args ! 2) = Some n" "3 \<le> length args"
    and run: "expireCommon P db args (fst (expMode name)) (snd (expMode name)) g = (RInt 1, g')"
    and log: "rewriteForPersist (NowMs g) name args (RInt 1) True = Some (argv, hint)"
  shows "hint = Some (args ! 1)" "kv P (snd (replayRecord P db argv g)) = kv P g'"
proof -
  let ?at = "expireAbsMs (NowMs g) name n"
  have argv: "argv = [''PEXPIREAT'', args ! 1, FormatInt ?at] @ (if 3 < length args then [args ! 3] else [])"
    and "hint = Some (args ! 1)"
    using log name ok(2) unfolding rewriteForPersist_def by (auto simp: Let_def)
  then show "hint = Some (args ! 1)" by simp
  have rep: "replayRecord P db argv g = cmdPExpireAt P db argv g" by (simp add: replayRecord_def argv)
  have n: "is_i64 n" using ok(2) by (simp add: parseIntStrict_eq_ParseInt64 ParseInt64_range)
  have at: "?at = expireAt_ms (fst (expMode name)) (snd (expMode name)) (NowMs g) n"
    by (rule expireAbsMs_eq [OF name ok(1)])
  have p: "parseIntStrict (argv ! 2) = Some ?at"
    using expireAbsMs_i64 [OF n] by (simp add: argv parseIntStrict_eq_ParseInt64 ParseInt64_FormatInt)
  obtain f where f: "parseExpireFlags args = Inr f"
    using run ok(2) expflag_err [of _ _ "RInt 1"] by (auto simp: expireCommon_def parseExpireFlags_def isErr_def split: sum.splits)
  have "\<exists>f1. parseExpireFlags argv = Inr f1 \<and> flags_le f1 f"
  proof (cases "3 < length args")
    case True
    then obtain rest where "drop 3 args = args ! 3 # rest" by (metis Cons_nth_drop_Suc)
    then show ?thesis
      using expflag_first [of "args ! 3" rest] f True by (simp add: parseExpireFlags_def argv)
  next
    case False
    then show ?thesis using f expflag_grows by (auto simp: parseExpireFlags_def argv)
  qed
  then obtain f1 where f1: "parseExpireFlags argv = Inr f1" "flags_le f1 f" by blast
  have 1: "refines P db (args ! 1) (expireSpec f ?at) g (RInt 1, g')"
    using expire_refines [OF inv ok(2) f, of db] run at by metis
  have 2: "refines P db (args ! 1) (expireSpec f1 ?at) g (cmdPExpireAt P db argv g)"
    using expire_refines [OF inv p f1(1), of db True True] by (simp add: cmdPExpireAt_def expireAt_ms_def argv)
  show "kv P (snd (replayRecord P db argv g)) = kv P g'"
    unfolding rep using 1 2 flags_le_blocked [OF f1(2)] by (auto simp: refines_def expireSpec_def split: option.splits if_splits)
qed

lemma getex_replay:
  assumes inv: "ptr_ok P g" "maxMemory g \<le> 0" and len: "2 \<le> length args"
    and run: "cmdGetEx P db args g = (RBlob s, g')"
  shows "case rewriteForPersist (NowMs g) ''getex'' args (RBlob s) True of
      None \<Rightarrow> kv P g' = kv P g
    | Some (argv, hint) \<Rightarrow> hint = Some (args ! 1) \<and> kv P (snd (replayRecord P db argv g)) = kv P g'"
proof -
  obtain persist ex where l: "getex_loop (drop 2 args) False None = Inr (persist, ex)"
    using run getex_err [of "drop 2 args" False None "RBlob s"]
    by (cases "getex_loop (drop 2 args) False None") (auto simp: cmdGetEx_def isErr_def)
  have R: "refines P db (args ! 1) (getExSpec persist ex) g (RBlob s, g')"
    using cmdGetEx_refines [OF inv l, of db] run by simp
  show ?thesis
    using getex_shape [OF l]
  proof (elim disjE conjE exE)
    assume "drop 2 args = []" "\<not> persist" "ex = None"
    then show ?thesis
      using R len by (auto simp: rewriteForPersist_def Let_def refines_def getExSpec_def getSpec_def split: option.splits aval.splits)
  next
    assume a: "drop 2 args \<noteq> []" "lowerASCII (hd (drop 2 args)) = ''persist''" "persist" "ex = None"
    then have "rewriteForPersist (NowMs g) ''getex'' args (RBlob s) True = Some ([''PERSIST'', args ! 1], Some (args ! 1))"
      by (simp add: rewriteForPersist_def Let_def hd_drop_conv_nth)
    moreover have "refines P db (args ! 1) persistSpec g (cmdPersist P db [''PERSIST'', args ! 1] g)"
      using persist_refines [OF inv, of db "[''PERSIST'', args ! 1]"] by simp
    ultimately show ?thesis
      using R a(3) by (auto simp: replayRecord_def refines_def getExSpec_def persistSpec_def getSpec_def errWrongType_def split: option.splits aval.splits if_splits)
  next
    fix a raw assume a: "drop 2 args = [a, raw]" "isExpOpt (lowerASCII a)" "\<not> persist" "ex = Some (lowerASCII a, raw)"
    have len4: "length args = 4" using arg_cong [OF a(1), of length] by simp
    have arg: "args ! 2 = a" "args ! 3 = raw"
      using arg_cong [OF a(1), of "\<lambda>xs. xs ! 0"] arg_cong [OF a(1), of "\<lambda>xs. xs ! 1"] len4 by (simp_all add: numeral_3_eq_3)
    obtain v at t where v: "ParseInt64 raw = Some v" "expireMs ''getex'' (lowerASCII a) (NowMs g) v = Inr at"
      "kv P g db (args ! 1) = Some (AString s, t)"
      using R a(3,4) unfolding refines_def getExSpec_def
      by (auto simp: getSpec_def errNotInt_def errInvalidExpire_def errWrongType_def expireMs_def split: option.splits aval.splits sum.splits if_splits)
    have at: "at = (case relUnit (lowerASCII a) of Some rel \<Rightarrow> expireAbsMs (NowMs g) rel v | None \<Rightarrow> v)"
      by (rule expireMs_abs [OF a(2) v(2)])
    have i: "is_i64 at" using at expireAbsMs_i64 ParseInt64_range [OF v(1)] by (simp split: option.split)
    have np: "lowerASCII a \<noteq> ''persist''" using a(2) by (auto simp: isExpOpt_def)
    let ?argv = "[''PEXPIREAT'', args ! 1, FormatInt at]"
    have w: "rewriteForPersist (NowMs g) ''getex'' args (RBlob s) True = Some (?argv, Some (args ! 1))"
      using len4 np a(2) v(1) unfolding rewriteForPersist_def at
      by (simp add: Let_def arg parseIntStrict_eq_ParseInt64)
    have pa: "parseIntStrict (?argv ! 2) = Some at" using i by (simp add: parseIntStrict_eq_ParseInt64 ParseInt64_FormatInt)
    have "refines P db (args ! 1) (expireSpec \<lparr>f_nx = False, f_xx = False, f_gt = False, f_lt = False\<rparr> at) g (cmdPExpireAt P db ?argv g)"
      using expire_refines [OF inv pa, of _ db True True] by (simp add: cmdPExpireAt_def expireAt_ms_def parseExpireFlags_def)
    moreover have "kv P g' = kvupd (kv P g) db (args ! 1) (if at \<le> NowMs g then None else Some (AString s, at))"
      using R a(3,4) v unfolding refines_def getExSpec_def by (auto simp: errInvalidExpire_def split: if_splits)
    ultimately show ?thesis
      using v(3) by (simp add: w replayRecord_def refines_def expireSpec_def expBlocked_def)
  qed
qed

section \<open>SPOP\<close>

lemma spop_replay:
  assumes inv: "ptr_ok P g" "maxMemory g \<le> 0" "vals_ok P g" "no_empty (kv P g)" and ord: "enumerates (iter 0)"
    "kv P g db (args ! 1) \<noteq> None \<Longrightarrow> rnd < card (setAt (kv P g db (args ! 1)))" "\<And>n. distinct (perm n) \<and> set (perm n) = {..<n}"
    and cnt: "length args = 2 \<and> cnt = None \<or> length args = 3 \<and> cnt = parseIntStrict (args ! 2) \<and> cnt \<noteq> None \<and> 0 \<le> the cnt"
    and can: "\<forall>m \<in> setAt (kv P g db (args ! 1)). canonical_member m"
    and run: "cmdSPop P iter rnd perm db args g = (r, g')" "\<not> isErr r"
  shows "case rewriteForPersist (NowMs g) ''spop'' args r True of
      None \<Rightarrow> kv P g' = kv P g
    | Some (argv, hint) \<Rightarrow> hint = Some (args ! 1) \<and> kv P (snd (replayRecord P db argv g)) = kv P g'"
proof -
  obtain ms where ms: "distinct ms" "set ms \<subseteq> setAt (kv P g db (args ! 1))"
      "length ms = min (case cnt of None \<Rightarrow> 1 | Some c \<Rightarrow> nat c) (card (setAt (kv P g db (args ! 1))))"
      "refines P db (args ! 1) (setOp (spopSpec (cnt = None) ms)) g (r, g')"
    using cmdSPop_refines [where iter = iter and rnd = rnd and perm = perm and cnt = cnt and args = args and db = db, OF inv ord cnt] run(1) by auto
  have r: "r = (if cnt = None then (case ms of m # _ \<Rightarrow> RBlob m | [] \<Rightarrow> RNull) else RSet (map RBlob ms))"
    using ms(4) run(2) by (auto simp: refines_def collOp_def spopSpec_def isErr_def errWrongType_def split: option.splits list.splits if_splits)
  have one: "cnt = None \<Longrightarrow> length ms \<le> 1" using ms(3) by simp
  show ?thesis
  proof (cases "ms = []")
    case True
    have "kv P g' = kv P g"
      using ms(4) no_empty_set [OF inv(4)] True by (auto simp: refines_def collOp_def spopSpec_def asSet_def split: option.splits aval.splits)
    then show ?thesis using r True by (simp add: rewriteForPersist_def Let_def)
  next
    case False
    let ?argv = "[''SREM'', args ! 1] @ ms"
    have w: "rewriteForPersist (NowMs g) ''spop'' args r True = Some (?argv, Some (args ! 1))"
      using r False one by (cases ms) (auto simp: rewriteForPersist_def Let_def comp_def)
    have "refines P db (args ! 1) (setOp (sremSpec ms)) g (cmdSRem P db ?argv g)"
      using cmdSRem_refines [OF inv, of ?argv db] can ms(2) by auto
    then have "kv P (snd (cmdSRem P db ?argv g)) = kv P g'"
      using ms(4) by (auto simp: refines_def collOp_def spopSpec_def sremSpec_def split: option.splits)
    then show ?thesis unfolding w by (simp add: replayRecord_def)
  qed
qed

end

section \<open>SET\<close>

definition setConv :: "int \<Rightarrow> setOptions \<Rightarrow> setOptions" where
  "setConv now o' =
     (case relUnit (o_expUnit o') of
        Some rel \<Rightarrow> o'\<lparr>o_expUnit := ''pxat'', o_expireAtMs := expireAbsMs now rel (o_expireAtMs o')\<rparr>
      | None \<Rightarrow> o')"

text \<open>Every relative time among the options converts to a positive one.\<close>

definition setFits :: "int \<Rightarrow> string list \<Rightarrow> bool" where
  "setFits now xs \<longleftrightarrow> (\<forall>i rel n. Suc i < length xs \<longrightarrow> relUnit (lowerASCII (xs ! i)) = Some rel \<longrightarrow>
     parseIntStrict (xs ! Suc i) = Some n \<longrightarrow> 0 < expireAbsMs now rel n)"

lemma setFits_Cons: "setFits now (x # xs) \<Longrightarrow> setFits now xs"
  unfolding setFits_def by (metis Suc_less_eq length_Cons nth_Cons_Suc)

lemma parseInt_first: "parseIntStrict b = Some n \<Longrightarrow> b \<noteq> [] \<and> byte (hd b) < 58"
  by (cases b) (auto simp: parseIntStrict_def Let_def byte_def split: if_splits option.splits)

lemma relUnit_first: "relUnit u = Some rel \<Longrightarrow> u \<noteq> [] \<and> 58 \<le> byte (hd u)"
  by (auto simp: relUnit_def byte_def split: if_splits)

lemma number_no_unit:
  assumes "parseIntStrict b = Some n"
  shows "relUnit (lowerASCII b) = None"
proof -
  obtain c cs where b: "b = c # cs" "byte c < 58" using parseInt_first [OF assms] by (cases b) auto
  then have "byte (hd (lowerASCII b)) < 58" by (simp add: lowerASCII_def lower_byte_def)
  then show ?thesis using relUnit_first by (cases "relUnit (lowerASCII b)") force+
qed

lemma setRewrite_word: "relUnit (lowerASCII a) = None \<Longrightarrow> setRewrite now (a # xs) = a # setRewrite now xs"
  by (cases xs) simp_all

lemma setConv_unit: "o_expUnit (setConv now o') = (if relUnit (o_expUnit o') = None then o_expUnit o' else ''pxat'')"
  by (simp add: setConv_def split: option.split)

lemma setConv_sel [simp]:
  "o_nx (setConv now o') = o_nx o'" "o_xx (setConv now o') = o_xx o'" "o_get (setConv now o') = o_get o'"
  "o_keepttl (setConv now o') = o_keepttl o'" "o_hasExpire (setConv now o') = o_hasExpire o'"
  "o_expUnit (setConv now o') = [] \<longleftrightarrow> o_expUnit o' = []"
  "(setConv now o')\<lparr>o_nx := b\<rparr> = setConv now (o'\<lparr>o_nx := b\<rparr>)" "(setConv now o')\<lparr>o_xx := b\<rparr> = setConv now (o'\<lparr>o_xx := b\<rparr>)"
  "(setConv now o')\<lparr>o_get := b\<rparr> = setConv now (o'\<lparr>o_get := b\<rparr>)" "(setConv now o')\<lparr>o_keepttl := b\<rparr> = setConv now (o'\<lparr>o_keepttl := b\<rparr>)"
  by (auto simp: setConv_def relUnit_def split: option.splits if_splits)

lemma setConv_expire:
  "(setConv now o')\<lparr>o_hasExpire := True, o_expUnit := ''pxat'', o_expireAtMs := expireAbsMs now rel v\<rparr> =
     setConv now (o'\<lparr>o_hasExpire := True, o_expUnit := u, o_expireAtMs := v\<rparr>)" if "relUnit u = Some rel"
  using that by (auto simp: setConv_def split: option.splits)

lemma setConv_pxat:
  "(setConv now o')\<lparr>o_hasExpire := True, o_expUnit := ''pxat'', o_expireAtMs := v\<rparr> =
     setConv now (o'\<lparr>o_hasExpire := True, o_expUnit := ''pxat'', o_expireAtMs := v\<rparr>)"
  by (auto simp: setConv_def relUnit_def split: option.splits)

lemma pxat_lower: "lowerASCII ''PXAT'' = ''pxat''"
  by code_simp

lemma setopt_rewrite:
  "setopt_loop xs o' = Inr o1 \<Longrightarrow> setFits now xs \<Longrightarrow> setopt_loop (setRewrite now xs) (setConv now o') = Inr (setConv now o1)"
proof (induction xs o' rule: setopt_loop.induct)
  case (2 arg rest o')
  note fits = setFits_Cons [OF 2(7)]
  show ?case
  proof (cases "isExpOpt (lowerASCII arg)")
    case False
    then have w: "setRewrite now (arg # rest) = arg # setRewrite now rest" and "relUnit (lowerASCII arg) = None"
      by (auto simp: isExpOpt_def relUnit_def intro!: setRewrite_word)
    then show ?thesis unfolding w using 2 fits False by (auto simp: Let_def split: if_splits)
  next
    case True
    then have words: "lowerASCII arg \<noteq> ''nx''" "lowerASCII arg \<noteq> ''xx''" "lowerASCII arg \<noteq> ''get''" "lowerASCII arg \<noteq> ''keepttl''"
      by (auto simp: isExpOpt_def)
    with True 2(6) obtain raw rest' v where r: "rest = raw # rest'" "parseIntStrict raw = Some v" "0 < v"
      "\<not> o_keepttl o'" "o_expUnit o' = [] \<or> o_expUnit o' = lowerASCII arg"
      "setopt_loop rest' (o'\<lparr>o_hasExpire := True, o_expUnit := lowerASCII arg, o_expireAtMs := v\<rparr>) = Inr o1"
      by (auto simp: Let_def split: if_splits list.splits option.splits)
    have fits': "setFits now rest'" using setFits_Cons fits r(1) by blast
    have IH: "setopt_loop (setRewrite now rest') (setConv now (o'\<lparr>o_hasExpire := True, o_expUnit := lowerASCII arg, o_expireAtMs := v\<rparr>)) = Inr (setConv now o1)"
      using 2(5) [OF HOL.refl] words True r fits' by auto
    show ?thesis
    proof (cases "relUnit (lowerASCII arg)")
      case (Some rel)
      let ?at = "expireAbsMs now rel v"
      have pos: "0 < ?at" using 2(7) Some r(1,2) by (fastforce simp: setFits_def)
      have "is_i64 v" using r(2) by (simp add: parseIntStrict_eq_ParseInt64 ParseInt64_range)
      then have pa: "parseIntStrict (FormatInt ?at) = Some ?at"
        by (simp add: parseIntStrict_eq_ParseInt64 ParseInt64_FormatInt expireAbsMs_i64)
      have w: "setRewrite now (arg # rest) = ''PXAT'' # FormatInt ?at # setRewrite now rest'"
        using Some r(1,2) setRewrite_word [OF number_no_unit [OF pa]] by simp
      have u: "o_expUnit (setConv now o') = [] \<or> o_expUnit (setConv now o') = ''pxat''"
        using r(5) Some by (auto simp: setConv_unit)
      show ?thesis
        using u pa pos r(4) IH unfolding w setConv_expire [OF Some, symmetric]
        by (auto simp: Let_def pxat_lower isExpOpt_def)
    next
      case None
      with True have px: "lowerASCII arg = ''pxat''" by (auto simp: isExpOpt_def relUnit_def)
      have w: "setRewrite now (arg # rest) = arg # raw # setRewrite now rest'"
        using r(1) setRewrite_word [OF None] setRewrite_word [OF number_no_unit [OF r(2)]] by (simp del: setRewrite.simps)
      have u: "o_expUnit (setConv now o') = [] \<or> o_expUnit (setConv now o') = ''pxat''"
        using r(5) px by (auto simp: setConv_unit relUnit_def)
      show ?thesis
        using u r(2-4) IH unfolding w px setConv_pxat [symmetric]
        by (auto simp: Let_def px isExpOpt_def)
    qed
  qed
qed simp

lemma setSpec_unit: "setSpec (o'\<lparr>o_expUnit := u\<rparr>) val now old = setSpec o' val now old"
  by (cases old) (simp_all add: setSpec_def split_beta)

lemma setConv_resolve:
  assumes "resolveExpire now o0 = Inr o1" "o_hasExpire o0 \<Longrightarrow> isExpOpt (o_expUnit o0)" "\<not> o_hasExpire o0 \<Longrightarrow> o_expUnit o0 = []"
  shows "resolveExpire now (setConv now o0) = Inr (o1\<lparr>o_expUnit := o_expUnit (setConv now o0)\<rparr>)"
proof (cases "o_hasExpire o0")
  case True
  then obtain at where at: "expireMs ''set'' (o_expUnit o0) now (o_expireAtMs o0) = Inr at" "o1 = o0\<lparr>o_expireAtMs := at\<rparr>"
    using assms(1) by (auto simp: resolveExpire_def split: sum.splits)
  have "at = (case relUnit (o_expUnit o0) of Some rel \<Rightarrow> expireAbsMs now rel (o_expireAtMs o0) | None \<Rightarrow> o_expireAtMs o0)"
    by (rule expireMs_abs [OF assms(2) [OF True] at(1)])
  then show ?thesis
    using True at assms(2) [OF True] by (auto simp: resolveExpire_def setConv_def expireMs_def isExpOpt_def relUnit_def split: option.splits if_splits)
next
  case False
  then show ?thesis using assms(1,3) by (auto simp: resolveExpire_def setConv_def relUnit_def)
qed

lemma setopt_err: "setopt_loop xs o' = Inl e \<Longrightarrow> isErr e"
proof (induction xs o' rule: setopt_loop.induct)
  case (2 arg rest o')
  then show ?case
    by (auto simp: Let_def isErr_def errSyntax_def errNotInt_def errInvalidExpire_def split: if_splits list.splits option.splits)
qed simp

lemma resolve_err: "resolveExpire now o' = Inl e \<Longrightarrow> isErr e"
  by (auto simp: resolveExpire_def expireMs_def isErr_def errInvalidExpire_def split: if_splits sum.splits)

lemma setopt_unit:
  "setopt_loop xs o' = Inr o1 \<Longrightarrow> (if o_hasExpire o' then isExpOpt (o_expUnit o') else o_expUnit o' = []) \<Longrightarrow>
     (if o_hasExpire o1 then isExpOpt (o_expUnit o1) else o_expUnit o1 = [])"
proof (induction xs o' rule: setopt_loop.induct)
  case (2 arg rest o')
  then show ?case by (auto simp: Let_def split: if_splits list.splits option.splits)
qed simp

context pluto_laws
begin

lemma set_replay:
  assumes inv: "ptr_ok P g" "maxMemory g \<le> 0" and len: "3 \<le> length args" and fits: "setFits (NowMs g) (drop 3 args)"
    and run: "cmdSet P db args g = (r, g')" "\<not> isErr r" and log: "rewriteForPersist (NowMs g) ''set'' args r True = Some (argv, hint)"
  shows "hint = Some (args ! 1)" "fst (cmdSet P db argv g) = r" "kv P (snd (cmdSet P db argv g)) = kv P g'"
proof -
  let ?o = "\<lparr>o_nx = False, o_xx = False, o_get = False, o_keepttl = False, o_expireAtMs = 0, o_hasExpire = False, o_expUnit = []\<rparr>"
  have argv: "argv = take 3 args @ setRewrite (NowMs g) (drop 3 args)" and "hint = Some (args ! 1)"
    using log by (auto simp: rewriteForPersist_def Let_def)
  then show "hint = Some (args ! 1)" by simp
  have same: "argv ! 1 = args ! 1" "argv ! 2 = args ! 2" "drop 3 argv = setRewrite (NowMs g) (drop 3 args)"
    using len by (simp_all add: argv nth_append)
  obtain o0 where o0: "parseSetOptions args = Inr o0"
    using run setopt_err by (cases "parseSetOptions args") (auto simp: cmdSet_def parseSetOptions_def)
  obtain o1 where o1: "resolveExpire (NowMs g) o0 = Inr o1"
    using run o0 resolve_err by (cases "resolveExpire (NowMs g) o0") (auto simp: cmdSet_def)
  have u: "if o_hasExpire o0 then isExpOpt (o_expUnit o0) else o_expUnit o0 = []"
    using setopt_unit [of "drop 3 args" ?o o0] o0 by (simp add: parseSetOptions_def)
  have "setConv (NowMs g) ?o = ?o" by (simp add: setConv_def relUnit_def)
  then have o0': "parseSetOptions argv = Inr (setConv (NowMs g) o0)"
    using setopt_rewrite [of "drop 3 args" ?o o0, OF _ fits] o0 by (simp add: parseSetOptions_def same)
  have o1': "resolveExpire (NowMs g) (setConv (NowMs g) o0) = Inr (o1\<lparr>o_expUnit := o_expUnit (setConv (NowMs g) o0)\<rparr>)"
    using setConv_resolve [OF o1] u by (simp split: if_splits)
  have 1: "refines P db (args ! 1) (setSpec o1 (args ! 2)) g (r, g')"
    using cmdSet_refines [OF inv o0 o1, of db] run by simp
  have 2: "refines P db (args ! 1) (setSpec o1 (args ! 2)) g (cmdSet P db argv g)"
    using cmdSet_refines [OF inv o0' o1', of db] unfolding same by (simp add: refines_def setSpec_unit)
  show "fst (cmdSet P db argv g) = r" "kv P (snd (cmdSet P db argv g)) = kv P g'"
    using 1 2 by (simp_all add: refines_def)
qed

end

text \<open>EXPIRE clamps at the end of time; its record wraps around and deletes the key.\<close>

lemma expire_record_deletes:
  "expireAt_ms False False 1000 MaxInt64 = MaxInt64"
  "rewriteForPersist 1000 ''expire'' [''EXPIRE'', ''k'', FormatInt MaxInt64] (RInt 1) True = Some ([''PEXPIREAT'', ''k'', ''0''], Some ''k'')"
proof -
  show "expireAt_ms False False 1000 MaxInt64 = MaxInt64" by code_simp
  have "parseIntStrict (FormatInt MaxInt64) = Some MaxInt64"
    by (simp add: parseIntStrict_eq_ParseInt64 ParseInt64_FormatInt is_i64_def)
  moreover have "FormatInt (expireAbsMs 1000 ''expire'' MaxInt64) = ''0''" by code_simp
  ultimately show "rewriteForPersist 1000 ''expire'' [''EXPIRE'', ''k'', FormatInt MaxInt64] (RInt 1) True = Some ([''PEXPIREAT'', ''k'', ''0''], Some ''k'')"
    unfolding rewriteForPersist_def by (simp add: Let_def numeral_2_eq_2)
qed

end
