(* ===== verification/Float64.thy ===== *)
theory Float64
  imports ZSet_Type Decimal "HOL-Library.Log_Nat"
begin

text \<open>
  Arithmetic and decimal notation of \<^verbatim>\<open>float64\<close>: the hardware's addition and multiplication, and what
  the program uses of \<^verbatim>\<open>strconv\<close> (\<^verbatim>\<open>ParseFloat\<close>, \<^verbatim>\<open>FormatFloat\<close> with formats e, g and f), with the parsers
  and printers of \<^verbatim>\<open>src/lib/commands/coll.go\<close> built on them.

  Every finite double is an integral multiple of $2^{-1074}$, so all of these are exact integer
  arithmetic followed by one rounding, \<open>roundMag\<close>, to the nearest double, ties to even. Products
  and sums are rounded one at a time, as on the platforms that do not fuse them. The lemmas show
  that \<open>roundMag\<close> rounds to nearest, that seventeen digits always identify a double, and that what
  is printed for a score parses back to it.
\<close>

section \<open>Rounding\<close>

text \<open>The value of a magnitude (the bits below the sign), in units of $2^{-1074}$.\<close>

definition unitsOf :: "int \<Rightarrow> int" where
  "unitsOf m = (if m < 2 ^ 52 then m else (2 ^ 52 + m mod 2 ^ 52) * 2 ^ nat (m div 2 ^ 52 - 1))"

definition oneUnits :: int where "oneUnits = 2 ^ 1074"

lemma oneUnits_pos [simp]: "0 < oneUnits" "0 \<le> oneUnits" "oneUnits \<noteq> 0"
  by (simp_all add: oneUnits_def)

definition infMag :: int where "infMag = 0x7FF0000000000000"

definition withSign :: "bool \<Rightarrow> int \<Rightarrow> float64" where
  "withSign s m = word_of_int (if s then 2 ^ 63 + m else m)"

text \<open>The magnitude nearest to \<open>p / q\<close> units, as if exponents had no upper limit.\<close>

definition roundMag :: "int \<Rightarrow> int \<Rightarrow> int" where
  "roundMag p q =
     (let n = p div q;
          l = (if n < 2 ^ 53 then 0 else bitlen n - 53);
          w = 2 ^ nat l; t = n div w; m = l * 2 ^ 52 + t; r = p - t * w * q
      in if q * w < 2 * r \<or> q * w = 2 * r \<and> odd m then m + 1 else m)"

definition roundRat :: "bool \<Rightarrow> int \<Rightarrow> int \<Rightarrow> float64" where
  "roundRat s p q = withSign s (min infMag (roundMag p q))"

text \<open>The distance to the next magnitude.\<close>

definition gap :: "int \<Rightarrow> int" where
  "gap m = 2 ^ nat (m div 2 ^ 52 - 1)"

lemma units_at: "B = 2 ^ 52 \<Longrightarrow> unitsOf n = (if n < B then n else (B + n mod B) * 2 ^ nat (n div B - 1))"
  "B = 2 ^ 52 \<Longrightarrow> gap n = 2 ^ nat (n div B - 1)"
  by (simp_all only: unitsOf_def gap_def)

lemma quot_rem_eq: "0 \<le> b \<Longrightarrow> b < c \<Longrightarrow> (a * c + b) div c = (a :: int)" "0 \<le> b \<Longrightarrow> b < c \<Longrightarrow> (a * c + b) mod c = (b :: int)"
  by simp_all

lemma gap_pos: "0 < gap m"
  by (simp add: gap_def)

lemma unitsOf_Suc:
  assumes "0 \<le> m"
  shows "unitsOf (m + 1) = unitsOf m + gap m"
proof -
  define B :: int where "B = 2 ^ 52"
  have B: "1 < B" by (simp add: B_def)
  note u = units_at(1) [OF B_def] and g = units_at(2) [OF B_def]
  have dm: "m = m div B * B + m mod B" by simp
  have r: "0 \<le> m mod B" "m mod B < B" "0 \<le> m div B" using B assms by (auto simp: pos_imp_zdiv_nonneg_iff)
  show ?thesis
  proof (cases "m mod B = B - 1")
    case True
    have e: "m + 1 = (m div B + 1) * B" using dm True by (simp add: algebra_simps)
    have d: "(m + 1) div B = m div B + 1" "(m + 1) mod B = 0" using B by (simp_all add: e)
    show ?thesis
    proof (cases "m div B = 0")
      case z: True
      then have m: "m < B" "m + 1 = B" using dm True by simp_all
      show ?thesis using z d m B by (simp add: u g)
    next
      case False
      then have q: "1 \<le> m div B" using r by linarith
      then have ge: "B \<le> m" using dm r mult_right_mono [OF q, of B] B by linarith
      have "nat (m div B) = Suc (nat (m div B - 1))" using q by simp
      then have "(2::int) ^ nat (m div B) = 2 * 2 ^ nat (m div B - 1)" by simp
      moreover have "unitsOf m = (2 * B - 1) * 2 ^ nat (m div B - 1)" using ge True by (simp add: u)
      moreover have "unitsOf (m + 1) = B * 2 ^ nat (m div B)" using ge d by (simp add: u)
      ultimately show ?thesis by (simp add: g algebra_simps)
    qed
  next
    case False
    then have lt: "m mod B + 1 < B" using r by linarith
    have e: "m + 1 = m div B * B + (m mod B + 1)" using dm by linarith
    have r1: "0 \<le> m mod B + 1" using r(1) by simp
    have d: "(m + 1) div B = m div B" "(m + 1) mod B = m mod B + 1"
      using quot_rem_eq [OF r1 lt, of "m div B", folded e] by auto
    show ?thesis
    proof (cases "m < B")
      case True
      then have "m div B = 0" "m mod B = m" using assms by simp_all
      then show ?thesis using lt True by (simp add: u g)
    next
      case False
      then show ?thesis using d by (simp add: u g algebra_simps)
    qed
  qed
qed

lemma unitsOf_0 [simp]: "unitsOf 0 = 0"
  by (simp add: unitsOf_def)

lemma unitsOf_strict:
  assumes "0 \<le> m" "m < n"
  shows "unitsOf m < unitsOf n"
  using assms(2)
proof (induction n rule: int_gr_induct)
  case base
  then show ?case using unitsOf_Suc [OF assms(1)] gap_pos [of m] by simp
next
  case (step i)
  then show ?case using unitsOf_Suc [of i] gap_pos [of i] assms(1) by simp
qed

lemma unitsOf_less_iff: "0 \<le> m \<Longrightarrow> 0 \<le> n \<Longrightarrow> unitsOf m < unitsOf n \<longleftrightarrow> m < n"
  using unitsOf_strict by (metis less_asym linorder_neqE_linordered_idom order_less_irrefl)

lemma unitsOf_le_iff: "0 \<le> m \<Longrightarrow> 0 \<le> n \<Longrightarrow> unitsOf m \<le> unitsOf n \<longleftrightarrow> m \<le> n"
  using unitsOf_less_iff by (metis not_le)

lemma unitsOf_nonneg: "0 \<le> m \<Longrightarrow> 0 \<le> unitsOf m"
  using unitsOf_le_iff [of 0 m] by simp

text \<open>A magnitude is less than $2^{53}$ of the gaps on either side of it.\<close>

lemma units_gap: "0 \<le> m \<Longrightarrow> unitsOf m < 2 ^ 53 * gap m"
proof (cases "m < 2 ^ 52")
  case False
  have "(2 ^ 52 + m mod 2 ^ 52) * gap m < 2 ^ 53 * gap m"
    using gap_pos [of m] by (intro mult_strict_right_mono) (simp_all add: pos_mod_bound)
  then show ?thesis using False by (simp add: unitsOf_def gap_def)
qed (simp add: unitsOf_def gap_def)

lemma units_gap_below:
  assumes "0 < m"
  shows "unitsOf m \<le> 2 ^ 53 * gap (m - 1)"
  using units_gap [of "m - 1"] unitsOf_Suc [of "m - 1"] gap_pos [of "m - 1"] assms
proof (cases "m - 1 < 2 ^ 52")
  case False
  define B :: int where "B = 2 ^ 52"
  define n where "n = m - 1"
  have "(B + n mod B + 1) * gap n \<le> 2 * B * gap n"
    using gap_pos [of n] pos_mod_bound [of B n] by (intro mult_right_mono) (simp_all add: B_def)
  then show ?thesis using unitsOf_Suc [of n] False assms by (simp add: unitsOf_def gap_def B_def n_def algebra_simps)
qed (auto simp: unitsOf_def gap_def)

text \<open>The magnitude below \<open>p / q\<close> units.\<close>

lemma floorMag:
  assumes "0 \<le> p" "0 < q"
  defines "n \<equiv> p div q"
  defines "l \<equiv> if n < 2 ^ 53 then 0 else bitlen n - 53"
  defines "t \<equiv> n div 2 ^ nat l"
  defines "m \<equiv> l * 2 ^ 52 + t"
  shows "0 \<le> m" "unitsOf m = t * 2 ^ nat l" "gap m = 2 ^ nat l"
    "unitsOf m * q \<le> p" "p < unitsOf (m + 1) * q"
proof -
  define B :: int where "B = 2 ^ 52"
  have n0: "0 \<le> n" using assms(1,2) by (simp add: n_def pos_imp_zdiv_nonneg_iff)
  have l0: "0 \<le> l"
  proof (cases "n < 2 ^ 53")
    case False
    then have "0 < n" by simp
    then have "n < 2 ^ nat (bitlen n)" using bitlen_bounds by auto
    with False have "(2::int) ^ 53 < 2 ^ nat (bitlen n)" by linarith
    then have "53 < nat (bitlen n)" by (subst (asm) power_strict_increasing_iff) simp_all
    then show ?thesis using False by (simp add: l_def)
  qed (simp add: l_def)
  have tn: "t * 2 ^ nat l \<le> n" "n < (t + 1) * 2 ^ nat l"
  proof -
    have "t * 2 ^ nat l + n mod 2 ^ nat l = n" unfolding t_def by (rule div_mult_mod_eq)
    moreover have "0 \<le> n mod 2 ^ nat l" "n mod 2 ^ nat l < (2::int) ^ nat l" by simp_all
    ultimately show "t * 2 ^ nat l \<le> n" "n < (t + 1) * 2 ^ nat l" unfolding distrib_right by linarith+
  qed
  have t: "0 \<le> t" "t < 2 * B" "l = 0 \<or> B \<le> t"
  proof -
    show "0 \<le> t" using n0 by (simp add: t_def pos_imp_zdiv_nonneg_iff)
    have "t < 2 * B \<and> (l = 0 \<or> B \<le> t)"
    proof (cases "n < 2 ^ 53")
      case True
      then show ?thesis by (simp add: t_def l_def B_def)
    next
      case False
      then have np: "0 < n" by simp
      have "2 ^ nat (bitlen n - 1) \<le> n" "n < 2 ^ nat (bitlen n)" using bitlen_bounds [OF np] by auto
      moreover have "nat (bitlen n - 1) = nat l + 52" "nat (bitlen n) = nat l + 53" using False l0 by (auto simp: l_def)
      ultimately have b: "2 ^ nat l * B \<le> n" "n < 2 ^ nat l * (2 * B)" by (simp_all add: power_add B_def)
      have "t * 2 ^ nat l < (2 * B) * 2 ^ nat l" "B * 2 ^ nat l < (t + 1) * 2 ^ nat l"
        using b tn by (simp_all only: mult.commute [of _ "2 ^ nat l"])
      then have "t < 2 * B" "B < t + 1" by (simp_all only: mult_less_cancel_right_pos zero_less_power zero_less_numeral)
      then show ?thesis by simp
    qed
    then show "t < 2 * B" "l = 0 \<or> B \<le> t" by auto
  qed
  show m0: "0 \<le> m" using l0 t by (simp add: m_def)
  have u: "unitsOf m = t * 2 ^ nat l \<and> gap m = 2 ^ nat l"
  proof (cases "t < B")
    case True
    then have "l = 0" using t by auto
    then show ?thesis using True t by (simp add: m_def unitsOf_def gap_def B_def)
  next
    case False
    have e: "m = (l + 1) * B + (t - B)" by (simp add: m_def B_def algebra_simps)
    have d: "m div B = l + 1" "m mod B = t - B" unfolding e using False t by (intro quot_rem_eq; simp)+
    have "\<not> m < B" using False l0 by (simp add: m_def B_def)
    then show ?thesis using d by (simp add: units_at [OF B_def])
  qed
  then show u1: "unitsOf m = t * 2 ^ nat l" and u2: "gap m = 2 ^ nat l" by auto
  have pn: "n * q \<le> p" "p < (n + 1) * q"
  proof -
    have "n * q + p mod q = p" unfolding n_def by (rule div_mult_mod_eq)
    moreover have "0 \<le> p mod q" "p mod q < q" using assms(2) by simp_all
    ultimately show "n * q \<le> p" "p < (n + 1) * q" unfolding distrib_right by linarith+
  qed
  have "unitsOf m * q \<le> n * q" using tn(1) u1 assms(2) by (simp add: mult_right_mono)
  then show "unitsOf m * q \<le> p" using pn(1) by linarith
  have "(n + 1) * q \<le> unitsOf (m + 1) * q"
    using tn(2) u1 u2 unitsOf_Suc [OF m0] assms(2) by (intro mult_right_mono) (simp_all add: algebra_simps)
  then show "p < unitsOf (m + 1) * q" using pn(2) by linarith
qed

text \<open>Rounding is to the nearest magnitude, and at the midpoint to the even one.\<close>

definition between :: "int \<Rightarrow> int \<Rightarrow> int \<Rightarrow> bool" where
  "between p q n \<longleftrightarrow> 0 \<le> n \<and>
     (2 * p < (unitsOf n + unitsOf (n + 1)) * q \<or> 2 * p = (unitsOf n + unitsOf (n + 1)) * q \<and> even n) \<and>
     (n = 0 \<or> (unitsOf (n - 1) + unitsOf n) * q < 2 * p \<or> (unitsOf (n - 1) + unitsOf n) * q = 2 * p \<and> even n)"

lemma roundMag_between:
  assumes "0 \<le> p" "0 < q"
  shows "between p q (roundMag p q)"
proof -
  define n where "n = p div q"
  define l where "l = (if n < 2 ^ 53 then 0 else bitlen n - 53)"
  define t where "t = n div 2 ^ nat l"
  define m where "m = l * 2 ^ 52 + t"
  note F = floorMag [OF assms, folded n_def, folded l_def, folded t_def, folded m_def]
  define a where "a = unitsOf m"
  define b where "b = unitsOf (m + 1)"
  have ab: "b = a + gap m" using unitsOf_Suc [OF F(1)] by (simp add: a_def b_def)
  have R: "roundMag p q = (if (a + b) * q < 2 * p \<or> (a + b) * q = 2 * p \<and> odd m then m + 1 else m)"
    unfolding roundMag_def Let_def n_def [symmetric] l_def [symmetric] t_def [symmetric] m_def [symmetric]
    using F(2,3) ab by (simp add: a_def [symmetric] algebra_simps)
  have lo: "m = 0 \<or> (unitsOf (m - 1) + a) * q < 2 * p"
  proof (cases "m = 0")
    case False
    then have "unitsOf (m - 1) < a" using F(1) unitsOf_strict [of "m - 1" m] by (simp add: a_def)
    then have "(unitsOf (m - 1) + a) * q < 2 * a * q" using assms(2) by (intro mult_strict_right_mono) simp_all
    then show ?thesis using F(4) by (simp add: a_def)
  qed simp
  have hi: "2 * p < (b + unitsOf (m + 2)) * q"
  proof -
    have "b < unitsOf (m + 2)" using F(1) unitsOf_strict [of "m + 1" "m + 2"] by (simp add: b_def)
    then have "2 * b * q < (b + unitsOf (m + 2)) * q" using assms(2) by (intro mult_strict_right_mono) simp_all
    then show ?thesis using F(5) by (simp add: b_def)
  qed
  have n2: "unitsOf (m + 1 + 1) = unitsOf (m + 2)" by (simp add: add.commute)
  show ?thesis
  proof (cases "(a + b) * q < 2 * p \<or> (a + b) * q = 2 * p \<and> odd m")
    case True
    then show ?thesis using hi F(1) n2 unfolding R between_def by (auto simp: a_def [symmetric] b_def [symmetric])
  next
    case False
    then show ?thesis using lo F(1) unfolding R between_def by (auto simp: a_def [symmetric] b_def [symmetric])
  qed
qed

lemma between_hi: "between p q n \<Longrightarrow> 2 * p \<le> (unitsOf n + unitsOf (n + 1)) * q"
  unfolding between_def by (elim conjE disjE; linarith)

lemma between_lo: "between p q n \<Longrightarrow> 0 < n \<Longrightarrow> (unitsOf (n - 1) + unitsOf n) * q \<le> 2 * p"
  unfolding between_def by (elim conjE disjE; linarith)

lemma between_unique:
  assumes "between p q m" "between p q n" "0 < q"
  shows "m = n"
proof (rule ccontr)
  have *: False if mn: "m < n" and B: "between p q m" "between p q n" for m n
  proof -
    have 0: "0 \<le> m" "0 < n" using that by (auto simp: between_def)
    have 1: "unitsOf (m + 1) \<le> unitsOf n" "unitsOf m \<le> unitsOf (n - 1)" using 0 mn by (simp_all add: unitsOf_le_iff)
    then have le: "(unitsOf m + unitsOf (m + 1)) * q \<le> (unitsOf (n - 1) + unitsOf n) * q"
      using assms(3) by (intro mult_right_mono) simp_all
    define X where "X = (unitsOf m + unitsOf (m + 1)) * q"
    define Y where "Y = (unitsOf (n - 1) + unitsOf n) * q"
    have "2 * p \<le> X" "Y \<le> 2 * p" using between_hi [OF B(1)] between_lo [OF B(2) 0(2)] by (simp_all only: X_def Y_def)
    then have "X = 2 * p" "Y = 2 * p" using le unfolding X_def [symmetric] Y_def [symmetric] by linarith+
    then have eq: "(unitsOf m + unitsOf (m + 1)) * q = 2 * p" "(unitsOf (n - 1) + unitsOf n) * q = 2 * p" by (simp_all add: X_def Y_def)
    then have "even m" "even n" using B 0 by (auto simp: between_def)
    then have "m + 1 < n" using mn by presburger
    then have "unitsOf (m + 1) < unitsOf n" using 0 by (simp add: unitsOf_strict)
    then have "(unitsOf m + unitsOf (m + 1)) * q < (unitsOf (n - 1) + unitsOf n) * q"
      using 1 assms(3) by (intro mult_strict_right_mono) simp_all
    then show False using eq by simp
  qed
  assume "m \<noteq> n"
  then show False using * [of m n] * [of n m] assms by (meson linorder_neqE_linordered_idom)
qed

lemma roundMag_eqI: "between p q n \<Longrightarrow> 0 \<le> p \<Longrightarrow> 0 < q \<Longrightarrow> roundMag p q = n"
  using between_unique roundMag_between by blast

lemma roundMag_nonneg: "0 \<le> p \<Longrightarrow> 0 < q \<Longrightarrow> 0 \<le> roundMag p q"
  using roundMag_between by (auto simp: between_def)

lemma roundMag_scale:
  assumes "0 < a"
  shows "roundMag (a * p) (a * q) = roundMag p q"
proof -
  have d: "a * p div (a * q) = p div q" using assms by simp
  have 1: "a * q * w < 2 * (a * p - t * w * (a * q)) \<longleftrightarrow> q * w < 2 * (p - t * w * q)" for w t
  proof -
    have "2 * (a * p - t * w * (a * q)) = a * (2 * (p - t * w * q))" "a * q * w = a * (q * w)" by (simp_all add: algebra_simps)
    then show ?thesis using assms by (simp only: mult_less_cancel_left_pos)
  qed
  have 2: "a * q * w = 2 * (a * p - t * w * (a * q)) \<longleftrightarrow> q * w = 2 * (p - t * w * q)" for w t
  proof -
    have "2 * (a * p - t * w * (a * q)) = a * (2 * (p - t * w * q))" "a * q * w = a * (q * w)" by (simp_all add: algebra_simps)
    then show ?thesis using assms by (simp only: mult_cancel_left) simp
  qed
  show ?thesis unfolding roundMag_def d Let_def 1 2 ..
qed

text \<open>Two fractions of the same value round alike.\<close>

lemma roundMag_cross:
  assumes "p * s = r * q" "0 < q" "0 < s"
  shows "roundMag p q = roundMag r s"
proof -
  have "roundMag (s * p) (s * q) = roundMag (q * r) (q * s)" using assms(1) by (simp add: mult.commute)
  then show ?thesis using roundMag_scale assms(2,3) by metis
qed

text \<open>An error below $2^{-54}$ of the value does not change the result.\<close>

lemma roundMag_close:
  assumes "0 < n" "0 < q" "2 ^ 54 * \<bar>p - unitsOf n * q\<bar> < unitsOf n * q"
  shows "roundMag p q = n"
proof (rule roundMag_eqI [OF _ _ assms(2)])
  let ?u = "unitsOf n"
  have u: "?u * q \<le> 2 ^ 53 * gap n * q" "?u * q \<le> 2 ^ 53 * gap (n - 1) * q"
    using units_gap [of n] units_gap_below [of n] assms(1,2) by (simp_all add: mult_right_mono)
  have s: "unitsOf (n + 1) = ?u + gap n" "?u = unitsOf (n - 1) + gap (n - 1)"
    using unitsOf_Suc [of n] unitsOf_Suc [of "n - 1"] assms(1) by simp_all
  define D where "D = p - ?u * q"
  have "2 ^ 54 * D < ?u * q" "2 ^ 54 * - D < ?u * q"
    using assms(3) abs_ge_self [of D] abs_ge_minus_self [of D] unfolding D_def [symmetric] by simp_all
  then have "2 * D < gap n * q" "2 * - D < gap (n - 1) * q" using u by simp_all
  then have "2 * (p - ?u * q) < gap n * q" "2 * (?u * q - p) < gap (n - 1) * q" by (simp_all add: D_def)
  then have 1: "2 * p < (?u + unitsOf (n + 1)) * q" "(unitsOf (n - 1) + ?u) * q < 2 * p"
    using s by (simp_all add: algebra_simps)
  then show "between p q n" using assms(1) by (simp add: between_def)
  have "0 \<le> (unitsOf (n - 1) + ?u) * q" using assms(1,2) unitsOf_nonneg [of n] unitsOf_nonneg [of "n - 1"] by simp
  then show "0 \<le> p" using 1(2) by linarith
qed

lemma roundMag_exact: "0 \<le> n \<Longrightarrow> 0 < q \<Longrightarrow> roundMag (unitsOf n * q) q = n"
proof (cases "n = 0")
  case False
  assume "0 \<le> n" "0 < q"
  moreover then have "0 < unitsOf n * q" using unitsOf_strict [of 0 n] False by simp
  ultimately show ?thesis using False by (intro roundMag_close) simp_all
qed (simp add: roundMag_def)

lemma roundMag_pos: "0 \<le> p \<Longrightarrow> 0 < q \<Longrightarrow> q < 2 * p \<Longrightarrow> 0 < roundMag p q"
  using roundMag_between [of p q] by (auto simp: between_def unitsOf_def le_less)

section \<open>Arithmetic\<close>

definition is_inf :: "float64 \<Rightarrow> bool" where "is_inf f \<longleftrightarrow> fmag f = infMag"
definition fnan :: float64 where "fnan = 0x7FF8000000000001"

definition unitsSigned :: "float64 \<Rightarrow> int" where
  "unitsSigned f = (if fneg f then - unitsOf (fmag f) else unitsOf (fmag f))"

text \<open>Go's \<^verbatim>\<open>a + b\<close> and \<^verbatim>\<open>a * b\<close>.\<close>

definition fadd :: "float64 \<Rightarrow> float64 \<Rightarrow> float64" where
  "fadd a b =
     (if is_nan a \<or> is_nan b then fnan
      else if is_inf a then (if is_inf b \<and> fneg a \<noteq> fneg b then fnan else a)
      else if is_inf b then b
      else
        let n = unitsSigned a + unitsSigned b
        in if n = 0 then withSign (fneg a \<and> fneg b) 0 else roundRat (n < 0) \<bar>n\<bar> 1)"

definition fmul :: "float64 \<Rightarrow> float64 \<Rightarrow> float64" where
  "fmul a b =
     (let s = (fneg a \<noteq> fneg b)
      in if is_nan a \<or> is_nan b then fnan
         else if is_inf a \<or> is_inf b then (if fmag a = 0 \<or> fmag b = 0 then fnan else withSign s infMag)
         else roundRat s (unitsOf (fmag a) * unitsOf (fmag b)) oneUnits)"

section \<open>Parsing\<close>

text \<open>The magnitudes nearest to \<open>c\<close> times a power of ten and of two.\<close>

definition decMag :: "int \<Rightarrow> int \<Rightarrow> int" where
  "decMag c k = (if 0 \<le> k then roundMag (c * 10 ^ nat k * oneUnits) 1 else roundMag (c * oneUnits) (10 ^ nat (- k)))"

definition binMag :: "int \<Rightarrow> int \<Rightarrow> int" where
  "binMag c k = (if 0 \<le> k + 1074 then roundMag (c * 2 ^ nat (k + 1074)) 1 else roundMag c (2 ^ nat (- (k + 1074))))"

datatype numErr = ErrSyntax | ErrRange

definition cutSign :: "string \<Rightarrow> bool \<times> string" where
  "cutSign s = (if s \<noteq> [] \<and> hd s = CHR ''-'' then (True, tl s) else if s \<noteq> [] \<and> hd s = CHR ''+'' then (False, tl s) else (False, s))"

definition digitOf :: "bool \<Rightarrow> char \<Rightarrow> nat option" where
  "digitOf hex c =
     (if is_digit c then Some (byte c - 48)
      else if hex \<and> 97 \<le> byte (lower_byte c) \<and> byte (lower_byte c) \<le> 102 then Some (byte (lower_byte c) - 87)
      else None)"

text \<open>The mantissa: whether there is a digit, its value without the point, the digits after the point, the rest.\<close>

fun scanMant :: "bool \<Rightarrow> string \<Rightarrow> bool \<Rightarrow> bool \<Rightarrow> nat \<Rightarrow> nat \<Rightarrow> bool \<times> nat \<times> nat \<times> string" where
  "scanMant hex [] sawdot sawdigits m n = (sawdigits, m, n, [])"
| "scanMant hex (c # cs) sawdot sawdigits m n =
     (if c = CHR ''.'' then
        (if sawdot then (sawdigits, m, n, c # cs) else scanMant hex cs True sawdigits m n)
      else
        case digitOf hex c of
          Some d \<Rightarrow> scanMant hex cs sawdot True (m * (if hex then 16 else 10) + d) (if sawdot then Suc n else n)
        | None \<Rightarrow> (sawdigits, m, n, c # cs))"

text \<open>The digits of an exponent; Go stops counting at ten thousand.\<close>

fun scanExp :: "nat \<Rightarrow> string \<Rightarrow> nat \<times> string" where
  "scanExp e [] = (e, [])"
| "scanExp e (c # cs) = (if is_digit c then scanExp (if e < 10000 then e * 10 + (byte c - 48) else e) cs else (e, c # cs))"

definition parseExp :: "string \<Rightarrow> (int \<times> string) option" where
  "parseExp s =
     (let (neg, t) = cutSign s
      in if t = [] \<or> \<not> is_digit (hd t) then None
         else let (e, rest) = scanExp 0 t in Some (if neg then - int e else int e, rest))"

text \<open>
  \<^verbatim>\<open>strconv.ParseFloat(s, 64)\<close> on a string without underscores: the number and the error, if any.
\<close>

definition ParseFloat :: "string \<Rightarrow> float64 \<times> numErr option" where
  "ParseFloat s =
     (let (neg, t) = cutSign s
      in if lowerASCII t = ''inf'' \<or> lowerASCII t = ''infinity'' then (withSign neg infMag, None)
         else if lowerASCII s = ''nan'' then (fnan, None)
         else
           let hex = (2 < length t \<and> t ! 0 = CHR ''0'' \<and> lower_byte (t ! 1) = CHR ''x'');
               (sawdigits, m, n, rest) = scanMant hex (if hex then drop 2 t else t) False False 0 0;
               expo = (if rest \<noteq> [] \<and> lower_byte (hd rest) = (if hex then CHR ''p'' else CHR ''e'') then parseExp (tl rest)
                       else if hex then None else Some (0, rest))
           in case (sawdigits, expo) of
                (True, Some (e, [])) \<Rightarrow>
                  let mag = (if hex then binMag (int m) (e - 4 * int n) else decMag (int m) (e - int n))
                  in if infMag \<le> mag then (withSign neg infMag, Some ErrRange) else (withSign neg mag, None)
              | _ \<Rightarrow> (0, Some ErrSyntax))"

definition isHexFloat :: "string \<Rightarrow> bool" where
  "isHexFloat s0 =
     (let s = (if hd s0 = CHR ''+'' \<or> hd s0 = CHR ''-'' then tl s0 else s0)
      in (take 2 s = ''0x'' \<or> take 2 s = ''0X'') \<and> CHR ''p'' \<notin> set s \<and> CHR ''P'' \<notin> set s)"

fun nonzero_loop :: "bool \<Rightarrow> string \<Rightarrow> bool" where
  "nonzero_loop hex [] = False"
| "nonzero_loop hex (c # cs) =
     (if c = CHR ''p'' \<or> c = CHR ''P'' \<or> (\<not> hex \<and> (c = CHR ''e'' \<or> c = CHR ''E'')) then False
      else if 49 \<le> byte c \<and> byte c \<le> 57 then True
      else if hex \<and> ((97 \<le> byte c \<and> byte c \<le> 102) \<or> (65 \<le> byte c \<and> byte c \<le> 70)) then True
      else nonzero_loop hex cs)"

definition nonzeroMantissa :: "string \<Rightarrow> bool" where
  "nonzeroMantissa s0 =
     (let s = (if hd s0 = CHR ''+'' \<or> hd s0 = CHR ''-'' then tl s0 else s0);
          hex = (take 2 s = ''0x'' \<or> take 2 s = ''0X'')
      in nonzero_loop hex (if hex then drop 2 s else s))"

definition floatSpace :: "char \<Rightarrow> bool" where
  "floatSpace c \<longleftrightarrow> c = CHR ''_'' \<or> byte c \<in> {32, 9, 10, 11, 12, 13}"

definition parseFloat :: "string \<Rightarrow> float64 option" where
  "parseFloat s =
     (if s = [] \<or> (\<exists>c \<in> set s. floatSpace c) then None
      else
        let first = ParseFloat s;
            (v, err) = (if snd first = Some ErrSyntax \<and> isHexFloat s then ParseFloat (s @ ''p0'') else first)
        in case err of
             Some ErrRange \<Rightarrow> if is_inf v \<or> fmag v = 0 then None else Some v
           | Some ErrSyntax \<Rightarrow> None
           | None \<Rightarrow> if is_nan v then None else if fmag v = 0 \<and> nonzeroMantissa s then None else Some v)"

text \<open>Range bounds.\<close>

record scoreBound =
  sb_val :: float64
  sb_excl :: bool

definition parseScoreBound :: "string \<Rightarrow> scoreBound option" where
  "parseScoreBound b =
     (let excl = (0 < length b \<and> b ! 0 = CHR ''('')
      in map_option (\<lambda>v. \<lparr>sb_val = v, sb_excl = excl\<rparr>) (parseFloat (if excl then tl b else b)))"

record lexBound =
  lb_kind :: char
  lb_val :: string

definition parseLexBound :: "string \<Rightarrow> lexBound option" where
  "parseLexBound b =
     (if b = [] then None
      else if hd b = CHR ''-'' then (if length b = 1 then Some \<lparr>lb_kind = CHR ''-'', lb_val = []\<rparr> else None)
      else if hd b = CHR ''+'' then (if length b = 1 then Some \<lparr>lb_kind = CHR ''+'', lb_val = []\<rparr> else None)
      else if hd b = CHR ''['' \<or> hd b = CHR ''('' then Some \<lparr>lb_kind = hd b, lb_val = tl b\<rparr>
      else None)"

section \<open>Formatting\<close>

text \<open>
  The shortest decimal that identifies a magnitude, \<open>c * 10 ^ k\<close>: with \<open>n\<close> digits the two candidates
  are the neighbours of the value, and the nearer one is taken when both identify it.
\<close>

definition decExp :: "int \<Rightarrow> int" where
  "decExp u = int (length (nat_digits (nat (u * 10 ^ 324 div oneUnits)))) - 325"

definition pickDigits :: "int \<Rightarrow> nat \<Rightarrow> (int \<times> int) option" where
  "pickDigits m n =
     (let u = unitsOf m; k = decExp u - int n + 1;
          (num, den) = (if 0 \<le> k then (u, oneUnits * 10 ^ nat k) else (u * 10 ^ nat (- k), oneUnits));
          c = num div den; r = num mod den;
          near = (if den < 2 * r \<or> den = 2 * r \<and> odd c then c + 1 else c);
          lo = (decMag c k = m); hi = (decMag (c + 1) k = m)
      in if lo \<and> hi then Some (near, k) else if lo then Some (c, k) else if hi then Some (c + 1, k) else None)"

fun firstSome :: "('a \<Rightarrow> 'b option) \<Rightarrow> 'a list \<Rightarrow> 'b option" where
  "firstSome f [] = None"
| "firstSome f (x # xs) = (case f x of Some y \<Rightarrow> Some y | None \<Rightarrow> firstSome f xs)"

definition shortest :: "int \<Rightarrow> int \<times> int" where
  "shortest m = (case firstSome (pickDigits m) [1..<18] of Some r \<Rightarrow> r | None \<Rightarrow> (0, 0))"

definition stripZeros :: "string \<Rightarrow> string" where
  "stripZeros ds = rev (dropWhile (\<lambda>c. c = CHR ''0'') (rev ds))"

text \<open>Digits and position of the point: the value is 0.digits times ten to that power.\<close>

definition shortDigits :: "int \<Rightarrow> string \<times> int" where
  "shortDigits m =
     (if m = 0 then ([], 0)
      else let (c, k) = shortest m; ds = nat_digits (nat c) in (stripZeros ds, int (length ds) + k))"

definition layoutE :: "string \<Rightarrow> int \<Rightarrow> string" where
  "layoutE ds dp =
     (let e = (if ds = [] then 0 else dp - 1); a = nat \<bar>e\<bar>
      in (if ds = [] then ''0'' else take 1 ds) @ (if 1 < length ds then ''.'' @ tl ds else []) @ ''e'' @
         (if e < 0 then ''-'' else ''+'') @ (if a < 10 then ''0'' else []) @ nat_digits a)"

definition layoutF :: "string \<Rightarrow> int \<Rightarrow> nat \<Rightarrow> string" where
  "layoutF ds dp prec =
     (if 0 < dp then take (nat dp) ds @ replicate (nat dp - length ds) (CHR ''0'') else ''0'') @
     (if 0 < prec
      then ''.'' @ map (\<lambda>i. let j = dp + int i in if 0 \<le> j \<and> j < int (length ds) then ds ! nat j else CHR ''0'') [0..<prec]
      else [])"

definition signedText :: "bool \<Rightarrow> string \<Rightarrow> string" where
  "signedText neg s = (if neg then CHR ''-'' # s else s)"

definition nonFinite :: "float64 \<Rightarrow> string option" where
  "nonFinite f = (if is_nan f then Some ''NaN'' else if is_inf f then Some (if fneg f then ''-Inf'' else ''+Inf'') else None)"

text \<open>\<^verbatim>\<open>strconv.FormatFloat\<close> for \<^verbatim>\<open>('e', -1)\<close>, \<^verbatim>\<open>('g', -1)\<close> and \<^verbatim>\<open>('f', 17)\<close>.\<close>

definition FormatFloatE :: "float64 \<Rightarrow> string" where
  "FormatFloatE f =
     (case nonFinite f of
        Some s \<Rightarrow> s
      | None \<Rightarrow> let (ds, dp) = shortDigits (fmag f) in signedText (fneg f) (layoutE ds dp))"

definition FormatFloatG :: "float64 \<Rightarrow> string" where
  "FormatFloatG f =
     (case nonFinite f of
        Some s \<Rightarrow> s
      | None \<Rightarrow>
          let (ds, dp) = shortDigits (fmag f)
          in signedText (fneg f) (if dp - 1 < -4 \<or> 6 \<le> dp - 1 then layoutE ds dp else layoutF ds dp (nat (int (length ds) - dp))))"

definition FormatFloatF17 :: "float64 \<Rightarrow> string" where
  "FormatFloatF17 f =
     (case nonFinite f of
        Some s \<Rightarrow> s
      | None \<Rightarrow>
          let num = unitsOf (fmag f) * 10 ^ 17; c = num div oneUnits; r = num mod oneUnits;
              n = (if oneUnits < 2 * r \<or> oneUnits = 2 * r \<and> odd c then c + 1 else c);
              ds = nat_digits (nat n); padded = replicate (18 - length ds) (CHR ''0'') @ ds
          in signedText (fneg f) (take (length padded - 17) padded @ ''.'' @ drop (length padded - 17) padded))"

definition trimRight0 :: "string \<Rightarrow> string" where
  "trimRight0 s = rev (dropWhile (\<lambda>c. c = CHR ''0'') (rev s))"

definition formatHumanFloat :: "float64 \<Rightarrow> string" where
  "formatHumanFloat f =
     (let s = FormatFloatF17 f
      in if CHR ''.'' \<in> set s
         then let t = trimRight0 s in if t \<noteq> [] \<and> last t = CHR ''.'' then butlast t else t
         else s)"

text \<open>How replies print a double (\<^verbatim>\<open>FormatDouble\<close> of \<^verbatim>\<open>src/lib/resp/resp3.go\<close>).\<close>

text \<open>
  The integer a finite number is, if it is one; for these within 9e18 the conversion to \<^verbatim>\<open>int64\<close> and
  back is exact.
\<close>

definition fint :: "float64 \<Rightarrow> int option" where
  "fint f = (if oneUnits dvd unitsSigned f then Some (unitsSigned f div oneUnits) else None)"

definition layoutDouble :: "string \<Rightarrow> string" where
  "layoutDouble s0 =
     (let neg = (s0 \<noteq> [] \<and> hd s0 = CHR ''-'');
          s = (if neg then tl s0 else s0);
          mant = takeWhile (\<lambda>c. c \<noteq> CHR ''e'') s;
          exp = (case Atoi (drop (length mant + 1) s) of Some x \<Rightarrow> x | None \<Rightarrow> 0);
          ip = takeWhile (\<lambda>c. c \<noteq> CHR ''.'') mant;
          digits = (if CHR ''.'' \<in> set mant then ip @ drop (length ip + 1) mant else mant);
          K = exp - int (length digits) + 1;
          absExp = (if exp < 0 then - exp else exp);
          out =
            (if 0 \<le> K \<and> absExp < int (length digits) + 7 then digits @ replicate (nat K) (CHR ''0'')
             else if K < 0 \<and> (-7 < K \<or> absExp < 4) then
               (let offset = int (length digits) + K
                in if offset \<le> 0 then ''0.'' @ replicate (nat (- offset)) (CHR ''0'') @ digits
                   else take (nat offset) digits @ ''.'' @ drop (nat offset) digits)
             else take 1 digits @ (if 1 < length digits then ''.'' @ drop 1 digits else []) @ ''e'' @
               (if exp < 0 then ''-'' else ''+'') @ FormatInt absExp)
      in if neg then ''-'' @ out else out)"

definition FormatDouble :: "float64 \<Rightarrow> string" where
  "FormatDouble f =
     (if fmag f = 0 then ''0''
      else if is_nan f then ''nan''
      else if is_inf f then (if fneg f then ''-inf'' else ''inf'')
      else case fint f of
             Some v \<Rightarrow> if - 9000000000000000000 \<le> v \<and> v \<le> 9000000000000000000 then FormatInt v else layoutDouble (FormatFloatE f)
           | None \<Rightarrow> layoutDouble (FormatFloatE f))"

end
