(* ===== verification/Float_Text.thy ===== *)
theory Float_Text
  imports Float64
begin

text \<open>
  What is printed for a \<^verbatim>\<open>float64\<close> parses back to it: seventeen digits identify every double, the
  shortest digits are found among at most seventeen, and the layouts of \<^verbatim>\<open>FormatDouble\<close> (replies) and
  \<^verbatim>\<open>FormatFloat(f, 'g', -1, 64)\<close> (the append-only file) are read back by \<^verbatim>\<open>parseFloat\<close>.
\<close>

section \<open>Bits\<close>

lemma fmag_range: "0 \<le> fmag f" "fmag f < 2 ^ 63"
  by (simp_all add: fmag_def)

lemma fmag_withSign:
  assumes "0 \<le> m" "m < 2 ^ 63"
  shows "fmag (withSign s m) = m" "fneg (withSign s m) \<longleftrightarrow> s"
proof -
  have u: "uint (withSign s m) = (if s then 2 ^ 63 + m else m)"
    using assms by (simp add: withSign_def uint_word_of_int)
  show "fmag (withSign s m) = m"
  proof (cases s)
    case True
    have "(1 * 2 ^ 63 + m) mod 2 ^ 63 = m" using assms by (rule quot_rem_eq)
    then show ?thesis using True u by (simp add: fmag_def)
  qed (use u assms in \<open>simp add: fmag_def\<close>)
  show "fneg (withSign s m) \<longleftrightarrow> s" using u assms by (simp add: fneg_def)
qed

lemma withSign_bits: "withSign (fneg f) (fmag f) = f"
proof (rule word_uint_eqI)
  have r: "0 \<le> uint f" "uint f < 2 ^ 64" using uint_bounded [of f] by simp_all
  have m: "fmag f = (if fneg f then uint f - 2 ^ 63 else uint f)"
  proof (cases "fneg f")
    case True
    have "uint f = 1 * 2 ^ 63 + (uint f - 2 ^ 63)" by simp
    moreover have "(1 * 2 ^ 63 + (uint f - 2 ^ 63)) mod 2 ^ 63 = uint f - 2 ^ 63"
      using True r by (intro quot_rem_eq) (simp_all add: fneg_def)
    ultimately show ?thesis using True by (simp add: fmag_def)
  qed (use r in \<open>simp add: fmag_def fneg_def\<close>)
  show "uint (withSign (fneg f) (fmag f)) = uint f"
    using m r by (simp add: withSign_def uint_word_of_int split: if_splits)
qed

lemma finite_mag: "\<not> is_nan f \<Longrightarrow> \<not> is_inf f \<Longrightarrow> fmag f < infMag"
  by (simp add: is_nan_def is_inf_def infMag_def)

lemma mag_cases: "fmag f < infMag \<Longrightarrow> \<not> is_nan f" "fmag f < infMag \<Longrightarrow> \<not> is_inf f"
  by (simp_all add: is_nan_def is_inf_def infMag_def)

section \<open>Powers of ten\<close>

lemma decMag_shift:
  assumes "0 \<le> c"
  shows "decMag (c * 10 ^ t) k = decMag c (k + int t)"
proof (cases "0 \<le> k")
  case True
  then have "nat (k + int t) = t + nat k" by simp
  then show ?thesis using True by (simp add: decMag_def power_add mult.assoc)
next
  case k: False
  show ?thesis
  proof (cases "0 \<le> k + int t")
    case True
    let ?a = "(10 :: int) ^ nat (- k)"
    have "t = nat (- k) + nat (k + int t)" using k True by simp
    then have "(10 :: int) ^ t = ?a * 10 ^ nat (k + int t)" by (metis power_add)
    then have "decMag (c * 10 ^ t) k = roundMag (?a * (c * 10 ^ nat (k + int t) * oneUnits)) (?a * 1)"
      using k by (simp add: decMag_def mult.assoc mult.left_commute)
    also have "\<dots> = roundMag (c * 10 ^ nat (k + int t) * oneUnits) 1" by (rule roundMag_scale) simp
    finally show ?thesis using True by (simp add: decMag_def)
  next
    case False
    have "nat (- k) = t + nat (- (k + int t))" using False by simp
    then have "(10 :: int) ^ nat (- k) = 10 ^ t * 10 ^ nat (- (k + int t))" by (metis power_add)
    then have "decMag (c * 10 ^ t) k = roundMag (10 ^ t * (c * oneUnits)) (10 ^ t * 10 ^ nat (- (k + int t)))"
      using k by (simp add: decMag_def mult.assoc mult.left_commute)
    also have "\<dots> = roundMag (c * oneUnits) (10 ^ nat (- (k + int t)))" by (rule roundMag_scale) simp
    finally show ?thesis using False by (simp add: decMag_def)
  qed
qed

lemma decMag_0 [simp]: "decMag 0 k = 0"
  by (simp add: decMag_def roundMag_def)

lemma digits_bounds:
  assumes "0 < n"
  shows "10 ^ (length (nat_digits n) - 1) \<le> n" "n < 10 ^ length (nat_digits n)"
proof -
  show "n < 10 ^ length (nat_digits n)"
    using dec_val_upper [of "nat_digits n" 0] nat_digits_digits by (simp add: dec_val_nat_digits)
  show "10 ^ (length (nat_digits n) - 1) \<le> n"
    using assms
  proof (induction n rule: nat_digits.induct)
    case (1 n)
    show ?case
    proof (cases "n < 10")
      case True
      then show ?thesis using 1(2) by (simp add: nat_digits.simps [of n])
    next
      case False
      then have "10 ^ (length (nat_digits (n div 10)) - 1) \<le> n div 10" using 1 by simp
      then have "10 * 10 ^ (length (nat_digits (n div 10)) - 1) \<le> n" by linarith
      then have "10 ^ Suc (length (nat_digits (n div 10)) - 1) \<le> n" by (simp only: power_Suc)
      moreover have "length (nat_digits n) - 1 = Suc (length (nat_digits (n div 10)) - 1)"
        using False by (subst nat_digits.simps) (simp add: Suc_leI)
      ultimately show ?thesis by (simp only:)
    qed
  qed
qed

lemma nat_below: "0 \<le> w \<Longrightarrow> w < 10 ^ k \<Longrightarrow> nat w < 10 ^ k"
  by (simp add: nat_less_iff)

lemma digits_length: "n < 10 ^ k \<Longrightarrow> 0 < k \<Longrightarrow> length (nat_digits n) \<le> k"
proof (cases "n = 0")
  case False
  assume "n < 10 ^ k" "0 < k"
  then have "(10 :: nat) ^ (length (nat_digits n) - 1) < 10 ^ k" using digits_bounds(1) [of n] False by linarith
  then have "length (nat_digits n) - 1 < k" by (rule power_less_imp_less_exp [rotated]) simp
  then show ?thesis by simp
qed (simp add: nat_digits_0)

section \<open>Shortest digits\<close>

text \<open>The decimal exponent of a value bounds it from below.\<close>

lemma oneUnits_ten: "oneUnits < 10 ^ 324"
  by (simp add: oneUnits_def)

lemma decExp_le:
  assumes "0 < u"
  shows "0 \<le> decExp u + 324" "10 ^ nat (decExp u + 324) * oneUnits \<le> u * 10 ^ 324"
proof -
  define w where "w = u * 10 ^ 324 div oneUnits"
  have "1 * oneUnits \<le> u * 10 ^ 324" using assms oneUnits_ten by (intro mult_mono) simp_all
  then have "oneUnits div oneUnits \<le> w" unfolding w_def by (intro zdiv_mono1) simp_all
  then have w: "0 < w" by simp
  let ?l = "length (nat_digits (nat w))"
  have l: "0 < ?l" by simp
  have e: "decExp u + 324 = int (?l - 1)" using l unfolding decExp_def w_def [symmetric] by linarith
  then show "0 \<le> decExp u + 324" by simp
  have "10 ^ (?l - 1) \<le> nat w" using w digits_bounds(1) [of "nat w"] by simp
  then have "int (10 ^ (?l - 1)) \<le> w" using w by linarith
  then have "10 ^ nat (decExp u + 324) * oneUnits \<le> w * oneUnits" unfolding e by (intro mult_right_mono) simp_all
  also have "\<dots> \<le> u * 10 ^ 324"
    using div_mult_mod_eq [of "u * 10 ^ 324" oneUnits] pos_mod_sign [of oneUnits "u * 10 ^ 324"] oneUnits_pos(1) unfolding w_def by linarith
  finally show "10 ^ nat (decExp u + 324) * oneUnits \<le> u * 10 ^ 324" .
qed

text \<open>A value and one of its decimal places as a fraction.\<close>

definition placed :: "int \<Rightarrow> int \<Rightarrow> int \<times> int" where
  "placed u k = (if 0 \<le> k then (u, oneUnits * 10 ^ nat k) else (u * 10 ^ nat (- k), oneUnits))"

text \<open>A decimal close to the value of a magnitude identifies it.\<close>

lemma decMag_close:
  assumes m: "0 < m" and p: "placed (unitsOf m) k = (num, den)" and c: "2 ^ 54 * \<bar>c * den - num\<bar> < num"
  shows "decMag c k = m"
proof (cases "0 \<le> k")
  case True
  then have n: "num = unitsOf m * 1" "den = oneUnits * 10 ^ nat k" using p by (auto simp: placed_def)
  have e: "c * 10 ^ nat k * oneUnits = c * den" unfolding n by (simp only: mult.assoc mult.commute mult.left_commute)
  have "roundMag (c * den) 1 = m" using c n(1) roundMag_close [OF m, of 1 "c * den"] by simp
  then show ?thesis using True by (simp only: decMag_def e if_True)
next
  case False
  then have "num = unitsOf m * 10 ^ nat (- k)" "den = oneUnits" using p by (simp_all add: placed_def)
  then show ?thesis using False c roundMag_close [OF m, of "10 ^ nat (- k)"] by (simp add: decMag_def)
qed

text \<open>At seventeen digits one decimal place is less than $10^{-16}$ of the value.\<close>

lemma seventeen:
  assumes "0 < u" "placed u (decExp u - 16) = (num, den)"
  shows "10 ^ 16 * den \<le> num" "0 < den"
proof -
  define X where "X = decExp u"
  note F = decExp_le [OF assms(1), folded X_def]
  let ?e = "nat (X + 324)"
  show "0 < den" using assms(2) by (auto simp: placed_def split: if_splits)
  show "10 ^ 16 * den \<le> num"
  proof (cases "0 \<le> X - 16")
    case True
    have "?e = nat (X - 16) + 340" using True by simp
    then have "(10 :: int) ^ ?e = 10 ^ nat (X - 16) * 10 ^ 16 * 10 ^ 324" by (simp only: power_add) (simp add: mult.assoc)
    then have "10 ^ 16 * (oneUnits * 10 ^ nat (X - 16)) * 10 ^ 324 \<le> u * 10 ^ 324"
      using F(2) by (simp only: mult.assoc mult.commute mult.left_commute)
    then have "10 ^ 16 * (oneUnits * 10 ^ nat (X - 16)) \<le> u" by (rule mult_right_le_imp_le) simp
    then show ?thesis using True assms(2) by (auto simp: placed_def X_def)
  next
    case False
    let ?a = "nat (16 - X)"
    have "?a + ?e = 340" using False F(1) by simp
    then have "(10 :: int) ^ ?a * 10 ^ ?e = 10 ^ 16 * 10 ^ 324" by (simp only: power_add [symmetric]) simp
    moreover have "10 ^ ?a * (10 ^ ?e * oneUnits) \<le> 10 ^ ?a * (u * 10 ^ 324)" using F(2) by (intro mult_left_mono) simp_all
    ultimately have "10 ^ 16 * oneUnits * 10 ^ 324 \<le> u * 10 ^ ?a * 10 ^ 324"
      by (simp only: mult.assoc mult.commute mult.left_commute)
    then have "10 ^ 16 * oneUnits \<le> u * 10 ^ ?a" by (rule mult_right_le_imp_le) simp
    then show ?thesis using False assms(2) by (auto simp: placed_def X_def split: if_splits)
  qed
qed

lemma nearest_int:
  fixes num den :: int
  assumes "0 < den"
  defines "c \<equiv> num div den" and "r \<equiv> num mod den"
  defines "n \<equiv> if den < 2 * r \<or> den = 2 * r \<and> odd c then c + 1 else c"
  shows "2 * \<bar>n * den - num\<bar> \<le> den"
proof -
  have r: "0 \<le> r" "r < den" using assms by simp_all
  have e: "num = c * den + r" unfolding c_def r_def by simp
  have "n * den - num = (if n = c then - r else den - r)" using e by (auto simp: n_def distrib_right)
  moreover have "n = c \<Longrightarrow> 2 * r \<le> den" "n \<noteq> c \<Longrightarrow> den \<le> 2 * r" by (auto simp: n_def split: if_splits)
  ultimately show ?thesis using r by (auto simp: abs_if)
qed

lemma pickDigits_eq:
  "pickDigits m n =
     (let k = decExp (unitsOf m) - int n + 1; (num, den) = placed (unitsOf m) k; c = num div den; r = num mod den;
          near = (if den < 2 * r \<or> den = 2 * r \<and> odd c then c + 1 else c)
      in if decMag c k = m \<and> decMag (c + 1) k = m then Some (near, k)
         else if decMag c k = m then Some (c, k) else if decMag (c + 1) k = m then Some (c + 1, k) else None)"
  unfolding pickDigits_def placed_def Let_def ..

lemma pickDigits_ok:
  assumes "pickDigits m n = Some (c, k)"
  shows "decMag c k = m" "k = decExp (unitsOf m) - int n + 1" "c \<in> {fst (placed (unitsOf m) k) div snd (placed (unitsOf m) k), fst (placed (unitsOf m) k) div snd (placed (unitsOf m) k) + 1}"
  using assms by (auto simp: pickDigits_eq Let_def split_beta split: if_splits)

lemma pickDigits_17: "0 < m \<Longrightarrow> pickDigits m 17 \<noteq> None"
proof -
  assume m: "0 < m"
  define u where "u = unitsOf m"
  define k where "k = decExp u - 16"
  obtain num den where p: "placed u k = (num, den)" by (cases "placed u k")
  have u: "0 < u" using m unitsOf_strict [of 0 m] by (simp add: u_def)
  note S = seventeen [OF u p [unfolded k_def]]
  define c where "c = num div den"
  define n where "n = (if den < 2 * (num mod den) \<or> den = 2 * (num mod den) \<and> odd c then c + 1 else c)"
  have "2 * \<bar>n * den - num\<bar> \<le> den" unfolding n_def c_def by (rule nearest_int [OF S(2)])
  moreover have "2 ^ 53 * den < 10 ^ 16 * den" using S(2) by simp
  ultimately have "2 ^ 54 * \<bar>n * den - num\<bar> < num" using S(1) by simp
  then have "decMag n k = m" using decMag_close [OF m p [unfolded u_def]] by blast
  moreover have "n = c \<or> n = c + 1" by (simp add: n_def)
  ultimately have "decMag c k = m \<or> decMag (c + 1) k = m" by auto
  moreover have "decExp (unitsOf m) - int 17 + 1 = k" by (simp add: k_def u_def)
  ultimately show ?thesis using p unfolding pickDigits_eq u_def [symmetric] by (auto simp: Let_def c_def u_def)
qed

lemma firstSome_Some: "firstSome f xs = Some y \<Longrightarrow> \<exists>x \<in> set xs. f x = Some y"
  by (induction xs) (auto split: option.splits)

lemma firstSome_None: "firstSome f xs = None \<longleftrightarrow> (\<forall>x \<in> set xs. f x = None)"
  by (induction xs) (auto split: option.splits)

lemma shortest_ok:
  assumes "0 < m"
  shows "\<exists>n. 1 \<le> n \<and> n \<le> 17 \<and> pickDigits m n = Some (shortest m)"
proof -
  obtain r where r: "firstSome (pickDigits m) [1..<18] = Some r"
    using pickDigits_17 [OF assms] firstSome_None [of "pickDigits m" "[1..<18]"] by (cases "firstSome (pickDigits m) [1..<18]") (auto simp del: upt_Suc)
  then have "shortest m = r" by (simp add: shortest_def del: upt_Suc)
  moreover obtain n where "n \<in> set [1..<18]" "pickDigits m n = Some r" using firstSome_Some [OF r] by blast
  ultimately show ?thesis by (intro exI [of _ n]) (auto simp del: upt_Suc)
qed

text \<open>The size of the digits, which keeps exponents small.\<close>

lemma unitsOf_bound: "0 \<le> m \<Longrightarrow> m < infMag \<Longrightarrow> unitsOf m < oneUnits * 10 ^ 309"
proof -
  assume m: "0 \<le> m" "m < infMag"
  have "unitsOf m < 2 ^ 53 * gap m" by (rule units_gap [OF m(1)])
  also have "\<dots> \<le> 2 ^ 53 * 2 ^ 2045"
  proof (intro mult_left_mono)
    have "m div 2 ^ 52 \<le> (infMag - 1) div 2 ^ 52" using m by (intro zdiv_mono1) simp_all
    then have "m div 2 ^ 52 \<le> 2046" by (simp add: infMag_def)
    then show "gap m \<le> 2 ^ 2045" unfolding gap_def by (intro power_increasing) simp_all
  qed simp
  also have "\<dots> < oneUnits * 10 ^ 309" by (simp add: oneUnits_def)
  finally show ?thesis .
qed

lemma decExp_upper:
  assumes "0 < u" "u < oneUnits * 10 ^ 309"
  shows "decExp u \<le> 308"
proof -
  define w where "w = u * 10 ^ 324 div oneUnits"
  have "u * 10 ^ 324 < oneUnits * 10 ^ 309 * 10 ^ 324" using assms(2) by (rule mult_strict_right_mono) simp
  moreover have "oneUnits * 10 ^ 309 * 10 ^ 324 = 10 ^ 309 * 10 ^ 324 * oneUnits" by (simp only: mult.assoc mult.commute mult.left_commute)
  moreover have "(10 :: int) ^ 309 * 10 ^ 324 = 10 ^ 633" unfolding power_add [symmetric] by (rule arg_cong [where f = "power 10"]) simp
  ultimately have 1: "u * 10 ^ 324 < 10 ^ 633 * oneUnits" by (simp only:)
  have "w * oneUnits \<le> u * 10 ^ 324"
    using div_mult_mod_eq [of "u * 10 ^ 324" oneUnits] pos_mod_sign [of oneUnits "u * 10 ^ 324"] oneUnits_pos(1) unfolding w_def by linarith
  with 1 have "w * oneUnits < 10 ^ 633 * oneUnits" by linarith
  then have w: "w < 10 ^ 633" by (simp only: mult_less_cancel_right_pos oneUnits_pos)
  have "0 \<le> w" using assms(1) unfolding w_def by (simp add: pos_imp_zdiv_nonneg_iff)
  then have "nat w < 10 ^ 633" using w by (rule nat_below)
  then have "length (nat_digits (nat w)) \<le> 633" by (rule digits_length) simp
  then show ?thesis unfolding decExp_def w_def [symmetric] by simp
qed

lemma placed_small:
  assumes "0 < u" "u < oneUnits * 10 ^ 309" "-340 \<le> k"
  shows "0 \<le> fst (placed u k)" "fst (placed u k) < 10 ^ 973" "0 < snd (placed u k)"
proof -
  show "0 \<le> fst (placed u k)" "0 < snd (placed u k)" using assms(1) by (simp_all add: placed_def)
  have "oneUnits * 10 ^ 309 < 10 ^ 324 * 10 ^ 309" using oneUnits_ten by (rule mult_strict_right_mono) simp
  with assms(2) have "u < 10 ^ 324 * 10 ^ 309" by (rule less_trans)
  moreover have "(10 :: int) ^ 324 * 10 ^ 309 = 10 ^ 633" unfolding power_add [symmetric] by (rule arg_cong [where f = "power 10"]) simp
  ultimately have u: "u < 10 ^ 633" by (simp only:)
  show "fst (placed u k) < 10 ^ 973"
  proof (cases "0 \<le> k")
    case True
    have "(10 :: int) ^ 633 \<le> 10 ^ 973" by (intro power_increasing) simp_all
    with u have "u < 10 ^ 973" by (rule less_le_trans)
    then show ?thesis using True by (simp only: placed_def if_True fst_conv)
  next
    case False
    have "(10 :: int) ^ nat (- k) \<le> 10 ^ 340" using assms(3) by (intro power_increasing) simp_all
    then have "u * 10 ^ nat (- k) \<le> u * 10 ^ 340" using assms(1) by (intro mult_left_mono) simp_all
    also have "\<dots> < 10 ^ 633 * 10 ^ 340" using u by (rule mult_strict_right_mono) simp
    also have "\<dots> = 10 ^ 973" unfolding power_add [symmetric] by (rule arg_cong [where f = "power 10"]) simp
    finally show ?thesis using False by (simp only: placed_def if_False fst_conv)
  qed
qed

lemma stripZeros_split: "\<exists>t. ds = stripZeros ds @ replicate t (CHR ''0'')"
proof -
  let ?z = "\<lambda>c. c = CHR ''0''"
  have "rev ds = takeWhile ?z (rev ds) @ dropWhile ?z (rev ds)" by simp
  then have "ds = stripZeros ds @ rev (takeWhile ?z (rev ds))" unfolding stripZeros_def by (metis rev_append rev_rev_ident)
  moreover have "takeWhile ?z (rev ds) = replicate (length (takeWhile ?z (rev ds))) (CHR ''0'')"
    by (intro replicate_eqI HOL.refl) (auto dest: set_takeWhileD)
  ultimately show ?thesis by (metis rev_replicate)
qed

lemma dec_val_zeros: "dec_val v (replicate t (CHR ''0'')) = v * 10 ^ t"
  by (induction t arbitrary: v) (simp_all add: byte_def)

lemma shortDigits_ok:
  assumes m: "0 < m" "m < infMag" and d: "shortDigits m = (ds, dp)"
  shows "ds \<noteq> []" "\<forall>c \<in> set ds. is_digit c" "decMag (int (dec_val 0 ds)) (dp - int (length ds)) = m" "\<bar>dp\<bar> < 9000"
proof -
  obtain c k where s: "shortest m = (c, k)" by (cases "shortest m")
  obtain n where n: "1 \<le> n" "n \<le> 17" "pickDigits m n = Some (c, k)" using shortest_ok [OF m(1)] s by auto
  note P = pickDigits_ok [OF n(3)]
  define u where "u = unitsOf m"
  have u: "0 < u" "u < oneUnits * 10 ^ 309" using m unitsOf_strict [of 0 m] unitsOf_bound [of m] by (simp_all add: u_def)
  have k: "-340 \<le> k" "k \<le> 308" using P(2) n(1,2) decExp_le(1) [OF u(1)] decExp_upper [OF u] by (simp_all add: u_def)
  note B = placed_small [OF u k(1)]
  define q where "q = fst (placed u k) div snd (placed u k)"
  have q: "0 \<le> q" "q < 10 ^ 973"
  proof -
    show q0: "0 \<le> q" using B(1,3) by (simp add: q_def pos_imp_zdiv_nonneg_iff)
    have "q * 1 \<le> q * snd (placed u k)" using q0 B(3) by (intro mult_left_mono) simp_all
    also have "\<dots> \<le> fst (placed u k)"
      using div_mult_mod_eq [of "fst (placed u k)" "snd (placed u k)"] pos_mod_sign [OF B(3), of "fst (placed u k)"] unfolding q_def by linarith
    finally have "q \<le> fst (placed u k)" by simp
    then show "q < 10 ^ 973" using B(2) by (rule le_less_trans)
  qed
  have c: "c = q \<or> c = q + 1" using P(3) by (simp add: q_def u_def)
  have c0: "0 < c"
  proof (rule ccontr)
    assume "\<not> 0 < c"
    then have "c = 0" using c q(1) by auto
    then show False using P(1) m(1) by simp
  qed
  let ?D = "nat_digits (nat c)"
  have ds: "ds = stripZeros ?D" "dp = int (length ?D) + k" using d m s by (simp_all add: shortDigits_def Let_def)
  obtain t where t: "?D = ds @ replicate t (CHR ''0'')" using stripZeros_split [of ?D] ds(1) by blast
  have v: "nat c = dec_val 0 ds * 10 ^ t" using arg_cong [OF t, of "dec_val 0"] by (simp add: dec_val_nat_digits dec_val_append dec_val_zeros)
  show "ds \<noteq> []" using v c0 by (cases ds) auto
  show "\<forall>c \<in> set ds. is_digit c" using nat_digits_digits [of _ "nat c"] t by auto
  have "dp - int (length ds) = k + int t" using ds(2) arg_cong [OF t, of length] by simp
  moreover have "c = int (dec_val 0 ds) * 10 ^ t" using v c0 by (metis int_nat_eq less_imp_le of_nat_mult of_nat_numeral of_nat_power)
  ultimately show "decMag (int (dec_val 0 ds)) (dp - int (length ds)) = m" using P(1) decMag_shift [of "int (dec_val 0 ds)" t k] by simp
  have "(10 :: int) ^ 973 < 10 ^ 974" by (rule power_strict_increasing) simp_all
  then have "c < 10 ^ 974" using c q(2) by linarith
  with less_imp_le [OF c0] have "nat c < 10 ^ 974" by (rule nat_below)
  then have "length ?D \<le> 974" by (rule digits_length) simp
  then show "\<bar>dp\<bar> < 9000" using ds(2) k by simp
qed

section \<open>Reading a decimal\<close>

definition floatChar :: "char \<Rightarrow> bool" where
  "floatChar c \<longleftrightarrow> is_digit c \<or> c \<in> {CHR ''.'', CHR ''e'', CHR ''+'', CHR ''-''}"

lemma digit_facts:
  assumes "is_digit c"
  shows "digitOf hex c = Some (byte c - 48)" "c \<noteq> CHR ''.''" "c \<noteq> CHR ''e''" "c \<noteq> CHR ''-''" "c \<noteq> CHR ''+''" "lower_byte c = c" "floatChar c"
    "c \<noteq> CHR ''i''" "c \<noteq> CHR ''n''" "c \<noteq> CHR ''x''"
  using assms by (auto simp: digitOf_def is_digit_def lower_byte_def floatChar_def byte_def)

lemma floatChar_facts: "floatChar c \<Longrightarrow> \<not> floatSpace c" "floatChar c \<Longrightarrow> lower_byte c \<noteq> CHR ''x''"
  by (auto simp: floatChar_def floatSpace_def is_digit_def lower_byte_def byte_def)

lemma scanMant_digits:
  "\<forall>c \<in> set ds. is_digit c \<Longrightarrow>
     scanMant False (ds @ r) dot dig m n = scanMant False r dot (dig \<or> ds \<noteq> []) (dec_val m ds) (if dot then n + length ds else n)"
  by (induction ds arbitrary: dig m n) (auto simp: digit_facts)

lemma scanExp_digits:
  "\<forall>c \<in> set ds. is_digit c \<Longrightarrow> dec_val e ds < 10000 \<Longrightarrow> scanExp e ds = (dec_val e ds, [])"
proof (induction ds arbitrary: e)
  case (Cons c cs)
  have "e * 10 + (byte c - 48) \<le> dec_val e (c # cs)" using dec_val_ge by simp
  then have "e < 10000" using Cons.prems(2) by linarith
  then show ?case using Cons by simp
qed simp

lemma parseExp_digits:
  assumes "ds \<noteq> []" "\<forall>c \<in> set ds. is_digit c" "dec_val 0 ds < 10000"
  shows "parseExp ((if neg then CHR ''-'' else CHR ''+'') # ds) = Some (if neg then - int (dec_val 0 ds) else int (dec_val 0 ds), [])"
  using assms scanExp_digits [of ds 0] by (cases ds) (auto simp: parseExp_def cutSign_def)

text \<open>A sign, digits, a point with digits (if \<open>pt\<close>) and an exponent.\<close>

definition expPart :: "string \<Rightarrow> int \<Rightarrow> bool" where
  "expPart es ev \<longleftrightarrow> (\<forall>c \<in> set es. floatChar c) \<and> (es = [] \<and> ev = 0 \<or> (\<exists>r. es = CHR ''e'' # r \<and> parseExp r = Some (ev, [])))"

lemma expPart_none [simp]: "expPart [] 0"
  by (simp add: expPart_def)

lemma ParseFloat_dec:
  assumes ip: "ip \<noteq> []" "\<forall>c \<in> set ip. is_digit c" and fp: "\<forall>c \<in> set fp. is_digit c" "\<not> pt \<Longrightarrow> fp = []"
    and es: "expPart es ev"
  defines "t \<equiv> ip @ (if pt then CHR ''.'' # fp else []) @ es"
  defines "mag \<equiv> decMag (int (dec_val 0 (ip @ fp))) (ev - int (length fp))"
  shows "ParseFloat (signedText neg t) = (if infMag \<le> mag then (withSign neg infMag, Some ErrRange) else (withSign neg mag, None))"
    "\<forall>c \<in> set t. floatChar c"
proof -
  show chars: "\<forall>c \<in> set t. floatChar c"
    using ip fp es by (auto simp: t_def digit_facts expPart_def floatChar_def [of "CHR ''.''"])
  obtain d ip' where d: "ip = d # ip'" "is_digit d" using ip by (cases ip) auto
  then have h: "t \<noteq> []" "hd t = d" by (simp_all add: t_def)
  note D = digit_facts [OF d(2)]
  have cut: "cutSign (signedText neg t) = (neg, t)" using h D by (auto simp: cutSign_def signedText_def)
  have inf: "lowerASCII t \<noteq> ''inf''" "lowerASCII t \<noteq> ''infinity''"
    using h D by (auto simp: lowerASCII_map map_eq_Cons_conv)
  have nan: "lowerASCII (signedText neg t) \<noteq> ''nan''"
    using h D by (auto simp: lowerASCII_map map_eq_Cons_conv signedText_def lower_byte_def byte_def)
  have hex: "(2 < length t \<and> t ! 0 = CHR ''0'' \<and> lower_byte (t ! 1) = CHR ''x'') = False"
    using chars floatChar_facts(2) nth_mem [of 1 t] by auto
  have stop: "scanMant False es dot True m n = (True, m, n, es)" if "pt \<longleftrightarrow> dot" for dot m n
    using es by (auto simp: expPart_def digitOf_def is_digit_def byte_def)
  have scan: "scanMant False t False False 0 0 = (True, dec_val 0 (ip @ fp), length fp, es)"
    using scanMant_digits [OF ip(2)] scanMant_digits [OF fp(1)] ip(1) fp(2) stop
    by (cases pt) (auto simp: t_def dec_val_append)
  have expo: "(if es \<noteq> [] \<and> lower_byte (hd es) = CHR ''e'' then parseExp (tl es) else Some (0, es)) = Some (ev, [])"
    using es by (auto simp: expPart_def lower_byte_def byte_def)
  show "ParseFloat (signedText neg t) = (if infMag \<le> mag then (withSign neg infMag, Some ErrRange) else (withSign neg mag, None))"
    unfolding ParseFloat_def cut Let_def prod.case hex if_False scan
    using inf nan expo by (simp add: mag_def)
qed

lemma parseFloat_dec:
  assumes ip: "ip \<noteq> []" "\<forall>c \<in> set ip. is_digit c" and fp: "\<forall>c \<in> set fp. is_digit c" "\<not> pt \<Longrightarrow> fp = []"
    and es: "expPart es ev" and m: "decMag (int (dec_val 0 (ip @ fp))) (ev - int (length fp)) = m" "0 < m" "m < infMag"
  shows "parseFloat (signedText neg (ip @ (if pt then CHR ''.'' # fp else []) @ es)) = Some (withSign neg m)"
proof -
  let ?t = "ip @ (if pt then CHR ''.'' # fp else []) @ es"
  note P = ParseFloat_dec [OF ip fp es]
  have r: "ParseFloat (signedText neg ?t) = (withSign neg m, None)" using P(1) m by simp
  have "\<not> floatSpace c" if "c \<in> set (signedText neg ?t)" for c
    using that P(2) floatChar_facts(1) [of c] by (auto simp: signedText_def floatChar_def split: if_splits)
  moreover have "signedText neg ?t \<noteq> []" using ip by (simp add: signedText_def)
  moreover have "fmag (withSign neg m) = m" using m by (intro fmag_withSign) (simp_all add: infMag_def)
  ultimately show ?thesis using r m mag_cases [of "withSign neg m"] by (auto simp: parseFloat_def)
qed

section \<open>Layouts\<close>

lemma expPart_digits:
  assumes "ds \<noteq> []" "\<forall>c \<in> set ds. is_digit c" "dec_val 0 ds = nat \<bar>e\<bar>" "\<bar>e\<bar> < 10000"
  shows "expPart (CHR ''e'' # (if e < 0 then CHR ''-'' else CHR ''+'') # ds) e"
proof -
  have "parseExp ((if e < 0 then CHR ''-'' else CHR ''+'') # ds) = Some (e, [])"
    using parseExp_digits [OF assms(1,2), of "e < 0"] assms(3,4) by (auto split: if_splits)
  moreover have "floatChar (CHR ''e'')" "floatChar (CHR ''-'')" "floatChar (CHR ''+'')" by (simp_all add: floatChar_def)
  ultimately show ?thesis using assms(2) digit_facts(7) by (auto simp: expPart_def)
qed

lemma expDigits:
  fixes a :: nat
  defines "ds \<equiv> (if a < 10 then ''0'' else []) @ nat_digits a"
  shows "ds \<noteq> []" "\<forall>c \<in> set ds. is_digit c" "dec_val 0 ds = a" "CHR ''e'' \<notin> set ds"
proof -
  show d: "\<forall>c \<in> set ds. is_digit c" using nat_digits_digits by (auto simp: ds_def is_digit_def byte_def)
  show "ds \<noteq> []" by (simp add: ds_def)
  have "dec_val 0 ''0'' = 0" by (simp add: byte_def)
  then show "dec_val 0 ds = a" by (cases "a < 10") (simp_all only: ds_def if_True if_False dec_val_append dec_val_nat_digits append_Nil)
  show "CHR ''e'' \<notin> set ds" using d digit_facts(3) by blast
qed

text \<open>What an exponent layout denotes.\<close>

lemma parse_layoutE:
  assumes ds: "ds \<noteq> []" "\<forall>c \<in> set ds. is_digit c" and dp: "\<bar>dp\<bar> < 9000"
    and m: "decMag (int (dec_val 0 ds)) (dp - int (length ds)) = m" "0 < m" "m < infMag"
  shows "parseFloat (signedText neg (layoutE ds dp)) = Some (withSign neg m)"
proof -
  obtain d rest where d: "ds = d # rest" using ds(1) by (cases ds) auto
  define e where "e = dp - 1"
  define es where "es = CHR ''e'' # (if e < 0 then CHR ''-'' else CHR ''+'') # (if nat \<bar>e\<bar> < 10 then ''0'' else []) @ nat_digits (nat \<bar>e\<bar>)"
  have E: "expPart es e" unfolding es_def using expDigits [of "nat \<bar>e\<bar>"] dp by (intro expPart_digits) (simp_all add: e_def)
  have l: "layoutE ds dp = [d] @ (if rest \<noteq> [] then CHR ''.'' # rest else []) @ es"
    using d by (auto simp: layoutE_def Let_def es_def e_def)
  show ?thesis unfolding l
    by (rule parseFloat_dec [OF _ _ _ _ E]) (use ds d m in \<open>auto simp: e_def algebra_simps\<close>)
qed

text \<open>The digits around the point, with zeros where there are none.\<close>

lemma parse_layoutF:
  assumes ds: "ds \<noteq> []" "\<forall>c \<in> set ds. is_digit c"
    and m: "decMag (int (dec_val 0 ds)) (dp - int (length ds)) = m" "0 < m" "m < infMag"
  shows "int (length ds) \<le> dp \<Longrightarrow> parseFloat (signedText neg (ds @ replicate (nat (dp - int (length ds))) (CHR ''0''))) = Some (withSign neg m)"
    "dp \<le> 0 \<Longrightarrow> parseFloat (signedText neg (''0.'' @ replicate (nat (- dp)) (CHR ''0'') @ ds)) = Some (withSign neg m)"
    "0 < dp \<Longrightarrow> dp < int (length ds) \<Longrightarrow> parseFloat (signedText neg (take (nat dp) ds @ ''.'' @ drop (nat dp) ds)) = Some (withSign neg m)"
proof -
  have z: "is_digit (CHR ''0'')" by (simp add: is_digit_def byte_def)
  show "parseFloat (signedText neg (ds @ replicate (nat (dp - int (length ds))) (CHR ''0''))) = Some (withSign neg m)" if "int (length ds) \<le> dp"
  proof -
    let ?k = "nat (dp - int (length ds))"
    have "decMag (int (dec_val 0 (ds @ replicate ?k (CHR ''0'')))) 0 = m"
      using m(1) that decMag_shift [of "int (dec_val 0 ds)" ?k 0] by (simp add: dec_val_append dec_val_zeros)
    then show ?thesis
      using parseFloat_dec [of "ds @ replicate ?k (CHR ''0'')" "[]" False "[]" 0 m neg] ds m(2,3) z by (auto simp: set_replicate_conv_if)
  qed
  show "parseFloat (signedText neg (''0.'' @ replicate (nat (- dp)) (CHR ''0'') @ ds)) = Some (withSign neg m)" if "dp \<le> 0"
  proof -
    let ?fp = "replicate (nat (- dp)) (CHR ''0'') @ ds"
    have "dec_val 0 (''0'' @ ?fp) = dec_val 0 ds" by (simp add: dec_val_append dec_val_zeros) (simp add: byte_def)
    then have "decMag (int (dec_val 0 (''0'' @ ?fp))) (0 - int (length ?fp)) = m" using m(1) that by simp
    then show ?thesis using parseFloat_dec [of "''0''" ?fp True "[]" 0 m neg] ds m(2,3) z by (auto simp: set_replicate_conv_if)
  qed
  show "parseFloat (signedText neg (take (nat dp) ds @ ''.'' @ drop (nat dp) ds)) = Some (withSign neg m)" if "0 < dp" "dp < int (length ds)"
  proof -
    have "decMag (int (dec_val 0 (take (nat dp) ds @ drop (nat dp) ds))) (0 - int (length (drop (nat dp) ds))) = m" using m(1) that by simp
    then show ?thesis
      using parseFloat_dec [of "take (nat dp) ds" "drop (nat dp) ds" True "[]" 0 m neg] ds m(2,3) that
      by (auto dest: in_set_takeD in_set_dropD)
  qed
qed

section \<open>Round trips\<close>

lemma lower_I: "lower_byte (CHR ''I'') = CHR ''i''"
proof -
  have "chr 105 = CHR ''i''" by (rule chr_eqI) (simp add: byte_def)
  then show ?thesis by (simp add: lower_byte_def) (simp add: byte_def)
qed

lemma lower_same: "\<not> (65 \<le> byte c \<and> byte c \<le> 90) \<Longrightarrow> lower_byte c = c"
  by (simp only: lower_byte_def if_False)

lemma ParseFloat_inf:
  assumes "lowerASCII t = ''inf''" "t \<noteq> []" "hd t \<noteq> CHR ''-''" "hd t \<noteq> CHR ''+''"
  shows "ParseFloat t = (withSign False infMag, None)" "ParseFloat (CHR ''+'' # t) = (withSign False infMag, None)"
    "ParseFloat (CHR ''-'' # t) = (withSign True infMag, None)"
  using assms by (simp_all add: ParseFloat_def cutSign_def)

lemma parse_inf: "parseFloat ''inf'' = Some (withSign False infMag)" "parseFloat ''-inf'' = Some (withSign True infMag)"
    "parseFloat ''+Inf'' = Some (withSign False infMag)" "parseFloat ''-Inf'' = Some (withSign True infMag)"
proof -
  have m: "fmag (withSign b infMag) = infMag" "\<not> is_nan (withSign b infMag)" for b
    using fmag_withSign(1) [of infMag b] by (simp_all add: is_nan_def infMag_def)
  have "lowerASCII ''inf'' = ''inf''" "lowerASCII ''Inf'' = ''inf''" by (simp_all add: lowerASCII_map lower_I lower_same byte_def)
  note I = ParseFloat_inf [OF this(1)] ParseFloat_inf [OF this(2)]
  have s: "\<not> (\<exists>c \<in> set ''+-infI''. floatSpace c)" by (simp add: floatSpace_def byte_def)
  have "infMag \<noteq> 0" by (simp add: infMag_def)
  then show "parseFloat ''inf'' = Some (withSign False infMag)" "parseFloat ''-inf'' = Some (withSign True infMag)"
    "parseFloat ''+Inf'' = Some (withSign False infMag)" "parseFloat ''-Inf'' = Some (withSign True infMag)"
    using s I m by (simp_all add: parseFloat_def)
qed

lemma parse_zero: "parseFloat ''0'' = Some (withSign False 0)" "parseFloat ''-0'' = Some (withSign True 0)"
proof -
  have d: "is_digit (CHR ''0'')" by (simp add: is_digit_def byte_def)
  have "ParseFloat (signedText neg ''0'') = (withSign neg 0, None)" for neg
    using ParseFloat_dec(1) [of "''0''" "[]" False "[]" 0 neg] d by (simp add: infMag_def byte_def)
  from this [of False] this [of True] have "ParseFloat ''0'' = (withSign False 0, None)" "ParseFloat ''-0'' = (withSign True 0, None)"
    by (simp_all add: signedText_def)
  moreover have "\<not> (\<exists>c \<in> set ''-0''. floatSpace c)" by (simp add: floatSpace_def byte_def)
  moreover have "\<not> nonzeroMantissa ''0''" "\<not> nonzeroMantissa ''-0''" by (simp_all add: nonzeroMantissa_def byte_def)
  moreover have "\<not> is_nan (withSign b 0)" for b using fmag_withSign(1) [of 0 b] by (simp add: is_nan_def)
  ultimately show "parseFloat ''0'' = Some (withSign False 0)" "parseFloat ''-0'' = Some (withSign True 0)"
    by (simp_all add: parseFloat_def)
qed

lemma digits_not: "\<forall>c \<in> set ds. is_digit c \<Longrightarrow> CHR ''e'' \<notin> set ds \<and> CHR ''.'' \<notin> set ds \<and> CHR ''-'' \<notin> set ds"
proof -
  have "\<not> is_digit (CHR ''e'')" "\<not> is_digit (CHR ''.'')" "\<not> is_digit (CHR ''-'')" by (simp_all add: is_digit_def byte_def)
  then show "\<forall>c \<in> set ds. is_digit c \<Longrightarrow> CHR ''e'' \<notin> set ds \<and> CHR ''.'' \<notin> set ds \<and> CHR ''-'' \<notin> set ds" by blast
qed

text \<open>\<^verbatim>\<open>FormatDouble\<close> takes the exponent layout apart.\<close>

definition layoutOut :: "string \<Rightarrow> int \<Rightarrow> string" where
  "layoutOut ds dp =
     (if 0 \<le> dp - int (length ds) \<and> \<bar>dp - 1\<bar> < int (length ds) + 7 then ds @ replicate (nat (dp - int (length ds))) (CHR ''0'')
      else if dp - int (length ds) < 0 \<and> (-7 < dp - int (length ds) \<or> \<bar>dp - 1\<bar> < 4) then
        (if dp \<le> 0 then ''0.'' @ replicate (nat (- dp)) (CHR ''0'') @ ds else take (nat dp) ds @ ''.'' @ drop (nat dp) ds)
      else take 1 ds @ (if 1 < length ds then ''.'' @ drop 1 ds else []) @ ''e'' @ (if dp - 1 < 0 then ''-'' else ''+'') @ FormatInt \<bar>dp - 1\<bar>)"

lemma Atoi_signed:
  assumes "ds \<noteq> []" "\<forall>c \<in> set ds. is_digit c" "dec_val 0 ds < 2 ^ 63"
  shows "Atoi ((if neg then CHR ''-'' else CHR ''+'') # ds) = Some (if neg then - int (dec_val 0 ds) else int (dec_val 0 ds))"
  using assms by (auto simp: Atoi_def is_i64_def)

lemma layoutDouble_E:
  assumes ds: "ds \<noteq> []" "\<forall>c \<in> set ds. is_digit c" and dp: "\<bar>dp\<bar> < 9000"
  shows "layoutDouble (signedText neg (layoutE ds dp)) = signedText neg (layoutOut ds dp)"
proof -
  obtain d rest where d: "ds = d # rest" using ds(1) by (cases ds) auto
  have dd: "is_digit d" "\<forall>c \<in> set rest. is_digit c" using ds d by auto
  define mant where "mant = (if rest \<noteq> [] then d # CHR ''.'' # rest else [d])"
  define xs where "xs = (if nat \<bar>dp - 1\<bar> < 10 then ''0'' else []) @ nat_digits (nat \<bar>dp - 1\<bar>)"
  note X = expDigits [of "nat \<bar>dp - 1\<bar>", folded xs_def]
  let ?s = "mant @ CHR ''e'' # (if dp - 1 < 0 then CHR ''-'' else CHR ''+'') # xs"
  have l: "layoutE ds dp = ?s" by (auto simp: layoutE_def Let_def d mant_def xs_def)
  have me: "CHR ''e'' \<notin> set mant" using digits_not [OF dd(2)] digit_facts(3) [OF dd(1)] by (auto simp: mant_def)
  have tw: "takeWhile (\<lambda>c. c \<noteq> CHR ''e'') ?s = mant" using me by (subst takeWhile_append2) auto
  have "Atoi (drop (length mant + 1) ?s) = Some (dp - 1)"
    using Atoi_signed [OF X(1,2), of "dp - 1 < 0"] X(3) dp by auto
  note A = this
  have digs: "(if CHR ''.'' \<in> set mant then takeWhile (\<lambda>c. c \<noteq> CHR ''.'') mant @ drop (length (takeWhile (\<lambda>c. c \<noteq> CHR ''.'') mant) + 1) mant else mant) = ds"
    using digits_not [OF ds(2)] by (auto simp: mant_def d)
  have cut: "(if neg then tl (signedText neg ?s) else signedText neg ?s) = ?s"
    "(signedText neg ?s \<noteq> [] \<and> hd (signedText neg ?s) = CHR ''-'') = neg"
    using digit_facts(4) [OF dd(1)] by (auto simp: signedText_def mant_def)
  have K: "dp - 1 - int (length ds) + 1 = dp - int (length ds)" "int (length ds) + (dp - int (length ds)) = dp" by simp_all
  have a: "(if dp - 1 < 0 then - (dp - 1) else dp - 1) = \<bar>dp - 1\<bar>" by simp
  show ?thesis
    unfolding layoutDouble_def Let_def l cut tw A digs K option.case layoutOut_def a
    by (simp add: signedText_def)
qed

lemma FormatInt_signed: "FormatInt v = signedText (v < 0) (nat_digits (nat \<bar>v\<bar>))"
  by (simp add: FormatInt_def signedText_def)

lemma parse_layoutOut:
  assumes ds: "ds \<noteq> []" "\<forall>c \<in> set ds. is_digit c" and dp: "\<bar>dp\<bar> < 9000"
    and m: "decMag (int (dec_val 0 ds)) (dp - int (length ds)) = m" "0 < m" "m < infMag"
  shows "parseFloat (signedText neg (layoutOut ds dp)) = Some (withSign neg m)"
proof -
  note F = parse_layoutF [OF ds m, where neg = neg]
  consider (int) "0 \<le> dp - int (length ds) \<and> \<bar>dp - 1\<bar> < int (length ds) + 7"
    | (point) "dp - int (length ds) < 0 \<and> (-7 < dp - int (length ds) \<or> \<bar>dp - 1\<bar> < 4)"
    | (sci) "\<not> (0 \<le> dp - int (length ds) \<and> \<bar>dp - 1\<bar> < int (length ds) + 7)"
        "\<not> (dp - int (length ds) < 0 \<and> (-7 < dp - int (length ds) \<or> \<bar>dp - 1\<bar> < 4))" by blast
  then show ?thesis
  proof cases
    case int
    then show ?thesis using F(1) by (simp add: layoutOut_def)
  next
    case point
    then show ?thesis using F(2,3) by (auto simp: layoutOut_def)
  next
    case sci
    obtain d rest where d: "ds = d # rest" using ds(1) by (cases ds) auto
    define es where "es = CHR ''e'' # (if dp - 1 < 0 then CHR ''-'' else CHR ''+'') # nat_digits (nat \<bar>dp - 1\<bar>)"
    have E: "expPart es (dp - 1)"
      unfolding es_def using dp nat_digits_digits by (intro expPart_digits) (auto simp: dec_val_nat_digits)
    have l: "layoutOut ds dp = [d] @ (if rest \<noteq> [] then CHR ''.'' # rest else []) @ es"
      unfolding layoutOut_def if_not_P [OF sci(1)] if_not_P [OF sci(2)] by (auto simp: d es_def FormatInt_def)
    show ?thesis unfolding l
      by (rule parseFloat_dec [OF _ _ _ _ E]) (use ds d m in \<open>auto simp: algebra_simps\<close>)
  qed
qed

theorem parse_FormatDouble:
  assumes "\<not> is_nan f"
  shows "parseFloat (FormatDouble f) = Some (if fmag f = 0 then 0 else f)"
proof -
  have w0: "withSign False 0 = 0" by (simp add: withSign_def)
  consider "fmag f = 0" | "is_inf f" | (fin) "0 < fmag f" "fmag f < infMag" "\<not> is_inf f"
    using finite_mag [OF assms] fmag_range(1) [of f] by fastforce
  then show ?thesis
  proof cases
    case 1
    then show ?thesis using parse_zero(1) w0 by (simp add: FormatDouble_def)
  next
    case 2
    then have "fmag f \<noteq> 0" "withSign (fneg f) infMag = f" using withSign_bits [of f] by (simp_all add: is_inf_def infMag_def)
    then show ?thesis using 2 assms parse_inf(1,2) by (cases "fneg f") (simp_all add: FormatDouble_def)
  next
    case fin
    let ?m = "fmag f"
    obtain ds dp where d: "shortDigits ?m = (ds, dp)" by (cases "shortDigits ?m")
    note S = shortDigits_ok [OF fin(1,2) d]
    have E: "FormatFloatE f = signedText (fneg f) (layoutE ds dp)"
      using d fin(3) assms by (simp add: FormatFloatE_def nonFinite_def)
    have out: "parseFloat (layoutDouble (FormatFloatE f)) = Some f"
      unfolding E layoutDouble_E [OF S(1,2,4)] parse_layoutOut [OF S(1,2,4,3) fin(1,2)] withSign_bits ..
    have int: "parseFloat (FormatInt v) = Some f" if "fint f = Some v" for v
    proof -
      have "oneUnits dvd unitsSigned f" "v = unitsSigned f div oneUnits" using that by (auto simp: fint_def split: if_splits)
      then have v: "v * oneUnits = unitsSigned f" by simp
      have u: "0 < unitsOf ?m" using fin(1) unitsOf_strict [of 0 ?m] by simp
      then have "v * oneUnits < 0 * oneUnits \<longleftrightarrow> fneg f" using v by (auto simp: unitsSigned_def)
      then have sg: "v < 0 \<longleftrightarrow> fneg f" by (simp only: mult_less_cancel_right_pos oneUnits_pos)
      have "\<bar>v\<bar> * oneUnits = unitsOf ?m" using v u sg by (auto simp: unitsSigned_def abs_if)
      then have "decMag (int (dec_val 0 (nat_digits (nat \<bar>v\<bar>) @ []))) (0 - int (length ([] :: string))) = ?m"
        using roundMag_exact [of ?m 1] fin(1) by (simp add: dec_val_nat_digits decMag_def)
      then have "parseFloat (signedText (v < 0) (nat_digits (nat \<bar>v\<bar>))) = Some (withSign (v < 0) ?m)"
        using parseFloat_dec [of "nat_digits (nat \<bar>v\<bar>)" "[]" False "[]" 0 ?m "v < 0"] nat_digits_digits fin by auto
      then show ?thesis by (simp only: FormatInt_signed sg withSign_bits)
    qed
    show ?thesis using fin assms int out by (auto simp: FormatDouble_def split: option.split)
  qed
qed

text \<open>The layouts of format g.\<close>

lemma layoutF_whole: "ds \<noteq> [] \<Longrightarrow> int (length ds) \<le> dp \<Longrightarrow> layoutF ds dp 0 = ds @ replicate (nat (dp - int (length ds))) (CHR ''0'')"
  by (cases ds) (auto simp: layoutF_def nat_diff_distrib')

lemma layoutF_small:
  assumes "dp \<le> 0"
  shows "ds \<noteq> [] \<Longrightarrow> layoutF ds dp (nat (int (length ds) - dp)) = ''0.'' @ replicate (nat (- dp)) (CHR ''0'') @ ds"
proof -
  assume ds: "ds \<noteq> []"
  define n where "n = nat (int (length ds) - dp)"
  have n: "n = nat (- dp) + length ds" "0 < n" using assms length_greater_0_conv [of ds] ds unfolding n_def by linarith+
  have "map (\<lambda>i. let j = dp + int i in if 0 \<le> j \<and> j < int (length ds) then ds ! nat j else CHR ''0'') [0..<n] = replicate (nat (- dp)) (CHR ''0'') @ ds"
  proof (rule nth_equalityI)
    fix i assume "i < length (map (\<lambda>i. let j = dp + int i in if 0 \<le> j \<and> j < int (length ds) then ds ! nat j else CHR ''0'') [0..<n])"
    then have i: "i < n" by simp
    have "nat (dp + int i) = i - nat (- dp)" using assms by simp
    then show "map (\<lambda>i. let j = dp + int i in if 0 \<le> j \<and> j < int (length ds) then ds ! nat j else CHR ''0'') [0..<n] ! i = (replicate (nat (- dp)) (CHR ''0'') @ ds) ! i"
      using i n assms by (auto simp: nth_append Let_def)
  qed (simp add: n)
  then show ?thesis using assms n(2) unfolding n_def [symmetric] by (simp add: layoutF_def)
qed

lemma layoutF_inner:
  assumes "0 < dp" "dp < int (length ds)"
  shows "layoutF ds dp (nat (int (length ds) - dp)) = take (nat dp) ds @ ''.'' @ drop (nat dp) ds"
proof -
  define n where "n = nat (int (length ds) - dp)"
  have n: "n = length ds - nat dp" "0 < n" using assms by (simp_all add: n_def nat_diff_distrib')
  have "map (\<lambda>i. let j = dp + int i in if 0 \<le> j \<and> j < int (length ds) then ds ! nat j else CHR ''0'') [0..<n] = drop (nat dp) ds"
  proof (rule nth_equalityI)
    fix i assume "i < length (map (\<lambda>i. let j = dp + int i in if 0 \<le> j \<and> j < int (length ds) then ds ! nat j else CHR ''0'') [0..<n])"
    then have i: "i < n" by simp
    have "nat (dp + int i) = nat dp + i" using assms by simp
    then show "map (\<lambda>i. let j = dp + int i in if 0 \<le> j \<and> j < int (length ds) then ds ! nat j else CHR ''0'') [0..<n] ! i = drop (nat dp) ds ! i"
      using i n assms by (auto simp: Let_def)
  qed (simp add: n)
  then show ?thesis using assms n(2) unfolding n_def [symmetric] by (simp add: layoutF_def)
qed

theorem parse_FormatFloatG:
  assumes "\<not> is_nan f"
  shows "parseFloat (FormatFloatG f) = Some f"
proof -
  consider "fmag f = 0" | "is_inf f" | (fin) "0 < fmag f" "fmag f < infMag" "\<not> is_inf f"
    using finite_mag [OF assms] fmag_range(1) [of f] by fastforce
  then show ?thesis
  proof cases
    case 1
    then have "FormatFloatG f = signedText (fneg f) ''0''" "withSign (fneg f) 0 = f"
      using assms withSign_bits [of f] by (simp_all add: FormatFloatG_def nonFinite_def is_inf_def infMag_def shortDigits_def layoutF_def)
    then show ?thesis using parse_zero by (cases "fneg f") (simp_all add: signedText_def)
  next
    case 2
    then have "withSign (fneg f) infMag = f" using withSign_bits [of f] by (simp add: is_inf_def)
    then show ?thesis using 2 assms parse_inf(3,4) by (cases "fneg f") (simp_all add: FormatFloatG_def nonFinite_def)
  next
    case fin
    let ?m = "fmag f"
    obtain ds dp where d: "shortDigits ?m = (ds, dp)" by (cases "shortDigits ?m")
    note S = shortDigits_ok [OF fin(1,2) d]
    have G: "FormatFloatG f = signedText (fneg f) (if dp - 1 < -4 \<or> 6 \<le> dp - 1 then layoutE ds dp else layoutF ds dp (nat (int (length ds) - dp)))"
      using d fin(3) assms by (simp add: FormatFloatG_def nonFinite_def)
    note L = parse_layoutF [OF S(1-3) fin(1,2), where neg = "fneg f", unfolded withSign_bits]
    have "parseFloat (signedText (fneg f) (layoutF ds dp (nat (int (length ds) - dp)))) = Some f"
      using L layoutF_whole [OF S(1), of dp] layoutF_small [OF _ S(1), of dp] layoutF_inner [of dp ds]
      by (cases "dp \<le> 0"; cases "dp < int (length ds)") auto
    then show ?thesis using parse_layoutE [OF S(1,2,4,3) fin(1,2), where neg = "fneg f", unfolded withSign_bits] G by simp
  qed
qed

end
