(* ===== verification/Cmd_ZSet.thy ===== *)
theory Cmd_ZSet
  imports Scan Float_Text
begin

text \<open>
  The sorted set commands (\<^verbatim>\<open>src/lib/commands/zset.go\<close>) and the increments of floating-point
  values (\<^verbatim>\<open>cmdIncrByFloat\<close> of \<^verbatim>\<open>strings.go\<close>, \<^verbatim>\<open>cmdHIncrByFloat\<close> of \<^verbatim>\<open>hash.go\<close>). A closure is a function
  of what \<^verbatim>\<open>getColl\<close> returned; a sorted set changed through \<^verbatim>\<open>ent.Obj\<close> is written back with
  \<open>setVal\<close>. \<open>proto\<close> is the protocol of the connection, which decides how scores are replied.
  \<open>rnd n\<close> is the n-th value of \<^verbatim>\<open>rand.IntN\<close>, \<open>perm\<close> that of \<^verbatim>\<open>rand.Perm\<close>, \<open>iter n\<close> the order of the
  n-th loop over a map.
\<close>

section \<open>Replies and errors\<close>

definition errGTLTNX :: rv where
  "errGTLTNX = RErr ''ERR GT, LT, and/or NX options at the same time are not compatible''"
definition errXXNX :: rv where "errXXNX = RErr ''ERR XX and NX options at the same time are not compatible''"
definition errNaN :: rv where "errNaN = RErr ''ERR resulting score is not a number (NaN)''"
definition errBadFloat :: rv where "errBadFloat = RErr ''ERR value is not a valid float''"
definition errBadFloatRange :: rv where "errBadFloatRange = RErr ''ERR min or max is not a float''"
definition errBadLexRange :: rv where "errBadLexRange = RErr ''ERR min or max not valid string range item''"
definition errNaNInf :: rv where "errNaNInf = RErr ''ERR increment would produce NaN or Infinity''"

definition zsetOf :: "('q, 'z, 't, 'h, 'l, 'f) packages \<Rightarrow> ('q, 'z) gval \<Rightarrow> 'z zset" where
  "zsetOf P v = (case v of VZSet z \<Rightarrow> z | _ \<Rightarrow> NewZSet (PS P))"

text \<open>\<^verbatim>\<open>el, _ := z.At(i)\<close>.\<close>

definition zat :: "'z skips \<Rightarrow> 'z zset \<Rightarrow> int \<Rightarrow> zelem" where
  "zat S z i = (case ZSetAt S z i of Some el \<Rightarrow> el | None \<Rightarrow> \<lparr>Score = 0, Member = []\<rparr>)"

definition scoreReply :: "nat \<Rightarrow> zelem \<Rightarrow> rv list" where
  "scoreReply proto el =
     (if proto = 3 then [RArr [RBlob (Member el), RDouble (Score el)]]
      else [RBlob (Member el), RBlob (FormatDouble (Score el))])"

definition zElems :: "bool \<Rightarrow> nat \<Rightarrow> zelem list \<Rightarrow> rv list" where
  "zElems withScores proto els = (if withScores then concat (map (scoreReply proto) els) else map (\<lambda>el. RBlob (Member el)) els)"

section \<open>ZADD and ZINCRBY\<close>

record zaddOpts =
  za_nx :: bool
  za_xx :: bool
  za_gt :: bool
  za_lt :: bool
  za_ch :: bool
  za_incr :: bool

definition noZaddOpts :: zaddOpts where
  "noZaddOpts = \<lparr>za_nx = False, za_xx = False, za_gt = False, za_lt = False, za_ch = False, za_incr = False\<rparr>"

fun zaddFlags :: "string list \<Rightarrow> zaddOpts \<Rightarrow> rv + zaddOpts \<times> string list" where
  "zaddFlags [] opts = Inr (opts, [])"
| "zaddFlags (a # rest) opts =
     (if lowerASCII a = ''nx'' then
        (if za_xx opts then Inl errXXNX else if za_gt opts \<or> za_lt opts then Inl errGTLTNX else zaddFlags rest (opts\<lparr>za_nx := True\<rparr>))
      else if lowerASCII a = ''xx'' then (if za_nx opts then Inl errXXNX else zaddFlags rest (opts\<lparr>za_xx := True\<rparr>))
      else if lowerASCII a = ''gt'' then (if za_nx opts \<or> za_lt opts then Inl errGTLTNX else zaddFlags rest (opts\<lparr>za_gt := True\<rparr>))
      else if lowerASCII a = ''lt'' then (if za_nx opts \<or> za_gt opts then Inl errGTLTNX else zaddFlags rest (opts\<lparr>za_lt := True\<rparr>))
      else if lowerASCII a = ''ch'' then zaddFlags rest (opts\<lparr>za_ch := True\<rparr>)
      else if lowerASCII a = ''incr'' then zaddFlags rest (opts\<lparr>za_incr := True\<rparr>)
      else Inr (opts, a # rest))"

fun zaddPairs :: "string list \<Rightarrow> (float64 \<times> string) list option" where
  "zaddPairs (s # m # rest) =
     (case parseFloat s of None \<Rightarrow> None | Some sc \<Rightarrow> map_option (\<lambda>ps. (sc, m) # ps) (zaddPairs rest))"
| "zaddPairs _ = Some []"

text \<open>The loop over the pairs: NaN met, added, changed, processed, the last score, and the set.\<close>

record zaddRun =
  z_nan :: bool
  z_added :: int
  z_changed :: int
  z_processed :: bool
  z_score :: float64

text \<open>What one pair does, given the current score of its member: nothing, fail, or store a score.\<close>

datatype zaddAct = Skip | BadSum | Put float64

definition zaddDecide :: "zaddOpts \<Rightarrow> float64 option \<Rightarrow> float64 \<Rightarrow> zaddAct" where
  "zaddDecide opts cur sc =
     (if (za_xx opts \<and> cur = None) \<or> (za_nx opts \<and> cur \<noteq> None) then Skip
      else
        let score = (case cur of Some c \<Rightarrow> if za_incr opts then fadd c sc else sc | None \<Rightarrow> sc)
        in if za_incr opts \<and> cur \<noteq> None \<and> is_nan score then BadSum
           else if (case cur of Some c \<Rightarrow> (za_gt opts \<and> fle score c) \<or> (za_lt opts \<and> fle c score) | None \<Rightarrow> False) then Skip
           else Put score)"

fun zadd_loop :: "'z skips \<Rightarrow> zaddOpts \<Rightarrow> (float64 \<times> string) list \<Rightarrow> zaddRun \<Rightarrow> 'z zset \<Rightarrow> zaddRun \<times> 'z zset" where
  "zadd_loop S opts [] r z = (r, z)"
| "zadd_loop S opts ((sc, m) # ps) r z =
     (case zaddDecide opts (ZSetScore z m) sc of
        Skip \<Rightarrow> zadd_loop S opts ps r z
      | BadSum \<Rightarrow> (r\<lparr>z_nan := True\<rparr>, z)
      | Put score \<Rightarrow>
          let (new, z1) = ZSetAdd S z m score;
              r1 = (if new then r\<lparr>z_added := z_added r + 1, z_changed := z_changed r + 1\<rparr>
                    else if \<not> feq (case ZSetScore z m of Some c \<Rightarrow> c | None \<Rightarrow> 0) score then r\<lparr>z_changed := z_changed r + 1\<rparr>
                    else r)
          in zadd_loop S opts ps (r1\<lparr>z_processed := True, z_score := score\<rparr>) z1)"

definition zaddStart :: zaddRun where
  "zaddStart = \<lparr>z_nan = False, z_added = 0, z_changed = 0, z_processed = False, z_score = 0\<rparr>"

definition zaddTask ::
  "('q, 'z, 't, 'h, 'l, 'f) packages \<Rightarrow> nat \<Rightarrow> string \<Rightarrow> zaddOpts \<Rightarrow> (float64 \<times> string) list \<Rightarrow> nat \<Rightarrow> (addr option \<times> bool) \<times> ('q, 'z, 't, 'h, 'l, 'f) st \<Rightarrow> rv \<times> ('q, 'z, 't, 'h, 'l, 'f) st" where
  "zaddTask P db key opts ps i look =
     (let ((ent, wt), g1) = look
      in if wt then (errWrongType, g1)
         else
           let (r, z) = zadd_loop (PS P) opts ps zaddStart (case ent of None \<Rightarrow> NewZSet (PS P) | Some a \<Rightarrow> zsetOf P (Val (ents g1 a)));
               g2 = (case ent of None \<Rightarrow> g1 | Some a \<Rightarrow> setVal a (VZSet z) g1);
               dirty = (0 < z_added r \<or> 0 < z_changed r)
           in if z_nan r then (errNaN, g2)
              else
                let g3 = (case ent of Some a \<Rightarrow> if dirty then Touch P i g2 db key a else g2 | None \<Rightarrow> g2);
                    g4 = (if dirty then notify db key (if za_incr opts then ''zincr'' else ''zadd'') g3 else g3);
                    g5 = (if 0 < z_added r \<or> (za_incr opts \<and> z_processed r) then WakeWaiter i g4 db key else g4)
                in if za_incr opts then
                     (if \<not> z_processed r then (RNull, g5)
                      else (RDouble (z_score r), if ent = None then snd (storeColl P i g5 db key (VZSet z)) else g5))
                   else
                     (RInt (if za_ch opts then z_changed r else z_added r),
                      if 0 < z_added r \<and> ent = None then snd (storeColl P i g5 db key (VZSet z)) else g5))"

definition cmdZAdd :: "('q, 'z, 't, 'h, 'l, 'f) packages \<Rightarrow> nat \<Rightarrow> string list \<Rightarrow> ('q, 'z, 't, 'h, 'l, 'f) st \<Rightarrow> rv \<times> ('q, 'z, 't, 'h, 'l, 'f) st" where
  "cmdZAdd P db args g =
     (case zaddFlags (drop 2 args) noZaddOpts of
        Inl err \<Rightarrow> (err, g)
      | Inr (opts, rest) \<Rightarrow>
          if rest = [] \<or> length rest mod 2 \<noteq> 0 then (errSyntax, g)
          else if za_incr opts \<and> length rest \<noteq> 2 then (RErr ''ERR INCR option supports a single increment-element pair'', g)
          else
            case zaddPairs rest of
              None \<Rightarrow> (errBadFloat, g)
            | Some ps \<Rightarrow>
                let key = args ! 1 in doKey P key (\<lambda>i g. zaddTask P db key opts ps i (getColl P i g db key TypeZSet)) g)"

definition zincrTask ::
  "('q, 'z, 't, 'h, 'l, 'f) packages \<Rightarrow> nat \<Rightarrow> string \<Rightarrow> string \<Rightarrow> float64 \<Rightarrow> nat \<Rightarrow> (addr option \<times> bool) \<times> ('q, 'z, 't, 'h, 'l, 'f) st \<Rightarrow> rv \<times> ('q, 'z, 't, 'h, 'l, 'f) st" where
  "zincrTask P db key m delta i look =
     (let ((ent, wt), g1) = look
      in if wt then (errWrongType, g1)
         else
           let z = (case ent of None \<Rightarrow> NewZSet (PS P) | Some a \<Rightarrow> zsetOf P (Val (ents g1 a)));
               cur = (case ent of None \<Rightarrow> 0 | Some a \<Rightarrow> (case ZSetScore z m of Some c \<Rightarrow> c | None \<Rightarrow> 0));
               score = fadd cur delta
           in if is_nan score then (errNaN, g1)
              else
                let z1 = snd (ZSetAdd (PS P) z m score);
                    g2 = (case ent of None \<Rightarrow> snd (storeColl P i g1 db key (VZSet z1)) | Some a \<Rightarrow> Touch P i (setVal a (VZSet z1) g1) db key a)
                in (RDouble score, WakeWaiter i (notify db key ''zincr'' g2) db key))"

definition cmdZIncrBy :: "('q, 'z, 't, 'h, 'l, 'f) packages \<Rightarrow> nat \<Rightarrow> string list \<Rightarrow> ('q, 'z, 't, 'h, 'l, 'f) st \<Rightarrow> rv \<times> ('q, 'z, 't, 'h, 'l, 'f) st" where
  "cmdZIncrBy P db args g =
     (case parseFloat (args ! 2) of
        None \<Rightarrow> (errBadFloat, g)
      | Some delta \<Rightarrow>
          let key = args ! 1; m = args ! 3
          in doKey P key (\<lambda>i g. zincrTask P db key m delta i (getColl P i g db key TypeZSet)) g)"

section \<open>Reads\<close>

definition optDouble :: "float64 option \<Rightarrow> rv" where
  "optDouble v = (case v of Some s \<Rightarrow> RDouble s | None \<Rightarrow> RNull)"

text \<open>A read of one sorted set: \<open>none\<close> replies for a missing key.\<close>

definition zread ::
  "('q, 'z, 't, 'h, 'l, 'f) packages \<Rightarrow> nat \<Rightarrow> string \<Rightarrow> rv \<Rightarrow> ('z zset \<Rightarrow> rv) \<Rightarrow> ('q, 'z, 't, 'h, 'l, 'f) st \<Rightarrow> rv \<times> ('q, 'z, 't, 'h, 'l, 'f) st" where
  "zread P db key none f g =
     doKey P key (\<lambda>i g.
       let ((ent, wt), g1) = getColl P i g db key TypeZSet
       in if wt then (errWrongType, g1)
          else (case ent of None \<Rightarrow> none | Some a \<Rightarrow> f (zsetOf P (Val (ents g1 a))), g1)) g"

definition cmdZScore :: "('q, 'z, 't, 'h, 'l, 'f) packages \<Rightarrow> nat \<Rightarrow> string list \<Rightarrow> ('q, 'z, 't, 'h, 'l, 'f) st \<Rightarrow> rv \<times> ('q, 'z, 't, 'h, 'l, 'f) st" where
  "cmdZScore P db args g = (let m = args ! 2 in zread P db (args ! 1) RNull (\<lambda>z. optDouble (ZSetScore z m)) g)"

definition cmdZMScore :: "('q, 'z, 't, 'h, 'l, 'f) packages \<Rightarrow> nat \<Rightarrow> string list \<Rightarrow> ('q, 'z, 't, 'h, 'l, 'f) st \<Rightarrow> rv \<times> ('q, 'z, 't, 'h, 'l, 'f) st" where
  "cmdZMScore P db args g =
     zread P db (args ! 1) (RArr (map (\<lambda>m. RNull) (drop 2 args))) (\<lambda>z. RArr (map (\<lambda>m. optDouble (ZSetScore z m)) (drop 2 args))) g"

definition cmdZCard :: "('q, 'z, 't, 'h, 'l, 'f) packages \<Rightarrow> nat \<Rightarrow> string list \<Rightarrow> ('q, 'z, 't, 'h, 'l, 'f) st \<Rightarrow> rv \<times> ('q, 'z, 't, 'h, 'l, 'f) st" where
  "cmdZCard P db args g = zread P db (args ! 1) (RInt 0) (\<lambda>z. RInt (int (ZSetLen z))) g"

definition rankReply :: "'z skips \<Rightarrow> bool \<Rightarrow> bool \<Rightarrow> string \<Rightarrow> 'z zset \<Rightarrow> rv" where
  "rankReply S rev' withScore m z =
     (case ZSetRank S z m of
        None \<Rightarrow> RNull
      | Some r \<Rightarrow>
          let sc = (case ZSetScore z m of Some s \<Rightarrow> s | None \<Rightarrow> 0);
              pos = (if rev' then int (ZSetLen z) - 1 - int r else int r)
          in if withScore then RArr [RInt pos, RDouble sc] else RInt pos)"

definition zRankCmd :: "('q, 'z, 't, 'h, 'l, 'f) packages \<Rightarrow> nat \<Rightarrow> string list \<Rightarrow> bool \<Rightarrow> ('q, 'z, 't, 'h, 'l, 'f) st \<Rightarrow> rv \<times> ('q, 'z, 't, 'h, 'l, 'f) st" where
  "zRankCmd P db args rev' g =
     (if length args = 4 \<and> lowerASCII (args ! 3) \<noteq> ''withscore'' then (errSyntax, g)
      else zread P db (args ! 1) RNull (rankReply (PS P) rev' (length args = 4) (args ! 2)) g)"

definition cmdZRank :: "('q, 'z, 't, 'h, 'l, 'f) packages \<Rightarrow> nat \<Rightarrow> string list \<Rightarrow> ('q, 'z, 't, 'h, 'l, 'f) st \<Rightarrow> rv \<times> ('q, 'z, 't, 'h, 'l, 'f) st" where
  "cmdZRank P db args g = zRankCmd P db args False g"

definition cmdZRevRank :: "('q, 'z, 't, 'h, 'l, 'f) packages \<Rightarrow> nat \<Rightarrow> string list \<Rightarrow> ('q, 'z, 't, 'h, 'l, 'f) st \<Rightarrow> rv \<times> ('q, 'z, 't, 'h, 'l, 'f) st" where
  "cmdZRevRank P db args g = zRankCmd P db args True g"

section \<open>Ranges\<close>

datatype zrangeMode = byIndex | byScore | byLex

datatype zrangeReq =
    ByIndex int int
  | ByScore scoreBound scoreBound
  | ByLex lexBound lexBound

definition parseZRangeBounds :: "zrangeMode \<Rightarrow> string \<Rightarrow> string \<Rightarrow> rv + zrangeReq" where
  "parseZRangeBounds mode startB stopB =
     (case mode of
        byIndex \<Rightarrow>
          (case (parseIntStrict startB, parseIntStrict stopB) of
             (Some start, Some stop) \<Rightarrow> Inr (ByIndex start stop) | _ \<Rightarrow> Inl errNotInt)
      | byScore \<Rightarrow>
          (case (parseScoreBound startB, parseScoreBound stopB) of
             (Some lo, Some hi) \<Rightarrow> Inr (ByScore lo hi) | _ \<Rightarrow> Inl errBadFloatRange)
      | byLex \<Rightarrow>
          (case (parseLexBound startB, parseLexBound stopB) of
             (Some lo, Some hi) \<Rightarrow> Inr (ByLex lo hi) | _ \<Rightarrow> Inl errBadLexRange))"

definition lexKind :: "lexBound \<Rightarrow> char \<times> string" where
  "lexKind b =
     (if lb_kind b = CHR ''-'' then (CHR ''<'', []) else if lb_kind b = CHR ''+'' then (CHR ''>'', []) else (lb_kind b, lb_val b))"

definition scoreLoc :: "'z skips \<Rightarrow> scoreBound \<Rightarrow> scoreBound \<Rightarrow> 'z zset \<Rightarrow> int \<times> int" where
  "scoreLoc S lo hi z = (let (a, b) = ScoreRangeLoc S z (sb_val lo) (sb_val hi) (sb_excl lo) (sb_excl hi) in (int a, int b))"

definition lexLoc :: "'z skips \<Rightarrow> lexBound \<Rightarrow> lexBound \<Rightarrow> 'z zset \<Rightarrow> int \<times> int" where
  "lexLoc S lo hi z =
     (let (lk, lv) = lexKind lo; (hk, hv) = lexKind hi; (a, b) = LexRangeLoc S z lk lv hk hv in (int a, int b))"

text \<open>The ranks of a request, from the first up to but not including the second.\<close>

definition zwindow :: "'z skips \<Rightarrow> zrangeReq \<Rightarrow> 'z zset \<Rightarrow> int \<times> int" where
  "zwindow S req z =
     (case req of
        ByIndex start0 stop0 \<Rightarrow>
          let n = int (ZSetLen z);
              start = (if start0 < 0 then max 0 (start0 + n) else start0);
              stop1 = (if stop0 < 0 then stop0 + n else stop0);
              stop = (if n \<le> stop1 then n - 1 else stop1)
          in if stop < start \<or> n \<le> start \<or> stop < 0 then (0, 0) else (start, stop + 1)
      | ByScore lo hi \<Rightarrow> scoreLoc S lo hi z
      | ByLex lo hi \<Rightarrow> lexLoc S lo hi z)"

definition zrangeEmit :: "'z skips \<Rightarrow> 'z zset \<Rightarrow> int \<Rightarrow> int \<Rightarrow> bool \<Rightarrow> (int \<times> int) option \<Rightarrow> bool \<Rightarrow> nat \<Rightarrow> rv" where
  "zrangeEmit S z lo0 hi0 rev' limit withScores proto =
     (let (lo, hi) = (if hi0 < lo0 then (0, 0) else (lo0, hi0));
          all = (if rev' then rev [lo..hi - 1] else [lo..hi - 1]);
          idxs =
            (case limit of
               None \<Rightarrow> all
             | Some (offset, cnt) \<Rightarrow>
                 if offset < 0 \<or> int (length all) \<le> offset then []
                 else let rest = drop (nat offset) all in if 0 \<le> cnt \<and> cnt < int (length rest) then take (nat cnt) rest else rest)
      in RArr (zElems withScores proto (map (zat S z) idxs)))"

record zrangeOpts =
  hasByScore :: bool
  hasByLex :: bool
  zrev :: bool
  withScores :: bool
  limitOpt :: "(int \<times> int) option"

definition noRangeOpts :: zrangeOpts where
  "noRangeOpts = \<lparr>hasByScore = False, hasByLex = False, zrev = False, withScores = False, limitOpt = None\<rparr>"

definition limitArgs :: "string list \<Rightarrow> rv + (int \<times> int) \<times> string list" where
  "limitArgs rest =
     (case rest of
        o' # c # rest' \<Rightarrow>
          (case (parseIntStrict o', parseIntStrict c) of (Some ov, Some cv) \<Rightarrow> Inr ((ov, cv), rest') | _ \<Rightarrow> Inl errNotInt)
      | _ \<Rightarrow> Inl errSyntax)"

lemma limitArgs_shorter: "limitArgs rest = Inr (v, rest') \<Longrightarrow> length rest' < length rest"
  by (auto simp: limitArgs_def split: list.splits option.splits)

function zrangeFlags :: "string list \<Rightarrow> zrangeOpts \<Rightarrow> rv + zrangeOpts" where
  "zrangeFlags [] opts = Inr opts"
| "zrangeFlags (a # rest) opts =
     (if lowerASCII a = ''byscore'' then (if hasByLex opts then Inl errSyntax else zrangeFlags rest (opts\<lparr>hasByScore := True\<rparr>))
      else if lowerASCII a = ''bylex'' then (if hasByScore opts then Inl errSyntax else zrangeFlags rest (opts\<lparr>hasByLex := True\<rparr>))
      else if lowerASCII a = ''rev'' then zrangeFlags rest (opts\<lparr>zrev := True\<rparr>)
      else if lowerASCII a = ''withscores'' then zrangeFlags rest (opts\<lparr>withScores := True\<rparr>)
      else if lowerASCII a = ''limit'' then
        (case limitArgs rest of Inl e \<Rightarrow> Inl e | Inr (l, rest') \<Rightarrow> zrangeFlags rest' (opts\<lparr>limitOpt := Some l\<rparr>))
      else Inl errSyntax)"
  by pat_completeness auto
termination by (relation "measure (\<lambda>(xs, opts). length xs)") (auto dest: limitArgs_shorter)

text \<open>The range of one key, after its bounds have been parsed.\<close>

definition zrangeOn :: "('q, 'z, 't, 'h, 'l, 'f) packages \<Rightarrow> nat \<Rightarrow> nat \<Rightarrow> string \<Rightarrow> zrangeReq \<Rightarrow> bool \<Rightarrow> (int \<times> int) option \<Rightarrow> bool \<Rightarrow> ('q, 'z, 't, 'h, 'l, 'f) st \<Rightarrow> rv \<times> ('q, 'z, 't, 'h, 'l, 'f) st" where
  "zrangeOn P proto db key req rev' limit ws g =
     zread P db key (RArr []) (\<lambda>z. let (lo, hi) = zwindow (PS P) req z in zrangeEmit (PS P) z lo hi rev' limit ws proto) g"

definition cmdZRange :: "('q, 'z, 't, 'h, 'l, 'f) packages \<Rightarrow> nat \<Rightarrow> nat \<Rightarrow> string list \<Rightarrow> ('q, 'z, 't, 'h, 'l, 'f) st \<Rightarrow> rv \<times> ('q, 'z, 't, 'h, 'l, 'f) st" where
  "cmdZRange P proto db args g =
     (case zrangeFlags (drop 4 args) noRangeOpts of
        Inl e \<Rightarrow> (e, g)
      | Inr opts \<Rightarrow>
          if limitOpt opts \<noteq> None \<and> \<not> hasByScore opts \<and> \<not> hasByLex opts
            then (RErr ''ERR syntax error, LIMIT is only supported in combination with either BYSCORE or BYLEX'', g)
          else if withScores opts \<and> hasByLex opts
            then (RErr ''ERR syntax error, WITHSCORES not supported in combination with BYLEX'', g)
          else
            let mode = (if hasByScore opts then byScore else if hasByLex opts then byLex else byIndex);
                swap = (zrev opts \<and> mode \<noteq> byIndex);
                startB = (if swap then args ! 3 else args ! 2); stopB = (if swap then args ! 2 else args ! 3)
            in case parseZRangeBounds mode startB stopB of
                 Inl e \<Rightarrow> (e, g)
               | Inr req \<Rightarrow> zrangeOn P proto db (args ! 1) req (zrev opts) (limitOpt opts) (withScores opts) g)"

function zrangeByFlags :: "zrangeMode \<Rightarrow> string list \<Rightarrow> bool \<times> (int \<times> int) option \<Rightarrow> rv + bool \<times> (int \<times> int) option" where
  "zrangeByFlags mode [] opts = Inr opts"
| "zrangeByFlags mode (a # rest) opts =
     (if lowerASCII a = ''withscores'' then
        (if mode = byLex then Inl (RErr ''ERR syntax error, WITHSCORES not supported in combination with BYLEX'')
         else zrangeByFlags mode rest (True, snd opts))
      else if lowerASCII a = ''limit'' then
        (case limitArgs rest of Inl e \<Rightarrow> Inl e | Inr (l, rest') \<Rightarrow> zrangeByFlags mode rest' (fst opts, Some l))
      else Inl errSyntax)"
  by pat_completeness auto
termination by (relation "measure (\<lambda>(mode, xs, opts). length xs)") (auto dest: limitArgs_shorter)

definition zrangeByCmd :: "zrangeMode \<Rightarrow> bool \<Rightarrow> ('q, 'z, 't, 'h, 'l, 'f) packages \<Rightarrow> nat \<Rightarrow> nat \<Rightarrow> string list \<Rightarrow> ('q, 'z, 't, 'h, 'l, 'f) st \<Rightarrow> rv \<times> ('q, 'z, 't, 'h, 'l, 'f) st" where
  "zrangeByCmd mode rev' P proto db args g =
     (case zrangeByFlags mode (drop 4 args) (False, None) of
        Inl e \<Rightarrow> (e, g)
      | Inr (ws, limit) \<Rightarrow>
          let minB = (if rev' then args ! 3 else args ! 2); maxB = (if rev' then args ! 2 else args ! 3)
          in case parseZRangeBounds mode minB maxB of
               Inl e \<Rightarrow> (e, g)
             | Inr req \<Rightarrow> zrangeOn P proto db (args ! 1) req rev' limit ws g)"

definition cmdZRangeByScore :: "('q, 'z, 't, 'h, 'l, 'f) packages \<Rightarrow> nat \<Rightarrow> nat \<Rightarrow> string list \<Rightarrow> ('q, 'z, 't, 'h, 'l, 'f) st \<Rightarrow> rv \<times> ('q, 'z, 't, 'h, 'l, 'f) st" where "cmdZRangeByScore = zrangeByCmd byScore False"
definition cmdZRevRangeByScore :: "('q, 'z, 't, 'h, 'l, 'f) packages \<Rightarrow> nat \<Rightarrow> nat \<Rightarrow> string list \<Rightarrow> ('q, 'z, 't, 'h, 'l, 'f) st \<Rightarrow> rv \<times> ('q, 'z, 't, 'h, 'l, 'f) st" where "cmdZRevRangeByScore = zrangeByCmd byScore True"
definition cmdZRangeByLex :: "('q, 'z, 't, 'h, 'l, 'f) packages \<Rightarrow> nat \<Rightarrow> nat \<Rightarrow> string list \<Rightarrow> ('q, 'z, 't, 'h, 'l, 'f) st \<Rightarrow> rv \<times> ('q, 'z, 't, 'h, 'l, 'f) st" where "cmdZRangeByLex = zrangeByCmd byLex False"

text \<open>ZREVRANGE counts from the end; its ranks are mapped to a forward window.\<close>

definition revRangeReply :: "'z skips \<Rightarrow> nat \<Rightarrow> int \<Rightarrow> int \<Rightarrow> bool \<Rightarrow> 'z zset \<Rightarrow> rv" where
  "revRangeReply S proto start stop ws z =
     (let n = int (ZSetLen z);
          s0 = max 0 (if start < 0 then start + n else start);
          s1 = (if stop < 0 then stop + n else stop)
      in if s1 < s0 \<or> n \<le> s0 \<or> s1 < 0 then RArr []
         else let s1' = (if n \<le> s1 then n - 1 else s1) in zrangeEmit S z (n - 1 - s1') (n - s0) True None ws proto)"

definition cmdZRevRange :: "('q, 'z, 't, 'h, 'l, 'f) packages \<Rightarrow> nat \<Rightarrow> nat \<Rightarrow> string list \<Rightarrow> ('q, 'z, 't, 'h, 'l, 'f) st \<Rightarrow> rv \<times> ('q, 'z, 't, 'h, 'l, 'f) st" where
  "cmdZRevRange P proto db args g =
     (if \<exists>a \<in> set (drop 4 args). lowerASCII a \<noteq> ''withscores'' then (errSyntax, g)
      else
        case (parseIntStrict (args ! 2), parseIntStrict (args ! 3)) of
          (Some start, Some stop) \<Rightarrow> zread P db (args ! 1) (RArr []) (revRangeReply (PS P) proto start stop (drop 4 args \<noteq> [])) g
        | _ \<Rightarrow> (errNotInt, g))"

definition countReply :: "int \<times> int \<Rightarrow> rv" where
  "countReply w = RInt (max (snd w - fst w) 0)"

definition cmdZCount :: "('q, 'z, 't, 'h, 'l, 'f) packages \<Rightarrow> nat \<Rightarrow> string list \<Rightarrow> ('q, 'z, 't, 'h, 'l, 'f) st \<Rightarrow> rv \<times> ('q, 'z, 't, 'h, 'l, 'f) st" where
  "cmdZCount P db args g =
     (case (parseScoreBound (args ! 2), parseScoreBound (args ! 3)) of
        (Some lo, Some hi) \<Rightarrow> zread P db (args ! 1) (RInt 0) (\<lambda>z. countReply (scoreLoc (PS P) lo hi z)) g
      | _ \<Rightarrow> (errBadFloatRange, g))"

definition cmdZLexCount :: "('q, 'z, 't, 'h, 'l, 'f) packages \<Rightarrow> nat \<Rightarrow> string list \<Rightarrow> ('q, 'z, 't, 'h, 'l, 'f) st \<Rightarrow> rv \<times> ('q, 'z, 't, 'h, 'l, 'f) st" where
  "cmdZLexCount P db args g =
     (case (parseLexBound (args ! 2), parseLexBound (args ! 3)) of
        (Some lo, Some hi) \<Rightarrow> zread P db (args ! 1) (RInt 0) (\<lambda>z. countReply (lexLoc (PS P) lo hi z)) g
      | _ \<Rightarrow> (errBadLexRange, g))"

section \<open>Removals\<close>

text \<open>What follows a removal of \<open>n\<close> elements: \<^verbatim>\<open>Touch\<close> if there were any, \<^verbatim>\<open>Delete\<close> if none is left.\<close>

definition zshrunk :: "('q, 'z, 't, 'h, 'l, 'f) packages \<Rightarrow> nat \<Rightarrow> nat \<Rightarrow> string \<Rightarrow> addr \<Rightarrow> bool \<Rightarrow> 'z zset \<Rightarrow> ('q, 'z, 't, 'h, 'l, 'f) st \<Rightarrow> bool \<times> ('q, 'z, 't, 'h, 'l, 'f) st" where
  "zshrunk P i db key a dirty z g =
     (let g1 = setVal a (VZSet z) g; g2 = (if dirty then Touch P i g1 db key a else g1)
      in if ZSetLen z = 0 then (True, snd (Delete P i g2 db key)) else (False, g2))"

fun zrem_loop :: "'z skips \<Rightarrow> 'z zset \<Rightarrow> int \<Rightarrow> string list \<Rightarrow> int \<times> 'z zset" where
  "zrem_loop S z n [] = (n, z)"
| "zrem_loop S z n (m # ms) = (let (ok, z1) = ZSetRemove S z m in zrem_loop S z1 (if ok then n + 1 else n) ms)"

text \<open>A task that removes elements: \<open>f\<close> gives their number and the set that is left.\<close>

definition zremTask ::
  "('q, 'z, 't, 'h, 'l, 'f) packages \<Rightarrow> nat \<Rightarrow> string \<Rightarrow> ('z zset \<Rightarrow> int \<times> 'z zset) \<Rightarrow> nat \<Rightarrow> (addr option \<times> bool) \<times> ('q, 'z, 't, 'h, 'l, 'f) st \<Rightarrow> (rv \<times> int \<times> bool) \<times> ('q, 'z, 't, 'h, 'l, 'f) st" where
  "zremTask P db key f i look =
     (let ((ent, wt), g1) = look
      in if wt then ((errWrongType, 0, False), g1)
         else
           (case ent of
              None \<Rightarrow> ((RInt 0, 0, False), g1)
            | Some a \<Rightarrow>
                let (n, z) = f (zsetOf P (Val (ents g1 a))); (deleted, g2) = zshrunk P i db key a (0 < n) z g1
                in ((RInt n, n, deleted), g2)))"

definition zremCmd :: "('q, 'z, 't, 'h, 'l, 'f) packages \<Rightarrow> nat \<Rightarrow> string \<Rightarrow> string \<Rightarrow> ('z zset \<Rightarrow> int \<times> 'z zset) \<Rightarrow> ('q, 'z, 't, 'h, 'l, 'f) st \<Rightarrow> rv \<times> ('q, 'z, 't, 'h, 'l, 'f) st" where
  "zremCmd P db key event f g =
     (let ((reply, n, deleted), g1) = doKey P key (\<lambda>i g. zremTask P db key f i (getColl P i g db key TypeZSet)) g
      in (reply, notifyDel db key event (0 < n) deleted g1))"

definition cmdZRem :: "('q, 'z, 't, 'h, 'l, 'f) packages \<Rightarrow> nat \<Rightarrow> string list \<Rightarrow> ('q, 'z, 't, 'h, 'l, 'f) st \<Rightarrow> rv \<times> ('q, 'z, 't, 'h, 'l, 'f) st" where
  "cmdZRem P db args g = zremCmd P db (args ! 1) ''zrem'' (\<lambda>z. zrem_loop (PS P) z 0 (drop 2 args)) g"

definition removeWindow :: "'z skips \<Rightarrow> int \<times> int \<Rightarrow> 'z zset \<Rightarrow> int \<times> 'z zset" where
  "removeWindow S w z = (let (lo, hi) = w; (n, z1) = ZSetRemoveRankRange S z lo (hi - 1) in (int n, z1))"

definition cmdZRemRangeByRank :: "('q, 'z, 't, 'h, 'l, 'f) packages \<Rightarrow> nat \<Rightarrow> string list \<Rightarrow> ('q, 'z, 't, 'h, 'l, 'f) st \<Rightarrow> rv \<times> ('q, 'z, 't, 'h, 'l, 'f) st" where
  "cmdZRemRangeByRank P db args g =
     (case (parseIntStrict (args ! 2), parseIntStrict (args ! 3)) of
        (Some start, Some stop) \<Rightarrow>
          zremCmd P db (args ! 1) ''zremrangebyrank'' (\<lambda>z. removeWindow (PS P) (zwindow (PS P) (ByIndex start stop) z) z) g
      | _ \<Rightarrow> (errNotInt, g))"

definition zRemRange :: "('q, 'z, 't, 'h, 'l, 'f) packages \<Rightarrow> nat \<Rightarrow> string \<Rightarrow> string \<Rightarrow> ('z zset \<Rightarrow> int \<times> int) \<Rightarrow> ('q, 'z, 't, 'h, 'l, 'f) st \<Rightarrow> rv \<times> ('q, 'z, 't, 'h, 'l, 'f) st" where
  "zRemRange P db key event loc g =
     zremCmd P db key event (\<lambda>z. let (lo, hi) = loc z in removeWindow (PS P) (if hi < lo then (0, 0) else (lo, hi)) z) g"

definition cmdZRemRangeByScore :: "('q, 'z, 't, 'h, 'l, 'f) packages \<Rightarrow> nat \<Rightarrow> string list \<Rightarrow> ('q, 'z, 't, 'h, 'l, 'f) st \<Rightarrow> rv \<times> ('q, 'z, 't, 'h, 'l, 'f) st" where
  "cmdZRemRangeByScore P db args g =
     (case (parseScoreBound (args ! 2), parseScoreBound (args ! 3)) of
        (Some lo, Some hi) \<Rightarrow> zRemRange P db (args ! 1) ''zremrangebyscore'' (scoreLoc (PS P) lo hi) g
      | _ \<Rightarrow> (errBadFloatRange, g))"

definition cmdZRemRangeByLex :: "('q, 'z, 't, 'h, 'l, 'f) packages \<Rightarrow> nat \<Rightarrow> string list \<Rightarrow> ('q, 'z, 't, 'h, 'l, 'f) st \<Rightarrow> rv \<times> ('q, 'z, 't, 'h, 'l, 'f) st" where
  "cmdZRemRangeByLex P db args g =
     (case (parseLexBound (args ! 2), parseLexBound (args ! 3)) of
        (Some lo, Some hi) \<Rightarrow> zRemRange P db (args ! 1) ''zremrangebylex'' (lexLoc (PS P) lo hi) g
      | _ \<Rightarrow> (errBadLexRange, g))"

section \<open>Pops and samples\<close>

fun zpop_loop :: "'z skips \<Rightarrow> bool \<Rightarrow> nat \<Rightarrow> 'z zset \<Rightarrow> zelem list \<Rightarrow> zelem list \<times> 'z zset" where
  "zpop_loop S fromMin 0 z out = (out, z)"
| "zpop_loop S fromMin (Suc n) z out =
     (let el = zat S z (if fromMin then 0 else int (ZSetLen z) - 1)
      in zpop_loop S fromMin n (snd (ZSetRemove S z (Member el))) (out @ [el]))"

definition zpopTask ::
  "('q, 'z, 't, 'h, 'l, 'f) packages \<Rightarrow> nat \<Rightarrow> nat \<Rightarrow> string \<Rightarrow> bool \<Rightarrow> int option \<Rightarrow> nat \<Rightarrow> (addr option \<times> bool) \<times> ('q, 'z, 't, 'h, 'l, 'f) st \<Rightarrow> (rv \<times> bool \<times> bool) \<times> ('q, 'z, 't, 'h, 'l, 'f) st" where
  "zpopTask P proto db key fromMin cnt i look =
     (let ((ent, wt), g1) = look; want = (case cnt of None \<Rightarrow> 1 | Some c \<Rightarrow> c)
      in if wt then ((errWrongType, False, False), g1)
         else
           (case ent of
              None \<Rightarrow> ((RArr [], False, False), g1)
            | Some a \<Rightarrow>
                if want = 0 then ((RArr [], False, False), g1)
                else
                  let z = zsetOf P (Val (ents g1 a));
                      (popped, z1) = zpop_loop (PS P) fromMin (min (nat want) (ZSetLen z)) z [];
                      (deleted, g2) = zshrunk P i db key a True z1 g1;
                      reply = (if cnt = None then
                                 (if proto = 3 then RArr [RBlob (Member (popped ! 0)), RDouble (Score (popped ! 0))]
                                  else RArr [RBlob (Member (popped ! 0)), RBlob (FormatDouble (Score (popped ! 0)))])
                               else RArr (zElems True proto popped))
                  in ((reply, True, deleted), g2)))"

definition zPopCmd :: "bool \<Rightarrow> ('q, 'z, 't, 'h, 'l, 'f) packages \<Rightarrow> nat \<Rightarrow> nat \<Rightarrow> string list \<Rightarrow> ('q, 'z, 't, 'h, 'l, 'f) st \<Rightarrow> rv \<times> ('q, 'z, 't, 'h, 'l, 'f) st" where
  "zPopCmd fromMin P proto db args g =
     (if 3 < length args then (errArity (lowerASCII (args ! 0)), g)
      else
        let run = (\<lambda>cnt. let key = args ! 1;
                     ((reply, didPop, deleted), g1) = doKey P key (\<lambda>i g. zpopTask P proto db key fromMin cnt i (getColl P i g db key TypeZSet)) g
                   in (reply, notifyDel db key (if fromMin then ''zpopmin'' else ''zpopmax'') didPop deleted g1))
        in if length args = 3 then
             (case parseIntStrict (args ! 2) of
                None \<Rightarrow> (errNotPositive, g)
              | Some v \<Rightarrow> if v < 0 then (errNotPositive, g) else run (Some v))
           else run None)"

definition cmdZPopMin :: "('q, 'z, 't, 'h, 'l, 'f) packages \<Rightarrow> nat \<Rightarrow> nat \<Rightarrow> string list \<Rightarrow> ('q, 'z, 't, 'h, 'l, 'f) st \<Rightarrow> rv \<times> ('q, 'z, 't, 'h, 'l, 'f) st" where "cmdZPopMin = zPopCmd True"
definition cmdZPopMax :: "('q, 'z, 't, 'h, 'l, 'f) packages \<Rightarrow> nat \<Rightarrow> nat \<Rightarrow> string list \<Rightarrow> ('q, 'z, 't, 'h, 'l, 'f) st \<Rightarrow> rv \<times> ('q, 'z, 't, 'h, 'l, 'f) st" where "cmdZPopMax = zPopCmd False"

text \<open>The ranks ZRANDMEMBER chooses; \<^verbatim>\<open>-count\<close> wraps around for the smallest integer.\<close>

definition chosenRanks :: "(nat \<Rightarrow> nat) \<Rightarrow> (nat \<Rightarrow> nat list) \<Rightarrow> nat \<Rightarrow> int option \<Rightarrow> nat list" where
  "chosenRanks rnd perm n cnt =
     (case cnt of
        None \<Rightarrow> [rnd 0]
      | Some c \<Rightarrow>
          if 0 \<le> c then (if int n \<le> c then [0..<n] else take (min (nat c) n) (perm n))
          else map rnd [0..<nat (wrap64 (- c))])"

definition randReply :: "'z skips \<Rightarrow> (nat \<Rightarrow> nat) \<Rightarrow> (nat \<Rightarrow> nat list) \<Rightarrow> nat \<Rightarrow> int option \<Rightarrow> bool \<Rightarrow> 'z zset \<Rightarrow> rv" where
  "randReply S rnd perm proto cnt ws z =
     (let out = zElems ws proto (map (\<lambda>i. zat S z (int i)) (chosenRanks rnd perm (ZSetLen z) cnt))
      in if cnt = None then out ! 0 else RArr out)"

definition cmdZRandMember :: "(nat \<Rightarrow> nat) \<Rightarrow> (nat \<Rightarrow> nat list) \<Rightarrow> ('q, 'z, 't, 'h, 'l, 'f) packages \<Rightarrow> nat \<Rightarrow> nat \<Rightarrow> string list \<Rightarrow> ('q, 'z, 't, 'h, 'l, 'f) st \<Rightarrow> rv \<times> ('q, 'z, 't, 'h, 'l, 'f) st" where
  "cmdZRandMember rnd perm P proto db args g =
     (if 3 \<le> length args \<and> parseIntStrict (args ! 2) = None then (errNotInt, g)
      else if 4 \<le> length args \<and> lowerASCII (args ! 3) \<noteq> ''withscores'' then (errSyntax, g)
      else if 4 < length args then (errSyntax, g)
      else
        let cnt = (if 3 \<le> length args then parseIntStrict (args ! 2) else None)
        in zread P db (args ! 1) (if cnt = None then RNull else RArr []) (randReply (PS P) rnd perm proto cnt (4 \<le> length args)) g)"

section \<open>Algebra on several keys\<close>

text \<open>A snapshot: the members with their scores in the order of \<^verbatim>\<open>order\<close>, \<open>None\<close> when the key is missing.\<close>

type_synonym zSnapshot = "(string \<times> float64) list option"

definition oneScore :: float64 where "oneScore = 0x3FF0000000000000"

definition zsetElems :: "'z skips \<Rightarrow> 'z zset \<Rightarrow> zelem list" where
  "zsetElems S z = map (\<lambda>i. zat S z (int i)) [0..<ZSetLen z]"

definition zsnapTask ::
  "('q, 'z, 't, 'h, 'l, 'f) packages \<Rightarrow> iteration \<Rightarrow> nat \<Rightarrow> nat \<Rightarrow> nat \<Rightarrow> string \<Rightarrow> zSnapshot list \<times> bool list \<Rightarrow> ('q, 'z, 't, 'h, 'l, 'f) st \<Rightarrow> (zSnapshot list \<times> bool list) \<times> ('q, 'z, 't, 'h, 'l, 'f) st" where
  "zsnapTask P iter db si i key acc g =
     (let (r, g1) = Lookup P si g db key; (snaps, wt) = acc
      in (case r of
            None \<Rightarrow> acc
          | Some a \<Rightarrow>
              (case Val (ents g1 a) of
                 VZSet z \<Rightarrow> (snaps[i := Some (map (\<lambda>el. (Member el, Score el)) (zsetElems (PS P) z))], wt)
               | VSet s \<Rightarrow> (snaps[i := Some (map (\<lambda>m. (m, oneScore)) (SetMembers (iter i) s))], wt)
               | _ \<Rightarrow> (snaps, wt[i := True])), g1))"

definition snapshotZSets ::
  "('q, 'z, 't, 'h, 'l, 'f) packages \<Rightarrow> nat list \<Rightarrow> iteration \<Rightarrow> nat \<Rightarrow> string list \<Rightarrow> ('q, 'z, 't, 'h, 'l, 'f) st \<Rightarrow> zSnapshot list option \<times> ('q, 'z, 't, 'h, 'l, 'f) st" where
  "snapshotZSets P ord iter db keys g =
     (let ((snaps, wt), g1) = doMulti P ord keys (\<lambda>si. each_idx keys (zsnapTask P iter db si))
                                (replicate (length keys) None, replicate (length keys) False) g
      in (if True \<in> set wt then None else Some snaps, g1))"

datatype aggregate = aggrSum | aggrMin | aggrMax

text \<open>The accumulator: the score of each member met and the number of inputs that had it.\<close>

type_synonym zacc = "(string \<times> float64 \<times> nat) list"

definition aggr2 :: "aggregate \<Rightarrow> float64 \<Rightarrow> float64 \<Rightarrow> float64" where
  "aggr2 ag c v =
     (case ag of aggrMin \<Rightarrow> (if flt v c then v else c) | aggrMax \<Rightarrow> (if flt c v then v else c) | aggrSum \<Rightarrow> fadd c v)"

fun agg_snap :: "aggregate \<Rightarrow> float64 \<Rightarrow> (string \<times> float64) list \<Rightarrow> zacc \<Rightarrow> zacc" where
  "agg_snap ag w [] acc = acc"
| "agg_snap ag w ((m, sc) # ms) acc =
     (let v = fmul sc w
      in agg_snap ag w ms
           (case map_of acc m of
              None \<Rightarrow> AList.update m (v, 1) acc
            | Some (c, n) \<Rightarrow> AList.update m (aggr2 ag c v, n + 1) acc))"

fun agg_all :: "aggregate \<Rightarrow> float64 list option \<Rightarrow> nat \<Rightarrow> zSnapshot list \<Rightarrow> zacc \<Rightarrow> zacc" where
  "agg_all ag weights i [] acc = acc"
| "agg_all ag weights i (sn # rest) acc =
     agg_all ag weights (Suc i) rest
       (agg_snap ag (case weights of None \<Rightarrow> oneScore | Some ws \<Rightarrow> ws ! i) (case sn of None \<Rightarrow> [] | Some ms \<Rightarrow> ms) acc)"

definition zAggregate :: "zSnapshot list \<Rightarrow> bool \<Rightarrow> float64 list option \<Rightarrow> aggregate \<Rightarrow> (string \<times> float64) list" where
  "zAggregate snaps intersects weights ag =
     map (\<lambda>(m, c, n). (m, if is_nan c then 0 else c))
       (filter (\<lambda>(m, c, n). \<not> intersects \<or> n = length snaps) (agg_all ag weights 0 snaps []))"

text \<open>A set filled from a map, in the order Go ranges over it.\<close>

definition zsetFrom :: "'z skips \<Rightarrow> (string set \<Rightarrow> string list) \<Rightarrow> (string \<times> float64) list \<Rightarrow> 'z zset" where
  "zsetFrom S iter acc =
     foldl (\<lambda>z m. snd (ZSetAdd S z m (case map_of acc m of Some s \<Rightarrow> s | None \<Rightarrow> 0))) (NewZSet S) (iter (fst ` set acc))"

definition zAggregateReply :: "'z skips \<Rightarrow> (string set \<Rightarrow> string list) \<Rightarrow> (string \<times> float64) list \<Rightarrow> bool \<Rightarrow> nat \<Rightarrow> rv" where
  "zAggregateReply S iter acc ws proto = RArr (zElems ws proto (zsetElems S (zsetFrom S iter acc)))"

definition zNumkeysArgs :: "string list \<Rightarrow> string \<Rightarrow> rv + string list \<times> string list" where
  "zNumkeysArgs args cmd' =
     (case parseIntStrict (args ! 1) of
        None \<Rightarrow> Inl errNotInt
      | Some n \<Rightarrow>
          if n < 1 then Inl (errArity cmd')
          else if int (length args) - 2 < n then Inl errSyntax
          else Inr (take (nat n) (drop 2 args), drop (2 + nat n) args))"

definition scoresTail :: "string list \<Rightarrow> bool option" where
  "scoresTail rest =
     (if length rest = 1 \<and> lowerASCII (rest ! 0) = ''withscores'' then Some True else if rest \<noteq> [] then None else Some False)"

text \<open>ZDIFF, ZINTER and ZUNION: \<open>f\<close> combines the snapshots.\<close>

definition zAlgebraCmd :: "string \<Rightarrow> (zSnapshot list \<Rightarrow> (string \<times> float64) list) \<Rightarrow> nat list \<Rightarrow> iteration \<Rightarrow> ('q, 'z, 't, 'h, 'l, 'f) packages \<Rightarrow> nat \<Rightarrow> nat \<Rightarrow> string list \<Rightarrow> ('q, 'z, 't, 'h, 'l, 'f) st \<Rightarrow> rv \<times> ('q, 'z, 't, 'h, 'l, 'f) st" where
  "zAlgebraCmd cmd' f ord iter P proto db args g =
     (case zNumkeysArgs args cmd' of
        Inl e \<Rightarrow> (e, g)
      | Inr (keys, rest) \<Rightarrow>
          (case scoresTail rest of
             None \<Rightarrow> (errSyntax, g)
           | Some ws \<Rightarrow>
               (case snapshotZSets P ord iter db keys g of
                  (None, g1) \<Rightarrow> (errWrongType, g1)
                | (Some snaps, g1) \<Rightarrow> (zAggregateReply (PS P) (iter (length keys)) (f snaps) ws proto, g1))))"

definition zDiffAll :: "zSnapshot list \<Rightarrow> (string \<times> float64) list" where
  "zDiffAll snaps =
     (case snaps of
        Some ms # rest \<Rightarrow>
          let others = fst ` set (concat (map (\<lambda>sn. case sn of None \<Rightarrow> [] | Some ms \<Rightarrow> ms) rest))
          in filter (\<lambda>(m, sc). m \<notin> others) ms
      | _ \<Rightarrow> [])"

definition cmdZDiff :: "nat list \<Rightarrow> iteration \<Rightarrow> ('q, 'z, 't, 'h, 'l, 'f) packages \<Rightarrow> nat \<Rightarrow> nat \<Rightarrow> string list \<Rightarrow> ('q, 'z, 't, 'h, 'l, 'f) st \<Rightarrow> rv \<times> ('q, 'z, 't, 'h, 'l, 'f) st" where "cmdZDiff = zAlgebraCmd ''zdiff'' zDiffAll"
definition cmdZInter :: "nat list \<Rightarrow> iteration \<Rightarrow> ('q, 'z, 't, 'h, 'l, 'f) packages \<Rightarrow> nat \<Rightarrow> nat \<Rightarrow> string list \<Rightarrow> ('q, 'z, 't, 'h, 'l, 'f) st \<Rightarrow> rv \<times> ('q, 'z, 't, 'h, 'l, 'f) st" where
  "cmdZInter = zAlgebraCmd ''zinter'' (\<lambda>snaps. zAggregate snaps True None aggrSum)"
definition cmdZUnion :: "nat list \<Rightarrow> iteration \<Rightarrow> ('q, 'z, 't, 'h, 'l, 'f) packages \<Rightarrow> nat \<Rightarrow> nat \<Rightarrow> string list \<Rightarrow> ('q, 'z, 't, 'h, 'l, 'f) st \<Rightarrow> rv \<times> ('q, 'z, 't, 'h, 'l, 'f) st" where
  "cmdZUnion = zAlgebraCmd ''zunion'' (\<lambda>snaps. zAggregate snaps False None aggrSum)"

fun weightArgs :: "string list \<Rightarrow> float64 list option" where
  "weightArgs [] = Some []"
| "weightArgs (a # as) = (case parseFloat a of None \<Rightarrow> None | Some w \<Rightarrow> map_option (\<lambda>ws. w # ws) (weightArgs as))"

definition aggrOf :: "string \<Rightarrow> aggregate option" where
  "aggrOf a =
     (let s = lowerASCII a
      in if s = ''sum'' then Some aggrSum else if s = ''min'' then Some aggrMin else if s = ''max'' then Some aggrMax else None)"

function zstoreFlags :: "nat \<Rightarrow> string list \<Rightarrow> float64 list option \<times> aggregate \<Rightarrow> rv + float64 list option \<times> aggregate" where
  "zstoreFlags n [] opts = Inr opts"
| "zstoreFlags n (a # rest) opts =
     (if lowerASCII a = ''weights'' then
        (if length rest < n then Inl errSyntax
         else case weightArgs (take n rest) of
                None \<Rightarrow> Inl (RErr ''ERR weight value is not a float'')
              | Some ws \<Rightarrow> zstoreFlags n (drop n rest) (Some ws, snd opts))
      else if lowerASCII a = ''aggregate'' then
        (case rest of
           [] \<Rightarrow> Inl errSyntax
         | b # rest' \<Rightarrow> (case aggrOf b of None \<Rightarrow> Inl errSyntax | Some ag \<Rightarrow> zstoreFlags n rest' (fst opts, ag)))
      else Inl errSyntax)"
  by pat_completeness auto
termination by (relation "measure (\<lambda>(n, xs, opts). length xs)") auto

definition zstoreTask :: "('q, 'z, 't, 'h, 'l, 'f) packages \<Rightarrow> (string set \<Rightarrow> string list) \<Rightarrow> nat \<Rightarrow> string \<Rightarrow> (string \<times> float64) list \<Rightarrow> nat \<Rightarrow> ('q, 'z, 't, 'h, 'l, 'f) st \<Rightarrow> bool \<times> ('q, 'z, 't, 'h, 'l, 'f) st" where
  "zstoreTask P iter db dest acc i g =
     (if acc = [] then Delete P i g db dest
      else (False, snd (storeColl P i g db dest (VZSet (zsetFrom (PS P) iter acc)))))"

definition zStoreCmd :: "string \<Rightarrow> bool \<Rightarrow> nat list \<Rightarrow> iteration \<Rightarrow> ('q, 'z, 't, 'h, 'l, 'f) packages \<Rightarrow> nat \<Rightarrow> string list \<Rightarrow> ('q, 'z, 't, 'h, 'l, 'f) st \<Rightarrow> rv \<times> ('q, 'z, 't, 'h, 'l, 'f) st" where
  "zStoreCmd cmd' intersects ord iter P db args g =
     (case parseIntStrict (args ! 2) of
        None \<Rightarrow> (errNotInt, g)
      | Some numkeys \<Rightarrow>
          if numkeys < 1 then (errArity cmd', g)
          else if int (length args) - 3 < numkeys then (errSyntax, g)
          else
            let n = nat numkeys; keys = take n (drop 3 args)
            in case zstoreFlags n (drop (3 + n) args) (None, aggrSum) of
                 Inl e \<Rightarrow> (e, g)
               | Inr (weights, ag) \<Rightarrow>
                   (case snapshotZSets P ord iter db keys g of
                      (None, g1) \<Rightarrow> (errWrongType, g1)
                    | (Some snaps, g1) \<Rightarrow>
                        let acc = zAggregate snaps intersects weights ag; dest = args ! 1;
                            (deleted, g2) = doKey P dest (zstoreTask P (iter n) db dest acc) g1
                        in (RInt (int (length acc)),
                            if acc \<noteq> [] then notify db dest cmd' g2 else if deleted then notify db dest ''del'' g2 else g2)))"

definition cmdZInterStore :: "nat list \<Rightarrow> iteration \<Rightarrow> ('q, 'z, 't, 'h, 'l, 'f) packages \<Rightarrow> nat \<Rightarrow> string list \<Rightarrow> ('q, 'z, 't, 'h, 'l, 'f) st \<Rightarrow> rv \<times> ('q, 'z, 't, 'h, 'l, 'f) st" where "cmdZInterStore = zStoreCmd ''zinterstore'' True"
definition cmdZUnionStore :: "nat list \<Rightarrow> iteration \<Rightarrow> ('q, 'z, 't, 'h, 'l, 'f) packages \<Rightarrow> nat \<Rightarrow> string list \<Rightarrow> ('q, 'z, 't, 'h, 'l, 'f) st \<Rightarrow> rv \<times> ('q, 'z, 't, 'h, 'l, 'f) st" where "cmdZUnionStore = zStoreCmd ''zunionstore'' False"

section \<open>ZSCAN\<close>

definition zscanItems :: "zelem list \<Rightarrow> nat \<Rightarrow> string option \<times> int \<Rightarrow> rv" where
  "zscanItems items cursor opts =
     (let (kept, next') = scanWindow items cursor (snd opts) (\<lambda>el. matchOpt (fst opts) (Member el))
      in scanReply next' (zElems True 2 kept))"

definition cmdZScan :: "('q, 'z, 't, 'h, 'l, 'f) packages \<Rightarrow> nat \<Rightarrow> string list \<Rightarrow> ('q, 'z, 't, 'h, 'l, 'f) st \<Rightarrow> rv \<times> ('q, 'z, 't, 'h, 'l, 'f) st" where
  "cmdZScan P db args g =
     (case parseCursor (args ! 2) of
        None \<Rightarrow> (errCursor, g)
      | Some cursor \<Rightarrow>
          (case scanOpts args 3 of
             Inl e \<Rightarrow> (e, g)
           | Inr opts \<Rightarrow> zread P db (args ! 1) (zscanItems [] cursor opts) (\<lambda>z. zscanItems (zsetElems (PS P) z) cursor opts) g))"

section \<open>Increments of floating-point values\<close>

definition incrFloatTask :: "('q, 'z, 't, 'h, 'l, 'f) packages \<Rightarrow> nat \<Rightarrow> string \<Rightarrow> float64 \<Rightarrow> nat \<Rightarrow> ('q, 'z, 't, 'h, 'l, 'f) st \<Rightarrow> (rv \<times> bool) \<times> ('q, 'z, 't, 'h, 'l, 'f) st" where
  "incrFloatTask P db key delta i g =
     (let (r, g1) = Lookup P i g db key;
          cur = (case r of
                   None \<Rightarrow> Inr 0
                 | Some a \<Rightarrow>
                     if typeOf (Val (ents g1 a)) \<noteq> TypeString then Inl errWrongType
                     else case parseFloat (strOf (Val (ents g1 a))) of None \<Rightarrow> Inl errBadFloat | Some v \<Rightarrow> Inr v)
      in case cur of
           Inl e \<Rightarrow> ((e, False), g1)
         | Inr c \<Rightarrow>
             let s = fadd c delta
             in if is_nan s \<or> is_inf s then ((errNaNInf, False), g1)
                else
                  let out = formatHumanFloat s
                  in ((RBlob out, True),
                      case r of
                        Some a \<Rightarrow> Touch P i (setVal a (VString out) g1) db key a
                      | None \<Rightarrow> snd (storeColl P i g1 db key (VString out))))"

definition cmdIncrByFloat :: "('q, 'z, 't, 'h, 'l, 'f) packages \<Rightarrow> nat \<Rightarrow> string list \<Rightarrow> ('q, 'z, 't, 'h, 'l, 'f) st \<Rightarrow> rv \<times> ('q, 'z, 't, 'h, 'l, 'f) st" where
  "cmdIncrByFloat P db args g =
     (case parseFloat (args ! 2) of
        None \<Rightarrow> (errBadFloat, g)
      | Some delta \<Rightarrow>
          let key = args ! 1; ((reply, done'), g1) = doKey P key (incrFloatTask P db key delta) g
          in (reply, if done' then notify db key ''incrbyfloat'' g1 else g1))"

definition hincrFloatTask :: "('q, 'z, 't, 'h, 'l, 'f) packages \<Rightarrow> nat \<Rightarrow> string \<Rightarrow> string \<Rightarrow> float64 \<Rightarrow> nat \<Rightarrow> (addr option \<times> bool) \<times> ('q, 'z, 't, 'h, 'l, 'f) st \<Rightarrow> (rv \<times> bool) \<times> ('q, 'z, 't, 'h, 'l, 'f) st" where
  "hincrFloatTask P db key field delta i look =
     (let ((ent, wt), g1) = look
      in if wt then ((errWrongType, False), g1)
         else
           let h = (case ent of None \<Rightarrow> NewHash | Some a \<Rightarrow> hashOf (Val (ents g1 a)));
               cur = (case ent of
                        None \<Rightarrow> Some 0
                      | Some a \<Rightarrow> (case HashGet h field of None \<Rightarrow> Some 0 | Some s \<Rightarrow> parseFloat s))
           in case cur of
                None \<Rightarrow> ((RErr ''ERR hash value is not a float'', False), g1)
              | Some c \<Rightarrow>
                  let s = fadd c delta
                  in if is_nan s \<or> is_inf s then ((errNaNInf, False), g1)
                     else
                       let out = formatHumanFloat s; h1 = snd (HashSet h field out)
                       in ((RBlob out, True),
                           case ent of
                             None \<Rightarrow> snd (storeColl P i g1 db key (VHash h1))
                           | Some a \<Rightarrow> Touch P i (setVal a (VHash h1) g1) db key a))"

definition cmdHIncrByFloat :: "('q, 'z, 't, 'h, 'l, 'f) packages \<Rightarrow> nat \<Rightarrow> string list \<Rightarrow> ('q, 'z, 't, 'h, 'l, 'f) st \<Rightarrow> rv \<times> ('q, 'z, 't, 'h, 'l, 'f) st" where
  "cmdHIncrByFloat P db args g =
     (case parseFloat (args ! 3) of
        None \<Rightarrow> (errBadFloat, g)
      | Some delta \<Rightarrow>
          if is_nan delta \<or> is_inf delta then (RErr ''ERR value is NaN or Infinity'', g)
          else
            let key = args ! 1; field = args ! 2;
                ((reply, done'), g1) = doKey P key (\<lambda>i g. hincrFloatTask P db key field delta i (getColl P i g db key TypeHash)) g
            in (reply, if done' then notify db key ''hincrbyfloat'' g1 else g1))"

end
