(* ===== verification/Dispatch.thy ===== *)
theory Dispatch
  imports Conn Aof_Replay Cmd_ZSet
begin

text \<open>
  Dispatch (\<^verbatim>\<open>Engine.Execute\<close> of \<^verbatim>\<open>src/lib/commands/engine.go\<close> and the handlers of \<^verbatim>\<open>table.go\<close>): the
  gates a command passes before its handler runs (unknown command, authentication, arity,
  subscribe mode, a busy script, memory, queueing inside MULTI), and what is recorded afterwards.
\<close>

section \<open>Handlers\<close>

definition onKeys :: "('q, 'z, 't, 'h, 'l, 'f) env \<Rightarrow>
    (('q, 'z, 't, 'h, 'l, 'f) packages \<Rightarrow> nat \<Rightarrow> string list \<Rightarrow> ('q, 'z, 't, 'h, 'l, 'f) st \<Rightarrow> rv \<times> ('q, 'z, 't, 'h, 'l, 'f) st) \<Rightarrow>
    ('q, 'z, 't, 'h, 'l, 'f) handler" where
  "onKeys E h cs args w = (let (r, g) = h (pk E) (cDB cs) args (Shards w) in (r, cs, w\<lparr>Shards := g\<rparr>))"

definition onBroker :: "(psconn \<Rightarrow> string list \<Rightarrow> broker \<Rightarrow> rv \<times> psconn \<times> broker) \<Rightarrow> ('q, 'z, 't, 'h, 'l, 'f) handler" where
  "onBroker h cs args w = (let (r, ps, b) = h (Ps cs) args (PubSub w) in (r, cs\<lparr>Ps := ps\<rparr>, w\<lparr>PubSub := b\<rparr>))"

definition doPublish :: "('q, 'z, 't, 'h, 'l, 'f) env \<Rightarrow> ('q, 'z, 't, 'h, 'l, 'f) handler" where
  "doPublish E cs args w =
     (let (r, ps, out) = cmdPublish (subOrd E) (Ps cs) args (PubSub w) in (r, cs\<lparr>Ps := ps\<rparr>, w\<lparr>sent := sent w @ out\<rparr>))"

definition connHandlers :: "('q, 'z, 't, 'h, 'l, 'f) env \<Rightarrow> (string \<times> ('q, 'z, 't, 'h, 'l, 'f) handler) list" where
  "connHandlers E =
     [(''ping'', cmdPing), (''echo'', cmdEcho), (''hello'', cmdHello), (''auth'', cmdAuth), (''select'', cmdSelect),
      (''quit'', cmdQuit), (''reset'', cmdReset), (''multi'', cmdMulti), (''discard'', cmdDiscard), (''unwatch'', cmdUnwatch),
      (''watch'', cmdWatch E), (''dbsize'', cmdDBSize E), (''flushdb'', cmdFlushDB E), (''flushall'', cmdFlushAll E),
      (''client'', cmdClient), (''command'', cmdCommand), (''monitor'', cmdMonitor),
      (''subscribe'', onBroker cmdSubscribe), (''psubscribe'', onBroker cmdPSubscribe),
      (''unsubscribe'', onBroker cmdUnsubscribe), (''punsubscribe'', onBroker cmdPUnsubscribe),
      (''publish'', doPublish E), (''pubsub'', \<lambda>cs args w. (cmdPubSub args (PubSub w), cs, w))]"

text \<open>Commands whose handler works on keys only: one key, or several through \<^verbatim>\<open>doMulti\<close>.\<close>

definition keyCmds :: "(string \<times> (('q, 'z, 't, 'h, 'l, 'f) packages \<Rightarrow> nat \<Rightarrow> string list \<Rightarrow> ('q, 'z, 't, 'h, 'l, 'f) st \<Rightarrow> rv \<times> ('q, 'z, 't, 'h, 'l, 'f) st)) list" where
  "keyCmds =
     [(''set'', cmdSet), (''get'', cmdGet), (''getset'', cmdGetSet), (''getdel'', cmdGetDel), (''getex'', cmdGetEx),
      (''incr'', cmdIncr), (''decr'', cmdDecr), (''incrby'', cmdIncrBy), (''decrby'', cmdDecrBy), (''incrbyfloat'', cmdIncrByFloat), (''append'', cmdAppend),
      (''strlen'', cmdStrLen),
      (''expire'', cmdExpire), (''pexpire'', cmdPExpire), (''expireat'', cmdExpireAt), (''pexpireat'', cmdPExpireAt),
      (''ttl'', cmdTTL), (''pttl'', cmdPTTL), (''persist'', cmdPersist), (''type'', cmdType),
      (''hset'', cmdHSet), (''hget'', cmdHGet), (''hmset'', cmdHMSet), (''hmget'', cmdHMGet), (''hgetall'', cmdHGetAll),
      (''hdel'', cmdHDel), (''hexists'', cmdHExists), (''hlen'', cmdHLen), (''hkeys'', cmdHKeys), (''hvals'', cmdHVals),
      (''hincrby'', cmdHIncrBy), (''hincrbyfloat'', cmdHIncrByFloat), (''hsetnx'', cmdHSetNX), (''hstrlen'', cmdHStrLen), (''hscan'', cmdHScan),
      (''lpush'', cmdLPush), (''rpush'', cmdRPush), (''lpushx'', cmdLPushX), (''rpushx'', cmdRPushX), (''lpop'', cmdLPop),
      (''rpop'', cmdRPop), (''llen'', cmdLLen), (''lrange'', cmdLRange), (''lindex'', cmdLIndex), (''lset'', cmdLSet),
      (''linsert'', cmdLInsert), (''lrem'', cmdLRem), (''ltrim'', cmdLTrim), (''lpos'', cmdLPos),
      (''sadd'', cmdSAdd), (''srem'', cmdSRem), (''sismember'', cmdSIsMember), (''smismember'', cmdSMIsMember), (''scard'', cmdSCard)]"

definition cardKeys :: "string list \<Rightarrow> string list" where
  "cardKeys args = (case parseIntStrict (args ! 1) of Some n \<Rightarrow> take (nat n) (drop 2 args) | None \<Rightarrow> [])"

definition multiCmds :: "('q, 'z, 't, 'h, 'l, 'f) env \<Rightarrow>
    (string \<times> (('q, 'z, 't, 'h, 'l, 'f) packages \<Rightarrow> nat \<Rightarrow> string list \<Rightarrow> ('q, 'z, 't, 'h, 'l, 'f) st \<Rightarrow> rv \<times> ('q, 'z, 't, 'h, 'l, 'f) st)) list" where
  "multiCmds E =
     [(''mget'', \<lambda>P db args. cmdMGet P (shardOrd E (tl args)) db args),
      (''mset'', \<lambda>P db args. cmdMSet P (shardOrd E (pairKeys (tl args))) db args),
      (''msetnx'', \<lambda>P db args. cmdMSetNX P (shardOrd E (pairKeys (tl args))) (shardOrd2 E (pairKeys (tl args))) db args),
      (''del'', \<lambda>P db args. cmdDel P (shardOrd E (tl args)) db args),
      (''exists'', \<lambda>P db args. cmdExists P (shardOrd E (tl args)) db args),
      (''rpoplpush'', \<lambda>P db args. cmdRPopLPush P (shardOrd E [args ! 1, args ! 2]) db args),
      (''lmove'', \<lambda>P db args. cmdLMove P (shardOrd E [args ! 1, args ! 2]) db args),
      (''smembers'', \<lambda>P db args. cmdSMembers P (setOrd E) db args),
      (''spop'', \<lambda>P db args. cmdSPop P (setOrd E) (rndIdx E) (rndPerm E) db args),
      (''smove'', \<lambda>P db args. cmdSMove P (shardOrd E [args ! 1, args ! 2]) (shardOrd2 E [args ! 1, args ! 2]) db args),
      (''sinter'', \<lambda>P db args. cmdSInter P (shardOrd E (tl args)) (setOrd E) db args),
      (''sunion'', \<lambda>P db args. cmdSUnion P (shardOrd E (tl args)) (setOrd E) db args),
      (''sdiff'', \<lambda>P db args. cmdSDiff P (shardOrd E (tl args)) (setOrd E) db args),
      (''sinterstore'', \<lambda>P db args. cmdSInterStore P (shardOrd E (drop 2 args)) (setOrd E) db args),
      (''sunionstore'', \<lambda>P db args. cmdSUnionStore P (shardOrd E (drop 2 args)) (setOrd E) db args),
      (''sdiffstore'', \<lambda>P db args. cmdSDiffStore P (shardOrd E (drop 2 args)) (setOrd E) db args),
      (''sintercard'', \<lambda>P db args. cmdSInterCard P (shardOrd E (cardKeys args)) (setOrd E) db args),
      (''sscan'', \<lambda>P db args. cmdSScan P (setOrd E) db args),
      (''keys'', \<lambda>P db args g. (cmdKeys (walkers E) db args g, g)),
      (''scan'', \<lambda>P db args g. (cmdScan (walkers E) db args g, g))]"

text \<open>The sorted set commands; some replies depend on the protocol \<open>p\<close> of the connection.\<close>

definition storeKeys :: "string list \<Rightarrow> string list" where
  "storeKeys args = (case parseIntStrict (args ! 2) of Some n \<Rightarrow> take (nat n) (drop 3 args) | None \<Rightarrow> [])"

definition zsetCmds :: "('q, 'z, 't, 'h, 'l, 'f) env \<Rightarrow>
    (string \<times> (nat \<Rightarrow> ('q, 'z, 't, 'h, 'l, 'f) packages \<Rightarrow> nat \<Rightarrow> string list \<Rightarrow> ('q, 'z, 't, 'h, 'l, 'f) st \<Rightarrow> rv \<times> ('q, 'z, 't, 'h, 'l, 'f) st)) list" where
  "zsetCmds E =
     [(''zadd'', \<lambda>p. cmdZAdd), (''zscore'', \<lambda>p. cmdZScore), (''zmscore'', \<lambda>p. cmdZMScore), (''zincrby'', \<lambda>p. cmdZIncrBy),
      (''zrank'', \<lambda>p. cmdZRank), (''zrevrank'', \<lambda>p. cmdZRevRank), (''zcard'', \<lambda>p. cmdZCard), (''zcount'', \<lambda>p. cmdZCount),
      (''zlexcount'', \<lambda>p. cmdZLexCount), (''zrem'', \<lambda>p. cmdZRem), (''zremrangebyrank'', \<lambda>p. cmdZRemRangeByRank),
      (''zremrangebyscore'', \<lambda>p. cmdZRemRangeByScore), (''zremrangebylex'', \<lambda>p. cmdZRemRangeByLex), (''zscan'', \<lambda>p. cmdZScan),
      (''zrange'', \<lambda>p P. cmdZRange P p), (''zrangebyscore'', \<lambda>p P. cmdZRangeByScore P p), (''zrevrangebyscore'', \<lambda>p P. cmdZRevRangeByScore P p),
      (''zrangebylex'', \<lambda>p P. cmdZRangeByLex P p), (''zrevrange'', \<lambda>p P. cmdZRevRange P p),
      (''zpopmin'', \<lambda>p P. cmdZPopMin P p), (''zpopmax'', \<lambda>p P. cmdZPopMax P p),
      (''zrandmember'', \<lambda>p P. cmdZRandMember (rndSeq E) (rndPerm E) P p),
      (''zdiff'', \<lambda>p P db args. cmdZDiff (shardOrd E (cardKeys args)) (setOrd E) P p db args),
      (''zinter'', \<lambda>p P db args. cmdZInter (shardOrd E (cardKeys args)) (setOrd E) P p db args),
      (''zunion'', \<lambda>p P db args. cmdZUnion (shardOrd E (cardKeys args)) (setOrd E) P p db args),
      (''zinterstore'', \<lambda>p P db args. cmdZInterStore (shardOrd E (storeKeys args)) (setOrd E) P db args),
      (''zunionstore'', \<lambda>p P db args. cmdZUnionStore (shardOrd E (storeKeys args)) (setOrd E) P db args)]"

text \<open>The handler of a command other than EXEC; a command that is not modelled has the handler \<open>ext E\<close>.\<close>

definition handler1 :: "('q, 'z, 't, 'h, 'l, 'f) env \<Rightarrow> string \<Rightarrow> ('q, 'z, 't, 'h, 'l, 'f) handler" where
  "handler1 E name =
     (case map_of (connHandlers E) name of
        Some h \<Rightarrow> h
      | None \<Rightarrow>
          (case map_of (keyCmds @ multiCmds E) name of
             Some h \<Rightarrow> onKeys E h
           | None \<Rightarrow>
               (case map_of (zsetCmds E) name of
                  Some h \<Rightarrow> (\<lambda>cs. onKeys E (h (nat (Proto cs))) cs)
                | None \<Rightarrow> ext E name)))"

definition handler :: "('q, 'z, 't, 'h, 'l, 'f) env \<Rightarrow> string \<Rightarrow> ('q, 'z, 't, 'h, 'l, 'f) handler" where
  "handler E name = (if name = ''exec'' then cmdExec E (handler1 E) else handler1 E name)"

section \<open>Gates\<close>

definition errUnknownCommand :: "string \<Rightarrow> string list \<Rightarrow> rv" where
  "errUnknownCommand name args =
     RErr (''ERR unknown command '' @ quoted (take 128 name) @ '', with args beginning with: '' @
       concat (map (\<lambda>a. quoted (take 128 a) @ '' '') (take 19 args)))"

definition errOOMText :: string where
  "errOOMText = ''OOM command not allowed when used memory > '' @ quoted ''maxmemory'' @ ''.''"

definition errOOM :: rv where "errOOM = RErr errOOMText"
definition errNoAuth :: rv where "errNoAuth = RErr ''NOAUTH Authentication required.''"
definition errBusy :: rv where
  "errBusy = RErr ''BUSY Redis is busy running a script. You can only call SCRIPT KILL or SHUTDOWN NOSAVE.''"

definition containerSubs :: "(string \<times> string list) list" where
  "containerSubs =
     [(''config'', [''get'', ''set'']), (''client'', [''setname'', ''getname'', ''id'', ''setinfo'']), (''command'', [''count'', ''info'']),
      (''pubsub'', [''channels'', ''numsub'', ''numpat'']), (''script'', [''load'', ''exists'', ''flush'', ''kill'', ''debug'', ''help''])]"

definition gatedFullname :: "string \<Rightarrow> string list \<Rightarrow> string" where
  "gatedFullname name args =
     (case map_of containerSubs name of
        None \<Rightarrow> name
      | Some subs \<Rightarrow>
          if length args < 2 then name
          else let sub = lowerASCII (args ! 1) in if sub \<in> set subs then name @ ''|'' @ sub else [])"

definition queueHasDenyOOM :: "conn \<Rightarrow> bool" where
  "queueHasDenyOOM cs \<longleftrightarrow>
     (\<exists>q \<in> set (Queue cs). q \<noteq> [] \<and> (case table (lowerASCII (q ! 0)) of Some d \<Rightarrow> hasFlag d ''denyoom'' | None \<Rightarrow> False))"

definition txControl :: "string list" where
  "txControl = [''exec'', ''discard'', ''multi'', ''watch'', ''quit'', ''reset'']"

definition queueable :: "conn \<Rightarrow> string \<Rightarrow> bool" where
  "queueable cs name \<longleftrightarrow> Multi cs \<and> name \<notin> set txControl"

text \<open>The gates up to the memory check, which change nothing but \<^verbatim>\<open>QueueErr\<close>: the error that rejects the command, if any.\<close>

definition subGate :: "conn \<Rightarrow> string \<Rightarrow> string list \<Rightarrow> rv option" where
  "subGate cs name args =
     (if Proto cs = 2 \<and> 0 < subCount (Ps cs) \<and>
         name \<notin> {''subscribe'', ''unsubscribe'', ''psubscribe'', ''punsubscribe'', ''ping'', ''quit'', ''reset''}
      then let fn = gatedFullname name args;
               msg = ''Can'' @ quote @ ''t execute '' @ quoted fn @ '': only (P|S)SUBSCRIBE / (P|S)UNSUBSCRIBE / PING / QUIT / RESET are allowed in this context''
           in if fn = [] then None
              else if name = ''exec'' then Some (RErr (''EXECABORT Transaction discarded because of: '' @ msg))
              else Some (RErr (''ERR '' @ msg))
      else None)"

definition busyGate :: "('q, 'z, 't, 'h, 'l, 'f) world \<Rightarrow> string \<Rightarrow> string list \<Rightarrow> rv option" where
  "busyGate w name args =
     (case scripts w of
        Some m \<Rightarrow>
          if busyTimeout m \<and>
             \<not> (name = ''script'' \<and> 1 < length args \<and> lowerASCII (args ! 1) = ''kill'' \<or>
                name \<in> {''multi'', ''discard'', ''watch'', ''unwatch'', ''auth'', ''hello'', ''quit'', ''reset''})
          then Some errBusy else None
      | None \<Rightarrow> None)"

definition authGate :: "conn \<Rightarrow> ('q, 'z, 't, 'h, 'l, 'f) world \<Rightarrow> string \<Rightarrow> rv option" where
  "authGate cs w name =
     (if requirePass w \<noteq> [] \<and> \<not> Authed cs \<and> name \<notin> {''auth'', ''hello'', ''quit'', ''reset''} then Some errNoAuth else None)"

text \<open>The memory gate: whether memory is short after an attempt to evict, and the engine after it.\<close>

definition memGate :: "('q, 'z, 't, 'h, 'l, 'f) env \<Rightarrow> ('q, 'z, 't, 'h, 'l, 'f) world \<Rightarrow> bool \<times> ('q, 'z, 't, 'h, 'l, 'f) world" where
  "memGate E w =
     (if OverMemory (Shards w)
      then (if policy (Shards w) \<noteq> PolicyNoEviction
            then let (over, g) = EvictNow (pk E) (Shards w) in (over, drain E (w\<lparr>Shards := g\<rparr>))
            else (True, w))
      else (False, w))"

definition notifyMonitors :: "('q, 'z, 't, 'h, 'l, 'f) env \<Rightarrow> conn \<Rightarrow> string list \<Rightarrow> ('q, 'z, 't, 'h, 'l, 'f) world \<Rightarrow> ('q, 'z, 't, 'h, 'l, 'f) world" where
  "notifyMonitors E cs args w =
     (let ev = \<lparr>ev_unix = unixNow E, ev_micros = microsNow E, ev_db = cDB cs, ev_addr = cAddr cs, ev_id = c_id (Ps cs), ev_args = monitorArgs args\<rparr>
      in w\<lparr>sent := sent w @ map (\<lambda>m. (m, RSimple (formatMonitorEvent ev))) (filter (\<lambda>m. m \<noteq> c_id (Ps cs)) (monitors w))\<rparr>)"

section \<open>Execute\<close>

text \<open>The end of \<^verbatim>\<open>Execute\<close>: run the handler, then slow log, persistence, monitors and client list.\<close>

definition runHandler :: "('q, 'z, 't, 'h, 'l, 'f) env \<Rightarrow> CmdDef \<Rightarrow> string \<Rightarrow> ('q, 'z, 't, 'h, 'l, 'f) handler" where
  "runHandler E d name cs args w =
     (let (v, cs1, w1) = handler E name cs args w;
          w2 = drain E w1;
          (lat, ring) = noteDuration (slowlogSlowerThan w2) (slowlogMaxLen w2) (cAddr cs1) (cName cs1) name args (unixNow E) (durUs E) (latency w2, slowlog w2);
          w3 = capture E cs1 d name args v (w2\<lparr>latency := lat, slowlog := ring\<rparr>)
      in (v, noteCommand name cs1, notifyMonitors E cs1 args w3))"

definition Execute :: "('q, 'z, 't, 'h, 'l, 'f) env \<Rightarrow> ('q, 'z, 't, 'h, 'l, 'f) handler" where
  "Execute E cs args w0 =
     (if args = [] then (errUnknownCommand [] [], cs, w0)
      else
        let w = w0\<lparr>totalCmds := wrap64 (totalCmds w0 + 1)\<rparr>;
            name = lowerASCII (args ! 0);
            queueable = queueable cs name;
            dirtied = (if queueable then cs\<lparr>QueueErr := True\<rparr> else cs)
        in case table name of
             None \<Rightarrow> (errUnknownCommand (args ! 0) (tl args), dirtied, w)
           | Some d \<Rightarrow>
               (case authGate cs w name of
                  Some err \<Rightarrow> (err, cs, w)
                | None \<Rightarrow>
                    if \<not> arity_ok d args then (errArity (cd_name d), dirtied, w)
                    else
                      case subGate cs name args of
                        Some err \<Rightarrow> (err, cs, w)
                      | None \<Rightarrow>
                          (case busyGate w name args of
                             Some err \<Rightarrow> (err, cs, w)
                           | None \<Rightarrow>
                               let (outOfMem, w1) = memGate E w
                               in if outOfMem \<and> name = ''exec'' \<and> queueHasDenyOOM cs
                                  then (RErr (''EXECABORT Transaction discarded because of: '' @ errOOMText), clearTx cs, w1)
                                  else if outOfMem \<and> queueable then (errOOM, dirtied, w1)
                                  else if outOfMem \<and> hasFlag d ''denyoom'' then (errOOM, cs, w1)
                                  else if queueable then (replyQueued, cs\<lparr>Queue := Queue cs @ [args]\<rparr>, w1)
                                  else runHandler E d name cs args w1)))"

end
