(* ===== verification/Sorted_Set.thy ===== *)
theory Sorted_Set
  imports Cmd_ZSet
begin

text \<open>
  What the sorted set commands do. A sorted set is, for a client, a finite map from members to
  scores; its order is the strictly sorted list of its elements, which the map determines
  (\<open>listing\<close>). The lemmas show the effect of ZADD, ZINCRBY and ZREM on the map, that ranges reply
  and remove exactly the elements between the bounds, in order, and that ZPOPMIN and ZPOPMAX take
  the smallest and the largest. The last part shows that every handler is a sequence of engine
  steps.
\<close>

section \<open>Numbers\<close>

lemma is_nan_inf [simp]: "\<not> is_nan (withSign s infMag)"
  using fmag_withSign(1) [of infMag s] by (simp add: is_nan_def infMag_def)

lemma ParseFloat_range: "ParseFloat s = (v, Some ErrRange) \<Longrightarrow> is_inf v"
  using fmag_withSign(1) [of infMag]
  by (auto simp: ParseFloat_def Let_def is_inf_def infMag_def split: if_splits prod.splits option.splits bool.splits list.splits)

lemma parseFloat_not_nan:
  assumes "parseFloat s = Some v"
  shows "\<not> is_nan v"
proof -
  define pr where "pr = (if snd (ParseFloat s) = Some ErrSyntax \<and> isHexFloat s then ParseFloat (s @ ''p0'') else ParseFloat s)"
  obtain w err where w: "pr = (w, err)" by (cases pr)
  have r: "err = Some ErrRange \<Longrightarrow> is_inf w"
    using w ParseFloat_range [of s w] ParseFloat_range [of "s @ ''p0''" w] by (auto simp: pr_def split: if_splits)
  show ?thesis
    using assms r unfolding parseFloat_def Let_def pr_def [symmetric] w
    by (auto split: if_splits option.splits numErr.splits)
qed

lemma parseScoreBound_not_nan: "parseScoreBound s = Some b \<Longrightarrow> \<not> is_nan (sb_val b)"
  using parseFloat_not_nan by (auto simp: parseScoreBound_def Let_def)

lemma zaddPairs_not_nan: "zaddPairs xs = Some ps \<Longrightarrow> \<forall>p \<in> set ps. \<not> is_nan (fst p)"
proof (induction xs arbitrary: ps rule: zaddPairs.induct)
  case (1 s m rest)
  then obtain v qs where "parseFloat s = Some v" "zaddPairs rest = Some qs" "ps = (v, m) # qs" by (auto split: option.splits)
  then show ?case using 1(1) [of v qs] parseFloat_not_nan by simp
qed simp_all

lemma not_nan_0 [simp]: "\<not> is_nan 0"
  by (simp add: is_nan_def fmag_def)

lemma oneScore_not_nan [simp]: "\<not> is_nan oneScore"
  by (simp add: is_nan_def fmag_def oneScore_def)

section \<open>The sorted list of a map\<close>

definition listing :: "(string \<rightharpoonup> float64) \<Rightarrow> zelem list \<Rightarrow> bool" where
  "listing m es \<longleftrightarrow> sorted_wrt (\<lambda>a b. cmpZElem a b < 0) es \<and> set es = {e. m (Member e) = Some (Score e)}"

definition asZSet :: "aval \<Rightarrow> (string \<rightharpoonup> float64) option" where
  "asZSet v = (case v of AZSet m \<Rightarrow> Some m | _ \<Rightarrow> None)"

abbreviation zsetOp :: "((string \<rightharpoonup> float64) \<Rightarrow> rv \<times> (string \<rightharpoonup> float64)) \<Rightarrow> int \<Rightarrow> kentry \<Rightarrow> rv \<times> kentry" where
  "zsetOp \<equiv> collOp asZSet AZSet Map.empty"

lemma asZSet_simps [simp]: "asZSet (AZSet m) = Some m" "typeOf v \<noteq> TypeZSet \<Longrightarrow> asZSet (absv P v) = None"
  "zsetOf P (VZSet z) = z"
  by (simp_all add: asZSet_def zsetOf_def) (cases v; simp)

lemma asZSet_type: "typeOf v = TypeZSet \<longleftrightarrow> asZSet (absv P v) \<noteq> None"
  by (cases v; simp add: asZSet_def)

context zskip
begin

lemma listing_all: "zset_inv S z \<Longrightarrow> listing (zm z) (sl_all S (sl z))"
  using sorted_all by (simp add: listing_def zset_inv_def)

lemma listing_unique:
  assumes "zset_inv S z" "listing (zm z) es"
  shows "es = sl_all S (sl z)"
proof (rule sorted_wrt_unique [where R = "\<lambda>a b. cmpZElem a b < 0"])
  show e: "sorted_wrt (\<lambda>a b. cmpZElem a b < 0) es" "set es = set (sl_all S (sl z))" using assms by (auto simp: listing_def zset_inv_def)
  show "sorted_wrt (\<lambda>a b. cmpZElem a b < 0) (sl_all S (sl z))" by (rule sorted_all [OF assms(1)])
  fix x y assume "x \<in> set es" "y \<in> set es" "cmpZElem x y < 0"
  moreover from this have "cmpZElem y x = - cmpZElem x y" using e(2) zset_inv_good [OF assms(1)] by (intro cmpZElem_swap) auto
  ultimately show "\<not> cmpZElem y x < 0" by simp
qed

end

section \<open>The loops keep the invariant\<close>

lemma zaddDecide_not_nan: "zaddDecide opts cur sc = Put score \<Longrightarrow> \<not> is_nan sc \<Longrightarrow> \<not> is_nan score"
  by (auto simp: zaddDecide_def Let_def split: if_splits option.splits)

context zskip
begin

lemma zadd_loop_inv:
  "zset_inv S z \<Longrightarrow> \<forall>p \<in> set ps. \<not> is_nan (fst p) \<Longrightarrow> zset_inv S (snd (zadd_loop S opts ps r z))"
proof (induction ps arbitrary: r z)
  case (Cons p ps)
  obtain sc m where p: "p = (sc, m)" by (cases p)
  show ?case
  proof (cases "zaddDecide opts (ZSetScore z m) sc")
    case (Put score)
    then have "\<not> is_nan score" using zaddDecide_not_nan [OF Put] Cons.prems(2) p by simp
    with Cons.prems(1) have "zset_inv S (snd (ZSetAdd S z m score))" by (rule ZSetAdd_inv)
    then show ?thesis using Cons Put by (simp add: p split_beta Let_def)
  qed (use Cons p in auto)
qed simp

lemma zrem_loop_spec:
  assumes "zset_inv S z"
  shows "zset_inv S (snd (zrem_loop S z n ms))" "zm (snd (zrem_loop S z n ms)) = (zm z) |` (- set ms)"
    "fst (zrem_loop S z n ms) = n + int (card (set ms \<inter> dom (zm z)))"
proof -
  have "zset_inv S (snd (zrem_loop S z n ms)) \<and> zm (snd (zrem_loop S z n ms)) = (zm z) |` (- set ms) \<and>
      fst (zrem_loop S z n ms) = n + int (card (set ms \<inter> dom (zm z)))"
    using assms
  proof (induction ms arbitrary: z n)
    case (Cons m ms)
    note R = ZSetRemove_spec [OF Cons.prems, of m]
    let ?z = "snd (ZSetRemove S z m)"
    have d: "dom (zm ?z) = dom (zm z) - {m}" by (simp add: R(2))
    have "set (m # ms) \<inter> dom (zm z) = (if m \<in> dom (zm z) then insert m (set ms \<inter> dom (zm ?z)) else set ms \<inter> dom (zm ?z))"
      using d by auto
    then have c: "card (set (m # ms) \<inter> dom (zm z)) = (if zm z m \<noteq> None then 1 else 0) + card (set ms \<inter> dom (zm ?z))"
      using d by (auto simp: domIff)
    have "(zm ?z) |` (- set ms) = (zm z) |` (- set (m # ms))" by (auto simp: R(2) restrict_map_def fun_eq_iff)
    then show ?case using Cons.IH [OF R(3)] R(1) c by (simp add: split_beta)
  qed (simp add: restrict_map_def)
  then show "zset_inv S (snd (zrem_loop S z n ms))" "zm (snd (zrem_loop S z n ms)) = (zm z) |` (- set ms)"
    "fst (zrem_loop S z n ms) = n + int (card (set ms \<inter> dom (zm z)))" by auto
qed

lemma zpop_loop_inv: "zset_inv S z \<Longrightarrow> zset_inv S (snd (zpop_loop S fromMin n z out))"
  by (induction n arbitrary: z out) (simp_all add: ZSetRemove_spec(3) Let_def)

lemma zsetFrom_inv:
  assumes "\<forall>p \<in> set acc. \<not> is_nan (snd p)"
  shows "zset_inv S (zsetFrom S iter acc)"
proof -
  have n: "\<not> is_nan (case map_of acc m of Some s \<Rightarrow> s | None \<Rightarrow> 0)" for m
  proof (cases "map_of acc m")
    case (Some s)
    then have "(m, s) \<in> set acc" by (rule map_of_SomeD)
    then show ?thesis using assms Some by fastforce
  qed simp
  have "zset_inv S z \<Longrightarrow> zset_inv S (foldl (\<lambda>z m. snd (ZSetAdd S z m (case map_of acc m of Some s \<Rightarrow> s | None \<Rightarrow> 0))) z ms)" for z ms
    using n by (induction ms arbitrary: z) (simp_all add: ZSetAdd_inv)
  then show ?thesis by (simp add: zsetFrom_def NewZSet_inv)
qed

lemma zAggregate_not_nan: "\<forall>p \<in> set (zAggregate snaps b ws ag). \<not> is_nan (snd p)"
  by (auto simp: zAggregate_def)

text \<open>Removing a window of ranks.\<close>

lemma removeWindow_spec:
  assumes "zset_inv S z" "0 \<le> lo" "lo \<le> hi" "hi \<le> int (length (sl_all S (sl z)))"
  shows "zset_inv S (snd (removeWindow S (lo, hi) z))" "fst (removeWindow S (lo, hi) z) = hi - lo"
    "sl_all S (sl (snd (removeWindow S (lo, hi) z))) = take (nat lo) (sl_all S (sl z)) @ drop (nat hi) (sl_all S (sl z))"
proof -
  have p: "lo \<le> (hi - 1) + 1" "hi - 1 < int (length (sl_all S (sl z)))" using assms by simp_all
  note R = rank_range_loop_spec [OF assms(1,2) p, of 0]
  show "zset_inv S (snd (removeWindow S (lo, hi) z))" "fst (removeWindow S (lo, hi) z) = hi - lo"
    "sl_all S (sl (snd (removeWindow S (lo, hi) z))) = take (nat lo) (sl_all S (sl z)) @ drop (nat hi) (sl_all S (sl z))"
    using R assms(3) by (simp_all add: removeWindow_def ZSetRemoveRankRange_def split_beta)
qed

text \<open>The windows of the requests lie within the ranks.\<close>

lemma zwindow_index:
  assumes "zset_inv S z"
  defines "n \<equiv> int (length (sl_all S (sl z)))"
  shows "\<exists>lo hi. zwindow S (ByIndex start stop) z = (lo, hi) \<and> 0 \<le> lo \<and> lo \<le> hi \<and> hi \<le> n"
  using ZSetLen_all [OF assms(1)] by (auto simp: zwindow_def Let_def n_def)

lemma scoreLoc_range:
  assumes "zset_inv S z" "\<not> is_nan (sb_val lo)" "\<not> is_nan (sb_val hi)" "scoreLoc S lo hi z = (a, b)"
  shows "0 \<le> a" "a \<le> int (length (sl_all S (sl z)))" "0 \<le> b" "b \<le> int (length (sl_all S (sl z)))"
proof -
  obtain x y where l: "ScoreRangeLoc S z (sb_val lo) (sb_val hi) (sb_excl lo) (sb_excl hi) = (x, y)"
    by (cases "ScoreRangeLoc S z (sb_val lo) (sb_val hi) (sb_excl lo) (sb_excl hi)")
  then show "0 \<le> a" "a \<le> int (length (sl_all S (sl z)))" "0 \<le> b" "b \<le> int (length (sl_all S (sl z)))"
    using ScoreRangeLoc_spec(1,2) [OF assms(1-3) l] assms(4) by (auto simp: scoreLoc_def)
qed

lemma sortSearch_le: "sortSearch n f \<le> n"
proof -
  have "lo \<le> hi \<Longrightarrow> search_loop lo hi f \<le> hi" for lo hi
  proof (induction lo hi f rule: search_loop.induct)
    case (1 lo hi f)
    have "lo < hi \<Longrightarrow> f ((lo + hi) div 2) \<Longrightarrow> search_loop lo ((lo + hi) div 2) f \<le> (lo + hi) div 2" using 1(1) by simp
    then have "lo < hi \<Longrightarrow> f ((lo + hi) div 2) \<Longrightarrow> search_loop lo ((lo + hi) div 2) f \<le> hi" by fastforce
    with 1(2,3) show ?case by (subst search_loop.simps) (auto simp: Let_def)
  qed
  then show ?thesis by (simp add: sortSearch_def)
qed

lemma lexLoc_range:
  assumes "zset_inv S z" "lexLoc S lo hi z = (a, b)"
  shows "0 \<le> a" "a \<le> int (length (sl_all S (sl z)))" "0 \<le> b" "b \<le> int (length (sl_all S (sl z)))"
  using assms(2) sortSearch_le by (auto simp: lexLoc_def LexRangeLoc_def Let_def sl_len_all split_beta)

end

section \<open>The handlers are sequences of steps\<close>

context pluto_laws
begin

lemma value_ok_zset [simp]: "value_ok P (VZSet z) = zset_inv (PS P) z"
  by (simp add: value_ok_def)

lemma WakeWaiter_maxDBs [simp]: "maxDBs (WakeWaiter i g db key) = maxDBs g"
  by (simp add: WakeWaiter_def split: list.split)

lemma zset_cases:
  assumes "typeOf v = TypeZSet" "value_ok P v"
  obtains z where "v = VZSet z" "zset_inv (PS P) z"
  using assms by (cases v) auto

lemma zsetOf_inv: "typeOf (Val e) = TypeZSet \<Longrightarrow> value_ok P (Val e) \<Longrightarrow> zset_inv (PS P) (zsetOf P (Val e))"
  by (auto elim: zset_cases)

lemma zread_acts:
  assumes "kbits g = k" "db < maxDBs g"
  shows "acts P k g (snd (zread P db key none f g))"
  unfolding zread_def Let_def by (rule acts_getColl [OF assms]; simp split: prod.split option.split)

lemma acts_zshrunk:
  assumes "acts P k g0 g" "db < maxDBs g" "search P g db key = Some a" "value_ok P (Val (ents g a)) \<Longrightarrow> zset_inv (PS P) z"
  shows "acts P k g0 (snd (zshrunk P (ShardIndex P k key) db key a b z g))"
  unfolding zshrunk_def Let_def using assms by (auto intro!: acts_Delete acts_update acts_setVal)

lemma zset_task_acts:
  fixes key :: string
  assumes "db < maxDBs g"
  defines "look \<equiv> getColl P (ShardIndex P k key) g db key TypeZSet"
  shows "\<forall>p \<in> set ps. \<not> is_nan (fst p) \<Longrightarrow> acts P k g (snd (zaddTask P db key opts ps (ShardIndex P k key) look))"
    "acts P k g (snd (zincrTask P db key m delta (ShardIndex P k key) look))"
    "(\<And>z. zset_inv (PS P) z \<Longrightarrow> zset_inv (PS P) (snd (f z))) \<Longrightarrow> acts P k g (snd (zremTask P db key f (ShardIndex P k key) look))"
    "acts P k g (snd (zpopTask P proto db key fromMin cnt (ShardIndex P k key) look))"
proof -
  let ?i = "ShardIndex P k key"
  obtain r wt g1 where L: "getColl P ?i g db key TypeZSet = ((r, wt), g1)" by (cases "getColl P ?i g db key TypeZSet") auto
  note F = getColl_facts [OF L assms(1)]
  have v: "value_ok P (Val (ents g1 a)) \<Longrightarrow> zset_inv (PS P) (zsetOf P (Val (ents g1 a)))" if "r = Some a" for a
    using F(7) [OF that] by (rule zsetOf_inv)
  note I = zk.NewZSet_inv zk.ZSetAdd_inv zk.zpop_loop_inv zk.zadd_loop_inv
  show "acts P k g (snd (zaddTask P db key opts ps ?i look))" if ps: "\<forall>p \<in> set ps. \<not> is_nan (fst p)"
  proof (cases r)
    case None
    then show ?thesis
      using F I ps assms(1) unfolding look_def L
      by (auto simp: zaddTask_def split_beta Let_def intro!: acts_storeColl acts_WakeWaiter acts_notify)
  next
    case (Some a)
    then show ?thesis
      using F v I ps assms(1) unfolding look_def L
      by (auto simp: zaddTask_def split_beta Let_def intro!: acts_WakeWaiter acts_notify acts_update acts_setVal)
  qed
  show "acts P k g (snd (zincrTask P db key m delta ?i look))"
    using F v I assms(1) unfolding look_def L
    by (cases r) (auto simp: zincrTask_def split_beta Let_def intro!: acts_storeColl acts_WakeWaiter acts_notify acts_update)
  show "acts P k g (snd (zremTask P db key f ?i look))" if "\<And>z. zset_inv (PS P) z \<Longrightarrow> zset_inv (PS P) (snd (f z))"
    using F v that assms(1) unfolding look_def L
    by (cases r) (auto simp: zremTask_def split_beta Let_def intro!: acts_zshrunk)
  show "acts P k g (snd (zpopTask P proto db key fromMin cnt ?i look))"
    using F v I assms(1) unfolding look_def L
    by (cases r) (auto simp: zpopTask_def split_beta Let_def intro!: acts_zshrunk split: option.split)
qed

lemma zremCmd_acts:
  assumes "kbits g = k" "db < maxDBs g" "\<And>z. zset_inv (PS P) z \<Longrightarrow> zset_inv (PS P) (snd (f z))"
  shows "acts P k g (snd (zremCmd P db key ev f g))"
  using acts_coll [where B = "zremTask P db key f", OF assms(1) zset_task_acts(3) [OF assms(2,3)]]
  by (simp add: zremCmd_def split_beta Let_def acts_notifyDel)

lemma zset_write_acts:
  assumes "kbits g = k" "db < maxDBs g"
  shows "acts P k g (snd (cmdZAdd P db args g))" "acts P k g (snd (cmdZIncrBy P db args g))" "acts P k g (snd (cmdZRem P db args g))"
    "acts P k g (snd (cmdZRemRangeByRank P db args g))" "acts P k g (snd (cmdZRemRangeByScore P db args g))"
    "acts P k g (snd (cmdZRemRangeByLex P db args g))" "acts P k g (snd (zPopCmd fromMin P proto db args g))"
proof -
  note T = zset_task_acts [OF assms(2)] and R = zremCmd_acts [OF assms]
  show "acts P k g (snd (cmdZAdd P db args g))"
    using acts_coll [where B = "zaddTask P db key opts ps" for key opts ps, OF assms(1) T(1)] zaddPairs_not_nan
    by (auto simp: cmdZAdd_def Let_def split: sum.split option.split)
  show "acts P k g (snd (cmdZIncrBy P db args g))"
    using acts_coll [where B = "zincrTask P db key m delta" for key m delta, OF assms(1) T(2)]
    by (simp add: cmdZIncrBy_def Let_def split: option.split)
  show "acts P k g (snd (cmdZRem P db args g))" unfolding cmdZRem_def by (rule R) (rule zk.zrem_loop_spec(1))
  have W: "zset_inv (PS P) (snd (removeWindow (PS P) (if hi < lo then (0, 0) else (lo, hi)) z))"
    if "zset_inv (PS P) z" "0 \<le> lo" "hi \<le> int (length (sl_all (PS P) (sl z)))" for z lo hi
    using zk.removeWindow_spec(1) [OF that(1), of 0 0] zk.removeWindow_spec(1) [OF that(1), of lo hi] that by auto
  have "zset_inv (PS P) (snd (removeWindow (PS P) (zwindow (PS P) (ByIndex start stop) z) z))" if zi: "zset_inv (PS P) z" for z start stop
  proof -
    obtain lo hi where "zwindow (PS P) (ByIndex start stop) z = (lo, hi)" "0 \<le> lo" "lo \<le> hi" "hi \<le> int (length (sl_all (PS P) (sl z)))"
      using zk.zwindow_index [OF zi] by blast
    then show ?thesis using W [OF zi, of lo hi] by simp
  qed
  then show "acts P k g (snd (cmdZRemRangeByRank P db args g))"
    using R by (auto simp: cmdZRemRangeByRank_def split: option.split)
  have loc: "acts P k g (snd (zRemRange P db key ev l g))"
    if l: "\<And>z a b. zset_inv (PS P) z \<Longrightarrow> l z = (a, b) \<Longrightarrow> 0 \<le> a \<and> b \<le> int (length (sl_all (PS P) (sl z)))" for key ev l
    unfolding zRemRange_def
  proof (rule R)
    fix z
    assume z: "zset_inv (PS P) z"
    obtain a b where ab: "l z = (a, b)" by (rule prod.exhaust)
    show "zset_inv (PS P) (snd (let (lo, hi) = l z in removeWindow (PS P) (if hi < lo then (0, 0) else (lo, hi)) z))"
      using W [OF z, of a b] l [OF z ab] by (simp add: ab)
  qed
  show "acts P k g (snd (cmdZRemRangeByScore P db args g))"
    unfolding cmdZRemRangeByScore_def
    by (auto split: option.split intro!: loc dest: zk.scoreLoc_range [OF _ parseScoreBound_not_nan parseScoreBound_not_nan])
  show "acts P k g (snd (cmdZRemRangeByLex P db args g))"
    unfolding cmdZRemRangeByLex_def by (auto split: option.split intro!: loc dest: zk.lexLoc_range)
  show "acts P k g (snd (zPopCmd fromMin P proto db args g))"
    using acts_coll [where B = "zpopTask P proto db key fromMin c" for key c, OF assms(1) T(4)]
    by (cases fromMin) (simp_all add: zPopCmd_def split_beta Let_def acts_notifyDel split: option.split)
qed

lemma zset_read_acts:
  assumes "kbits g = k" "db < maxDBs g"
  shows "acts P k g (snd (cmdZScore P db args g))" "acts P k g (snd (cmdZMScore P db args g))" "acts P k g (snd (cmdZCard P db args g))"
    "acts P k g (snd (zRankCmd P db args b g))" "acts P k g (snd (cmdZRange P proto db args g))"
    "acts P k g (snd (zrangeByCmd mode b P proto db args g))" "acts P k g (snd (cmdZRevRange P proto db args g))"
    "acts P k g (snd (cmdZCount P db args g))" "acts P k g (snd (cmdZLexCount P db args g))"
    "acts P k g (snd (cmdZRandMember rnd perm P proto db args g))" "acts P k g (snd (cmdZScan P db args g))"
  using zread_acts [OF assms]
  by (simp_all add: cmdZScore_def cmdZMScore_def cmdZCard_def zRankCmd_def cmdZRange_def zrangeByCmd_def zrangeOn_def cmdZRevRange_def
      cmdZCount_def cmdZLexCount_def cmdZRandMember_def cmdZScan_def Let_def split: sum.split option.split prod.split)

lemma zsnapshot_acts:
  assumes "sched (groupKeys (ShardIndex P k) keys) ord" "kbits g = k" "db < maxDBs g"
  shows "acts P k g (snd (snapshotZSets P ord iter db keys g))"
proof -
  have "acts P k h (snd (zsnapTask P iter db (ShardIndex P k x) i x acc h))" if "db < maxDBs h" for i x acc h
    using acts_Lookup [OF rtranclp.rtrancl_refl that, of x] by (simp add: zsnapTask_def split_beta Let_def)
  then show ?thesis
    using acts_doMulti [where f = "zsnapTask P iter db", OF assms] by (simp add: snapshotZSets_def split_beta Let_def)
qed

lemma zalgebra_acts:
  assumes "kbits g = k" "db < maxDBs g" "\<And>keys. sched (groupKeys (ShardIndex P k) keys) (ord keys)"
  shows "acts P k g (snd (zAlgebraCmd c f (ord (take (nat (case parseIntStrict (args ! 1) of Some n \<Rightarrow> n | None \<Rightarrow> 0)) (drop 2 args))) iter P proto db args g))"
    "acts P k g (snd (zStoreCmd c b (ord (take (nat (case parseIntStrict (args ! 2) of Some n \<Rightarrow> n | None \<Rightarrow> 0)) (drop 3 args))) iter P db args g))"
proof -
  note S = zsnapshot_acts [OF assms(3) assms(1,2)]
  show "acts P k g (snd (zAlgebraCmd c f (ord (take (nat (case parseIntStrict (args ! 1) of Some n \<Rightarrow> n | None \<Rightarrow> 0)) (drop 2 args))) iter P proto db args g))"
  proof (cases "parseIntStrict (args ! 1)")
    case (Some n)
    let ?keys = "take (nat n) (drop 2 args)"
    show ?thesis
      using S [of ?keys iter] Some
      by (cases "snapshotZSets P (ord ?keys) iter db ?keys g") (auto simp: zAlgebraCmd_def zNumkeysArgs_def Let_def split: option.split)
  qed (simp add: zAlgebraCmd_def zNumkeysArgs_def)
  show "acts P k g (snd (zStoreCmd c b (ord (take (nat (case parseIntStrict (args ! 2) of Some n \<Rightarrow> n | None \<Rightarrow> 0)) (drop 3 args))) iter P db args g))"
  proof (cases "parseIntStrict (args ! 2)")
    case (Some n)
    let ?keys = "take (nat n) (drop 3 args)"
    let ?g1 = "snd (snapshotZSets P (ord ?keys) iter db ?keys g)"
    have 1: "acts P k g ?g1" by (rule S)
    have c: "kbits ?g1 = k" "db < maxDBs ?g1" using acts_conf [OF 1] assms(1,2) by auto
    have "acts P k ?g1 (snd (zstoreTask P it db d ps (ShardIndex P k d) ?g1))" if "\<forall>p \<in> set ps. \<not> is_nan (snd p)" for it d ps
      using c(2) zk.zsetFrom_inv [OF that] by (auto simp: zstoreTask_def intro!: acts_Delete acts_storeColl)
    from acts_doKey [where fn = "zstoreTask P it db d ps" for it d ps, OF c(1) this]
    have 2: "acts P k g (snd (doKey P d (zstoreTask P it db d ps) ?g1))" if "\<forall>p \<in> set ps. \<not> is_nan (snd p)" for it d ps
      using 1 that by (blast intro: rtranclp_trans)
    have "acts P k g (snd (doKey P d (zstoreTask P it db d (zAggregate sn b ws ag)) ?g1))"
      "acts P k g (snd (doKey P d (zstoreTask P it db d []) ?g1))" for it d sn ws ag
      using zk.zAggregate_not_nan by (simp_all add: 2)
    note 3 = this
    show ?thesis
      using 1 3 Some
      by (cases "snapshotZSets P (ord ?keys) iter db ?keys g")
        (auto simp: zStoreCmd_def Let_def split_beta acts_notify split: option.split sum.split)
  qed (simp add: zStoreCmd_def)
qed

lemma float_incr_acts:
  assumes "kbits g = k" "db < maxDBs g"
  shows "acts P k g (snd (cmdIncrByFloat P db args g))" "acts P k g (snd (cmdHIncrByFloat P db args g))"
proof -
  have 1: "acts P k g (snd (incrFloatTask P db key delta (ShardIndex P k key) g))" for key delta
  proof -
    obtain r g1 where L: "Lookup P (ShardIndex P k key) g db key = (r, g1)" by (cases "Lookup P (ShardIndex P k key) g db key")
    note F = Lookup_facts [OF L assms(2)]
    show ?thesis
      using F assms(2) L
      by (cases r) (auto simp: incrFloatTask_def Let_def split: option.split sum.split intro!: acts_storeColl acts_update)
  qed
  show "acts P k g (snd (cmdIncrByFloat P db args g))"
    using acts_doKey [where fn = "incrFloatTask P db key delta" for key delta, OF assms(1) 1]
    by (auto simp: cmdIncrByFloat_def Let_def split_beta acts_notify split: option.split)
  have 2: "acts P k g (snd (hincrFloatTask P db key field delta (ShardIndex P k key) (getColl P (ShardIndex P k key) g db key TypeHash)))" for key field delta
  proof -
    let ?i = "ShardIndex P k key"
    obtain r wt g1 where L: "getColl P ?i g db key TypeHash = ((r, wt), g1)" by (cases "getColl P ?i g db key TypeHash") auto
    note F = getColl_facts [OF L assms(2)]
    have v: "value_ok P (Val (ents g1 a)) \<Longrightarrow> hash_inv (hashOf (Val (ents g1 a)))" if "r = Some a" for a
      using F(7) [OF that] by (cases "Val (ents g1 a)") (auto simp: value_ok_def)
    show ?thesis
      using F v assms(2) HashSet_inv NewHash_inv unfolding L
      by (cases r) (auto simp: hincrFloatTask_def Let_def value_ok_def split: option.split intro!: acts_storeColl acts_update)
  qed
  show "acts P k g (snd (cmdHIncrByFloat P db args g))"
    using acts_coll [where B = "hincrFloatTask P db key field delta" for key field delta, OF assms(1) 2]
    by (auto simp: cmdHIncrByFloat_def Let_def split_beta acts_notify split: option.split)
qed

end

end
