(* ===== verification/Dispatch_Acts.thy ===== *)
theory Dispatch_Acts
  imports Dispatch Sorted_Set
begin

text \<open>
  Every handler is a sequence of engine steps. The handlers of the key commands are collected in
  two tables (\<open>keyCmds\<close>, \<open>multiCmds\<close>), so one lemma per table covers them all.
\<close>

text \<open>Go visits every shard that has a key exactly once, in some order.\<close>

definition orders_ok :: "nat \<Rightarrow> ('q, 'z, 't, 'h, 'l, 'f) env \<Rightarrow> bool" where
  "orders_ok k E \<longleftrightarrow> (\<forall>keys. sched (groupKeys (ShardIndex (pk E) k) keys) (shardOrd E keys) \<and>
     sched (groupKeys (ShardIndex (pk E) k) keys) (shardOrd2 E keys))"

context pluto_laws
begin

lemma msetnx_acts:
  assumes o: "sched (groupKeys (ShardIndex P k) (pairKeys (tl args))) ord" "sched (groupKeys (ShardIndex P k) (pairKeys (tl args))) ord'"
    and k: "kbits g = k" "db < maxDBs g"
  shows "acts P k g (snd (cmdMSetNX P ord ord' db args g))"
proof -
  let ?keys = "pairKeys (tl args)"
  let ?f = "\<lambda>si i key ex g. let (r, g1) = Lookup P si g db key in (ex \<or> r \<noteq> None, g1)"
  let ?D = "doMulti P ord ?keys (\<lambda>si. each_idx ?keys (?f si)) False g"
  let ?M = "doMulti P ord' ?keys (\<lambda>si. each_idx ?keys (msetTask P db args si)) () (snd ?D)"
  have look: "acts P k h (snd (?f (ShardIndex P k x) i x ex h))" if "db < maxDBs h" for i x ex h
  proof -
    have "acts P k h (snd (Lookup P (ShardIndex P k x) h db x))" by (rule acts_Lookup [OF _ that]) simp
    then show ?thesis by (simp add: split_beta Let_def)
  qed
  have store: "acts P k h (snd (msetTask P db args (ShardIndex P k x) i x u h))" if "db < maxDBs h" for i x u h
    unfolding msetTask_def snd_conv using that by (intro acts_storeEntry) simp_all
  have 1: "acts P k g (snd ?D)" using acts_doMulti [where f = ?f, OF o(1) k] look by blast
  have c: "kbits (snd ?D) = k" "db < maxDBs (snd ?D)" using acts_conf [OF 1] k by auto
  have "acts P k (snd ?D) (snd ?M)" using acts_doMulti [where f = "msetTask P db args" and acc = "()", OF o(2) c] store by blast
  with 1 have "acts P k g (snd ?M)" by (rule rtranclp_trans)
  then show ?thesis
    using 1 by (simp add: cmdMSetNX_def split_beta Let_def notifyAll_def acts_notifyAll)
qed

lemma intercard_acts:
  assumes "sched (groupKeys (ShardIndex P k) (cardKeys args)) ord" "kbits g = k" "db < maxDBs g"
  shows "acts P k g (snd (cmdSInterCard P ord iter db args g))"
proof (cases "parseIntStrict (args ! 1)")
  case (Some n)
  then have "acts P k g (snd (snapshotSets P ord iter db (take (nat n) (drop 2 args)) g))"
    using snapshot_acts [OF assms(1) assms(2,3), of iter] by (simp add: cardKeys_def)
  then show ?thesis
    using Some by (auto simp: cmdSInterCard_def Let_def split: option.split prod.split)
qed (simp add: cmdSInterCard_def)

lemma incr_cmd_acts:
  assumes "kbits g = k" "db < maxDBs g"
  shows "acts P k g (snd (cmdIncr P db args g))" "acts P k g (snd (cmdDecr P db args g))"
    "acts P k g (snd (cmdIncrBy P db args g))" "acts P k g (snd (cmdDecrBy P db args g))"
  using string_acts(6) [OF assms] by (auto simp: cmdIncr_def cmdDecr_def cmdIncrBy_def cmdDecrBy_def Let_def split: option.split)

lemmas one_key_acts = string_acts(1-5) incr_cmd_acts hash_write_acts hash_read_acts list_write_acts list_read_acts lpos_acts
  set_write_acts set_read_acts scan_acts float_incr_acts

lemma keyCmds_acts:
  assumes "(name, h) \<in> set keyCmds" and g: "kbits g = k" "db < maxDBs g" "0 \<le> NowMs g"
  shows "acts P k g (snd (h P db args g))"
  using assms(1) unfolding keyCmds_def list.set insert_iff empty_iff
  by (elim disjE)
    (simp_all add: one_key_acts [OF g(1,2)] cmdSet_acts [OF g] cmdGetEx_acts [OF g] key_acts [OF g]
      cmdExpire_def cmdPExpire_def cmdExpireAt_def cmdPExpireAt_def cmdTTL_def cmdPTTL_def cmdHKeys_def cmdHVals_def
      cmdLPush_def cmdRPush_def cmdLPushX_def cmdRPushX_def cmdLPop_def cmdRPop_def)

lemma multiCmds_acts:
  assumes "(name, h) \<in> set (multiCmds E)" and P: "pk E = P" and o: "orders_ok k E" and g: "kbits g = k" "db < maxDBs g"
  shows "acts P k g (snd (h P db args g))"
proof -
  have s: "sched (groupKeys (ShardIndex P k) keys) (shardOrd E keys)" "sched (groupKeys (ShardIndex P k) keys) (shardOrd2 E keys)" for keys
    using o P by (auto simp: orders_ok_def)
  have lm: "acts P k g (snd (cmdLMove P (shardOrd E [args ! 1, args ! 2]) db args g))"
    using lmove_acts [OF s(1) g] by (auto simp: cmdLMove_def split: option.split)
  show ?thesis
    using assms(1) unfolding multiCmds_def list.set insert_iff empty_iff
    by (elim disjE)
      (simp_all add: multi_string_acts [OF g s(1)] msetnx_acts [OF s g] multi_key_acts [OF s(1) g] lmove_acts [OF s(1) g] cmdRPopLPush_def
        lm [unfolded One_nat_def] set_read_acts [OF g] set_write_acts [OF g] cmdSMove_acts [OF s g, unfolded One_nat_def] cmdSInter_def cmdSUnion_def cmdSDiff_def algebra_acts [OF g s(1)]
        cmdSInterStore_def cmdSUnionStore_def cmdSDiffStore_def intercard_acts [OF s(1) g] scan_acts [OF g])
qed

lemma zsetCmds_acts:
  assumes "(name, h) \<in> set (zsetCmds E)" and P: "pk E = P" and o: "orders_ok k E" and g: "kbits g = k" "db < maxDBs g"
  shows "acts P k g (snd (h p P db args g))"
proof -
  have s: "sched (groupKeys (ShardIndex P k) keys) (shardOrd E keys)" for keys
    using o P by (auto simp: orders_ok_def)
  have keys: "cardKeys args = take (nat (case parseIntStrict (args ! 1) of Some n \<Rightarrow> n | None \<Rightarrow> 0)) (drop 2 args)"
    "storeKeys args = take (nat (case parseIntStrict (args ! 2) of Some n \<Rightarrow> n | None \<Rightarrow> 0)) (drop 3 args)"
    by (simp_all add: cardKeys_def storeKeys_def split: option.split)
  note Z = zalgebra_acts [OF g s, where args = args, folded keys]
  show ?thesis
    using assms(1) unfolding zsetCmds_def list.set insert_iff empty_iff
    by (elim disjE)
      (simp_all add: zset_write_acts [OF g] zset_read_acts [OF g] Z cmdZRank_def cmdZRevRank_def cmdZRangeByScore_def cmdZRevRangeByScore_def
        cmdZRangeByLex_def cmdZPopMin_def cmdZPopMax_def cmdZDiff_def cmdZInter_def cmdZUnion_def cmdZInterStore_def cmdZUnionStore_def)
qed

end

end
