(* ===== verification/Server.thy ===== *)
theory Server
  imports Dispatch_Acts
begin

text \<open>
  What \<^verbatim>\<open>Execute\<close> keeps. \<open>world_ok\<close> is the invariant of the command engine between commands,
  \<open>conn_ok\<close> that of a connection: its database exists, its subscriptions agree with the broker, its
  queue holds complete commands and none that controls transactions, and a RESP2 connection in
  subscribe mode is never inside MULTI. Handlers that are not modelled are assumed to keep them
  (\<open>ext_ok\<close>). The server is a step relation over all its connections, and the invariants hold in every
  reachable state.
\<close>

section \<open>Invariants\<close>

definition world_ok :: "nat \<Rightarrow> ('q, 'z, 't, 'h, 'l, 'f) env \<Rightarrow> ('q, 'z, 't, 'h, 'l, 'f) world \<Rightarrow> bool" where
  "world_ok k E w \<longleftrightarrow> db_inv (pk E) k (Shards w) \<and> evict_safe (pk E) (Shards w) \<and> 0 \<le> NowMs (Shards w) \<and> broker_inv (PubSub w)"

definition plain :: "string list \<Rightarrow> bool" where
  "plain q \<longleftrightarrow> q \<noteq> [] \<and> (\<exists>d. table (lowerASCII (q ! 0)) = Some d \<and> arity_ok d q) \<and> lowerASCII (q ! 0) \<notin> set txControl"

text \<open>The databases of the watched keys exist, and what WATCH sampled lies in their past.\<close>

definition watch_ok :: "('q, 'z, 't, 'h, 'l, 'f) packages \<Rightarrow> nat \<Rightarrow> conn \<Rightarrow> ('q, 'z, 't, 'h, 'l, 'f) world \<Rightarrow> bool" where
  "watch_ok P k cs w \<longleftrightarrow> (\<forall>x \<in> set (Watched cs). w_db x < maxDBs (Shards w) \<and>
     stamp_le (w_epoch x, w_ver x) (stamp P k (Shards w) (w_db x) (w_key x)))"

definition conn_ok :: "('q, 'z, 't, 'h, 'l, 'f) packages \<Rightarrow> nat \<Rightarrow> conn \<Rightarrow> ('q, 'z, 't, 'h, 'l, 'f) world \<Rightarrow> bool" where
  "conn_ok P k cs w \<longleftrightarrow> cDB cs < maxDBs (Shards w) \<and> in_step (Ps cs) (PubSub w) \<and> (Proto cs = 2 \<or> Proto cs = 3) \<and>
     (\<forall>q \<in> set (Queue cs). plain q) \<and> (\<not> Multi cs \<longrightarrow> Queue cs = [] \<and> \<not> QueueErr cs) \<and>
     \<not> (Multi cs \<and> Proto cs = 2 \<and> 0 < subCount (Ps cs)) \<and> watch_ok P k cs w"

text \<open>The effect of a command that may be queued: engine steps, its own subscriptions, nothing of the transaction.\<close>

definition same_tx :: "conn \<Rightarrow> conn \<Rightarrow> bool" where
  "same_tx cs cs' \<longleftrightarrow> Multi cs' = Multi cs \<and> Queue cs' = Queue cs \<and> QueueErr cs' = QueueErr cs \<and> set (Watched cs') \<subseteq> set (Watched cs)"

definition hstep :: "nat \<Rightarrow> ('q, 'z, 't, 'h, 'l, 'f) env \<Rightarrow> conn \<Rightarrow> ('q, 'z, 't, 'h, 'l, 'f) world \<Rightarrow> conn \<Rightarrow> ('q, 'z, 't, 'h, 'l, 'f) world \<Rightarrow> bool" where
  "hstep k E cs w cs' w' \<longleftrightarrow> acts (pk E) k (Shards w) (Shards w') \<and> good_step (Ps cs) (PubSub w) (Ps cs') (PubSub w') \<and>
     (cDB cs < maxDBs (Shards w) \<longrightarrow> cDB cs' < maxDBs (Shards w)) \<and> (Proto cs = 2 \<or> Proto cs = 3 \<longrightarrow> Proto cs' = 2 \<or> Proto cs' = 3)"

definition ext_ok :: "nat \<Rightarrow> ('q, 'z, 't, 'h, 'l, 'f) env \<Rightarrow> bool" where
  "ext_ok k E \<longleftrightarrow> (\<forall>name cs args w r cs' w'. ext E name cs args w = (r, cs', w') \<longrightarrow> world_ok k E w \<longrightarrow> cDB cs < maxDBs (Shards w) \<longrightarrow>
     hstep k E cs w cs' w' \<and> same_tx cs cs')"

definition env_ok :: "nat \<Rightarrow> ('q, 'z, 't, 'h, 'l, 'f) env \<Rightarrow> bool" where
  "env_ok k E \<longleftrightarrow> pluto_laws (pk E) k \<and> orders_ok k E \<and> ext_ok k E"

lemma same_tx_refl [simp]: "same_tx cs cs"
  by (simp add: same_tx_def)

lemma same_tx_trans: "same_tx a b \<Longrightarrow> same_tx b c \<Longrightarrow> same_tx a c"
  by (auto simp: same_tx_def)

lemma hstep_refl [simp]: "hstep k E cs w cs w"
  by (simp add: hstep_def)

lemma hstepD:
  assumes "env_ok k E" "hstep k E cs w cs' w'" "world_ok k E w"
  shows "world_ok k E w'" "maxDBs (Shards w') = maxDBs (Shards w)"
proof -
  show "world_ok k E w'" "maxDBs (Shards w') = maxDBs (Shards w)"
    using assms pluto_laws.acts_keep [of "pk E" k "Shards w" "Shards w'"] pluto_laws.acts_now [of "pk E" k "Shards w" "Shards w'"]
    by (auto simp: world_ok_def hstep_def env_ok_def good_step_def)
qed

lemma watch_ok_mono:
  assumes "pluto_laws P k" "acts P k (Shards w) (Shards w')" "db_inv P k (Shards w)" "evict_safe P (Shards w)" "watch_ok P k cs w"
    "set (Watched cs') \<subseteq> set (Watched cs)"
  shows "watch_ok P k cs' w'"
proof -
  have "(kstep P k)\<^sup>*\<^sup>* (Shards w) (Shards w')" "maxDBs (Shards w') = maxDBs (Shards w)"
    using pluto_laws.acts_keep [OF assms(1-4)] by auto
  moreover have "stamps_grow P k (Shards w) (Shards w')"
    using pluto_laws.ksteps_keep [OF assms(1) calculation(1)] db_invD(2,4) [OF assms(3)] by simp
  ultimately have grow: "stamp_le (stamp P k (Shards w) db key) (stamp P k (Shards w') db key)" and m: "maxDBs (Shards w') = maxDBs (Shards w)"
    if "db < maxDBs (Shards w)" for db key using that by (simp_all add: stamps_grow_def)
  show ?thesis
    unfolding watch_ok_def
  proof
    fix x assume "x \<in> set (Watched cs')"
    then have x: "w_db x < maxDBs (Shards w)" "stamp_le (w_epoch x, w_ver x) (stamp P k (Shards w) (w_db x) (w_key x))"
      using assms(5,6) by (auto simp: watch_ok_def)
    then show "w_db x < maxDBs (Shards w') \<and> stamp_le (w_epoch x, w_ver x) (stamp P k (Shards w') (w_db x) (w_key x))"
      using m [OF x(1)] stamp_le_trans [OF x(2) grow [OF x(1)]] by simp
  qed
qed

lemma hstep_watch:
  assumes "env_ok k E" "hstep k E cs w cs' w'" "world_ok k E w" "watch_ok (pk E) k cs w" "set (Watched cs') \<subseteq> set (Watched cs)"
  shows "watch_ok (pk E) k cs' w'"
  using watch_ok_mono [of "pk E" k w w' cs cs'] assms by (auto simp: env_ok_def hstep_def world_ok_def)

lemma hstep_trans:
  assumes "hstep k E cs w cs1 w1" "hstep k E cs1 w1 cs2 w2" "maxDBs (Shards w1) = maxDBs (Shards w)"
  shows "hstep k E cs w cs2 w2"
  using assms unfolding hstep_def by (auto intro: rtranclp_trans good_step_trans)

section \<open>Recording\<close>

lemma drain_loop_sel [simp]:
  "Shards (drain_loop ord evs w) = Shards w" "PubSub (drain_loop ord evs w) = PubSub w" "requirePass (drain_loop ord evs w) = requirePass w"
  "scripts (drain_loop ord evs w) = scripts w" "monitors (drain_loop ord evs w) = monitors w" "notifyFlags (drain_loop ord evs w) = notifyFlags w"
  by (induction ord evs w rule: drain_loop.induct) simp_all

lemma drain_sel [simp]:
  "Shards (drain E w) = (Shards w)\<lparr>events := []\<rparr>" "PubSub (drain E w) = PubSub w" "requirePass (drain E w) = requirePass w"
  "scripts (drain E w) = scripts w" "monitors (drain E w) = monitors w" "notifyFlags (drain E w) = notifyFlags w"
  by (simp_all add: drain_def)

lemma capture_sel [simp]:
  "Shards (capture E cs d name args v w) = Shards w" "PubSub (capture E cs d name args v w) = PubSub w"
  "requirePass (capture E cs d name args v w) = requirePass w"
  by (simp_all add: capture_def split: option.split)

lemma monitors_sel [simp]:
  "Shards (notifyMonitors E cs args w) = Shards w" "PubSub (notifyMonitors E cs args w) = PubSub w"
  "requirePass (notifyMonitors E cs args w) = requirePass w" "persist (notifyMonitors E cs args w) = persist w"
  by (simp_all add: notifyMonitors_def Let_def)

lemma noteCommand_sel [simp]:
  "Ps (noteCommand name cs) = Ps cs" "cDB (noteCommand name cs) = cDB cs" "Proto (noteCommand name cs) = Proto cs"
  "Multi (noteCommand name cs) = Multi cs" "Queue (noteCommand name cs) = Queue cs" "QueueErr (noteCommand name cs) = QueueErr cs"
  "Authed (noteCommand name cs) = Authed cs" "Watched (noteCommand name cs) = Watched cs"
  by (simp_all add: noteCommand_def)

lemma hstep_same: "hstep k E cs w cs' w'"
  if "Shards w' = Shards w" "PubSub w' = PubSub w" "Ps cs' = Ps cs" "cDB cs' = cDB cs" "Proto cs' = Proto cs"
  using that by (simp add: hstep_def)

text \<open>The recording steps touch neither the keyspace nor the broker nor the connection.\<close>

lemma hstep_drain:
  assumes "pluto_laws (pk E) k" "hstep k E cs w cs' w'"
  shows "hstep k E cs w cs' (drain E w')"
proof -
  have "aside (Shards w') ((Shards w')\<lparr>events := []\<rparr>)" by (simp add: aside_def quiet_def)
  with assms show ?thesis by (auto simp: hstep_def intro: pluto_laws.acts_aside)
qed

lemma hstep_capture: "hstep k E cs w cs' (capture E cs1 d name args v w') = hstep k E cs w cs' w'"
  by (simp add: hstep_def)

section \<open>Handlers\<close>

lemma hello_ok: "cmdHello cs args w = (r, cs', w') \<Longrightarrow> w' = w \<and> Ps cs' = Ps cs \<and> cDB cs' = cDB cs \<and> same_tx cs cs' \<and>
    (Proto cs = 2 \<or> Proto cs = 3 \<longrightarrow> Proto cs' = 2 \<or> Proto cs' = 3)"
  by (auto simp: cmdHello_def helloProto_def same_tx_def Let_def split: sum.splits option.splits if_splits)

lemma sweepAll_acts:
  assumes "pluto_laws P k"
  shows "acts P k g (sweepAll P g i)"
  using act.a_sweep [of P i g "-1" "\<lambda>_. False" _ _ k] by (auto simp: sweepAll_def split: option.split)

lemma dbsize_acts:
  assumes "pluto_laws P k"
  shows "acts P k g (snd (dbsize_loop P db is tot g))"
proof (induction "is" arbitrary: tot g)
  case (Cons i js)
  then show ?case using sweepAll_acts [OF assms, of g i] by (simp add: Let_def) (meson rtranclp_trans)
qed simp

lemma flushAll_acts:
  assumes "\<forall>db \<in> set dbs'. db < maxDBs g"
  shows "acts P k g (foldl (FlushDBTok P) g dbs')"
  using assms
proof (induction dbs' arbitrary: g)
  case (Cons db dbs')
  have "acts P k (FlushDBTok P g db) (foldl (FlushDBTok P) (FlushDBTok P g db) dbs')"
    by (rule Cons.IH) (use Cons.prems in \<open>simp add: FlushDBTok_sel\<close>)
  moreover have "act P k g (FlushDBTok P g db)" using Cons.prems by (simp add: act.a_flush)
  ultimately show ?case by (simp add: converse_rtranclp_into_rtranclp)
qed simp

definition fine :: "nat \<Rightarrow> ('q, 'z, 't, 'h, 'l, 'f) env \<Rightarrow> conn \<Rightarrow> ('q, 'z, 't, 'h, 'l, 'f) world \<Rightarrow> rv \<times> conn \<times> ('q, 'z, 't, 'h, 'l, 'f) world \<Rightarrow> bool" where
  "fine k E cs w out \<longleftrightarrow> hstep k E cs w (fst (snd out)) (snd (snd out)) \<and> same_tx cs (fst (snd out))"

lemma fine_same: "fine k E cs w (r, cs, w)"
  by (simp add: fine_def)

lemma good_outbox [simp]: "good_step ps b (ps\<lparr>outbox := x\<rparr>) b"
  by (simp add: good_step_def in_step_def same_others_def)

lemma simple_fine:
  "fine k E cs w (cmdPing cs args w)" "fine k E cs w (cmdEcho cs args w)" "fine k E cs w (cmdAuth cs args w)"
  "fine k E cs w (cmdUnwatch cs args w)" "fine k E cs w (cmdClient cs args w)" "fine k E cs w (cmdCommand cs args w)"
  "fine k E cs w (cmdSelect cs args w)" "fine k E cs w (cmdMonitor cs args w)" "fine k E cs w (cmdHello cs args w)" "fine k E cs w (doPublish E cs args w)"
  unfolding fine_def
  subgoal by (simp add: cmdPing_def)
  subgoal by (simp add: cmdEcho_def)
  subgoal by (auto simp: cmdAuth_def hstep_def same_tx_def Let_def split: option.split)
  subgoal by (simp add: cmdUnwatch_def hstep_def same_tx_def)
  subgoal by (auto simp: cmdClient_def hstep_def same_tx_def Let_def)
  subgoal by (simp add: cmdCommand_def)
  subgoal by (auto simp: cmdSelect_def hstep_def same_tx_def split: option.split)
  subgoal by (auto simp: cmdMonitor_def hstep_def same_tx_def Let_def good_ensure(1))
  subgoal using hello_ok [of cs args w "fst (cmdHello cs args w)" "fst (snd (cmdHello cs args w))" "snd (snd (cmdHello cs args w))"] by (simp add: hstep_def)
  subgoal by (auto simp: doPublish_def cmdPublish_def hstep_def same_tx_def split_beta Let_def)
  done

lemma broker_fine:
  "fine k E cs w (onBroker cmdSubscribe cs args w)" "fine k E cs w (onBroker cmdPSubscribe cs args w)"
  "fine k E cs w (onBroker cmdUnsubscribe cs args w)" "fine k E cs w (onBroker cmdPUnsubscribe cs args w)"
  using pubsub_good(1,2) [of "Ps cs" "PubSub w" args] pubsub_good(3) [of "Ps cs" "PubSub w" args]
  by (auto simp: fine_def onBroker_def hstep_def same_tx_def split_beta Let_def cmdUnsubscribe_def cmdPUnsubscribe_def)

lemma keyspace_fine:
  assumes "pluto_laws (pk E) k" "cDB cs < maxDBs (Shards w)"
  shows "fine k E cs w (cmdDBSize E cs args w)" "fine k E cs w (cmdFlushDB E cs args w)" "fine k E cs w (cmdFlushAll E cs args w)"
  using dbsize_acts [OF assms(1)] act.a_flush [of "cDB cs" "Shards w" "pk E" k] flushAll_acts [of "[0..<maxDBs (Shards w)]" "Shards w" "pk E" k] assms(2)
  by (auto simp: fine_def cmdDBSize_def cmdFlushDB_def cmdFlushAll_def hstep_def same_tx_def split_beta Let_def DBSizeTok_def FlushAllTok_def split: option.split)

lemma connHandlers_fine:
  assumes "pluto_laws (pk E) k" "(name, h) \<in> set (connHandlers E)" "name \<notin> set txControl" "cDB cs < maxDBs (Shards w)"
  shows "fine k E cs w (h cs args w)"
  using assms(2,3) unfolding connHandlers_def list.set insert_iff empty_iff
  by (elim disjE) (simp_all add: txControl_def simple_fine broker_fine keyspace_fine [OF assms(1,4)] fine_same)

lemma onKeys_fine:
  assumes "env_ok k E" "(name, h) \<in> set (keyCmds @ multiCmds E)" "world_ok k E w" "cDB cs < maxDBs (Shards w)"
  shows "fine k E cs w (onKeys E h cs args w)"
proof -
  have g: "kbits (Shards w) = k" "0 \<le> NowMs (Shards w)"
    using assms(3) by (auto simp: world_ok_def dest: db_invD(8))
  have "acts (pk E) k (Shards w) (snd (h (pk E) (cDB cs) args (Shards w)))"
    using assms(1,2) pluto_laws.keyCmds_acts [of "pk E" k name h "Shards w" "cDB cs" args] g assms(4)
      pluto_laws.multiCmds_acts [of "pk E" k name h E "Shards w" "cDB cs" args] by (auto simp: env_ok_def)
  then show ?thesis by (simp add: fine_def onKeys_def hstep_def same_tx_def split_beta Let_def)
qed

lemma onKeys_zset_fine:
  assumes "env_ok k E" "(name, h) \<in> set (zsetCmds E)" "world_ok k E w" "cDB cs < maxDBs (Shards w)"
  shows "fine k E cs w (onKeys E (h p) cs args w)"
proof -
  have "acts (pk E) k (Shards w) (snd (h p (pk E) (cDB cs) args (Shards w)))"
    using assms pluto_laws.zsetCmds_acts [of "pk E" k name h E "Shards w" "cDB cs" p args]
    by (auto simp: env_ok_def world_ok_def dest: db_invD(8))
  then show ?thesis by (simp add: fine_def onKeys_def hstep_def same_tx_def split_beta Let_def)
qed

lemma handler1_fine:
  assumes "env_ok k E" "world_ok k E w" "cDB cs < maxDBs (Shards w)" "name \<notin> set txControl"
  shows "fine k E cs w (handler1 E name cs args w)"
proof (cases "map_of (connHandlers E) name")
  case (Some h)
  then show ?thesis
    using connHandlers_fine [of E k name h] map_of_SomeD [OF Some] assms by (simp add: handler1_def env_ok_def)
next
  case None
  show ?thesis
  proof (cases "map_of (keyCmds @ multiCmds E) name")
    case (Some h)
    then show ?thesis
      using onKeys_fine [OF assms(1) map_of_SomeD [OF Some] assms(2,3)] None by (simp add: handler1_def)
  next
    case key: None
    show ?thesis
    proof (cases "map_of (zsetCmds E) name")
      case (Some h)
      then show ?thesis
        using onKeys_zset_fine [OF assms(1) map_of_SomeD [OF Some] assms(2,3)] None key by (simp add: handler1_def del: map_of_append)
    next
      case ext: None
      then have "handler1 E name = ext E name" using None key by (simp add: handler1_def del: map_of_append)
      then show ?thesis
        using assms(1-3) by (cases "ext E name cs args w") (auto simp: fine_def env_ok_def ext_ok_def)
    qed
  qed
qed

section \<open>Transactions\<close>

lemma watch_task_acts:
  assumes "pluto_laws P k" "db < maxDBs g"
  shows "acts P k g (snd (WatchVersion P (ShardIndex P k key) g db key))"
    "acts P k g (snd (WatchDirty P (ShardIndex P k key) g db key ep ver))"
proof -
  have "act P k g (snd (Lookup P (ShardIndex P k key) g db key))" by (rule act.a_lookup [OF assms(2)])
  then have "acts P k g (snd (Lookup P (ShardIndex P k key) g db key))" by blast
  then show "acts P k g (snd (WatchVersion P (ShardIndex P k key) g db key))"
    "acts P k g (snd (WatchDirty P (ShardIndex P k key) g db key ep ver))"
    by (cases "Lookup P (ShardIndex P k key) g db key"; auto simp: WatchVersion_def WatchDirty_def split: option.split)+
qed

lemma watch_loop_acts:
  assumes "pluto_laws P k"
  shows "kbits g = k \<Longrightarrow> db < maxDBs g \<Longrightarrow> acts P k g (snd (watch_loop P db keys g))"
proof (induction keys arbitrary: g)
  case (Cons key keys)
  let ?D = "doKey P key (\<lambda>i g. WatchVersion P i g db key) g"
  have 1: "acts P k g (snd ?D)"
    by (rule pluto_laws.acts_doKey [OF assms Cons.prems(1)]) (rule watch_task_acts(1) [OF assms Cons.prems(2)])
  with Cons show ?case
    using pluto_laws.acts_conf [OF assms 1] by (auto simp: split_beta Let_def intro: rtranclp_trans)
qed simp

lemma watch_loop_dbs: "x \<in> set (fst (watch_loop P db keys g)) \<Longrightarrow> w_db x = db"
  by (induction keys arbitrary: g) (auto simp: split_beta Let_def)

lemma watch_loop_ok:
  assumes "pluto_laws P k"
  shows "db_inv P k (Shards w) \<Longrightarrow> evict_safe P (Shards w) \<Longrightarrow> db < maxDBs (Shards w) \<Longrightarrow>
    watch_ok P k (cs\<lparr>Watched := fst (watch_loop P db keys (Shards w))\<rparr>) (w\<lparr>Shards := snd (watch_loop P db keys (Shards w))\<rparr>)"
proof (induction keys arbitrary: w)
  case (Cons key keys)
  let ?i = "ShardIndex P k key"
  let ?V = "WatchVersion P ?i (Shards w) db key"
  let ?g = "maybeEvict P ?i (snd ?V)"
  let ?w = "w\<lparr>Shards := ?g\<rparr>" and ?L = "watch_loop P db keys ?g"
  let ?x = "\<lparr>w_db = db, w_key = key, w_epoch = fst (fst ?V), w_ver = snd (fst ?V)\<rparr>"
  have k: "kbits (Shards w) = k" using db_invD(8) [OF Cons.prems(1)] .
  then have D: "doKey P key (\<lambda>i g. WatchVersion P i g db key) (Shards w) = (fst ?V, ?g)" by (simp add: doKey_def split_beta Let_def)
  have 1: "acts P k (Shards w) (snd ?V)" by (rule watch_task_acts(1) [OF assms Cons.prems(3)])
  have v: "db_inv P k (snd ?V)" "evict_safe P (snd ?V)" "maxDBs (snd ?V) = maxDBs (Shards w)"
    using pluto_laws.acts_keep [OF assms 1 Cons.prems(1,2)] by auto
  have 2: "acts P k (snd ?V) ?g" by (rule pluto_laws.acts_maybeEvict [OF assms]) simp
  have g: "db_inv P k ?g" "evict_safe P ?g" "maxDBs ?g = maxDBs (Shards w)" "kbits ?g = k"
    using pluto_laws.acts_keep [OF assms 2 v(1,2)] v(3) by (auto dest: db_invD(8))
  have 3: "acts P k ?g (snd ?L)" using watch_loop_acts [OF assms g(4)] g(3) Cons.prems(3) by simp
  have "fst ?V = stamp P k (snd ?V) db key"
    using pluto_laws.WatchVersion_stamp(1) [OF assms db_invD(4) [OF Cons.prems(1)] Cons.prems(3)] by (metis prod.collapse)
  then have "watch_ok P k (cs\<lparr>Watched := [?x]\<rparr>) (w\<lparr>Shards := snd ?V\<rparr>)"
    using Cons.prems(3) v(3) by (simp add: watch_ok_def)
  from watch_ok_mono [OF assms _ _ _ this, of "w\<lparr>Shards := snd ?L\<rparr>" "cs\<lparr>Watched := [?x]\<rparr>"]
  have x: "watch_ok P k (cs\<lparr>Watched := [?x]\<rparr>) (w\<lparr>Shards := snd ?L\<rparr>)" using v 2 3 by (simp add: rtranclp_trans [OF 2])
  have "watch_ok P k (cs\<lparr>Watched := fst ?L\<rparr>) (w\<lparr>Shards := snd ?L\<rparr>)" using Cons.IH [of ?w] g Cons.prems(3) by simp
  with x show ?case by (auto simp: D split_beta Let_def watch_ok_def)
qed (simp add: watch_ok_def)

lemma dirty_loop_acts:
  assumes "pluto_laws P k"
  shows "kbits g = k \<Longrightarrow> \<forall>x \<in> set xs. w_db x < maxDBs g \<Longrightarrow> acts P k g (snd (dirty_loop P xs g))"
proof (induction xs arbitrary: g)
  case (Cons x xs)
  let ?D = "doKey P (w_key x) (\<lambda>i g. WatchDirty P i g (w_db x) (w_key x) (w_epoch x) (w_ver x)) g"
  have 1: "acts P k g (snd ?D)"
    by (rule pluto_laws.acts_doKey [OF assms Cons.prems(1)]) (use watch_task_acts(2) [OF assms] Cons.prems(2) in simp)
  with Cons show ?case
    using pluto_laws.acts_conf [OF assms 1] by (auto simp: split_beta Let_def intro: rtranclp_trans)
qed simp

lemma exec_loop_fine:
  assumes E: "env_ok k E"
  shows "\<lbrakk>world_ok k E w; cDB cs < maxDBs (Shards w); \<forall>q \<in> set qs. plain q; exec_loop E (handler1 E) qs cs w = (vs, cs', w')\<rbrakk> \<Longrightarrow>
    hstep k E cs w cs' w' \<and> same_tx cs cs' \<and> length vs = length qs"
proof (induction qs arbitrary: vs cs w)
  case (Cons q qs)
  let ?n = "lowerASCII (q ! 0)"
  from Cons.prems(3) obtain d where d: "table ?n = Some d" "?n \<notin> set txControl" by (auto simp: plain_def)
  obtain v cs1 w1 where h: "handler1 E ?n cs q w = (v, cs1, w1)" by (rule prod_cases3)
  let ?w2 = "capture E cs1 d ?n q v (drain E w1)"
  obtain vs1 where r: "exec_loop E (handler1 E) qs cs1 ?w2 = (vs1, cs', w')" "vs = v # vs1"
    using Cons.prems(4) d(1) h by (auto simp: Let_def split: prod.splits)
  have "fine k E cs w (v, cs1, w1)" using handler1_fine [OF E Cons.prems(1,2) d(2), of q] h by simp
  then have 1: "hstep k E cs w cs1 ?w2" and t: "same_tx cs cs1"
    using hstep_drain E by (auto simp: fine_def hstep_capture env_ok_def)
  note ok = hstepD [OF E 1 Cons.prems(1)]
  have "cDB cs1 < maxDBs (Shards ?w2)" using 1 Cons.prems(2) ok(2) by (simp add: hstep_def)
  from Cons.IH [OF ok(1) this _ r(1)] Cons.prems(3)
  have "hstep k E cs1 ?w2 cs' w'" "same_tx cs1 cs'" "length vs1 = length qs" by auto
  then show ?case using hstep_trans [OF 1 _ ok(2)] same_tx_trans [OF t] r(2) by simp
qed simp

section \<open>Execute keeps the invariants\<close>

lemma reset_good:
  assumes "broker_inv b"
  shows "good_step ps b (ps\<lparr>c_subs := [], c_psubs := []\<rparr>) (snd (UnsubscribeAll b (c_id ps)))"
proof -
  obtain chs pats b' where u: "UnsubscribeAll b (c_id ps) = ((chs, pats), b')" by (metis prod.exhaust)
  have "Match b' = Match b" using u by (auto simp: UnsubscribeAll_def split_beta Let_def)
  then show ?thesis using UnsubscribeAll_spec [OF assms u] u by (auto simp: good_step_def in_step_def)
qed

lemma clearTx_sel [simp]:
  "Multi (clearTx cs) = False" "Queue (clearTx cs) = []" "QueueErr (clearTx cs) = False" "Watched (clearTx cs) = []"
  "Ps (clearTx cs) = Ps cs" "cDB (clearTx cs) = cDB cs" "Proto (clearTx cs) = Proto cs" "Authed (clearTx cs) = Authed cs"
  by (simp_all add: clearTx_def)

lemma cmdExec_ok:
  assumes E: "env_ok k E" and w: "world_ok k E w" and c: "conn_ok (pk E) k cs w" and x: "cmdExec E (handler1 E) cs args w = (r, cs', w')"
  shows "hstep k E cs w cs' w'" "cs' = clearTx cs' \<or> cs' = cs"
proof -
  let ?D = "dirty_loop (pk E) (Watched cs) (Shards w)"
  have L: "pluto_laws (pk E) k" using E by (simp add: env_ok_def)
  have "acts (pk E) k (Shards w) (snd ?D)"
    using dirty_loop_acts [OF L, of "Shards w" "Watched cs"] w c by (auto simp: world_ok_def conn_ok_def watch_ok_def dest: db_invD(8))
  then have d: "hstep k E cs w cs (w\<lparr>Shards := snd ?D\<rparr>)" by (simp add: hstep_def)
  then have d': "hstep k E cs w cs (drain E (w\<lparr>Shards := snd ?D\<rparr>))" by (rule hstep_drain [OF L])
  note ok = hstepD [OF E d' w]
  obtain vs cs2 w2 where l: "exec_loop E (handler1 E) (Queue cs) (cs\<lparr>inExec := True\<rparr>) (drain E (w\<lparr>Shards := snd ?D\<rparr>)) = (vs, cs2, w2)"
    by (rule prod_cases3)
  have "hstep k E (cs\<lparr>inExec := True\<rparr>) (drain E (w\<lparr>Shards := snd ?D\<rparr>)) cs2 w2"
    using exec_loop_fine [OF E ok(1) _ _ l] c ok(2) by (simp add: conn_ok_def)
  then have "hstep k E cs (drain E (w\<lparr>Shards := snd ?D\<rparr>)) (clearTx (cs2\<lparr>inExec := False\<rparr>)) w2" by (simp add: hstep_def)
  then have 2: "hstep k E cs w (clearTx (cs2\<lparr>inExec := False\<rparr>)) w2" by (rule hstep_trans [OF d' _ ok(2)])
  have 3: "hstep k E cs w (clearTx cs) (w\<lparr>Shards := snd ?D\<rparr>)" "hstep k E cs w (clearTx cs) w" using d by (simp_all add: hstep_def)
  have clear: "clearTx (clearTx c) = clearTx c" for c by (simp add: clearTx_def)
  show "hstep k E cs w cs' w'"
    using x 2 3 l by (auto simp: cmdExec_def split_beta Let_def split: if_splits)
  show "cs' = clearTx cs' \<or> cs' = cs"
    using x l by (auto simp: cmdExec_def split_beta Let_def clear split: if_splits)
qed

lemma conn_ok_clear:
  assumes "hstep k E cs w cs' w'" "cs' = clearTx cs'" "conn_ok (pk E) k cs w" "maxDBs (Shards w') = maxDBs (Shards w)" "broker_inv (PubSub w)"
  shows "conn_ok (pk E) k cs' w'"
proof -
  have "Multi cs' = False" "Queue cs' = []" "QueueErr cs' = False" "Watched cs' = []" using assms(2) by (metis clearTx_sel)+
  then show ?thesis using assms by (auto simp: conn_ok_def hstep_def good_step_def watch_ok_def)
qed

lemma conn_ok_same:
  assumes "env_ok k E" "world_ok k E w" "hstep k E cs w cs' w'" "same_tx cs cs'" "conn_ok (pk E) k cs w"
    "maxDBs (Shards w') = maxDBs (Shards w)" "\<not> Multi cs"
  shows "conn_ok (pk E) k cs' w'"
  using assms hstep_watch [OF assms(1,3,2)] by (auto simp: conn_ok_def hstep_def good_step_def same_tx_def)

lemma handler_ok:
  assumes E: "env_ok k E" and w: "world_ok k E w" and c: "conn_ok (pk E) k cs w" and q: "\<not> queueable cs name"
    and sub: "name = ''multi'' \<Longrightarrow> \<not> (Proto cs = 2 \<and> 0 < subCount (Ps cs))"
    and h: "handler E name cs args w = (r, cs', w')"
  shows "hstep k E cs w cs' w' \<and> conn_ok (pk E) k cs' w'"
proof -
  have L: "pluto_laws (pk E) k" using E by (simp add: env_ok_def)
  have db: "cDB cs < maxDBs (Shards w)" using c by (simp add: conn_ok_def)
  have b: "broker_inv (PubSub w)" using w by (simp add: world_ok_def)
  show ?thesis
  proof (cases "name \<in> set txControl")
    case False
    then have m: "\<not> Multi cs" "name \<noteq> ''exec''" using q by (auto simp: queueable_def txControl_def)
    have "fine k E cs w (r, cs', w')" using handler1_fine [OF E w db False, of args] h m(2) by (simp add: handler_def)
    then have f: "hstep k E cs w cs' w'" "same_tx cs cs'" by (simp_all add: fine_def)
    show ?thesis using f(1) conn_ok_same [OF E w f c hstepD(2) [OF E f(1) w] m(1)] by simp
  next
    case True
    then have "name = ''exec'' \<or> name = ''discard'' \<or> name = ''multi'' \<or> name = ''watch'' \<or> name = ''quit'' \<or> name = ''reset''"
      by (simp only: txControl_def set_simps insert_iff empty_iff simp_thms)
    then show ?thesis
    proof (elim disjE)
      assume n: "name = ''exec''"
      from n have x: "cmdExec E (handler1 E) cs args w = (r, cs', w')" using h by (simp add: handler_def)
      note X = cmdExec_ok [OF E w c x]
      note m = hstepD(2) [OF E X(1) w]
      show ?thesis
      proof (cases "cs' = clearTx cs'")
        case True
        then show ?thesis using X(1) conn_ok_clear [OF X(1) True c m b] by simp
      next
        case False
        then have "cs' = cs" using X(2) by simp
        then show ?thesis using X(1) c m hstep_watch [OF E X(1) w] by (auto simp: conn_ok_def hstep_def good_step_def)
      qed
    next
      assume n: "name = ''discard''"
      from n show ?thesis using h c by (auto simp: handler_def handler1_def connHandlers_def cmdDiscard_def hstep_def conn_ok_def watch_ok_def split: if_splits)
    next
      assume n: "name = ''multi''"
      from n show ?thesis using h c sub by (auto simp: handler_def handler1_def connHandlers_def cmdMulti_def hstep_def conn_ok_def watch_ok_def split: if_splits)
    next
      assume n: "name = ''watch''"
      let ?W = "watch_loop (pk E) (cDB cs) (tl args) (Shards w)"
      have a: "acts (pk E) k (Shards w) (snd ?W)"
        using watch_loop_acts [OF L _ db] w by (auto simp: world_ok_def dest: db_invD(8))
      have v: "watch_ok (pk E) k (cs\<lparr>Watched := fst ?W\<rparr>) (w\<lparr>Shards := snd ?W\<rparr>)"
        using watch_loop_ok [OF L _ _ db, of "tl args" cs] w by (simp add: world_ok_def)
      have o: "watch_ok (pk E) k cs (w\<lparr>Shards := snd ?W\<rparr>)"
        using watch_ok_mono [OF L, of w "w\<lparr>Shards := snd ?W\<rparr>" cs cs] a w c by (simp add: world_ok_def conn_ok_def)
      have "maxDBs (snd ?W) = maxDBs (Shards w)" using pluto_laws.acts_conf [OF L a] by simp
      moreover have e: "cs' = (if Multi cs then cs else cs\<lparr>Watched := Watched cs @ fst ?W\<rparr>)"
        "w' = (if Multi cs then w else w\<lparr>Shards := snd ?W\<rparr>)"
        using n h by (auto simp: handler_def handler1_def connHandlers_def cmdWatch_def split_beta Let_def split: if_splits)
      ultimately show ?thesis
        using c a db v o by (cases "Multi cs") (auto simp: hstep_def conn_ok_def watch_ok_def)
    next
      assume n: "name = ''quit''"
      from n show ?thesis using h c by (auto simp: handler_def handler1_def connHandlers_def cmdQuit_def hstep_def conn_ok_def watch_ok_def)
    next
      assume n: "name = ''reset''"
      let ?ps = "(Ps cs)\<lparr>c_subs := [], c_psubs := []\<rparr>" and ?b = "snd (UnsubscribeAll (PubSub w) (c_id (Ps cs)))"
      have e: "cs' = (clearTx (cs\<lparr>Ps := ?ps\<rparr>))\<lparr>cDB := 0, cName := [], Authed := False, Proto := 2\<rparr>" "w' = w\<lparr>PubSub := ?b\<rparr>"
        using h n by (simp_all add: handler_def handler1_def connHandlers_def cmdReset_def Let_def)
      have g: "good_step (Ps cs) (PubSub w) ?ps ?b" using reset_good [OF b, of "Ps cs"] by simp
      then have "in_step ?ps ?b" using c by (simp add: good_step_def conn_ok_def)
      with g c show ?thesis by (auto simp: e hstep_def conn_ok_def watch_ok_def clearTx_def)
    qed
  qed
qed

lemma evictNow_loop_acts: "acts P k g (snd (evictNow_loop P q is over g))"
proof (induction "is" arbitrary: over g)
  case (Cons i js)
  have "act P k g (maybeEvict P i g)" "act P k (maybeEvict P i g) (maybeEvict P i (maybeEvict P i g))" by (rule act.a_evict)+
  then have "acts P k g (maybeEvict P i (maybeEvict P i g))" by auto
  with Cons.IH show ?case by (auto simp: Let_def intro: rtranclp_trans)
qed simp

lemma memGate_ok:
  assumes "pluto_laws (pk E) k"
  shows "hstep k E cs w cs (snd (memGate E w))"
proof -
  have "acts (pk E) k (Shards w) (snd (EvictNow (pk E) (Shards w)))"
    by (simp add: EvictNow_def evictNow_loop_acts)
  then have "hstep k E cs w cs (w\<lparr>Shards := snd (EvictNow (pk E) (Shards w))\<rparr>)" by (simp add: hstep_def)
  then show ?thesis using hstep_drain [OF assms] by (simp add: memGate_def split_beta Let_def)
qed

lemma conn_ok_queue: "conn_ok P k cs w \<Longrightarrow> Multi cs \<Longrightarrow> conn_ok P k (cs\<lparr>QueueErr := x\<rparr>) w"
  "conn_ok P k cs w \<Longrightarrow> Multi cs \<Longrightarrow> plain q \<Longrightarrow> conn_ok P k (cs\<lparr>Queue := Queue cs @ [q]\<rparr>) w"
  by (auto simp: conn_ok_def watch_ok_def)

lemma conn_ok_sel:
  "Shards w' = Shards w \<Longrightarrow> PubSub w' = PubSub w \<Longrightarrow> conn_ok P k cs w' = conn_ok P k cs w"
  by (simp add: conn_ok_def watch_ok_def)

lemma runHandler_ok:
  assumes E: "env_ok k E" and w: "world_ok k E w" and c: "conn_ok (pk E) k cs w" and q: "\<not> queueable cs name"
    and sub: "name = ''multi'' \<Longrightarrow> \<not> (Proto cs = 2 \<and> 0 < subCount (Ps cs))"
    and x: "runHandler E d name cs args w = (r, cs', w')"
  shows "hstep k E cs w cs' w' \<and> conn_ok (pk E) k cs' w'"
proof -
  obtain v cs1 w1 where h: "handler E name cs args w = (v, cs1, w1)" by (rule prod_cases3)
  have L: "pluto_laws (pk E) k" using E by (simp add: env_ok_def)
  from handler_ok [OF E w c q sub h] have 1: "hstep k E cs w cs1 w1" "conn_ok (pk E) k cs1 w1" by auto
  have watch: "watch_ok (pk E) k cs1 (drain E w1)"
    using hstep_watch [OF E hstep_drain [OF L hstep_refl] hstepD(1) [OF E 1(1) w] _ order_refl, of cs1] 1(2) by (simp add: conn_ok_def)
  have e: "cs' = noteCommand name cs1" "Shards w' = Shards (drain E w1)" "PubSub w' = PubSub (drain E w1)"
    using x h by (auto simp: runHandler_def split_beta Let_def)
  show ?thesis
    using hstep_drain [OF L 1(1)] 1(2) watch by (simp add: e hstep_def conn_ok_def watch_ok_def)
qed

text \<open>Every command, whatever its outcome, is a step of the engine that keeps the invariants.\<close>

lemma Execute_ok:
  assumes E: "env_ok k E" and w: "world_ok k E w0" and c: "conn_ok (pk E) k cs w0" and x: "Execute E cs args w0 = (r, cs', w')"
  shows "hstep k E cs w0 cs' w' \<and> conn_ok (pk E) k cs' w'"
proof (cases "args = []")
  case True
  then show ?thesis using x c by (simp add: Execute_def)
next
  case False
  define w where "w = w0\<lparr>totalCmds := wrap64 (totalCmds w0 + 1)\<rparr>"
  define name where "name = lowerASCII (args ! 0)"
  define w1 where "w1 = snd (memGate E w)"
  have L: "pluto_laws (pk E) k" using E by (simp add: env_ok_def)
  have h0: "hstep k E cs w0 cs w" "Shards w = Shards w0" "PubSub w = PubSub w0" by (simp_all add: w_def hstep_def)
  then have c0: "conn_ok (pk E) k cs w" using c conn_ok_sel [OF h0(2,3), of "pk E" k cs] by simp
  have h1: "hstep k E cs w0 cs w1"
    unfolding w1_def by (rule hstep_trans [OF h0(1) memGate_ok [OF L]]) (simp add: h0(2))
  note k1 = hstepD [OF E h1 w]
  have c1: "conn_ok (pk E) k cs w1" using h1 c k1(2) hstep_watch [OF E h1 w _ order_refl] by (auto simp: hstep_def conn_ok_def good_step_def)
  have set: "hstep k E cs w0 (cs\<lparr>QueueErr := a\<rparr>) u = hstep k E cs w0 cs u" "hstep k E cs w0 (cs\<lparr>Queue := b\<rparr>) u = hstep k E cs w0 cs u"
    "hstep k E cs w0 (clearTx cs) u = hstep k E cs w0 cs u" for a b u by (simp_all add: hstep_def)
  have clear: "conn_ok (pk E) k (clearTx cs) u" if "conn_ok (pk E) k cs u" for u
    using that by (simp add: conn_ok_def watch_ok_def)
  define dd where "dd = (if queueable cs name then cs\<lparr>QueueErr := True\<rparr> else cs)"
  have dd: "hstep k E cs w0 dd u = hstep k E cs w0 cs u" "conn_ok (pk E) k cs u \<Longrightarrow> conn_ok (pk E) k dd u" for u
    by (auto simp: dd_def set conn_ok_queue queueable_def)
  show ?thesis
  proof (cases "table name")
    case None
    then show ?thesis using x False h0 c0 dd by (auto simp: Execute_def Let_def w_def [symmetric] name_def [symmetric] dd_def [symmetric])
  next
    case (Some d)
    show ?thesis
    proof (cases "authGate cs w name = None \<and> arity_ok d args \<and> subGate cs name args = None \<and> busyGate w name args = None")
      case False
      then show ?thesis
        using x \<open>args \<noteq> []\<close> Some h0 c0 dd
        by (auto simp: Execute_def Let_def w_def [symmetric] name_def [symmetric] dd_def [symmetric] split: option.splits if_splits)
    next
      case True
      have sub: "name = ''multi'' \<Longrightarrow> \<not> (Proto cs = 2 \<and> 0 < subCount (Ps cs))"
        using True by (auto simp: subGate_def gatedFullname_def containerSubs_def Let_def split: if_splits)
      have q: "conn_ok (pk E) k (cs\<lparr>Queue := Queue cs @ [args]\<rparr>) w1" if "queueable cs name"
        by (rule conn_ok_queue(2) [OF c1]) (use that Some True \<open>args \<noteq> []\<close> in \<open>auto simp: plain_def queueable_def name_def\<close>)
      have r: "hstep k E cs w0 cs' w' \<and> conn_ok (pk E) k cs' w'" if "runHandler E d name cs args w1 = (r, cs', w')" "\<not> queueable cs name"
        using runHandler_ok [OF E k1(1) c1 that(2) sub that(1)] hstep_trans [OF h1 _ k1(2)] by auto
      obtain m where m: "memGate E w = (m, w1)" by (cases "memGate E w") (simp add: w1_def)
      have "(if m \<and> name = ''exec'' \<and> queueHasDenyOOM cs
             then (RErr (''EXECABORT Transaction discarded because of: '' @ errOOMText), clearTx cs, w1)
             else if m \<and> queueable cs name then (errOOM, dd, w1)
             else if m \<and> hasFlag d ''denyoom'' then (errOOM, cs, w1)
             else if queueable cs name then (replyQueued, cs\<lparr>Queue := Queue cs @ [args]\<rparr>, w1)
             else runHandler E d name cs args w1) = (r, cs', w')"
        using x \<open>args \<noteq> []\<close> Some True m unfolding Execute_def Let_def w_def [symmetric] name_def [symmetric] dd_def [symmetric]
        by (simp only: option.case if_False if_True simp_thms case_prod_conv split: if_split)
      then show ?thesis using h1 c1 dd set clear q r by (auto split: if_splits)
    qed
  qed
qed

section \<open>The server\<close>

text \<open>
  All connections over one engine. A step is one call of the engine: a connection arrives, runs a
  command, takes its pending frames, or leaves; the clock advances, or a shard's active expiry runs.
  The surroundings (map orders, random numbers, clock readings) may differ at every command.
\<close>

record ('q, 'z, 't, 'h, 'l, 'f) server =
  engine :: "('q, 'z, 't, 'h, 'l, 'f) world"
  clients :: "nat \<rightharpoonup> conn"
  clientID :: nat

inductive server_step ::
  "('q, 'z, 't, 'h, 'l, 'f) packages \<Rightarrow> nat \<Rightarrow> ('q, 'z, 't, 'h, 'l, 'f) server \<Rightarrow> ('q, 'z, 't, 'h, 'l, 'f) server \<Rightarrow> bool"
  for P k where
  s_connect: "server_step P k s (s\<lparr>clients := (clients s)(clientID s + 3 \<mapsto> NewConnState (clientID s + 3) addr start), clientID := clientID s + 1\<rparr>)"
| s_execute: "\<lbrakk>clients s i = Some cs; pk E = P; env_ok k E; Execute E cs args (engine s) = (r, cs', w')\<rbrakk> \<Longrightarrow>
    server_step P k s (s\<lparr>engine := w', clients := (clients s)(i \<mapsto> cs')\<rparr>)"
| s_drain: "clients s i = Some cs \<Longrightarrow> server_step P k s (s\<lparr>clients := (clients s)(i \<mapsto> snd (DrainOutbox cs))\<rparr>)"
| s_close: "clients s i = Some cs \<Longrightarrow>
    server_step P k s (s\<lparr>engine := snd (CloseConn cs (engine s)), clients := (clients s)(i := None)\<rparr>)"
| s_tick: "0 \<le> t \<Longrightarrow> server_step P k s (s\<lparr>engine := (engine s)\<lparr>Shards := (Shards (engine s))\<lparr>NowMs := t\<rparr>\<rparr>\<rparr>)"
| s_sweep: "\<lbrakk>pk E = P; sweep P i (NowMs (Shards (engine s))) limit late (Shards (engine s)) = Some (n, g)\<rbrakk> \<Longrightarrow>
    server_step P k s (s\<lparr>engine := drain E ((engine s)\<lparr>Shards := g\<rparr>)\<rparr>)"

definition server_ok :: "('q, 'z, 't, 'h, 'l, 'f) packages \<Rightarrow> nat \<Rightarrow> ('q, 'z, 't, 'h, 'l, 'f) server \<Rightarrow> bool" where
  "server_ok P k s \<longleftrightarrow> db_inv P k (Shards (engine s)) \<and> evict_safe P (Shards (engine s)) \<and> 0 \<le> NowMs (Shards (engine s)) \<and>
     broker_inv (PubSub (engine s)) \<and> 0 < maxDBs (Shards (engine s)) \<and>
     (\<forall>i cs. clients s i = Some cs \<longrightarrow> conn_ok P k cs (engine s) \<and> c_id (Ps cs) = i \<and> i < clientID s + 3) \<and>
     (\<forall>i name. clients s i = None \<longrightarrow> \<not> on (channels (PubSub (engine s))) name i \<and> \<not> on (patterns (PubSub (engine s))) name i)"

text \<open>What a step of connection \<open>i\<close> means for everybody else.\<close>

lemma conn_ok_other:
  assumes "conn_ok P k cs w" "c_id (Ps cs) \<noteq> i" "same_others i (PubSub w) (PubSub w')" "maxDBs (Shards w') = maxDBs (Shards w)"
    "watch_ok P k cs w'"
  shows "conn_ok P k cs w'"
proof -
  have "in_step (Ps cs) (PubSub w')" using assms(1-3) by (simp add: conn_ok_def in_step_def same_others_def on_def)
  then show ?thesis using assms(1,4,5) by (simp add: conn_ok_def)
qed

text \<open>Connection \<open>i\<close> acted on the engine, and stays (\<open>Some\<close>) or is gone (\<open>None\<close>).\<close>

lemma server_ok_update:
  assumes L: "pluto_laws P k" and s: "server_ok P k s" and a: "acts P k (Shards (engine s)) (Shards w')"
    and i: "clients s i = Some cs" and b: "broker_inv (PubSub w')" and o: "same_others i (PubSub (engine s)) (PubSub w')"
    and c: "case upd of Some cs' \<Rightarrow> conn_ok P k cs' w' \<and> c_id (Ps cs') = i
      | None \<Rightarrow> \<forall>name. \<not> on (channels (PubSub w')) name i \<and> \<not> on (patterns (PubSub w')) name i"
  shows "server_ok P k (s\<lparr>engine := w', clients := (clients s)(i := upd)\<rparr>)"
proof -
  have g: "db_inv P k (Shards (engine s))" "evict_safe P (Shards (engine s))" using s by (auto simp: server_ok_def)
  have k: "db_inv P k (Shards w')" "evict_safe P (Shards w')" "0 \<le> NowMs (Shards w')" "maxDBs (Shards w') = maxDBs (Shards (engine s))"
    using pluto_laws.acts_keep [OF L a] pluto_laws.acts_now [OF L a] s by (auto simp: server_ok_def)
  have other: "conn_ok P k cs2 w'" if "clients s j = Some cs2" "j \<noteq> i" for j cs2
  proof -
    have c2: "conn_ok P k cs2 (engine s)" "c_id (Ps cs2) \<noteq> i" using that s by (auto simp: server_ok_def)
    then have "watch_ok P k cs2 w'" using watch_ok_mono [OF L a g _ order_refl] by (simp add: conn_ok_def)
    with conn_ok_other [OF c2 o k(4)] show ?thesis by simp
  qed
  have gone: "on (channels (PubSub w')) name j = on (channels (PubSub (engine s))) name j"
    "on (patterns (PubSub w')) name j = on (patterns (PubSub (engine s))) name j" if "j \<noteq> i" for j name
    using o that by (simp_all add: same_others_def on_def)
  show ?thesis
    using s i k b c other gone by (auto simp: server_ok_def split: option.splits if_splits)
qed

lemma server_ok_acts:
  assumes s: "server_ok P k s" and L: "pluto_laws P k" and a: "acts P k (Shards (engine s)) (Shards w')" and b: "PubSub w' = PubSub (engine s)"
  shows "server_ok P k (s\<lparr>engine := w'\<rparr>)"
proof -
  have g: "db_inv P k (Shards (engine s))" "evict_safe P (Shards (engine s))" using s by (auto simp: server_ok_def)
  have k: "db_inv P k (Shards w')" "evict_safe P (Shards w')" "0 \<le> NowMs (Shards w')" "maxDBs (Shards w') = maxDBs (Shards (engine s))"
    using pluto_laws.acts_keep [OF L a] pluto_laws.acts_now [OF L a] s by (auto simp: server_ok_def)
  have "conn_ok P k cs w'" if "conn_ok P k cs (engine s)" for cs
    using that watch_ok_mono [OF L a g, of cs cs] k(4) b by (simp add: conn_ok_def)
  then show ?thesis using s b k by (auto simp: server_ok_def)
qed

lemma server_step_ok:
  assumes "server_step P k s s'" "server_ok P k s" and L: "pluto_laws P k"
  shows "server_ok P k s'"
  using assms(1,2)
proof induction
  case (s_connect s addr start)
  let ?i = "clientID s + 3"
  have n: "clients s ?i = None" using s_connect by (cases "clients s ?i") (auto simp: server_ok_def)
  then have "conn_ok P k (NewConnState ?i addr start) (engine s)"
    using s_connect by (simp add: server_ok_def conn_ok_def NewConnState_def in_step_def watch_ok_def)
  moreover have "i < clientID s + 1 + 3" if "clients s i = Some cs" for i cs using that s_connect by (force simp: server_ok_def)
  ultimately show ?case using s_connect by (auto simp: server_ok_def NewConnState_def)
next
  case (s_execute s i cs E args r cs' w')
  have w: "world_ok k E (engine s)" and c: "conn_ok P k cs (engine s)" "c_id (Ps cs) = i"
    using s_execute by (auto simp: server_ok_def world_ok_def)
  have x: "hstep k E cs (engine s) cs' w'" "conn_ok P k cs' w'"
    using Execute_ok [OF s_execute(3) w _ s_execute(4)] c(1) s_execute(2) by auto
  have k: "world_ok k E w'" "maxDBs (Shards w') = maxDBs (Shards (engine s))" using hstepD [OF s_execute(3) x(1) w] by auto
  show ?case
    by (rule server_ok_update [OF L s_execute(5) _ s_execute(1)])
      (use k x c s_execute(2) in \<open>auto simp: world_ok_def hstep_def good_step_def\<close>)
next
  case (s_drain s i cs)
  then have c: "conn_ok P k cs (engine s)" "c_id (Ps cs) = i" by (auto simp: server_ok_def)
  then have d: "conn_ok P k (snd (DrainOutbox cs)) (engine s) \<and> c_id (Ps (snd (DrainOutbox cs))) = i"
    by (simp add: conn_ok_def DrainOutbox_def in_step_def watch_ok_def subCount_def)
  have "server_ok P k (s\<lparr>engine := engine s, clients := (clients s)(i := Some (snd (DrainOutbox cs)))\<rparr>)"
    by (rule server_ok_update [OF L s_drain(2) _ s_drain(1)]) (use d s_drain(2) in \<open>simp_all add: server_ok_def same_others_def\<close>)
  then show ?case by simp
next
  case (s_close s i cs)
  have b: "broker_inv (PubSub (engine s))" and c: "c_id (Ps cs) = i" using s_close by (auto simp: server_ok_def)
  obtain chs pats b' where u: "UnsubscribeAll (PubSub (engine s)) i = ((chs, pats), b')" by (metis prod.exhaust)
  show ?case
    by (rule server_ok_update [OF L s_close(2) _ s_close(1)])
      (use s_close(2) UnsubscribeAll_spec [OF b u] u c in \<open>auto simp: server_ok_def CloseConn_def Let_def\<close>)
next
  case (s_tick t s)
  then show ?case by (auto intro!: server_ok_acts [OF _ L] act.a_tick)
next
  case (s_sweep E i s limit late n g)
  have "act P k (Shards (engine s)) g" by (rule act.a_sweep [OF s_sweep(2)])
  moreover have "aside g (g\<lparr>events := []\<rparr>)" by (simp add: aside_def quiet_def)
  ultimately have "acts P k (Shards (engine s)) (g\<lparr>events := []\<rparr>)" by (blast intro: pluto_laws.acts_aside [OF L])
  with s_sweep show ?case by (intro server_ok_acts [OF _ L]) auto
qed

lemma server_reachable_ok:
  assumes "(server_step P k)\<^sup>*\<^sup>* s s'" "server_ok P k s" "pluto_laws P k"
  shows "server_ok P k s'"
  using assms by (induction rule: rtranclp_induct) (auto intro: server_step_ok)

end
