(* ===== verification/Transactions.thy ===== *)
theory Transactions
  imports Server
begin

text \<open>
  What clients may rely on: a transaction whose watched keys were written in the meantime does
  nothing (\<open>exec_moved\<close>, and \<open>watch_write_exec\<close> for whole runs of the server), an error while
  queueing discards the transaction, and without the password a connection reaches no key.
\<close>

section \<open>Optimistic locking\<close>

definition moved :: "('q, 'z, 't, 'h, 'l, 'f) packages \<Rightarrow> nat \<Rightarrow> ('q, 'z, 't, 'h, 'l, 'f) st \<Rightarrow> watchRef \<Rightarrow> bool" where
  "moved P k g x \<longleftrightarrow> stamp_less (w_epoch x, w_ver x) (stamp P k g (w_db x) (w_key x))"

text \<open>Keys can only disappear (expire or be evicted) between two states.\<close>

definition only_drops :: "('q, 'z, 't, 'h, 'l, 'f) packages \<Rightarrow> ('q, 'z, 't, 'h, 'l, 'f) st \<Rightarrow> ('q, 'z, 't, 'h, 'l, 'f) st \<Rightarrow> bool" where
  "only_drops P g g' \<longleftrightarrow> (\<forall>db key. view P g' db key = view P g db key \<or> view P g' db key = None)"

lemma only_drops_refl [simp]: "only_drops P g g"
  by (simp add: only_drops_def)

lemma only_drops_trans: "only_drops P g g1 \<Longrightarrow> only_drops P g1 g2 \<Longrightarrow> only_drops P g g2"
  by (simp add: only_drops_def) metis

lemma only_drops_aside: "aside g g' \<Longrightarrow> only_drops P g g'"
  by (simp add: only_drops_def asideD(4))

lemma only_drops_kv:
  assumes "only_drops P g g'" "NowMs g' = NowMs g"
  shows "kv P g' db key = kv P g db key \<or> kv P g' db key = None"
  using spec [OF spec [OF assms(1) [unfolded only_drops_def], of db], of key] 
  by (cases "view P g db key") (auto simp: kv_view assms(2))

lemma watch_ok_moved:
  assumes "watch_ok P k cs w" "x \<in> set (Watched cs)"
  shows "moved P k (Shards w) x \<longleftrightarrow> stamp P k (Shards w) (w_db x) (w_key x) \<noteq> (w_epoch x, w_ver x)"
proof -
  have "stamp_le (w_epoch x, w_ver x) (stamp P k (Shards w) (w_db x) (w_key x))" using assms by (simp add: watch_ok_def)
  then show ?thesis unfolding moved_def stamp_le_def using stamp_less_irrefl by metis
qed

context pluto_laws
begin

lemma moved_acts:
  assumes "acts P k g g'" "db_inv P k g" "evict_safe P g" "moved P k g x" "w_db x < maxDBs g"
  shows "moved P k g' x"
  using acts_stamps [OF assms(1-3)] assms(4,5) stamp_less_le_trans unfolding moved_def stamps_grow_def by blast

lemma evict_drops:
  assumes "db_inv P k g" "evict_safe P g"
  shows "only_drops P g (maybeEvict P i g)"
  unfolding only_drops_def
proof (intro allI)
  fix db key
  show "view P (maybeEvict P i g) db key = view P g db key \<or> view P (maybeEvict P i g) db key = None"
    using maybeEvict_summary [OF db_invD(1) [OF assms(1)] assms(2), of i] by (elim conjE allE [of _ db] allE [of _ key]) auto
qed

lemma evictNow_drops:
  "db_inv P k g \<Longrightarrow> evict_safe P g \<Longrightarrow>
     only_drops P g (snd (evictNow_loop P q is over g)) \<and> NowMs (snd (evictNow_loop P q is over g)) = NowMs g"
proof (induction "is" arbitrary: over g)
  case (Cons i js)
  let ?g1 = "maybeEvict P i g" and ?g2 = "maybeEvict P i (maybeEvict P i g)"
  have a: "acts P k g ?g1" "acts P k ?g1 ?g2" by (simp_all add: acts_maybeEvict)
  have 1: "db_inv P k ?g1" "evict_safe P ?g1" using acts_keep [OF a(1) Cons.prems] by auto
  then have 2: "db_inv P k ?g2" "evict_safe P ?g2" using acts_keep [OF a(2)] by auto
  have "only_drops P g ?g2" using only_drops_trans [OF evict_drops [OF Cons.prems] evict_drops [OF 1]] .
  from only_drops_trans [OF this] show ?case using Cons.IH [OF 2] by (simp add: Let_def)
qed simp

lemma dirty_task:
  assumes g: "db_inv P k g" "evict_safe P g" and x: "w_db x < maxDBs g" "stamp_le (w_epoch x, w_ver x) (stamp P k g (w_db x) (w_key x))"
    and d: "doKey P (w_key x) (\<lambda>i g. WatchDirty P i g (w_db x) (w_key x) (w_epoch x) (w_ver x)) g = (dirty, g')"
  shows "moved P k g x \<Longrightarrow> dirty" "acts P k g g'" "only_drops P g g'" "NowMs g' = NowMs g"
proof -
  let ?i = "ShardIndex P k (w_key x)"
  let ?D = "WatchDirty P ?i g (w_db x) (w_key x) (w_epoch x) (w_ver x)"
  have e: "dirty = fst ?D" "g' = maybeEvict P ?i (snd ?D)"
    using d db_invD(8) [OF g(1)] by (auto simp: doKey_def split_beta Let_def)
  show "moved P k g x \<Longrightarrow> dirty"
    using WatchDirty_stamp [OF db_invD(4) [OF g(1)] x] by (auto simp: e moved_def)
  have 1: "acts P k g (snd ?D)" by (rule watch_task_acts(2) [OF pluto_laws_axioms x(1)])
  then show "acts P k g g'" unfolding e by (rule acts_maybeEvict)
  have D: "snd ?D = g \<or> snd ?D = snd (Lookup P ?i g (w_db x) (w_key x))"
    by (auto simp: WatchDirty_def split_beta Let_def split: option.split)
  then have "only_drops P g (snd ?D)" "NowMs (snd ?D) = NowMs g"
    using view_Lookup [of ?i g "w_db x" "w_key x"] by (auto simp: only_drops_def vupd_def live_def split: option.splits if_splits)
  moreover have "only_drops P (snd ?D) g'"
    using evict_drops [of "snd ?D" ?i] acts_keep [OF 1 g] by (simp add: e(2))
  ultimately show "only_drops P g g'" "NowMs g' = NowMs g" using only_drops_trans by (auto simp: e)
qed

lemma dirty_loop_moved:
  "\<lbrakk>db_inv P k g; evict_safe P g;
    \<forall>x \<in> set xs. w_db x < maxDBs g \<and> stamp_le (w_epoch x, w_ver x) (stamp P k g (w_db x) (w_key x))\<rbrakk> \<Longrightarrow>
   ((\<exists>x \<in> set xs. moved P k g x) \<longrightarrow> fst (dirty_loop P xs g)) \<and> only_drops P g (snd (dirty_loop P xs g)) \<and>
     NowMs (snd (dirty_loop P xs g)) = NowMs g"
proof (induction xs arbitrary: g)
  case (Cons x xs)
  obtain dirty g1 where d: "doKey P (w_key x) (\<lambda>i g. WatchDirty P i g (w_db x) (w_key x) (w_epoch x) (w_ver x)) g = (dirty, g1)"
    by (metis prod.exhaust)
  note T = dirty_task [OF Cons.prems(1,2) _ _ d]
  have x: "w_db x < maxDBs g" "stamp_le (w_epoch x, w_ver x) (stamp P k g (w_db x) (w_key x))" using Cons.prems(3) by auto
  show ?case
  proof (cases dirty)
    case True
    then show ?thesis using d T(3,4) [OF x] by simp
  next
    case False
    then have n: "\<not> moved P k g x" using T(1) [OF x] by blast
    have g1: "db_inv P k g1" "evict_safe P g1" "maxDBs g1 = maxDBs g" using acts_keep [OF T(2) [OF x] Cons.prems(1,2)] by auto
    have "\<forall>y \<in> set xs. w_db y < maxDBs g1 \<and> stamp_le (w_epoch y, w_ver y) (stamp P k g1 (w_db y) (w_key y))"
    proof
      fix y assume "y \<in> set xs"
      then have y: "w_db y < maxDBs g" "stamp_le (w_epoch y, w_ver y) (stamp P k g (w_db y) (w_key y))" using Cons.prems(3) by auto
      moreover have "stamp_le (stamp P k g (w_db y) (w_key y)) (stamp P k g1 (w_db y) (w_key y))"
        using acts_stamps [OF T(2) [OF x] Cons.prems(1,2)] y(1) by (simp add: stamps_grow_def)
      ultimately show "w_db y < maxDBs g1 \<and> stamp_le (w_epoch y, w_ver y) (stamp P k g1 (w_db y) (w_key y))"
        using g1(3) stamp_le_trans by simp
    qed
    note IH = Cons.IH [OF g1(1,2) this]
    moreover have "\<exists>y \<in> set xs. moved P k g1 y" if "\<exists>y \<in> set (x # xs). moved P k g y"
      using that n moved_acts [OF T(2) [OF x] Cons.prems(1,2)] Cons.prems(3) by auto
    ultimately show ?thesis using d False T(3,4) [OF x] only_drops_trans by auto
  qed
qed simp

end

text \<open>EXEC over a watched key that moved: the null reply, and nothing of the queue has run.\<close>

lemma exec_moved:
  assumes E: "env_ok k E" and w: "world_ok k E w" and c: "conn_ok (pk E) k cs w" and m: "Multi cs" "\<not> QueueErr cs"
    and x: "x \<in> set (Watched cs)" "moved (pk E) k (Shards w) x"
    and h: "handler E ''exec'' cs [a] w = (r, cs', w')"
  shows "r = RNull \<and> cs' = clearTx cs \<and> w' = w\<lparr>Shards := Shards w'\<rparr> \<and>
    (\<forall>db key. kv (pk E) (Shards w') db key = kv (pk E) (Shards w) db key \<or> kv (pk E) (Shards w') db key = None)"
proof -
  let ?D = "dirty_loop (pk E) (Watched cs) (Shards w)"
  have L: "pluto_laws (pk E) k" using E by (simp add: env_ok_def)
  have D: "fst ?D" "only_drops (pk E) (Shards w) (snd ?D)" "NowMs (snd ?D) = NowMs (Shards w)"
    using pluto_laws.dirty_loop_moved [OF L, of "Shards w" "Watched cs"] w c x by (auto simp: world_ok_def conn_ok_def watch_ok_def)
  then have "r = RNull" "cs' = clearTx cs" "w' = w\<lparr>Shards := snd ?D\<rparr>"
    using h m by (auto simp: handler_def cmdExec_def split_beta Let_def)
  then show ?thesis using only_drops_kv [OF D(2,3)] by simp
qed

text \<open>Every step of the server is a run of the engine, and keeps what has moved.\<close>

lemma server_step_acts:
  assumes "server_step P k s s'" "server_ok P k s" and L: "pluto_laws P k"
  shows "acts P k (Shards (engine s)) (Shards (engine s'))"
  using assms(1,2)
proof cases
  case (s_execute i cs E args r cs' w')
  have w: "world_ok k E (engine s)" and c: "conn_ok (pk E) k cs (engine s)"
    using s_execute assms(2) by (auto simp: server_ok_def world_ok_def)
  then show ?thesis using Execute_ok [OF s_execute(4) w c s_execute(5)] s_execute by (auto simp: hstep_def)
next
  case (s_tick t)
  then show ?thesis using act.a_tick [of t P k] by auto
next
  case (s_sweep E i limit late n g)
  have "act P k (Shards (engine s)) g" by (rule act.a_sweep [OF s_sweep(3)])
  moreover have "aside g (g\<lparr>events := []\<rparr>)" by (simp add: aside_def quiet_def)
  ultimately have "acts P k (Shards (engine s)) (g\<lparr>events := []\<rparr>)" by (blast intro: pluto_laws.acts_aside [OF L])
  then show ?thesis by (simp add: s_sweep)
qed (auto simp: CloseConn_def Let_def)

lemma server_steps_acts:
  assumes "(server_step P k)\<^sup>*\<^sup>* s s'" "server_ok P k s" "pluto_laws P k"
  shows "acts P k (Shards (engine s)) (Shards (engine s'))" "server_ok P k s'"
proof -
  show "server_ok P k s'" using server_reachable_ok [OF assms] .
  show "acts P k (Shards (engine s)) (Shards (engine s'))"
    using assms(1)
  proof induction
    case (step s1 s2)
    then show ?case using server_step_acts [OF step(2)] server_reachable_ok [OF step(1) assms(2,3)] assms(3) by (auto intro: rtranclp_trans)
  qed simp
qed

text \<open>
  A run of the server: at \<open>s1\<close> a connection watches a key, before \<open>s2\<close> anybody writes the key, and at
  \<open>s2\<close> the connection, still watching, calls EXEC.
\<close>

lemma watch_write_exec:
  assumes L: "pluto_laws P k" and s1: "server_ok P k s1" "clients s1 i = Some cs1" "x \<in> set (Watched cs1)"
    and run: "(server_step P k)\<^sup>*\<^sup>* s1 s2"
    and wr: "(kstep P k)\<^sup>*\<^sup>* (Shards (engine s1)) g1" "writes P k (w_db x) (w_key x) g1 g2" "(kstep P k)\<^sup>*\<^sup>* g2 (Shards (engine s2))"
    and c: "clients s2 i = Some cs" "x \<in> set (Watched cs)" "Multi cs" "\<not> QueueErr cs"
    and E: "env_ok k E" "pk E = P" and h: "handler E ''exec'' cs [a] (engine s2) = (r, cs', w')"
  shows "r = RNull \<and> cs' = clearTx cs \<and> w' = (engine s2)\<lparr>Shards := Shards w'\<rparr> \<and>
    (\<forall>db key. kv P (Shards w') db key = kv P (Shards (engine s2)) db key \<or> kv P (Shards w') db key = None)"
proof -
  let ?g = "Shards (engine s1)"
  have g: "eng_inv P k ?g" "conf_ok k ?g" using s1(1) by (auto simp: server_ok_def dest: db_invD)
  have x: "w_db x < maxDBs ?g" "stamp_le (w_epoch x, w_ver x) (stamp P k ?g (w_db x) (w_key x))"
    using s1 by (auto simp: server_ok_def conn_ok_def watch_ok_def)
  note k1 = pluto_laws.ksteps_keep [OF L wr(1) g]
  have d1: "w_db x < maxDBs g1" using k1 x(1) by simp
  have w: "stamp_less (stamp P k g1 (w_db x) (w_key x)) (stamp P k g2 (w_db x) (w_key x))" "kstep P k g1 g2"
    using pluto_laws.writes_stamp [OF L wr(2) _ _ d1] k1 by auto
  have k2: "eng_inv P k g2" "conf_ok k g2" "maxDBs g2 = maxDBs g1" using pluto_laws.kstep_keeps [OF L w(2)] k1 by auto
  note k3 = pluto_laws.ksteps_keep [OF L wr(3) k2(1,2)]
  have "stamp_le (stamp P k ?g (w_db x) (w_key x)) (stamp P k g1 (w_db x) (w_key x))"
    "stamp_le (stamp P k g2 (w_db x) (w_key x)) (stamp P k (Shards (engine s2)) (w_db x) (w_key x))"
    using k1 k3 x(1) d1 k2(3) by (simp_all add: stamps_grow_def)
  then have m: "moved P k (Shards (engine s2)) x"
    unfolding moved_def using x(2) w(1) by (blast intro: stamp_le_less_trans stamp_less_le_trans stamp_le_trans)
  note s2 = server_reachable_ok [OF run s1(1) L]
  show ?thesis
    by (rule exec_moved [OF E(1) _ _ c(3,4,2) _ h, unfolded E(2)]) (use s2 c(1) m E(2) in \<open>auto simp: server_ok_def world_ok_def\<close>)
qed

section \<open>The memory gate\<close>

text \<open>Before a command runs, the memory gate may evict; otherwise it changes nothing.\<close>

lemma memGate_drops:
  assumes E: "pluto_laws (pk E) k" and w: "world_ok k E w" and m: "memGate E w = (out, w1)"
  shows "only_drops (pk E) (Shards w) (Shards w1)" "NowMs (Shards w1) = NowMs (Shards w)" "PubSub w1 = PubSub w"
    "requirePass w1 = requirePass w" "\<not> OverMemory (Shards w) \<Longrightarrow> w1 = w \<and> \<not> out"
proof -
  let ?g = "snd (EvictNow (pk E) (Shards w))"
  have g: "db_inv (pk E) k (Shards w)" "evict_safe (pk E) (Shards w)" using w by (simp_all add: world_ok_def)
  have d: "only_drops (pk E) (Shards w) ?g" "NowMs ?g = NowMs (Shards w)"
    using pluto_laws.evictNow_drops [OF E g] by (simp_all add: EvictNow_def)
  have w1: "w1 = w \<or> w1 = drain E (w\<lparr>Shards := ?g\<rparr>)" "\<not> OverMemory (Shards w) \<Longrightarrow> w1 = w \<and> \<not> out"
    using m by (auto simp: memGate_def split_beta Let_def split: if_splits)
  then show "only_drops (pk E) (Shards w) (Shards w1)" "NowMs (Shards w1) = NowMs (Shards w)" "PubSub w1 = PubSub w"
    "requirePass w1 = requirePass w" "\<not> OverMemory (Shards w) \<Longrightarrow> w1 = w \<and> \<not> out"
    using only_drops_trans [OF d(1) only_drops_aside] d(2) by (auto simp: aside_def quiet_def)
qed

section \<open>Queueing\<close>

definition gates :: "('q, 'z, 't, 'h, 'l, 'f) env \<Rightarrow> conn \<Rightarrow> string list \<Rightarrow> ('q, 'z, 't, 'h, 'l, 'f) world \<Rightarrow> rv option" where
  "gates E cs args w =
     (let name = lowerASCII (args ! 0)
      in case authGate cs w name of
           Some err \<Rightarrow> Some err
         | None \<Rightarrow> (case subGate cs name args of Some err \<Rightarrow> Some err | None \<Rightarrow> busyGate w name args))"

lemma gates_err: "gates E cs args w = Some r \<Longrightarrow> isErr r"
  by (auto simp: gates_def authGate_def subGate_def busyGate_def errNoAuth_def errBusy_def isErr_def Let_def split: option.splits if_splits)

text \<open>
  A command sent inside MULTI has one of three outcomes: it is queued; it is rejected (unknown, wrong
  number of arguments, out of memory) and the transaction is marked; or a gate refuses it (no
  password, subscribe mode, a busy script) and the transaction is as before. No key is written.
\<close>

lemma queueing:
  assumes L: "pluto_laws (pk E) k" and w: "world_ok k E w" and a: "args \<noteq> []" "queueable cs (lowerASCII (args ! 0))"
    and x: "Execute E cs args w = (r, cs', w')"
  shows "r = replyQueued \<and> cs' = cs\<lparr>Queue := Queue cs @ [args]\<rparr> \<and> plain args \<or>
      isErr r \<and> cs' = cs\<lparr>QueueErr := True\<rparr> \<or>
      gates E cs args w = Some r \<and> cs' = cs" (is ?A)
    and "kv (pk E) (Shards w') db key = kv (pk E) (Shards w) db key \<or> kv (pk E) (Shards w') db key = None" (is ?B)
proof -
  define u where "u = w\<lparr>totalCmds := wrap64 (totalCmds w + 1)\<rparr>"
  obtain out w1 where m: "memGate E u = (out, w1)" by (metis prod.exhaust)
  have u: "world_ok k E u" "Shards u = Shards w" using w by (simp_all add: u_def world_ok_def)
  have g: "authGate cs u = authGate cs w" "busyGate u = busyGate w"
    by (simp_all add: fun_eq_iff authGate_def busyGate_def u_def)
  have n: "lowerASCII (args ! 0) \<noteq> ''exec''" using a(2) by (auto simp: queueable_def txControl_def)
  note M = memGate_drops [OF L u(1) m]
  have kv1: "kv (pk E) (Shards w1) db key = kv (pk E) (Shards w) db key \<or> kv (pk E) (Shards w1) db key = None"
    using only_drops_kv [OF M(1,2)] u(2) by simp
  show ?A
    using x a m n by (auto simp: Execute_def Let_def u_def [symmetric] g gates_def isErr_def errUnknownCommand_def errArity_def errOOM_def
        plain_def queueable_def split: option.splits if_splits)
  show ?B
    using x a m n kv1 u(2) by (auto simp: Execute_def Let_def u_def [symmetric] split: option.splits if_splits)
qed

text \<open>EXEC after a rejected command: the transaction is discarded and none of it runs.\<close>

lemma exec_after_error:
  assumes "Multi cs" "QueueErr cs" "handler E ''exec'' cs [a] w = (r, cs', w')"
  shows "r = errExecAbort \<and> cs' = clearTx cs \<and> w' = w"
  using assms by (simp add: handler_def cmdExec_def)

section \<open>Authentication\<close>

lemma hello_auth: "hello_loop xs au nm = Inr (Some (u, p), nm') \<Longrightarrow> p \<in> set xs \<or> au = Some (u, p)"
  by (induction xs au nm rule: hello_loop.induct) (auto split: if_splits list.splits)

lemma authAttempt_None: "authAttempt pw user pass = None \<Longrightarrow> pw \<noteq> [] \<Longrightarrow> pass = pw"
  by (simp add: authAttempt_def split: if_splits)

definition preauth :: "string list" where
  "preauth = [''auth'', ''hello'', ''quit'', ''reset'']"

text \<open>The handlers a connection reaches without the password: they touch no key, and only the password authenticates.\<close>

lemma preauth_handler:
  assumes "name \<in> set preauth" "handler E name cs args w = (r, cs', w')" "requirePass w \<noteq> []" "\<not> Authed cs"
    "name = ''auth'' \<Longrightarrow> 2 \<le> length args"
  shows "Shards w' = Shards w \<and> requirePass w' = requirePass w \<and> (Authed cs' \<longrightarrow> requirePass w \<in> set args)"
proof -
  have "name = ''auth'' \<or> name = ''hello'' \<or> name = ''quit'' \<or> name = ''reset''"
    using assms(1) by (simp only: preauth_def list.set insert_iff empty_iff simp_thms)
  then show ?thesis
  proof (elim disjE)
    assume n: "name = ''auth''"
    then have l: "length args = 3 \<Longrightarrow> args ! 2 = p \<Longrightarrow> p \<in> set args" "args ! 1 = p \<Longrightarrow> p \<in> set args" for p
      using assms(5) nth_mem [of 2 args] nth_mem [of 1 args] by auto
    have "cmdAuth cs args w = (r, cs', w')" using n assms(2) by (simp add: handler_def handler1_def connHandlers_def)
    then show ?thesis using l [of "requirePass w"] assms(3,4)
      by (auto simp: cmdAuth_def Let_def split: if_splits option.splits dest!: authAttempt_None)
  next
    assume n: "name = ''hello''"
    have h: "cmdHello cs args w = (r, cs', w')" using n assms(2) by (simp add: handler_def handler1_def connHandlers_def)
    have "requirePass w \<in> set args" if "hello_loop (drop 2 args) None None = Inr (Some (u, p), nm)" "authAttempt (requirePass w) u p = None" for u p nm
      using hello_auth [OF that(1)] authAttempt_None [OF that(2) assms(3)] in_set_dropD by fastforce
    with h show ?thesis using assms(4)
      by (auto simp: cmdHello_def Let_def split: sum.splits option.splits)
  next
    assume n: "name = ''quit''"
    then show ?thesis using assms(2,4) by (auto simp: handler_def handler1_def connHandlers_def cmdQuit_def)
  next
    assume n: "name = ''reset''"
    then show ?thesis using assms(2,4) by (auto simp: handler_def handler1_def connHandlers_def cmdReset_def Let_def)
  qed
qed

lemma auth_arity: "table ''auth'' = Some d \<Longrightarrow> arity_ok d args \<Longrightarrow> 2 \<le> length args"
proof -
  have "map_option Arity (table ''auth'') = Some (- 2)" by code_simp
  then show "table ''auth'' = Some d \<Longrightarrow> arity_ok d args \<Longrightarrow> 2 \<le> length args" by (auto simp: arity_ok_def)
qed

lemma noauth_safe:
  assumes L: "pluto_laws (pk E) k" and w: "world_ok k E w" and a: "requirePass w \<noteq> []" "\<not> Authed cs"
    and x: "Execute E cs args w = (r, cs', w')"
  shows "args \<noteq> [] \<Longrightarrow> table (lowerASCII (args ! 0)) \<noteq> None \<Longrightarrow> lowerASCII (args ! 0) \<notin> set preauth \<Longrightarrow> r = errNoAuth \<and> cs' = cs \<and> Shards w' = Shards w"
    and "kv (pk E) (Shards w') db key = kv (pk E) (Shards w) db key \<or> kv (pk E) (Shards w') db key = None \<and> OverMemory (Shards w)"
    and "Authed cs' \<Longrightarrow> requirePass w \<in> set args" and "requirePass w' = requirePass w"
proof -
  define u where "u = w\<lparr>totalCmds := wrap64 (totalCmds w + 1)\<rparr>"
  define name where "name = lowerASCII (args ! 0)"
  obtain out w1 where m: "memGate E u = (out, w1)" by (metis prod.exhaust)
  have u: "world_ok k E u" "Shards u = Shards w" "requirePass u = requirePass w" using w by (simp_all add: u_def world_ok_def)
  note M = memGate_drops [OF L u(1) m]
  have pre: "set preauth = {''auth'', ''hello'', ''quit'', ''reset''}" by (simp add: preauth_def)
  have g: "authGate cs u name = (if name \<in> set preauth then None else Some errNoAuth)"
    using a u(3) by (simp only: authGate_def pre) simp
  have kv1: "kv (pk E) (Shards w1) db key = kv (pk E) (Shards w) db key \<or> kv (pk E) (Shards w1) db key = None \<and> OverMemory (Shards w)"
    using only_drops_kv [OF M(1,2)] M(5) u(2) by (cases "OverMemory (Shards w)") auto
  have rp1: "requirePass w1 = requirePass w" using M(4) u(3) by simp
  have "name \<in> set preauth \<or> args = [] \<or> table name = None \<or> (r = errNoAuth \<and> cs' = cs \<and> w' = u)"
    using x g by (auto simp: Execute_def Let_def u_def [symmetric] name_def [symmetric] split: option.splits)
  then show "args \<noteq> [] \<Longrightarrow> table (lowerASCII (args ! 0)) \<noteq> None \<Longrightarrow> lowerASCII (args ! 0) \<notin> set preauth \<Longrightarrow> r = errNoAuth \<and> cs' = cs \<and> Shards w' = Shards w"
    using u(2) by (auto simp: name_def)
  have c: "(Shards w' = Shards w \<or> Shards w' = Shards w1) \<and> requirePass w' = requirePass w \<and> Authed cs' = Authed cs \<or>
      name \<in> set preauth \<and> (\<exists>d. table name = Some d \<and> arity_ok d args \<and> runHandler E d name cs args w1 = (r, cs', w'))"
    using x g m u(2,3) rp1 a(2)
    by (auto simp: Execute_def Let_def u_def [symmetric] name_def [symmetric] split: option.splits if_splits)
  have main: "(kv (pk E) (Shards w') db key = kv (pk E) (Shards w) db key \<or> kv (pk E) (Shards w') db key = None \<and> OverMemory (Shards w)) \<and>
      (Authed cs' \<longrightarrow> requirePass w \<in> set args) \<and> requirePass w' = requirePass w"
  proof (cases "(Shards w' = Shards w \<or> Shards w' = Shards w1) \<and> requirePass w' = requirePass w \<and> Authed cs' = Authed cs")
    case True
    then show ?thesis using kv1 a(2) by auto
  next
    case False
    then obtain d where d: "name \<in> set preauth" "table name = Some d" "arity_ok d args" "runHandler E d name cs args w1 = (r, cs', w')"
      using c by blast
    obtain v cs1 w2 where h: "handler E name cs args w1 = (v, cs1, w2)" by (rule prod_cases3)
    have "name = ''auth'' \<Longrightarrow> 2 \<le> length args" using auth_arity d(2,3) by simp
    from preauth_handler [OF d(1) h _ a(2) this] a(1)
    have p: "Shards w2 = Shards w1" "requirePass w2 = requirePass w" "Authed cs1 \<longrightarrow> requirePass w \<in> set args" by (auto simp: rp1)
    have e: "cs' = noteCommand name cs1" "Shards w' = (Shards w1)\<lparr>events := []\<rparr>" "requirePass w' = requirePass w2"
      using d(4) h p(1) by (auto simp: runHandler_def split_beta Let_def)
    have "aside (Shards w1) (Shards w')" by (simp add: e aside_def quiet_def)
    then have "kv (pk E) (Shards w') db key = kv (pk E) (Shards w1) db key"
      using asideD(4) [of "Shards w1" "Shards w'" "pk E"] by (simp add: kv_view e(2) split: option.split)
    then show ?thesis using kv1 p e by simp
  qed
  then show "kv (pk E) (Shards w') db key = kv (pk E) (Shards w) db key \<or> kv (pk E) (Shards w') db key = None \<and> OverMemory (Shards w)"
    and "Authed cs' \<Longrightarrow> requirePass w \<in> set args" and "requirePass w' = requirePass w" by auto
qed

section \<open>The command table\<close>

definition key_spec :: "CmdDef \<Rightarrow> bool" where
  "key_spec d \<longleftrightarrow> Arity d \<noteq> 0 \<and> 0 \<le> FirstKey d \<and> FirstKey d < \<bar>Arity d\<bar> \<and> LastKey d < \<bar>Arity d\<bar> \<and>
     (0 < FirstKey d \<longrightarrow> 0 < KeyStep d \<and> (LastKey d < 0 \<or> FirstKey d \<le> LastKey d)) \<and>
     (FirstKey d = 0 \<longrightarrow> LastKey d = 0 \<and> KeyStep d = 0)"

lemma table_key_spec: "\<forall>d \<in> set cmdDefs. key_spec d"
  by code_simp

text \<open>A command that passes the arity check has its first key among its arguments, and its fixed last key too.\<close>

lemma accepted_keys:
  assumes "table name = Some d" "arity_ok d args"
  shows "cd_name d = name" "0 \<le> FirstKey d" "FirstKey d < int (length args)" "LastKey d < int (length args)"
    "0 < FirstKey d \<Longrightarrow> 0 < KeyStep d" "0 < FirstKey d \<Longrightarrow> LastKey d < 0 \<or> FirstKey d \<le> LastKey d"
proof -
  have "key_spec d" "cd_name d = name" using assms(1) table_key_spec by (auto simp: table_Some)
  moreover have "\<bar>Arity d\<bar> \<le> int (length args)" using assms(2) by (auto simp: arity_ok_def)
  ultimately show "cd_name d = name" "0 \<le> FirstKey d" "FirstKey d < int (length args)" "LastKey d < int (length args)"
    "0 < FirstKey d \<Longrightarrow> 0 < KeyStep d" "0 < FirstKey d \<Longrightarrow> LastKey d < 0 \<or> FirstKey d \<le> LastKey d"
    by (auto simp: key_spec_def)
qed

end
