(* ===== verification/Example_Engine.thy ===== *)
theory Example_Engine
  imports Abstract_Store
begin

text \<open>
  A freshly built engine satisfies the invariant, and a concrete one: the list-backed packages
  with a single shard, sixteen databases and the clock at one second.
\<close>

section \<open>A fresh engine\<close>

lemma NewEngine_sel:
  "kbits (NewEngine P procs cfg maxdbs now) = bitsLen (ResolveShardCount procs cfg) - 1"
  "shardCount (NewEngine P procs cfg maxdbs now) = ResolveShardCount procs cfg"
  "maxDBs (NewEngine P procs cfg maxdbs now) = (if maxdbs < 1 then 16 else nat maxdbs)"
  "dbs (NewEngine P procs cfg maxdbs now) = (\<lambda>_. th_new (PT P))"
  "shards (NewEngine P procs cfg maxdbs now) = newShard P"
  "NowMs (NewEngine P procs cfg maxdbs now) = now"
  "policy (NewEngine P procs cfg maxdbs now) = PolicyNoEviction" "maxMemory (NewEngine P procs cfg maxdbs now) = 0"
  by (simp_all add: NewEngine_def Let_def)

lemma ResolveShardCount_pow2:
  "\<exists>i. ResolveShardCount procs cfg = 2 ^ i"
  using pow2_loop_spec [of 1 0 "nat (if cfg \<le> 0 then 4 * int procs else cfg)"] by (auto simp: ResolveShardCount_def Let_def)

lemma NewEngine_shards: "ResolveShardCount procs cfg = 2 ^ kbits (NewEngine P procs cfg maxdbs now)"
  using ResolveShardCount_pow2 [of procs cfg] by (auto simp: NewEngine_sel bitsLen_pow2)

context pluto_laws
begin

lemma NewEngine_db_inv:
  assumes k: "kbits (NewEngine P procs cfg maxdbs now) = k" "k \<le> 64"
  shows "db_inv P k (NewEngine P procs cfg maxdbs now)"
proof -
  let ?g = "NewEngine P procs cfg maxdbs now"
  have s: "search P ?g db key = None" for db key by (simp add: search_def NewEngine_sel search_new)
  then have v: "view P ?g db key = None" for db key by (simp add: view_def)
  have "eng_inv P k ?g"
    unfolding eng_inv_def ptr_ok_def mem_ok_def tomb_ok_def stripeMem_def stripeKeys_def
    using k(1) by (simp add: s v NewEngine_sel(3-) newShard_def)
  moreover have "heap_ok P k ?g"
    by (simp add: heap_ok_def v heapItems_def NewEngine_sel newShard_def hp_all_new)
  moreover have "lru_ok P k ?g"
    by (simp add: lru_ok_def lruKeys_def NewEngine_sel newShard_def lru_keys_new)
  moreover have "conf_ok k ?g"
    using NewEngine_shards [of procs cfg P maxdbs now] k by (simp add: conf_ok_def NewEngine_sel)
  ultimately show ?thesis by (simp add: db_inv_def shard_ok_def vals_ok_def v)
qed

lemma NewEngine_kv: "kv P (NewEngine P procs cfg maxdbs now) db key = None"
  by (simp add: kv_view view_def search_def NewEngine_sel search_new)

end

section \<open>A concrete engine\<close>

definition P0 ::
  "(string list, zelem list, (string \<times> addr) list, expItem list, tombKey list, (tombKey \<times> nat) list) packages" where
  "P0 = listP (\<lambda>_. 0) 0"

definition g0 ::
  "(string list, zelem list, (string \<times> addr) list, expItem list, tombKey list, (tombKey \<times> nat) list) st" where
  "g0 = NewEngine P0 1 1 16 1000"

lemma g0_sel [simp]:
  "kbits g0 = 0" "maxDBs g0 = 16" "NowMs g0 = 1000" "shardCount g0 = 1" "maxMemory g0 = 0" "policy g0 = PolicyNoEviction"
  by (simp_all add: g0_def NewEngine_sel ResolveShardCount_def pow2_loop.simps bitsLen.simps)

lemma P0_laws [simp]: "pluto_laws P0 0"
  unfolding P0_def by (rule lp.pluto_laws_axioms)

lemma P0_route [simp]: "ShardIndex P0 0 key = 0"
  using ShardIndex_less [of 0 P0 key] by simp

lemma g0_db_inv [simp]: "db_inv P0 0 g0"
  unfolding g0_def by (rule pluto_laws.NewEngine_db_inv [OF P0_laws]) (use g0_sel(1) in \<open>simp_all add: g0_def\<close>)

lemma g0_safe [simp]: "evict_safe P0 g0"
  by (simp add: evict_safe_def is_random_def)

lemma g0_kv [simp]: "kv P0 g0 db key = None"
  unfolding g0_def by (rule pluto_laws.NewEngine_kv [OF P0_laws])

lemma g0_inv [simp]: "shard_ok P0 0 g0" "eng_inv P0 0 g0" "heap_ok P0 0 g0" "ptr_ok P0 g0" "conf_ok 0 g0"
  using g0_db_inv by (simp_all add: db_inv_def shard_ok_def eng_inv_def)

end
