(* ===== verification/Example_Server.thy ===== *)
theory Example_Server
  imports Transactions Example_Engine
begin

text \<open>
  A fresh command engine (\<^verbatim>\<open>NewEngine\<close> of \<^verbatim>\<open>src/lib/commands/engine.go\<close>) satisfies the server's
  invariant before any connection arrives; the engine of theory \<open>Example_Engine\<close> gives a concrete server.
\<close>

definition NewCmdEngine :: "('q, 'z, 't, 'h, 'l, 'f) st \<Rightarrow> ('q, 'z, 't, 'h, 'l, 'f) world" where
  "NewCmdEngine sh =
     \<lparr>Shards = sh, PubSub = NewBroker GlobMatch, requirePass = [], saveRules = ''3600 1 300 100 60 10000'', appendOnly = False,
      notifyFlags = 0, totalCmds = 0, slowlogSlowerThan = 10000, slowlogMaxLen = 128, slowlog = \<lparr>entries = [], nextID = 0\<rparr>,
      latency = [], monitors = [], scripts = None, persist = None, maxScriptMB = 0, sent = []\<rparr>"

definition NewServer :: "('q, 'z, 't, 'h, 'l, 'f) st \<Rightarrow> ('q, 'z, 't, 'h, 'l, 'f) server" where
  "NewServer sh = \<lparr>engine = NewCmdEngine sh, clients = Map.empty, clientID = 0\<rparr>"

lemma NewCmdEngine_sel [simp]:
  "Shards (NewCmdEngine sh) = sh" "PubSub (NewCmdEngine sh) = NewBroker GlobMatch" "requirePass (NewCmdEngine sh) = []"
  "scripts (NewCmdEngine sh) = None" "persist (NewCmdEngine sh) = None"
  by (simp_all add: NewCmdEngine_def)

lemma NewBroker_inv [simp]: "broker_inv (NewBroker f)" "\<not> on (channels (NewBroker f)) name i" "\<not> on (patterns (NewBroker f)) name i"
  by (simp_all add: broker_inv_def reg_inv_def on_def subsOf_def NewBroker_def)

lemma NewServer_ok:
  assumes "db_inv P k sh" "evict_safe P sh" "0 \<le> NowMs sh" "0 < maxDBs sh"
  shows "server_ok P k (NewServer sh)"
  using assms by (simp add: server_ok_def NewServer_def)

section \<open>A concrete server\<close>

definition E0 ::
  "(string list, zelem list, (string \<times> addr) list, expItem list, tombKey list, (tombKey \<times> nat) list) env" where
  "E0 = \<lparr>pk = P0, shardOrd = (\<lambda>keys. if keys = [] then [] else [0]), shardOrd2 = (\<lambda>keys. if keys = [] then [] else [0]),
     setOrd = (\<lambda>_ A. sorted_list_of_set A), rndIdx = 0, rndPerm = (\<lambda>n. [0..<n]), rndSeq = (\<lambda>n. 0),
     walkers = \<lparr>th_walk = (\<lambda>t. t), th_scan = (\<lambda>t cursor cnt. (t, 0))\<rparr>, subOrd = (\<lambda>ss. ss),
     unixNow = 1, microsNow = 0, durUs = 5, msNow = 1000, ext = (\<lambda>name cs args w. (errUnknownCommand name [], cs, w))\<rparr>"

definition w0 ::
  "(string list, zelem list, (string \<times> addr) list, expItem list, tombKey list, (tombKey \<times> nat) list) world" where
  "w0 = NewCmdEngine g0"

definition conn0 :: "nat \<Rightarrow> conn" where
  "conn0 i = NewConnState i ''127.0.0.1:1'' True"

text \<open>Connection 3 has watched a key and sent MULTI; connection 4 is idle.\<close>

definition ref0 :: watchRef where
  "ref0 = \<lparr>w_db = 0, w_key = ''k'', w_epoch = fst (stamp P0 0 g0 0 ''k''), w_ver = snd (stamp P0 0 g0 0 ''k'')\<rparr>"

definition watcher0 :: conn where
  "watcher0 = (conn0 3)\<lparr>Multi := True, Watched := [ref0]\<rparr>"

definition s0 ::
  "(string list, zelem list, (string \<times> addr) list, expItem list, tombKey list, (tombKey \<times> nat) list) server" where
  "s0 = \<lparr>engine = w0, clients = [3 \<mapsto> watcher0, 4 \<mapsto> conn0 4], clientID = 2\<rparr>"

lemma pk_E0 [simp]: "pk E0 = P0"
  by (simp add: E0_def)

lemma sched_E0: "sched (groupKeys (ShardIndex P0 0) keys) (if keys = [] then [] else [0])"
  by (force simp: sched_def groupKeys_eq filter_empty_conv)

lemma E0_ok [simp]: "env_ok 0 E0"
proof -
  have "orders_ok 0 E0" using sched_E0 by (simp add: orders_ok_def E0_def)
  moreover have "ext_ok 0 E0" by (simp add: ext_ok_def E0_def)
  ultimately show ?thesis by (simp add: env_ok_def)
qed

lemma w0_sel [simp]: "Shards w0 = g0" "PubSub w0 = NewBroker GlobMatch" "requirePass w0 = []" "scripts w0 = None" "persist w0 = None"
  by (simp_all add: w0_def)

lemma w0_ok [simp]: "world_ok 0 E0 w0" "world_ok 0 E0 (w0\<lparr>requirePass := pw\<rparr>)"
  by (simp_all add: world_ok_def)

lemma conn0_sel [simp]:
  "Ps (conn0 i) = \<lparr>c_id = i, c_subs = [], c_psubs = [], c_start = True, c_deliver = False, outbox = []\<rparr>"
  "cDB (conn0 i) = 0" "Proto (conn0 i) = 2" "Multi (conn0 i) = False" "Queue (conn0 i) = []" "QueueErr (conn0 i) = False"
  "Watched (conn0 i) = []" "Authed (conn0 i) = False"
  by (simp_all add: conn0_def NewConnState_def)

lemma s0_ok: "server_ok P0 0 s0"
  by (simp add: server_ok_def s0_def conn_ok_def in_step_def watch_ok_def watcher0_def ref0_def subCount_def)

lemma g0_memory [simp]: "OverMemory g0 = False"
  by (simp add: OverMemory_def)

text \<open>Connection 4 sends FLUSHDB.\<close>

lemma flush0:
  obtains r cs' w' where "Execute E0 (conn0 4) [''FLUSHDB''] w0 = (r, cs', w')" "Shards w' = (FlushDBTok P0 g0 0)\<lparr>events := []\<rparr>"
proof -
  obtain d where d: "table ''flushdb'' = Some d" "arity_ok d [''FLUSHDB'']" "\<not> hasFlag d ''denyoom''"
  proof -
    have "case table ''flushdb'' of Some d \<Rightarrow> arity_ok d [''FLUSHDB''] \<and> \<not> hasFlag d ''denyoom'' | None \<Rightarrow> False" by code_simp
    then have "\<exists>d. table ''flushdb'' = Some d \<and> arity_ok d [''FLUSHDB''] \<and> \<not> hasFlag d ''denyoom''" by (simp split: option.splits)
    then show thesis using that by blast
  qed
  have n: "lowerASCII ''FLUSHDB'' = ''flushdb''" by code_simp
  obtain r cs' w' where x: "Execute E0 (conn0 4) [''FLUSHDB''] w0 = (r, cs', w')" by (rule prod_cases3)
  moreover have "Shards w' = (FlushDBTok P0 g0 0)\<lparr>events := []\<rparr>"
    using x d by (auto simp: Execute_def n Let_def queueable_def authGate_def subGate_def busyGate_def memGate_def subCount_def
        runHandler_def handler_def handler1_def connHandlers_def cmdFlushDB_def flushArgs_def split_beta)
  ultimately show thesis by (rule that)
qed

end
