(* ===== verification/Resp.thy ===== *)
theory Resp
  imports Aof_Capture Float64 "HOL-Library.Sublist"
begin

text \<open>
  The wire protocol (\<^verbatim>\<open>src/lib/resp/\<close>): the appenders of \<^verbatim>\<open>resp.go\<close> and \<^verbatim>\<open>resp3.go\<close>, the rendering of
  replies (\<^verbatim>\<open>AppendValue\<close>, \<^verbatim>\<open>value.go\<close>) and the command reader of \<^verbatim>\<open>redcon.go\<close> (\<^verbatim>\<open>readCommands\<close>), on
  the bytes of its buffer. A Go panic is a value of the error type. However the bytes of a client
  are cut into reads, the reader returns exactly the commands that were written
  (\<open>feed_stream_gen\<close>); a bulk length near the largest integer makes it panic (\<open>bulk_length_panics\<close>).
\<close>

section \<open>Appenders\<close>

abbreviation CR :: char where "CR \<equiv> CHR 0x0D"
abbreviation LF :: char where "LF \<equiv> CHR 0x0A"

definition appendPrefix :: "string \<Rightarrow> char \<Rightarrow> int \<Rightarrow> string" where
  "appendPrefix b c n =
     (if 0 \<le> n \<and> n \<le> 9 then b @ [c, chr (48 + nat n), CR, LF]
      else b @ [c] @ FormatInt n @ [CR, LF])"

definition AppendUint :: "string \<Rightarrow> nat \<Rightarrow> string" where
  "AppendUint b n = b @ [CHR '':''] @ FormatInt (int n) @ [CR, LF]"

definition AppendInt :: "string \<Rightarrow> int \<Rightarrow> string" where "AppendInt b n = appendPrefix b (CHR '':'') n"
definition AppendArray :: "string \<Rightarrow> nat \<Rightarrow> string" where "AppendArray b n = appendPrefix b (CHR ''*'') (int n)"

text \<open>\<^verbatim>\<open>AppendBulk\<close> and \<^verbatim>\<open>AppendBulkString\<close>.\<close>

definition AppendBulk :: "string \<Rightarrow> string \<Rightarrow> string" where
  "AppendBulk b bulk = appendPrefix b (CHR ''$'') (int (length bulk)) @ bulk @ [CR, LF]"

definition stripNewlines :: "string \<Rightarrow> string" where
  "stripNewlines s = map (\<lambda>c. if c = CR \<or> c = LF then CHR '' '' else c) s"

definition AppendString :: "string \<Rightarrow> string \<Rightarrow> string" where "AppendString b s = b @ [CHR ''+''] @ stripNewlines s @ [CR, LF]"
definition AppendError :: "string \<Rightarrow> string \<Rightarrow> string" where "AppendError b s = b @ [CHR ''-''] @ stripNewlines s @ [CR, LF]"
definition AppendOK :: "string \<Rightarrow> string" where "AppendOK b = b @ ''+OK'' @ [CR, LF]"
definition AppendNull :: "string \<Rightarrow> string" where "AppendNull b = b @ ''$-1'' @ [CR, LF]"
definition AppendBulkInt :: "string \<Rightarrow> int \<Rightarrow> string" where "AppendBulkInt b x = AppendBulk b (FormatInt x)"

definition AppendMap :: "string \<Rightarrow> nat \<Rightarrow> string" where "AppendMap b n = appendPrefix b (CHR ''%'') (int n)"
definition AppendSet :: "string \<Rightarrow> nat \<Rightarrow> string" where "AppendSet b n = appendPrefix b (CHR 0x7E) (int n)"
definition AppendPush :: "string \<Rightarrow> nat \<Rightarrow> string" where "AppendPush b n = appendPrefix b (CHR ''>'') (int n)"
definition AppendBigNumber :: "string \<Rightarrow> string \<Rightarrow> string" where "AppendBigNumber b s = b @ [CHR ''(''] @ s @ [CR, LF]"
definition AppendBool :: "string \<Rightarrow> bool \<Rightarrow> string" where "AppendBool b v = b @ (if v then ''#t'' else ''#f'') @ [CR, LF]"
definition AppendNull3 :: "string \<Rightarrow> string" where "AppendNull3 b = b @ ''_'' @ [CR, LF]"

definition AppendVerbatim :: "string \<Rightarrow> string \<Rightarrow> string \<Rightarrow> string" where
  "AppendVerbatim b fmt data = appendPrefix b (CHR ''='') (int (length data) + 4) @ fmt @ [CHR '':''] @ data @ [CR, LF]"

section \<open>Doubles\<close>

definition appendDouble :: "float64 \<Rightarrow> string" where
  "appendDouble f = FormatDouble f @ [CR, LF]"

definition AppendDouble :: "string \<Rightarrow> float64 \<Rightarrow> string" where
  "AppendDouble b f = b @ [CHR '',''] @ appendDouble f"

section \<open>Replies\<close>

fun AppendValue :: "nat \<Rightarrow> string \<Rightarrow> rv \<Rightarrow> string" where
  "AppendValue proto b (RSimple s) = AppendString b s"
| "AppendValue proto b (RErr s) = AppendError b s"
| "AppendValue proto b (RInt n) = AppendInt b n"
| "AppendValue proto b (RBlob s) = AppendBulk b s"
| "AppendValue proto b (RArr vs) = foldl (\<lambda>b e. AppendValue proto b e) (AppendArray b (length vs)) vs"
| "AppendValue proto b RNull = (if proto = 3 then AppendNull3 b else AppendNull b)"
| "AppendValue proto b (RDouble f) =
     (if proto = 3 then AppendDouble b f
      else let d = appendDouble f in AppendBulk b (take (length d - 2) d))"
| "AppendValue proto b (RBool v) = (if proto = 3 then AppendBool b v else AppendInt b (if v then 1 else 0))"
| "AppendValue proto b (RBigNumber s) = (if proto = 3 then AppendBigNumber b s else AppendBulk b s)"
| "AppendValue proto b (RVerbatim fmt s) = (if proto = 3 then AppendVerbatim b fmt s else AppendBulk b s)"
| "AppendValue proto b (RMap vs) =
     foldl (\<lambda>b e. AppendValue proto b e) (if proto = 3 then AppendMap b (length vs div 2) else AppendArray b (length vs)) vs"
| "AppendValue proto b (RSet vs) =
     foldl (\<lambda>b e. AppendValue proto b e) (if proto = 3 then AppendSet b (length vs) else AppendArray b (length vs)) vs"
| "AppendValue proto b (RPush vs) =
     foldl (\<lambda>b e. AppendValue proto b e) (if proto = 3 then AppendPush b (length vs) else AppendArray b (length vs)) vs"

section \<open>Reading commands\<close>

record Command =
  Raw :: string
  Args :: "string list"

datatype readErr =
    errUnbalancedQuotes
  | errInvalidBulkLength
  | errInvalidMultiBulkLength
  | errExpectedDollar char
  | errIncompleteCommand
  | errTooMuchData
  | goPanic

text \<open>The position of the next newline at or after \<open>i\<close>, the length of the buffer when there is none.\<close>

function scanLF :: "string \<Rightarrow> nat \<Rightarrow> nat" where
  "scanLF b i = (if i < length b \<and> b ! i \<noteq> LF then scanLF b (i + 1) else i)"
  by pat_completeness auto
termination
  by (relation "measure (\<lambda>(b, i). length b - i)") auto

declare scanLF.simps [simp del]

definition slice :: "string \<Rightarrow> nat \<Rightarrow> nat \<Rightarrow> string" where
  "slice b i j = take (j - i) (drop i b)"

text \<open>
  A plain text line. \<open>nline\<close> is what was read since the last restart of the outer loop; outside
  quotes that is the source's \<^verbatim>\<open>line[:i]\<close>, so \<^verbatim>\<open>i != 0\<close> is \<open>nline \<noteq> []\<close>.
\<close>

definition unescape :: "char \<Rightarrow> char" where
  "unescape c = (if c = CHR ''n'' then LF else if c = CHR ''r'' then CR else if c = CHR ''t'' then CHR 0x09 else c)"

fun telnet :: "string \<Rightarrow> string \<Rightarrow> char option \<Rightarrow> bool \<Rightarrow> string list \<Rightarrow> readErr + string list" where
  "telnet [] nline q esc args = (if q \<noteq> None then Inl errUnbalancedQuotes else Inr (if nline \<noteq> [] then args @ [nline] else args))"
| "telnet (c # cs) nline None esc args =
     (if c = CHR '' '' then telnet cs [] None esc (if nline \<noteq> [] then args @ [nline] else args)
      else if c = CHR 0x22 \<or> c = CHR 0x27 then (if nline \<noteq> [] then Inl errUnbalancedQuotes else telnet cs [] (Some c) esc args)
      else telnet cs (nline @ [c]) None esc args)"
| "telnet (c # cs) nline (Some qc) esc args =
     (if esc then telnet cs (nline @ [unescape c]) (Some qc) False args
      else if c = qc then (if cs \<noteq> [] \<and> hd cs \<noteq> CHR '' '' then Inl errUnbalancedQuotes else telnet cs [] None False (args @ [nline]))
      else if c = CHR 0x5C then telnet cs nline (Some qc) True args
      else telnet cs (nline @ [c]) (Some qc) False args)"

text \<open>
  The loop over the bulks of one command, from \<open>i\<close>, the last byte read; \<open>None\<close> is the jump out of
  the outer loop when a bulk is not complete. Positions are \<^verbatim>\<open>int\<close> of 64 bits and \<open>i + size + 2\<close>
  wraps around: a negative index panics.
\<close>

fun readBulks :: "string \<Rightarrow> nat \<Rightarrow> nat \<Rightarrow> (nat \<times> nat) list \<Rightarrow> readErr + (nat \<times> (nat \<times> nat) list) option" where
  "readBulks b 0 i marks = Inr (Some (i, marks))"
| "readBulks b (Suc n) i marks =
     (let si = i + 1
      in if si < length b then
           if b ! si \<noteq> CHR ''$'' then Inl (errExpectedDollar (b ! si))
           else
             let j = scanLF b si
             in if j < length b then
                  if b ! (j - 1) \<noteq> CR then Inl errInvalidBulkLength
                  else
                    case Atoi (slice b (si + 1) (j - 1)) of
                      None \<Rightarrow> Inl errInvalidBulkLength
                    | Some sz \<Rightarrow>
                        if sz < 0 then Inl errInvalidBulkLength
                        else
                          let e = wrap64 (int j + sz + 2)
                          in if int (length b) \<le> e then Inr None
                             else if e < 0 then Inl goPanic
                             else if b ! nat e \<noteq> LF \<or> b ! (nat e - 1) \<noteq> CR then Inl errInvalidBulkLength
                             else readBulks b n (nat e) (marks @ [(j + 1, j + 1 + nat sz)])
                else readBulks b n j marks
         else readBulks b n si marks)"

definition markedArgs :: "string \<Rightarrow> (nat \<times> nat) list \<Rightarrow> string list" where
  "markedArgs b marks = map (\<lambda>(s, e). slice b s e) marks"

text \<open>The encoding the reader gives a plain text command.\<close>

definition appendCommand :: "string \<Rightarrow> string list \<Rightarrow> string" where
  "appendCommand b args = foldl AppendBulk (AppendArray b (length args)) args"

text \<open>
  The commands of one buffer, and the bytes kept for the next read. When bulks are missing the
  position is past the end of the buffer and the outer loop ends.
\<close>

function readBuf :: "string \<Rightarrow> Command list \<Rightarrow> readErr + Command list \<times> string" where
  "readBuf b cmds =
     (if b = [] then Inr (cmds, [])
      else if hd b \<noteq> CHR ''*'' then
        let i = scanLF b 0
        in if length b \<le> i then Inr (cmds, b)
           else
             let line = (if 0 < i \<and> b ! (i - 1) = CR then take (i - 1) b else take i b)
             in case telnet line [] None False [] of
                  Inl e \<Rightarrow> Inl e
                | Inr args \<Rightarrow>
                    readBuf (drop (i + 1) b) (if args \<noteq> [] then cmds @ [\<lparr>Raw = appendCommand [] args, Args = args\<rparr>] else cmds)
      else
        let i = scanLF b 1
        in if length b \<le> i then Inr (cmds, b)
           else if b ! (i - 1) \<noteq> CR then Inl errInvalidMultiBulkLength
           else
             case Atoi (slice b 1 (i - 1)) of
               None \<Rightarrow> Inl errInvalidMultiBulkLength
             | Some n \<Rightarrow>
                 if n \<le> 0 then Inl errInvalidMultiBulkLength
                 else
                   case readBulks b (nat n) i [] of
                     Inl e \<Rightarrow> Inl e
                   | Inr None \<Rightarrow> Inr (cmds, b)
                   | Inr (Some (k, marks)) \<Rightarrow>
                       if length marks = nat n then readBuf (drop (k + 1) b) (cmds @ [\<lparr>Raw = take (k + 1) b, Args = markedArgs b marks\<rparr>])
                       else Inr (cmds, b))"
  by pat_completeness auto
termination
  by (relation "measure (\<lambda>(b, cmds). length b)") auto

declare readBuf.simps [simp del]

text \<open>
  \<^verbatim>\<open>readCommands\<close> on a connection: it returns as soon as the buffer gives a command, and reads more
  otherwise. The state is what is kept of the buffer; the reads are the successive chunks.
\<close>

fun feed :: "string list \<Rightarrow> string \<Rightarrow> readErr + Command list \<times> string" where
  "feed [] buf = Inr ([], buf)"
| "feed (c # cs) buf =
     (case readBuf (buf @ c) [] of
        Inl e \<Rightarrow> Inl e
      | Inr (cmds, rest) \<Rightarrow>
          (case feed cs rest of Inl e \<Rightarrow> Inl e | Inr (cmds', rest') \<Rightarrow> Inr (cmds @ cmds', rest')))"

definition Parse :: "string \<Rightarrow> readErr + Command" where
  "Parse raw =
     (case readBuf raw [] of
        Inl e \<Rightarrow> Inl e
      | Inr (cmds, rest) \<Rightarrow>
          (if cmds = [] then Inl errIncompleteCommand else if rest \<noteq> [] then Inl errTooMuchData else Inr (hd cmds)))"

section \<open>Bytes written\<close>

definition bulkBytes :: "string \<Rightarrow> string" where
  "bulkBytes a = CHR ''$'' # nat_digits (length a) @ CR # LF # a @ [CR, LF]"

definition cmdBytes :: "string list \<Rightarrow> string" where
  "cmdBytes args = CHR ''*'' # nat_digits (length args) @ CR # LF # concat (map bulkBytes args)"

lemma appendPrefix_bytes: "appendPrefix b c (int n) = b @ c # nat_digits n @ [CR, LF]"
proof (cases "n \<le> 9")
  case True
  then have "nat_digits n = [chr (48 + n)]" by (subst nat_digits.simps) auto
  then show ?thesis using True by (simp add: appendPrefix_def)
next
  case False
  then show ?thesis by (simp add: appendPrefix_def FormatInt_def)
qed

lemma AppendBulk_bytes: "AppendBulk b a = b @ bulkBytes a"
  by (simp add: AppendBulk_def appendPrefix_bytes bulkBytes_def)

lemma appendCommand_bytes: "appendCommand b args = b @ cmdBytes args"
proof -
  have "foldl AppendBulk dst xs = dst @ concat (map bulkBytes xs)" for dst xs
    by (induction xs arbitrary: dst) (simp_all add: AppendBulk_bytes)
  then show ?thesis by (simp add: appendCommand_def AppendArray_def appendPrefix_bytes cmdBytes_def)
qed

lemma digits_line [simp]: "LF \<notin> set (nat_digits n)" "CR \<notin> set (nat_digits n)"
  using nat_digits_digits [of LF n] nat_digits_digits [of CR n] by (auto simp: is_digit_def byte_def)

section \<open>Lines\<close>

lemma scanLF_found: "LF \<notin> set xs \<Longrightarrow> scanLF (pre @ xs @ LF # ys) (length pre) = length pre + length xs"
proof (induction xs arbitrary: pre)
  case Nil
  then show ?case by (simp add: scanLF.simps)
next
  case (Cons x xs)
  have "scanLF (pre @ (x # xs) @ LF # ys) (length pre) = scanLF ((pre @ [x]) @ xs @ LF # ys) (length (pre @ [x]))"
    using Cons.prems by (subst scanLF.simps) (auto simp: nth_append)
  then show ?case using Cons.IH [of "pre @ [x]"] Cons.prems by simp
qed

lemma scanLF_none: "LF \<notin> set xs \<Longrightarrow> scanLF (pre @ xs) (length pre) = length pre + length xs"
proof (induction xs arbitrary: pre)
  case Nil
  then show ?case by (simp add: scanLF.simps)
next
  case (Cons x xs)
  have "scanLF (pre @ x # xs) (length pre) = scanLF ((pre @ [x]) @ xs) (length (pre @ [x]))"
    using Cons.prems by (subst scanLF.simps) (auto simp: nth_append)
  then show ?case using Cons.IH [of "pre @ [x]"] Cons.prems by simp
qed

lemma slice_mid: "slice (pre @ xs @ ys) (length pre) (length pre + length xs) = xs"
  by (simp add: slice_def)

text \<open>A strict prefix of a line and what follows: the line is open, or complete and the rest is cut.\<close>

lemma prefix_line:
  assumes "prefix t (xs @ CR # LF # w)" "LF \<notin> set xs"
  shows "LF \<notin> set t \<or> (\<exists>u. t = xs @ CR # LF # u \<and> prefix u w)"
proof -
  have "prefix t ((xs @ [CR]) @ LF # w)" using assms(1) by simp
  then consider (a) "prefix t (xs @ [CR])" | (b) us where "t = (xs @ [CR]) @ us" "prefix us (LF # w)"
    unfolding prefix_append by blast
  then show ?thesis
  proof cases
    case a
    then have "set t \<subseteq> set (xs @ [CR])" by (rule set_mono_prefix)
    then show ?thesis using assms(2) by auto
  next
    case b
    then show ?thesis using assms(2) by (cases us) auto
  qed
qed

section \<open>Bulks\<close>

lemma readBulks_past: "length b \<le> i + 1 \<Longrightarrow> readBulks b n i marks = Inr (Some (i + n, marks))"
  by (induction n arbitrary: i) simp_all

text \<open>A complete length line.\<close>

lemma readBulks_line:
  assumes b: "b = pre @ CHR ''$'' # nat_digits m @ CR # LF # u" and i: "length pre = i + 1" and m: "m < 2 ^ 62" "length b < 2 ^ 62"
  shows "readBulks b (Suc n) i marks =
    (let j = length pre + length (nat_digits m) + 2
     in if length b \<le> j + m + 2 then Inr None
        else if b ! (j + m + 2) \<noteq> LF \<or> b ! (j + m + 1) \<noteq> CR then Inl errInvalidBulkLength
        else readBulks b n (j + m + 2) (marks @ [(j + 1, j + 1 + m)]))"
proof -
  let ?d = "nat_digits m"
  let ?j = "length pre + length ?d + 2"
  have b1: "b = pre @ (CHR ''$'' # ?d @ [CR]) @ LF # u" and b2: "b = (pre @ [CHR ''$'']) @ ?d @ (CR # LF # u)" by (simp_all add: b)
  have sc: "scanLF b (length pre) = ?j" unfolding b1 by (subst scanLF_found) simp_all
  have j: "?j < length b" "b ! (?j - 1) = CR" "b ! length pre = CHR ''$''"
    unfolding b by (simp_all add: nth_append)
  have sl: "slice b (length pre + 1) (?j - 1) = ?d"
    using slice_mid [of "pre @ [CHR ''$'']" ?d "CR # LF # u"] unfolding b2 by simp
  have w: "wrap64 (int ?j + int m + 2) = int (?j + m + 2)"
    using m j(1) by (subst wrap64_id) (auto simp: is_i64_def)
  have e: "nat (int (?j + m + 2)) = ?j + m + 2" by simp
  have "Atoi ?d = Some (int m)" using m(1) by (intro Atoi_digits) simp
  then show ?thesis
    using i j sc sl w e by (simp add: Let_def)
qed

lemma readBulks_bulk:
  assumes b: "b = pre @ bulkBytes a @ rest" and i: "length pre = i + 1" and m: "length b < 2 ^ 62"
  obtains m' where "readBulks b (Suc n) i marks = readBulks b n (i + length (bulkBytes a)) (marks @ [m'])" "markedArgs b [m'] = [a]"
proof -
  let ?d = "nat_digits (length a)"
  let ?j = "length pre + length ?d + 2"
  have b1: "b = pre @ CHR ''$'' # ?d @ CR # LF # (a @ CR # LF # rest)" by (simp add: b bulkBytes_def)
  have b2: "b = (pre @ CHR ''$'' # ?d @ [CR, LF]) @ a @ (CR # LF # rest)" by (simp add: b1)
  have len: "length a < 2 ^ 62" using m b2 by simp
  have e: "\<not> length b \<le> ?j + length a + 2" "b ! (?j + length a + 2) = LF" "b ! (?j + length a + 1) = CR"
    unfolding b2 by (simp_all add: nth_append)
  have "slice b (?j + 1) (?j + 1 + length a) = a"
    using slice_mid [of "pre @ CHR ''$'' # ?d @ [CR, LF]" a "CR # LF # rest"] unfolding b2 by simp
  moreover have "?j + length a + 2 = i + length (bulkBytes a)" using i by (simp add: bulkBytes_def)
  ultimately show thesis
    using readBulks_line [OF b1 i len m, of n marks] e
    by (intro that [of "(?j + 1, ?j + 1 + length a)"]) (simp_all add: Let_def markedArgs_def)
qed

lemma readBulks_all:
  assumes "b = pre @ concat (map bulkBytes args) @ rest" "length pre = i + 1" "length b < 2 ^ 62"
  shows "\<exists>marks'. readBulks b (length args + n) i marks = readBulks b n (i + length (concat (map bulkBytes args))) (marks @ marks') \<and>
    markedArgs b marks' = args"
  using assms
proof (induction args arbitrary: pre i marks)
  case Nil
  then show ?case by (auto intro: exI [of _ "[]"] simp: markedArgs_def)
next
  case (Cons a args)
  obtain m' where m': "readBulks b (Suc (length args + n)) i marks = readBulks b (length args + n) (i + length (bulkBytes a)) (marks @ [m'])"
    "markedArgs b [m'] = [a]"
    by (rule readBulks_bulk [of b pre a "concat (map bulkBytes args) @ rest" i "length args + n" marks]) (use Cons.prems in simp_all)
  have "\<exists>marks'. readBulks b (length args + n) (i + length (bulkBytes a)) (marks @ [m']) =
      readBulks b n (i + length (bulkBytes a) + length (concat (map bulkBytes args))) ((marks @ [m']) @ marks') \<and> markedArgs b marks' = args"
    by (rule Cons.IH [of "pre @ bulkBytes a"]) (use Cons.prems in simp_all)
  then obtain marks' where "readBulks b (length args + n) (i + length (bulkBytes a)) (marks @ [m']) =
      readBulks b n (i + length (bulkBytes a) + length (concat (map bulkBytes args))) (marks @ m' # marks')" "markedArgs b marks' = args" by auto
  then show ?case using m' by (intro exI [of _ "m' # marks'"]) (simp add: markedArgs_def add.assoc)
qed

definition unready :: "nat \<Rightarrow> readErr + (nat \<times> (nat \<times> nat) list) option \<Rightarrow> bool" where
  "unready n r \<longleftrightarrow> r = Inr None \<or> (\<exists>k ms. r = Inr (Some (k, ms)) \<and> length ms < n)"

text \<open>A bulk that is cut, anywhere, is not ready; it is never an error.\<close>

lemma readBulks_cut:
  assumes b: "b = pre @ s" "strict_prefix s (bulkBytes a)" and i: "length pre = i + 1" and m: "length a < 2 ^ 62" "length b < 2 ^ 62"
  shows "unready (length marks + Suc n) (readBulks b (Suc n) i marks)"
proof (cases s)
  case Nil
  then show ?thesis using i b readBulks_past [of b i "Suc n" marks] by (simp add: unready_def)
next
  case (Cons x t)
  let ?d = "nat_digits (length a)"
  have x: "x = CHR ''$''" and t: "prefix t (?d @ CR # LF # a @ [CR, LF])" "t \<noteq> ?d @ CR # LF # a @ [CR, LF]"
    using b(2) Cons by (auto simp: bulkBytes_def strict_prefix_def)
  show ?thesis
  proof (cases "LF \<in> set t")
    case False
    have "scanLF b (length pre) = length b" using scanLF_none [of s pre] Cons x False b(1) by simp
    then show ?thesis using b(1) Cons x i readBulks_past [of b "length b" n marks] by (simp add: Let_def nth_append unready_def)
  next
    case True
    then obtain u where u: "t = ?d @ CR # LF # u" "prefix u (a @ [CR, LF])" using prefix_line [OF t(1)] by auto
    have "length u < length a + 2"
      using u t(2) prefix_length_le [OF u(2)] not_equal_is_parallel [of u "a @ [CR, LF]"] by (cases "length u = length a + 2") auto
    then show ?thesis
      using readBulks_line [of b pre "length a" u i n marks] b(1) Cons x u(1) i m by (simp add: Let_def unready_def)
  qed
qed

lemma readBulks_partial:
  assumes "b = pre @ s" "strict_prefix s (concat (map bulkBytes args))" "length pre = i + 1"
    "\<forall>a \<in> set args. length a < 2 ^ 62" "length b < 2 ^ 62"
  shows "unready (length marks + length args) (readBulks b (length args) i marks)"
  using assms
proof (induction args arbitrary: pre s i marks)
  case (Cons a args)
  have "prefix s (bulkBytes a @ concat (map bulkBytes args))" using Cons.prems(2) by (simp add: strict_prefix_def)
  then consider (cut) "strict_prefix s (bulkBytes a)" | (more) us where "s = bulkBytes a @ us" "prefix us (concat (map bulkBytes args))"
    unfolding prefix_append strict_prefix_def by (metis append_Nil2 Nil_prefix)
  then show ?case
  proof cases
    case cut
    then show ?thesis using readBulks_cut [OF Cons.prems(1) cut Cons.prems(3)] Cons.prems(4,5) by simp
  next
    case more
    obtain m' where m': "readBulks b (Suc (length args)) i marks = readBulks b (length args) (i + length (bulkBytes a)) (marks @ [m'])"
      by (rule readBulks_bulk [of b pre a us i "length args" marks]) (use Cons.prems more in simp_all)
    have "unready (length (marks @ [m']) + length args) (readBulks b (length args) (i + length (bulkBytes a)) (marks @ [m']))"
      by (rule Cons.IH [of "pre @ bulkBytes a" us]) (use Cons.prems more in \<open>auto simp: strict_prefix_def\<close>)
    then show ?thesis using m' by simp
  qed
qed simp

section \<open>Commands\<close>

definition mkCommand :: "string list \<Rightarrow> Command" where
  "mkCommand args = \<lparr>Raw = cmdBytes args, Args = args\<rparr>"

text \<open>The header line of a command in a buffer.\<close>

lemma readBuf_line:
  assumes b: "b = CHR ''*'' # nat_digits n @ CR # LF # u" and n: "0 < n" "n < 2 ^ 62"
  shows "readBuf b cmds =
    (case readBulks b n (length (nat_digits n) + 2) [] of
       Inl e \<Rightarrow> Inl e
     | Inr None \<Rightarrow> Inr (cmds, b)
     | Inr (Some (k, marks)) \<Rightarrow>
         if length marks = n then readBuf (drop (k + 1) b) (cmds @ [\<lparr>Raw = take (k + 1) b, Args = markedArgs b marks\<rparr>])
         else Inr (cmds, b))"
proof -
  let ?d = "nat_digits n"
  let ?i = "length ?d + 2"
  have b1: "b = [CHR ''*''] @ (?d @ [CR]) @ LF # u" and b2: "b = [CHR ''*''] @ ?d @ (CR # LF # u)" by (simp_all add: b)
  have sc: "scanLF b 1 = ?i" using scanLF_found [of "?d @ [CR]" "[CHR ''*'']" u] b1 by simp
  have j: "?i < length b" "b ! (?i - 1) = CR" by (simp_all add: b nth_append)
  have sl: "slice b 1 (?i - 1) = ?d" using slice_mid [of "[CHR ''*'']" ?d "CR # LF # u"] unfolding b2 by simp
  have "Atoi ?d = Some (int n)" using n by (intro Atoi_digits) simp
  then show ?thesis
    using sc j sl n by (subst readBuf.simps) (simp add: b Let_def split: sum.split option.split)
qed

lemma readBuf_cmd:
  assumes "args \<noteq> []" "length (cmdBytes args @ rest) < 2 ^ 62"
  shows "readBuf (cmdBytes args @ rest) cmds = readBuf rest (cmds @ [mkCommand args])"
proof -
  let ?b = "cmdBytes args @ rest"
  let ?pre = "CHR ''*'' # nat_digits (length args) @ [CR, LF]"
  have "?b = ?pre @ concat (map bulkBytes args) @ rest" by (simp add: cmdBytes_def)
  from readBulks_all [OF this _ assms(2), of "length (nat_digits (length args)) + 2" 0 "[]"]
  obtain marks where m: "readBulks ?b (length args) (length (nat_digits (length args)) + 2) [] =
      Inr (Some (length (nat_digits (length args)) + 2 + length (concat (map bulkBytes args)), marks))" "markedArgs ?b marks = args"
    by auto
  have "length marks = length args" using arg_cong [OF m(2), of length] by (simp add: markedArgs_def)
  moreover have k: "length (nat_digits (length args)) + 2 + length (concat (map bulkBytes args)) + 1 = length (cmdBytes args)" by (simp add: cmdBytes_def)
  moreover have "length args < 2 ^ 62"
  proof -
    have "length args \<le> length (concat (map bulkBytes args))" by (induction args) (simp_all add: bulkBytes_def)
    then show ?thesis using assms(2) k by simp
  qed
  moreover have "?b = CHR ''*'' # nat_digits (length args) @ CR # LF # concat (map bulkBytes args) @ rest" by (simp add: cmdBytes_def)
  ultimately show ?thesis
    using readBuf_line [of ?b "length args" "concat (map bulkBytes args) @ rest" cmds] m assms(1) by (simp add: mkCommand_def)
qed

lemma cmdBytes_long: "length args \<le> length (cmdBytes args)" "a \<in> set args \<Longrightarrow> length a \<le> length (cmdBytes args)"
proof -
  have "length args \<le> length (concat (map bulkBytes args))" by (induction args) (simp_all add: bulkBytes_def)
  then show "length args \<le> length (cmdBytes args)" by (simp add: cmdBytes_def)
  have "a \<in> set args \<Longrightarrow> length a \<le> length (concat (map bulkBytes args))" by (induction args) (auto simp: bulkBytes_def)
  then show "a \<in> set args \<Longrightarrow> length a \<le> length (cmdBytes args)" by (simp add: cmdBytes_def)
qed

lemma readBuf_partial:
  assumes s: "strict_prefix s (cmdBytes args)" and a: "args \<noteq> []" "length (cmdBytes args) < 2 ^ 62"
  shows "readBuf s cmds = Inr (cmds, s)"
proof (cases s)
  case Nil
  then show ?thesis by (simp add: readBuf.simps)
next
  case (Cons x t)
  let ?d = "nat_digits (length args)"
  have x: "x = CHR ''*''" and t: "prefix t (?d @ CR # LF # concat (map bulkBytes args))" "t \<noteq> ?d @ CR # LF # concat (map bulkBytes args)"
    using s Cons by (auto simp: cmdBytes_def strict_prefix_def)
  show ?thesis
  proof (cases "LF \<in> set t")
    case False
    then have "scanLF s 1 = length s" using scanLF_none [of t "[x]"] Cons by simp
    then show ?thesis using Cons x by (subst readBuf.simps) (simp add: Let_def)
  next
    case True
    then obtain u where u: "t = ?d @ CR # LF # u" "prefix u (concat (map bulkBytes args))" using prefix_line [OF t(1)] by auto
    have su: "strict_prefix u (concat (map bulkBytes args))" using u t(2) by (auto simp: strict_prefix_def)
    have ls: "length s < 2 ^ 62" using prefix_length_less [OF s] a(2) by simp
    have la: "\<forall>a \<in> set args. length a < 2 ^ 62" "length args < 2 ^ 62" using cmdBytes_long a(2) by (auto intro: le_less_trans)
    have "unready (length args) (readBulks s (length args) (length ?d + 2) [])"
      using readBulks_partial [OF _ su _ la(1) ls, of "CHR ''*'' # ?d @ [CR, LF]" "length ?d + 2" "[]"] Cons x u(1) by simp
    then show ?thesis
      using readBuf_line [of s "length args" u cmds] Cons x u(1) a(1) la(2) by (auto simp: unready_def)
  qed
qed

text \<open>Complete commands, then nothing or a part of one.\<close>

lemma readBuf_stream:
  assumes "\<forall>args \<in> set xs. args \<noteq> []" "length (concat (map cmdBytes xs) @ s) < 2 ^ 62"
    "s = [] \<or> (\<exists>args. strict_prefix s (cmdBytes args) \<and> args \<noteq> [] \<and> length (cmdBytes args) < 2 ^ 62)"
  shows "readBuf (concat (map cmdBytes xs) @ s) cmds = Inr (cmds @ map mkCommand xs, s)"
  using assms
proof (induction xs arbitrary: cmds)
  case Nil
  then show ?case using readBuf_partial by (auto simp: readBuf.simps [of "[]"])
next
  case (Cons args xs)
  have "readBuf (cmdBytes args @ concat (map cmdBytes xs) @ s) cmds = readBuf (concat (map cmdBytes xs) @ s) (cmds @ [mkCommand args])"
    by (rule readBuf_cmd) (use Cons.prems in simp_all)
  then show ?case using Cons.IH [of "cmds @ [mkCommand args]"] Cons.prems by simp
qed

lemma prefix_concat:
  assumes "prefix p (concat (map f xs))"
  shows "\<exists>ys zs s. xs = ys @ zs \<and> p = concat (map f ys) @ s \<and> (s = [] \<or> zs \<noteq> [] \<and> strict_prefix s (f (hd zs)))"
  using assms
proof (induction xs arbitrary: p)
  case (Cons x xs)
  then consider (a) "strict_prefix p (f x)" | (b) us where "p = f x @ us" "prefix us (concat (map f xs))"
    unfolding list.map concat.simps prefix_append strict_prefix_def by (metis append_Nil2 Nil_prefix)
  then show ?case
  proof cases
    case a
    then show ?thesis by (intro exI [of _ "[]"] exI [of _ "x # xs"] exI [of _ p]) simp
  next
    case b
    from Cons.IH [OF b(2)] obtain ys zs s where "xs = ys @ zs" "us = concat (map f ys) @ s" "s = [] \<or> zs \<noteq> [] \<and> strict_prefix s (f (hd zs))" by blast
    then show ?thesis using b(1) by (intro exI [of _ "x # ys"] exI [of _ zs] exI [of _ s]) simp
  qed
qed simp

text \<open>However the stream is cut into reads.\<close>

lemma feed_stream_gen:
  assumes "buf @ concat chunks = concat (map cmdBytes xs)" "buf = [] \<or> xs \<noteq> [] \<and> strict_prefix buf (cmdBytes (hd xs))"
    "\<forall>args \<in> set xs. args \<noteq> []" "length (concat (map cmdBytes xs)) < 2 ^ 62"
  shows "feed chunks buf = Inr (map mkCommand xs, [])"
  using assms
proof (induction chunks arbitrary: buf xs)
  case Nil
  have "xs = []"
  proof (cases xs)
    case (Cons a ys)
    then have "cmdBytes a \<noteq> []" by (simp add: cmdBytes_def)
    then show ?thesis using Nil.prems(1,2) Cons by (auto simp: strict_prefix_def dest: prefix_length_le)
  qed simp
  then show ?case using Nil.prems(1) by simp
next
  case (Cons c cs)
  have "prefix (buf @ c) (concat (map cmdBytes xs))" using Cons.prems(1) by (metis append.assoc concat.simps(2) prefixI)
  from prefix_concat [OF this] obtain ys zs s where p: "xs = ys @ zs" "buf @ c = concat (map cmdBytes ys) @ s"
    "s = [] \<or> zs \<noteq> [] \<and> strict_prefix s (cmdBytes (hd zs))" by blast
  have rest: "s @ concat cs = concat (map cmdBytes zs)"
  proof -
    have "concat (map cmdBytes ys) @ s @ concat cs = concat (map cmdBytes ys) @ concat (map cmdBytes zs)"
      using Cons.prems(1) p(1,2) by (metis append.assoc concat.simps(2) concat_append map_append)
    then show ?thesis by simp
  qed
  have len: "length (concat (map cmdBytes ys) @ s) < 2 ^ 62" "length (concat (map cmdBytes zs)) < 2 ^ 62"
    using Cons.prems(4) rest [THEN arg_cong [where f = length]] by (simp_all add: p(1))
  have s: "s = [] \<or> (\<exists>args. strict_prefix s (cmdBytes args) \<and> args \<noteq> [] \<and> length (cmdBytes args) < 2 ^ 62)"
    using p(1,3) Cons.prems(3) len(2) by (cases zs) auto
  have "readBuf (buf @ c) [] = Inr (map mkCommand ys, s)"
    unfolding p(2) using readBuf_stream [OF _ len(1) s, of "[]"] Cons.prems(3) p(1) by simp
  moreover have "feed cs s = Inr (map mkCommand zs, [])" by (rule Cons.IH [OF rest p(3) _ len(2)]) (use Cons.prems(3) p(1) in simp)
  ultimately show ?case by (simp add: p(1))
qed

text \<open>A bulk length at the end of the 64-bit range.\<close>

lemma wrap64_over:
  assumes "2 ^ 63 \<le> x" "x < 2 ^ 64"
  shows "wrap64 x < 0"
proof -
  have "(x + 2 ^ 63) mod 2 ^ 64 = (x - 2 ^ 63) mod 2 ^ 64" using mod_add_self2 [of "x - 2 ^ 63" "2 ^ 64"] by (simp add: add.commute)
  also have "\<dots> = x - 2 ^ 63" using assms by (intro mod_pos_pos_trivial) simp_all
  finally show ?thesis using assms(2) by (simp add: wrap64_def)
qed

lemma readBulks_panic:
  assumes b: "b = pre @ CHR ''$'' # nat_digits m @ CR # LF # u" and i: "length pre = i + 1" and m: "2 ^ 63 \<le> m + 2" "m < 2 ^ 63" "length b < 2 ^ 62"
  shows "readBulks b (Suc n) i marks = Inl goPanic"
proof -
  let ?d = "nat_digits m"
  let ?j = "length pre + length ?d + 2"
  have b1: "b = pre @ (CHR ''$'' # ?d @ [CR]) @ LF # u" and b2: "b = (pre @ [CHR ''$'']) @ ?d @ (CR # LF # u)" by (simp_all add: b)
  have sc: "scanLF b (length pre) = ?j" unfolding b1 by (subst scanLF_found) simp_all
  have j: "?j < length b" "b ! (?j - 1) = CR" "b ! length pre = CHR ''$''"
    unfolding b by (simp_all add: nth_append)
  have sl: "slice b (length pre + 1) (?j - 1) = ?d"
    using slice_mid [of "pre @ [CHR ''$'']" ?d "CR # LF # u"] unfolding b2 by simp
  let ?x = "int ?j + int m + 2"
  have "2 ^ 63 \<le> ?x" "?x < 2 ^ 64 - 2 ^ 62" using m j(1) by auto
  then have w: "wrap64 ?x < 0" by (intro wrap64_over) simp_all
  have "Atoi ?d = Some (int m)" using m(2) by (rule Atoi_digits)
  then show ?thesis
    using i j sc sl w by (simp add: Let_def not_le)
qed

lemma bulk_length_panics:
  assumes "b = CHR ''*'' # nat_digits n @ CR # LF # CHR ''$'' # nat_digits m @ CR # LF # u" "0 < n" "n < 2 ^ 62" "2 ^ 63 \<le> m + 2" "m < 2 ^ 63" "length b < 2 ^ 62"
  shows "readBuf b cmds = Inl goPanic"
proof -
  obtain n' where n': "n = Suc n'" using assms(2) by (cases n) auto
  have "readBulks b n (length (nat_digits n) + 2) [] = Inl goPanic"
    unfolding n' by (rule readBulks_panic [of b "CHR ''*'' # nat_digits n @ [CR, LF]" m u]) (use assms n' in simp_all)
  then show ?thesis using readBuf_line [OF assms(1-3), of cmds] by simp
qed

end
