(* ===== verification/Persist_Format.thy ===== *)
theory Persist_Format
  imports Abstract_Store
begin

text \<open>
  The snapshot format (\<^verbatim>\<open>src/lib/persist/format.go\<close>): little-endian integers, length-prefixed
  byte strings, one record per entry, and the decoder, a cursor whose first short read latches the
  error. Byte strings are strings; a \<^verbatim>\<open>uint32\<close> or \<^verbatim>\<open>uint64\<close> is a natural number, reduced where the
  source converts to it; a \<^verbatim>\<open>float64\<close> is its bit pattern, which \<^verbatim>\<open>math.Float64bits\<close> returns.
  Decoding inverts encoding (\<open>decode_encode\<close>).
\<close>

section \<open>Encoding\<close>

fun putLE :: "nat \<Rightarrow> nat \<Rightarrow> string" where
  "putLE 0 v = []"
| "putLE (Suc n) v = char_of (v mod 256) # putLE n (v div 256)"

fun getLE :: "string \<Rightarrow> nat" where
  "getLE [] = 0"
| "getLE (c # cs) = of_char c + 256 * getLE cs"

definition uint32 :: "nat \<Rightarrow> nat" where "uint32 n = n mod 2 ^ 32"

definition appendU32 :: "string \<Rightarrow> nat \<Rightarrow> string" where "appendU32 dst v = dst @ putLE 4 v"
definition appendU64 :: "string \<Rightarrow> nat \<Rightarrow> string" where "appendU64 dst v = dst @ putLE 8 v"
definition appendI64 :: "string \<Rightarrow> int \<Rightarrow> string" where "appendI64 dst v = appendU64 dst (nat (v mod 2 ^ 64))"
definition appendF64 :: "string \<Rightarrow> float64 \<Rightarrow> string" where "appendF64 dst f = appendU64 dst (unat f)"

text \<open>\<^verbatim>\<open>appendStr\<close> and \<^verbatim>\<open>appendBytes\<close> differ in the Go type of the argument only.\<close>

definition appendStr :: "string \<Rightarrow> string \<Rightarrow> string" where
  "appendStr dst s = appendU32 dst (uint32 (length s)) @ s"

record segHeader =
  sh_DB :: nat
  sh_Shard :: nat
  sh_Entries :: nat
  PayloadLen :: nat
  PayloadCRC :: nat

definition appendSegHeader :: "string \<Rightarrow> segHeader \<Rightarrow> string" where
  "appendSegHeader dst h =
     appendU64 (appendU32 (appendU32 (appendU32 (appendU32 dst (sh_DB h)) (sh_Shard h)) (sh_Entries h)) (PayloadLen h)) (PayloadCRC h)"

definition tagString :: nat where "tagString = 0"
definition tagList :: nat where "tagList = 1"
definition tagSet :: nat where "tagSet = 2"
definition tagZSet :: nat where "tagZSet = 3"
definition tagHash :: nat where "tagHash = 4"

definition appendTag :: "string \<Rightarrow> nat \<Rightarrow> string" where "appendTag dst t = dst @ [char_of t]"

definition encodeEntry ::
  "('q, 'z, 't, 'h, 'l, 'f) packages \<Rightarrow> (string set \<Rightarrow> string list) \<Rightarrow> string \<Rightarrow> string \<Rightarrow> ('q, 'z) entry \<Rightarrow> string" where
  "encodeEntry P iter dst key e =
     (let dst = appendI64 (appendStr dst key) (ExpireAtMs e)
      in case Val e of
           VString s \<Rightarrow> appendStr (appendTag dst tagString) s
         | VList l \<Rightarrow> foldl appendStr (appendU32 (appendTag dst tagList) (uint32 (ListLen (PQ P) l))) (ListAll (PQ P) l)
         | VSet s \<Rightarrow> let members = SetMembers iter s
             in foldl appendStr (appendU32 (appendTag dst tagSet) (uint32 (length members))) members
         | VZSet z \<Rightarrow> foldl (\<lambda>dst (member, score). appendF64 (appendStr dst member) score)
             (appendU32 (appendTag dst tagZSet) (uint32 (ZSetLen z))) (ZSetEach (PS P) z)
         | VHash h \<Rightarrow> foldl (\<lambda>dst (field, val). appendStr (appendStr dst field) val)
             (appendU32 (appendTag dst tagHash) (uint32 (HashLen h))) (HashEach h))"

section \<open>Decoding\<close>

datatype persistErr =
    errShort
  | errBadMagic
  | errBadCRC
  | errSegCRC nat nat
  | errBadTag nat
  | errVersion nat
  | errRange nat nat
  | errEntry nat nat nat persistErr

record decoder =
  d_b :: string
  d_off :: nat
  d_err :: "persistErr option"

definition dtake :: "decoder \<Rightarrow> nat \<Rightarrow> string option \<times> decoder" where
  "dtake d n =
     (if d_err d \<noteq> None then (None, d)
      else if int (length (d_b d)) - int (d_off d) < int n then (None, d\<lparr>d_err := Some errShort\<rparr>)
      else (Some (take n (drop (d_off d) (d_b d))), d\<lparr>d_off := d_off d + n\<rparr>))"

definition du32 :: "decoder \<Rightarrow> nat \<times> decoder" where
  "du32 d = (let (b, d1) = dtake d 4 in (case b of None \<Rightarrow> 0 | Some b \<Rightarrow> getLE b, d1))"

definition du64 :: "decoder \<Rightarrow> nat \<times> decoder" where
  "du64 d = (let (b, d1) = dtake d 8 in (case b of None \<Rightarrow> 0 | Some b \<Rightarrow> getLE b, d1))"

definition di64 :: "decoder \<Rightarrow> int \<times> decoder" where
  "di64 d = (let (v, d1) = du64 d in (wrap64 (int v), d1))"

definition df64 :: "decoder \<Rightarrow> float64 \<times> decoder" where
  "df64 d = (let (v, d1) = du64 d in (of_nat v, d1))"

text \<open>\<^verbatim>\<open>str\<close> and \<^verbatim>\<open>bytes\<close>; a nil slice becomes the empty string.\<close>

definition dstr :: "decoder \<Rightarrow> string \<times> decoder" where
  "dstr d =
     (let (n, d1) = du32 d
      in if d_err d1 \<noteq> None then ([], d1)
         else let (b, d2) = dtake d1 n in (case b of None \<Rightarrow> [] | Some b \<Rightarrow> b, d2))"

definition dsegHeader :: "decoder \<Rightarrow> segHeader \<times> decoder" where
  "dsegHeader d =
     (let (a, d1) = du32 d; (b, d2) = du32 d1; (c, d3) = du32 d2; (l, d4) = du32 d3; (x, d5) = du64 d4
      in (\<lparr>sh_DB = a, sh_Shard = b, sh_Entries = c, PayloadLen = l, PayloadCRC = x\<rparr>, d5))"

text \<open>\<open>for ; n > 0 && d.err == nil; n--\<close> around one element.\<close>

fun dloop :: "(decoder \<Rightarrow> 'a \<Rightarrow> 'a \<times> decoder) \<Rightarrow> nat \<Rightarrow> decoder \<Rightarrow> 'a \<Rightarrow> 'a \<times> decoder" where
  "dloop f 0 d x = (x, d)"
| "dloop f (Suc n) d x = (if d_err d \<noteq> None then (x, d) else let (x1, d1) = f d x in dloop f n d1 x1)"

definition dcount :: "(decoder \<Rightarrow> 'a \<Rightarrow> 'a \<times> decoder) \<Rightarrow> decoder \<Rightarrow> 'a \<Rightarrow> 'a \<times> decoder" where
  "dcount f d x = (let (n, d1) = du32 d in dloop f n d1 x)"

definition dlist1 :: "'q quicklist \<Rightarrow> decoder \<Rightarrow> 'q glist \<Rightarrow> 'q glist \<times> decoder" where
  "dlist1 Q d l = (let (b, d1) = dstr d in (ListPushTail Q l b, d1))"

definition dset1 :: "decoder \<Rightarrow> gset \<Rightarrow> gset \<times> decoder" where
  "dset1 d s = (let (m, d1) = dstr d in (snd (SetAdd s m), d1))"

definition dzset1 :: "'z skips \<Rightarrow> decoder \<Rightarrow> 'z zset \<Rightarrow> 'z zset \<times> decoder" where
  "dzset1 S d z = (let (m, d1) = dstr d; (score, d2) = df64 d1 in (snd (ZSetAdd S z m score), d2))"

definition dhash1 :: "decoder \<Rightarrow> hash \<Rightarrow> hash \<times> decoder" where
  "dhash1 d h = (let (f, d1) = dstr d; (v, d2) = dstr d1 in (snd (HashSet h f v), d2))"

definition dvalue :: "('q, 'z, 't, 'h, 'l, 'f) packages \<Rightarrow> nat \<Rightarrow> decoder \<Rightarrow> ('q, 'z) gval option \<times> decoder" where
  "dvalue P tag d =
     (if tag = tagString then let (s, d1) = dstr d in (Some (VString s), d1)
      else if tag = tagList then let (l, d1) = dcount (dlist1 (PQ P)) d (NewList (PQ P)) in (Some (VList l), d1)
      else if tag = tagSet then let (s, d1) = dcount dset1 d NewSet in (Some (VSet s), d1)
      else if tag = tagZSet then let (z, d1) = dcount (dzset1 (PS P)) d (NewZSet (PS P)) in (Some (VZSet z), d1)
      else if tag = tagHash then let (h, d1) = dcount dhash1 d NewHash in (Some (VHash h), d1)
      else (None, d\<lparr>d_err := Some (errBadTag tag)\<rparr>))"

definition decodeEntry :: "('q, 'z, 't, 'h, 'l, 'f) packages \<Rightarrow> decoder \<Rightarrow> (string \<times> ('q, 'z) entry option) \<times> decoder" where
  "decodeEntry P d =
     (let (key, d1) = dstr d; (expireAt, d2) = di64 d1; (tag, d3) = dtake d2 1
      in case tag of
           None \<Rightarrow> (([], None), d3)
         | Some t \<Rightarrow>
             (let (v, d4) = dvalue P (of_char (hd t)) d3
              in case v of
                   None \<Rightarrow> (([], None), d4)
                 | Some v \<Rightarrow> ((key, Some \<lparr>Val = v, ExpireAtMs = expireAt, ExpGen = 0, Version = 0, memBytes = 0\<rparr>), d4)))"

section \<open>Decoding inverts encoding\<close>

lemma putLE_length [simp]: "length (putLE n v) = n"
  by (induction n arbitrary: v) simp_all

lemma getLE_putLE: "getLE (putLE n v) = v mod 256 ^ n"
proof (induction n arbitrary: v)
  case (Suc n)
  have "v mod 256 + 256 * (v div 256 mod 256 ^ n) = v mod 256 ^ Suc n"
    by (simp add: mod_mult2_eq)
  with Suc show ?case by simp
qed simp

text \<open>The decoder stands before \<open>ys\<close>.\<close>

definition before :: "decoder \<Rightarrow> string \<Rightarrow> bool" where
  "before d ys \<longleftrightarrow> d_err d = None \<and> d_off d \<le> length (d_b d) \<and> drop (d_off d) (d_b d) = ys"

lemma dtake_before:
  assumes "before d (xs @ ys)"
  obtains d' where "dtake d (length xs) = (Some xs, d')" "before d' ys"
proof -
  have l: "length (d_b d) - d_off d = length xs + length ys" using assms by (metis before_def length_append length_drop)
  have "dtake d (length xs) = (Some xs, d\<lparr>d_off := d_off d + length xs\<rparr>)"
    using assms l by (auto simp: dtake_def before_def)
  moreover have "before (d\<lparr>d_off := d_off d + length xs\<rparr>) ys"
    using assms l drop_drop [of "length xs" "d_off d" "d_b d"] by (auto simp: before_def add.commute)
  ultimately show thesis by (rule that)
qed

lemma du32_before:
  assumes "before d (putLE 4 v @ ys)" "v < 2 ^ 32"
  obtains d' where "du32 d = (v, d')" "before d' ys"
proof -
  obtain d' where d': "dtake d (length (putLE 4 v)) = (Some (putLE 4 v), d')" "before d' ys" by (rule dtake_before [OF assms(1)])
  have "du32 d = (v, d')" using d'(1) assms(2) by (simp add: du32_def getLE_putLE)
  then show thesis using d'(2) by (rule that)
qed

lemma du64_before:
  assumes "before d (putLE 8 v @ ys)" "v < 2 ^ 64"
  obtains d' where "du64 d = (v, d')" "before d' ys"
proof -
  obtain d' where d': "dtake d (length (putLE 8 v)) = (Some (putLE 8 v), d')" "before d' ys" by (rule dtake_before [OF assms(1)])
  have "du64 d = (v, d')" using d'(1) assms(2) by (simp add: du64_def getLE_putLE)
  then show thesis using d'(2) by (rule that)
qed

lemma dstr_before:
  assumes "before d (putLE 4 (uint32 (length s)) @ s @ ys)" "length s < 2 ^ 32"
  obtains d' where "dstr d = (s, d')" "before d' ys"
proof -
  obtain d1 where 1: "du32 d = (length s, d1)" "before d1 (s @ ys)"
    by (rule du32_before [OF assms(1)]) (use assms(2) in \<open>simp_all add: uint32_def\<close>)
  obtain d2 where 2: "dtake d1 (length s) = (Some s, d2)" "before d2 ys" by (rule dtake_before [OF 1(2)])
  have "dstr d = (s, d2)" using 1 2 by (simp add: dstr_def before_def)
  then show thesis using 2(2) by (rule that)
qed

text \<open>The same for values written one after another.\<close>

lemma foldl_append:
  assumes "\<And>dst x. f dst x = dst @ g x"
  shows "foldl f dst xs = dst @ concat (map g xs)"
  using assms by (induction xs arbitrary: dst) simp_all

definition strBytes :: "string \<Rightarrow> string" where "strBytes s = putLE 4 (uint32 (length s)) @ s"
definition f64Bytes :: "float64 \<Rightarrow> string" where "f64Bytes f = putLE 8 (unat f)"

definition valBytes :: "('q, 'z, 't, 'h, 'l, 'f) packages \<Rightarrow> (string set \<Rightarrow> string list) \<Rightarrow> ('q, 'z) gval \<Rightarrow> string" where
  "valBytes P iter v =
     (case v of
        VString s \<Rightarrow> strBytes s
      | VList l \<Rightarrow> putLE 4 (uint32 (ListLen (PQ P) l)) @ concat (map strBytes (ListAll (PQ P) l))
      | VSet s \<Rightarrow> putLE 4 (uint32 (length (SetMembers iter s))) @ concat (map strBytes (SetMembers iter s))
      | VZSet z \<Rightarrow> putLE 4 (uint32 (ZSetLen z)) @ concat (map (\<lambda>(m, s). strBytes m @ f64Bytes s) (ZSetEach (PS P) z))
      | VHash h \<Rightarrow> putLE 4 (uint32 (HashLen h)) @ concat (map (\<lambda>(f, v). strBytes f @ strBytes v) (HashEach h)))"

definition tagOf :: "('q, 'z) gval \<Rightarrow> nat" where
  "tagOf v = (case v of VString _ \<Rightarrow> tagString | VList _ \<Rightarrow> tagList | VSet _ \<Rightarrow> tagSet | VZSet _ \<Rightarrow> tagZSet | VHash _ \<Rightarrow> tagHash)"

definition entryBytes :: "('q, 'z, 't, 'h, 'l, 'f) packages \<Rightarrow> (string set \<Rightarrow> string list) \<Rightarrow> string \<Rightarrow> ('q, 'z) entry \<Rightarrow> string" where
  "entryBytes P iter key e =
     strBytes key @ putLE 8 (nat (ExpireAtMs e mod 2 ^ 64)) @ [char_of (tagOf (Val e))] @ valBytes P iter (Val e)"

lemma appendStr_bytes: "appendStr dst s = dst @ strBytes s"
  by (simp add: appendStr_def appendU32_def strBytes_def)

lemma encodeEntry_bytes: "encodeEntry P iter dst key e = dst @ entryBytes P iter key e"
proof -
  have 1: "foldl appendStr dst xs = dst @ concat (map strBytes xs)" for dst xs
    by (rule foldl_append) (rule appendStr_bytes)
  have 2: "foldl (\<lambda>dst (m, s). appendF64 (appendStr dst m) s) dst xs = dst @ concat (map (\<lambda>(m, s). strBytes m @ f64Bytes s) xs)" for dst xs
    by (rule foldl_append) (auto simp: appendStr_bytes appendF64_def appendU64_def f64Bytes_def)
  have 3: "foldl (\<lambda>dst (f, v). appendStr (appendStr dst f) v) dst xs = dst @ concat (map (\<lambda>(f, v). strBytes f @ strBytes v) xs)" for dst xs
    by (rule foldl_append) (auto simp: appendStr_bytes)
  show ?thesis
    by (cases "Val e") (simp_all add: encodeEntry_def entryBytes_def valBytes_def tagOf_def 1 2 3 Let_def,
        simp_all add: appendI64_def appendU64_def appendU32_def appendTag_def appendStr_bytes)
qed

lemma dloop_before:
  assumes "\<And>d x y ys. y \<in> set xs \<Longrightarrow> before d (g y @ ys) \<Longrightarrow> \<exists>d'. f d x = (h x y, d') \<and> before d' ys"
  shows "before d (concat (map g xs) @ ys) \<Longrightarrow> \<exists>d'. dloop f (length xs) d x = (foldl h x xs, d') \<and> before d' ys"
  using assms
proof (induction xs arbitrary: d x)
  case Nil
  then show ?case by simp
next
  case (Cons y xs)
  obtain d1 where 1: "f d x = (h x y, d1)" "before d1 (concat (map g xs) @ ys)"
    using Cons.prems(2) [of y d "concat (map g xs) @ ys" x] Cons.prems(1) by auto
  obtain d' where "dloop f (length xs) d1 (h x y) = (foldl h (h x y) xs, d')" "before d' ys"
    using Cons.IH [OF 1(2), of "h x y"] Cons.prems(2) by auto
  moreover have "d_err d = None" using Cons.prems(1) by (simp add: before_def)
  ultimately show ?case using 1 by auto
qed

lemma dcount_before:
  assumes "\<And>d x y ys. y \<in> set xs \<Longrightarrow> before d (g y @ ys) \<Longrightarrow> \<exists>d'. f d x = (h x y, d') \<and> before d' ys"
    and "before d (putLE 4 (uint32 (length xs)) @ concat (map g xs) @ ys)" "length xs < 2 ^ 32"
  obtains d' where "dcount f d x = (foldl h x xs, d')" "before d' ys"
proof -
  obtain d1 where 1: "du32 d = (length xs, d1)" "before d1 (concat (map g xs) @ ys)"
    by (rule du32_before [OF assms(2)]) (use assms(3) in \<open>simp_all add: uint32_def\<close>)
  then show thesis using dloop_before [where f = f and g = g and h = h and x = x, OF assms(1) 1(2)] that by (auto simp: dcount_def)
qed

section \<open>Values\<close>

text \<open>What the format can hold: strings and collections below 4 GiB, expiry times of 64 bits, set members that print as they parse.\<close>

definition small :: "string \<Rightarrow> bool" where "small s \<longleftrightarrow> length s < 2 ^ 32"

definition storable :: "('q, 'z, 't, 'h, 'l, 'f) packages \<Rightarrow> ('q, 'z) gval \<Rightarrow> bool" where
  "storable P v =
     (case v of
        VString s \<Rightarrow> small s
      | VList l \<Rightarrow> length (ListAll (PQ P) l) < 2 ^ 32 \<and> (\<forall>x \<in> set (ListAll (PQ P) l). small x)
      | VSet s \<Rightarrow> card (set_elems s) < 2 ^ 32 \<and> (\<forall>x \<in> set_elems s. small x \<and> canonical_member x)
      | VZSet z \<Rightarrow> ZSetLen z < 2 ^ 32 \<and> (\<forall>x \<in> dom (zm z). small x)
      | VHash h \<Rightarrow> length (pairs h) < 2 ^ 32 \<and> (\<forall>p \<in> set (pairs h). small (fst p) \<and> small (snd p)))"

lemma dstr_bytes:
  assumes "before d (strBytes s @ ys)" "small s"
  obtains d' where "dstr d = (s, d')" "before d' ys"
  by (rule dstr_before [of d s ys]) (use assms in \<open>simp_all add: strBytes_def small_def\<close>)

lemma df64_bytes:
  assumes "before d (f64Bytes f @ ys)"
  obtains d' where "df64 d = (f, d')" "before d' ys"
proof -
  have "unat f < 2 ^ 64" using unsigned_less [of f] by simp
  then obtain d' where d': "du64 d = (unat f, d')" "before d' ys" using du64_before assms unfolding f64Bytes_def by blast
  then have "df64 d = (f, d')" by (simp add: df64_def)
  then show thesis using d'(2) by (rule that)
qed

context pluto_laws
begin

lemma push_all: "ListAll (PQ P) (foldl (\<lambda>l b. ListPushTail (PQ P) l b) l xs) = ListAll (PQ P) l @ xs"
  "list_inv (PQ P) l \<Longrightarrow> list_inv (PQ P) (foldl (\<lambda>l b. ListPushTail (PQ P) l b) l xs)"
  by (induction xs arbitrary: l) (simp_all add: qk.ListPush_all qk.ListPush_inv)

lemma dlist_before:
  assumes "before d (putLE 4 (uint32 (length xs)) @ concat (map strBytes xs) @ ys)" "length xs < 2 ^ 32" "\<forall>x \<in> set xs. small x"
  obtains l d' where "dcount (dlist1 (PQ P)) d (NewList (PQ P)) = (l, d')" "before d' ys" "ListAll (PQ P) l = xs" "list_inv (PQ P) l"
proof -
  have step: "\<exists>d'. dlist1 (PQ P) d l = (ListPushTail (PQ P) l y, d') \<and> before d' ys"
    if "y \<in> set xs" "before d (strBytes y @ ys)" for d l y ys
    by (rule dstr_bytes [OF that(2)]) (use that assms(3) in \<open>auto simp: dlist1_def\<close>)
  obtain d' where d': "dcount (dlist1 (PQ P)) d (NewList (PQ P)) = (foldl (\<lambda>l b. ListPushTail (PQ P) l b) (NewList (PQ P)) xs, d')" "before d' ys"
    by (rule dcount_before [where f = "dlist1 (PQ P)" and g = strBytes and h = "\<lambda>l b. ListPushTail (PQ P) l b" and xs = xs and d = d and ys = ys and x = "NewList (PQ P)"])
      (use step assms in auto)
  have "ListAll (PQ P) (NewList (PQ P)) = []" by (simp add: NewList_def ListAll_def qk.all_new)
  with d' show thesis using that push_all [of "NewList (PQ P)" xs] qk.list_inv_New by auto
qed

end

lemma dset_add_all:
  "set_inv s \<Longrightarrow> \<forall>m \<in> set xs. canonical_member m \<Longrightarrow>
     set_elems (foldl (\<lambda>s m. snd (SetAdd s m)) s xs) = set_elems s \<union> set xs \<and> set_inv (foldl (\<lambda>s m. snd (SetAdd s m)) s xs)"
  by (induction xs arbitrary: s) (simp_all add: SetAdd_elems SetAdd_inv)

lemma dset_before:
  assumes "before d (putLE 4 (uint32 (length xs)) @ concat (map strBytes xs) @ ys)" "length xs < 2 ^ 32"
    "\<forall>x \<in> set xs. small x \<and> canonical_member x"
  obtains s d' where "dcount dset1 d NewSet = (s, d')" "before d' ys" "set_elems s = set xs" "set_inv s"
proof -
  have step: "\<exists>d'. dset1 d s = (snd (SetAdd s y), d') \<and> before d' ys"
    if "y \<in> set xs" "before d (strBytes y @ ys)" for d s y ys
    by (rule dstr_bytes [OF that(2)]) (use that assms(3) in \<open>auto simp: dset1_def\<close>)
  obtain d' where d': "dcount dset1 d NewSet = (foldl (\<lambda>s m. snd (SetAdd s m)) NewSet xs, d')" "before d' ys"
    by (rule dcount_before [where f = dset1 and g = strBytes and h = "\<lambda>s m. snd (SetAdd s m)" and xs = xs and d = d and ys = ys and x = NewSet])
      (use step assms in auto)
  then show thesis using that dset_add_all [OF NewSet_inv, of xs] assms(3) by (auto simp: NewSet_elems)
qed

lemma set_all_pairs:
  "hash_inv h \<Longrightarrow> distinct (map fst (pairs h @ xs)) \<Longrightarrow>
     pairs (foldl (\<lambda>h (f, v). snd (HashSet h f v)) h xs) = pairs h @ xs \<and> hash_inv (foldl (\<lambda>h (f, v). snd (HashSet h f v)) h xs)"
proof (induction xs arbitrary: h)
  case (Cons p xs)
  obtain f v where p: "p = (f, v)" by (cases p)
  have "pairs (snd (HashSet h f v)) = pairs h @ [(f, v)]"
    using Cons.prems by (simp add: HashSet_pairs p update_fresh)
  then show ?case using Cons.IH [of "snd (HashSet h f v)"] Cons.prems by (simp add: p HashSet_inv)
qed simp

lemma dhash_before:
  assumes "before d (putLE 4 (uint32 (length xs)) @ concat (map (\<lambda>(f, v). strBytes f @ strBytes v) xs) @ ys)" "length xs < 2 ^ 32"
    "\<forall>p \<in> set xs. small (fst p) \<and> small (snd p)" "distinct (map fst xs)"
  obtains h d' where "dcount dhash1 d NewHash = (h, d')" "before d' ys" "pairs h = xs" "hash_inv h"
proof -
  have step: "\<exists>d'. dhash1 d h = ((\<lambda>h (f, v). snd (HashSet h f v)) h y, d') \<and> before d' ys"
    if m: "y \<in> set xs" and b: "before d ((\<lambda>(f, v). strBytes f @ strBytes v) y @ ys)" for d h y ys
  proof -
    obtain f v where y: "y = (f, v)" by (cases y)
    have sm: "small f" "small v" using assms(3) m y by auto
    obtain d1 where 1: "dstr d = (f, d1)" "before d1 (strBytes v @ ys)" by (rule dstr_bytes [of d f "strBytes v @ ys"]) (use b y sm in auto)
    obtain d2 where 2: "dstr d1 = (v, d2)" "before d2 ys" by (rule dstr_bytes [OF 1(2) sm(2)])
    show ?thesis using 1 2 by (simp add: dhash1_def y)
  qed
  obtain d' where d': "dcount dhash1 d NewHash = (foldl (\<lambda>h (f, v). snd (HashSet h f v)) NewHash xs, d')" "before d' ys"
    by (rule dcount_before [where f = dhash1 and g = "\<lambda>(f, v). strBytes f @ strBytes v" and h = "\<lambda>h (f, v). snd (HashSet h f v)" and xs = xs and d = d and ys = ys and x = NewHash])
      (use step assms in auto)
  have "pairs NewHash = []" by (simp add: NewHash_def)
  then show thesis using that d' set_all_pairs [OF NewHash_inv, of xs] assms(4) by auto
qed

context pluto_laws
begin

lemma zadd_all:
  "\<lbrakk>zset_inv (PS P) z; distinct (map fst xs); \<forall>p \<in> set xs. \<not> is_nan (snd p) \<and> zm z (fst p) = None\<rbrakk> \<Longrightarrow>
     zset_inv (PS P) (foldl (\<lambda>z (m, s). snd (ZSetAdd (PS P) z m s)) z xs) \<and>
     zm (foldl (\<lambda>z (m, s). snd (ZSetAdd (PS P) z m s)) z xs) = zm z ++ map_of xs"
proof (induction xs arbitrary: z)
  case (Cons p xs)
  obtain m s where p: "p = (m, s)" by (cases p)
  let ?z = "snd (ZSetAdd (PS P) z m s)"
  have 1: "zset_inv (PS P) ?z" "zm ?z = (zm z)(m \<mapsto> s)" using zk.ZSetAdd_new [of z s m] Cons.prems p by auto
  have "\<forall>q \<in> set xs. \<not> is_nan (snd q) \<and> zm ?z (fst q) = None" using Cons.prems 1(2) p by (auto simp: image_iff)
  from Cons.IH [OF 1(1) _ this] Cons.prems(2)
  have IH: "zset_inv (PS P) (foldl (\<lambda>z (m, s). snd (ZSetAdd (PS P) z m s)) ?z xs)"
    "zm (foldl (\<lambda>z (m, s). snd (ZSetAdd (PS P) z m s)) ?z xs) = zm ?z ++ map_of xs" by auto
  have "m \<notin> dom (map_of xs)" using Cons.prems(2) p by (simp add: dom_map_of_conv_image_fst)
  then have "(zm z)(m \<mapsto> s) ++ map_of xs = zm z ++ map_of (p # xs)" by (auto simp: p fun_eq_iff map_add_def split: option.split)
  then show ?case using IH 1(2) by (simp only: p foldl_Cons prod.case simp_thms)
qed simp

lemma dzset_before:
  assumes "before d (putLE 4 (uint32 (length xs)) @ concat (map (\<lambda>(m, s). strBytes m @ f64Bytes s) xs) @ ys)" "length xs < 2 ^ 32"
    "\<forall>p \<in> set xs. small (fst p) \<and> \<not> is_nan (snd p)" "distinct (map fst xs)"
  obtains z d' where "dcount (dzset1 (PS P)) d (NewZSet (PS P)) = (z, d')" "before d' ys" "zm z = map_of xs" "zset_inv (PS P) z"
proof -
  have step: "\<exists>d'. dzset1 (PS P) d z = ((\<lambda>z (m, s). snd (ZSetAdd (PS P) z m s)) z y, d') \<and> before d' ys"
    if m: "y \<in> set xs" and b: "before d ((\<lambda>(m, s). strBytes m @ f64Bytes s) y @ ys)" for d z y ys
  proof -
    obtain f v where y: "y = (f, v)" by (cases y)
    obtain d1 where 1: "dstr d = (f, d1)" "before d1 (f64Bytes v @ ys)"
      by (rule dstr_bytes [of d f "f64Bytes v @ ys"]) (use b y assms(3) m in auto)
    obtain d2 where 2: "df64 d1 = (v, d2)" "before d2 ys" by (rule df64_bytes [OF 1(2)])
    show ?thesis using 1 2 by (simp add: dzset1_def y)
  qed
  obtain d' where d': "dcount (dzset1 (PS P)) d (NewZSet (PS P)) = (foldl (\<lambda>z (m, s). snd (ZSetAdd (PS P) z m s)) (NewZSet (PS P)) xs, d')" "before d' ys"
    by (rule dcount_before [where f = "dzset1 (PS P)" and g = "\<lambda>(m, s). strBytes m @ f64Bytes s" and h = "\<lambda>z (m, s). snd (ZSetAdd (PS P) z m s)"
          and xs = xs and d = d and ys = ys and x = "NewZSet (PS P)"]) (use step assms in auto)
  have "zm (NewZSet (PS P)) = Map.empty" by (simp add: NewZSet_def)
  then show thesis using that d' zadd_all [OF zk.NewZSet_inv assms(4)] assms(3) by auto
qed

lemma zset_each:
  assumes "zset_inv (PS P) z"
  shows "map_of (ZSetEach (PS P) z) = zm z" "distinct (map fst (ZSetEach (PS P) z))" "length (ZSetEach (PS P) z) = ZSetLen z"
    "p \<in> set (ZSetEach (PS P) z) \<Longrightarrow> fst p \<in> dom (zm z) \<and> \<not> is_nan (snd p)"
proof -
  let ?xs = "sl_all (PS P) (sl z)"
  show d: "distinct (map fst (ZSetEach (PS P) z))"
    using zk.distinct_all [OF assms] zset_inj [OF assms] by (simp add: ZSetEach_def comp_def distinct_map)
  show "length (ZSetEach (PS P) z) = ZSetLen z" using zk.ZSetLen_all [OF assms] by (simp add: ZSetEach_def)
  have m: "(k, s) \<in> set (ZSetEach (PS P) z) \<longleftrightarrow> zm z k = Some s" for k s
  proof -
    have eta: "\<lparr>Score = Score x, Member = Member x\<rparr> = x" for x :: zelem by simp
    have "(k, s) \<in> set (ZSetEach (PS P) z) \<longleftrightarrow> \<lparr>Score = s, Member = k\<rparr> \<in> set ?xs"
      by (auto simp: ZSetEach_def image_iff eta intro!: bexI [of _ "\<lparr>Score = s, Member = k\<rparr>"])
    then show ?thesis using zset_inv_mem [OF assms, of "\<lparr>Score = s, Member = k\<rparr>"] by simp
  qed
  show "map_of (ZSetEach (PS P) z) = zm z"
  proof
    fix k show "map_of (ZSetEach (PS P) z) k = zm z k" using m [of k] d by (cases "zm z k") (auto simp: map_of_eq_None_iff)
  qed
  show "p \<in> set (ZSetEach (PS P) z) \<Longrightarrow> fst p \<in> dom (zm z) \<and> \<not> is_nan (snd p)"
    using m [of "fst p" "snd p"] zset_score_good [OF assms] by auto
qed

text \<open>Decoding the bytes of a value gives a value with the same meaning and its own invariant.\<close>

lemma dvalue_before:
  assumes b: "before d (valBytes P iter v @ ys)" and v: "value_ok P v" "storable P v" and it: "enumerates iter"
  obtains v' d' where "dvalue P (tagOf v) d = (Some v', d')" "before d' ys" "absv P v' = absv P v" "value_ok P v'"
proof (cases v)
  case (VString s)
  obtain d' where "dstr d = (s, d')" "before d' ys" by (rule dstr_bytes [of d s ys]) (use b v VString in \<open>simp_all add: valBytes_def storable_def\<close>)
  with VString show thesis by (intro that [of "VString s" d']) (simp_all add: dvalue_def tagOf_def value_ok_def)
next
  case (VList l)
  obtain l' d' where "dcount (dlist1 (PQ P)) d (NewList (PQ P)) = (l', d')" "before d' ys" "ListAll (PQ P) l' = ListAll (PQ P) l" "list_inv (PQ P) l'"
    by (rule dlist_before [of d "ListAll (PQ P) l" ys]) (use b v VList in \<open>simp_all add: valBytes_def storable_def qk.ListLen_all\<close>)
  with VList show thesis by (intro that [of "VList l'" d']) (simp_all add: dvalue_def tagOf_def value_ok_def tagString_def tagList_def)
next
  case (VSet s)
  have s: "set (SetMembers iter s) = set_elems s" "distinct (SetMembers iter s)" using SetMembers_elems [OF _ it] v(1) VSet by (auto simp: value_ok_def)
  then have "length (SetMembers iter s) = card (set_elems s)" by (metis distinct_card)
  then obtain s' d' where "dcount dset1 d NewSet = (s', d')" "before d' ys" "set_elems s' = set (SetMembers iter s)" "set_inv s'"
    by (rule_tac dset_before [of d "SetMembers iter s" ys]) (use b v VSet s in \<open>simp_all add: valBytes_def storable_def\<close>)
  with VSet s show thesis by (intro that [of "VSet s'" d']) (simp_all add: dvalue_def tagOf_def value_ok_def tagString_def tagList_def tagSet_def)
next
  case (VZSet z)
  have z: "zset_inv (PS P) z" using v(1) VZSet by (simp add: value_ok_def)
  obtain z' d' where "dcount (dzset1 (PS P)) d (NewZSet (PS P)) = (z', d')" "before d' ys" "zm z' = map_of (ZSetEach (PS P) z)" "zset_inv (PS P) z'"
    by (rule dzset_before [of d "ZSetEach (PS P) z" ys]) (use b v(2) VZSet zset_each [OF z] in \<open>auto simp: valBytes_def storable_def\<close>)
  with VZSet zset_each(1) [OF z] show thesis
    by (intro that [of "VZSet z'" d']) (simp_all add: dvalue_def tagOf_def value_ok_def tagString_def tagList_def tagSet_def tagZSet_def)
next
  case (VHash h)
  obtain h' d' where "dcount dhash1 d NewHash = (h', d')" "before d' ys" "pairs h' = pairs h" "hash_inv h'"
    by (rule dhash_before [of d "pairs h" ys]) (use b v VHash in \<open>simp_all add: valBytes_def storable_def HashEach_def HashLen_def value_ok_def hash_inv_def\<close>)
  with VHash show thesis by (intro that [of "VHash h'" d']) (simp_all add: dvalue_def tagOf_def value_ok_def tagString_def tagList_def tagSet_def tagZSet_def tagHash_def)
qed

text \<open>A record is read back with the same key, meaning and expiry, and the cursor stands behind it.\<close>

lemma decode_encode:
  assumes b: "before d (entryBytes P iter key e @ ys)" and v: "value_ok P (Val e)" "storable P (Val e)" and it: "enumerates iter"
    and k: "small key" "is_i64 (ExpireAtMs e)"
  obtains e' d' where "decodeEntry P d = ((key, Some e'), d')" "before d' ys" "abse P e' = abse P e" "value_ok P (Val e')"
proof -
  obtain d1 where 1: "dstr d = (key, d1)"
      "before d1 (putLE 8 (nat (ExpireAtMs e mod 2 ^ 64)) @ [char_of (tagOf (Val e))] @ valBytes P iter (Val e) @ ys)"
    by (rule dstr_bytes [OF _ k(1), of d]) (use b in \<open>simp_all add: entryBytes_def\<close>)
  obtain d2 where 2: "du64 d1 = (nat (ExpireAtMs e mod 2 ^ 64), d2)" "before d2 ([char_of (tagOf (Val e))] @ valBytes P iter (Val e) @ ys)"
    by (rule du64_before [OF 1(2)]) simp_all
  obtain d3 where 3: "dtake d2 (length [char_of (tagOf (Val e)) :: char]) = (Some [char_of (tagOf (Val e))], d3)" "before d3 (valBytes P iter (Val e) @ ys)"
    by (rule dtake_before [OF 2(2)])
  obtain v' d' where 4: "dvalue P (tagOf (Val e)) d3 = (Some v', d')" "before d' ys" "absv P v' = absv P (Val e)" "value_ok P v'"
    by (rule dvalue_before [OF 3(2) v it])
  have t: "of_char (char_of (tagOf (Val e)) :: char) = tagOf (Val e)"
    by (cases "Val e") (simp_all add: tagOf_def tagString_def tagList_def tagSet_def tagZSet_def tagHash_def)
  have x: "wrap64 (int (nat (ExpireAtMs e mod 2 ^ 64))) = ExpireAtMs e" using k(2) wrap64_id [OF k(2)] by (simp add: wrap64_def mod_simps)
  have "decodeEntry P d = ((key, Some \<lparr>Val = v', ExpireAtMs = ExpireAtMs e, ExpGen = 0, Version = 0, memBytes = 0\<rparr>), d')"
    using 1(1) 2(1) 3(1) 4(1) x t by (simp add: decodeEntry_def di64_def Let_def)
  from this 4(2) show thesis by (rule that) (use 4 in \<open>simp_all add: abse_def\<close>)
qed

end

end
