(* ===== verification/Snapshot.thy ===== *)
theory Snapshot
  imports Persist_Format
begin

text \<open>
  Snapshots (\<^verbatim>\<open>src/lib/persist/snapshot.go\<close>): \<^verbatim>\<open>writeSnapshot\<close> dumps every segment (database, shard) and
  \<^verbatim>\<open>LoadSnapshot\<close> checks magic, version and checksums and stores the entries, skipping those that
  expired meanwhile. The file is its bytes; writing the temporary file, syncing and renaming it, and
  the JSON sidecar, are input and output and not modelled. The checksum and the compressor are the
  third-party package: parameters. Loading what was written restores the keyspace
  (\<open>load_write\<close>), and nothing is stored from a file whose checksum is wrong (\<open>load_bad_crc\<close>).
\<close>

unbundle bit_operations_syntax

section \<open>Writing\<close>

record codec =
  crcOf :: "string \<Rightarrow> 64 word"
  compressPayload :: "string \<Rightarrow> string"
  decompressPayload :: "string \<Rightarrow> string"

record Manifest =
  mf_Version :: nat
  mf_SavedAt :: int
  mf_Shards :: nat
  mf_DBs :: nat
  mf_Compress :: bool
  mf_Segments :: "(nat \<times> nat \<times> nat \<times> nat) list"

definition snapshotMagic :: string where "snapshotMagic = ''ULTIMA01''"
definition snapshotVersion :: nat where "snapshotVersion = 1"
definition flagCompress :: nat where "flagCompress = 1"

text \<open>The iteration order of a set may differ from set to set: \<open>iter db key\<close>.\<close>

definition payloadOf ::
  "('q, 'z, 't, 'h, 'l, 'f) packages \<Rightarrow> (string \<Rightarrow> string set \<Rightarrow> string list) \<Rightarrow> ('q, 'z, 't, 'h, 'l, 'f) st \<Rightarrow> (string \<times> addr) list \<Rightarrow> string" where
  "payloadOf P iter g items = foldl (\<lambda>payload (key, a). encodeEntry P (iter key) payload key (ents g a)) [] items"

fun writeSegs ::
  "('q, 'z, 't, 'h, 'l, 'f) packages \<Rightarrow> codec \<Rightarrow> (nat \<Rightarrow> string \<Rightarrow> string set \<Rightarrow> string list) \<Rightarrow> bool \<Rightarrow> int \<Rightarrow> ('q, 'z, 't, 'h, 'l, 'f) st \<Rightarrow>
     (nat \<times> nat) list \<Rightarrow> string \<Rightarrow> (nat \<times> nat \<times> nat \<times> nat) list \<Rightarrow> string \<times> (nat \<times> nat \<times> nat \<times> nat) list" where
  "writeSegs P C iter compress nowMs g [] out segs = (out, segs)"
| "writeSegs P C iter compress nowMs g ((db, sh) # ps) out segs =
     (let items = DumpDB P sh g db nowMs;
          payload = payloadOf P (iter db) g items;
          n = uint32 (length items)
      in if n = 0 then writeSegs P C iter compress nowMs g ps out segs
         else
           let crc = unat (crcOf C payload);
               body = (if compress then compressPayload C payload else payload);
               out1 = appendSegHeader out
                 \<lparr>sh_DB = uint32 db, sh_Shard = uint32 sh, sh_Entries = n, PayloadLen = uint32 (length body), PayloadCRC = crc\<rparr> @ body
           in writeSegs P C iter compress nowMs g ps out1 (segs @ [(db, sh, n, crc)]))"

definition snapshotHeader :: "nat \<Rightarrow> nat \<Rightarrow> int \<Rightarrow> bool \<Rightarrow> string" where
  "snapshotHeader shardN dbN savedAt compress =
     appendU32 (appendI64 (appendU32 (appendU32 (appendU32 snapshotMagic snapshotVersion) (uint32 shardN)) (uint32 dbN)) savedAt)
       (if compress then flagCompress else 0)"

definition writeSnapshot ::
  "('q, 'z, 't, 'h, 'l, 'f) packages \<Rightarrow> codec \<Rightarrow> (nat \<Rightarrow> string \<Rightarrow> string set \<Rightarrow> string list) \<Rightarrow> bool \<Rightarrow> int \<Rightarrow> ('q, 'z, 't, 'h, 'l, 'f) st \<Rightarrow> string \<times> Manifest" where
  "writeSnapshot P C iter compress nowMs g =
     (let (out, segs) = writeSegs P C iter compress nowMs g (List.product [0..<maxDBs g] [0..<shardCount g])
            (snapshotHeader (shardCount g) (maxDBs g) nowMs compress) []
      in (appendU64 out (unat (crcOf C out)),
          \<lparr>mf_Version = snapshotVersion, mf_SavedAt = nowMs, mf_Shards = shardCount g, mf_DBs = maxDBs g, mf_Compress = compress, mf_Segments = segs\<rparr>))"

section \<open>Loading\<close>

text \<open>The task that stores one entry, and the eviction pass every task ends with.\<close>

definition loadEntry ::
  "('q, 'z, 't, 'h, 'l, 'f) packages \<Rightarrow> nat \<Rightarrow> nat \<Rightarrow> string \<Rightarrow> ('q, 'z) entry \<Rightarrow> ('q, 'z, 't, 'h, 'l, 'f) st \<Rightarrow> ('q, 'z, 't, 'h, 'l, 'f) st" where
  "loadEntry P sh db key e g =
     (let (a, g1) = storeEntry P sh g db key e
      in maybeEvict P sh (if 0 < ExpireAtMs e then PushExpire P sh g1 db key a else g1))"

fun loadEntries ::
  "('q, 'z, 't, 'h, 'l, 'f) packages \<Rightarrow> int \<Rightarrow> nat \<Rightarrow> nat \<Rightarrow> nat \<Rightarrow> nat \<Rightarrow> decoder \<Rightarrow> ('q, 'z, 't, 'h, 'l, 'f) st \<Rightarrow>
     persistErr option \<times> ('q, 'z, 't, 'h, 'l, 'f) st" where
  "loadEntries P nowMs db sh 0 i ed g = (None, g)"
| "loadEntries P nowMs db sh (Suc n) i ed g =
     (let ((key, e), ed1) = decodeEntry P ed
      in case d_err ed1 of
           Some err \<Rightarrow> (Some (errEntry db sh i err), g)
         | None \<Rightarrow>
             (case e of
                None \<Rightarrow> loadEntries P nowMs db sh n (Suc i) ed1 g
              | Some e \<Rightarrow>
                  if due e nowMs then loadEntries P nowMs db sh n (Suc i) ed1 g
                  else loadEntries P nowMs db sh n (Suc i) ed1 (loadEntry P sh db key e g)))"

lemma dtake_off: "d_err (snd (dtake d n)) = None \<Longrightarrow> d_off (snd (dtake d n)) = d_off d + n \<and> d_err d = None \<and> d_b (snd (dtake d n)) = d_b d"
  by (auto simp: dtake_def split: if_splits)

lemma du32_off: "d_err (snd (du32 d)) = None \<Longrightarrow> d_off (snd (du32 d)) = d_off d + 4 \<and> d_err d = None \<and> d_b (snd (du32 d)) = d_b d"
  using dtake_off [of d 4] by (simp add: du32_def split_beta)

lemma du64_off: "d_err (snd (du64 d)) = None \<Longrightarrow> d_off (snd (du64 d)) = d_off d + 8 \<and> d_err d = None \<and> d_b (snd (du64 d)) = d_b d"
  using dtake_off [of d 8] by (simp add: du64_def split_beta)

lemma dsegHeader_off: "d_err (snd (dsegHeader d)) = None \<Longrightarrow> d_off (snd (dsegHeader d)) = d_off d + 24 \<and> d_err d = None"
  using du32_off [of d] du32_off [of "snd (du32 d)"] du32_off [of "snd (du32 (snd (du32 d)))"]
    du32_off [of "snd (du32 (snd (du32 (snd (du32 d)))))"] du64_off [of "snd (du32 (snd (du32 (snd (du32 (snd (du32 d)))))))"]
  by (simp add: dsegHeader_def split_beta Let_def)

lemma dtake_next: "(b, d2) = dtake d n \<Longrightarrow> d_err d2 = None \<Longrightarrow> d_off d2 = d_off d + n"
  using dtake_off [of d n] by (metis snd_conv)

lemma dsegHeader_next: "(h, d1) = dsegHeader d \<Longrightarrow> d_err d1 = None \<Longrightarrow> d_off d1 = d_off d + 24"
  using dsegHeader_off [of d] by (metis snd_conv)

text \<open>
  The loop over the segments; \<open>m\<close> is the length of the file without the trailer. On an error the
  entries stored so far stay.
\<close>

function loadSegs ::
  "('q, 'z, 't, 'h, 'l, 'f) packages \<Rightarrow> codec \<Rightarrow> bool \<Rightarrow> int \<Rightarrow> nat \<Rightarrow> decoder \<Rightarrow> (nat \<times> nat \<times> nat \<times> nat) list \<Rightarrow> ('q, 'z, 't, 'h, 'l, 'f) st \<Rightarrow>
     (persistErr + (nat \<times> nat \<times> nat \<times> nat) list) \<times> ('q, 'z, 't, 'h, 'l, 'f) st" where
  "loadSegs P C compress nowMs m d segs g =
     (if m \<le> d_off d then (Inr segs, g)
      else
        case dsegHeader d of
          (h, d1) \<Rightarrow>
            (case d_err d1 of
               Some err \<Rightarrow> (Inl err, g)
             | None \<Rightarrow>
                 (case dtake d1 (PayloadLen h) of
                    (b, d2) \<Rightarrow>
                      (case d_err d2 of
                         Some err \<Rightarrow> (Inl err, g)
                       | None \<Rightarrow>
                           let bytes = (case b of None \<Rightarrow> [] | Some b \<Rightarrow> b);
                               payload = (if compress then decompressPayload C bytes else bytes)
                           in if unat (crcOf C payload) \<noteq> PayloadCRC h then (Inl (errSegCRC (sh_DB h) (sh_Shard h)), g)
                              else if shardCount g \<le> sh_Shard h \<or> maxDBs g \<le> sh_DB h then (Inl (errRange (sh_DB h) (sh_Shard h)), g)
                              else
                                case loadEntries P nowMs (sh_DB h) (sh_Shard h) (sh_Entries h) 0 \<lparr>d_b = payload, d_off = 0, d_err = None\<rparr> g of
                                  (Some err, g1) \<Rightarrow> (Inl err, g1)
                                | (None, g1) \<Rightarrow>
                                    loadSegs P C compress nowMs m d2 (segs @ [(sh_DB h, sh_Shard h, sh_Entries h, PayloadCRC h)]) g1))))"
  by pat_completeness auto
termination
  by (relation "measure (\<lambda>(P, C, compress, nowMs, m, d, segs, g). m - d_off d)")
    (auto dest!: dsegHeader_next dtake_next)

declare loadSegs.simps [simp del]

definition LoadSnapshot ::
  "('q, 'z, 't, 'h, 'l, 'f) packages \<Rightarrow> codec \<Rightarrow> int \<Rightarrow> string \<Rightarrow> ('q, 'z, 't, 'h, 'l, 'f) st \<Rightarrow> (persistErr + Manifest) \<times> ('q, 'z, 't, 'h, 'l, 'f) st" where
  "LoadSnapshot P C nowMs raw g =
     (let (magic, d1) = dtake \<lparr>d_b = raw, d_off = 0, d_err = None\<rparr> (length snapshotMagic)
      in if magic \<noteq> Some snapshotMagic then (Inl errBadMagic, g)
         else let (v, d2) = du32 d1
         in if v \<noteq> snapshotVersion then (Inl (errVersion v), g)
         else let (shardN, d3) = du32 d2; (dbN, d4) = du32 d3; (savedAt, d5) = di64 d4; (flags, d6) = du32 d5;
                  compress = (flags AND flagCompress \<noteq> 0)
         in case d_err d6 of
              Some err \<Rightarrow> (Inl err, g)
            | None \<Rightarrow>
                if length raw < 8 then (Inl errShort, g)
                else
                  let m = length raw - 8
                  in if unat (crcOf C (take m raw)) \<noteq> getLE (drop m raw) then (Inl errBadCRC, g)
                     else
                       let (r, g1) = loadSegs P C compress nowMs m (d6\<lparr>d_off := length snapshotMagic + 4 + 4 + 4 + 8 + 4\<rparr>) [] g
                       in (case r of
                             Inl err \<Rightarrow> Inl err
                           | Inr segs \<Rightarrow> Inr \<lparr>mf_Version = snapshotVersion, mf_SavedAt = savedAt, mf_Shards = shardN, mf_DBs = dbN,
                               mf_Compress = compress, mf_Segments = segs\<rparr>, g1))"

section \<open>Loading one entry\<close>

text \<open>An engine without memory limit, at the time of the load.\<close>

definition loadable :: "('q, 'z, 't, 'h, 'l, 'f) packages \<Rightarrow> nat \<Rightarrow> nat \<Rightarrow> int \<Rightarrow> ('q, 'z, 't, 'h, 'l, 'f) st \<Rightarrow> bool" where
  "loadable P k n now g \<longleftrightarrow> db_inv P k g \<and> evict_safe P g \<and> maxMemory g \<le> 0 \<and> maxDBs g = n \<and> NowMs g = now"

text \<open>What a snapshot can hold of an entry.\<close>

definition holdable :: "('q, 'z, 't, 'h, 'l, 'f) packages \<Rightarrow> string \<Rightarrow> ('q, 'z) entry \<Rightarrow> bool" where
  "holdable P key e \<longleftrightarrow> storable P (Val e) \<and> small key \<and> is_i64 (ExpireAtMs e) \<and> 0 \<le> ExpireAtMs e"

definition loadKey ::
  "('q, 'z, 't, 'h, 'l, 'f) packages \<Rightarrow> int \<Rightarrow> nat \<Rightarrow> keyspace \<Rightarrow> string \<times> ('q, 'z) entry \<Rightarrow> keyspace" where
  "loadKey P now db K p = (if due (snd p) now then K else kvupd K db (fst p) (Some (abse P (snd p))))"

definition itemsBytes ::
  "('q, 'z, 't, 'h, 'l, 'f) packages \<Rightarrow> (string \<Rightarrow> string set \<Rightarrow> string list) \<Rightarrow> (string \<times> ('q, 'z) entry) list \<Rightarrow> string" where
  "itemsBytes P iter xs = concat (map (\<lambda>(key, e). entryBytes P (iter key) key e) xs)"

lemma loadKey_pair: "loadKey P now db K (key, e) = (if due e now then K else kvupd K db key (Some (abse P e)))"
  by (simp add: loadKey_def)

lemma foldl_loadKey:
  assumes "distinct (map fst xs)"
  shows "foldl (loadKey P now db) K xs d x =
    (if d = db then case map_of xs x of Some e \<Rightarrow> if due e now then K d x else Some (abse P e) | None \<Rightarrow> K d x else K d x)"
  using assms
proof (induction xs arbitrary: K)
  case (Cons p xs)
  obtain key e where p: "p = (key, e)" by (cases p)
  have "map_of xs key = None" using Cons.prems p by (simp add: map_of_eq_None_iff)
  then show ?case using Cons by (auto simp: p loadKey_def kvupd_def split: option.splits)
qed simp

lemma before_start: "before \<lparr>d_b = b, d_off = 0, d_err = None\<rparr> b"
  by (simp add: before_def)

context pluto_laws
begin

lemma loadEntry_step:
  assumes g: "loadable P k n now g" "db < n"
    and e: "value_ok P (Val e)" "0 \<le> ExpireAtMs e" "\<not> due e now"
  shows "acts P k g (loadEntry P (ShardIndex P k key) db key e g)"
    "kv P (loadEntry P (ShardIndex P k key) db key e g) = kvupd (kv P g) db key (Some (abse P e))"
    "loadable P k n now (loadEntry P (ShardIndex P k key) db key e g)"
proof -
  note G = g [unfolded loadable_def]
  have gi: "db_inv P k g" "evict_safe P g" "maxMemory g \<le> 0" "db < maxDBs g" "NowMs g = now" using G by auto
  let ?i = "ShardIndex P k key"
  obtain a g1 where s: "storeEntry P ?i g db key e = (a, g1)" by (cases "storeEntry P ?i g db key e")
  note S = storeEntry_kv [OF s db_invD(7) [OF gi(1)]]
  let ?g2 = "if 0 < ExpireAtMs e then PushExpire P ?i g1 db key a else g1"
  have a: "acts P k g ?g2"
  proof (cases "0 < ExpireAtMs e")
    case True
    then show ?thesis using acts_store_ttl [OF rtranclp.rtrancl_refl gi(4) e(1) True s] by simp
  next
    case False
    then show ?thesis using acts_storeEntry [OF rtranclp.rtrancl_refl gi(4) e(1), of key] e(2) s by simp
  qed
  have x: "loadEntry P ?i db key e g = maybeEvict P ?i ?g2" by (simp add: loadEntry_def s)
  show acts: "acts P k g (loadEntry P ?i db key e g)" unfolding x by (rule acts_maybeEvict [OF a])
  have k2: "kv P ?g2 = kv P g1" "maxMemory ?g2 = maxMemory g" using kv_PushExpire [OF S(2,3)] S(7) by auto
  then show "kv P (loadEntry P ?i db key e g) = kvupd (kv P g) db key (Some (abse P e))"
    unfolding x using S(1) e(3) gi(3,5) by simp
  have "maxMemory (loadEntry P ?i db key e g) = maxMemory g" "NowMs (loadEntry P ?i db key e g) = NowMs g"
    unfolding x using S(6,7) by auto
  then show "loadable P k n now (loadEntry P ?i db key e g)"
    using acts_keep [OF acts gi(1,2)] G by (simp add: loadable_def)
qed

lemma loadEntries_kv:
  assumes "\<forall>(key, e) \<in> set xs. value_ok P (Val e) \<and> holdable P key e \<and> ShardIndex P k key = sh" "\<forall>key. enumerates (iter key)"
    and "before ed (itemsBytes P iter xs @ ys)" "loadable P k n now g" "db < n"
  shows "\<exists>g'. loadEntries P now db sh (length xs) i ed g = (None, g') \<and> acts P k g g' \<and> loadable P k n now g' \<and>
    kv P g' = foldl (loadKey P now db) (kv P g) xs"
  using assms
proof (induction xs arbitrary: ed g i)
  case (Cons p xs)
  obtain key e where p: "p = (key, e)" by (cases p)
  have e: "value_ok P (Val e)" "storable P (Val e)" "small key" "is_i64 (ExpireAtMs e)" "0 \<le> ExpireAtMs e" "ShardIndex P k key = sh"
    using Cons.prems(1) p by (auto simp: holdable_def)
  obtain e' d' where d: "decodeEntry P ed = ((key, Some e'), d')" "before d' (itemsBytes P iter xs @ ys)" "abse P e' = abse P e" "value_ok P (Val e')"
    by (rule decode_encode [of ed "iter key" key e "itemsBytes P iter xs @ ys"]) (use Cons.prems(2,3) e p in \<open>simp_all add: itemsBytes_def\<close>)
  have x: "ExpireAtMs e' = ExpireAtMs e" "due e' now = due e now" using d(3) by (simp_all add: abse_def due_def)
  have nerr: "d_err d' = None" using d(2) by (simp add: before_def)
  have IH: "loadable P k n now g1 \<Longrightarrow>
      \<exists>g'. loadEntries P now db sh (length xs) j d' g1 = (None, g') \<and> acts P k g1 g' \<and> loadable P k n now g' \<and>
        kv P g' = foldl (loadKey P now db) (kv P g1) xs" for g1 j
    by (rule Cons.IH [OF _ Cons.prems(2) d(2) _ Cons.prems(5)]) (use Cons.prems(1) in auto)
  show ?case
  proof (cases "due e now")
    case True
    then show ?thesis using IH [OF Cons.prems(4)] x d(1) nerr by (simp add: p loadKey_pair)
  next
    case False
    have e': "0 \<le> ExpireAtMs e'" "\<not> due e' now" using x e(5) False by auto
    note L = loadEntry_step [OF Cons.prems(4,5) d(4) e', of key, unfolded e(6)]
    from IH [OF L(3)] obtain g' where g': "loadEntries P now db sh (length xs) (Suc i) d' (loadEntry P sh db key e' g) = (None, g')"
      "acts P k (loadEntry P sh db key e' g) g'" "loadable P k n now g'"
      "kv P g' = foldl (loadKey P now db) (kv P (loadEntry P sh db key e' g)) xs" by blast
    have "acts P k g g'" by (rule rtranclp_trans [OF L(1) g'(2)])
    then show ?thesis using g' L(2) d(1,3) nerr False e'(2) by (auto simp: p loadKey_pair)
  qed
qed simp

end

section \<open>Segments\<close>

definition segItems ::
  "('q, 'z, 't, 'h, 'l, 'f) packages \<Rightarrow> int \<Rightarrow> ('q, 'z, 't, 'h, 'l, 'f) st \<Rightarrow> nat \<times> nat \<Rightarrow> (string \<times> ('q, 'z) entry) list" where
  "segItems P now g p = map (\<lambda>(key, a). (key, ents g a)) (DumpDB P (snd p) g (fst p) now)"

definition segBody ::
  "('q, 'z, 't, 'h, 'l, 'f) packages \<Rightarrow> codec \<Rightarrow> (nat \<Rightarrow> string \<Rightarrow> string set \<Rightarrow> string list) \<Rightarrow> bool \<Rightarrow> int \<Rightarrow> ('q, 'z, 't, 'h, 'l, 'f) st \<Rightarrow> nat \<times> nat \<Rightarrow> string" where
  "segBody P C iter compress now g p =
     (let b = itemsBytes P (iter (fst p)) (segItems P now g p) in if compress then compressPayload C b else b)"

definition segBytes ::
  "('q, 'z, 't, 'h, 'l, 'f) packages \<Rightarrow> codec \<Rightarrow> (nat \<Rightarrow> string \<Rightarrow> string set \<Rightarrow> string list) \<Rightarrow> bool \<Rightarrow> int \<Rightarrow> ('q, 'z, 't, 'h, 'l, 'f) st \<Rightarrow> nat \<times> nat \<Rightarrow> string" where
  "segBytes P C iter compress now g p =
     (if segItems P now g p = [] then []
      else putLE 4 (fst p) @ putLE 4 (snd p) @ putLE 4 (length (segItems P now g p)) @ putLE 4 (length (segBody P C iter compress now g p)) @
        putLE 8 (unat (crcOf C (itemsBytes P (iter (fst p)) (segItems P now g p)))) @ segBody P C iter compress now g p)"

text \<open>A segment whose counts fit the 32-bit fields of its header.\<close>

definition seg_fits ::
  "('q, 'z, 't, 'h, 'l, 'f) packages \<Rightarrow> codec \<Rightarrow> (nat \<Rightarrow> string \<Rightarrow> string set \<Rightarrow> string list) \<Rightarrow> bool \<Rightarrow> int \<Rightarrow> ('q, 'z, 't, 'h, 'l, 'f) st \<Rightarrow> nat \<times> nat \<Rightarrow> bool" where
  "seg_fits P C iter compress now g p \<longleftrightarrow>
     fst p < 2 ^ 32 \<and> snd p < 2 ^ 32 \<and> length (segItems P now g p) < 2 ^ 32 \<and> length (segBody P C iter compress now g p) < 2 ^ 32"

lemma payloadOf_bytes: "payloadOf P iter g items = itemsBytes P iter (map (\<lambda>(key, a). (key, ents g a)) items)"
proof -
  have "payloadOf P iter g items = [] @ concat (map (\<lambda>(key, a). entryBytes P (iter key) key (ents g a)) items)"
    unfolding payloadOf_def by (rule foldl_append) (auto simp: encodeEntry_bytes)
  then show ?thesis by (simp add: itemsBytes_def comp_def case_prod_unfold)
qed

definition segEntry ::
  "('q, 'z, 't, 'h, 'l, 'f) packages \<Rightarrow> codec \<Rightarrow> (nat \<Rightarrow> string \<Rightarrow> string set \<Rightarrow> string list) \<Rightarrow> int \<Rightarrow> ('q, 'z, 't, 'h, 'l, 'f) st \<Rightarrow> nat \<times> nat \<Rightarrow>
     (nat \<times> nat \<times> nat \<times> nat) list" where
  "segEntry P C iter now g p =
     (if segItems P now g p = [] then []
      else [(fst p, snd p, length (segItems P now g p), unat (crcOf C (itemsBytes P (iter (fst p)) (segItems P now g p))))])"

lemma writeSegs_bytes:
  assumes "\<forall>p \<in> set ps. seg_fits P C iter compress now g p"
  shows "writeSegs P C iter compress now g ps out segs =
    (out @ concat (map (segBytes P C iter compress now g) ps), segs @ concat (map (segEntry P C iter now g) ps))"
  using assms
proof (induction ps arbitrary: out segs)
  case (Cons p ps)
  obtain db sh where p: "p = (db, sh)" by (cases p)
  have f: "db < 2 ^ 32" "sh < 2 ^ 32" "length (DumpDB P sh g db now) < 2 ^ 32" "length (segBody P C iter compress now g p) < 2 ^ 32"
    using Cons.prems p by (simp_all add: seg_fits_def segItems_def)
  show ?case
  proof (cases "DumpDB P sh g db now = []")
    case True
    then show ?thesis using Cons by (simp add: p uint32_def segBytes_def segEntry_def segItems_def)
  next
    case False
    let ?b = "itemsBytes P (iter db) (segItems P now g p)"
    have i: "payloadOf P (iter db) g (DumpDB P sh g db now) = ?b" by (simp add: payloadOf_bytes segItems_def p)
    have b: "(if compress then compressPayload C ?b else ?b) = segBody P C iter compress now g p"
      by (simp add: segBody_def p Let_def)
    have n: "uint32 db = db" "uint32 sh = sh" "uint32 (length (DumpDB P sh g db now)) = length (segItems P now g p)"
      "uint32 (length (segBody P C iter compress now g p)) = length (segBody P C iter compress now g p)" "segItems P now g p \<noteq> []"
      using f False by (simp_all add: uint32_def segItems_def p)
    have "writeSegs P C iter compress now g (p # ps) out segs =
        writeSegs P C iter compress now g ps (out @ segBytes P C iter compress now g p) (segs @ [(db, sh, length (segItems P now g p), unat (crcOf C ?b))])"
      unfolding p writeSegs.simps Let_def using n(5) unfolding p [symmetric] i b n
      by (simp add: segBytes_def appendSegHeader_def appendU32_def appendU64_def p)
    then show ?thesis using Cons n(5) by (simp add: segEntry_def p)
  qed
qed simp

lemma dsegHeader_before:
  assumes "before d (putLE 4 a @ putLE 4 b @ putLE 4 c @ putLE 4 l @ putLE 8 x @ ys)" "a < 2 ^ 32" "b < 2 ^ 32" "c < 2 ^ 32" "l < 2 ^ 32" "x < 2 ^ 64"
  obtains d' where "dsegHeader d = (\<lparr>sh_DB = a, sh_Shard = b, sh_Entries = c, PayloadLen = l, PayloadCRC = x\<rparr>, d')" "before d' ys"
proof -
  obtain d1 where 1: "du32 d = (a, d1)" "before d1 (putLE 4 b @ putLE 4 c @ putLE 4 l @ putLE 8 x @ ys)" by (rule du32_before [OF assms(1,2)])
  obtain d2 where 2: "du32 d1 = (b, d2)" "before d2 (putLE 4 c @ putLE 4 l @ putLE 8 x @ ys)" by (rule du32_before [OF 1(2) assms(3)])
  obtain d3 where 3: "du32 d2 = (c, d3)" "before d3 (putLE 4 l @ putLE 8 x @ ys)" by (rule du32_before [OF 2(2) assms(4)])
  obtain d4 where 4: "du32 d3 = (l, d4)" "before d4 (putLE 8 x @ ys)" by (rule du32_before [OF 3(2) assms(5)])
  obtain d5 where 5: "du64 d4 = (x, d5)" "before d5 ys" by (rule du64_before [OF 4(2) assms(6)])
  have "dsegHeader d = (\<lparr>sh_DB = a, sh_Shard = b, sh_Entries = c, PayloadLen = l, PayloadCRC = x\<rparr>, d5)"
    using 1 2 3 4 5 by (simp add: dsegHeader_def)
  then show thesis using 5(2) by (rule that)
qed

text \<open>What a snapshot taken at \<open>saved\<close> and loaded at \<open>now\<close> restores.\<close>

definition restored ::
  "('q, 'z, 't, 'h, 'l, 'f) packages \<Rightarrow> int \<Rightarrow> int \<Rightarrow> ('q, 'z, 't, 'h, 'l, 'f) st \<Rightarrow> keyspace" where
  "restored P saved now g d x =
     (case view P g d x of Some e \<Rightarrow> if due e saved \<or> due e now then None else Some (abse P e) | None \<Rightarrow> None)"

lemma decompress_body:
  assumes "\<forall>b. decompressPayload C (compressPayload C b) = b"
  shows "(if compress then decompressPayload C (segBody P C iter compress now g p) else segBody P C iter compress now g p) =
    itemsBytes P (iter (fst p)) (segItems P now g p)"
  using assms by (simp add: segBody_def Let_def)

context pluto_laws
begin

lemma segItems_map:
  assumes "db < maxDBs g"
  shows "distinct (map fst (segItems P now g (db, sh)))"
    "map_of (segItems P now g (db, sh)) x =
       (case view P g db x of Some e \<Rightarrow> if \<not> due e now \<and> ShardIndex P k x = sh then Some e else None | None \<Rightarrow> None)"
proof -
  let ?t = "th_stripe (PT P) (dbs g db) sh"
  have m: "map fst (segItems P now g (db, sh)) = map fst (filter (\<lambda>it. \<not> due (ents g (snd it)) now) ?t)"
    using assms by (simp add: segItems_def DumpDB_def comp_def split_beta)
  show d: "distinct (map fst (segItems P now g (db, sh)))"
    unfolding m using stripe_distinct [of "dbs g db" sh] by (simp add: distinct_map_filter)
  have s: "(x, e) \<in> set (segItems P now g (db, sh)) \<longleftrightarrow> view P g db x = Some e \<and> \<not> due e now \<and> ShardIndex P k x = sh" for e
    using assms by (force simp: segItems_def DumpDB_def stripe_set view_def search_def)
  show "map_of (segItems P now g (db, sh)) x =
      (case view P g db x of Some e \<Rightarrow> if \<not> due e now \<and> ShardIndex P k x = sh then Some e else None | None \<Rightarrow> None)"
  proof (cases "map_of (segItems P now g (db, sh)) x")
    case None
    then have "\<nexists>e. (x, e) \<in> set (segItems P now g (db, sh))" by (force simp: map_of_eq_None_iff)
    then show ?thesis using None s by (auto split: option.split)
  next
    case (Some e)
    then show ?thesis using s [of e] map_of_SomeD [OF Some] by simp
  qed
qed

lemma segItems_ok:
  assumes "db_inv P k g" "db < maxDBs g" "\<forall>d x e. view P g d x = Some e \<longrightarrow> holdable P x e"
  shows "\<forall>(key, e) \<in> set (segItems P now g (db, sh)). value_ok P (Val e) \<and> holdable P key e \<and> ShardIndex P k key = sh"
proof -
  have "value_ok P (Val e) \<and> holdable P key e \<and> ShardIndex P k key = sh" if "(key, e) \<in> set (segItems P now g (db, sh))" for key e
  proof -
    have "map_of (segItems P now g (db, sh)) key = Some e" using that segItems_map(1) [OF assms(2)] by simp
    then have "view P g db key = Some e" "ShardIndex P k key = sh"
      unfolding segItems_map(2) [OF assms(2)] by (auto split: option.splits if_splits)
    then show ?thesis using db_invD(3) [OF assms(1)] assms(3) by (auto simp: vals_ok_def)
  qed
  then show ?thesis by blast
qed

lemma segment_kv:
  assumes "db < maxDBs g"
  shows "foldl (loadKey P now db) K (segItems P saved g (db, sh)) d x =
    (if d = db \<and> ShardIndex P k x = sh \<and> restored P saved now g d x \<noteq> None then restored P saved now g d x else K d x)"
  unfolding foldl_loadKey [OF segItems_map(1) [OF assms]] segItems_map(2) [OF assms]
  by (auto simp: restored_def abse_def split: option.split)

text \<open>One nonempty segment: the cursor moves past it and its entries are stored.\<close>

lemma loadSegs_step:
  assumes g: "db_inv P k g" "\<forall>d x e. view P g d x = Some e \<longrightarrow> holdable P x e" "\<forall>d key. enumerates (iter d key)"
      "\<forall>b. decompressPayload C (compressPayload C b) = b"
    and p: "seg_fits P C iter compress saved g p" "fst p < maxDBs g" "fst p < n" "snd p < 2 ^ k" "segItems P saved g p \<noteq> []"
    and d: "before d (segBytes P C iter compress saved g p @ ys)" "d_off d < m" and l: "loadable P k n now g0"
  obtains d' g1 where "loadSegs P C compress now m d segs g0 = loadSegs P C compress now m d' (segs @ segEntry P C iter saved g p) g1"
    "before d' ys" "d_off d' = d_off d + length (segBytes P C iter compress saved g p)"
    "acts P k g0 g1" "loadable P k n now g1" "kv P g1 = foldl (loadKey P now (fst p)) (kv P g0) (segItems P saved g p)"
proof -
  let ?xs = "segItems P saved g p"
  let ?b = "itemsBytes P (iter (fst p)) ?xs"
  let ?body = "segBody P C iter compress saved g p"
  let ?h = "\<lparr>sh_DB = fst p, sh_Shard = snd p, sh_Entries = length ?xs, PayloadLen = length ?body, PayloadCRC = unat (crcOf C ?b)\<rparr>"
  have c: "unat (crcOf C ?b) < 2 ^ 64" using unsigned_less [of "crcOf C ?b"] by simp
  obtain d1 where 1: "dsegHeader d = (?h, d1)" "before d1 (?body @ ys)"
    by (rule dsegHeader_before [of d "fst p" "snd p" "length ?xs" "length ?body" "unat (crcOf C ?b)" "?body @ ys"])
      (use d(1) p(1,5) c in \<open>simp_all add: segBytes_def seg_fits_def\<close>)
  obtain d2 where 2: "dtake d1 (length ?body) = (Some ?body, d2)" "before d2 ys" by (rule dtake_before [OF 1(2)])
  have e: "d_err d1 = None" "d_err d2 = None" using 1(2) 2(2) by (simp_all add: before_def)
  have off: "d_off d2 = d_off d + length (segBytes P C iter compress saved g p)"
    using dsegHeader_next [OF 1(1) [symmetric] e(1)] dtake_next [OF 2(1) [symmetric] e(2)] p(5) by (simp add: segBytes_def)
  have ok: "\<forall>(key, e) \<in> set ?xs. value_ok P (Val e) \<and> holdable P key e \<and> ShardIndex P k key = snd p"
    using segItems_ok [OF g(1) p(2) g(2), of saved "snd p"] by simp
  have "before \<lparr>d_b = ?b, d_off = 0, d_err = None\<rparr> (?b @ [])" by (simp add: before_start)
  from loadEntries_kv [OF ok _ this l p(3)] g(3)
  obtain g1 where g1: "loadEntries P now (fst p) (snd p) (length ?xs) 0 \<lparr>d_b = ?b, d_off = 0, d_err = None\<rparr> g0 = (None, g1)"
    "acts P k g0 g1" "loadable P k n now g1" "kv P g1 = foldl (loadKey P now (fst p)) (kv P g0) ?xs" by blast
  have s: "shardCount g0 = 2 ^ k" "maxDBs g0 = n" using l db_invD(2) [of P k g0] by (auto simp: loadable_def conf_ok_def)
  have "loadSegs P C compress now m d segs g0 = loadSegs P C compress now m d2 (segs @ segEntry P C iter saved g p) g1"
    using 1(1) 2(1) e d(2) g1(1) s p(3-5) decompress_body [OF g(4), where P = P and iter = iter and compress = compress and now = saved and g = g and p = p]
    by (subst loadSegs.simps) (simp add: segEntry_def Let_def not_le)
  then show thesis using 2(2) off g1(2-4) by (rule that)
qed

lemma loadSegs_kv:
  assumes g: "db_inv P k g" "\<forall>d x e. view P g d x = Some e \<longrightarrow> holdable P x e" "\<forall>d key. enumerates (iter d key)"
      "\<forall>b. decompressPayload C (compressPayload C b) = b"
    and p: "\<forall>p \<in> set ps. seg_fits P C iter compress saved g p \<and> fst p < maxDBs g \<and> fst p < n \<and> snd p < 2 ^ k"
    and d: "before d (concat (map (segBytes P C iter compress saved g) ps) @ ys)"
      "m = d_off d + length (concat (map (segBytes P C iter compress saved g) ps))" and l: "loadable P k n now g0"
  shows "\<exists>g'. loadSegs P C compress now m d segs g0 = (Inr (segs @ concat (map (segEntry P C iter saved g) ps)), g') \<and>
    acts P k g0 g' \<and> loadable P k n now g' \<and>
    (\<forall>d x. kv P g' d x = (if (d, ShardIndex P k x) \<in> set ps \<and> restored P saved now g d x \<noteq> None then restored P saved now g d x else kv P g0 d x))"
  using p d l
proof (induction ps arbitrary: d segs g0)
  case Nil
  then show ?case using loadSegs.simps [of P C compress now "d_off d" d segs g0] by simp
next
  case (Cons p ps)
  have pp: "seg_fits P C iter compress saved g p" "fst p < maxDBs g" "fst p < n" "snd p < 2 ^ k" using Cons.prems(1) by auto
  note seg = segment_kv [OF pp(2), where sh = "snd p" and now = now and saved = saved, unfolded prod.collapse]
  show ?case
  proof (cases "segItems P saved g p = []")
    case True
    have "restored P saved now g d x = None \<or> ShardIndex P k x \<noteq> snd p" if "d = fst p" for d x
      using segItems_map(2) [OF pp(2), of saved "snd p" x] True that by (auto simp: restored_def split: option.splits if_splits)
    then have skip: "(d, ShardIndex P k x) \<in> set (p # ps) \<and> restored P saved now g d x \<noteq> None \<longleftrightarrow>
        (d, ShardIndex P k x) \<in> set ps \<and> restored P saved now g d x \<noteq> None" for d x
      by (metis fst_conv list.set_intros(2) set_ConsD snd_conv)
    have "segBytes P C iter compress saved g p = []" "segEntry P C iter saved g p = []" using True by (simp_all add: segBytes_def segEntry_def)
    then show ?thesis using Cons.IH [of d g0 segs] Cons.prems unfolding skip by simp
  next
    case False
    have b: "before d (segBytes P C iter compress saved g p @ concat (map (segBytes P C iter compress saved g) ps) @ ys)" using Cons.prems(2) by simp
    have m: "d_off d < m" using Cons.prems(3) False by (simp add: segBytes_def)
    obtain d' g1 where s: "loadSegs P C compress now m d segs g0 = loadSegs P C compress now m d' (segs @ segEntry P C iter saved g p) g1"
      "before d' (concat (map (segBytes P C iter compress saved g) ps) @ ys)" "d_off d' = d_off d + length (segBytes P C iter compress saved g p)"
      "acts P k g0 g1" "loadable P k n now g1" "kv P g1 = foldl (loadKey P now (fst p)) (kv P g0) (segItems P saved g p)"
      by (rule loadSegs_step [OF g pp False b m Cons.prems(4), where segs = segs])
    have "\<forall>p \<in> set ps. seg_fits P C iter compress saved g p \<and> fst p < maxDBs g \<and> fst p < n \<and> snd p < 2 ^ k" using Cons.prems(1) by simp
    from Cons.IH [OF this s(2) _ s(5), of "segs @ segEntry P C iter saved g p"] Cons.prems(3) s(3)
    obtain g' where g': "loadSegs P C compress now m d' (segs @ segEntry P C iter saved g p) g1 =
        (Inr ((segs @ segEntry P C iter saved g p) @ concat (map (segEntry P C iter saved g) ps)), g')"
      "acts P k g1 g'" "loadable P k n now g'"
      "\<forall>d x. kv P g' d x = (if (d, ShardIndex P k x) \<in> set ps \<and> restored P saved now g d x \<noteq> None then restored P saved now g d x else kv P g1 d x)"
      by auto
    have "acts P k g0 g'" by (rule rtranclp_trans [OF s(4) g'(2)])
    moreover have "kv P g' d x = (if (d, ShardIndex P k x) \<in> set (p # ps) \<and> restored P saved now g d x \<noteq> None then restored P saved now g d x else kv P g0 d x)" for d x
      using g'(4) seg [of "kv P g0" d x] s(6) by (cases p) auto
    ultimately show ?thesis using s(1) g'(1,3) by auto
  qed
qed

end

section \<open>The whole file\<close>

definition headBytes :: "nat \<Rightarrow> nat \<Rightarrow> int \<Rightarrow> bool \<Rightarrow> string" where
  "headBytes shardN dbN saved compress =
     snapshotMagic @ putLE 4 snapshotVersion @ putLE 4 shardN @ putLE 4 dbN @ putLE 8 (nat (saved mod 2 ^ 64)) @ putLE 4 (if compress then 1 else 0)"

lemma snapshotHeader_bytes:
  assumes "shardN < 2 ^ 32" "dbN < 2 ^ 32"
  shows "snapshotHeader shardN dbN saved compress = headBytes shardN dbN saved compress"
  using assms by (simp add: snapshotHeader_def headBytes_def appendU32_def appendI64_def appendU64_def uint32_def flagCompress_def)

lemma headBytes_length: "length (headBytes shardN dbN saved compress) = 32"
  by (simp add: headBytes_def snapshotMagic_def)

text \<open>Everything before the loop over the segments, on a file with the right header and trailer.\<close>

lemma LoadSnapshot_head:
  assumes raw: "raw = headBytes shardN dbN saved compress @ body @ putLE 8 (unat (crcOf C (headBytes shardN dbN saved compress @ body)))"
    and n: "shardN < 2 ^ 32" "dbN < 2 ^ 32" "is_i64 saved"
  obtains d where "before d (body @ putLE 8 (unat (crcOf C (headBytes shardN dbN saved compress @ body))))" "d_off d = 32"
    "LoadSnapshot P C now raw g = (let (r, g1) = loadSegs P C compress now (32 + length body) d [] g
       in (case r of Inl err \<Rightarrow> Inl err
           | Inr segs \<Rightarrow> Inr \<lparr>mf_Version = snapshotVersion, mf_SavedAt = saved, mf_Shards = shardN, mf_DBs = dbN,
               mf_Compress = compress, mf_Segments = segs\<rparr>, g1))"
proof -
  let ?out = "headBytes shardN dbN saved compress @ body"
  let ?ys = "body @ putLE 8 (unat (crcOf C ?out))"
  let ?f = "if compress then 1 else 0 :: nat"
  let ?t = "nat (saved mod 2 ^ 64)"
  let ?d0 = "\<lparr>d_b = raw, d_off = 0, d_err = None\<rparr>"
  have b0: "before ?d0 (snapshotMagic @ putLE 4 snapshotVersion @ putLE 4 shardN @ putLE 4 dbN @ putLE 8 ?t @ putLE 4 ?f @ ?ys)"
    using before_start [of raw] raw by (simp add: headBytes_def)
  obtain d1 where 1: "dtake ?d0 (length snapshotMagic) = (Some snapshotMagic, d1)"
    "before d1 (putLE 4 snapshotVersion @ putLE 4 shardN @ putLE 4 dbN @ putLE 8 ?t @ putLE 4 ?f @ ?ys)" by (rule dtake_before [OF b0])
  obtain d2 where 2: "du32 d1 = (snapshotVersion, d2)" "before d2 (putLE 4 shardN @ putLE 4 dbN @ putLE 8 ?t @ putLE 4 ?f @ ?ys)"
    by (rule du32_before [OF 1(2)]) (simp_all add: snapshotVersion_def)
  obtain d3 where 3: "du32 d2 = (shardN, d3)" "before d3 (putLE 4 dbN @ putLE 8 ?t @ putLE 4 ?f @ ?ys)" by (rule du32_before [OF 2(2) n(1)])
  obtain d4 where 4: "du32 d3 = (dbN, d4)" "before d4 (putLE 8 ?t @ putLE 4 ?f @ ?ys)" by (rule du32_before [OF 3(2) n(2)])
  obtain d5 where 5: "du64 d4 = (?t, d5)" "before d5 (putLE 4 ?f @ ?ys)" by (rule du64_before [OF 4(2)]) simp_all
  obtain d6 where 6: "du32 d5 = (?f, d6)" "before d6 ?ys" by (rule du32_before [OF 5(2)]) simp_all
  have e: "d_err d1 = None" "d_err d2 = None" "d_err d3 = None" "d_err d4 = None" "d_err d5 = None" "d_err d6 = None"
    using 1(2) 2(2) 3(2) 4(2) 5(2) 6(2) by (simp_all only: before_def)
  have off: "d_off d6 = 32"
    using dtake_off [of ?d0 "length snapshotMagic"] du32_off [of d1] du32_off [of d2] du32_off [of d3] du64_off [of d4] du32_off [of d5]
      1(1) 2(1) 3(1) 4(1) 5(1) 6(1) e by (simp add: snapshotMagic_def)
  have x: "wrap64 (int ?t) = saved" using wrap64_id [OF n(3)] by (simp add: wrap64_def mod_simps)
  have l: "length raw - 8 = 32 + length body" "\<not> length raw < 8" "take (32 + length body) raw = ?out" "drop (32 + length body) raw = putLE 8 (unat (crcOf C ?out))"
    unfolding raw by (simp_all add: headBytes_length)
  have "unat (crcOf C ?out) < 2 ^ 64" using unsigned_less [of "crcOf C ?out"] by simp
  then have cr: "getLE (putLE 8 (unat (crcOf C ?out))) = unat (crcOf C ?out)" by (simp add: getLE_putLE)
  have d6: "d6\<lparr>d_off := 32\<rparr> = d6" using off by simp
  obtain r g1 where L: "loadSegs P C compress now (32 + length body) d6 [] g = (r, g1)" by (rule prod.exhaust)
  have "LoadSnapshot P C now raw g = (let (r, g1) = loadSegs P C compress now (32 + length body) d6 [] g
       in (case r of Inl err \<Rightarrow> Inl err
           | Inr segs \<Rightarrow> Inr \<lparr>mf_Version = snapshotVersion, mf_SavedAt = saved, mf_Shards = shardN, mf_DBs = dbN,
               mf_Compress = compress, mf_Segments = segs\<rparr>, g1))"
    unfolding LoadSnapshot_def 1(1) Let_def prod.case using 2(1) 3(1) 4(1) 5(1) 6(1) e(6) x l cr d6 L
    by (cases compress; cases r) (simp_all add: di64_def snapshotMagic_def flagCompress_def)
  with 6(2) off show thesis by (rule that)
qed

text \<open>
  A file whose trailer is not the checksum of what precedes it changes nothing; nor does one whose
  magic or version is not this program's.
\<close>

lemma load_bad_crc:
  assumes "8 \<le> length raw" "unat (crcOf C (take (length raw - 8) raw)) \<noteq> getLE (drop (length raw - 8) raw)"
  shows "\<exists>err. LoadSnapshot P C now raw g = (Inl err, g)"
  using assms by (auto simp: LoadSnapshot_def Let_def split_beta split: option.split)

text \<open>What a snapshot needs of the state it is taken from.\<close>

definition dumpable ::
  "('q, 'z, 't, 'h, 'l, 'f) packages \<Rightarrow> codec \<Rightarrow> (nat \<Rightarrow> string \<Rightarrow> string set \<Rightarrow> string list) \<Rightarrow> bool \<Rightarrow> int \<Rightarrow> ('q, 'z, 't, 'h, 'l, 'f) st \<Rightarrow> bool" where
  "dumpable P C iter compress now g \<longleftrightarrow>
     is_i64 now \<and> maxDBs g < 2 ^ 32 \<and> shardCount g < 2 ^ 32 \<and> (\<forall>d x e. view P g d x = Some e \<longrightarrow> holdable P x e) \<and>
     (\<forall>d sh. d < maxDBs g \<longrightarrow> sh < shardCount g \<longrightarrow> seg_fits P C iter compress now g (d, sh))"

context pluto_laws
begin

lemma load_write:
  assumes g: "db_inv P k g" "dumpable P C iter compress saved g" "\<forall>d key. enumerates (iter d key)"
      "\<forall>b. decompressPayload C (compressPayload C b) = b"
    and g0: "loadable P k n now g0" "maxDBs g \<le> n" "\<forall>d x. kv P g0 d x = None"
    and w: "writeSnapshot P C iter compress saved g = (raw, m)"
  shows "\<exists>g'. LoadSnapshot P C now raw g0 = (Inr m, g') \<and> acts P k g0 g' \<and> loadable P k n now g' \<and>
    (\<forall>d x. kv P g' d x = (if d < maxDBs g then restored P saved now g d x else None))"
proof -
  have sc: "shardCount g = 2 ^ k" "k \<le> 64" using db_invD(2) [OF g(1)] by (auto simp: conf_ok_def)
  let ?ps = "List.product [0..<maxDBs g] [0..<shardCount g]"
  have sz: "is_i64 saved" "maxDBs g < 2 ^ 32" "shardCount g < 2 ^ 32" "\<forall>d x e. view P g d x = Some e \<longrightarrow> holdable P x e"
    using g(2) by (auto simp: dumpable_def)
  have f: "\<forall>p \<in> set ?ps. seg_fits P C iter compress saved g p \<and> fst p < maxDBs g \<and> fst p < n \<and> snd p < 2 ^ k"
    using g(2) g0(2) sc(1) by (auto simp: dumpable_def)
  let ?body = "concat (map (segBytes P C iter compress saved g) ?ps)"
  let ?h = "headBytes (shardCount g) (maxDBs g) saved compress"
  have "writeSegs P C iter compress saved g ?ps ?h [] = (?h @ ?body, concat (map (segEntry P C iter saved g) ?ps))"
    using writeSegs_bytes [of ?ps P C iter compress saved g ?h "[]"] f by auto
  then have raw: "raw = ?h @ ?body @ putLE 8 (unat (crcOf C (?h @ ?body)))" and m: "m = \<lparr>mf_Version = snapshotVersion, mf_SavedAt = saved, mf_Shards = shardCount g,
      mf_DBs = maxDBs g, mf_Compress = compress, mf_Segments = concat (map (segEntry P C iter saved g) ?ps)\<rparr>"
    using w by (simp_all add: writeSnapshot_def snapshotHeader_bytes [OF sz(3,2)] appendU64_def)
  obtain d where d: "before d (?body @ putLE 8 (unat (crcOf C (?h @ ?body))))" "d_off d = 32"
    and L: "LoadSnapshot P C now raw g0 = (let (r, g1) = loadSegs P C compress now (32 + length ?body) d [] g0
       in (case r of Inl err \<Rightarrow> Inl err
           | Inr segs \<Rightarrow> Inr \<lparr>mf_Version = snapshotVersion, mf_SavedAt = saved, mf_Shards = shardCount g, mf_DBs = maxDBs g,
               mf_Compress = compress, mf_Segments = segs\<rparr>, g1))"
    by (rule LoadSnapshot_head [OF raw sz(3,2,1), where P = P and now = now and g = g0])
  from loadSegs_kv [OF g(1) sz(4) g(3,4) f d(1) _ g0(1), where segs = "[]" and m = "32 + length ?body"] d(2)
  obtain g' where g': "loadSegs P C compress now (32 + length ?body) d [] g0 = (Inr (concat (map (segEntry P C iter saved g) ?ps)), g')"
    "acts P k g0 g'" "loadable P k n now g'"
    "\<forall>d x. kv P g' d x = (if (d, ShardIndex P k x) \<in> set ?ps \<and> restored P saved now g d x \<noteq> None then restored P saved now g d x else kv P g0 d x)"
    by auto
  have "kv P g' d x = (if d < maxDBs g then restored P saved now g d x else None)" for d x
    using g'(4) g0(3) ShardIndex_less [OF sc(2), of P x] sc(1) by (cases "restored P saved now g d x") auto
  then show ?thesis using g'(1-3) L m by auto
qed

end

end
