(* ===== verification/Persist_Aof.thy ===== *)
theory Persist_Aof
  imports Resp Snapshot Dispatch
begin

text \<open>
  The append-only file (\<^verbatim>\<open>src/lib/persist/aof.go\<close>, \<^verbatim>\<open>replay.go\<close>) and the manager that feeds it
  (\<^verbatim>\<open>manager.go\<close>): stamped records in one log per shard, the parser, and the replay that merges
  the logs by sequence number. The files are their bytes; opening, syncing and renaming them is not
  modelled. Replay executes the logged commands in order and each once (\<open>replay_log\<close>); a record
  torn by a crash is recognised, unless it is torn between two bulks (\<open>parse_torn_record\<close>); logs that an
  open with fewer shards drops from the manifest are no longer replayed (\<open>fewer_shards_forget\<close>).
\<close>

section \<open>Writing\<close>

record stampedRecord =
  r_seq :: nat
  r_db :: int
  r_argv :: "string list"

definition aofRecVerb :: string where "aofRecVerb = ''ULTIMAREC''"

definition stampRecord :: "int \<Rightarrow> nat \<Rightarrow> string list \<Rightarrow> string list" where
  "stampRecord db seq argv = [aofRecVerb, FormatInt db, FormatInt (int seq)] @ argv"

definition appendAOFCommand :: "string \<Rightarrow> string list \<Rightarrow> string" where
  "appendAOFCommand dst argv = foldl AppendBulk (AppendArray dst (length argv)) argv"

text \<open>
  The directory and the open set: the content of \<^verbatim>\<open>shard-i.aof\<close>, the number of logs the manifest
  lists, the number of logs of the set, whether they are open, and the sequence counter.
\<close>

record aofSet =
  a_files :: "nat \<Rightarrow> string"
  a_manifest :: nat
  a_logs :: nat
  a_live :: bool
  a_seq :: nat

definition openAOF :: "nat \<Rightarrow> nat \<Rightarrow> aofSet \<Rightarrow> aofSet" where
  "openAOF n baseSeq a = a\<lparr>a_logs := n, a_live := True, a_seq := baseSeq, a_manifest := n\<rparr>"

definition appendSeq :: "nat \<Rightarrow> int \<Rightarrow> nat \<Rightarrow> string list \<Rightarrow> aofSet \<Rightarrow> aofSet" where
  "appendSeq i db seq argv a =
     (if \<not> a_live a then a
      else a\<lparr>a_files := (a_files a)(i := a_files a i @ appendAOFCommand [] (stampRecord db seq argv))\<rparr>)"

definition seqAdd :: "aofSet \<Rightarrow> nat \<times> aofSet" where
  "seqAdd a = (let s = (a_seq a + 1) mod 2 ^ 64 in (s, a\<lparr>a_seq := s\<rparr>))"

definition appendRecord :: "nat \<Rightarrow> int \<Rightarrow> string list \<Rightarrow> aofSet \<Rightarrow> aofSet" where
  "appendRecord i db argv a = (let (s, a1) = seqAdd a in appendSeq i db s argv a1)"

definition appendAll :: "int \<Rightarrow> string list \<Rightarrow> aofSet \<Rightarrow> aofSet" where
  "appendAll db argv a = (let (s, a1) = seqAdd a in foldl (\<lambda>a i. appendSeq i db s argv a) a1 [0..<a_logs a1])"

definition closeAll :: "aofSet \<Rightarrow> aofSet" where "closeAll a = a\<lparr>a_live := False\<rparr>"

text \<open>One live entry as commands.\<close>

definition aofStateArgvs ::
  "('q, 'z, 't, 'h, 'l, 'f) packages \<Rightarrow> (string set \<Rightarrow> string list) \<Rightarrow> string \<Rightarrow> ('q, 'z) entry \<Rightarrow> string list list" where
  "aofStateArgvs P iter key e =
     (let c = (case Val e of
                 VString s \<Rightarrow> [''SET'', key, s]
               | VList l \<Rightarrow> [''RPUSH'', key] @ ListAll (PQ P) l
               | VSet s \<Rightarrow> [''SADD'', key] @ SetMembers iter s
               | VZSet z \<Rightarrow> [''ZADD'', key] @ concat (map (\<lambda>(m, s). [FormatFloatG s, m]) (ZSetEach (PS P) z))
               | VHash h \<Rightarrow> [''HSET'', key] @ concat (map (\<lambda>(f, v). [f, v]) (HashEach h)))
      in if 0 < ExpireAtMs e then [c, [''PEXPIREAT'', key, FormatInt (ExpireAtMs e)]] else [c])"

definition dumpLog ::
  "('q, 'z, 't, 'h, 'l, 'f) packages \<Rightarrow> (nat \<Rightarrow> string \<Rightarrow> string set \<Rightarrow> string list) \<Rightarrow> int \<Rightarrow> ('q, 'z, 't, 'h, 'l, 'f) st \<Rightarrow> nat \<Rightarrow>
     (nat \<times> string list) list" where
  "dumpLog P iter nowMs g i =
     concat (map (\<lambda>db. concat (map (\<lambda>(key, a). map (\<lambda>argv. (db, argv)) (aofStateArgvs P (iter db key) key (ents g a)))
       (DumpDB P i g db nowMs))) [0..<maxDBs g])"

definition rewriteLog :: "(nat \<times> string list) list \<Rightarrow> aofSet \<Rightarrow> string \<times> aofSet" where
  "rewriteLog cs a =
     foldl (\<lambda>(out, a) (db, argv). let (s, a1) = seqAdd a in (appendAOFCommand out (stampRecord (int db) s argv), a1)) ([], a) cs"

definition rewriteStep :: "(nat \<Rightarrow> (nat \<times> string list) list) \<Rightarrow> aofSet \<Rightarrow> nat \<Rightarrow> aofSet" where
  "rewriteStep D a i = (let (out, a1) = rewriteLog (D i) a in a1\<lparr>a_files := (a_files a1)(i := out)\<rparr>)"

text \<open>\<^verbatim>\<open>rewrite\<close>; every log is reopened.\<close>

definition rewrite ::
  "('q, 'z, 't, 'h, 'l, 'f) packages \<Rightarrow> (nat \<Rightarrow> string \<Rightarrow> string set \<Rightarrow> string list) \<Rightarrow> int \<Rightarrow> ('q, 'z, 't, 'h, 'l, 'f) st \<Rightarrow> aofSet \<Rightarrow> aofSet" where
  "rewrite P iter nowMs g a =
     (let a' = foldl (rewriteStep (dumpLog P iter nowMs g)) a [0..<a_logs a]
      in a'\<lparr>a_live := True, a_manifest := a_logs a\<rparr>)"

section \<open>Parsing\<close>

datatype aofErr =
    errTornRecord
  | errNoStar
  | errNoDollar
  | errNoCRLF
  | errNoLF
  | errBadNumber string
  | errNoStamp
  | errBadDB string
  | errBadSeq string
  | aofPanic

definition parseAOFInt :: "string \<Rightarrow> aofErr + int \<times> nat" where
  "parseAOFInt b =
     (let j = length (takeWhile (\<lambda>c. c \<noteq> CR) b)
      in if length b \<le> j + 1 then Inl errTornRecord
         else if b ! (j + 1) \<noteq> LF then Inl errNoLF
         else case Atoi (take j b) of None \<Rightarrow> Inl (errBadNumber (take j b)) | Some n \<Rightarrow> Inr (n, j + 2))"

text \<open>The loop over the bulks from \<open>i\<close>. \<open>lval + 2\<close> wraps around, and a slice of negative length panics.\<close>

fun parseBulks :: "string \<Rightarrow> nat \<Rightarrow> nat \<Rightarrow> string list \<Rightarrow> aofErr + string list \<times> nat" where
  "parseBulks b 0 i argv = Inr (argv, i)"
| "parseBulks b (Suc n) i argv =
     (if length b \<le> i \<or> b ! i \<noteq> CHR ''$'' then Inl errNoDollar
      else
        case parseAOFInt (drop (i + 1) b) of
          Inl e \<Rightarrow> Inl e
        | Inr (lval, ni) \<Rightarrow>
            let k = i + 1 + ni
            in if lval < 0 \<or> int (length b) - int k < wrap64 (lval + 2) then Inl errTornRecord
               else if wrap64 (lval + 2) < 0 then Inl aofPanic
               else if b ! (k + nat lval) \<noteq> CR \<or> b ! (k + nat lval + 1) \<noteq> LF then Inl errNoCRLF
               else parseBulks b n (k + nat lval + 2) (argv @ [take (nat lval) (drop k b)]))"

text \<open>\<^verbatim>\<open>make([][]byte, 0, n)\<close> panics for a negative count.\<close>

definition parseAOFCommand :: "string \<Rightarrow> aofErr + string list \<times> nat" where
  "parseAOFCommand b =
     (if b = [] \<or> hd b \<noteq> CHR ''*'' then Inl errNoStar
      else case parseAOFInt (drop 1 b) of
             Inl e \<Rightarrow> Inl e
           | Inr (n, ni) \<Rightarrow> if n < 0 then Inl aofPanic else parseBulks b (nat n) (1 + ni) [])"

definition ParseUint64 :: "string \<Rightarrow> nat option" where
  "ParseUint64 s = (if s = [] \<or> (\<exists>c \<in> set s. \<not> is_digit c) then None else if dec_val 0 s < 2 ^ 64 then Some (dec_val 0 s) else None)"

text \<open>The message of the first error formats \<^verbatim>\<open>argv[0]\<close>: an empty record panics.\<close>

definition parseStamped :: "string list \<Rightarrow> aofErr + stampedRecord" where
  "parseStamped argv =
     (if argv = [] then Inl aofPanic
      else if length argv < 4 \<or> argv ! 0 \<noteq> aofRecVerb then Inl errNoStamp
      else case Atoi (argv ! 1) of
             None \<Rightarrow> Inl (errBadDB (argv ! 1))
           | Some db \<Rightarrow>
               (case ParseUint64 (argv ! 2) of
                  None \<Rightarrow> Inl (errBadSeq (argv ! 2))
                | Some seq \<Rightarrow> Inr \<lparr>r_seq = seq, r_db = db, r_argv = drop 3 argv\<rparr>))"

lemma parseBulks_pos: "parseBulks b n i argv = Inr (r, k) \<Longrightarrow> i \<le> k"
  by (induction b n i argv rule: parseBulks.induct) (force split: if_splits sum.splits simp: Let_def)+

lemma parseAOFCommand_pos: "parseAOFCommand b = Inr (r, k) \<Longrightarrow> 0 < k"
  by (auto simp: parseAOFCommand_def split: if_splits sum.splits dest!: parseBulks_pos)

text \<open>One log: the records up to its end or to a torn record.\<close>

function parseLog :: "string \<Rightarrow> stampedRecord list \<Rightarrow> aofErr + stampedRecord list" where
  "parseLog raw recs =
     (if raw = [] then Inr recs
      else
        case parseAOFCommand raw of
          Inl e \<Rightarrow> if e = errTornRecord then Inr recs else Inl e
        | Inr (argv, n) \<Rightarrow>
            (case parseStamped argv of
               Inl e \<Rightarrow> Inl e
             | Inr r \<Rightarrow> parseLog (drop n raw) (recs @ [r])))"
  by pat_completeness auto
termination
  by (relation "measure (\<lambda>(raw, recs). length raw)") (auto dest: parseAOFCommand_pos)

declare parseLog.simps [simp del]

fun collectLogs :: "string list \<Rightarrow> stampedRecord list \<Rightarrow> aofErr + stampedRecord list" where
  "collectLogs [] recs = Inr recs"
| "collectLogs (raw # raws) recs = (case parseLog raw recs of Inl e \<Rightarrow> Inl e | Inr recs' \<Rightarrow> collectLogs raws recs')"

text \<open>The logs the manifest lists; every open writes a manifest.\<close>

definition aofFiles :: "aofSet \<Rightarrow> string list" where "aofFiles a = map (a_files a) [0..<a_manifest a]"

definition collectAOFRecords :: "aofSet \<Rightarrow> aofErr + stampedRecord list" where
  "collectAOFRecords a = collectLogs (aofFiles a) []"

section \<open>Replay\<close>

text \<open>The loop over the sorted records: count, highest and last sequence number.\<close>

fun replayLoop :: "(int \<Rightarrow> string list \<Rightarrow> 's \<Rightarrow> 's) \<Rightarrow> stampedRecord list \<Rightarrow> nat option \<Rightarrow> nat \<Rightarrow> nat \<Rightarrow> 's \<Rightarrow> nat \<times> nat \<times> 's" where
  "replayLoop exec [] lastSeq cnt maxSeq s = (cnt, maxSeq, s)"
| "replayLoop exec (r # rs) lastSeq cnt maxSeq s =
     (let maxSeq = (if maxSeq < r_seq r then r_seq r else maxSeq)
      in if lastSeq = Some (r_seq r) then replayLoop exec rs lastSeq cnt maxSeq s
         else replayLoop exec rs (Some (r_seq r)) (cnt + 1) maxSeq (exec (r_db r) (r_argv r) s))"

definition replayAOF :: "(int \<Rightarrow> string list \<Rightarrow> 's \<Rightarrow> 's) \<Rightarrow> aofSet \<Rightarrow> 's \<Rightarrow> aofErr + nat \<times> nat \<times> 's" where
  "replayAOF exec a s =
     (case collectAOFRecords a of
        Inl e \<Rightarrow> Inl e
      | Inr recs \<Rightarrow> Inr (replayLoop exec (sort_key r_seq recs) None 0 0 s))"

definition maxAOFSeq :: "aofSet \<Rightarrow> nat" where
  "maxAOFSeq a = (case collectAOFRecords a of Inl e \<Rightarrow> 0 | Inr recs \<Rightarrow> foldl (\<lambda>hi r. if hi < r_seq r then r_seq r else hi) 0 recs)"

text \<open>\<^verbatim>\<open>replayExec\<close>: the command engine on a synthetic connection.\<close>

definition replayExec ::
  "('q, 'z, 't, 'h, 'l, 'f) env \<Rightarrow> int \<Rightarrow> string list \<Rightarrow> ('q, 'z, 't, 'h, 'l, 'f) world \<Rightarrow> ('q, 'z, 't, 'h, 'l, 'f) world" where
  "replayExec E db argv w =
     (let cs = (NewConnState 0 ''aof-replay'' False)\<lparr>Proto := 2, Authed := True, cDB := nat db\<rparr>
      in snd (snd (Execute E cs argv w)))"

section \<open>The manager\<close>

record manager =
  m_aof :: "aofSet option"
  m_dirty :: int
  m_lastSave :: int
  m_bgsave :: bool
  m_rewrite :: bool
  m_appendOnly :: bool

definition LogCommand :: "int \<Rightarrow> nat \<Rightarrow> string list option \<Rightarrow> manager \<Rightarrow> manager" where
  "LogCommand shardHint db argv m =
     (let m1 = m\<lparr>m_dirty := wrap64 (m_dirty m + 1)\<rparr>
      in case (m_aof m1, argv) of
           (Some a, Some (x # xs)) \<Rightarrow>
             m1\<lparr>m_aof := Some (if shardHint < 0 then appendAll (int db) (x # xs) a else appendRecord (nat shardHint) (int db) (x # xs) a)\<rparr>
         | _ \<Rightarrow> m1)"

definition LogKeyGone :: "(string \<Rightarrow> nat) \<Rightarrow> nat \<Rightarrow> string \<Rightarrow> manager \<Rightarrow> manager" where
  "LogKeyGone route db key m = LogCommand (int (route key)) db (Some [''DEL'', key]) m"

text \<open>The calls the command engine and the shards make.\<close>

definition logOne :: "(string \<Rightarrow> nat) \<Rightarrow> logEntry \<Rightarrow> manager \<Rightarrow> manager" where
  "logOne route e m = (case e of Cmd (hint, db, argv) \<Rightarrow> LogCommand hint db argv m | KeyGone db key \<Rightarrow> LogKeyGone route db key m)"

datatype persistBusy = ErrPersistChildActive | ErrPersistBusy

definition BGSave :: "manager \<Rightarrow> persistBusy option \<times> manager" where
  "BGSave m =
     (if m_rewrite m then (Some ErrPersistChildActive, m)
      else if m_bgsave m then (Some ErrPersistBusy, m)
      else (None, m\<lparr>m_bgsave := True\<rparr>))"

definition BGRewriteAOF :: "manager \<Rightarrow> persistBusy option \<times> manager" where
  "BGRewriteAOF m =
     (if m_bgsave m then (Some ErrPersistBusy, m)
      else if m_aof m = None then (None, m)
      else if m_rewrite m then (Some ErrPersistBusy, m)
      else (None, m\<lparr>m_rewrite := True\<rparr>))"

text \<open>A save that succeeded at \<open>savedAt\<close>; integer division truncates.\<close>

definition saveDone :: "int \<Rightarrow> manager \<Rightarrow> manager" where
  "saveDone savedAt m = m\<lparr>m_lastSave := quot savedAt 1000, m_dirty := 0\<rparr>"

text \<open>The rules of the save string, parsed, are \<open>rules\<close>; the first that is met starts a save.\<close>

fun checkRules :: "(int \<times> int) list \<Rightarrow> int \<Rightarrow> int \<Rightarrow> manager \<Rightarrow> manager" where
  "checkRules [] now lst m = m"
| "checkRules ((secs, changes) # rs) now lst m =
     (if changes \<le> m_dirty m \<and> secs \<le> wrap64 (now - lst) then snd (BGSave m) else checkRules rs now lst m)"

text \<open>\<open>t1\<close> and \<open>t2\<close> are the clock readings in this call.\<close>

definition checkSaveRules :: "(int \<times> int) list \<Rightarrow> int \<Rightarrow> int \<Rightarrow> manager \<Rightarrow> manager" where
  "checkSaveRules rules t1 t2 m =
     (if rules = [] then m else checkRules rules t2 (if m_lastSave m = 0 then t1 else m_lastSave m) m)"

definition SetAppendOnly :: "nat \<Rightarrow> aofSet \<Rightarrow> bool \<Rightarrow> manager \<Rightarrow> manager" where
  "SetAppendOnly n disk yes m =
     (if yes = m_appendOnly m then m
      else if yes then m\<lparr>m_aof := Some (openAOF n (maxAOFSeq disk) disk), m_appendOnly := True\<rparr>
      else m\<lparr>m_aof := None, m_appendOnly := False\<rparr>)"

section \<open>Records parse as they were written\<close>

lemma appendAOFCommand_bytes: "appendAOFCommand dst argv = dst @ cmdBytes argv"
  using appendCommand_bytes [of dst argv] by (simp add: appendAOFCommand_def appendCommand_def)

text \<open>What fits the 64-bit counts.\<close>

definition sized :: "string list \<Rightarrow> bool" where
  "sized argv \<longleftrightarrow> length argv < 2 ^ 62 \<and> (\<forall>a \<in> set argv. length a < 2 ^ 62)"

lemma length_nat_digits: "n < 10 ^ k \<Longrightarrow> 0 < k \<Longrightarrow> length (nat_digits n) \<le> k"
proof (induction k arbitrary: n)
  case (Suc k)
  show ?case
  proof (cases "n < 10")
    case True
    then show ?thesis by (subst nat_digits.simps) simp
  next
    case False
    then have "0 < k" using Suc.prems(1) by (cases k) auto
    moreover have "n div 10 < 10 ^ k" using Suc.prems(1) by (simp add: less_mult_imp_div_less)
    ultimately have "length (nat_digits (n div 10)) \<le> k" by (rule Suc.IH [rotated])
    then show ?thesis using False by (subst nat_digits.simps) simp
  qed
qed simp

lemma takeWhile_line: "CR \<notin> set xs \<Longrightarrow> takeWhile (\<lambda>c. c \<noteq> CR) (xs @ CR # ys) = xs"
  by (induction xs) auto

lemma takeWhile_all: "CR \<notin> set xs \<Longrightarrow> takeWhile (\<lambda>c. c \<noteq> CR) xs = xs"
  by (induction xs) auto

lemma parseAOFInt_line: "n < 2 ^ 63 \<Longrightarrow> parseAOFInt (nat_digits n @ CR # LF # u) = Inr (int n, length (nat_digits n) + 2)"
proof -
  assume n: "n < 2 ^ 63"
  let ?b = "nat_digits n @ CR # LF # u"
  have tw: "takeWhile (\<lambda>c. c \<noteq> CR) ?b = nat_digits n" by (rule takeWhile_line [OF digits_line(2)])
  show ?thesis unfolding parseAOFInt_def tw using Atoi_digits [OF n] by (simp add: nth_append)
qed

lemma parseAOFInt_cut: "prefix t (nat_digits n @ [CR]) \<Longrightarrow> parseAOFInt t = Inl errTornRecord"
proof -
  assume "prefix t (nat_digits n @ [CR])"
  then consider (a) "prefix t (nat_digits n)" | (b) "t = nat_digits n @ [CR]" by (auto simp: prefix_append prefix_Cons)
  then show ?thesis
  proof cases
    case a
    then have "CR \<notin> set t" using set_mono_prefix [OF a] digits_line(2) [of n] by blast
    then have tw: "takeWhile (\<lambda>c. c \<noteq> CR) t = t" by (rule takeWhile_all)
    show ?thesis unfolding parseAOFInt_def tw by simp
  next
    case b
    have tw: "takeWhile (\<lambda>c. c \<noteq> CR) t = nat_digits n" unfolding b by (rule takeWhile_line [OF digits_line(2)])
    show ?thesis unfolding parseAOFInt_def tw by (simp add: b)
  qed
qed

text \<open>A complete length line.\<close>

lemma parseBulks_line:
  assumes b: "b = pre @ CHR ''$'' # nat_digits m @ CR # LF # u" and m: "m < 2 ^ 62"
  shows "parseBulks b (Suc n) (length pre) argv =
    (let k = length pre + length (nat_digits m) + 3
     in if length u < m + 2 then Inl errTornRecord
        else if u ! m \<noteq> CR \<or> u ! (m + 1) \<noteq> LF then Inl errNoCRLF
        else parseBulks b n (k + m + 2) (argv @ [take m u]))"
proof -
  have d: "drop (length pre + 1) b = nat_digits m @ CR # LF # u" by (simp add: b)
  have l: "parseAOFInt (drop (length pre + 1) b) = Inr (int m, length (nat_digits m) + 2)"
    unfolding d by (rule parseAOFInt_line) (use m in simp)
  let ?k = "length pre + 1 + (length (nat_digits m) + 2)"
  have bu: "b = (pre @ CHR ''$'' # nat_digits m @ [CR, LF]) @ u" "length (pre @ CHR ''$'' # nat_digits m @ [CR, LF]) = ?k" by (simp_all add: b)
  have nth: "b ! (?k + x) = u ! x" for x using nth_append_length_plus [of "pre @ CHR ''$'' # nat_digits m @ [CR, LF]" u x] bu by simp
  have dk: "drop ?k b = u" using bu by (metis append_eq_conv_conj)
  have len: "length b = ?k + length u" using bu(1) by simp
  have w: "wrap64 (int m + 2) = int m + 2" using m by (intro wrap64_id) (simp add: is_i64_def)
  have g: "\<not> (length b \<le> length pre \<or> b ! length pre \<noteq> CHR ''$'')" by (simp add: b)
  have iff: "int (length b) - int ?k < int m + 2 \<longleftrightarrow> length u < m + 2" unfolding len by linarith
  have nn: "\<not> int m < 0" "\<not> int m + 2 < 0" "nat (int m) = m" by simp_all
  show ?thesis
    unfolding parseBulks.simps(2) if_not_P [OF g] l sum.case prod.case Let_def w iff nn simp_thms if_False dk
    using nth [of m] nth [of "m + 1"] by (simp add: ac_simps numeral_3_eq_3)
qed

lemma parseBulks_bulk:
  assumes "length a < 2 ^ 62"
  shows "parseBulks (pre @ bulkBytes a @ rest) (Suc n) (length pre) argv =
    parseBulks (pre @ bulkBytes a @ rest) n (length pre + length (bulkBytes a)) (argv @ [a])"
proof -
  have b: "pre @ bulkBytes a @ rest = pre @ CHR ''$'' # nat_digits (length a) @ CR # LF # (a @ CR # LF # rest)" by (simp add: bulkBytes_def)
  have l: "length pre + length (nat_digits (length a)) + 3 + length a + 2 = length pre + length (bulkBytes a)" by (simp add: bulkBytes_def)
  show ?thesis unfolding parseBulks_line [OF b assms] Let_def l by (simp add: nth_append)
qed

lemma parseBulks_all:
  assumes "\<forall>a \<in> set args. length a < 2 ^ 62"
  shows "parseBulks (pre @ concat (map bulkBytes args) @ rest) (length args + n) (length pre) argv =
    parseBulks (pre @ concat (map bulkBytes args) @ rest) n (length pre + length (concat (map bulkBytes args))) (argv @ args)"
  using assms
proof (induction args arbitrary: pre argv)
  case (Cons a args)
  have "parseBulks ((pre @ bulkBytes a) @ concat (map bulkBytes args) @ rest) (length args + n) (length (pre @ bulkBytes a)) (argv @ [a]) =
      parseBulks ((pre @ bulkBytes a) @ concat (map bulkBytes args) @ rest) n (length (pre @ bulkBytes a) + length (concat (map bulkBytes args))) ((argv @ [a]) @ args)"
    by (rule Cons.IH) (use Cons.prems in simp)
  then show ?case
    using parseBulks_bulk [of a pre "concat (map bulkBytes args) @ rest" "length args + n" argv] Cons.prems by (simp add: add.assoc)
qed simp

lemma parse_record:
  assumes "sized args"
  shows "parseAOFCommand (cmdBytes args @ rest) = Inr (args, length (cmdBytes args))"
proof -
  let ?b = "cmdBytes args @ rest"
  let ?pre = "CHR ''*'' # nat_digits (length args) @ [CR, LF]"
  have b: "?b = ?pre @ concat (map bulkBytes args) @ rest" by (simp add: cmdBytes_def)
  have "drop 1 ?b = nat_digits (length args) @ CR # LF # (concat (map bulkBytes args) @ rest)" by (simp add: cmdBytes_def)
  then have l: "parseAOFInt (drop 1 ?b) = Inr (int (length args), length (nat_digits (length args)) + 2)"
    using parseAOFInt_line [of "length args"] assms by (simp add: sized_def)
  have "parseBulks ?b (length args) (1 + (length (nat_digits (length args)) + 2)) [] = Inr (args, length (cmdBytes args))"
    using parseBulks_all [of args ?pre rest 0 "[]"] assms unfolding b [symmetric] by (simp add: sized_def cmdBytes_def)
  moreover have "?b \<noteq> []" "hd ?b = CHR ''*''" by (simp_all add: cmdBytes_def)
  ultimately show ?thesis using l by (simp add: parseAOFCommand_def)
qed

section \<open>Torn records\<close>

text \<open>A cut right behind a complete bulk, or behind the header, with bulks missing.\<close>

definition between :: "string \<Rightarrow> string list \<Rightarrow> bool" where
  "between s args \<longleftrightarrow> (\<exists>k < length args. s = concat (map bulkBytes (take k args)))"

lemma between_Nil: "args \<noteq> [] \<Longrightarrow> between [] args"
  unfolding between_def by (rule exI [of _ 0]) simp

lemma between_Cons: "between (bulkBytes a @ s) (a # args) \<longleftrightarrow> between s args"
proof
  assume "between s args"
  then obtain k where "k < length args" "s = concat (map bulkBytes (take k args))" by (auto simp: between_def)
  then show "between (bulkBytes a @ s) (a # args)" unfolding between_def by (intro exI [of _ "Suc k"]) simp
next
  assume "between (bulkBytes a @ s) (a # args)"
  then obtain k where k: "k < Suc (length args)" "bulkBytes a @ s = concat (map bulkBytes (take k (a # args)))" by (auto simp: between_def)
  then obtain j where "k = Suc j" by (cases k) (auto simp: bulkBytes_def)
  with k show "between s args" unfolding between_def by (intro exI [of _ j]) simp
qed

lemma not_between_cut: "strict_prefix s (bulkBytes a) \<Longrightarrow> s \<noteq> [] \<Longrightarrow> \<not> between s (a # args)"
proof
  assume s: "strict_prefix s (bulkBytes a)" "s \<noteq> []" and "between s (a # args)"
  then obtain k where k: "s = concat (map bulkBytes (take k (a # args)))" by (auto simp: between_def)
  with s(2) obtain j where "k = Suc j" by (cases k) auto
  then have "length (bulkBytes a) \<le> length s" using k by simp
  then show False using prefix_length_less [OF s(1)] by simp
qed

lemma parseBulks_cut:
  assumes s: "strict_prefix s (bulkBytes a)" "s \<noteq> []" and m: "length a < 2 ^ 62"
  shows "parseBulks (pre @ s) (Suc n) (length pre) argv = Inl errTornRecord"
proof -
  let ?d = "nat_digits (length a)"
  obtain x t where st: "s = x # t" using s(2) by (cases s) auto
  have x: "x = CHR ''$''" and t: "prefix t (?d @ CR # LF # a @ [CR, LF])" "t \<noteq> ?d @ CR # LF # a @ [CR, LF]"
    using s(1) st by (auto simp: bulkBytes_def strict_prefix_def)
  have "prefix t ((?d @ [CR]) @ LF # a @ [CR, LF])" using t(1) by simp
  then consider (open_line) "prefix t (?d @ [CR])" | (line) u where "t = ?d @ CR # LF # u" "prefix u (a @ [CR, LF])"
  proof (subst (asm) prefix_append, elim disjE exE conjE)
    fix us assume us: "t = (?d @ [CR]) @ us" "prefix us (LF # a @ [CR, LF])"
    show thesis
    proof (cases us)
      case Nil
      then show ?thesis using us(1) open_line by simp
    next
      case (Cons y u)
      then show ?thesis using us line [of u] by simp
    qed
  qed (rule open_line)
  then show ?thesis
  proof cases
    case open_line
    then show ?thesis using parseAOFInt_cut [OF open_line] by (simp add: st x)
  next
    case line
    have "length u < length a + 2"
      using line t(2) prefix_length_le [OF line(2)] not_equal_is_parallel [of u "a @ [CR, LF]"] by (cases "length u = length a + 2") auto
    then show ?thesis using parseBulks_line [of "pre @ s" pre "length a" u n argv] m line(1) by (simp add: st x Let_def)
  qed
qed

lemma parseBulks_torn:
  assumes "strict_prefix s (concat (map bulkBytes args))" "\<forall>a \<in> set args. length a < 2 ^ 62"
  shows "parseBulks (pre @ s) (length args) (length pre) argv = Inl (if between s args then errNoDollar else errTornRecord)"
  using assms
proof (induction args arbitrary: pre s argv)
  case (Cons a args)
  have "prefix s (bulkBytes a @ concat (map bulkBytes args))" using Cons.prems(1) by (simp add: strict_prefix_def)
  then consider (nil) "s = []" | (cut) "s \<noteq> []" "strict_prefix s (bulkBytes a)" | (more) us where "s = bulkBytes a @ us" "prefix us (concat (map bulkBytes args))"
    unfolding prefix_append strict_prefix_def by (metis append_Nil2 Nil_prefix)
  then show ?case
  proof cases
    case nil
    then show ?thesis by (simp add: between_Nil)
  next
    case cut
    then show ?thesis using parseBulks_cut [OF cut(2,1)] Cons.prems(2) not_between_cut [OF cut(2,1), of args] by simp
  next
    case more
    have "parseBulks ((pre @ bulkBytes a) @ us) (length args) (length (pre @ bulkBytes a)) (argv @ [a]) =
        Inl (if between us args then errNoDollar else errTornRecord)"
      by (rule Cons.IH) (use Cons.prems more in \<open>auto simp: strict_prefix_def\<close>)
    then show ?thesis using parseBulks_bulk [of a pre us "length args" argv] Cons.prems(2) more(1) by (simp add: between_Cons)
  qed
qed simp

text \<open>
  A crash leaves a strict prefix of a record. It is reported as torn, and the replay stops there,
  unless it ends between two bulks: then it is reported as corruption and the restore fails.
\<close>

lemma parse_torn_record:
  assumes s: "strict_prefix s (cmdBytes args)" "s \<noteq> []" and a: "sized args"
  shows "parseAOFCommand s =
    Inl (if \<exists>k < length args. s = CHR ''*'' # nat_digits (length args) @ CR # LF # concat (map bulkBytes (take k args)) then errNoDollar else errTornRecord)"
proof -
  let ?d = "nat_digits (length args)"
  let ?b = "concat (map bulkBytes args)"
  obtain x t where st: "s = x # t" using s(2) by (cases s) auto
  have x: "x = CHR ''*''" and t: "prefix t ((?d @ [CR]) @ LF # ?b)" "t \<noteq> ?d @ CR # LF # ?b"
    using s(1) st by (auto simp: cmdBytes_def strict_prefix_def)
  have n: "length args < 2 ^ 63" using a by (simp add: sized_def)
  consider (open_line) "prefix t (?d @ [CR])" | (line) u where "t = ?d @ CR # LF # u" "prefix u ?b"
    using t(1)
  proof (subst (asm) prefix_append, elim disjE exE conjE)
    fix us assume us: "t = (?d @ [CR]) @ us" "prefix us (LF # ?b)"
    show thesis
    proof (cases us)
      case Nil
      then show ?thesis using us(1) open_line by simp
    next
      case (Cons y u)
      then show ?thesis using us line [of u] by simp
    qed
  qed (rule open_line)
  then show ?thesis
  proof cases
    case open_line
    have "\<not> (\<exists>k < length args. s = CHR ''*'' # ?d @ CR # LF # concat (map bulkBytes (take k args)))"
      using prefix_length_le [OF open_line] by (auto simp: st)
    then show ?thesis using parseAOFInt_cut [OF open_line] by (simp add: st x parseAOFCommand_def)
  next
    case line
    have su: "strict_prefix u ?b" using line t(2) by (auto simp: strict_prefix_def)
    have sz: "\<forall>a \<in> set args. length a < 2 ^ 62" using a by (simp add: sized_def)
    have "parseBulks s (length args) (1 + (length ?d + 2)) [] = Inl (if between u args then errNoDollar else errTornRecord)"
      using parseBulks_torn [OF su sz, of "CHR ''*'' # ?d @ [CR, LF]" "[]"] by (simp add: st x line(1))
    moreover have "(\<exists>k < length args. s = CHR ''*'' # ?d @ CR # LF # concat (map bulkBytes (take k args))) \<longleftrightarrow> between u args"
      by (simp add: st x line(1) between_def)
    moreover have "parseAOFInt (drop 1 s) = Inr (int (length args), length ?d + 2)" using parseAOFInt_line [OF n, of u] by (simp add: st line(1))
    ultimately show ?thesis by (simp add: parseAOFCommand_def st x)
  qed
qed

section \<open>Logs\<close>

definition recBytes :: "stampedRecord \<Rightarrow> string" where
  "recBytes r = cmdBytes (stampRecord (r_db r) (r_seq r) (r_argv r))"

definition rec_ok :: "stampedRecord \<Rightarrow> bool" where
  "rec_ok r \<longleftrightarrow> r_seq r < 2 ^ 64 \<and> 0 \<le> r_db r \<and> r_db r < 2 ^ 63 \<and> r_argv r \<noteq> [] \<and> length (r_argv r) < 2 ^ 61 \<and> (\<forall>a \<in> set (r_argv r). length a < 2 ^ 62)"

lemma ParseUint64_digits: "n < 2 ^ 64 \<Longrightarrow> ParseUint64 (nat_digits n) = Some n"
  using nat_digits_digits by (auto simp: ParseUint64_def dec_val_nat_digits)

lemma rec_ok_db: "rec_ok r \<Longrightarrow> nat (r_db r) < 2 ^ 63"
  by (simp add: rec_ok_def nat_less_iff)

lemma parseStamped_record:
  assumes "rec_ok r"
  shows "parseStamped (stampRecord (r_db r) (r_seq r) (r_argv r)) = Inr r"
proof -
  obtain x xs where x: "r_argv r = x # xs" using assms by (cases "r_argv r") (auto simp: rec_ok_def)
  have "FormatInt (r_db r) = nat_digits (nat (r_db r))" using assms by (simp add: FormatInt_def rec_ok_def)
  moreover have "Atoi (nat_digits (nat (r_db r))) = Some (r_db r)" using Atoi_digits [OF rec_ok_db [OF assms]] assms by (simp add: rec_ok_def)
  moreover have "FormatInt (int (r_seq r)) = nat_digits (r_seq r)" by (simp add: FormatInt_def)
  moreover have "ParseUint64 (nat_digits (r_seq r)) = Some (r_seq r)" using assms by (intro ParseUint64_digits) (simp add: rec_ok_def)
  ultimately show ?thesis using x by (simp add: parseStamped_def stampRecord_def numeral_2_eq_2 numeral_3_eq_3)
qed

lemma sized_record: "rec_ok r \<Longrightarrow> sized (stampRecord (r_db r) (r_seq r) (r_argv r))"
proof -
  assume r: "rec_ok r"
  have "length (nat_digits (r_seq r)) \<le> 20" by (rule length_nat_digits) (use r in \<open>simp_all add: rec_ok_def\<close>)
  moreover have "length (nat_digits (nat (r_db r))) \<le> 20" by (rule length_nat_digits) (use rec_ok_db [OF r] in simp_all)
  ultimately show ?thesis using r by (auto simp: sized_def stampRecord_def rec_ok_def FormatInt_def aofRecVerb_def)
qed

lemma parseLog_records:
  assumes "\<forall>r \<in> set rs. rec_ok r" "s = [] \<or> parseAOFCommand s = Inl errTornRecord"
  shows "parseLog (concat (map recBytes rs) @ s) recs = Inr (recs @ rs)"
  using assms
proof (induction rs arbitrary: recs)
  case Nil
  then show ?case by (cases "s = []") (simp_all add: parseLog.simps [of s] parseLog.simps [of "[]"])
next
  case (Cons r rs)
  have "recBytes r \<noteq> []" by (simp add: recBytes_def cmdBytes_def)
  moreover have "parseAOFCommand (recBytes r @ concat (map recBytes rs) @ s) = Inr (stampRecord (r_db r) (r_seq r) (r_argv r), length (recBytes r))"
    unfolding recBytes_def by (rule parse_record [OF sized_record]) (use Cons.prems in simp)
  moreover have "parseStamped (stampRecord (r_db r) (r_seq r) (r_argv r)) = Inr r" using parseStamped_record Cons.prems by simp
  ultimately show ?case
    using Cons.IH [of "recs @ [r]"] Cons.prems by (subst parseLog.simps) simp
qed

section \<open>The merge\<close>

definition runRecs :: "(int \<Rightarrow> string list \<Rightarrow> 's \<Rightarrow> 's) \<Rightarrow> stampedRecord list \<Rightarrow> 's \<Rightarrow> 's" where
  "runRecs exec h s = fold (\<lambda>r. exec (r_db r) (r_argv r)) h s"

lemma replayLoop_dup:
  assumes "inj_on r_seq (set (r # rs))" "r_seq r \<le> m"
  shows "replayLoop exec rs (Some (r_seq r)) c m s =
    (let h = tl (remdups_adj (r # rs)) in (c + length h, fold max (map r_seq h) m, runRecs exec h s))"
  using assms
proof (induction rs arbitrary: r c m s)
  case Nil
  then show ?case by (simp add: runRecs_def)
next
  case (Cons q rs)
  show ?case
  proof (cases "r = q")
    case True
    then show ?thesis using Cons.IH [of q m c s] Cons.prems by (auto simp: inj_on_def)
  next
    case False
    then have n: "r_seq r \<noteq> r_seq q" using Cons.prems(1) by (auto simp: inj_on_def)
    have mx: "(if m < r_seq q then r_seq q else m) = max (r_seq q) m" by simp
    have "replayLoop exec rs (Some (r_seq q)) (c + 1) (max (r_seq q) m) (exec (r_db q) (r_argv q) s) =
        (let h = tl (remdups_adj (q # rs)) in (c + 1 + length h, fold max (map r_seq h) (max (r_seq q) m), runRecs exec h (exec (r_db q) (r_argv q) s)))"
      by (rule Cons.IH) (use Cons.prems(1) in \<open>auto simp: inj_on_def\<close>)
    moreover obtain ys where "remdups_adj (q # rs) = q # ys" by (metis remdups_adj_Cons_alt)
    ultimately show ?thesis using False n unfolding replayLoop.simps Let_def mx
      by (simp add: Let_def runRecs_def)
  qed
qed

lemma replayLoop_merge:
  assumes "inj_on r_seq (set rs)"
  shows "replayLoop exec rs None 0 0 s =
    (let h = remdups_adj rs in (length h, fold max (map r_seq h) 0, runRecs exec h s))"
proof (cases rs)
  case Nil
  then show ?thesis by (simp add: runRecs_def)
next
  case (Cons r rs')
  obtain ys where y: "remdups_adj (r # rs') = r # ys" by (metis remdups_adj_Cons_alt)
  have "replayLoop exec rs' (Some (r_seq r)) 1 (r_seq r) (exec (r_db r) (r_argv r) s) =
      (1 + length ys, fold max (map r_seq ys) (r_seq r), runRecs exec ys (exec (r_db r) (r_argv r) s))"
    using replayLoop_dup [of r rs' "r_seq r" exec 1] assms Cons y by (simp add: Let_def)
  moreover have "(if 0 < r_seq r then r_seq r else 0) = r_seq r" by simp
  ultimately show ?thesis unfolding Cons replayLoop.simps Let_def by (simp add: y runRecs_def)
qed

text \<open>A history is the logged records in the order of their sequence numbers.\<close>

definition history :: "stampedRecord list \<Rightarrow> bool" where
  "history h \<longleftrightarrow> sorted_wrt (<) (map r_seq h) \<and> (\<forall>r \<in> set h. rec_ok r)"

lemma history_inj: "history h \<Longrightarrow> inj_on r_seq (set h)" "history h \<Longrightarrow> distinct (map r_seq h)" "history h \<Longrightarrow> sorted (map r_seq h)"
  by (auto simp: history_def strict_sorted_iff distinct_map)

lemma strict_remdups_adj:
  fixes f :: "'a \<Rightarrow> nat"
  shows "sorted (map f xs) \<Longrightarrow> inj_on f (set xs) \<Longrightarrow> sorted_wrt (<) (map f (remdups_adj xs))"
proof (induction xs rule: remdups_adj.induct)
  case (3 x y xs)
  show ?case
  proof (cases "x = y")
    case True
    then show ?thesis using 3 by auto
  next
    case False
    then have "f x < f y" using 3(3,4) by (auto simp: inj_on_def order_less_le)
    then have "\<forall>z \<in> set (y # xs). f x < f z" using 3(3) by auto
    moreover have "sorted_wrt (<) (map f (remdups_adj (y # xs)))" using 3(2) [OF False] 3(3,4) by auto
    ultimately show ?thesis using False by simp
  qed
qed simp_all

text \<open>Whatever copies the logs hold and however they are spread, the merge is the history.\<close>

lemma merge_history:
  assumes "history h" "set rs = set h"
  shows "remdups_adj (sort_key r_seq rs) = h"
proof (rule map_sorted_distinct_set_unique [where f = r_seq])
  let ?x = "remdups_adj (sort_key r_seq rs)"
  have st: "set ?x = set h" using assms(2) by simp
  show "inj_on r_seq (set ?x \<union> set h)" using history_inj(1) [OF assms(1)] st by simp
  have "sorted_wrt (<) (map r_seq ?x)"
    by (rule strict_remdups_adj) (use history_inj(1) [OF assms(1)] assms(2) in simp_all)
  then show "sorted (map r_seq ?x)" "distinct (map r_seq ?x)" by (simp_all add: strict_sorted_iff)
  show "sorted (map r_seq h)" "distinct (map r_seq h)" using history_inj [OF assms(1)] by auto
  show "set ?x = set h" by (rule st)
qed

section \<open>The set and its history\<close>

text \<open>
  \<open>R i\<close> are the records of log \<open>i\<close>; together they are the history. Logs beyond the manifest are empty.
\<close>

definition logged :: "stampedRecord list \<Rightarrow> aofSet \<Rightarrow> bool" where
  "logged h a \<longleftrightarrow> history h \<and> (\<forall>r \<in> set h. r_seq r \<le> a_seq a) \<and>
     (\<forall>i \<ge> a_manifest a. a_files a i = []) \<and>
     (\<exists>R. (\<forall>i < a_manifest a. a_files a i = concat (map recBytes (R i))) \<and> (\<Union>i < a_manifest a. set (R i)) = set h)"

lemma collectLogs_records:
  assumes "\<forall>(x, t) \<in> set xs. (\<forall>r \<in> set x. rec_ok r) \<and> (t = [] \<or> parseAOFCommand t = Inl errTornRecord)"
  shows "collectLogs (map (\<lambda>(x, t). concat (map recBytes x) @ t) xs) recs = Inr (recs @ concat (map fst xs))"
  using assms
proof (induction xs arbitrary: recs)
  case (Cons p xs)
  obtain x t where p: "p = (x, t)" by (cases p)
  have "parseLog (concat (map recBytes x) @ t) recs = Inr (recs @ x)" by (rule parseLog_records) (use Cons.prems p in auto)
  then show ?case using Cons.IH [of "recs @ x"] Cons.prems by (simp add: p)
qed simp

text \<open>Every log may end in a torn record \<open>t i\<close>.\<close>

lemma replay_logged:
  assumes h: "logged h a" and t: "\<forall>i. t i = [] \<or> parseAOFCommand (t i) = Inl errTornRecord"
  shows "replayAOF exec (a\<lparr>a_files := \<lambda>i. a_files a i @ t i\<rparr>) s = Inr (length h, fold max (map r_seq h) 0, runRecs exec h s)"
proof -
  obtain R where R: "\<forall>i < a_manifest a. a_files a i = concat (map recBytes (R i))" "(\<Union>i < a_manifest a. set (R i)) = set h"
    using h by (auto simp: logged_def)
  have hist: "history h" using h by (simp add: logged_def)
  let ?xs = "map (\<lambda>i. (R i, t i)) [0..<a_manifest a]"
  let ?rs = "concat (map fst ?xs)"
  have "aofFiles (a\<lparr>a_files := \<lambda>i. a_files a i @ t i\<rparr>) = map (\<lambda>(x, t). concat (map recBytes x) @ t) ?xs"
    using R(1) by (simp add: aofFiles_def)
  moreover have "collectLogs (map (\<lambda>(x, t). concat (map recBytes x) @ t) ?xs) [] = Inr ([] @ ?rs)"
    by (rule collectLogs_records) (use hist R(2) t in \<open>auto simp: history_def\<close>)
  ultimately have c: "collectAOFRecords (a\<lparr>a_files := \<lambda>i. a_files a i @ t i\<rparr>) = Inr ?rs" by (simp add: collectAOFRecords_def)
  have st: "set ?rs = set h" using R(2) by (simp add: comp_def atLeast0LessThan)
  have "inj_on r_seq (set (sort_key r_seq ?rs))" using history_inj(1) [OF hist] st by simp
  from replayLoop_merge [OF this] merge_history [OF hist st] show ?thesis
    unfolding replayAOF_def c by (simp add: Let_def)
qed

lemma appendSeq_all:
  "a_live a \<Longrightarrow> foldl (\<lambda>a i. appendSeq i db s argv a) a [0..<n] =
     a\<lparr>a_files := \<lambda>i. if i < n then a_files a i @ appendAOFCommand [] (stampRecord db s argv) else a_files a i\<rparr>"
proof (induction n)
  case (Suc n)
  then show ?case by (auto simp: appendSeq_def fun_eq_iff)
qed simp

lemma logged_append:
  assumes h: "logged h a" and r: "rec_ok r" "r_seq r = a_seq a + 1" and n: "T \<subseteq> {..<a_manifest a}" "T \<noteq> {}"
    and f: "a' = a\<lparr>a_seq := a_seq a + 1, a_files := \<lambda>i. if i \<in> T then a_files a i @ recBytes r else a_files a i\<rparr>"
  shows "logged (h @ [r]) a'"
proof -
  obtain R where R: "\<forall>i < a_manifest a. a_files a i = concat (map recBytes (R i))" "(\<Union>i < a_manifest a. set (R i)) = set h"
    using h by (auto simp: logged_def)
  have lt: "\<forall>q \<in> set h. r_seq q < r_seq r" using h r(2) by (auto simp: logged_def)
  have "history (h @ [r])" using h lt r(1) by (auto simp: logged_def history_def sorted_wrt_append)
  moreover have "\<forall>q \<in> set (h @ [r]). r_seq q \<le> a_seq a'" using h r(2) by (auto simp: logged_def f)
  moreover have "\<forall>i \<ge> a_manifest a'. a_files a' i = []" using h n(1) by (auto simp: logged_def f)
  moreover have "\<forall>i < a_manifest a'. a_files a' i = concat (map recBytes (if i \<in> T then R i @ [r] else R i))" using R(1) by (simp add: f)
  moreover have "(\<Union>i < a_manifest a'. set (if i \<in> T then R i @ [r] else R i)) = set (h @ [r])"
  proof -
    obtain j where j: "j \<in> T" "j < a_manifest a" using n by auto
    have "(\<Union>i < a_manifest a'. set (if i \<in> T then R i @ [r] else R i)) = (\<Union>i < a_manifest a. set (R i)) \<union> {r}"
      using j by (auto simp: f split: if_splits)
    then show ?thesis using R(2) by simp
  qed
  ultimately show ?thesis unfolding logged_def by (intro conjI exI [of _ "\<lambda>i. if i \<in> T then R i @ [r] else R i"])
qed

text \<open>An open that lists at least the logs of the last one keeps the history.\<close>

lemma logged_open:
  assumes "logged h a" "a_manifest a \<le> n" "\<forall>r \<in> set h. r_seq r \<le> b"
  shows "logged h (openAOF n b a)"
proof -
  obtain R where R: "\<forall>i < a_manifest a. a_files a i = concat (map recBytes (R i))" "(\<Union>i < a_manifest a. set (R i)) = set h"
    using assms(1) by (auto simp: logged_def)
  let ?R = "\<lambda>i. if i < a_manifest a then R i else []"
  have "\<forall>i < n. a_files a i = concat (map recBytes (?R i))" using R(1) assms(1) by (simp add: logged_def)
  moreover have "(\<Union>i < n. set (?R i)) = set h"
  proof -
    have "(\<Union>i < n. set (?R i)) = (\<Union>i < a_manifest a. set (R i))" using assms(2) by (force split: if_splits)
    then show ?thesis using R(2) by simp
  qed
  ultimately have "\<exists>R. (\<forall>i < n. a_files a i = concat (map recBytes (R i))) \<and> (\<Union>i < n. set (R i)) = set h"
    by (intro exI [of _ ?R] conjI)
  then show ?thesis using assms by (simp add: logged_def openAOF_def)
qed

section \<open>The calls of the engine\<close>

text \<open>The command a call logs, when the append-only file is on.\<close>

definition recordsOf :: "logEntry \<Rightarrow> (nat \<times> string list) list" where
  "recordsOf e =
     (case e of Cmd (hint, db, argv) \<Rightarrow> (case argv of Some (x # xs) \<Rightarrow> [(db, x # xs)] | _ \<Rightarrow> [])
      | KeyGone db key \<Rightarrow> [(db, [''DEL'', key])])"

definition loggable :: "(string \<Rightarrow> nat) \<Rightarrow> nat \<Rightarrow> logEntry \<Rightarrow> bool" where
  "loggable route n e \<longleftrightarrow>
     (case e of Cmd (hint, db, argv) \<Rightarrow> hint < int n | KeyGone db key \<Rightarrow> route key < n) \<and>
     (\<forall>(db, argv) \<in> set (recordsOf e). db < 2 ^ 63 \<and> length argv < 2 ^ 61 \<and> (\<forall>a \<in> set argv. length a < 2 ^ 62))"

fun stamped :: "nat \<Rightarrow> (nat \<times> string list) list \<Rightarrow> stampedRecord list" where
  "stamped q [] = []"
| "stamped q ((db, argv) # cs) = \<lparr>r_seq = q + 1, r_db = int db, r_argv = argv\<rparr> # stamped (q + 1) cs"

lemma stamped_append: "stamped q (xs @ ys) = stamped q xs @ stamped (q + length xs) ys"
  by (induction q xs rule: stamped.induct) simp_all

lemma stamped_seqs: "map r_seq (stamped q cs) = [Suc q..<Suc (q + length cs)]"
proof (induction q cs rule: stamped.induct)
  case (2 q db argv cs)
  then show ?case by (simp add: upt_conv_Cons del: upt_Suc)
qed simp

lemma runRecs_stamped: "runRecs exec (stamped q cs) s = fold (\<lambda>(db, argv). exec (int db) argv) cs s"
  by (induction q cs arbitrary: s rule: stamped.induct) (simp_all add: runRecs_def)

text \<open>One call: no record, or one with the next number in the log of its shard or in all.\<close>

lemma logOne_logged:
  assumes m: "m_aof m = Some a" "a_live a" "a_logs a = n" "a_manifest a = n" "logged h a" "0 < n"
    and e: "loggable route n e" "a_seq a + length (recordsOf e) < 2 ^ 64"
  shows "\<exists>a'. m_aof (logOne route e m) = Some a' \<and> a_live a' \<and> a_logs a' = n \<and> a_manifest a' = n \<and>
    a_seq a' = a_seq a + length (recordsOf e) \<and> logged (h @ stamped (a_seq a) (recordsOf e)) a'"
proof (cases "recordsOf e")
  case Nil
  then have "m_aof (logOne route e m) = Some a"
    using m(1) by (auto simp: recordsOf_def logOne_def LogCommand_def split: logEntry.splits option.splits list.splits prod.splits)
  then show ?thesis using Nil m by simp
next
  case (Cons c cs)
  obtain hint db argv where c: "recordsOf e = [(db, argv)]" "argv \<noteq> []" "hint < int n"
    and l: "m_aof (logOne route e m) = Some (if hint < 0 then appendAll (int db) argv a else appendRecord (nat hint) (int db) argv a)"
  proof (cases e)
    case (Cmd x)
    obtain hint db argv where "x = (hint, db, argv)" by (rule prod_cases3)
    then show thesis
      using Cons Cmd m(1) e(1) that [of db "the argv" hint]
      by (auto simp: recordsOf_def logOne_def LogCommand_def loggable_def Let_def split: option.splits list.splits)
  next
    case (KeyGone db key)
    then show thesis
      using m(1) e(1) that [of db "[''DEL'', key]" "int (route key)"]
      by (simp add: recordsOf_def logOne_def LogCommand_def LogKeyGone_def loggable_def Let_def)
  qed
  let ?r = "\<lparr>r_seq = a_seq a + 1, r_db = int db, r_argv = argv\<rparr>"
  let ?T = "if hint < 0 then {..<n} else {nat hint}"
  let ?a = "a\<lparr>a_seq := a_seq a + 1, a_files := \<lambda>i. if i \<in> ?T then a_files a i @ recBytes ?r else a_files a i\<rparr>"
  have q: "(a_seq a + 1) mod 2 ^ 64 = a_seq a + 1" using e(2) c(1) by simp
  have a': "(if hint < 0 then appendAll (int db) argv a else appendRecord (nat hint) (int db) argv a) = ?a"
    using m(2,3) appendSeq_all [of "a\<lparr>a_seq := a_seq a + 1\<rparr>" "int db" "a_seq a + 1" argv n] q
    by (auto simp: appendAll_def appendRecord_def seqAdd_def appendSeq_def Let_def appendAOFCommand_bytes recBytes_def fun_eq_iff)
  have r: "rec_ok ?r" using e c by (auto simp: rec_ok_def loggable_def)
  have T: "?T \<subseteq> {..<a_manifest a}" "?T \<noteq> {}" using c(3) m(4,6) by auto
  have "logged (h @ [?r]) ?a" by (rule logged_append [OF m(5) r _ T HOL.refl]) simp
  then show ?thesis unfolding l a' using c(1) m by simp
qed

text \<open>
  The whole way: what the engine logs to a fresh set is what a replay of its files executes, in
  order and each command once, whatever torn records a crash left at the ends of the logs.
\<close>

lemma replay_log_gen:
  assumes "m_aof m = Some a" "a_live a" "a_logs a = n" "a_manifest a = n" "logged h a" "0 < n"
    "\<forall>e \<in> set es. loggable route n e" "a_seq a + length (concat (map recordsOf es)) < 2 ^ 64"
  shows "\<exists>a'. m_aof (fold (logOne route) es m) = Some a' \<and> logged (h @ stamped (a_seq a) (concat (map recordsOf es))) a'"
  using assms
proof (induction es arbitrary: m a h)
  case (Cons e es)
  obtain a1 where a1: "m_aof (logOne route e m) = Some a1" "a_live a1" "a_logs a1 = n" "a_manifest a1 = n"
    "a_seq a1 = a_seq a + length (recordsOf e)" "logged (h @ stamped (a_seq a) (recordsOf e)) a1"
    using logOne_logged [OF Cons.prems(1-6), of route e] Cons.prems(7,8) by auto
  from Cons.IH [OF a1(1-4,6) Cons.prems(6)] Cons.prems(7,8) a1(5)
  show ?case by (simp add: stamped_append add.assoc)
qed simp

definition emptyAof :: "aofSet \<Rightarrow> bool" where
  "emptyAof a \<longleftrightarrow> (\<forall>i. a_files a i = [])"

lemma fold_max_upt: "fold max [Suc q..<Suc (q + k)] q = q + k"
  by (induction k) simp_all

lemma replay_log:
  assumes m: "m_aof m = Some (openAOF n 0 disk)" "emptyAof disk" "0 < n"
    and es: "\<forall>e \<in> set es. loggable route n e" "length (concat (map recordsOf es)) < 2 ^ 64"
    and t: "\<forall>i. t i = [] \<or> parseAOFCommand (t i) = Inl errTornRecord"
  shows "\<exists>a. m_aof (fold (logOne route) es m) = Some a \<and>
    replayAOF exec (a\<lparr>a_files := \<lambda>i. a_files a i @ t i\<rparr>) s =
      Inr (length (concat (map recordsOf es)), length (concat (map recordsOf es)),
           fold (\<lambda>(db, argv). exec (int db) argv) (concat (map recordsOf es)) s)"
proof -
  let ?cs = "concat (map recordsOf es)"
  have "logged [] (openAOF n 0 disk)"
    using m(2) by (auto simp: logged_def openAOF_def emptyAof_def history_def intro!: exI [of _ "\<lambda>_. []"])
  then obtain a where a: "m_aof (fold (logOne route) es m) = Some a" "logged (stamped 0 ?cs) a"
    using replay_log_gen [of m "openAOF n 0 disk" n "[]" es route] m es by (auto simp: openAOF_def)
  have len: "length (stamped 0 ?cs) = length ?cs" using arg_cong [OF stamped_seqs [of 0 ?cs], of length] by (simp del: upt_Suc)
  show ?thesis
    using a(1) replay_logged [OF a(2) t, of exec s] fold_max_upt [of 0 "length ?cs"] by (simp add: len stamped_seqs runRecs_stamped del: upt_Suc)
qed

section \<open>Rewriting\<close>

lemma rewriteLog_bytes:
  assumes "a_seq a + length cs < 2 ^ 64"
  shows "rewriteLog cs a = (concat (map recBytes (stamped (a_seq a) cs)), a\<lparr>a_seq := a_seq a + length cs\<rparr>)"
proof -
  have "foldl (\<lambda>(out, a) (db, argv). let (s, a1) = seqAdd a in (appendAOFCommand out (stampRecord (int db) s argv), a1)) (out, a) cs =
      (out @ concat (map recBytes (stamped (a_seq a) cs)), a\<lparr>a_seq := a_seq a + length cs\<rparr>)" for out
    using assms
  proof (induction cs arbitrary: out a)
    case (Cons c cs)
    obtain db argv where c: "c = (db, argv)" by (cases c)
    have "a_seq (a\<lparr>a_seq := Suc (a_seq a)\<rparr>) + length cs < 2 ^ 64" using Cons.prems by simp
    from Cons.IH [OF this] Cons.prems show ?case
      by (simp add: c seqAdd_def appendAOFCommand_bytes recBytes_def)
  qed simp
  from this [of "[]"] show ?thesis by (simp add: rewriteLog_def)
qed

lemma rewrite_steps:
  assumes "a_seq a + length (concat (map D [0..<n])) < 2 ^ 64"
  shows "foldl (rewriteStep D) a [0..<n] =
    a\<lparr>a_seq := a_seq a + length (concat (map D [0..<n])),
      a_files := \<lambda>i. if i < n then concat (map recBytes (stamped (a_seq a + length (concat (map D [0..<i]))) (D i))) else a_files a i\<rparr>"
  using assms
proof (induction n)
  case (Suc n)
  let ?a = "a\<lparr>a_seq := a_seq a + length (concat (map D [0..<n])),
      a_files := \<lambda>i. if i < n then concat (map recBytes (stamped (a_seq a + length (concat (map D [0..<i]))) (D i))) else a_files a i\<rparr>"
  have "foldl (rewriteStep D) a [0..<n] = ?a" using Suc by simp
  moreover have "rewriteLog (D n) ?a =
      (concat (map recBytes (stamped (a_seq ?a) (D n))), ?a\<lparr>a_seq := a_seq ?a + length (D n)\<rparr>)"
    by (rule rewriteLog_bytes) (use Suc.prems in simp)
  then have "rewriteStep D ?a n = ?a\<lparr>a_seq := a_seq ?a + length (D n),
      a_files := (a_files ?a)(n := concat (map recBytes (stamped (a_seq ?a) (D n))))\<rparr>"
    by (simp add: rewriteStep_def)
  ultimately show ?case by (simp add: fun_eq_iff less_Suc_eq)
qed simp

lemma stamped_set: "(\<Union>i < n. set (stamped (q + length (concat (map D [0..<i]))) (D i))) = set (stamped q (concat (map D [0..<n])))"
proof (induction n)
  case (Suc n)
  then show ?case by (simp add: lessThan_Suc stamped_append Un_commute)
qed simp

lemma stamped_history:
  assumes "\<forall>(db, argv) \<in> set cs. db < 2 ^ 63 \<and> argv \<noteq> [] \<and> length argv < 2 ^ 61 \<and> (\<forall>a \<in> set argv. length a < 2 ^ 62)" "q + length cs < 2 ^ 64"
  shows "history (stamped q cs)"
proof -
  have "\<forall>r \<in> set (stamped q cs). rec_ok r"
    using assms by (induction q cs rule: stamped.induct) (auto simp: rec_ok_def)
  then show ?thesis by (simp add: history_def stamped_seqs del: upt_Suc)
qed

text \<open>
  After a rewrite the logs hold the commands of the dump, numbered on, and nothing else; with
  \<open>replay_logged\<close> a replay executes these.
\<close>

lemma rewrite_logged:
  assumes "\<forall>i \<ge> a_logs a. a_files a i = []"
    and "\<forall>i < a_logs a. \<forall>(db, argv) \<in> set (dumpLog P iter nowMs g i). db < 2 ^ 63 \<and> argv \<noteq> [] \<and> length argv < 2 ^ 61 \<and> (\<forall>a \<in> set argv. length a < 2 ^ 62)"
    and "a_seq a + length (concat (map (dumpLog P iter nowMs g) [0..<a_logs a])) < 2 ^ 64"
  shows "logged (stamped (a_seq a) (concat (map (dumpLog P iter nowMs g) [0..<a_logs a]))) (rewrite P iter nowMs g a)"
proof -
  let ?D = "dumpLog P iter nowMs g"
  let ?n = "a_logs a"
  let ?R = "\<lambda>i. stamped (a_seq a + length (concat (map ?D [0..<i]))) (?D i)"
  let ?a = "a\<lparr>a_seq := a_seq a + length (concat (map ?D [0..<?n])),
      a_files := \<lambda>i. if i < ?n then concat (map recBytes (?R i)) else a_files a i, a_live := True, a_manifest := ?n\<rparr>"
  have r: "rewrite P iter nowMs g a = ?a" using rewrite_steps [OF assms(3)] by (simp add: rewrite_def)
  have "history (stamped (a_seq a) (concat (map ?D [0..<?n])))" by (rule stamped_history [OF _ assms(3)]) (use assms(2) in auto)
  moreover have "\<forall>r \<in> set (stamped (a_seq a) (concat (map ?D [0..<?n]))). r_seq r \<le> a_seq ?a"
  proof
    fix r assume "r \<in> set (stamped (a_seq a) (concat (map ?D [0..<?n])))"
    then have "r_seq r \<in> set (map r_seq (stamped (a_seq a) (concat (map ?D [0..<?n]))))" by simp
    then have "r_seq r < Suc (a_seq a + length (concat (map ?D [0..<?n])))" unfolding stamped_seqs set_upt atLeastLessThan_iff by (rule conjunct2)
    then show "r_seq r \<le> a_seq ?a" by simp
  qed
  moreover have "\<forall>i \<ge> a_manifest ?a. a_files ?a i = []" using assms(1) by simp
  moreover have "\<forall>i < a_manifest ?a. a_files ?a i = concat (map recBytes (?R i))" by simp
  moreover have "(\<Union>i < a_manifest ?a. set (?R i)) = set (stamped (a_seq a) (concat (map ?D [0..<?n])))"
    using stamped_set [of "a_seq a" ?D ?n] by simp
  ultimately show ?thesis unfolding r logged_def by (intro conjI exI [of _ ?R])
qed

section \<open>Two flaws\<close>

text \<open>
  An open with fewer shards rewrites the manifest to its own logs: the next replay no longer reads
  the others, whatever they hold.
\<close>

lemma fewer_shards_forget:
  "replayAOF exec (openAOF n b a) s = replayAOF exec (openAOF n b (a\<lparr>a_files := \<lambda>i. if i < n then a_files a i else x i\<rparr>)) s"
proof -
  have "aofFiles (openAOF n b a) = aofFiles (openAOF n b (a\<lparr>a_files := \<lambda>i. if i < n then a_files a i else x i\<rparr>))"
    by (simp add: aofFiles_def openAOF_def)
  then show ?thesis by (simp add: replayAOF_def collectAOFRecords_def)
qed

text \<open>
  Before the first save \<^verbatim>\<open>last\<close> is the current time, not the time of the start: no rule is ever met.
\<close>

lemma autosave_never:
  assumes "m_lastSave m = 0" "is_i64 (t2 - t1)" "\<forall>(secs, changes) \<in> set rules. t2 - t1 < secs"
  shows "checkSaveRules rules t1 t2 m = m"
proof -
  have "checkRules rules t2 t1 m = m"
    using assms(3) by (induction rules) (use wrap64_id [OF assms(2)] in auto)
  then show ?thesis using assms(1) by (simp add: checkSaveRules_def)
qed

text \<open>One background job at a time.\<close>

lemma one_job:
  assumes "\<not> (m_bgsave m \<and> m_rewrite m)"
  shows "\<not> (m_bgsave (snd (BGSave m)) \<and> m_rewrite (snd (BGSave m)))" "\<not> (m_bgsave (snd (BGRewriteAOF m)) \<and> m_rewrite (snd (BGRewriteAOF m)))"
  using assms by (auto simp: BGSave_def BGRewriteAOF_def)

end
