(* ===== verification/Example_Persist.thy ===== *)
theory Example_Persist
  imports Example_Server Persist_Aof
begin

text \<open>
  An engine that holds one key, and a checksum and compressor, for the witnesses of the persistence
  properties.
\<close>

section \<open>One key\<close>

definition entK :: "(string list, zelem list) entry" where
  "entK = \<lparr>Val = VString ''v'', ExpireAtMs = 0, ExpGen = 0, Version = 0, memBytes = 0\<rparr>"

definition gK :: "(string list, zelem list, (string \<times> addr) list, expItem list, tombKey list, (tombKey \<times> nat) list) st" where
  "gK = loadEntry P0 0 0 ''k'' entK g0"

lemma view_g0: "view P0 g0 d x = None"
  unfolding g0_def by (simp add: view_def search_def NewEngine_sel P0_def listP_def listT_def)

lemma g0_loadable: "loadable P0 0 16 1000 g0"
  by (simp add: loadable_def)

lemma entK_exp: "ExpireAtMs entK = 0"
  by (simp add: entK_def)

lemma entK_ok: "value_ok P0 (Val entK)" "0 \<le> ExpireAtMs entK" "\<not> due entK 1000" "abse P0 entK = (AString ''v'', 0)"
  by (simp_all add: entK_def value_ok_def due_def abse_def)

lemma gK_loadable: "loadable P0 0 16 1000 gK"
  using pluto_laws.loadEntry_step(3) [OF P0_laws g0_loadable _ entK_ok(1-3), of 0 "''k''"] by (simp add: gK_def)

lemma gK_conf: "db_inv P0 0 gK" "maxDBs gK = 16" "shardCount gK = 1"
  using gK_loadable db_invD(2) [of P0 0 gK] by (simp_all add: loadable_def conf_ok_def)

lemma gK_kv: "kv P0 gK d x = (if d = 0 \<and> x = ''k'' then Some (AString ''v'', 0) else None)"
  using pluto_laws.loadEntry_step(2) [OF P0_laws g0_loadable _ entK_ok(1-3), of 0 "''k''"] entK_ok(4) by (simp add: gK_def kvupd_def)

lemma gK_view:
  obtains e where "view P0 gK = (\<lambda>d x. if d = 0 \<and> x = ''k'' then Some e else None)" "Val e = VString ''v''" "ExpireAtMs e = 0"
proof -
  obtain a ga where al: "alloc entK g0 = (a, ga)" by (rule prod.exhaust)
  note v = pluto_laws.alloc_view [OF P0_laws al g0_inv(4)]
  have s: "storeEntry P0 0 g0 0 ''k'' entK = (a, Store P0 0 ga 0 ''k'' a)" by (simp add: storeEntry_def al)
  have "maxMemory (Store P0 0 ga 0 ''k'' a) \<le> 0" using pluto_laws.storeEntry_kv(7) [OF P0_laws s g0_inv(4)] by simp
  then have gK: "view P0 gK = view P0 (Store P0 0 ga 0 ''k'' a)" by (simp add: gK_def loadEntry_def s entK_exp pluto_laws.maybeEvict_off [OF P0_laws])
  have "view P0 gK = (\<lambda>d x. if d = 0 \<and> x = ''k'' then Some (stored P0 0 ga 0 ''k'' a) else None)"
    unfolding gK pluto_laws.view_Store [OF P0_laws v(3)] by (simp add: vupd_def fun_eq_iff v(1) view_g0)
  then show thesis by (rule that) (simp_all add: stored_def v(4) entK_def)
qed

section \<open>Its snapshot\<close>

definition C0 :: codec where
  "C0 = \<lparr>crcOf = (\<lambda>s. of_nat (length s)), compressPayload = (\<lambda>s. s), decompressPayload = (\<lambda>s. s)\<rparr>"

lemma gK_items:
  assumes "view P0 gK = (\<lambda>d x. if d = 0 \<and> x = ''k'' then Some e else None)" "d < 16"
  shows "segItems P0 now gK (d, sh) = [] \<or> segItems P0 now gK (d, sh) = [(''k'', e)]"
proof -
  let ?xs = "segItems P0 now gK (d, sh)"
  have d: "d < maxDBs gK" using assms(2) gK_conf(2) by simp
  note m = pluto_laws.segItems_map [OF P0_laws d, of now sh]
  have "p = (''k'', e)" if "p \<in> set ?xs" for p
  proof -
    have "map_of ?xs (fst p) = Some (snd p)" using that m(1) by simp
    then show ?thesis using m(2) [of "fst p"] assms(1) by (cases p) (auto split: if_splits)
  qed
  then have s: "set ?xs \<subseteq> {(''k'', e)}" by blast
  show ?thesis
  proof (cases ?xs)
    case (Cons p ps)
    then have "p = (''k'', e)" "\<forall>q \<in> set ps. q = (''k'', e)" using s by auto
    then have "ps = []" using m(1) Cons by (cases ps) auto
    then show ?thesis using Cons \<open>p = (''k'', e)\<close> by simp
  qed simp
qed

lemma gK_dumpable: "dumpable P0 C0 iter compress 1000 gK"
proof -
  obtain e where e: "view P0 gK = (\<lambda>d x. if d = 0 \<and> x = ''k'' then Some e else None)" "Val e = VString ''v''" "ExpireAtMs e = 0" by (rule gK_view)
  have h: "\<forall>d x e'. view P0 gK d x = Some e' \<longrightarrow> holdable P0 x e'"
    using e by (auto simp: holdable_def storable_def small_def is_i64_def)
  have l: "length (itemsBytes P0 i [(''k'', e)]) < 2 ^ 32" for i
    by (simp add: itemsBytes_def entryBytes_def strBytes_def valBytes_def e)
  have "seg_fits P0 C0 iter compress 1000 gK (d, sh)" if "d < 16" "sh < 1" for d sh
    using gK_items [OF e(1) that(1), of 1000 sh] that l [of "iter d"]
    by (auto simp: seg_fits_def segBody_def C0_def itemsBytes_def [of P0 "iter d" "[]"] Let_def)
  then show ?thesis using h by (simp add: dumpable_def gK_conf is_i64_def)
qed

lemma gK_restored: "restored P0 1000 now gK d x = (if d = 0 \<and> x = ''k'' then Some (AString ''v'', 0) else None)"
proof -
  obtain e where e: "view P0 gK = (\<lambda>d x. if d = 0 \<and> x = ''k'' then Some e else None)" "Val e = VString ''v''" "ExpireAtMs e = 0" by (rule gK_view)
  show ?thesis by (auto simp: restored_def e due_def abse_def)
qed

end
