(* ===== verification/Sorted_Set_Spec.thy ===== *)
theory Sorted_Set_Spec
  imports Sorted_Set
begin

text \<open>
  What the sorted set commands do, on the level of a client: a sorted set is a finite map from
  members to scores and the strictly sorted list of its elements (\<open>listing\<close>), which the map
  determines. ZADD and ZINCRBY are functions on the map (\<open>zaddSpec\<close>, \<open>zincrSpec\<close>), the removals take
  a set of members away (\<open>zdelOp\<close>), ranges and pops cut the list.
\<close>

section \<open>Specifications\<close>

text \<open>A score that is numerically equal to the present one is not stored.\<close>

definition zput :: "(string \<rightharpoonup> float64) \<Rightarrow> string \<Rightarrow> float64 \<Rightarrow> (string \<rightharpoonup> float64)" where
  "zput m k s = (case m k of Some c \<Rightarrow> if feq c s then m else m(k \<mapsto> s) | None \<Rightarrow> m(k \<mapsto> s))"

text \<open>The pairs of a ZADD without INCR: how often the map changed, and the map.\<close>

fun zputs :: "zaddOpts \<Rightarrow> (float64 \<times> string) list \<Rightarrow> (string \<rightharpoonup> float64) \<Rightarrow> int \<times> (string \<rightharpoonup> float64)" where
  "zputs opts [] m = (0, m)"
| "zputs opts ((sc, k) # ps) m =
     (case zaddDecide opts (m k) sc of
        Put s \<Rightarrow> let m1 = zput m k s; (n, m2) = zputs opts ps m1 in (if m1 = m then n else n + 1, m2)
      | _ \<Rightarrow> zputs opts ps m)"

definition zaddSpec :: "zaddOpts \<Rightarrow> (float64 \<times> string) list \<Rightarrow> (string \<rightharpoonup> float64) \<Rightarrow> rv \<times> (string \<rightharpoonup> float64)" where
  "zaddSpec opts ps m =
     (if za_incr opts then
        (case zaddDecide opts (m (snd (hd ps))) (fst (hd ps)) of
           Skip \<Rightarrow> (RNull, m) | BadSum \<Rightarrow> (errNaN, m) | Put s \<Rightarrow> (RDouble s, zput m (snd (hd ps)) s))
      else
        let (changed, m') = zputs opts ps m
        in (RInt (if za_ch opts then changed else int (card (dom m' - dom m))), m'))"

definition zincrSpec :: "string \<Rightarrow> float64 \<Rightarrow> (string \<rightharpoonup> float64) \<Rightarrow> rv \<times> (string \<rightharpoonup> float64)" where
  "zincrSpec k delta m =
     (let s = fadd (case m k of Some c \<Rightarrow> c | None \<Rightarrow> 0) delta
      in if is_nan s then (errNaN, m) else (RDouble s, zput m k s))"

definition zdelOp :: "((string \<rightharpoonup> float64) \<Rightarrow> string set) \<Rightarrow> int \<Rightarrow> kentry \<Rightarrow> rv \<times> kentry" where
  "zdelOp K = zsetOp (\<lambda>m. (RInt (int (card (K m \<inter> dom m))), m |` (- K m)))"

text \<open>The elements between two positions, counted from the end when negative.\<close>

definition ranks :: "int \<Rightarrow> int \<Rightarrow> 'a list \<Rightarrow> 'a list" where
  "ranks start stop xs =
     (let n = int (length xs);
          lo = max 0 (if start < 0 then start + n else start);
          hi = min n ((if stop < 0 then stop + n else stop) + 1)
      in take (nat (hi - lo)) (drop (nat lo) xs))"

definition segment :: "nat \<Rightarrow> nat \<Rightarrow> 'a list \<Rightarrow> 'a list" where
  "segment lo hi xs = take (hi - lo) (drop lo xs)"

definition limited :: "(int \<times> int) option \<Rightarrow> 'a list \<Rightarrow> 'a list" where
  "limited limit xs =
     (case limit of
        None \<Rightarrow> xs
      | Some (offset, cnt) \<Rightarrow>
          if offset < 0 then [] else let rest = drop (nat offset) xs in if 0 \<le> cnt then take (nat cnt) rest else rest)"

definition scoreIn :: "scoreBound \<Rightarrow> scoreBound \<Rightarrow> float64 \<Rightarrow> bool" where
  "scoreIn lo hi s = in_score_range (sb_val lo) (sb_val hi) (sb_excl lo) (sb_excl hi) s"

text \<open>The members with a score in a range, and those at a range of positions.\<close>

definition scored :: "scoreBound \<Rightarrow> scoreBound \<Rightarrow> (string \<rightharpoonup> float64) \<Rightarrow> string set" where
  "scored lo hi m = {k. \<exists>s. m k = Some s \<and> scoreIn lo hi s}"

definition ranked :: "int \<Rightarrow> int \<Rightarrow> (string \<rightharpoonup> float64) \<Rightarrow> string set" where
  "ranked start stop m = {k. \<exists>es. listing m es \<and> k \<in> Member ` set (ranks start stop es)}"

text \<open>The entry after the first \<open>n\<close> of \<open>es\<close> have been popped.\<close>

definition popped :: "nat \<Rightarrow> zelem list \<Rightarrow> (string \<rightharpoonup> float64) \<Rightarrow> int \<Rightarrow> kentry" where
  "popped n es m x = (if length es \<le> n then None else Some (AZSet (m |` (- Member ` set (take n es))), x))"

section \<open>Maps\<close>

lemma zput_dom [simp]: "dom (zput m k s) = insert k (dom m)"
  by (auto simp: zput_def split: option.splits if_splits)

lemma zput_nonempty [simp]: "zput m k s \<noteq> Map.empty"
  using zput_dom [of m k s] by (metis dom_empty empty_not_insert)

lemma feq_refl: "\<not> is_nan s \<Longrightarrow> feq s s"
  by (simp add: feq_def)

lemma zput_same:
  assumes "\<not> is_nan s"
  shows "zput m k s = m \<longleftrightarrow> (\<exists>c. m k = Some c \<and> feq c s)"
proof (cases "m k")
  case None
  then have "zput m k s k \<noteq> m k" by (simp add: zput_def)
  then show ?thesis using None by auto
next
  case (Some c)
  have "m(k \<mapsto> s) \<noteq> m" if "\<not> feq c s" using that Some feq_refl [OF assms] by (metis fun_upd_same option.inject)
  then show ?thesis using Some by (auto simp: zput_def)
qed

lemma zputs_dom: "dom m \<subseteq> dom (snd (zputs opts ps m))"
proof (induction opts ps m rule: zputs.induct)
  case (2 opts sc k ps m)
  then show ?case by (cases "zaddDecide opts (m k) sc") (auto simp: split_beta Let_def)
qed simp

text \<open>Without options every pair is stored: the domain grows by the members and the last score of a member counts.\<close>

lemma zaddDecide_plain [simp]: "zaddDecide noZaddOpts cur sc = Put sc"
  by (auto simp: zaddDecide_def noZaddOpts_def Let_def split: option.split)

lemma zputs_plain:
  "dom (snd (zputs noZaddOpts ps m)) = dom m \<union> snd ` set ps \<and>
   (\<forall>k. k \<notin> snd ` set ps \<longrightarrow> snd (zputs noZaddOpts ps m) k = m k)"
proof (induction ps arbitrary: m)
  case (Cons p ps)
  obtain sc k where p: "p = (sc, k)" by (cases p)
  have "zput m k sc x = m x" if "x \<noteq> k" for x using that by (auto simp: zput_def split: option.split)
  then show ?case using Cons [of "zput m k sc"] by (auto simp: p split_beta Let_def)
qed simp

lemma zputs_scores:
  assumes "distinct (map snd ps)" "(sc, k) \<in> set ps" "\<not> is_nan sc"
  shows "\<exists>s. snd (zputs noZaddOpts ps m) k = Some s \<and> feq s sc"
  using assms
proof (induction ps arbitrary: m)
  case (Cons p ps)
  obtain sc' k' where p: "p = (sc', k')" by (cases p)
  let ?m = "zput m k' sc'"
  show ?case
  proof (cases "(sc, k) \<in> set ps")
    case True
    then show ?thesis using Cons.IH [of ?m] Cons.prems by (simp add: p split_beta Let_def)
  next
    case False
    then have k: "sc' = sc" "k' = k" using Cons.prems(2) p by auto
    then have "k \<notin> snd ` set ps" using Cons.prems(1) p by simp
    then have "snd (zputs noZaddOpts ps ?m) k = ?m k" using zputs_plain [of ps ?m] by blast
    moreover have "\<exists>s. ?m k = Some s \<and> feq s sc"
      using k feq_refl [OF Cons.prems(3)] by (auto simp: zput_def split: option.split)
    ultimately show ?thesis by (simp add: p split_beta Let_def)
  qed
qed simp

context zskip
begin

lemma ZSetAdd_map:
  assumes "zset_inv S z" "\<not> is_nan s"
  shows "fst (ZSetAdd S z k s) \<longleftrightarrow> zm z k = None" "zm (snd (ZSetAdd S z k s)) = zput (zm z) k s"
    "zset_inv S (snd (ZSetAdd S z k s))"
  using ZSetAdd_new [OF assms, of k] ZSetAdd_old [OF assms, of k] by (cases "zm z k"; simp add: zput_def)+

lemma zadd_loop_spec:
  assumes "\<not> za_incr opts" "\<forall>p \<in> set ps. \<not> is_nan (fst p)" "zset_inv S z"
  defines "m' \<equiv> snd (zputs opts ps (zm z))"
  shows "zm (snd (zadd_loop S opts ps r z)) = m'" "z_nan (fst (zadd_loop S opts ps r z)) = z_nan r"
    "z_changed (fst (zadd_loop S opts ps r z)) = z_changed r + fst (zputs opts ps (zm z))"
    "z_added (fst (zadd_loop S opts ps r z)) = z_added r + int (card (dom m' - dom (zm z)))"
proof -
  have "zm (snd (zadd_loop S opts ps r z)) = snd (zputs opts ps (zm z)) \<and> z_nan (fst (zadd_loop S opts ps r z)) = z_nan r \<and>
    z_changed (fst (zadd_loop S opts ps r z)) = z_changed r + fst (zputs opts ps (zm z)) \<and>
    z_added (fst (zadd_loop S opts ps r z)) = z_added r + int (card (dom (snd (zputs opts ps (zm z))) - dom (zm z)))"
    using assms(2,3)
  proof (induction ps arbitrary: r z)
    case (Cons p ps)
    obtain sc k where p: "p = (sc, k)" by (cases p)
    show ?case
    proof (cases "zaddDecide opts (zm z k) sc")
      case (Put s)
      have s: "\<not> is_nan s" using zaddDecide_not_nan [OF Put] Cons.prems(1) p by simp
      note A = ZSetAdd_map [OF Cons.prems(2) s, of k]
      let ?z = "snd (ZSetAdd S z k s)" and ?m' = "snd (zputs opts ps (zput (zm z) k s))"
      have fin: "finite (dom ?m')"
      proof -
        have "zset_inv S (snd (zadd_loop S opts ps r ?z))" using zadd_loop_inv [OF A(3)] Cons.prems(1) by simp
        from zset_finite [OF this] show ?thesis using Cons.IH [of ?z r] Cons.prems(1) A by simp
      qed
      have sub: "insert k (dom (zm z)) \<subseteq> dom ?m'" using zputs_dom [of "zput (zm z) k s" opts ps] by simp
      have c: "card (dom ?m' - dom (zm z)) = (if zm z k = None then 1 else 0) + card (dom ?m' - insert k (dom (zm z)))"
      proof (cases "zm z k")
        case None
        then have e: "dom ?m' - dom (zm z) = insert k (dom ?m' - insert k (dom (zm z)))" using sub by auto
        have "card (insert k (dom ?m' - insert k (dom (zm z)))) = Suc (card (dom ?m' - insert k (dom (zm z))))"
          by (rule card_insert_disjoint) (use fin in simp_all)
        then show ?thesis unfolding e using None by simp
      qed (simp add: insert_absorb domI)
      have f: "feq (case zm z k of Some c \<Rightarrow> c | None \<Rightarrow> 0) s \<longleftrightarrow> zput (zm z) k s = zm z" if "zm z k \<noteq> None"
        using zput_same [OF s, of "zm z" k] that by auto
      have n: "zm z k = None \<Longrightarrow> zput (zm z) k s \<noteq> zm z" using zput_same [OF s, of "zm z" k] by simp
      have "\<exists>r1. zadd_loop S opts (p # ps) r z = zadd_loop S opts ps r1 ?z \<and> z_nan r1 = z_nan r \<and>
          z_added r1 = z_added r + (if zm z k = None then 1 else 0) \<and> z_changed r1 = z_changed r + (if zput (zm z) k s = zm z then 0 else 1)"
        using A(1) Put f n by (cases "zm z k") (auto simp: p ZSetScore_def split_beta Let_def)
      then obtain r1 where r1: "zadd_loop S opts (p # ps) r z = zadd_loop S opts ps r1 ?z" "z_nan r1 = z_nan r"
          "z_added r1 = z_added r + (if zm z k = None then 1 else 0)" "z_changed r1 = z_changed r + (if zput (zm z) k s = zm z then 0 else 1)"
        by blast
      have ps: "\<forall>p \<in> set ps. \<not> is_nan (fst p)" using Cons.prems(1) by simp
      have q: "zputs opts (p # ps) (zm z) = ((if zput (zm z) k s = zm z then 0 else 1) + fst (zputs opts ps (zput (zm z) k s)), ?m')"
        using Put by (simp add: p split_beta Let_def)
      show ?thesis unfolding r1(1) q using Cons.IH [OF ps A(3), of r1] r1(2-4) c by (simp add: A(2))
    next
      case BadSum
      then show ?thesis using assms(1) by (simp add: zaddDecide_def Let_def split: if_splits)
    qed (use Cons in \<open>simp add: p ZSetScore_def\<close>)
  qed simp
  then show "zm (snd (zadd_loop S opts ps r z)) = m'" "z_nan (fst (zadd_loop S opts ps r z)) = z_nan r"
    "z_changed (fst (zadd_loop S opts ps r z)) = z_changed r + fst (zputs opts ps (zm z))"
    "z_added (fst (zadd_loop S opts ps r z)) = z_added r + int (card (dom m' - dom (zm z)))"
    unfolding m'_def by blast+
qed

end

section \<open>Lists of elements\<close>

lemma segment_split: "lo \<le> hi \<Longrightarrow> take lo xs @ segment lo hi xs @ drop hi xs = xs"
  by (simp add: segment_def) (metis append_take_drop_id drop_drop le_add_diff_inverse2)

lemma segment_rest:
  assumes "distinct xs" "lo \<le> hi"
  shows "set (take lo xs @ drop hi xs) = set xs - set (segment lo hi xs)" "distinct (segment lo hi xs)" "set (segment lo hi xs) \<subseteq> set xs"
proof -
  have "set (A @ C) = set (A @ B @ C) - set B \<and> distinct B \<and> set B \<subseteq> set (A @ B @ C)" if "distinct (A @ B @ C)" for A B C :: "'a list"
    using that by auto
  from this [of "take lo xs" "segment lo hi xs" "drop hi xs"]
  show "set (take lo xs @ drop hi xs) = set xs - set (segment lo hi xs)" "distinct (segment lo hi xs)" "set (segment lo hi xs) \<subseteq> set xs"
    using assms(1) unfolding segment_split [OF assms(2)] by blast+
qed

text \<open>A sorted set whose list is a part of that of another one has the map of that part.\<close>

context zskip
begin

lemma zm_sublist:
  assumes "zset_inv S z" "zset_inv S z'" "set (sl_all S (sl z')) = set (sl_all S (sl z)) - D" "D \<subseteq> set (sl_all S (sl z))"
  shows "zm z' = (zm z) |` (- Member ` D)"
proof
  fix k
  have key: "zm z' k = Some s \<longleftrightarrow> zm z k = Some s \<and> k \<notin> Member ` D" for s
  proof -
    let ?e = "\<lparr>Score = s, Member = k\<rparr>"
    have "k \<in> Member ` D \<longleftrightarrow> ?e \<in> D" if "zm z k = Some s"
    proof
      assume "k \<in> Member ` D"
      then obtain e where e: "e \<in> D" "Member e = k" by blast
      then have "zm z k = Some (Score e)" using zset_inv_mem [OF assms(1)] assms(4) by blast
      then show "?e \<in> D" using e that by (cases e) simp
    qed (force simp: image_iff)
    then show ?thesis
      using zset_inv_mem [OF assms(2), of ?e] zset_inv_mem [OF assms(1), of ?e] assms(3) by auto
  qed
  show "zm z' k = ((zm z) |` (- Member ` D)) k"
  proof (cases "k \<in> Member ` D")
    case True
    then have "zm z' k = None" using key by (metis not_None_eq)
    then show ?thesis using True by simp
  next
    case False
    then have "zm z' k = zm z k" using key by (metis not_None_eq)
    then show ?thesis using False by simp
  qed
qed

lemma card_members:
  assumes "zset_inv S z" "D \<subseteq> set (sl_all S (sl z))"
  shows "card (Member ` D) = card D"
  by (rule card_image [OF inj_on_subset [OF zset_inj [OF assms(1)] assms(2)]])

lemma removeWindow_map:
  assumes "zset_inv S z" "lo \<le> hi" "hi \<le> length (sl_all S (sl z))"
  defines "D \<equiv> set (segment lo hi (sl_all S (sl z)))"
  shows "zm (snd (removeWindow S (int lo, int hi) z)) = (zm z) |` (- Member ` D)"
    "fst (removeWindow S (int lo, int hi) z) = int (card (Member ` D))"
    "Member ` D \<subseteq> dom (zm z)" "zset_inv S (snd (removeWindow S (int lo, int hi) z))"
proof -
  let ?all = "sl_all S (sl z)" and ?z = "snd (removeWindow S (int lo, int hi) z)"
  note R = removeWindow_spec [OF assms(1), of "int lo" "int hi"]
  note L = segment_rest [OF distinct_all [OF assms(1)] assms(2)]
  have sub: "D \<subseteq> set ?all" unfolding D_def by (rule L(3))
  have "sl_all S (sl ?z) = take lo ?all @ drop hi ?all" using R(3) assms(2,3) by simp
  then have rest: "set (sl_all S (sl ?z)) = set ?all - D" using L(1) by (simp add: D_def)
  show "zm ?z = (zm z) |` (- Member ` D)" using R(1) assms(2,3) rest sub by (intro zm_sublist [OF assms(1)]) simp_all
  have "card D = hi - lo" using L(2) assms(2,3) distinct_card [of "segment lo hi ?all"] by (simp add: D_def segment_def)
  then show "fst (removeWindow S (int lo, int hi) z) = int (card (Member ` D))"
    using R(2) card_members [OF assms(1) sub] assms(2,3) by simp
  show "Member ` D \<subseteq> dom (zm z)" using zset_dom [OF assms(1)] sub by auto
  show "zset_inv S ?z" using R(1) assms(2,3) by simp
qed

text \<open>The elements of a window of ranks, in the order they are replied.\<close>

lemma zat_nth: "i < length (sl_all S (sl z)) \<Longrightarrow> zat S z (int i) = sl_all S (sl z) ! i"
  by (simp add: zat_def ZSetAt_def sl_at_all)

lemma zat_window:
  assumes "hi \<le> length (sl_all S (sl z))"
  shows "map (zat S z) [int lo..int hi - 1] = segment lo hi (sl_all S (sl z))"
proof (rule nth_equalityI)
  show l: "length (map (zat S z) [int lo..int hi - 1]) = length (segment lo hi (sl_all S (sl z)))" using assms by (simp add: segment_def)
  fix i
  assume i: "i < length (map (zat S z) [int lo..int hi - 1])"
  then have "zat S z (int (lo + i)) = sl_all S (sl z) ! (lo + i)" using assms by (intro zat_nth) simp
  then show "map (zat S z) [int lo..int hi - 1] ! i = segment lo hi (sl_all S (sl z)) ! i"
    using i l assms by (simp add: segment_def)
qed

lemma limited_map: "limited limit (map f xs) = map f (limited limit xs)"
  by (auto simp: limited_def drop_map take_map Let_def split: option.split)

lemma zrangeEmit_spec:
  assumes "hi \<le> length (sl_all S (sl z))"
  shows "zrangeEmit S z (int lo) (int hi) rev' limit ws proto =
    RArr (zElems ws proto (limited limit ((if rev' then rev else id) (segment lo hi (sl_all S (sl z))))))"
proof -
  have lim: "(case limit of None \<Rightarrow> xs
      | Some (offset, cnt) \<Rightarrow> if offset < 0 \<or> int (length xs) \<le> offset then []
          else let rest = drop (nat offset) xs in if 0 \<le> cnt \<and> cnt < int (length rest) then take (nat cnt) rest else rest) = limited limit xs"
    for xs :: "int list"
    by (cases limit) (auto simp: limited_def Let_def)
  have "map (zat S z) [(if hi < lo then 0 else int lo)..(if hi < lo then 0 else int hi) - 1] = segment lo hi (sl_all S (sl z))"
    using zat_window [OF assms, of lo] by (auto simp: segment_def)
  then have "map (zat S z) (limited limit (if rev' then rev [(if hi < lo then 0 else int lo)..(if hi < lo then 0 else int hi) - 1]
      else [(if hi < lo then 0 else int lo)..(if hi < lo then 0 else int hi) - 1])) =
    limited limit ((if rev' then rev else id) (segment lo hi (sl_all S (sl z))))"
    unfolding limited_map [symmetric] by (cases rev') (simp_all add: rev_map [symmetric] del: upto_Nil)
  then show ?thesis unfolding zrangeEmit_def lim by (cases "hi < lo"; cases rev') (simp_all add: lim Let_def)
qed

lemma zwindow_ranks:
  assumes "zset_inv S z" "zwindow S (ByIndex start stop) z = (a, b)"
  shows "segment (nat a) (nat b) (sl_all S (sl z)) = ranks start stop (sl_all S (sl z))"
proof -
  let ?n = "int (length (sl_all S (sl z)))"
  let ?lo = "if start < 0 then max 0 (start + ?n) else start" and ?hi = "min ?n ((if stop < 0 then stop + ?n else stop) + 1)"
  have r: "ranks start stop xs = segment (nat ?lo) (nat ?hi) xs" if "length xs = length (sl_all S (sl z))" for xs :: "zelem list"
  proof -
    have lo: "max 0 (if start < 0 then start + ?n else start) = ?lo" by simp
    have "nat (h - l) = nat h - nat l" if "0 \<le> l" for h l :: int using that by linarith
    then have d: "nat (?hi - ?lo) = nat ?hi - nat ?lo" by simp
    show ?thesis unfolding ranks_def segment_def Let_def that lo d by (rule HOL.refl)
  qed
  have w: "(let e = (if n \<le> s1 then n - 1 else s1) in if e < s0 \<or> n \<le> s0 \<or> e < 0 then (0, 0) else (s0, e + 1)) =
      (if min n (s1 + 1) \<le> s0 then (0, 0) else (s0, min n (s1 + 1)))" if "0 \<le> s0" for s0 s1 n :: int
    using that by (auto simp: Let_def)
  have "(a, b) = (if ?hi \<le> ?lo then (0, 0) else (?lo, ?hi))"
    using assms(2) ZSetLen_all [OF assms(1)] w [of ?lo ?n "if stop < 0 then stop + ?n else stop"] by (simp add: zwindow_def Let_def)
  then have "segment (nat a) (nat b) (sl_all S (sl z)) = segment (nat ?lo) (nat ?hi) (sl_all S (sl z))"
    by (auto simp: segment_def split: if_splits)
  then show ?thesis using r by simp
qed

lemma score_slice:
  assumes "zset_inv S z" "\<not> is_nan (sb_val lo)" "\<not> is_nan (sb_val hi)" "scoreLoc S lo hi z = (a, b)"
  shows "segment (nat a) (nat b) (sl_all S (sl z)) = filter (\<lambda>e. scoreIn lo hi (Score e)) (sl_all S (sl z))"
proof -
  let ?all = "sl_all S (sl z)"
  obtain x y where l: "ScoreRangeLoc S z (sb_val lo) (sb_val hi) (sb_excl lo) (sb_excl hi) = (x, y)" by (rule prod.exhaust)
  note L = ScoreRangeLoc_spec [OF assms(1-3) l]
  have ab: "nat a = x" "nat b = y" using assms(4) l by (auto simp: scoreLoc_def)
  have filter_slice: "filter Q xs = segment x y xs"
    if "\<And>i. i < length xs \<Longrightarrow> Q (xs ! i) \<longleftrightarrow> x \<le> i \<and> i < y" "x \<le> length xs" "y \<le> length xs" for Q and xs :: "zelem list"
  proof -
    have no: "filter Q (take x xs) = []" "filter Q (drop (max x y) xs) = []"
      using that by (auto simp: filter_empty_conv in_set_conv_nth)
    have yes: "filter Q (segment x (max x y) xs) = segment x (max x y) xs"
      using that by (auto simp: filter_id_conv segment_def in_set_conv_nth)
    have "filter Q xs = filter Q (take x xs @ segment x (max x y) xs @ drop (max x y) xs)" by (subst segment_split) simp_all
    then show ?thesis using no yes by (simp add: segment_def max_def split: if_splits)
  qed
  show ?thesis unfolding ab by (rule filter_slice [symmetric]) (use L in \<open>auto simp: scoreIn_def\<close>)
qed

text \<open>Popping from either end.\<close>

lemma zpop_loop_spec:
  fixes fromMin :: bool
  assumes "zset_inv S z" "n \<le> length (sl_all S (sl z))"
  defines "es \<equiv> (if fromMin then sl_all S (sl z) else rev (sl_all S (sl z)))"
  shows "fst (zpop_loop S fromMin n z out) = out @ take n es"
    "zm (snd (zpop_loop S fromMin n z out)) = (zm z) |` (- Member ` set (take n es))"
proof -
  have "fst (zpop_loop S fromMin n z out) = out @ take n (if fromMin then sl_all S (sl z) else rev (sl_all S (sl z))) \<and>
      zm (snd (zpop_loop S fromMin n z out)) = (zm z) |` (- Member ` set (take n (if fromMin then sl_all S (sl z) else rev (sl_all S (sl z)))))"
    using assms(1,2)
  proof (induction n arbitrary: z out)
    case (Suc n)
    let ?all = "sl_all S (sl z)"
    let ?i = "if fromMin then 0 else length ?all - 1"
    let ?e = "?all ! ?i" and ?z = "snd (ZSetRemove S z (Member (?all ! ?i)))"
    have i: "?i < length ?all" using Suc.prems(2) by auto
    note del = ZSetRemove_all [OF Suc.prems(1) i HOL.refl]
    have all: "sl_all S (sl ?z) = remove_nth ?i ?all"
      using del by (cases ?e) (simp add: ZSetRemove_def Let_def split_beta)
    have at: "zat S z (if fromMin then 0 else int (ZSetLen z) - 1) = ?e"
      using zat_nth [OF i] i by (auto simp: ZSetLen_all [OF Suc.prems(1)] of_nat_diff)
    have es: "(if fromMin then ?all else rev ?all) = ?e # (if fromMin then sl_all S (sl ?z) else rev (sl_all S (sl ?z)))"
    proof (cases fromMin)
      case True
      then show ?thesis using i all by (cases ?all) (simp_all add: remove_nth_def)
    next
      case False
      then show ?thesis using i all by (cases ?all rule: rev_cases) (simp_all add: remove_nth_def)
    qed
    have len: "n \<le> length (sl_all S (sl ?z))" using i Suc.prems(2) by (simp add: all length_remove_nth)
    note R = ZSetRemove_spec(2,3) [OF Suc.prems(1), of "Member ?e"]
    show ?case
      using Suc.IH [OF R(2) len, of "out @ [?e]"] R(1) unfolding zpop_loop.simps Let_def at es by (auto simp: restrict_map_def fun_eq_iff)
  qed (simp add: restrict_map_def)
  then show "fst (zpop_loop S fromMin n z out) = out @ take n es"
    "zm (snd (zpop_loop S fromMin n z out)) = (zm z) |` (- Member ` set (take n es))" unfolding es_def by blast+
qed

end

section \<open>The handlers\<close>

definition zaddReply :: "zaddOpts \<Rightarrow> zaddRun \<Rightarrow> rv" where
  "zaddReply opts r =
     (if z_nan r then errNaN
      else if za_incr opts then (if z_processed r then RDouble (z_score r) else RNull)
      else RInt (if za_ch opts then z_changed r else z_added r))"

context pluto_laws
begin

lemma asZSet_Some:
  assumes "asZSet (absv P v) = Some m" "value_ok P v"
  obtains z where "v = VZSet z" "zset_inv (PS P) z" "m = zm z"
  using assms by (cases v) (auto simp: asZSet_def)

lemma ptr_ok_aside [simp]: "ptr_ok P (notify db key ev g) = ptr_ok P g" "ptr_ok P (WakeWaiter i g db key) = ptr_ok P g"
  by (rule ptr_ok_eqI, rule search_eqI; simp add: notify_def WakeWaiter_def split: list.split)+

lemma zset_empty_iff: "zset_inv (PS P) z \<Longrightarrow> ZSetLen z = 0 \<longleftrightarrow> zm z = Map.empty"
  using zset_finite [of "PS P" z] by (simp add: ZSetLen_def)

lemma NewZSet_map [simp]: "zm (NewZSet (PS P)) = Map.empty" "zset_inv (PS P) (NewZSet (PS P))"
  using zk.NewZSet_inv by (simp_all add: NewZSet_def)

lemma WakeWaiter_mem [simp]: "maxMemory (WakeWaiter i g db key) = maxMemory g"
  by (simp add: WakeWaiter_def split: list.split)

lemma zadd_incr:
  assumes "za_incr opts" "zset_inv (PS P) z" "\<not> is_nan sc"
  shows "zadd_loop (PS P) opts [(sc, mem)] zaddStart z =
    (case zaddDecide opts (zm z mem) sc of
       Skip \<Rightarrow> (zaddStart, z) | BadSum \<Rightarrow> (zaddStart\<lparr>z_nan := True\<rparr>, z)
     | Put s \<Rightarrow> (\<lparr>z_nan = False, z_added = (if zm z mem = None then 1 else 0), z_changed = (if zput (zm z) mem s = zm z then 0 else 1),
          z_processed = True, z_score = s\<rparr>, snd (ZSetAdd (PS P) z mem s)))"
proof (cases "zaddDecide opts (zm z mem) sc")
  case (Put s)
  then have s: "\<not> is_nan s" using zaddDecide_not_nan assms(3) by blast
  note A = zk.ZSetAdd_map [OF assms(2) s, of mem] zput_same [OF s, of "zm z" mem]
  show ?thesis using Put A(1,4) by (cases "zm z mem") (auto simp: ZSetScore_def zaddStart_def split_beta Let_def)
qed (simp_all add: ZSetScore_def)

lemma zadd_run:
  assumes "zset_inv (PS P) z" "\<forall>p \<in> set ps. \<not> is_nan (fst p)" "za_incr opts \<Longrightarrow> length ps = 1"
    and l: "zadd_loop (PS P) opts ps zaddStart z = (r, z')"
  shows "zset_inv (PS P) z'" "zm z' = snd (zaddSpec opts ps (zm z))" "zaddReply opts r = fst (zaddSpec opts ps (zm z))"
    "zm z = Map.empty \<Longrightarrow> \<not> z_nan r \<and> (zm z' \<noteq> Map.empty \<longleftrightarrow> (if za_incr opts then z_processed r else 0 < z_added r))"
    "dom (zm z) \<subseteq> dom (zm z')"
proof -
  show inv: "zset_inv (PS P) z'" using zk.zadd_loop_inv [OF assms(1,2), of opts zaddStart] l by simp
  have "zm z' = snd (zaddSpec opts ps (zm z)) \<and> zaddReply opts r = fst (zaddSpec opts ps (zm z)) \<and>
    (zm z = Map.empty \<longrightarrow> \<not> z_nan r \<and> (zm z' \<noteq> Map.empty \<longleftrightarrow> (if za_incr opts then z_processed r else 0 < z_added r))) \<and>
    dom (zm z) \<subseteq> dom (zm z')"
  proof (cases "za_incr opts")
    case True
    then obtain sc mem where ps: "ps = [(sc, mem)]" "\<not> is_nan sc" using assms(2,3) by (cases ps) auto
    have cur: "zaddDecide opts None sc \<noteq> BadSum" by (simp add: zaddDecide_def Let_def)
    show ?thesis
    proof (cases "zaddDecide opts (zm z mem) sc")
      case (Put s)
      then have "\<not> is_nan s" using zaddDecide_not_nan ps(2) by blast
      note A = zk.ZSetAdd_map(2) [OF assms(1) this, of mem]
      show ?thesis
        using zadd_incr [OF True assms(1) ps(2), of mem] l Put True A
        by (auto simp: ps(1) zaddReply_def zaddSpec_def)
    qed (use zadd_incr [OF True assms(1) ps(2), of mem] l True cur in \<open>auto simp: ps(1) zaddReply_def zaddSpec_def zaddStart_def\<close>)
  next
    case False
    note L = zk.zadd_loop_spec [OF False assms(2,1), of zaddStart, unfolded l fst_conv snd_conv]
    have e: "zm z' \<noteq> Map.empty \<longleftrightarrow> 0 < card (dom (zm z'))" using zset_finite [OF inv] by (simp add: card_gt_0_iff)
    show ?thesis
      using L False e zputs_dom [of "zm z" opts ps] by (auto simp: zaddReply_def zaddSpec_def zaddStart_def split_beta)
  qed
  then show "zm z' = snd (zaddSpec opts ps (zm z))" "zaddReply opts r = fst (zaddSpec opts ps (zm z))"
    "zm z = Map.empty \<Longrightarrow> \<not> z_nan r \<and> (zm z' \<noteq> Map.empty \<longleftrightarrow> (if za_incr opts then z_processed r else 0 < z_added r))"
    "dom (zm z) \<subseteq> dom (zm z')" by blast+
qed

lemma zaddTask_refines:
  assumes "ptr_ok P g" "maxMemory g \<le> 0" "vals_ok P g" "no_empty (kv P g)"
    and ps: "\<forall>p \<in> set ps. \<not> is_nan (fst p)" and one: "za_incr opts \<Longrightarrow> length ps = 1"
  shows "refines P db key (zsetOp (zaddSpec opts ps)) g (doKey P key (\<lambda>i g. zaddTask P db key opts ps i (getColl P i g db key TypeZSet)) g)"
proof -
  define T where "T = (\<lambda>i look. let (r, g) = zaddTask P db key opts ps i look in ((r, ()), g))"
  have T: "fst (fst (T i look)) = fst (zaddTask P db key opts ps i look)" "snd (T i look) = snd (zaddTask P db key opts ps i look)" for i look
    by (simp_all add: T_def split_beta)
  have "refines P db key (zsetOp (zaddSpec opts ps)) g
      (fst (fst (doKey P key (\<lambda>i g. T i (getColl P i g db key TypeZSet)) g)), snd (doKey P key (\<lambda>i g. T i (getColl P i g db key TypeZSet)) g))"
  proof (rule coll_task_refines [OF assms(1-4) asZSet_type], goal_cases)
    case (1 i g1)
    obtain r z where l: "zadd_loop (PS P) opts ps zaddStart (NewZSet (PS P)) = (r, z)" by (rule prod.exhaust)
    note R = zadd_run [OF NewZSet_map(2) ps one l]
    show ?case
      using 1 R(2-4) unfolding T zaddTask_def
      by (cases "za_incr opts"; cases "0 < z_added r"; cases "z_processed r") (auto simp: l zaddReply_def kv_storeColl Let_def)
  next
    case (2 i g1)
    show ?case by (simp add: T zaddTask_def)
  next
    case (3 i a g1 m x)
    then obtain z0 where z0: "Val (ents g1 a) = VZSet z0" "zset_inv (PS P) z0" "m = zm z0" by (auto elim: asZSet_Some)
    obtain r z where l: "zadd_loop (PS P) opts ps zaddStart z0 = (r, z)" by (rule prod.exhaust)
    note R = zadd_run [OF z0(2) ps one l]
    have "zm z \<noteq> Map.empty" using R(5) 3(6) z0 by auto
    then show ?case
      using 3(1,2,7-9) R(2,3) z0 unfolding T zaddTask_def
      by (cases "za_incr opts"; cases "0 < z_added r"; cases "z_processed r"; cases "z_nan r") (auto simp: l zaddReply_def Let_def)
  qed
  then show ?thesis by (simp add: T_def doKey_def split_beta Let_def)
qed

lemma cmdZAdd_refines:
  assumes "ptr_ok P g" "maxMemory g \<le> 0" "vals_ok P g" "no_empty (kv P g)"
    and a: "zaddFlags (drop 2 args) noZaddOpts = Inr (opts, rest)" "rest \<noteq> []" "even (length rest)" "za_incr opts \<Longrightarrow> length rest = 2"
      "zaddPairs rest = Some ps"
  shows "refines P db (args ! 1) (zsetOp (zaddSpec opts ps)) g (cmdZAdd P db args g)"
proof -
  have "length ps = length rest div 2" using a(5)
    by (induction rest arbitrary: ps rule: zaddPairs.induct) (auto split: option.splits)
  then have "za_incr opts \<Longrightarrow> length ps = 1" using a(4) by simp
  then have "refines P db (args ! 1) (zsetOp (zaddSpec opts ps)) g
      (doKey P (args ! 1) (\<lambda>i g. zaddTask P db (args ! 1) opts ps i (getColl P i g db (args ! 1) TypeZSet)) g)"
    by (rule zaddTask_refines [OF assms(1-4) zaddPairs_not_nan [OF a(5)]])
  then show ?thesis using a by (cases "za_incr opts") (simp_all add: cmdZAdd_def even_iff_mod_2_eq_zero Let_def)
qed

lemma cmdZIncrBy_refines:
  assumes "ptr_ok P g" "maxMemory g \<le> 0" "vals_ok P g" "no_empty (kv P g)" and d: "parseFloat (args ! 2) = Some delta"
  shows "refines P db (args ! 1) (zsetOp (zincrSpec (args ! 3) delta)) g (cmdZIncrBy P db args g)"
proof -
  let ?key = "args ! 1" and ?m = "args ! 3"
  define T where "T = (\<lambda>i look. let (r, g) = zincrTask P db ?key ?m delta i look in ((r, ()), g))"
  have T: "fst (fst (T i look)) = fst (zincrTask P db ?key ?m delta i look)" "snd (T i look) = snd (zincrTask P db ?key ?m delta i look)" for i look
    by (simp_all add: T_def split_beta)
  have add: "zm (snd (ZSetAdd (PS P) z mem s)) = zput (zm z) mem s" if "zset_inv (PS P) z" "\<not> is_nan s" for z mem s
    using zk.ZSetAdd_map(2) [OF that] .
  have "refines P db ?key (zsetOp (zincrSpec ?m delta)) g
      (fst (fst (doKey P ?key (\<lambda>i g. T i (getColl P i g db ?key TypeZSet)) g)), snd (doKey P ?key (\<lambda>i g. T i (getColl P i g db ?key TypeZSet)) g))"
  proof (rule coll_task_refines [OF assms(1-4) asZSet_type], goal_cases)
    case (1 i g1)
    then show ?case unfolding T zincrTask_def
      by (auto simp: zincrSpec_def add kv_storeColl Let_def)
  next
    case (2 i g1)
    show ?case by (simp add: T zincrTask_def)
  next
    case (3 i a g1 m x)
    then obtain z0 where z0: "Val (ents g1 a) = VZSet z0" "zset_inv (PS P) z0" "m = zm z0" by (auto elim: asZSet_Some)
    then show ?case
      using 3(1,2,6-9) unfolding T zincrTask_def by (auto simp: zincrSpec_def add ZSetScore_def Let_def)
  qed
  then show ?thesis using d by (simp add: T_def cmdZIncrBy_def doKey_def split_beta Let_def)
qed

lemma zremCmd_refines:
  assumes "ptr_ok P g" "maxMemory g \<le> 0" "vals_ok P g" "no_empty (kv P g)"
    and f: "\<And>z. zset_inv (PS P) z \<Longrightarrow> zset_inv (PS P) (snd (f z)) \<and> zm (snd (f z)) = zm z |` (- K (zm z)) \<and>
      fst (f z) = int (card (K (zm z) \<inter> dom (zm z)))"
  shows "refines P db key (zdelOp K) g (zremCmd P db key ev f g)"
proof -
  have "refines P db key (zdelOp K) g
    (fst (fst (doKey P key (\<lambda>i g. zremTask P db key f i (getColl P i g db key TypeZSet)) g)),
     snd (doKey P key (\<lambda>i g. zremTask P db key f i (getColl P i g db key TypeZSet)) g))"
    unfolding zdelOp_def
  proof (rule coll_task_refines [where T = "zremTask P db key f", OF assms(1-4) asZSet_type], goal_cases)
    case (1 i g1)
    then show ?case by (simp add: zremTask_def)
  next
    case (2 i g1)
    show ?case by (simp add: zremTask_def)
  next
    case (3 i a g1 m x)
    then obtain z where z: "Val (ents g1 a) = VZSet z" "zset_inv (PS P) z" "m = zm z" by (auto elim: asZSet_Some)
    note F = f [OF z(2)]
    note e = zset_empty_iff [of "snd (f z)"]
    show ?case
      using 3(1,2,7-9) z F e
      by (cases "f z") (auto simp: zremTask_def zshrunk_def Let_def)
  qed
  then show ?thesis by (simp add: refines_def zremCmd_def split_beta Let_def)
qed

lemma cmdZRem_refines:
  assumes "ptr_ok P g" "maxMemory g \<le> 0" "vals_ok P g" "no_empty (kv P g)"
  shows "refines P db (args ! 1) (zdelOp (\<lambda>m. set (drop 2 args))) g (cmdZRem P db args g)"
  unfolding cmdZRem_def by (rule zremCmd_refines [OF assms]) (simp add: zk.zrem_loop_spec)

text \<open>The members a window of ranks removes, over the sorted list of the map.\<close>

lemma removeWindow_refines:
  assumes z: "zset_inv (PS P) z" and w: "0 \<le> a" "0 \<le> b" "b \<le> int (length (sl_all (PS P) (sl z)))"
    and K: "K \<inter> dom (zm z) = Member ` set (segment (nat a) (nat b) (sl_all (PS P) (sl z)))"
  shows "zset_inv (PS P) (snd (removeWindow (PS P) (if b < a then (0, 0) else (a, b)) z)) \<and>
    zm (snd (removeWindow (PS P) (if b < a then (0, 0) else (a, b)) z)) = zm z |` (- K) \<and>
    fst (removeWindow (PS P) (if b < a then (0, 0) else (a, b)) z) = int (card (K \<inter> dom (zm z)))"
proof -
  have r: "zm z |` (- K) = zm z |` (- (K \<inter> dom (zm z)))"
  proof
    fix x show "(zm z |` (- K)) x = (zm z |` (- (K \<inter> dom (zm z)))) x" by (cases "zm z x") (auto simp: restrict_map_def dom_def)
  qed
  have "segment (nat a) (nat b) xs = segment 0 0 xs" if "b < a" for xs :: "zelem list" using that by (simp add: segment_def)
  then show ?thesis
    using zk.removeWindow_map [OF z, of "nat a" "nat b"] zk.removeWindow_map [OF z, of 0 0] w K unfolding r by auto
qed

lemma members_in: "zset_inv (PS P) z \<Longrightarrow> Member ` set (filter (\<lambda>e. Q (Score e)) (sl_all (PS P) (sl z))) = {k. \<exists>s. zm z k = Some s \<and> Q s}"
proof (intro set_eqI iffI)
  assume z: "zset_inv (PS P) z"
  show "k \<in> {k. \<exists>s. zm z k = Some s \<and> Q s}" if "k \<in> Member ` set (filter (\<lambda>e. Q (Score e)) (sl_all (PS P) (sl z)))" for k
    using that zset_inv_mem [OF z] by auto
  fix k
  assume "k \<in> {k. \<exists>s. zm z k = Some s \<and> Q s}"
  then obtain s where "zm z k = Some s" "Q s" by blast
  then have "\<lparr>Score = s, Member = k\<rparr> \<in> set (filter (\<lambda>e. Q (Score e)) (sl_all (PS P) (sl z)))" using zset_inv_mem [OF z] by simp
  then show "k \<in> Member ` set (filter (\<lambda>e. Q (Score e)) (sl_all (PS P) (sl z)))" by (force simp: image_iff)
qed

lemma zrem_windows_refine:
  assumes "ptr_ok P g" "maxMemory g \<le> 0" "vals_ok P g" "no_empty (kv P g)"
  shows "parseScoreBound (args ! 2) = Some lo \<Longrightarrow> parseScoreBound (args ! 3) = Some hi \<Longrightarrow>
      refines P db (args ! 1) (zdelOp (scored lo hi)) g (cmdZRemRangeByScore P db args g)"
    "parseIntStrict (args ! 2) = Some start \<Longrightarrow> parseIntStrict (args ! 3) = Some stop \<Longrightarrow>
      refines P db (args ! 1) (zdelOp (ranked start stop)) g (cmdZRemRangeByRank P db args g)"
proof -
  assume p: "parseScoreBound (args ! 2) = Some lo" "parseScoreBound (args ! 3) = Some hi"
  note n = p [THEN parseScoreBound_not_nan]
  have "refines P db (args ! 1) (zdelOp (scored lo hi)) g (zRemRange P db (args ! 1) ''zremrangebyscore'' (scoreLoc (PS P) lo hi) g)"
    unfolding zRemRange_def
  proof (rule zremCmd_refines [OF assms])
    fix z
    assume z: "zset_inv (PS P) z"
    obtain a b where ab: "scoreLoc (PS P) lo hi z = (a, b)" by (rule prod.exhaust)
    note r = zk.scoreLoc_range [OF z n ab]
    have "scored lo hi (zm z) \<inter> dom (zm z) = Member ` set (segment (nat a) (nat b) (sl_all (PS P) (sl z)))"
      unfolding zk.score_slice [OF z n ab] members_in [OF z] scored_def by auto
    from removeWindow_refines [OF z r(1,3,4) this]
    show "zset_inv (PS P) (snd (let (lo, hi) = scoreLoc (PS P) lo hi z in removeWindow (PS P) (if hi < lo then (0, 0) else (lo, hi)) z)) \<and>
      zm (snd (let (lo, hi) = scoreLoc (PS P) lo hi z in removeWindow (PS P) (if hi < lo then (0, 0) else (lo, hi)) z)) = zm z |` (- scored lo hi (zm z)) \<and>
      fst (let (lo, hi) = scoreLoc (PS P) lo hi z in removeWindow (PS P) (if hi < lo then (0, 0) else (lo, hi)) z) = int (card (scored lo hi (zm z) \<inter> dom (zm z)))"
      by (simp add: ab)
  qed
  then show "refines P db (args ! 1) (zdelOp (scored lo hi)) g (cmdZRemRangeByScore P db args g)" using p by (simp add: cmdZRemRangeByScore_def)
next
  assume p: "parseIntStrict (args ! 2) = Some start" "parseIntStrict (args ! 3) = Some stop"
  have "refines P db (args ! 1) (zdelOp (ranked start stop)) g
    (zremCmd P db (args ! 1) ''zremrangebyrank'' (\<lambda>z. removeWindow (PS P) (zwindow (PS P) (ByIndex start stop) z) z) g)"
  proof (rule zremCmd_refines [OF assms])
    fix z
    assume z: "zset_inv (PS P) z"
    let ?all = "sl_all (PS P) (sl z)"
    obtain a b where ab: "zwindow (PS P) (ByIndex start stop) z = (a, b)" "0 \<le> a" "a \<le> b" "b \<le> int (length ?all)"
      using zk.zwindow_index [OF z] by blast
    have "listing (zm z) es \<longleftrightarrow> es = ?all" for es using zk.listing_all [OF z] zk.listing_unique [OF z] by blast
    then have "ranked start stop (zm z) = Member ` set (ranks start stop ?all)" by (simp add: ranked_def)
    moreover have "Member ` set (segment (nat a) (nat b) ?all) \<subseteq> dom (zm z)"
      using zk.removeWindow_map(3) [OF z, of "nat a" "nat b"] ab(2-4) by simp
    ultimately have "ranked start stop (zm z) \<inter> dom (zm z) = Member ` set (segment (nat a) (nat b) ?all)"
      using zk.zwindow_ranks [OF z ab(1)] by auto
    from removeWindow_refines [OF z ab(2) _ ab(4) this]
    show "zset_inv (PS P) (snd (removeWindow (PS P) (zwindow (PS P) (ByIndex start stop) z) z)) \<and>
      zm (snd (removeWindow (PS P) (zwindow (PS P) (ByIndex start stop) z) z)) = zm z |` (- ranked start stop (zm z)) \<and>
      fst (removeWindow (PS P) (zwindow (PS P) (ByIndex start stop) z) z) = int (card (ranked start stop (zm z) \<inter> dom (zm z)))"
      using ab by simp
  qed
  then show "refines P db (args ! 1) (zdelOp (ranked start stop)) g (cmdZRemRangeByRank P db args g)" using p by (simp add: cmdZRemRangeByRank_def)
qed

text \<open>Ranges reply a part of the list and change nothing.\<close>

lemma zread_list:
  assumes "ptr_ok P g" "maxMemory g \<le> 0" "vals_ok P g" "no_empty (kv P g)"
    and k: "kv P g db key = Some (AZSet m, x)" "listing m es"
    and f: "\<And>z. zset_inv (PS P) z \<Longrightarrow> zm z = m \<Longrightarrow> sl_all (PS P) (sl z) = es \<Longrightarrow> f z = r"
  shows "fst (zread P db key none f g) = r" "kv P (snd (zread P db key none f g)) = kv P g"
proof -
  have "fst (zread P db key none f g) = r \<and> kv P (snd (zread P db key none f g)) = kv P g"
    unfolding zread_def
  proof (rule doKey_coll [where Q = "\<lambda>v K. v = r \<and> K = kv P g", OF assms(1-4)], goal_cases)
    case (1 i g1)
    then show ?case using k by simp
  next
    case (2 i g1 v x)
    then show ?case using k by (cases v) auto
  next
    case (3 i a g1)
    then obtain z where z: "Val (ents g1 a) = VZSet z" "zset_inv (PS P) z" by (auto elim: zset_cases)
    then have m: "zm z = m" using 3(7) k by simp
    then show ?case using f [OF z(2) m zk.listing_unique [OF z(2), symmetric]] z 3 k by simp
  qed
  then show "fst (zread P db key none f g) = r" "kv P (snd (zread P db key none f g)) = kv P g" by blast+
qed

lemma zrangeOn_spec:
  assumes "ptr_ok P g" "maxMemory g \<le> 0" "vals_ok P g" "no_empty (kv P g)"
    and k: "kv P g db key = Some (AZSet m, x)" "listing m es"
  shows "zrangeOn P proto db key (ByIndex start stop) rv' lmt ws g = out \<Longrightarrow>
      fst out = RArr (zElems ws proto (limited lmt ((if rv' then rev else id) (ranks start stop es)))) \<and> kv P (snd out) = kv P g"
    "\<not> is_nan (sb_val lo) \<Longrightarrow> \<not> is_nan (sb_val hi) \<Longrightarrow> zrangeOn P proto db key (ByScore lo hi) rv' lmt ws g = out \<Longrightarrow>
      fst out = RArr (zElems ws proto (limited lmt ((if rv' then rev else id) (filter (\<lambda>e. scoreIn lo hi (Score e)) es)))) \<and> kv P (snd out) = kv P g"
proof -
  assume o: "zrangeOn P proto db key (ByIndex start stop) rv' lmt ws g = out"
  have "(let (lo, hi) = zwindow (PS P) (ByIndex start stop) z in zrangeEmit (PS P) z lo hi rv' lmt ws proto) =
      RArr (zElems ws proto (limited lmt ((if rv' then rev else id) (ranks start stop es))))"
    if z: "zset_inv (PS P) z" "sl_all (PS P) (sl z) = es" for z
  proof -
    obtain a b where ab: "zwindow (PS P) (ByIndex start stop) z = (a, b)" "0 \<le> a" "a \<le> b" "b \<le> int (length (sl_all (PS P) (sl z)))"
      using zk.zwindow_index [OF z(1)] by blast
    show ?thesis
      using zk.zrangeEmit_spec [of "nat b" z "nat a"] ab(2-4) zk.zwindow_ranks [OF z(1) ab(1)] z(2) by (simp add: ab(1))
  qed
  from zread_list [OF assms this] o
  show "fst out = RArr (zElems ws proto (limited lmt ((if rv' then rev else id) (ranks start stop es)))) \<and> kv P (snd out) = kv P g"
    by (auto simp: zrangeOn_def)
next
  assume n: "\<not> is_nan (sb_val lo)" "\<not> is_nan (sb_val hi)" and o: "zrangeOn P proto db key (ByScore lo hi) rv' lmt ws g = out"
  have "(let (a, b) = zwindow (PS P) (ByScore lo hi) z in zrangeEmit (PS P) z a b rv' lmt ws proto) =
      RArr (zElems ws proto (limited lmt ((if rv' then rev else id) (filter (\<lambda>e. scoreIn lo hi (Score e)) es))))"
    if z: "zset_inv (PS P) z" "sl_all (PS P) (sl z) = es" for z
  proof -
    obtain a b where ab: "scoreLoc (PS P) lo hi z = (a, b)" by (rule prod.exhaust)
    note r = zk.scoreLoc_range [OF z(1) n ab]
    show ?thesis
      using zk.zrangeEmit_spec [of "nat b" z "nat a"] r zk.score_slice [OF z(1) n ab] z(2) by (simp add: zwindow_def ab)
  qed
  from zread_list [OF assms this] o
  show "fst out = RArr (zElems ws proto (limited lmt ((if rv' then rev else id) (filter (\<lambda>e. scoreIn lo hi (Score e)) es)))) \<and> kv P (snd out) = kv P g"
    by (auto simp: zrangeOn_def)
qed

text \<open>ZRANGE by position and by score, with its flags; under REV the bounds of a score range are swapped.\<close>

lemma cmdZRange_spec:
  assumes "ptr_ok P g" "maxMemory g \<le> 0" "vals_ok P g" "no_empty (kv P g)"
    and k: "kv P g db (args ! 1) = Some (AZSet m, x)" "listing m es"
    and f: "zrangeFlags (drop 4 args) noRangeOpts = Inr opts" "\<not> hasByLex opts"
    and o: "cmdZRange P proto db args g = out"
  shows "\<not> hasByScore opts \<Longrightarrow> limitOpt opts = None \<Longrightarrow>
      parseIntStrict (args ! 2) = Some start \<Longrightarrow> parseIntStrict (args ! 3) = Some stop \<Longrightarrow>
      fst out = RArr (zElems (withScores opts) proto ((if zrev opts then rev else id) (ranks start stop es))) \<and> kv P (snd out) = kv P g"
    "hasByScore opts \<Longrightarrow>
      parseScoreBound (args ! (if zrev opts then 3 else 2)) = Some lo \<Longrightarrow> parseScoreBound (args ! (if zrev opts then 2 else 3)) = Some hi \<Longrightarrow>
      fst out = RArr (zElems (withScores opts) proto (limited (limitOpt opts)
        ((if zrev opts then rev else id) (filter (\<lambda>e. scoreIn lo hi (Score e)) es)))) \<and> kv P (snd out) = kv P g"
proof -
  assume a: "\<not> hasByScore opts" "limitOpt opts = None" "parseIntStrict (args ! 2) = Some start" "parseIntStrict (args ! 3) = Some stop"
  then have "zrangeOn P proto db (args ! 1) (ByIndex start stop) (zrev opts) None (withScores opts) g = out"
    using o f by (simp add: cmdZRange_def parseZRangeBounds_def)
  from zrangeOn_spec(1) [OF assms(1-6) this]
  show "fst out = RArr (zElems (withScores opts) proto ((if zrev opts then rev else id) (ranks start stop es))) \<and> kv P (snd out) = kv P g"
    by (simp add: limited_def)
next
  assume a: "hasByScore opts" and p: "parseScoreBound (args ! (if zrev opts then 3 else 2)) = Some lo"
    "parseScoreBound (args ! (if zrev opts then 2 else 3)) = Some hi"
  then have "zrangeOn P proto db (args ! 1) (ByScore lo hi) (zrev opts) (limitOpt opts) (withScores opts) g = out"
    using o f by (cases "zrev opts") (simp_all add: cmdZRange_def parseZRangeBounds_def)
  from zrangeOn_spec(2) [OF assms(1-6) p [THEN parseScoreBound_not_nan] this]
  show "fst out = RArr (zElems (withScores opts) proto (limited (limitOpt opts)
      ((if zrev opts then rev else id) (filter (\<lambda>e. scoreIn lo hi (Score e)) es)))) \<and> kv P (snd out) = kv P g" .
qed

lemma ZSetLen_all_eq: "zset_inv (PS P) z \<Longrightarrow> ZSetLen z = length (sl_all (PS P) (sl z))"
  by (rule zk.ZSetLen_all)

lemma rev_segment:
  assumes "0 \<le> l" "l \<le> h" "h \<le> int (length xs)"
  shows "rev (segment (nat (int (length xs) - h)) (nat (int (length xs) - l)) xs) = segment (nat l) (nat h) (rev xs)"
proof -
  have n: "nat (int (length xs) - h) = length xs - nat h" "nat (int (length xs) - l) = length xs - nat l" "nat h \<le> length xs" "nat l \<le> nat h"
    using assms by linarith+
  have "segment (nat l) (nat h) (rev xs) = rev (drop (length xs - nat h) (take (length xs - nat l) xs))"
    unfolding segment_def drop_rev take_rev using n(3,4) by simp
  then show ?thesis unfolding n(1,2) drop_take segment_def by simp
qed

lemma zpop_loop_len: "zset_inv (PS P) z \<Longrightarrow> n \<le> ZSetLen z \<Longrightarrow> ZSetLen (snd (zpop_loop (PS P) fromMin n z out)) = ZSetLen z - n"
proof (induction n arbitrary: z out)
  case (Suc n)
  let ?all = "sl_all (PS P) (sl z)" and ?e = "zat (PS P) z (if fromMin then 0 else int (ZSetLen z) - 1)"
  let ?z = "snd (ZSetRemove (PS P) z (Member ?e))"
  let ?i = "if fromMin then 0 else length ?all - 1"
  have l: "ZSetLen z = length ?all" by (rule ZSetLen_all_eq [OF Suc.prems(1)])
  have i: "?i < length ?all" using Suc.prems(2) l by auto
  have e: "?e = ?all ! ?i" using zk.zat_nth [OF i] i l by (auto simp: of_nat_diff)
  have "zm z (Member ?e) \<noteq> None" using zset_inv_mem [OF Suc.prems(1), of ?e] i unfolding e by (metis nth_mem option.distinct(1))
  then have "ZSetLen ?z = ZSetLen z - 1"
    using zk.ZSetRemove_spec(2) [OF Suc.prems(1), of "Member ?e"] zset_finite [OF Suc.prems(1)] by (simp add: ZSetLen_def domIff)
  then show ?case using Suc.IH [OF zk.ZSetRemove_spec(3) [OF Suc.prems(1), of "Member ?e"], of "out @ [?e]"] Suc.prems(2) by (simp add: Let_def)
qed simp

lemma zrevrange_spec:
  assumes "ptr_ok P g" "maxMemory g \<le> 0" "vals_ok P g" "no_empty (kv P g)"
    and k: "kv P g db (args ! 1) = Some (AZSet m, x)" "listing m es"
    and a: "\<forall>a \<in> set (drop 4 args). lowerASCII a = ''withscores''" "parseIntStrict (args ! 2) = Some start" "parseIntStrict (args ! 3) = Some stop"
  shows "fst (cmdZRevRange P proto db args g) = RArr (zElems (drop 4 args \<noteq> []) proto (ranks start stop (rev es)))"
    "kv P (snd (cmdZRevRange P proto db args g)) = kv P g"
proof -
  have "revRangeReply (PS P) proto start stop ws z = RArr (zElems ws proto (ranks start stop (rev es)))"
    if z: "zset_inv (PS P) z" "zm z = m" "sl_all (PS P) (sl z) = es" for z ws
  proof -
    let ?n = "int (length es)"
    let ?lo = "max 0 (if start < 0 then start + ?n else start)" and ?s1 = "if stop < 0 then stop + ?n else stop"
    let ?hi = "min ?n (?s1 + 1)"
    have nd: "nat (h - l) = nat h - nat l" if "0 \<le> l" for h l :: int using that by linarith
    have r: "ranks start stop (rev es) = segment (nat ?lo) (nat ?hi) (rev es)"
      unfolding ranks_def segment_def Let_def length_rev by (subst nd) simp_all
    have "s < l \<or> n \<le> l \<or> s < 0 \<longleftrightarrow> min n (s + 1) \<le> l" if "0 \<le> l" for s l n :: int using that by auto
    then have c: "?s1 < ?lo \<or> ?n \<le> ?lo \<or> ?s1 < 0 \<longleftrightarrow> ?hi \<le> ?lo" by simp
    show ?thesis
    proof (cases "?hi \<le> ?lo")
      case True
      then have "segment (nat ?lo) (nat ?hi) (rev es) = []" by (simp add: segment_def)
      then show ?thesis using c True r ZSetLen_all_eq [OF z(1)] z(3) by (simp add: revRangeReply_def Let_def zElems_def)
    next
      case False
      have e: "(if ?n \<le> ?s1 then ?n - 1 else ?s1) = ?hi - 1" by auto
      have hl: "0 \<le> ?lo" "?lo < ?hi" "?hi \<le> ?n" using False by auto
      have "revRangeReply (PS P) proto start stop ws z = zrangeEmit (PS P) z (?n - ?hi) (?n - ?lo) True None ws proto"
        using c False ZSetLen_all_eq [OF z(1)] z(3) e by (simp add: revRangeReply_def Let_def)
      also have "\<dots> = zrangeEmit (PS P) z (int (nat (?n - ?hi))) (int (nat (?n - ?lo))) True None ws proto" using hl by simp
      also have "\<dots> = RArr (zElems ws proto (rev (segment (nat (?n - ?hi)) (nat (?n - ?lo)) es)))"
        by (subst zk.zrangeEmit_spec) (use hl z(3) in \<open>simp_all add: limited_def\<close>)
      also have "rev (segment (nat (?n - ?hi)) (nat (?n - ?lo)) es) = segment (nat ?lo) (nat ?hi) (rev es)"
        by (rule rev_segment) (use hl in simp_all)
      finally show ?thesis using r by simp
    qed
  qed
  from zread_list [OF assms(1-6) this]
  show "fst (cmdZRevRange P proto db args g) = RArr (zElems (drop 4 args \<noteq> []) proto (ranks start stop (rev es)))"
    "kv P (snd (cmdZRevRange P proto db args g)) = kv P g"
    using a by (simp_all add: cmdZRevRange_def)
qed

lemma zset_read_spec:
  assumes "ptr_ok P g" "maxMemory g \<le> 0" "vals_ok P g" "no_empty (kv P g)"
    and k: "kv P g db (args ! 1) = Some (AZSet m, x)" "listing m es"
  shows "fst (cmdZCard P db args g) = RInt (int (length es))"
    "fst (cmdZScore P db args g) = optDouble (m (args ! 2))"
    "parseScoreBound (args ! 2) = Some lo \<Longrightarrow> parseScoreBound (args ! 3) = Some hi \<Longrightarrow>
       fst (cmdZCount P db args g) = RInt (int (length (filter (\<lambda>e. scoreIn lo hi (Score e)) es)))"
    "length args = 3 \<Longrightarrow> i < length es \<Longrightarrow> Member (es ! i) = args ! 2 \<Longrightarrow>
       fst (cmdZRank P db args g) = RInt (int i) \<and> fst (cmdZRevRank P db args g) = RInt (int (length es) - 1 - int i)"
proof -
  note Z = zread_list [OF assms]
  show "fst (cmdZCard P db args g) = RInt (int (length es))"
    unfolding cmdZCard_def by (rule Z(1)) (simp add: ZSetLen_all_eq)
  show "fst (cmdZScore P db args g) = optDouble (m (args ! 2))"
    unfolding cmdZScore_def Let_def by (rule Z(1)) (simp add: ZSetScore_def)
  show "fst (cmdZCount P db args g) = RInt (int (length (filter (\<lambda>e. scoreIn lo hi (Score e)) es)))"
    if p: "parseScoreBound (args ! 2) = Some lo" "parseScoreBound (args ! 3) = Some hi"
  proof -
    note n = p [THEN parseScoreBound_not_nan]
    have "countReply (scoreLoc (PS P) lo hi z) = RInt (int (length (filter (\<lambda>e. scoreIn lo hi (Score e)) es)))"
      if z: "zset_inv (PS P) z" "zm z = m" "sl_all (PS P) (sl z) = es" for z
    proof -
      obtain a b where ab: "scoreLoc (PS P) lo hi z = (a, b)" by (rule prod.exhaust)
      note r = zk.scoreLoc_range [OF z(1) n ab]
      show ?thesis
        unfolding ab zk.score_slice [OF z(1) n ab, unfolded z(3), symmetric] using r z(3) by (simp add: countReply_def segment_def)
    qed
    from Z(1) [OF this] show ?thesis using p by (simp add: cmdZCount_def)
  qed
  show "fst (cmdZRank P db args g) = RInt (int i) \<and> fst (cmdZRevRank P db args g) = RInt (int (length es) - 1 - int i)"
    if "length args = 3" "i < length es" "Member (es ! i) = args ! 2"
  proof -
    have "rankReply (PS P) rv' False (args ! 2) z = RInt (if rv' then int (length es) - 1 - int i else int i)"
      if z: "zset_inv (PS P) z" "zm z = m" "sl_all (PS P) (sl z) = es" for z rv'
      using zk.ZSetRank_spec [OF z(1), of "args ! 2" i] \<open>i < length es\<close> \<open>Member (es ! i) = args ! 2\<close> z(3)
      by (simp add: rankReply_def ZSetLen_all_eq [OF z(1)])
    from Z(1) [OF this] show ?thesis using that by (simp add: cmdZRank_def cmdZRevRank_def zRankCmd_def)
  qed
qed

text \<open>Pops take a prefix of the list, or of its reverse.\<close>

lemma zpop_spec:
  fixes fromMin :: bool
  assumes "ptr_ok P g" "maxMemory g \<le> 0" "vals_ok P g" "no_empty (kv P g)"
    and k: "kv P g db (args ! 1) = Some (AZSet m, x)" "listing m es"
    and o: "zPopCmd fromMin P proto db args g = out"
  defines "es' \<equiv> (if fromMin then es else rev es)"
  shows "length args = 3 \<Longrightarrow> parseIntStrict (args ! 2) = Some c \<Longrightarrow> 0 \<le> c \<Longrightarrow>
      fst out = RArr (zElems True proto (take (nat c) es')) \<and> kv P (snd out) = kvupd (kv P g) db (args ! 1) (popped (nat c) es' m x)"
    "length args = 2 \<Longrightarrow>
      fst out = RArr [RBlob (Member (hd es')), if proto = 3 then RDouble (Score (hd es')) else RBlob (FormatDouble (Score (hd es')))] \<and>
      kv P (snd out) = kvupd (kv P g) db (args ! 1) (popped 1 es' m x)"
proof -
  let ?key = "args ! 1"
  let ?run = "\<lambda>cnt. doKey P ?key (\<lambda>i g. zpopTask P proto db ?key fromMin cnt i (getColl P i g db ?key TypeZSet)) g"
  let ?one = "RArr [RBlob (Member (hd es')), if proto = 3 then RDouble (Score (hd es')) else RBlob (FormatDouble (Score (hd es')))]"
  have run: "fst (fst (?run cnt)) = (case cnt of None \<Rightarrow> ?one | Some c \<Rightarrow> RArr (zElems True proto (take (nat c) es'))) \<and>
      kv P (snd (?run cnt)) = kvupd (kv P g) db ?key (popped (case cnt of None \<Rightarrow> 1 | Some c \<Rightarrow> nat c) es' m x)"
    if cnt: "case cnt of None \<Rightarrow> True | Some c \<Rightarrow> 0 \<le> c" for cnt
  proof (rule doKey_coll [where Q = "\<lambda>r K. fst r = _ \<and> K = _" and B = "zpopTask P proto db ?key fromMin cnt", OF assms(1-4)], goal_cases)
    case (1 i g1)
    then show ?case using k by simp
  next
    case (2 i g1 v y)
    then show ?case using k by (cases v) auto
  next
    case (3 i a g1)
    obtain z where z: "Val (ents g1 a) = VZSet z" "zset_inv (PS P) z" using 3 by (auto elim: zset_cases)
    have m: "zm z = m" and x: "ExpireAtMs (ents g1 a) = x" using 3(7) k z by simp_all
    have all: "sl_all (PS P) (sl z) = es" using zk.listing_unique [OF z(2)] k(2) m by simp
    let ?w = "case cnt of None \<Rightarrow> 1 | Some c \<Rightarrow> nat c"
    let ?n = "min ?w (length es)"
    have len: "ZSetLen z = length es" using ZSetLen_all_eq [OF z(2)] all by simp
    have ne: "es \<noteq> []" using 3(10) z zset_empty_iff [OF z(2)] len by auto
    obtain out z1 where l: "zpop_loop (PS P) fromMin ?n z [] = (out, z1)" by (rule prod.exhaust)
    have L: "out = take ?w es'" "zm z1 = m |` (- Member ` set (take ?w es'))" "zset_inv (PS P) z1"
      using zk.zpop_loop_spec [OF z(2), of ?n fromMin "[]"] zk.zpop_loop_inv [OF z(2), of fromMin ?n "[]"] l all m
      by (auto simp: es'_def min_def)
    have le: "length es' = length es" by (simp add: es'_def)
    have e: "ZSetLen z1 = 0 \<longleftrightarrow> length es' \<le> ?w"
    proof -
      have "ZSetLen z1 = length es - ?n" using zpop_loop_len [OF z(2), of ?n fromMin "[]"] l len by simp
      then show ?thesis unfolding le by auto
    qed
    show ?case
    proof (cases "?w = 0")
      case True
      then obtain c where c: "cnt = Some c" "c = 0" using cnt by (cases cnt) auto
      have "m |` UNIV = m" by (simp add: restrict_map_def)
      then show ?thesis using 3 k z ne x m by (simp add: zpopTask_def c popped_def zElems_def Let_def es'_def)
    next
      case False
      have mn: "min (nat (case cnt of None \<Rightarrow> 1 | Some c \<Rightarrow> c)) (ZSetLen z) = ?n" using len by (simp split: option.split)
      have w0: "(case cnt of None \<Rightarrow> 1 | Some c \<Rightarrow> c) \<noteq> 0" using False cnt by (cases cnt) auto
      have hd: "cnt = None \<Longrightarrow> out ! 0 = hd es'" using L(1) ne hd_conv_nth [of es'] by (auto simp: es'_def hd_conv_nth)
      note K = kv_setVal [OF 3(2,5)] kv_update [OF 3(2,5)]
      show ?thesis
        using 3(1,3,4,6) w0 mn l L(1,2) e hd x K
        by (cases cnt) (auto simp: zpopTask_def z zshrunk_def popped_def Let_def simp del: zpop_loop.simps)
    qed
  qed
  show "fst out = RArr (zElems True proto (take (nat c) es')) \<and> kv P (snd out) = kvupd (kv P g) db (args ! 1) (popped (nat c) es' m x)"
    if "length args = 3" "parseIntStrict (args ! 2) = Some c" "0 \<le> c"
    using run [of "Some c"] that o by (auto simp: zPopCmd_def split_beta Let_def)
  show "fst out = ?one \<and> kv P (snd out) = kvupd (kv P g) db (args ! 1) (popped 1 es' m x)" if "length args = 2"
    using run [of None] that o by (auto simp: zPopCmd_def split_beta Let_def)
qed

end

end
