(* ===== verification/Example_ZSet.thy ===== *)
theory Example_ZSet
  imports Example_Persist Sorted_Set_Spec
begin

text \<open>An engine that holds one sorted set of two members, for the witnesses of the sorted set properties.\<close>

definition zAB :: "zelem list zset" where
  "zAB = snd (ZSetAdd (PS P0) (snd (ZSetAdd (PS P0) (NewZSet (PS P0)) ''a'' 0)) ''b'' 1)"

definition entZ :: "(string list, zelem list) entry" where
  "entZ = \<lparr>Val = VZSet zAB, ExpireAtMs = 0, ExpGen = 0, Version = 0, memBytes = 0\<rparr>"

definition gZ :: "(string list, zelem list, (string \<times> addr) list, expItem list, tombKey list, (tombKey \<times> nat) list) st" where
  "gZ = loadEntry P0 0 0 ''z'' entZ g0"

definition mAB :: "string \<rightharpoonup> float64" where
  "mAB = [''a'' \<mapsto> 0, ''b'' \<mapsto> 1]"

definition esAB :: "zelem list" where
  "esAB = [\<lparr>Score = 0, Member = ''a''\<rparr>, \<lparr>Score = 1, Member = ''b''\<rparr>]"

lemma P0_zskip: "zskip (PS P0)"
  using P0_laws by (simp add: pluto_laws_def)

lemma zAB_inv: "zset_inv (PS P0) zAB" "zm zAB = mAB"
proof -
  have n: "\<not> is_nan 0" "\<not> is_nan 1" by (simp_all add: is_nan_def fmag_def)
  note A = zskip.ZSetAdd_map [OF P0_zskip pluto_laws.NewZSet_map(2) [OF P0_laws] n(1), of "''a''"]
  note B = zskip.ZSetAdd_map [OF P0_zskip A(3) n(2), of "''b''"]
  show "zset_inv (PS P0) zAB" using B(3) by (simp add: zAB_def)
  show "zm zAB = mAB" using A(2) B(2) pluto_laws.NewZSet_map(1) [OF P0_laws] by (simp add: zAB_def mAB_def zput_def)
qed

lemma esAB_listing: "listing mAB esAB"
proof -
  have s: "flt 0 1" by (simp add: flt_def fkey_def is_nan_def fmag_def fneg_def)
  have "set esAB = {e. mAB (Member e) = Some (Score e)}"
  proof (intro set_eqI)
    show "e \<in> set esAB \<longleftrightarrow> e \<in> {e. mAB (Member e) = Some (Score e)}" for e by (cases e) (auto simp: esAB_def mAB_def)
  qed
  then show ?thesis using s by (simp add: listing_def) (simp add: esAB_def cmpZElem_def)
qed

lemma entZ_ok: "value_ok P0 (Val entZ)" "0 \<le> ExpireAtMs entZ" "\<not> due entZ 1000" "abse P0 entZ = (AZSet mAB, 0)"
  using zAB_inv by (simp_all add: entZ_def due_def abse_def value_ok_def)

lemma gZ_loadable: "loadable P0 0 16 1000 gZ"
  using pluto_laws.loadEntry_step(3) [OF P0_laws g0_loadable _ entZ_ok(1-3), of 0 "''z''"] by (simp add: gZ_def)

lemma gZ_inv: "db_inv P0 0 gZ" "maxMemory gZ \<le> 0"
  using gZ_loadable by (simp_all add: loadable_def)

lemma gZ_kv: "kv P0 gZ d x = (if d = 0 \<and> x = ''z'' then Some (AZSet mAB, 0) else None)"
  using pluto_laws.loadEntry_step(2) [OF P0_laws g0_loadable _ entZ_ok(1-3), of 0 "''z''"] entZ_ok(4) by (simp add: gZ_def kvupd_def)

lemma gZ_no_empty: "no_empty (kv P0 gZ)"
  using gZ_kv by (auto simp: no_empty_def mAB_def split: if_splits)

end
