(* ===== verification/Push_Queue.thy ===== *)
theory Push_Queue
  imports Ultima_Prelude
begin

text \<open>
  The outbound queue of a subscribed connection (\<^verbatim>\<open>src/lib/pushq/pushq.go\<close>): a FIFO over a ring
  buffer that doubles when full, with a byte ceiling that latches when it is exceeded.

  The definitions follow the source, ring arithmetic and the moving of the ring to index 0
  included; \<open>zero\<close> is the zero element of the item type. \<open>contents\<close> reads the ring as a list, and
  \<open>q_inv\<close> is the representation invariant; the operations refine those of a bounded FIFO, and the
  locale \<open>fifo\<close> proves once what every FIFO does over a run.

  \<^verbatim>\<open>Dequeue\<close> blocks on a channel of capacity one that producers signal after they release the
  lock. The step relation \<open>qstep\<close> interleaves any number of producers with the one consumer at
  that granularity: no wake-up is lost.
\<close>

section \<open>The queue\<close>

record 'a q =
  q_items :: "'a list"
  q_sizes :: "int list"
  q_head :: nat
  q_count :: nat
  q_bytes :: int
  q_cap :: int
  q_closed :: bool
  q_overflow :: bool

definition DefaultCapBytes :: int where "DefaultCapBytes = 32 * 2 ^ 20"
definition initItems :: nat where "initItems = 64"

definition NewQ :: "int \<Rightarrow> 'a q" where
  "NewQ capBytes =
     \<lparr>q_items = [], q_sizes = [], q_head = 0, q_count = 0, q_bytes = 0,
      q_cap = (if capBytes \<le> 0 then DefaultCapBytes else capBytes), q_closed = False, q_overflow = False\<rparr>"

text \<open>\<open>idx := q.head + i; if idx >= len(q.items) { idx -= len(q.items) }\<close>\<close>

definition ringIdx :: "'a q \<Rightarrow> nat \<Rightarrow> nat" where
  "ringIdx q i = (let j = q_head q + i in if length (q_items q) \<le> j then j - length (q_items q) else j)"

definition growLocked :: "'a \<Rightarrow> 'a q \<Rightarrow> 'a q" where
  "growLocked zero q =
     (let n = 2 * length (q_items q);
          n = (if n < initItems then initItems else n);
          (its, szs) = fold (\<lambda>i (its, szs). (its[i := q_items q ! ringIdx q i], szs[i := q_sizes q ! ringIdx q i]))
             [0..<q_count q] (replicate n zero, replicate n 0)
      in q\<lparr>q_items := its, q_sizes := szs, q_head := 0\<rparr>)"

definition Enqueue :: "'a \<Rightarrow> 'a q \<Rightarrow> 'a \<Rightarrow> int \<Rightarrow> bool \<times> 'a q" where
  "Enqueue zero q item nbytes =
     (if q_closed q \<or> q_overflow q then (False, q)
      else if q_cap q < wrap64 (q_bytes q + nbytes) then (False, q\<lparr>q_overflow := True\<rparr>)
      else let q = (if q_count q = length (q_items q) then growLocked zero q else q);
               i = ringIdx q (q_count q)
           in (True, q\<lparr>q_items := (q_items q)[i := item], q_sizes := (q_sizes q)[i := nbytes],
                       q_count := q_count q + 1, q_bytes := wrap64 (q_bytes q + nbytes)\<rparr>))"

definition popLocked :: "'a \<Rightarrow> 'a q \<Rightarrow> ('a \<times> int) \<times> 'a q" where
  "popLocked zero q =
     (let it = q_items q ! q_head q; n = q_sizes q ! q_head q;
          head' = (if Suc (q_head q) = length (q_items q) then 0 else Suc (q_head q))
      in ((it, n), q\<lparr>q_items := (q_items q)[q_head q := zero], q_head := head',
                    q_count := q_count q - 1, q_bytes := wrap64 (q_bytes q - n)\<rparr>))"

definition TryDequeue :: "'a \<Rightarrow> 'a q \<Rightarrow> 'a option \<times> 'a q" where
  "TryDequeue zero q =
     (if q_count q = 0 then (None, q) else let ((it, _), q') = popLocked zero q in (Some it, q'))"

definition CloseQ :: "'a q \<Rightarrow> 'a q" where
  "CloseQ q = (if q_closed q then q else q\<lparr>q_closed := True\<rparr>)"

definition Overflowed :: "'a q \<Rightarrow> bool" where "Overflowed q = q_overflow q"
definition QLen :: "'a q \<Rightarrow> nat" where "QLen q = q_count q"
definition QBytes :: "'a q \<Rightarrow> int" where "QBytes q = q_bytes q"

section \<open>The ring as a list\<close>

definition slots :: "'a q \<Rightarrow> ('a \<times> int) list" where
  "slots q = map (\<lambda>i. (q_items q ! ringIdx q i, q_sizes q ! ringIdx q i)) [0..<q_count q]"

definition q_inv :: "'a q \<Rightarrow> bool" where
  "q_inv q \<longleftrightarrow>
     length (q_sizes q) = length (q_items q) \<and> q_count q \<le> length (q_items q) \<and>
     (q_items q = [] \<longrightarrow> q_head q = 0) \<and> (q_items q \<noteq> [] \<longrightarrow> q_head q < length (q_items q)) \<and>
     q_bytes q = sum_list (map snd (slots q)) \<and> (\<forall>s \<in> set (slots q). 0 \<le> snd s) \<and>
     q_bytes q \<le> q_cap q \<and> is_i64 (q_cap q)"

lemma slots_length [simp]: "length (slots q) = q_count q"
  by (simp add: slots_def)

lemma flag_ring [simp]: "ringIdx (q\<lparr>q_overflow := b\<rparr>) = ringIdx q" "ringIdx (q\<lparr>q_closed := b\<rparr>) = ringIdx q"
  by (simp_all add: fun_eq_iff ringIdx_def Let_def)

lemma flag_slots [simp]: "slots (q\<lparr>q_overflow := b\<rparr>) = slots q" "slots (q\<lparr>q_closed := b\<rparr>) = slots q"
  by (simp_all add: slots_def)

lemma flag_inv [simp]: "q_inv (q\<lparr>q_overflow := b\<rparr>) = q_inv q" "q_inv (q\<lparr>q_closed := b\<rparr>) = q_inv q"
  by (simp_all add: q_inv_def)

lemma NewQ_inv: "is_i64 c \<Longrightarrow> q_inv (NewQ c) \<and> slots (NewQ c) = []"
  by (auto simp: q_inv_def NewQ_def slots_def DefaultCapBytes_def is_i64_def)

lemma ringIdx_less: "q_items q \<noteq> [] \<Longrightarrow> q_head q < length (q_items q) \<Longrightarrow> i \<le> length (q_items q) \<Longrightarrow> ringIdx q i < length (q_items q)"
  by (auto simp: ringIdx_def Let_def)

lemma ringIdx_inj:
  "q_head q < length (q_items q) \<Longrightarrow> i < length (q_items q) \<Longrightarrow> j < length (q_items q) \<Longrightarrow> ringIdx q i = ringIdx q j \<longleftrightarrow> i = j"
  by (auto simp: ringIdx_def Let_def)

lemma fold_fill:
  "m \<le> length xs \<Longrightarrow> m \<le> length ys \<Longrightarrow>
    fold (\<lambda>i (xs, ys). (xs[i := f i], ys[i := g i])) [0..<m] (xs, ys) = (map f [0..<m] @ drop m xs, map g [0..<m] @ drop m ys)"
proof (induction m)
  case (Suc m)
  then show ?case by (simp add: list_update_append Cons_nth_drop_Suc [symmetric])
qed simp

text \<open>Growing moves the ring to index 0 and keeps what it holds.\<close>

lemma growLocked_spec:
  assumes "q_inv q"
  shows "q_inv (growLocked zero q)" "slots (growLocked zero q) = slots q" "q_count q < length (q_items (growLocked zero q))"
    "q_count (growLocked zero q) = q_count q" "q_bytes (growLocked zero q) = q_bytes q" "q_cap (growLocked zero q) = q_cap q"
    "q_closed (growLocked zero q) = q_closed q" "q_overflow (growLocked zero q) = q_overflow q"
proof -
  define n where "n = (if 2 * length (q_items q) < initItems then initItems else 2 * length (q_items q))"
  have n: "q_count q \<le> n" "q_count q < n" "0 < n" using assms by (auto simp: q_inv_def n_def initItems_def)
  have G: "growLocked zero q = q\<lparr>q_items := map (\<lambda>i. q_items q ! ringIdx q i) [0..<q_count q] @ drop (q_count q) (replicate n zero),
      q_sizes := map (\<lambda>i. q_sizes q ! ringIdx q i) [0..<q_count q] @ drop (q_count q) (replicate n 0), q_head := 0\<rparr>"
    using fold_fill [of "q_count q" "replicate n zero" "replicate n 0" "\<lambda>i. q_items q ! ringIdx q i" "\<lambda>i. q_sizes q ! ringIdx q i"] n(1)
    by (simp add: growLocked_def n_def Let_def)
  show S: "slots (growLocked zero q) = slots q"
    unfolding slots_def G using n(2) by (auto simp: ringIdx_def nth_append)
  show "q_inv (growLocked zero q)"
    using assms n S unfolding q_inv_def S by (auto simp: G)
  show "q_count q < length (q_items (growLocked zero q))" using n(2) by (simp add: G)
qed (simp_all add: growLocked_def Let_def split_beta)

lemma slots_put:
  fixes q :: "'a q" and item :: 'a and n b :: int
  assumes "q_inv q" "q_count q < length (q_items q)"
  defines "i \<equiv> ringIdx q (q_count q)"
  defines "q' \<equiv> q\<lparr>q_items := (q_items q)[i := item], q_sizes := (q_sizes q)[i := n], q_count := q_count q + 1, q_bytes := b\<rparr>"
  shows "slots q' = slots q @ [(item, n)]"
proof -
  have h: "q_head q < length (q_items q)" "q_items q \<noteq> []" "length (q_sizes q) = length (q_items q)"
    using assms(1,2) by (auto simp: q_inv_def)
  have r: "ringIdx q' j = ringIdx q j" for j by (simp add: ringIdx_def q'_def Let_def)
  have i: "i < length (q_items q)" using ringIdx_less [OF h(2,1)] assms(2) by (simp add: i_def)
  have "i \<noteq> ringIdx q j" if "j < q_count q" for j
    using ringIdx_inj [OF h(1), of j "q_count q"] that assms(2) by (auto simp: i_def)
  then have "q_items q' ! ringIdx q j = q_items q ! ringIdx q j" "q_sizes q' ! ringIdx q j = q_sizes q ! ringIdx q j"
    if "j < q_count q" for j using that by (simp_all add: q'_def)
  moreover have "q_items q' ! i = item" "q_sizes q' ! i = n" using i h(3) by (simp_all add: q'_def)
  ultimately show ?thesis unfolding slots_def r by (simp add: q'_def i_def)
qed

lemma slots_pop:
  assumes "q_inv q" "0 < q_count q"
  shows "slots q = fst (popLocked zero q) # slots (snd (popLocked zero q))"
proof -
  let ?q = "snd (popLocked zero q)" and ?n = "length (q_items q)"
  have h: "q_head q < ?n" "q_count q \<le> ?n" using assms by (auto simp: q_inv_def)
  have r: "ringIdx ?q j = ringIdx q (Suc j)" if "Suc j < ?n" for j
    using h that by (auto simp: ringIdx_def popLocked_def Let_def)
  have "q_head q \<noteq> ringIdx q (Suc j)" if "Suc j < ?n" for j
    using h(1) that by (auto simp: ringIdx_def Let_def)
  then have "slots ?q = map (\<lambda>i. (q_items q ! ringIdx q (Suc i), q_sizes q ! ringIdx q (Suc i))) [0..<q_count q - 1]"
    unfolding slots_def using h(2) r by (auto simp: popLocked_def Let_def)
  moreover have "[0..<q_count q] = 0 # map Suc [0..<q_count q - 1]"
    using assms(2) by (metis Suc_diff_1 map_Suc_upt upt_conv_Cons)
  moreover have "ringIdx q 0 = q_head q" using h(1) by (simp add: ringIdx_def)
  ultimately show ?thesis by (simp add: slots_def comp_def) (simp add: popLocked_def Let_def)
qed

text \<open>Enqueueing within the range of the byte counter appends, or latches, or is refused.\<close>

lemma Enqueue_accepts:
  assumes "q_inv q" "0 \<le> n" "is_i64 (q_bytes q + n)"
  shows "fst (Enqueue zero q item n) \<longleftrightarrow> \<not> q_closed q \<and> \<not> q_overflow q \<and> q_bytes q + n \<le> q_cap q"
  using assms by (simp add: Enqueue_def Let_def)

lemma Enqueue_spec:
  assumes inv: "q_inv q" "0 \<le> n" "is_i64 (q_bytes q + n)"
  shows "q_inv (snd (Enqueue zero q item n))"
    "slots (snd (Enqueue zero q item n)) = (if fst (Enqueue zero q item n) then slots q @ [(item, n)] else slots q)"
    "q_closed (snd (Enqueue zero q item n)) = q_closed q"
    "q_overflow (snd (Enqueue zero q item n)) \<longleftrightarrow> q_overflow q \<or> \<not> q_closed q \<and> q_cap q < q_bytes q + n"
proof -
  let ?E = "Enqueue zero q item n"
  define q1 where "q1 = (if q_count q = length (q_items q) then growLocked zero q else q)"
  have q1: "q_inv q1" "slots q1 = slots q" "q_count q1 < length (q_items q1)" "q_count q1 = q_count q" "q_bytes q1 = q_bytes q" "q_cap q1 = q_cap q"
    "q_closed q1 = q_closed q" "q_overflow q1 = q_overflow q"
    using growLocked_spec [OF inv(1), of zero] inv(1) by (auto simp: q1_def q_inv_def)
  let ?i = "ringIdx q1 (q_count q1)"
  let ?q2 = "q1\<lparr>q_items := (q_items q1)[?i := item], q_sizes := (q_sizes q1)[?i := n], q_count := q_count q1 + 1, q_bytes := q_bytes q + n\<rparr>"
  have sl: "slots ?q2 = slots q @ [(item, n)]" using slots_put [OF q1(1,3)] q1(2) by simp
  consider (no) "q_closed q \<or> q_overflow q" | (ovf) "\<not> q_closed q" "\<not> q_overflow q" "q_cap q < q_bytes q + n"
    | (ok) "\<not> q_closed q" "\<not> q_overflow q" "q_bytes q + n \<le> q_cap q" by linarith
  then have "q_inv (snd ?E) \<and> slots (snd ?E) = (if fst ?E then slots q @ [(item, n)] else slots q) \<and>
    q_closed (snd ?E) = q_closed q \<and> (q_overflow (snd ?E) \<longleftrightarrow> q_overflow q \<or> \<not> q_closed q \<and> q_cap q < q_bytes q + n)"
  proof cases
    case no
    then show ?thesis using inv by (auto simp: Enqueue_def q_inv_def)
  next
    case ovf
    then show ?thesis using inv by (simp add: Enqueue_def)
  next
    case ok
    have "?E = (True, ?q2)" using ok inv(3) by (simp add: Enqueue_def Let_def q1_def growLocked_spec(5) [OF inv(1)])
    moreover have "q_inv ?q2"
      using q1 inv(2) ok(3) inv(1) unfolding q_inv_def sl by auto
    ultimately show ?thesis using ok sl q1 by simp
  qed
  then show "q_inv (snd ?E)" "slots (snd ?E) = (if fst ?E then slots q @ [(item, n)] else slots q)"
    "q_closed (snd ?E) = q_closed q" "q_overflow (snd ?E) \<longleftrightarrow> q_overflow q \<or> \<not> q_closed q \<and> q_cap q < q_bytes q + n"
    by simp_all
qed

lemma popLocked_spec:
  assumes "q_inv q" "0 < q_count q"
  shows "q_inv (snd (popLocked zero q))" "slots q = fst (popLocked zero q) # slots (snd (popLocked zero q))"
    "q_closed (snd (popLocked zero q)) = q_closed q" "q_overflow (snd (popLocked zero q)) = q_overflow q"
proof -
  let ?q = "snd (popLocked zero q)" and ?n = "snd (fst (popLocked zero q))"
  have h: "length (q_sizes q) = length (q_items q)" "q_count q \<le> length (q_items q)" "q_items q \<noteq> []"
    "q_head q < length (q_items q)" "is_i64 (q_cap q)"
    using assms by (auto simp: q_inv_def)
  show sl: "slots q = fst (popLocked zero q) # slots ?q" by (rule slots_pop [OF assms])
  have le: "0 \<le> ?n" "\<forall>s \<in> set (slots ?q). 0 \<le> snd s" using assms(1) unfolding q_inv_def sl by auto
  have b: "q_bytes q = ?n + sum_list (map snd (slots ?q))" using assms(1) unfolding q_inv_def sl by simp
  have s0: "0 \<le> sum_list (map snd (slots ?q))" using le(2) by (intro sum_list_nonneg) auto
  have cap: "q_bytes q \<le> q_cap q" "is_i64 (q_cap q)" using assms(1) by (auto simp: q_inv_def)
  then have "is_i64 (q_bytes q - ?n)" using b s0 le(1) by (auto simp: is_i64_def)
  moreover have "q_bytes ?q = wrap64 (q_bytes q - ?n)" "q_cap ?q = q_cap q" by (simp_all add: popLocked_def Let_def)
  ultimately have "q_bytes ?q = q_bytes q - ?n" "q_cap ?q = q_cap q" by simp_all
  then have "q_bytes ?q = sum_list (map snd (slots ?q))" "q_bytes ?q \<le> q_cap ?q" using b cap(1) le(1) by linarith+
  moreover have "length (q_sizes ?q) = length (q_items ?q)" "q_count ?q \<le> length (q_items ?q)" "q_items ?q \<noteq> []"
    "q_head ?q < length (q_items ?q)" "is_i64 (q_cap ?q)"
    using h by (auto simp: popLocked_def Let_def)
  ultimately show "q_inv ?q" using le(2) unfolding q_inv_def by argo
qed (simp_all add: popLocked_def Let_def)

lemma TryDequeue_spec:
  assumes "q_inv q"
  shows "q_inv (snd (TryDequeue zero q))" "q_closed (snd (TryDequeue zero q)) = q_closed q" "q_overflow (snd (TryDequeue zero q)) = q_overflow q"
    "fst (TryDequeue zero q) = (if slots q = [] then None else Some (fst (hd (slots q))))"
    "slots (snd (TryDequeue zero q)) = tl (slots q)"
proof -
  have e: "slots q = [] \<longleftrightarrow> q_count q = 0" by (metis slots_length length_0_conv)
  note P = popLocked_spec [OF assms, of zero]
  show "q_inv (snd (TryDequeue zero q))" "q_closed (snd (TryDequeue zero q)) = q_closed q" "q_overflow (snd (TryDequeue zero q)) = q_overflow q"
    using assms P by (auto simp: TryDequeue_def split_beta Let_def)
  show "fst (TryDequeue zero q) = (if slots q = [] then None else Some (fst (hd (slots q))))"
    using P(2) by (cases "q_count q = 0") (simp_all add: TryDequeue_def split_beta Let_def e)
  show "slots (snd (TryDequeue zero q)) = tl (slots q)"
    using P(2) e by (cases "q_count q = 0") (simp_all add: TryDequeue_def split_beta Let_def)
qed

section \<open>First in, first out\<close>

text \<open>
  What a client relies on: the contents as a list, an \<open>enq\<close> that appends when it accepts and a
  \<open>deq\<close> that takes the head.
\<close>

datatype 'o qop = Enq 'o | Deq

text \<open>A run of operations: the items accepted and the items delivered, oldest first, and the last state.\<close>

fun qrun :: "('o \<Rightarrow> 'x) \<Rightarrow> ('s \<Rightarrow> 'o \<Rightarrow> bool \<times> 's) \<Rightarrow> ('s \<Rightarrow> 'x option \<times> 's) \<Rightarrow> 'o qop list \<Rightarrow> 's \<Rightarrow> 'x list \<times> 'x list \<times> 's" where
  "qrun item enq deq [] s = ([], [], s)"
| "qrun item enq deq (Enq x # ops) s =
     (let (ok, s1) = enq s x; (acc, out, s2) = qrun item enq deq ops s1 in (if ok then item x # acc else acc, out, s2))"
| "qrun item enq deq (Deq # ops) s =
     (let (r, s1) = deq s; (acc, out, s2) = qrun item enq deq ops s1 in (acc, case r of None \<Rightarrow> out | Some x \<Rightarrow> x # out, s2))"

definition enqs_ok :: "('o \<Rightarrow> bool) \<Rightarrow> 'o qop list \<Rightarrow> bool" where
  "enqs_ok ok ops \<longleftrightarrow> (\<forall>x. Enq x \<in> set ops \<longrightarrow> ok x)"

locale fifo =
  fixes inv :: "'s \<Rightarrow> bool" and held :: "'s \<Rightarrow> 'x list" and item :: "'o \<Rightarrow> 'x"
    and enq :: "'s \<Rightarrow> 'o \<Rightarrow> bool \<times> 's" and deq :: "'s \<Rightarrow> 'x option \<times> 's" and ok :: "'o \<Rightarrow> bool"
  assumes enq_inv: "inv s \<Longrightarrow> ok x \<Longrightarrow> inv (snd (enq s x))"
    and enq_held: "inv s \<Longrightarrow> ok x \<Longrightarrow> held (snd (enq s x)) = (if fst (enq s x) then held s @ [item x] else held s)"
    and deq_inv: "inv s \<Longrightarrow> inv (snd (deq s))"
    and deq_held: "inv s \<Longrightarrow> held (snd (deq s)) = tl (held s)"
    and deq_head: "inv s \<Longrightarrow> fst (deq s) = (if held s = [] then None else Some (hd (held s)))"
begin

lemma run_conserves:
  "inv s \<Longrightarrow> enqs_ok ok ops \<Longrightarrow> qrun item enq deq ops s = (acc, out, s') \<Longrightarrow> inv s' \<and> held s @ acc = out @ held s'"
proof (induction ops arbitrary: s acc out s')
  case (Cons op ops)
  have oks: "enqs_ok ok ops" using Cons.prems(2) by (simp add: enqs_ok_def)
  show ?case
  proof (cases op)
    case (Enq x)
    have x: "ok x" using Cons.prems(2) Enq by (simp add: enqs_ok_def)
    obtain acc1 out1 s2 where r: "qrun item enq deq ops (snd (enq s x)) = (acc1, out1, s2)" by (metis prod_cases3)
    note I = Cons.IH [OF enq_inv [OF Cons.prems(1) x] oks r]
    show ?thesis using I r Cons.prems(3) Enq enq_held [OF Cons.prems(1) x]
      by (auto simp: split_beta Let_def split: if_splits)
  next
    case Deq
    obtain acc1 out1 s2 where r: "qrun item enq deq ops (snd (deq s)) = (acc1, out1, s2)" by (metis prod_cases3)
    note I = Cons.IH [OF deq_inv [OF Cons.prems(1)] oks r]
    show ?thesis using I r Cons.prems(3) Deq deq_held [OF Cons.prems(1)] deq_head [OF Cons.prems(1)]
      by (cases "held s") (auto simp: split_beta Let_def)
  qed
qed simp

text \<open>Nothing is lost, duplicated or reordered: what was delivered is what was held and then accepted, in order.\<close>

lemma run_in_order:
  "inv s \<Longrightarrow> held s = [] \<Longrightarrow> enqs_ok ok ops \<Longrightarrow> qrun item enq deq ops s = (acc, out, s') \<Longrightarrow> acc = out @ held s'"
  using run_conserves by fastforce

end

lemma cap_keeps [simp]: "q_cap (snd (Enqueue zero q item n)) = q_cap q" "q_cap (snd (TryDequeue zero q)) = q_cap q"
  by (simp_all add: Enqueue_def TryDequeue_def popLocked_def growLocked_def Let_def split_beta)

interpretation pq: fifo "\<lambda>q. q_inv q \<and> q_cap q \<le> C" "\<lambda>q. map fst (slots q)" fst
  "\<lambda>q x. Enqueue zero q (fst x) (snd x)" "TryDequeue zero" "\<lambda>x. 0 \<le> snd x \<and> snd x \<le> MaxInt64 - C"
proof unfold_locales
  fix q :: "'a q" and x :: "'a \<times> int"
  assume q: "q_inv q \<and> q_cap q \<le> C" and x: "0 \<le> snd x \<and> snd x \<le> MaxInt64 - C"
  have "0 \<le> q_bytes q" using q unfolding q_inv_def by (metis (no_types, lifting) imageE list.set_map sum_list_nonneg)
  then have i: "is_i64 (q_bytes q + snd x)" using q x by (auto simp: q_inv_def is_i64_def)
  show "q_inv (snd (Enqueue zero q (fst x) (snd x))) \<and> q_cap (snd (Enqueue zero q (fst x) (snd x))) \<le> C"
    using Enqueue_spec(1) [OF _ _ i] q x by simp
  show "map fst (slots (snd (Enqueue zero q (fst x) (snd x)))) =
      (if fst (Enqueue zero q (fst x) (snd x)) then map fst (slots q) @ [fst x] else map fst (slots q))"
    using Enqueue_spec(2) [OF _ _ i] q x by simp
qed (auto simp: TryDequeue_spec map_tl hd_map)

section \<open>No lost wake-up\<close>

text \<open>
  The one consumer is about to take the lock (\<open>Running\<close>), parked in the \<open>select\<close> of \<^verbatim>\<open>Dequeue\<close>, has
  an item (\<open>Got\<close>), or has returned false (\<open>Stopped\<close>). \<open>signals\<close> counts the producers that have
  released the lock and not yet executed \<^verbatim>\<open>signal\<close>; \<open>chan\<close> is the channel of capacity one.
\<close>

datatype 'a consumer = Running | Parked | Got 'a | Stopped

record 'a qsys =
  ring :: "'a q"
  signals :: nat
  chan :: bool
  cons :: "'a consumer"

inductive qstep :: "'a \<Rightarrow> 'a qsys \<Rightarrow> 'a qsys \<Rightarrow> bool" for zero where
  enqueue: "Enqueue zero (ring s) item n = (True, q) \<Longrightarrow> qstep zero s (s\<lparr>ring := q, signals := Suc (signals s)\<rparr>)"
| refused: "Enqueue zero (ring s) item n = (False, q) \<Longrightarrow> qstep zero s (s\<lparr>ring := q\<rparr>)"
| close: "\<not> q_closed (ring s) \<Longrightarrow> qstep zero s (s\<lparr>ring := CloseQ (ring s), signals := Suc (signals s)\<rparr>)"
| signal: "signals s = Suc m \<Longrightarrow> qstep zero s (s\<lparr>signals := m, chan := True\<rparr>)"
| pop: "cons s = Running \<Longrightarrow> 0 < q_count (ring s) \<Longrightarrow> popLocked zero (ring s) = ((it, n), q) \<Longrightarrow>
    qstep zero s (s\<lparr>ring := q, cons := Got it\<rparr>)"
| drained: "cons s = Running \<Longrightarrow> q_count (ring s) = 0 \<Longrightarrow> q_closed (ring s) \<Longrightarrow> qstep zero s (s\<lparr>cons := Stopped\<rparr>)"
| park: "cons s = Running \<Longrightarrow> q_count (ring s) = 0 \<Longrightarrow> \<not> q_closed (ring s) \<Longrightarrow> qstep zero s (s\<lparr>cons := Parked\<rparr>)"
| wake: "cons s = Parked \<Longrightarrow> chan s \<Longrightarrow> qstep zero s (s\<lparr>chan := False, cons := Running\<rparr>)"
| stop: "cons s = Parked \<Longrightarrow> qstep zero s (s\<lparr>cons := Stopped\<rparr>)"
| again: "cons s = Got it \<Longrightarrow> qstep zero s (s\<lparr>cons := Running\<rparr>)"

definition newSys :: "int \<Rightarrow> 'a qsys" where
  "newSys capBytes = \<lparr>ring = NewQ capBytes, signals = 0, chan = False, cons = Running\<rparr>"

definition no_lost :: "'a qsys \<Rightarrow> bool" where
  "no_lost s \<longleftrightarrow> (cons s = Parked \<longrightarrow> 0 < q_count (ring s) \<or> q_closed (ring s) \<longrightarrow> chan s \<or> 0 < signals s)"

lemma refused_same: "Enqueue zero q item n = (False, q') \<Longrightarrow> q_count q' = q_count q \<and> q_closed q' = q_closed q"
  by (auto simp: Enqueue_def Let_def split: if_splits)

lemma no_lost_step: "qstep zero s s' \<Longrightarrow> no_lost s \<Longrightarrow> no_lost s'"
  by (induction rule: qstep.induct) (auto simp: no_lost_def dest: refused_same)

lemma no_lost_wakeup: "(qstep zero)\<^sup>*\<^sup>* (newSys c) s \<Longrightarrow> no_lost s"
proof (induction rule: rtranclp_induct)
  case base
  then show ?case by (simp add: newSys_def no_lost_def)
qed (rule no_lost_step)

text \<open>So a parked consumer with an item waiting gets it in at most three steps, whatever else happens.\<close>

lemma parked_gets_item:
  assumes "(qstep zero)\<^sup>*\<^sup>* (newSys c) s" "cons s = Parked" "0 < q_count (ring s)"
  shows "\<exists>s'. (qstep zero)\<^sup>*\<^sup>* s s' \<and> cons s' = Got (q_items (ring s) ! q_head (ring s))"
proof -
  have "chan s \<or> 0 < signals s" using no_lost_wakeup [OF assms(1)] assms(2,3) by (auto simp: no_lost_def)
  then obtain s1 where s1: "(qstep zero)\<^sup>*\<^sup>* s s1" "chan s1" "cons s1 = Parked" "ring s1 = ring s"
  proof
    assume "0 < signals s"
    then obtain m where "signals s = Suc m" by (cases "signals s") auto
    then have "qstep zero s (s\<lparr>signals := m, chan := True\<rparr>)" by (rule qstep.signal)
    then show thesis using that [of "s\<lparr>signals := m, chan := True\<rparr>", OF r_into_rtranclp] assms(2) by simp
  qed (use that [of s] assms(2) in simp)
  let ?s2 = "s1\<lparr>chan := False, cons := Running\<rparr>"
  obtain it n q where p: "popLocked zero (ring s) = ((it, n), q)" by (metis prod.collapse)
  have "qstep zero s1 ?s2" using s1 by (intro qstep.wake)
  moreover have "qstep zero ?s2 (?s2\<lparr>ring := q, cons := Got it\<rparr>)"
    using s1 assms(3) p by (intro qstep.pop [where n = n]) simp_all
  ultimately have "(qstep zero)\<^sup>*\<^sup>* s (?s2\<lparr>ring := q, cons := Got it\<rparr>)" using s1(1) by simp
  moreover have "it = q_items (ring s) ! q_head (ring s)" using p by (simp add: popLocked_def Let_def)
  ultimately show ?thesis by (intro exI [of _ "?s2\<lparr>ring := q, cons := Got it\<rparr>"]) simp
qed

end
