(* ===== verification/Spec2Isabelle.thy ===== *)
theory Spec2Isabelle
  imports Example_ZSet Push_Queue
begin

text \<open>
  Ultima, a Redis-compatible server in Go: a verification development.

  \<^bold>\<open>The program.\<close> A connection reads commands (\<^verbatim>\<open>lib/resp\<close>) and hands them to \<^verbatim>\<open>Engine.Execute\<close> of
  \<^verbatim>\<open>lib/commands\<close>, which passes them through its gates and runs the handler of the command table. A handler
  submits closures to the shards of the keyspace engine (\<^verbatim>\<open>lib/shard\<close>), one goroutine each; a closure looks keys
  up, stores, touches or deletes entries whose values are the types of \<^verbatim>\<open>lib/types\<close>. Every task ends with an
  eviction pass and runs among periodic expiry sweeps. Changes publish keyspace notifications through the broker
  (\<^verbatim>\<open>lib/pubsub\<close>) to the push queues of subscribers (\<^verbatim>\<open>lib/pushq\<close>), and successful writes are logged through
  the persistence manager (\<^verbatim>\<open>lib/persist\<close>), which also saves and loads snapshots and replays its logs at the start.

  \<^bold>\<open>Theories, from the bottom up.\<close>
  \<^item> \<open>Ultima_Prelude\<close>: bytes, \<^verbatim>\<open>int64\<close> with its wrap-around (\<open>wrap64\<close>, \<open>is_i64\<close>), fact collections.
    \<open>Decimal\<close>: the integer parsers and printers.
  \<^item> \<open>Pluto\<close>: the containers of the third-party packages as records of operations, and the locales of the behaviour
    documented in \<^verbatim>\<open>docs/pluto\<close>; \<open>Containers\<close>: the contracts of map-like and set-like values.
    \<open>Hash_Type\<close>, \<open>Set_Type\<close>, \<open>List_Type\<close>, \<open>ZSet_Type\<close>: the value types of \<^verbatim>\<open>lib/types\<close>, which interpret them.
  \<^item> \<open>Shard_State\<close>: the data of \<^verbatim>\<open>lib/shard\<close> and every operation that runs in a shard goroutine.
    \<open>Keyspace\<close> (what they do, invariant \<open>eng_inv\<close>), \<open>Removal\<close>, \<open>Expiry\<close>, \<open>Eviction\<close> (sweeps and eviction as
    sequences of removals), \<open>Watch\<close> (stamps and the step relation \<open>kstep\<close>), \<open>Acts\<close> (the invariant \<open>db_inv\<close> and the
    steps of handlers).
  \<^item> \<open>Tasks\<close>, \<open>Fanout\<close>: submission of tasks, and the grouping of the keys of one command by shard.
    \<open>Abstract_Store\<close>: the specification level, a map from database and key to value and expiry (\<open>kv\<close>), and what it
    means that a handler refines a function on it (\<open>refines\<close>).
  \<^item> \<open>Cmd_Strings\<close>, \<open>Cmd_Keys\<close>, \<open>Coll_Tasks\<close>, \<open>Cmd_Hash\<close>, \<open>Cmd_List\<close>, \<open>Cmd_Move\<close>, \<open>Cmd_Set\<close>, \<open>Glob\<close>, \<open>Scan\<close>: the handlers of
    \<^verbatim>\<open>strings.go\<close>, \<^verbatim>\<open>keys.go\<close>, \<^verbatim>\<open>coll.go\<close>, \<^verbatim>\<open>hash.go\<close>, \<^verbatim>\<open>list.go\<close>, \<^verbatim>\<open>set.go\<close> and \<^verbatim>\<open>glob.go\<close>, each with its specification.
  \<^item> \<open>Float64\<close>, \<open>Float_Text\<close>: binary64 arithmetic, parsing and printing on exact integers, and the round trip of scores
    through text. \<open>Cmd_ZSet\<close>, \<open>Sorted_Set\<close>: the handlers of \<^verbatim>\<open>zset.go\<close>, INCRBYFLOAT and HINCRBYFLOAT, and the steps they take;
    \<open>Sorted_Set_Spec\<close>: their specifications on finite maps from members to scores, and that they refine them.
  \<^item> \<open>Notify\<close>, \<open>Pubsub\<close>, \<open>Push_Queue\<close>: notifications, the broker and its commands, the push queue with its
    interleavings (\<open>qstep\<close>).
  \<^item> \<open>Cmd_Table\<close>, \<open>Conn\<close>, \<open>Introspect\<close>, \<open>Dispatch\<close>, \<open>Dispatch_Acts\<close>, \<open>Server\<close>, \<open>Transactions\<close>: the command table, the
    connection and engine state, the handlers of \<^verbatim>\<open>server.go\<close>, \<^verbatim>\<open>monitor.go\<close>, \<^verbatim>\<open>slowlog.go\<close> and \<^verbatim>\<open>tx.go\<close>, \<^verbatim>\<open>Execute\<close>
    with all its gates, the invariant of the server over its runs (\<open>server_step\<close>), and transactions.
  \<^item> \<open>Aof_Capture\<close>, \<open>Aof_Replay\<close>: the record of a write, and that replaying it repeats the write.
  \<^item> \<open>Resp\<close>: the wire format in both protocol versions and the command reader.
    \<open>Persist_Format\<close>, \<open>Snapshot\<close>, \<open>Persist_Aof\<close>: the snapshot file, the append-only logs, replay and the manager.
  \<^item> \<open>Example_Engine\<close>, \<open>Example_Server\<close>, \<open>Example_Persist\<close>, \<open>Example_ZSet\<close>: a fresh engine satisfies the invariants, and the concrete
    states on which the witnesses below evaluate.

  \<^bold>\<open>State and operations.\<close> The keyspace engine is one record (\<open>engine\<close>): a store of entries by address, since the
  source shares \<^verbatim>\<open>*Entry\<close> pointers, the tables from keys to addresses, and the state of each shard. A closure is a
  function on that record; a handler is the composition of its closures and returns the reply, the connection and the
  world. Errors are values: an error reply, \<open>Inl\<close>, or \<open>None\<close>; a Go panic that the code can reach is a value too
  (\<open>goPanic\<close>, \<open>aofPanic\<close>). Integers have the width of the source where it matters. What Go leaves open, the order in
  which it ranges over a map, random draws and clock readings, is an argument, and the theorems hold for every value
  of it within the documented range.

  \<^bold>\<open>What is shown.\<close> The invariant \<open>db_inv\<close> holds in every reachable state and stamps of watchers only grow
  (\<open>engine_invariant\<close>); WATCH misses no change and reports none that did not happen; sweeps, eviction, DBSIZE and
  flushes do exactly what they promise; the commands refine functions on the abstract keyspace on every branch, error
  replies included; the matcher, the scans and the queues meet their references; the server keeps its invariant over
  every run of commands of any clients, and transactions are all or nothing; snapshots and logs restore what was
  saved, and the reader recovers the commands of a stream however it is cut.

  \<^bold>\<open>Assumptions.\<close> The packages of \<^verbatim>\<open>github.com/pschlump/pluto\<close> behave as documented (\<open>pluto_laws\<close>; the list-backed
  \<open>P0\<close> satisfies it). Handlers that are not modelled are the field \<open>ext\<close> of the environment and are assumed to act on
  the engine through the steps \<open>acts\<close> and to keep the invariant of the connection (\<open>ext_ok\<close>). The checksum and the
  compressor of snapshots are parameters. The loops of the source recurse structurally or with a
  proved measure, and no fuel is used.

  \<^bold>\<open>Not modelled.\<close> HRANDFIELD and SRANDMEMBER, which panic on a huge negative count. Blocking commands (\<^verbatim>\<open>block.go\<close>) and
  bursts (\<^verbatim>\<open>burst.go\<close>), which park goroutines on timers and channels around operations that are modelled. Scripting, which embeds a
  Lua interpreter. CONFIG, INFO, MEMORY, LATENCY and SLOWLOG as commands, the HTTP, gRPC and WebSocket front-ends,
  authentication services, the programs, clients and generated code: they are input and output, configuration or
  rendering. Files are their bytes: opening, syncing and renaming them is outside. Handlers of several tasks run
  without interleaving of other clients between their tasks, except in \<open>Watch\<close> and \<open>Server\<close>, where any step may come between a sample and a check.
\<close>

lemma g0_no_empty [simp]: "no_empty (kv P0 g0)"
  by (simp add: no_empty_def)

lemma sched_P0: "keys \<noteq> [] \<Longrightarrow> sched (groupKeys (ShardIndex P0 0) keys) [0]"
  by (force simp: sched_def groupKeys_eq filter_empty_conv)

lemma enumerates_ex: "\<exists>f. enumerates f"
  unfolding enumerates_def using finite_distinct_list by metis

section \<open>Properties\<close>



text \<open>
  C2: WATCH never misses a write: when a key is sampled by WatchVersion and, after any steps of the engine, some step stores,
  touches, deletes or flushes the key and any further steps follow, then WatchDirty reports the key dirty.
\<close>

theorem watch_sound:
  assumes "pluto_laws P k" "eng_inv P k g" "conf_ok k g" "db < maxDBs g"
    "WatchVersion P (ShardIndex P k key) g db key = ((ep, ver), g1)"
    "(kstep P k)\<^sup>*\<^sup>* g1 g2" "writes P k db key g2 g3" "(kstep P k)\<^sup>*\<^sup>* g3 g4"
  shows "fst (WatchDirty P (ShardIndex P k key) g4 db key ep ver)"
  by (rule pluto_laws.watch_dirty_after_write [OF assms])

theorem watch_sound_witness:
  "fst (WatchDirty P0 0 (FlushDBTok P0 (snd (WatchVersion P0 0 g0 0 ''k'')) 0) 0 ''k''
     (fst (fst (WatchVersion P0 0 g0 0 ''k''))) (snd (fst (WatchVersion P0 0 g0 0 ''k''))))"
  using watch_sound [OF P0_laws g0_inv(2,5), of 0 "''k''" "fst (fst (WatchVersion P0 0 g0 0 ''k''))"
      "snd (fst (WatchVersion P0 0 g0 0 ''k''))" "snd (WatchVersion P0 0 g0 0 ''k'')" "snd (WatchVersion P0 0 g0 0 ''k'')"
      "FlushDBTok P0 (snd (WatchVersion P0 0 g0 0 ''k'')) 0" "FlushDBTok P0 (snd (WatchVersion P0 0 g0 0 ''k'')) 0"]
  by (simp add: writes.w_flush)

text \<open>
  C3: WATCH is precise up to the stamp: a key sampled earlier is reported dirty exactly when its epoch or version has moved
  or its entry has expired meanwhile.
\<close>

theorem watch_precise:
  assumes "pluto_laws P k" "eng_inv P k g" "db < maxDBs g" "stamp_le (ep, ver) (stamp P k g db key)"
  shows "fst (WatchDirty P (ShardIndex P k key) g db key ep ver) \<longleftrightarrow>
    stamp P k g db key \<noteq> (ep, ver) \<or> (\<exists>e. view P g db key = Some e \<and> due e (NowMs g))"
  by (rule pluto_laws.WatchDirty_stamp [OF assms])

theorem watch_precise_witness:
  "fst (WatchDirty P0 0 g0 0 ''k'' (fst (stamp P0 0 g0 0 ''k'')) (snd (stamp P0 0 g0 0 ''k''))) \<longleftrightarrow>
    (\<exists>e. view P0 g0 0 ''k'' = Some e \<and> due e (NowMs g0))"
  using watch_precise [OF P0_laws g0_inv(2), of 0 "fst (stamp P0 0 g0 0 ''k'')" "snd (stamp P0 0 g0 0 ''k'')" "''k''"] by simp

text \<open>
  C4: A sweep terminates whatever its limit and deadline, removes only entries that are due, keeps the engine invariant, and
  an unlimited one leaves no due entry on its shard.
\<close>

theorem sweep_correct:
  assumes "pluto_laws P k" "shard_ok P k g"
  shows "\<exists>n pressure g'. sweep P i now limit late g = Some ((n, pressure), g') \<and> shard_ok P k g' \<and>
    (\<forall>db key. view P g' db key = view P g db key \<or>
       view P g' db key = None \<and> (\<exists>e. view P g db key = Some e \<and> due e now)) \<and>
    (limit < 0 \<longrightarrow> (\<forall>p. \<not> late p) \<longrightarrow>
       (\<forall>db key e. view P g' db key = Some e \<longrightarrow> ShardIndex P k key = i \<longrightarrow> \<not> due e now))"
  by (rule pluto_laws.sweep_summary [OF assms])

theorem sweep_correct_witness:
  "\<exists>n pressure g'. sweep P0 0 5000 (-1) (\<lambda>_. False) g0 = Some ((n, pressure), g') \<and> shard_ok P0 0 g'"
  using sweep_correct [OF P0_laws g0_inv(1), of 0 5000 "-1" "\<lambda>_. False"] by blast

text \<open>
  C5: Sizes and flushes of a database are exact: DBSIZE, after every shard has swept, is the number of live keys; FLUSHDB removes every
  key of its database and no key of another one, dirties every watcher of it and keeps the engine invariant, and DBSIZE after it is 0.
\<close>

theorem database_size_and_flush:
  assumes "pluto_laws P k" "db_inv P k g"
  shows "fst (DBSizeTok P g db) = card {key. kv P g db key \<noteq> None} \<and>
    (db < maxDBs g \<longrightarrow>
       kv P (FlushDBTok P g db) d key = (if d = db then None else kv P g d key) \<and>
       stamp_less (stamp P k g db key) (stamp P k (FlushDBTok P g db) db key) \<and>
       db_inv P k (FlushDBTok P g db) \<and> fst (DBSizeTok P (FlushDBTok P g db) db) = 0)"
proof -
  have size: "fst (DBSizeTok P g' db) = card {key. kv P g' db key \<noteq> None}" if "db_inv P k g'" for g'
    using pluto_laws.DBSizeTok_spec [OF assms(1) db_invD(4,5) [OF that]] db_invD(2) [OF that] by (simp add: conf_ok_def liveKeys_def kv_def)
  have kv: "kv P (FlushDBTok P g db) d key = (if d = db then None else kv P g d key)" if "db < maxDBs g" for d key
    using pluto_laws.view_Flush [OF assms(1), of g db d key] db_invD(2) [OF assms(2)] that
    by (simp add: kv_view FlushDBTok_sel conf_ok_def split: option.split)
  show ?thesis
    using size [OF assms(2)] size [OF pluto_laws.Flush_db_inv [OF assms]] kv pluto_laws.Flush_db_inv [OF assms]
      pluto_laws.Flush_stamps(1) [OF assms(1)] db_invD(2) [OF assms(2)]
    by (simp add: conf_ok_def)
qed

theorem database_size_and_flush_witness:
  "fst (DBSizeTok P0 g0 3) = card {key. kv P0 g0 3 key \<noteq> None} \<and> stamp_less (stamp P0 0 g0 2 ''k'') (stamp P0 0 (FlushDBTok P0 g0 2) 2 ''k'')"
  using database_size_and_flush [OF P0_laws g0_db_inv, of 3] database_size_and_flush [OF P0_laws g0_db_inv, of 2 2 "''k''"] by simp



text \<open>
  C7: SET refines its specification. With accepted options, the reply and the new entry of the key are those of the abstract
  SET on the old entry (NX and XX, the WRONGTYPE of GET on another type, KEEPTTL, an expiry, an expiry already past), and no other key changes.
\<close>

theorem set_refines:
  assumes "pluto_laws P k" "db_inv P k g" "maxMemory g \<le> 0"
    "parseSetOptions args = Inr o0" "resolveExpire (NowMs g) o0 = Inr o'"
  shows "refines P db (args ! 1) (setSpec o' (args ! 2)) g (cmdSet P db args g)"
  by (rule pluto_laws.cmdSet_refines [OF assms(1) db_invD(7) [OF assms(2)] assms(3-5)])

theorem set_refines_witness:
  "refines P0 3 ''k'' (setSpec \<lparr>o_nx = False, o_xx = False, o_get = False, o_keepttl = False, o_expireAtMs = 0,
      o_hasExpire = False, o_expUnit = []\<rparr> ''v'') g0 (cmdSet P0 3 [''SET'', ''k'', ''v''] g0)"
  using set_refines [OF P0_laws g0_db_inv, where args = "[''SET'', ''k'', ''v'']" and db = 3]
  by (simp add: parseSetOptions_def resolveExpire_def)

text \<open>
  C8: The counters INCR, DECR, INCRBY and DECRBY compute in exact integer arithmetic: the 64-bit guard and addition refuse exactly
  the results outside the int64 range, a value that is not a decimal integer or another type is an error, and errors change nothing.
\<close>

theorem incr_exact:
  assumes "pluto_laws P k" "db_inv P k g" "maxMemory g \<le> 0" "is_i64 delta"
  shows "refines P db key (incrSpec delta) g (incrBy P db key delta g)"
  by (rule pluto_laws.incr_refines [OF assms(1) db_invD(7) [OF assms(2)] assms(3,4)])

theorem incr_exact_witness: "refines P0 3 ''n'' (incrSpec 5) g0 (incrBy P0 3 ''n'' 5 g0)"
  using incr_exact [OF P0_laws g0_db_inv, of 5] by (simp add: is_i64_def)

text \<open>
  C9: Decimal integers are exact. Every integer the command layer accepts is an int64, also where the unsigned accumulator wraps
  around; parseIntStrict agrees with ParseInt64; parsing the decimal form of an int64 gives it back; and a string of at most
  19 digits parses exactly when it is the decimal form of an int64.
\<close>

theorem decimal_exact:
  "parseIntStrict s = ParseInt64 s \<and> (\<forall>v. ParseInt64 s = Some v \<longrightarrow> is_i64 v) \<and>
   (is_i64 v \<longrightarrow> ParseInt64 (FormatInt v) = Some v) \<and>
   (length (digits_part s) \<le> 19 \<longrightarrow> (ParseInt64 s = Some v \<longleftrightarrow> is_i64 v \<and> FormatInt v = s))"
  using ParseInt64_FormatInt ParseInt64_iff_FormatInt parseIntStrict_eq_ParseInt64 ParseInt64_range by blast

theorem decimal_exact_witness:
  "ParseInt64 (FormatInt (-42)) = Some (-42) \<and> (ParseInt64 ''007'' = Some 7 \<longleftrightarrow> is_i64 7 \<and> FormatInt 7 = ''007'') \<and>
     parseIntStrict ''18446744073709551620'' = Some 4 \<and> is_i64 4"
  using decimal_exact [where s = "''007''" and v = "-42"] decimal_exact [where s = "''007''" and v = 7]
    decimal_exact [where s = "''18446744073709551620''" and v = 4] ParseInt64_wraps
  by (simp add: is_i64_def digits_part_def)





text \<open>
  C12: The command reader recovers exactly the commands a client wrote, in order, however their bytes are cut into reads and however
  many commands are pipelined: every cut of the stream, also inside a length line or a bulk, only postpones a command.
\<close>

theorem commands_of_stream:
  assumes "concat chunks = concat (map (appendCommand []) xs)" "\<forall>args \<in> set xs. args \<noteq> []" "length (concat (map (appendCommand []) xs)) < 2 ^ 62"
  shows "feed chunks [] = Inr (map (\<lambda>args. \<lparr>Raw = appendCommand [] args, Args = args\<rparr>) xs, [])"
proof -
  have e: "appendCommand [] = cmdBytes" by (simp add: fun_eq_iff appendCommand_bytes)
  show ?thesis using feed_stream_gen [of "[]" chunks xs] assms unfolding e by (simp add: mkCommand_def [abs_def])
qed

theorem commands_of_stream_witness:
  "map Args (fst (projr (feed [take 9 (appendCommand [] [''GET'', ''k'']), drop 9 (appendCommand [] [''GET'', ''k''])] []))) = [[''GET'', ''k'']]"
proof -
  let ?b = "appendCommand [] [''GET'', ''k'']"
  have "length (nat_digits (Suc (Suc 0))) \<le> 1" "length (nat_digits (Suc (Suc (Suc 0)))) \<le> 1" "length (nat_digits (Suc 0)) \<le> 1"
    by (rule length_nat_digits; simp)+
  then have "length ?b < 2 ^ 62" by (simp add: appendCommand_bytes cmdBytes_def bulkBytes_def)
  then have "feed [take 9 ?b, drop 9 ?b] [] = Inr (map (\<lambda>args. \<lparr>Raw = appendCommand [] args, Args = args\<rparr>) [[''GET'', ''k'']], [])"
    by (intro commands_of_stream) (simp_all del: feed.simps)
  then show ?thesis by (simp del: feed.simps)
qed



text \<open>
  C14: The reads of a sorted set answer from the sorted list of its elements: ZRANGE by position or by score, with REV, LIMIT and WITHSCORES, and ZREVRANGE reply the slice the
  arguments name (REV by position reverses the slice of ascending positions), ZCOUNT counts the scores in range, ZRANK and ZREVRANK find the position of a member from either end, ZSCORE its score, and the ranges change nothing.
\<close>

theorem zset_reads:
  assumes "pluto_laws P k" "db_inv P k g" "maxMemory g \<le> 0" "no_empty (kv P g)" "kv P g db (args ! 1) = Some (AZSet m, x)" "listing m es"
  shows "(\<forall>opts start stop. zrangeFlags (drop 4 args) noRangeOpts = Inr opts \<and> \<not> hasByLex opts \<and> \<not> hasByScore opts \<and> limitOpt opts = None \<and>
        parseIntStrict (args ! 2) = Some start \<and> parseIntStrict (args ! 3) = Some stop \<longrightarrow>
      fst (cmdZRange P proto db args g) = RArr (zElems (withScores opts) proto ((if zrev opts then rev else id) (ranks start stop es))) \<and>
      kv P (snd (cmdZRange P proto db args g)) = kv P g) \<and>
    (\<forall>opts lo hi. zrangeFlags (drop 4 args) noRangeOpts = Inr opts \<and> \<not> hasByLex opts \<and> hasByScore opts \<and>
        parseScoreBound (args ! (if zrev opts then 3 else 2)) = Some lo \<and> parseScoreBound (args ! (if zrev opts then 2 else 3)) = Some hi \<longrightarrow>
      fst (cmdZRange P proto db args g) = RArr (zElems (withScores opts) proto (limited (limitOpt opts)
        ((if zrev opts then rev else id) (filter (\<lambda>e. scoreIn lo hi (Score e)) es)))) \<and>
      kv P (snd (cmdZRange P proto db args g)) = kv P g) \<and>
    (\<forall>start stop. (\<forall>a \<in> set (drop 4 args). lowerASCII a = ''withscores'') \<and> parseIntStrict (args ! 2) = Some start \<and> parseIntStrict (args ! 3) = Some stop \<longrightarrow>
      fst (cmdZRevRange P proto db args g) = RArr (zElems (drop 4 args \<noteq> []) proto (ranks start stop (rev es))) \<and>
      kv P (snd (cmdZRevRange P proto db args g)) = kv P g) \<and>
    (\<forall>lo hi. parseScoreBound (args ! 2) = Some lo \<and> parseScoreBound (args ! 3) = Some hi \<longrightarrow>
      fst (cmdZCount P db args g) = RInt (int (length (filter (\<lambda>e. scoreIn lo hi (Score e)) es)))) \<and>
    (\<forall>i. length args = 3 \<and> i < length es \<and> Member (es ! i) = args ! 2 \<longrightarrow>
      fst (cmdZRank P db args g) = RInt (int i) \<and> fst (cmdZRevRank P db args g) = RInt (int (length es) - 1 - int i)) \<and>
    fst (cmdZScore P db args g) = optDouble (m (args ! 2))"
proof -
  note A = assms(1) db_invD(7) [OF assms(2)] assms(3) db_invD(3) [OF assms(2)] assms(4) assms(5,6)
  show ?thesis
    using pluto_laws.cmdZRange_spec [OF A _ _ HOL.refl] pluto_laws.zrevrange_spec [OF A] pluto_laws.zset_read_spec(2-4) [OF A]
    by (intro conjI allI impI) (blast | simp)+
qed

theorem zset_reads_witness:
  "fst (cmdZRange P0 3 0 [''ZRANGE'', ''z'', ''0'', ''0'', ''REV''] gZ) = RArr (zElems False 3 [\<lparr>Score = 0, Member = ''a''\<rparr>]) \<and>
   fst (cmdZRevRange P0 3 0 [''ZREVRANGE'', ''z'', ''0'', ''0''] gZ) = RArr (zElems False 3 [\<lparr>Score = 1, Member = ''b''\<rparr>]) \<and>
   fst (cmdZRank P0 0 [''ZRANK'', ''z'', ''b''] gZ) = RInt 1"
proof -
  have n: "parseIntStrict ''0'' = Some 0" by code_simp
  have l: "lowerASCII ''REV'' = ''rev''" by code_simp
  have f: "zrangeFlags [''REV''] noRangeOpts = Inr (noRangeOpts\<lparr>zrev := True\<rparr>)" by (simp add: l)
  have k: "kv P0 gZ 0 ''z'' = Some (AZSet mAB, 0)" by (simp add: gZ_kv)
  note R = zset_reads [OF P0_laws gZ_inv gZ_no_empty _ esAB_listing, of 0 _ 0]
  have "fst (cmdZRange P0 3 0 [''ZRANGE'', ''z'', ''0'', ''0'', ''REV''] gZ) = RArr (zElems False 3 [\<lparr>Score = 0, Member = ''a''\<rparr>])"
    using R [of "[''ZRANGE'', ''z'', ''0'', ''0'', ''REV'']" 3] k n f by (simp add: noRangeOpts_def ranks_def esAB_def)
  moreover have "fst (cmdZRevRange P0 3 0 [''ZREVRANGE'', ''z'', ''0'', ''0''] gZ) = RArr (zElems False 3 [\<lparr>Score = 1, Member = ''b''\<rparr>])"
    using R [of "[''ZREVRANGE'', ''z'', ''0'', ''0'']" 3] k n by (simp add: ranks_def esAB_def)
  moreover have "fst (cmdZRank P0 0 [''ZRANK'', ''z'', ''b''] gZ) = RInt 1"
    using R [of "[''ZRANK'', ''z'', ''b'']" 3, THEN conjunct2, THEN conjunct2, THEN conjunct2, THEN conjunct2, THEN conjunct1, THEN spec [of _ 1]] k
    by (simp add: esAB_def)
  ultimately show ?thesis by blast
qed

text \<open>
  C15: ZPOPMIN and ZPOPMAX reply and remove a prefix of the sorted list of elements, or of its reverse: as many as asked for or as there are, the key goes with the last of them,
  its expiry stays otherwise, and no other key changes; without a count they reply one flat pair.
\<close>

theorem zset_pops:
  assumes "pluto_laws P k" "db_inv P k g" "maxMemory g \<le> 0" "no_empty (kv P g)" "kv P g db (args ! 1) = Some (AZSet m, x)" "listing m es"
    "zPopCmd fromMin P proto db args g = out" "es' = (if fromMin then es else rev es)"
  shows "(\<forall>c. length args = 3 \<and> parseIntStrict (args ! 2) = Some c \<and> 0 \<le> c \<longrightarrow>
      fst out = RArr (zElems True proto (take (nat c) es')) \<and> kv P (snd out) = kvupd (kv P g) db (args ! 1) (popped (nat c) es' m x)) \<and>
    (length args = 2 \<longrightarrow>
      fst out = RArr [RBlob (Member (hd es')), if proto = 3 then RDouble (Score (hd es')) else RBlob (FormatDouble (Score (hd es')))] \<and>
      kv P (snd out) = kvupd (kv P g) db (args ! 1) (popped 1 es' m x))"
  using pluto_laws.zpop_spec [OF assms(1) db_invD(7) [OF assms(2)] assms(3) db_invD(3) [OF assms(2)] assms(4) assms(5-7)] unfolding assms(8) by blast

theorem zset_pops_witness:
  "fst (zPopCmd False P0 3 0 [''ZPOPMAX'', ''z''] gZ) = RArr [RBlob ''b'', RDouble 1] \<and>
   kv P0 (snd (zPopCmd False P0 3 0 [''ZPOPMAX'', ''z''] gZ)) 0 ''z'' = Some (AZSet [''a'' \<mapsto> 0], 0)"
proof -
  have k: "kv P0 gZ 0 ([''ZPOPMAX'', ''z''] ! 1) = Some (AZSet mAB, 0)" by (simp add: gZ_kv)
  have m: "mAB |` (- {''b''}) = [''a'' \<mapsto> 0]" by (auto simp: mAB_def restrict_map_def)
  note Z = zset_pops [OF P0_laws gZ_inv gZ_no_empty k esAB_listing HOL.refl HOL.refl, of False 3, THEN conjunct2]
  then show ?thesis by (simp add: kvupd_def popped_def esAB_def m)
qed

text \<open>
  C16: Scores survive their text exactly: every binary64 number that is not a NaN, infinities and subnormals included, is read back bit for bit from what the server
  prints in replies, where only the sign of a zero is dropped, and from what it prints into the append-only file, where it is kept.
\<close>

theorem score_text_exact:
  assumes "\<not> is_nan f"
  shows "parseFloat (FormatDouble f) = Some (if fmag f = 0 then 0 else f) \<and> parseFloat (FormatFloatG f) = Some f"
  using parse_FormatDouble [OF assms] parse_FormatFloatG [OF assms] by simp

theorem score_text_exact_witness: "parseFloat (FormatDouble 1) = Some 1 \<and> parseFloat (FormatFloatG (withSign True infMag)) = Some (withSign True infMag)"
proof -
  have "\<not> is_nan 1" "fmag 1 \<noteq> 0" by (simp_all add: is_nan_def fmag_def)
  moreover have "\<not> is_nan (withSign True infMag)" using fmag_withSign(1) [of infMag True] by (simp add: is_nan_def infMag_def)
  ultimately show ?thesis using score_text_exact [of 1] score_text_exact [of "withSign True infMag"] by simp
qed

text \<open>
  C17: HSET, HDEL, HSETNX and HINCRBY refine their specifications on association lists: fields keep their insertion order, the
  replies count the fields added and removed, the counter of HINCRBY is exact and refused outside the int64 range, a key of
  another type is WRONGTYPE and unchanged, a key whose last field goes is removed, and no other key changes.
\<close>

theorem hash_writes:
  assumes "pluto_laws P k" "db_inv P k g" "maxMemory g \<le> 0" "no_empty (kv P g)"
  shows "(4 \<le> length args \<and> even (length args) \<longrightarrow>
      refines P db (args ! 1) (hashOp (hsetSpec (drop 2 args))) g (cmdHSet P db args g)) \<and>
    refines P db (args ! 1) (hashOp (hdelSpec (drop 2 args))) g (cmdHDel P db args g) \<and>
    refines P db (args ! 1) (hashOp (hsetnxSpec (args ! 2) (args ! 3))) g (cmdHSetNX P db args g) \<and>
    (\<forall>delta. parseIntStrict (args ! 3) = Some delta \<longrightarrow>
      refines P db (args ! 1) (hashOp (hincrSpec (args ! 2) delta)) g (cmdHIncrBy P db args g))"
  using pluto_laws.cmdHSet_refines [OF assms(1) db_invD(7) [OF assms(2)] assms(3) db_invD(3) [OF assms(2)] assms(4)] pluto_laws.cmdHDel_refines [OF assms(1) db_invD(7) [OF assms(2)] assms(3) db_invD(3) [OF assms(2)] assms(4)]
    pluto_laws.cmdHSetNX_refines [OF assms(1) db_invD(7) [OF assms(2)] assms(3) db_invD(3) [OF assms(2)] assms(4)] pluto_laws.cmdHIncrBy_refines [OF assms(1) db_invD(7) [OF assms(2)] assms(3) db_invD(3) [OF assms(2)] assms(4)] by blast

theorem hash_writes_witness:
  "refines P0 2 ''h'' (hashOp (hsetSpec [''f'', ''v''])) g0 (cmdHSet P0 2 [''HSET'', ''h'', ''f'', ''v''] g0)"
  using hash_writes [OF P0_laws g0_db_inv _ g0_no_empty, of "[''HSET'', ''h'', ''f'', ''v'']" 2] by simp

text \<open>
  C18: The pushes and pops of lists refine their specifications: LPUSH and RPUSH (and the X forms, which need the list to exist)
  put the elements at their end in order and reply the new length; LPOP and RPOP take one element or the given count of them and remove the key
  when the list becomes empty.
\<close>

theorem list_push_pop:
  assumes "pluto_laws P k" "db_inv P k g" "maxMemory g \<le> 0" "no_empty (kv P g)"
  shows "(3 \<le> length args \<longrightarrow> refines P db (args ! 1) (listOp (pushSpec (drop 2 args) head only)) g (pushCmd P db args head only g)) \<and>
    (\<forall>cnt. length args = 2 \<and> cnt = None \<or> length args = 3 \<and> cnt = parseIntStrict (args ! 2) \<and> cnt \<noteq> None \<and> 0 \<le> the cnt \<longrightarrow>
      refines P db (args ! 1) (listOp (popSpec head cnt)) g (popCmd P db args head g))"
  using pluto_laws.pushCmd_refines [OF assms(1) db_invD(7) [OF assms(2)] assms(3) db_invD(3) [OF assms(2)] assms(4)] pluto_laws.popCmd_refines [OF assms(1) db_invD(7) [OF assms(2)] assms(3) db_invD(3) [OF assms(2)] assms(4)] by blast

theorem list_push_pop_witness:
  "refines P0 0 ''l'' (listOp (pushSpec [''a'', ''b''] True False)) g0 (pushCmd P0 0 [''LPUSH'', ''l'', ''a'', ''b''] True False g0)"
  using list_push_pop [OF P0_laws g0_db_inv _ g0_no_empty, of "[''LPUSH'', ''l'', ''a'', ''b'']" 0 True False] by simp

text \<open>
  C19: The edits of lists refine their specifications: LSET by index from either end, LINSERT beside the first pivot, LREM of the first, last
  or all occurrences, LTRIM to a clipped range, and LRANGE. LREM works for every count but the least int64, whose negation overflows.
\<close>

theorem list_edits:
  assumes "pluto_laws P k" "db_inv P k g" "maxMemory g \<le> 0" "no_empty (kv P g)"
  shows "refines P db (args ! 1) (listOp (lsetSpec (args ! 2) (args ! 3))) g (cmdLSet P db args g) \<and>
    (\<forall>before. lowerASCII (args ! 2) = (if before then ''before'' else ''after'') \<longrightarrow>
      refines P db (args ! 1) (listOp (linsertSpec before (args ! 3) (args ! 4))) g (cmdLInsert P db args g)) \<and>
    (\<forall>cnt. parseIntStrict (args ! 2) = Some cnt \<longrightarrow> MinInt64 < cnt \<longrightarrow>
      refines P db (args ! 1) (listOp (lremSpec cnt (args ! 3))) g (cmdLRem P db args g)) \<and>
    (\<forall>start stop. parseIntStrict (args ! 2) = Some start \<longrightarrow> parseIntStrict (args ! 3) = Some stop \<longrightarrow>
      refines P db (args ! 1) (listOp (\<lambda>xs. (replyOK, clip xs start stop))) g (cmdLTrim P db args g) \<and>
      refines P db (args ! 1) (listOp (\<lambda>xs. (RArr (map RBlob (clip xs start stop)), xs))) g (cmdLRange P db args g))"
  using pluto_laws.cmdLSet_refines [OF assms(1) db_invD(7) [OF assms(2)] assms(3) db_invD(3) [OF assms(2)] assms(4)] pluto_laws.linsert_refines [OF assms(1) db_invD(7) [OF assms(2)] assms(3) db_invD(3) [OF assms(2)] assms(4)]
    pluto_laws.lrem_refines [OF assms(1) db_invD(7) [OF assms(2)] assms(3) db_invD(3) [OF assms(2)] assms(4)] pluto_laws.ltrim_refines [OF assms(1) db_invD(7) [OF assms(2)] assms(3) db_invD(3) [OF assms(2)] assms(4)]
    pluto_laws.cmdLRange_refines [OF assms(1) db_invD(7) [OF assms(2)] assms(3) db_invD(3) [OF assms(2)] assms(4)] by blast

theorem list_edits_witness:
  "refines P0 0 ''l'' (listOp (lsetSpec ''0'' ''v'')) g0 (cmdLSet P0 0 [''LSET'', ''l'', ''0'', ''v''] g0)"
  using list_edits [OF P0_laws g0_db_inv _ g0_no_empty, of 0 "[''LSET'', ''l'', ''0'', ''v'']"] by simp

text \<open>
  C20: LMOVE moves exactly one element between two keys: it checks both types before it changes anything, takes the element from the
  chosen end of the source and puts it at the chosen end of the destination, removes a source left empty, keeps the expiries of both, and changes no other key;
  on a single key it rotates the list. It holds for every order in which the shards of the two keys run their tasks.
\<close>

theorem lmove_atomic:
  assumes "pluto_laws P k" "db_inv P k g" "maxMemory g \<le> 0" "no_empty (kv P g)" "evict_safe P g" "db < maxDBs g"
    "sched (groupKeys (ShardIndex P k) [src, dst]) ord" "src \<noteq> dst"
    "lmoveSpec h h' (kv P g db src) (kv P g db dst) = (r, se, de)"
  shows "fst (lmoveCmd P ord db src dst h h' g) = r \<and>
    kv P (snd (lmoveCmd P ord db src dst h h' g)) = kvupd (kvupd (kv P g) db dst de) db src se \<and>
    refines P db src (listOp (rotateSpec h h')) g (lmoveCmd P ord db src src h h' g)"
  using pluto_laws.lmoveCmd_spec [OF assms(1,7,2,5,6,3,4,8,9)] pluto_laws.lmoveSame_refines [OF assms(1) db_invD(7) [OF assms(2)] assms(3) db_invD(3) [OF assms(2)] assms(4)] by blast

theorem lmove_atomic_witness:
  "fst (lmoveCmd P0 [0] 0 ''a'' ''b'' True False g0) = RNull"
  using lmove_atomic [OF P0_laws g0_db_inv _ g0_no_empty g0_safe, of 0 "''a''" "''b''" "[0]" True False RNull None None]
  by (simp add: sched_P0 lmoveSpec_def isWrong_def)

text \<open>
  C21: LPOS finds what its specification lists: the scan with its early exits on RANK, COUNT and MAXLEN is equivalent to
  filtering the window of positions, skipping the matches before the rank and taking the count, for every rank but 0 (refused) and the least int64, which
  behaves as -1.
\<close>

theorem lpos_equiv:
  assumes "lp_rank p \<noteq> 0" "MinInt64 < lp_rank p" "is_i64 (lp_rank p)"
  shows "lposMatches xs elem p = lposSpec xs elem p \<and>
    lposMatches xs elem (p\<lparr>lp_rank := MinInt64\<rparr>) = lposMatches xs elem (p\<lparr>lp_rank := -1\<rparr>)"
  using lposMatches_spec [OF assms] lpos_min_rank by blast

theorem lpos_equiv_witness:
  "lposMatches [''a'', ''b'', ''a''] ''a'' \<lparr>lp_rank = -1, lp_count = 0, lp_maxlen = 0\<rparr> = [2, 0]"
  using lpos_equiv [of "\<lparr>lp_rank = -1, lp_count = 0, lp_maxlen = 0\<rparr>" "[''a'', ''b'', ''a'']" "''a''"]
  by (simp add: is_i64_def lposSpec_def upt_rec)

text \<open>
  C22: SADD and SREM refine union and difference of sets, for members that are canonical (a member that reads as an integer is written
  the way it prints): the replies count the members really added and removed, across both encodings and the promotion between them.
\<close>

theorem set_writes:
  assumes "pluto_laws P k" "db_inv P k g" "maxMemory g \<le> 0" "no_empty (kv P g)" "\<forall>m \<in> set (drop 2 args). canonical_member m" "3 \<le> length args"
  shows "refines P db (args ! 1) (setOp (saddSpec (drop 2 args))) g (cmdSAdd P db args g) \<and>
    refines P db (args ! 1) (setOp (sremSpec (drop 2 args))) g (cmdSRem P db args g)"
  using pluto_laws.cmdSAdd_refines [OF assms(1) db_invD(7) [OF assms(2)] assms(3) db_invD(3) [OF assms(2)] assms(4) assms(5,6)] pluto_laws.cmdSRem_refines [OF assms(1) db_invD(7) [OF assms(2)] assms(3) db_invD(3) [OF assms(2)] assms(4) assms(5)] by blast

theorem set_writes_witness:
  "refines P0 0 ''s'' (setOp (saddSpec [''x''])) g0 (cmdSAdd P0 0 [''SADD'', ''s'', ''x''] g0)"
proof -
  have "ParseInt64 ''x'' = None" by (simp add: ParseInt64_def byte_def)
  then show ?thesis
    using set_writes [OF P0_laws g0_db_inv _ g0_no_empty, of "[''SADD'', ''s'', ''x'']" 0] by (simp add: canonical_member_def)
qed

text \<open>
  C23: SPOP removes exactly the members it replies: as many as asked for or as there are, distinct, all of them from the set, whatever the random
  generator draws and in whatever order the Go map is visited; the key goes when the set is emptied.
\<close>

theorem spop_exact:
  assumes "pluto_laws P k" "db_inv P k g" "maxMemory g \<le> 0" "no_empty (kv P g)" "enumerates (iter 0)"
    "kv P g db (args ! 1) \<noteq> None \<Longrightarrow> rnd < card (setAt (kv P g db (args ! 1)))" "\<And>n. distinct (perm n) \<and> set (perm n) = {..<n}"
    "length args = 2 \<and> cnt = None \<or> length args = 3 \<and> cnt = parseIntStrict (args ! 2) \<and> cnt \<noteq> None \<and> 0 \<le> the cnt"
  shows "\<exists>ms. distinct ms \<and> set ms \<subseteq> setAt (kv P g db (args ! 1)) \<and>
    length ms = min (case cnt of None \<Rightarrow> 1 | Some c \<Rightarrow> nat c) (card (setAt (kv P g db (args ! 1)))) \<and>
    refines P db (args ! 1) (setOp (spopSpec (cnt = None) ms)) g (cmdSPop P iter rnd perm db args g)"
  by (rule pluto_laws.cmdSPop_refines [where iter = iter and rnd = rnd and perm = perm and cnt = cnt and args = args and db = db,
      OF assms(1) db_invD(7) [OF assms(2)] assms(3) db_invD(3) [OF assms(2)] assms(4) assms(5-8)])

theorem spop_exact_witness:
  "\<exists>iter ms. refines P0 0 ''s'' (setOp (spopSpec True ms)) g0 (cmdSPop P0 iter 0 (\<lambda>n. [0..<n]) 0 [''SPOP'', ''s''] g0)"
proof -
  obtain f where "enumerates f" using enumerates_ex by blast
  then show ?thesis
    using spop_exact [OF P0_laws g0_db_inv _ g0_no_empty, of "\<lambda>_. f" 0 "[''SPOP'', ''s'']" 0 "\<lambda>n. [0..<n]" None]
    by (auto simp: atLeast0LessThan)
qed





text \<open>
  C26: DEL removes exactly the named keys of its database and replies how many existed, each counted once; EXISTS counts every mention. Both hold for every order in
  which the shards run their parts.
\<close>

theorem del_exists:
  assumes "pluto_laws P k" "kbits g = k" "maxMemory g \<le> 0" "sched (groupKeys (ShardIndex P k) (tl args)) ord"
  shows "fst (cmdDel P ord db args g) = RInt (int (card {x \<in> set (tl args). kv P g db x \<noteq> None})) \<and>
    kv P (snd (cmdDel P ord db args g)) = (\<lambda>d x. if d = db \<and> x \<in> set (tl args) then None else kv P g d x) \<and>
    fst (cmdExists P ord db args g) = RInt (int (length (filter (\<lambda>x. kv P g db x \<noteq> None) (tl args)))) \<and>
    kv P (snd (cmdExists P ord db args g)) = kv P g"
  using pluto_laws.cmdDel_spec [OF assms(1,4,2,3)] pluto_laws.cmdExists_spec [OF assms(1,4,2,3)] by blast

theorem del_exists_witness: "fst (cmdDel P0 [0] 0 [''DEL'', ''a'', ''b''] g0) = RInt 0"
  using del_exists [OF P0_laws g0_sel(1), of "[''DEL'', ''a'', ''b'']" "[0]" 0] by (simp add: sched_P0)



text \<open>
  C28: The glob matcher is equivalent to a reference that reads the pattern as a sequence of tokens and asks whether the string splits into one piece per token: a star takes any piece,
  another token one byte that it accepts, and an unterminated class nothing. Escaping every byte of a string gives a pattern that matches that string only.
\<close>

theorem glob_equiv: "(GlobMatch p s \<longleftrightarrow> gmatch (toks p) s) \<and> (GlobMatch (escape t) s \<longleftrightarrow> s = t)"
  using GlobMatch_pieces GlobMatch_escape by blast

text \<open>
  C29: Iterating a collection with the offset cursor of HSCAN ends and misses nothing: a client that sends back the cursor of each reply receives the cursor 0 after at most
  the number of pages the count gives, and the pages together are the items that match, each once and in order, as long as the collection does not change.
\<close>

theorem scan_window_complete:
  assumes "length items < 2 ^ 63" "0 < cnt" "cnt < 2 ^ 63" "length items \<le> Suc n * nat cnt"
  shows "scanPages (Suc n) items ''0'' cnt keep = Some (filter keep items)"
  by (rule scanPages_full [OF assms])

theorem scan_window_complete_witness: "scanPages (Suc 1) [''a'', ''b'', ''c''] ''0'' 2 (\<lambda>s. s \<noteq> ''b'') = Some [''a'', ''c'']"
  using scan_window_complete [of "[''a'', ''b'', ''c'']" 2 1 "\<lambda>s. s \<noteq> ''b''"] by (simp del: scanPages.simps)

text \<open>
  C30: KEYS and SCAN find the database: KEYS replies exactly the live keys that match the pattern, each once, and the fast path for a lone star changes nothing.
  A full SCAN ends and covers it: with accepted options, a client that sends back the cursor of each reply ends up with a set of keys that is exactly the live keys that match,
  given the table package's contract for a table that does not change and cursors below two to the 63, the range the cursor argument can express.
\<close>

theorem keys_and_scan:
  assumes "scan_laws (PT P) route W"
  shows "(\<exists>keys. cmdKeys W db args g = RArr (map RBlob keys) \<and> distinct keys \<and>
      set keys = {key. kv P g db key \<noteq> None \<and> GlobMatch (args ! 1) key}) \<and>
    (scanopts_loop opts None 10 = Inr (match, cnt) \<and> (\<forall>c. snd (th_scan W (dbs g db) c cnt) < 2 ^ 63) \<longrightarrow>
      (\<exists>n ks. scanSession W db opts g n ''0'' = Some (map RBlob ks) \<and> set ks = {key. kv P g db key \<noteq> None \<and> matchOpt match key}))"
proof (intro conjI impI)
  show "\<exists>keys. cmdKeys W db args g = RArr (map RBlob keys) \<and> distinct keys \<and> set keys = {key. kv P g db key \<noteq> None \<and> GlobMatch (args ! 1) key}"
    by (rule cmdKeys_spec [OF assms])
  assume "scanopts_loop opts None 10 = Inr (match, cnt) \<and> (\<forall>c. snd (th_scan W (dbs g db) c cnt) < 2 ^ 63)"
  then show "\<exists>n ks. scanSession W db opts g n ''0'' = Some (map RBlob ks) \<and> set ks = {key. kv P g db key \<noteq> None \<and> matchOpt match key}"
    using scan_complete [OF assms] by blast
qed

theorem keys_and_scan_witness:
  "(\<exists>keys. cmdKeys listW 0 [''KEYS'', ''*''] g0 = RArr (map RBlob keys) \<and> distinct keys) \<and>
   (\<exists>n ks. scanSession listW 0 [] g0 n ''0'' = Some (map RBlob ks) \<and> set ks = {})"
proof -
  have l: "scan_laws (PT P0) (routeOf (\<lambda>_. 0) 0) listW" unfolding P0_def listP_sel by (rule lw.scan_laws_axioms)
  have "dbs g0 0 = []" by (simp add: g0_def NewEngine_sel P0_def listT_def)
  then show ?thesis
    using keys_and_scan [OF l, of 0 "[''KEYS'', ''*'']" g0 "[]" None 10] by (auto simp: listW_def)
qed

text \<open>
  C31: The push queue delivers everything, in order. FIFO: over any run of enqueues and dequeues from an empty queue, what the consumer received followed by what the ring
  still holds is exactly what was accepted, in order, through every growth and wrap-around of the ring, for item sizes that keep the byte counter in range. No wake-up
  is lost: in every reachable interleaving of producers with the one consumer, a consumer parked on an empty queue while an item is waiting has a signal pending or on
  its way, and steps that only finish that signal and the wake-up give it the oldest item.
\<close>

theorem push_queue_delivers:
  shows "(q_inv q \<and> q_cap q \<le> C \<and> slots q = [] \<and> enqs_ok (\<lambda>x. 0 \<le> snd x \<and> snd x \<le> MaxInt64 - C) ops \<and>
      qrun fst (\<lambda>q x. Enqueue zero q (fst x) (snd x)) (TryDequeue zero) ops q = (acc, out, q') \<longrightarrow>
      acc = out @ map fst (slots q')) \<and>
    ((qstep zero)\<^sup>*\<^sup>* (newSys c) s \<and> cons s = Parked \<and> 0 < q_count (ring s) \<longrightarrow>
      (chan s \<or> 0 < signals s) \<and> (\<exists>s'. (qstep zero)\<^sup>*\<^sup>* s s' \<and> cons s' = Got (q_items (ring s) ! q_head (ring s))))"
  using pq.run_in_order [of q C ops zero acc out q'] no_lost_wakeup [of zero c s] parked_gets_item [of zero c s] by (auto simp: no_lost_def)

theorem push_queue_delivers_witness:
  "(\<exists>acc out q'. qrun fst (\<lambda>q x. Enqueue (0::nat) q (fst x) (snd x)) (TryDequeue 0) [Enq (7, 1), Enq (8, 2), Deq] (NewQ 10) = (acc, out, q') \<and>
     acc = out @ map fst (slots q')) \<and>
   (\<exists>s. (qstep (0::nat))\<^sup>*\<^sup>* (newSys 10) s \<and> cons s = Parked \<and> (chan s \<or> 0 < signals s))"
proof
  have q: "q_inv (NewQ 10 :: nat q)" "slots (NewQ 10 :: nat q) = []" "q_cap (NewQ 10 :: nat q) \<le> 10"
    using NewQ_inv [of 10] by (auto simp: is_i64_def NewQ_def)
  obtain acc out q' where r: "qrun fst (\<lambda>q x. Enqueue (0::nat) q (fst x) (snd x)) (TryDequeue 0) [Enq (7, 1), Enq (8, 2), Deq] (NewQ 10) = (acc, out, q')"
    by (rule prod_cases3)
  have "enqs_ok (\<lambda>x :: nat \<times> int. 0 \<le> snd x \<and> snd x \<le> MaxInt64 - 10) [Enq (7, 1), Enq (8, 2), Deq]" by (simp add: enqs_ok_def)
  with push_queue_delivers [THEN conjunct1, rule_format, OF conjI, OF q(1) conjI, OF q(3) conjI, OF q(2) conjI, OF _ r] r
  show "\<exists>acc out q'. qrun fst (\<lambda>q x. Enqueue (0::nat) q (fst x) (snd x)) (TryDequeue 0) [Enq (7, 1), Enq (8, 2), Deq] (NewQ 10) = (acc, out, q') \<and>
     acc = out @ map fst (slots q')" by blast
next
  let ?p = "(newSys 10 :: nat qsys)\<lparr>cons := Parked\<rparr>"
  let ?s = "?p\<lparr>ring := snd (Enqueue 0 (ring ?p) 7 1), signals := Suc (signals ?p)\<rparr>"
  have "qstep 0 (newSys 10) ?p" by (rule qstep.park) (auto simp: newSys_def NewQ_def)
  moreover have e: "Enqueue 0 (ring ?p) 7 1 = (True, snd (Enqueue 0 (ring ?p) 7 1))" by code_simp
  ultimately have r: "(qstep 0)\<^sup>*\<^sup>* (newSys 10) ?s"
    using qstep.enqueue [OF e] by (rule_tac rtranclp.rtrancl_into_rtrancl [OF r_into_rtranclp])
  have "0 < q_count (ring ?s)" by code_simp
  with r push_queue_delivers [THEN conjunct2, rule_format, of 0 10 ?s] show "\<exists>s. (qstep (0::nat))\<^sup>*\<^sup>* (newSys 10) s \<and> cons s = Parked \<and> (chan s \<or> 0 < signals s)"
    by (intro exI [of _ ?s]) simp
qed

text \<open>
  C32: The notification flags survive printing and parsing: every mask of class bits prints to a string that parses back to it, except that the letter n is dropped beside a full A; and every string the parser
  accepts yields a mask of class bits.
\<close>

theorem notify_roundtrip:
  "(printable f \<longrightarrow> parseNotifyFlags (notifyFlagsToString f) = Some f) \<and> (parseNotifyFlags s = Some f \<longrightarrow> bit f n \<longrightarrow> n < 14)"
  using parse_print parse_classes by blast

theorem notify_roundtrip_witness: "parseNotifyFlags (notifyFlagsToString (nfBit 0)) = Some (nfBit 0)"
proof -
  have "\<not> bit (nfBit 0 AND nfAll) 2" "bit nfAll 2" by (auto simp: bit_simps bit_nfBit bit_nfAll)
  then have "nfBit 0 AND nfAll \<noteq> nfAll" by metis
  then have "printable (nfBit 0)" by (auto simp: printable_def bit_nfBit)
  then show ?thesis using notify_roundtrip by blast
qed

text \<open>
  C33: PUBLISH delivers exactly what it owes: each subscriber whose delivery hook is set receives one message if it is on the channel and then one pmessage for each of its matching patterns in
  pattern order; the publisher's own messages go to its outbox; and the reply counts all deliveries.
\<close>

theorem publish_exact:
  assumes "broker_inv b" "reorders ord" "Publish ord b channel payload selfID True = (n, self, out)"
  shows "self = owed b selfID channel payload \<and>
    (\<forall>sid. sid \<noteq> selfID \<longrightarrow> reaches b sid \<longrightarrow> map snd (filter (\<lambda>d. fst d = sid) out) = owed b sid channel payload) \<and>
    n = length (subsOf (channels b) channel) + sum_list (map (\<lambda>p. if Match b (fst p) channel then length (snd p) else 0) (patterns b))"
  using Publish_self [OF assms] Publish_others [OF assms(1,2) _ _ assms(3)] Publish_count [OF assms(2), of b channel payload selfID True] assms(3) by auto

theorem publish_exact_witness:
  "fst (snd (Publish id (Subscribe (NewBroker GlobMatch) ''ch'' 3 True) ''ch'' ''hi'' 3 True)) = [message ''ch'' ''hi'']"
proof -
  let ?b = "Subscribe (NewBroker GlobMatch) ''ch'' 3 True"
  let ?r = "Publish id ?b ''ch'' ''hi'' 3 True"
  have b: "broker_inv ?b" by (simp add: broker_inv_def reg_inv_def Subscribe_def NewBroker_def regAdd_def subsOf_def)
  have o: "owed ?b 3 ''ch'' ''hi'' = [message ''ch'' ''hi'']"
    by (simp add: owed_def on_def Subscribe_def NewBroker_def regAdd_def subsOf_def)
  have "reorders id" by (simp add: reorders_def)
  from publish_exact [OF b this, of "''ch''" "''hi''" 3 "fst ?r" "fst (snd ?r)" "snd (snd ?r)"] o show ?thesis by simp
qed

text \<open>
  C34: A connection's record of its subscriptions and the broker's registry stay in step: SUBSCRIBE, PSUBSCRIBE, UNSUBSCRIBE and PUNSUBSCRIBE keep the registry free of empty and duplicate entries, keep the two
  records equal, and touch no other connection's registrations.
\<close>

theorem pubsub_in_step:
  assumes "broker_inv b" "in_step cs b"
    "(r, cs', b') \<in> {cmdSubscribe cs args b, cmdPSubscribe cs args b, cmdUnsubscribe cs args b, cmdPUnsubscribe cs args b}"
  shows "broker_inv b' \<and> in_step cs' b' \<and> same_others (c_id cs) b b'"
  using assms(3) pubsub_good(1) [of cs b args] pubsub_good(2) [of cs b args] pubsub_good(3) [of cs b args False] pubsub_good(3) [of cs b args True] assms(1,2)
  by (auto simp: good_step_def cmdUnsubscribe_def cmdPUnsubscribe_def prod_eq_iff)

theorem pubsub_in_step_witness:
  "broker_inv (snd (snd (cmdSubscribe \<lparr>c_id = 3, c_subs = [], c_psubs = [], c_start = True, c_deliver = False, outbox = []\<rparr> [''SUBSCRIBE'', ''ch''] (NewBroker GlobMatch))))"
proof -
  let ?c = "\<lparr>c_id = 3, c_subs = [], c_psubs = [], c_start = True, c_deliver = False, outbox = []\<rparr>"
  let ?r = "cmdSubscribe ?c [''SUBSCRIBE'', ''ch''] (NewBroker GlobMatch)"
  have "broker_inv (NewBroker GlobMatch)" "in_step ?c (NewBroker GlobMatch)"
    by (simp_all add: broker_inv_def reg_inv_def in_step_def on_def subsOf_def NewBroker_def)
  from pubsub_in_step [OF this, of "fst ?r" "fst (snd ?r)" "snd (snd ?r)" "[''SUBSCRIBE'', ''ch'']"] show ?thesis by simp
qed



text \<open>
  C36: Optimistic locking: when a connection watches a key and, while the server runs any steps of any connections, the key is stored, touched, deleted or flushed, then the connection's EXEC, if it still
  watches, replies null, leaves MULTI, sends and logs nothing and runs none of the queue: keys can only be gone (expired or evicted).
\<close>

theorem watch_then_exec:
  assumes "pluto_laws P k" "server_ok P k s1" "clients s1 i = Some cs1" "x \<in> set (Watched cs1)" "(server_step P k)\<^sup>*\<^sup>* s1 s2"
    "(kstep P k)\<^sup>*\<^sup>* (Shards (engine s1)) g1" "writes P k (w_db x) (w_key x) g1 g2" "(kstep P k)\<^sup>*\<^sup>* g2 (Shards (engine s2))"
    "clients s2 i = Some cs" "x \<in> set (Watched cs)" "Multi cs" "\<not> QueueErr cs"
    "env_ok k E" "pk E = P" "handler E ''exec'' cs [a] (engine s2) = (r, cs', w')"
  shows "r = RNull \<and> cs' = clearTx cs \<and> w' = (engine s2)\<lparr>Shards := Shards w'\<rparr> \<and>
    (\<forall>db key. kv P (Shards w') db key = kv P (Shards (engine s2)) db key \<or> kv P (Shards w') db key = None)"
  by (rule watch_write_exec [OF assms])

theorem watch_then_exec_witness:
  "\<exists>s2. (server_step P0 0)\<^sup>*\<^sup>* s0 s2 \<and> clients s2 3 = Some watcher0 \<and> fst (handler E0 ''exec'' watcher0 [''EXEC''] (engine s2)) = RNull"
proof -
  obtain r cs' w' where x: "Execute E0 (conn0 4) [''FLUSHDB''] w0 = (r, cs', w')" and sh: "Shards w' = (FlushDBTok P0 g0 0)\<lparr>events := []\<rparr>"
    by (rule flush0)
  let ?s = "s0\<lparr>engine := w', clients := (clients s0)(4 \<mapsto> cs')\<rparr>"
  have "server_step P0 0 s0 ?s"
    by (rule server_step.s_execute [of s0 4 "conn0 4" E0 P0 0 "[''FLUSHDB'']" r cs' w']) (use x in \<open>simp_all add: s0_def\<close>)
  then have st: "(server_step P0 0)\<^sup>*\<^sup>* s0 ?s" by blast
  have "removes P0 0 (\<lambda>_. False) (FlushDBTok P0 g0 0) (Shards w')"
    unfolding sh by (rule removes.quiet_step [OF removes.refl]) (simp add: quiet_def)
  then have k: "(kstep P0 0)\<^sup>*\<^sup>* (FlushDBTok P0 g0 0) (Shards w')" using kstep.removal by blast
  obtain v c2 w2 where h: "handler E0 ''exec'' watcher0 [''EXEC''] w' = (v, c2, w2)" by (rule prod_cases3)
  have cl: "clients s0 3 = Some watcher0" "clients ?s 3 = Some watcher0" "engine ?s = w'" "Shards (engine s0) = g0" by (simp_all add: s0_def)
  have wt: "ref0 \<in> set (Watched watcher0)" "Multi watcher0" "\<not> QueueErr watcher0" "w_db ref0 = 0" "w_key ref0 = ''k''"
    by (simp_all add: watcher0_def ref0_def)
  have "v = RNull"
    using watch_then_exec [OF P0_laws s0_ok cl(1) wt(1) st _ _ _ cl(2) wt(1-3) E0_ok pk_E0, of g0 "FlushDBTok P0 g0 0" "''EXEC''" v c2 w2]
      k h cl(3,4) wt(4,5) writes.w_flush [of P0 0 0 "''k''" g0] by simp
  then show ?thesis using st cl(2,3) h by (intro exI [of _ ?s]) simp
qed



text \<open>
  C38: With a password configured, a connection that has not presented it reaches no key: every known command but AUTH, HELLO, QUIT and RESET is refused with NOAUTH; no command writes or removes a key, except that the
  memory gate may evict when memory is short; the password cannot be changed; and the connection becomes authenticated only by a command that carries the password.
\<close>

theorem noauth_reaches_nothing:
  assumes "pluto_laws (pk E) k" "world_ok k E w" "requirePass w \<noteq> []" "\<not> Authed cs" "Execute E cs args w = (r, cs', w')"
  shows "(args \<noteq> [] \<longrightarrow> table (lowerASCII (args ! 0)) \<noteq> None \<longrightarrow> lowerASCII (args ! 0) \<notin> set preauth \<longrightarrow> r = errNoAuth \<and> cs' = cs \<and> Shards w' = Shards w) \<and>
    (\<forall>db key. kv (pk E) (Shards w') db key = kv (pk E) (Shards w) db key \<or> kv (pk E) (Shards w') db key = None \<and> OverMemory (Shards w)) \<and>
    (Authed cs' \<longrightarrow> requirePass w \<in> set args) \<and> requirePass w' = requirePass w"
  using noauth_safe [OF assms] by blast

theorem noauth_reaches_nothing_witness:
  "fst (Execute E0 (conn0 3) [''GET'', ''k''] (w0\<lparr>requirePass := ''pw''\<rparr>)) = errNoAuth"
proof -
  obtain r cs' w' where x: "Execute E0 (conn0 3) [''GET'', ''k''] (w0\<lparr>requirePass := ''pw''\<rparr>) = (r, cs', w')" by (rule prod_cases3)
  have t: "table (lowerASCII ''GET'') \<noteq> None" "lowerASCII ''GET'' \<notin> set preauth" by code_simp+
  show ?thesis using noauth_reaches_nothing [OF _ w0_ok(2) _ _ x] x t by simp
qed





end
